(* ===== verification/Kore_Prelude.thy ===== *)
theory Kore_Prelude
  imports Main "HOL-Library.Word" "HOL-Library.Code_Target_Nat"
begin

text \<open>
  Shared vocabulary of the development.

  \<^item> Types that the Rust sources share: bytes (u8), characters (Unicode scalar values, kept
    as their numeric value), strings as lists of characters.
  \<^item> Results: a fallible function of the source returns a sum, \<open>Inl\<close> for \<open>Err\<close> and \<open>Inr\<close> for
    \<open>Ok\<close>; \<open>and_then\<close> is the propagation the source writes with the question mark operator.
  \<^item> Orderings: the three-valued result of \<open>Ord::cmp\<close>, lexicographic combination
    (\<open>then_with\<close>), slice comparison (\<open>list_cmp\<close>), and two interfaces for comparison functions,
    \<open>weak_cmp\<close> and \<open>total_cmp\<close>, with the facts their clients use.
  \<^item> Two collections: \<open>cmp_simps\<close> (facts that reduce a comparison to its parts) and \<open>rust_defs\<close>
    (definitions of library wrappers that proofs unfold).
\<close>

named_theorems cmp_simps
named_theorems rust_defs

type_synonym byte = "8 word"
type_synonym uchar = nat
type_synonym str = "uchar list"

abbreviation ch :: "char \<Rightarrow> uchar" where "ch c \<equiv> of_char c"
abbreviation lit :: "string \<Rightarrow> str" where "lit s \<equiv> map of_char s"

text \<open>The spelling of a matching-logic keyword: a backslash and a name.\<close>

abbreviation ml :: "string \<Rightarrow> str" where "ml s \<equiv> 92 # map of_char s"

section \<open>Results\<close>

fun and_then :: "'e + 'a \<Rightarrow> ('a \<Rightarrow> 'e + 'b) \<Rightarrow> 'e + 'b" where
  "and_then (Inl e) f = Inl e"
| "and_then (Inr a) f = f a"

lemma and_then_cong [fundef_cong]:
  assumes "m = m'" and "\<And>a. m' = Inr a \<Longrightarrow> f a = g a"
  shows "and_then m f = and_then m' g"
  using assms by (cases m') auto

lemma and_then_Inr_iff: "and_then m f = Inr b \<longleftrightarrow> (\<exists>a. m = Inr a \<and> f a = Inr b)"
  by (cases m) auto

lemma and_then_Inl_iff: "and_then m f = Inl e \<longleftrightarrow> m = Inl e \<or> (\<exists>a. m = Inr a \<and> f a = Inl e)"
  by (cases m) auto

lemma and_thenE:
  assumes "and_then m f = Inr b"
  obtains a where "m = Inr a" "f a = Inr b"
  using assms by (cases m) auto

text \<open>\<open>collect\<close> into a \<open>Result\<close>: the first error, or all values in order.\<close>

fun collect_results :: "('a \<Rightarrow> 'e + 'b) \<Rightarrow> 'a list \<Rightarrow> 'e + 'b list" where
  "collect_results f [] = Inr []"
| "collect_results f (x # xs) =
     and_then (f x) (\<lambda>y. and_then (collect_results f xs) (\<lambda>ys. Inr (y # ys)))"

lemma collect_results_map:
  "(\<And>x. x \<in> set xs \<Longrightarrow> f (g x) = Inr (h x)) \<Longrightarrow> collect_results f (map g xs) = Inr (map h xs)"
  by (induction xs) auto

text \<open>\<open>collect\<close> into an \<open>Option\<close>.\<close>

fun collect_options :: "('a \<Rightarrow> 'b option) \<Rightarrow> 'a list \<Rightarrow> 'b list option" where
  "collect_options f [] = Some []"
| "collect_options f (x # xs) =
     (case f x of None \<Rightarrow> None
      | Some y \<Rightarrow> (case collect_options f xs of None \<Rightarrow> None | Some ys \<Rightarrow> Some (y # ys)))"

lemma collect_options_Some_iff:
  "collect_options f xs = Some ys \<longleftrightarrow> map f xs = map Some ys"
proof (induction xs arbitrary: ys)
  case (Cons x xs)
  show ?case
    using Cons.IH [of "tl ys"] by (cases ys) (auto split: option.splits)
qed auto

lemma collect_options_cong [fundef_cong]:
  assumes "xs = xs'" and "\<And>x. x \<in> set xs' \<Longrightarrow> f x = g x"
  shows "collect_options f xs = collect_options g xs'"
proof -
  have "collect_options f xs' = collect_options g xs'"
    using assms(2) by (induction xs') (auto split: option.split)
  then show ?thesis by (simp add: assms(1))
qed

lemma collect_options_map [simp]: "collect_options f (map g xs) = collect_options (\<lambda>x. f (g x)) xs"
  by (induction xs) (auto split: option.split)

lemma collect_options_Some [simp]: "collect_options (\<lambda>x. Some (f x)) xs = Some (map f xs)"
  by (simp add: collect_options_Some_iff)

lemma collect_options_all: "(\<And>x. x \<in> set xs \<Longrightarrow> f x = Some (g x)) \<Longrightarrow> collect_options f xs = Some (map g xs)"
  by (simp add: collect_options_Some_iff)

section \<open>Orderings\<close>

datatype ordering = Less | Equal | Greater

text \<open>\<open>Ordering::then_with\<close>: the second comparison decides when the first is equal.\<close>

fun then_with :: "ordering \<Rightarrow> ordering \<Rightarrow> ordering" where
  "then_with Equal b = b"
| "then_with a b = a"

fun reverse :: "ordering \<Rightarrow> ordering" where
  "reverse Less = Greater"
| "reverse Equal = Equal"
| "reverse Greater = Less"

lemma reverse_reverse [simp]: "reverse (reverse a) = a"
  by (cases a) auto

lemma then_with_Equal [simp]: "then_with a Equal = a"
  by (cases a) auto

lemma then_with_assoc: "then_with (then_with a b) c = then_with a (then_with b c)"
  by (cases a) auto

lemma reverse_then_with: "reverse (then_with a b) = then_with (reverse a) (reverse b)"
  by (cases a) auto

lemma then_with_eq_Equal_iff [simp]: "then_with a b = Equal \<longleftrightarrow> a = Equal \<and> b = Equal"
  by (cases a) auto

lemma then_with_eq_Less_iff: "then_with a b = Less \<longleftrightarrow> a = Less \<or> (a = Equal \<and> b = Less)"
  by (cases a) auto

lemma reverse_eq_iff [simp]:
  "reverse a = Equal \<longleftrightarrow> a = Equal" "reverse a = Less \<longleftrightarrow> a = Greater" "reverse a = Greater \<longleftrightarrow> a = Less"
  by (cases a; simp)+

text \<open>\<open>Ord::cmp\<close> of a type whose order the model has as a linear order already.\<close>

definition ord_cmp :: "'a::linorder \<Rightarrow> 'a \<Rightarrow> ordering" where
  "ord_cmp a b = (if a < b then Less else if a = b then Equal else Greater)"

text \<open>\<open>Ord::cmp\<close> of slices: the first differing pair, then the lengths.\<close>

fun list_cmp :: "('a \<Rightarrow> 'a \<Rightarrow> ordering) \<Rightarrow> 'a list \<Rightarrow> 'a list \<Rightarrow> ordering" where
  "list_cmp cmp [] [] = Equal"
| "list_cmp cmp [] (b # bs) = Less"
| "list_cmp cmp (a # as) [] = Greater"
| "list_cmp cmp (a # as) (b # bs) = then_with (cmp a b) (list_cmp cmp as bs)"

lemma list_cmp_cong [fundef_cong]:
  assumes "as = as'" and "bs = bs'"
    and "\<And>a b. a \<in> set as' \<Longrightarrow> b \<in> set bs' \<Longrightarrow> cmp a b = cmp' a b"
  shows "list_cmp cmp as bs = list_cmp cmp' as' bs'"
proof -
  have "list_cmp cmp as' bs' = list_cmp cmp' as' bs'"
    using assms(3) by (induction cmp' as' bs' rule: list_cmp.induct) auto
  then show ?thesis by (simp add: assms(1,2))
qed

text \<open>Slices compare by the pairs at common positions first and by length last.\<close>

lemma list_cmp_zip:
  "list_cmp cmp as bs =
     then_with (foldr then_with (map2 cmp as bs) Equal) (ord_cmp (length as) (length bs))"
  by (induction cmp as bs rule: list_cmp.induct) (auto simp: ord_cmp_def then_with_assoc)

section \<open>Interfaces of comparison functions\<close>

text \<open>
  A weak comparison is the comparison of a total preorder: comparing twice in the two directions
  gives reversed answers, and \<open>not Greater\<close> is transitive.
\<close>

locale weak_cmp =
  fixes cmp :: "'a \<Rightarrow> 'a \<Rightarrow> ordering"
  assumes refl [simp]: "cmp a a = Equal"
    and flip: "cmp b a = reverse (cmp a b)"
    and chain: "cmp a b \<noteq> Greater \<Longrightarrow> cmp b c \<noteq> Greater \<Longrightarrow>
      cmp a c = then_with (cmp a b) (cmp b c)"
begin

lemma equal_sym: "cmp a b = Equal \<Longrightarrow> cmp b a = Equal"
  by (simp add: flip [of a b])

lemma less_trans: "cmp a b = Less \<Longrightarrow> cmp b c = Less \<Longrightarrow> cmp a c = Less"
  using chain [of a b c] by simp

lemma less_equal_trans: "cmp a b = Less \<Longrightarrow> cmp b c = Equal \<Longrightarrow> cmp a c = Less"
  using chain [of a b c] by simp

lemma equal_less_trans: "cmp a b = Equal \<Longrightarrow> cmp b c = Less \<Longrightarrow> cmp a c = Less"
  using chain [of a b c] by simp

lemma equal_trans: "cmp a b = Equal \<Longrightarrow> cmp b c = Equal \<Longrightarrow> cmp a c = Equal"
  using chain [of a b c] by simp

text \<open>Comparing by a key is a weak comparison too.\<close>

lemma on_key: "weak_cmp (\<lambda>x y. cmp (key x) (key y))"
  by unfold_locales (auto intro: flip chain)

end

text \<open>A total comparison also separates different values: it is \<open>Ord\<close> beside \<open>Eq\<close>.\<close>

locale total_cmp = weak_cmp +
  assumes eqD: "cmp a b = Equal \<Longrightarrow> a = b"
begin

lemma eq_iff [simp]: "cmp a b = Equal \<longleftrightarrow> a = b"
  using eqD by auto

definition le :: "'a \<Rightarrow> 'a \<Rightarrow> bool" where "le a b \<longleftrightarrow> cmp a b \<noteq> Greater"
definition lt :: "'a \<Rightarrow> 'a \<Rightarrow> bool" where "lt a b \<longleftrightarrow> cmp a b = Less"

lemma lt_iff: "lt a b \<longleftrightarrow> le a b \<and> \<not> le b a"
  unfolding le_def lt_def flip [of a b] by (cases "cmp a b") auto

lemma le_refl: "le a a"
  by (simp add: le_def)

lemma le_trans: "le a b \<Longrightarrow> le b c \<Longrightarrow> le a c"
  unfolding le_def using chain [of a b c] by (cases "cmp a b"; cases "cmp b c") auto

lemma le_antisym: "le a b \<Longrightarrow> le b a \<Longrightarrow> a = b"
  using flip [of b a] eqD [of a b] unfolding le_def by (cases "cmp a b") auto

lemma le_total: "le a b \<or> le b a"
  unfolding le_def flip [of a b] by (cases "cmp a b") auto

end

lemma ord_cmp_total: "total_cmp (ord_cmp :: 'a::linorder \<Rightarrow> 'a \<Rightarrow> ordering)"
  by unfold_locales (auto simp: ord_cmp_def split: if_splits)

interpretation nat_cmp: total_cmp "ord_cmp :: nat \<Rightarrow> nat \<Rightarrow> ordering"
  by (rule ord_cmp_total)

interpretation byte_cmp: total_cmp "ord_cmp :: byte \<Rightarrow> byte \<Rightarrow> ordering"
  by (rule ord_cmp_total)

section \<open>Comparison of slices\<close>

text \<open>
  The laws of \<open>list_cmp\<close>, from the same laws for the elements of the first list: this is the
  form an induction over a tree of lists needs, where the hypothesis speaks of the children.
\<close>

lemma list_cmp_refl: "(\<And>a. a \<in> set as \<Longrightarrow> cmp a a = Equal) \<Longrightarrow> list_cmp cmp as as = Equal"
  by (induction as) auto

lemma list_cmp_flip:
  "(\<And>a b. a \<in> set as \<Longrightarrow> b \<in> set bs \<Longrightarrow> cmp b a = reverse (cmp a b)) \<Longrightarrow>
   list_cmp cmp bs as = reverse (list_cmp cmp as bs)"
  by (induction cmp as bs rule: list_cmp.induct) (auto simp: reverse_then_with)

lemma list_cmp_chain:
  "(\<And>a b c. a \<in> set as \<Longrightarrow> b \<in> set bs \<Longrightarrow> c \<in> set cs \<Longrightarrow> cmp a b \<noteq> Greater \<Longrightarrow>
      cmp b c \<noteq> Greater \<Longrightarrow> cmp a c = then_with (cmp a b) (cmp b c)) \<Longrightarrow>
   list_cmp cmp as bs \<noteq> Greater \<Longrightarrow> list_cmp cmp bs cs \<noteq> Greater \<Longrightarrow>
   list_cmp cmp as cs = then_with (list_cmp cmp as bs) (list_cmp cmp bs cs)"
proof (induction cmp as bs arbitrary: cs rule: list_cmp.induct)
  case (4 cmp a as b bs)
  from "4.prems"(3) obtain c cs' where cs: "cs = c # cs'"
    by (cases cs) auto
  have ab: "cmp a b \<noteq> Greater" and bc: "cmp b c \<noteq> Greater"
    using "4.prems"(2,3) cs by (cases "cmp a b"; cases "cmp b c"; simp)+
  have ac: "cmp a c = then_with (cmp a b) (cmp b c)"
    using "4.prems"(1) [of a b c] ab bc cs by simp
  have IH: "cmp a b = Equal \<Longrightarrow> cmp b c = Equal \<Longrightarrow>
      list_cmp cmp as cs' = then_with (list_cmp cmp as bs) (list_cmp cmp bs cs')"
    using "4.IH" [of cs'] "4.prems" cs by simp
  show ?case
    using ab bc ac IH "4.prems"(2)
    by (cases "cmp a b"; cases "cmp b c"; cases "list_cmp cmp as bs") (auto simp: cs)
next
  case (2 cmp b bs)
  then show ?case by (cases cs) auto
qed (auto split: list.splits)

lemma list_cmp_eqD:
  "(\<And>a b. a \<in> set as \<Longrightarrow> b \<in> set bs \<Longrightarrow> cmp a b = Equal \<Longrightarrow> a = b) \<Longrightarrow>
   list_cmp cmp as bs = Equal \<Longrightarrow> as = bs"
  by (induction cmp as bs rule: list_cmp.induct) auto

context total_cmp
begin

lemma slices: "total_cmp (list_cmp cmp)"
proof
  show "list_cmp cmp as as = Equal" for as
    by (rule list_cmp_refl) simp
  show "list_cmp cmp bs as = reverse (list_cmp cmp as bs)" for as bs
    by (rule list_cmp_flip) (rule flip)
  show "list_cmp cmp as cs = then_with (list_cmp cmp as bs) (list_cmp cmp bs cs)"
    if "list_cmp cmp as bs \<noteq> Greater" "list_cmp cmp bs cs \<noteq> Greater" for as bs cs
    using that by (intro list_cmp_chain) (auto intro: chain)
  show "list_cmp cmp as bs = Equal \<Longrightarrow> as = bs" for as bs
    by (rule list_cmp_eqD) (auto dest: eqD)
qed

end

text \<open>Comparing one field and then the next, as derived orders do.\<close>

lemma then_with_weak:
  assumes "weak_cmp c1" and "weak_cmp c2"
  shows "weak_cmp (\<lambda>x y. then_with (c1 x y) (c2 x y))"
proof -
  note w1 = weak_cmp.refl [OF assms(1)] weak_cmp.chain [OF assms(1)]
  note w2 = weak_cmp.refl [OF assms(2)] weak_cmp.chain [OF assms(2)]
  show ?thesis
  proof
    show "then_with (c1 a a) (c2 a a) = Equal" for a
      by (simp add: w1 w2)
    show "then_with (c1 b a) (c2 b a) = reverse (then_with (c1 a b) (c2 a b))" for a b
      by (simp add: reverse_then_with weak_cmp.flip [OF assms(1), of a b]
          weak_cmp.flip [OF assms(2), of a b])
    fix a b c
    assume ab: "then_with (c1 a b) (c2 a b) \<noteq> Greater"
      and bc: "then_with (c1 b c) (c2 b c) \<noteq> Greater"
    have "c1 a b \<noteq> Greater" "c1 b c \<noteq> Greater"
      using ab bc by (cases "c1 a b"; cases "c1 b c"; simp)+
    then have c1: "c1 a c = then_with (c1 a b) (c1 b c)"
      by (rule w1(2))
    have c2: "c2 a c = then_with (c2 a b) (c2 b c)" if "c1 a b = Equal" "c1 b c = Equal"
      using ab bc that by (auto intro: w2(2))
    show "then_with (c1 a c) (c2 a c)
        = then_with (then_with (c1 a b) (c2 a b)) (then_with (c1 b c) (c2 b c))"
      using c1 c2 ab bc by (cases "c1 a b"; cases "c1 b c"; cases "c2 a b") auto
  qed
qed

interpretation str_order: total_cmp "list_cmp (ord_cmp :: uchar \<Rightarrow> uchar \<Rightarrow> ordering)"
  by (rule nat_cmp.slices)

interpretation bytes_order: total_cmp "list_cmp (ord_cmp :: byte \<Rightarrow> byte \<Rightarrow> ordering)"
  by (rule byte_cmp.slices)

end
