(* ===== verification/Rust_Text.thy ===== *)
theory Rust_Text
  imports Kore_Prelude
begin

text \<open>
  The part of Rust's \<open>str\<close> and \<open>char\<close> that the KORE sources use: scalar values, their UTF-8
  encoding, the validating decoder (\<open>str::from_utf8\<close>), the chunked reading of arbitrary bytes
  (\<open>slice::utf8_chunks\<close>), ASCII classes, \<open>char::is_control\<close> and \<open>u32::from_str_radix\<close>.

  The reference is the documented behaviour of the standard library; a \<open>str\<close> of the model is
  the list of its characters, so a byte offset is the sum of \<open>len_utf8\<close> over a prefix.
  \<open>valid_str\<close> says that the numbers of such a list are characters.
\<close>

section \<open>Characters\<close>

definition is_scalar :: "nat \<Rightarrow> bool" where
  "is_scalar n \<longleftrightarrow> n < 0xD800 \<or> (0xE000 \<le> n \<and> n < 0x110000)"

definition valid_str :: "str \<Rightarrow> bool" where
  "valid_str s \<longleftrightarrow> list_all is_scalar s"

lemma valid_str_simps [simp]:
  "valid_str []" "valid_str (c # s) \<longleftrightarrow> is_scalar c \<and> valid_str s"
  "valid_str (s @ t) \<longleftrightarrow> valid_str s \<and> valid_str t"
  by (auto simp: valid_str_def)

definition len_utf8 :: "uchar \<Rightarrow> nat" where
  "len_utf8 c = (if c < 0x80 then 1 else if c < 0x800 then 2 else if c < 0x10000 then 3 else 4)"

lemma len_utf8_pos [simp]: "0 < len_utf8 c"
  by (simp add: len_utf8_def)

text \<open>\<open>str::len\<close>: the length in bytes.\<close>

definition str_len :: "str \<Rightarrow> nat" where
  "str_len s = sum_list (map len_utf8 s)"

lemma str_len_simps [simp]:
  "str_len [] = 0" "str_len (c # s) = len_utf8 c + str_len s"
  "str_len (s @ t) = str_len s + str_len t"
  by (auto simp: str_len_def)

definition is_ascii_digit :: "uchar \<Rightarrow> bool" where
  "is_ascii_digit c \<longleftrightarrow> 48 \<le> c \<and> c \<le> 57"

definition is_ascii_alphabetic :: "uchar \<Rightarrow> bool" where
  "is_ascii_alphabetic c \<longleftrightarrow> (65 \<le> c \<and> c \<le> 90) \<or> (97 \<le> c \<and> c \<le> 122)"

definition is_ascii_alphanumeric :: "uchar \<Rightarrow> bool" where
  "is_ascii_alphanumeric c \<longleftrightarrow> is_ascii_alphabetic c \<or> is_ascii_digit c"

definition is_ascii_hexdigit :: "uchar \<Rightarrow> bool" where
  "is_ascii_hexdigit c \<longleftrightarrow> is_ascii_digit c \<or> (65 \<le> c \<and> c \<le> 70) \<or> (97 \<le> c \<and> c \<le> 102)"

definition is_control :: "uchar \<Rightarrow> bool" where
  "is_control c \<longleftrightarrow> c < 0x20 \<or> (0x7F \<le> c \<and> c < 0xA0)"

lemmas char_class_defs =
  is_ascii_digit_def is_ascii_alphabetic_def is_ascii_alphanumeric_def is_ascii_hexdigit_def
  is_control_def

section \<open>UTF-8\<close>

text \<open>A number as a byte (\<open>as u8\<close>): its value modulo 256.\<close>

definition byte_of :: "nat \<Rightarrow> byte" where
  "byte_of n = of_nat n"

lemma unat_byte_of [simp]: "n < 256 \<Longrightarrow> unat (byte_of n) = n"
  by (simp add: byte_of_def unat_of_nat take_bit_nat_eq_self)

lemma byte_of_unat [simp]: "byte_of (unat b) = b"
  by (simp add: byte_of_def)

definition encode_utf8 :: "uchar \<Rightarrow> byte list" where
  "encode_utf8 c =
     (if c < 0x80 then [byte_of c]
      else if c < 0x800 then [byte_of (0xC0 + c div 0x40), byte_of (0x80 + c mod 0x40)]
      else if c < 0x10000 then
        [byte_of (0xE0 + c div 0x1000), byte_of (0x80 + c div 0x40 mod 0x40),
         byte_of (0x80 + c mod 0x40)]
      else
        [byte_of (0xF0 + c div 0x40000), byte_of (0x80 + c div 0x1000 mod 0x40),
         byte_of (0x80 + c div 0x40 mod 0x40), byte_of (0x80 + c mod 0x40)])"

text \<open>\<open>str::as_bytes\<close>.\<close>

definition str_bytes :: "str \<Rightarrow> byte list" where
  "str_bytes s = concat (map encode_utf8 s)"

lemma str_bytes_simps [simp]:
  "str_bytes [] = []" "str_bytes (c # s) = encode_utf8 c @ str_bytes s"
  "str_bytes (s @ t) = str_bytes s @ str_bytes t"
  by (auto simp: str_bytes_def)

definition is_cont :: "byte \<Rightarrow> bool" where
  "is_cont b \<longleftrightarrow> 0x80 \<le> unat b \<and> unat b < 0xC0"

text \<open>The second bytes a lead byte admits in well-formed UTF-8.\<close>

definition second_ok :: "byte \<Rightarrow> byte \<Rightarrow> bool" where
  "second_ok b b1 \<longleftrightarrow> is_cont b1 \<and>
     (unat b = 0xE0 \<longrightarrow> 0xA0 \<le> unat b1) \<and> (unat b = 0xED \<longrightarrow> unat b1 < 0xA0) \<and>
     (unat b = 0xF0 \<longrightarrow> 0x90 \<le> unat b1) \<and> (unat b = 0xF4 \<longrightarrow> unat b1 < 0x90)"

text \<open>The first character of a byte sequence that begins with well-formed UTF-8.\<close>

definition utf8_next :: "byte list \<Rightarrow> (uchar \<times> byte list) option" where
  "utf8_next bs = (case bs of [] \<Rightarrow> None | b # r \<Rightarrow>
     let n = unat b in
     if n < 0x80 then Some (n, r)
     else if 0xC2 \<le> n \<and> n < 0xE0 then
       (case r of b1 # r1 \<Rightarrow>
          if is_cont b1 then Some ((n - 0xC0) * 0x40 + (unat b1 - 0x80), r1) else None
        | [] \<Rightarrow> None)
     else if 0xE0 \<le> n \<and> n < 0xF0 then
       (case r of b1 # b2 # r2 \<Rightarrow>
          if second_ok b b1 \<and> is_cont b2
          then Some ((n - 0xE0) * 0x1000 + (unat b1 - 0x80) * 0x40 + (unat b2 - 0x80), r2)
          else None
        | _ \<Rightarrow> None)
     else if 0xF0 \<le> n \<and> n < 0xF5 then
       (case r of b1 # b2 # b3 # r3 \<Rightarrow>
          if second_ok b b1 \<and> is_cont b2 \<and> is_cont b3
          then Some ((n - 0xF0) * 0x40000 + (unat b1 - 0x80) * 0x1000 + (unat b2 - 0x80) * 0x40
                 + (unat b3 - 0x80), r3)
          else None
        | _ \<Rightarrow> None)
     else None)"

lemma utf8_next_length: "utf8_next bs = Some (c, r) \<Longrightarrow> length r < length bs"
  by (auto simp: utf8_next_def Let_def split: list.splits if_splits)

lemma encode_utf8_nonempty [simp]: "encode_utf8 c \<noteq> []"
  by (simp add: encode_utf8_def)

lemma length_encode_utf8: "length (encode_utf8 c) = len_utf8 c"
  by (simp add: encode_utf8_def len_utf8_def)

lemma length_str_bytes: "length (str_bytes s) = str_len s"
  by (induction s) (auto simp: length_encode_utf8)

text \<open>Splitting a number into its base-64 digits and putting it together again.\<close>

lemma base64_digits:
  fixes c :: nat
  shows "c div 64 * 64 + c mod 64 = c"
    and "c div 4096 * 4096 + c div 64 mod 64 * 64 + c mod 64 = c"
    and "c div 262144 * 262144 + c div 4096 mod 64 * 4096 + c div 64 mod 64 * 64 + c mod 64 = c"
proof -
  show *: "c div 64 * 64 + c mod 64 = c" by simp
  have a: "c div 4096 * 64 + c div 64 mod 64 = c div 64"
    using div_mult_mod_eq [of "c div 64" 64] by (simp add: div_mult2_eq [symmetric])
  have b: "c div 262144 * 64 + c div 4096 mod 64 = c div 4096"
    using div_mult_mod_eq [of "c div 4096" 64] by (simp add: div_mult2_eq [symmetric])
  show **: "c div 4096 * 4096 + c div 64 mod 64 * 64 + c mod 64 = c"
    using a * by linarith
  show "c div 262144 * 262144 + c div 4096 mod 64 * 4096 + c div 64 mod 64 * 64 + c mod 64 = c"
    using b ** by linarith
qed

lemma div64_div64:
  fixes c :: nat
  shows "c div 4096 = c div 64 div 64" and "c div 262144 = c div 4096 div 64"
  by (simp_all add: div_mult2_eq [symmetric])

lemma base64_join: "k < 64 \<Longrightarrow> (a * 64 + k) div 64 = a \<and> (a * 64 + k) mod 64 = (k::nat)"
  by (simp add: add.commute)

lemma utf8_next_encode:
  assumes "is_scalar c"
  shows "utf8_next (encode_utf8 c @ bs) = Some (c, bs)"
proof -
  consider "c < 0x80" | "0x80 \<le> c" "c < 0x800" | "0x800 \<le> c" "c < 0x10000"
    | "0x10000 \<le> c" "c < 0x110000"
    using assms by (force simp: is_scalar_def)
  then show ?thesis
  proof cases
    case 1
    then show ?thesis by (simp add: encode_utf8_def utf8_next_def Let_def)
  next
    case 2
    define q m where "q = c div 64" and "m = c mod 64"
    have d: "2 \<le> q" "q < 32" "m < 64" "q * 64 + m = c" using 2 by (auto simp: q_def m_def)
    have "encode_utf8 c = [byte_of (0xC0 + q), byte_of (0x80 + m)]"
      using 2 by (simp add: encode_utf8_def q_def m_def)
    moreover have "unat (byte_of (0xC0 + q)) = 0xC0 + q" "unat (byte_of (0x80 + m)) = 0x80 + m"
      using d by (simp_all del: d(4))
    ultimately have "utf8_next (encode_utf8 c @ bs) = Some (q * 0x40 + m, bs)"
      using d(1-3) by (simp add: utf8_next_def is_cont_def)
    then show ?thesis by (simp add: d(4))
  next
    case 3
    have d: "c div 4096 < 16" using 3 by auto
    have lo: "32 \<le> c div 64 mod 64" if "c div 4096 = 0"
      using 3 that by (simp add: div_eq_0_iff)
    have hi: "c div 64 mod 64 < 32" if "c div 4096 = 13"
    proof -
      have "c div 64 < 64 * 14" using that by (simp add: div64_div64)
      then have "c < 0xE000" by simp
      then have "c div 64 < 864" using assms by (auto simp: is_scalar_def)
      moreover have "c div 64 = 13 * 64 + c div 64 mod 64"
        using div_mult_mod_eq [of "c div 64" 64, symmetric] that by (simp only: div64_div64)
      ultimately show ?thesis by linarith
    qed
    show ?thesis
      using 3 d lo hi base64_digits(2) [of c]
      by (auto simp: encode_utf8_def utf8_next_def Let_def is_cont_def second_ok_def)
  next
    case 4
    have d: "c div 262144 < 5" using 4 by auto
    have lo: "16 \<le> c div 4096 mod 64" if "c div 262144 = 0"
      using 4 that by (simp add: div_eq_0_iff)
    have hi: "c div 4096 mod 64 < 16" if "c div 262144 = 4"
    proof -
      have "c div 4096 < 272" using 4 by simp
      moreover have "c div 4096 = 4 * 64 + c div 4096 mod 64"
        using div_mult_mod_eq [of "c div 4096" 64, symmetric] that by (simp only: div64_div64(2))
      ultimately show ?thesis by linarith
    qed
    show ?thesis
      using 4 d lo hi base64_digits(3) [of c]
      by (auto simp: encode_utf8_def utf8_next_def Let_def is_cont_def second_ok_def)
  qed
qed

lemma utf8_next_decodes:
  assumes "utf8_next bs = Some (c, r)"
  shows "is_scalar c \<and> bs = encode_utf8 c @ r"
proof -
  obtain b bs' where bs: "bs = b # bs'"
    using assms by (cases bs) (auto simp: utf8_next_def)
  define n where "n = unat b"
  have b: "b = byte_of n" by (simp add: n_def)
  consider "n < 0x80" | "0xC2 \<le> n" "n < 0xE0" | "0xE0 \<le> n" "n < 0xF0" | "0xF0 \<le> n" "n < 0xF5"
    using assms by (fastforce simp: bs n_def utf8_next_def Let_def split: if_splits)
  then show ?thesis
  proof cases
    case 1
    then show ?thesis
      using assms by (auto simp: bs n_def utf8_next_def Let_def is_scalar_def encode_utf8_def)
  next
    case 2
    then obtain b1 where r: "bs' = b1 # r" and c1: "is_cont b1"
      and c: "c = (n - 0xC0) * 0x40 + (unat b1 - 0x80)"
      using assms by (auto simp: bs n_def utf8_next_def Let_def split: list.splits if_splits)
    define m where "m = unat b1 - 0x80"
    have m: "b1 = byte_of (0x80 + m)" "m < 0x40"
      using c1 by (auto simp: m_def is_cont_def)
    have "c div 0x40 = n - 0xC0" "c mod 0x40 = m" "0x80 \<le> c" "c < 0x800"
      using 2 m(2) by (auto simp: c m_def [symmetric])
    then show ?thesis
      using 2 m(1) by (simp add: bs r b is_scalar_def encode_utf8_def)
  next
    case 3
    then obtain b1 b2 where r: "bs' = b1 # b2 # r" and c1: "second_ok b b1" and c2: "is_cont b2"
      and c: "c = (n - 0xE0) * 0x1000 + (unat b1 - 0x80) * 0x40 + (unat b2 - 0x80)"
      using assms by (auto simp: bs n_def utf8_next_def Let_def split: list.splits if_splits)
    define m where "m = unat b1 - 0x80"
    define k where "k = unat b2 - 0x80"
    have m: "b1 = byte_of (0x80 + m)" "m < 0x40"
      and lo: "n = 0xE0 \<Longrightarrow> 0x20 \<le> m" and hi: "n = 0xED \<Longrightarrow> m < 0x20"
      using c1 by (auto simp: m_def is_cont_def second_ok_def n_def)
    have k: "b2 = byte_of (0x80 + k)" "k < 0x40"
      using c2 by (auto simp: k_def is_cont_def)
    have c': "c = ((n - 0xE0) * 0x40 + m) * 0x40 + k"
      by (simp add: c m_def k_def algebra_simps)
    have q: "c div 0x40 = (n - 0xE0) * 0x40 + m" and "c mod 0x40 = k"
      using base64_join [OF k(2), where a = "(n - 0xE0) * 0x40 + m"] unfolding c' by auto
    moreover have "c div 0x1000 = n - 0xE0"
      using q m(2) div64_div64 [of c] by simp
    moreover have "c div 0x40 mod 0x40 = m"
      using m(2) by (simp add: q)
    moreover have "0x800 \<le> c" "c < 0x10000"
      using 3 lo m(2) k(2) by (cases "n = 0xE0"; simp add: c')+
    moreover have "is_scalar c"
    proof -
      consider "n < 0xED" | "n = 0xED" | "0xED < n" by linarith
      then show ?thesis
        using 3 hi m(2) k(2) by cases (auto simp: c' is_scalar_def)
    qed
    ultimately show ?thesis
      using 3 m(1) k(1) by (simp add: bs r b encode_utf8_def)
  next
    case 4
    then obtain b1 b2 b3 where r: "bs' = b1 # b2 # b3 # r" and c1: "second_ok b b1"
      and c2: "is_cont b2" and c3: "is_cont b3"
      and c: "c = (n - 0xF0) * 0x40000 + (unat b1 - 0x80) * 0x1000 + (unat b2 - 0x80) * 0x40
        + (unat b3 - 0x80)"
      using assms by (auto simp: bs n_def utf8_next_def Let_def split: list.splits if_splits)
    define m where "m = unat b1 - 0x80"
    define k where "k = unat b2 - 0x80"
    define j where "j = unat b3 - 0x80"
    have m: "b1 = byte_of (0x80 + m)" "m < 0x40"
      and lo: "n = 0xF0 \<Longrightarrow> 0x10 \<le> m" and hi: "n = 0xF4 \<Longrightarrow> m < 0x10"
      using c1 by (auto simp: m_def is_cont_def second_ok_def n_def)
    have k: "b2 = byte_of (0x80 + k)" "k < 0x40" and j: "b3 = byte_of (0x80 + j)" "j < 0x40"
      using c2 c3 by (auto simp: k_def j_def is_cont_def)
    have c': "c = (((n - 0xF0) * 0x40 + m) * 0x40 + k) * 0x40 + j"
      by (simp add: c m_def k_def j_def algebra_simps)
    have q: "c div 0x40 = ((n - 0xF0) * 0x40 + m) * 0x40 + k" and "c mod 0x40 = j"
      using base64_join [OF j(2), where a = "((n - 0xF0) * 0x40 + m) * 0x40 + k"] unfolding c' by auto
    moreover have q2: "c div 0x1000 = (n - 0xF0) * 0x40 + m"
      unfolding div64_div64(1) q using base64_join [OF k(2), where a = "(n - 0xF0) * 0x40 + m"] by blast
    moreover have "c div 0x40 mod 0x40 = k"
      unfolding q using base64_join [OF k(2), where a = "(n - 0xF0) * 0x40 + m"] by blast
    moreover have "c div 0x1000 mod 0x40 = m"
      using m(2) by (simp add: q2)
    moreover have "c div 0x40000 = n - 0xF0"
      using q2 m(2) div64_div64 [of c] by simp
    moreover have "0x10000 \<le> c" "c < 0x110000"
      using 4 lo hi m(2) k(2) j(2) by (cases "n = 0xF0"; cases "n = 0xF4"; simp add: c')+
    ultimately show ?thesis
      using 4 m(1) k(1) j(1) by (simp add: bs r b encode_utf8_def is_scalar_def)
  qed
qed

end
