(* ===== verification/Rust_Reading.thy ===== *)
theory Rust_Reading
  imports Rust_Text
begin

text \<open>
  Reading text out of bytes and out of strings, with the library functions the KORE sources
  call: \<open>str::from_utf8\<close>, \<open>slice::utf8_chunks\<close>, \<open>str::get\<close> on a byte range and
  \<open>u32::from_str_radix\<close> at radix 16. The interface \<open>prefix_codec\<close> collects what a reader may rely
  on when values are written one after the other; UTF-8 is its first instance, and the binary
  format of KORE has more of them.
\<close>

section \<open>Codecs\<close>

text \<open>
  A prefix codec writes a value as a non-empty block that the reader takes back from any input
  that begins with it, whatever follows.
\<close>

locale prefix_codec =
  fixes enc :: "'a \<Rightarrow> 'b list"
    and dec :: "'b list \<Rightarrow> ('a \<times> 'b list) option"
    and ok :: "'a \<Rightarrow> bool"
  assumes dec_enc: "ok a \<Longrightarrow> dec (enc a @ r) = Some (a, r)"
    and dec_shrinks: "dec bs = Some (a, r) \<Longrightarrow> length r < length bs"
begin

lemma enc_nonempty: "ok a \<Longrightarrow> enc a \<noteq> []"
  using dec_enc [of a "[]"] dec_shrinks [of "enc a" a "[]"] by auto

text \<open>No block is a prefix of another, so a sequence of blocks splits in one way only.\<close>

lemma enc_prefix_free:
  assumes "ok a" and "ok b" and "enc a @ r = enc b @ s"
  shows "a = b \<and> r = s"
  using dec_enc [OF assms(1), of r] dec_enc [OF assms(2), of s] unfolding assms(3) by simp

lemma enc_inj: "ok a \<Longrightarrow> ok b \<Longrightarrow> enc a = enc b \<Longrightarrow> a = b"
  using enc_prefix_free [of a b "[]" "[]"] by simp

lemma blocks_inj:
  "list_all ok as \<Longrightarrow> list_all ok bs \<Longrightarrow> concat (map enc as) = concat (map enc bs) \<Longrightarrow> as = bs"
proof (induction as arbitrary: bs)
  case Nil
  then show ?case by (cases bs) (auto dest: enc_nonempty)
next
  case (Cons a as)
  then obtain b bs' where bs: "bs = b # bs'"
    by (cases bs) (auto dest: enc_nonempty)
  then have "a = b \<and> concat (map enc as) = concat (map enc bs')"
    using Cons.prems by (intro enc_prefix_free) auto
  with Cons bs show ?case by auto
qed

end

text \<open>An exact codec moreover reads nothing but what its writer writes.\<close>

locale exact_codec = prefix_codec +
  assumes dec_exact: "dec bs = Some (a, r) \<Longrightarrow> ok a \<and> bs = enc a @ r"
begin

lemma dec_iff: "dec bs = Some (a, r) \<longleftrightarrow> ok a \<and> bs = enc a @ r"
  using dec_exact dec_enc by auto

end

interpretation utf8: exact_codec encode_utf8 utf8_next is_scalar
  by unfold_locales (auto intro: utf8_next_encode dest: utf8_next_length utf8_next_decodes)

section \<open>Reading UTF-8\<close>

text \<open>The longest prefix that is UTF-8, and what follows it.\<close>

function utf8_prefix :: "byte list \<Rightarrow> str \<times> byte list" where
  "utf8_prefix bs =
     (case utf8_next bs of None \<Rightarrow> ([], bs)
      | Some (c, r) \<Rightarrow> (let (cs, r') = utf8_prefix r in (c # cs, r')))"
  by pat_completeness auto
termination
  by (relation "measure length") (auto dest: utf8_next_length)

declare utf8_prefix.simps [simp del]

lemma utf8_prefix_str_bytes:
  "valid_str s \<Longrightarrow> utf8_prefix (str_bytes s @ r) = (let (t, r') = utf8_prefix r in (s @ t, r'))"
proof (induction s)
  case Nil
  then show ?case by simp
next
  case (Cons c s)
  then show ?case
    by (simp add: utf8_prefix.simps [of "encode_utf8 c @ _"] utf8.dec_enc Let_def split: prod.splits)
qed

lemma utf8_prefix_decodes:
  "utf8_prefix bs = (s, r) \<Longrightarrow> valid_str s \<and> bs = str_bytes s @ r \<and> utf8_next r = None"
proof (induction bs arbitrary: s r rule: utf8_prefix.induct)
  case (1 bs)
  show ?case
  proof (cases "utf8_next bs")
    case None
    then show ?thesis using "1.prems" by (auto simp: utf8_prefix.simps [of bs])
  next
    case (Some cr)
    obtain c r1 where cr: "cr = (c, r1)" by fastforce
    obtain s' r' where p: "utf8_prefix r1 = (s', r')" by fastforce
    have "s = c # s'" "r = r'"
      using "1.prems" Some cr p by (auto simp: utf8_prefix.simps [of bs])
    then show ?thesis
      using "1.IH" [OF Some cr [symmetric] p] utf8.dec_exact [of bs c r1] Some cr by auto
  qed
qed

text \<open>\<open>str::from_utf8\<close>, with the error's \<open>valid_up_to\<close>.\<close>

definition from_utf8 :: "byte list \<Rightarrow> nat + str" where
  "from_utf8 bs = (let (s, r) = utf8_prefix bs in if r = [] then Inr s else Inl (length bs - length r))"

lemma utf8_next_Nil [simp]: "utf8_next [] = None"
  by (simp add: utf8_next_def)

lemma utf8_prefix_Nil [simp]: "utf8_prefix [] = ([], [])"
  by (simp add: utf8_prefix.simps)

lemma from_utf8_str_bytes [simp]: "valid_str s \<Longrightarrow> from_utf8 (str_bytes s) = Inr s"
  using utf8_prefix_str_bytes [of s "[]"] by (simp add: from_utf8_def)

lemma from_utf8_Inr: "from_utf8 bs = Inr s \<longleftrightarrow> valid_str s \<and> bs = str_bytes s"
proof
  assume "from_utf8 bs = Inr s"
  then have "utf8_prefix bs = (s, [])"
    by (auto simp: from_utf8_def split: prod.splits if_splits)
  then show "valid_str s \<and> bs = str_bytes s"
    using utf8_prefix_decodes by fastforce
qed auto

text \<open>
  The bytes that the chunked reader reports as invalid after a valid prefix: one byte, or the
  longest beginning of a well-formed sequence that is then broken off.
\<close>

definition invalid_len :: "byte list \<Rightarrow> nat" where
  "invalid_len bs = (case bs of [] \<Rightarrow> 0 | b # r \<Rightarrow>
     (if 0xE0 \<le> unat b \<and> unat b < 0xF5
      then (case r of [] \<Rightarrow> 1
        | b1 # r1 \<Rightarrow>
            (if \<not> second_ok b b1 then 1
             else if unat b < 0xF0 then 2
             else (case r1 of [] \<Rightarrow> 2 | b2 # r2 \<Rightarrow> if is_cont b2 then 3 else 2)))
      else 1))"

lemma invalid_len_pos: "bs \<noteq> [] \<Longrightarrow> 0 < invalid_len bs"
  by (auto simp: invalid_len_def split: list.splits)

lemma utf8_prefix_length: "length (snd (utf8_prefix bs)) \<le> length bs"
  using utf8_prefix_decodes [of bs "fst (utf8_prefix bs)" "snd (utf8_prefix bs)"]
  by (metis (no_types) le_add2 length_append prod.collapse)

text \<open>\<open>utf8_chunks\<close>: alternating valid text and invalid bytes.\<close>

function utf8_chunks :: "byte list \<Rightarrow> (str \<times> byte list) list" where
  "utf8_chunks bs =
     (if bs = [] then []
      else let (s, r) = utf8_prefix bs; k = invalid_len r
           in (s, take k r) # utf8_chunks (drop k r))"
  by pat_completeness auto
termination
proof (relation "measure length")
  fix bs x s r and k :: nat
  assume ne: "bs \<noteq> []" and x: "x = utf8_prefix bs" and sr: "(s, r) = x" and k: "k = invalid_len r"
  have le: "length r \<le> length bs"
    using utf8_prefix_length [of bs] x sr by (metis snd_conv)
  have "length (drop k r) < length bs"
  proof (cases "r = []")
    case False
    then have "0 < length r" "0 < k" using invalid_len_pos [of r] k by auto
    then show ?thesis using le by (simp only: length_drop)
  qed (use ne in simp)
  then show "(drop k r, bs) \<in> measure length" by simp
qed simp

declare utf8_chunks.simps [simp del]

text \<open>
  The byte-by-byte reading: a well-formed sequence is its character, and a byte that begins none
  is the character of its value.
\<close>

function read_text :: "byte list \<Rightarrow> str" where
  "read_text bs =
     (case utf8_next bs of Some (c, r) \<Rightarrow> c # read_text r
      | None \<Rightarrow> (case bs of [] \<Rightarrow> [] | b # r \<Rightarrow> unat b # read_text r))"
  by pat_completeness auto
termination
  by (relation "measure length") (auto dest: utf8_next_length)

declare read_text.simps [simp del]

lemma read_text_Nil [simp]: "read_text [] = []"
  by (simp add: read_text.simps)

lemma read_text_str_bytes: "valid_str s \<Longrightarrow> read_text (str_bytes s @ r) = s @ read_text r"
  by (induction s) (auto simp: read_text.simps [of "encode_utf8 _ @ _"] utf8.dec_enc)

lemma utf8_next_cont: "is_cont b \<Longrightarrow> utf8_next (b # r) = None"
  by (auto simp: utf8_next_def is_cont_def Let_def)

lemma read_text_cont: "is_cont b \<Longrightarrow> read_text (b # r) = unat b # read_text r"
  by (simp add: read_text.simps [of "b # r"] utf8_next_cont)

text \<open>The bytes of one invalid chunk are read one by one: after the first, they continue nothing.\<close>

lemma read_text_invalid:
  assumes "utf8_next bs = None"
  shows "read_text bs = map unat (take (invalid_len bs) bs) @ read_text (drop (invalid_len bs) bs)"
proof (cases bs)
  case Nil
  then show ?thesis by simp
next
  case (Cons b r)
  have step: "read_text bs = unat b # read_text r"
    using assms by (simp add: Cons read_text.simps [of "b # r"])
  show ?thesis
    by (auto simp: Cons step [unfolded Cons] invalid_len_def read_text_cont second_ok_def
        split: list.splits)
qed

definition chunks_text :: "(str \<times> byte list) list \<Rightarrow> str" where
  "chunks_text cs = concat (map (\<lambda>(s, bad). s @ map unat bad) cs)"

lemma chunks_text_utf8_chunks: "chunks_text (utf8_chunks bs) = read_text bs"
proof (induction bs rule: utf8_chunks.induct)
  case (1 bs)
  show ?case
  proof (cases "bs = []")
    case True
    then show ?thesis by (simp add: utf8_chunks.simps chunks_text_def)
  next
    case False
    obtain s r where p: "utf8_prefix bs = (s, r)" by fastforce
    have d: "valid_str s" "bs = str_bytes s @ r" "utf8_next r = None"
      using utf8_prefix_decodes [OF p] by auto
    have "chunks_text (utf8_chunks bs)
        = s @ map unat (take (invalid_len r) r) @ chunks_text (utf8_chunks (drop (invalid_len r) r))"
      using False p by (simp add: utf8_chunks.simps [of bs] chunks_text_def Let_def)
    also have "\<dots> = s @ read_text r"
      using "1.IH" [OF False p [symmetric] refl refl] read_text_invalid [OF d(3)] by simp
    finally show ?thesis
      by (simp add: d(2) read_text_str_bytes d(1))
  qed
qed

section \<open>Byte ranges and numbers\<close>

text \<open>\<open>s.get(..n)\<close>: the prefix of \<open>n\<close> bytes, when there is one that ends between characters.\<close>

fun take_bytes :: "nat \<Rightarrow> str \<Rightarrow> (str \<times> str) option" where
  "take_bytes n s =
     (if n = 0 then Some ([], s)
      else (case s of [] \<Rightarrow> None
        | c # t \<Rightarrow>
            (if len_utf8 c \<le> n
             then map_option (\<lambda>(p, r). (c # p, r)) (take_bytes (n - len_utf8 c) t)
             else None)))"

declare take_bytes.simps [simp del]

lemma take_bytes_Some: "take_bytes n s = Some (p, r) \<Longrightarrow> s = p @ r \<and> str_len p = n"
proof (induction n s arbitrary: p rule: take_bytes.induct)
  case (1 n s)
  show ?case
    using "1.prems" "1.IH" unfolding take_bytes.simps [of n s]
    by (fastforce split: if_splits list.splits)
qed

lemma take_bytes_append: "take_bytes (str_len p) (p @ r) = Some (p, r)"
proof (induction p)
  case Nil
  then show ?case by (simp add: take_bytes.simps [of 0])
next
  case (Cons c p)
  then show ?case
    by (simp add: take_bytes.simps [of "len_utf8 c + str_len p"])
qed

text \<open>The value of a hexadecimal digit, \<open>char::to_digit(16)\<close>.\<close>

definition hex_digit :: "uchar \<Rightarrow> nat option" where
  "hex_digit c =
     (if 48 \<le> c \<and> c \<le> 57 then Some (c - 48)
      else if 97 \<le> c \<and> c \<le> 102 then Some (c - 87)
      else if 65 \<le> c \<and> c \<le> 70 then Some (c - 55)
      else None)"

fun hex_digits :: "nat \<Rightarrow> str \<Rightarrow> nat option" where
  "hex_digits acc [] = Some acc"
| "hex_digits acc (c # s) =
     (case hex_digit c of None \<Rightarrow> None
      | Some d \<Rightarrow> if acc * 16 + d < 2 ^ 32 then hex_digits (acc * 16 + d) s else None)"

text \<open>
  \<open>u32::from_str_radix(s, 16)\<close>: an optional plus sign, then digits, at least one, with no
  overflow of 32 bits.
\<close>

definition from_str_radix16 :: "str \<Rightarrow> nat option" where
  "from_str_radix16 s =
     (case s of [] \<Rightarrow> None
      | c # t \<Rightarrow> if c = ch CHR ''+'' then (if t = [] then None else hex_digits 0 t) else hex_digits 0 s)"

text \<open>Lower-case hexadecimal digits, zero-padded to a width (\<open>{:0w$x}\<close>).\<close>

definition hex_char :: "nat \<Rightarrow> uchar" where
  "hex_char d = (if d < 10 then 48 + d else 87 + d)"

fun hex_pad :: "nat \<Rightarrow> nat \<Rightarrow> str" where
  "hex_pad 0 n = []"
| "hex_pad (Suc w) n = hex_pad w (n div 16) @ [hex_char (n mod 16)]"

lemma length_hex_pad [simp]: "length (hex_pad w n) = w"
  by (induction w n rule: hex_pad.induct) auto

lemma hex_digit_hex_char: "d < 16 \<Longrightarrow> hex_digit (hex_char d) = Some d"
  by (auto simp: hex_digit_def hex_char_def)

lemma hex_digits_append:
  "hex_digits a s = Some b \<Longrightarrow> hex_digits a (s @ t) = hex_digits b t"
  by (induction a s rule: hex_digits.induct) (auto split: option.splits if_splits)

lemma hex_digits_hex_pad: "n < 16 ^ w \<Longrightarrow> n < 2 ^ 32 \<Longrightarrow> hex_digits 0 (hex_pad w n) = Some n"
proof (induction w n rule: hex_pad.induct)
  case (2 w n)
  have "n div 16 < 16 ^ w" using "2.prems"(1) by (simp add: less_mult_imp_div_less mult.commute)
  then have "hex_digits 0 (hex_pad w (n div 16)) = Some (n div 16)"
    using "2.IH" "2.prems"(2) by simp
  then show ?case
    using "2.prems"(2) by (simp add: hex_digits_append hex_digit_hex_char)
qed simp

lemma hex_pad_hexdigits: "list_all is_ascii_hexdigit (hex_pad w n)"
  by (induction w n rule: hex_pad.induct)
    (auto simp: hex_char_def is_ascii_hexdigit_def is_ascii_digit_def)

lemma hexdigit_props:
  "is_ascii_hexdigit c \<Longrightarrow> len_utf8 c = 1 \<and> c \<noteq> ch CHR ''+'' \<and> is_scalar c"
  by (auto simp: is_ascii_hexdigit_def is_ascii_digit_def len_utf8_def is_scalar_def)

lemma hexdigits_len: "list_all is_ascii_hexdigit s \<Longrightarrow> str_len s = length s"
  by (induction s) (auto dest: hexdigit_props)

lemma from_str_radix16_hex_pad:
  assumes "n < 16 ^ w" and "n < 2 ^ 32" and "0 < w"
  shows "from_str_radix16 (hex_pad w n) = Some n"
proof -
  obtain c t where "hex_pad w n = c # t"
    using assms(3) length_hex_pad [of w n] by (cases "hex_pad w n") auto
  moreover have "c \<noteq> ch CHR ''+''"
    using hex_pad_hexdigits [of w n] calculation hexdigit_props by auto
  ultimately show ?thesis
    using hex_digits_hex_pad [OF assms(1,2)] by (simp add: from_str_radix16_def)
qed

section \<open>Decimal numbers\<close>

text \<open>The decimal digits of a number (\<open>to_string\<close>, and \<open>{}\<close> in a format string).\<close>

fun decimal :: "nat \<Rightarrow> str" where
  "decimal n = (if n < 10 then [48 + n] else decimal (n div 10) @ [48 + n mod 10])"

declare decimal.simps [simp del]

fun decimal_value :: "nat \<Rightarrow> str \<Rightarrow> nat option" where
  "decimal_value acc [] = Some acc"
| "decimal_value acc (c # s) =
     (if \<not> is_ascii_digit c then None
      else if acc * 10 + (c - 48) < 2 ^ 32 then decimal_value (acc * 10 + (c - 48)) s else None)"

text \<open>\<open>str::parse::<u32>\<close>: an optional plus sign, then digits, at least one, with no overflow of 32 bits.\<close>

definition parse_u32 :: "str \<Rightarrow> nat option" where
  "parse_u32 s =
     (case s of [] \<Rightarrow> None
      | c # t \<Rightarrow> if c = ch CHR ''+'' then (if t = [] then None else decimal_value 0 t) else decimal_value 0 s)"

end
