(* ===== verification/Kore_Ast.thy ===== *)
theory Kore_Ast
  imports Rust_Reading
begin

text \<open>
  The KORE syntax tree (\<open>kore/ast.rs\<close>): sorts, symbols, variables, patterns, sentences, modules
  and definitions, and the total orders of sorts and patterns.

  The source compares sorts by recursion down to \<open>SORT_RECURSION_LIMIT\<close> levels and with an
  explicit work list below, and compares patterns with a work list only. Both work lists are
  modelled as they are (a stack whose top is the head of the list). The order they must realise,
  the one a derived comparison would give, is stated by recursion (\<open>sort_order\<close>,
  \<open>pattern_order\<close>); the interface \<open>tree_order\<close> proves once that such an order is total and the
  interface \<open>cmp_machine\<close> that a work list realises it.
\<close>

section \<open>The syntax tree\<close>

type_synonym kore_string = "byte list"

datatype sort = SortVariable str | SortApplication str "sort list"

record symbol =
  symbol_name :: str
  sort_parameters :: "sort list"

datatype variable_kind = Element | SetVar

record variable =
  var_kind :: variable_kind
  var_name :: str
  var_sort :: sort

datatype associativity = LeftAssoc | RightAssoc

datatype pattern =
    PString kore_string
  | PVariable variable
  | PApplication symbol "pattern list"
  | PTop sort
  | PBottom sort
  | PAnd sort "pattern list"
  | POr sort "pattern list"
  | PNot sort pattern
  | PNext sort pattern
  | PImplies sort pattern pattern
  | PIff sort pattern pattern
  | PRewrites sort pattern pattern
  | PExists sort variable pattern
  | PForall sort variable pattern
  | PMu variable pattern
  | PNu variable pattern
  | PCeil sort sort pattern
  | PFloor sort sort pattern
  | PEquals sort sort pattern pattern
  | PIn sort sort pattern pattern
  | PDomainValue sort kore_string
  | PAssociative associativity symbol "pattern list"

type_synonym attributes = "pattern list"

datatype sentence =
    Import str attributes
  | SortDeclaration bool str "str list" attributes
  | SymbolDeclaration bool symbol "sort list" sort attributes
  | AliasDeclaration symbol "sort list" sort pattern pattern attributes
  | Axiom "str list" pattern attributes
  | Claim "str list" pattern attributes

record kore_module =
  mod_name :: str
  mod_sentences :: "sentence list"
  mod_attributes :: attributes

record kore_definition =
  definition_attributes :: attributes
  definition_modules :: "kore_module list"

text \<open>The names of a sort are text, as a Rust \<open>String\<close> always is.\<close>

fun valid_sort :: "sort \<Rightarrow> bool" where
  "valid_sort (SortVariable name) \<longleftrightarrow> valid_str name"
| "valid_sort (SortApplication name ss) \<longleftrightarrow> valid_str name \<and> (\<forall>s \<in> set ss. valid_sort s)"

section \<open>Trees compared by heads and children\<close>

datatype 'n cmp_step = Compare 'n 'n | PrefixLength ordering

text \<open>
  A tree order compares the heads of two nodes and then their children as slices. When heads are
  weakly ordered and a node is its head with its children, the order is total.
\<close>

locale tree_order = head: weak_cmp head
  for head :: "'n \<Rightarrow> 'n \<Rightarrow> ordering" +
  fixes children :: "'n \<Rightarrow> 'n list"
    and nodes :: "'n \<Rightarrow> nat"
    and cmp :: "'n \<Rightarrow> 'n \<Rightarrow> ordering"
  assumes cmp_eq: "cmp a b = then_with (head a b) (list_cmp cmp (children a) (children b))"
    and child_smaller: "c \<in> set (children a) \<Longrightarrow> nodes c < nodes a"
    and head_children_eq: "head a b = Equal \<Longrightarrow> children a = children b \<Longrightarrow> a = b"
begin

lemma cmp_refl: "cmp a a = Equal"
proof (induction a rule: measure_induct_rule [of nodes])
  case (less a)
  then have "list_cmp cmp (children a) (children a) = Equal"
    by (intro list_cmp_refl) (auto dest: child_smaller)
  then show ?case by (subst cmp_eq) simp
qed

lemma cmp_flip: "cmp b a = reverse (cmp a b)"
proof (induction a arbitrary: b rule: measure_induct_rule [of nodes])
  case (less a)
  have "list_cmp cmp (children b) (children a) = reverse (list_cmp cmp (children a) (children b))"
    by (rule list_cmp_flip) (auto intro: less dest: child_smaller)
  then show ?case
    by (subst (1 2) cmp_eq) (simp add: reverse_then_with head.flip [of a b])
qed

lemma cmp_chain:
  "cmp a b \<noteq> Greater \<Longrightarrow> cmp b c \<noteq> Greater \<Longrightarrow> cmp a c = then_with (cmp a b) (cmp b c)"
proof (induction a arbitrary: b c rule: measure_induct_rule [of nodes])
  case (less a)
  let ?L = "list_cmp cmp"
  have hab: "head a b \<noteq> Greater" and hbc: "head b c \<noteq> Greater"
    using less.prems by (auto simp: cmp_eq [of a b] cmp_eq [of b c])
  note h = head.chain [OF hab hbc]
  have l: "?L (children a) (children c)
      = then_with (?L (children a) (children b)) (?L (children b) (children c))"
    if "head a b = Equal" "head b c = Equal"
    using less.prems that
    by (intro list_cmp_chain) (auto intro: less.IH child_smaller simp: cmp_eq [of a b] cmp_eq [of b c])
  show ?case
    using h l hab hbc less.prems unfolding cmp_eq [of a c] cmp_eq [of a b] cmp_eq [of b c]
    by (cases "head a b"; cases "head b c"; cases "?L (children a) (children b)") auto
qed

lemma cmp_eqD: "cmp a b = Equal \<Longrightarrow> a = b"
proof (induction a arbitrary: b rule: measure_induct_rule [of nodes])
  case (less a)
  then have "head a b = Equal" and l: "list_cmp cmp (children a) (children b) = Equal"
    by (simp_all add: cmp_eq [of a b])
  moreover have "children a = children b"
    using l by (rule list_cmp_eqD [rotated]) (auto intro: less.IH child_smaller)
  ultimately show ?case using head_children_eq by blast
qed

lemma total: "total_cmp cmp"
  by unfold_locales (auto intro: cmp_refl cmp_flip cmp_chain cmp_eqD)

end

text \<open>
  A comparison machine pops the pair to compare next; when the heads are equal it pushes the
  pairs of children in order, and below them the comparison of the numbers of children.
\<close>

locale cmp_machine = tree_order head children nodes cmp
  for head :: "'n \<Rightarrow> 'n \<Rightarrow> ordering" and children nodes cmp +
  fixes loop :: "'n cmp_step list \<Rightarrow> ordering"
  assumes loop_Nil: "loop [] = Equal"
    and loop_Prefix: "loop (PrefixLength ord # work) = (if ord = Equal then loop work else ord)"
    and loop_Compare: "loop (Compare a b # work) =
      (if head a b \<noteq> Equal then head a b
       else loop (map2 Compare (children a) (children b)
         @ PrefixLength (ord_cmp (length (children a)) (length (children b))) # work))"
begin

lemma loop_pairs:
  assumes "\<And>a b work. a \<in> set as \<Longrightarrow> loop (Compare a b # work) = then_with (cmp a b) (loop work)"
  shows "loop (map2 Compare as bs @ work) = then_with (foldr then_with (map2 cmp as bs) Equal) (loop work)"
  using assms
proof (induction as arbitrary: bs)
  case (Cons a as)
  then show ?case
    by (cases bs) (auto simp: then_with_assoc)
qed simp

lemma loop_cmp: "loop (Compare a b # work) = then_with (cmp a b) (loop work)"
proof (induction a arbitrary: b work rule: measure_induct_rule [of nodes])
  case (less a)
  let ?as = "children a" and ?bs = "children b"
  let ?len = "ord_cmp (length ?as) (length ?bs)"
  have "loop (map2 Compare ?as ?bs @ PrefixLength ?len # work)
      = then_with (foldr then_with (map2 cmp ?as ?bs) Equal) (loop (PrefixLength ?len # work))"
    by (rule loop_pairs) (auto intro: less.IH child_smaller)
  also have "loop (PrefixLength ?len # work) = then_with ?len (loop work)"
    by (cases ?len) (simp_all add: loop_Prefix)
  finally have "loop (map2 Compare ?as ?bs @ PrefixLength ?len # work)
      = then_with (list_cmp cmp ?as ?bs) (loop work)"
    by (simp add: list_cmp_zip then_with_assoc)
  then show ?case
    by (cases "head a b") (simp_all add: loop_Compare cmp_eq [of a b])
qed

lemma loop_single: "loop [Compare a b] = cmp a b"
  by (simp add: loop_cmp loop_Nil)

end

section \<open>The order of sorts\<close>

definition str_cmp :: "str \<Rightarrow> str \<Rightarrow> ordering" where
  "str_cmp = list_cmp ord_cmp"

interpretation str_cmp: total_cmp str_cmp
  unfolding str_cmp_def by (rule nat_cmp.slices)

fun sort_discriminant :: "sort \<Rightarrow> nat" where
  "sort_discriminant (SortVariable _) = 0"
| "sort_discriminant (SortApplication _ _) = 1"

fun sort_arguments :: "sort \<Rightarrow> sort list" where
  "sort_arguments (SortVariable _) = []"
| "sort_arguments (SortApplication _ arguments) = arguments"

fun sort_nodes :: "sort \<Rightarrow> nat" where
  "sort_nodes (SortVariable _) = 1"
| "sort_nodes (SortApplication _ arguments) = Suc (sum_list (map sort_nodes arguments))"

lemma sort_nodes_child: "c \<in> set (sort_arguments s) \<Longrightarrow> sort_nodes c < sort_nodes s"
  by (cases s) (auto simp: less_Suc_eq_le member_le_sum_list)

text \<open>The rank and the name of two sorts, the first comparison of each popped pair.\<close>

fun sort_name_cmp :: "sort \<Rightarrow> sort \<Rightarrow> ordering" where
  "sort_name_cmp (SortVariable l) (SortVariable r) = str_cmp l r"
| "sort_name_cmp (SortApplication l _) (SortApplication r _) = str_cmp l r"
| "sort_name_cmp _ _ = Equal"

definition sort_head_cmp :: "sort \<Rightarrow> sort \<Rightarrow> ordering" where
  "sort_head_cmp l r =
     then_with (ord_cmp (sort_discriminant l) (sort_discriminant r)) (sort_name_cmp l r)"

text \<open>\<open>Sort::cmp_iteratively\<close>.\<close>

definition cmp_weight :: "('n \<Rightarrow> nat) \<Rightarrow> 'n cmp_step list \<Rightarrow> nat" where
  "cmp_weight nodes work =
     sum_list (map (\<lambda>s. case s of Compare l _ \<Rightarrow> 2 * nodes l | PrefixLength _ \<Rightarrow> 1) work)"

lemma cmp_weight_simps [simp]:
  "cmp_weight nodes [] = 0"
  "cmp_weight nodes (Compare l r # work) = 2 * nodes l + cmp_weight nodes work"
  "cmp_weight nodes (PrefixLength ord # work) = Suc (cmp_weight nodes work)"
  "cmp_weight nodes (v @ w) = cmp_weight nodes v + cmp_weight nodes w"
  by (auto simp: cmp_weight_def)

lemma cmp_weight_pairs: "cmp_weight nodes (map2 Compare as bs) \<le> 2 * sum_list (map nodes as)"
proof (induction as arbitrary: bs)
  case (Cons a as)
  then show ?case by (cases bs) auto
qed simp

function sort_cmp_loop :: "sort cmp_step list \<Rightarrow> ordering" where
  "sort_cmp_loop [] = Equal"
| "sort_cmp_loop (PrefixLength ord # work) = (if ord = Equal then sort_cmp_loop work else ord)"
| "sort_cmp_loop (Compare l r # work) =
     (if sort_head_cmp l r \<noteq> Equal then sort_head_cmp l r
      else sort_cmp_loop (map2 Compare (sort_arguments l) (sort_arguments r)
        @ PrefixLength (ord_cmp (length (sort_arguments l)) (length (sort_arguments r))) # work))"
  by pat_completeness auto
termination
proof (relation "measure (cmp_weight sort_nodes)")
  fix l r work
  have "cmp_weight sort_nodes (map2 Compare (sort_arguments l) (sort_arguments r))
      \<le> 2 * sum_list (map sort_nodes (sort_arguments l))"
    by (rule cmp_weight_pairs)
  then show "(map2 Compare (sort_arguments l) (sort_arguments r)
      @ PrefixLength (ord_cmp (length (sort_arguments l)) (length (sort_arguments r))) # work,
      Compare l r # work) \<in> measure (cmp_weight sort_nodes)"
    by (cases l) auto
qed auto

definition sort_cmp_iteratively :: "sort \<Rightarrow> sort \<Rightarrow> ordering" where
  "sort_cmp_iteratively l r = sort_cmp_loop [Compare l r]"

text \<open>\<open>Sort::cmp_from_depth\<close> and \<open>Sort::eq_from_depth\<close>, recursive above the limit.\<close>

definition SORT_RECURSION_LIMIT :: nat where "SORT_RECURSION_LIMIT = 32"

fun sort_cmp_from_depth :: "nat \<Rightarrow> sort \<Rightarrow> sort \<Rightarrow> ordering" where
  "sort_cmp_from_depth depth l r =
     (if depth \<ge> SORT_RECURSION_LIMIT then sort_cmp_iteratively l r
      else case (l, r) of
        (SortVariable a, SortVariable b) \<Rightarrow> str_cmp a b
      | (SortApplication a ls, SortApplication b rs) \<Rightarrow>
          then_with (str_cmp a b) (list_cmp (sort_cmp_from_depth (Suc depth)) ls rs)
      | (SortVariable _, SortApplication _ _) \<Rightarrow> Less
      | (SortApplication _ _, SortVariable _) \<Rightarrow> Greater)"

declare sort_cmp_from_depth.simps [simp del]

function sort_eq_from_depth :: "nat \<Rightarrow> sort \<Rightarrow> sort \<Rightarrow> bool" where
  "sort_eq_from_depth depth l r =
     (case (l, r) of
        (SortVariable a, SortVariable b) \<Rightarrow> a = b
      | (SortApplication a ls, SortApplication b rs) \<Rightarrow>
          (if a \<noteq> b \<or> length ls \<noteq> length rs then False
           else if depth \<ge> SORT_RECURSION_LIMIT then sort_cmp_iteratively l r = Equal
           else list_all (\<lambda>(x, y). sort_eq_from_depth (Suc depth) x y) (zip ls rs))
      | _ \<Rightarrow> False)"
  by pat_completeness auto
termination
  by (relation "measure (\<lambda>(_, l, _). sort_nodes l)")
    (auto dest!: set_zip_leftD simp: less_Suc_eq_le member_le_sum_list)

declare sort_eq_from_depth.simps [simp del]

definition sort_cmp :: "sort \<Rightarrow> sort \<Rightarrow> ordering" where
  "sort_cmp l r = sort_cmp_from_depth 0 l r"

definition sort_eq :: "sort \<Rightarrow> sort \<Rightarrow> bool" where
  "sort_eq l r = sort_eq_from_depth 0 l r"

text \<open>The order a derived comparison gives: rank, name, arguments, number of arguments.\<close>

function sort_order :: "sort \<Rightarrow> sort \<Rightarrow> ordering" where
  "sort_order l r =
     then_with (sort_head_cmp l r) (list_cmp sort_order (sort_arguments l) (sort_arguments r))"
  by pat_completeness auto
termination
  by (relation "measure (\<lambda>(l, _). sort_nodes l)") (auto dest: sort_nodes_child)

declare sort_order.simps [simp del]

lemma sort_head_cmp_weak: "weak_cmp sort_head_cmp"
proof -
  define name where "name = (\<lambda>s. case s of SortVariable n \<Rightarrow> n | SortApplication n _ \<Rightarrow> n)"
  have "sort_head_cmp = (\<lambda>l r. then_with (ord_cmp (sort_discriminant l) (sort_discriminant r))
      (str_cmp (name l) (name r)))"
  proof (intro ext)
    fix l r
    show "sort_head_cmp l r = then_with (ord_cmp (sort_discriminant l) (sort_discriminant r))
        (str_cmp (name l) (name r))"
      by (cases l; cases r) (simp_all add: sort_head_cmp_def name_def ord_cmp_def)
  qed
  then show ?thesis
    using then_with_weak [OF nat_cmp.on_key [of sort_discriminant] str_cmp.on_key [of name]]
    by simp
qed

interpretation sort_head: weak_cmp sort_head_cmp
  by (rule sort_head_cmp_weak)

interpretation sort_machine:
  cmp_machine sort_head_cmp sort_arguments sort_nodes sort_order sort_cmp_loop
proof
  fix a b
  show "sort_order a b
      = then_with (sort_head_cmp a b) (list_cmp sort_order (sort_arguments a) (sort_arguments b))"
    by (rule sort_order.simps)
  show "sort_head_cmp a b = Equal \<Longrightarrow> sort_arguments a = sort_arguments b \<Longrightarrow> a = b"
    by (cases a; cases b) (auto simp: sort_head_cmp_def ord_cmp_def)
qed (auto dest: sort_nodes_child)

interpretation sort_order: total_cmp sort_order
  by (rule sort_machine.total)

lemma sort_cmp_iteratively_eq: "sort_cmp_iteratively l r = sort_order l r"
  unfolding sort_cmp_iteratively_def by (rule sort_machine.loop_single)

lemma sort_cmp_from_depth_eq: "sort_cmp_from_depth depth l r = sort_order l r"
proof (induction l arbitrary: depth r)
  case (SortVariable n)
  show ?case
    by (cases r) (simp_all add: sort_cmp_from_depth.simps [of depth] sort_cmp_iteratively_eq
        sort_order.simps [of "SortVariable n"] sort_head_cmp_def ord_cmp_def)
next
  case (SortApplication n args)
  have "list_cmp (sort_cmp_from_depth (Suc depth)) args bs = list_cmp sort_order args bs" for bs
    by (rule list_cmp_cong) (auto simp: SortApplication.IH)
  then show ?case
    by (cases r) (simp_all add: sort_cmp_from_depth.simps [of depth] sort_cmp_iteratively_eq
        sort_order.simps [of "SortApplication n args"] sort_head_cmp_def ord_cmp_def)
qed

lemma sort_cmp_eq: "sort_cmp l r = sort_order l r"
  by (simp add: sort_cmp_def sort_cmp_from_depth_eq)

lemma list_all_zip_eq:
  "length as = length bs \<Longrightarrow> (\<And>a b. a \<in> set as \<Longrightarrow> P a b \<longleftrightarrow> a = b) \<Longrightarrow>
   list_all (\<lambda>(a, b). P a b) (zip as bs) \<longleftrightarrow> as = bs"
  by (induction as bs rule: list_induct2) auto

lemma sort_eq_from_depth_iff: "sort_eq_from_depth depth l r \<longleftrightarrow> l = r"
proof (induction l arbitrary: depth r)
  case (SortVariable n)
  show ?case
    by (cases r) (simp_all add: sort_eq_from_depth.simps [of depth])
next
  case (SortApplication n args)
  have "list_all (\<lambda>(x, y). sort_eq_from_depth (Suc depth) x y) (zip args bs) \<longleftrightarrow> args = bs"
    if "length args = length bs" for bs
    using that by (rule list_all_zip_eq) (rule SortApplication.IH)
  then show ?case
    by (cases r) (auto simp: sort_eq_from_depth.simps [of depth] sort_cmp_iteratively_eq)
qed

lemma sort_eq_iff [simp]: "sort_eq l r \<longleftrightarrow> l = r"
  by (simp add: sort_eq_def sort_eq_from_depth_iff)

interpretation sort_cmp: total_cmp sort_cmp
  unfolding sort_cmp_eq [abs_def] by (rule sort_machine.total)

text \<open>Sorts as a linear order of the library: \<open>PartialOrd\<close> and \<open>Ord\<close> agree with it.\<close>

instantiation sort :: linorder
begin

definition less_eq_sort :: "sort \<Rightarrow> sort \<Rightarrow> bool" where
  "less_eq_sort a b \<longleftrightarrow> sort_cmp a b \<noteq> Greater"

definition less_sort :: "sort \<Rightarrow> sort \<Rightarrow> bool" where
  "less_sort a b \<longleftrightarrow> sort_cmp a b = Less"

instance
proof
  fix a b c :: sort
  show "(a < b) = (a \<le> b \<and> \<not> b \<le> a)"
    using sort_cmp.lt_iff by (simp add: less_sort_def less_eq_sort_def sort_cmp.lt_def sort_cmp.le_def)
  show "a \<le> a"
    by (simp add: less_eq_sort_def)
  show "a \<le> b \<Longrightarrow> b \<le> c \<Longrightarrow> a \<le> c"
    using sort_cmp.le_trans by (simp add: less_eq_sort_def sort_cmp.le_def)
  show "a \<le> b \<Longrightarrow> b \<le> a \<Longrightarrow> a = b"
    using sort_cmp.le_antisym by (simp add: less_eq_sort_def sort_cmp.le_def)
  show "a \<le> b \<or> b \<le> a"
    using sort_cmp.le_total by (simp add: less_eq_sort_def sort_cmp.le_def)
qed

end

section \<open>Properties\<close>

text \<open>C39: comparing two sorts from any depth, by recursion and below the limit with the work list,
  gives the lexicographic order of the tree (\<open>sort_order\<close>); the equality test from any depth
  decides equality, and agrees with it.\<close>

theorem sort_comparison_correct:
  "sort_cmp_from_depth depth l r = sort_order l r
   \<and> (sort_eq_from_depth depth l r \<longleftrightarrow> l = r) \<and> (sort_order l r = Equal \<longleftrightarrow> l = r)"
  by (simp add: sort_cmp_from_depth_eq sort_eq_from_depth_iff)

end
