(* ===== verification/Kore_Sort_Walk.thy ===== *)
theory Kore_Sort_Walk
  imports Kore_Ast
begin

text \<open>
  Copying and dropping sorts (\<open>Clone for Sort\<close>, \<open>Drop for Sort\<close>, \<open>into_parts\<close> of
  \<open>kore/ast.rs\<close>): the recursion to \<open>SORT_RECURSION_LIMIT\<close> levels, the explicit stack below, and
  that a copy is the sort. \<open>None\<close> is a panic of an \<open>expect\<close> in the loop, which never happens.
\<close>

section \<open>Copies\<close>

record sort_frame =
  sf_name :: str
  sf_arguments :: "sort list"
  sf_built :: "sort list"

definition sort_frame_weight :: "sort_frame \<Rightarrow> nat" where
  "sort_frame_weight f = Suc (2 * sum_list (map sort_nodes (drop (length (sf_built f)) (sf_arguments f))))"

text \<open>
  A frame whose child is being copied counts without that child: \<open>stack_weight\<close> is the measure.
\<close>

fun parents_weight :: "sort_frame list \<Rightarrow> nat" where
  "parents_weight [] = 0"
| "parents_weight (f # stack) =
     Suc (2 * sum_list (map sort_nodes (drop (Suc (length (sf_built f))) (sf_arguments f)))) + parents_weight stack"

fun stack_weight :: "sort_frame list \<Rightarrow> nat" where
  "stack_weight [] = 0"
| "stack_weight (f # stack) = sort_frame_weight f + parents_weight stack"

function sort_clone_loop :: "sort_frame list \<Rightarrow> sort option" where
  "sort_clone_loop [] = None"
| "sort_clone_loop (f # stack) =
     (if length (sf_built f) < length (sf_arguments f)
      then (case sf_arguments f ! length (sf_built f) of
          SortVariable name \<Rightarrow>
            sort_clone_loop (f\<lparr>sf_built := sf_built f @ [SortVariable name]\<rparr> # stack)
        | SortApplication name arguments \<Rightarrow>
            sort_clone_loop (\<lparr>sf_name = name, sf_arguments = arguments, sf_built = []\<rparr> # f # stack))
      else
        (let s = SortApplication (sf_name f) (sf_built f)
         in case stack of
              parent # stack' \<Rightarrow> sort_clone_loop (parent\<lparr>sf_built := sf_built parent @ [s]\<rparr> # stack')
            | [] \<Rightarrow> Some s))"
  by pat_completeness auto

termination
proof (relation "measure stack_weight")
  fix f :: sort_frame and stack name arguments
  assume "length (sf_built f) < length (sf_arguments f)"
    and "sf_arguments f ! length (sf_built f) = SortApplication name arguments"
  then have "drop (length (sf_built f)) (sf_arguments f)
      = SortApplication name arguments # drop (Suc (length (sf_built f))) (sf_arguments f)"
    by (metis Cons_nth_drop_Suc)
  then show "(\<lparr>sf_name = name, sf_arguments = arguments, sf_built = []\<rparr> # f # stack, f # stack)
      \<in> measure stack_weight"
    by (simp add: sort_frame_weight_def)
next
  fix f :: sort_frame and stack name
  assume "length (sf_built f) < length (sf_arguments f)"
    and "sf_arguments f ! length (sf_built f) = SortVariable name"
  then have "drop (length (sf_built f)) (sf_arguments f)
      = SortVariable name # drop (Suc (length (sf_built f))) (sf_arguments f)"
    by (metis Cons_nth_drop_Suc)
  then show "(f\<lparr>sf_built := sf_built f @ [SortVariable name]\<rparr> # stack, f # stack) \<in> measure stack_weight"
    by (simp add: sort_frame_weight_def)
qed (auto simp: sort_frame_weight_def)

declare sort_clone_loop.simps(2) [simp del]

fun sort_clone_iteratively :: "sort \<Rightarrow> sort option" where
  "sort_clone_iteratively (SortVariable name) = Some (SortVariable name)"
| "sort_clone_iteratively (SortApplication name arguments) =
     sort_clone_loop [\<lparr>sf_name = name, sf_arguments = arguments, sf_built = []\<rparr>]"

fun sort_clone_from_depth :: "nat \<Rightarrow> sort \<Rightarrow> sort option" where
  "sort_clone_from_depth depth (SortVariable name) = Some (SortVariable name)"
| "sort_clone_from_depth depth (SortApplication name arguments) =
     (if SORT_RECURSION_LIMIT \<le> depth then sort_clone_iteratively (SortApplication name arguments)
      else map_option (SortApplication name)
        (collect_options (\<lambda>argument. sort_clone_from_depth (depth + 1) argument) arguments))"

definition sort_clone :: "sort \<Rightarrow> sort option" where
  "sort_clone s = sort_clone_from_depth 0 s"

text \<open>A finished copy is the result, or the next argument of the parent frame.\<close>

fun sort_finish :: "sort \<Rightarrow> sort_frame list \<Rightarrow> sort option" where
  "sort_finish s [] = Some s"
| "sort_finish s (parent # stack) = sort_clone_loop (parent\<lparr>sf_built := sf_built parent @ [s]\<rparr> # stack)"

lemma sort_clone_loop_frame:
  assumes IH: "\<And>n as stack. SortApplication n as \<in> set arguments \<Longrightarrow>
      sort_clone_loop (\<lparr>sf_name = n, sf_arguments = as, sf_built = []\<rparr> # stack)
        = sort_finish (SortApplication n as) stack"
  shows "i \<le> length arguments \<Longrightarrow>
    sort_clone_loop (\<lparr>sf_name = name, sf_arguments = arguments, sf_built = take i arguments\<rparr> # stack)
      = sort_finish (SortApplication name arguments) stack"
proof (induction "length arguments - i" arbitrary: i)
  case 0
  then show ?case
    by (cases stack) (simp_all add: sort_clone_loop.simps(2)
        [of "\<lparr>sf_name = name, sf_arguments = arguments, sf_built = arguments\<rparr>"])
next
  case (Suc n)
  then have i: "i < length arguments" by linarith
  then have arg: "arguments ! i \<in> set arguments" by simp
  have next_frame: "take i arguments @ [arguments ! i] = take (Suc i) arguments"
    using i by (simp add: take_Suc_conv_app_nth)
  have "n = length arguments - Suc i" "Suc i \<le> length arguments"
    using Suc.hyps(2) i by linarith+
  note rest = Suc.hyps(1) [OF this]
  show ?case
  proof (cases "arguments ! i")
    case (SortVariable v)
    then show ?thesis
      using i rest next_frame
      by (simp add: sort_clone_loop.simps(2)
          [of "\<lparr>sf_name = name, sf_arguments = arguments, sf_built = take i arguments\<rparr>"])
  next
    case (SortApplication v as)
    then show ?thesis
      using i rest next_frame IH [of v as] arg
      by (simp add: sort_clone_loop.simps(2)
          [of "\<lparr>sf_name = name, sf_arguments = arguments, sf_built = take i arguments\<rparr>"])
  qed
qed

lemma sort_clone_loop_new:
  "sort_clone_loop (\<lparr>sf_name = name, sf_arguments = arguments, sf_built = []\<rparr> # stack)
     = sort_finish (SortApplication name arguments) stack"
proof (induction "size_list size arguments" arbitrary: name arguments stack rule: less_induct)
  case less
  have "sort_clone_loop (\<lparr>sf_name = name, sf_arguments = arguments, sf_built = take 0 arguments\<rparr> # stack)
      = sort_finish (SortApplication name arguments) stack"
  proof (rule sort_clone_loop_frame)
    fix n as stack'
    assume "SortApplication n as \<in> set arguments"
    then have "size (SortApplication n as) \<le> size_list size arguments"
      by (rule size_list_estimation') simp
    then show "sort_clone_loop (\<lparr>sf_name = n, sf_arguments = as, sf_built = []\<rparr> # stack')
        = sort_finish (SortApplication n as) stack'"
      by (intro less.hyps) simp
  qed simp
  then show ?case by simp
qed

lemma sort_clone_iteratively_id: "sort_clone_iteratively s = Some s"
  by (cases s) (simp_all add: sort_clone_loop_new)

lemma sort_clone_from_depth_id: "sort_clone_from_depth depth s = Some s"
proof (induction s arbitrary: depth)
  case (SortApplication name arguments)
  then have "collect_options (sort_clone_from_depth (depth + 1)) arguments = Some (map (\<lambda>a. a) arguments)"
    by (intro collect_options_all) simp
  then show ?case by (simp add: sort_clone_iteratively_id del: sort_clone_iteratively.simps)
qed simp

section \<open>Taking a sort apart\<close>

text \<open>\<open>into_parts\<close>: the name, and the arguments of an application.\<close>

fun sort_into_parts :: "sort \<Rightarrow> str \<times> sort list option" where
  "sort_into_parts (SortVariable name) = (name, None)"
| "sort_into_parts (SortApplication name arguments) = (name, Some arguments)"

fun is_leaf_sort :: "sort \<Rightarrow> bool" where
  "is_leaf_sort (SortVariable _) \<longleftrightarrow> True"
| "is_leaf_sort (SortApplication _ arguments) \<longleftrightarrow> arguments = []"

fun is_shallow :: "sort \<Rightarrow> bool" where
  "is_shallow (SortVariable _) \<longleftrightarrow> True"
| "is_shallow (SortApplication _ arguments) \<longleftrightarrow> list_all is_leaf_sort arguments"

text \<open>
  \<open>Drop for Sort\<close>: a shallow sort is dropped as it is; the arguments of another are taken apart
  first. The log is the sequence of sorts as they are dropped by the loop; the stack's top is the
  last element of the vector, which \<open>append\<close> extends.
\<close>

fun take_sort_arguments :: "sort \<Rightarrow> sort list \<times> sort" where
  "take_sort_arguments (SortVariable name) = ([], SortVariable name)"
| "take_sort_arguments (SortApplication name arguments) = (arguments, SortApplication name [])"

function sort_drop_loop :: "sort list \<Rightarrow> sort list \<Rightarrow> sort list" where
  "sort_drop_loop [] dropped = dropped"
| "sort_drop_loop (s # work) dropped =
     (let (arguments, emptied) = take_sort_arguments s
      in sort_drop_loop (rev arguments @ work) (dropped @ [emptied]))"
  by pat_completeness auto
termination
proof (relation "measure (\<lambda>(work, _). sum_list (map sort_nodes work))")
  fix s work and dropped x arguments emptied
  assume "x = take_sort_arguments s" and "(arguments, emptied) = x"
  then show "((rev arguments @ work, dropped @ [emptied]), s # work, dropped)
      \<in> measure (\<lambda>(work, _). sum_list (map sort_nodes work))"
    by (cases s) (auto simp: rev_map [symmetric] sum_list_rev)
qed auto

definition drop_sort :: "sort \<Rightarrow> sort list \<times> sort" where
  "drop_sort s =
     (if is_shallow s then ([], s)
      else case s of
          SortVariable name \<Rightarrow> ([], s)
        | SortApplication name arguments \<Rightarrow>
            (sort_drop_loop (rev arguments) [], SortApplication name []))"

lemma sort_drop_loop_leaves:
  "\<forall>s \<in> set dropped. is_leaf_sort s \<Longrightarrow> \<forall>s \<in> set (sort_drop_loop work dropped). is_leaf_sort s"
proof (induction work dropped rule: sort_drop_loop.induct)
  case (2 s work dropped)
  then show ?case by (cases s) (auto simp: Let_def)
qed simp

text \<open>What is left for the compiler's own recursive drop is at most two levels deep.\<close>

lemma drop_sort_shallow:
  "\<forall>d \<in> set (fst (drop_sort s)). is_leaf_sort d" "is_shallow (snd (drop_sort s))"
  by (auto simp: drop_sort_def split: sort.splits dest: sort_drop_loop_leaves [rule_format, rotated])

section \<open>Properties\<close>

text \<open>copying a sort returns the sort, whatever the depth the copy starts at: neither the
  recursion above \<open>SORT_RECURSION_LIMIT\<close> nor the explicit stack below it can panic or change
  anything.\<close>

theorem sort_copy_is_the_sort: "sort_clone_from_depth depth s = Some s"
  by (rule sort_clone_from_depth_id)

end
