(* ===== verification/Kore_Pattern_Order.thy ===== *)
theory Kore_Pattern_Order
  imports Kore_Ast
begin

text \<open>
  The total order of patterns (\<open>Ord for Pattern\<close> in \<open>kore/ast.rs\<close>): the rank of the variant, then
  the fields of the node that are not patterns (\<open>pattern_scalars\<close>), then the children left to
  right, then their number, computed with an explicit work list. \<open>pattern_order\<close> states the
  order by recursion; the work list is an instance of \<open>cmp_machine\<close>.
\<close>

section \<open>Children and ranks\<close>

text \<open>\<open>walk::children\<close>: the direct subpatterns in field order.\<close>

fun children :: "pattern \<Rightarrow> pattern list" where
  "children (PApplication _ arguments) = arguments"
| "children (PAnd _ arguments) = arguments"
| "children (POr _ arguments) = arguments"
| "children (PAssociative _ _ arguments) = arguments"
| "children (PNot _ argument) = [argument]"
| "children (PNext _ argument) = [argument]"
| "children (PCeil _ _ argument) = [argument]"
| "children (PFloor _ _ argument) = [argument]"
| "children (PImplies _ left right) = [left, right]"
| "children (PIff _ left right) = [left, right]"
| "children (PRewrites _ left right) = [left, right]"
| "children (PEquals _ _ left right) = [left, right]"
| "children (PIn _ _ left right) = [left, right]"
| "children (PExists _ _ body) = [body]"
| "children (PForall _ _ body) = [body]"
| "children (PMu _ body) = [body]"
| "children (PNu _ body) = [body]"
| "children (PString _) = []"
| "children (PVariable _) = []"
| "children (PTop _) = []"
| "children (PBottom _) = []"
| "children (PDomainValue _ _) = []"

lemma children_size: "c \<in> set (children p) \<Longrightarrow> size c < size p"
  by (cases p) (auto dest: size_list_estimation' [where f = size, OF _ order_refl])

function pattern_nodes :: "pattern \<Rightarrow> nat" where
  "pattern_nodes p = Suc (sum_list (map pattern_nodes (children p)))"
  by pat_completeness auto
termination
  by (relation "measure size") (auto dest: children_size)

declare pattern_nodes.simps [simp del]

lemma pattern_nodes_child: "c \<in> set (children p) \<Longrightarrow> pattern_nodes c < pattern_nodes p"
  by (subst (2) pattern_nodes.simps) (auto simp: less_Suc_eq_le member_le_sum_list)

text \<open>Induction over the nodes of a pattern, with a hypothesis for each child.\<close>

lemma pattern_children_induct [case_names node]:
  assumes "\<And>p. (\<And>c. c \<in> set (children p) \<Longrightarrow> P c) \<Longrightarrow> P p"
  shows "P p"
  by (induction p rule: measure_induct_rule [of size]) (auto intro: assms dest: children_size)

fun discriminant :: "pattern \<Rightarrow> nat" where
  "discriminant (PString _) = 0"
| "discriminant (PVariable _) = 1"
| "discriminant (PApplication _ _) = 2"
| "discriminant (PTop _) = 3"
| "discriminant (PBottom _) = 4"
| "discriminant (PAnd _ _) = 5"
| "discriminant (POr _ _) = 6"
| "discriminant (PNot _ _) = 7"
| "discriminant (PNext _ _) = 8"
| "discriminant (PImplies _ _ _) = 9"
| "discriminant (PIff _ _ _) = 10"
| "discriminant (PRewrites _ _ _) = 11"
| "discriminant (PExists _ _ _) = 12"
| "discriminant (PForall _ _ _) = 13"
| "discriminant (PMu _ _) = 14"
| "discriminant (PNu _ _) = 15"
| "discriminant (PCeil _ _ _) = 16"
| "discriminant (PFloor _ _ _) = 17"
| "discriminant (PEquals _ _ _ _) = 18"
| "discriminant (PIn _ _ _ _) = 19"
| "discriminant (PDomainValue _ _) = 20"
| "discriminant (PAssociative _ _ _) = 21"

section \<open>The derived orders of the fields\<close>

definition kore_string_cmp :: "kore_string \<Rightarrow> kore_string \<Rightarrow> ordering" where
  "kore_string_cmp = list_cmp ord_cmp"

fun kind_rank :: "variable_kind \<Rightarrow> nat" where
  "kind_rank Element = 0"
| "kind_rank SetVar = 1"

fun associativity_rank :: "associativity \<Rightarrow> nat" where
  "associativity_rank LeftAssoc = 0"
| "associativity_rank RightAssoc = 1"

definition associativity_cmp :: "associativity \<Rightarrow> associativity \<Rightarrow> ordering" where
  "associativity_cmp a b = ord_cmp (associativity_rank a) (associativity_rank b)"

definition symbol_cmp :: "symbol \<Rightarrow> symbol \<Rightarrow> ordering" where
  "symbol_cmp a b = then_with (str_cmp (symbol_name a) (symbol_name b))
     (list_cmp sort_cmp (sort_parameters a) (sort_parameters b))"

definition variable_cmp :: "variable \<Rightarrow> variable \<Rightarrow> ordering" where
  "variable_cmp a b = then_with (ord_cmp (kind_rank (var_kind a)) (kind_rank (var_kind b)))
     (then_with (str_cmp (var_name a) (var_name b)) (sort_cmp (var_sort a) (var_sort b)))"

interpretation kore_string_cmp: total_cmp kore_string_cmp
  unfolding kore_string_cmp_def by (rule byte_cmp.slices)

interpretation sorts_cmp: total_cmp "list_cmp sort_cmp"
  by (rule sort_cmp.slices)

interpretation associativity_weak: weak_cmp associativity_cmp
  unfolding associativity_cmp_def [abs_def] by (rule nat_cmp.on_key)

interpretation associativity_cmp: total_cmp associativity_cmp
proof
  show "associativity_cmp a b = Equal \<Longrightarrow> a = b" for a b
    by (cases a; cases b) (simp_all add: associativity_cmp_def ord_cmp_def)
qed

interpretation symbol_weak: weak_cmp symbol_cmp
  unfolding symbol_cmp_def [abs_def]
  by (rule then_with_weak [OF str_cmp.on_key sorts_cmp.on_key])

interpretation symbol_cmp: total_cmp symbol_cmp
  by unfold_locales (auto simp: symbol_cmp_def intro: symbol.equality)

interpretation variable_weak: weak_cmp variable_cmp
  unfolding variable_cmp_def [abs_def]
  by (rule then_with_weak [OF nat_cmp.on_key then_with_weak [OF str_cmp.on_key sort_cmp.on_key]])

lemma kind_rank_inject: "kind_rank k = kind_rank l \<Longrightarrow> k = l"
  by (cases k; cases l) auto

interpretation variable_cmp: total_cmp variable_cmp
  by unfold_locales (auto simp: variable_cmp_def intro!: variable.equality dest: kind_rank_inject)

section \<open>The order of patterns\<close>

text \<open>\<open>scalars\<close>: the fields that are not patterns, of two nodes of one variant.\<close>

definition pattern_scalars :: "pattern \<Rightarrow> pattern \<Rightarrow> ordering" where
  "pattern_scalars left right = (case left of
     PString l \<Rightarrow> (case right of PString r \<Rightarrow> kore_string_cmp l r | _ \<Rightarrow> Equal)
   | PVariable l \<Rightarrow> (case right of PVariable r \<Rightarrow> variable_cmp l r | _ \<Rightarrow> Equal)
   | PApplication ls _ \<Rightarrow> (case right of PApplication rs _ \<Rightarrow> symbol_cmp ls rs | _ \<Rightarrow> Equal)
   | PTop l \<Rightarrow> (case right of PTop r \<Rightarrow> sort_cmp l r | _ \<Rightarrow> Equal)
   | PBottom l \<Rightarrow> (case right of PBottom r \<Rightarrow> sort_cmp l r | _ \<Rightarrow> Equal)
   | PAnd ls _ \<Rightarrow> (case right of PAnd rs _ \<Rightarrow> sort_cmp ls rs | _ \<Rightarrow> Equal)
   | POr ls _ \<Rightarrow> (case right of POr rs _ \<Rightarrow> sort_cmp ls rs | _ \<Rightarrow> Equal)
   | PNot ls _ \<Rightarrow> (case right of PNot rs _ \<Rightarrow> sort_cmp ls rs | _ \<Rightarrow> Equal)
   | PNext ls _ \<Rightarrow> (case right of PNext rs _ \<Rightarrow> sort_cmp ls rs | _ \<Rightarrow> Equal)
   | PImplies ls _ _ \<Rightarrow> (case right of PImplies rs _ _ \<Rightarrow> sort_cmp ls rs | _ \<Rightarrow> Equal)
   | PIff ls _ _ \<Rightarrow> (case right of PIff rs _ _ \<Rightarrow> sort_cmp ls rs | _ \<Rightarrow> Equal)
   | PRewrites ls _ _ \<Rightarrow> (case right of PRewrites rs _ _ \<Rightarrow> sort_cmp ls rs | _ \<Rightarrow> Equal)
   | PExists ls lv _ \<Rightarrow>
       (case right of PExists rs rv _ \<Rightarrow> then_with (sort_cmp ls rs) (variable_cmp lv rv) | _ \<Rightarrow> Equal)
   | PForall ls lv _ \<Rightarrow>
       (case right of PForall rs rv _ \<Rightarrow> then_with (sort_cmp ls rs) (variable_cmp lv rv) | _ \<Rightarrow> Equal)
   | PMu lv _ \<Rightarrow> (case right of PMu rv _ \<Rightarrow> variable_cmp lv rv | _ \<Rightarrow> Equal)
   | PNu lv _ \<Rightarrow> (case right of PNu rv _ \<Rightarrow> variable_cmp lv rv | _ \<Rightarrow> Equal)
   | PCeil lo lr _ \<Rightarrow>
       (case right of PCeil ro rr _ \<Rightarrow> then_with (sort_cmp lo ro) (sort_cmp lr rr) | _ \<Rightarrow> Equal)
   | PFloor lo lr _ \<Rightarrow>
       (case right of PFloor ro rr _ \<Rightarrow> then_with (sort_cmp lo ro) (sort_cmp lr rr) | _ \<Rightarrow> Equal)
   | PEquals lo lr _ _ \<Rightarrow>
       (case right of PEquals ro rr _ _ \<Rightarrow> then_with (sort_cmp lo ro) (sort_cmp lr rr) | _ \<Rightarrow> Equal)
   | PIn lo lr _ _ \<Rightarrow>
       (case right of PIn ro rr _ _ \<Rightarrow> then_with (sort_cmp lo ro) (sort_cmp lr rr) | _ \<Rightarrow> Equal)
   | PDomainValue ls lv \<Rightarrow>
       (case right of PDomainValue rs rv \<Rightarrow> then_with (sort_cmp ls rs) (kore_string_cmp lv rv) | _ \<Rightarrow> Equal)
   | PAssociative la ls _ \<Rightarrow>
       (case right of PAssociative ra rs _ \<Rightarrow> then_with (associativity_cmp la ra) (symbol_cmp ls rs)
        | _ \<Rightarrow> Equal))"

definition pattern_head_cmp :: "pattern \<Rightarrow> pattern \<Rightarrow> ordering" where
  "pattern_head_cmp left right =
     then_with (ord_cmp (discriminant left) (discriminant right)) (pattern_scalars left right)"

text \<open>The loop of \<open>Ord::cmp\<close>.\<close>

function pattern_cmp_loop :: "pattern cmp_step list \<Rightarrow> ordering" where
  "pattern_cmp_loop [] = Equal"
| "pattern_cmp_loop (PrefixLength ord # work) = (if ord \<noteq> Equal then ord else pattern_cmp_loop work)"
| "pattern_cmp_loop (Compare left right # work) =
     (let ordering = pattern_head_cmp left right;
          left_children = children left; right_children = children right
      in if ordering \<noteq> Equal then ordering
         else pattern_cmp_loop (map2 Compare left_children right_children
           @ PrefixLength (ord_cmp (length left_children) (length right_children)) # work))"
  by pat_completeness auto
termination
proof (relation "measure (cmp_weight pattern_nodes)")
  fix left right work x xa xb
  assume "xa = children left" "xb = children right"
  moreover have "cmp_weight pattern_nodes (map2 Compare (children left) (children right))
      \<le> 2 * sum_list (map pattern_nodes (children left))"
    by (rule cmp_weight_pairs)
  moreover have "pattern_nodes left = Suc (sum_list (map pattern_nodes (children left)))"
    by (rule pattern_nodes.simps)
  ultimately show "(map2 Compare xa xb @ PrefixLength (ord_cmp (length xa) (length xb)) # work,
      Compare left right # work) \<in> measure (cmp_weight pattern_nodes)"
    by simp
qed auto

definition pattern_cmp :: "pattern \<Rightarrow> pattern \<Rightarrow> ordering" where
  "pattern_cmp left right = pattern_cmp_loop [Compare left right]"

definition pattern_eq :: "pattern \<Rightarrow> pattern \<Rightarrow> bool" where
  "pattern_eq left right \<longleftrightarrow> pattern_cmp left right = Equal"

text \<open>The derived order: head, then children as slices.\<close>

function pattern_order :: "pattern \<Rightarrow> pattern \<Rightarrow> ordering" where
  "pattern_order p q =
     then_with (pattern_head_cmp p q) (list_cmp pattern_order (children p) (children q))"
  by pat_completeness auto
termination
  by (relation "measure (\<lambda>(p, _). pattern_nodes p)") (auto dest: pattern_nodes_child)

declare pattern_order.simps [simp del]

section \<open>Totality\<close>

text \<open>
  The fields of a node, by type, each as a list of at most two. Comparing nodes of one rank field
  by field is comparing these lists one type after the other, since no variant has a variable
  before a sort, a string before a sort or a symbol before an associativity.
\<close>

fun carried_sorts :: "pattern \<Rightarrow> sort list" where
  "carried_sorts (PTop s) = [s]"
| "carried_sorts (PBottom s) = [s]"
| "carried_sorts (PAnd s _) = [s]"
| "carried_sorts (POr s _) = [s]"
| "carried_sorts (PNot s _) = [s]"
| "carried_sorts (PNext s _) = [s]"
| "carried_sorts (PImplies s _ _) = [s]"
| "carried_sorts (PIff s _ _) = [s]"
| "carried_sorts (PRewrites s _ _) = [s]"
| "carried_sorts (PExists s _ _) = [s]"
| "carried_sorts (PForall s _ _) = [s]"
| "carried_sorts (PCeil s t _) = [s, t]"
| "carried_sorts (PFloor s t _) = [s, t]"
| "carried_sorts (PEquals s t _ _) = [s, t]"
| "carried_sorts (PIn s t _ _) = [s, t]"
| "carried_sorts (PDomainValue s _) = [s]"
| "carried_sorts _ = []"

fun carried_variables :: "pattern \<Rightarrow> variable list" where
  "carried_variables (PVariable v) = [v]"
| "carried_variables (PExists _ v _) = [v]"
| "carried_variables (PForall _ v _) = [v]"
| "carried_variables (PMu v _) = [v]"
| "carried_variables (PNu v _) = [v]"
| "carried_variables _ = []"

fun carried_symbols :: "pattern \<Rightarrow> symbol list" where
  "carried_symbols (PApplication s _) = [s]"
| "carried_symbols (PAssociative _ s _) = [s]"
| "carried_symbols _ = []"

fun carried_strings :: "pattern \<Rightarrow> kore_string list" where
  "carried_strings (PString v) = [v]"
| "carried_strings (PDomainValue _ v) = [v]"
| "carried_strings _ = []"

fun carried_sides :: "pattern \<Rightarrow> associativity list" where
  "carried_sides (PAssociative a _ _) = [a]"
| "carried_sides _ = []"

lemmas carried_defs =
  carried_sorts.simps carried_variables.simps carried_symbols.simps carried_strings.simps
  carried_sides.simps

definition field_cmp :: "pattern \<Rightarrow> pattern \<Rightarrow> ordering" where
  "field_cmp p q =
     then_with (list_cmp associativity_cmp (carried_sides p) (carried_sides q))
    (then_with (list_cmp symbol_cmp (carried_symbols p) (carried_symbols q))
    (then_with (list_cmp sort_cmp (carried_sorts p) (carried_sorts q))
    (then_with (list_cmp variable_cmp (carried_variables p) (carried_variables q))
               (list_cmp kore_string_cmp (carried_strings p) (carried_strings q)))))"

lemma pattern_head_cmp_fields:
  "pattern_head_cmp p q = then_with (ord_cmp (discriminant p) (discriminant q)) (field_cmp p q)"
  unfolding pattern_head_cmp_def
  by (cases p; cases q; simp only: discriminant.simps ord_cmp_def rel_simps if_True if_False
      then_with.simps refl pattern_scalars_def pattern.case; simp add: field_cmp_def)

interpretation sides_cmp: total_cmp "list_cmp associativity_cmp" by (rule associativity_cmp.slices)
interpretation symbols_cmp: total_cmp "list_cmp symbol_cmp" by (rule symbol_cmp.slices)
interpretation variables_cmp: total_cmp "list_cmp variable_cmp" by (rule variable_cmp.slices)
interpretation strings_cmp: total_cmp "list_cmp kore_string_cmp" by (rule kore_string_cmp.slices)

lemma pattern_head_cmp_weak: "weak_cmp pattern_head_cmp"
  unfolding pattern_head_cmp_fields [abs_def] field_cmp_def [abs_def]
  by (intro then_with_weak nat_cmp.on_key sides_cmp.on_key symbols_cmp.on_key sorts_cmp.on_key
      variables_cmp.on_key strings_cmp.on_key)

lemma pattern_head_eqD:
  "pattern_head_cmp p q = Equal \<Longrightarrow> children p = children q \<Longrightarrow> p = q"
  unfolding pattern_head_cmp_fields then_with_eq_Equal_iff nat_cmp.eq_iff
  by (cases p; cases q; simp only: discriminant.simps rel_simps simp_thms; simp add: field_cmp_def)

interpretation pattern_head: weak_cmp pattern_head_cmp
  by (rule pattern_head_cmp_weak)

interpretation pattern_machine:
  cmp_machine pattern_head_cmp children pattern_nodes pattern_order pattern_cmp_loop
proof
  fix p q
  show "pattern_order p q
      = then_with (pattern_head_cmp p q) (list_cmp pattern_order (children p) (children q))"
    by (rule pattern_order.simps)
  show "pattern_head_cmp p q = Equal \<Longrightarrow> children p = children q \<Longrightarrow> p = q"
    by (rule pattern_head_eqD)
qed (auto dest: pattern_nodes_child simp: Let_def)

lemma pattern_cmp_eq: "pattern_cmp p q = pattern_order p q"
  unfolding pattern_cmp_def by (rule pattern_machine.loop_single)

interpretation pattern_cmp: total_cmp pattern_cmp
  unfolding pattern_cmp_eq [abs_def] by (rule pattern_machine.total)

lemma pattern_eq_iff [simp]: "pattern_eq p q \<longleftrightarrow> p = q"
  by (simp add: pattern_eq_def)

instantiation pattern :: linorder
begin

definition less_eq_pattern :: "pattern \<Rightarrow> pattern \<Rightarrow> bool" where
  "less_eq_pattern a b \<longleftrightarrow> pattern_cmp a b \<noteq> Greater"

definition less_pattern :: "pattern \<Rightarrow> pattern \<Rightarrow> bool" where
  "less_pattern a b \<longleftrightarrow> pattern_cmp a b = Less"

instance
proof
  fix a b c :: pattern
  show "(a < b) = (a \<le> b \<and> \<not> b \<le> a)"
    using pattern_cmp.lt_iff
    by (simp add: less_pattern_def less_eq_pattern_def pattern_cmp.lt_def pattern_cmp.le_def)
  show "a \<le> a"
    by (simp add: less_eq_pattern_def)
  show "a \<le> b \<Longrightarrow> b \<le> c \<Longrightarrow> a \<le> c"
    using pattern_cmp.le_trans by (simp add: less_eq_pattern_def pattern_cmp.le_def)
  show "a \<le> b \<Longrightarrow> b \<le> a \<Longrightarrow> a = b"
    using pattern_cmp.le_antisym by (simp add: less_eq_pattern_def pattern_cmp.le_def)
  show "a \<le> b \<or> b \<le> a"
    using pattern_cmp.le_total by (simp add: less_eq_pattern_def pattern_cmp.le_def)
qed

end

section \<open>The derived order\<close>

text \<open>
  The order that \<open>#[derive(Ord)]\<close> documents, stated on its own: a value is compared as the sequence of
  the place of its variant in the declaration and its fields in the order of the declaration; a vector, a
  string or a payload as the sequence of its elements; sequences lexicographically. \<open>pattern_key\<close>
  spells that sequence out for each variant of the enum.
\<close>

datatype key = Number nat | Sequence "key list"

fun key_cmp :: "key \<Rightarrow> key \<Rightarrow> ordering" where
  "key_cmp (Number m) (Number n) = ord_cmp m n"
| "key_cmp (Number _) (Sequence _) = Less"
| "key_cmp (Sequence _) (Number _) = Greater"
| "key_cmp (Sequence ks) (Sequence ls) = list_cmp key_cmp ks ls"

definition text_key :: "str \<Rightarrow> key" where
  "text_key s = Sequence (map Number s)"

definition payload_key :: "kore_string \<Rightarrow> key" where
  "payload_key v = Sequence (map (\<lambda>b. Number (unat b)) v)"

fun sort_key :: "sort \<Rightarrow> key" where
  "sort_key (SortVariable name) = Sequence [Number 0, text_key name]"
| "sort_key (SortApplication name arguments) = Sequence [Number 1, text_key name, Sequence (map sort_key arguments)]"

definition symbol_key :: "symbol \<Rightarrow> key" where
  "symbol_key s = Sequence [text_key (symbol_name s), Sequence (map sort_key (sort_parameters s))]"

definition variable_key :: "variable \<Rightarrow> key" where
  "variable_key v =
     Sequence [Number (case var_kind v of Element \<Rightarrow> 0 | SetVar \<Rightarrow> 1), text_key (var_name v), sort_key (var_sort v)]"

definition side_key :: "associativity \<Rightarrow> key" where
  "side_key a = Number (case a of LeftAssoc \<Rightarrow> 0 | RightAssoc \<Rightarrow> 1)"

fun pattern_key :: "pattern \<Rightarrow> key" where
  "pattern_key (PString v) = Sequence [Number 0, payload_key v]"
| "pattern_key (PVariable v) = Sequence [Number 1, variable_key v]"
| "pattern_key (PApplication s as) = Sequence [Number 2, symbol_key s, Sequence (map pattern_key as)]"
| "pattern_key (PTop s) = Sequence [Number 3, sort_key s]"
| "pattern_key (PBottom s) = Sequence [Number 4, sort_key s]"
| "pattern_key (PAnd s as) = Sequence [Number 5, sort_key s, Sequence (map pattern_key as)]"
| "pattern_key (POr s as) = Sequence [Number 6, sort_key s, Sequence (map pattern_key as)]"
| "pattern_key (PNot s a) = Sequence [Number 7, sort_key s, pattern_key a]"
| "pattern_key (PNext s a) = Sequence [Number 8, sort_key s, pattern_key a]"
| "pattern_key (PImplies s a b) = Sequence [Number 9, sort_key s, pattern_key a, pattern_key b]"
| "pattern_key (PIff s a b) = Sequence [Number 10, sort_key s, pattern_key a, pattern_key b]"
| "pattern_key (PRewrites s a b) = Sequence [Number 11, sort_key s, pattern_key a, pattern_key b]"
| "pattern_key (PExists s v a) = Sequence [Number 12, sort_key s, variable_key v, pattern_key a]"
| "pattern_key (PForall s v a) = Sequence [Number 13, sort_key s, variable_key v, pattern_key a]"
| "pattern_key (PMu v a) = Sequence [Number 14, variable_key v, pattern_key a]"
| "pattern_key (PNu v a) = Sequence [Number 15, variable_key v, pattern_key a]"
| "pattern_key (PCeil s r a) = Sequence [Number 16, sort_key s, sort_key r, pattern_key a]"
| "pattern_key (PFloor s r a) = Sequence [Number 17, sort_key s, sort_key r, pattern_key a]"
| "pattern_key (PEquals s r a b) = Sequence [Number 18, sort_key s, sort_key r, pattern_key a, pattern_key b]"
| "pattern_key (PIn s r a b) = Sequence [Number 19, sort_key s, sort_key r, pattern_key a, pattern_key b]"
| "pattern_key (PDomainValue s v) = Sequence [Number 20, sort_key s, payload_key v]"
| "pattern_key (PAssociative d s as) = Sequence [Number 21, side_key d, symbol_key s, Sequence (map pattern_key as)]"

lemma list_cmp_map:
  assumes "\<And>a b. a \<in> set as \<Longrightarrow> cmp' (f a) (f b) = cmp a b"
  shows "list_cmp cmp' (map f as) (map f bs) = list_cmp cmp as bs"
  using assms by (induction cmp as bs rule: list_cmp.induct) auto

lemma text_keys: "key_cmp (text_key a) (text_key b) = str_cmp a b"
  by (simp add: text_key_def str_cmp_def list_cmp_map)

lemma payload_keys: "key_cmp (payload_key a) (payload_key b) = kore_string_cmp a b"
  unfolding payload_key_def kore_string_cmp_def key_cmp.simps
  by (rule list_cmp_map) (simp add: ord_cmp_def word_less_nat_alt word_unat_eq_iff)

lemma sort_keys: "key_cmp (sort_key a) (sort_key b) = sort_cmp a b"
  unfolding sort_cmp_eq
proof (induction a arbitrary: b)
  case (SortVariable n)
  then show ?case
    by (cases b) (simp_all add: text_keys sort_order.simps [of "SortVariable _"] sort_head_cmp_def ord_cmp_def)
next
  case (SortApplication n args)
  have "list_cmp key_cmp (map sort_key args) (map sort_key bs) = list_cmp sort_order args bs" for bs
    by (rule list_cmp_map) (rule SortApplication.IH)
  then show ?case
    by (cases b) (simp_all add: text_keys sort_order.simps [of "SortApplication _ _"] sort_head_cmp_def ord_cmp_def)
qed

lemma sorts_keys: "list_cmp key_cmp (map sort_key as) (map sort_key bs) = list_cmp sort_cmp as bs"
  by (rule list_cmp_map) (rule sort_keys)

lemma symbol_keys: "key_cmp (symbol_key a) (symbol_key b) = symbol_cmp a b"
  by (simp add: symbol_key_def symbol_cmp_def text_keys sorts_keys)

lemma variable_keys: "key_cmp (variable_key a) (variable_key b) = variable_cmp a b"
  by (simp add: variable_key_def variable_cmp_def text_keys sort_keys)
    (cases "var_kind a"; cases "var_kind b"; simp add: ord_cmp_def)

lemma side_keys: "key_cmp (side_key a) (side_key b) = associativity_cmp a b"
  by (cases a; cases b) (simp_all add: side_key_def associativity_cmp_def ord_cmp_def)

lemmas field_keys = payload_keys sort_keys symbol_keys variable_keys side_keys

lemma pattern_key_rank: "\<exists>ks. pattern_key p = Sequence (Number (discriminant p) # ks)"
  by (cases p) auto

lemma pattern_key_same_rank:
  "discriminant p = discriminant q \<Longrightarrow> key_cmp (pattern_key p) (pattern_key q)
     = then_with (pattern_scalars p q) (list_cmp key_cmp (map pattern_key (children p)) (map pattern_key (children q)))"
  by (cases p; cases q; simp only: discriminant.simps rel_simps;
      simp add: pattern_scalars_def field_keys then_with_assoc ord_cmp_def)

lemma pattern_cmp_keys: "pattern_cmp p q = key_cmp (pattern_key p) (pattern_key q)"
  unfolding pattern_cmp_eq
proof (induction p arbitrary: q rule: pattern_children_induct)
  case (node p)
  have children: "list_cmp key_cmp (map pattern_key (children p)) (map pattern_key (children q))
      = list_cmp pattern_order (children p) (children q)"
    by (rule list_cmp_map) (simp add: node)
  show ?case
  proof (cases "discriminant p = discriminant q")
    case False
    then show ?thesis
      using pattern_key_rank [of p] pattern_key_rank [of q]
      by (auto simp: pattern_order.simps [of p] pattern_head_cmp_def ord_cmp_def)
  next
    case True
    then show ?thesis
      by (simp add: pattern_key_same_rank children pattern_order.simps [of p] pattern_head_cmp_def ord_cmp_def)
  qed
qed

section \<open>Properties\<close>

text \<open>C38: the work-list comparison of patterns computes the order a derived comparison would: the
  lexicographic order of the keys that list, for each variant, its place in the declaration and its
  fields in the order of the declaration, at every depth.\<close>

theorem pattern_comparison_correct: "pattern_cmp p q = key_cmp (pattern_key p) (pattern_key q)"
  by (rule pattern_cmp_keys)

text \<open>\<open>Ord for Pattern\<close> is a total order that agrees with \<open>Eq\<close>: comparing backwards reverses the
  answer, only a pattern is equal to itself, and the order is transitive.\<close>

theorem pattern_order_is_total:
  "pattern_cmp q p = reverse (pattern_cmp p q)
   \<and> (pattern_cmp p q = Equal \<longleftrightarrow> p = q) \<and> (pattern_eq p q \<longleftrightarrow> p = q)
   \<and> (pattern_cmp p q \<noteq> Greater \<longrightarrow> pattern_cmp q r \<noteq> Greater \<longrightarrow>
        pattern_cmp p r = then_with (pattern_cmp p q) (pattern_cmp q r))"
  using pattern_cmp.flip [of q p] pattern_cmp.chain [of p q r] by simp

theorem pattern_order_is_total_witness:
  "pattern_cmp (PTop (SortVariable [])) (PAnd (SortVariable []) [PString [0]]) = Less"
proof -
  let ?s = "SortVariable []"
  have "pattern_cmp (PTop ?s) (PBottom ?s) \<noteq> Greater" "pattern_cmp (PBottom ?s) (PAnd ?s [PString [0]]) \<noteq> Greater"
    "pattern_cmp (PTop ?s) (PBottom ?s) = Less"
    by (simp_all add: pattern_cmp_eq pattern_order.simps [of "PTop _"] pattern_order.simps [of "PBottom _"]
        pattern_head_cmp_def ord_cmp_def)
  then show ?thesis
    using pattern_order_is_total [of "PBottom ?s" "PTop ?s" "PAnd ?s [PString [0]]"] by simp
qed

end
