(* ===== verification/Kore_Walk.thy ===== *)
theory Kore_Walk
  imports Kore_Pattern_Order
begin

text \<open>
  Traversals of patterns with an explicit stack (\<open>kore/walk.rs\<close>): the post-order visit, the
  rebuilding of a pattern from the values of its children, and the walkers derived from them
  (variables, free variables, capture-refusing substitution, sorts, flattened conjunctions,
  search for an application).

  A stack of the source is a list whose head is the top. \<open>None\<close> stands for a panic: of an
  \<open>expect\<close> in the traversal itself, or of the callback of \<open>rebuild\<close>. The theorems show that the
  traversals compute the recursive readings \<open>post_order\<close>, \<open>fold_pattern\<close>, \<open>free_vars\<close> and so on,
  and in particular that their own \<open>expect\<close>s never fail.
\<close>

section \<open>Post-order\<close>

text \<open>The loop of \<open>for_each_post_order\<close>; the visitor is a state transformer.\<close>

definition visit_weight :: "(pattern \<times> bool) list \<Rightarrow> nat" where
  "visit_weight work = sum_list (map (\<lambda>(p, complete). if complete then 1 else 2 * pattern_nodes p) work)"

lemma visit_weight_simps [simp]:
  "visit_weight [] = 0" "visit_weight ((p, True) # work) = Suc (visit_weight work)"
  "visit_weight ((p, False) # work) = 2 * pattern_nodes p + visit_weight work"
  "visit_weight (v @ w) = visit_weight v + visit_weight w"
  by (auto simp: visit_weight_def)

lemma visit_weight_children:
  "visit_weight (map (\<lambda>c. (c, False)) (children p)) + 2 = 2 * pattern_nodes p"
proof -
  have "visit_weight (map (\<lambda>c. (c, False)) ps) = 2 * sum_list (map pattern_nodes ps)" for ps
    by (induction ps) auto
  then show ?thesis by (simp add: pattern_nodes.simps [of p])
qed

function post_order_loop :: "(pattern \<Rightarrow> 's \<Rightarrow> 's) \<Rightarrow> (pattern \<times> bool) list \<Rightarrow> 's \<Rightarrow> 's" where
  "post_order_loop visit [] st = st"
| "post_order_loop visit ((p, complete) # work) st =
     (if complete then post_order_loop visit work (visit p st)
      else post_order_loop visit (map (\<lambda>child. (child, False)) (children p) @ (p, True) # work) st)"
  by pat_completeness auto
termination
proof (relation "measure (\<lambda>(_, work, _). visit_weight work)")
  fix visit :: "pattern \<Rightarrow> 's \<Rightarrow> 's" and p complete work st
  assume "\<not> complete"
  then show "((visit, map (\<lambda>child. (child, False)) (children p) @ (p, True) # work, st),
      visit, (p, complete) # work, st) \<in> measure (\<lambda>(_, work, _). visit_weight work)"
    using visit_weight_children [of p] by simp
qed auto

definition for_each_post_order :: "pattern \<Rightarrow> (pattern \<Rightarrow> 's \<Rightarrow> 's) \<Rightarrow> 's \<Rightarrow> 's" where
  "for_each_post_order p visit st = post_order_loop visit [(p, False)] st"

text \<open>The nodes in post-order, by recursion.\<close>

function post_order :: "pattern \<Rightarrow> pattern list" where
  "post_order p = concat (map post_order (children p)) @ [p]"
  by pat_completeness auto
termination
  by (relation "measure size") (auto dest: children_size)

declare post_order.simps [simp del]

lemma post_order_loop_False:
  "post_order_loop visit ((p, False) # work) st
     = post_order_loop visit work (fold visit (post_order p) st)"
proof (induction p arbitrary: work st rule: pattern_children_induct)
  case (node p)
  have "post_order_loop visit (map (\<lambda>c. (c, False)) cs @ work') st
      = post_order_loop visit work' (fold visit (concat (map post_order cs)) st)"
    if "set cs \<subseteq> set (children p)" for cs work' st
    using that by (induction cs arbitrary: st) (auto simp: node simp del: post_order_loop.simps)
  then show ?case by (simp add: post_order.simps [of p])
qed

lemma for_each_post_order_fold: "for_each_post_order p visit st = fold visit (post_order p) st"
  by (simp add: for_each_post_order_def post_order_loop_False del: post_order_loop.simps(2))

lemma set_post_order: "set (post_order p) = insert p (\<Union>c \<in> set (children p). set (post_order c))"
  by (subst post_order.simps) auto

lemma length_post_order: "length (post_order p) = pattern_nodes p"
proof (induction p rule: pattern_children_induct)
  case (node p)
  then have "sum_list (map (\<lambda>c. length (post_order c)) (children p))
      = sum_list (map pattern_nodes (children p))"
    by (simp cong: map_cong)
  then show ?case
    by (simp add: post_order.simps [of p] pattern_nodes.simps [of p] length_concat o_def)
qed

section \<open>Rebuilding\<close>

record 'a frame =
  fr_pattern :: pattern
  fr_children :: "pattern list"
  fr_next :: nat
  fr_built :: "'a list"

definition new_frame :: "pattern \<Rightarrow> 'a frame" where
  "new_frame p = \<lparr>fr_pattern = p, fr_children = children p, fr_next = 0, fr_built = []\<rparr>"

definition frame_weight :: "'a frame \<Rightarrow> nat" where
  "frame_weight f = Suc (2 * sum_list (map pattern_nodes (drop (fr_next f) (fr_children f))))"

lemma frame_weight_push:
  fixes f :: "'a frame"
  assumes "fr_next f < length (fr_children f)"
  shows "frame_weight (new_frame (fr_children f ! fr_next f) :: 'a frame)
      + frame_weight (f\<lparr>fr_next := Suc (fr_next f)\<rparr>) < frame_weight f"
  using assms
  by (simp add: frame_weight_def new_frame_def Cons_nth_drop_Suc [symmetric]
      pattern_nodes.simps [of "fr_children f ! fr_next f"])

text \<open>The loop of \<open>rebuild\<close>: the callback may panic, and so may the loop on an empty stack.\<close>

function rebuild_loop :: "(pattern \<Rightarrow> 'a list \<Rightarrow> 'a option) \<Rightarrow> 'a frame list \<Rightarrow> 'a option" where
  "rebuild_loop build [] = None"
| "rebuild_loop build (f # stack) =
     (if fr_next f < length (fr_children f)
      then rebuild_loop build
        (new_frame (fr_children f ! fr_next f) # f\<lparr>fr_next := Suc (fr_next f)\<rparr> # stack)
      else (case build (fr_pattern f) (fr_built f) of
          None \<Rightarrow> None
        | Some v \<Rightarrow> (case stack of
            [] \<Rightarrow> Some v
          | parent # stack' \<Rightarrow>
              rebuild_loop build (parent\<lparr>fr_built := fr_built parent @ [v]\<rparr> # stack'))))"
  by pat_completeness auto
termination
proof (relation "measure (\<lambda>(_, stack). sum_list (map frame_weight stack))")
  fix build :: "pattern \<Rightarrow> 'a list \<Rightarrow> 'a option" and f :: "'a frame" and stack
  assume "fr_next f < length (fr_children f)"
  then show "((build, new_frame (fr_children f ! fr_next f) # f\<lparr>fr_next := Suc (fr_next f)\<rparr> # stack),
      build, f # stack) \<in> measure (\<lambda>(_, stack). sum_list (map frame_weight stack))"
    using frame_weight_push [of f] by simp
qed (auto simp: frame_weight_def)

declare rebuild_loop.simps [simp del]

definition rebuild :: "pattern \<Rightarrow> (pattern \<Rightarrow> 'a list \<Rightarrow> 'a option) \<Rightarrow> 'a option" where
  "rebuild root build = rebuild_loop build [new_frame root]"

function fold_pattern :: "(pattern \<Rightarrow> 'a list \<Rightarrow> 'a option) \<Rightarrow> pattern \<Rightarrow> 'a option" where
  "fold_pattern build p =
     (case collect_options (fold_pattern build) (children p) of
        None \<Rightarrow> None | Some vs \<Rightarrow> build p vs)"
  by pat_completeness auto
termination
  by (relation "measure (\<lambda>(_, p). size p)") (auto dest: children_size)

declare fold_pattern.simps [simp del]

text \<open>What happens to a finished value: it is the result, or the next value of the parent.\<close>

definition finish_frame :: "(pattern \<Rightarrow> 'a list \<Rightarrow> 'a option) \<Rightarrow> 'a frame list \<Rightarrow> 'a option \<Rightarrow> 'a option" where
  "finish_frame build stack r =
     (case r of None \<Rightarrow> None
      | Some v \<Rightarrow> (case stack of [] \<Rightarrow> Some v
        | parent # stack' \<Rightarrow>
            rebuild_loop build (parent\<lparr>fr_built := fr_built parent @ [v]\<rparr> # stack')))"

lemma finish_frame_None [simp]: "finish_frame build stack None = None"
  by (simp add: finish_frame_def)

lemma finish_frame_Cons [simp]:
  "finish_frame build (f # stack) (Some v) = rebuild_loop build (f\<lparr>fr_built := fr_built f @ [v]\<rparr> # stack)"
  by (simp add: finish_frame_def)

lemma rebuild_loop_frame:
  assumes IH: "\<And>c stack. c \<in> set (children p) \<Longrightarrow>
      rebuild_loop build (new_frame c # stack) = finish_frame build stack (fold_pattern build c)"
  shows "i \<le> length (children p) \<Longrightarrow>
    rebuild_loop build (\<lparr>fr_pattern = p, fr_children = children p, fr_next = i, fr_built = vs\<rparr> # stack)
      = finish_frame build stack
          (case collect_options (fold_pattern build) (drop i (children p)) of
             None \<Rightarrow> None | Some ws \<Rightarrow> build p (vs @ ws))"
proof (induction "length (children p) - i" arbitrary: i vs)
  case 0
  then show ?case
    by (simp add: rebuild_loop.simps(2) [of build
        "\<lparr>fr_pattern = p, fr_children = children p, fr_next = i, fr_built = vs\<rparr>"] finish_frame_def split: option.split)
next
  case (Suc n)
  then have i: "i < length (children p)" by linarith
  let ?c = "children p ! i"
  have "?c \<in> set (children p)" using i by simp
  note child = IH [OF this]
  have rest: "n = length (children p) - Suc i" "Suc i \<le> length (children p)"
    using Suc.hyps(2) i by linarith+
  show ?case
    using i
    by (cases "fold_pattern build ?c")
      (simp_all add: rebuild_loop.simps(2) [of build
        "\<lparr>fr_pattern = p, fr_children = children p, fr_next = i, fr_built = vs\<rparr>"] child Suc.hyps(1) [OF rest]
        Cons_nth_drop_Suc [symmetric] split: option.split)
qed

lemma rebuild_loop_new:
  "rebuild_loop build (new_frame p # stack) = finish_frame build stack (fold_pattern build p)"
proof (induction p arbitrary: stack rule: pattern_children_induct)
  case (node p)
  have "rebuild_loop build (\<lparr>fr_pattern = p, fr_children = children p, fr_next = 0, fr_built = []\<rparr> # stack)
      = finish_frame build stack (case collect_options (fold_pattern build) (drop 0 (children p)) of
          None \<Rightarrow> None | Some ws \<Rightarrow> build p ([] @ ws))"
    by (rule rebuild_loop_frame) (auto simp: node)
  then show ?case by (simp add: new_frame_def fold_pattern.simps [of build p] cong: option.case_cong)
qed

lemma rebuild_fold: "rebuild p build = fold_pattern build p"
  by (simp add: rebuild_def rebuild_loop_new finish_frame_def split: option.split)

text \<open>\<open>clone_node\<close>: a node with new children; \<open>None\<close> when a boxed child is missing.\<close>

fun clone_node :: "pattern \<Rightarrow> pattern list \<Rightarrow> pattern option" where
  "clone_node (PString v) cs = Some (PString v)"
| "clone_node (PVariable v) cs = Some (PVariable v)"
| "clone_node (PApplication symb _) cs = Some (PApplication symb cs)"
| "clone_node (PTop s) cs = Some (PTop s)"
| "clone_node (PBottom s) cs = Some (PBottom s)"
| "clone_node (PAnd s _) cs = Some (PAnd s cs)"
| "clone_node (POr s _) cs = Some (POr s cs)"
| "clone_node (PNot s _) cs = (case cs of a # _ \<Rightarrow> Some (PNot s a) | _ \<Rightarrow> None)"
| "clone_node (PNext s _) cs = (case cs of a # _ \<Rightarrow> Some (PNext s a) | _ \<Rightarrow> None)"
| "clone_node (PImplies s _ _) cs = (case cs of l # r # _ \<Rightarrow> Some (PImplies s l r) | _ \<Rightarrow> None)"
| "clone_node (PIff s _ _) cs = (case cs of l # r # _ \<Rightarrow> Some (PIff s l r) | _ \<Rightarrow> None)"
| "clone_node (PRewrites s _ _) cs = (case cs of l # r # _ \<Rightarrow> Some (PRewrites s l r) | _ \<Rightarrow> None)"
| "clone_node (PExists s v _) cs = (case cs of b # _ \<Rightarrow> Some (PExists s v b) | _ \<Rightarrow> None)"
| "clone_node (PForall s v _) cs = (case cs of b # _ \<Rightarrow> Some (PForall s v b) | _ \<Rightarrow> None)"
| "clone_node (PMu v _) cs = (case cs of b # _ \<Rightarrow> Some (PMu v b) | _ \<Rightarrow> None)"
| "clone_node (PNu v _) cs = (case cs of b # _ \<Rightarrow> Some (PNu v b) | _ \<Rightarrow> None)"
| "clone_node (PCeil s t _) cs = (case cs of a # _ \<Rightarrow> Some (PCeil s t a) | _ \<Rightarrow> None)"
| "clone_node (PFloor s t _) cs = (case cs of a # _ \<Rightarrow> Some (PFloor s t a) | _ \<Rightarrow> None)"
| "clone_node (PEquals s t _ _) cs = (case cs of l # r # _ \<Rightarrow> Some (PEquals s t l r) | _ \<Rightarrow> None)"
| "clone_node (PIn s t _ _) cs = (case cs of l # r # _ \<Rightarrow> Some (PIn s t l r) | _ \<Rightarrow> None)"
| "clone_node (PDomainValue s v) cs = Some (PDomainValue s v)"
| "clone_node (PAssociative a symb _) cs = Some (PAssociative a symb cs)"

text \<open>\<open>Clone for Pattern\<close>.\<close>

definition clone_pattern :: "pattern \<Rightarrow> pattern option" where
  "clone_pattern p = rebuild p clone_node"

lemma clone_node_children [simp]: "clone_node p (children p) = Some p"
  by (cases p) auto

lemma clone_pattern_id: "clone_pattern p = Some p"
  unfolding clone_pattern_def rebuild_fold
proof (induction p rule: pattern_children_induct)
  case (node p)
  then have "collect_options (fold_pattern clone_node) (children p) = Some (map (\<lambda>c. c) (children p))"
    by (intro collect_options_all) auto
  then show ?case by (simp add: fold_pattern.simps [of clone_node p])
qed

lemma clone_node_total:
  assumes "length cs = length (children p)"
  obtains q where "clone_node p cs = Some q" "children q = cs" "discriminant q = discriminant p"
    "field_cmp p q = Equal"
proof -
  have "\<exists>q. clone_node p cs = Some q \<and> children q = cs \<and> discriminant q = discriminant p
      \<and> field_cmp p q = Equal"
    using assms by (cases p) (auto simp: field_cmp_def length_Suc_conv split: list.splits)
  then show ?thesis using that by blast
qed

section \<open>Properties\<close>

text \<open>the explicit-stack visit calls the visitor once per node, children before their parent and
  left to right.\<close>

theorem post_order_visit_correct:
  "for_each_post_order p visit st = fold visit (post_order p) st \<and> length (post_order p) = pattern_nodes p"
  by (simp add: for_each_post_order_fold length_post_order)

text \<open>Rebuilding with a stack of frames is the fold of the pattern: each node is built from the
  values of its children in order, and the only panic is one of the callback.\<close>

theorem rebuild_is_fold:
  "rebuild p build = (case collect_options (\<lambda>c. rebuild c build) (children p) of
      None \<Rightarrow> None | Some values \<Rightarrow> build p values)"
  by (simp add: rebuild_fold fold_pattern.simps [of build p])

text \<open>cloning a pattern returns it: the traversal hands every node exactly its children.\<close>

theorem clone_is_identity: "clone_pattern p = Some p"
  by (rule clone_pattern_id)

end
