(* ===== verification/Kore_Variables.thy ===== *)
theory Kore_Variables
  imports Kore_Walk
begin

text \<open>
  The walkers of \<open>kore/walk.rs\<close> that read variables: all variables, their numbers of occurrences,
  the free variables, and substitution of a free variable that refuses when a binder could
  capture.

  \<open>BTreeSet\<close> is a set and \<open>BTreeMap\<close> a map, since the keys' comparison is total and equality
  (\<open>variable_cmp\<close>). The free-variable walk keeps the number of binders it is under for each
  variable; \<open>None\<close> is the panic of its \<open>expect\<close>, which the theorems exclude.
\<close>

section \<open>Variables and occurrences\<close>

text \<open>The variable a node carries: its own, or the one it binds.\<close>

fun bound_variable :: "pattern \<Rightarrow> variable option" where
  "bound_variable (PExists _ v _) = Some v"
| "bound_variable (PForall _ v _) = Some v"
| "bound_variable (PMu v _) = Some v"
| "bound_variable (PNu v _) = Some v"
| "bound_variable _ = None"

fun node_variable :: "pattern \<Rightarrow> variable option" where
  "node_variable (PVariable v) = Some v"
| "node_variable p = bound_variable p"

definition variables :: "pattern \<Rightarrow> variable set" where
  "variables p = for_each_post_order p
     (\<lambda>q result. case node_variable q of Some v \<Rightarrow> insert v result | None \<Rightarrow> result) {}"

definition variable_occurrences :: "pattern \<Rightarrow> (variable_kind \<times> str) \<rightharpoonup> nat" where
  "variable_occurrences p = for_each_post_order p
     (\<lambda>q result. case node_variable q of
        Some v \<Rightarrow> (let key = (var_kind v, var_name v)
                   in result(key \<mapsto> (case result key of None \<Rightarrow> 1 | Some n \<Rightarrow> Suc n)))
      | None \<Rightarrow> result) Map.empty"

lemma fold_insert_option:
  "fold (\<lambda>q result. case f q of Some v \<Rightarrow> insert v result | None \<Rightarrow> result) ps acc
     = acc \<union> {v. \<exists>q \<in> set ps. f q = Some v}"
  by (induction ps arbitrary: acc) (auto split: option.splits)

lemma variables_eq: "variables p = {v. \<exists>q \<in> set (post_order p). node_variable q = Some v}"
  by (simp add: variables_def for_each_post_order_fold fold_insert_option)

text \<open>The number of nodes of a pattern that carry a variable of a kind and name.\<close>

definition occurrences :: "pattern \<Rightarrow> variable_kind \<times> str \<Rightarrow> nat" where
  "occurrences p key = length (filter
     (\<lambda>q. map_option (\<lambda>v. (var_kind v, var_name v)) (node_variable q) = Some key) (post_order p))"

lemma variable_occurrences_count:
  "variable_occurrences p key =
     (if occurrences p key = 0 then None else Some (occurrences p key))"
proof -
  define f where "f = (\<lambda>q result. case node_variable q of
        Some v \<Rightarrow> (let key = (var_kind v, var_name v)
                   in result(key \<mapsto> (case result key of None \<Rightarrow> 1 | Some n \<Rightarrow> Suc n)))
      | None \<Rightarrow> (result :: (variable_kind \<times> str) \<rightharpoonup> nat))"
  define is_key where
    "is_key = (\<lambda>q. map_option (\<lambda>v. (var_kind v, var_name v)) (node_variable q) = Some key)"
  have step: "f q m key = (if is_key q then Some (case m key of None \<Rightarrow> 1 | Some n \<Rightarrow> Suc n) else m key)" for q m
    by (cases "node_variable q") (auto simp: f_def is_key_def Let_def)
  have "fold f ps m key =
      (case m key of None \<Rightarrow> (if length (filter is_key ps) = 0 then None else Some (length (filter is_key ps)))
       | Some n \<Rightarrow> Some (n + length (filter is_key ps)))" for ps m
    by (induction ps arbitrary: m) (auto simp: step split: option.splits)
  then show ?thesis
    by (simp add: variable_occurrences_def for_each_post_order_fold f_def [symmetric] occurrences_def
        is_key_def)
qed

section \<open>Free variables\<close>

datatype free_step = Enter pattern | Leave variable

definition free_weight :: "free_step list \<Rightarrow> nat" where
  "free_weight work =
     sum_list (map (\<lambda>s. case s of Enter p \<Rightarrow> 2 * pattern_nodes p | Leave _ \<Rightarrow> 1) work)"

lemma free_weight_simps [simp]:
  "free_weight [] = 0" "free_weight (Enter p # work) = 2 * pattern_nodes p + free_weight work"
  "free_weight (Leave v # work) = Suc (free_weight work)"
  "free_weight (v1 @ v2) = free_weight v1 + free_weight v2"
  by (auto simp: free_weight_def)

lemma free_weight_children: "free_weight (map Enter (children p)) + 2 = 2 * pattern_nodes p"
proof -
  have "free_weight (map Enter ps) = 2 * sum_list (map pattern_nodes ps)" for ps
    by (induction ps) auto
  then show ?thesis by (simp add: pattern_nodes.simps [of p])
qed

text \<open>Leaving a binder: its count goes down, and disappears at zero.\<close>

definition leave_binder :: "(variable \<rightharpoonup> nat) \<Rightarrow> variable \<Rightarrow> (variable \<rightharpoonup> nat) option" where
  "leave_binder bound v =
     (case bound v of None \<Rightarrow> None
      | Some count \<Rightarrow>
          (let bound = bound(v \<mapsto> count - 1)
           in if count - 1 = 0 then Some (bound(v := None)) else Some bound))"

definition enter_binder :: "(variable \<rightharpoonup> nat) \<Rightarrow> variable \<Rightarrow> (variable \<rightharpoonup> nat)" where
  "enter_binder bound v = bound(v \<mapsto> (case bound v of None \<Rightarrow> 1 | Some count \<Rightarrow> Suc count))"

function free_loop :: "free_step list \<Rightarrow> (variable \<rightharpoonup> nat) \<Rightarrow> variable set \<Rightarrow> variable set option" where
  "free_loop [] bound result = Some result"
| "free_loop (Leave v # work) bound result =
     (case leave_binder bound v of None \<Rightarrow> None | Some bound' \<Rightarrow> free_loop work bound' result)"
| "free_loop (Enter p # work) bound result =
     (let result = (case p of PVariable v \<Rightarrow> if v \<notin> dom bound then insert v result else result
                    | _ \<Rightarrow> result)
      in case bound_variable p of
           Some v \<Rightarrow> free_loop (map Enter (children p) @ Leave v # work) (enter_binder bound v) result
         | None \<Rightarrow> free_loop (map Enter (children p) @ work) bound result)"
  by pat_completeness auto
termination
proof (relation "measure (\<lambda>(work, _, _). free_weight work)")
  fix p work and bound :: "variable \<rightharpoonup> nat" and result x :: "variable set"
  show "((map Enter (children p) @ work, bound, x), Enter p # work, bound, result)
      \<in> measure (\<lambda>(work, _, _). free_weight work)"
    using free_weight_children [of p] by simp
  fix v
  show "((map Enter (children p) @ Leave v # work, enter_binder bound v, x), Enter p # work, bound, result)
      \<in> measure (\<lambda>(work, _, _). free_weight work)"
    using free_weight_children [of p] by simp
qed auto

declare free_loop.simps(3) [simp del]

definition free_variables :: "pattern \<Rightarrow> variable set option" where
  "free_variables p = free_loop [Enter p] Map.empty {}"

text \<open>The free variables by recursion: a binder removes its variable from those of its body.\<close>

function free_vars :: "pattern \<Rightarrow> variable set" where
  "free_vars p = (case p of PVariable v \<Rightarrow> {v}
     | _ \<Rightarrow> (\<Union>c \<in> set (children p). free_vars c) - set_option (bound_variable p))"
  by pat_completeness auto
termination
  by (relation "measure size") (auto simp: less_Suc_eq_le intro: size_list_estimation')

declare free_vars.simps [simp del]

lemma free_vars_PVariable [simp]: "free_vars (PVariable v) = {v}"
  by (simp add: free_vars.simps)

lemma free_vars_node:
  "(\<And>v. p \<noteq> PVariable v) \<Longrightarrow>
   free_vars p = (\<Union>c \<in> set (children p). free_vars c) - set_option (bound_variable p)"
  by (subst free_vars.simps) (simp split: pattern.split)

definition counts_positive :: "(variable \<rightharpoonup> nat) \<Rightarrow> bool" where
  "counts_positive bound \<longleftrightarrow> (\<forall>v n. bound v = Some n \<longrightarrow> 0 < n)"

lemma leave_enter_binder:
  "counts_positive bound \<Longrightarrow> leave_binder (enter_binder bound v) v = Some bound"
  by (auto simp: leave_binder_def enter_binder_def counts_positive_def Let_def fun_upd_idem
      split: option.split)

lemma counts_positive_enter: "counts_positive bound \<Longrightarrow> counts_positive (enter_binder bound v)"
  by (auto simp: counts_positive_def enter_binder_def split: option.splits)

lemma dom_enter_binder [simp]: "dom (enter_binder bound v) = insert v (dom bound)"
  by (auto simp: enter_binder_def)

lemma free_loop_Enter:
  "counts_positive bound \<Longrightarrow>
   free_loop (Enter p # work) bound result = free_loop work bound (result \<union> (free_vars p - dom bound))"
proof (induction p arbitrary: work bound result rule: pattern_children_induct)
  case (node p)
  have cs: "free_loop (map Enter cs @ work') bound' result'
      = free_loop work' bound' (result' \<union> ((\<Union>c \<in> set cs. free_vars c) - dom bound'))"
    if "set cs \<subseteq> set (children p)" "counts_positive bound'" for cs work' bound' result'
    using that
  proof (induction cs arbitrary: result')
    case (Cons c cs)
    then show ?case
      by (simp add: node.IH) (rule arg_cong [where f = "free_loop work' bound'"], blast)
  qed simp
  show ?case
  proof (cases "\<exists>v. p = PVariable v")
    case True
    then obtain v where "p = PVariable v" by blast
    then show ?thesis
      by (cases "v \<in> dom bound") (auto simp: free_loop.simps(3) insert_absorb insert_Diff_if)
  next
    case False
    then have fv: "free_vars p = (\<Union>c \<in> set (children p). free_vars c) - set_option (bound_variable p)"
      by (intro free_vars_node) blast
    have step: "free_loop (Enter p # work) bound result = (case bound_variable p of
           Some v \<Rightarrow> free_loop (map Enter (children p) @ Leave v # work) (enter_binder bound v) result
         | None \<Rightarrow> free_loop (map Enter (children p) @ work) bound result)"
      using False by (cases p) (auto simp: free_loop.simps(3))
    show ?thesis
    proof (cases "bound_variable p")
      case None
      then show ?thesis using node.prems by (simp add: step fv cs)
    next
      case (Some v)
      then have "free_loop (Enter p # work) bound result
          = free_loop work bound (result \<union> ((\<Union>c \<in> set (children p). free_vars c) - insert v (dom bound)))"
        using node.prems by (simp add: step cs counts_positive_enter leave_enter_binder)
      also have "(\<Union>c \<in> set (children p). free_vars c) - insert v (dom bound) = free_vars p - dom bound"
        using Some by (auto simp: fv)
      finally show ?thesis .
    qed
  qed
qed

lemma free_variables_eq: "free_variables p = Some (free_vars p)"
  by (simp add: free_variables_def free_loop_Enter counts_positive_def)

lemma free_vars_subset: "free_vars p \<subseteq> variables p"
proof (induction p rule: pattern_children_induct)
  case (node p)
  show ?case
  proof (cases "\<exists>v. p = PVariable v")
    case True
    then show ?thesis by (auto simp: variables_eq set_post_order [of p])
  next
    case False
    then have "free_vars p \<subseteq> (\<Union>c \<in> set (children p). free_vars c)"
      by (subst free_vars_node) auto
    also have "\<dots> \<subseteq> variables p"
      using node by (auto simp: variables_eq set_post_order [of p])
    finally show ?thesis .
  qed
qed

section \<open>Substitution\<close>

text \<open>
  \<open>substitute_free\<close>: the outer option is the panic of the traversals, the inner one the answer
  of the source, \<open>None\<close> when a binder binds the variable or a free variable of the replacement.
\<close>

definition substitute_free :: "pattern \<Rightarrow> variable \<Rightarrow> pattern \<Rightarrow> pattern option option" where
  "substitute_free p variable replacement =
     (case free_variables replacement of None \<Rightarrow> None
      | Some free \<Rightarrow>
          (let captured = for_each_post_order p
             (\<lambda>q captured. case bound_variable q of
                Some bound \<Rightarrow> captured \<or> bound = variable \<or> bound \<in> free
              | None \<Rightarrow> captured) False
           in if captured then Some None
              else map_option Some (rebuild p
                (\<lambda>q cs. case q of
                   PVariable found \<Rightarrow>
                     if found = variable then clone_pattern replacement else clone_node q cs
                 | _ \<Rightarrow> clone_node q cs))))"

text \<open>A pattern may capture when a binder of it binds one of the given variables.\<close>

definition binds :: "pattern \<Rightarrow> variable set" where
  "binds p = {v. \<exists>q \<in> set (post_order p). bound_variable q = Some v}"

function subst_pattern :: "variable \<Rightarrow> pattern \<Rightarrow> pattern \<Rightarrow> pattern" where
  "subst_pattern v r p = (case p of PVariable w \<Rightarrow> if w = v then r else p
     | _ \<Rightarrow> the (clone_node p (map (subst_pattern v r) (children p))))"
  by pat_completeness auto
termination
  by (relation "measure (\<lambda>(_, _, p). size p)") (auto simp: less_Suc_eq_le intro: size_list_estimation')

declare subst_pattern.simps [simp del]

lemma subst_pattern_node:
  "(\<And>w. p \<noteq> PVariable w) \<Longrightarrow>
   subst_pattern v r p = the (clone_node p (map (subst_pattern v r) (children p)))"
  by (subst subst_pattern.simps) (simp split: pattern.split)

lemma clone_node_same_length:
  assumes "length cs = length (children p)"
  shows "clone_node p cs = Some (the (clone_node p cs))"
    and "children (the (clone_node p cs)) = cs"
    and "bound_variable (the (clone_node p cs)) = bound_variable p"
    and "(\<exists>v. the (clone_node p cs) = PVariable v) \<longleftrightarrow> (\<exists>v. p = PVariable v)"
proof -
  obtain q where q: "clone_node p cs = Some q" "children q = cs"
    using clone_node_total [OF assms] by blast
  then show "clone_node p cs = Some (the (clone_node p cs))" and "children (the (clone_node p cs)) = cs"
    by simp_all
  show "bound_variable (the (clone_node p cs)) = bound_variable p"
    and "(\<exists>v. the (clone_node p cs) = PVariable v) \<longleftrightarrow> (\<exists>v. p = PVariable v)"
    using assms by (cases p; auto simp: length_Suc_conv)+
qed

lemma subst_rebuild:
  "fold_pattern (\<lambda>q cs. case q of
       PVariable found \<Rightarrow> if found = v then clone_pattern r else clone_node q cs
     | _ \<Rightarrow> clone_node q cs) p = Some (subst_pattern v r p)"
proof (induction p rule: pattern_children_induct)
  case (node p)
  let ?build = "\<lambda>q cs. case q of
       PVariable found \<Rightarrow> if found = v then clone_pattern r else clone_node q cs
     | _ \<Rightarrow> clone_node q cs"
  have cs: "collect_options (fold_pattern ?build) (children p) = Some (map (subst_pattern v r) (children p))"
    using node by (intro collect_options_all) blast
  show ?case
  proof (cases "\<exists>w. p = PVariable w")
    case True
    then show ?thesis
      by (auto simp: fold_pattern.simps [of ?build p] subst_pattern.simps [of v r p] clone_pattern_id)
  next
    case False
    then have "?build p xs = clone_node p xs" for xs
      by (cases p) auto
    moreover have "subst_pattern v r p = the (clone_node p (map (subst_pattern v r) (children p)))"
      using False by (intro subst_pattern_node) blast
    ultimately show ?thesis
      using clone_node_same_length(1) [of "map (subst_pattern v r) (children p)" p]
      by (simp add: fold_pattern.simps [of ?build p] cs)
  qed
qed

lemma captured_fold:
  "fold (\<lambda>q captured. case bound_variable q of Some bound \<Rightarrow> captured \<or> bound = v \<or> bound \<in> free
      | None \<Rightarrow> captured) qs b
     \<longleftrightarrow> b \<or> (\<exists>q \<in> set qs. \<exists>w. bound_variable q = Some w \<and> (w = v \<or> w \<in> free))"
  by (induction qs arbitrary: b) (auto split: option.splits)

lemma substitute_free_eq:
  "substitute_free p v r =
     Some (if binds p \<inter> insert v (free_vars r) = {} then Some (subst_pattern v r p) else None)"
proof -
  have "(\<exists>q \<in> set (post_order p). \<exists>w. bound_variable q = Some w \<and> (w = v \<or> w \<in> free_vars r))
      \<longleftrightarrow> binds p \<inter> insert v (free_vars r) \<noteq> {}"
    by (auto simp: binds_def)
  then show ?thesis
    by (simp add: substitute_free_def free_variables_eq for_each_post_order_fold captured_fold
        rebuild_fold subst_rebuild Let_def)
qed

lemma binds_node: "binds p = set_option (bound_variable p) \<union> (\<Union>c \<in> set (children p). binds c)"
  by (auto simp: binds_def set_post_order [of p])

lemma free_vars_subst:
  assumes "binds p \<inter> insert v (free_vars r) = {}"
  shows "free_vars (subst_pattern v r p) =
    (if v \<in> free_vars p then (free_vars p - {v}) \<union> free_vars r else free_vars p)"
  using assms
proof (induction p rule: pattern_children_induct)
  case (node p)
  show ?case
  proof (cases "\<exists>w. p = PVariable w")
    case True
    then show ?thesis by (auto simp: subst_pattern.simps [of v r p])
  next
    case False
    let ?q = "the (clone_node p (map (subst_pattern v r) (children p)))"
    have s: "subst_pattern v r p = ?q"
      using False by (intro subst_pattern_node) blast
    have fv: "free_vars p = (\<Union>c \<in> set (children p). free_vars c) - set_option (bound_variable p)"
      using False by (intro free_vars_node) blast
    have q: "children ?q = map (subst_pattern v r) (children p)" "bound_variable ?q = bound_variable p"
      "\<And>w. ?q \<noteq> PVariable w"
      using clone_node_same_length [of "map (subst_pattern v r) (children p)" p] False by auto
    have b: "v \<notin> set_option (bound_variable p)" "free_vars r \<inter> set_option (bound_variable p) = {}"
      using node.prems by (auto simp: binds_node [of p])
    have IH: "free_vars (subst_pattern v r c)
        = (if v \<in> free_vars c then (free_vars c - {v}) \<union> free_vars r else free_vars c)"
      if "c \<in> set (children p)" for c
    proof (rule node.IH [OF that])
      show "binds c \<inter> insert v (free_vars r) = {}"
        using node.prems that unfolding binds_node [of p] by blast
    qed
    have "free_vars ?q = (\<Union>c \<in> set (children p). free_vars (subst_pattern v r c)) - set_option (bound_variable p)"
      using q by (simp add: free_vars_node)
    also have "\<dots> = (if v \<in> free_vars p then (free_vars p - {v}) \<union> free_vars r else free_vars p)"
      using b by (auto simp: fv IH split: if_splits)
    finally show ?thesis by (simp add: s)
  qed
qed

section \<open>Properties\<close>

text \<open>The walk with binder counts returns the free variables (never failing on a binder's count),
  and they are variables of the pattern.\<close>

theorem free_variables_correct:
  "free_variables p = Some (free_vars p) \<and> free_vars p \<subseteq> variables p"
  by (simp add: free_variables_eq free_vars_subset)

text \<open>\<open>variable_occurrences\<close> counts, for each kind and name, the nodes that carry such a variable.\<close>

theorem variable_occurrences_correct:
  "variable_occurrences p key =
     (if occurrences p key = 0 then None else Some (occurrences p key))"
  by (rule variable_occurrences_count)

text \<open>C40: substitution refuses exactly when a binder of the pattern binds the variable or a free
  variable of the replacement, and otherwise replaces every occurrence.\<close>

theorem substitute_free_correct:
  "substitute_free p v r =
     Some (if binds p \<inter> insert v (free_vars r) = {} then Some (subst_pattern v r p) else None)"
  by (rule substitute_free_eq)

text \<open>C7: an accepted substitution captures nothing: the free variables of the result are those of the
  pattern with the variable replaced by those of the replacement.\<close>

theorem substitute_free_no_capture:
  assumes "substitute_free p v r = Some (Some q)"
  shows "free_variables q =
    Some (if v \<in> free_vars p then (free_vars p - {v}) \<union> free_vars r else free_vars p)"
  using assms free_vars_subst [of p v r]
  by (auto simp: substitute_free_eq free_variables_eq split: if_splits)

theorem substitute_free_no_capture_witness:
  "free_variables (PNot (SortVariable []) (PTop (SortVariable []))) = Some {}"
proof -
  let ?s = "SortVariable []"
  let ?v = "\<lparr>var_kind = Element, var_name = lit ''X'', var_sort = ?s\<rparr>"
  have "substitute_free (PNot ?s (PVariable ?v)) ?v (PTop ?s) = Some (Some (PNot ?s (PTop ?s)))"
    by (simp add: substitute_free_eq binds_node [of "PNot _ _"] binds_node [of "PVariable _"]
        subst_pattern.simps [of _ _ "PNot _ _"] subst_pattern.simps [of _ _ "PVariable _"])
  from substitute_free_no_capture [OF this] show ?thesis
    by (simp add: free_vars.simps [of "PNot _ _"] free_vars.simps [of "PTop _"])
qed

end
