(* ===== verification/Kore_Flatten.thy ===== *)
theory Kore_Flatten
  imports Kore_Walk
begin

text \<open>
  The walkers of \<open>kore/walk.rs\<close> that read sorts, existentials, conjunctions and disjunctions, and
  the search for an application, each as its loop over a work list and beside the recursive
  reading it computes. Equality of sorts is written \<open>=\<close>: \<open>sort_eq_iff\<close> shows the source's
  comparison decides it.
\<close>

section \<open>Sorts\<close>

text \<open>The sorts a node carries, in field order: what \<open>for_each_sort\<close> visits at the node.\<close>

fun node_sorts :: "pattern \<Rightarrow> sort list" where
  "node_sorts (PString _) = []"
| "node_sorts (PVariable v) = [var_sort v]"
| "node_sorts (PApplication symb _) = sort_parameters symb"
| "node_sorts (PAssociative _ symb _) = sort_parameters symb"
| "node_sorts (PTop s) = [s]"
| "node_sorts (PBottom s) = [s]"
| "node_sorts (PAnd s _) = [s]"
| "node_sorts (POr s _) = [s]"
| "node_sorts (PNot s _) = [s]"
| "node_sorts (PNext s _) = [s]"
| "node_sorts (PImplies s _ _) = [s]"
| "node_sorts (PIff s _ _) = [s]"
| "node_sorts (PRewrites s _ _) = [s]"
| "node_sorts (PDomainValue s _) = [s]"
| "node_sorts (PExists s v _) = [s, var_sort v]"
| "node_sorts (PForall s v _) = [s, var_sort v]"
| "node_sorts (PMu v _) = [var_sort v]"
| "node_sorts (PNu v _) = [var_sort v]"
| "node_sorts (PCeil s t _) = [s, t]"
| "node_sorts (PFloor s t _) = [s, t]"
| "node_sorts (PEquals s t _ _) = [s, t]"
| "node_sorts (PIn s t _ _) = [s, t]"

definition for_each_sort :: "pattern \<Rightarrow> (sort \<Rightarrow> 's \<Rightarrow> 's) \<Rightarrow> 's \<Rightarrow> 's" where
  "for_each_sort p visit st = for_each_post_order p (\<lambda>q. fold visit (node_sorts q)) st"

lemma for_each_sort_fold: "for_each_sort p visit st = fold visit (concat (map node_sorts (post_order p))) st"
proof -
  have "fold (\<lambda>q. fold visit (node_sorts q)) ps st = fold visit (concat (map node_sorts ps)) st" for ps st
    by (induction ps arbitrary: st) auto
  then show ?thesis by (simp add: for_each_sort_def for_each_post_order_fold)
qed

text \<open>The inner work list of \<open>sort_variables\<close>; the last argument is popped first.\<close>

function subsort_loop :: "sort list \<Rightarrow> str set \<Rightarrow> str set" where
  "subsort_loop [] result = result"
| "subsort_loop (SortVariable name # work) result = subsort_loop work (insert name result)"
| "subsort_loop (SortApplication name arguments # work) result = subsort_loop (rev arguments @ work) result"
  by pat_completeness auto
termination
  by (relation "measure (\<lambda>(work, _). sum_list (map sort_nodes work))")
    (auto simp: rev_map [symmetric] sum_list_rev)

definition sort_variables :: "pattern \<Rightarrow> str set" where
  "sort_variables p = for_each_sort p (\<lambda>s. subsort_loop [s]) {}"

fun sort_vars :: "sort \<Rightarrow> str set" where
  "sort_vars (SortVariable name) = {name}"
| "sort_vars (SortApplication _ arguments) = (\<Union>s \<in> set arguments. sort_vars s)"

lemma subsort_loop_eq: "subsort_loop work result = result \<union> (\<Union>s \<in> set work. sort_vars s)"
  by (induction work result rule: subsort_loop.induct) auto

lemma sort_variables_eq:
  "sort_variables p = (\<Union>q \<in> set (post_order p). \<Union>s \<in> set (node_sorts q). sort_vars s)"
proof -
  have "fold (\<lambda>s. subsort_loop [s]) ss acc = acc \<union> (\<Union>s \<in> set ss. sort_vars s)" for ss acc
    by (induction ss arbitrary: acc) (auto simp: subsort_loop_eq)
  then show ?thesis by (simp add: sort_variables_def for_each_sort_fold)
qed

fun syntactic_sort :: "pattern \<Rightarrow> sort option" where
  "syntactic_sort (PVariable v) = Some (var_sort v)"
| "syntactic_sort (PTop s) = Some s"
| "syntactic_sort (PBottom s) = Some s"
| "syntactic_sort (PAnd s _) = Some s"
| "syntactic_sort (POr s _) = Some s"
| "syntactic_sort (PNot s _) = Some s"
| "syntactic_sort (PNext s _) = Some s"
| "syntactic_sort (PImplies s _ _) = Some s"
| "syntactic_sort (PIff s _ _) = Some s"
| "syntactic_sort (PRewrites s _ _) = Some s"
| "syntactic_sort (PExists s _ _) = Some s"
| "syntactic_sort (PForall s _ _) = Some s"
| "syntactic_sort (PCeil _ t _) = Some t"
| "syntactic_sort (PFloor _ t _) = Some t"
| "syntactic_sort (PEquals _ t _ _) = Some t"
| "syntactic_sort (PIn _ t _ _) = Some t"
| "syntactic_sort (PDomainValue s _) = Some s"
| "syntactic_sort (PString _) = None"
| "syntactic_sort (PApplication _ _) = None"
| "syntactic_sort (PMu _ _) = None"
| "syntactic_sort (PNu _ _) = None"
| "syntactic_sort (PAssociative _ _ _) = None"

lemma syntactic_sort_visited: "syntactic_sort p = Some s \<Longrightarrow> s \<in> set (node_sorts p)"
  by (cases p) auto

section \<open>Leading existentials\<close>

fun strip_exists :: "pattern \<Rightarrow> pattern" where
  "strip_exists (PExists _ _ body) = strip_exists body"
| "strip_exists p = p"

fun existentials_loop :: "pattern \<Rightarrow> variable list \<Rightarrow> pattern \<times> variable list" where
  "existentials_loop (PExists _ v body) variables = existentials_loop body (variables @ [v])"
| "existentials_loop p variables = (p, variables)"

definition leading_existentials :: "pattern \<Rightarrow> pattern \<times> variable list" where
  "leading_existentials p = existentials_loop p []"

text \<open>The pattern is the existential closure of the body over the returned variables, in order.\<close>

lemma existentials_loop_rebuild:
  "existentials_loop p vs = (body, ws) \<Longrightarrow>
   \<exists>us sorts. ws = vs @ us \<and> length sorts = length us
     \<and> p = foldr (\<lambda>(s, v) b. PExists s v b) (zip sorts us) body
     \<and> body = strip_exists p \<and> (\<forall>s v b. body \<noteq> PExists s v b)"
proof (induction p vs rule: existentials_loop.induct)
  case (1 s v p vs)
  then obtain us sorts where *: "ws = (vs @ [v]) @ us" "length sorts = length us"
    "p = foldr (\<lambda>(s, v) b. PExists s v b) (zip sorts us) body"
    "body = strip_exists p" "\<forall>s v b. body \<noteq> PExists s v b"
    by auto
  then show ?case
    by (intro exI [of _ "v # us"] exI [of _ "s # sorts"]) auto
qed auto

section \<open>Conjuncts and disjuncts\<close>

text \<open>What \<open>flatten_at\<close> finds at a node: the arguments of a matching connective, or its unit.\<close>

datatype flat_kind = Nested "pattern list" | FlatUnit | Operand

fun flat_node :: "bool \<Rightarrow> sort \<Rightarrow> pattern \<Rightarrow> flat_kind" where
  "flat_node conjunction s (PAnd node_sort arguments) =
     (if conjunction \<and> node_sort = s then Nested arguments else Operand)"
| "flat_node conjunction s (POr node_sort arguments) =
     (if \<not> conjunction \<and> node_sort = s then Nested arguments else Operand)"
| "flat_node conjunction s (PTop node_sort) =
     (if conjunction \<and> node_sort = s then FlatUnit else Operand)"
| "flat_node conjunction s (PBottom node_sort) =
     (if \<not> conjunction \<and> node_sort = s then FlatUnit else Operand)"
| "flat_node conjunction s _ = Operand"

lemma pattern_nodes_positive: "0 < pattern_nodes p"
  by (simp add: pattern_nodes.simps [of p])

lemma find_append:
  "find P (xs @ ys) = (case find P xs of Some x \<Rightarrow> Some x | None \<Rightarrow> find P ys)"
  by (induction xs) auto

lemma flat_node_Nested: "flat_node cj s p = Nested arguments \<Longrightarrow> children p = arguments"
  by (cases p) (auto split: if_splits)

lemma flat_node_Nested_nodes:
  "flat_node cj s p = Nested arguments \<Longrightarrow> pattern_nodes p = Suc (sum_list (map pattern_nodes arguments))"
  by (subst pattern_nodes.simps) (simp add: flat_node_Nested)

function flatten_loop :: "bool \<Rightarrow> sort \<Rightarrow> pattern list \<Rightarrow> pattern list \<Rightarrow> pattern list" where
  "flatten_loop conjunction s [] result = result"
| "flatten_loop conjunction s (p # work) result =
     (case flat_node conjunction s p of
        Nested arguments \<Rightarrow> flatten_loop conjunction s (arguments @ work) result
      | FlatUnit \<Rightarrow> flatten_loop conjunction s work result
      | Operand \<Rightarrow> flatten_loop conjunction s work (result @ [p]))"
  by pat_completeness auto
termination
  by (relation "measure (\<lambda>(_, _, work, _). sum_list (map pattern_nodes work))")
    (auto simp: flat_node_Nested_nodes pattern_nodes_positive)

definition flatten_at :: "pattern \<Rightarrow> sort \<Rightarrow> bool \<Rightarrow> pattern list" where
  "flatten_at p s conjunction = flatten_loop conjunction s [p] []"

definition conjuncts_at :: "pattern \<Rightarrow> sort \<Rightarrow> pattern list" where
  "conjuncts_at p s = flatten_at p s True"

definition disjuncts_at :: "pattern \<Rightarrow> sort \<Rightarrow> pattern list" where
  "disjuncts_at p s = flatten_at p s False"

text \<open>The operands by recursion.\<close>

function operands :: "bool \<Rightarrow> sort \<Rightarrow> pattern \<Rightarrow> pattern list" where
  "operands conjunction s p =
     (case flat_node conjunction s p of
        Nested arguments \<Rightarrow> concat (map (operands conjunction s) arguments)
      | FlatUnit \<Rightarrow> []
      | Operand \<Rightarrow> [p])"
  by pat_completeness auto
termination
  by (relation "measure (\<lambda>(_, _, p). size p)") (auto dest: flat_node_Nested intro: children_size)

declare operands.simps [simp del]

lemma flatten_loop_eq:
  "flatten_loop cj s work result = result @ concat (map (operands cj s) work)"
proof (induction cj s work result rule: flatten_loop.induct)
  case (2 cj s p work result)
  then show ?case
    by (cases "flat_node cj s p") (simp_all add: operands.simps [of cj s p])
qed simp

lemma flatten_at_operands: "flatten_at p s cj = operands cj s p"
  by (simp add: flatten_at_def flatten_loop_eq)

lemma operands_are_operands: "q \<in> set (operands cj s p) \<Longrightarrow> flat_node cj s q = Operand"
proof (induction cj s p rule: operands.induct)
  case (1 cj s p)
  then show ?case
    by (cases "flat_node cj s p") (auto simp: operands.simps [of cj s p])
qed

text \<open>
  \<open>into_flattened_at\<close> moves the operands out: a matching node loses its arguments, and is dropped.
\<close>

fun take_arguments :: "bool \<Rightarrow> sort \<Rightarrow> pattern \<Rightarrow> pattern list option \<times> pattern" where
  "take_arguments conjunction s (PAnd node_sort arguments) =
     (if conjunction \<and> node_sort = s then (Some arguments, PAnd node_sort [])
      else (None, PAnd node_sort arguments))"
| "take_arguments conjunction s (POr node_sort arguments) =
     (if \<not> conjunction \<and> node_sort = s then (Some arguments, POr node_sort [])
      else (None, POr node_sort arguments))"
| "take_arguments conjunction s p = (None, p)"

fun is_unit :: "bool \<Rightarrow> sort \<Rightarrow> pattern \<Rightarrow> bool" where
  "is_unit conjunction s (PTop node_sort) \<longleftrightarrow> conjunction \<and> node_sort = s"
| "is_unit conjunction s (PBottom node_sort) \<longleftrightarrow> \<not> conjunction \<and> node_sort = s"
| "is_unit conjunction s _ \<longleftrightarrow> False"

lemma take_arguments_nodes:
  "fst (take_arguments cj s p) = Some arguments \<Longrightarrow>
   pattern_nodes p = Suc (sum_list (map pattern_nodes arguments))"
  by (subst pattern_nodes.simps) (cases p, auto split: if_splits)

lemma taken_nodes:
  "take_arguments cj s p = (Some arguments, q) \<Longrightarrow>
   pattern_nodes p = Suc (sum_list (map pattern_nodes arguments))"
  using take_arguments_nodes [of cj s p arguments] by simp

function into_flattened_loop :: "bool \<Rightarrow> sort \<Rightarrow> pattern list \<Rightarrow> pattern list \<Rightarrow> pattern list" where
  "into_flattened_loop conjunction s [] result = result"
| "into_flattened_loop conjunction s (p # work) result =
     (if is_unit conjunction s p then into_flattened_loop conjunction s work result
      else let (taken, p') = take_arguments conjunction s p in
        case taken of
          Some arguments \<Rightarrow> into_flattened_loop conjunction s (arguments @ work) result
        | None \<Rightarrow> into_flattened_loop conjunction s work (result @ [p']))"
  by pat_completeness auto
termination
  by (relation "measure (\<lambda>(_, _, work, _). sum_list (map pattern_nodes work))")
    (auto simp: pattern_nodes_positive
      dest!: sym [of _ "take_arguments _ _ _"] dest!: taken_nodes)

definition into_flattened_at :: "pattern \<Rightarrow> sort \<Rightarrow> bool \<Rightarrow> pattern list" where
  "into_flattened_at p s conjunction = into_flattened_loop conjunction s [p] []"

definition into_conjuncts_at :: "pattern \<Rightarrow> sort \<Rightarrow> pattern list" where
  "into_conjuncts_at p s = into_flattened_at p s True"

definition into_disjuncts_at :: "pattern \<Rightarrow> sort \<Rightarrow> pattern list" where
  "into_disjuncts_at p s = into_flattened_at p s False"

lemma into_flattened_step:
  "(if is_unit cj s p then A else let (taken, p') = take_arguments cj s p in
      case taken of Some arguments \<Rightarrow> B arguments | None \<Rightarrow> C p')
   = (case flat_node cj s p of Nested arguments \<Rightarrow> B arguments | FlatUnit \<Rightarrow> A | Operand \<Rightarrow> C p)"
  by (cases p) auto

lemma into_flattened_loop_eq: "into_flattened_loop cj s work result = flatten_loop cj s work result"
proof (induction cj s work result rule: flatten_loop.induct)
  case (2 cj s p work result)
  then show ?case
    unfolding into_flattened_loop.simps(2) into_flattened_step by (simp split: flat_kind.split)
qed simp

lemma into_flattened_at_eq: "into_flattened_at p s cj = flatten_at p s cj"
  by (simp add: into_flattened_at_def flatten_at_def into_flattened_loop_eq)

section \<open>Search\<close>

text \<open>
  \<open>find_application\<close>, for an \<open>accept\<close> that answers the same question each time: the first
  accepted application in post-order.
\<close>

function find_loop :: "(symbol \<Rightarrow> pattern list \<Rightarrow> bool) \<Rightarrow> (pattern \<times> bool) list \<Rightarrow> pattern option" where
  "find_loop accept [] = None"
| "find_loop accept ((p, complete) # work) =
     (if complete then
        (case p of
           PApplication symb arguments \<Rightarrow>
             if accept symb arguments then Some p else find_loop accept work
         | _ \<Rightarrow> find_loop accept work)
      else find_loop accept (map (\<lambda>child. (child, False)) (children p) @ (p, True) # work))"
  by pat_completeness auto
termination
proof (relation "measure (\<lambda>(_, work). visit_weight work)")
  fix accept p complete work
  assume "\<not> complete"
  then show "((accept, map (\<lambda>child. (child, False)) (children p) @ (p, True) # work), accept, (p, complete) # work)
      \<in> measure (\<lambda>(_, work). visit_weight work)"
    using visit_weight_children [of p] by simp
qed auto

declare find_loop.simps(2) [simp del]

definition find_application :: "pattern \<Rightarrow> (symbol \<Rightarrow> pattern list \<Rightarrow> bool) \<Rightarrow> pattern option" where
  "find_application p accept = find_loop accept [(p, False)]"

fun accepted :: "(symbol \<Rightarrow> pattern list \<Rightarrow> bool) \<Rightarrow> pattern \<Rightarrow> bool" where
  "accepted accept (PApplication symb arguments) = accept symb arguments"
| "accepted accept _ = False"

lemma find_loop_True:
  "find_loop accept ((p, True) # work) = (if accepted accept p then Some p else find_loop accept work)"
  by (cases p) (auto simp: find_loop.simps(2))

lemma find_loop_False:
  "find_loop accept ((p, False) # work) =
     (case find (accepted accept) (post_order p) of Some q \<Rightarrow> Some q | None \<Rightarrow> find_loop accept work)"
proof (induction p arbitrary: work rule: pattern_children_induct)
  case (node p)
  have "find_loop accept (map (\<lambda>c. (c, False)) cs @ work') =
      (case find (accepted accept) (concat (map post_order cs)) of Some q \<Rightarrow> Some q
       | None \<Rightarrow> find_loop accept work')"
    if "set cs \<subseteq> set (children p)" for cs work'
    using that by (induction cs) (auto simp: node find_append split: option.split)
  then show ?case
    by (auto simp: find_loop.simps(2) [of accept p False] post_order.simps [of p] find_append
        find_loop_True split: option.split)
qed

lemma find_application_find: "find_application p accept = find (accepted accept) (post_order p)"
  by (simp add: find_application_def find_loop_False split: option.split)

section \<open>Taking a pattern apart\<close>

text \<open>
  \<open>take_children\<close>: the children, and the node as it stays behind: an empty list in place of a
  list of arguments, an empty string in place of a boxed child.
\<close>

abbreviation taken_box :: pattern where "taken_box \<equiv> PString []"

fun take_children :: "pattern \<Rightarrow> pattern list \<times> pattern" where
  "take_children (PApplication symb arguments) = (arguments, PApplication symb [])"
| "take_children (PAnd s arguments) = (arguments, PAnd s [])"
| "take_children (POr s arguments) = (arguments, POr s [])"
| "take_children (PAssociative a symb arguments) = (arguments, PAssociative a symb [])"
| "take_children (PNot s argument) = ([argument], PNot s taken_box)"
| "take_children (PNext s argument) = ([argument], PNext s taken_box)"
| "take_children (PCeil s t argument) = ([argument], PCeil s t taken_box)"
| "take_children (PFloor s t argument) = ([argument], PFloor s t taken_box)"
| "take_children (PImplies s left right) = ([left, right], PImplies s taken_box taken_box)"
| "take_children (PIff s left right) = ([left, right], PIff s taken_box taken_box)"
| "take_children (PRewrites s left right) = ([left, right], PRewrites s taken_box taken_box)"
| "take_children (PEquals s t left right) = ([left, right], PEquals s t taken_box taken_box)"
| "take_children (PIn s t left right) = ([left, right], PIn s t taken_box taken_box)"
| "take_children (PExists s v body) = ([body], PExists s v taken_box)"
| "take_children (PForall s v body) = ([body], PForall s v taken_box)"
| "take_children (PMu v body) = ([body], PMu v taken_box)"
| "take_children (PNu v body) = ([body], PNu v taken_box)"
| "take_children (PString v) = ([], PString v)"
| "take_children (PVariable v) = ([], PVariable v)"
| "take_children (PTop s) = ([], PTop s)"
| "take_children (PBottom s) = ([], PBottom s)"
| "take_children (PDomainValue s v) = ([], PDomainValue s v)"

lemma take_children_children: "fst (take_children p) = children p"
  by (cases p) auto

lemma take_children_left: "set (children (snd (take_children p))) \<subseteq> {taken_box}"
  by (cases p) auto


text \<open>
  \<open>Drop for Pattern\<close>: the work list takes every detached node apart before it is dropped. The log
  is the sequence of nodes in the state they are dropped in.
\<close>

lemma take_children_nodes: "sum_list (map pattern_nodes (fst (take_children p))) < pattern_nodes p"
  by (simp add: take_children_children pattern_nodes.simps [of p])

function drop_loop :: "pattern list \<Rightarrow> pattern list \<Rightarrow> pattern list" where
  "drop_loop [] dropped = dropped"
| "drop_loop (child # work) dropped =
     (let (grandchildren, emptied) = take_children child
      in drop_loop (rev grandchildren @ work) (dropped @ [emptied]))"
  by pat_completeness auto
termination
proof (relation "measure (\<lambda>(work, _). sum_list (map pattern_nodes work))")
  fix child work and dropped x grandchildren emptied
  assume "x = take_children child" and "(grandchildren, emptied) = x"
  then have "sum_list (map pattern_nodes grandchildren) < pattern_nodes child"
    using take_children_nodes [of child] by (metis fst_conv)
  then show "((rev grandchildren @ work, dropped @ [emptied]), child # work, dropped)
      \<in> measure (\<lambda>(work, _). sum_list (map pattern_nodes work))"
    by (simp add: rev_map [symmetric] sum_list_rev)
qed auto

definition drop_pattern :: "pattern \<Rightarrow> pattern list \<times> pattern" where
  "drop_pattern p = (let (work, emptied) = take_children p in (drop_loop (rev work) [], emptied))"

lemma drop_loop_log:
  "\<exists>log. drop_loop work dropped = dropped @ log \<and> length log = sum_list (map pattern_nodes work)
     \<and> (\<forall>q \<in> set log. set (children q) \<subseteq> {taken_box})"
proof (induction work dropped rule: drop_loop.induct)
  case (2 child work dropped)
  obtain gs e where ge: "take_children child = (gs, e)" by (cases "take_children child")
  then have e: "set (children e) \<subseteq> {taken_box}" "gs = children child"
    using take_children_left [of child] take_children_children [of child] by simp_all
  from "2.IH" [OF ge [symmetric] refl] obtain log where
    log: "drop_loop (rev gs @ work) (dropped @ [e]) = (dropped @ [e]) @ log"
      "length log = sum_list (map pattern_nodes (rev gs @ work))"
      "\<forall>q \<in> set log. set (children q) \<subseteq> {taken_box}" by blast
  show ?case
    using log e
    by (intro exI [of _ "e # log"])
      (simp add: ge pattern_nodes.simps [of child] rev_map [symmetric] sum_list_rev)
qed simp

lemma drop_pattern_log:
  "length (fst (drop_pattern p)) + 1 = pattern_nodes p"
  "q \<in> set (fst (drop_pattern p)) \<Longrightarrow> set (children q) \<subseteq> {taken_box}"
  "set (children (snd (drop_pattern p))) \<subseteq> {taken_box}"
proof -
  obtain work e where we: "take_children p = (work, e)" by (cases "take_children p")
  then have e: "set (children e) \<subseteq> {taken_box}" "work = children p"
    using take_children_left [of p] take_children_children [of p] by simp_all
  then show "set (children (snd (drop_pattern p))) \<subseteq> {taken_box}"
    by (simp add: drop_pattern_def we)
  from drop_loop_log [of "rev work" "[]"] e
  show "length (fst (drop_pattern p)) + 1 = pattern_nodes p"
    and "q \<in> set (fst (drop_pattern p)) \<Longrightarrow> set (children q) \<subseteq> {taken_box}"
    by (auto simp: drop_pattern_def we pattern_nodes.simps [of p] rev_map [symmetric] sum_list_rev)
qed

section \<open>Properties\<close>

text \<open>\<open>conjuncts_at\<close> returns, left to right, the operands of the nested conjunctions at the sort
  without its units; none of them is such a conjunction or unit; \<open>into_conjuncts_at\<close> returns the
  same; and dually for \<open>disjuncts_at\<close>.\<close>

theorem flatten_correct:
  "flatten_at p s conjunction = operands conjunction s p
   \<and> into_flattened_at p s conjunction = flatten_at p s conjunction
   \<and> (\<forall>q \<in> set (flatten_at p s conjunction). flat_node conjunction s q = Operand)"
  by (simp add: flatten_at_operands into_flattened_at_eq) (blast intro: operands_are_operands)

theorem flatten_correct_witness:
  "flat_node True (SortVariable []) (PString [0]) = Operand
   \<and> PString [0] \<in> set (flatten_at (PAnd (SortVariable []) [PString [0], PTop (SortVariable [])]) (SortVariable []) True)"
proof -
  let ?s = "SortVariable []"
  have m: "PString [0] \<in> set (flatten_at (PAnd ?s [PString [0], PTop ?s]) ?s True)"
    by (simp add: flatten_at_def)
  then show ?thesis
    using flatten_correct [of "PAnd ?s [PString [0], PTop ?s]" ?s True] by blast
qed

text \<open>\<open>find_application\<close> returns the first accepted application in post-order, and nothing when no
  application is accepted.\<close>

theorem find_application_correct:
  "find_application p accept = find (accepted accept) (post_order p)"
  by (rule find_application_find)

text \<open>\<open>sort_variables\<close> returns the sort variables of every sort that some node carries.\<close>

theorem sort_variables_correct:
  "sort_variables p = (\<Union>q \<in> set (post_order p). \<Union>s \<in> set (node_sorts q). sort_vars s)"
  by (rule sort_variables_eq)

text \<open>dropping a pattern takes apart each of its nodes once, and every node is dropped after its
  children left it, so no drop recurses beyond the placeholder of a box.\<close>

theorem drop_is_iterative:
  "length (fst (drop_pattern p)) + 1 = pattern_nodes p
   \<and> (\<Union>q \<in> set (snd (drop_pattern p) # fst (drop_pattern p)). set (children q)) \<subseteq> {PString []}"
  using drop_pattern_log(1,3) [of p] drop_pattern_log(2) [of _ p] by auto

end
