(* ===== verification/Kore_Normalize.thy ===== *)
theory Kore_Normalize
  imports Kore_Walk
begin

text \<open>
  \<open>for_kast\<close> of \<open>kore/normalize.rs\<close>: conjunctions and disjunctions get at least two arguments and
  an associative application becomes a tree of binary applications. \<open>None\<close> is the panic of the
  \<open>expect\<close> on an associative application without arguments; the theorems show that it is the only
  way to fail, that the result means what the pattern means, and which patterns are returned.
\<close>

text \<open>The two foldings of an associative application into binary ones.\<close>

definition binary :: "symbol \<Rightarrow> pattern \<Rightarrow> pattern \<Rightarrow> pattern" where
  "binary symb left right = PApplication symb [left, right]"

definition expand_left :: "symbol \<Rightarrow> pattern list \<Rightarrow> pattern option" where
  "expand_left symb arguments =
     (case arguments of
        [] \<Rightarrow> None
      | first # rest \<Rightarrow> Some (foldl (\<lambda>left right. binary symb left right) first rest))"

definition expand_right :: "symbol \<Rightarrow> pattern list \<Rightarrow> pattern option" where
  "expand_right symb arguments =
     (case rev arguments of
        [] \<Rightarrow> None
      | final # rest \<Rightarrow> Some (foldl (\<lambda>right left. binary symb left right) final rest))"

fun normal_node :: "pattern \<Rightarrow> pattern list \<Rightarrow> pattern option" where
  "normal_node (PAnd s _) arguments =
     (if length arguments = 0 then Some (PTop s)
      else if length arguments = 1 then Some (hd arguments)
      else Some (PAnd s arguments))"
| "normal_node (POr s _) arguments =
     (if length arguments = 0 then Some (PBottom s)
      else if length arguments = 1 then Some (hd arguments)
      else Some (POr s arguments))"
| "normal_node (PAssociative LeftAssoc symb _) arguments = expand_left symb arguments"
| "normal_node (PAssociative RightAssoc symb _) arguments = expand_right symb arguments"
| "normal_node p arguments = clone_node p arguments"

definition for_kast :: "pattern \<Rightarrow> pattern option" where
  "for_kast p = rebuild p normal_node"

text \<open>The shape of the result: no associative application, no connective with fewer than two operands.\<close>

fun kast_node :: "pattern \<Rightarrow> bool" where
  "kast_node (PAnd _ arguments) \<longleftrightarrow> 2 \<le> length arguments"
| "kast_node (POr _ arguments) \<longleftrightarrow> 2 \<le> length arguments"
| "kast_node (PAssociative _ _ _) \<longleftrightarrow> False"
| "kast_node _ \<longleftrightarrow> True"

definition all_nodes :: "(pattern \<Rightarrow> bool) \<Rightarrow> pattern \<Rightarrow> bool" where
  "all_nodes P p \<longleftrightarrow> (\<forall>q \<in> set (post_order p). P q)"

lemma all_nodes_node: "all_nodes P p \<longleftrightarrow> P p \<and> (\<forall>c \<in> set (children p). all_nodes P c)"
  by (auto simp: all_nodes_def set_post_order [of p])

fun nonempty_associative :: "pattern \<Rightarrow> bool" where
  "nonempty_associative (PAssociative _ _ arguments) \<longleftrightarrow> arguments \<noteq> []"
| "nonempty_associative _ \<longleftrightarrow> True"

lemma all_nodes_binary [simp]:
  "all_nodes kast_node (binary symb l r) \<longleftrightarrow> all_nodes kast_node l \<and> all_nodes kast_node r"
  by (subst all_nodes_node) (simp add: binary_def)

lemma foldl_binary:
  "all_nodes kast_node a \<Longrightarrow> \<forall>q \<in> set ps. all_nodes kast_node q \<Longrightarrow>
     all_nodes kast_node (foldl (\<lambda>l r. binary symb l r) a ps)"
  "all_nodes kast_node a \<Longrightarrow> \<forall>q \<in> set ps. all_nodes kast_node q \<Longrightarrow>
     all_nodes kast_node (foldl (\<lambda>r l. binary symb l r) a ps)"
  by (induction ps arbitrary: a) auto

lemma expand_left_nonempty [simp]: "expand_left symb (a # as) = Some (foldl (binary symb) a as)"
  by (simp add: expand_left_def)

lemma expand_right_rec:
  "expand_right symb [a] = Some a"
  "as \<noteq> [] \<Longrightarrow> expand_right symb (a # as) = map_option (binary symb a) (expand_right symb as)"
  by (auto simp: expand_right_def split: list.split)

lemma normal_node_result:
  assumes "length vs = length (children p)" and "nonempty_associative p"
    and "\<forall>v \<in> set vs. all_nodes kast_node v"
  obtains q where "normal_node p vs = Some q" "all_nodes kast_node q"
proof (cases "\<exists>s as. p = PAnd s as \<or> p = POr s as \<or> (\<exists>a symb. p = PAssociative a symb as)")
  case True
  then show thesis
  proof (elim exE disjE)
    fix s as assume p: "p = PAnd s as"
    show thesis
    proof (cases "length vs < 2")
      case True
      then have "vs = [] \<or> (\<exists>w. vs = [w])" by (cases vs) (auto simp: Suc_le_eq)
      then show thesis using assms(3) p
        by (elim disjE exE) (auto intro: that simp: all_nodes_node [of kast_node "PTop s"])
    next
      case False
      then have "all_nodes kast_node (PAnd s vs)" using assms(3) by (subst all_nodes_node) simp
      moreover have "normal_node p vs = Some (PAnd s vs)" using False p by auto
      ultimately show thesis by (intro that)
    qed
  next
    fix s as assume p: "p = POr s as"
    show thesis
    proof (cases "length vs < 2")
      case True
      then have "vs = [] \<or> (\<exists>w. vs = [w])" by (cases vs) (auto simp: Suc_le_eq)
      then show thesis using assms(3) p
        by (elim disjE exE) (auto intro: that simp: all_nodes_node [of kast_node "PBottom s"])
    next
      case False
      then have "all_nodes kast_node (POr s vs)" using assms(3) by (subst all_nodes_node) simp
      moreover have "normal_node p vs = Some (POr s vs)" using False p by auto
      ultimately show thesis by (intro that)
    qed
  next
    fix s as a symb assume p: "p = PAssociative a symb as"
    then have "vs \<noteq> []" using assms by auto
    then obtain w ws x xs where vs: "vs = w # ws" "rev vs = x # xs"
      by (metis neq_Nil_conv rev_is_Nil_conv)
    have sub: "set vs = insert x (set xs)" using vs(2) by (metis set_rev list.simps(15))
    show thesis
    proof (cases a)
      case LeftAssoc
      then show thesis using assms p vs(1) by (intro that) (auto intro: foldl_binary)
    next
      case RightAssoc
      then show thesis using assms(3) p vs(2) sub
        by (intro that) (auto simp: expand_right_def intro: foldl_binary)
    qed
  qed
next
  case False
  obtain q where q: "clone_node p vs = Some q" "children q = vs" "discriminant q = discriminant p"
    using clone_node_total [OF assms(1)] by metis
  have "normal_node p vs = clone_node p vs" using False by (cases p) auto
  moreover have "kast_node q" using False q(3) by (cases q; cases p) auto
  ultimately show thesis using assms(3) q by (intro that [of q]) (auto simp: all_nodes_node [of _ q])
qed

lemma for_kast_result:
  "all_nodes nonempty_associative p \<Longrightarrow> \<exists>q. for_kast p = Some q \<and> all_nodes kast_node q"
  unfolding for_kast_def rebuild_fold
proof (induction p rule: pattern_children_induct)
  case (node p)
  have "\<forall>c \<in> set (children p). \<exists>q. fold_pattern normal_node c = Some q \<and> all_nodes kast_node q"
    using node by (auto simp: all_nodes_node [of _ p])
  then obtain f where f: "\<And>c. c \<in> set (children p) \<Longrightarrow> fold_pattern normal_node c = Some (f c)"
    "\<And>c. c \<in> set (children p) \<Longrightarrow> all_nodes kast_node (f c)"
    by metis
  have vs: "collect_options (fold_pattern normal_node) (children p) = Some (map f (children p))"
    using f(1) by (rule collect_options_all)
  obtain q where "normal_node p (map f (children p)) = Some q" "all_nodes kast_node q"
  proof (rule normal_node_result [of "map f (children p)" p])
    show "nonempty_associative p" using node.prems by (simp add: all_nodes_node [of _ p])
  qed (use f(2) in auto)
  then show ?case by (simp add: fold_pattern.simps [of _ p] vs)
qed

lemma fold_pattern_Some_children:
  "fold_pattern build p = Some q \<Longrightarrow> c \<in> set (children p) \<Longrightarrow> \<exists>r. fold_pattern build c = Some r"
proof -
  assume "fold_pattern build p = Some q" and c: "c \<in> set (children p)"
  then obtain vs where "map (fold_pattern build) (children p) = map Some vs"
    by (auto simp: fold_pattern.simps [of build p] collect_options_Some_iff split: option.splits)
  then have "set (map (fold_pattern build) (children p)) = set (map Some vs)" by simp
  then have "fold_pattern build c \<in> Some ` set vs" using c by auto
  then show ?thesis by blast
qed

text \<open>The converse: an associative application without arguments, anywhere, is a panic.\<close>

lemma for_kast_Some_nonempty: "for_kast p = Some q \<Longrightarrow> all_nodes nonempty_associative p"
  unfolding for_kast_def rebuild_fold
proof (induction p arbitrary: q rule: pattern_children_induct)
  case (node p)
  have "nonempty_associative p"
  proof (rule ccontr)
    assume "\<not> nonempty_associative p"
    then obtain a symb where "p = PAssociative a symb []"
      by (cases p) auto
    then show False using node.prems
      by (cases a) (simp_all add: fold_pattern.simps [of _ "PAssociative _ _ _"] expand_left_def expand_right_def)
  qed
  moreover have "all_nodes nonempty_associative c" if "c \<in> set (children p)" for c
    using fold_pattern_Some_children [OF node.prems that] node.IH [OF that] by blast
  ultimately show ?case by (simp add: all_nodes_node [of _ p])
qed

lemma normal_node_kast: "kast_node p \<Longrightarrow> normal_node p (children p) = Some p"
  by (cases p) auto

lemma for_kast_kast: "all_nodes kast_node p \<Longrightarrow> for_kast p = Some p"
  unfolding for_kast_def rebuild_fold
proof (induction p rule: pattern_children_induct)
  case (node p)
  then have "collect_options (fold_pattern normal_node) (children p) = Some (map (\<lambda>c. c) (children p))"
    by (intro collect_options_all) (auto simp: all_nodes_node [of _ p])
  then show ?case
    using node.prems by (simp add: fold_pattern.simps [of _ p] normal_node_kast all_nodes_node [of _ p])
qed

section \<open>What patterns mean\<close>

text \<open>
  The semantics of matching logic, to say that \<open>for_kast\<close> keeps the meaning. A model has a carrier for
  each sort, a function for each symbol, domain values and strings, and an interpretation of \<open>\next\<close>
  and \<open>\rewrites\<close>; a pattern denotes a set, under a valuation of its variables. The meaning of an empty
  conjunction or disjunction is that of its unit, and that of an associative application the nesting
  of the symbol to its side.
\<close>

record 'a kore_model =
  carrier :: "sort \<Rightarrow> 'a set"
  symbol_meaning :: "symbol \<Rightarrow> 'a set list \<Rightarrow> 'a set"
  value_meaning :: "sort \<Rightarrow> kore_string \<Rightarrow> 'a set"
  string_meaning :: "kore_string \<Rightarrow> 'a set"
  next_meaning :: "sort \<Rightarrow> 'a set \<Rightarrow> 'a set"
  rewrites_meaning :: "sort \<Rightarrow> 'a set \<Rightarrow> 'a set \<Rightarrow> 'a set"

fun nested_left :: "('a \<Rightarrow> 'a \<Rightarrow> 'a) \<Rightarrow> 'a \<Rightarrow> 'a list \<Rightarrow> 'a" where
  "nested_left f x [] = x"
| "nested_left f x (y # ys) = nested_left f (f x y) ys"

fun nested_right :: "('a \<Rightarrow> 'a \<Rightarrow> 'a) \<Rightarrow> 'a \<Rightarrow> 'a list \<Rightarrow> 'a" where
  "nested_right f x [] = x"
| "nested_right f x (y # ys) = f x (nested_right f y ys)"

definition nested :: "associativity \<Rightarrow> ('a set \<Rightarrow> 'a set \<Rightarrow> 'a set) \<Rightarrow> 'a set list \<Rightarrow> 'a set" where
  "nested a f xs =
     (case xs of [] \<Rightarrow> {} | y # ys \<Rightarrow> (case a of LeftAssoc \<Rightarrow> nested_left f y ys | RightAssoc \<Rightarrow> nested_right f y ys))"

text \<open>A predicate is all of its sort or nothing.\<close>

definition decided :: "'a kore_model \<Rightarrow> sort \<Rightarrow> bool \<Rightarrow> 'a set" where
  "decided M s b = (if b then carrier M s else {})"

text \<open>The values of a variable: one element of its sort, or a set of them.\<close>

definition values_of :: "'a kore_model \<Rightarrow> variable \<Rightarrow> 'a set set" where
  "values_of M v =
     (case var_kind v of
        Element \<Rightarrow> (\<lambda>a. {a}) ` carrier M (var_sort v)
      | SetVar \<Rightarrow> Pow (carrier M (var_sort v)))"

fun meaning :: "'a kore_model \<Rightarrow> (variable \<Rightarrow> 'a set) \<Rightarrow> pattern \<Rightarrow> 'a set" where
  "meaning M \<rho> (PString v) = string_meaning M v"
| "meaning M \<rho> (PVariable v) = \<rho> v"
| "meaning M \<rho> (PApplication symb arguments) = symbol_meaning M symb (map (meaning M \<rho>) arguments)"
| "meaning M \<rho> (PTop s) = carrier M s"
| "meaning M \<rho> (PBottom s) = {}"
| "meaning M \<rho> (PAnd s arguments) = (if arguments = [] then carrier M s else (\<Inter>a \<in> set arguments. meaning M \<rho> a))"
| "meaning M \<rho> (POr s arguments) = (\<Union>a \<in> set arguments. meaning M \<rho> a)"
| "meaning M \<rho> (PNot s a) = carrier M s - meaning M \<rho> a"
| "meaning M \<rho> (PNext s a) = next_meaning M s (meaning M \<rho> a)"
| "meaning M \<rho> (PImplies s a b) = (carrier M s - meaning M \<rho> a) \<union> meaning M \<rho> b"
| "meaning M \<rho> (PIff s a b) = {x \<in> carrier M s. x \<in> meaning M \<rho> a \<longleftrightarrow> x \<in> meaning M \<rho> b}"
| "meaning M \<rho> (PRewrites s a b) = rewrites_meaning M s (meaning M \<rho> a) (meaning M \<rho> b)"
| "meaning M \<rho> (PExists s v a) = (\<Union>x \<in> values_of M v. meaning M (\<rho>(v := x)) a) \<inter> carrier M s"
| "meaning M \<rho> (PForall s v a) = (\<Inter>x \<in> values_of M v. meaning M (\<rho>(v := x)) a) \<inter> carrier M s"
| "meaning M \<rho> (PMu v a) = \<Inter> {x \<in> values_of M v. meaning M (\<rho>(v := x)) a \<subseteq> x}"
| "meaning M \<rho> (PNu v a) = \<Union> {x \<in> values_of M v. x \<subseteq> meaning M (\<rho>(v := x)) a}"
| "meaning M \<rho> (PCeil s r a) = decided M r (meaning M \<rho> a \<inter> carrier M s \<noteq> {})"
| "meaning M \<rho> (PFloor s r a) = decided M r (carrier M s \<subseteq> meaning M \<rho> a)"
| "meaning M \<rho> (PEquals s r a b) = decided M r (meaning M \<rho> a \<inter> carrier M s = meaning M \<rho> b \<inter> carrier M s)"
| "meaning M \<rho> (PIn s r a b) = decided M r (meaning M \<rho> a \<inter> carrier M s \<subseteq> meaning M \<rho> b)"
| "meaning M \<rho> (PDomainValue s v) = value_meaning M s v"
| "meaning M \<rho> (PAssociative a symb arguments) =
     nested a (\<lambda>x y. symbol_meaning M symb [x, y]) (map (meaning M \<rho>) arguments)"

lemma meaning_foldl_left:
  "meaning M \<rho> (foldl (\<lambda>l r. binary symb l r) p ps)
     = nested_left (\<lambda>x y. symbol_meaning M symb [x, y]) (meaning M \<rho> p) (map (meaning M \<rho>) ps)"
  by (induction ps arbitrary: p) (simp_all add: binary_def)

lemma meaning_expand_left:
  "expand_left symb ps = Some q \<Longrightarrow>
   meaning M \<rho> q = nested LeftAssoc (\<lambda>x y. symbol_meaning M symb [x, y]) (map (meaning M \<rho>) ps)"
  using meaning_foldl_left [of M \<rho> symb "hd ps" "tl ps"] by (cases ps) (auto simp only: expand_left_def nested_def list.simps list.sel
      associativity.case option.inject option.distinct)

lemma meaning_expand_right:
  "expand_right symb ps = Some q \<Longrightarrow>
   meaning M \<rho> q = nested RightAssoc (\<lambda>x y. symbol_meaning M symb [x, y]) (map (meaning M \<rho>) ps)"
proof (induction ps arbitrary: q)
  case Nil
  then show ?case by (simp add: expand_right_def)
next
  case (Cons p ps)
  show ?case
  proof (cases ps)
    case Nil
    then show ?thesis using Cons.prems by (simp add: expand_right_rec nested_def)
  next
    case ps: (Cons r rs)
    have "map_option (binary symb p) (expand_right symb ps) = Some q"
      using Cons.prems expand_right_rec(2) [of ps symb p] ps by simp
    then obtain t where "expand_right symb ps = Some t" "q = binary symb p t" by auto
    then show ?thesis using Cons.IH [of t] ps by (simp add: nested_def binary_def)
  qed
qed

lemma normal_node_meaning:
  assumes "normal_node p vs = Some q" and "length vs = length (children p)"
    and "\<And>\<rho>. map (meaning M \<rho>) vs = map (meaning M \<rho>) (children p)"
  shows "meaning M \<rho> q = meaning M \<rho> p"
proof (cases p)
  case (PAnd s as)
  have "(\<Inter>a \<in> set vs. meaning M \<rho> a) = (\<Inter>a \<in> set as. meaning M \<rho> a)"
    using arg_cong [OF assms(3) [of \<rho>], of "\<lambda>xs. \<Inter> (set xs)"] by (simp add: PAnd)
  then show ?thesis using assms(1,2) PAnd by (cases vs) (auto split: if_splits)
next
  case (POr s as)
  have "(\<Union>a \<in> set vs. meaning M \<rho> a) = (\<Union>a \<in> set as. meaning M \<rho> a)"
    using arg_cong [OF assms(3) [of \<rho>], of "\<lambda>xs. \<Union> (set xs)"] by (simp add: POr)
  then show ?thesis using assms(1,2) POr by (cases vs) (auto split: if_splits)
next
  case (PAssociative a symb as)
  then have "meaning M \<rho> q = nested a (\<lambda>x y. symbol_meaning M symb [x, y]) (map (meaning M \<rho>) vs)"
    using assms(1) meaning_expand_left [of symb vs q M \<rho>] meaning_expand_right [of symb vs q M \<rho>] by (cases a) simp_all
  then show ?thesis using PAssociative assms(3) by simp
qed (use assms in \<open>auto simp: length_Suc_conv split: list.splits\<close>)

lemma for_kast_meaning: "for_kast p = Some q \<Longrightarrow> meaning M \<rho> q = meaning M \<rho> p"
  unfolding for_kast_def rebuild_fold
proof (induction p arbitrary: q \<rho> rule: pattern_children_induct)
  case (node p)
  obtain vs where vs: "collect_options (fold_pattern normal_node) (children p) = Some vs" "normal_node p vs = Some q"
    using node.prems by (auto simp: fold_pattern.simps [of _ p] split: option.splits)
  then have all: "map (fold_pattern normal_node) (children p) = map Some vs"
    by (simp add: collect_options_Some_iff)
  then have len: "length vs = length (children p)" by (metis length_map)
  have "map (meaning M \<rho>) vs = map (meaning M \<rho>) (children p)" for \<rho>
  proof (rule nth_equalityI)
    fix i assume "i < length (map (meaning M \<rho>) vs)"
    then have "fold_pattern normal_node (children p ! i) = Some (vs ! i)" "children p ! i \<in> set (children p)"
      using arg_cong [OF all, of "\<lambda>xs. xs ! i"] len by simp_all
    then show "map (meaning M \<rho>) vs ! i = map (meaning M \<rho>) (children p) ! i"
      using node.IH len \<open>i < _\<close> by simp
  qed (simp add: len)
  then show ?case using normal_node_meaning [OF vs(2) len] by blast
qed

section \<open>Properties\<close>

text \<open>C37: \<open>for_kast\<close> returns a pattern exactly when no associative application is empty. What it
  returns denotes, in every model and under every valuation, what the pattern denotes; it has no
  associative application and no conjunction or disjunction of fewer than two operands, and \<open>for_kast\<close>
  leaves it as it is.\<close>

theorem for_kast_correct:
  "(case for_kast p of
      None \<Rightarrow> \<not> all_nodes nonempty_associative p
    | Some q \<Rightarrow> all_nodes nonempty_associative p \<and> meaning M \<rho> q = meaning M \<rho> p
        \<and> all_nodes kast_node q \<and> for_kast q = Some q)"
proof (cases "for_kast p")
  case None
  then show ?thesis using for_kast_result [of p] by auto
next
  case (Some q)
  then show ?thesis
    using for_kast_Some_nonempty [OF Some] for_kast_result [of p] for_kast_kast [of q] for_kast_meaning [OF Some, of M \<rho>] by auto
qed

end
