(* ===== verification/Kore_Associate.thy ===== *)
theory Kore_Associate
  imports Kore_Normalize
begin

text \<open>
  \<open>kore/associate.rs\<close>: writing the spines of binary applications as associative applications, in
  place. The work list of the source holds mutable references into the tree; here it holds the
  paths to the same nodes, and the loop carries the tree. The loop is a partial function: that it
  ends, without a panic, is a theorem (\<open>associate_eq\<close>).
\<close>

section \<open>Spines\<close>

fun binary_of :: "pattern \<Rightarrow> symbol \<Rightarrow> (pattern \<times> pattern) option" where
  "binary_of (PApplication applied arguments) symb =
     (if applied = symb then (case arguments of [left, right] \<Rightarrow> Some (left, right) | _ \<Rightarrow> None)
      else None)"
| "binary_of _ symb = None"

lemma binary_of_Some: "binary_of p symb = Some (l, r) \<longleftrightarrow> p = binary symb l r"
  by (cases p) (auto simp: binary_def split: list.splits)

lemma binary_of_binary [simp]: "binary_of (binary symb l r) symb = Some (l, r)"
  by (simp add: binary_of_Some)

lemma binary_of_nodes:
  "binary_of p symb = Some (l, r) \<Longrightarrow> pattern_nodes l < pattern_nodes p \<and> pattern_nodes r < pattern_nodes p"
  by (auto simp: binary_of_Some binary_def intro!: pattern_nodes_child)

text \<open>The step along a spine.\<close>

fun spine_next :: "associativity \<Rightarrow> pattern \<times> pattern \<Rightarrow> pattern" where
  "spine_next RightAssoc (left, right) = right"
| "spine_next LeftAssoc (left, right) = left"

lemma spine_next_nodes [termination_simp]:
  "binary_of p symb = Some (l, r) \<Longrightarrow> pattern_nodes (spine_next a (l, r)) < pattern_nodes p"
  by (cases a) (auto dest: binary_of_nodes)

function components_loop :: "pattern \<Rightarrow> symbol \<Rightarrow> associativity \<Rightarrow> nat \<Rightarrow> nat" where
  "components_loop current symb associativity applications =
     (case binary_of current symb of
        Some lr \<Rightarrow> components_loop (spine_next associativity lr) symb associativity (applications + 1)
      | None \<Rightarrow> applications)"
  by pat_completeness auto
termination
  by (relation "measure (\<lambda>(current, _). pattern_nodes current)") (auto simp: spine_next_nodes)

declare components_loop.simps [simp del]

definition components :: "pattern \<Rightarrow> symbol \<Rightarrow> associativity \<Rightarrow> nat" where
  "components p symb associativity = components_loop p symb associativity 0 + 1"

definition longer_spine :: "(symbol \<Rightarrow> bool) \<Rightarrow> pattern \<Rightarrow> associativity option" where
  "longer_spine spine p =
     (case p of
        PApplication symb arguments \<Rightarrow>
          if length arguments \<noteq> 2 \<or> \<not> spine symb then None
          else let right = components p symb RightAssoc; left = components p symb LeftAssoc
            in if max right left < 3 then None
               else if left \<le> right then Some RightAssoc
               else Some LeftAssoc
      | _ \<Rightarrow> None)"

text \<open>
  The loop of \<open>replace_spine\<close>. \<open>None\<close> is the panic of taking two arguments from a list that does
  not have two.
\<close>

definition spine_parts :: "associativity \<Rightarrow> pattern \<Rightarrow> pattern \<Rightarrow> pattern \<times> pattern" where
  "spine_parts associativity left right =
     (case associativity of RightAssoc \<Rightarrow> (left, right) | LeftAssoc \<Rightarrow> (right, left))"

function spine_loop :: "associativity \<Rightarrow> symbol \<Rightarrow> pattern list \<Rightarrow> pattern list \<Rightarrow> pattern list option" where
  "spine_loop associativity symb current parts =
     (case current of
        [left, right] \<Rightarrow>
          (let (component, next) = spine_parts associativity left right;
               parts = parts @ [component]
           in case next of
                PApplication applied arguments \<Rightarrow>
                  if applied = symb \<and> length arguments = 2
                  then spine_loop associativity symb arguments parts
                  else Some (parts @ [next])
              | _ \<Rightarrow> Some (parts @ [next]))
      | _ \<Rightarrow> None)"
  by pat_completeness auto
termination
  by (relation "measure (\<lambda>(_, _, current, _). size_list size current)")
    (auto simp: spine_parts_def split: associativity.splits)

declare spine_loop.simps [simp del]

definition replace_spine :: "pattern \<Rightarrow> associativity \<Rightarrow> pattern option" where
  "replace_spine p associativity =
     (case p of
        PApplication symb arguments \<Rightarrow>
          (case spine_loop associativity symb arguments [] of
             None \<Rightarrow> None
           | Some parts \<Rightarrow>
               Some (PAssociative associativity symb
                 (if associativity = LeftAssoc then List.rev parts else parts)))
      | _ \<Rightarrow> None)"

text \<open>The components of a spine in reading order, by recursion along the spine.\<close>

function spine_list :: "associativity \<Rightarrow> symbol \<Rightarrow> pattern \<Rightarrow> pattern list" where
  "spine_list associativity symb p =
     (case binary_of p symb of
        None \<Rightarrow> [p]
      | Some (left, right) \<Rightarrow>
          (case associativity of
             RightAssoc \<Rightarrow> left # spine_list associativity symb right
           | LeftAssoc \<Rightarrow> spine_list associativity symb left @ [right]))"
  by pat_completeness auto
termination
  by (relation "measure (\<lambda>(_, _, p). pattern_nodes p)") (auto dest: binary_of_nodes)

declare spine_list.simps [simp del]

lemma spine_list_simps:
  "binary_of p symb = None \<Longrightarrow> spine_list a symb p = [p]"
  "binary_of p symb = Some (l, r) \<Longrightarrow> spine_list RightAssoc symb p = l # spine_list RightAssoc symb r"
  "binary_of p symb = Some (l, r) \<Longrightarrow> spine_list LeftAssoc symb p = spine_list LeftAssoc symb l @ [r]"
  by (subst spine_list.simps, simp)+

lemma spine_list_nonempty: "1 \<le> length (spine_list a symb p)"
  by (subst spine_list.simps) (auto split: option.split associativity.split)

lemma components_loop_length:
  "components_loop p symb a n = n + length (spine_list a symb p) - 1"
proof (induction p symb a n rule: components_loop.induct)
  case (1 p symb a n)
  show ?case
  proof (cases "binary_of p symb")
    case None
    then show ?thesis by (simp add: components_loop.simps [of p] spine_list_simps)
  next
    case (Some lr)
    obtain l r where lr: "lr = (l, r)" by (cases lr)
    then show ?thesis
      using 1 [OF Some] Some spine_list_nonempty [of a symb "spine_next a lr"]
      by (cases a) (simp_all add: components_loop.simps [of p] spine_list_simps)
  qed
qed

lemma components_length: "components p symb a = length (spine_list a symb p)"
  using components_loop_length [of p symb a 0] spine_list_nonempty [of a symb p]
  by (simp add: components_def)

lemma spine_loop_step:
  "spine_loop a symb [l, r] cs =
     (case binary_of (spine_next a (l, r)) symb of
        Some (l', r') \<Rightarrow> spine_loop a symb [l', r'] (cs @ [fst (spine_parts a l r)])
      | None \<Rightarrow> Some (cs @ [fst (spine_parts a l r), spine_next a (l, r)]))"
  by (cases "spine_next a (l, r)"; cases a)
    (auto simp: spine_loop.simps [of _ _ "[_, _]"] spine_parts_def length_Suc_conv numeral_2_eq_2 split: list.split)

lemma spine_loop_list:
  "spine_loop a symb [l, r] cs
     = Some (cs @ (if a = LeftAssoc then List.rev else id) (spine_list a symb (binary symb l r)))"
proof (induction "pattern_nodes (spine_next a (l, r))" arbitrary: l r cs rule: less_induct)
  case less
  have outer: "spine_list RightAssoc symb (binary symb l r) = l # spine_list RightAssoc symb r"
    "spine_list LeftAssoc symb (binary symb l r) = spine_list LeftAssoc symb l @ [r]"
    by (simp_all add: spine_list_simps)
  show ?case
  proof (cases "binary_of (spine_next a (l, r)) symb")
    case None
    then show ?thesis
      by (cases a) (simp_all add: spine_loop_step spine_parts_def outer spine_list_simps)
  next
    case (Some lr)
    obtain l' r' where lr: "lr = (l', r')" by (cases lr)
    then have n: "spine_next a (l, r) = binary symb l' r'"
      using Some binary_of_Some by simp
    have "pattern_nodes (spine_next a (l', r')) < pattern_nodes (spine_next a (l, r))"
      using Some lr spine_next_nodes by simp
    note IH = less [OF this, of "cs @ [fst (spine_parts a l r)]"]
    have "spine_loop a symb [l, r] cs = spine_loop a symb [l', r'] (cs @ [fst (spine_parts a l r)])"
      using Some lr by (simp add: spine_loop_step [of a symb l r cs])
    then show ?thesis
      unfolding IH using n outer by (cases a) (simp_all add: spine_parts_def)
  qed
qed

lemma replace_spine_eq:
  "replace_spine (binary symb l r) a = Some (PAssociative a symb (spine_list a symb (binary symb l r)))"
  using spine_loop_list [of a symb l r "[]"]
  by (simp add: replace_spine_def binary_def [of symb l r])


section \<open>The work list\<close>

text \<open>Paths into a tree, as the mutable references of the source.\<close>

definition with_children :: "pattern \<Rightarrow> pattern list \<Rightarrow> pattern" where
  "with_children p cs = the (clone_node p cs)"

lemma children_with_children [simp]:
  "length cs = length (children p) \<Longrightarrow> children (with_children p cs) = cs"
  by (metis clone_node_total option.sel with_children_def)

lemma with_children_children [simp]: "with_children p (children p) = p"
  by (simp add: with_children_def)

lemma with_children_twice [simp]:
  "length cs = length (children p) \<Longrightarrow> length ds = length (children p) \<Longrightarrow>
   with_children (with_children p cs) ds = with_children p ds"
  by (cases p) (auto simp: with_children_def length_Suc_conv)

fun node_at :: "pattern \<Rightarrow> nat list \<Rightarrow> pattern" where
  "node_at p [] = p"
| "node_at p (i # path) = node_at (children p ! i) path"

fun write_at :: "pattern \<Rightarrow> nat list \<Rightarrow> pattern \<Rightarrow> pattern" where
  "write_at p [] q = q"
| "write_at p (i # path) q = with_children p ((children p)[i := write_at (children p ! i) path q])"

fun path_in :: "pattern \<Rightarrow> nat list \<Rightarrow> bool" where
  "path_in p [] \<longleftrightarrow> True"
| "path_in p (i # path) \<longleftrightarrow> i < length (children p) \<and> path_in (children p ! i) path"

lemma node_at_append: "node_at p (path @ path') = node_at (node_at p path) path'"
  by (induction p path rule: node_at.induct) auto

lemma node_at_write_at [simp]: "path_in p path \<Longrightarrow> node_at (write_at p path q) path = q"
  by (induction p path rule: node_at.induct) auto

lemma write_at_append:
  "write_at p (path @ path') q = write_at p path (write_at (node_at p path) path' q)"
  by (induction p path rule: node_at.induct) auto

lemma write_at_write_at [simp]:
  "path_in p path \<Longrightarrow> write_at (write_at p path q) path q' = write_at p path q'"
  by (induction p path rule: node_at.induct) auto

lemma path_in_write_at [simp]: "path_in p path \<Longrightarrow> path_in (write_at p path q) path"
  by (induction p path rule: node_at.induct) auto

lemma path_in_append: "path_in p (path @ path') \<longleftrightarrow> path_in p path \<and> path_in (node_at p path) path'"
  by (induction p path rule: node_at.induct) auto

text \<open>
  The loop of \<open>associate\<close>. The children are pushed in order, so the last one is visited first.
\<close>

definition visit_node :: "(symbol \<Rightarrow> bool) \<Rightarrow> pattern \<Rightarrow> pattern option" where
  "visit_node spine p =
     (case longer_spine spine p of
        Some associativity \<Rightarrow> replace_spine p associativity
      | None \<Rightarrow> Some p)"

partial_function (option) associate_loop ::
    "(symbol \<Rightarrow> bool) \<Rightarrow> nat list list \<Rightarrow> pattern \<Rightarrow> pattern option" where
  "associate_loop spine work root =
     (case work of
        [] \<Rightarrow> Some root
      | path # work' \<Rightarrow>
          (case visit_node spine (node_at root path) of
             None \<Rightarrow> None
           | Some p \<Rightarrow>
               associate_loop spine
                 (List.rev (map (\<lambda>i. path @ [i]) [0..<length (children p)]) @ work')
                 (write_at root path p)))"

definition associate :: "pattern \<Rightarrow> (symbol \<Rightarrow> bool) \<Rightarrow> pattern option" where
  "associate p spine = associate_loop spine [[]] p"

text \<open>The result by recursion: replace the spine at the node, then go on in the children.\<close>

definition visited :: "(symbol \<Rightarrow> bool) \<Rightarrow> pattern \<Rightarrow> pattern" where
  "visited spine p =
     (case longer_spine spine p of
        None \<Rightarrow> p
      | Some a \<Rightarrow> (case p of PApplication symb _ \<Rightarrow> PAssociative a symb (spine_list a symb p) | _ \<Rightarrow> p))"

lemma longer_spine_Some:
  assumes "longer_spine spine p = Some a"
  obtains symb l r where "p = binary symb l r" "spine symb" "3 \<le> length (spine_list a symb p)"
proof -
  from assms obtain symb args where p: "p = PApplication symb args"
    by (cases p) (auto simp: longer_spine_def)
  then have "length args = 2" "spine symb"
    using assms by (auto simp: longer_spine_def split: if_splits)
  then obtain l r where lr: "p = binary symb l r"
    using p by (auto simp: binary_def numeral_2_eq_2 length_Suc_conv)
  have "3 \<le> length (spine_list a symb p)"
    using assms p by (auto simp: longer_spine_def components_length Let_def split: if_splits)
  with lr \<open>spine symb\<close> show thesis by (rule that)
qed

lemma visit_node_eq: "visit_node spine p = Some (visited spine p)"
proof (cases "longer_spine spine p")
  case (Some a)
  then obtain symb l r where "p = binary symb l r" by (rule longer_spine_Some)
  then show ?thesis
    using Some replace_spine_eq [of symb l r a]
    by (simp add: visit_node_def visited_def binary_def)
qed (simp add: visit_node_def visited_def)

lemma spine_list_nodes: "q \<in> set (spine_list a symb p) \<Longrightarrow> pattern_nodes q \<le> pattern_nodes p"
proof (induction a symb p rule: spine_list.induct)
  case (1 a symb p)
  show ?case
  proof (cases "binary_of p symb")
    case None
    then show ?thesis using "1.prems" by (simp add: spine_list_simps)
  next
    case (Some lr)
    obtain l r where lr: "lr = (l, r)" by (cases lr)
    then show ?thesis
      using 1 Some binary_of_nodes [of p symb l r]
      by (cases a) (fastforce simp: spine_list_simps)+
  qed
qed

lemma visited_children_nodes:
  assumes "c \<in> set (children (visited spine p))"
  shows "pattern_nodes c < pattern_nodes p"
proof (cases "longer_spine spine p")
  case None
  then show ?thesis using assms by (simp add: visited_def pattern_nodes_child)
next
  case (Some a)
  then obtain symb l r where p: "p = binary symb l r" by (rule longer_spine_Some)
  then have c: "c \<in> set (spine_list a symb p)"
    using assms Some by (simp add: visited_def binary_def)
  have "binary_of p symb = Some (l, r)" by (simp add: p)
  then show ?thesis
    using c spine_list_nodes [of c a symb l] spine_list_nodes [of c a symb r] binary_of_nodes [of p symb l r]
    by (cases a) (auto simp: spine_list_simps)
qed

function associated :: "(symbol \<Rightarrow> bool) \<Rightarrow> pattern \<Rightarrow> pattern" where
  "associated spine p =
     with_children (visited spine p) (map (associated spine) (children (visited spine p)))"
  by pat_completeness auto
termination
  by (relation "measure (\<lambda>(_, p). pattern_nodes p)") (auto intro: visited_children_nodes)

declare associated.simps [simp del]

lemma write_children:
  assumes "distinct ns" and "\<forall>i \<in> set ns. i < length (children p)"
  shows "fold (\<lambda>i q. write_at q [i] (f (node_at q [i]))) ns p
    = with_children p (map (\<lambda>i. if i \<in> set ns then f (children p ! i) else children p ! i)
        [0..<length (children p)])"
  using assms
proof (induction ns arbitrary: p)
  case Nil
  then show ?case by (simp add: map_nth)
next
  case (Cons i ns)
  let ?p = "with_children p ((children p)[i := f (children p ! i)])"
  let ?new = "\<lambda>ns p. map (\<lambda>j. if j \<in> set ns then f (children p ! j) else children p ! j)
      [0..<length (children p)]"
  have ch: "children ?p = (children p)[i := f (children p ! i)]" by simp
  have "fold (\<lambda>i q. write_at q [i] (f (node_at q [i]))) (i # ns) p
      = fold (\<lambda>i q. write_at q [i] (f (node_at q [i]))) ns ?p" by simp
  also have "\<dots> = with_children ?p (?new ns ?p)"
    using Cons.prems by (intro Cons.IH) auto
  also have "?new ns ?p = ?new (i # ns) p"
    using Cons.prems unfolding ch by (auto simp: nth_list_update)
  also have "with_children ?p (?new (i # ns) p) = with_children p (?new (i # ns) p)"
    by (rule with_children_twice) simp_all
  finally show ?case .
qed

lemma associate_loop_path:
  "path_in root path \<Longrightarrow>
   associate_loop spine (path # work) root
     = associate_loop spine work (write_at root path (associated spine (node_at root path)))"
proof (induction "pattern_nodes (node_at root path)" arbitrary: root path work rule: less_induct)
  case less
  let ?p = "visited spine (node_at root path)"
  let ?f = "associated spine"
  have siblings: "associate_loop spine (map (\<lambda>i. path @ [i]) ns @ work) (write_at root path q)
      = associate_loop spine work
          (write_at root path (fold (\<lambda>i q. write_at q [i] (?f (node_at q [i]))) ns q))"
    if "distinct ns" "\<forall>i \<in> set ns. i < length (children q) \<and> children q ! i = children ?p ! i"
      "length (children q) = length (children ?p)" for ns q
    using that
  proof (induction ns arbitrary: q)
    case (Cons i ns)
    let ?r = "write_at root path q"
    have i: "i < length (children q)" "children q ! i = children ?p ! i" using Cons.prems by auto
    have at: "node_at ?r (path @ [i]) = children q ! i"
      using less.prems by (simp add: node_at_append)
    have "pattern_nodes (node_at ?r (path @ [i])) < pattern_nodes (node_at root path)"
      unfolding at i(2) using i Cons.prems(3) by (intro visited_children_nodes [of _ spine]) simp
    then have "associate_loop spine ((path @ [i]) # map (\<lambda>i. path @ [i]) ns @ work) ?r
        = associate_loop spine (map (\<lambda>i. path @ [i]) ns @ work)
            (write_at ?r (path @ [i]) (?f (node_at ?r (path @ [i]))))"
      using less.prems i by (intro less.hyps) (auto simp: path_in_append)
    also have "write_at ?r (path @ [i]) (?f (node_at ?r (path @ [i])))
        = write_at root path (write_at q [i] (?f (node_at q [i])))"
      using less.prems by (simp add: at write_at_append)
    also have "associate_loop spine (map (\<lambda>i. path @ [i]) ns @ work) \<dots>
        = associate_loop spine work (write_at root path
            (fold (\<lambda>i q. write_at q [i] (?f (node_at q [i]))) ns (write_at q [i] (?f (node_at q [i])))))"
      using Cons.prems by (intro Cons.IH) (auto simp: nth_list_update)
    finally show ?case by simp
  qed simp
  have "associate_loop spine (path # work) root
      = associate_loop spine (map (\<lambda>i. path @ [i]) (List.rev [0..<length (children ?p)]) @ work)
          (write_at root path ?p)"
    by (subst associate_loop.simps) (simp add: visit_node_eq rev_map)
  also have "\<dots> = associate_loop spine work (write_at root path
      (fold (\<lambda>i q. write_at q [i] (?f (node_at q [i]))) (List.rev [0..<length (children ?p)]) ?p))"
    by (rule siblings) auto
  also have "fold (\<lambda>i q. write_at q [i] (?f (node_at q [i]))) (List.rev [0..<length (children ?p)]) ?p
      = with_children ?p (map (\<lambda>i. if i \<in> set (List.rev [0..<length (children ?p)])
          then ?f (children ?p ! i) else children ?p ! i) [0..<length (children ?p)])"
    by (rule write_children) auto
  also have "map (\<lambda>i. if i \<in> set (List.rev [0..<length (children ?p)]) then ?f (children ?p ! i)
        else children ?p ! i) [0..<length (children ?p)] = map ?f (children ?p)"
    by (rule nth_equalityI) auto
  finally show ?case by (simp add: associated.simps [of spine "node_at root path"])
qed

lemma associate_eq: "associate p spine = Some (associated spine p)"
  by (simp add: associate_def associate_loop_path) (simp add: associate_loop.simps)


section \<open>The expansion of the notation\<close>

text \<open>
  The pattern an associative application abbreviates, at every node. One without arguments
  abbreviates nothing and stays.
\<close>

definition expand_side :: "associativity \<Rightarrow> symbol \<Rightarrow> pattern list \<Rightarrow> pattern option" where
  "expand_side a symb vs = (case a of LeftAssoc \<Rightarrow> expand_left symb vs | RightAssoc \<Rightarrow> expand_right symb vs)"

fun expand_node :: "pattern \<Rightarrow> pattern list \<Rightarrow> pattern" where
  "expand_node (PAssociative a symb as) vs =
     (case expand_side a symb vs of Some q \<Rightarrow> q | None \<Rightarrow> PAssociative a symb [])"
| "expand_node p vs = with_children p vs"

function expand :: "pattern \<Rightarrow> pattern" where
  "expand p = expand_node p (map expand (children p))"
  by pat_completeness auto
termination
  by (relation "measure size") (auto dest: children_size)

declare expand.simps [simp del]

lemma expand_binary [simp]: "expand (binary symb l r) = binary symb (expand l) (expand r)"
  by (simp add: expand.simps [of "binary symb l r"]) (simp add: binary_def with_children_def)

lemma expand_left_snoc:
  "xs \<noteq> [] \<Longrightarrow> expand_left symb (xs @ [r]) = map_option (\<lambda>l. binary symb l r) (expand_left symb xs)"
  by (cases xs) auto

lemma expand_spine: "expand_side a symb (map expand (spine_list a symb p)) = Some (expand p)"
proof (induction a symb p rule: spine_list.induct)
  case (1 a symb p)
  show ?case
  proof (cases "binary_of p symb")
    case None
    then show ?thesis
      by (simp add: spine_list_simps expand_side_def expand_right_rec split: associativity.split)
  next
    case (Some lr)
    obtain l r where lr: "lr = (l, r)" by (cases lr)
    have ne: "spine_list b symb q \<noteq> []" for b q
      using spine_list_nonempty [of b symb q] by auto
    have p: "p = binary symb l r" using Some lr by (simp add: binary_of_Some)
    show ?thesis
    proof (cases a)
      case LeftAssoc
      then show ?thesis
        using "1.IH" (1) [OF Some lr [symmetric] LeftAssoc] Some lr
        by (simp add: spine_list_simps expand_side_def expand_left_snoc ne p)
    next
      case RightAssoc
      then show ?thesis
        using "1.IH" (2) [OF Some lr [symmetric] RightAssoc] Some lr
        by (simp add: spine_list_simps expand_side_def expand_right_rec ne p)
    qed
  qed
qed

lemma expand_visited: "expand (visited spine p) = expand p"
proof (cases "longer_spine spine p")
  case (Some a)
  then obtain symb l r where p: "p = binary symb l r" by (rule longer_spine_Some)
  then have "visited spine p = PAssociative a symb (spine_list a symb p)"
    using Some by (simp add: visited_def binary_def)
  then show ?thesis
    by (simp add: expand.simps [of "PAssociative a symb (spine_list a symb p)"] expand_spine)
qed (simp add: visited_def)

lemma expand_node_with_children:
  "length cs = length (children p) \<Longrightarrow> length vs = length (children p) \<Longrightarrow>
   expand_node (with_children p cs) vs = expand_node p vs"
  by (cases p) (auto simp: with_children_def length_Suc_conv)

lemma expand_associated: "expand (associated spine p) = expand p"
proof (induction spine p rule: associated.induct)
  case (1 spine p)
  let ?p = "visited spine p"
  have "expand (associated spine p)
      = expand_node (with_children ?p (map (associated spine) (children ?p)))
          (map expand (map (associated spine) (children ?p)))"
    by (simp add: associated.simps [of spine p]
        expand.simps [of "with_children ?p (map (associated spine) (children ?p))"])
  also have "map expand (map (associated spine) (children ?p)) = map expand (children ?p)"
    using 1 by simp
  also have "expand_node (with_children ?p (map (associated spine) (children ?p))) (map expand (children ?p))
      = expand ?p"
    by (simp add: expand_node_with_children expand.simps [of ?p])
  finally show ?case by (simp add: expand_visited)
qed

fun not_associative :: "pattern \<Rightarrow> bool" where
  "not_associative (PAssociative _ _ _) \<longleftrightarrow> False"
| "not_associative _ \<longleftrightarrow> True"

lemma expand_id: "all_nodes not_associative p \<Longrightarrow> expand p = p"
proof (induction p rule: pattern_children_induct)
  case (node p)
  then have "map expand (children p) = children p"
    by (intro map_idI) (auto simp: all_nodes_node [of _ p])
  moreover have "expand_node p vs = with_children p vs" for vs
  proof -
    have "not_associative p" using node.prems by (simp add: all_nodes_node [of _ p])
    then show ?thesis by (cases p) auto
  qed
  ultimately show ?case by (simp add: expand.simps [of p])
qed

section \<open>The check\<close>

fun splits_at :: "(symbol \<Rightarrow> bool) \<Rightarrow> pattern \<Rightarrow> bool" where
  "splits_at spine (PApplication symb arguments) \<longleftrightarrow> spine symb \<and>
     (case arguments of
        [left, right] \<Rightarrow> binary_of left symb \<noteq> None \<or> binary_of right symb \<noteq> None
      | _ \<Rightarrow> False)"
| "splits_at spine _ \<longleftrightarrow> False"

function is_associated_loop :: "(symbol \<Rightarrow> bool) \<Rightarrow> pattern list \<Rightarrow> bool" where
  "is_associated_loop spine [] = True"
| "is_associated_loop spine (p # work) =
     (if splits_at spine p then False else is_associated_loop spine (List.rev (children p) @ work))"
  by pat_completeness auto
termination
  by (relation "measure (\<lambda>(_, work). sum_list (map pattern_nodes work))")
    (auto simp: pattern_nodes.simps rev_map [symmetric] sum_list_rev)

definition is_associated :: "pattern \<Rightarrow> (symbol \<Rightarrow> bool) \<Rightarrow> bool" where
  "is_associated p spine = is_associated_loop spine [p]"

lemma is_associated_loop_all:
  "is_associated_loop spine work \<longleftrightarrow> (\<forall>p \<in> set work. all_nodes (\<lambda>q. \<not> splits_at spine q) p)"
proof (induction spine work rule: is_associated_loop.induct)
  case (2 spine p work)
  then show ?case by (auto simp: all_nodes_node [of _ p])
qed simp

lemma is_associated_all: "is_associated p spine \<longleftrightarrow> all_nodes (\<lambda>q. \<not> splits_at spine q) p"
  by (simp add: is_associated_def is_associated_loop_all)

lemma spine_list_three:
  "3 \<le> length (spine_list RightAssoc symb (binary symb l r)) \<longleftrightarrow> binary_of r symb \<noteq> None"
  "3 \<le> length (spine_list LeftAssoc symb (binary symb l r)) \<longleftrightarrow> binary_of l symb \<noteq> None"
proof -
  have "2 \<le> length (spine_list a symb q) \<longleftrightarrow> binary_of q symb \<noteq> None" for a q
    using spine_list_nonempty [of a symb "fst (the (binary_of q symb))"]
      spine_list_nonempty [of a symb "snd (the (binary_of q symb))"]
    by (cases a; cases "binary_of q symb") (auto simp: spine_list_simps Suc_le_eq)
  then show "3 \<le> length (spine_list RightAssoc symb (binary symb l r)) \<longleftrightarrow> binary_of r symb \<noteq> None"
    and "3 \<le> length (spine_list LeftAssoc symb (binary symb l r)) \<longleftrightarrow> binary_of l symb \<noteq> None"
    by (simp_all add: spine_list_simps [of "binary symb l r" symb])
qed

lemma longer_spine_None_iff: "longer_spine spine p = None \<longleftrightarrow> \<not> splits_at spine p"
proof (cases "\<exists>symb l r. p = binary symb l r")
  case True
  then obtain symb l r where p: "p = binary symb l r" by blast
  have "longer_spine spine p = None \<longleftrightarrow>
      \<not> spine symb \<or> \<not> (3 \<le> components p symb RightAssoc \<or> 3 \<le> components p symb LeftAssoc)"
    by (auto simp: longer_spine_def p binary_def Let_def)
  also have "\<dots> \<longleftrightarrow> \<not> splits_at spine p"
    unfolding components_length p spine_list_three by (auto simp: binary_def)
  finally show ?thesis .
next
  case False
  then show ?thesis
    by (cases p) (auto simp: longer_spine_def binary_def numeral_2_eq_2 length_Suc_conv split: list.splits)
qed

lemma visited_None: "longer_spine spine p = None \<Longrightarrow> visited spine p = p"
  by (simp add: visited_def)

lemma visited_Some:
  assumes "longer_spine spine p = Some a"
  shows "\<exists>symb as. visited spine p = PAssociative a symb as \<and> (\<forall>b bsymb bs. p \<noteq> PAssociative b bsymb bs)"
proof -
  obtain symb l r where p: "p = binary symb l r" using assms by (rule longer_spine_Some)
  then show ?thesis using assms by (simp add: visited_def binary_def)
qed

lemma with_children_associative [simp]: "with_children (PAssociative a symb as) cs = PAssociative a symb cs"
  by (simp add: with_children_def)

lemma is_associated_iff: "is_associated p spine \<longleftrightarrow> associated spine p = p"
  unfolding is_associated_all
proof (induction p rule: pattern_children_induct)
  case (node p)
  show ?case
  proof (cases "longer_spine spine p")
    case None
    have "associated spine p = p \<longleftrightarrow> map (associated spine) (children p) = children p"
    proof
      assume "associated spine p = p"
      then have "children (with_children p (map (associated spine) (children p))) = children p"
        by (simp add: associated.simps [of spine p] visited_None [OF None])
      then show "map (associated spine) (children p) = children p" by simp
    qed (simp add: associated.simps [of spine p] visited_None [OF None])
    also have "\<dots> \<longleftrightarrow> (\<forall>c \<in> set (children p). associated spine c = c)"
      using map_eq_conv [of "associated spine" "children p" "\<lambda>c. c"] by simp
    also have "\<dots> \<longleftrightarrow> all_nodes (\<lambda>q. \<not> splits_at spine q) p"
      using node None by (simp add: all_nodes_node [of _ p] longer_spine_None_iff)
    finally show ?thesis by simp
  next
    case (Some a)
    then have "splits_at spine p" using longer_spine_None_iff [of spine p] by auto
    moreover have "associated spine p \<noteq> p"
      using visited_Some [OF Some] by (metis associated.simps with_children_associative)
    ultimately show ?thesis by (simp add: all_nodes_node [of _ p])
  qed
qed

lemma binary_of_with_children:
  "length cs = length (children p) \<Longrightarrow>
   binary_of (with_children p cs) symb \<noteq> None \<longleftrightarrow> binary_of p symb \<noteq> None"
  by (cases p) (auto simp: with_children_def length_Suc_conv split: list.splits)

lemma binary_of_associated: "binary_of (associated spine p) symb \<noteq> None \<Longrightarrow> binary_of p symb \<noteq> None"
proof (cases "longer_spine spine p")
  case None
  then show "binary_of (associated spine p) symb \<noteq> None \<Longrightarrow> ?thesis"
    using binary_of_with_children [of "map (associated spine) (children p)" p symb]
    by (simp add: associated.simps [of spine p] visited_None)
next
  case (Some a)
  from visited_Some [OF Some] obtain symb' as where "visited spine p = PAssociative a symb' as" by blast
  then show "binary_of (associated spine p) symb \<noteq> None \<Longrightarrow> ?thesis"
    by (simp add: associated.simps [of spine p])
qed

lemma splits_at_associated: "\<not> splits_at spine (associated spine p)"
proof (cases "longer_spine spine p")
  case (Some a)
  from visited_Some [OF Some] obtain symb as where "visited spine p = PAssociative a symb as" by blast
  then show ?thesis by (simp add: associated.simps [of spine p])
next
  case None
  then have no: "\<not> splits_at spine p" by (simp add: longer_spine_None_iff)
  have "splits_at spine p" if "splits_at spine (with_children p (map (associated spine) (children p)))"
    using that binary_of_associated [of spine]
    by (cases p) (fastforce simp: with_children_def split: list.splits)+
  then show ?thesis using no by (auto simp: associated.simps [of spine p] visited_None [OF None])
qed

lemma is_associated_associated: "is_associated (associated spine p) spine"
  unfolding is_associated_all
proof (induction spine p rule: associated.induct)
  case (1 spine p)
  have "children (associated spine p) = map (associated spine) (children (visited spine p))"
    by (simp add: associated.simps [of spine p])
  then show ?case
    using 1 splits_at_associated [of spine p] by (simp add: all_nodes_node [of _ "associated spine p"])
qed

section \<open>Properties\<close>

text \<open>C4: \<open>associate\<close> ends without a panic, and the pattern it leaves denotes the input by the
  definition of the notation alone: both have the same expansion, which is the input itself when
  the input had no associative application.\<close>

theorem associate_preserves_meaning:
  "\<exists>q. associate p spine = Some q \<and> expand q = expand p
     \<and> (all_nodes not_associative p \<longrightarrow> expand q = p)"
  by (simp add: associate_eq expand_associated expand_id)

theorem associate_preserves_meaning_witness:
  "\<exists>q. associate (PApplication \<lparr>symbol_name = lit ''f'', sort_parameters = []\<rparr> [PString [1], PString [2]])
      (\<lambda>_. True) = Some q \<and>
    expand q = PApplication \<lparr>symbol_name = lit ''f'', sort_parameters = []\<rparr> [PString [1], PString [2]]"
  using associate_preserves_meaning
    [of "PApplication \<lparr>symbol_name = lit ''f'', sort_parameters = []\<rparr> [PString [1], PString [2]]" "\<lambda>_. True"]
  by (auto simp: all_nodes_node [of _ "PApplication _ _"] all_nodes_node [of _ "PString _"])

text \<open>C3: \<open>is_associated\<close> says whether \<open>associate\<close> would leave the pattern as it is, as its documentation
  claims, and \<open>associate\<close> always leaves a pattern it would not change again.\<close>

theorem is_associated_correct:
  "(is_associated p spine \<longleftrightarrow> associate p spine = Some p)
   \<and> (\<exists>q. associate p spine = Some q \<and> is_associated q spine \<and> associate q spine = Some q)"
  using is_associated_iff [of p spine] is_associated_iff [of "associated spine p" spine]
    is_associated_associated [of spine p]
  by (simp add: associate_eq)

end
