(* ===== verification/Kore_Lexical.thy ===== *)
theory Kore_Lexical
  imports Rust_Text
begin

text \<open>
  The lexical checks of names (\<open>kore/lexical.rs\<close>), which the textual and the JSON readers share.
  The rendering of a problem as a message is not modelled: it prints characters in Rust's debug
  format.
\<close>

datatype problem =
    Empty
  | IllegalInitial uchar
  | IllegalChars "uchar list"
  | MissingAt
  | NonLatin1 "uchar list"

definition is_id_start :: "uchar \<Rightarrow> bool" where
  "is_id_start c = is_ascii_alphabetic c"

definition is_id_char :: "uchar \<Rightarrow> bool" where
  "is_id_char c \<longleftrightarrow> is_ascii_alphanumeric c \<or> c = 39 \<or> c = 45"

fun unique_loop :: "uchar list \<Rightarrow> uchar list \<Rightarrow> uchar list" where
  "unique_loop unique [] = unique"
| "unique_loop unique (c # cs) = unique_loop (if c \<in> set unique then unique else unique @ [c]) cs"

definition unique_characters :: "uchar list \<Rightarrow> uchar list" where
  "unique_characters cs = unique_loop [] cs"

definition identifier_problems :: "str \<Rightarrow> problem list" where
  "identifier_problems name =
     (case name of
        [] \<Rightarrow> [Empty]
      | first # rest \<Rightarrow>
          (let problems = (if is_id_start first then [] else [IllegalInitial first]);
               illegal = unique_characters (filter (\<lambda>c. \<not> is_id_char c) rest)
           in if illegal = [] then problems else problems @ [IllegalChars illegal]))"

definition set_variable_problems :: "str \<Rightarrow> problem list" where
  "set_variable_problems name =
     (case name of
        [] \<Rightarrow> [Empty]
      | first # rest \<Rightarrow>
          (if first \<noteq> ch CHR ''@'' then [MissingAt] else []) @ identifier_problems rest)"

definition symbol_problems :: "str \<Rightarrow> problem list" where
  "symbol_problems name =
     (case name of
        [] \<Rightarrow> identifier_problems name
      | c # rest \<Rightarrow> if c = 92 then identifier_problems rest else identifier_problems name)"

definition latin1_problems :: "str \<Rightarrow> problem list" where
  "latin1_problems text =
     (let illegal = filter (\<lambda>c. 0xFF < c) text
      in if illegal = [] then [] else [NonLatin1 illegal])"

text \<open>What the checks accept.\<close>

fun ident :: "str \<Rightarrow> bool" where
  "ident [] \<longleftrightarrow> False"
| "ident (c # s) \<longleftrightarrow> is_ascii_alphabetic c \<and> list_all is_id_char s"

lemma unique_loop_set: "set (unique_loop unique cs) = set unique \<union> set cs"
  by (induction unique cs rule: unique_loop.induct) auto

lemma unique_loop_distinct: "distinct unique \<Longrightarrow> distinct (unique_loop unique cs)"
  by (induction unique cs rule: unique_loop.induct) auto

lemma unique_characters_Nil_iff [simp]: "unique_characters cs = [] \<longleftrightarrow> cs = []"
  using unique_loop_set [of "[]" cs] by (cases cs) (auto simp: unique_characters_def)

lemma identifier_problems_Nil: "identifier_problems name = [] \<longleftrightarrow> ident name"
  by (cases name)
    (auto simp: identifier_problems_def is_id_start_def Let_def filter_empty_conv list_all_iff)

lemma set_variable_problems_Nil:
  "set_variable_problems name = [] \<longleftrightarrow> (\<exists>n. name = ch CHR ''@'' # n \<and> ident n)"
  by (cases name) (auto simp: set_variable_problems_def identifier_problems_Nil)

lemma symbol_problems_Nil:
  "symbol_problems name = [] \<longleftrightarrow> ident name \<or> (\<exists>n. name = 92 # n \<and> ident n)"
  by (cases name) (auto simp: symbol_problems_def identifier_problems_Nil is_ascii_alphabetic_def)

lemma latin1_problems_Nil: "latin1_problems s = [] \<longleftrightarrow> (\<forall>c \<in> set s. c \<le> 0xFF)"
  by (auto simp: latin1_problems_def Let_def filter_empty_conv not_less)

lemma id_char_props:
  "is_id_char c \<Longrightarrow> len_utf8 c = 1 \<and> c < 128"
  by (auto simp: is_id_char_def is_ascii_alphanumeric_def is_ascii_alphabetic_def is_ascii_digit_def
      len_utf8_def)

lemma alphabetic_id_char: "is_ascii_alphabetic c \<Longrightarrow> is_id_char c"
  by (simp add: is_id_char_def is_ascii_alphanumeric_def)

end
