(* ===== verification/Kore_Tokens.thy ===== *)
theory Kore_Tokens
  imports Kore_Lexer
begin

text \<open>
  The texts of tokens and how they are laid out. \<open>token_text\<close> gives the class of texts of each
  token kind; the lexer returns only such texts (\<open>next_token_text\<close>), and a tx laid out from
  token texts with white space between them, where two tokens that would run together are
  separated, lexes to exactly these tokens (\<open>lex_layout\<close>).
\<close>

section \<open>Classes of token texts\<close>

definition named_escape_letter :: "uchar \<Rightarrow> bool" where
  "named_escape_letter c \<longleftrightarrow> c \<in> {34, 92, ch CHR ''n'', ch CHR ''r'', ch CHR ''t'', ch CHR ''f''}"

definition hex_marker :: "uchar \<Rightarrow> nat option" where
  "hex_marker c = (if c = ch CHR ''x'' then Some 2 else if c = ch CHR ''u'' then Some 4
     else if c = ch CHR ''U'' then Some 8 else None)"

text \<open>What stands between the quotes of a string token.\<close>

function string_body :: "str \<Rightarrow> bool" where
  "string_body s =
     (case s of
        [] \<Rightarrow> True
      | c # r \<Rightarrow>
          if c = 34 then False
          else if c = 92 then
            (case r of
               [] \<Rightarrow> False
             | e # r' \<Rightarrow>
                 if named_escape_letter e then string_body r'
                 else (case hex_marker e of
                     None \<Rightarrow> False
                   | Some n \<Rightarrow> n \<le> length r' \<and> list_all is_ascii_hexdigit (take n r') \<and> string_body (drop n r')))
          else \<not> is_control c \<and> string_body r)"
  by pat_completeness auto
termination
  by (relation "measure length") auto

declare string_body.simps [simp del]

lemma string_body_simps [simp]:
  "string_body []"
  "string_body (92 # e # r) \<longleftrightarrow> (if named_escape_letter e then string_body r
     else (case hex_marker e of None \<Rightarrow> False
       | Some n \<Rightarrow> n \<le> length r \<and> list_all is_ascii_hexdigit (take n r) \<and> string_body (drop n r)))"
  "\<not> string_body [92]"
  "c \<noteq> 34 \<Longrightarrow> c \<noteq> 92 \<Longrightarrow> string_body (c # r) \<longleftrightarrow> \<not> is_control c \<and> string_body r"
  "\<not> string_body (34 # r)"
  by (simp_all add: string_body.simps [of "_ # _"] string_body.simps [of "[]"])

definition is_id_token :: "str \<Rightarrow> bool" where
  "is_id_token tx \<longleftrightarrow> (ident tx \<and> classify_id tx = TId)
     \<or> (case tx of c # n \<Rightarrow> c = 92 \<and> ident n \<and> classify_symbol tx = TId | [] \<Rightarrow> False)"

definition is_set_variable_token :: "str \<Rightarrow> bool" where
  "is_set_variable_token tx \<longleftrightarrow>
     (case tx of
        c # n \<Rightarrow> (c = 64 \<and> ident n) \<or> (c = 92 \<and> (case n of d # n' \<Rightarrow> d = 64 \<and> ident n' | [] \<Rightarrow> False))
      | [] \<Rightarrow> False)"

definition is_string_token :: "str \<Rightarrow> bool" where
  "is_string_token tx \<longleftrightarrow> (\<exists>body. tx = 34 # body @ [34] \<and> string_body body)"

fun token_text :: "token_kind \<Rightarrow> str \<Rightarrow> bool" where
  "token_text TString tx = is_string_token tx"
| "token_text TId tx = is_id_token tx"
| "token_text TSetVarId tx = is_set_variable_token tx"
| "token_text kind tx = (spelling kind = Some tx)"

fun is_punctuation :: "token_kind \<Rightarrow> bool" where
  "is_punctuation TComma \<longleftrightarrow> True"
| "is_punctuation TColon \<longleftrightarrow> True"
| "is_punctuation TWalrus \<longleftrightarrow> True"
| "is_punctuation TLParen \<longleftrightarrow> True"
| "is_punctuation TRParen \<longleftrightarrow> True"
| "is_punctuation TLBrace \<longleftrightarrow> True"
| "is_punctuation TRBrace \<longleftrightarrow> True"
| "is_punctuation TLBracket \<longleftrightarrow> True"
| "is_punctuation TRBracket \<longleftrightarrow> True"
| "is_punctuation _ \<longleftrightarrow> False"

definition is_word :: "token_kind \<Rightarrow> bool" where
  "is_word kind \<longleftrightarrow> \<not> is_punctuation kind \<and> kind \<noteq> TString"

text \<open>A word is an identifier, plain or after a backslash, or a set variable.\<close>

lemma spelling_classified:
  "is_word kind \<Longrightarrow> spelling kind \<noteq> None \<Longrightarrow>
     (if hd (the (spelling kind)) = 92
      then ident (tl (the (spelling kind))) \<and> classify_symbol (the (spelling kind)) = kind
      else ident (the (spelling kind)) \<and> classify_id (the (spelling kind)) = kind)"
  by (cases kind)
    (simp_all add: is_word_def classify_id_def classify_symbol_def is_id_char_def is_ascii_alphanumeric_def
      is_ascii_alphabetic_def)

lemma classify_spelling:
  assumes "spelling kind = Some s" and "is_word kind"
  shows "(ident s \<and> classify_id s = kind) \<or> (\<exists>n. s = 92 # n \<and> ident n \<and> classify_symbol s = kind)"
proof -
  have "s \<noteq> []" using assms(1) by (cases kind) auto
  then show ?thesis
    using spelling_classified [OF assms(2)] assms(1) by (cases s) (auto split: if_splits)
qed

lemma word_cases:
  assumes "is_word kind" and "token_text kind tx"
  obtains (plain) "ident tx" "classify_id tx = kind"
  | (backslash) n where "tx = 92 # n" "ident n" "classify_symbol tx = kind"
  | (set_variable) n where "kind = TSetVarId" "tx = 64 # n" "ident n"
  | (set_variable_backslash) n where "kind = TSetVarId" "tx = 92 # 64 # n" "ident n"
proof (cases "spelling kind")
  case (Some s)
  then have "s = tx" using assms(2) by (cases kind) auto
  then show thesis using classify_spelling [OF Some assms(1)] plain backslash by blast
next
  case None
  then have "kind = TId \<or> kind = TSetVarId" using assms(1) by (cases kind) (auto simp: is_word_def)
  then show thesis
  proof
    assume "kind = TId"
    then show thesis using assms(2) plain backslash
      by (auto simp: is_id_token_def split: list.splits)
  next
    assume "kind = TSetVarId"
    then show thesis using assms(2) set_variable set_variable_backslash
      by (auto simp: is_set_variable_token_def split: list.splits)
  qed
qed

lemma classify_id_text: "ident tx \<Longrightarrow> token_text (classify_id tx) tx"
  by (auto simp: classify_id_def is_id_token_def)

lemma classify_symbol_text: "ident n \<Longrightarrow> token_text (classify_symbol (92 # n)) (92 # n)"
  by (auto simp: classify_symbol_def is_id_token_def)

section \<open>Scanning a token tx\<close>

lemma takeWhile_id_chars:
  assumes "list_all is_id_char n" and "r = [] \<or> \<not> is_id_char (hd r)"
  shows "takeWhile is_id_char (n @ r) = n" "dropWhile is_id_char (n @ r) = r"
  using assms by (induction n) (cases r; auto)+

lemma str_len_id_chars: "list_all is_id_char n \<Longrightarrow> str_len n = length n"
  by (induction n) (auto dest: id_char_props)

lemma scan_id_tail_at:
  assumes "list_all is_id_char n" and "r = [] \<or> \<not> is_id_char (hd r)"
  shows "scan_id_tail (lexer_at o' (n @ r)) = lexer_at (o' + str_len n) r"
  by (simp add: scan_id_tail_def lx_skip_while_at takeWhile_id_chars [OF assms])

lemma scan_prefixed_id_at:
  assumes "ident n" and "r = [] \<or> \<not> is_id_char (hd r)"
  shows "scan_prefixed_id (lexer_at o' (p @ n @ r)) prefix (lexer_at o'' (n @ r)) =
    Inr (case prefix of SetVariablePrefix \<Rightarrow> TSetVarId | SymbolPrefix \<Rightarrow> classify_symbol (p @ n),
      lexer_at (o'' + str_len n) r)"
proof -
  obtain c t where n: "n = c # t" "is_ascii_alphabetic c" "list_all is_id_char t"
    using assms(1) by (cases n) auto
  then show ?thesis
    using scan_id_tail_at [OF n(3) assms(2), of "o'' + len_utf8 c"]
      text_between_at [of o' "p @ n" r "o'' + str_len n"]
    by (cases prefix) (simp_all add: scan_prefixed_id_def Let_def add.assoc)
qed

lemma scan_hex_digits_at:
  "list_all is_ascii_hexdigit h \<Longrightarrow>
   scan_hex_digits (length h) eo (lexer_at o' (h @ r)) = Inr (lexer_at (o' + str_len h) r)"
  by (induction h arbitrary: o') (auto simp: add.assoc)

lemma scan_string_body:
  "string_body body \<Longrightarrow>
   scan_string start (lexer_at o' (body @ 34 # r)) = Inr (lexer_at (o' + str_len body + 1) r)"
proof (induction body arbitrary: o' rule: string_body.induct)
  case (1 body)
  show ?case
  proof (cases body)
    case Nil
    then show ?thesis by (simp add: scan_string.simps [of start] len_utf8_def)
  next
    case (Cons c b)
    show ?thesis
    proof (cases "c = 92")
      case False
      then have "c \<noteq> 34" "\<not> is_control c" "string_body b"
        using "1.prems" Cons by (cases "c = 34"; simp)+
      then show ?thesis
        using "1.IH"(3) [OF Cons _ False] False Cons
        by (simp add: scan_string.simps [of start "lexer_at o' (c # _)"] add.assoc)
    next
      case True
      then obtain e b' where b: "b = e # b'"
        using "1.prems" Cons by (cases b) auto
      show ?thesis
      proof (cases "named_escape_letter e")
        case named: True
        then have "string_body b'" using "1.prems" Cons b True by simp
        with "1.IH"(1) [OF Cons _ True b named] named True Cons b show ?thesis
          by (simp add: scan_string.simps [of start "lexer_at o' (92 # _)"] scan_escape_def
              named_escape_letter_def add.assoc)
      next
        case other: False
        then obtain n where n: "hex_marker e = Some n" "n \<le> length b'"
          "list_all is_ascii_hexdigit (take n b')" "string_body (drop n b')"
          using "1.prems" Cons b True by (auto split: option.splits)
        have tk: "b' @ t = take n b' @ drop n b' @ t" for t
          by (metis append.assoc append_take_drop_id)
        have "scan_hex_digits n eo (lexer_at a (b' @ t))
            = Inr (lexer_at (a + str_len (take n b')) (drop n b' @ t))" for eo a t
          unfolding tk using scan_hex_digits_at [OF n(3), of eo a "drop n b' @ t"] n(2) by simp
        then have e: "scan_escape eo (lexer_at a (e # b' @ t))
            = Inr (lexer_at (a + len_utf8 e + str_len (take n b')) (drop n b' @ t))" for eo a t
          using n(1) other
          by (auto simp: scan_escape_def scan_hex_escape_def named_escape_letter_def hex_marker_def
              split: if_splits)
        have len: "str_len b' = str_len (take n b') + str_len (drop n b')"
          by (metis append_take_drop_id str_len_simps(3))
        show ?thesis
          using "1.IH"(2) [OF Cons _ True b other n(1,4)] True Cons b
          by (simp add: scan_string.simps [of start "lexer_at o' (92 # _)"] e len ac_simps)
      qed
    qed
  qed
qed

section \<open>Trivia\<close>

lemma dropWhile_whitespace:
  "list_all is_whitespace w \<Longrightarrow> r = [] \<or> \<not> is_whitespace (hd r) \<Longrightarrow>
   takeWhile is_whitespace (w @ r) = w \<and> dropWhile is_whitespace (w @ r) = r"
  by (induction w) (cases r; auto)+

lemma skip_trivia_whitespace:
  assumes "list_all is_whitespace w" and "r = [] \<or> (\<not> is_whitespace (hd r) \<and> hd r \<noteq> 47)"
  shows "skip_trivia (lexer_at o' (w @ r)) = Inr (lexer_at (o' + str_len w) r)"
proof -
  have tw: "takeWhile is_whitespace (w @ r) = w" "dropWhile is_whitespace (w @ r) = r"
    using dropWhile_whitespace [of w r] assms by auto
  have "lx_skip_while is_whitespace (lexer_at o' (w @ r)) = lexer_at (o' + str_len w) r"
    by (simp only: lx_skip_while_at tw)
  then show ?thesis
    using assms(2) by (subst skip_trivia.simps) (auto simp: Let_def split: list.split)
qed

lemma token_text_start:
  "token_text kind tx \<Longrightarrow> tx \<noteq> [] \<and> \<not> is_whitespace (hd tx) \<and> hd tx \<noteq> 47"
proof (cases "is_word kind")
  case True
  assume "token_text kind tx"
  with True show ?thesis
    by (cases rule: word_cases) (cases tx; auto simp: is_whitespace_def is_ascii_alphabetic_def)+
next
  case False
  assume "token_text kind tx"
  with False show ?thesis
    by (cases kind) (auto simp: is_word_def is_string_token_def is_whitespace_def)
qed

section \<open>One token\<close>

text \<open>When the text that follows does not run into the token.\<close>

definition token_ends :: "token_kind \<Rightarrow> str \<Rightarrow> bool" where
  "token_ends kind r \<longleftrightarrow>
     (is_word kind \<longrightarrow> r = [] \<or> \<not> is_id_char (hd r)) \<and> (kind = TColon \<longrightarrow> r = [] \<or> hd r \<noteq> 61)"

lemma scan_token_word:
  assumes "is_word kind" and "token_text kind (c # n)" and "r = [] \<or> \<not> is_id_char (hd r)"
  shows "scan_token (lexer_at o' (c # n @ r)) c (lexer_at (o' + len_utf8 c) (n @ r)) =
    Inr (kind, lexer_at (o' + str_len (c # n)) r)"
  using assms(1,2)
proof (cases rule: word_cases)
  case plain
  then show ?thesis
    using scan_id_tail_at [of n r "o' + len_utf8 c"] assms(3)
      text_between_at [of o' "c # n" r "o' + str_len (c # n)"]
    by (auto simp: scan_token_def is_ascii_alphabetic_def Let_def add.assoc)
next
  case (backslash m)
  then have "n = m" "hd m \<noteq> 64" "m \<noteq> []" by (cases m; auto simp: is_ascii_alphabetic_def)+
  then show ?thesis
    using backslash scan_prefixed_id_at [of m r o' "[92]" SymbolPrefix "o' + len_utf8 c"] assms(3)
    by (cases m) (simp_all add: scan_token_def lx_consume_at add.assoc)
next
  case (set_variable m)
  then show ?thesis
    using scan_prefixed_id_at [of m r o' "[64]" SetVariablePrefix "o' + len_utf8 c"] assms(3)
    by (simp add: scan_token_def add.assoc)
next
  case (set_variable_backslash m)
  then show ?thesis
    using scan_prefixed_id_at [of m r o' "[92, 64]" SetVariablePrefix "o' + len_utf8 c + len_utf8 64"] assms(3)
    by (simp add: scan_token_def lx_consume_at add.assoc)
qed

lemma scan_token_text:
  assumes "token_text kind (c # n)" and "token_ends kind r"
  shows "scan_token (lexer_at o' (c # n @ r)) c (lexer_at (o' + len_utf8 c) (n @ r)) =
    Inr (kind, lexer_at (o' + str_len (c # n)) r)"
proof (cases "is_word kind")
  case True
  then show ?thesis using assms scan_token_word by (auto simp: token_ends_def)
next
  case False
  show ?thesis
  proof (cases "kind = TString")
    case True
    then obtain body where "c = 34" "n = body @ [34]" "string_body body"
      using assms(1) by (auto simp: is_string_token_def)
    then show ?thesis
      using scan_string_body [of body o' "o' + 1" r] True
      by (simp add: scan_token_def len_utf8_def)
  next
    case no_string: False
    then show ?thesis
      using False assms
      by (cases kind)
        (auto simp: is_word_def scan_token_def token_ends_def lx_consume_at len_utf8_def
          split: list.split)
  qed
qed

lemma next_token_layout:
  assumes "list_all is_whitespace w" and "token_text kind tx" and "token_ends kind r"
  shows "next_token (lexer_at o' (w @ tx @ r)) =
    Inr (Some \<lparr>tok_kind = kind, tok_text = tx, tok_offset = o' + str_len w\<rparr>,
      lexer_at (o' + str_len w + str_len tx) r)"
proof -
  obtain c n where tx: "tx = c # n"
    using token_text_start [OF assms(2)] by (cases tx) auto
  have "skip_trivia (lexer_at o' (w @ tx @ r)) = Inr (lexer_at (o' + str_len w) (tx @ r))"
    using token_text_start [OF assms(2)] assms(1) by (intro skip_trivia_whitespace) auto
  then show ?thesis
    using scan_token_text [of kind c n r "o' + str_len w"] assms(2,3)
      text_between_at [of "o' + str_len w" tx r]
    by (simp add: next_token_def tx)
qed

lemma next_token_end:
  "list_all is_whitespace w \<Longrightarrow>
   next_token (lexer_at o' w) = Inr (None, lexer_at (o' + str_len w) [])"
  using skip_trivia_whitespace [of w "[]" o'] by (simp add: next_token_def lx_bump_def)

section \<open>Layouts\<close>

type_synonym piece = "str \<times> token_kind \<times> str"

fun layout :: "piece list \<Rightarrow> str \<Rightarrow> str" where
  "layout [] r = r"
| "layout ((w, kind, tx) # ps) r = w @ tx @ layout ps r"

fun well_laid :: "piece list \<Rightarrow> str \<Rightarrow> bool" where
  "well_laid [] r \<longleftrightarrow> True"
| "well_laid ((w, kind, tx) # ps) r \<longleftrightarrow>
     list_all is_whitespace w \<and> token_text kind tx \<and> token_ends kind (layout ps r) \<and> well_laid ps r"

fun positioned :: "nat \<Rightarrow> piece list \<Rightarrow> token list" where
  "positioned o' [] = []"
| "positioned o' ((w, kind, tx) # ps) =
     \<lparr>tok_kind = kind, tok_text = tx, tok_offset = o' + str_len w\<rparr>
     # positioned (o' + str_len w + str_len tx) ps"

lemma layout_append: "layout (ps @ qs) r = layout ps (layout qs r)"
  by (induction ps r rule: layout.induct) auto

lemma well_laid_append: "well_laid (ps @ qs) r \<longleftrightarrow> well_laid ps (layout qs r) \<and> well_laid qs r"
  by (induction ps r rule: well_laid.induct) (auto simp: layout_append)

lemma lex_from_layout:
  "well_laid ps w \<Longrightarrow> list_all is_whitespace w \<Longrightarrow>
   lex_from (lexer_at o' (layout ps w)) = Inr (positioned o' ps)"
proof (induction o' ps rule: positioned.induct)
  case (1 o')
  then show ?case by (simp add: lex_from.simps [of "lexer_at o' w"] next_token_end)
next
  case (2 o' v kind tx ps)
  then show ?case
    using next_token_layout [of v kind tx "layout ps w" o']
    by (simp add: lex_from.simps [of "lexer_at o' (v @ _)"])
qed

text \<open>The kind and text of a token, without its position.\<close>

definition token_of :: "token \<Rightarrow> token_kind \<times> str" where
  "token_of t = (tok_kind t, tok_text t)"

lemma token_of_positioned: "map token_of (positioned o' ps) = map snd ps"
  by (induction o' ps rule: positioned.induct) (auto simp: token_of_def)

text \<open>A text that reads as some tokens before the rest \<open>r\<close>.\<close>

definition reads :: "str \<Rightarrow> (token_kind \<times> str) list \<Rightarrow> str \<Rightarrow> bool" where
  "reads s ts r \<longleftrightarrow> (\<exists>ps. s @ r = layout ps r \<and> well_laid ps r \<and> map snd ps = ts)"

lemma reads_append: "reads s ts (s' @ r) \<Longrightarrow> reads s' ts' r \<Longrightarrow> reads (s @ s') (ts @ ts') r"
  unfolding reads_def by (metis append.assoc layout_append map_append well_laid_append)

lemma reads_Nil [simp]: "reads [] [] r"
  by (auto simp: reads_def intro: exI [of _ "[]"])

lemma reads_token: "token_text kind tx \<Longrightarrow> token_ends kind r \<Longrightarrow> reads tx [(kind, tx)] r"
  by (auto simp: reads_def intro!: exI [of _ "[([], kind, tx)]"])

lemma reads_lex:
  assumes "reads s ts w" and "list_all is_whitespace w"
  shows "\<exists>toks. lex (s @ w) = Inr toks \<and> map token_of toks = ts"
  using assms lex_from_layout [of _ w 0]
  by (auto simp: reads_def lex_def token_of_positioned)

end
