(* ===== verification/Kore_String.thy ===== *)
theory Kore_String
  imports Kore_Ast
begin

text \<open>
  Quoting and unquoting of KORE string literals (\<open>kore/string.rs\<close>): the escapes, the two
  encodings of a payload, the reading of bytes as text, \<open>unquote_as\<close> with its error offsets and
  \<open>quote_as\<close>. A literal is the list of its characters, quotes included; a payload is a list of
  bytes. The loop of \<open>unquote_as\<close> keeps the byte offset into the body and the rest of the body
  from there, which is what the source slices out.

  The theorems: a payload reads back from its literal as the payload in canonical form, what is
  read from any literal is in canonical form, and a literal consists of printable ASCII.
\<close>

section \<open>Escapes and encodings\<close>

definition NAMED_ESCAPES :: "(uchar \<times> uchar) list" where
  "NAMED_ESCAPES =
     [(34, 34), (92, 92), (10, ch CHR ''n''), (13, ch CHR ''r''), (9, ch CHR ''t''), (12, ch CHR ''f'')]"

definition HEX_ESCAPES :: "(uchar \<times> nat) list" where
  "HEX_ESCAPES = [(ch CHR ''x'', 2), (ch CHR ''u'', 4), (ch CHR ''U'', 8)]"

definition UNESCAPED :: "uchar \<Rightarrow> bool" where
  "UNESCAPED c \<longleftrightarrow> 32 \<le> c \<and> c \<le> 126"

datatype literal_encoding = Utf8 | Bytes

definition bytes_sort_name :: str where
  "bytes_sort_name = lit ''SortBytes''"

fun of_domain_value :: "sort \<Rightarrow> literal_encoding" where
  "of_domain_value (SortApplication name arguments) =
     (if arguments = [] \<and> name = bytes_sort_name then Bytes else Utf8)"
| "of_domain_value (SortVariable _) = Utf8"

fun store :: "literal_encoding \<Rightarrow> str \<Rightarrow> kore_string option" where
  "store Utf8 s = Some (str_bytes s)"
| "store Bytes s = collect_options (\<lambda>c. if c < 256 then Some (byte_of c) else None) s"

definition text_from_bytes :: "byte list \<Rightarrow> str" where
  "text_from_bytes bs =
     fold (\<lambda>(valid, invalid) text. (text @ valid) @ map unat invalid) (utf8_chunks bs) []"

fun code_points :: "literal_encoding \<Rightarrow> kore_string \<Rightarrow> str" where
  "code_points Bytes v = map unat v"
| "code_points Utf8 v = (case from_utf8 v of Inr text \<Rightarrow> text | Inl _ \<Rightarrow> text_from_bytes v)"

definition canonical :: "kore_string \<Rightarrow> literal_encoding \<Rightarrow> kore_string" where
  "canonical v enc =
     (case enc of Bytes \<Rightarrow> v
      | Utf8 \<Rightarrow> (case from_utf8 v of Inr _ \<Rightarrow> v | Inl _ \<Rightarrow> str_bytes (text_from_bytes v)))"

lemma text_from_bytes_read_text: "text_from_bytes bs = read_text bs"
proof -
  have "fold (\<lambda>(valid, invalid) text. (text @ valid) @ map unat invalid) cs acc = acc @ chunks_text cs"
    for cs acc
    by (induction cs arbitrary: acc) (auto simp: chunks_text_def)
  then show ?thesis by (simp add: text_from_bytes_def chunks_text_utf8_chunks)
qed

lemma is_scalar_byte [simp]: "n < 256 \<Longrightarrow> is_scalar n"
  by (simp add: is_scalar_def)

lemma unat_byte_less [simp]: "unat (b :: byte) < 256"
  using unsigned_less [of b] by simp

lemma valid_str_bytes_as_chars [simp]: "valid_str (map unat (bs :: byte list))"
  by (induction bs) auto

lemma valid_read_text: "valid_str (read_text bs)"
proof (induction bs rule: read_text.induct)
  case (1 bs)
  show ?case
  proof (cases "utf8_next bs")
    case None
    then show ?thesis using 1 by (auto simp: read_text.simps [of bs] split: list.split)
  next
    case (Some cr)
    obtain c r where cr: "cr = (c, r)" by fastforce
    have "is_scalar c" using utf8.dec_exact [of bs c r] Some cr by simp
    then show ?thesis
      using 1(2) [OF Some cr [symmetric]] Some cr by (simp add: read_text.simps [of bs])
  qed
qed

lemma valid_code_points: "valid_str (code_points enc v)"
  by (cases enc) (auto simp: text_from_bytes_read_text valid_read_text from_utf8_Inr split: sum.split)

lemma store_code_points: "store enc (code_points enc v) = Some (canonical v enc)"
proof (cases enc)
  case Bytes
  have "collect_options (\<lambda>c. if c < 256 then Some (byte_of c) else None) (map unat v) = Some v"
    by (induction v) auto
  then show ?thesis by (simp add: Bytes canonical_def)
qed (auto simp: canonical_def from_utf8_Inr split: sum.split)

lemma code_points_store: "valid_str s \<Longrightarrow> store enc s = Some v \<Longrightarrow> code_points enc v = s"
proof (cases enc)
  case Bytes
  assume "store enc s = Some v"
  then show "code_points enc v = s"
    unfolding Bytes by (induction s arbitrary: v) (auto split: if_splits option.splits)
qed auto

lemma canonical_store: "valid_str s \<Longrightarrow> store enc s = Some v \<Longrightarrow> canonical v enc = v"
  using store_code_points [of enc v] code_points_store [of s enc v] by simp

lemma canonical_canonical: "canonical (canonical v enc) enc = canonical v enc"
  by (rule canonical_store [OF valid_code_points store_code_points])

section \<open>Unquoting\<close>

record string_error =
  se_offset :: nat
  se_message :: string

definition string_error :: "nat \<Rightarrow> string \<Rightarrow> string_error" where
  "string_error offset message = \<lparr>se_offset = offset, se_message = message\<rparr>"

text \<open>The closure \<open>push\<close>: the bytes of one code point, appended to the result.\<close>

definition push_character ::
    "literal_encoding \<Rightarrow> byte list \<Rightarrow> uchar \<Rightarrow> nat \<Rightarrow> string_error + byte list" where
  "push_character enc result c at =
     (case enc of
        Utf8 \<Rightarrow> Inr (result @ encode_utf8 c)
      | Bytes \<Rightarrow>
          if c < 256 then Inr (result @ [byte_of c])
          else Inl (string_error at ''code point above U+00FF in a Bytes literal''))"

text \<open>
  \<open>read_code_point\<close>, on the rest of the body at the offset; it returns the character, the
  advanced offset and the rest there.
\<close>

definition read_code_point ::
    "nat \<Rightarrow> str \<Rightarrow> nat \<Rightarrow> nat \<Rightarrow> string_error + (uchar \<times> nat \<times> str)" where
  "read_code_point offset rest digits escape_offset =
     (case take_bytes digits rest of
        None \<Rightarrow> Inl (string_error escape_offset ''truncated Unicode escape'')
      | Some (hex, rest') \<Rightarrow>
          (case from_str_radix16 hex of
             None \<Rightarrow> Inl (string_error escape_offset ''invalid Unicode escape'')
           | Some code_point \<Rightarrow>
               if is_scalar code_point then Inr (code_point, offset + digits, rest')
               else Inl (string_error escape_offset ''invalid Unicode scalar value'')))"

lemma read_code_point_shrinks:
  "read_code_point offset rest digits eo = Inr (c, offset', rest') \<Longrightarrow> length rest' \<le> length rest"
  by (auto simp: read_code_point_def split: option.splits if_splits dest: take_bytes_Some)

text \<open>The escape after a backslash.\<close>

definition read_escape :: "nat \<Rightarrow> str \<Rightarrow> string_error + (uchar \<times> nat \<times> str)" where
  "read_escape offset rest =
     (case rest of
        [] \<Rightarrow> Inl (string_error offset ''truncated escape'')
      | escape # rest' \<Rightarrow>
          (case find (\<lambda>(_, letter). letter = escape) NAMED_ESCAPES of
             Some (character, _) \<Rightarrow> Inr (character, offset + len_utf8 escape, rest')
           | None \<Rightarrow>
               (case find (\<lambda>(letter, _). letter = escape) HEX_ESCAPES of
                  Some (_, digits) \<Rightarrow>
                    read_code_point (offset + len_utf8 escape) rest' digits offset
                | None \<Rightarrow> Inl (string_error offset ''unknown escape''))))"

lemma read_escape_shrinks:
  "read_escape offset rest = Inr (c, offset', rest') \<Longrightarrow> length rest' < length rest"
  by (auto simp: read_escape_def less_Suc_eq_le split: list.splits option.splits
      dest: read_code_point_shrinks)

function unquote_loop ::
    "literal_encoding \<Rightarrow> nat \<Rightarrow> str \<Rightarrow> byte list \<Rightarrow> string_error + byte list" where
  "unquote_loop enc offset rest result =
     (case rest of
        [] \<Rightarrow> Inr result
      | c # rest' \<Rightarrow>
          if c \<noteq> 92 then
            (if is_control c then Inl (string_error offset ''non-printable character in string'')
             else and_then (push_character enc result c offset)
               (\<lambda>result. unquote_loop enc (offset + len_utf8 c) rest' result))
          else
            and_then (read_escape (offset + 1) rest') (\<lambda>(character, offset', rest'').
              and_then (push_character enc result character (offset + 1))
                (\<lambda>result. unquote_loop enc offset' rest'' result)))"
  by pat_completeness auto
termination
  by (relation "measure (\<lambda>(_, _, rest, _). length rest)") (auto dest: read_escape_shrinks)

declare unquote_loop.simps [simp del]

definition unquote_as :: "str \<Rightarrow> literal_encoding \<Rightarrow> string_error + kore_string" where
  "unquote_as input enc =
     (if input = [] \<or> hd input \<noteq> 34 then Inl (string_error 0 ''expected opening quote'')
      else if str_len input < 2 \<or> last input \<noteq> 34
        then Inl (string_error (str_len input) ''expected closing quote'')
      else unquote_loop enc 0 (butlast (tl input)) [])"

definition unquote :: "str \<Rightarrow> string_error + kore_string" where
  "unquote input = unquote_as input Utf8"

section \<open>Quoting\<close>

text \<open>
  \<open>push_quoted\<close>, as the characters it appends. The \<open>expect\<close> of the source is on the search for a
  hexadecimal escape that holds the code point; \<open>hex_escape_found\<close> shows that a character has one.
\<close>

definition hex_escape :: "uchar \<Rightarrow> (uchar \<times> nat) option" where
  "hex_escape c = find (\<lambda>(_, digits). drop_bit (4 * digits) c = 0) HEX_ESCAPES"

definition quoted :: "uchar \<Rightarrow> str" where
  "quoted c =
     (case find (\<lambda>(named, _). named = c) NAMED_ESCAPES of
        Some (_, letter) \<Rightarrow> [92, letter]
      | None \<Rightarrow>
          if UNESCAPED c then [c]
          else (let (letter, digits) = the (hex_escape c) in 92 # letter # hex_pad digits c))"

definition quote_as :: "kore_string \<Rightarrow> literal_encoding \<Rightarrow> str" where
  "quote_as v enc =
     34 # concat (map quoted (case enc of
        Bytes \<Rightarrow> map unat v
      | Utf8 \<Rightarrow> (case from_utf8 v of Inr text \<Rightarrow> text | Inl _ \<Rightarrow> text_from_bytes v))) @ [34]"

definition quote :: "kore_string \<Rightarrow> str" where
  "quote v = quote_as v Utf8"

lemma quote_as_code_points: "quote_as v enc = 34 # concat (map quoted (code_points enc v)) @ [34]"
  by (cases enc) (auto simp: quote_as_def)

lemma hex_escape_found:
  assumes "is_scalar c"
  obtains letter digits where "hex_escape c = Some (letter, digits)" "(letter, digits) \<in> set HEX_ESCAPES"
    "c < 16 ^ digits"
proof -
  have "c < 16 ^ 8" using assms unfolding is_scalar_def by auto
  then have "hex_escape c = Some (if c < 16 ^ 2 then (ch CHR ''x'', 2) else if c < 16 ^ 4 then (ch CHR ''u'', 4)
      else (ch CHR ''U'', 8))"
    by (auto simp: hex_escape_def HEX_ESCAPES_def drop_bit_eq_div)
  then show thesis
    using that \<open>c < 16 ^ 8\<close> by (auto simp: HEX_ESCAPES_def split: if_splits)
qed

lemma NAMED_ESCAPES_find:
  "find (\<lambda>(named, _). named = c) NAMED_ESCAPES = Some (n, letter) \<Longrightarrow>
     n = c \<and> find (\<lambda>(_, l). l = letter) NAMED_ESCAPES = Some (c, letter) \<and> len_utf8 letter = 1
     \<and> 32 \<le> letter \<and> letter \<le> 126 \<and> letter \<notin> set (map fst HEX_ESCAPES)"
  by (auto simp: NAMED_ESCAPES_def HEX_ESCAPES_def len_utf8_def split: if_splits)

lemma HEX_ESCAPES_letters:
  "(letter, digits) \<in> set HEX_ESCAPES \<Longrightarrow>
     find (\<lambda>(l, _). l = letter) HEX_ESCAPES = Some (letter, digits)
     \<and> find (\<lambda>(_, l). l = letter) NAMED_ESCAPES = None \<and> len_utf8 letter = 1
     \<and> 32 \<le> letter \<and> letter \<le> 126 \<and> 0 < digits \<and> digits \<le> 8"
  by (auto simp: NAMED_ESCAPES_def HEX_ESCAPES_def len_utf8_def)

text \<open>The three ways a character is written.\<close>

lemma quoted_cases:
  assumes "is_scalar c"
  obtains (named) letter where "quoted c = [92, letter]"
      "find (\<lambda>(_, l). l = letter) NAMED_ESCAPES = Some (c, letter)" "len_utf8 letter = 1"
      "32 \<le> letter" "letter \<le> 126"
  | (itself) "quoted c = [c]" "32 \<le> c" "c \<le> 126" "c \<noteq> 34" "c \<noteq> 92"
  | (hex) letter digits where "quoted c = 92 # letter # hex_pad digits c"
      "(letter, digits) \<in> set HEX_ESCAPES" "c < 16 ^ digits"
proof (cases "find (\<lambda>(named, _). named = c) NAMED_ESCAPES")
  case (Some p)
  obtain n letter where "p = (n, letter)" by fastforce
  then show thesis using Some NAMED_ESCAPES_find [of c n letter] by (intro named) (auto simp: quoted_def)
next
  case None
  show thesis
  proof (cases "UNESCAPED c")
    case True
    then show thesis using None by (intro itself) (auto simp: quoted_def UNESCAPED_def NAMED_ESCAPES_def)
  next
    case False
    obtain letter digits where "hex_escape c = Some (letter, digits)" "(letter, digits) \<in> set HEX_ESCAPES"
      "c < 16 ^ digits"
      using assms by (rule hex_escape_found)
    then show thesis using None False by (intro hex) (auto simp: quoted_def)
  qed
qed

section \<open>Round trips\<close>

lemma unquote_loop_quoted:
  assumes "is_scalar c"
  shows "unquote_loop enc offset (quoted c @ r) result =
    (if enc = Bytes \<and> 256 \<le> c
     then Inl (string_error (if hd (quoted c) = 92 then offset + 1 else offset)
            ''code point above U+00FF in a Bytes literal'')
     else unquote_loop enc (offset + str_len (quoted c)) r
       (result @ (case enc of Utf8 \<Rightarrow> encode_utf8 c | Bytes \<Rightarrow> [byte_of c])))"
  using assms
proof (cases rule: quoted_cases)
  case (named letter)
  then show ?thesis
    by (cases enc) (auto simp: unquote_loop.simps [of _ offset "92 # letter # r"] read_escape_def
        push_character_def len_utf8_def)
next
  case itself
  then show ?thesis
    by (cases enc) (auto simp: unquote_loop.simps [of _ offset "c # r"] push_character_def
        is_control_def)
next
  case (hex letter digits)
  note L = HEX_ESCAPES_letters [OF hex(2)]
  have c32: "c < 2 ^ 32" using assms by (auto simp: is_scalar_def)
  have len: "str_len (hex_pad digits c) = digits"
    using hexdigits_len [OF hex_pad_hexdigits [of digits c]] by simp
  have "take_bytes digits (hex_pad digits c @ r) = Some (hex_pad digits c, r)"
    using take_bytes_append [of "hex_pad digits c" r] by (simp add: len)
  moreover have "from_str_radix16 (hex_pad digits c) = Some c"
    using hex(3) c32 L by (intro from_str_radix16_hex_pad) auto
  ultimately have "read_escape (offset + 1) (letter # hex_pad digits c @ r) = Inr (c, offset + 2 + digits, r)"
    using L assms by (simp add: read_escape_def read_code_point_def)
  then show ?thesis
    using L hex(1)
    by (cases enc) (auto simp: unquote_loop.simps [of _ offset "92 # letter # _"] push_character_def
        len len_utf8_def add.assoc)
qed

lemma unquote_loop_quoteds:
  "valid_str cs \<Longrightarrow> store enc cs = Some v \<Longrightarrow>
   unquote_loop enc offset (concat (map quoted cs)) result = Inr (result @ v)"
proof (induction cs arbitrary: offset result v)
  case Nil
  then show ?case by (cases enc) (auto simp: unquote_loop.simps)
next
  case (Cons c cs)
  show ?case
  proof (cases enc)
    case Utf8
    then show ?thesis
      using Cons.prems Cons.IH [of "str_bytes cs"] by (simp add: unquote_loop_quoted)
  next
    case Bytes
    then obtain w where "c < 256" "store Bytes cs = Some w" "v = byte_of c # w"
      using Cons.prems by (auto split: if_splits option.splits)
    then show ?thesis
      using Cons.prems Cons.IH [of w] Bytes by (simp add: unquote_loop_quoted)
  qed
qed

lemma unquote_as_body:
  "unquote_as (34 # body @ [34]) enc = unquote_loop enc 0 body []"
  by (simp add: unquote_as_def len_utf8_def butlast_append)

lemma unquote_quote: "unquote_as (quote_as v enc) enc = Inr (canonical v enc)"
  using unquote_loop_quoteds [OF valid_code_points [of enc v] store_code_points, of 0 "[]"]
  by (simp add: quote_as_code_points unquote_as_body)

text \<open>Every code point a literal names is a character, and the payload stores them.\<close>

lemma read_escape_scalar: "read_escape offset rest = Inr (c, offset', rest') \<Longrightarrow> is_scalar c"
  by (auto simp: read_escape_def read_code_point_def NAMED_ESCAPES_def split: list.splits option.splits if_splits)

lemma store_snoc:
  "store enc s = Some v \<Longrightarrow> push_character enc v c at = Inr w \<Longrightarrow> store enc (s @ [c]) = Some w"
proof (cases enc)
  case Bytes
  assume "store enc s = Some v" "push_character enc v c at = Inr w"
  then show "store enc (s @ [c]) = Some w"
    unfolding Bytes push_character_def
    by (induction s arbitrary: v w) (auto split: if_splits option.splits)
qed (auto simp: push_character_def)

lemma unquote_loop_stores:
  "unquote_loop enc offset rest result = Inr v \<Longrightarrow> valid_str rest \<Longrightarrow>
   valid_str s \<Longrightarrow> store enc s = Some result \<Longrightarrow> \<exists>t. valid_str (s @ t) \<and> store enc (s @ t) = Some v"
proof (induction enc offset rest result arbitrary: s rule: unquote_loop.induct)
  case (1 enc offset rest result)
  show ?case
  proof (cases rest)
    case Nil
    then show ?thesis using "1.prems" by (intro exI [of _ "[]"]) (simp add: unquote_loop.simps)
  next
    case (Cons c rest')
    show ?thesis
    proof (cases "c = 92")
      case False
      then obtain w where w: "push_character enc result c offset = Inr w" "\<not> is_control c"
        and l: "unquote_loop enc (offset + len_utf8 c) rest' w = Inr v"
        using "1.prems"(1) Cons
        by (auto simp: unquote_loop.simps [of _ _ "c # rest'"] and_then_Inr_iff split: if_splits)
      have "valid_str (s @ [c])" "store enc (s @ [c]) = Some w" "valid_str rest'"
        using "1.prems" w store_snoc Cons by auto
      from "1.IH"(1) [OF Cons False w(2,1) l this(3,1,2)] show ?thesis by (auto intro: exI [of _ "c # _"])
    next
      case True
      then obtain d offset' rest'' w where e: "read_escape (offset + 1) rest' = Inr (d, offset', rest'')"
        and w: "push_character enc result d (offset + 1) = Inr w"
        and l: "unquote_loop enc offset' rest'' w = Inr v"
        using "1.prems"(1) Cons
        by (auto simp: unquote_loop.simps [of _ _ "92 # rest'"] and_then_Inr_iff)
      have "valid_str rest''"
        using e "1.prems"(2) Cons
        by (auto simp: read_escape_def read_code_point_def split: list.splits option.splits if_splits
            dest!: take_bytes_Some)
      moreover have "valid_str (s @ [d])" "store enc (s @ [d]) = Some w"
        using "1.prems" w e store_snoc read_escape_scalar by auto
      ultimately obtain t where "valid_str ((s @ [d]) @ t) \<and> store enc ((s @ [d]) @ t) = Some v"
        using "1.IH"(2) [OF Cons _ e refl refl w l] True by blast
      then show ?thesis by (intro exI [of _ "d # t"]) simp
    qed
  qed
qed

lemma unquote_canonical:
  assumes "unquote_as input enc = Inr v" and "valid_str input"
  shows "canonical v enc = v"
proof -
  have "unquote_loop enc 0 (butlast (tl input)) [] = Inr v" "input \<noteq> []"
    using assms(1) by (auto simp: unquote_as_def split: if_splits)
  moreover have "valid_str (butlast (tl input))"
    using assms(2) by (cases input) (auto simp: valid_str_def list_all_iff dest: in_set_butlastD)
  moreover have "store enc [] = Some []" by (cases enc) auto
  ultimately obtain t where "valid_str t" "store enc t = Some v"
    using unquote_loop_stores [of enc 0 "butlast (tl input)" "[]" v "[]"] by auto
  then show ?thesis by (rule canonical_store)
qed

lemma quoted_printable:
  assumes "is_scalar c"
  shows "list_all UNESCAPED (quoted c)"
  using assms
proof (cases rule: quoted_cases)
  case (hex letter digits)
  have "list_all UNESCAPED (hex_pad digits c)"
    using hex_pad_hexdigits [of digits c]
    by (rule list.pred_mono_strong) (auto simp: UNESCAPED_def is_ascii_hexdigit_def is_ascii_digit_def)
  then show ?thesis using hex HEX_ESCAPES_letters [OF hex(2)] by (simp add: UNESCAPED_def)
qed (auto simp: UNESCAPED_def)

lemma quote_as_printable: "list_all UNESCAPED (quote_as v enc)"
  using valid_code_points [of enc v]
  by (auto simp: quote_as_code_points list_all_iff valid_str_def UNESCAPED_def
      dest!: quoted_printable)

section \<open>The round trip of a payload\<close>

text \<open>C10: Writing a payload as a literal and reading the literal gives back the payload in canonical
  form, which is the payload itself for bytes and for valid UTF-8; the literal is printable ASCII and
  writing the canonical form gives the same literal.\<close>

theorem quote_unquote:
  "unquote_as (quote_as v enc) enc = Inr (canonical v enc)
   \<and> list_all UNESCAPED (quote_as v enc)
   \<and> quote_as (canonical v enc) enc = quote_as v enc
   \<and> canonical v Bytes = v
   \<and> (\<forall>s. valid_str s \<longrightarrow> canonical (str_bytes s) Utf8 = str_bytes s)"
proof -
  have "code_points enc (canonical v enc) = code_points enc v"
    using code_points_store [OF valid_code_points store_code_points] .
  moreover have "canonical (str_bytes s) Utf8 = str_bytes s" if "valid_str s" for s
    using canonical_store [OF that, of Utf8] by simp
  ultimately show ?thesis
    unfolding quote_as_code_points [of "canonical v enc"] quote_as_code_points [of v, symmetric]
    by (simp add: unquote_quote quote_as_printable) (simp add: quote_as_code_points canonical_def)
qed

theorem quote_unquote_witness:
  "canonical (str_bytes (lit ''ab'')) Utf8 = str_bytes (lit ''ab'')"
  using quote_unquote [of "str_bytes (lit ''ab'')" Utf8]
  by (auto simp: is_scalar_def elim!: allE [of _ "lit ''ab''"])

text \<open>Whatever payload is read from a literal is in canonical form, so writing it and reading it
  again gives the same payload.\<close>

theorem unquote_gives_canonical:
  assumes "unquote_as input enc = Inr v" and "valid_str input"
  shows "canonical v enc = v \<and> unquote_as (quote_as v enc) enc = Inr v"
  using unquote_canonical [OF assms] unquote_quote [of v enc] by simp

theorem unquote_gives_canonical_witness:
  "canonical [0xC3, 0xA9] Utf8 = [0xC3, 0xA9]"
proof -
  let ?input = "[34, 92, 120, 101, 57, 34] :: str"
  have "unquote_as ?input Utf8 = Inr [0xC3, 0xA9]" by code_simp
  moreover have "valid_str ?input" by (simp add: is_scalar_def)
  ultimately show ?thesis using unquote_gives_canonical by blast
qed

end
