(* ===== verification/Kore_Lexer_Facts.thy ===== *)
theory Kore_Lexer_Facts
  imports Kore_Tokens Kore_String
begin

text \<open>
  What the lexer returns: every token's text is in the class of its kind and is the part of the
  input at the token's offset (\<open>lex_covers\<close>), the tokens depend on their texts only
  (\<open>relex\<close>), and its check of the escapes in a string token agrees with the reader of
  \<open>kore/string.rs\<close> (\<open>unquote_string_token\<close>).
\<close>

section \<open>The texts of the returned tokens\<close>

lemma scan_hex_digits_sound:
  "scan_hex_digits n eo st = Inr st' \<Longrightarrow>
   \<exists>h. length h = n \<and> list_all is_ascii_hexdigit h \<and> lx_rest st = h @ lx_rest st'"
proof (induction n eo st rule: scan_hex_digits.induct)
  case (2 n eo st)
  obtain o' s where st: "st = lexer_at o' s" by (rule lexer_cases)
  obtain c t where s: "s = c # t" using "2.prems" st by (cases s) auto
  then obtain h where "length h = n" "list_all is_ascii_hexdigit h" "t = h @ lx_rest st'"
    using 2 st by (auto split: if_splits)
  then show ?case
    using "2.prems" st s by (intro exI [of _ "c # h"]) (auto split: if_splits)
qed simp

lemma scan_escape_sound:
  assumes "scan_escape eo (lexer_at o' s) = Inr st'" and "string_body b"
  shows "\<exists>p. s = p @ lx_rest st' \<and> string_body (92 # p @ b)"
proof -
  obtain e r where s: "s = e # r" using assms(1) by (cases s) (auto simp: scan_escape_def)
  show ?thesis
  proof (cases "named_escape_letter e")
    case True
    then have "st' = lexer_at (o' + len_utf8 e) r"
      using assms(1) s by (auto simp: scan_escape_def named_escape_letter_def)
    then show ?thesis using True s assms(2) by (intro exI [of _ "[e]"]) simp
  next
    case False
    then obtain n where n: "hex_marker e = Some n" "scan_hex_escape n eo (lexer_at o' s) = Inr st'"
      using assms(1) s
      by (auto simp: scan_escape_def named_escape_letter_def hex_marker_def split: if_splits)
    then obtain h where "length h = n" "list_all is_ascii_hexdigit h" "r = h @ lx_rest st'"
      using s scan_hex_digits_sound [of n eo "lexer_at (o' + len_utf8 e) r" st']
      by (auto simp: scan_hex_escape_def)
    then show ?thesis
      using n False s assms(2) by (intro exI [of _ "e # h"]) simp
  qed
qed

lemma scan_string_sound:
  "scan_string start st = Inr st' \<Longrightarrow> \<exists>body. lx_rest st = body @ 34 # lx_rest st' \<and> string_body body"
proof (induction start st rule: scan_string.induct)
  case (1 start st)
  obtain o' s where st: "st = lexer_at o' s" by (rule lexer_cases)
  obtain c t where s: "s = c # t"
    using "1.prems" st by (cases s) (auto simp: scan_string.simps [of start "lexer_at _ _"])
  have p: "lx_peek st = Some c" using st s by simp
  consider (quote) "c = 34" | (escape) "c = 92" | (other) "c \<noteq> 34" "c \<noteq> 92" by blast
  then show ?case
  proof cases
    case quote
    then show ?thesis
      using "1.prems" st s by (intro exI [of _ "[]"]) (auto simp: scan_string.simps [of start "lexer_at _ _"])
  next
    case escape
    then obtain st1 where e: "scan_escape o' (lexer_at (o' + len_utf8 92) t) = Inr st1"
      and r: "scan_string start st1 = Inr st'"
      using "1.prems" st s by (auto simp: scan_string.simps [of start "lexer_at _ _"] and_then_Inr_iff)
    have "\<exists>body. lx_rest st1 = body @ 34 # lx_rest st' \<and> string_body body"
      using "1.IH"(1) [OF p _ escape _ r] e st s escape by simp
    then obtain body where b: "lx_rest st1 = body @ 34 # lx_rest st'" "string_body body" by blast
    from scan_escape_sound [OF e b(2)] obtain q where "t = q @ lx_rest st1" "string_body (92 # q @ body)"
      by blast
    then show ?thesis
      using b(1) st s escape by (intro exI [of _ "92 # q @ body"]) simp
  next
    case other
    then have nc: "\<not> is_control c" and r: "scan_string start (snd (lx_bump st)) = Inr st'"
      using "1.prems" st s by (auto simp: scan_string.simps [of start "lexer_at _ _"] split: if_splits)
    from "1.IH"(2) [OF p other nc r] obtain body
      where "t = body @ 34 # lx_rest st'" "string_body body" using st s by auto
    then show ?thesis
      using other nc st s by (intro exI [of _ "c # body"]) simp
  qed
qed

lemma scan_prefixed_id_sound:
  assumes "scan_prefixed_id (lexer_at o' (p @ s)) prefix (lexer_at o'' s) = Inr (kind, st')"
  obtains n where "ident n" "s = n @ lx_rest st'"
    "kind = (case prefix of SetVariablePrefix \<Rightarrow> TSetVarId | SymbolPrefix \<Rightarrow> classify_symbol (p @ n))"
proof -
  obtain c t where s: "s = c # t" "is_ascii_alphabetic c"
    using assms by (cases s) (auto simp: scan_prefixed_id_def split: if_splits)
  let ?n = "c # takeWhile is_id_char t"
  have eq: "s = ?n @ dropWhile is_id_char t" using s by simp
  have "text_between (lexer_at o' (p @ s)) (lexer_at a (dropWhile is_id_char t)) = p @ ?n" for a
    using text_between_at [of o' "p @ ?n" "dropWhile is_id_char t" a] eq by simp
  then have "st' = lexer_at (o'' + len_utf8 c + str_len (takeWhile is_id_char t)) (dropWhile is_id_char t)"
    "kind = (case prefix of SetVariablePrefix \<Rightarrow> TSetVarId | SymbolPrefix \<Rightarrow> classify_symbol (p @ ?n))"
    using assms s
    by (cases prefix; auto simp: scan_prefixed_id_def scan_id_tail_def lx_skip_while_at Let_def)+
  moreover have "ident ?n" using s by (auto simp: list_all_iff dest: set_takeWhileD)
  ultimately show thesis using eq by (intro that [of ?n]) auto
qed

lemma scan_token_sound:
  assumes "scan_token (lexer_at o' (c # s)) c (lexer_at (o' + len_utf8 c) s) = Inr (kind, st')"
  shows "\<exists>n. s = n @ lx_rest st' \<and> token_text kind (c # n)"
proof -
  consider (string) "c = 34" | (backslash) "c = 92" | (at) "c = 64" | (letter) "is_ascii_alphabetic c"
    | (colon) "c = 58" | (mark) "c \<notin> {34, 92, 64, 58}" "\<not> is_ascii_alphabetic c" by blast
  then show ?thesis
  proof cases
    case string
    then obtain st1 where "scan_string o' (lexer_at (o' + len_utf8 34) s) = Inr st1" "kind = TString" "st' = st1"
      using assms by (auto simp: scan_token_def and_then_Inr_iff)
    then obtain body where "s = body @ 34 # lx_rest st'" "string_body body" "kind = TString"
      using scan_string_sound by fastforce
    then show ?thesis using string by (intro exI [of _ "body @ [34]"]) (simp add: is_string_token_def)
  next
    case backslash
    show ?thesis
    proof (cases "\<exists>t. s = 64 # t")
      case True
      then obtain t where t: "s = 64 # t" by blast
      then have "scan_prefixed_id (lexer_at o' ([92, 64] @ t)) SetVariablePrefix
          (lexer_at (o' + len_utf8 92 + len_utf8 64) t) = Inr (kind, st')"
        using assms backslash by (simp add: scan_token_def lx_consume_at)
      then obtain n where "ident n" "t = n @ lx_rest st'" "kind = TSetVarId"
        by (rule scan_prefixed_id_sound) auto
      then show ?thesis
        using t backslash by (intro exI [of _ "64 # n"]) (simp add: is_set_variable_token_def)
    next
      case False
      then have "scan_prefixed_id (lexer_at o' ([92] @ s)) SymbolPrefix (lexer_at (o' + len_utf8 92) s)
          = Inr (kind, st')"
        using assms backslash by (cases s) (auto simp: scan_token_def lx_consume_at)
      then obtain n where "ident n" "s = n @ lx_rest st'" "kind = classify_symbol (92 # n)"
        by (rule scan_prefixed_id_sound) auto
      then show ?thesis using backslash classify_symbol_text by (intro exI [of _ n]) simp
    qed
  next
    case at
    then have "scan_prefixed_id (lexer_at o' ([64] @ s)) SetVariablePrefix (lexer_at (o' + len_utf8 64) s)
        = Inr (kind, st')"
      using assms by (simp add: scan_token_def)
    then obtain n where "ident n" "s = n @ lx_rest st'" "kind = TSetVarId"
      by (rule scan_prefixed_id_sound) auto
    then show ?thesis using at by (intro exI [of _ n]) (simp add: is_set_variable_token_def)
  next
    case letter
    let ?n = "takeWhile is_id_char s"
    have tb: "text_between (lexer_at o' (c # s)) (lexer_at a (dropWhile is_id_char s)) = c # ?n" for a
      using text_between_at [of o' "c # ?n" "dropWhile is_id_char s" a] by simp
    have "st' = lexer_at (o' + len_utf8 c + str_len ?n) (dropWhile is_id_char s)"
      "kind = classify_id (c # ?n)"
      using assms letter
      by (auto simp: scan_token_def scan_id_tail_def lx_skip_while_at tb is_ascii_alphabetic_def Let_def
          split: if_splits)
    moreover have "ident (c # ?n)" using letter by (auto simp: list_all_iff dest: set_takeWhileD)
    ultimately show ?thesis using classify_id_text by (intro exI [of _ ?n]) auto
  next
    case colon
    then show ?thesis
      using assms by (cases s) (auto simp: scan_token_def lx_consume_at intro: exI [of _ "[]"] exI [of _ "[61]"] split: if_splits)
  next
    case mark
    then show ?thesis
      using assms by (intro exI [of _ "[]"]) (auto simp: scan_token_def split: if_splits)
  qed
qed

lemma next_token_sound:
  assumes "next_token st = Inr (Some t, st')"
  shows "token_text (tok_kind t) (tok_text t) \<and>
    (\<exists>w. lx_rest st = w @ tok_text t @ lx_rest st' \<and> tok_offset t = lx_offset st + str_len w
       \<and> lx_offset st' = tok_offset t + str_len (tok_text t))"
proof -
  obtain start where start: "skip_trivia st = Inr start"
    using assms by (auto simp: next_token_def and_then_Inr_iff)
  obtain o' s where st: "start = lexer_at o' s" by (rule lexer_cases)
  obtain c r where s: "s = c # r"
    using assms start st by (cases s) (auto simp: next_token_def lx_bump_def)
  then obtain kind where k: "scan_token (lexer_at o' (c # r)) c (lexer_at (o' + len_utf8 c) r) = Inr (kind, st')"
    and t: "t = \<lparr>tok_kind = kind, tok_text = text_between (lexer_at o' (c # r)) st', tok_offset = o'\<rparr>"
    using assms start st by (auto simp: next_token_def and_then_Inr_iff)
  obtain n where n: "r = n @ lx_rest st'" "token_text kind (c # n)"
    using scan_token_sound [OF k] by blast
  obtain o'' r' where st': "st' = lexer_at o'' r'" by (rule lexer_cases)
  have "tok_text t = c # n"
    using n(1) text_between_at [of o' "c # n" r' o''] by (simp add: t st')
  moreover have "o'' = o' + len_utf8 c + str_len n"
    using consumes_scan_token [OF k] n(1) by (auto simp: consumes_def st')
  moreover obtain w where "lx_rest st = w @ s" "o' = lx_offset st + str_len w"
    using consumes_skip_trivia [OF start] by (auto simp: consumes_def st)
  ultimately show ?thesis using n by (auto simp: t s st')
qed

section \<open>The tokens in the input\<close>

text \<open>
  The tokens are slices of the text at their offsets, in order; between them the lexer skipped
  something.
\<close>

fun covers :: "nat \<Rightarrow> str \<Rightarrow> token list \<Rightarrow> bool" where
  "covers o' s [] \<longleftrightarrow> True"
| "covers o' s (t # ts) \<longleftrightarrow>
     (\<exists>w r. s = w @ tok_text t @ r \<and> tok_offset t = o' + str_len w
        \<and> covers (tok_offset t + str_len (tok_text t)) r ts)"

lemma lex_from_sound:
  "lex_from st = Inr ts \<Longrightarrow>
   covers (lx_offset st) (lx_rest st) ts \<and> (\<forall>t \<in> set ts. token_text (tok_kind t) (tok_text t))"
proof (induction st arbitrary: ts rule: lex_from.induct)
  case (1 st)
  show ?case
  proof (cases "next_token st")
    case (Inl e)
    then show ?thesis using "1.prems" by (simp add: lex_from.simps [of st])
  next
    case (Inr q)
    obtain mt st' where q: "q = (mt, st')" by (cases q)
    show ?thesis
    proof (cases mt)
      case None
      then show ?thesis using "1.prems" Inr q by (simp add: lex_from.simps [of st])
    next
      case (Some t)
      then obtain ts' where ts': "lex_from st' = Inr ts'" "ts = t # ts'"
        using "1.prems" Inr q by (auto simp: lex_from.simps [of st] and_then_Inr_iff)
      have n: "next_token st = Inr (Some t, st')" using Inr q Some by simp
      show ?thesis
        using "1.IH" [OF Inr q [symmetric] Some ts'(1)] next_token_sound [OF n] ts'(2) by fastforce
    qed
  qed
qed

text \<open>Any sequence of token texts, each followed by a space, lexes to these tokens.\<close>

lemma spaced_layout:
  assumes "list_all is_whitespace w" and "list_all (\<lambda>(kind, tx). token_text kind tx) ts"
  shows "\<exists>ps e. w @ concat (map (\<lambda>(kind, tx). tx @ [32]) ts) = layout ps e \<and> well_laid ps e
    \<and> list_all is_whitespace e \<and> map snd ps = ts"
  using assms
proof (induction ts arbitrary: w)
  case Nil
  then show ?case by (intro exI [of _ "[]"] exI [of _ w]) simp
next
  case (Cons t ts)
  obtain kind tx where t: "t = (kind, tx)" by (cases t)
  have "list_all is_whitespace [32]" by (simp add: is_whitespace_def)
  then obtain ps e where ps: "[32] @ concat (map (\<lambda>(kind, tx). tx @ [32]) ts) = layout ps e"
    "well_laid ps e" "list_all is_whitespace e" "map snd ps = ts"
    using Cons.IH [of "[32]"] Cons.prems(2) by auto
  have "layout ps e \<noteq> [] \<and> hd (layout ps e) = 32" using ps(1) [symmetric] by simp
  then have "token_ends kind (layout ps e)"
    by (auto simp: token_ends_def is_id_char_def is_ascii_alphanumeric_def is_ascii_alphabetic_def is_ascii_digit_def)
  then have "well_laid ((w, kind, tx) # ps) e" using Cons.prems ps(2) t by simp
  moreover have "w @ concat (map (\<lambda>(kind, tx). tx @ [32]) (t # ts)) = layout ((w, kind, tx) # ps) e"
    using ps(1) t by simp
  ultimately show ?case
    using ps(3,4) t by (intro exI [of _ "(w, kind, tx) # ps"] exI [of _ e]) simp
qed

lemma relex:
  assumes "list_all (\<lambda>(kind, tx). token_text kind tx) ts"
  shows "\<exists>toks. lex (concat (map (\<lambda>(kind, tx). tx @ [32]) ts)) = Inr toks \<and> map token_of toks = ts"
proof -
  obtain ps e where "concat (map (\<lambda>(kind, tx). tx @ [32]) ts) = layout ps e" "well_laid ps e"
    "list_all is_whitespace e" "map snd ps = ts"
    using spaced_layout [of "[]" ts] assms by auto
  then show ?thesis
    using lex_from_layout [of ps e 0] by (auto simp: lex_def token_of_positioned)
qed

section \<open>String tokens and the reader of literals\<close>

lemma hex_digit_Some: "is_ascii_hexdigit c \<Longrightarrow> \<exists>d. hex_digit c = Some d \<and> d < 16"
  by (auto simp: is_ascii_hexdigit_def is_ascii_digit_def hex_digit_def)

lemma hex_digits_Some:
  "list_all is_ascii_hexdigit h \<Longrightarrow> (acc + 1) * 16 ^ length h \<le> 2 ^ 32 \<Longrightarrow> \<exists>n. hex_digits acc h = Some n"
proof (induction h arbitrary: acc)
  case (Cons c h)
  obtain d where d: "hex_digit c = Some d" "d < 16" using Cons.prems(1) hex_digit_Some by auto
  have "acc * 16 + d + 1 \<le> (acc + 1) * 16" using d(2) by simp
  then have "(acc * 16 + d + 1) * 16 ^ length h \<le> (acc + 1) * 16 * 16 ^ length h"
    by (rule mult_le_mono1)
  also have "\<dots> \<le> 2 ^ 32" using Cons.prems(2) by (simp add: algebra_simps)
  finally have le: "(acc * 16 + d + 1) * 16 ^ length h \<le> 2 ^ 32" .
  have "(acc * 16 + d + 1) * 1 \<le> (acc * 16 + d + 1) * 16 ^ length h"
    by (rule mult_le_mono2) simp
  then have "(acc * 16 + d + 1) * 1 \<le> 2 ^ 32" using le by (rule le_trans)
  then have "acc * 16 + d < 2 ^ 32" by simp
  then show ?case using d Cons.IH [OF _ le] Cons.prems(1) by simp
qed simp

lemma from_str_radix16_Some:
  assumes "list_all is_ascii_hexdigit h" and "h \<noteq> []" and "length h \<le> 8"
  shows "\<exists>n. from_str_radix16 h = Some n"
proof -
  have "(16::nat) ^ length h \<le> 16 ^ 8" by (rule power_increasing [OF assms(3)]) simp
  then have "\<exists>n. hex_digits 0 h = Some n" using hex_digits_Some [OF assms(1), of 0] by simp
  then show ?thesis
    using assms(1,2) hexdigit_props by (cases h) (auto simp: from_str_radix16_def)
qed

text \<open>
  An escape the lexer let pass is one the reader knows; the only objections left are about the
  code point it names.
\<close>

definition code_point_errors :: "string set" where
  "code_point_errors =
     {''invalid Unicode scalar value'', ''code point above U+00FF in a Bytes literal''}"

lemma push_character_error: "push_character enc r c at = Inl e \<Longrightarrow> se_message e \<in> code_point_errors"
  by (auto simp: push_character_def code_point_errors_def string_error_def split: literal_encoding.splits if_splits)

lemma named_escape_find:
  "named_escape_letter e \<Longrightarrow> \<exists>p. find (\<lambda>(_, letter). letter = e) NAMED_ESCAPES = Some p"
  "\<not> named_escape_letter e \<Longrightarrow> find (\<lambda>(_, letter). letter = e) NAMED_ESCAPES = None"
  by (auto simp: named_escape_letter_def NAMED_ESCAPES_def)

lemma hex_marker_find:
  "hex_marker e = Some n \<Longrightarrow> find (\<lambda>(letter, _). letter = e) HEX_ESCAPES = Some (e, n) \<and> 0 < n \<and> n \<le> 8"
  by (auto simp: hex_marker_def HEX_ESCAPES_def split: if_splits)

lemma read_escape_lexed:
  assumes "string_body (92 # r)" and "read_escape a r = q"
  shows "(\<exists>e. q = Inl e \<and> se_message e \<in> code_point_errors) \<or> (\<exists>c a' r'. q = Inr (c, a', r') \<and> string_body r')"
proof -
  obtain e r1 where r: "r = e # r1" using assms(1) by (cases r) auto
  show ?thesis
  proof (cases "named_escape_letter e")
    case True
    then show ?thesis using assms r named_escape_find(1) [OF True] by (auto simp: read_escape_def)
  next
    case False
    then obtain n where n: "hex_marker e = Some n" "n \<le> length r1" "list_all is_ascii_hexdigit (take n r1)"
      "string_body (drop n r1)"
      using assms r by (auto split: option.splits)
    note H = hex_marker_find [OF n(1)]
    have "str_len (take n r1) = n" using hexdigits_len [OF n(3)] n(2) by simp
    then have tk: "take_bytes n r1 = Some (take n r1, drop n r1)"
      using take_bytes_append [of "take n r1" "drop n r1"] by simp
    obtain cp where cp: "from_str_radix16 (take n r1) = Some cp"
      using from_str_radix16_Some [OF n(3)] n(2) H by fastforce
    show ?thesis
      using assms(2) r H False named_escape_find(2) [OF False] tk cp n(4)
      by (auto simp: read_escape_def read_code_point_def code_point_errors_def string_error_def
          split: if_splits)
  qed
qed

lemma unquote_loop_lexed:
  "string_body s \<Longrightarrow> unquote_loop enc a s res = Inl e \<Longrightarrow> se_message e \<in> code_point_errors"
proof (induction enc a s res rule: unquote_loop.induct)
  case (1 enc a s res)
  show ?case
  proof (cases s)
    case Nil
    then show ?thesis using "1.prems" by (simp add: unquote_loop.simps)
  next
    case (Cons c r)
    show ?thesis
    proof (cases "c = 92")
      case True
      from read_escape_lexed [of r "a + 1", OF _ refl] "1.prems"(1) Cons True
      consider (err) e' where "read_escape (a + 1) r = Inl e'" "se_message e' \<in> code_point_errors"
        | (ok) d a' r' where "read_escape (a + 1) r = Inr (d, a', r')" "string_body r'"
        by auto
      then show ?thesis
      proof cases
        case err
        then show ?thesis
          using "1.prems"(2) Cons True by (simp add: unquote_loop.simps [of enc a "92 # r"])
      next
        case ok
        show ?thesis
        proof (cases "push_character enc res d (a + 1)")
          case (Inl e')
          then show ?thesis
            using "1.prems"(2) Cons True ok push_character_error
            by (fastforce simp: unquote_loop.simps [of enc a "92 # r"])
        next
          case (Inr res')
          then have "unquote_loop enc a' r' res' = Inl e"
            using "1.prems"(2) Cons True ok by (simp add: unquote_loop.simps [of enc a "92 # r"])
          then show ?thesis
            using "1.IH"(2) [OF Cons _ ok(1) refl refl Inr ok(2)] True by simp
        qed
      qed
    next
      case False
      then have b: "\<not> is_control c" "string_body r"
        using "1.prems"(1) Cons by (cases "c = 34"; simp)+
      show ?thesis
      proof (cases "push_character enc res c a")
        case (Inl e')
        then show ?thesis
          using "1.prems"(2) Cons False b push_character_error
          by (fastforce simp: unquote_loop.simps [of enc a "c # r"])
      next
        case (Inr res')
        then have "unquote_loop enc (a + len_utf8 c) r res' = Inl e"
          using "1.prems"(2) Cons False b by (simp add: unquote_loop.simps [of enc a "c # r"])
        then show ?thesis
          using "1.IH"(1) [OF Cons False b(1) Inr b(2)] by simp
      qed
    qed
  qed
qed

lemma unquote_string_token:
  "is_string_token s \<Longrightarrow> unquote_as s enc = Inl e \<Longrightarrow> se_message e \<in> code_point_errors"
  using unquote_loop_lexed by (auto simp: is_string_token_def unquote_as_body)

text \<open>A written literal is a string token.\<close>

lemma string_body_quoted: "is_scalar c \<Longrightarrow> string_body r \<Longrightarrow> string_body (quoted c @ r)"
proof -
  assume "is_scalar c" and r: "string_body r"
  then show ?thesis
  proof (cases rule: quoted_cases)
    case (named letter)
    then have "named_escape_letter letter" using named_escape_find(2) [of letter] by auto
    then show ?thesis using named(1) r by simp
  next
    case itself
    then show ?thesis using r by (simp add: is_control_def)
  next
    case (hex letter digits)
    then have "hex_marker letter = Some digits" "\<not> named_escape_letter letter"
      by (auto simp: HEX_ESCAPES_def hex_marker_def named_escape_letter_def)
    then show ?thesis using hex(1) r hex_pad_hexdigits [of digits c] by simp
  qed
qed

lemma quote_as_string_token: "is_string_token (quote_as v enc)"
proof -
  have "string_body (concat (map quoted cs))" if "valid_str cs" for cs
    using that by (induction cs) (auto intro: string_body_quoted)
  then show ?thesis
    using valid_code_points [of enc v] by (auto simp: quote_as_code_points is_string_token_def)
qed

section \<open>The lexer on any text\<close>

text \<open>C36: The tokens of a text are slices of it, in order, at their byte offsets, and every token's
  text belongs to the class of its kind.\<close>

theorem tokens_are_slices:
  assumes "lex input = Inr toks"
  shows "covers 0 input toks \<and> list_all (\<lambda>t. token_text (tok_kind t) (tok_text t)) toks"
  using lex_from_sound [of "lexer_at 0 input" toks] assms by (auto simp: lex_def list_all_iff)

theorem tokens_are_slices_witness:
  "covers 0 (lit ''sort S'')
     [\<lparr>tok_kind = TSort, tok_text = lit ''sort'', tok_offset = 0\<rparr>, \<lparr>tok_kind = TId, tok_text = lit ''S'', tok_offset = 5\<rparr>]"
proof -
  have "lex (lit ''sort S'') = Inr
     [\<lparr>tok_kind = TSort, tok_text = lit ''sort'', tok_offset = 0\<rparr>, \<lparr>tok_kind = TId, tok_text = lit ''S'', tok_offset = 5\<rparr>]"
    by code_simp
  then show ?thesis using tokens_are_slices by blast
qed

text \<open>C35: Any sequence of token texts, each followed by a space, lexes to exactly those tokens: the
  lexer's longest match never joins or splits what a space separates.\<close>

theorem spaced_tokens_lex:
  assumes "list_all (\<lambda>(kind, tx). token_text kind tx) ts"
  shows "\<exists>toks. lex (concat (map (\<lambda>(kind, tx). tx @ [32]) ts)) = Inr toks
    \<and> map (\<lambda>t. (tok_kind t, tok_text t)) toks = ts"
  using relex [OF assms] by (simp add: token_of_def [abs_def])

theorem spaced_tokens_lex_witness:
  "\<exists>toks. lex (lit '':= : '') = Inr toks \<and> map (\<lambda>t. (tok_kind t, tok_text t)) toks = [(TWalrus, lit '':=''), (TColon, lit '':'')]"
  using spaced_tokens_lex [of "[(TWalrus, lit '':=''), (TColon, lit '':'')]"] by simp

text \<open>A string token is read by \<open>unquote_as\<close> in both encodings without an error about its
  syntax: the only errors left are that an escape names no Unicode scalar value, or one above U+00FF
  in a byte literal. The two scanners agree on quotes, escapes and control characters.\<close>

theorem string_tokens_read:
  assumes "is_string_token s"
  shows "case unquote_as s enc of
      Inr v \<Rightarrow> valid_str s \<longrightarrow> canonical v enc = v
    | Inl e \<Rightarrow> se_message e \<in> code_point_errors"
  using unquote_string_token [OF assms] unquote_canonical [of s enc] by (auto split: sum.split)

theorem string_tokens_read_witness:
  "is_string_token [34, 97, 34] \<and> canonical [97] Utf8 = [97]"
proof -
  have t: "is_string_token [34, 97, 34]"
    unfolding is_string_token_def by (intro exI [of _ "[97]"]) (simp add: is_control_def)
  have "unquote_as [34, 97, 34] Utf8 = Inr [97]" by code_simp
  then show ?thesis using string_tokens_read [OF t, of Utf8] t by (simp add: is_scalar_def)
qed

text \<open>The name checks that the JSON reader uses accept what the lexer accepts: a name without
  symbol problems is the text of one word of the lexer (an identifier or a keyword), and every
  identifier passes; a set variable is a name without set-variable problems, after an optional
  backslash.\<close>

theorem name_checks_agree:
  "(symbol_problems n = [] \<longleftrightarrow> (\<exists>k. is_word k \<and> k \<noteq> TSetVarId \<and> token_text k n))
   \<and> (is_id_token n \<longrightarrow> symbol_problems n = [])
   \<and> (is_set_variable_token n \<longleftrightarrow>
     set_variable_problems n = [] \<or> (\<exists>m. n = 92 # m \<and> set_variable_problems m = []))"
proof (intro conjI)
  have k: "is_word (classify_id n) \<and> classify_id n \<noteq> TSetVarId"
    "is_word (classify_symbol n) \<and> classify_symbol n \<noteq> TSetVarId"
    by (simp_all add: classify_id_def classify_symbol_def is_word_def)
  show 1: "symbol_problems n = [] \<longleftrightarrow> (\<exists>k. is_word k \<and> k \<noteq> TSetVarId \<and> token_text k n)"
  proof
    assume "symbol_problems n = []"
    then consider "ident n" | m where "n = 92 # m" "ident m" by (auto simp: symbol_problems_Nil)
    then show "\<exists>k. is_word k \<and> k \<noteq> TSetVarId \<and> token_text k n"
      using k classify_id_text [of n] classify_symbol_text by cases blast+
  next
    assume "\<exists>k. is_word k \<and> k \<noteq> TSetVarId \<and> token_text k n"
    then show "symbol_problems n = []"
      by (auto simp: symbol_problems_Nil elim: word_cases)
  qed
  show "is_id_token n \<longrightarrow> symbol_problems n = []"
    unfolding 1 by (intro impI exI [of _ TId]) (simp add: is_word_def)
  show "is_set_variable_token n \<longleftrightarrow>
     set_variable_problems n = [] \<or> (\<exists>m. n = 92 # m \<and> set_variable_problems m = [])"
    by (auto simp: is_set_variable_token_def set_variable_problems_Nil split: list.splits)
qed

theorem name_checks_agree_witness: "is_id_token (lit ''X'') \<and> symbol_problems (lit ''X'') = []"
  using name_checks_agree [of "lit ''X''"]
  by (simp add: is_id_token_def is_ascii_alphabetic_def classify_id_def)

end
