(* ===== verification/Kore_Parser.thy ===== *)
theory Kore_Parser
  imports Kore_Lexer_Facts
begin

text \<open>
  The parser of textual KORE (\<open>kore/parser\<close>). The state holds the tokens from the cursor on and
  the length of the input, which error offsets past the last token use. Sorts and patterns are
  parsed with an explicit stack of frames, as in the source; one iteration of such a loop is a
  function of its own (\<open>sort_step\<close>, \<open>pattern_step\<close>).

  A parser that fails returns a fault: \<open>Fail\<close> with the error of the source, \<open>Panic\<close> where the
  source would panic (an \<open>expect\<close> or \<open>unreachable!\<close>), or \<open>Diverges\<close> where \<open>delimited\<close> would
  call an element parser that returned tokens to the input, on which termination rests. The
  last two are shown never to happen.
\<close>

section \<open>The state and its operations\<close>

record parse_error =
  pe_offset :: nat
  pe_message :: str

datatype fault = Fail parse_error | Panic | Diverges

record parser =
  ps_rest :: "token list"
  ps_len :: nat

definition fail :: "nat \<Rightarrow> str \<Rightarrow> fault + 'a" where
  "fail offset message = Inl (Fail \<lparr>pe_offset = offset, pe_message = message\<rparr>)"

definition p_peek :: "parser \<Rightarrow> token option" where
  "p_peek st = (case ps_rest st of [] \<Rightarrow> None | t # _ \<Rightarrow> Some t)"

definition p_at :: "parser \<Rightarrow> token_kind \<Rightarrow> bool" where
  "p_at st kind = (case p_peek st of Some t \<Rightarrow> tok_kind t = kind | None \<Rightarrow> False)"

definition p_consume :: "parser \<Rightarrow> token_kind \<Rightarrow> token option \<times> parser" where
  "p_consume st kind =
     (case ps_rest st of
        t # ts \<Rightarrow> if tok_kind t = kind then (Some t, st\<lparr>ps_rest := ts\<rparr>) else (None, st)
      | [] \<Rightarrow> (None, st))"

text \<open>\<open>consume\<close> where only its success matters.\<close>

definition p_accept :: "token_kind \<Rightarrow> parser \<Rightarrow> parser option" where
  "p_accept kind st = (case p_consume st kind of (Some _, st') \<Rightarrow> Some st' | (None, _) \<Rightarrow> None)"

text \<open>The offset of the next token, or of the end of the input.\<close>

definition p_offset :: "parser \<Rightarrow> nat" where
  "p_offset st = (case p_peek st of Some t \<Rightarrow> tok_offset t | None \<Rightarrow> ps_len st)"

definition p_expected :: "parser \<Rightarrow> token_kind \<Rightarrow> fault + 'a" where
  "p_expected st expected =
     (case p_peek st of
        Some actual \<Rightarrow>
          fail (tok_offset actual)
            (lit ''expected '' @ token_kind_text expected @ lit '', found '' @ token_kind_text (tok_kind actual))
      | None \<Rightarrow>
          fail (ps_len st) (lit ''expected '' @ token_kind_text expected @ lit '', found end of input''))"

definition p_expect :: "parser \<Rightarrow> token_kind \<Rightarrow> fault + (token \<times> parser)" where
  "p_expect st kind =
     (case p_consume st kind of
        (Some t, st') \<Rightarrow> Inr (t, st')
      | (None, _) \<Rightarrow> p_expected st kind)"

text \<open>Skipping a token that must be there.\<close>

definition p_skip :: "token_kind \<Rightarrow> parser \<Rightarrow> fault + parser" where
  "p_skip kind st = and_then (p_expect st kind) (\<lambda>(_, st'). Inr st')"

definition p_text :: "token_kind \<Rightarrow> parser \<Rightarrow> fault + (str \<times> parser)" where
  "p_text kind st = and_then (p_expect st kind) (\<lambda>(t, st'). Inr (tok_text t, st'))"

lemma p_consume_length:
  "p_consume st kind = (Some t, st') \<Longrightarrow> length (ps_rest st) = Suc (length (ps_rest st'))"
  by (auto simp: p_consume_def split: list.splits if_splits)

lemma p_accept_length: "p_accept kind st = Some st' \<Longrightarrow> length (ps_rest st) = Suc (length (ps_rest st'))"
  by (auto simp: p_accept_def split: prod.splits option.splits dest: p_consume_length)

lemma p_expect_length: "p_expect st kind = Inr (t, st') \<Longrightarrow> length (ps_rest st) = Suc (length (ps_rest st'))"
  by (auto simp: p_expect_def p_expected_def fail_def split: prod.splits option.splits dest: p_consume_length)

lemma p_skip_length: "p_skip kind st = Inr st' \<Longrightarrow> length (ps_rest st) = Suc (length (ps_rest st'))"
  by (auto simp: p_skip_def and_then_Inr_iff dest: p_expect_length)

lemma p_text_length: "p_text kind st = Inr (s, st') \<Longrightarrow> length (ps_rest st) = Suc (length (ps_rest st'))"
  by (auto simp: p_text_def and_then_Inr_iff dest: p_expect_length)

text \<open>
  The loop of \<open>delimited\<close>: an element, then a comma and the next one, or the closing token.
\<close>

function delimited_loop ::
    "(parser \<Rightarrow> fault + ('a \<times> parser)) \<Rightarrow> token_kind \<Rightarrow> 'a list \<Rightarrow> parser \<Rightarrow> fault + ('a list \<times> parser)" where
  "delimited_loop parse close values st =
     and_then (parse st) (\<lambda>(v, st1).
       case p_accept TComma st1 of
         None \<Rightarrow> and_then (p_skip close st1) (\<lambda>st2. Inr (values @ [v], st2))
       | Some st2 \<Rightarrow>
           if length (ps_rest st2) < length (ps_rest st)
           then delimited_loop parse close (values @ [v]) st2
           else Inl Diverges)"
  by pat_completeness auto
termination
  by (relation "measure (\<lambda>(_, _, _, st). length (ps_rest st))") auto

declare delimited_loop.simps [simp del]

definition p_delimited ::
    "token_kind \<Rightarrow> token_kind \<Rightarrow> (parser \<Rightarrow> fault + ('a \<times> parser)) \<Rightarrow> parser \<Rightarrow> fault + ('a list \<times> parser)" where
  "p_delimited open close parse st =
     and_then (p_skip open st) (\<lambda>st1.
       case p_accept close st1 of
         Some st2 \<Rightarrow> Inr ([], st2)
       | None \<Rightarrow> delimited_loop parse close [] st1)"

lemma delimited_loop_length:
  "delimited_loop parse close vs st = Inr (ws, st') \<Longrightarrow>
   (\<And>st v st'. parse st = Inr (v, st') \<Longrightarrow> length (ps_rest st') \<le> length (ps_rest st)) \<Longrightarrow>
   length (ps_rest st') < length (ps_rest st)"
proof (induction parse close vs st rule: delimited_loop.induct)
  case (1 parse close vs st)
  from "1.prems"(1) obtain v st1 where v: "parse st = Inr (v, st1)"
    by (auto simp: delimited_loop.simps [of parse close vs st] and_then_Inr_iff)
  note le = "1.prems"(2) [OF v]
  show ?case
  proof (cases "p_accept TComma st1")
    case None
    then obtain st3 where "p_skip close st1 = Inr st3" "st' = st3"
      using "1.prems"(1) v by (auto simp: delimited_loop.simps [of parse close vs st] and_then_Inr_iff)
    then show ?thesis using le p_skip_length by fastforce
  next
    case (Some st2)
    then have lt: "length (ps_rest st2) < length (ps_rest st)"
      using le p_accept_length by fastforce
    then have "delimited_loop parse close (vs @ [v]) st2 = Inr (ws, st')"
      using "1.prems"(1) v Some by (simp add: delimited_loop.simps [of parse close vs st])
    then show ?thesis
      using "1.IH" [OF v refl Some lt _ "1.prems"(2)] lt by fastforce
  qed
qed

lemma p_delimited_length:
  assumes "p_delimited open close parse st = Inr (ws, st')"
    and "\<And>st v st'. parse st = Inr (v, st') \<Longrightarrow> length (ps_rest st') \<le> length (ps_rest st)"
  shows "length (ps_rest st') < length (ps_rest st)"
proof -
  obtain st1 where st1: "p_skip open st = Inr st1"
    using assms(1) by (auto simp: p_delimited_def and_then_Inr_iff)
  show ?thesis
  proof (cases "p_accept close st1")
    case None
    then show ?thesis
      using assms st1 delimited_loop_length [of parse close "[]" st1 ws st'] p_skip_length [OF st1]
      by (simp add: p_delimited_def)
  next
    case (Some st2)
    then show ?thesis
      using assms(1) st1 p_skip_length [OF st1] p_accept_length by (fastforce simp: p_delimited_def)
  qed
qed

section \<open>Sorts\<close>

record sort_parse_frame =
  sp_name :: str
  sp_arguments :: "sort list"

text \<open>Where an iteration that has no value begins: with a finished value, or with a new frame.\<close>

datatype ('v, 'f) started = Value 'v | Frame 'f

text \<open>How an iteration ends: the loop returns, or goes on with a new state, stack and value.\<close>

datatype ('r, 's) progress = Finished 'r | Continue 's

definition sort_start :: "parser \<Rightarrow> fault + ((sort, sort_parse_frame) started \<times> parser)" where
  "sort_start st =
     and_then (p_text TId st) (\<lambda>(name, st1).
       case p_accept TLBrace st1 of
         None \<Rightarrow> Inr (Value (SortVariable name), st1)
       | Some st2 \<Rightarrow>
           (case p_accept TRBrace st2 of
              Some st3 \<Rightarrow> Inr (Value (SortApplication name []), st3)
            | None \<Rightarrow> Inr (Frame \<lparr>sp_name = name, sp_arguments = []\<rparr>, st2)))"

definition sort_advance ::
    "parser \<Rightarrow> sort_parse_frame list \<Rightarrow> sort \<Rightarrow>
     fault + (sort \<times> parser, parser \<times> sort_parse_frame list \<times> sort option) progress" where
  "sort_advance st stack s =
     (case stack of
        [] \<Rightarrow> Inr (Finished (s, st))
      | frame # stack' \<Rightarrow>
          (let frame = frame\<lparr>sp_arguments := sp_arguments frame @ [s]\<rparr> in
           case p_accept TComma st of
             Some st1 \<Rightarrow> Inr (Continue (st1, frame # stack', None))
           | None \<Rightarrow>
               and_then (p_skip TRBrace st) (\<lambda>st1.
                 Inr (Continue (st1, stack', Some (SortApplication (sp_name frame) (sp_arguments frame)))))))"

definition sort_step ::
    "parser \<Rightarrow> sort_parse_frame list \<Rightarrow> sort option \<Rightarrow>
     fault + (sort \<times> parser, parser \<times> sort_parse_frame list \<times> sort option) progress" where
  "sort_step st stack val =
     (case val of
        Some s \<Rightarrow> sort_advance st stack s
      | None \<Rightarrow>
          and_then (sort_start st) (\<lambda>(started, st1).
            case started of
              Frame frame \<Rightarrow> Inr (Continue (st1, frame # stack, None))
            | Value s \<Rightarrow> sort_advance st1 stack s))"

lemma sort_start_length: "sort_start st = Inr (r, st') \<Longrightarrow> length (ps_rest st') < length (ps_rest st)"
  by (auto simp: sort_start_def elim!: and_thenE split: option.split_asm
      dest!: p_accept_length p_text_length)

lemma sort_advance_length:
  "sort_advance st stack s = Inr (Continue (st', stack', val)) \<Longrightarrow> length (ps_rest st') < length (ps_rest st)"
  by (auto simp: sort_advance_def Let_def elim!: and_thenE split: list.split_asm option.split_asm
      dest!: p_accept_length p_skip_length)

lemma sort_step_length:
  "sort_step st stack val = Inr (Continue (st', stack', val')) \<Longrightarrow>
   length (ps_rest st') < length (ps_rest st)"
  by (cases val)
    (auto simp: sort_step_def elim!: and_thenE split: started.split_asm
      dest!: sort_advance_length sort_start_length)

function sort_loop :: "parser \<Rightarrow> sort_parse_frame list \<Rightarrow> sort option \<Rightarrow> fault + (sort \<times> parser)" where
  "sort_loop st stack val =
     (case sort_step st stack val of
        Inl e \<Rightarrow> Inl e
      | Inr (Finished r) \<Rightarrow> Inr r
      | Inr (Continue (st', stack', val')) \<Rightarrow> sort_loop st' stack' val')"
  by pat_completeness auto
termination
  by (relation "measure (\<lambda>(st, _, _). length (ps_rest st))") (auto dest: sort_step_length)

declare sort_loop.simps [simp del]

definition p_sort :: "parser \<Rightarrow> fault + (sort \<times> parser)" where
  "p_sort st = sort_loop st [] None"

definition p_sort_variables :: "parser \<Rightarrow> fault + (str list \<times> parser)" where
  "p_sort_variables st = p_delimited TLBrace TRBrace (p_text TId) st"

definition p_symbol :: "parser \<Rightarrow> fault + (symbol \<times> parser)" where
  "p_symbol st =
     and_then (p_text TId st) (\<lambda>(name, st1).
     and_then (p_delimited TLBrace TRBrace p_sort st1) (\<lambda>(sorts, st2).
       Inr (\<lparr>symbol_name = name, sort_parameters = sorts\<rparr>, st2)))"

definition p_one_sort :: "parser \<Rightarrow> fault + (sort \<times> parser)" where
  "p_one_sort st =
     and_then (p_skip TLBrace st) (\<lambda>st1.
     and_then (p_sort st1) (\<lambda>(s, st2).
     and_then (p_skip TRBrace st2) (\<lambda>st3. Inr (s, st3))))"

definition p_two_sorts :: "parser \<Rightarrow> fault + ((sort \<times> sort) \<times> parser)" where
  "p_two_sorts st =
     and_then (p_skip TLBrace st) (\<lambda>st1.
     and_then (p_sort st1) (\<lambda>(operand, st2).
     and_then (p_skip TComma st2) (\<lambda>st3.
     and_then (p_sort st3) (\<lambda>(result, st4).
     and_then (p_skip TRBrace st4) (\<lambda>st5. Inr ((operand, result), st5))))))"

definition p_variable :: "variable_kind \<Rightarrow> parser \<Rightarrow> fault + (variable \<times> parser)" where
  "p_variable kind st =
     and_then (p_text (case kind of Element \<Rightarrow> TId | SetVar \<Rightarrow> TSetVarId) st) (\<lambda>(name, st1).
     and_then (p_skip TColon st1) (\<lambda>st2.
     and_then (p_sort st2) (\<lambda>(s, st3).
       Inr (\<lparr>var_kind = kind, var_name = name, var_sort = s\<rparr>, st3))))"

lemma sort_advance_Finished:
  "sort_advance st stack s = Inr (Finished (s', st')) \<Longrightarrow> stack = [] \<and> s' = s \<and> st' = st"
  by (auto simp: sort_advance_def Let_def elim!: and_thenE split: list.split_asm option.split_asm)

lemma sort_loop_length:
  "sort_loop st stack val = Inr (s, st') \<Longrightarrow>
   length (ps_rest st') \<le> length (ps_rest st) \<and> (val = None \<longrightarrow> length (ps_rest st') < length (ps_rest st))"
proof (induction st stack val rule: sort_loop.induct)
  case (1 st stack val)
  show ?case
  proof (cases "sort_step st stack val")
    case (Inl e)
    then show ?thesis using "1.prems" by (simp add: sort_loop.simps [of st])
  next
    case (Inr q)
    show ?thesis
    proof (cases q)
      case (Finished r)
      then have "sort_step st stack val = Inr (Finished (s, st'))"
        using "1.prems" Inr by (simp add: sort_loop.simps [of st])
      then show ?thesis
        by (cases val) (auto simp: sort_step_def elim!: and_thenE split: started.split_asm
            dest!: sort_advance_Finished sort_start_length)
    next
      case (Continue c)
      obtain st1 stack1 v1 where c: "c = (st1, stack1, v1)" by (cases c)
      then have "sort_loop st1 stack1 v1 = Inr (s, st')"
        using "1.prems" Inr Continue by (simp add: sort_loop.simps [of st])
      then have "length (ps_rest st') \<le> length (ps_rest st1)"
        using "1.IH" [OF Inr Continue c [symmetric] refl] c by auto
      then show ?thesis
        using sort_step_length [of st stack val st1 stack1 v1] Inr Continue c by simp
    qed
  qed
qed

lemma p_sort_length: "p_sort st = Inr (s, st') \<Longrightarrow> length (ps_rest st') < length (ps_rest st)"
  using sort_loop_length unfolding p_sort_def by blast

lemma p_symbol_length: "p_symbol st = Inr (s, st') \<Longrightarrow> length (ps_rest st') < length (ps_rest st)"
  by (fastforce simp: p_symbol_def and_then_Inr_iff dest: p_text_length p_delimited_length less_imp_le [OF p_sort_length])

lemma p_one_sort_length: "p_one_sort st = Inr (s, st') \<Longrightarrow> length (ps_rest st') < length (ps_rest st)"
  by (fastforce simp: p_one_sort_def and_then_Inr_iff dest: p_skip_length p_sort_length)

lemma p_two_sorts_length: "p_two_sorts st = Inr (s, st') \<Longrightarrow> length (ps_rest st') < length (ps_rest st)"
  by (fastforce simp: p_two_sorts_def and_then_Inr_iff dest: p_skip_length p_sort_length)

lemma p_variable_length: "p_variable kind st = Inr (v, st') \<Longrightarrow> length (ps_rest st') < length (ps_rest st)"
  by (fastforce simp: p_variable_def and_then_Inr_iff dest: p_skip_length p_sort_length p_text_length)

end
