(* ===== verification/Kore_Pattern_Parser.thy ===== *)
theory Kore_Pattern_Parser
  imports Kore_Parser
begin

text \<open>
  The parser of patterns (\<open>kore/parser/pattern.rs\<close>): the start of a pattern, the frames of the
  constructs that have operands, one iteration of the loop (\<open>pattern_step\<close>), and the loop. The
  operands of a frame are in reading order.
\<close>

section \<open>Frames\<close>

datatype head =
    HApplication symbol
  | HAnd sort
  | HOr sort
  | HUnary token_kind sort
  | HBinary token_kind sort
  | HQuantifier token_kind sort variable
  | HFixpoint token_kind variable
  | HRoundPredicate token_kind sort sort
  | HBinaryPredicate token_kind sort sort
  | HAssociativeApplication associativity symbol
  | HAssociativeOr associativity sort

datatype arity = Variadic | Exact nat

record pattern_frame =
  pf_head :: head
  pf_arguments :: "pattern list"
  pf_arity :: arity
  pf_outer_close :: bool

definition exact_frame :: "head \<Rightarrow> nat \<Rightarrow> pattern_frame" where
  "exact_frame head n =
     \<lparr>pf_head = head, pf_arguments = [], pf_arity = Exact n, pf_outer_close = False\<rparr>"

text \<open>\<open>fold_associative_or\<close>; an empty list is the panic of its \<open>expect\<close>.\<close>

definition fold_associative_or :: "associativity \<Rightarrow> sort \<Rightarrow> pattern list \<Rightarrow> fault + pattern" where
  "fold_associative_or a s arguments =
     (case a of
        LeftAssoc \<Rightarrow>
          (case arguments of
             [] \<Rightarrow> Inl Panic
           | first # rest \<Rightarrow> Inr (foldl (\<lambda>left right. POr s [left, right]) first rest))
      | RightAssoc \<Rightarrow>
          (case List.rev arguments of
             [] \<Rightarrow> Inl Panic
           | final # rest \<Rightarrow> Inr (foldl (\<lambda>right left. POr s [left, right]) final rest)))"

text \<open>The operands that a head of fixed arity takes from the front of the list.\<close>

fun one_argument :: "pattern list \<Rightarrow> (pattern \<Rightarrow> fault + pattern) \<Rightarrow> fault + pattern" where
  "one_argument (p # _) f = f p"
| "one_argument [] f = Inl Panic"

fun two_arguments :: "pattern list \<Rightarrow> (pattern \<Rightarrow> pattern \<Rightarrow> fault + pattern) \<Rightarrow> fault + pattern" where
  "two_arguments (p # q # _) f = f p q"
| "two_arguments _ f = Inl Panic"

text \<open>\<open>Head::finish\<close>.\<close>

fun finish_head :: "head \<Rightarrow> pattern list \<Rightarrow> nat \<Rightarrow> fault + pattern" where
  "finish_head (HApplication symb) args offset = Inr (PApplication symb args)"
| "finish_head (HAnd s) args offset = Inr (PAnd s args)"
| "finish_head (HOr s) args offset = Inr (POr s args)"
| "finish_head (HUnary kind s) args offset =
     (if kind = TMlNot then one_argument args (\<lambda>p. Inr (PNot s p))
      else if kind = TMlNext then one_argument args (\<lambda>p. Inr (PNext s p))
      else Inl Panic)"
| "finish_head (HBinary kind s) args offset =
     two_arguments args (\<lambda>l r.
       if kind = TMlImplies then Inr (PImplies s l r)
       else if kind = TMlIff then Inr (PIff s l r)
       else if kind = TMlRewrites then Inr (PRewrites s l r)
       else Inl Panic)"
| "finish_head (HQuantifier kind s v) args offset =
     one_argument args (\<lambda>body.
       if kind = TMlExists then Inr (PExists s v body)
       else if kind = TMlForall then Inr (PForall s v body)
       else Inl Panic)"
| "finish_head (HFixpoint kind v) args offset =
     one_argument args (\<lambda>body.
       if kind = TMlMu then Inr (PMu v body)
       else if kind = TMlNu then Inr (PNu v body)
       else Inl Panic)"
| "finish_head (HRoundPredicate kind s t) args offset =
     one_argument args (\<lambda>p.
       if kind = TMlCeil then Inr (PCeil s t p)
       else if kind = TMlFloor then Inr (PFloor s t p)
       else Inl Panic)"
| "finish_head (HBinaryPredicate kind s t) args offset =
     two_arguments args (\<lambda>l r.
       if kind = TMlEquals then Inr (PEquals s t l r)
       else if kind = TMlIn then Inr (PIn s t l r)
       else Inl Panic)"
| "finish_head (HAssociativeApplication a symb) args offset =
     (if args = [] then fail offset (lit ''associative application requires at least one argument'')
      else Inr (PAssociative a symb args))"
| "finish_head (HAssociativeOr a s) args offset =
     (if args = [] then fail offset (lit ''associative application requires at least one argument'')
      else fold_associative_or a s args)"

section \<open>The start of a pattern\<close>

type_synonym pattern_started = "(pattern, pattern_frame) started"

definition p_fixed :: "head \<Rightarrow> nat \<Rightarrow> parser \<Rightarrow> fault + (pattern_started \<times> parser)" where
  "p_fixed head n st = and_then (p_skip TLParen st) (\<lambda>st1. Inr (Frame (exact_frame head n), st1))"

definition p_variadic :: "head \<Rightarrow> bool \<Rightarrow> parser \<Rightarrow> fault + (pattern_started \<times> parser)" where
  "p_variadic head outer_close st =
     and_then (p_skip TLParen st) (\<lambda>st1.
       case p_accept TRParen st1 of
         Some st2 \<Rightarrow>
           and_then (if outer_close then p_skip TRParen st2 else Inr st2) (\<lambda>st3.
           and_then (finish_head head [] (p_offset st3)) (\<lambda>p. Inr (Value p, st3)))
       | None \<Rightarrow>
           Inr (Frame \<lparr>pf_head = head, pf_arguments = [], pf_arity = Variadic, pf_outer_close = outer_close\<rparr>,
             st1))"

definition p_string_value :: "literal_encoding \<Rightarrow> parser \<Rightarrow> fault + (kore_string \<times> parser)" where
  "p_string_value enc st =
     and_then (p_expect st TString) (\<lambda>(t, st1).
       case unquote_as (tok_text t) enc of
         Inl e \<Rightarrow> fail (tok_offset t + se_offset e) (lit (se_message e))
       | Inr v \<Rightarrow> Inr (v, st1))"

definition p_string_pattern :: "parser \<Rightarrow> fault + (pattern \<times> parser)" where
  "p_string_pattern st =
     and_then (p_expect st TString) (\<lambda>(t, st1).
       case unquote (tok_text t) of
         Inl e \<Rightarrow> fail (tok_offset t + se_offset e) (lit (se_message e))
       | Inr v \<Rightarrow> Inr (PString v, st1))"

definition p_variable_follows :: "parser \<Rightarrow> bool" where
  "p_variable_follows st = (case ps_rest st of _ # t # _ \<Rightarrow> tok_kind t = TColon | _ \<Rightarrow> False)"

definition p_domain_value :: "parser \<Rightarrow> fault + (pattern \<times> parser)" where
  "p_domain_value st =
     and_then (p_skip TMlDv st) (\<lambda>st1.
     and_then (p_one_sort st1) (\<lambda>(s, st2).
     and_then (p_skip TLParen st2) (\<lambda>st3.
     and_then (p_string_value (of_domain_value s) st3) (\<lambda>(v, st4).
     and_then (p_skip TRParen st4) (\<lambda>st5. Inr (PDomainValue s v, st5))))))"

definition p_associative :: "associativity \<Rightarrow> parser \<Rightarrow> fault + (pattern_started \<times> parser)" where
  "p_associative a st =
     and_then (p_skip (if a = LeftAssoc then TMlLeftAssoc else TMlRightAssoc) st) (\<lambda>st1.
     and_then (p_skip TLBrace st1) (\<lambda>st2.
     and_then (p_skip TRBrace st2) (\<lambda>st3.
     and_then (p_skip TLParen st3) (\<lambda>st4.
       case p_consume st4 TMlOr of
         (Some or_token, st5) \<Rightarrow>
           and_then (p_delimited TLBrace TRBrace p_sort st5) (\<lambda>(sorts, st6).
             case sorts of
               [s] \<Rightarrow> p_variadic (HAssociativeOr a s) True st6
             | _ \<Rightarrow> fail (tok_offset or_token)
                 (ml ''or under associative syntax requires exactly one sort parameter''))
       | (None, _) \<Rightarrow>
           and_then (p_symbol st4) (\<lambda>(symb, st5).
             p_variadic (HAssociativeApplication a symb) True st5)))))"

definition p_value :: "fault + (pattern \<times> parser) \<Rightarrow> fault + (pattern_started \<times> parser)" where
  "p_value r = and_then r (\<lambda>(p, st). Inr (Value p, st))"

definition p_constant :: "token_kind \<Rightarrow> (sort \<Rightarrow> pattern) \<Rightarrow> parser \<Rightarrow> fault + (pattern_started \<times> parser)" where
  "p_constant kind f st =
     and_then (p_skip kind st) (\<lambda>st1.
     and_then (p_one_sort st1) (\<lambda>(s, st2).
     and_then (p_skip TLParen st2) (\<lambda>st3.
     and_then (p_skip TRParen st3) (\<lambda>st4. Inr (Value (f s), st4)))))"

definition p_quantifier :: "token_kind \<Rightarrow> parser \<Rightarrow> fault + (pattern_started \<times> parser)" where
  "p_quantifier kind st =
     and_then (p_skip kind st) (\<lambda>st1.
     and_then (p_one_sort st1) (\<lambda>(s, st2).
     and_then (p_skip TLParen st2) (\<lambda>st3.
     and_then (p_variable Element st3) (\<lambda>(v, st4).
     and_then (p_skip TComma st4) (\<lambda>st5.
       Inr (Frame (exact_frame (HQuantifier kind s v) 1), st5))))))"

definition p_fixpoint :: "token_kind \<Rightarrow> parser \<Rightarrow> fault + (pattern_started \<times> parser)" where
  "p_fixpoint kind st =
     and_then (p_skip kind st) (\<lambda>st1.
     and_then (p_skip TLBrace st1) (\<lambda>st2.
     and_then (p_skip TRBrace st2) (\<lambda>st3.
     and_then (p_skip TLParen st3) (\<lambda>st4.
     and_then (p_variable SetVar st4) (\<lambda>(v, st5).
     and_then (p_skip TComma st5) (\<lambda>st6.
       Inr (Frame (exact_frame (HFixpoint kind v) 1), st6)))))))"

definition p_sorted :: "token_kind \<Rightarrow> (sort \<Rightarrow> parser \<Rightarrow> fault + (pattern_started \<times> parser)) \<Rightarrow>
    parser \<Rightarrow> fault + (pattern_started \<times> parser)" where
  "p_sorted kind cont st =
     and_then (p_skip kind st) (\<lambda>st1. and_then (p_one_sort st1) (\<lambda>(s, st2). cont s st2))"

definition p_two_sorted :: "token_kind \<Rightarrow> (sort \<Rightarrow> sort \<Rightarrow> parser \<Rightarrow> fault + (pattern_started \<times> parser)) \<Rightarrow>
    parser \<Rightarrow> fault + (pattern_started \<times> parser)" where
  "p_two_sorted kind cont st =
     and_then (p_skip kind st) (\<lambda>st1. and_then (p_two_sorts st1) (\<lambda>((s, t), st2). cont s t st2))"

definition start_pattern :: "parser \<Rightarrow> fault + (pattern_started \<times> parser)" where
  "start_pattern st =
     (case p_peek st of
        None \<Rightarrow> p_expected st TId
      | Some token \<Rightarrow>
          (let kind = tok_kind token in
           if kind = TString then p_value (p_string_pattern st)
           else if kind = TId \<and> p_variable_follows st then
             p_value (and_then (p_variable Element st) (\<lambda>(v, st1). Inr (PVariable v, st1)))
           else if kind = TId then
             and_then (p_symbol st) (\<lambda>(symb, st1). p_variadic (HApplication symb) False st1)
           else if kind = TSetVarId then
             p_value (and_then (p_variable SetVar st) (\<lambda>(v, st1). Inr (PVariable v, st1)))
           else if kind = TMlTop \<or> kind = TMlBottom then
             p_constant kind (if kind = TMlTop then PTop else PBottom) st
           else if kind = TMlAnd \<or> kind = TMlOr then
             p_sorted kind (\<lambda>s. p_variadic (if kind = TMlAnd then HAnd s else HOr s) False) st
           else if kind = TMlNot \<or> kind = TMlNext then
             p_sorted kind (\<lambda>s. p_fixed (HUnary kind s) 1) st
           else if kind = TMlImplies \<or> kind = TMlIff \<or> kind = TMlRewrites then
             p_sorted kind (\<lambda>s. p_fixed (HBinary kind s) 2) st
           else if kind = TMlExists \<or> kind = TMlForall then p_quantifier kind st
           else if kind = TMlMu \<or> kind = TMlNu then p_fixpoint kind st
           else if kind = TMlCeil \<or> kind = TMlFloor then
             p_two_sorted kind (\<lambda>s t. p_fixed (HRoundPredicate kind s t) 1) st
           else if kind = TMlEquals \<or> kind = TMlIn then
             p_two_sorted kind (\<lambda>s t. p_fixed (HBinaryPredicate kind s t) 2) st
           else if kind = TMlDv then p_value (p_domain_value st)
           else if kind = TMlLeftAssoc \<or> kind = TMlRightAssoc then
             p_associative (if kind = TMlLeftAssoc then LeftAssoc else RightAssoc) st
           else fail (tok_offset token) (lit ''expected pattern, found '' @ token_kind_text kind)))"

section \<open>The loop\<close>

definition pattern_complete :: "pattern_frame \<Rightarrow> parser \<Rightarrow> fault + (bool \<times> parser)" where
  "pattern_complete frame st =
     (case pf_arity frame of
        Variadic \<Rightarrow>
          (case p_accept TComma st of
             Some st1 \<Rightarrow> Inr (False, st1)
           | None \<Rightarrow> Inr (True, st))
      | Exact n \<Rightarrow>
          if length (pf_arguments frame) < n
          then and_then (p_skip TComma st) (\<lambda>st1. Inr (False, st1))
          else Inr (True, st))"

definition pattern_advance ::
    "parser \<Rightarrow> pattern_frame list \<Rightarrow> pattern \<Rightarrow>
     fault + (pattern \<times> parser, parser \<times> pattern_frame list \<times> pattern option) progress" where
  "pattern_advance st stack p =
     (case stack of
        [] \<Rightarrow> Inr (Finished (p, st))
      | frame # stack' \<Rightarrow>
          (let frame = frame\<lparr>pf_arguments := pf_arguments frame @ [p]\<rparr> in
           and_then (pattern_complete frame st) (\<lambda>(complete, st1).
             if \<not> complete then Inr (Continue (st1, frame # stack', None))
             else
               and_then (p_skip TRParen st1) (\<lambda>st2.
               and_then (if pf_outer_close frame then p_skip TRParen st2 else Inr st2) (\<lambda>st3.
               and_then (finish_head (pf_head frame) (pf_arguments frame) (p_offset st3)) (\<lambda>q.
                 Inr (Continue (st3, stack', Some q))))))))"

definition pattern_step ::
    "parser \<Rightarrow> pattern_frame list \<Rightarrow> pattern option \<Rightarrow>
     fault + (pattern \<times> parser, parser \<times> pattern_frame list \<times> pattern option) progress" where
  "pattern_step st stack val =
     (case val of
        Some p \<Rightarrow> pattern_advance st stack p
      | None \<Rightarrow>
          and_then (start_pattern st) (\<lambda>(started, st1).
            case started of
              Frame frame \<Rightarrow> Inr (Continue (st1, frame # stack, None))
            | Value p \<Rightarrow> pattern_advance st1 stack p))"

lemma p_variadic_length: "p_variadic h b st = Inr (r, st') \<Longrightarrow> length (ps_rest st') < length (ps_rest st)"
  by (auto simp: p_variadic_def elim!: and_thenE split: option.split_asm if_split_asm
      dest!: p_accept_length p_skip_length)

lemma p_fixed_length: "p_fixed h n st = Inr (r, st') \<Longrightarrow> length (ps_rest st') < length (ps_rest st)"
  by (auto simp: p_fixed_def elim!: and_thenE dest!: p_skip_length)

lemma p_string_value_length: "p_string_value enc st = Inr (r, st') \<Longrightarrow> length (ps_rest st') < length (ps_rest st)"
  by (auto simp: p_string_value_def fail_def elim!: and_thenE split: sum.split_asm dest!: p_expect_length)

lemma p_string_pattern_length: "p_string_pattern st = Inr (r, st') \<Longrightarrow> length (ps_rest st') < length (ps_rest st)"
  by (auto simp: p_string_pattern_def fail_def elim!: and_thenE split: sum.split_asm dest!: p_expect_length)

lemma p_domain_value_length: "p_domain_value st = Inr (r, st') \<Longrightarrow> length (ps_rest st') < length (ps_rest st)"
  by (auto simp: p_domain_value_def elim!: and_thenE
      dest!: p_skip_length p_one_sort_length p_string_value_length)

lemma p_sorts_length:
  "p_delimited op cl p_sort st = Inr (ss, st') \<Longrightarrow> length (ps_rest st') < length (ps_rest st)"
  by (erule p_delimited_length) (auto dest: p_sort_length)

lemma p_associative_length: "p_associative a st = Inr (r, st') \<Longrightarrow> length (ps_rest st') < length (ps_rest st)"
  by (auto simp: p_associative_def fail_def elim!: and_thenE
      split: prod.split_asm option.split_asm list.split_asm
      dest!: p_skip_length p_consume_length p_symbol_length p_variadic_length
        p_sorts_length)

lemma p_expected_Inr [simp]: "p_expected st kind \<noteq> Inr r"
  by (simp add: p_expected_def fail_def split: option.split)

lemma start_pattern_length:
  "start_pattern st = Inr (r, st') \<Longrightarrow> length (ps_rest st') < length (ps_rest st)"
  unfolding start_pattern_def
  by (cases "p_peek st")
    (auto simp: p_value_def p_constant_def p_sorted_def p_quantifier_def p_fixpoint_def p_two_sorted_def
      fail_def Let_def elim!: and_thenE split: if_split_asm
      dest!: p_skip_length p_one_sort_length p_two_sorts_length p_variable_length p_symbol_length
        p_variadic_length p_fixed_length p_string_pattern_length p_domain_value_length
        p_associative_length)

lemma pattern_complete_length:
  "pattern_complete frame st = Inr (c, st') \<Longrightarrow>
   length (ps_rest st') \<le> length (ps_rest st) \<and> (\<not> c \<longrightarrow> length (ps_rest st') < length (ps_rest st))"
  by (auto simp: pattern_complete_def elim!: and_thenE split: arity.split_asm option.split_asm if_split_asm
      dest!: p_accept_length p_skip_length)

lemma pattern_advance_length:
  "pattern_advance st stack p = Inr (Continue (st', stack', val)) \<Longrightarrow>
   length (ps_rest st') < length (ps_rest st)"
  by (auto simp: pattern_advance_def Let_def elim!: and_thenE split: list.split_asm if_split_asm
      dest!: pattern_complete_length p_skip_length)

lemma pattern_step_length:
  "pattern_step st stack val = Inr (Continue (st', stack', val')) \<Longrightarrow>
   length (ps_rest st') < length (ps_rest st)"
  by (cases val)
    (auto simp: pattern_step_def elim!: and_thenE split: started.split_asm
      dest!: pattern_advance_length start_pattern_length)

function pattern_loop :: "parser \<Rightarrow> pattern_frame list \<Rightarrow> pattern option \<Rightarrow> fault + (pattern \<times> parser)" where
  "pattern_loop st stack val =
     (case pattern_step st stack val of
        Inl e \<Rightarrow> Inl e
      | Inr (Finished r) \<Rightarrow> Inr r
      | Inr (Continue (st', stack', val')) \<Rightarrow> pattern_loop st' stack' val')"
  by pat_completeness auto
termination
  by (relation "measure (\<lambda>(st, _, _). length (ps_rest st))") (auto dest: pattern_step_length)

declare pattern_loop.simps [simp del]

definition p_pattern :: "parser \<Rightarrow> fault + (pattern \<times> parser)" where
  "p_pattern st = pattern_loop st [] None"

lemma pattern_advance_Finished:
  "pattern_advance st stack p = Inr (Finished (p', st')) \<Longrightarrow> stack = [] \<and> p' = p \<and> st' = st"
  by (auto simp: pattern_advance_def Let_def elim!: and_thenE split: list.split_asm if_split_asm)

lemma pattern_loop_length:
  "pattern_loop st stack val = Inr (p, st') \<Longrightarrow>
   length (ps_rest st') \<le> length (ps_rest st) \<and> (val = None \<longrightarrow> length (ps_rest st') < length (ps_rest st))"
proof (induction st stack val rule: pattern_loop.induct)
  case (1 st stack val)
  show ?case
  proof (cases "pattern_step st stack val")
    case (Inl e)
    then show ?thesis using "1.prems" by (simp add: pattern_loop.simps [of st])
  next
    case (Inr q)
    show ?thesis
    proof (cases q)
      case (Finished r)
      then have "pattern_step st stack val = Inr (Finished (p, st'))"
        using "1.prems" Inr by (simp add: pattern_loop.simps [of st])
      then show ?thesis
        by (cases val) (auto simp: pattern_step_def elim!: and_thenE split: started.split_asm
            dest!: pattern_advance_Finished start_pattern_length)
    next
      case (Continue c)
      obtain st1 stack1 v1 where c: "c = (st1, stack1, v1)" by (cases c)
      then have "pattern_loop st1 stack1 v1 = Inr (p, st')"
        using "1.prems" Inr Continue by (simp add: pattern_loop.simps [of st])
      then have "length (ps_rest st') \<le> length (ps_rest st1)"
        using "1.IH" [OF Inr Continue c [symmetric] refl] c by auto
      then show ?thesis
        using pattern_step_length [of st stack val st1 stack1 v1] Inr Continue c by simp
    qed
  qed
qed

lemma p_pattern_length: "p_pattern st = Inr (p, st') \<Longrightarrow> length (ps_rest st') < length (ps_rest st)"
  using pattern_loop_length unfolding p_pattern_def by blast

end
