(* ===== verification/Kore_Definition_Parser.thy ===== *)
theory Kore_Definition_Parser
  imports Kore_Pattern_Parser
begin

text \<open>
  The parsers of sentences, modules and definitions (\<open>kore/parser/sentence.rs\<close>,
  \<open>definition.rs\<close>) and the four entry points of \<open>kore/parser/mod.rs\<close>.
\<close>

section \<open>Sentences\<close>

definition p_attributes :: "parser \<Rightarrow> fault + (attributes \<times> parser)" where
  "p_attributes st = p_delimited TLBracket TRBracket p_pattern st"

definition p_import :: "parser \<Rightarrow> fault + (sentence \<times> parser)" where
  "p_import st =
     and_then (p_skip TImport st) (\<lambda>st1.
     and_then (p_text TId st1) (\<lambda>(name, st2).
     and_then (p_attributes st2) (\<lambda>(attrs, st3). Inr (Import name attrs, st3))))"

definition p_sort_declaration :: "bool \<Rightarrow> parser \<Rightarrow> fault + (sentence \<times> parser)" where
  "p_sort_declaration hooked st =
     and_then (p_skip (if hooked then THookedSort else TSort) st) (\<lambda>st1.
     and_then (p_text TId st1) (\<lambda>(name, st2).
     and_then (p_sort_variables st2) (\<lambda>(params, st3).
     and_then (p_attributes st3) (\<lambda>(attrs, st4).
       Inr (SortDeclaration hooked name params attrs, st4)))))"

definition p_symbol_declaration :: "bool \<Rightarrow> parser \<Rightarrow> fault + (sentence \<times> parser)" where
  "p_symbol_declaration hooked st =
     and_then (p_skip (if hooked then THookedSymbol else TSymbol) st) (\<lambda>st1.
     and_then (p_symbol st1) (\<lambda>(symb, st2).
     and_then (p_delimited TLParen TRParen p_sort st2) (\<lambda>(arg_sorts, st3).
     and_then (p_skip TColon st3) (\<lambda>st4.
     and_then (p_sort st4) (\<lambda>(result, st5).
     and_then (p_attributes st5) (\<lambda>(attrs, st6).
       Inr (SymbolDeclaration hooked symb arg_sorts result attrs, st6)))))))"

definition p_alias_left_variable :: "parser \<Rightarrow> fault + (pattern \<times> parser)" where
  "p_alias_left_variable st =
     (case ps_rest st of
        [] \<Rightarrow> fail (ps_len st) (lit ''expected variable in alias left-hand side, found end of input'')
      | token # rest \<Rightarrow>
          if tok_kind token \<noteq> TId \<and> tok_kind token \<noteq> TSetVarId then
            fail (tok_offset token)
              (lit ''expected variable in alias left-hand side, found '' @ token_kind_text (tok_kind token))
          else if (case rest of next # _ \<Rightarrow> tok_kind next \<noteq> TColon | [] \<Rightarrow> True) then
            (let offending = (case rest of next # _ \<Rightarrow> next | [] \<Rightarrow> token)
             in fail (tok_offset offending)
                 (lit ''expected variable in alias left-hand side, found '' @ token_kind_text (tok_kind offending)))
          else
            and_then (p_variable (if tok_kind token = TId then Element else SetVar) st)
              (\<lambda>(v, st1). Inr (PVariable v, st1)))"

definition p_alias_declaration :: "parser \<Rightarrow> fault + (sentence \<times> parser)" where
  "p_alias_declaration st =
     and_then (p_skip TAlias st) (\<lambda>st1.
     and_then (p_symbol st1) (\<lambda>(alias_symbol, st2).
     and_then (p_delimited TLParen TRParen p_sort st2) (\<lambda>(arg_sorts, st3).
     and_then (p_skip TColon st3) (\<lambda>st4.
     and_then (p_sort st4) (\<lambda>(result, st5).
     and_then (p_skip TWhere st5) (\<lambda>st6.
     and_then (p_symbol st6) (\<lambda>(symb, st7).
     and_then (p_delimited TLParen TRParen p_alias_left_variable st7) (\<lambda>(args, st8).
     and_then (p_skip TWalrus st8) (\<lambda>st9.
     and_then (p_pattern st9) (\<lambda>(right, st10).
     and_then (p_attributes st10) (\<lambda>(attrs, st11).
       Inr (AliasDeclaration alias_symbol arg_sorts result (PApplication symb args) right attrs,
         st11))))))))))))"

definition p_axiom :: "bool \<Rightarrow> parser \<Rightarrow> fault + (sentence \<times> parser)" where
  "p_axiom claim st =
     and_then (p_skip (if claim then TClaim else TAxiom) st) (\<lambda>st1.
     and_then (p_sort_variables st1) (\<lambda>(params, st2).
     and_then (p_pattern st2) (\<lambda>(p, st3).
     and_then (p_attributes st3) (\<lambda>(attrs, st4).
       Inr (if claim then Claim params p attrs else Axiom params p attrs, st4)))))"

definition p_sentence :: "parser \<Rightarrow> fault + (sentence \<times> parser)" where
  "p_sentence st =
     (case p_peek st of
        None \<Rightarrow> p_expected st TImport
      | Some token \<Rightarrow>
          (let kind = tok_kind token in
           if kind = TImport then p_import st
           else if kind = TSort then p_sort_declaration False st
           else if kind = THookedSort then p_sort_declaration True st
           else if kind = TSymbol then p_symbol_declaration False st
           else if kind = THookedSymbol then p_symbol_declaration True st
           else if kind = TAlias then p_alias_declaration st
           else if kind = TAxiom then p_axiom False st
           else if kind = TClaim then p_axiom True st
           else fail (tok_offset token) (lit ''expected sentence, found '' @ token_kind_text kind)))"

lemma p_attributes_length: "p_attributes st = Inr (r, st') \<Longrightarrow> length (ps_rest st') < length (ps_rest st)"
  unfolding p_attributes_def by (erule p_delimited_length) (auto dest: p_pattern_length)

lemma p_sort_variables_length: "p_sort_variables st = Inr (r, st') \<Longrightarrow> length (ps_rest st') < length (ps_rest st)"
  unfolding p_sort_variables_def by (erule p_delimited_length) (auto dest: p_text_length)

lemma p_alias_left_variable_length:
  "p_alias_left_variable st = Inr (r, st') \<Longrightarrow> length (ps_rest st') < length (ps_rest st)"
  by (auto simp: p_alias_left_variable_def fail_def Let_def elim!: and_thenE
      split: list.split_asm if_split_asm dest!: p_variable_length)

lemma p_alias_left_variables_length:
  "p_delimited op cl p_alias_left_variable st = Inr (ss, st') \<Longrightarrow> length (ps_rest st') < length (ps_rest st)"
  by (erule p_delimited_length) (auto dest: p_alias_left_variable_length)

lemma p_alias_declaration_length:
  "p_alias_declaration st = Inr (r, st') \<Longrightarrow> length (ps_rest st') < length (ps_rest st)"
  by (auto simp: p_alias_declaration_def elim!: and_thenE
      dest!: p_skip_length p_text_length p_attributes_length p_symbol_length p_sort_length
        p_sorts_length p_pattern_length p_alias_left_variables_length)

lemma p_sentence_length: "p_sentence st = Inr (r, st') \<Longrightarrow> length (ps_rest st') < length (ps_rest st)"
  unfolding p_sentence_def
  by (cases "p_peek st")
    (auto simp: p_import_def p_sort_declaration_def p_symbol_declaration_def p_axiom_def fail_def Let_def
      elim!: and_thenE split: if_split_asm
      dest!: p_skip_length p_text_length p_attributes_length p_sort_variables_length p_symbol_length
        p_sort_length p_sorts_length p_pattern_length p_alias_declaration_length)

section \<open>Modules and definitions\<close>

function sentences_loop :: "sentence list \<Rightarrow> parser \<Rightarrow> fault + (sentence list \<times> parser)" where
  "sentences_loop sentences st =
     (if p_at st TEndModule then Inr (sentences, st)
      else if p_peek st = None then p_expected st TEndModule
      else and_then (p_sentence st) (\<lambda>(s, st1). sentences_loop (sentences @ [s]) st1))"
  by pat_completeness auto
termination
  by (relation "measure (\<lambda>(_, st). length (ps_rest st))") (auto dest: p_sentence_length)

declare sentences_loop.simps [simp del]

definition p_module :: "parser \<Rightarrow> fault + (kore_module \<times> parser)" where
  "p_module st =
     and_then (p_skip TModule st) (\<lambda>st1.
     and_then (p_text TId st1) (\<lambda>(name, st2).
     and_then (sentences_loop [] st2) (\<lambda>(sentences, st3).
     and_then (p_skip TEndModule st3) (\<lambda>st4.
     and_then (p_attributes st4) (\<lambda>(attrs, st5).
       Inr (\<lparr>mod_name = name, mod_sentences = sentences, mod_attributes = attrs\<rparr>, st5))))))"

lemma sentences_loop_length:
  "sentences_loop ss st = Inr (r, st') \<Longrightarrow> length (ps_rest st') \<le> length (ps_rest st)"
proof (induction ss st rule: sentences_loop.induct)
  case (1 ss st)
  show ?case
  proof (cases "p_at st TEndModule")
    case True
    then show ?thesis using "1.prems" by (simp add: sentences_loop.simps [of ss])
  next
    case False
    have peek: "p_peek st \<noteq> None"
      using "1.prems" False by (cases "p_peek st") (simp_all add: sentences_loop.simps [of ss])
    then have "and_then (p_sentence st) (\<lambda>(s, st1). sentences_loop (ss @ [s]) st1) = Inr (r, st')"
      using "1.prems" False by (auto simp: sentences_loop.simps [of ss] split: if_split_asm)
    then obtain s st1 where s: "p_sentence st = Inr (s, st1)" "sentences_loop (ss @ [s]) st1 = Inr (r, st')"
      by (auto elim!: and_thenE)
    show ?thesis
      using "1.IH" [OF False peek s(1) refl s(2)] p_sentence_length [OF s(1)] by simp
  qed
qed

lemma p_module_length: "p_module st = Inr (m, st') \<Longrightarrow> length (ps_rest st') < length (ps_rest st)"
  by (auto simp: p_module_def elim!: and_thenE
      dest!: p_skip_length p_text_length p_attributes_length sentences_loop_length)

function modules_loop :: "kore_module list \<Rightarrow> parser \<Rightarrow> fault + (kore_module list \<times> parser)" where
  "modules_loop modules st =
     (if p_peek st = None then Inr (modules, st)
      else and_then (p_module st) (\<lambda>(m, st1). modules_loop (modules @ [m]) st1))"
  by pat_completeness auto
termination
  by (relation "measure (\<lambda>(_, st). length (ps_rest st))") (auto dest: p_module_length)

declare modules_loop.simps [simp del]

definition p_definition :: "parser \<Rightarrow> fault + (kore_definition \<times> parser)" where
  "p_definition st =
     and_then (p_attributes st) (\<lambda>(attrs, st1).
     and_then (p_module st1) (\<lambda>(m, st2).
     and_then (modules_loop [m] st2) (\<lambda>(modules, st3).
       Inr (\<lparr>definition_attributes = attrs, definition_modules = modules\<rparr>, st3))))"

section \<open>Entry points\<close>

definition new_parser :: "str \<Rightarrow> fault + parser" where
  "new_parser input =
     (case lex input of
        Inl e \<Rightarrow> fail (le_offset e) (lit (le_message e))
      | Inr tokens \<Rightarrow> Inr \<lparr>ps_rest = tokens, ps_len = str_len input\<rparr>)"

definition finish_parse :: "(parser \<Rightarrow> fault + ('a \<times> parser)) \<Rightarrow> parser \<Rightarrow> fault + 'a" where
  "finish_parse parse st =
     and_then (parse st) (\<lambda>(v, st1).
       case p_peek st1 of
         Some token \<Rightarrow>
           fail (tok_offset token) (lit ''unexpected trailing token '' @ token_kind_text (tok_kind token))
       | None \<Rightarrow> Inr v)"

definition parse_pattern :: "str \<Rightarrow> fault + pattern" where
  "parse_pattern input = and_then (new_parser input) (finish_parse p_pattern)"

definition parse_sentence :: "str \<Rightarrow> fault + sentence" where
  "parse_sentence input = and_then (new_parser input) (finish_parse p_sentence)"

definition parse_module :: "str \<Rightarrow> fault + kore_module" where
  "parse_module input = and_then (new_parser input) (finish_parse p_module)"

definition parse_definition :: "str \<Rightarrow> fault + kore_definition" where
  "parse_definition input = and_then (new_parser input) (finish_parse p_definition)"

end
