(* ===== verification/Kore_Grammar.thy ===== *)
theory Kore_Grammar
  imports Kore_Definition_Parser
begin

text \<open>
  The grammar of KORE on tokens, and the parsers of names, sorts, symbols and variables against
  it. A terminal is the kind of a token with its text, where the kind does not determine the text.
  \<open>eats ts st st'\<close> says that the parser goes from \<open>st\<close> to \<open>st'\<close> over the terminals \<open>ts\<close>. The
  interface \<open>element_parser\<close> is what \<open>delimited\<close> asks of the parser of an element: it returns a
  value exactly when the grammar derives it, never panics and takes at least one token.
\<close>

section \<open>Terminals\<close>

type_synonym terminal = "token_kind \<times> str"

definition terminal :: "token \<Rightarrow> terminal" where
  "terminal t = (tok_kind t, if spelling (tok_kind t) = None then tok_text t else [])"

abbreviation kw :: "token_kind \<Rightarrow> terminal" where
  "kw k \<equiv> (k, [])"

definition eats :: "terminal list \<Rightarrow> parser \<Rightarrow> parser \<Rightarrow> bool" where
  "eats ts st st' \<longleftrightarrow>
     (\<exists>toks. ps_rest st = toks @ ps_rest st' \<and> map terminal toks = ts) \<and> ps_len st' = ps_len st"

lemma parser_update_iff: "st\<lparr>ps_rest := ts\<rparr> = st' \<longleftrightarrow> ts = ps_rest st' \<and> ps_len st' = ps_len (st :: parser)"
  by (cases st; cases st') auto

lemma eats_Nil [simp]: "eats [] st st' \<longleftrightarrow> st' = st"
  by (cases st; cases st') (auto simp: eats_def)

lemma eats_append: "eats (ts @ us) st st' \<longleftrightarrow> (\<exists>st1. eats ts st st1 \<and> eats us st1 st')"
proof
  assume "eats (ts @ us) st st'"
  then obtain as bs where t: "ps_rest st = (as @ bs) @ ps_rest st'" "ps_len st' = ps_len st"
    "map terminal as = ts" "map terminal bs = us"
    by (auto simp: eats_def map_eq_append_conv)
  then show "\<exists>st1. eats ts st st1 \<and> eats us st1 st'"
    by (intro exI [of _ "st\<lparr>ps_rest := bs @ ps_rest st'\<rparr>"]) (auto simp: eats_def)
next
  assume "\<exists>st1. eats ts st st1 \<and> eats us st1 st'"
  then show "eats (ts @ us) st st'"
    unfolding eats_def by (metis append.assoc map_append)
qed

lemma eats_Cons:
  "NO_MATCH [] ts \<Longrightarrow> eats (x # ts) st st' \<longleftrightarrow> (\<exists>st1. eats [x] st st1 \<and> eats ts st1 st')"
  using eats_append [of "[x]" ts] by simp

lemmas eats_simps = eats_append eats_Cons

lemma eats_one:
  "eats [x] st st' \<longleftrightarrow> (\<exists>t. ps_rest st = t # ps_rest st' \<and> terminal t = x) \<and> ps_len st' = ps_len st"
  by (auto simp: eats_def map_eq_Cons_conv Cons_eq_append_conv)

lemma eats_deterministic: "eats ts st a \<Longrightarrow> eats ts st b \<Longrightarrow> a = b"
  by (cases a; cases b) (auto simp: eats_def dest: arg_cong [where f = length])

lemma eats_length: "eats ts st st' \<Longrightarrow> length (ps_rest st) = length ts + length (ps_rest st')"
  by (auto simp: eats_def)

lemma p_at_iff: "p_at st k \<longleftrightarrow> (\<exists>x st'. eats [(k, x)] st st')"
proof
  assume "p_at st k"
  then obtain t ts where "ps_rest st = t # ts" "tok_kind t = k"
    by (auto simp: p_at_def p_peek_def split: list.splits)
  then have "eats [(k, snd (terminal t))] st (st\<lparr>ps_rest := ts\<rparr>)"
    by (auto simp: eats_one terminal_def)
  then show "\<exists>x st'. eats [(k, x)] st st'" by blast
qed (auto simp: p_at_def p_peek_def eats_one terminal_def)

lemma eats_at: "eats ((k, x) # ts) st st' \<Longrightarrow> p_at st k' \<longleftrightarrow> k' = k"
  by (auto simp: eats_def p_at_def p_peek_def map_eq_Cons_conv terminal_def split: list.split)

lemma p_consume_iff:
  "p_consume st k = (Some t, st') \<longleftrightarrow> ps_rest st = t # ps_rest st' \<and> ps_len st' = ps_len st \<and> tok_kind t = k"
  by (auto simp: p_consume_def parser_update_iff split: list.splits)

lemma p_accept_iff: "p_accept k st = Some st' \<longleftrightarrow> (\<exists>t. p_consume st k = (Some t, st'))"
  by (auto simp: p_accept_def split: prod.splits option.splits)

lemma p_accept_Some: "spelling k \<noteq> None \<Longrightarrow> p_accept k st = Some st' \<longleftrightarrow> eats [kw k] st st'"
  unfolding p_accept_iff p_consume_iff eats_one terminal_def by (auto split: if_splits)

lemma p_accept_None: "p_accept k st = None \<longleftrightarrow> \<not> p_at st k"
  by (auto simp: p_accept_def p_consume_def p_at_def p_peek_def split: list.splits if_splits)

lemma p_expect_iff: "p_expect st k = Inr (t, st') \<longleftrightarrow> p_consume st k = (Some t, st')"
  by (auto simp: p_expect_def p_expected_def fail_def split: prod.splits option.splits)

lemma p_skip_consume: "p_skip k st = Inr st' \<longleftrightarrow> (\<exists>t. p_consume st k = (Some t, st'))"
  by (auto simp: p_skip_def p_expect_def p_expected_def fail_def split: prod.splits option.splits)

lemma p_text_consume: "p_text k st = Inr (x, st') \<longleftrightarrow> (\<exists>t. p_consume st k = (Some t, st') \<and> tok_text t = x)"
  by (auto simp: p_text_def p_expect_def p_expected_def fail_def split: prod.splits option.splits)

lemma p_skip_iff: "spelling k \<noteq> None \<Longrightarrow> p_skip k st = Inr st' \<longleftrightarrow> eats [kw k] st st'"
  unfolding p_skip_consume p_consume_iff eats_one terminal_def by (auto split: if_splits)

lemma p_text_iff: "spelling k = None \<Longrightarrow> p_text k st = Inr (x, st') \<longleftrightarrow> eats [(k, x)] st st'"
  unfolding p_text_consume p_consume_iff eats_one terminal_def by (auto split: if_splits)


section \<open>Failures\<close>

text \<open>A parser that may fail with an error of the source, and in no other way.\<close>

definition only_fails :: "fault + 'a \<Rightarrow> bool" where
  "only_fails r \<longleftrightarrow> (\<forall>f. r = Inl f \<longrightarrow> (\<exists>e. f = Fail e))"

lemma only_fails_simps [simp]:
  "only_fails (Inr x)" "only_fails (Inl f) \<longleftrightarrow> (\<exists>e. f = Fail e)" "only_fails (fail n m)"
  "only_fails (p_expected st k)" "only_fails (p_expect st k)" "only_fails (p_skip k st)"
  "only_fails (p_text k st)"
  by (auto simp: only_fails_def fail_def p_expected_def p_expect_def p_skip_def p_text_def and_then_Inl_iff
      split: option.splits prod.splits)

lemma only_fails_and_then [intro]:
  "only_fails m \<Longrightarrow> (\<And>x. m = Inr x \<Longrightarrow> only_fails (f x)) \<Longrightarrow> only_fails (and_then m f)"
  by (cases m) auto

lemma only_fails_cases:
  assumes "only_fails r"
  obtains (failed) e where "r = Inl (Fail e)" | (parsed) v st' where "r = Inr (v, st')"
  using assms by (cases r) (auto simp: only_fails_def)

section \<open>Lists between delimiters\<close>

fun commas :: "terminal list list \<Rightarrow> terminal list" where
  "commas [] = []"
| "commas [ts] = ts"
| "commas (ts # us # tss) = ts @ kw TComma # commas (us # tss)"

definition is_closer :: "token_kind \<Rightarrow> bool" where
  "is_closer k \<longleftrightarrow> k \<in> {TRBrace, TRParen, TRBracket}"

text \<open>
  The parser of an element: \<open>derives\<close> is its grammar and \<open>follow\<close> what it requires of the state
  after the terminals, which a comma or a closing token grants.
\<close>

locale element_parser =
  fixes parse :: "parser \<Rightarrow> fault + ('a \<times> parser)"
    and derives :: "terminal list \<Rightarrow> 'a \<Rightarrow> bool"
    and follow :: "terminal list \<Rightarrow> parser \<Rightarrow> bool"
  assumes parses: "parse st = Inr (v, st') \<longleftrightarrow> (\<exists>ts. derives ts v \<and> eats ts st st' \<and> follow ts st')"
    and clean: "only_fails (parse st)"
    and starts: "derives ts v \<Longrightarrow> \<exists>k x ts'. ts = (k, x) # ts' \<and> \<not> is_closer k"
    and follow_comma: "p_at st TComma \<Longrightarrow> follow ts st"
    and follow_closer: "is_closer k \<Longrightarrow> p_at st k \<Longrightarrow> follow ts st"
begin

lemma parse_length: "parse st = Inr (v, st') \<Longrightarrow> length (ps_rest st') < length (ps_rest st)"
  using starts by (fastforce simp: parses dest: eats_length)

lemma parse_at: "parse st = Inr (v, st') \<Longrightarrow> is_closer k \<Longrightarrow> \<not> p_at st k"
  using starts by (fastforce simp: parses eats_at)

lemma loop_step:
  "delimited_loop parse close vs st =
     and_then (parse st) (\<lambda>(v, st1).
       case p_accept TComma st1 of
         None \<Rightarrow> and_then (p_skip close st1) (\<lambda>st2. Inr (vs @ [v], st2))
       | Some st2 \<Rightarrow> delimited_loop parse close (vs @ [v]) st2)"
proof -
  have "length (ps_rest st2) < length (ps_rest st)"
    if "parse st = Inr (v, st1)" "p_accept TComma st1 = Some st2" for v st1 st2
    using parse_length [OF that(1)] p_accept_length [OF that(2)] by simp
  then show ?thesis
    by (subst delimited_loop.simps) (cases "parse st"; auto split: option.split)
qed

lemma loop_clean: "only_fails (delimited_loop parse close vs st)"
proof (induction "length (ps_rest st)" arbitrary: vs st rule: less_induct)
  case less
  show ?case
    unfolding loop_step [of close vs st]
    by (rule only_fails_and_then)
      (auto simp: clean split: option.split intro!: less only_fails_and_then
        dest!: parse_length p_accept_length)
qed

lemma loop_parses:
  assumes "is_closer close"
  shows "delimited_loop parse close vs st = Inr (ws, st') \<longleftrightarrow>
    (\<exists>tss us. us \<noteq> [] \<and> ws = vs @ us \<and> list_all2 derives tss us \<and> eats (commas tss @ [kw close]) st st')"
    (is "?lhs = ?rhs vs st")
proof
  have sp: "spelling close \<noteq> None" using assms by (auto simp: is_closer_def)
  show "?lhs \<Longrightarrow> ?rhs vs st"
  proof (induction "length (ps_rest st)" arbitrary: vs st rule: less_induct)
    case less
    then obtain v st1 where v: "parse st = Inr (v, st1)"
      by (auto simp: loop_step [of close vs st] elim!: and_thenE)
    then obtain ts where ts: "derives ts v" "eats ts st st1" by (auto simp: parses)
    show ?case
    proof (cases "p_accept TComma st1")
      case None
      then have "ws = vs @ [v]" "eats [kw close] st1 st'"
        using less.prems v sp by (auto simp: loop_step [of close vs st] p_skip_iff elim!: and_thenE)
      then show ?thesis
        using ts by (intro exI [of _ "[ts]"] exI [of _ "[v]"]) (auto simp: eats_append)
    next
      case (Some st2)
      then have "?rhs (vs @ [v]) st2"
        using less.prems v parse_length [OF v] p_accept_length [OF Some]
        by (intro less.hyps) (auto simp: loop_step [of close vs st])
      then obtain tss us where us: "us \<noteq> []" "ws = vs @ v # us" "list_all2 derives tss us"
        "eats (commas tss @ [kw close]) st2 st'" by auto
      moreover have "eats [kw TComma] st1 st2" using Some by (simp add: p_accept_Some)
      ultimately show ?thesis
        using ts by (cases tss; intro exI [of _ "ts # tss"] exI [of _ "v # us"])
          (auto simp: eats_append eats_Cons)
    qed
  qed
  assume "?rhs vs st"
  then obtain tss us where us: "us \<noteq> []" "ws = vs @ us" "list_all2 derives tss us"
    "eats (commas tss @ [kw close]) st st'" by auto
  from us(3,1,2,4) show ?lhs
  proof (induction tss us arbitrary: vs st rule: list_all2_induct)
    case (Cons ts tss v us)
    show ?case
    proof (cases tss)
      case Nil
      then obtain st1 where st1: "eats ts st st1" "eats [kw close] st1 st'"
        using Cons.prems by (auto simp: eats_append)
      then have "parse st = Inr (v, st1)"
        using Cons.hyps(1) follow_closer [OF assms, of st1 ts] by (auto simp: parses eats_at)
      moreover have "p_accept TComma st1 = None"
        using st1(2) assms by (auto simp: p_accept_None eats_at is_closer_def)
      ultimately show ?thesis
        using st1 sp Nil Cons by (auto simp: loop_step [of close vs st] and_then_Inr_iff p_skip_iff)
    next
      case (Cons us' tss')
      then obtain st1 st2 where st1: "eats ts st st1" "eats [kw TComma] st1 st2"
        "eats (commas tss @ [kw close]) st2 st'"
        using Cons.prems by (auto simp: eats_append eats_Cons)
      then have "parse st = Inr (v, st1)"
        using Cons.hyps(1) follow_comma [of st1 ts] by (auto simp: parses eats_at)
      moreover have "p_accept TComma st1 = Some st2" using st1(2) by (simp add: p_accept_Some)
      ultimately show ?thesis
        using Cons.IH [of "vs @ [v]" st2] st1(3) Cons Cons.hyps Cons.prems
        by (auto simp: loop_step [of close vs st])
    qed
  qed simp
qed

lemma delimited_clean: "only_fails (p_delimited open close parse st)"
  unfolding p_delimited_def by (rule only_fails_and_then) (auto simp: loop_clean split: option.split)

lemma delimited_parses:
  assumes "is_closer close" and "spelling open \<noteq> None"
  shows "p_delimited open close parse st = Inr (vs, st') \<longleftrightarrow>
    (\<exists>tss. list_all2 derives tss vs \<and> eats (kw open # commas tss @ [kw close]) st st')"
proof -
  have sp: "spelling close \<noteq> None" using assms by (auto simp: is_closer_def)
  have ne: "\<not> p_at st1 close"
    if l: "list_all2 derives tss us" "us \<noteq> []" and e: "eats (commas tss @ r) st1 st2"
    for tss us st1 st2 r
  proof -
    obtain ts tss' where "tss = ts # tss'" "derives ts (hd us)" using l by (cases tss; cases us) auto
    then obtain k x ts' where "commas tss = (k, x) # ts'" "\<not> is_closer k"
      using starts [of ts "hd us"] by (cases tss') auto
    then show ?thesis using e assms(1) by (auto simp: eats_at)
  qed
  show ?thesis
  proof
    assume "p_delimited open close parse st = Inr (vs, st')"
    then obtain st1 where st1: "eats [kw open] st st1" and
      r: "(case p_accept close st1 of Some st2 \<Rightarrow> Inr ([], st2)
           | None \<Rightarrow> delimited_loop parse close [] st1) = Inr (vs, st')"
      using assms by (auto simp: p_delimited_def and_then_Inr_iff p_skip_iff)
    show "\<exists>tss. list_all2 derives tss vs \<and> eats (kw open # commas tss @ [kw close]) st st'"
    proof (cases "p_accept close st1")
      case None
      then show ?thesis using r st1 loop_parses [OF assms(1)] by (fastforce simp: eats_Cons)
    next
      case (Some st2)
      then have "vs = []" "st' = st2" "eats [kw close] st1 st2"
        using r sp by (simp_all add: p_accept_Some [symmetric])
      then show ?thesis using st1 by (intro exI [of _ "[]"]) (auto simp: eats_Cons)
    qed
  next
    assume "\<exists>tss. list_all2 derives tss vs \<and> eats (kw open # commas tss @ [kw close]) st st'"
    then obtain tss st1 where tss: "list_all2 derives tss vs" "eats [kw open] st st1"
      "eats (commas tss @ [kw close]) st1 st'" by (auto simp: eats_Cons)
    then have sk: "p_skip open st = Inr st1" using assms by (simp add: p_skip_iff)
    show "p_delimited open close parse st = Inr (vs, st')"
    proof (cases "vs = []")
      case True
      then have "p_accept close st1 = Some st'" using tss sp by (simp add: p_accept_Some)
      then show ?thesis using sk True by (simp add: p_delimited_def)
    next
      case False
      then have "p_accept close st1 = None" using ne [OF tss(1) _ tss(3)] by (simp add: p_accept_None)
      moreover have "delimited_loop parse close [] st1 = Inr (vs, st')"
        using loop_parses [OF assms(1)] tss False by blast
      ultimately show ?thesis using sk by (simp add: p_delimited_def)
    qed
  qed
qed

end


section \<open>Names, sorts, symbols and variables\<close>

definition name_terms :: "terminal list \<Rightarrow> str \<Rightarrow> bool" where
  "name_terms ts n \<longleftrightarrow> ts = [(TId, n)]"

interpretation names: element_parser "p_text TId" name_terms "\<lambda>_ _. True"
  by unfold_locales (auto simp: name_terms_def p_text_iff is_closer_def)

fun sort_terms :: "sort \<Rightarrow> terminal list" where
  "sort_terms (SortVariable n) = [(TId, n)]"
| "sort_terms (SortApplication n ss) = (TId, n) # kw TLBrace # commas (map sort_terms ss) @ [kw TRBrace]"

text \<open>A sort variable is not followed by an opening brace: it would be an application.\<close>

fun sort_follow :: "sort \<Rightarrow> parser \<Rightarrow> bool" where
  "sort_follow (SortVariable _) st \<longleftrightarrow> \<not> p_at st TLBrace"
| "sort_follow (SortApplication _ _) st \<longleftrightarrow> True"

lemma sort_follow_at: "p_at st k \<Longrightarrow> k \<noteq> TLBrace \<Longrightarrow> sort_follow s st"
  by (cases s) (auto simp: p_at_def split: option.splits)

lemma eats_sort_follow: "eats ((k, x) # ts) st st' \<Longrightarrow> k \<noteq> TLBrace \<Longrightarrow> sort_follow s st"
  by (rule sort_follow_at [of _ k]) (simp_all add: eats_at)

lemma sort_terms_start: "\<exists>x ts'. sort_terms s = (TId, x) # ts'"
  by (cases s) auto

text \<open>The equations of the loop by the value it holds.\<close>

lemma sort_loop_None:
  "sort_loop st stack None =
     and_then (sort_start st) (\<lambda>(started, st1).
       case started of
         Frame frame \<Rightarrow> sort_loop st1 (frame # stack) None
       | Value s \<Rightarrow> sort_loop st1 stack (Some s))"
  by (subst sort_loop.simps, cases "sort_start st")
    (auto simp: sort_step_def sort_loop.simps [of _ _ "Some _"] split: started.split)

lemma sort_loop_Some:
  "sort_loop st [] (Some s) = Inr (s, st)"
  "sort_loop st (frame # stack) (Some s) =
     (case p_accept TComma st of
        Some st1 \<Rightarrow> sort_loop st1 (frame\<lparr>sp_arguments := sp_arguments frame @ [s]\<rparr> # stack) None
      | None \<Rightarrow> and_then (p_skip TRBrace st) (\<lambda>st1.
          sort_loop st1 stack (Some (SortApplication (sp_name frame) (sp_arguments frame @ [s])))))"
  by (subst sort_loop.simps, simp add: sort_step_def sort_advance_def)
    (subst sort_loop.simps, cases "p_skip TRBrace st";
     simp add: sort_step_def sort_advance_def Let_def split: option.split)

text \<open>The loop reads the operands of the frame on top and goes on with its sort.\<close>

lemma sort_loop_frame:
  assumes "ss \<noteq> []" and "eats (commas (map sort_terms ss) @ [kw TRBrace]) st st'"
    and "\<And>s st st' stack. s \<in> set ss \<Longrightarrow> eats (sort_terms s) st st' \<Longrightarrow> sort_follow s st' \<Longrightarrow>
      sort_loop st stack None = sort_loop st' stack (Some s)"
  shows "sort_loop st (frame # stack) None =
    sort_loop st' stack (Some (SortApplication (sp_name frame) (sp_arguments frame @ ss)))"
  using assms
proof (induction ss arbitrary: st frame)
  case (Cons s ss)
  show ?case
  proof (cases ss)
    case Nil
    then obtain st1 where st1: "eats (sort_terms s) st st1" "eats [kw TRBrace] st1 st'"
      using Cons.prems(2) by (auto simp: eats_append)
    then have "p_accept TComma st1 = None" "p_skip TRBrace st1 = Inr st'"
      by (simp_all add: p_accept_None eats_at p_skip_iff)
    then show ?thesis
      using Cons.prems(3) [of s st st1] st1 Nil by (simp add: eats_sort_follow sort_loop_Some)
  next
    case (Cons s' ss')
    then obtain st1 st2 where st1: "eats (sort_terms s) st st1" "eats [kw TComma] st1 st2"
      "eats (commas (map sort_terms ss) @ [kw TRBrace]) st2 st'"
      using Cons.prems(2) by (auto simp: eats_append eats_Cons)
    then have "p_accept TComma st1 = Some st2" by (simp add: p_accept_Some)
    then have "sort_loop st (frame # stack) None
        = sort_loop st2 (frame\<lparr>sp_arguments := sp_arguments frame @ [s]\<rparr> # stack) None"
      using Cons.prems(3) [of s st st1] st1 by (simp add: eats_sort_follow sort_loop_Some)
    also have "\<dots> = sort_loop st' stack (Some (SortApplication (sp_name frame) (sp_arguments frame @ s # ss)))"
      using Cons.IH [of st2 "frame\<lparr>sp_arguments := sp_arguments frame @ [s]\<rparr>"] Cons.prems(3) st1(3) Cons
      by simp
    finally show ?thesis .
  qed
qed simp

lemma sort_loop_complete:
  "eats (sort_terms s) st st' \<Longrightarrow> sort_follow s st' \<Longrightarrow>
   sort_loop st stack None = sort_loop st' stack (Some s)"
proof (induction s arbitrary: st st' stack rule: sort_terms.induct)
  case (1 n)
  then show ?case
    by (simp add: sort_loop_None sort_start_def and_then_Inr_iff p_text_iff [symmetric] p_accept_None [symmetric])
next
  case (2 n ss)
  then obtain st1 st2 where st1: "p_text TId st = Inr (n, st1)" "p_accept TLBrace st1 = Some st2"
    "eats (commas (map sort_terms ss) @ [kw TRBrace]) st2 st'"
    by (auto simp: p_text_iff p_accept_Some eats_Cons)
  show ?case
  proof (cases ss)
    case Nil
    then have "p_accept TRBrace st2 = Some st'" using st1(3) by (simp add: p_accept_Some)
    then show ?thesis using st1 Nil by (simp add: sort_loop_None sort_start_def)
  next
    case (Cons s ss')
    then have "p_accept TRBrace st2 = None"
      using st1(3) sort_terms_start [of s]
      by (cases ss') (auto simp: p_accept_None eats_at)
    then have "sort_loop st stack None = sort_loop st2 (\<lparr>sp_name = n, sp_arguments = []\<rparr> # stack) None"
      using st1 by (simp add: sort_loop_None sort_start_def)
    then show ?thesis
      using sort_loop_frame [OF _ st1(3), of "\<lparr>sp_name = n, sp_arguments = []\<rparr>" stack] "2.IH" Cons by simp
  qed
qed

text \<open>
  What a state holds, seen from the loop: a sort, or the operands of an open application, or the
  loop fails.
\<close>

definition sort_ahead :: "parser \<Rightarrow> bool" where
  "sort_ahead st \<longleftrightarrow> (\<exists>s st'. eats (sort_terms s) st st' \<and> sort_follow s st')"

definition sorts_ahead :: "parser \<Rightarrow> bool" where
  "sorts_ahead st \<longleftrightarrow> (\<exists>ss st'. ss \<noteq> [] \<and> eats (commas (map sort_terms ss) @ [kw TRBrace]) st st')"

definition fails :: "fault + 'a \<Rightarrow> bool" where
  "fails r \<longleftrightarrow> (\<exists>e. r = Inl (Fail e))"

lemma fails_skip: "p_skip k st = Inl f \<Longrightarrow> \<exists>e. f = Fail e"
  by (metis only_fails_simps(2,6))

lemma fails_text: "p_text k st = Inl f \<Longrightarrow> \<exists>e. f = Fail e"
  by (metis only_fails_simps(2,7))

lemma sort_terms_length: "sort_terms s \<noteq> []"
  by (cases s) auto

lemma sort_frame_total:
  assumes IH: "\<And>st' stack frame. length (ps_rest st') < length (ps_rest st) \<Longrightarrow>
      fails (sort_loop st' (frame # stack) None) \<or> sorts_ahead st'"
    and head: "\<And>stack. fails (sort_loop st stack None) \<or> sort_ahead st"
  shows "fails (sort_loop st (frame # stack) None) \<or> sorts_ahead st"
  using head [of "frame # stack"]
proof
  assume "sort_ahead st"
  then obtain s st1 where s: "eats (sort_terms s) st st1" "sort_follow s st1"
    by (auto simp: sort_ahead_def)
  then have eq: "sort_loop st (frame # stack) None = sort_loop st1 (frame # stack) (Some s)"
    by (rule sort_loop_complete)
  show ?thesis
  proof (cases "p_accept TComma st1")
    case None
    show ?thesis
    proof (cases "p_skip TRBrace st1")
      case (Inl f)
      then show ?thesis using None eq fails_skip [OF Inl] by (auto simp: sort_loop_Some fails_def)
    next
      case (Inr st2)
      then show ?thesis unfolding sorts_ahead_def using s
        by (intro disjI2 exI [of _ "[s]"] exI [of _ st2]) (auto simp: eats_append p_skip_iff)
    qed
  next
    case (Some st2)
    then have c: "eats [kw TComma] st1 st2" by (simp add: p_accept_Some)
    then have "length (ps_rest st2) < length (ps_rest st)"
      using s sort_terms_length [of s] by (auto dest!: eats_length)
    note IH [OF this, of "frame\<lparr>sp_arguments := sp_arguments frame @ [s]\<rparr>" stack]
    moreover have "sorts_ahead st" if ahead: "sorts_ahead st2"
    proof -
      obtain ss st3 where "ss \<noteq> []" "eats (commas (map sort_terms ss) @ [kw TRBrace]) st2 st3"
        using ahead by (auto simp: sorts_ahead_def)
      then show ?thesis unfolding sorts_ahead_def using s c
        by (intro exI [of _ "s # ss"] exI [of _ st3]) (cases ss; auto simp: eats_append eats_Cons)
    qed
    ultimately show ?thesis using Some eq by (auto simp: sort_loop_Some)
  qed
qed simp

lemma sort_loop_total:
  "(fails (sort_loop st stack None) \<or> sort_ahead st) \<and> (fails (sort_loop st (frame # stack') None) \<or> sorts_ahead st)"
proof (induction "length (ps_rest st)" arbitrary: st stack stack' frame rule: less_induct)
  case less
  have head: "fails (sort_loop st stack None) \<or> sort_ahead st" for stack
  proof (cases "p_text TId st")
    case (Inl f)
    then show ?thesis using fails_text [OF Inl] by (auto simp: sort_loop_None sort_start_def fails_def)
  next
    case (Inr r)
    then obtain n st1 where n: "p_text TId st = Inr (n, st1)" by (cases r) auto
    then have n': "eats [(TId, n)] st st1" by (simp add: p_text_iff)
    show ?thesis
    proof (cases "p_accept TLBrace st1")
      case None
      then have "eats (sort_terms (SortVariable n)) st st1 \<and> sort_follow (SortVariable n) st1"
        using n' by (simp add: p_accept_None)
      then show ?thesis unfolding sort_ahead_def by blast
    next
      case lb: (Some st2)
      then have lb': "eats [kw TLBrace] st1 st2" by (simp add: p_accept_Some)
      show ?thesis
      proof (cases "p_accept TRBrace st2")
        case (Some st3)
        then have "eats (sort_terms (SortApplication n [])) st st3"
          using n' lb' by (auto simp: eats_Cons p_accept_Some)
        then show ?thesis unfolding sort_ahead_def by (metis sort_follow.simps(2))
      next
        case None
        have "length (ps_rest st2) < length (ps_rest st)"
          using n' lb' by (auto dest!: eats_length)
        then have "fails (sort_loop st2 (\<lparr>sp_name = n, sp_arguments = []\<rparr> # stack) None) \<or> sorts_ahead st2"
          using less by blast
        moreover have "sort_ahead st" if ahead: "sorts_ahead st2"
        proof -
          obtain ss st3 where "eats (commas (map sort_terms ss) @ [kw TRBrace]) st2 st3"
            using ahead by (auto simp: sorts_ahead_def)
          then have "eats (sort_terms (SortApplication n ss)) st st3"
            using n' lb' by (auto simp: eats_simps)
          then show ?thesis unfolding sort_ahead_def by (metis sort_follow.simps(2))
        qed
        ultimately show ?thesis using n lb None by (auto simp: sort_loop_None sort_start_def)
      qed
    qed
  qed
  have "fails (sort_loop st (frame # stack') None) \<or> sorts_ahead st"
    by (rule sort_frame_total) (use less head in blast)+
  then show ?case using head by blast
qed

lemma p_sort_iff: "p_sort st = Inr (s, st') \<longleftrightarrow> eats (sort_terms s) st st' \<and> sort_follow s st'"
proof
  assume r: "p_sort st = Inr (s, st')"
  then obtain s' st1 where s': "eats (sort_terms s') st st1" "sort_follow s' st1"
    using conjunct1 [OF sort_loop_total [of st "[]"]] by (auto simp: p_sort_def fails_def sort_ahead_def)
  then show "eats (sort_terms s) st st' \<and> sort_follow s st'"
    using r sort_loop_complete [OF s', of "[]"] by (simp add: p_sort_def sort_loop_Some)
qed (use sort_loop_complete [of s st st' "[]"] in \<open>simp add: p_sort_def sort_loop_Some\<close>)

lemma p_sort_clean [simp]: "only_fails (p_sort st)"
proof -
  have "fails (p_sort st) \<or> (\<exists>r. p_sort st = Inr r)"
    using conjunct1 [OF sort_loop_total [of st "[]"]] p_sort_iff [of st]
    by (auto simp: p_sort_def sort_ahead_def)
  then show ?thesis by (auto simp: fails_def)
qed

text \<open>The same condition on terminals: those that end in an identifier are not followed by a brace.\<close>

definition followed :: "terminal list \<Rightarrow> parser \<Rightarrow> bool" where
  "followed ts st \<longleftrightarrow> (ts \<noteq> [] \<and> fst (last ts) = TId \<longrightarrow> \<not> p_at st TLBrace)"

lemma followed_at: "p_at st k \<Longrightarrow> k \<noteq> TLBrace \<Longrightarrow> followed ts st"
  by (auto simp: followed_def p_at_def split: option.splits)

lemma eats_followed: "eats ((k, x) # us) st st' \<Longrightarrow> k \<noteq> TLBrace \<Longrightarrow> followed ts st"
  by (rule followed_at [of _ k]) (simp_all add: eats_at)

lemma followed_last [simp]: "followed (ts @ [(k, x)]) st \<longleftrightarrow> (k = TId \<longrightarrow> \<not> p_at st TLBrace)"
  by (simp add: followed_def)

lemma followed_Cons: "ts \<noteq> [] \<Longrightarrow> followed (x # ts) st \<longleftrightarrow> followed ts st"
  by (simp add: followed_def)

lemma followed_append: "ts \<noteq> [] \<Longrightarrow> followed (us @ ts) st \<longleftrightarrow> followed ts st"
  by (simp add: followed_def)

lemma sort_followed: "sort_follow s st \<longleftrightarrow> followed (sort_terms s) st"
  by (cases s) (auto simp: followed_def)

definition sort_derives :: "terminal list \<Rightarrow> sort \<Rightarrow> bool" where
  "sort_derives ts s \<longleftrightarrow> ts = sort_terms s"

interpretation sorts: element_parser p_sort sort_derives followed
proof unfold_locales
  show "sort_derives ts s \<Longrightarrow> \<exists>k x ts'. ts = (k, x) # ts' \<and> \<not> is_closer k" for ts s
    using sort_terms_start [of s] by (auto simp: sort_derives_def is_closer_def)
qed (auto simp: sort_derives_def p_sort_iff sort_followed is_closer_def intro: followed_at)

definition list_terms :: "token_kind \<Rightarrow> token_kind \<Rightarrow> terminal list list \<Rightarrow> terminal list" where
  "list_terms open close tss = kw open # commas tss @ [kw close]"

abbreviation braces :: "terminal list list \<Rightarrow> terminal list" where
  "braces \<equiv> list_terms TLBrace TRBrace"

abbreviation parens :: "terminal list list \<Rightarrow> terminal list" where
  "parens \<equiv> list_terms TLParen TRParen"

lemma list_terms_simps:
  "list_terms open close [] = [kw open, kw close]"
  "list_terms open close [ts] = kw open # ts @ [kw close]"
  "list_terms open close [ts, us] = kw open # ts @ kw TComma # us @ [kw close]"
  by (simp_all add: list_terms_def)

lemma derives_function: "list_all2 (\<lambda>ts v. ts = f v) tss vs \<longleftrightarrow> tss = map f vs"
  by (induction tss arbitrary: vs) (auto simp: list_all2_Cons1)

lemma sorts_parses:
  assumes "is_closer close" and "spelling open \<noteq> None"
  shows "p_delimited open close p_sort st = Inr (ss, st') \<longleftrightarrow> eats (list_terms open close (map sort_terms ss)) st st'"
  using sorts.delimited_parses [OF assms, of st ss st'] derives_function [of sort_terms _ ss]
  by (simp add: sort_derives_def [abs_def] list_terms_def)

definition name_list_terms :: "str list \<Rightarrow> terminal list" where
  "name_list_terms ns = braces (map (\<lambda>n. [(TId, n)]) ns)"

lemma p_sort_variables_iff: "p_sort_variables st = Inr (ns, st') \<longleftrightarrow> eats (name_list_terms ns) st st'"
  using names.delimited_parses [of TRBrace TLBrace st ns st'] derives_function [of "\<lambda>n. [(TId, n)]" _ ns]
  by (simp add: p_sort_variables_def name_list_terms_def name_terms_def [abs_def] list_terms_def is_closer_def)

definition symbol_terms :: "symbol \<Rightarrow> terminal list" where
  "symbol_terms symb = (TId, symbol_name symb) # braces (map sort_terms (sort_parameters symb))"

lemma p_symbol_iff: "p_symbol st = Inr (symb, st') \<longleftrightarrow> eats (symbol_terms symb) st st'"
  by (cases symb)
    (auto simp: p_symbol_def and_then_Inr_iff p_text_iff sorts_parses symbol_terms_def is_closer_def
      list_terms_def eats_Cons)

lemma p_one_sort_iff: "p_one_sort st = Inr (s, st') \<longleftrightarrow> eats (braces [sort_terms s]) st st'"
  by (auto simp: p_one_sort_def and_then_Inr_iff p_skip_iff p_sort_iff list_terms_def eats_simps
      intro: eats_sort_follow)

definition variable_terms :: "variable \<Rightarrow> terminal list" where
  "variable_terms v =
     (case var_kind v of Element \<Rightarrow> TId | SetVar \<Rightarrow> TSetVarId, var_name v) # kw TColon # sort_terms (var_sort v)"

lemma p_two_sorts_iff:
  "p_two_sorts st = Inr ((s, t), st') \<longleftrightarrow> eats (braces [sort_terms s, sort_terms t]) st st'"
proof
  show "p_two_sorts st = Inr ((s, t), st') \<Longrightarrow> eats (braces [sort_terms s, sort_terms t]) st st'"
    by (auto simp: p_two_sorts_def and_then_Inr_iff p_skip_iff p_sort_iff list_terms_def eats_simps)
next
  assume "eats (braces [sort_terms s, sort_terms t]) st st'"
  then obtain a b c d where *: "eats [kw TLBrace] st a" "eats (sort_terms s) a b" "eats [kw TComma] b c"
    "eats (sort_terms t) c d" "eats [kw TRBrace] d st'"
    by (auto simp: list_terms_def eats_simps)
  then have "sort_follow s b" "sort_follow t d" by (auto intro: eats_sort_follow)
  then have "p_sort a = Inr (s, b)" "p_sort c = Inr (t, d)" using * by (simp_all add: p_sort_iff)
  moreover have "p_skip TLBrace st = Inr a" "p_skip TComma b = Inr c" "p_skip TRBrace d = Inr st'"
    using * by (simp_all add: p_skip_iff)
  ultimately show "p_two_sorts st = Inr ((s, t), st')" by (simp add: p_two_sorts_def)
qed

definition variable_follow :: "variable \<Rightarrow> parser \<Rightarrow> bool" where
  "variable_follow v st \<longleftrightarrow> sort_follow (var_sort v) st"

lemma p_variable_iff:
  "p_variable kind st = Inr (v, st') \<longleftrightarrow>
     var_kind v = kind \<and> eats (variable_terms v) st st' \<and> variable_follow v st'"
  by ((cases v; cases kind), auto simp: p_variable_def and_then_Inr_iff p_text_iff p_skip_iff p_sort_iff
      variable_terms_def variable_follow_def eats_Cons) (blast+)

lemma clean_simps [simp]:
  "only_fails (p_sort_variables st)" "only_fails (p_symbol st)" "only_fails (p_one_sort st)"
  "only_fails (p_two_sorts st)" "only_fails (p_variable kind st)"
  "only_fails (p_delimited open close p_sort st)"
  by (auto simp: p_sort_variables_def p_symbol_def p_one_sort_def p_two_sorts_def p_variable_def
      names.delimited_clean sorts.delimited_clean intro!: only_fails_and_then split: prod.split)

end
