(* ===== verification/Kore_Pattern_Grammar.thy ===== *)
theory Kore_Pattern_Grammar
  imports Kore_Grammar
begin

text \<open>
  The grammar of patterns on terminals and the pattern parser against it: the loop returns a
  pattern exactly when the grammar derives it from the tokens it took, and it never panics. The
  proof goes through the heads of the loop's frames: \<open>head_open\<close> and \<open>head_close\<close> are the
  terminals before and after the operands.
\<close>

section \<open>The grammar\<close>

text \<open>The disjunctions that \<open>\or\<close> under associative syntax stands for.\<close>

fun or_left :: "sort \<Rightarrow> pattern \<Rightarrow> pattern list \<Rightarrow> pattern" where
  "or_left s p [] = p"
| "or_left s p (q # qs) = or_left s (POr s [p, q]) qs"

fun or_right :: "sort \<Rightarrow> pattern \<Rightarrow> pattern list \<Rightarrow> pattern" where
  "or_right s p [] = p"
| "or_right s p (q # qs) = POr s [p, or_right s q qs]"

fun or_fold :: "associativity \<Rightarrow> sort \<Rightarrow> pattern list \<Rightarrow> pattern option" where
  "or_fold _ s [] = None"
| "or_fold LeftAssoc s (p # ps) = Some (or_left s p ps)"
| "or_fold RightAssoc s (p # ps) = Some (or_right s p ps)"

fun associative_kind :: "associativity \<Rightarrow> token_kind" where
  "associative_kind LeftAssoc = TMlLeftAssoc"
| "associative_kind RightAssoc = TMlRightAssoc"

inductive atom_derives :: "terminal list \<Rightarrow> pattern \<Rightarrow> bool" where
  string: "unquote x = Inr v \<Longrightarrow> atom_derives [(TString, x)] (PString v)"
| variable: "atom_derives (variable_terms v) (PVariable v)"
| top: "atom_derives (kw TMlTop # braces [sort_terms s] @ parens []) (PTop s)"
| bottom: "atom_derives (kw TMlBottom # braces [sort_terms s] @ parens []) (PBottom s)"
| domain_value: "unquote_as x (of_domain_value s) = Inr v \<Longrightarrow>
    atom_derives (kw TMlDv # braces [sort_terms s] @ parens [[(TString, x)]]) (PDomainValue s v)"

inductive pattern_derives :: "terminal list \<Rightarrow> pattern \<Rightarrow> bool" where
  atom: "atom_derives ts p \<Longrightarrow> pattern_derives ts p"
| application: "list_all2 pattern_derives tss ps \<Longrightarrow>
    pattern_derives (symbol_terms symb @ parens tss) (PApplication symb ps)"
| conjunction: "list_all2 pattern_derives tss ps \<Longrightarrow>
    pattern_derives (kw TMlAnd # braces [sort_terms s] @ parens tss) (PAnd s ps)"
| disjunction: "list_all2 pattern_derives tss ps \<Longrightarrow>
    pattern_derives (kw TMlOr # braces [sort_terms s] @ parens tss) (POr s ps)"
| negation: "pattern_derives ts p \<Longrightarrow>
    pattern_derives (kw TMlNot # braces [sort_terms s] @ parens [ts]) (PNot s p)"
| next_step: "pattern_derives ts p \<Longrightarrow>
    pattern_derives (kw TMlNext # braces [sort_terms s] @ parens [ts]) (PNext s p)"
| implication: "pattern_derives ts p \<Longrightarrow> pattern_derives us q \<Longrightarrow>
    pattern_derives (kw TMlImplies # braces [sort_terms s] @ parens [ts, us]) (PImplies s p q)"
| equivalence: "pattern_derives ts p \<Longrightarrow> pattern_derives us q \<Longrightarrow>
    pattern_derives (kw TMlIff # braces [sort_terms s] @ parens [ts, us]) (PIff s p q)"
| rewriting: "pattern_derives ts p \<Longrightarrow> pattern_derives us q \<Longrightarrow>
    pattern_derives (kw TMlRewrites # braces [sort_terms s] @ parens [ts, us]) (PRewrites s p q)"
| existential: "var_kind v = Element \<Longrightarrow> pattern_derives ts p \<Longrightarrow>
    pattern_derives (kw TMlExists # braces [sort_terms s] @ parens [variable_terms v, ts]) (PExists s v p)"
| universal: "var_kind v = Element \<Longrightarrow> pattern_derives ts p \<Longrightarrow>
    pattern_derives (kw TMlForall # braces [sort_terms s] @ parens [variable_terms v, ts]) (PForall s v p)"
| least: "var_kind v = SetVar \<Longrightarrow> pattern_derives ts p \<Longrightarrow>
    pattern_derives (kw TMlMu # braces [] @ parens [variable_terms v, ts]) (PMu v p)"
| greatest: "var_kind v = SetVar \<Longrightarrow> pattern_derives ts p \<Longrightarrow>
    pattern_derives (kw TMlNu # braces [] @ parens [variable_terms v, ts]) (PNu v p)"
| ceiling: "pattern_derives ts p \<Longrightarrow>
    pattern_derives (kw TMlCeil # braces [sort_terms s, sort_terms t] @ parens [ts]) (PCeil s t p)"
| floor: "pattern_derives ts p \<Longrightarrow>
    pattern_derives (kw TMlFloor # braces [sort_terms s, sort_terms t] @ parens [ts]) (PFloor s t p)"
| equality: "pattern_derives ts p \<Longrightarrow> pattern_derives us q \<Longrightarrow>
    pattern_derives (kw TMlEquals # braces [sort_terms s, sort_terms t] @ parens [ts, us]) (PEquals s t p q)"
| membership: "pattern_derives ts p \<Longrightarrow> pattern_derives us q \<Longrightarrow>
    pattern_derives (kw TMlIn # braces [sort_terms s, sort_terms t] @ parens [ts, us]) (PIn s t p q)"
| associative: "list_all2 pattern_derives tss ps \<Longrightarrow> ps \<noteq> [] \<Longrightarrow>
    pattern_derives (kw (associative_kind a) # braces [] @ parens [symbol_terms symb @ parens tss])
      (PAssociative a symb ps)"
| associative_or: "list_all2 pattern_derives tss ps \<Longrightarrow> or_fold a s ps = Some p \<Longrightarrow>
    pattern_derives
      (kw (associative_kind a) # braces [] @ parens [kw TMlOr # braces [sort_terms s] @ parens tss]) p"

section \<open>Heads\<close>

definition associative_open :: "associativity \<Rightarrow> terminal list" where
  "associative_open a = [kw (associative_kind a), kw TLBrace, kw TRBrace, kw TLParen]"

fun head_open :: "head \<Rightarrow> terminal list" where
  "head_open (HApplication symb) = symbol_terms symb @ [kw TLParen]"
| "head_open (HAnd s) = kw TMlAnd # braces [sort_terms s] @ [kw TLParen]"
| "head_open (HOr s) = kw TMlOr # braces [sort_terms s] @ [kw TLParen]"
| "head_open (HUnary kind s) = kw kind # braces [sort_terms s] @ [kw TLParen]"
| "head_open (HBinary kind s) = kw kind # braces [sort_terms s] @ [kw TLParen]"
| "head_open (HQuantifier kind s v) =
     kw kind # braces [sort_terms s] @ kw TLParen # variable_terms v @ [kw TComma]"
| "head_open (HFixpoint kind v) = kw kind # braces [] @ kw TLParen # variable_terms v @ [kw TComma]"
| "head_open (HRoundPredicate kind s t) = kw kind # braces [sort_terms s, sort_terms t] @ [kw TLParen]"
| "head_open (HBinaryPredicate kind s t) = kw kind # braces [sort_terms s, sort_terms t] @ [kw TLParen]"
| "head_open (HAssociativeApplication a symb) = associative_open a @ symbol_terms symb @ [kw TLParen]"
| "head_open (HAssociativeOr a s) = associative_open a @ kw TMlOr # braces [sort_terms s] @ [kw TLParen]"

fun head_outer :: "head \<Rightarrow> bool" where
  "head_outer (HAssociativeApplication _ _) = True"
| "head_outer (HAssociativeOr _ _) = True"
| "head_outer _ = False"

definition head_close :: "head \<Rightarrow> terminal list" where
  "head_close h = (if head_outer h then [kw TRParen, kw TRParen] else [kw TRParen])"

fun head_arity :: "head \<Rightarrow> arity" where
  "head_arity (HUnary _ _) = Exact 1"
| "head_arity (HBinary _ _) = Exact 2"
| "head_arity (HQuantifier _ _ _) = Exact 1"
| "head_arity (HFixpoint _ _) = Exact 1"
| "head_arity (HRoundPredicate _ _ _) = Exact 1"
| "head_arity (HBinaryPredicate _ _ _) = Exact 2"
| "head_arity _ = Variadic"

fun head_ok :: "head \<Rightarrow> bool" where
  "head_ok (HUnary kind _) \<longleftrightarrow> kind = TMlNot \<or> kind = TMlNext"
| "head_ok (HBinary kind _) \<longleftrightarrow> kind = TMlImplies \<or> kind = TMlIff \<or> kind = TMlRewrites"
| "head_ok (HQuantifier kind _ v) \<longleftrightarrow> (kind = TMlExists \<or> kind = TMlForall) \<and> var_kind v = Element"
| "head_ok (HFixpoint kind v) \<longleftrightarrow> (kind = TMlMu \<or> kind = TMlNu) \<and> var_kind v = SetVar"
| "head_ok (HRoundPredicate kind _ _) \<longleftrightarrow> kind = TMlCeil \<or> kind = TMlFloor"
| "head_ok (HBinaryPredicate kind _ _) \<longleftrightarrow> kind = TMlEquals \<or> kind = TMlIn"
| "head_ok _ \<longleftrightarrow> True"

text \<open>The numbers of operands a head can have.\<close>

definition operands_ok :: "head \<Rightarrow> nat \<Rightarrow> bool" where
  "operands_ok h n \<longleftrightarrow> (case head_arity h of Variadic \<Rightarrow> True | Exact m \<Rightarrow> n = m) \<and> (head_outer h \<longrightarrow> n \<noteq> 0)"

lemma or_left_foldl: "foldl (\<lambda>left right. POr s [left, right]) p ps = or_left s p ps"
  by (induction s p ps rule: or_left.induct) auto

lemma or_right_foldl:
  "\<exists>l r. List.rev (p # ps) = l # r \<and> foldl (\<lambda>right left. POr s [left, right]) l r = or_right s p ps"
proof (induction s p ps rule: or_right.induct)
  case (2 s p q qs)
  then obtain l r where "List.rev (q # qs) = l # r"
    "foldl (\<lambda>right left. POr s [left, right]) l r = or_right s q qs" by blast
  then show ?case by (intro exI [of _ l] exI [of _ "r @ [p]"]) simp
qed simp

lemma fold_associative_or_spec:
  "fold_associative_or a s ps = (case or_fold a s ps of Some p \<Rightarrow> Inr p | None \<Rightarrow> Inl Panic)"
proof (cases ps)
  case (Cons p qs)
  then show ?thesis
    using or_right_foldl [of p qs s]
    by (cases a) (auto simp: fold_associative_or_def or_left_foldl)
qed (cases a; simp add: fold_associative_or_def)

lemma two_operands: "length ps = 2 \<longleftrightarrow> (\<exists>p q. ps = [p, q])"
  by (auto simp: numeral_2_eq_2 length_Suc_conv)

lemma one_operand: "length ps = Suc 0 \<longleftrightarrow> (\<exists>p. ps = [p])"
  by (auto simp: length_Suc_conv)

lemma or_fold_Some: "ps \<noteq> [] \<Longrightarrow> \<exists>p. or_fold a s ps = Some p"
  by (cases ps; cases a) auto

text \<open>The operands between the terminals of a head derive the pattern it finishes with.\<close>

lemmas flat_derives = pattern_derives.intros [simplified list_terms_def append.simps append_assoc commas.simps symbol_terms_def]

lemma head_derives:
  assumes "head_ok h" and "list_all2 pattern_derives tss ps" and "operands_ok h (length ps)"
  shows "\<exists>p. finish_head h ps n = Inr p \<and> pattern_derives (head_open h @ commas tss @ head_close h) p"
proof (cases "\<exists>a s. h = HAssociativeOr a s")
  case True
  then obtain a s where h: "h = HAssociativeOr a s" by blast
  then obtain p where "or_fold a s ps = Some p"
    using assms(3) or_fold_Some by (fastforce simp: operands_ok_def)
  then show ?thesis using assms h
    by (auto simp: operands_ok_def head_close_def associative_open_def list_terms_def
        fold_associative_or_spec intro: flat_derives)
next
  case False
  with assms show ?thesis
    by (cases h; auto simp: operands_ok_def head_close_def associative_open_def list_terms_def
        symbol_terms_def two_operands one_operand list_all2_Cons2) (rule flat_derives, assumption+)+
qed

definition built :: "head \<Rightarrow> terminal list list \<Rightarrow> pattern list \<Rightarrow> terminal list \<Rightarrow> pattern \<Rightarrow> bool" where
  "built h tss ps ts p \<longleftrightarrow>
     head_ok h \<and> list_all2 pattern_derives tss ps \<and> operands_ok h (length ps)
     \<and> ts = head_open h @ commas tss @ head_close h \<and> (\<forall>n. finish_head h ps n = Inr p)"

lemma built_variadic:
  assumes "list_all2 pattern_derives tss ps"
  shows "built (HApplication symb) tss ps (symbol_terms symb @ parens tss) (PApplication symb ps)"
    and "built (HAnd s) tss ps (kw TMlAnd # braces [sort_terms s] @ parens tss) (PAnd s ps)"
    and "built (HOr s) tss ps (kw TMlOr # braces [sort_terms s] @ parens tss) (POr s ps)"
    and "ps \<noteq> [] \<Longrightarrow> built (HAssociativeApplication a symb) tss ps
      (kw (associative_kind a) # braces [] @ parens [symbol_terms symb @ parens tss]) (PAssociative a symb ps)"
    and "or_fold a s ps = Some p \<Longrightarrow> built (HAssociativeOr a s) tss ps
      (kw (associative_kind a) # braces [] @ parens [kw TMlOr # braces [sort_terms s] @ parens tss]) p"
  using assms
  by (auto simp: built_def operands_ok_def head_close_def associative_open_def list_terms_def
      fold_associative_or_spec)

lemma built_fixed:
  assumes "pattern_derives ts p" and "pattern_derives us q"
  shows "built (HUnary TMlNot s) [ts] [p] (kw TMlNot # braces [sort_terms s] @ parens [ts]) (PNot s p)"
    and "built (HUnary TMlNext s) [ts] [p] (kw TMlNext # braces [sort_terms s] @ parens [ts]) (PNext s p)"
    and "built (HBinary TMlImplies s) [ts, us] [p, q]
      (kw TMlImplies # braces [sort_terms s] @ parens [ts, us]) (PImplies s p q)"
    and "built (HBinary TMlIff s) [ts, us] [p, q] (kw TMlIff # braces [sort_terms s] @ parens [ts, us]) (PIff s p q)"
    and "built (HBinary TMlRewrites s) [ts, us] [p, q]
      (kw TMlRewrites # braces [sort_terms s] @ parens [ts, us]) (PRewrites s p q)"
    and "var_kind v = Element \<Longrightarrow> built (HQuantifier TMlExists s v) [ts] [p]
      (kw TMlExists # braces [sort_terms s] @ parens [variable_terms v, ts]) (PExists s v p)"
    and "var_kind v = Element \<Longrightarrow> built (HQuantifier TMlForall s v) [ts] [p]
      (kw TMlForall # braces [sort_terms s] @ parens [variable_terms v, ts]) (PForall s v p)"
    and "var_kind v = SetVar \<Longrightarrow> built (HFixpoint TMlMu v) [ts] [p]
      (kw TMlMu # braces [] @ parens [variable_terms v, ts]) (PMu v p)"
    and "var_kind v = SetVar \<Longrightarrow> built (HFixpoint TMlNu v) [ts] [p]
      (kw TMlNu # braces [] @ parens [variable_terms v, ts]) (PNu v p)"
    and "built (HRoundPredicate TMlCeil s t) [ts] [p]
      (kw TMlCeil # braces [sort_terms s, sort_terms t] @ parens [ts]) (PCeil s t p)"
    and "built (HRoundPredicate TMlFloor s t) [ts] [p]
      (kw TMlFloor # braces [sort_terms s, sort_terms t] @ parens [ts]) (PFloor s t p)"
    and "built (HBinaryPredicate TMlEquals s t) [ts, us] [p, q]
      (kw TMlEquals # braces [sort_terms s, sort_terms t] @ parens [ts, us]) (PEquals s t p q)"
    and "built (HBinaryPredicate TMlIn s t) [ts, us] [p, q]
      (kw TMlIn # braces [sort_terms s, sort_terms t] @ parens [ts, us]) (PIn s t p q)"
  using assms
  by (auto simp: built_def operands_ok_def head_close_def associative_open_def list_terms_def)

lemma pattern_derives_built:
  "pattern_derives ts p \<Longrightarrow> atom_derives ts p \<or> (\<exists>h tss ps. built h tss ps ts p)"
  by (erule pattern_derives.cases) (blast intro: built_variadic built_fixed)+

lemma built_derives: "built h tss ps ts p \<Longrightarrow> pattern_derives ts p"
  using head_derives [of h tss ps] unfolding built_def by auto

section \<open>The start of a pattern\<close>

text \<open>What the start of a head goes on with, once its terminals are taken.\<close>

definition open_frame :: "head \<Rightarrow> pattern list \<Rightarrow> pattern_frame" where
  "open_frame h args =
     \<lparr>pf_head = h, pf_arguments = args, pf_arity = head_arity h, pf_outer_close = head_outer h\<rparr>"

definition variadic_rest :: "head \<Rightarrow> parser \<Rightarrow> fault + (pattern_started \<times> parser)" where
  "variadic_rest h st1 =
     (case p_accept TRParen st1 of
        Some st2 \<Rightarrow>
          and_then (if head_outer h then p_skip TRParen st2 else Inr st2) (\<lambda>st3.
          and_then (finish_head h [] (p_offset st3)) (\<lambda>p. Inr (Value p, st3)))
      | None \<Rightarrow> Inr (Frame (open_frame h []), st1))"

definition head_rest :: "head \<Rightarrow> parser \<Rightarrow> fault + (pattern_started \<times> parser)" where
  "head_rest h st1 =
     (case head_arity h of Variadic \<Rightarrow> variadic_rest h st1 | Exact n \<Rightarrow> Inr (Frame (open_frame h []), st1))"

lemma p_variadic_rest:
  "head_arity h = Variadic \<Longrightarrow> head_outer h = outer \<Longrightarrow>
   p_variadic h outer st = and_then (p_skip TLParen st) (head_rest h)"
  by (auto simp: p_variadic_def head_rest_def variadic_rest_def open_frame_def intro!: and_then_cong
      split: option.split)

lemma p_fixed_rest:
  "head_arity h = Exact n \<Longrightarrow> head_outer h = False \<Longrightarrow>
   p_fixed h n st = and_then (p_skip TLParen st) (head_rest h)"
  by (auto simp: p_fixed_def head_rest_def open_frame_def exact_frame_def intro!: and_then_cong)

definition start_at :: "token_kind \<Rightarrow> parser \<Rightarrow> fault + (pattern_started \<times> parser)" where
  "start_at kind st =
     (if kind = TString then p_value (p_string_pattern st)
      else if kind = TId \<and> p_variable_follows st then
        p_value (and_then (p_variable Element st) (\<lambda>(v, st1). Inr (PVariable v, st1)))
      else if kind = TId then
        and_then (p_symbol st) (\<lambda>(symb, st1). p_variadic (HApplication symb) False st1)
      else if kind = TSetVarId then
        p_value (and_then (p_variable SetVar st) (\<lambda>(v, st1). Inr (PVariable v, st1)))
      else if kind = TMlTop \<or> kind = TMlBottom then
        p_constant kind (if kind = TMlTop then PTop else PBottom) st
      else if kind = TMlAnd \<or> kind = TMlOr then
        p_sorted kind (\<lambda>s. p_variadic (if kind = TMlAnd then HAnd s else HOr s) False) st
      else if kind = TMlNot \<or> kind = TMlNext then
        p_sorted kind (\<lambda>s. p_fixed (HUnary kind s) 1) st
      else if kind = TMlImplies \<or> kind = TMlIff \<or> kind = TMlRewrites then
        p_sorted kind (\<lambda>s. p_fixed (HBinary kind s) 2) st
      else if kind = TMlExists \<or> kind = TMlForall then p_quantifier kind st
      else if kind = TMlMu \<or> kind = TMlNu then p_fixpoint kind st
      else if kind = TMlCeil \<or> kind = TMlFloor then
        p_two_sorted kind (\<lambda>s t. p_fixed (HRoundPredicate kind s t) 1) st
      else if kind = TMlEquals \<or> kind = TMlIn then
        p_two_sorted kind (\<lambda>s t. p_fixed (HBinaryPredicate kind s t) 2) st
      else if kind = TMlDv then p_value (p_domain_value st)
      else if kind = TMlLeftAssoc \<or> kind = TMlRightAssoc then
        p_associative (if kind = TMlLeftAssoc then LeftAssoc else RightAssoc) st
      else fail (p_offset st) (lit ''expected pattern, found '' @ token_kind_text kind))"

lemma start_pattern_at: "p_at st k \<Longrightarrow> start_pattern st = start_at k st"
  by (cases "p_peek st") (simp_all only: p_at_def start_pattern_def start_at_def p_offset_def Let_def option.case)

lemma start_pattern_nowhere: "\<forall>k. \<not> p_at st k \<Longrightarrow> start_pattern st = p_expected st TId"
  by (cases "p_peek st") (auto simp: p_at_def start_pattern_def)

lemma p_at_rest: "p_at st k \<longleftrightarrow> (\<exists>t ts. ps_rest st = t # ts \<and> tok_kind t = k)"
  by (auto simp: p_at_def p_peek_def split: list.splits)

lemma p_variable_follows_eats: "eats [x] st st1 \<Longrightarrow> p_variable_follows st \<longleftrightarrow> p_at st1 TColon"
  by (cases "ps_rest st1") (auto simp: p_variable_follows_def eats_one p_at_rest)

lemma p_sorted_eats:
  assumes "eats (kw k # braces [sort_terms s] @ ts) st st1" and "spelling k \<noteq> None"
  shows "\<exists>st2. eats ts st2 st1 \<and> (\<forall>cont. p_sorted k cont st = cont s st2)"
proof -
  obtain a b where "eats [kw k] st a" "eats (braces [sort_terms s]) a b" "eats ts b st1"
    using assms(1) eats_append [of "kw k # braces [sort_terms s]" ts] by (auto simp: eats_Cons)
  then show ?thesis using assms(2)
    by (intro exI [of _ b]) (auto simp: p_sorted_def p_skip_iff [symmetric] p_one_sort_iff [symmetric])
qed

lemma p_two_sorted_eats:
  assumes "eats (kw k # braces [sort_terms s, sort_terms t] @ ts) st st1" and "spelling k \<noteq> None"
  shows "\<exists>st2. eats ts st2 st1 \<and> (\<forall>cont. p_two_sorted k cont st = cont s t st2)"
proof -
  obtain a b where "eats [kw k] st a" "eats (braces [sort_terms s, sort_terms t]) a b" "eats ts b st1"
    using assms(1) eats_append [of "kw k # braces [sort_terms s, sort_terms t]" ts] by (auto simp: eats_Cons)
  then show ?thesis using assms(2)
    by (intro exI [of _ b]) (auto simp: p_two_sorted_def p_skip_iff [symmetric] p_two_sorts_iff [symmetric])
qed

lemma eats_variable_follow: "eats ((k, x) # ts) st st' \<Longrightarrow> k \<noteq> TLBrace \<Longrightarrow> variable_follow v st"
  unfolding variable_follow_def by (rule eats_sort_follow)

lemma variable_followed: "variable_follow v st \<longleftrightarrow> followed (variable_terms v) st"
  using sort_terms_length [of "var_sort v"]
  by (simp add: variable_follow_def variable_terms_def sort_followed followed_def)

lemma start_application:
  assumes "eats (head_open (HApplication symb)) st st1"
  shows "start_pattern st = head_rest (HApplication symb) st1"
proof -
  obtain a where a: "eats (symbol_terms symb) st a" "eats [kw TLParen] a st1"
    using assms by (auto simp: eats_append)
  obtain b where b: "eats [(TId, symbol_name symb)] st b" "p_at b TLBrace"
    using a(1) by (auto simp: symbol_terms_def list_terms_def eats_Cons p_at_iff)
  then have "p_at b TColon \<longleftrightarrow> False" by (auto simp: p_at_def split: option.splits)
  then have "p_at st TId" "\<not> p_variable_follows st"
    using b p_variable_follows_eats [OF b(1)] by (auto simp: p_at_iff)
  then show ?thesis
    using a by (simp add: start_pattern_at start_at_def p_symbol_iff [symmetric] p_skip_iff [symmetric]
        p_variadic_rest)
qed

lemma start_binder:
  "head_ok (HQuantifier k s v) \<Longrightarrow> eats (head_open (HQuantifier k s v)) st st1 \<Longrightarrow>
   start_pattern st = head_rest (HQuantifier k s v) st1"
  "head_ok (HFixpoint k v) \<Longrightarrow> eats (head_open (HFixpoint k v)) st st1 \<Longrightarrow>
   start_pattern st = head_rest (HFixpoint k v) st1"
proof -
  assume ok: "head_ok (HQuantifier k s v)" and e: "eats (head_open (HQuantifier k s v)) st st1"
  obtain a b c d where e': "eats [kw k] st a" "eats (braces [sort_terms s]) a b" "eats [kw TLParen] b c"
    "eats (variable_terms v) c d" "eats [kw TComma] d st1"
    using e by (auto simp: eats_simps)
  then have "p_variable Element c = Inr (v, d)"
    using ok eats_variable_follow [OF e'(5)] by (simp add: p_variable_iff)
  moreover have "p_at st k" "spelling k \<noteq> None" using e'(1) ok by (auto simp: p_at_iff)
  ultimately show "start_pattern st = head_rest (HQuantifier k s v) st1"
    using ok e' by (auto simp: start_pattern_at start_at_def p_quantifier_def p_skip_iff [symmetric]
        p_one_sort_iff [symmetric] head_rest_def open_frame_def exact_frame_def)
next
  assume ok: "head_ok (HFixpoint k v)" and e: "eats (head_open (HFixpoint k v)) st st1"
  obtain a b c d f where e': "eats [kw k] st a" "eats [kw TLBrace] a b" "eats [kw TRBrace] b c"
    "eats [kw TLParen] c d" "eats (variable_terms v) d f" "eats [kw TComma] f st1"
    using e by (auto simp: eats_simps list_terms_simps)
  then have "p_variable SetVar d = Inr (v, f)"
    using ok eats_variable_follow [OF e'(6)] by (simp add: p_variable_iff)
  moreover have "p_at st k" "spelling k \<noteq> None" using e'(1) ok by (auto simp: p_at_iff)
  ultimately show "start_pattern st = head_rest (HFixpoint k v) st1"
    using ok e' by (auto simp: start_pattern_at start_at_def p_fixpoint_def p_skip_iff [symmetric]
        head_rest_def open_frame_def exact_frame_def)
qed

lemma start_associative:
  assumes "h = HAssociativeApplication a symb \<or> h = HAssociativeOr a s" and "eats (head_open h) st st1"
  shows "start_pattern st = head_rest h st1"
proof -
  define us where "us = (case h of HAssociativeOr _ s \<Rightarrow> kw TMlOr # braces [sort_terms s] | _ \<Rightarrow> symbol_terms symb)"
  have "head_open h = associative_open a @ us @ [kw TLParen]"
    using assms(1) by (auto simp: us_def)
  then have "eats (associative_open a @ us @ [kw TLParen]) st st1" using assms(2) by simp
  then obtain b c d e f where b: "eats [kw (associative_kind a)] st b" "eats [kw TLBrace] b c"
    "eats [kw TRBrace] c d" "eats [kw TLParen] d e" and f: "eats us e f" "eats [kw TLParen] f st1"
    by (auto simp: associative_open_def eats_simps)
  then have at: "p_at st (associative_kind a)" by (auto simp: p_at_iff)
  have sk: "p_skip (associative_kind a) st = Inr b" "p_skip TLBrace b = Inr c" "p_skip TRBrace c = Inr d"
    "p_skip TLParen d = Inr e" "p_skip TLParen f = Inr st1"
    using b f by (cases a; simp add: p_skip_iff)+
  have rest: "start_pattern st = (case p_consume e TMlOr of
      (Some or_token, st5) \<Rightarrow>
        and_then (p_delimited TLBrace TRBrace p_sort st5) (\<lambda>(sorts, st6).
          case sorts of
            [s] \<Rightarrow> p_variadic (HAssociativeOr a s) True st6
          | _ \<Rightarrow> fail (tok_offset or_token)
              (ml ''or under associative syntax requires exactly one sort parameter''))
    | (None, _) \<Rightarrow>
        and_then (p_symbol e) (\<lambda>(symb, st5). p_variadic (HAssociativeApplication a symb) True st5))"
  proof -
    have "start_pattern st = p_associative a st"
      unfolding start_pattern_at [OF at] by (cases a) (simp_all add: start_at_def)
    moreover have "(if a = LeftAssoc then TMlLeftAssoc else TMlRightAssoc) = associative_kind a"
      by (cases a) simp_all
    ultimately show ?thesis using sk by (simp add: p_associative_def)
  qed
  show ?thesis
  proof (cases "h = HAssociativeApplication a symb")
    case True
    then have us: "us = symbol_terms symb" by (simp add: us_def)
    then have "\<not> p_at e TMlOr" using f by (auto simp: symbol_terms_def eats_at)
    then have "\<exists>st'. p_consume e TMlOr = (None, st')"
      by (auto simp: p_consume_def p_at_rest split: list.split)
    then show ?thesis
      using rest f sk us True by (auto simp: p_symbol_iff [symmetric] p_variadic_rest)
  next
    case False
    then have h: "h = HAssociativeOr a s" using assms(1) by blast
    then obtain g where g: "eats [kw TMlOr] e g" "eats (braces [sort_terms s]) g f"
      using f by (auto simp: us_def eats_Cons)
    then obtain t where "p_consume e TMlOr = (Some t, g)"
      by (auto simp: p_consume_iff eats_one terminal_def split: if_splits)
    moreover have "p_delimited TLBrace TRBrace p_sort g = Inr ([s], f)"
      using g by (simp add: sorts_parses is_closer_def)
    ultimately show ?thesis using rest sk h by (simp add: p_variadic_rest)
  qed
qed

lemma start_head:
  assumes "head_ok h" and "eats (head_open h) st st1"
  shows "start_pattern st = head_rest h st1"
proof -
  note rests = start_pattern_at start_at_def p_variadic_rest p_fixed_rest p_skip_iff [symmetric]
  show ?thesis
  proof (cases h)
    case (HUnary k s)
    then obtain st2 where "eats [kw TLParen] st2 st1" "\<forall>cont. p_sorted k cont st = cont s st2" "p_at st k"
      using assms p_sorted_eats [of k s "[kw TLParen]" st st1] by (auto simp: eats_at)
    then show ?thesis using HUnary assms(1) by (auto simp: rests)
  next
    case (HBinary k s)
    then obtain st2 where "eats [kw TLParen] st2 st1" "\<forall>cont. p_sorted k cont st = cont s st2" "p_at st k"
      using assms p_sorted_eats [of k s "[kw TLParen]" st st1] by (auto simp: eats_at)
    then show ?thesis using HBinary assms(1) by (auto simp: rests)
  next
    case (HRoundPredicate k s t)
    then obtain st2 where "eats [kw TLParen] st2 st1" "\<forall>cont. p_two_sorted k cont st = cont s t st2" "p_at st k"
      using assms p_two_sorted_eats [of k s t "[kw TLParen]" st st1] by (auto simp: eats_at)
    then show ?thesis using HRoundPredicate assms(1) by (auto simp: rests)
  next
    case (HBinaryPredicate k s t)
    then obtain st2 where "eats [kw TLParen] st2 st1" "\<forall>cont. p_two_sorted k cont st = cont s t st2" "p_at st k"
      using assms p_two_sorted_eats [of k s t "[kw TLParen]" st st1] by (auto simp: eats_at)
    then show ?thesis using HBinaryPredicate assms(1) by (auto simp: rests)
  next
    case (HAnd s)
    then obtain st2 where "eats [kw TLParen] st2 st1" "\<forall>cont. p_sorted TMlAnd cont st = cont s st2" "p_at st TMlAnd"
      using assms p_sorted_eats [of TMlAnd s "[kw TLParen]" st st1] by (auto simp: eats_at)
    then show ?thesis using HAnd by (auto simp: rests)
  next
    case (HOr s)
    then obtain st2 where "eats [kw TLParen] st2 st1" "\<forall>cont. p_sorted TMlOr cont st = cont s st2" "p_at st TMlOr"
      using assms p_sorted_eats [of TMlOr s "[kw TLParen]" st st1] by (auto simp: eats_at)
    then show ?thesis using HOr by (auto simp: rests)
  qed (use assms start_application start_binder start_associative in blast)+
qed

lemma p_expect_string:
  "(\<exists>t. p_expect st TString = Inr (t, st') \<and> tok_text t = x) \<longleftrightarrow> eats [(TString, x)] st st'"
  by (auto simp: p_expect_iff p_consume_iff eats_one terminal_def split: if_splits)

lemma p_string_value_iff:
  "p_string_value enc st = Inr (v, st') \<longleftrightarrow> (\<exists>x. eats [(TString, x)] st st' \<and> unquote_as x enc = Inr v)"
proof (cases "p_expect st TString")
  case (Inr r)
  then show ?thesis
    unfolding p_expect_string [symmetric]
    by (cases r; cases "unquote_as (tok_text (fst r)) enc") (auto simp: p_string_value_def fail_def)
qed (simp add: p_string_value_def p_expect_string [symmetric])

lemma p_string_pattern_iff:
  "p_string_pattern st = Inr (p, st') \<longleftrightarrow> (\<exists>x v. eats [(TString, x)] st st' \<and> unquote x = Inr v \<and> p = PString v)"
proof (cases "p_expect st TString")
  case (Inr r)
  then show ?thesis
    unfolding p_expect_string [symmetric]
    by (cases r; cases "unquote (tok_text (fst r))") (auto simp: p_string_pattern_def fail_def)
qed (simp add: p_string_pattern_def p_expect_string [symmetric])

lemma p_constant_iff:
  assumes "spelling k \<noteq> None"
  shows "p_constant k f st = Inr (r, st') \<longleftrightarrow>
    (\<exists>s. eats (kw k # braces [sort_terms s] @ parens []) st st' \<and> r = Value (f s))"
proof
  assume "p_constant k f st = Inr (r, st')"
  then show "\<exists>s. eats (kw k # braces [sort_terms s] @ parens []) st st' \<and> r = Value (f s)"
    using assms by (auto simp: p_constant_def and_then_Inr_iff p_skip_iff p_one_sort_iff eats_simps
        list_terms_simps(1))
next
  assume "\<exists>s. eats (kw k # braces [sort_terms s] @ parens []) st st' \<and> r = Value (f s)"
  then obtain s where e: "eats (kw k # braces [sort_terms s] @ [kw TLParen, kw TRParen]) st st'"
    and r: "r = Value (f s)" by (auto simp: list_terms_simps(1))
  obtain a b c where "eats [kw k] st a" "eats (braces [sort_terms s]) a b" "eats [kw TLParen] b c"
    "eats [kw TRParen] c st'"
    using e by (auto simp: eats_simps)
  then show "p_constant k f st = Inr (r, st')"
    using assms r by (simp add: p_constant_def p_skip_iff [symmetric] p_one_sort_iff [symmetric])
qed

lemma p_domain_value_iff:
  "p_domain_value st = Inr (p, st') \<longleftrightarrow>
     (\<exists>s x v. eats (kw TMlDv # braces [sort_terms s] @ parens [[(TString, x)]]) st st'
        \<and> unquote_as x (of_domain_value s) = Inr v \<and> p = PDomainValue s v)"
proof
  assume "p_domain_value st = Inr (p, st')"
  then show "\<exists>s x v. eats (kw TMlDv # braces [sort_terms s] @ parens [[(TString, x)]]) st st'
      \<and> unquote_as x (of_domain_value s) = Inr v \<and> p = PDomainValue s v"
    unfolding list_terms_simps(2) [of TLParen]
    by (auto simp: p_domain_value_def and_then_Inr_iff p_skip_iff p_one_sort_iff p_string_value_iff eats_simps)
      blast
next
  assume "\<exists>s x v. eats (kw TMlDv # braces [sort_terms s] @ parens [[(TString, x)]]) st st'
      \<and> unquote_as x (of_domain_value s) = Inr v \<and> p = PDomainValue s v"
  then obtain s x v a b c d where "eats [kw TMlDv] st a" "eats (braces [sort_terms s]) a b"
    "eats [kw TLParen] b c" and x: "eats [(TString, x)] c d" and "eats [kw TRParen] d st'"
    and v: "unquote_as x (of_domain_value s) = Inr v" and p: "p = PDomainValue s v"
    unfolding list_terms_simps(2) [of TLParen] by (auto simp: eats_simps)
  moreover have "p_string_value (of_domain_value s) c = Inr (v, d)"
    using x v by (auto simp: p_string_value_iff)
  ultimately show "p_domain_value st = Inr (p, st')"
    by (simp add: p_domain_value_def p_skip_iff [symmetric] p_one_sort_iff [symmetric])
qed

lemma start_atom:
  "atom_derives ts p \<Longrightarrow> eats ts st st' \<Longrightarrow> followed ts st' \<Longrightarrow> start_pattern st = Inr (Value p, st')"
proof (induction rule: atom_derives.induct)
  case (string x v)
  then have "p_at st TString" by (auto simp: p_at_iff)
  moreover have "p_string_pattern st = Inr (PString v, st')"
    using string by (auto simp: p_string_pattern_iff)
  ultimately show ?case by (simp add: start_pattern_at start_at_def p_value_def)
next
  case (variable v)
  then have v: "p_variable (var_kind v) st = Inr (v, st')" by (simp add: p_variable_iff variable_followed)
  show ?case
  proof (cases "var_kind v")
    case Element
    then obtain a where "eats [(TId, var_name v)] st a" "p_at a TColon"
      using variable by (auto simp: variable_terms_def eats_Cons p_at_iff)
    then have "p_at st TId" "p_variable_follows st"
      using p_variable_follows_eats by (auto simp: p_at_iff)
    then show ?thesis using v Element by (simp add: start_pattern_at start_at_def p_value_def)
  next
    case SetVar
    then have "p_at st TSetVarId" using variable by (auto simp: variable_terms_def eats_at)
    then show ?thesis using v SetVar by (simp add: start_pattern_at start_at_def p_value_def)
  qed
next
  case (top s)
  then have "p_constant TMlTop PTop st = Inr (Value (PTop s), st')" by (auto simp: p_constant_iff)
  moreover have "p_at st TMlTop" using top by (auto simp: eats_at)
  ultimately show ?case by (simp add: start_pattern_at start_at_def)
next
  case (bottom s)
  then have "p_constant TMlBottom PBottom st = Inr (Value (PBottom s), st')" by (auto simp: p_constant_iff)
  moreover have "p_at st TMlBottom" using bottom by (auto simp: eats_at)
  ultimately show ?case by (simp add: start_pattern_at start_at_def)
next
  case (domain_value x s v)
  then have "p_domain_value st = Inr (PDomainValue s v, st')" by (auto simp: p_domain_value_iff)
  moreover have "p_at st TMlDv" using domain_value by (auto simp: eats_at)
  ultimately show ?case by (simp add: start_pattern_at start_at_def p_value_def)
qed

text \<open>What a state holds, seen from the start of a pattern.\<close>

definition starts :: "parser \<Rightarrow> bool" where
  "starts st \<longleftrightarrow>
     (\<exists>ts p st'. atom_derives ts p \<and> eats ts st st' \<and> followed ts st')
     \<or> (\<exists>h st1. head_ok h \<and> eats (head_open h) st st1)"

lemma starts_head: "head_ok h \<Longrightarrow> eats (head_open h) st st1 \<Longrightarrow> starts st"
  by (auto simp: starts_def)

lemma starts_atom: "atom_derives ts p \<Longrightarrow> eats ts st st' \<Longrightarrow> followed ts st' \<Longrightarrow> starts st"
  by (auto simp: starts_def)

lemma list_terms_last: "\<exists>us. list_terms op cl tss = us @ [kw cl]"
  by (auto simp: list_terms_def)

lemma atom_followed: "atom_derives ts p \<Longrightarrow> \<forall>v. p \<noteq> PVariable v \<Longrightarrow> followed ts st"
proof (induction rule: atom_derives.induct)
  case (string x v)
  then show ?case by (simp add: followed_def)
qed (auto simp: list_terms_def followed_def)

lemma starts_closed: "atom_derives ts p \<Longrightarrow> eats ts st st' \<Longrightarrow> \<forall>v. p \<noteq> PVariable v \<Longrightarrow> starts st"
  using atom_followed starts_atom by blast

lemma fails_simps [simp]:
  "fails (fail n m)" "fails (p_expected st k)" "\<not> fails (Inr x)" "fails (Inl f) \<longleftrightarrow> (\<exists>e. f = Fail e)"
  by (auto simp: fails_def fail_def p_expected_def split: option.split)

lemma fails_bind:
  "only_fails m \<Longrightarrow> (\<And>x. m = Inr x \<Longrightarrow> fails (f x) \<or> Q) \<Longrightarrow> fails (and_then m f) \<or> Q"
  by (cases m) auto

lemma string_clean [simp]: "only_fails (p_string_value enc st)" "only_fails (p_string_pattern st)"
  by (auto simp: p_string_value_def p_string_pattern_def intro!: only_fails_and_then split: sum.split)

lemma atom_clean [simp]: "only_fails (p_domain_value st)" "only_fails (p_constant k f st)"
  by (auto simp: p_domain_value_def p_constant_def intro!: only_fails_and_then)

lemma starts_p_sorted:
  assumes "spelling k \<noteq> None" and "\<And>s st2. fails (cont s st2) \<or> (\<exists>st3. eats [kw TLParen] st2 st3)"
    and "\<And>s. \<exists>h. head_ok h \<and> head_open h = kw k # braces [sort_terms s] @ [kw TLParen]"
  shows "fails (p_sorted k cont st) \<or> starts st"
  unfolding p_sorted_def
proof (intro fails_bind; clarsimp)
  fix st1 s st2
  assume "p_skip k st = Inr st1" and "p_one_sort st1 = Inr (s, st2)"
  then have e: "eats (kw k # braces [sort_terms s]) st st2"
    using assms(1) by (auto simp: p_skip_iff p_one_sort_iff eats_Cons)
  obtain h where h: "head_ok h" "head_open h = (kw k # braces [sort_terms s]) @ [kw TLParen]"
    using assms(3) [of s] by auto
  assume "\<not> starts st"
  then have "\<not> eats [kw TLParen] st2 st3" for st3
    using starts_head [OF h(1), of st st3] e unfolding h(2) eats_append by blast
  then show "fails (cont s st2)" using assms(2) by blast
qed

lemma starts_p_two_sorted:
  assumes "spelling k \<noteq> None" and "\<And>s t st2. fails (cont s t st2) \<or> (\<exists>st3. eats [kw TLParen] st2 st3)"
    and "\<And>s t. \<exists>h. head_ok h \<and> head_open h = kw k # braces [sort_terms s, sort_terms t] @ [kw TLParen]"
  shows "fails (p_two_sorted k cont st) \<or> starts st"
  unfolding p_two_sorted_def
proof (intro fails_bind; clarsimp)
  fix st1 s t st2
  assume "p_skip k st = Inr st1" and "p_two_sorts st1 = Inr ((s, t), st2)"
  then have e: "eats (kw k # braces [sort_terms s, sort_terms t]) st st2"
    using assms(1) by (auto simp: p_skip_iff p_two_sorts_iff eats_Cons)
  obtain h where h: "head_ok h" "head_open h = (kw k # braces [sort_terms s, sort_terms t]) @ [kw TLParen]"
    using assms(3) [of s t] by auto
  assume "\<not> starts st"
  then have "\<not> eats [kw TLParen] st2 st3" for st3
    using starts_head [OF h(1), of st st3] e unfolding h(2) eats_append by blast
  then show "fails (cont s t st2)" using assms(2) by blast
qed

lemma p_variadic_paren: "fails (p_variadic h b st) \<or> (\<exists>st'. eats [kw TLParen] st st')"
  unfolding p_variadic_def by (rule fails_bind) (auto simp: p_skip_iff)

lemma p_fixed_paren: "fails (p_fixed h n st) \<or> (\<exists>st'. eats [kw TLParen] st st')"
  unfolding p_fixed_def by (rule fails_bind) (auto simp: p_skip_iff)

lemma binder_clean: "only_fails (p_quantifier k st)" "only_fails (p_fixpoint k st)"
  by (auto simp: p_quantifier_def p_fixpoint_def intro!: only_fails_and_then)

lemma starts_p_quantifier:
  assumes "k = TMlExists \<or> k = TMlForall"
  shows "fails (p_quantifier k st) \<or> starts st"
proof (cases "p_quantifier k st")
  case (Inr r)
  then obtain s v e where "head_ok (HQuantifier k s v)" "eats (head_open (HQuantifier k s v)) st e"
    using assms by (auto simp: p_quantifier_def p_skip_iff p_one_sort_iff p_variable_iff eats_simps
        elim!: and_thenE) (blast+)
  then show ?thesis using starts_head by blast
qed (metis binder_clean(1) fails_simps(4) only_fails_simps(2))

lemma starts_p_fixpoint:
  assumes "k = TMlMu \<or> k = TMlNu"
  shows "fails (p_fixpoint k st) \<or> starts st"
proof (cases "p_fixpoint k st")
  case (Inr r)
  then obtain v e where "head_ok (HFixpoint k v)" "eats (head_open (HFixpoint k v)) st e"
    using assms by (auto simp: p_fixpoint_def p_skip_iff p_variable_iff eats_simps list_terms_simps(1)
        elim!: and_thenE) (blast+)
  then show ?thesis using starts_head by blast
qed (metis binder_clean(2) fails_simps(4) only_fails_simps(2))

lemma starts_p_associative: "fails (p_associative a st) \<or> starts st"
  unfolding p_associative_def
proof (intro fails_bind; clarsimp)
  fix b c d e
  assume "p_skip (if a = LeftAssoc then TMlLeftAssoc else TMlRightAssoc) st = Inr b"
    "p_skip TLBrace b = Inr c" "p_skip TRBrace c = Inr d" "p_skip TLParen d = Inr e"
  then have e: "eats (associative_open a) st e"
    by (cases a) (auto simp: associative_open_def p_skip_iff eats_simps)
  assume no: "\<not> starts st"
  obtain r e' where c: "p_consume e TMlOr = (r, e')" by (cases "p_consume e TMlOr")
  have "fails (and_then (p_symbol e) (\<lambda>(symb, st5). p_variadic (HAssociativeApplication a symb) True st5))
      \<or> starts st"
  proof (intro fails_bind; clarsimp)
    fix symb f assume "p_symbol e = Inr (symb, f)"
    then have "starts st" if "eats [kw TLParen] f g" for g
      using e that by (intro starts_head [of "HAssociativeApplication a symb" st g])
        (auto simp: p_symbol_iff eats_append)
    then show "fails (p_variadic (HAssociativeApplication a symb) True f)"
      using no p_variadic_paren by blast
  qed
  moreover have "fails (and_then (p_delimited TLBrace TRBrace p_sort f) (\<lambda>(sorts, st6).
      case sorts of
        [s] \<Rightarrow> p_variadic (HAssociativeOr a s) True st6
      | _ \<Rightarrow> fail (tok_offset t) (ml ''or under associative syntax requires exactly one sort parameter'')))
      \<or> starts st"
    if t: "p_consume e TMlOr = (Some t, f)" for t f
  proof (intro fails_bind; clarsimp)
    fix ss g assume ss: "p_delimited TLBrace TRBrace p_sort f = Inr (ss, g)"
    have or: "eats [kw TMlOr] e f" using t by (auto simp: p_consume_iff eats_one terminal_def)
    have "starts st" if "ss = [s]" "eats [kw TLParen] g h" for s h
      using e that ss or eats_append [of "associative_open a"]
      by (intro starts_head [of "HAssociativeOr a s" st h])
        (auto simp: eats_simps sorts_parses is_closer_def)
    then show "fails (case ss of
        [s] \<Rightarrow> p_variadic (HAssociativeOr a s) True g
      | _ \<Rightarrow> fail (tok_offset t) (ml ''or under associative syntax requires exactly one sort parameter''))"
      using no p_variadic_paren [of "HAssociativeOr a (hd ss)" True g] by (auto split: list.split)
  qed
  ultimately show "fails (case p_consume e TMlOr of
      (Some or_token, st5) \<Rightarrow>
        and_then (p_delimited TLBrace TRBrace p_sort st5) (\<lambda>(sorts, st6).
          case sorts of
            [s] \<Rightarrow> p_variadic (HAssociativeOr a s) True st6
          | _ \<Rightarrow> fail (tok_offset or_token)
              (ml ''or under associative syntax requires exactly one sort parameter''))
    | (None, _) \<Rightarrow>
        and_then (p_symbol e) (\<lambda>(symb, st5). p_variadic (HAssociativeApplication a symb) True st5))"
    using no c by (cases r) auto
qed

lemma fails_or:
  "only_fails r \<Longrightarrow> (\<And>x. r = Inr x \<Longrightarrow> Q) \<Longrightarrow> fails r \<or> Q"
  by (cases r) auto

lemma p_value_clean [simp]: "only_fails (p_value r) \<longleftrightarrow> only_fails r"
  by (cases r) (auto simp: p_value_def)

lemma variable_value_clean:
  "only_fails (p_value (and_then (p_variable kind st) (\<lambda>(v, st1). Inr (PVariable v, st1))))"
  by (auto intro!: only_fails_and_then)

lemma starts_variable:
  "p_value (and_then (p_variable kind st) (\<lambda>(v, st1). Inr (PVariable v, st1))) = Inr r \<Longrightarrow> starts st"
  by (auto simp: p_value_def p_variable_iff variable_followed elim!: and_thenE
      intro: starts_atom [OF atom_derives.variable])

lemma starts_application: "fails (and_then (p_symbol st) (\<lambda>(symb, st1). p_variadic (HApplication symb) False st1)) \<or> starts st"
proof (intro fails_bind; clarsimp)
  fix symb f assume "p_symbol st = Inr (symb, f)" and no: "\<not> starts st"
  then have "starts st" if "eats [kw TLParen] f g" for g
    using that by (intro starts_head [of "HApplication symb" st g]) (auto simp: p_symbol_iff eats_append)
  then show "fails (p_variadic (HApplication symb) False f)"
    using no p_variadic_paren by blast
qed

lemma starts_connectives:
  "fails (p_sorted TMlAnd (\<lambda>s. p_variadic (HAnd s) False) st) \<or> starts st"
  "fails (p_sorted TMlOr (\<lambda>s. p_variadic (HOr s) False) st) \<or> starts st"
  "k = TMlNot \<or> k = TMlNext \<Longrightarrow> fails (p_sorted k (\<lambda>s. p_fixed (HUnary k s) 1) st) \<or> starts st"
  "k = TMlImplies \<or> k = TMlIff \<or> k = TMlRewrites \<Longrightarrow>
    fails (p_sorted k (\<lambda>s. p_fixed (HBinary k s) 2) st) \<or> starts st"
  "k = TMlCeil \<or> k = TMlFloor \<Longrightarrow>
    fails (p_two_sorted k (\<lambda>s t. p_fixed (HRoundPredicate k s t) 1) st) \<or> starts st"
  "k = TMlEquals \<or> k = TMlIn \<Longrightarrow>
    fails (p_two_sorted k (\<lambda>s t. p_fixed (HBinaryPredicate k s t) 2) st) \<or> starts st"
proof -
  note parens = p_variadic_paren p_fixed_paren
  show "fails (p_sorted TMlAnd (\<lambda>s. p_variadic (HAnd s) False) st) \<or> starts st"
    by (rule starts_p_sorted) (simp, rule parens, rule exI [of _ "HAnd _"], simp)
  show "fails (p_sorted TMlOr (\<lambda>s. p_variadic (HOr s) False) st) \<or> starts st"
    by (rule starts_p_sorted) (simp, rule parens, rule exI [of _ "HOr _"], simp)
  show "k = TMlNot \<or> k = TMlNext \<Longrightarrow> fails (p_sorted k (\<lambda>s. p_fixed (HUnary k s) 1) st) \<or> starts st"
    by (rule starts_p_sorted) (fastforce, rule parens, rule exI [of _ "HUnary k _"], simp)
  show "k = TMlImplies \<or> k = TMlIff \<or> k = TMlRewrites \<Longrightarrow>
    fails (p_sorted k (\<lambda>s. p_fixed (HBinary k s) 2) st) \<or> starts st"
    by (rule starts_p_sorted) (fastforce, rule parens, rule exI [of _ "HBinary k _"], simp)
  show "k = TMlCeil \<or> k = TMlFloor \<Longrightarrow>
    fails (p_two_sorted k (\<lambda>s t. p_fixed (HRoundPredicate k s t) 1) st) \<or> starts st"
    by (rule starts_p_two_sorted) (fastforce, rule parens, rule exI [of _ "HRoundPredicate k _ _"], simp)
  show "k = TMlEquals \<or> k = TMlIn \<Longrightarrow>
    fails (p_two_sorted k (\<lambda>s t. p_fixed (HBinaryPredicate k s t) 2) st) \<or> starts st"
    by (rule starts_p_two_sorted) (fastforce, rule parens, rule exI [of _ "HBinaryPredicate k _ _"], simp)
qed

lemma start_at_total: "fails (start_at k st) \<or> starts st"
proof -
  have "fails (start_at k st) \<or> starts st"
    if "k \<in> {TMlAnd, TMlOr, TMlNot, TMlNext, TMlImplies, TMlIff, TMlRewrites, TMlCeil, TMlFloor, TMlEquals, TMlIn}"
    using that starts_connectives [where st = st] by (auto simp: start_at_def)
  moreover have "fails (start_at k st) \<or> starts st" if "k = TId"
    using that starts_application fails_or [OF variable_value_clean starts_variable, of Element st]
    by (auto simp: start_at_def)
  moreover have "fails (start_at k st) \<or> starts st" if "k = TSetVarId"
    using that fails_or [OF variable_value_clean starts_variable, of SetVar st] by (auto simp: start_at_def)
  moreover have "fails (start_at k st) \<or> starts st" if "k = TString"
  proof -
    have "fails (p_value (p_string_pattern st)) \<or> starts st"
      by (rule fails_or) (auto simp: p_value_def p_string_pattern_iff elim!: and_thenE
          intro: starts_closed [OF atom_derives.string])
    then show ?thesis using that by (simp add: start_at_def)
  qed
  moreover have "fails (start_at k st) \<or> starts st" if "k = TMlDv"
  proof -
    have "fails (p_value (p_domain_value st)) \<or> starts st"
      by (rule fails_or) (auto simp: p_value_def p_domain_value_iff elim!: and_thenE
          intro: starts_closed [OF atom_derives.domain_value])
    then show ?thesis using that by (simp add: start_at_def)
  qed
  moreover have "fails (start_at k st) \<or> starts st" if "k = TMlTop"
  proof -
    have "fails (p_constant TMlTop PTop st) \<or> starts st"
      by (rule fails_or) (auto simp: p_constant_iff intro: starts_closed [OF atom_derives.top])
    then show ?thesis using that by (simp add: start_at_def)
  qed
  moreover have "fails (start_at k st) \<or> starts st" if "k = TMlBottom"
  proof -
    have "fails (p_constant TMlBottom PBottom st) \<or> starts st"
      by (rule fails_or) (auto simp: p_constant_iff intro: starts_closed [OF atom_derives.bottom])
    then show ?thesis using that by (simp add: start_at_def)
  qed
  moreover have "fails (start_at k st) \<or> starts st" if "k = TMlExists \<or> k = TMlForall"
    using that starts_p_quantifier [OF that] by (auto simp: start_at_def)
  moreover have "fails (start_at k st) \<or> starts st" if "k = TMlMu \<or> k = TMlNu"
    using that starts_p_fixpoint [OF that] by (auto simp: start_at_def)
  moreover have "fails (start_at k st) \<or> starts st" if "k = TMlLeftAssoc \<or> k = TMlRightAssoc"
    using that starts_p_associative by (auto simp: start_at_def)
  ultimately show ?thesis by (cases k) (simp_all add: start_at_def)
qed

lemma start_pattern_total: "fails (start_pattern st) \<or> starts st"
proof (cases "\<exists>k. p_at st k")
  case True
  then show ?thesis using start_at_total start_pattern_at by metis
next
  case False
  then have "start_pattern st = p_expected st TId" by (intro start_pattern_nowhere) blast
  then show ?thesis by simp
qed

end
