(* ===== verification/Kore_Pattern_Machine.thy ===== *)
theory Kore_Pattern_Machine
  imports Kore_Pattern_Grammar
begin

text \<open>
  The loop of the pattern parser against the grammar: what the grammar derives it reads
  (\<open>pattern_loop_complete\<close>), and on any tokens it fails with an error of the source or has read a
  derivation (\<open>pattern_loop_total\<close>); together \<open>p_pattern_iff\<close>.
\<close>

section \<open>The loop by the value it holds\<close>

lemma pattern_loop_None:
  "pattern_loop st stack None =
     and_then (start_pattern st) (\<lambda>(started, st1).
       case started of
         Frame frame \<Rightarrow> pattern_loop st1 (frame # stack) None
       | Value p \<Rightarrow> pattern_loop st1 stack (Some p))"
  by (subst pattern_loop.simps, cases "start_pattern st")
    (auto simp: pattern_step_def pattern_loop.simps [of _ _ "Some _"] split: started.split)

lemma pattern_loop_end: "pattern_loop st [] (Some p) = Inr (p, st)"
  by (subst pattern_loop.simps, simp add: pattern_step_def pattern_advance_def)

lemma pattern_loop_Some:
  "pattern_loop st (frame # stack) (Some p) =
     (let frame = frame\<lparr>pf_arguments := pf_arguments frame @ [p]\<rparr> in
      and_then (pattern_complete frame st) (\<lambda>(complete, st1).
        if \<not> complete then pattern_loop st1 (frame # stack) None
        else
          and_then (p_skip TRParen st1) (\<lambda>st2.
          and_then (if pf_outer_close frame then p_skip TRParen st2 else Inr st2) (\<lambda>st3.
          and_then (finish_head (pf_head frame) (pf_arguments frame) (p_offset st3)) (\<lambda>q.
            pattern_loop st3 stack (Some q))))))"
proof -
  have *: "(case and_then m f of Inl e \<Rightarrow> Inl e | Inr q \<Rightarrow> g q) =
      and_then m (\<lambda>x. case f x of Inl e \<Rightarrow> Inl e | Inr q \<Rightarrow> g q)"
    for m :: "fault + 'x" and f :: "'x \<Rightarrow> fault + 'y" and g :: "'y \<Rightarrow> fault + 'z"
    by (cases m) auto
  show ?thesis
    by (subst pattern_loop.simps)
      (auto simp: pattern_step_def pattern_advance_def Let_def * intro!: and_then_cong split: prod.split)
qed

text \<open>One operand of an open frame: the loop goes on to the next one or finishes the head.\<close>

definition more_operands :: "head \<Rightarrow> nat \<Rightarrow> bool" where
  "more_operands h n \<longleftrightarrow> (case head_arity h of Variadic \<Rightarrow> True | Exact m \<Rightarrow> n < m)"

definition all_operands :: "head \<Rightarrow> nat \<Rightarrow> bool" where
  "all_operands h n \<longleftrightarrow> (case head_arity h of Variadic \<Rightarrow> True | Exact m \<Rightarrow> n = m)"

lemma pattern_loop_comma:
  assumes "eats [kw TComma] st st'" and "more_operands h (Suc (length args))"
  shows "pattern_loop st (open_frame h args # stack) (Some p) =
    pattern_loop st' (open_frame h (args @ [p]) # stack) None"
proof -
  have "p_skip TComma st = Inr st'" "p_accept TComma st = Some st'"
    using assms(1) by (simp_all add: p_skip_iff p_accept_Some)
  then have "pattern_complete (open_frame h (args @ [p])) st = Inr (False, st')"
    using assms(2) by (auto simp: pattern_complete_def open_frame_def more_operands_def split: arity.splits)
  then show ?thesis by (simp add: pattern_loop_Some open_frame_def Let_def)
qed

lemma eats_close:
  "eats (head_close h) st st' \<longleftrightarrow>
     (\<exists>st1. eats [kw TRParen] st st1 \<and> (if head_outer h then eats [kw TRParen] st1 st' else st' = st1))"
  by (auto simp: head_close_def eats_Cons)

lemma pattern_loop_close:
  assumes "eats (head_close h) st st'" and "all_operands h (Suc (length args))"
    and "finish_head h (args @ [p]) (p_offset st') = Inr q"
  shows "pattern_loop st (open_frame h args # stack) (Some p) = pattern_loop st' stack (Some q)"
proof -
  obtain st1 where c: "eats [kw TRParen] st st1"
    "if head_outer h then eats [kw TRParen] st1 st' else st' = st1"
    using assms(1) by (auto simp: eats_close)
  then have "p_accept TComma st = None" "p_skip TRParen st = Inr st1"
    "(if head_outer h then p_skip TRParen st1 else Inr st1) = Inr st'"
    by (auto simp: p_accept_None eats_at p_skip_iff split: if_splits)
  moreover from this have "pattern_complete (open_frame h (args @ [p])) st = Inr (True, st)"
    using assms(2) by (auto simp: pattern_complete_def open_frame_def all_operands_def split: arity.splits)
  ultimately show ?thesis
    using assms(3) by (simp add: pattern_loop_Some open_frame_def Let_def)
qed

section \<open>What the grammar derives is read\<close>

definition ready :: "terminal list \<Rightarrow> pattern \<Rightarrow> bool" where
  "ready ts p \<longleftrightarrow> (\<forall>st st' stack. eats ts st st' \<longrightarrow> followed ts st' \<longrightarrow>
     pattern_loop st stack None = pattern_loop st' stack (Some p))"

lemma readyD:
  "ready ts p \<Longrightarrow> eats ts st st' \<Longrightarrow> followed ts st' \<Longrightarrow>
   pattern_loop st stack None = pattern_loop st' stack (Some p)"
  by (auto simp: ready_def)

lemma eats_close_followed: "eats (head_close h) st st' \<Longrightarrow> followed ts st"
  by (auto simp: eats_close intro: eats_followed)

lemma pattern_loop_frame:
  assumes "list_all2 ready tss ps" and "ps \<noteq> []" and "eats (commas tss @ head_close h) st st'"
    and "all_operands h (length args + length ps)"
    and "finish_head h (args @ ps) (p_offset st') = Inr q"
  shows "pattern_loop st (open_frame h args # stack) None = pattern_loop st' stack (Some q)"
  using assms
proof (induction tss ps arbitrary: st args rule: list_all2_induct)
  case (Cons ts tss p ps)
  show ?case
  proof (cases "ps = []")
    case True
    then have "tss = []" using Cons.hyps by simp
    then obtain st1 where st1: "eats ts st st1" "eats (head_close h) st1 st'"
      using Cons.prems by (auto simp: eats_append)
    then have "pattern_loop st (open_frame h args # stack) None
        = pattern_loop st1 (open_frame h args # stack) (Some p)"
      using Cons.hyps(1) eats_close_followed by (intro readyD)
    also have "\<dots> = pattern_loop st' stack (Some q)"
      using st1(2) Cons.prems(3,4) True by (intro pattern_loop_close) simp_all
    finally show ?thesis .
  next
    case False
    then obtain us uss where tss: "tss = us # uss" using Cons.hyps by (cases tss) auto
    then obtain st1 st2 where st1: "eats ts st st1" "eats [kw TComma] st1 st2"
      "eats (commas tss @ head_close h) st2 st'"
      using Cons.prems(2) by (auto simp: eats_append eats_Cons)
    then have "pattern_loop st (open_frame h args # stack) None
        = pattern_loop st1 (open_frame h args # stack) (Some p)"
      using Cons.hyps(1) by (intro readyD) (auto intro: eats_followed)
    also have "\<dots> = pattern_loop st2 (open_frame h (args @ [p]) # stack) None"
      using st1(2) Cons.prems(3) False
      by (intro pattern_loop_comma) (auto simp: more_operands_def all_operands_def split: arity.splits)
    also have "\<dots> = pattern_loop st' stack (Some q)"
      using Cons.IH [OF False st1(3), of "args @ [p]"] Cons.prems(3,4) by simp
    finally show ?thesis .
  qed
qed simp

lemma sort_starts_open: "\<exists>k x ts'. sort_terms s = (k, x) # ts' \<and> \<not> is_closer k"
  using sort_terms_start [of s] by (auto simp: is_closer_def)

lemma atom_starts: "atom_derives ts p \<Longrightarrow> \<exists>k x ts'. ts = (k, x) # ts' \<and> \<not> is_closer k"
  by (induction rule: atom_derives.induct)
    (auto simp: is_closer_def variable_terms_def split: variable_kind.split)

lemma associative_kind_open:
  "associative_kind a \<noteq> TRParen" "associative_kind a \<noteq> TRBrace" "associative_kind a \<noteq> TRBracket"
  by (cases a; simp)+

lemma head_starts: "head_ok h \<Longrightarrow> \<exists>k x ts'. head_open h = (k, x) # ts' \<and> \<not> is_closer k"
  by (cases h) (auto simp: is_closer_def symbol_terms_def associative_open_def associative_kind_open)

lemma pattern_starts: "pattern_derives ts p \<Longrightarrow> \<exists>k x ts'. ts = (k, x) # ts' \<and> \<not> is_closer k"
  using pattern_derives_built [of ts p] atom_starts head_starts by (fastforce simp: built_def)

lemma commas_length: "ts \<in> set tss \<Longrightarrow> length ts \<le> length (commas tss)"
  by (induction tss rule: commas.induct) auto

lemma pattern_derives_ready: "pattern_derives ts p \<Longrightarrow> ready ts p"
proof (induction "length ts" arbitrary: ts p rule: less_induct)
  case less
  show ?case
    unfolding ready_def
  proof (intro allI impI)
    fix st st' stack
    assume e: "eats ts st st'" and f: "followed ts st'"
    consider (atom) "atom_derives ts p" | (head) h tss ps where "built h tss ps ts p"
      using pattern_derives_built [OF less.prems] by blast
    then show "pattern_loop st stack None = pattern_loop st' stack (Some p)"
    proof cases
      case atom
      then show ?thesis using start_atom [OF atom e f] by (simp add: pattern_loop_None)
    next
      case head
      then have ts: "ts = head_open h @ commas tss @ head_close h" and h: "head_ok h"
        and d: "list_all2 pattern_derives tss ps" and ops: "operands_ok h (length ps)"
        and fin: "finish_head h ps n = Inr p" for n
        by (auto simp: built_def)
      obtain st1 where st1: "eats (head_open h) st st1" "eats (commas tss @ head_close h) st1 st'"
        using e unfolding ts eats_append by blast
      have start: "start_pattern st = head_rest h st1" by (rule start_head [OF h st1(1)])
      show ?thesis
      proof (cases "ps = []")
        case True
        then have "head_arity h = Variadic" "\<not> head_outer h" and "tss = []"
          using ops d h by (auto simp: operands_ok_def split: arity.splits elim: head_arity.elims)
        then have "head_rest h st1 = Inr (Value p, st')"
          using st1(2) fin True
          by (simp add: head_rest_def variadic_rest_def eats_close p_accept_Some [symmetric])
        then show ?thesis using start by (simp add: pattern_loop_None)
      next
        case False
        have "length us < length ts" if "us \<in> set tss" for us
          using commas_length [OF that] head_starts [OF h] ts by auto
        then have rd: "list_all2 ready tss ps"
          using d less.hyps by (auto simp: list_all2_conv_all_nth)
        obtain us uss where "tss = us # uss" "pattern_derives us (hd ps)" using False d by (cases tss; cases ps) auto
        then have "\<not> p_at st1 TRParen"
          using st1(2) pattern_starts [of us "hd ps"] by (cases uss) (auto simp: eats_at is_closer_def)
        then have "p_accept TRParen st1 = None" by (simp add: p_accept_None)
        then have "head_rest h st1 = Inr (Frame (open_frame h []), st1)"
          by (auto simp: head_rest_def variadic_rest_def split: arity.split)
        then show ?thesis
          using pattern_loop_frame [OF rd False st1(2), of "[]" p stack] ops fin start
          by (simp add: pattern_loop_None all_operands_def operands_ok_def)
      qed
    qed
  qed
qed

section \<open>What is read the grammar derives\<close>

lemma and_then_fail [simp]: "and_then (fail n m) f = fail n m"
  by (simp add: fail_def)

definition pattern_ahead :: "parser \<Rightarrow> bool" where
  "pattern_ahead st \<longleftrightarrow> (\<exists>ts p st'. pattern_derives ts p \<and> eats ts st st' \<and> followed ts st')"

definition operands_ahead :: "head \<Rightarrow> nat \<Rightarrow> parser \<Rightarrow> bool" where
  "operands_ahead h n st \<longleftrightarrow>
     (\<exists>tss ps st'. ps \<noteq> [] \<and> list_all2 pattern_derives tss ps \<and> all_operands h (n + length ps)
        \<and> eats (commas tss @ head_close h) st st')"

text \<open>After an operand, the loop fails, reads a comma, or reads what closes the head.\<close>

lemma after_operand:
  assumes "more_operands h n \<or> head_arity h = Exact (Suc n)" and "n = length args"
  shows "fails (pattern_loop st (open_frame h args # stack) (Some p))
    \<or> (more_operands h (Suc n) \<and> (\<exists>st'. eats [kw TComma] st st'))
    \<or> (all_operands h (Suc n) \<and> (\<exists>st'. eats (head_close h) st st'))"
proof -
  let ?frame = "open_frame h (args @ [p])"
  let ?close = "and_then (p_skip TRParen st) (\<lambda>st2.
      and_then (if head_outer h then p_skip TRParen st2 else Inr st2) (\<lambda>st3.
      and_then (finish_head h (args @ [p]) (p_offset st3)) (\<lambda>q. pattern_loop st3 stack (Some q))))"
  have close: "fails ?close \<or> (\<exists>st'. eats (head_close h) st st')"
  proof (cases "p_skip TRParen st")
    case (Inl f)
    then show ?thesis using fails_skip by auto
  next
    case (Inr st1)
    then show ?thesis
      by (cases "head_outer h"; cases "p_skip TRParen st1")
        (auto simp: eats_close p_skip_iff [symmetric] dest: fails_skip)
  qed
  show ?thesis
  proof (cases "head_arity h")
    case Variadic
    then show ?thesis
      using close by (cases "p_accept TComma st")
        (auto simp: more_operands_def all_operands_def pattern_loop_Some pattern_complete_def open_frame_def
          Let_def p_accept_Some)
  next
    case (Exact m)
    show ?thesis
    proof (cases "Suc n < m")
      case True
      have "fails (p_skip TComma st) \<or> (\<exists>st'. eats [kw TComma] st st')"
        by (rule fails_or) (auto simp: p_skip_iff)
      then show ?thesis
        using True Exact assms
        by (auto simp: more_operands_def pattern_loop_Some pattern_complete_def open_frame_def Let_def fails_def)
    next
      case False
      then have "m = Suc n" using Exact assms by (auto simp: more_operands_def)
      then show ?thesis
        using close Exact assms
        by (auto simp: all_operands_def pattern_loop_Some pattern_complete_def open_frame_def Let_def)
    qed
  qed
qed

lemma pattern_frame_total:
  assumes IH: "\<And>st' stack args. length (ps_rest st') < length (ps_rest st) \<Longrightarrow>
      more_operands h (length args) \<Longrightarrow>
      fails (pattern_loop st' (open_frame h args # stack) None) \<or> operands_ahead h (length args) st'"
    and head: "\<And>stack. fails (pattern_loop st stack None) \<or> pattern_ahead st"
    and more: "more_operands h (length args)"
  shows "fails (pattern_loop st (open_frame h args # stack) None) \<or> operands_ahead h (length args) st"
  using head [of "open_frame h args # stack"]
proof
  assume "pattern_ahead st"
  then obtain ts p st1 where p: "pattern_derives ts p" "eats ts st st1" "followed ts st1"
    by (auto simp: pattern_ahead_def)
  note eq = readyD [OF pattern_derives_ready [OF p(1)] p(2,3), of "open_frame h args # stack"]
  have len: "length (ps_rest st1) < length (ps_rest st)"
    using eats_length [OF p(2)] pattern_starts [OF p(1)] by auto
  consider "fails (pattern_loop st1 (open_frame h args # stack) (Some p))"
    | (comma) st2 where "more_operands h (Suc (length args))" "eats [kw TComma] st1 st2"
    | (close) st2 where "all_operands h (Suc (length args))" "eats (head_close h) st1 st2"
    using after_operand [of h "length args" args st1 stack p] more by auto
  then show ?thesis
  proof cases
    case 1
    then show ?thesis by (simp add: eq)
  next
    case comma
    have "length (ps_rest st2) < length (ps_rest st)" using len eats_length [OF comma(2)] by simp
    from IH [OF this, of "args @ [p]" stack] comma(1)
    have "fails (pattern_loop st2 (open_frame h (args @ [p]) # stack) None)
        \<or> operands_ahead h (Suc (length args)) st2" by simp
    moreover have "operands_ahead h (length args) st" if ahead: "operands_ahead h (Suc (length args)) st2"
    proof -
      obtain tss ps st3 where *: "ps \<noteq> []" "list_all2 pattern_derives tss ps"
        "all_operands h (Suc (length args) + length ps)" "eats (commas tss @ head_close h) st2 st3"
        using ahead by (auto simp: operands_ahead_def)
      obtain us uss where tss: "tss = us # uss" using * by (cases tss) auto
      have "eats (commas (ts # tss) @ head_close h) st st3"
        unfolding tss using p(2) comma(2) *(4) tss by (auto simp: eats_append eats_Cons)
      then show ?thesis unfolding operands_ahead_def using * p(1)
        by (intro exI [of _ "ts # tss"] exI [of _ "p # ps"] exI [of _ st3]) auto
    qed
    ultimately show ?thesis by (auto simp: eq pattern_loop_comma [OF comma(2,1)])
  next
    case close
    then have "eats (commas [ts] @ head_close h) st st2" using p(2) by (auto simp: eats_append)
    then show ?thesis unfolding operands_ahead_def using close(1) p(1)
      by (intro disjI2 exI [of _ "[ts]"] exI [of _ "[p]"] exI [of _ st2]) auto
  qed
qed simp

lemma head_close_followed: "followed (head_open h @ us @ head_close h) st"
  by (simp add: head_close_def followed_def)

lemma operands_pattern_ahead:
  assumes "head_ok h" and "eats (head_open h) st st1" and "operands_ahead h 0 st1"
  shows "pattern_ahead st"
proof -
  obtain tss ps st' where *: "ps \<noteq> []" "list_all2 pattern_derives tss ps" "all_operands h (length ps)"
    "eats (commas tss @ head_close h) st1 st'"
    using assms(3) by (auto simp: operands_ahead_def)
  then have "operands_ok h (length ps)" by (auto simp: operands_ok_def all_operands_def)
  then obtain p where "pattern_derives (head_open h @ commas tss @ head_close h) p"
    using head_derives [OF assms(1) *(2)] by blast
  moreover have "eats (head_open h @ commas tss @ head_close h) st st'"
    using assms(2) *(4) unfolding eats_append [of "head_open h"] by blast
  ultimately show ?thesis using head_close_followed unfolding pattern_ahead_def by blast
qed

lemma empty_head:
  assumes h: "head_ok h" "eats (head_open h) st st1" "head_arity h = Variadic"
    and close: "eats [kw TRParen] st1 st2"
  shows "fails (head_rest h st1) \<or> pattern_ahead st"
proof (cases "head_outer h")
  case True
  then obtain a x where "h = HAssociativeApplication a x \<or> (\<exists>s. h = HAssociativeOr a s)"
    by (cases h) auto
  then have "fails (head_rest h st1)"
    using close by (cases "p_skip TRParen st2")
      (auto simp: head_rest_def variadic_rest_def p_accept_Some [symmetric] dest: fails_skip)
  then show ?thesis ..
next
  case False
  then have "operands_ok h (length [])" using h(3) by (simp add: operands_ok_def)
  then obtain p where p: "pattern_derives (head_open h @ commas [] @ head_close h) p"
    using head_derives [OF h(1), of "[]" "[]" 0] by auto
  moreover have "eats (head_open h @ commas [] @ head_close h) st st2"
    using h(2) close False unfolding eats_append [of "head_open h"] by (auto simp: head_close_def)
  ultimately show ?thesis using head_close_followed unfolding pattern_ahead_def by blast
qed

lemma pattern_loop_total:
  "(fails (pattern_loop st stack None) \<or> pattern_ahead st) \<and>
   (more_operands h (length args) \<longrightarrow>
    fails (pattern_loop st (open_frame h args # stack') None) \<or> operands_ahead h (length args) st)"
proof (induction "length (ps_rest st)" arbitrary: st stack stack' h args rule: less_induct)
  case less
  have head: "fails (pattern_loop st stack None) \<or> pattern_ahead st" for stack
  proof -
    consider "fails (start_pattern st)"
      | (atom) ts p st' where "atom_derives ts p" "eats ts st st'" "followed ts st'"
      | (head) h st1 where "head_ok h" "eats (head_open h) st st1"
      using start_pattern_total [of st] by (auto simp: starts_def)
    then show ?thesis
    proof cases
      case 1
      then show ?thesis by (auto simp: pattern_loop_None fails_def)
    next
      case atom
      then show ?thesis unfolding pattern_ahead_def using pattern_derives.atom by blast
    next
      case (head h st1)
      note start = start_head [OF head]
      show ?thesis
      proof (cases "head_arity h = Variadic \<and> p_at st1 TRParen")
        case True
        then obtain st2 where "eats [kw TRParen] st1 st2"
          using p_accept_None [of TRParen st1] p_accept_Some [of TRParen st1] by fastforce
        then have "fails (head_rest h st1) \<or> pattern_ahead st" using empty_head head True by blast
        then show ?thesis by (auto simp: pattern_loop_None start fails_def)
      next
        case False
        then have "head_rest h st1 = Inr (Frame (open_frame h []), st1)"
          by (auto simp: head_rest_def variadic_rest_def p_accept_None [symmetric] split: arity.split)
        then have eq: "pattern_loop st stack None = pattern_loop st1 (open_frame h [] # stack) None"
          using start by (simp add: pattern_loop_None)
        have "length (ps_rest st1) < length (ps_rest st)"
          using eats_length [OF head(2)] head_starts [OF head(1)] by auto
        moreover have "more_operands h (length [])"
          by (cases h) (auto simp: more_operands_def)
        ultimately have "fails (pattern_loop st1 (open_frame h [] # stack) None) \<or> operands_ahead h 0 st1"
          using less by fastforce
        then show ?thesis using operands_pattern_ahead [OF head] eq by auto
      qed
    qed
  qed
  have "more_operands h (length args) \<Longrightarrow>
      fails (pattern_loop st (open_frame h args # stack') None) \<or> operands_ahead h (length args) st"
    by (rule pattern_frame_total) (use less head in blast)+
  then show ?case using head by blast
qed

lemma p_pattern_iff:
  "p_pattern st = Inr (p, st') \<longleftrightarrow> (\<exists>ts. pattern_derives ts p \<and> eats ts st st' \<and> followed ts st')"
proof
  assume r: "p_pattern st = Inr (p, st')"
  then obtain ts q st1 where q: "pattern_derives ts q" "eats ts st st1" "followed ts st1"
    using conjunct1 [OF pattern_loop_total [of st "[]"]] by (auto simp: p_pattern_def pattern_ahead_def)
  then show "\<exists>ts. pattern_derives ts p \<and> eats ts st st' \<and> followed ts st'"
    using r readyD [OF pattern_derives_ready [OF q(1)] q(2,3), of "[]"]
    by (auto simp: p_pattern_def pattern_loop_end)
next
  assume "\<exists>ts. pattern_derives ts p \<and> eats ts st st' \<and> followed ts st'"
  then show "p_pattern st = Inr (p, st')"
    using readyD [OF pattern_derives_ready, of _ p st st' "[]"] by (auto simp: p_pattern_def pattern_loop_end)
qed

lemma p_pattern_clean [simp]: "only_fails (p_pattern st)"
proof -
  have "fails (p_pattern st) \<or> (\<exists>r. p_pattern st = Inr r)"
    using conjunct1 [OF pattern_loop_total [of st "[]"]] p_pattern_iff [of st]
    by (auto simp: p_pattern_def pattern_ahead_def)
  then show ?thesis by (auto simp: fails_def)
qed

interpretation patterns: element_parser p_pattern pattern_derives followed
proof unfold_locales
  show "pattern_derives ts p \<Longrightarrow> \<exists>k x ts'. ts = (k, x) # ts' \<and> \<not> is_closer k" for ts p
    by (rule pattern_starts)
qed (auto simp: p_pattern_iff is_closer_def intro: followed_at)

end
