(* ===== verification/Kore_Sentence_Grammar.thy ===== *)
theory Kore_Sentence_Grammar
  imports Kore_Pattern_Machine
begin

text \<open>
  The grammar of sentences, modules and definitions, the parsers of them against it, and the entry
  points: a text is accepted exactly when it lexes to tokens the grammar derives.
\<close>

section \<open>Sentences\<close>

definition attributes_derives :: "terminal list \<Rightarrow> attributes \<Rightarrow> bool" where
  "attributes_derives ts attrs \<longleftrightarrow>
     (\<exists>tss. list_all2 pattern_derives tss attrs \<and> ts = list_terms TLBracket TRBracket tss)"

inductive sentence_derives :: "terminal list \<Rightarrow> sentence \<Rightarrow> bool" where
  import_of: "attributes_derives us attrs \<Longrightarrow>
    sentence_derives (kw TImport # (TId, name) # us) (Import name attrs)"
| sort_of: "attributes_derives us attrs \<Longrightarrow>
    sentence_derives (kw (if hooked then THookedSort else TSort) # (TId, name) # name_list_terms params @ us)
      (SortDeclaration hooked name params attrs)"
| symbol_of: "attributes_derives us attrs \<Longrightarrow>
    sentence_derives
      (kw (if hooked then THookedSymbol else TSymbol) # symbol_terms symb @ parens (map sort_terms arg_sorts)
        @ kw TColon # sort_terms result @ us)
      (SymbolDeclaration hooked symb arg_sorts result attrs)"
| alias_of: "attributes_derives us attrs \<Longrightarrow> pattern_derives ts right \<Longrightarrow>
    sentence_derives
      (kw TAlias # symbol_terms alias_symbol @ parens (map sort_terms arg_sorts) @ kw TColon
        # sort_terms result @ kw TWhere # symbol_terms symb @ parens (map variable_terms vs)
        @ kw TWalrus # ts @ us)
      (AliasDeclaration alias_symbol arg_sorts result (PApplication symb (map PVariable vs)) right attrs)"
| axiom_of: "attributes_derives us attrs \<Longrightarrow> pattern_derives ts p \<Longrightarrow>
    sentence_derives (kw TAxiom # name_list_terms params @ ts @ us) (Axiom params p attrs)"
| claim_of: "attributes_derives us attrs \<Longrightarrow> pattern_derives ts p \<Longrightarrow>
    sentence_derives (kw TClaim # name_list_terms params @ ts @ us) (Claim params p attrs)"

lemma p_attributes_iff:
  "p_attributes st = Inr (attrs, st') \<longleftrightarrow> (\<exists>us. attributes_derives us attrs \<and> eats us st st')"
  using patterns.delimited_parses [of TRBracket TLBracket st attrs st']
  by (auto simp: p_attributes_def attributes_derives_def list_terms_def is_closer_def)

lemma attributes_start: "attributes_derives us attrs \<Longrightarrow> \<exists>us'. us = kw TLBracket # us'"
  by (auto simp: attributes_derives_def list_terms_def)

lemma attributes_followed:
  assumes "attributes_derives us attrs" and "eats us st st'"
  shows "followed ts st" and "sort_follow s st" and "\<not> p_at st TLBrace"
proof -
  obtain us' where e: "eats (kw TLBracket # us') st st'" using attributes_start [OF assms(1)] assms(2) by blast
  show "followed ts st" "sort_follow s st" using eats_followed [OF e] eats_sort_follow [OF e] by auto
  show "\<not> p_at st TLBrace" using eats_at [OF e] by simp
qed

lemma sentence_clean [simp]:
  "only_fails (p_attributes st)" "only_fails (p_import st)" "only_fails (p_sort_declaration hooked st)"
  "only_fails (p_symbol_declaration hooked st)" "only_fails (p_axiom claim st)"
proof -
  show a: "only_fails (p_attributes st)" for st
    unfolding p_attributes_def by (rule patterns.delimited_clean)
  show "only_fails (p_import st)" "only_fails (p_sort_declaration hooked st)"
    "only_fails (p_symbol_declaration hooked st)" "only_fails (p_axiom claim st)"
    by (auto simp: p_import_def p_sort_declaration_def p_symbol_declaration_def p_axiom_def a
        intro!: only_fails_and_then)
qed

definition alias_derives :: "terminal list \<Rightarrow> pattern \<Rightarrow> bool" where
  "alias_derives ts p \<longleftrightarrow> (\<exists>v. p = PVariable v \<and> ts = variable_terms v)"

lemma p_alias_left_variable_iff:
  "p_alias_left_variable st = Inr (p, st') \<longleftrightarrow> (\<exists>ts. alias_derives ts p \<and> eats ts st st' \<and> followed ts st')"
proof -
  have var: "and_then (p_variable kind st) (\<lambda>(v, st1). Inr (PVariable v, st1)) = Inr (p, st') \<longleftrightarrow>
      (\<exists>v. p = PVariable v \<and> var_kind v = kind \<and> eats (variable_terms v) st st'
        \<and> followed (variable_terms v) st')" for kind
    by (auto simp: and_then_Inr_iff p_variable_iff variable_followed)
  have at: "p_at st (case var_kind v of Element \<Rightarrow> TId | SetVar \<Rightarrow> TSetVarId) \<and> p_variable_follows st"
    if e: "eats (variable_terms v) st st'" for v
  proof -
    obtain a k where a: "eats [(k, var_name v)] st a" "p_at a TColon"
      "k = (case var_kind v of Element \<Rightarrow> TId | SetVar \<Rightarrow> TSetVarId)"
      using e by (auto simp: variable_terms_def eats_Cons p_at_iff)
    then show ?thesis using p_variable_follows_eats [OF a(1)] by (auto simp: p_at_iff)
  qed
  have unfold: "p_alias_left_variable st = Inr (p, st') \<longleftrightarrow>
      p_variable_follows st \<and>
      (\<exists>kind. p_at st (case kind of Element \<Rightarrow> TId | SetVar \<Rightarrow> TSetVarId)
        \<and> and_then (p_variable kind st) (\<lambda>(v, st1). Inr (PVariable v, st1)) = Inr (p, st'))"
    (is "?l \<longleftrightarrow> ?r")
  proof (cases "ps_rest st")
    case Nil
    then show ?thesis by (simp add: p_alias_left_variable_def p_variable_follows_def fail_def)
  next
    case (Cons t ts)
    have k: "p_at st k \<longleftrightarrow> k = tok_kind t" for k using Cons by (auto simp: p_at_rest)
    have v: "p_variable_follows st \<longleftrightarrow> (case ts of u # _ \<Rightarrow> tok_kind u = TColon | [] \<Rightarrow> False)"
      using Cons by (auto simp: p_variable_follows_def split: list.split)
    show ?thesis
      unfolding k v p_alias_left_variable_def Cons
      by (cases ts; cases "tok_kind t")
        (auto simp: fail_def Let_def split: variable_kind.split_asm intro: exI [of _ Element] exI [of _ SetVar])
  qed
  show ?thesis
    unfolding unfold var alias_derives_def using at by blast
qed

lemma alias_clean: "only_fails (p_alias_left_variable st)"
  by (auto simp: p_alias_left_variable_def Let_def intro!: only_fails_and_then split: list.split)

interpretation alias_variables: element_parser p_alias_left_variable alias_derives followed
proof unfold_locales
  show "alias_derives ts p \<Longrightarrow> \<exists>k x ts'. ts = (k, x) # ts' \<and> \<not> is_closer k" for ts p
    using atom_starts atom_derives.variable by (fastforce simp: alias_derives_def)
qed (auto simp: p_alias_left_variable_iff alias_clean is_closer_def intro: followed_at)

lemma list_all2_alias:
  "list_all2 alias_derives tss ps \<longleftrightarrow> (\<exists>vs. ps = map PVariable vs \<and> tss = map variable_terms vs)"
proof (induction tss arbitrary: ps)
  case (Cons ts tss)
  show ?case
  proof
    assume "list_all2 alias_derives (ts # tss) ps"
    then obtain v vs where "ps = PVariable v # map PVariable vs" "ts = variable_terms v" "tss = map variable_terms vs"
      using Cons.IH by (auto simp: list_all2_Cons1 alias_derives_def)
    then show "\<exists>vs. ps = map PVariable vs \<and> ts # tss = map variable_terms vs"
      by (intro exI [of _ "v # vs"]) simp
  next
    assume "\<exists>vs. ps = map PVariable vs \<and> ts # tss = map variable_terms vs"
    then obtain v vs where "ps = PVariable v # map PVariable vs" "ts = variable_terms v" "tss = map variable_terms vs"
      by auto
    moreover from this have "list_all2 alias_derives tss (map PVariable vs)" using Cons.IH by blast
    moreover have "alias_derives (variable_terms v) (PVariable v)" by (auto simp: alias_derives_def)
    ultimately show "list_all2 alias_derives (ts # tss) ps" by (simp only: list_all2_Cons)
  qed
qed auto

lemma p_alias_variables_iff:
  "p_delimited TLParen TRParen p_alias_left_variable st = Inr (ps, st') \<longleftrightarrow>
     (\<exists>vs. ps = map PVariable vs \<and> eats (parens (map variable_terms vs)) st st')"
  by (auto simp: alias_variables.delimited_parses is_closer_def list_all2_alias list_terms_def)

lemmas parser_iffs = p_skip_iff p_text_iff p_sort_iff p_symbol_iff p_sort_variables_iff sorts_parses
  p_attributes_iff p_pattern_iff p_alias_variables_iff

text \<open>What a sentence parser has read is a sentence of the grammar.\<close>

definition sentence_ahead :: "parser \<Rightarrow> sentence \<Rightarrow> parser \<Rightarrow> bool" where
  "sentence_ahead st s st' \<longleftrightarrow> (\<exists>ts. sentence_derives ts s \<and> eats ts st st')"

lemma sentence_aheadI: "sentence_derives ts s \<Longrightarrow> eats ts st st' \<Longrightarrow> sentence_ahead st s st'"
  by (auto simp: sentence_ahead_def)

lemma import_sound:
  assumes "p_import st = Inr (s, st')"
  shows "sentence_ahead st s st'"
proof -
  obtain a name b us attrs where "eats [kw TImport] st a" "eats [(TId, name)] a b"
    "eats us b st'" and d: "attributes_derives us attrs" "s = Import name attrs"
    using assms by (auto simp: p_import_def parser_iffs elim!: and_thenE)
  then have "eats ([kw TImport] @ [(TId, name)] @ us) st st'" unfolding eats_append by blast
  then show ?thesis using d sentence_derives.import_of by (auto simp: sentence_ahead_def)
qed

lemma sort_declaration_sound:
  assumes "p_sort_declaration hooked st = Inr (s, st')"
  shows "sentence_ahead st s st'"
proof -
  obtain a name b params c us attrs where "eats [kw (if hooked then THookedSort else TSort)] st a"
    "eats [(TId, name)] a b" "eats (name_list_terms params) b c" "eats us c st'"
    and d: "attributes_derives us attrs" "s = SortDeclaration hooked name params attrs"
    using assms by (auto simp: p_sort_declaration_def parser_iffs elim!: and_thenE)
  then have "eats ([kw (if hooked then THookedSort else TSort)] @ [(TId, name)] @ name_list_terms params @ us) st st'"
    unfolding eats_append by blast
  then show ?thesis
    using d sentence_derives.sort_of [of us attrs hooked name params] by (auto simp: sentence_ahead_def)
qed

lemma symbol_declaration_sound:
  assumes "p_symbol_declaration hooked st = Inr (s, st')"
  shows "sentence_ahead st s st'"
proof -
  obtain a b c d e symb arg_sorts result us attrs where
    "eats [kw (if hooked then THookedSymbol else TSymbol)] st a" "eats (symbol_terms symb) a b"
    "eats (parens (map sort_terms arg_sorts)) b c" "eats [kw TColon] c d" "eats (sort_terms result) d e"
    "eats us e st'" and s: "attributes_derives us attrs" "s = SymbolDeclaration hooked symb arg_sorts result attrs"
    using assms by (auto simp: p_symbol_declaration_def parser_iffs is_closer_def elim!: and_thenE)
  then have "eats ([kw (if hooked then THookedSymbol else TSymbol)] @ symbol_terms symb
      @ parens (map sort_terms arg_sorts) @ [kw TColon] @ sort_terms result @ us) st st'"
    unfolding eats_append by blast
  then show ?thesis
    using s sentence_derives.symbol_of [of us attrs hooked symb arg_sorts result]
    by (auto simp: sentence_ahead_def)
qed

lemma axiom_sound:
  assumes "p_axiom claim st = Inr (s, st')"
  shows "sentence_ahead st s st'"
proof -
  obtain a b c params ts p us attrs where "eats [kw (if claim then TClaim else TAxiom)] st a"
    "eats (name_list_terms params) a b" "eats ts b c" "eats us c st'"
    and s: "attributes_derives us attrs" "pattern_derives ts p"
      "s = (if claim then Claim params p attrs else Axiom params p attrs)"
    using assms by (auto simp: p_axiom_def parser_iffs elim!: and_thenE)
  then have "eats ([kw (if claim then TClaim else TAxiom)] @ name_list_terms params @ ts @ us) st st'"
    unfolding eats_append by blast
  then show ?thesis
    using s sentence_derives.axiom_of [of us attrs ts p params] sentence_derives.claim_of [of us attrs ts p params]
    by (auto simp: sentence_ahead_def split: if_splits)
qed

lemma alias_declaration_sound:
  assumes "p_alias_declaration st = Inr (s, st')"
  shows "sentence_ahead st s st'"
proof -
  obtain a b c d e f g h i j al arg_sorts result symb vs ts right us attrs where
    "eats [kw TAlias] st a" "eats (symbol_terms al) a b"
    "eats (parens (map sort_terms arg_sorts)) b c" "eats [kw TColon] c d" "eats (sort_terms result) d e"
    "eats [kw TWhere] e f" "eats (symbol_terms symb) f g" "eats (parens (map variable_terms vs)) g h"
    "eats [kw TWalrus] h i" "eats ts i j" "eats us j st'"
    and s: "attributes_derives us attrs" "pattern_derives ts right"
      "s = AliasDeclaration al arg_sorts result (PApplication symb (map PVariable vs)) right attrs"
    using assms by (auto simp: p_alias_declaration_def parser_iffs is_closer_def elim!: and_thenE)
  then have "eats ([kw TAlias] @ symbol_terms al @ parens (map sort_terms arg_sorts) @ [kw TColon]
      @ sort_terms result @ [kw TWhere] @ symbol_terms symb @ parens (map variable_terms vs) @ [kw TWalrus]
      @ ts @ us) st st'"
    unfolding eats_append by blast
  then show ?thesis
    using s sentence_derives.alias_of [of us attrs ts right al arg_sorts result symb vs]
    by (auto simp: sentence_ahead_def)
qed

text \<open>And what the grammar derives is read.\<close>

lemma p_sentence_at:
  "p_at st k \<Longrightarrow> p_sentence st =
     (if k = TImport then p_import st
      else if k = TSort then p_sort_declaration False st
      else if k = THookedSort then p_sort_declaration True st
      else if k = TSymbol then p_symbol_declaration False st
      else if k = THookedSymbol then p_symbol_declaration True st
      else if k = TAlias then p_alias_declaration st
      else if k = TAxiom then p_axiom False st
      else if k = TClaim then p_axiom True st
      else fail (p_offset st) (lit ''expected sentence, found '' @ token_kind_text k))"
  by (cases "p_peek st") (simp_all only: p_at_def p_sentence_def p_offset_def Let_def option.case)

lemma attributes_read: "attributes_derives us attrs \<Longrightarrow> eats us st st' \<Longrightarrow> p_attributes st = Inr (attrs, st')"
  by (auto simp: p_attributes_iff)

lemma pattern_read: "pattern_derives ts p \<Longrightarrow> eats ts st st' \<Longrightarrow> followed ts st' \<Longrightarrow> p_pattern st = Inr (p, st')"
  by (auto simp: p_pattern_iff)

lemma import_complete:
  assumes "attributes_derives us attrs" and "eats (kw TImport # (TId, name) # us) st st'"
  shows "p_sentence st = Inr (Import name attrs, st')"
proof -
  obtain a b where e: "eats [kw TImport] st a" "eats [(TId, name)] a b" "eats us b st'"
    using assms(2) by (auto simp: eats_Cons)
  have "p_skip TImport st = Inr a" "p_text TId a = Inr (name, b)" "p_attributes b = Inr (attrs, st')"
    using e attributes_read [OF assms(1)] by (simp_all add: parser_iffs)
  moreover have "p_at st TImport" using assms(2) by (simp add: eats_at)
  ultimately show ?thesis by (simp add: p_sentence_at p_import_def)
qed

lemma sort_declaration_complete:
  assumes "attributes_derives us attrs"
    and "eats (kw (if hooked then THookedSort else TSort) # (TId, name) # name_list_terms params @ us) st st'"
  shows "p_sentence st = Inr (SortDeclaration hooked name params attrs, st')"
proof -
  obtain a b c where e: "eats [kw (if hooked then THookedSort else TSort)] st a" "eats [(TId, name)] a b"
    "eats (name_list_terms params) b c" "eats us c st'"
    using assms(2) by (auto simp: eats_simps)
  have "p_skip (if hooked then THookedSort else TSort) st = Inr a" "p_text TId a = Inr (name, b)"
    "p_sort_variables b = Inr (params, c)" "p_attributes c = Inr (attrs, st')"
    using e attributes_read [OF assms(1)] by (simp_all add: parser_iffs)
  moreover have "p_at st (if hooked then THookedSort else TSort)" using assms(2) by (simp add: eats_at)
  ultimately show ?thesis
    by (cases hooked) (simp_all add: p_sentence_at p_sort_declaration_def)
qed

lemma symbol_declaration_complete:
  assumes "attributes_derives us attrs"
    and "eats (kw (if hooked then THookedSymbol else TSymbol) # symbol_terms symb
      @ parens (map sort_terms arg_sorts) @ kw TColon # sort_terms result @ us) st st'"
  shows "p_sentence st = Inr (SymbolDeclaration hooked symb arg_sorts result attrs, st')"
proof -
  obtain a b c d e where e: "eats [kw (if hooked then THookedSymbol else TSymbol)] st a"
    "eats (symbol_terms symb) a b" "eats (parens (map sort_terms arg_sorts)) b c" "eats [kw TColon] c d"
    "eats (sort_terms result) d e" "eats us e st'"
    using assms(2) by (auto simp: eats_simps)
  have "p_skip (if hooked then THookedSymbol else TSymbol) st = Inr a" "p_symbol a = Inr (symb, b)"
    "p_delimited TLParen TRParen p_sort b = Inr (arg_sorts, c)" "p_skip TColon c = Inr d"
    "p_sort d = Inr (result, e)" "p_attributes e = Inr (attrs, st')"
    using e attributes_read [OF assms(1)] attributes_followed(2) [OF assms(1)]
    by (simp_all add: parser_iffs is_closer_def)
  moreover have "p_at st (if hooked then THookedSymbol else TSymbol)" using assms(2) by (simp add: eats_at)
  ultimately show ?thesis
    by (cases hooked) (simp_all add: p_sentence_at p_symbol_declaration_def)
qed

lemma axiom_complete:
  assumes "attributes_derives us attrs" and "pattern_derives ts p"
    and "eats (kw (if claim then TClaim else TAxiom) # name_list_terms params @ ts @ us) st st'"
  shows "p_sentence st = Inr (if claim then Claim params p attrs else Axiom params p attrs, st')"
proof -
  obtain a b c where e: "eats [kw (if claim then TClaim else TAxiom)] st a" "eats (name_list_terms params) a b"
    "eats ts b c" "eats us c st'"
    using assms(3) by (auto simp: eats_simps)
  have "p_skip (if claim then TClaim else TAxiom) st = Inr a" "p_sort_variables a = Inr (params, b)"
    "p_pattern b = Inr (p, c)" "p_attributes c = Inr (attrs, st')"
    using e attributes_read [OF assms(1)] attributes_followed(1) [OF assms(1)] pattern_read [OF assms(2)]
    by (simp_all add: parser_iffs(1,2,5))
  moreover have "p_at st (if claim then TClaim else TAxiom)" using assms(3) by (simp add: eats_at)
  ultimately show ?thesis by (cases claim) (simp_all add: p_sentence_at p_axiom_def)
qed

lemma alias_declaration_complete:
  assumes "attributes_derives us attrs" and "pattern_derives ts right"
    and "eats (kw TAlias # symbol_terms al @ parens (map sort_terms arg_sorts) @ kw TColon
        # sort_terms result @ kw TWhere # symbol_terms symb @ parens (map variable_terms vs)
        @ kw TWalrus # ts @ us) st st'"
  shows "p_sentence st =
    Inr (AliasDeclaration al arg_sorts result (PApplication symb (map PVariable vs)) right attrs, st')"
proof -
  obtain a b c d e f g h i j where e: "eats [kw TAlias] st a" "eats (symbol_terms al) a b"
    "eats (parens (map sort_terms arg_sorts)) b c" "eats [kw TColon] c d" "eats (sort_terms result) d e"
    "eats [kw TWhere] e f" "eats (symbol_terms symb) f g" "eats (parens (map variable_terms vs)) g h"
    "eats [kw TWalrus] h i" "eats ts i j" "eats us j st'"
    using assms(3) by (auto simp: eats_simps)
  have "p_skip TAlias st = Inr a" "p_symbol a = Inr (al, b)"
    "p_delimited TLParen TRParen p_sort b = Inr (arg_sorts, c)" "p_skip TColon c = Inr d"
    "p_sort d = Inr (result, e)" "p_skip TWhere e = Inr f" "p_symbol f = Inr (symb, g)"
    "p_delimited TLParen TRParen p_alias_left_variable g = Inr (map PVariable vs, h)"
    "p_skip TWalrus h = Inr i"
    using e eats_sort_follow [OF e(6)] by (auto simp: parser_iffs is_closer_def)
  moreover have "p_pattern i = Inr (right, j)" "p_attributes j = Inr (attrs, st')"
    using e attributes_read [OF assms(1)] attributes_followed(1) [OF assms(1)] pattern_read [OF assms(2)]
    by simp_all
  moreover have "p_at st TAlias" using assms(3) by (simp add: eats_at)
  ultimately show ?thesis by (simp add: p_sentence_at p_alias_declaration_def)
qed

lemma sentence_complete: "sentence_derives ts s \<Longrightarrow> eats ts st st' \<Longrightarrow> p_sentence st = Inr (s, st')"
proof (induction rule: sentence_derives.cases)
  case (axiom_of us attrs ts p params)
  then show ?case using axiom_complete [of us attrs ts p False params] by simp
next
  case (claim_of us attrs ts p params)
  then show ?case using axiom_complete [of us attrs ts p True params] by simp
qed (use import_complete sort_declaration_complete symbol_declaration_complete alias_declaration_complete
      in \<open>simp_all\<close>)

lemma p_sentence_iff: "p_sentence st = Inr (s, st') \<longleftrightarrow> (\<exists>ts. sentence_derives ts s \<and> eats ts st st')"
proof
  assume r: "p_sentence st = Inr (s, st')"
  then obtain k where "p_at st k"
    by (cases "p_peek st") (auto simp: p_sentence_def p_at_def)
  then show "\<exists>ts. sentence_derives ts s \<and> eats ts st st'"
    using r import_sound sort_declaration_sound symbol_declaration_sound axiom_sound alias_declaration_sound
    by (auto simp: p_sentence_at sentence_ahead_def fail_def split: if_splits)
qed (use sentence_complete in blast)

lemma p_sentence_clean [simp]: "only_fails (p_sentence st)"
proof -
  have "only_fails (p_alias_declaration st)"
    by (auto simp: p_alias_declaration_def alias_variables.delimited_clean intro!: only_fails_and_then)
  then show ?thesis by (auto simp: p_sentence_def Let_def split: option.split)
qed

section \<open>Modules and definitions\<close>

inductive module_derives :: "terminal list \<Rightarrow> kore_module \<Rightarrow> bool" where
  "list_all2 sentence_derives tss sentences \<Longrightarrow> attributes_derives us attrs \<Longrightarrow>
   module_derives (kw TModule # (TId, name) # concat tss @ kw TEndModule # us)
     \<lparr>mod_name = name, mod_sentences = sentences, mod_attributes = attrs\<rparr>"

inductive definition_derives :: "terminal list \<Rightarrow> kore_definition \<Rightarrow> bool" where
  "attributes_derives us attrs \<Longrightarrow> list_all2 module_derives tss modules \<Longrightarrow> modules \<noteq> [] \<Longrightarrow>
   definition_derives (us @ concat tss) \<lparr>definition_attributes = attrs, definition_modules = modules\<rparr>"

lemma sentence_start: "sentence_derives ts s \<Longrightarrow> \<exists>k ts'. ts = kw k # ts' \<and> k \<noteq> TEndModule"
  by (induction rule: sentence_derives.cases) auto

text \<open>A loop that parses items until a state in which it stops.\<close>

locale item_loop =
  fixes parse :: "parser \<Rightarrow> fault + ('a \<times> parser)"
    and derives :: "terminal list \<Rightarrow> 'a \<Rightarrow> bool"
    and stop :: "parser \<Rightarrow> bool"
    and loop :: "'a list \<Rightarrow> parser \<Rightarrow> fault + ('a list \<times> parser)"
  assumes parses: "parse st = Inr (x, st') \<longleftrightarrow> (\<exists>ts. derives ts x \<and> eats ts st st')"
    and shorter: "parse st = Inr (x, st') \<Longrightarrow> length (ps_rest st') < length (ps_rest st)"
    and goes_on: "derives ts x \<Longrightarrow> eats (ts @ us) st st' \<Longrightarrow> \<not> stop st"
    and stops: "stop st \<Longrightarrow> loop xs st = Inr (xs, st)"
    and continues: "\<not> stop st \<Longrightarrow> loop xs st = Inr (r, st') \<longleftrightarrow>
      (\<exists>x st1. parse st = Inr (x, st1) \<and> loop (xs @ [x]) st1 = Inr (r, st'))"
begin

lemma loop_sound:
  "loop xs st = Inr (r, st') \<Longrightarrow>
   \<exists>tss new. list_all2 derives tss new \<and> r = xs @ new \<and> eats (concat tss) st st' \<and> stop st'"
proof (induction "length (ps_rest st)" arbitrary: xs st rule: less_induct)
  case less
  show ?case
  proof (cases "stop st")
    case True
    then show ?thesis using less.prems stops [OF True, of xs]
      by (intro exI [of _ "[]"]) auto
  next
    case False
    then obtain x st1 where x: "parse st = Inr (x, st1)" "loop (xs @ [x]) st1 = Inr (r, st')"
      using less.prems continues by blast
    obtain tss new where *: "list_all2 derives tss new" "r = (xs @ [x]) @ new" "eats (concat tss) st1 st'" "stop st'"
      using less.hyps [OF shorter [OF x(1)] x(2)] by blast
    moreover obtain ts where "derives ts x" "eats ts st st1" using x(1) parses by blast
    ultimately show ?thesis
      by (intro exI [of _ "ts # tss"] exI [of _ "x # new"]) (auto simp: eats_append)
  qed
qed

lemma loop_complete:
  "list_all2 derives tss new \<Longrightarrow> eats (concat tss) st st' \<Longrightarrow> stop st' \<Longrightarrow> loop xs st = Inr (xs @ new, st')"
proof (induction tss new arbitrary: xs st rule: list_all2_induct)
  case Nil
  then show ?case by (simp add: stops)
next
  case (Cons ts tss x new)
  then obtain st1 where st1: "eats ts st st1" "eats (concat tss) st1 st'" by (auto simp: eats_append)
  have "parse st = Inr (x, st1)" using Cons.hyps(1) st1(1) parses by blast
  moreover have "loop (xs @ [x]) st1 = Inr (xs @ x # new, st')"
    using Cons.IH [OF st1(2) Cons.prems(2), of "xs @ [x]"] by simp
  moreover have "\<not> stop st" using goes_on [OF Cons.hyps(1), of "concat tss"] Cons.prems(1) by simp
  ultimately show ?case using continues by blast
qed

lemma loop_iff:
  "loop xs st = Inr (r, st') \<longleftrightarrow>
     (\<exists>tss new. list_all2 derives tss new \<and> r = xs @ new \<and> eats (concat tss) st st' \<and> stop st')"
  using loop_sound loop_complete by blast

end

interpretation sentences: item_loop p_sentence sentence_derives "\<lambda>st. p_at st TEndModule" sentences_loop
proof unfold_locales
  show "sentence_derives ts s \<Longrightarrow> eats (ts @ us) st st' \<Longrightarrow> \<not> p_at st TEndModule" for ts s us st st'
    using sentence_start [of ts s] by (auto simp: eats_at)
  show "\<not> p_at st TEndModule \<Longrightarrow> sentences_loop ss st = Inr (r, st') \<longleftrightarrow>
      (\<exists>s st1. p_sentence st = Inr (s, st1) \<and> sentences_loop (ss @ [s]) st1 = Inr (r, st'))" for ss st r st'
    by (cases "p_peek st") (auto simp: sentences_loop.simps [of ss] and_then_Inr_iff p_sentence_def)
qed (rule p_sentence_iff, erule p_sentence_length, simp add: sentences_loop.simps)

lemma p_module_iff: "p_module st = Inr (m, st') \<longleftrightarrow> (\<exists>ts. module_derives ts m \<and> eats ts st st')"
proof
  assume "p_module st = Inr (m, st')"
  then obtain a name b c d tss ss us attrs where "eats [kw TModule] st a" "eats [(TId, name)] a b"
    "eats (concat tss) b c" "eats [kw TEndModule] c d" "eats us d st'"
    and m: "list_all2 sentence_derives tss ss" "attributes_derives us attrs"
      "m = \<lparr>mod_name = name, mod_sentences = ss, mod_attributes = attrs\<rparr>"
    by (auto simp: p_module_def parser_iffs sentences.loop_iff elim!: and_thenE)
  then have "eats ([kw TModule] @ [(TId, name)] @ concat tss @ [kw TEndModule] @ us) st st'"
    unfolding eats_append by blast
  then show "\<exists>ts. module_derives ts m \<and> eats ts st st'"
    using module_derives.intros [OF m(1,2)] m(3) by (auto intro: exI)
next
  assume "\<exists>ts. module_derives ts m \<and> eats ts st st'"
  then obtain tss ss us attrs name where
    m: "list_all2 sentence_derives tss ss" "attributes_derives us attrs"
      "m = \<lparr>mod_name = name, mod_sentences = ss, mod_attributes = attrs\<rparr>"
    and "eats (kw TModule # (TId, name) # concat tss @ kw TEndModule # us) st st'"
    by (auto elim!: module_derives.cases)
  then obtain a b c d where e: "eats [kw TModule] st a" "eats [(TId, name)] a b"
    "eats (concat tss) b c" "eats [kw TEndModule] c d" "eats us d st'"
    by (auto simp: eats_simps)
  have "sentences_loop [] b = Inr (ss, c)"
    unfolding sentences.loop_iff using m(1) e(3,4) by (auto simp: p_at_iff)
  then show "p_module st = Inr (m, st')"
    using e m(3) attributes_read [OF m(2) e(5)]
    by (simp add: p_module_def p_skip_iff [symmetric] p_text_iff [symmetric])
qed

lemma module_start: "module_derives ts m \<Longrightarrow> \<exists>ts'. ts = kw TModule # ts'"
  by (auto elim: module_derives.cases)

interpretation modules: item_loop p_module module_derives "\<lambda>st. p_peek st = None" modules_loop
proof unfold_locales
  fix ts m us st st' assume "module_derives ts m" and e: "eats (ts @ us) st st'"
  then obtain ts' where "ts = kw TModule # ts'" using module_start by blast
  then have "p_at st TModule" using e by (simp add: eats_at)
  then show "p_peek st \<noteq> None" by (cases "p_peek st") (auto simp: p_at_def)
next
  show "p_peek st \<noteq> None \<Longrightarrow> modules_loop ms st = Inr (r, st') \<longleftrightarrow>
      (\<exists>m st1. p_module st = Inr (m, st1) \<and> modules_loop (ms @ [m]) st1 = Inr (r, st'))" for ms st r st'
    by (auto simp: modules_loop.simps [of ms] and_then_Inr_iff)
qed (rule p_module_iff, erule p_module_length, simp add: modules_loop.simps)

lemma p_definition_iff:
  "p_definition st = Inr (d, st') \<longleftrightarrow> (\<exists>ts. definition_derives ts d \<and> eats ts st st' \<and> p_peek st' = None)"
proof
  assume "p_definition st = Inr (d, st')"
  then obtain us attrs a ts m b tss ms where e: "attributes_derives us attrs" "eats us st a"
    "module_derives ts m" "eats ts a b" "list_all2 module_derives tss ms" "eats (concat tss) b st'"
    "p_peek st' = None" and d: "d = \<lparr>definition_attributes = attrs, definition_modules = m # ms\<rparr>"
    by (auto simp: p_definition_def p_attributes_iff p_module_iff modules.loop_iff elim!: and_thenE)
  have "eats (us @ concat (ts # tss)) st st'"
    using e(2,4,6) by (auto simp: eats_append)
  moreover have "definition_derives (us @ concat (ts # tss)) d"
    unfolding d using e by (intro definition_derives.intros) auto
  ultimately show "\<exists>ts. definition_derives ts d \<and> eats ts st st' \<and> p_peek st' = None"
    using e(7) by blast
next
  assume "\<exists>ts. definition_derives ts d \<and> eats ts st st' \<and> p_peek st' = None"
  then obtain us attrs tss ms where u: "attributes_derives us attrs" and l: "list_all2 module_derives tss ms"
    and ne: "ms \<noteq> []" and d: "d = \<lparr>definition_attributes = attrs, definition_modules = ms\<rparr>"
    and e: "eats (us @ concat tss) st st'" and done': "p_peek st' = None"
    by (auto elim!: definition_derives.cases)
  obtain ts uss m rest where t: "tss = ts # uss" "ms = m # rest" "module_derives ts m" "list_all2 module_derives uss rest"
    using l ne by (cases tss; cases ms) auto
  obtain a b where ab: "eats us st a" "eats ts a b" "eats (concat uss) b st'"
    using e unfolding t(1) by (auto simp: eats_append)
  have "p_attributes st = Inr (attrs, a)" "p_module a = Inr (m, b)"
    using attributes_read [OF u ab(1)] t(3) ab(2) p_module_iff by blast+
  moreover have "modules_loop [m] b = Inr (ms, st')"
    unfolding modules.loop_iff t(2) using t(4) ab(3) done' by auto
  ultimately show "p_definition st = Inr (d, st')" by (simp add: p_definition_def d)
qed

section \<open>Entry points\<close>

lemma sentences_loop_clean: "only_fails (sentences_loop ss st)"
proof (induction ss st rule: sentences_loop.induct)
  case (1 ss st)
  then show ?case by (subst sentences_loop.simps) (auto intro!: only_fails_and_then)
qed

lemma p_module_clean: "only_fails (p_module st)"
  by (auto simp: p_module_def sentences_loop_clean intro!: only_fails_and_then)

lemma modules_loop_clean: "only_fails (modules_loop ms st)"
proof (induction ms st rule: modules_loop.induct)
  case (1 ms st)
  then show ?case by (subst modules_loop.simps) (auto simp: p_module_clean intro!: only_fails_and_then)
qed

lemma p_definition_clean: "only_fails (p_definition st)"
  by (auto simp: p_definition_def p_module_clean modules_loop_clean intro!: only_fails_and_then)

lemma new_parser_iff:
  "new_parser input = Inr st \<longleftrightarrow> (\<exists>toks. lex input = Inr toks \<and> st = \<lparr>ps_rest = toks, ps_len = str_len input\<rparr>)"
  by (auto simp: new_parser_def fail_def split: sum.splits)

lemma finish_parse_iff:
  "finish_parse parse st = Inr v \<longleftrightarrow> (\<exists>st1. parse st = Inr (v, st1) \<and> ps_rest st1 = [])"
proof (cases "parse st")
  case (Inr r)
  then show ?thesis
    by (cases r; cases "ps_rest (snd r)") (auto simp: finish_parse_def p_peek_def fail_def)
qed (simp add: finish_parse_def)

lemma eats_all:
  "(\<exists>st1. eats ts \<lparr>ps_rest = toks, ps_len = n\<rparr> st1 \<and> ps_rest st1 = []) \<longleftrightarrow> map terminal toks = ts"
proof
  assume "map terminal toks = ts"
  then show "\<exists>st1. eats ts \<lparr>ps_rest = toks, ps_len = n\<rparr> st1 \<and> ps_rest st1 = []"
    by (intro exI [of _ "\<lparr>ps_rest = [], ps_len = n\<rparr>"]) (simp add: eats_def)
qed (auto simp: eats_def)

lemma followed_end: "ps_rest st = [] \<Longrightarrow> followed ts st"
  by (simp add: followed_def p_at_rest)

text \<open>The terminals of a text.\<close>

definition lexes :: "str \<Rightarrow> terminal list \<Rightarrow> bool" where
  "lexes input ts \<longleftrightarrow> (\<exists>toks. lex input = Inr toks \<and> map terminal toks = ts)"

lemma entry_iff:
  assumes "\<And>st v st'. parse st = Inr (v, st') \<longleftrightarrow> (\<exists>ts. derives ts v \<and> eats ts st st' \<and> P ts st')"
    and "\<And>ts st. ps_rest st = [] \<Longrightarrow> P ts st"
  shows "and_then (new_parser input) (finish_parse parse) = Inr v \<longleftrightarrow> (\<exists>ts. derives ts v \<and> lexes input ts)"
proof -
  have "and_then (new_parser input) (finish_parse parse) = Inr v \<longleftrightarrow>
      (\<exists>toks ts. lex input = Inr toks \<and> derives ts v
        \<and> (\<exists>st1. eats ts \<lparr>ps_rest = toks, ps_len = str_len input\<rparr> st1 \<and> ps_rest st1 = []))"
    using assms by (auto simp: and_then_Inr_iff new_parser_iff finish_parse_iff) (metis assms(2))
  then show ?thesis by (auto simp: eats_all lexes_def)
qed

lemma parse_pattern_iff: "parse_pattern input = Inr p \<longleftrightarrow> (\<exists>ts. pattern_derives ts p \<and> lexes input ts)"
  unfolding parse_pattern_def by (rule entry_iff [OF p_pattern_iff followed_end])

lemma parse_sentence_iff: "parse_sentence input = Inr s \<longleftrightarrow> (\<exists>ts. sentence_derives ts s \<and> lexes input ts)"
  unfolding parse_sentence_def by (rule entry_iff [where P = "\<lambda>_ _. True"]) (simp_all add: p_sentence_iff)

lemma parse_module_iff: "parse_module input = Inr m \<longleftrightarrow> (\<exists>ts. module_derives ts m \<and> lexes input ts)"
  unfolding parse_module_def by (rule entry_iff [where P = "\<lambda>_ _. True"]) (simp_all add: p_module_iff)

lemma parse_definition_iff: "parse_definition input = Inr d \<longleftrightarrow> (\<exists>ts. definition_derives ts d \<and> lexes input ts)"
  unfolding parse_definition_def
  by (rule entry_iff [where P = "\<lambda>_ st. p_peek st = None"]) (simp_all add: p_definition_iff p_peek_def)

lemma entry_clean:
  "(\<And>st. only_fails (parse st)) \<Longrightarrow> only_fails (and_then (new_parser input) (finish_parse parse))"
  by (auto simp: new_parser_def finish_parse_def intro!: only_fails_and_then split: sum.split option.split)

section \<open>The entry points\<close>

text \<open>C5: The pattern parser, an explicit stack of frames, accepts a text and returns a pattern
  exactly when the text lexes and the grammar derives that pattern from its tokens; the grammar has
  a production for every connective and folds \<open>\or\<close> under associative syntax.\<close>

theorem parse_pattern_correct:
  "parse_pattern input = Inr p \<longleftrightarrow>
     (\<exists>toks. lex input = Inr toks \<and> pattern_derives (map terminal toks) p)"
  unfolding parse_pattern_iff lexes_def by blast

text \<open>C6: The definition parser accepts a text and returns a definition exactly when the text lexes
  and the grammar of definitions derives it; the sentence parser likewise.\<close>

theorem parse_definition_correct:
  "(parse_definition input = Inr d \<longleftrightarrow>
     (\<exists>toks. lex input = Inr toks \<and> definition_derives (map terminal toks) d))
   \<and> (parse_sentence input = Inr s \<longleftrightarrow>
     (\<exists>toks. lex input = Inr toks \<and> sentence_derives (map terminal toks) s))"
  unfolding parse_definition_iff parse_sentence_iff lexes_def by blast

text \<open>C33: On every text each parser returns: a result, or a parse error with its offset and message.
  None of its asserted states is reached (no panic) and its loops end.\<close>

theorem parsers_return:
  "((\<exists>p. parse_pattern input = Inr p) \<or> (\<exists>e. parse_pattern input = Inl (Fail e)))
   \<and> ((\<exists>s. parse_sentence input = Inr s) \<or> (\<exists>e. parse_sentence input = Inl (Fail e)))
   \<and> ((\<exists>m. parse_module input = Inr m) \<or> (\<exists>e. parse_module input = Inl (Fail e)))
   \<and> ((\<exists>d. parse_definition input = Inr d) \<or> (\<exists>e. parse_definition input = Inl (Fail e)))"
proof (intro conjI)
  have r: "only_fails r \<Longrightarrow> (\<exists>x. r = Inr x) \<or> (\<exists>e. r = Inl (Fail e))" for r :: "fault + 'x"
    by (cases r) (auto simp: only_fails_def)
  show "(\<exists>p. parse_pattern input = Inr p) \<or> (\<exists>e. parse_pattern input = Inl (Fail e))"
    unfolding parse_pattern_def by (intro r entry_clean) (rule p_pattern_clean)
  show "(\<exists>s. parse_sentence input = Inr s) \<or> (\<exists>e. parse_sentence input = Inl (Fail e))"
    unfolding parse_sentence_def by (intro r entry_clean) (rule p_sentence_clean)
  show "(\<exists>m. parse_module input = Inr m) \<or> (\<exists>e. parse_module input = Inl (Fail e))"
    unfolding parse_module_def by (intro r entry_clean) (rule p_module_clean)
  show "(\<exists>d. parse_definition input = Inr d) \<or> (\<exists>e. parse_definition input = Inl (Fail e))"
    unfolding parse_definition_def by (intro r entry_clean) (rule p_definition_clean)
qed

end
