(* ===== verification/Kore_Document.thy ===== *)
theory Kore_Document
  imports Rust_Text
begin

text \<open>
  Documents and their rendering (\<open>kore/printer/document.rs\<close>). A document is a sequence of ops;
  the renderer takes them one by one, and at the start of a group reads ahead, into a queue, to
  decide whether the group fits on the line. \<open>None\<close> is a panic (unbalanced markers, or an overflow
  where the build checks for it). The writer is the byte buffer the printer writes to, whose writes do
  not fail; its contents are held as text.

  The column and the indentation are \<open>usize\<close>. What an overflow does depends on the build: with
  overflow checks (the dev profile) it is a panic, without (release) the number wraps. The renderer takes
  this as an argument; \<open>render\<close> is that of a release build. Lengths are of texts in memory.
\<close>

section \<open>Documents\<close>

datatype op =
    OText str
  | OLine str
  | OHardLine
  | ONestStart nat
  | ONestEnd nat
  | OGroupStart
  | OGroupEnd

type_synonym doc = "op list"

definition doc_text :: "str \<Rightarrow> doc" where
  "doc_text t = [OText t]"

definition doc_line :: doc where
  "doc_line = [OLine (lit '' '')]"

definition doc_line_break :: doc where
  "doc_line_break = [OLine []]"

definition doc_concat :: "doc list \<Rightarrow> doc" where
  "doc_concat documents =
     (case documents of [] \<Rightarrow> [] | document # rest \<Rightarrow> foldl (\<lambda>document next. document @ next) document rest)"

definition doc_nest :: "nat \<Rightarrow> doc \<Rightarrow> doc" where
  "doc_nest amount ops = (if ops \<noteq> [] then ONestStart amount # ops @ [ONestEnd amount] else ops)"

definition doc_group :: "doc \<Rightarrow> doc" where
  "doc_group ops = (if ops \<noteq> [] then OGroupStart # ops @ [OGroupEnd] else ops)"

lemma doc_concat_concat: "doc_concat documents = concat documents"
proof -
  have "foldl (\<lambda>document next. document @ next) d rest = d @ concat rest" for d :: doc and rest
    by (induction rest arbitrary: d) auto
  then show ?thesis by (simp add: doc_concat_def split: list.split)
qed

section \<open>The look-ahead\<close>

text \<open>What one op means for the look-ahead: an answer, or a flat text and the new depth.\<close>

datatype fits_step = Decided bool | Flat_text str nat

fun fits_op :: "op \<Rightarrow> nat \<Rightarrow> fits_step" where
  "fits_op (OText t) depth = Flat_text t depth"
| "fits_op (OLine flat) depth = Flat_text flat depth"
| "fits_op OHardLine depth = Decided False"
| "fits_op (ONestStart _) depth = Flat_text [] depth"
| "fits_op (ONestEnd _) depth = Flat_text [] depth"
| "fits_op OGroupStart depth = Flat_text [] (depth + 1)"
| "fits_op OGroupEnd depth = (if depth = 0 then Decided True else Flat_text [] (depth - 1))"

text \<open>One more op into the queue, when all of it has been read.\<close>

definition fits_fill :: "op list \<Rightarrow> op list \<Rightarrow> nat \<Rightarrow> (op list \<times> op list) option" where
  "fits_fill lookahead source index =
     (if index = length lookahead
      then (case source of [] \<Rightarrow> None | op # rest \<Rightarrow> Some (lookahead @ [op], rest))
      else Some (lookahead, source))"

lemma fits_fill_append: "fits_fill l s i = Some (l', s') \<Longrightarrow> l' @ s' = l @ s \<and> length l' + length s' = length l + length s"
  by (auto simp: fits_fill_def split: if_splits list.splits)

function fits_loop ::
    "op list \<Rightarrow> op list \<Rightarrow> nat \<Rightarrow> nat \<Rightarrow> nat \<Rightarrow> (bool \<times> op list \<times> op list) option" where
  "fits_loop lookahead source index depth remaining =
     (case fits_fill lookahead source index of
        None \<Rightarrow> None
      | Some (lookahead, source) \<Rightarrow>
          if index < length lookahead then
            (case fits_op (lookahead ! index) depth of
               Decided answer \<Rightarrow> Some (answer, lookahead, source)
             | Flat_text flat depth \<Rightarrow>
                 if length flat \<le> remaining
                 then fits_loop lookahead source (index + 1) depth (remaining - length flat)
                 else Some (False, lookahead, source))
          else None)"
  by pat_completeness auto
termination
  by (relation "measure (\<lambda>(l, s, i, _, _). length l + length s - i)") (auto dest!: fits_fill_append)

declare fits_loop.simps [simp del]

definition fits :: "op list \<Rightarrow> op list \<Rightarrow> nat \<Rightarrow> (bool \<times> op list \<times> op list) option" where
  "fits lookahead source remaining = fits_loop lookahead source 0 0 remaining"

lemma fits_loop_append: "fits_loop l s i d r = Some (b, l', s') \<Longrightarrow> l' @ s' = l @ s"
proof (induction l s i d r rule: fits_loop.induct)
  case (1 l s i d r)
  obtain l1 s1 where f: "fits_fill l s i = Some (l1, s1)"
    using "1.prems" by (auto simp: fits_loop.simps [of l] split: option.splits)
  then have i: "i < length l1" using "1.prems" by (auto simp: fits_loop.simps [of l] split: if_splits)
  show ?case
  proof (cases "fits_op (l1 ! i) d")
    case (Decided x)
    then show ?thesis using "1.prems" f i fits_fill_append [OF f] by (simp add: fits_loop.simps [of l])
  next
    case (Flat_text t d')
    then show ?thesis
      using "1.prems" "1.IH" [OF f refl i Flat_text] f i fits_fill_append [OF f]
      by (auto simp: fits_loop.simps [of l] split: if_splits)
  qed
qed

section \<open>Rendering\<close>

datatype render_mode = Compact | Pretty

datatype mode = Flat | Break

record renderer =
  rr_lookahead :: "op list"
  rr_source :: "op list"
  rr_column :: nat
  rr_indentation :: nat
  rr_modes :: "mode list"
  rr_output :: str

definition SPACES :: nat where "SPACES = 16 * 1024"

function write_spaces_loop :: "str \<Rightarrow> nat \<Rightarrow> str" where
  "write_spaces_loop output left =
     (if left > 0
      then let chunk = min left SPACES in write_spaces_loop (output @ replicate chunk 32) (left - chunk)
      else output)"
  by pat_completeness auto
termination
  by (relation "measure (\<lambda>(_, left). left)") (auto simp: SPACES_def)

declare write_spaces_loop.simps [simp del]

definition write_spaces :: "str \<Rightarrow> nat \<Rightarrow> str" where
  "write_spaces output count = write_spaces_loop output count"

definition new_line :: "nat \<Rightarrow> renderer \<Rightarrow> renderer" where
  "new_line width st =
     st\<lparr>rr_output := write_spaces (rr_output st @ [10]) (min (rr_indentation st) width),
        rr_column := rr_indentation st\<rparr>"

text \<open>\<open>+=\<close> and \<open>-=\<close> on \<open>usize\<close>, in a build with overflow checks and in one without.\<close>

definition wrap_usize :: "int \<Rightarrow> nat" where
  "wrap_usize n = nat (n mod 2 ^ 64)"

definition usize_result :: "bool \<Rightarrow> int \<Rightarrow> nat option" where
  "usize_result checks n =
     (if 0 \<le> n \<and> n < 2 ^ 64 then Some (nat n) else if checks then None else Some (wrap_usize n))"

definition add_column :: "bool \<Rightarrow> nat \<Rightarrow> renderer \<Rightarrow> renderer option" where
  "add_column checks len st =
     map_option (\<lambda>column. st\<lparr>rr_column := column\<rparr>) (usize_result checks (int (rr_column st) + int len))"

definition set_indentation :: "bool \<Rightarrow> int \<Rightarrow> renderer \<Rightarrow> renderer option" where
  "set_indentation checks n st =
     map_option (\<lambda>indentation. st\<lparr>rr_indentation := indentation\<rparr>) (usize_result checks n)"

text \<open>The mode of a group, with what the look-ahead has read.\<close>

definition group_mode :: "nat \<Rightarrow> renderer \<Rightarrow> (mode \<times> renderer) option" where
  "group_mode width st =
     (if rr_modes st \<noteq> [] \<and> hd (rr_modes st) = Flat then Some (Flat, st)
      else if rr_column st \<le> width then
        (case fits (rr_lookahead st) (rr_source st) (width - rr_column st) of
           None \<Rightarrow> None
         | Some (b, l, s) \<Rightarrow> Some (if b then Flat else Break, st\<lparr>rr_lookahead := l, rr_source := s\<rparr>))
      else Some (Break, st))"

fun render_op :: "bool \<Rightarrow> nat \<Rightarrow> op \<Rightarrow> renderer \<Rightarrow> renderer option" where
  "render_op checks width (OText t) st =
     add_column checks (if list_all (\<lambda>c. c < 128) t then str_len t else length t)
       (st\<lparr>rr_output := rr_output st @ t\<rparr>)"
| "render_op checks width (OLine flat) st =
     (if rr_modes st \<noteq> [] \<and> hd (rr_modes st) = Flat
      then add_column checks (length flat) (st\<lparr>rr_output := rr_output st @ flat\<rparr>)
      else Some (new_line width st))"
| "render_op checks width OHardLine st = Some (new_line width st)"
| "render_op checks width (ONestStart amount) st =
     set_indentation checks (int (rr_indentation st) + int amount) st"
| "render_op checks width (ONestEnd amount) st =
     set_indentation checks (int (rr_indentation st) - int amount) st"
| "render_op checks width OGroupStart st =
     (case group_mode width st of
        None \<Rightarrow> None
      | Some (m, st) \<Rightarrow> Some (st\<lparr>rr_modes := m # rr_modes st\<rparr>))"
| "render_op checks width OGroupEnd st = Some (st\<lparr>rr_modes := tl (rr_modes st)\<rparr>)"

text \<open>The front of the queue, or of the source when the queue is empty.\<close>

definition next_op :: "renderer \<Rightarrow> (op \<times> renderer) option" where
  "next_op st =
     (case rr_lookahead st of
        op # rest \<Rightarrow> Some (op, st\<lparr>rr_lookahead := rest\<rparr>)
      | [] \<Rightarrow>
          (case rr_source st of
             op # rest \<Rightarrow> Some (op, st\<lparr>rr_source := rest\<rparr>)
           | [] \<Rightarrow> None))"

definition ahead :: "renderer \<Rightarrow> op list" where
  "ahead st = rr_lookahead st @ rr_source st"

lemma next_op_ahead:
  "next_op st = Some (op, st') \<Longrightarrow> ahead st = op # ahead st'"
  "next_op st = None \<longleftrightarrow> ahead st = []"
  by (auto simp: next_op_def ahead_def split: list.splits)

lemma group_mode_ahead: "group_mode width st = Some (m, st') \<Longrightarrow>
    ahead st' = ahead st \<and> rr_output st' = rr_output st \<and> rr_modes st' = rr_modes st
    \<and> rr_indentation st' = rr_indentation st \<and> rr_column st' = rr_column st"
  by (auto simp: group_mode_def ahead_def fits_def split: if_splits option.splits dest: fits_loop_append)

lemma render_op_ahead: "render_op checks width op st = Some st' \<Longrightarrow> ahead st' = ahead st"
  by (cases op)
    (auto simp: new_line_def add_column_def set_indentation_def ahead_def split: if_splits option.splits
      dest!: group_mode_ahead [unfolded ahead_def])

function render_loop :: "bool \<Rightarrow> nat \<Rightarrow> renderer \<Rightarrow> str option" where
  "render_loop checks width st =
     (case next_op st of
        None \<Rightarrow> Some (rr_output st)
      | Some (op, st1) \<Rightarrow>
          (case render_op checks width op st1 of
             None \<Rightarrow> None
           | Some st2 \<Rightarrow> render_loop checks width st2))"
  by pat_completeness auto
termination
  by (relation "measure (\<lambda>(_, _, st). length (ahead st))") (auto dest!: render_op_ahead next_op_ahead(1))

declare render_loop.simps [simp del]

definition render_with :: "bool \<Rightarrow> op list \<Rightarrow> render_mode \<Rightarrow> nat \<Rightarrow> str option" where
  "render_with checks ops mode width =
     render_loop checks width
       \<lparr>rr_lookahead = [], rr_source = ops, rr_column = 0, rr_indentation = 0,
        rr_modes = [case mode of Compact \<Rightarrow> Flat | Pretty \<Rightarrow> Break], rr_output = []\<rparr>"

definition render :: "op list \<Rightarrow> render_mode \<Rightarrow> nat \<Rightarrow> str option" where
  "render = render_with False"

section \<open>The specification of the layout\<close>

text \<open>
  The width of a group laid out flat, from the ops after its start; \<open>None\<close> when it has a hard line.
\<close>

fun flat_width :: "nat \<Rightarrow> op list \<Rightarrow> nat option" where
  "flat_width d [] = None"
| "flat_width d (OText t # ops) = map_option (\<lambda>w. length t + w) (flat_width d ops)"
| "flat_width d (OLine t # ops) = map_option (\<lambda>w. length t + w) (flat_width d ops)"
| "flat_width d (OHardLine # ops) = None"
| "flat_width d (ONestStart _ # ops) = flat_width d ops"
| "flat_width d (ONestEnd _ # ops) = flat_width d ops"
| "flat_width d (OGroupStart # ops) = flat_width (d + 1) ops"
| "flat_width d (OGroupEnd # ops) = (if d = 0 then Some 0 else flat_width (d - 1) ops)"

definition group_fits :: "op list \<Rightarrow> nat \<Rightarrow> bool" where
  "group_fits ops remaining \<longleftrightarrow> (case flat_width 0 ops of None \<Rightarrow> False | Some w \<Rightarrow> w \<le> remaining)"

text \<open>
  The layout that a decision group by group gives, over the ops alone. Columns and indentation are
  \<open>usize\<close>: past \<open>2 ^ 64\<close> they wrap.
\<close>

definition in_flat :: "mode list \<Rightarrow> bool" where
  "in_flat ms \<longleftrightarrow> ms \<noteq> [] \<and> hd ms = Flat"

fun laid_out :: "nat \<Rightarrow> op list \<Rightarrow> nat \<Rightarrow> nat \<Rightarrow> mode list \<Rightarrow> str" where
  "laid_out width [] col ind ms = []"
| "laid_out width (OText t # ops) col ind ms = t @ laid_out width ops (wrap_usize (int col + int (length t))) ind ms"
| "laid_out width (OLine flat # ops) col ind ms =
     (if in_flat ms then flat @ laid_out width ops (wrap_usize (int col + int (length flat))) ind ms
      else 10 # replicate (min ind width) 32 @ laid_out width ops ind ind ms)"
| "laid_out width (OHardLine # ops) col ind ms =
     10 # replicate (min ind width) 32 @ laid_out width ops ind ind ms"
| "laid_out width (ONestStart amount # ops) col ind ms = laid_out width ops col (wrap_usize (int ind + int amount)) ms"
| "laid_out width (ONestEnd amount # ops) col ind ms = laid_out width ops col (wrap_usize (int ind - int amount)) ms"
| "laid_out width (OGroupStart # ops) col ind ms =
     laid_out width ops col ind
       ((if in_flat ms \<or> (col \<le> width \<and> group_fits ops (width - col)) then Flat else Break) # ms)"
| "laid_out width (OGroupEnd # ops) col ind ms = laid_out width ops col ind (tl ms)"

text \<open>Markers that open and close in turn, given the open groups and the indentation.\<close>

fun well_nested :: "nat \<Rightarrow> nat \<Rightarrow> op list \<Rightarrow> bool" where
  "well_nested g i [] \<longleftrightarrow> g = 0"
| "well_nested g i (ONestStart amount # ops) \<longleftrightarrow> well_nested g (i + amount) ops"
| "well_nested g i (ONestEnd amount # ops) \<longleftrightarrow> amount \<le> i \<and> well_nested g (i - amount) ops"
| "well_nested g i (OGroupStart # ops) \<longleftrightarrow> well_nested (Suc g) i ops"
| "well_nested g i (OGroupEnd # ops) \<longleftrightarrow> g > 0 \<and> well_nested (g - 1) i ops"
| "well_nested g i (_ # ops) \<longleftrightarrow> well_nested g i ops"

lemma fits_fill_Some:
  "i < length (l @ s) \<Longrightarrow> i \<le> length l \<Longrightarrow>
   \<exists>l' s'. fits_fill l s i = Some (l', s') \<and> l' @ s' = l @ s \<and> i < length l' \<and> l' ! i = (l @ s) ! i"
  by (auto simp: fits_fill_def nth_append split: list.split)

lemma fits_loop_correct:
  assumes "well_nested g ind (drop i (l @ s))" and "d < g" and "i \<le> length l"
  shows "\<exists>l' s'. fits_loop l s i d r =
      Some (case flat_width d (drop i (l @ s)) of None \<Rightarrow> False | Some w \<Rightarrow> w \<le> r, l', s')"
  using assms
proof (induction "length l + length s - i" arbitrary: l s i d r g ind rule: less_induct)
  case less
  let ?ops = "l @ s"
  have i: "i < length ?ops"
    using less.prems(1,2) by (cases "i < length ?ops") auto
  then obtain l' s' where f: "fits_fill l s i = Some (l', s')" "l' @ s' = ?ops" "i < length l'" "l' ! i = ?ops ! i"
    using fits_fill_Some less.prems(3) by blast
  have dr: "drop i ?ops = ?ops ! i # drop (Suc i) ?ops"
    using i by (rule Cons_nth_drop_Suc [symmetric])
  have len: "length l' + length s' = length l + length s"
    using f(2) by (metis length_append)
  have IH: "\<exists>l2 s2. fits_loop l' s' (Suc i) d' r' =
      Some (case flat_width d' (drop (Suc i) ?ops) of None \<Rightarrow> False | Some w \<Rightarrow> w \<le> r', l2, s2)"
    if "well_nested g' ind' (drop (Suc i) ?ops)" "d' < g'" for g' ind' d' r'
    using less.hyps [of l' s' "Suc i" g' ind' d' r'] that f i len by auto
  show ?case
  proof (cases "?ops ! i")
    case (OText t)
    then show ?thesis
      using IH [of g ind d "r - length t"] less.prems dr f
      by (subst fits_loop.simps) (auto split: option.split)
  next
    case (OLine t)
    then show ?thesis
      using IH [of g ind d "r - length t"] less.prems dr f
      by (subst fits_loop.simps) (auto split: option.split)
  next
    case OHardLine
    then show ?thesis using dr f by (subst fits_loop.simps) auto
  next
    case (ONestStart a)
    then show ?thesis using IH [of g "ind + a" d r] less.prems dr f by (subst fits_loop.simps) auto
  next
    case (ONestEnd a)
    then show ?thesis using IH [of g "ind - a" d r] less.prems dr f by (subst fits_loop.simps) auto
  next
    case OGroupStart
    then show ?thesis using IH [of "Suc g" ind "Suc d" r] less.prems dr f by (subst fits_loop.simps) auto
  next
    case OGroupEnd
    then show ?thesis
      using IH [of "g - 1" ind "d - 1" r] less.prems dr f by (subst fits_loop.simps) auto
  qed
qed

lemma fits_correct:
  assumes "well_nested (Suc g) ind (l @ s)"
  shows "\<exists>l' s'. fits l s r = Some (group_fits (l @ s) r, l', s') \<and> l' @ s' = l @ s"
proof -
  obtain l' s' where f: "fits l s r = Some (group_fits (l @ s) r, l', s')"
    using fits_loop_correct [of "Suc g" ind 0 l s 0 r] assms
    by (auto simp: fits_def group_fits_def)
  then show ?thesis using fits_loop_append [of l s 0 0 r] by (auto simp: fits_def)
qed

lemma write_spaces_replicate: "write_spaces output n = output @ replicate n 32"
proof -
  have "write_spaces_loop out n = out @ replicate n 32" for out
  proof (induction n arbitrary: out rule: less_induct)
    case (less n)
    show ?case
    proof (cases "n > 0")
      case True
      then have "write_spaces_loop (out @ replicate (min n SPACES) 32) (n - min n SPACES)
          = (out @ replicate (min n SPACES) 32) @ replicate (n - min n SPACES) 32"
        by (intro less) (simp add: SPACES_def)
      also have "\<dots> = out @ replicate n 32"
        by (simp flip: replicate_add)
      finally show ?thesis using True by (simp add: write_spaces_loop.simps [of out] Let_def)
    qed (simp add: write_spaces_loop.simps)
  qed
  then show ?thesis by (simp add: write_spaces_def)
qed

lemma ascii_width: "(if list_all (\<lambda>c. c < 128) t then str_len t else length t) = length t"
proof -
  have "list_all (\<lambda>c. c < 128) t \<Longrightarrow> str_len t = length t"
    by (induction t) (auto simp: len_utf8_def)
  then show ?thesis by simp
qed

lemma group_mode_correct:
  assumes "well_nested (Suc g) ind (ahead st)"
  shows "\<exists>st'. group_mode width st = Some
      (if in_flat (rr_modes st) \<or> (rr_column st \<le> width \<and> group_fits (ahead st) (width - rr_column st))
       then Flat else Break, st')"
proof -
  obtain l s where "fits (rr_lookahead st) (rr_source st) (width - rr_column st)
      = Some (group_fits (ahead st) (width - rr_column st), l, s)"
    using fits_correct [of g ind "rr_lookahead st" "rr_source st" "width - rr_column st"] assms
    by (auto simp: ahead_def)
  then show ?thesis by (auto simp: group_mode_def in_flat_def)
qed

lemma wraps_unchecked [simp]: "usize_result False n = Some (wrap_usize n)"
  by (simp add: usize_result_def wrap_usize_def)

lemma render_loop_correct:
  "well_nested (length (rr_modes st) - 1) ind (ahead st) \<Longrightarrow> rr_modes st \<noteq> [] \<Longrightarrow>
   render_loop False width st =
     Some (rr_output st @ laid_out width (ahead st) (rr_column st) (rr_indentation st) (rr_modes st))"
proof (induction "False" width st arbitrary: ind rule: render_loop.induct)
  case (1 width st)
  show ?case
  proof (cases "next_op st")
    case None
    then show ?thesis using next_op_ahead(2) [of st] by (simp add: render_loop.simps [of _ _ st])
  next
    case (Some r)
    then obtain op st1 where n: "next_op st = Some (op, st1)" by (cases r) auto
    then have a: "ahead st = op # ahead st1" by (rule next_op_ahead)
    have same: "rr_modes st1 = rr_modes st" "rr_indentation st1 = rr_indentation st"
      "rr_column st1 = rr_column st" "rr_output st1 = rr_output st"
      using n by (auto simp: next_op_def split: list.splits)
    have go: "render_loop False width st =
        Some (rr_output st2 @ laid_out width (ahead st1) (rr_column st2) (rr_indentation st2) (rr_modes st2))"
      if "render_op False width op st1 = Some st2"
        "well_nested (length (rr_modes st2) - 1) i (ahead st1)" "rr_modes st2 \<noteq> []" for st2 i
      using "1.hyps" [OF n refl that(1)] that render_op_ahead [OF that(1)] n
      by (simp add: render_loop.simps [of _ _ st])
    show ?thesis
    proof (cases op)
      case OGroupStart
      have w: "well_nested (Suc (length (rr_modes st) - 1)) ind (ahead st1)"
        using "1.prems" a OGroupStart by simp
      then obtain st2 where g: "group_mode width st1 = Some
          (if in_flat (rr_modes st) \<or> (rr_column st \<le> width \<and> group_fits (ahead st1) (width - rr_column st))
           then Flat else Break, st2)"
        using group_mode_correct [of _ _ st1 width] same by metis
      then show ?thesis
        using go OGroupStart w "1.prems"(2) a same group_mode_ahead [OF g] by simp
    next
      case OGroupEnd
      then have "length (rr_modes st) > 1" using "1.prems" a by simp
      then have "tl (rr_modes st) \<noteq> []" by (cases "rr_modes st") auto
      then show ?thesis using go [of "st1\<lparr>rr_modes := tl (rr_modes st)\<rparr>" ind] OGroupEnd "1.prems" a same by simp
    qed (use go "1.prems" a same in
        \<open>auto simp: new_line_def add_column_def set_indentation_def write_spaces_replicate ascii_width in_flat_def\<close>)
  qed
qed

lemma render_laid_out:
  "well_nested 0 0 ops \<Longrightarrow>
   render ops mode width = Some (laid_out width ops 0 0 [case mode of Compact \<Rightarrow> Flat | Pretty \<Rightarrow> Break])"
  using render_loop_correct [of "\<lparr>rr_lookahead = [], rr_source = ops, rr_column = 0, rr_indentation = 0,
        rr_modes = [case mode of Compact \<Rightarrow> Flat | Pretty \<Rightarrow> Break], rr_output = []\<rparr>" 0 width]
  by (simp add: render_def render_with_def ahead_def)

text \<open>
  The characters and the indentation that ops can add up to. While that is below \<open>2 ^ 64\<close> nothing
  overflows, so the two builds agree.
\<close>

fun op_extent :: "op \<Rightarrow> nat" where
  "op_extent (OText t) = length t"
| "op_extent (OLine flat) = length flat"
| "op_extent (ONestStart amount) = amount"
| "op_extent _ = 0"

definition extent :: "op list \<Rightarrow> nat" where
  "extent ops = sum_list (map op_extent ops)"

lemma render_op_checked:
  assumes "well_nested g (rr_indentation st) (op # ops)"
    and "rr_column st + extent (op # ops) < 2 ^ 64" "rr_indentation st + extent (op # ops) < 2 ^ 64"
    and "render_op False width op st = Some st'"
  shows "render_op True width op st = Some st'" "\<exists>g. well_nested g (rr_indentation st') ops"
    "rr_column st' + extent ops < 2 ^ 64" "rr_indentation st' + extent ops < 2 ^ 64"
  using assms
  by (cases op; auto simp: extent_def usize_result_def wrap_usize_def add_column_def set_indentation_def new_line_def
      ascii_width nat_add_distrib nat_diff_distrib split: if_splits option.splits dest!: group_mode_ahead)+

lemma render_loop_checked:
  "well_nested g (rr_indentation st) (ahead st) \<Longrightarrow> rr_column st + extent (ahead st) < 2 ^ 64 \<Longrightarrow>
   rr_indentation st + extent (ahead st) < 2 ^ 64 \<Longrightarrow> render_loop False width st = Some t \<Longrightarrow>
   render_loop True width st = Some t"
proof (induction "False" width st arbitrary: g rule: render_loop.induct)
  case (1 width st)
  show ?case
  proof (cases "next_op st")
    case None
    then show ?thesis using "1.prems" by (simp add: render_loop.simps [of _ _ st])
  next
    case (Some r)
    then obtain op st1 where n: "next_op st = Some (op, st1)" by (cases r) auto
    then have a: "ahead st = op # ahead st1" by (rule next_op_ahead)
    have same: "rr_indentation st1 = rr_indentation st" "rr_column st1 = rr_column st"
      using n by (auto simp: next_op_def split: list.splits)
    obtain st2 where st2: "render_op False width op st1 = Some st2" "render_loop False width st2 = Some t"
      using "1.prems"(4) n by (auto simp: render_loop.simps [of _ _ st] split: option.splits)
    note checked = render_op_checked [of g st1 op "ahead st1", unfolded same, folded a, OF "1.prems"(1-3) st2(1)]
    obtain h where "well_nested h (rr_indentation st2) (ahead st2)"
      using checked(2) render_op_ahead [OF st2(1)] by auto
    then have "render_loop True width st2 = Some t"
      using "1.hyps" [OF n refl st2(1)] checked(3,4) st2(2) render_op_ahead [OF st2(1)] by simp
    then show ?thesis using n checked(1) by (simp add: render_loop.simps [of _ _ st])
  qed
qed

lemma render_checked:
  assumes "well_nested 0 0 ops" and "extent ops < 2 ^ 64"
  shows "render_with True ops mode width = render ops mode width"
proof -
  obtain t where t: "render_with False ops mode width = Some t"
    using render_laid_out [OF assms(1)] unfolding render_def by blast
  then have "render_with True ops mode width = Some t"
    using assms unfolding render_with_def by (intro render_loop_checked [of 0]) (simp_all add: ahead_def)
  then show ?thesis using t by (simp add: render_def)
qed

text \<open>C8: The renderer, which reads the ops once with a bounded look-ahead, lays balanced ops out as
  the specification that decides group by group whether the group fits flat in the rest of the
  line, and it never panics; with overflow checks it does the same on ops whose texts and indentation
  add up to less than \<open>2 ^ 64\<close>.\<close>

theorem render_correct:
  "well_nested 0 0 ops \<Longrightarrow>
   render ops mode width = Some (laid_out width ops 0 0 [case mode of Compact \<Rightarrow> Flat | Pretty \<Rightarrow> Break])
   \<and> (extent ops < 2 ^ 64 \<longrightarrow> render_with True ops mode width = render ops mode width)"
  using render_laid_out render_checked by blast

theorem render_correct_witness:
  "render_with True [OGroupStart, OText [40], ONestStart 2, OLine [], OText [97], ONestEnd 2, OGroupEnd] Pretty 1
     = Some [40, 10, 32, 97]"
proof -
  let ?ops = "[OGroupStart, OText [40], ONestStart 2, OLine [], OText [97], ONestEnd 2, OGroupEnd]"
  have "well_nested 0 0 ?ops" "extent ?ops < 2 ^ 64" by (simp_all add: extent_def)
  moreover have "laid_out 1 ?ops 0 0 [Break] = [40, 10, 32, 97]"
    by (simp add: in_flat_def group_fits_def wrap_usize_def)
  ultimately show ?thesis using render_correct [of ?ops Pretty 1] by simp
qed

end
