(* ===== verification/Kore_Token_Stream.thy ===== *)
theory Kore_Token_Stream
  imports Kore_Sentence_Grammar Kore_Document
begin

text \<open>
  The terminals of a text in context. \<open>leads s ts r\<close> says that whatever terminals the text \<open>r\<close>
  lexes to, \<open>s\<close> in front of it adds the terminals \<open>ts\<close>; it composes over concatenation, so the
  text of a document is read piece by piece (\<open>renders\<close>).
\<close>

section \<open>Terminals in context\<close>

definition stream :: "str \<Rightarrow> terminal list \<Rightarrow> bool" where
  "stream r us \<longleftrightarrow> (\<forall>n. \<exists>toks. lex_from (lexer_at n r) = Inr toks \<and> map terminal toks = us)"

definition leads :: "str \<Rightarrow> terminal list \<Rightarrow> str \<Rightarrow> bool" where
  "leads s ts r \<longleftrightarrow> (\<forall>us. stream r us \<longrightarrow> stream (s @ r) (ts @ us))"

definition term_of :: "token_kind \<Rightarrow> str \<Rightarrow> terminal" where
  "term_of kind tx = (kind, if spelling kind = None then tx else [])"

lemma leads_Nil [simp]: "leads [] [] r"
  by (simp add: leads_def)

lemma leads_append: "leads s ts (s' @ r) \<Longrightarrow> leads s' ts' r \<Longrightarrow> leads (s @ s') (ts @ ts') r"
  by (simp add: leads_def)

lemma stream_Nil: "stream [] []"
  by (simp add: stream_def lex_from.simps [of "lexer_at _ []"] next_token_end [of "[]", simplified])

lemma leads_lexes: "leads s ts [] \<Longrightarrow> lexes s ts"
  using stream_Nil by (force simp: leads_def stream_def lexes_def lex_def)

lemma skip_trivia_space:
  assumes "list_all is_whitespace w"
  shows "skip_trivia (lexer_at n (w @ r)) = skip_trivia (lexer_at (n + str_len w) r)"
proof -
  have "takeWhile is_whitespace (w @ r) = w @ takeWhile is_whitespace r"
    "dropWhile is_whitespace (w @ r) = dropWhile is_whitespace r"
    using assms by (induction w) auto
  then have "lx_skip_while is_whitespace (lexer_at n (w @ r))
      = lx_skip_while is_whitespace (lexer_at (n + str_len w) r)"
    by (simp add: lx_skip_while_at add.assoc)
  then show ?thesis by (subst (1 2) skip_trivia.simps) simp
qed

lemma leads_space: "list_all is_whitespace w \<Longrightarrow> leads w [] r"
proof -
  assume "list_all is_whitespace w"
  then have "lex_from (lexer_at n (w @ r)) = lex_from (lexer_at (n + str_len w) r)" for n
    by (subst (1 2) lex_from.simps) (simp add: next_token_def skip_trivia_space)
  then show ?thesis by (simp add: leads_def stream_def)
qed

lemma leads_token:
  assumes "token_text kind tx" and "token_ends kind r"
  shows "leads tx [term_of kind tx] r"
  unfolding leads_def stream_def
proof (intro allI impI)
  fix us n
  assume s: "\<forall>n. \<exists>toks. lex_from (lexer_at n r) = Inr toks \<and> map terminal toks = us"
  then obtain toks where "lex_from (lexer_at (n + str_len tx) r) = Inr toks" "map terminal toks = us" by blast
  then show "\<exists>toks. lex_from (lexer_at n (tx @ r)) = Inr toks \<and> map terminal toks = [term_of kind tx] @ us"
    using next_token_layout [of "[]" kind tx r n] assms
    by (subst lex_from.simps) (auto simp: terminal_def term_of_def)
qed

section \<open>The texts of a document\<close>

text \<open>What the renderer can make of ops: a line is its flat text or a new line with spaces.\<close>

definition new_line_text :: "str \<Rightarrow> bool" where
  "new_line_text s \<longleftrightarrow> (\<exists>n. s = 10 # replicate n 32)"

fun spaced :: "op list \<Rightarrow> str \<Rightarrow> bool" where
  "spaced [] s \<longleftrightarrow> s = []"
| "spaced (OText t # ops) s \<longleftrightarrow> (\<exists>s'. s = t @ s' \<and> spaced ops s')"
| "spaced (OLine flat # ops) s \<longleftrightarrow> (\<exists>l s'. s = l @ s' \<and> (l = flat \<or> new_line_text l) \<and> spaced ops s')"
| "spaced (OHardLine # ops) s \<longleftrightarrow> (\<exists>l s'. s = l @ s' \<and> new_line_text l \<and> spaced ops s')"
| "spaced (_ # ops) s \<longleftrightarrow> spaced ops s"

lemma spaced_laid_out: "spaced ops (laid_out width ops col ind ms)"
proof (induction width ops col ind ms rule: laid_out.induct)
  case (3 width flat ops col ind ms)
  have "new_line_text (10 # replicate (min ind width) 32)" unfolding new_line_text_def by blast
  then show ?case using 3
    by (cases "in_flat ms") (auto, metis append_Cons)
next
  case (4 width ops col ind ms)
  have "new_line_text (10 # replicate (min ind width) 32)" unfolding new_line_text_def by blast
  then show ?case using 4 by (auto, metis append_Cons)
qed auto

lemma spaced_append: "spaced (a @ b) s \<longleftrightarrow> (\<exists>s1 s2. s = s1 @ s2 \<and> spaced a s1 \<and> spaced b s2)"
  by (induction a s rule: spaced.induct) (auto, (metis append.assoc)+)

text \<open>
  \<open>renders K ops ts P\<close>: in a context that satisfies \<open>K\<close>, a text of the ops adds the terminals
  \<open>ts\<close>, and together they satisfy \<open>P\<close>.
\<close>

definition renders :: "(str \<Rightarrow> bool) \<Rightarrow> op list \<Rightarrow> terminal list \<Rightarrow> (str \<Rightarrow> bool) \<Rightarrow> bool" where
  "renders K ops ts P \<longleftrightarrow> (\<forall>s r. spaced ops s \<longrightarrow> K r \<longrightarrow> leads s ts r \<and> P (s @ r))"

lemma renders_append: "renders Q a ts P \<Longrightarrow> renders K b us Q \<Longrightarrow> renders K (a @ b) (ts @ us) P"
  unfolding renders_def spaced_append by (auto intro: leads_append)

lemma renders_weaken:
  "renders K ops ts P \<Longrightarrow> (\<And>r. K' r \<Longrightarrow> K r) \<Longrightarrow> (\<And>r. P r \<Longrightarrow> P' r) \<Longrightarrow> renders K' ops ts P'"
  unfolding renders_def by blast

definition whatever :: "str \<Rightarrow> bool" where
  "whatever r \<longleftrightarrow> True"

text \<open>Where an identifier ends.\<close>

definition stops :: "str \<Rightarrow> bool" where
  "stops r \<longleftrightarrow> r = [] \<or> \<not> is_id_char (hd r)"

text \<open>Where a colon is not the start of \<open>:=\<close>.\<close>

definition no_equals :: "str \<Rightarrow> bool" where
  "no_equals r \<longleftrightarrow> r = [] \<or> hd r \<noteq> 61"

lemma renders_whatever: "renders K ops ts P \<Longrightarrow> renders K ops ts whatever"
  by (erule renders_weaken) (simp_all add: whatever_def)

lemma renders_silent: "renders K [ONestStart i] [] K" "renders K [ONestEnd i] [] K"
  "renders K [OGroupStart] [] K" "renders K [OGroupEnd] [] K"
  by (auto simp: renders_def)

lemma new_line_space: "new_line_text l \<Longrightarrow> list_all is_whitespace l"
  by (auto simp: new_line_text_def is_whitespace_def list_all_iff)

lemma renders_line: "renders K [OLine (lit '' '')] [] stops"
  unfolding renders_def
proof (intro allI impI)
  fix s r
  assume "spaced [OLine (lit '' '')] s"
  then have "s = [32] \<or> new_line_text s" by auto
  moreover from this have "stops (s @ r)"
    by (auto simp: new_line_text_def stops_def is_id_char_def is_ascii_alphanumeric_def is_ascii_alphabetic_def
        is_ascii_digit_def)
  ultimately show "leads s [] r \<and> stops (s @ r)"
    using new_line_space leads_space [of s r] by (auto simp: is_whitespace_def)
qed

lemma renders_line_break: "renders K [OLine []] [] (\<lambda>r. K r \<or> stops r)"
  unfolding renders_def
proof (intro allI impI)
  fix s r
  assume "spaced [OLine []] s" and "K r"
  then have "s = [] \<or> new_line_text s" by auto
  moreover have "new_line_text s \<Longrightarrow> stops (s @ r)"
    by (auto simp: new_line_text_def stops_def is_id_char_def is_ascii_alphanumeric_def is_ascii_alphabetic_def
        is_ascii_digit_def)
  ultimately show "leads s [] r \<and> (K (s @ r) \<or> stops (s @ r))"
    using new_line_space leads_space [of s r] \<open>K r\<close> by auto
qed

lemma renders_hard_line: "renders K [OHardLine] [] stops"
  unfolding renders_def
  by (auto simp: new_line_text_def stops_def is_id_char_def is_ascii_alphanumeric_def is_ascii_alphabetic_def
      is_ascii_digit_def is_whitespace_def list_all_iff intro!: leads_space)

lemma renders_text: "(\<And>r. K r \<Longrightarrow> leads t ts r \<and> P (t @ r)) \<Longrightarrow> renders K [OText t] ts P"
  by (auto simp: renders_def)

end
