(* ===== verification/Kore_Printer.thy ===== *)
theory Kore_Printer
  imports Kore_Document Kore_Ast Kore_String
begin

text \<open>
  The printer of KORE (\<open>kore/printer.rs\<close>). Sorts, symbols, variables and patterns become ops
  through an explicit stack of tasks (\<open>syntax_step\<close>, \<open>syntax_ops\<close>; the top is the head of the
  list); sentences are documents; modules and definitions are sequences of ops. The ops the
  iterators of the source produce on demand are the lists here. The source of a pattern is the
  pattern itself (\<open>PatternSource\<close> for \<open>&Pattern\<close>).
\<close>

section \<open>Tasks\<close>

datatype syntax_task =
    KPattern pattern
  | KSort sort
  | KSymbol symbol
  | KVariable variable
  | KText str
  | KLine str
  | KNestStart
  | KNestEnd
  | KGroupStart
  | KGroupEnd
  | KDelimited str str "syntax_task list"

type_synonym tasks = "syntax_task list"

definition delimited_task :: "str \<Rightarrow> str \<Rightarrow> tasks \<Rightarrow> syntax_task" where
  "delimited_task open close items = KDelimited open close items"

definition push_grouped :: "tasks \<Rightarrow> tasks \<Rightarrow> tasks" where
  "push_grouped stack grouped = KGroupStart # grouped @ KGroupEnd # stack"

definition sorted_connective :: "tasks \<Rightarrow> str \<Rightarrow> sort \<Rightarrow> pattern list \<Rightarrow> tasks" where
  "sorted_connective stack head s operands =
     push_grouped stack
       [KText head, KSort s, KText (lit ''}''), delimited_task (lit ''('') (lit '')'') (map KPattern operands)]"

definition sorted_binder :: "tasks \<Rightarrow> str \<Rightarrow> sort \<Rightarrow> variable \<Rightarrow> pattern \<Rightarrow> tasks" where
  "sorted_binder stack head s v body =
     push_grouped stack
       [KText head, KSort s, KText (lit ''}''), delimited_task (lit ''('') (lit '')'') [KVariable v, KPattern body]]"

definition fixpoint :: "tasks \<Rightarrow> str \<Rightarrow> variable \<Rightarrow> pattern \<Rightarrow> tasks" where
  "fixpoint stack head v body =
     push_grouped stack [KText head, delimited_task (lit ''('') (lit '')'') [KVariable v, KPattern body]]"

definition two_sorted :: "tasks \<Rightarrow> str \<Rightarrow> sort \<Rightarrow> sort \<Rightarrow> pattern list \<Rightarrow> tasks" where
  "two_sorted stack head operand result operands =
     push_grouped stack
       [KText head, delimited_task (lit ''{'') (lit ''}'') [KSort operand, KSort result],
        delimited_task (lit ''('') (lit '')'') (map KPattern operands)]"

text \<open>The items of a delimited task, pushed from the last with their separators.\<close>

definition push_items :: "tasks \<Rightarrow> tasks \<Rightarrow> tasks" where
  "push_items items stack =
     foldl (\<lambda>stack (index, item).
         if index > 0 then KText (lit '','') # KLine (lit '' '') # item # stack else item # stack)
       stack (List.rev (List.enumerate 0 items))"

definition expand_delimited :: "tasks \<Rightarrow> str \<Rightarrow> str \<Rightarrow> tasks \<Rightarrow> tasks" where
  "expand_delimited stack open close items =
     (if items = [] then KText (open @ close) # stack
      else
        KGroupStart # KText open # KNestStart # KLine []
          # push_items items (KNestEnd # KLine [] # KText close # KGroupEnd # stack))"

fun expand_sort :: "tasks \<Rightarrow> sort \<Rightarrow> tasks" where
  "expand_sort stack (SortVariable name) = KText name # stack"
| "expand_sort stack (SortApplication name arguments) =
     KText name # delimited_task (lit ''{'') (lit ''}'') (map KSort arguments) # stack"

definition expand_symbol :: "tasks \<Rightarrow> symbol \<Rightarrow> tasks" where
  "expand_symbol stack symb =
     KText (symbol_name symb)
       # delimited_task (lit ''{'') (lit ''}'') (map KSort (sort_parameters symb)) # stack"

definition expand_variable :: "tasks \<Rightarrow> variable \<Rightarrow> tasks" where
  "expand_variable stack v = KText (var_name v @ lit '':'') # KSort (var_sort v) # stack"

fun expand_pattern :: "tasks \<Rightarrow> pattern \<Rightarrow> tasks" where
  "expand_pattern stack (PString v) = KText (quote v) # stack"
| "expand_pattern stack (PVariable v) = KVariable v # stack"
| "expand_pattern stack (PApplication symb args) =
     KSymbol symb # delimited_task (lit ''('') (lit '')'') (map KPattern args) # stack"
| "expand_pattern stack (PTop s) = KText (ml ''top{'') # KSort s # KText (lit ''}()'') # stack"
| "expand_pattern stack (PBottom s) = KText (ml ''bottom{'') # KSort s # KText (lit ''}()'') # stack"
| "expand_pattern stack (PAnd s args) = sorted_connective stack (ml ''and{'') s args"
| "expand_pattern stack (POr s args) = sorted_connective stack (ml ''or{'') s args"
| "expand_pattern stack (PNot s p) = sorted_connective stack (ml ''not{'') s [p]"
| "expand_pattern stack (PNext s p) = sorted_connective stack (ml ''next{'') s [p]"
| "expand_pattern stack (PImplies s l r) = sorted_connective stack (ml ''implies{'') s [l, r]"
| "expand_pattern stack (PIff s l r) = sorted_connective stack (ml ''iff{'') s [l, r]"
| "expand_pattern stack (PRewrites s l r) = sorted_connective stack (ml ''rewrites{'') s [l, r]"
| "expand_pattern stack (PExists s v body) = sorted_binder stack (ml ''exists{'') s v body"
| "expand_pattern stack (PForall s v body) = sorted_binder stack (ml ''forall{'') s v body"
| "expand_pattern stack (PMu v body) = fixpoint stack (ml ''mu{}'') v body"
| "expand_pattern stack (PNu v body) = fixpoint stack (ml ''nu{}'') v body"
| "expand_pattern stack (PCeil s t p) = two_sorted stack (ml ''ceil'') s t [p]"
| "expand_pattern stack (PFloor s t p) = two_sorted stack (ml ''floor'') s t [p]"
| "expand_pattern stack (PEquals s t l r) = two_sorted stack (ml ''equals'') s t [l, r]"
| "expand_pattern stack (PIn s t l r) = two_sorted stack (ml ''in'') s t [l, r]"
| "expand_pattern stack (PDomainValue s v) =
     KText (ml ''dv{'') # KSort s
       # KText (lit ''}('' @ quote_as v (of_domain_value s) @ lit '')'') # stack"
| "expand_pattern stack (PAssociative a symb args) =
     push_grouped stack
       [KText (case a of LeftAssoc \<Rightarrow> ml ''left-assoc{}('' | RightAssoc \<Rightarrow> ml ''right-assoc{}(''),
        KSymbol symb, delimited_task (lit ''('') (lit '')'') (map KPattern args), KText (lit '')'')]"

text \<open>
  One iteration of \<open>SyntaxOps::next\<close> with \<open>expand\<close>: a leaf is an op, any other task is replaced by
  its parts.
\<close>

fun syntax_step :: "nat \<Rightarrow> tasks \<Rightarrow> syntax_task \<Rightarrow> op option \<times> tasks" where
  "syntax_step indent stack (KText t) = (Some (OText t), stack)"
| "syntax_step indent stack (KLine flat) = (Some (OLine flat), stack)"
| "syntax_step indent stack KNestStart = (Some (ONestStart indent), stack)"
| "syntax_step indent stack KNestEnd = (Some (ONestEnd indent), stack)"
| "syntax_step indent stack KGroupStart = (Some OGroupStart, stack)"
| "syntax_step indent stack KGroupEnd = (Some OGroupEnd, stack)"
| "syntax_step indent stack (KDelimited open close items) = (None, expand_delimited stack open close items)"
| "syntax_step indent stack (KSort s) = (None, expand_sort stack s)"
| "syntax_step indent stack (KSymbol symb) = (None, expand_symbol stack symb)"
| "syntax_step indent stack (KVariable v) = (None, expand_variable stack v)"
| "syntax_step indent stack (KPattern p) = (None, expand_pattern stack p)"

text \<open>The work left on a stack, which every iteration decreases.\<close>

definition delimited_weight :: "nat list \<Rightarrow> nat" where
  "delimited_weight ws = 10 + sum_list (map (\<lambda>w. w + 2) ws)"

fun sort_weight :: "sort \<Rightarrow> nat" where
  "sort_weight (SortVariable _) = 2"
| "sort_weight (SortApplication _ ss) = 2 + delimited_weight (map sort_weight ss)"

definition symbol_weight :: "symbol \<Rightarrow> nat" where
  "symbol_weight symb = 2 + delimited_weight (map sort_weight (sort_parameters symb))"

definition variable_weight :: "variable \<Rightarrow> nat" where
  "variable_weight v = 2 + sort_weight (var_sort v)"

fun pattern_weight :: "pattern \<Rightarrow> nat" where
  "pattern_weight (PString v) = 2"
| "pattern_weight (PVariable v) = 1 + variable_weight v"
| "pattern_weight (PApplication symb args) = 1 + symbol_weight symb + delimited_weight (map pattern_weight args)"
| "pattern_weight (PTop s) = 3 + sort_weight s"
| "pattern_weight (PBottom s) = 3 + sort_weight s"
| "pattern_weight (PAnd s args) = 5 + sort_weight s + delimited_weight (map pattern_weight args)"
| "pattern_weight (POr s args) = 5 + sort_weight s + delimited_weight (map pattern_weight args)"
| "pattern_weight (PNot s p) = 5 + sort_weight s + delimited_weight [pattern_weight p]"
| "pattern_weight (PNext s p) = 5 + sort_weight s + delimited_weight [pattern_weight p]"
| "pattern_weight (PImplies s l r) = 5 + sort_weight s + delimited_weight [pattern_weight l, pattern_weight r]"
| "pattern_weight (PIff s l r) = 5 + sort_weight s + delimited_weight [pattern_weight l, pattern_weight r]"
| "pattern_weight (PRewrites s l r) = 5 + sort_weight s + delimited_weight [pattern_weight l, pattern_weight r]"
| "pattern_weight (PExists s v p) = 5 + sort_weight s + delimited_weight [variable_weight v, pattern_weight p]"
| "pattern_weight (PForall s v p) = 5 + sort_weight s + delimited_weight [variable_weight v, pattern_weight p]"
| "pattern_weight (PMu v p) = 4 + delimited_weight [variable_weight v, pattern_weight p]"
| "pattern_weight (PNu v p) = 4 + delimited_weight [variable_weight v, pattern_weight p]"
| "pattern_weight (PCeil s t p) =
     4 + delimited_weight [sort_weight s, sort_weight t] + delimited_weight [pattern_weight p]"
| "pattern_weight (PFloor s t p) =
     4 + delimited_weight [sort_weight s, sort_weight t] + delimited_weight [pattern_weight p]"
| "pattern_weight (PEquals s t l r) =
     4 + delimited_weight [sort_weight s, sort_weight t] + delimited_weight [pattern_weight l, pattern_weight r]"
| "pattern_weight (PIn s t l r) =
     4 + delimited_weight [sort_weight s, sort_weight t] + delimited_weight [pattern_weight l, pattern_weight r]"
| "pattern_weight (PDomainValue s v) = 3 + sort_weight s"
| "pattern_weight (PAssociative a symb args) =
     5 + symbol_weight symb + delimited_weight (map pattern_weight args)"

fun task_weight :: "syntax_task \<Rightarrow> nat" where
  "task_weight (KPattern p) = pattern_weight p"
| "task_weight (KSort s) = sort_weight s"
| "task_weight (KSymbol symb) = symbol_weight symb"
| "task_weight (KVariable v) = variable_weight v"
| "task_weight (KDelimited _ _ items) = delimited_weight (map task_weight items)"
| "task_weight _ = 1"

definition stack_weight :: "tasks \<Rightarrow> nat" where
  "stack_weight stack = sum_list (map task_weight stack)"

lemma stack_weight_simps [simp]:
  "stack_weight [] = 0" "stack_weight (t # stack) = task_weight t + stack_weight stack"
  "stack_weight (a @ b) = stack_weight a + stack_weight b"
  by (simp_all add: stack_weight_def)

text \<open>The items with their separators, as they come off the stack.\<close>

fun separated :: "tasks \<Rightarrow> tasks" where
  "separated [] = []"
| "separated [item] = [item]"
| "separated (item # next # items) = item # KText (lit '','') # KLine (lit '' '') # separated (next # items)"

lemma push_items_separated: "push_items items stack = separated items @ stack"
proof -
  have tail: "foldl (\<lambda>stack (index, item).
         if index > 0 then KText (lit '','') # KLine (lit '' '') # item # stack else item # stack)
       stack (List.rev (List.enumerate (Suc n) items))
     = concat (map (\<lambda>item. [KText (lit '',''), KLine (lit '' ''), item]) items) @ stack" for n items and stack :: tasks
    by (induction items arbitrary: n stack) auto
  have sep: "separated (item # items) = item # concat (map (\<lambda>item. [KText (lit '',''), KLine (lit '' ''), item]) items)"
    for item items
    by (induction items arbitrary: item) auto
  show ?thesis
    by (cases items) (auto simp: push_items_def tail sep simp del: One_nat_def)
qed

lemma separated_weight: "stack_weight (separated items) + 2 \<le> sum_list (map (\<lambda>t. task_weight t + 2) items) + 2"
  by (induction items rule: separated.induct) auto

lemma syntax_step_weight:
  "syntax_step indent stack task = (r, stack') \<Longrightarrow> stack_weight stack' < stack_weight (task # stack)"
proof (cases task)
  case (KDelimited op cl items)
  moreover assume "syntax_step indent stack task = (r, stack')"
  ultimately show ?thesis
    using separated_weight [of items]
    by (auto simp: expand_delimited_def push_items_separated delimited_weight_def comp_def)
next
  case (KSort s)
  moreover assume "syntax_step indent stack task = (r, stack')"
  ultimately show ?thesis by (cases s) (auto simp: delimited_task_def comp_def)
next
  case (KPattern p)
  moreover assume "syntax_step indent stack task = (r, stack')"
  ultimately show ?thesis
    by (cases p) (auto simp: delimited_task_def sorted_connective_def sorted_binder_def fixpoint_def
        two_sorted_def push_grouped_def comp_def)
qed (auto simp: delimited_task_def expand_symbol_def expand_variable_def symbol_weight_def
    variable_weight_def comp_def)

text \<open>The ops of a stack of tasks, which \<open>SyntaxOps\<close> yields one after the other.\<close>

function syntax_ops :: "nat \<Rightarrow> tasks \<Rightarrow> op list" where
  "syntax_ops indent stack =
     (case stack of
        [] \<Rightarrow> []
      | task # rest \<Rightarrow>
          (case syntax_step indent rest task of
             (Some op, stack') \<Rightarrow> op # syntax_ops indent stack'
           | (None, stack') \<Rightarrow> syntax_ops indent stack'))"
  by pat_completeness auto
termination
  by (relation "measure (\<lambda>(_, stack). stack_weight stack)")
    (auto dest!: syntax_step_weight [OF sym] syntax_step_weight)

declare syntax_ops.simps [simp del]

definition syntax_doc :: "syntax_task \<Rightarrow> nat \<Rightarrow> doc" where
  "syntax_doc root indent = syntax_ops indent [root]"

definition sort_doc :: "sort \<Rightarrow> nat \<Rightarrow> doc" where
  "sort_doc s indent = syntax_doc (KSort s) indent"

definition symbol_doc :: "symbol \<Rightarrow> nat \<Rightarrow> doc" where
  "symbol_doc symb indent = syntax_doc (KSymbol symb) indent"

definition variable_doc :: "variable \<Rightarrow> nat \<Rightarrow> doc" where
  "variable_doc v indent = syntax_doc (KVariable v) indent"

definition pattern_doc :: "pattern \<Rightarrow> nat \<Rightarrow> doc" where
  "pattern_doc p indent = syntax_doc (KPattern p) indent"

section \<open>Documents of sentences, modules and definitions\<close>

definition join :: "doc list \<Rightarrow> doc \<Rightarrow> doc" where
  "join documents separator =
     (case documents of
        [] \<Rightarrow> []
      | first # rest \<Rightarrow> doc_concat (foldl (\<lambda>joined document. joined @ [separator, document]) [first] rest))"

definition delimited :: "str \<Rightarrow> str \<Rightarrow> doc list \<Rightarrow> nat \<Rightarrow> doc" where
  "delimited open close documents indent =
     (if documents = [] then doc_text (open @ close)
      else doc_group (doc_concat
        [doc_text open,
         doc_nest indent (doc_concat
           [doc_line_break, join documents (doc_concat [doc_text (lit '',''), doc_line])]),
         doc_line_break,
         doc_text close]))"

definition attributes_doc :: "attributes \<Rightarrow> nat \<Rightarrow> doc" where
  "attributes_doc attrs indent =
     delimited (lit ''['') (lit '']'') (map (\<lambda>p. pattern_doc p indent) attrs) indent"

definition parameters_doc :: "str list \<Rightarrow> nat \<Rightarrow> doc" where
  "parameters_doc params indent = delimited (lit ''{'') (lit ''}'') (map doc_text params) indent"

definition arguments_doc :: "sort list \<Rightarrow> nat \<Rightarrow> doc" where
  "arguments_doc sorts indent = delimited (lit ''('') (lit '')'') (map (\<lambda>s. sort_doc s indent) sorts) indent"

definition declaration_pattern_doc :: "str \<Rightarrow> str list \<Rightarrow> pattern \<Rightarrow> attributes \<Rightarrow> nat \<Rightarrow> doc" where
  "declaration_pattern_doc word params p attrs indent =
     doc_group (doc_concat
       [doc_text word,
        parameters_doc params indent,
        doc_nest indent (doc_concat [doc_line, pattern_doc p indent, doc_line, attributes_doc attrs indent])])"

fun sentence_doc :: "sentence \<Rightarrow> nat \<Rightarrow> doc" where
  "sentence_doc (Import name attrs) indent =
     doc_group (doc_concat [doc_text (lit ''import '' @ name), doc_line, attributes_doc attrs indent])"
| "sentence_doc (SortDeclaration hooked name params attrs) indent =
     doc_group (doc_concat
       [doc_text ((if hooked then lit ''hooked-'' else []) @ lit ''sort '' @ name),
        parameters_doc params indent, doc_line, attributes_doc attrs indent])"
| "sentence_doc (SymbolDeclaration hooked symb arg_sorts result attrs) indent =
     doc_group (doc_concat
       [doc_text (if hooked then lit ''hooked-symbol '' else lit ''symbol ''),
        symbol_doc symb indent, arguments_doc arg_sorts indent, doc_text (lit '' : ''),
        sort_doc result indent, doc_line, attributes_doc attrs indent])"
| "sentence_doc (AliasDeclaration alias_symbol arg_sorts result left right attrs) indent =
     doc_group (doc_concat
       [doc_text (lit ''alias ''), symbol_doc alias_symbol indent, arguments_doc arg_sorts indent,
        doc_text (lit '' : ''), sort_doc result indent, doc_text (lit '' where''),
        doc_nest indent (doc_concat
          [doc_line, pattern_doc left indent, doc_text (lit '' :=''), doc_line, pattern_doc right indent,
           doc_line, attributes_doc attrs indent])])"
| "sentence_doc (Axiom params p attrs) indent = declaration_pattern_doc (lit ''axiom'') params p attrs indent"
| "sentence_doc (Claim params p attrs) indent = declaration_pattern_doc (lit ''claim'') params p attrs indent"

definition module_ops :: "kore_module \<Rightarrow> nat \<Rightarrow> op list" where
  "module_ops m indent =
     [OText (lit ''module '' @ mod_name m)]
     @ (if mod_sentences m \<noteq> []
        then ONestStart indent
          # concat (map (\<lambda>s. OHardLine # sentence_doc s indent) (mod_sentences m)) @ [ONestEnd indent]
        else [])
     @ [OHardLine, OText (lit ''endmodule '')] @ attributes_doc (mod_attributes m) indent"

definition definition_ops :: "attributes \<Rightarrow> kore_module list \<Rightarrow> nat \<Rightarrow> op list" where
  "definition_ops attrs modules indent =
     attributes_doc attrs indent @ concat (map (\<lambda>m. OHardLine # module_ops m indent) modules)"

section \<open>Entry points\<close>

datatype print_style = CompactStyle | PrettyStyle

record printer_options =
  po_style :: print_style
  po_width :: nat
  po_indent :: nat

definition USIZE_MAX :: nat where "USIZE_MAX = 2 ^ 64 - 1"

definition compact_options :: printer_options where
  "compact_options = \<lparr>po_style = CompactStyle, po_width = USIZE_MAX, po_indent = 2\<rparr>"

definition pretty_options :: "nat \<Rightarrow> printer_options" where
  "pretty_options width = \<lparr>po_style = PrettyStyle, po_width = width, po_indent = 2\<rparr>"

definition default_options :: printer_options where
  "default_options = pretty_options 100"

fun print_mode :: "print_style \<Rightarrow> render_mode" where
  "print_mode CompactStyle = Compact"
| "print_mode PrettyStyle = Pretty"

definition render_ops :: "printer_options \<Rightarrow> op list \<Rightarrow> str option" where
  "render_ops options ops = render ops (print_mode (po_style options)) (po_width options)"

text \<open>The same in a build with overflow checks.\<close>

definition checked_ops :: "printer_options \<Rightarrow> op list \<Rightarrow> str option" where
  "checked_ops options ops = render_with True ops (print_mode (po_style options)) (po_width options)"

definition print_definition :: "printer_options \<Rightarrow> kore_definition \<Rightarrow> str option" where
  "print_definition options d =
     render_ops options (definition_ops (definition_attributes d) (definition_modules d) (po_indent options))"

definition print_module :: "printer_options \<Rightarrow> kore_module \<Rightarrow> str option" where
  "print_module options m = render_ops options (module_ops m (po_indent options))"

definition print_sentence :: "printer_options \<Rightarrow> sentence \<Rightarrow> str option" where
  "print_sentence options s = render_ops options (sentence_doc s (po_indent options))"

definition print_pattern :: "printer_options \<Rightarrow> pattern \<Rightarrow> str option" where
  "print_pattern options p = render_ops options (syntax_ops (po_indent options) [KPattern p])"

text \<open>The \<open>Display\<close> texts of sorts, symbols, variables and attributes.\<close>

definition display :: "doc \<Rightarrow> str option" where
  "display document = render document Compact USIZE_MAX"

definition display_sort :: "sort \<Rightarrow> str option" where
  "display_sort s = display (sort_doc s (po_indent compact_options))"

definition display_symbol :: "symbol \<Rightarrow> str option" where
  "display_symbol symb = display (symbol_doc symb (po_indent compact_options))"

definition display_variable :: "variable \<Rightarrow> str option" where
  "display_variable v = display (variable_doc v (po_indent compact_options))"

definition display_attributes :: "attributes \<Rightarrow> str option" where
  "display_attributes attrs = display (attributes_doc attrs (po_indent compact_options))"

section \<open>The ops as a function of the syntax\<close>

text \<open>The ops of a delimited list, in both ways the source makes them.\<close>

fun separated_ops :: "op list list \<Rightarrow> op list" where
  "separated_ops [] = []"
| "separated_ops [ops] = ops"
| "separated_ops (ops # next # opss) = ops @ OText (lit '','') # OLine (lit '' '') # separated_ops (next # opss)"

definition delimited_ops :: "nat \<Rightarrow> str \<Rightarrow> str \<Rightarrow> op list list \<Rightarrow> op list" where
  "delimited_ops indent open close opss =
     (if opss = [] then [OText (open @ close)]
      else OGroupStart # OText open # ONestStart indent # OLine [] # separated_ops opss
        @ [ONestEnd indent, OLine [], OText close, OGroupEnd])"

lemma delimited_delimited_ops: "delimited open close documents indent = delimited_ops indent open close documents"
proof -
  have fold: "concat (foldl (\<lambda>joined document. joined @ [sep, document]) acc rest)
      = concat acc @ concat (map (\<lambda>d. sep @ d) rest)" for sep :: doc and acc rest
    by (induction rest arbitrary: acc) auto
  have sep: "separated_ops (d # rest) = d @ concat (map (\<lambda>d. [OText (lit '',''), OLine (lit '' '')] @ d) rest)"
    for d rest
    by (induction rest arbitrary: d) auto
  show ?thesis
    by (cases documents)
      (simp_all add: delimited_def delimited_ops_def join_def doc_concat_concat doc_text_def doc_line_def
        doc_line_break_def doc_nest_def doc_group_def fold sep del: map_append)
qed

lemma syntax_ops_Nil [simp]: "syntax_ops indent [] = []"
  by (simp add: syntax_ops.simps)

lemma syntax_ops_leaf [simp]:
  "syntax_ops i (KText t # stack) = OText t # syntax_ops i stack"
  "syntax_ops i (KLine t # stack) = OLine t # syntax_ops i stack"
  "syntax_ops i (KNestStart # stack) = ONestStart i # syntax_ops i stack"
  "syntax_ops i (KNestEnd # stack) = ONestEnd i # syntax_ops i stack"
  "syntax_ops i (KGroupStart # stack) = OGroupStart # syntax_ops i stack"
  "syntax_ops i (KGroupEnd # stack) = OGroupEnd # syntax_ops i stack"
  by (simp_all add: syntax_ops.simps [of _ "_ # _"])

lemma syntax_ops_node:
  "syntax_ops i (KDelimited open close items # stack) = syntax_ops i (expand_delimited stack open close items)"
  "syntax_ops i (KSort s # stack) = syntax_ops i (expand_sort stack s)"
  "syntax_ops i (KSymbol symb # stack) = syntax_ops i (expand_symbol stack symb)"
  "syntax_ops i (KVariable v # stack) = syntax_ops i (expand_variable stack v)"
  "syntax_ops i (KPattern p # stack) = syntax_ops i (expand_pattern stack p)"
  by (simp_all add: syntax_ops.simps [of _ "_ # _"])

text \<open>A task yields its own ops and leaves the rest of the stack to be read.\<close>

lemma syntax_ops_append: "syntax_ops i (a @ b) = syntax_ops i a @ syntax_ops i b"
proof (induction i a rule: syntax_ops.induct)
  case (1 i a)
  show ?case
  proof (cases a)
    case (Cons t rest)
    have step: "syntax_step i (rest @ b) t = (fst (syntax_step i rest t), snd (syntax_step i rest t) @ b)"
    proof (cases t)
      case (KSort s)
      then show ?thesis by (cases s) auto
    next
      case (KPattern p)
      then show ?thesis
        by (cases p) (auto simp: sorted_connective_def sorted_binder_def fixpoint_def two_sorted_def
            push_grouped_def)
    qed (auto simp: expand_symbol_def expand_variable_def expand_delimited_def push_items_separated)
    obtain r st where r: "syntax_step i rest t = (r, st)" by (cases "syntax_step i rest t")
    then have "syntax_ops i (st @ b) = syntax_ops i st @ syntax_ops i b"
      using 1 Cons by (cases r) auto
    then show ?thesis
      using step r Cons by (cases r) (simp_all add: syntax_ops.simps [of _ "_ # _"])
  qed simp
qed

lemma syntax_ops_separated:
  "syntax_ops i (separated items) = separated_ops (map (\<lambda>t. syntax_ops i [t]) items)"
proof (induction items rule: separated.induct)
  case (3 item nxt items)
  then show ?case
    using syntax_ops_append [of i "[item]" "KText (lit '','') # KLine (lit '' '') # separated (nxt # items)"]
    by simp
qed simp_all

lemma syntax_ops_delimited:
  "syntax_ops i [KDelimited open close items] = delimited_ops i open close (map (\<lambda>t. syntax_ops i [t]) items)"
  using syntax_ops_append [of i "separated items" "[KNestEnd, KLine [], KText close, KGroupEnd]"]
  by (simp add: syntax_ops_node expand_delimited_def delimited_ops_def push_items_separated syntax_ops_separated)

end
