(* ===== verification/Kore_Print_Parse.thy ===== *)
theory Kore_Print_Parse
  imports Kore_Token_Stream Kore_Printer
begin

text \<open>
  What the printer writes the parser reads back. \<open>wf_pattern\<close> and its like say which syntax has a
  text: names are tokens of their class, binders bind variables of their kind, literals are in
  their canonical form. The ops of such syntax render, in every layout, to texts of its terminals
  (\<open>renders\<close>), and their markers are balanced (\<open>neutral\<close>).
\<close>

section \<open>Well-formed syntax\<close>

fun wf_sort :: "sort \<Rightarrow> bool" where
  "wf_sort (SortVariable n) \<longleftrightarrow> is_id_token n"
| "wf_sort (SortApplication n ss) \<longleftrightarrow> is_id_token n \<and> (\<forall>s \<in> set ss. wf_sort s)"

definition wf_symbol :: "symbol \<Rightarrow> bool" where
  "wf_symbol symb \<longleftrightarrow> is_id_token (symbol_name symb) \<and> (\<forall>s \<in> set (sort_parameters symb). wf_sort s)"

definition wf_variable :: "variable \<Rightarrow> bool" where
  "wf_variable v \<longleftrightarrow>
     (case var_kind v of Element \<Rightarrow> is_id_token (var_name v) | SetVar \<Rightarrow> is_set_variable_token (var_name v))
     \<and> wf_sort (var_sort v)"

fun wf_pattern :: "pattern \<Rightarrow> bool" where
  "wf_pattern (PString v) \<longleftrightarrow> canonical v Utf8 = v"
| "wf_pattern (PVariable v) \<longleftrightarrow> wf_variable v"
| "wf_pattern (PApplication symb args) \<longleftrightarrow> wf_symbol symb \<and> (\<forall>p \<in> set args. wf_pattern p)"
| "wf_pattern (PTop s) \<longleftrightarrow> wf_sort s"
| "wf_pattern (PBottom s) \<longleftrightarrow> wf_sort s"
| "wf_pattern (PAnd s args) \<longleftrightarrow> wf_sort s \<and> (\<forall>p \<in> set args. wf_pattern p)"
| "wf_pattern (POr s args) \<longleftrightarrow> wf_sort s \<and> (\<forall>p \<in> set args. wf_pattern p)"
| "wf_pattern (PNot s p) \<longleftrightarrow> wf_sort s \<and> wf_pattern p"
| "wf_pattern (PNext s p) \<longleftrightarrow> wf_sort s \<and> wf_pattern p"
| "wf_pattern (PImplies s l r) \<longleftrightarrow> wf_sort s \<and> wf_pattern l \<and> wf_pattern r"
| "wf_pattern (PIff s l r) \<longleftrightarrow> wf_sort s \<and> wf_pattern l \<and> wf_pattern r"
| "wf_pattern (PRewrites s l r) \<longleftrightarrow> wf_sort s \<and> wf_pattern l \<and> wf_pattern r"
| "wf_pattern (PExists s v p) \<longleftrightarrow> wf_sort s \<and> var_kind v = Element \<and> wf_variable v \<and> wf_pattern p"
| "wf_pattern (PForall s v p) \<longleftrightarrow> wf_sort s \<and> var_kind v = Element \<and> wf_variable v \<and> wf_pattern p"
| "wf_pattern (PMu v p) \<longleftrightarrow> var_kind v = SetVar \<and> wf_variable v \<and> wf_pattern p"
| "wf_pattern (PNu v p) \<longleftrightarrow> var_kind v = SetVar \<and> wf_variable v \<and> wf_pattern p"
| "wf_pattern (PCeil s t p) \<longleftrightarrow> wf_sort s \<and> wf_sort t \<and> wf_pattern p"
| "wf_pattern (PFloor s t p) \<longleftrightarrow> wf_sort s \<and> wf_sort t \<and> wf_pattern p"
| "wf_pattern (PEquals s t l r) \<longleftrightarrow> wf_sort s \<and> wf_sort t \<and> wf_pattern l \<and> wf_pattern r"
| "wf_pattern (PIn s t l r) \<longleftrightarrow> wf_sort s \<and> wf_sort t \<and> wf_pattern l \<and> wf_pattern r"
| "wf_pattern (PDomainValue s v) \<longleftrightarrow> wf_sort s \<and> canonical v (of_domain_value s) = v"
| "wf_pattern (PAssociative a symb args) \<longleftrightarrow> wf_symbol symb \<and> args \<noteq> [] \<and> (\<forall>p \<in> set args. wf_pattern p)"

definition wf_attributes :: "attributes \<Rightarrow> bool" where
  "wf_attributes attrs \<longleftrightarrow> (\<forall>p \<in> set attrs. wf_pattern p)"

fun wf_sentence :: "sentence \<Rightarrow> bool" where
  "wf_sentence (Import name attrs) \<longleftrightarrow> is_id_token name \<and> wf_attributes attrs"
| "wf_sentence (SortDeclaration hooked name params attrs) \<longleftrightarrow>
     is_id_token name \<and> (\<forall>n \<in> set params. is_id_token n) \<and> wf_attributes attrs"
| "wf_sentence (SymbolDeclaration hooked symb arg_sorts result attrs) \<longleftrightarrow>
     wf_symbol symb \<and> (\<forall>s \<in> set arg_sorts. wf_sort s) \<and> wf_sort result \<and> wf_attributes attrs"
| "wf_sentence (AliasDeclaration alias_symbol arg_sorts result left right attrs) \<longleftrightarrow>
     wf_symbol alias_symbol \<and> (\<forall>s \<in> set arg_sorts. wf_sort s) \<and> wf_sort result
     \<and> (\<exists>symb vs. left = PApplication symb (map PVariable vs)) \<and> wf_pattern left \<and> wf_pattern right
     \<and> wf_attributes attrs"
| "wf_sentence (Axiom params p attrs) \<longleftrightarrow>
     (\<forall>n \<in> set params. is_id_token n) \<and> wf_pattern p \<and> wf_attributes attrs"
| "wf_sentence (Claim params p attrs) \<longleftrightarrow>
     (\<forall>n \<in> set params. is_id_token n) \<and> wf_pattern p \<and> wf_attributes attrs"

definition wf_module :: "kore_module \<Rightarrow> bool" where
  "wf_module m \<longleftrightarrow>
     is_id_token (mod_name m) \<and> (\<forall>s \<in> set (mod_sentences m). wf_sentence s) \<and> wf_attributes (mod_attributes m)"

definition wf_definition :: "kore_definition \<Rightarrow> bool" where
  "wf_definition d \<longleftrightarrow>
     wf_attributes (definition_attributes d) \<and> definition_modules d \<noteq> []
     \<and> (\<forall>m \<in> set (definition_modules d). wf_module m)"

section \<open>The terminals of syntax\<close>

fun pattern_terms :: "pattern \<Rightarrow> terminal list" where
  "pattern_terms (PString v) = [(TString, quote v)]"
| "pattern_terms (PVariable v) = variable_terms v"
| "pattern_terms (PApplication symb args) = symbol_terms symb @ parens (map pattern_terms args)"
| "pattern_terms (PTop s) = kw TMlTop # braces [sort_terms s] @ parens []"
| "pattern_terms (PBottom s) = kw TMlBottom # braces [sort_terms s] @ parens []"
| "pattern_terms (PAnd s args) = kw TMlAnd # braces [sort_terms s] @ parens (map pattern_terms args)"
| "pattern_terms (POr s args) = kw TMlOr # braces [sort_terms s] @ parens (map pattern_terms args)"
| "pattern_terms (PNot s p) = kw TMlNot # braces [sort_terms s] @ parens [pattern_terms p]"
| "pattern_terms (PNext s p) = kw TMlNext # braces [sort_terms s] @ parens [pattern_terms p]"
| "pattern_terms (PImplies s l r) = kw TMlImplies # braces [sort_terms s] @ parens [pattern_terms l, pattern_terms r]"
| "pattern_terms (PIff s l r) = kw TMlIff # braces [sort_terms s] @ parens [pattern_terms l, pattern_terms r]"
| "pattern_terms (PRewrites s l r) = kw TMlRewrites # braces [sort_terms s] @ parens [pattern_terms l, pattern_terms r]"
| "pattern_terms (PExists s v p) = kw TMlExists # braces [sort_terms s] @ parens [variable_terms v, pattern_terms p]"
| "pattern_terms (PForall s v p) = kw TMlForall # braces [sort_terms s] @ parens [variable_terms v, pattern_terms p]"
| "pattern_terms (PMu v p) = kw TMlMu # braces [] @ parens [variable_terms v, pattern_terms p]"
| "pattern_terms (PNu v p) = kw TMlNu # braces [] @ parens [variable_terms v, pattern_terms p]"
| "pattern_terms (PCeil s t p) = kw TMlCeil # braces [sort_terms s, sort_terms t] @ parens [pattern_terms p]"
| "pattern_terms (PFloor s t p) = kw TMlFloor # braces [sort_terms s, sort_terms t] @ parens [pattern_terms p]"
| "pattern_terms (PEquals s t l r) =
     kw TMlEquals # braces [sort_terms s, sort_terms t] @ parens [pattern_terms l, pattern_terms r]"
| "pattern_terms (PIn s t l r) =
     kw TMlIn # braces [sort_terms s, sort_terms t] @ parens [pattern_terms l, pattern_terms r]"
| "pattern_terms (PDomainValue s v) =
     kw TMlDv # braces [sort_terms s] @ parens [[(TString, quote_as v (of_domain_value s))]]"
| "pattern_terms (PAssociative a symb args) =
     kw (associative_kind a) # braces [] @ parens [symbol_terms symb @ parens (map pattern_terms args)]"

lemma list_derives:
  "(\<And>p. p \<in> set ps \<Longrightarrow> pattern_derives (pattern_terms p) p) \<Longrightarrow>
   list_all2 pattern_derives (map pattern_terms ps) ps"
  by (simp add: list_all2_conv_all_nth)

lemma pattern_terms_derive: "wf_pattern p \<Longrightarrow> pattern_derives (pattern_terms p) p"
proof (induction p rule: pattern_terms.induct)
  case (1 v)
  then show ?case
    using unquote_quote [of v Utf8]
    by (auto simp: unquote_def quote_def intro!: pattern_derives.atom atom_derives.string)
next
  case (21 s v)
  then show ?case
    using unquote_quote [of v "of_domain_value s"]
    by (auto intro!: pattern_derives.atom atom_derives.domain_value)
qed (auto intro!: pattern_derives.intros(2-19) list_derives pattern_derives.atom [OF atom_derives.variable]
    pattern_derives.atom [OF atom_derives.top] pattern_derives.atom [OF atom_derives.bottom])

section \<open>Balanced markers\<close>

definition neutral :: "op list \<Rightarrow> bool" where
  "neutral ops \<longleftrightarrow> (\<forall>g i rest. well_nested g i (ops @ rest) = well_nested g i rest)"

lemma neutral_simps [simp]:
  "neutral []" "neutral (OText t # ops) \<longleftrightarrow> neutral ops" "neutral (OLine t # ops) \<longleftrightarrow> neutral ops"
  "neutral (OHardLine # ops) \<longleftrightarrow> neutral ops"
  by (simp_all add: neutral_def)

lemma neutral_append: "neutral a \<Longrightarrow> neutral b \<Longrightarrow> neutral (a @ b)"
  by (simp add: neutral_def)

lemma neutral_group: "neutral a \<Longrightarrow> neutral b \<Longrightarrow> neutral (OGroupStart # a @ OGroupEnd # b)"
  by (simp add: neutral_def)

lemma neutral_nest: "neutral a \<Longrightarrow> neutral b \<Longrightarrow> neutral (ONestStart n # a @ ONestEnd n # b)"
  by (simp add: neutral_def)

lemma neutral_separated: "(\<And>ops. ops \<in> set opss \<Longrightarrow> neutral ops) \<Longrightarrow> neutral (separated_ops opss)"
  by (induction opss rule: separated_ops.induct) (auto intro!: neutral_append)

lemma neutral_delimited: "(\<And>ops. ops \<in> set opss \<Longrightarrow> neutral ops) \<Longrightarrow> neutral (delimited_ops i op cl opss)"
proof (cases opss)
  case Cons
  assume "\<And>ops. ops \<in> set opss \<Longrightarrow> neutral ops"
  then have "neutral (separated_ops opss)" by (rule neutral_separated)
  then show ?thesis
    using Cons neutral_group [of "OText op # ONestStart i # (OLine [] # separated_ops opss)
        @ ONestEnd i # [OLine [], OText cl]" "[]"]
      neutral_nest [of "OLine [] # separated_ops opss" "[OLine [], OText cl]" i]
    by (simp add: delimited_ops_def)
qed (simp add: delimited_ops_def)

text \<open>The ops of a task before others.\<close>

lemma syntax_ops_Cons: "NO_MATCH [] rest \<Longrightarrow> syntax_ops i (t # rest) = syntax_ops i [t] @ syntax_ops i rest"
  using syntax_ops_append [of i "[t]" rest] by simp

lemma syntax_ops_sort:
  "syntax_ops i [KSort (SortVariable n)] = [OText n]"
  "syntax_ops i [KSort (SortApplication n ss)] =
     OText n # delimited_ops i (lit ''{'') (lit ''}'') (map (\<lambda>s. syntax_ops i [KSort s]) ss)"
  by (simp_all add: syntax_ops_node(2) delimited_task_def syntax_ops_delimited comp_def)

lemma syntax_ops_symbol:
  "syntax_ops i [KSymbol symb] =
     OText (symbol_name symb)
     # delimited_ops i (lit ''{'') (lit ''}'') (map (\<lambda>s. syntax_ops i [KSort s]) (sort_parameters symb))"
  by (simp add: syntax_ops_node(3) expand_symbol_def delimited_task_def syntax_ops_delimited comp_def)

lemma syntax_ops_variable:
  "syntax_ops i [KVariable v] = OText (var_name v @ lit '':'') # syntax_ops i [KSort (var_sort v)]"
  by (simp add: syntax_ops_node(4) expand_variable_def)

abbreviation p_ops :: "nat \<Rightarrow> pattern \<Rightarrow> op list" where
  "p_ops i p \<equiv> syntax_ops i [KPattern p]"

abbreviation s_ops :: "nat \<Rightarrow> sort \<Rightarrow> op list" where
  "s_ops i s \<equiv> syntax_ops i [KSort s]"

definition paren_ops :: "nat \<Rightarrow> op list list \<Rightarrow> op list" where
  "paren_ops i opss = delimited_ops i (lit ''('') (lit '')'') opss"

definition sorted_ops :: "nat \<Rightarrow> str \<Rightarrow> sort \<Rightarrow> op list list \<Rightarrow> op list" where
  "sorted_ops i head s opss =
     OGroupStart # (OText head # s_ops i s @ OText (lit ''}'') # paren_ops i opss) @ [OGroupEnd]"

definition fixpoint_ops :: "nat \<Rightarrow> str \<Rightarrow> op list list \<Rightarrow> op list" where
  "fixpoint_ops i head opss = OGroupStart # (OText head # paren_ops i opss) @ [OGroupEnd]"

definition two_sorted_ops :: "nat \<Rightarrow> str \<Rightarrow> sort \<Rightarrow> sort \<Rightarrow> op list list \<Rightarrow> op list" where
  "two_sorted_ops i head s t opss =
     OGroupStart # (OText head # delimited_ops i (lit ''{'') (lit ''}'') [s_ops i s, s_ops i t]
       @ paren_ops i opss) @ [OGroupEnd]"

lemma syntax_ops_pattern:
  "p_ops i (PString w) = [OText (quote w)]"
  "p_ops i (PVariable v) = syntax_ops i [KVariable v]"
  "p_ops i (PApplication symb args) = syntax_ops i [KSymbol symb] @ paren_ops i (map (p_ops i) args)"
  "p_ops i (PTop s) = OText (ml ''top{'') # s_ops i s @ [OText (lit ''}()'')]"
  "p_ops i (PBottom s) = OText (ml ''bottom{'') # s_ops i s @ [OText (lit ''}()'')]"
  "p_ops i (PAnd s args) = sorted_ops i (ml ''and{'') s (map (p_ops i) args)"
  "p_ops i (POr s args) = sorted_ops i (ml ''or{'') s (map (p_ops i) args)"
  "p_ops i (PNot s p) = sorted_ops i (ml ''not{'') s [p_ops i p]"
  "p_ops i (PNext s p) = sorted_ops i (ml ''next{'') s [p_ops i p]"
  "p_ops i (PImplies s l r) = sorted_ops i (ml ''implies{'') s [p_ops i l, p_ops i r]"
  "p_ops i (PIff s l r) = sorted_ops i (ml ''iff{'') s [p_ops i l, p_ops i r]"
  "p_ops i (PRewrites s l r) = sorted_ops i (ml ''rewrites{'') s [p_ops i l, p_ops i r]"
  "p_ops i (PExists s v p) = sorted_ops i (ml ''exists{'') s [syntax_ops i [KVariable v], p_ops i p]"
  "p_ops i (PForall s v p) = sorted_ops i (ml ''forall{'') s [syntax_ops i [KVariable v], p_ops i p]"
  "p_ops i (PMu v p) = fixpoint_ops i (ml ''mu{}'') [syntax_ops i [KVariable v], p_ops i p]"
  "p_ops i (PNu v p) = fixpoint_ops i (ml ''nu{}'') [syntax_ops i [KVariable v], p_ops i p]"
  "p_ops i (PCeil s t p) = two_sorted_ops i (ml ''ceil'') s t [p_ops i p]"
  "p_ops i (PFloor s t p) = two_sorted_ops i (ml ''floor'') s t [p_ops i p]"
  "p_ops i (PEquals s t l r) = two_sorted_ops i (ml ''equals'') s t [p_ops i l, p_ops i r]"
  "p_ops i (PIn s t l r) = two_sorted_ops i (ml ''in'') s t [p_ops i l, p_ops i r]"
  "p_ops i (PDomainValue s w) =
     OText (ml ''dv{'') # s_ops i s @ [OText (lit ''}('' @ quote_as w (of_domain_value s) @ lit '')'')]"
  "p_ops i (PAssociative a symb args) =
     OGroupStart # (OText (case a of LeftAssoc \<Rightarrow> ml ''left-assoc{}('' | RightAssoc \<Rightarrow> ml ''right-assoc{}('')
       # syntax_ops i [KSymbol symb] @ paren_ops i (map (p_ops i) args) @ [OText (lit '')'')]) @ [OGroupEnd]"
  by (simp_all add: syntax_ops_node(5) sorted_connective_def sorted_binder_def fixpoint_def two_sorted_def
      push_grouped_def delimited_task_def sorted_ops_def fixpoint_ops_def two_sorted_ops_def paren_ops_def
      syntax_ops_Cons syntax_ops_delimited comp_def)

lemma neutral_sort: "neutral (s_ops i s)"
  by (induction s rule: sort_terms.induct) (auto simp: syntax_ops_sort intro!: neutral_delimited)

lemma neutral_symbol: "neutral (syntax_ops i [KSymbol symb])"
  by (auto simp: syntax_ops_symbol intro!: neutral_delimited neutral_sort)

lemma neutral_variable: "neutral (syntax_ops i [KVariable v])"
  by (simp add: syntax_ops_variable neutral_sort)

lemma neutral_heads:
  assumes "\<And>ops. ops \<in> set opss \<Longrightarrow> neutral ops"
  shows "neutral (paren_ops i opss)" and "neutral (sorted_ops i head s opss)"
    and "neutral (fixpoint_ops i head opss)" and "neutral (two_sorted_ops i head s t opss)"
proof -
  show p: "neutral (paren_ops i opss)" using assms unfolding paren_ops_def by (rule neutral_delimited)
  show "neutral (sorted_ops i head s opss)" "neutral (fixpoint_ops i head opss)"
    unfolding sorted_ops_def fixpoint_ops_def
    by (intro neutral_group; simp add: p neutral_append neutral_sort)+
  have "neutral (delimited_ops i (lit ''{'') (lit ''}'') [s_ops i s, s_ops i t])"
    by (rule neutral_delimited) (auto simp: neutral_sort)
  then show "neutral (two_sorted_ops i head s t opss)"
    unfolding two_sorted_ops_def by (intro neutral_group) (simp_all add: p neutral_append)
qed

lemma neutral_pattern: "neutral (p_ops i p)"
proof (induction p rule: pattern_terms.induct)
  case (22 a symb args)
  then show ?case
    unfolding syntax_ops_pattern
    by (intro neutral_group) (auto intro!: neutral_append neutral_heads neutral_symbol)
qed (auto simp: syntax_ops_pattern neutral_variable intro!: neutral_append neutral_heads neutral_sort neutral_symbol)

section \<open>The texts of tokens\<close>

lemma stops_Cons [simp]: "stops (c # r) \<longleftrightarrow> \<not> is_id_char c" "stops []"
  by (simp_all add: stops_def)

lemma id_char_facts [simp]:
  "\<not> is_id_char 123" "\<not> is_id_char 125" "\<not> is_id_char 40" "\<not> is_id_char 41" "\<not> is_id_char 44"
  "\<not> is_id_char 58" "\<not> is_id_char 32" "\<not> is_id_char 91" "\<not> is_id_char 93" "\<not> is_id_char 10"
  by (simp_all add: is_id_char_def is_ascii_alphanumeric_def is_ascii_alphabetic_def is_ascii_digit_def)

lemma leads_word:
  "is_word k \<Longrightarrow> token_text k tx \<Longrightarrow> stops r \<Longrightarrow> leads tx [term_of k tx] r"
  by (rule leads_token) (auto simp: token_ends_def stops_def is_word_def)

lemma leads_keyword:
  "is_word k \<Longrightarrow> spelling k = Some tx \<Longrightarrow> stops r \<Longrightarrow> leads tx [kw k] r"
  using leads_word [of k tx r] by (cases k) (auto simp: term_of_def)

lemma leads_punctuation:
  "is_punctuation k \<Longrightarrow> spelling k = Some tx \<Longrightarrow> (k = TColon \<longrightarrow> no_equals r) \<Longrightarrow> leads tx [kw k] r"
  using leads_token [of k tx r]
  by (cases k) (auto simp: term_of_def token_ends_def is_word_def no_equals_def)

lemma leads_name: "is_id_token n \<Longrightarrow> stops r \<Longrightarrow> leads n [(TId, n)] r"
  using leads_word [of TId n r] by (simp add: is_word_def term_of_def)

lemma leads_set_variable: "is_set_variable_token n \<Longrightarrow> stops r \<Longrightarrow> leads n [(TSetVarId, n)] r"
  using leads_word [of TSetVarId n r] by (simp add: is_word_def term_of_def)

lemma leads_string: "leads (quote_as v enc) [(TString, quote_as v enc)] r"
  using leads_token [of TString "quote_as v enc" r] quote_as_string_token [of v enc]
  by (simp add: term_of_def token_ends_def is_word_def)

text \<open>A text of several tokens, cut where one ends.\<close>

lemma leads_split: "leads a ts (b @ r) \<Longrightarrow> leads b us r \<Longrightarrow> t = a @ b \<Longrightarrow> vs = ts @ us \<Longrightarrow> leads t vs r"
  using leads_append by blast

lemma leads_space_one: "leads (lit '' '') [] r"
  by (rule leads_space) (simp add: is_whitespace_def)

text \<open>Braces and parentheses, after a keyword or before.\<close>

lemma leads_marks:
  "leads (lit ''{'') [kw TLBrace] r" "leads (lit ''}'') [kw TRBrace] r"
  "leads (lit ''('') [kw TLParen] r" "leads (lit '')'') [kw TRParen] r"
  "leads (lit ''['') [kw TLBracket] r" "leads (lit '']'') [kw TRBracket] r"
  "leads (lit '','') [kw TComma] r"
  by (rule leads_punctuation; simp)+

lemma leads_open: "is_word k \<Longrightarrow> spelling k = Some tx \<Longrightarrow> leads (tx @ lit ''{'') [kw k, kw TLBrace] r"
  using leads_append [OF leads_keyword [of k tx "lit ''{'' @ r"] leads_marks(1)] by simp

lemma leads_empty_braces:
  "is_word k \<Longrightarrow> spelling k = Some tx \<Longrightarrow> leads (tx @ lit ''{}'') [kw k, kw TLBrace, kw TRBrace] r"
  using leads_append [OF leads_open [of k tx "lit ''}'' @ r"] leads_marks(2)] by simp

lemma leads_closing: "leads (lit ''}()'') [kw TRBrace, kw TLParen, kw TRParen] r"
  using leads_append [OF leads_marks(2) leads_append [OF leads_marks(3) leads_marks(4)]] by simp

section \<open>Lists\<close>

lemma renders_cons: "renders Q [op] ts P \<Longrightarrow> renders K b us Q \<Longrightarrow> renders K (op # b) (ts @ us) P"
  using renders_append [of Q "[op]" ts P K b us] by simp

lemma renders_skip: "op \<in> {ONestStart i, ONestEnd i, OGroupStart, OGroupEnd} \<Longrightarrow>
   renders K b us P \<Longrightarrow> renders K (op # b) us P"
  by (auto simp: renders_def)

lemma renders_mark:
  assumes "\<And>r. leads t ts r" and "t \<noteq> []" "\<not> is_id_char (hd t)"
  shows "renders whatever [OText t] ts stops"
  using assms by (intro renders_text) (cases t; simp)

lemma renders_break: "renders K ops ts stops \<Longrightarrow> renders K (OLine [] # ops) ts stops"
  using renders_cons [OF renders_line_break [of stops]] by (auto elim: renders_weaken)

lemma renders_break_any: "renders K ops ts whatever \<Longrightarrow> renders K (OLine [] # ops) ts whatever"
  using renders_whatever [OF renders_cons [OF renders_line_break [of whatever]]] by simp

lemma renders_separated:
  assumes "list_all2 (\<lambda>ops ts. renders stops ops ts whatever) opss tss" and "opss \<noteq> []"
  shows "renders stops (separated_ops opss) (commas tss) whatever"
  using assms
proof (induction opss tss rule: list_all2_induct)
  case (Cons ops opss ts tss)
  show ?case
  proof (cases "opss = []")
    case False
    then obtain o2 opss' t2 tss' where *: "opss = o2 # opss'" "tss = t2 # tss'"
      using Cons.hyps by (cases opss; cases tss) auto
    have "renders whatever [OText (lit '','')] [kw TComma] stops"
      by (rule renders_mark [OF leads_marks(7)]) simp_all
    moreover have "renders stops (OLine (lit '' '') # separated_ops opss) (commas tss) stops"
      using renders_cons [OF renders_line Cons.IH [OF False]] by simp
    ultimately have "renders stops (OText (lit '','') # OLine (lit '' '') # separated_ops opss)
        (kw TComma # commas tss) stops"
      using renders_cons [of stops _ _ stops] renders_weaken [of whatever _ _ stops stops]
      by (metis append_Cons append_Nil whatever_def)
    from renders_append [OF Cons.hyps(1) this] show ?thesis by (simp add: *)
  qed (use Cons.hyps in simp)
qed simp

text \<open>The two texts that open and close a list.\<close>

definition delimiters :: "str \<Rightarrow> str \<Rightarrow> token_kind \<Rightarrow> token_kind \<Rightarrow> bool" where
  "delimiters op cl kop kcl \<longleftrightarrow> op \<noteq> [] \<and> cl \<noteq> [] \<and> \<not> is_id_char (hd op) \<and> \<not> is_id_char (hd cl)
     \<and> (\<forall>r. leads op [kw kop] r) \<and> (\<forall>r. leads cl [kw kcl] r)"

lemma delimiters_marks:
  "delimiters (lit ''{'') (lit ''}'') TLBrace TRBrace"
  "delimiters (lit ''('') (lit '')'') TLParen TRParen"
  "delimiters (lit ''['') (lit '']'') TLBracket TRBracket"
  using leads_marks by (simp_all add: delimiters_def)

lemmas delimiters_simps [simp] = delimiters_marks [simplified]

lemma renders_delimited:
  assumes "delimiters op cl kop kcl" and "list_all2 (\<lambda>ops ts. renders stops ops ts whatever) opss tss"
  shows "renders whatever (delimited_ops i op cl opss) (list_terms kop kcl tss) stops"
proof -
  have o: "renders whatever [OText op] [kw kop] stops" and c: "renders whatever [OText cl] [kw kcl] stops"
    using assms(1) by (auto simp: delimiters_def intro!: renders_mark)
  show ?thesis
  proof (cases "opss = []")
    case True
    then have "tss = []" using assms(2) by simp
    moreover have "renders whatever [OText (op @ cl)] [kw kop, kw kcl] stops"
      using assms(1) leads_append [of op "[kw kop]" cl _ "[kw kcl]"]
      by (intro renders_mark) (auto simp: delimiters_def)
    ultimately show ?thesis using True by (simp add: delimited_ops_def list_terms_def)
  next
    case False
    have "renders whatever ([OText cl] @ [OGroupEnd]) ([kw kcl] @ []) stops"
      by (rule renders_append [OF c]) (rule renders_silent)
    then have "renders whatever [ONestEnd i, OLine [], OText cl, OGroupEnd] [kw kcl] stops"
      using renders_skip [of "ONestEnd i" i] renders_break by simp
    with renders_separated [OF assms(2) False]
    have "renders whatever (separated_ops opss @ [ONestEnd i, OLine [], OText cl, OGroupEnd])
        (commas tss @ [kw kcl]) whatever"
      by (rule renders_append)
    then have "renders whatever ([OText op] @ ONestStart i # OLine []
        # separated_ops opss @ [ONestEnd i, OLine [], OText cl, OGroupEnd]) ([kw kop] @ commas tss @ [kw kcl]) stops"
      by (intro renders_append [OF o] renders_skip [of "ONestStart i" i] renders_break_any) simp_all
    then show ?thesis
      using False renders_skip [of OGroupStart i] by (simp add: delimited_ops_def list_terms_def)
  qed
qed

section \<open>Sorts, symbols, variables and patterns\<close>

lemma renders_any: "renders whatever ops ts P \<Longrightarrow> renders K ops ts P"
  by (erule renders_weaken) (simp_all add: whatever_def)

lemma renders_skip_end: "renders whatever ops ts P \<Longrightarrow> renders whatever (ops @ [OGroupEnd]) ts P"
  using renders_append [of whatever ops ts P whatever "[OGroupEnd]" "[]"] renders_silent(4) by simp

lemma id_token_start: "is_id_token n \<Longrightarrow> n \<noteq> [] \<and> hd n \<noteq> 61"
  by (cases n) (auto simp: is_id_token_def is_ascii_alphabetic_def)

lemma renders_name: "is_id_token n \<Longrightarrow> renders stops [OText n] [(TId, n)] no_equals"
  using id_token_start [of n]
  by (intro renders_text) (auto simp: leads_name no_equals_def)

lemma renders_name_delimited:
  assumes "is_id_token n" and "delimiters op cl kop kcl"
    and "list_all2 (\<lambda>ops ts. renders stops ops ts whatever) opss tss"
  shows "renders whatever (OText n # delimited_ops i op cl opss) ((TId, n) # list_terms kop kcl tss) no_equals"
  using renders_cons [OF renders_name [OF assms(1)] renders_delimited [OF assms(2,3)]] by simp

lemma renders_sort: "wf_sort s \<Longrightarrow> renders stops (s_ops i s) (sort_terms s) no_equals"
proof (induction s rule: sort_terms.induct)
  case (1 n)
  then show ?case by (simp add: syntax_ops_sort renders_name)
next
  case (2 n ss)
  then have "list_all2 (\<lambda>ops ts. renders stops ops ts whatever) (map (s_ops i) ss) (map sort_terms ss)"
    by (auto simp: list_all2_conv_all_nth intro!: renders_whatever [where P = no_equals])
  then have "renders whatever (OText n # delimited_ops i (lit ''{'') (lit ''}'') (map (s_ops i) ss))
      ((TId, n) # list_terms TLBrace TRBrace (map sort_terms ss)) no_equals"
    using 2 by (intro renders_name_delimited delimiters_marks) simp_all
  then show ?case unfolding syntax_ops_sort sort_terms.simps list_terms_def by (rule renders_any)
qed

lemma renders_sorts:
  "(\<And>s. s \<in> set ss \<Longrightarrow> wf_sort s) \<Longrightarrow>
   list_all2 (\<lambda>ops ts. renders stops ops ts whatever) (map (s_ops i) ss) (map sort_terms ss)"
  by (auto simp: list_all2_conv_all_nth intro!: renders_whatever [where P = no_equals] renders_sort)

lemma renders_symbol:
  assumes "wf_symbol symb"
  shows "renders whatever (syntax_ops i [KSymbol symb]) (symbol_terms symb) whatever"
proof -
  have "renders whatever
      (OText (symbol_name symb) # delimited_ops i (lit ''{'') (lit ''}'') (map (s_ops i) (sort_parameters symb)))
      ((TId, symbol_name symb) # braces (map sort_terms (sort_parameters symb))) no_equals"
    using assms by (intro renders_name_delimited renders_sorts) (auto simp: wf_symbol_def)
  then show ?thesis unfolding syntax_ops_symbol symbol_terms_def by (rule renders_whatever)
qed

lemma renders_variable:
  assumes "wf_variable v"
  shows "renders stops (syntax_ops i [KVariable v]) (variable_terms v) whatever"
proof -
  let ?k = "case var_kind v of Element \<Rightarrow> TId | SetVar \<Rightarrow> TSetVarId"
  have "leads (var_name v) [(?k, var_name v)] (lit '':'' @ r)" for r
    using assms leads_name leads_set_variable by (cases "var_kind v") (auto simp: wf_variable_def)
  moreover have "leads (lit '':'') [kw TColon] r" if "no_equals r" for r
    using that leads_punctuation [of TColon "lit '':''" r] by simp
  ultimately have "renders no_equals [OText (var_name v @ lit '':'')] [(?k, var_name v), kw TColon] whatever"
    using leads_append by (intro renders_text) (fastforce simp: whatever_def)
  moreover have "renders stops (s_ops i (var_sort v)) (sort_terms (var_sort v)) no_equals"
    using assms by (intro renders_sort) (simp add: wf_variable_def)
  ultimately show ?thesis
    unfolding syntax_ops_variable variable_terms_def using renders_cons by fastforce
qed

lemma renders_marks:
  "renders whatever [OText (lit ''}'')] [kw TRBrace] stops"
  "renders whatever [OText (lit '')'')] [kw TRParen] stops"
  "renders whatever [OText (lit ''}()'')] [kw TRBrace, kw TLParen, kw TRParen] stops"
  by (rule renders_mark, rule leads_marks, simp, simp)
    (rule renders_mark, rule leads_marks, simp, simp, rule renders_mark, rule leads_closing, simp, simp)

lemma renders_paren:
  "list_all2 (\<lambda>ops ts. renders stops ops ts whatever) opss tss \<Longrightarrow>
   renders whatever (paren_ops i opss) (parens tss) stops"
  unfolding paren_ops_def by (rule renders_delimited) simp_all

lemma renders_braced_sort:
  assumes "is_word k" and "spelling k = Some tx" and "wf_sort s"
    and "renders whatever (OText (lit ''}'' @ e) # ops) (kw TRBrace # ts) stops"
  shows "renders whatever (OText (tx @ lit ''{'') # s_ops i s @ OText (lit ''}'' @ e) # ops)
    (kw k # kw TLBrace # sort_terms s @ kw TRBrace # ts) whatever"
proof -
  have "renders whatever [OText (tx @ lit ''{'')] [kw k, kw TLBrace] whatever"
    using assms(1,2) leads_open by (intro renders_text) (auto simp: whatever_def)
  moreover have "renders whatever (s_ops i s @ OText (lit ''}'' @ e) # ops) (sort_terms s @ kw TRBrace # ts) whatever"
    by (rule renders_append [OF renders_whatever [OF renders_sort [OF assms(3)]] assms(4)])
  ultimately show ?thesis using renders_cons by fastforce
qed

lemma renders_sorted:
  assumes "is_word k" and "spelling k = Some tx" and "wf_sort s"
    and "list_all2 (\<lambda>ops ts. renders stops ops ts whatever) opss tss"
  shows "renders whatever (sorted_ops i (tx @ lit ''{'') s opss) (kw k # braces [sort_terms s] @ parens tss) whatever"
proof -
  have "renders whatever (OText (lit ''}'') # paren_ops i opss) (kw TRBrace # parens tss) stops"
    using renders_cons [OF renders_any [OF renders_marks(1)] renders_paren [OF assms(4)]] by simp
  then have "renders whatever (OText (tx @ lit ''{'') # s_ops i s @ OText (lit ''}'') # paren_ops i opss)
      (kw k # kw TLBrace # sort_terms s @ kw TRBrace # parens tss) whatever"
    using renders_braced_sort [OF assms(1-3), of "[]"] by simp
  then show ?thesis
    unfolding sorted_ops_def
    by (intro renders_skip [of OGroupStart i] renders_skip_end) (simp_all add: list_terms_simps(2))
qed

lemma renders_fixpoint:
  assumes "is_word k" and "spelling k = Some tx"
    and "list_all2 (\<lambda>ops ts. renders stops ops ts whatever) opss tss"
  shows "renders whatever (fixpoint_ops i (tx @ lit ''{}'') opss) (kw k # braces [] @ parens tss) whatever"
proof -
  have "renders whatever [OText (tx @ lit ''{}'')] [kw k, kw TLBrace, kw TRBrace] whatever"
    using assms(1,2) leads_empty_braces by (intro renders_text) (auto simp: whatever_def)
  then have "renders whatever (OText (tx @ lit ''{}'') # paren_ops i opss)
      ([kw k, kw TLBrace, kw TRBrace] @ parens tss) whatever"
    by (rule renders_cons) (rule renders_whatever [OF renders_paren [OF assms(3)]])
  then show ?thesis
    unfolding fixpoint_ops_def
    by (intro renders_skip [of OGroupStart i] renders_skip_end) (simp_all add: list_terms_simps(1))
qed

lemma renders_two_sorted:
  assumes "is_word k" and "spelling k = Some tx" and "wf_sort s" and "wf_sort t"
    and "list_all2 (\<lambda>ops ts. renders stops ops ts whatever) opss tss"
  shows "renders whatever (two_sorted_ops i tx s t opss)
    (kw k # braces [sort_terms s, sort_terms t] @ parens tss) whatever"
proof -
  have d: "renders whatever (delimited_ops i (lit ''{'') (lit ''}'') [s_ops i s, s_ops i t])
      (braces [sort_terms s, sort_terms t]) stops"
    using assms(3,4) by (intro renders_delimited) (auto intro: renders_whatever renders_sort)
  have "renders stops [OText tx] [kw k] whatever"
    using assms(1,2) leads_keyword by (intro renders_text) (auto simp: whatever_def)
  then have "renders whatever (OText tx # delimited_ops i (lit ''{'') (lit ''}'') [s_ops i s, s_ops i t]
      @ paren_ops i opss) ([kw k] @ braces [sort_terms s, sort_terms t] @ parens tss) whatever"
    by (rule renders_cons)
      (rule renders_append [OF d renders_whatever [OF renders_paren [OF assms(5)]]])
  then show ?thesis
    unfolding two_sorted_ops_def by (intro renders_skip [of OGroupStart i] renders_skip_end) simp_all
qed

lemma renders_patterns:
  "(\<And>p. p \<in> set ps \<Longrightarrow> renders stops (p_ops i p) (pattern_terms p) whatever) \<Longrightarrow>
   list_all2 (\<lambda>ops ts. renders stops ops ts whatever) (map (p_ops i) ps) (map pattern_terms ps)"
  by (simp add: list_all2_conv_all_nth)

lemma renders_string: "renders stops [OText (quote_as v enc)] [(TString, quote_as v enc)] whatever"
  by (rule renders_text) (simp add: leads_string whatever_def)

lemma leads_literal:
  "leads (lit ''}('' @ quote_as v enc @ lit '')'') (kw TRBrace # kw TLParen # [(TString, quote_as v enc), kw TRParen]) r"
  using leads_append [OF leads_marks(2) leads_append [OF leads_marks(3)
      leads_append [OF leads_string leads_marks(4)]], of v enc r] by simp

lemma renders_domain_value:
  "renders whatever [OText (lit ''}('' @ quote_as v enc @ lit '')'')]
     (kw TRBrace # parens [[(TString, quote_as v enc)]]) stops"
  using leads_literal [of v enc] by (intro renders_mark) (simp_all add: list_terms_simps(2))

lemma leads_associative:
  "leads (case a of LeftAssoc \<Rightarrow> ml ''left-assoc{}('' | RightAssoc \<Rightarrow> ml ''right-assoc{}('')
     (associative_open a) r"
proof -
  have "leads (tx @ lit ''{}('') [kw k, kw TLBrace, kw TRBrace, kw TLParen] r"
    if "is_word k" "spelling k = Some tx" for k tx
    using leads_append [OF leads_empty_braces [OF that, of "lit ''('' @ r"] leads_marks(3)] by simp
  from this [of TMlLeftAssoc] this [of TMlRightAssoc] show ?thesis
    by (cases a) (simp_all add: associative_open_def is_word_def)
qed

lemma renders_associative:
  assumes "wf_symbol symb" and "list_all2 (\<lambda>ops ts. renders stops ops ts whatever) opss tss"
  shows "renders whatever
    (OGroupStart # (OText (case a of LeftAssoc \<Rightarrow> ml ''left-assoc{}('' | RightAssoc \<Rightarrow> ml ''right-assoc{}('')
       # syntax_ops i [KSymbol symb] @ paren_ops i opss @ [OText (lit '')'')]) @ [OGroupEnd])
    (kw (associative_kind a) # braces [] @ parens [symbol_terms symb @ parens tss]) whatever"
proof -
  have "renders whatever [OText (case a of LeftAssoc \<Rightarrow> ml ''left-assoc{}('' | RightAssoc \<Rightarrow> ml ''right-assoc{}('')]
      (associative_open a) whatever"
    using leads_associative by (intro renders_text) (simp add: whatever_def)
  moreover have "renders whatever (paren_ops i opss @ [OText (lit '')'')]) (parens tss @ [kw TRParen]) stops"
    by (rule renders_append [OF renders_paren [OF assms(2)]]) (rule renders_whatever [OF renders_marks(2)])
  then have "renders whatever (syntax_ops i [KSymbol symb] @ paren_ops i opss @ [OText (lit '')'')])
      (symbol_terms symb @ parens tss @ [kw TRParen]) whatever"
    by (intro renders_append [OF renders_symbol [OF assms(1)]] renders_whatever [where P = stops])
  ultimately have "renders whatever
      (OText (case a of LeftAssoc \<Rightarrow> ml ''left-assoc{}('' | RightAssoc \<Rightarrow> ml ''right-assoc{}('')
       # syntax_ops i [KSymbol symb] @ paren_ops i opss @ [OText (lit '')'')])
      (associative_open a @ symbol_terms symb @ parens tss @ [kw TRParen]) whatever"
    by (rule renders_cons)
  then show ?thesis
    by (intro renders_skip [of OGroupStart i] renders_skip_end)
      (simp_all add: associative_open_def list_terms_simps(1,2))
qed

lemma renders_constant:
  assumes "is_word k" and "spelling k = Some tx" and "wf_sort s"
  shows "renders whatever (OText (tx @ lit ''{'') # s_ops i s @ [OText (lit ''}()'')])
    (kw k # braces [sort_terms s] @ parens []) whatever"
  using renders_braced_sort [OF assms, of "lit ''()''" "[]" "[kw TLParen, kw TRParen]"] renders_marks(3)
  by (simp add: list_terms_simps(1,2))

lemma renders_pattern: "wf_pattern p \<Longrightarrow> renders stops (p_ops i p) (pattern_terms p) whatever"
proof (induction p rule: pattern_terms.induct)
  case (1 v)
  then show ?case using renders_string [of v Utf8] by (simp add: syntax_ops_pattern quote_def)
next
  case (2 v)
  then show ?case by (simp add: syntax_ops_pattern renders_variable)
next
  case (3 symb args)
  then have "renders whatever (syntax_ops i [KSymbol symb] @ paren_ops i (map (p_ops i) args))
      (symbol_terms symb @ parens (map pattern_terms args)) whatever"
    by (intro renders_append [OF renders_symbol] renders_whatever [OF renders_paren] renders_patterns) auto
  then show ?case unfolding syntax_ops_pattern pattern_terms.simps by (rule renders_any)
next
  case (4 s)
  then show ?case
    using renders_any [OF renders_constant [of TMlTop "ml ''top''" s]] by (simp add: syntax_ops_pattern is_word_def)
next
  case (5 s)
  then show ?case
    using renders_any [OF renders_constant [of TMlBottom "ml ''bottom''" s]] by (simp add: syntax_ops_pattern is_word_def)
next
  case (6 s args)
  then show ?case
    using renders_any [OF renders_sorted [of TMlAnd "ml ''and''" s "map (p_ops i) args" "map pattern_terms args"]]
      renders_patterns [of args i]
    by (simp add: syntax_ops_pattern is_word_def)
next
  case (7 s args)
  then show ?case
    using renders_any [OF renders_sorted [of TMlOr "ml ''or''" s "map (p_ops i) args" "map pattern_terms args"]]
      renders_patterns [of args i]
    by (simp add: syntax_ops_pattern is_word_def)
next
  case (8 s p)
  then show ?case
    using renders_any [OF renders_sorted [of TMlNot "ml ''not''" s "[p_ops i p]" "[pattern_terms p]"]]
    by (simp add: syntax_ops_pattern is_word_def)
next
  case (9 s p)
  then show ?case
    using renders_any [OF renders_sorted [of TMlNext "ml ''next''" s "[p_ops i p]" "[pattern_terms p]"]]
    by (simp add: syntax_ops_pattern is_word_def)
next
  case (10 s l r)
  then show ?case
    using renders_any [OF renders_sorted [of TMlImplies "ml ''implies''" s "[p_ops i l, p_ops i r]"
          "[pattern_terms l, pattern_terms r]"]]
    by (simp add: syntax_ops_pattern is_word_def)
next
  case (11 s l r)
  then show ?case
    using renders_any [OF renders_sorted [of TMlIff "ml ''iff''" s "[p_ops i l, p_ops i r]"
          "[pattern_terms l, pattern_terms r]"]]
    by (simp add: syntax_ops_pattern is_word_def)
next
  case (12 s l r)
  then show ?case
    using renders_any [OF renders_sorted [of TMlRewrites "ml ''rewrites''" s "[p_ops i l, p_ops i r]"
          "[pattern_terms l, pattern_terms r]"]]
    by (simp add: syntax_ops_pattern is_word_def)
next
  case (13 s v p)
  then show ?case
    using renders_any [OF renders_sorted [of TMlExists "ml ''exists''" s "[syntax_ops i [KVariable v], p_ops i p]"
          "[variable_terms v, pattern_terms p]"]] renders_variable [of v i]
    by (simp add: syntax_ops_pattern is_word_def)
next
  case (14 s v p)
  then show ?case
    using renders_any [OF renders_sorted [of TMlForall "ml ''forall''" s "[syntax_ops i [KVariable v], p_ops i p]"
          "[variable_terms v, pattern_terms p]"]] renders_variable [of v i]
    by (simp add: syntax_ops_pattern is_word_def)
next
  case (15 v p)
  then show ?case
    using renders_any [OF renders_fixpoint [of TMlMu "ml ''mu''" "[syntax_ops i [KVariable v], p_ops i p]"
          "[variable_terms v, pattern_terms p]"]] renders_variable [of v i]
    by (simp add: syntax_ops_pattern is_word_def)
next
  case (16 v p)
  then show ?case
    using renders_any [OF renders_fixpoint [of TMlNu "ml ''nu''" "[syntax_ops i [KVariable v], p_ops i p]"
          "[variable_terms v, pattern_terms p]"]] renders_variable [of v i]
    by (simp add: syntax_ops_pattern is_word_def)
next
  case (17 s t p)
  then show ?case
    using renders_any [OF renders_two_sorted [of TMlCeil "ml ''ceil''" s t "[p_ops i p]" "[pattern_terms p]"]]
    by (simp add: syntax_ops_pattern is_word_def)
next
  case (18 s t p)
  then show ?case
    using renders_any [OF renders_two_sorted [of TMlFloor "ml ''floor''" s t "[p_ops i p]" "[pattern_terms p]"]]
    by (simp add: syntax_ops_pattern is_word_def)
next
  case (19 s t l r)
  then show ?case
    using renders_any [OF renders_two_sorted [of TMlEquals "ml ''equals''" s t "[p_ops i l, p_ops i r]"
          "[pattern_terms l, pattern_terms r]"]]
    by (simp add: syntax_ops_pattern is_word_def)
next
  case (20 s t l r)
  then show ?case
    using renders_any [OF renders_two_sorted [of TMlIn "ml ''in''" s t "[p_ops i l, p_ops i r]"
          "[pattern_terms l, pattern_terms r]"]]
    by (simp add: syntax_ops_pattern is_word_def)
next
  case (21 s v)
  then have "renders whatever
      (OText (ml ''dv'' @ lit ''{'') # s_ops i s
        @ [OText (lit ''}'' @ lit ''('' @ quote_as v (of_domain_value s) @ lit '')'')])
      (kw TMlDv # kw TLBrace # sort_terms s @ kw TRBrace # parens [[(TString, quote_as v (of_domain_value s))]])
      whatever"
    using renders_domain_value [of v "of_domain_value s"]
    by (intro renders_braced_sort) (simp_all add: is_word_def)
  then show ?case
    using renders_any by (simp add: syntax_ops_pattern list_terms_simps(2))
next
  case (22 a symb args)
  then show ?case
    unfolding syntax_ops_pattern pattern_terms.simps
    by (intro renders_any [OF renders_associative] renders_patterns) auto
qed

end
