(* ===== verification/Kore_Roundtrip.thy ===== *)
theory Kore_Roundtrip
  imports Kore_Print_Parse
begin

text \<open>
  Sentences, modules and definitions: their texts are read back, in every layout; what a parser
  returns is well-formed, so a text that has been parsed can be printed and parsed again.
\<close>

section \<open>Terminals\<close>

definition attributes_terms :: "attributes \<Rightarrow> terminal list" where
  "attributes_terms attrs = list_terms TLBracket TRBracket (map pattern_terms attrs)"

fun sentence_terms :: "sentence \<Rightarrow> terminal list" where
  "sentence_terms (Import name attrs) = kw TImport # (TId, name) # attributes_terms attrs"
| "sentence_terms (SortDeclaration hooked name params attrs) =
     kw (if hooked then THookedSort else TSort) # (TId, name) # name_list_terms params @ attributes_terms attrs"
| "sentence_terms (SymbolDeclaration hooked symb arg_sorts result attrs) =
     kw (if hooked then THookedSymbol else TSymbol) # symbol_terms symb @ parens (map sort_terms arg_sorts)
       @ kw TColon # sort_terms result @ attributes_terms attrs"
| "sentence_terms (AliasDeclaration alias_symbol arg_sorts result left right attrs) =
     kw TAlias # symbol_terms alias_symbol @ parens (map sort_terms arg_sorts) @ kw TColon
       # sort_terms result @ kw TWhere # pattern_terms left @ kw TWalrus # pattern_terms right
       @ attributes_terms attrs"
| "sentence_terms (Axiom params p attrs) =
     kw TAxiom # name_list_terms params @ pattern_terms p @ attributes_terms attrs"
| "sentence_terms (Claim params p attrs) =
     kw TClaim # name_list_terms params @ pattern_terms p @ attributes_terms attrs"

definition module_terms :: "kore_module \<Rightarrow> terminal list" where
  "module_terms m =
     kw TModule # (TId, mod_name m) # concat (map sentence_terms (mod_sentences m))
       @ kw TEndModule # attributes_terms (mod_attributes m)"

definition definition_terms :: "kore_definition \<Rightarrow> terminal list" where
  "definition_terms d =
     attributes_terms (definition_attributes d) @ concat (map module_terms (definition_modules d))"

lemma attributes_terms_derive: "wf_attributes attrs \<Longrightarrow> attributes_derives (attributes_terms attrs) attrs"
  by (auto simp: attributes_derives_def attributes_terms_def wf_attributes_def
      intro!: list_derives pattern_terms_derive)

lemma sentence_terms_derive: "wf_sentence s \<Longrightarrow> sentence_derives (sentence_terms s) s"
proof (cases s)
  case (AliasDeclaration al arg_sorts result left right attrs)
  moreover assume "wf_sentence s"
  ultimately obtain symb vs where l: "left = PApplication symb (map PVariable vs)"
    and "attributes_derives (attributes_terms attrs) attrs" "pattern_derives (pattern_terms right) right"
    by (auto intro: attributes_terms_derive pattern_terms_derive)
  from sentence_derives.alias_of [OF this(2,3), of al arg_sorts result symb vs]
  show ?thesis by (simp add: AliasDeclaration l comp_def)
next
  case (SortDeclaration hooked name params attrs)
  moreover assume "wf_sentence s"
  ultimately show ?thesis
    using sentence_derives.sort_of [of "attributes_terms attrs" attrs hooked name params]
    by (simp add: attributes_terms_derive)
next
  case (SymbolDeclaration hooked symb arg_sorts result attrs)
  moreover assume "wf_sentence s"
  ultimately show ?thesis
    using sentence_derives.symbol_of [of "attributes_terms attrs" attrs hooked symb arg_sorts result]
    by (simp add: attributes_terms_derive)
qed (auto intro!: sentence_derives.intros attributes_terms_derive pattern_terms_derive)

lemma module_terms_derive: "wf_module m \<Longrightarrow> module_derives (module_terms m) m"
proof (cases m)
  case (fields name ss attrs)
  moreover assume "wf_module m"
  ultimately have "list_all2 sentence_derives (map sentence_terms ss) ss"
    "attributes_derives (attributes_terms attrs) attrs"
    by (auto simp: wf_module_def list_all2_conv_all_nth intro: sentence_terms_derive attributes_terms_derive)
  from module_derives.intros [OF this, of name] show ?thesis by (simp add: module_terms_def fields)
qed

lemma definition_terms_derive: "wf_definition d \<Longrightarrow> definition_derives (definition_terms d) d"
proof (cases d)
  case (fields attrs ms)
  moreover assume "wf_definition d"
  ultimately have "list_all2 module_derives (map module_terms ms) ms" "ms \<noteq> []"
    "attributes_derives (attributes_terms attrs) attrs"
    by (auto simp: wf_definition_def list_all2_conv_all_nth intro: module_terms_derive attributes_terms_derive)
  then show ?thesis by (auto simp: definition_terms_def fields intro: definition_derives.intros)
qed

section \<open>Documents\<close>

lemma renders_group: "renders whatever ops ts P \<Longrightarrow> ops \<noteq> [] \<Longrightarrow> renders whatever (doc_group ops) ts P"
  by (simp add: doc_group_def) (intro renders_skip [of OGroupStart 0] renders_skip_end; simp)

lemma renders_nest:
  assumes "renders whatever ops ts P" and "ops \<noteq> []"
  shows "renders whatever (doc_nest i ops) ts P"
proof -
  have "renders whatever (ops @ [ONestEnd i]) (ts @ []) P"
    by (rule renders_append [OF assms(1) renders_silent(2)])
  then show ?thesis
    using assms(2) by (simp add: doc_nest_def) (rule renders_skip [of _ i]; simp)
qed

lemma renders_attributes:
  "wf_attributes attrs \<Longrightarrow> renders whatever (attributes_doc attrs i) (attributes_terms attrs) stops"
  unfolding attributes_doc_def attributes_terms_def delimited_delimited_ops
  by (rule renders_delimited [OF delimiters_marks(3)])
    (auto simp: pattern_doc_def syntax_doc_def wf_attributes_def intro!: renders_patterns renders_pattern)

lemma renders_parameters:
  assumes "\<forall>n \<in> set params. is_id_token n"
  shows "renders whatever (parameters_doc params i) (name_list_terms params) stops"
proof -
  have "list_all2 (\<lambda>ops ts. renders stops ops ts whatever) (map doc_text params) (map (\<lambda>n. [(TId, n)]) params)"
    using assms by (auto simp: list_all2_conv_all_nth doc_text_def
        intro!: renders_whatever [where P = no_equals] renders_name)
  then show ?thesis
    unfolding parameters_doc_def name_list_terms_def delimited_delimited_ops
    by (rule renders_delimited [OF delimiters_marks(1)])
qed

lemma renders_arguments:
  "\<forall>s \<in> set ss. wf_sort s \<Longrightarrow> renders whatever (arguments_doc ss i) (parens (map sort_terms ss)) stops"
  unfolding arguments_doc_def delimited_delimited_ops sort_doc_def syntax_doc_def
  by (rule renders_delimited [OF delimiters_marks(2)]) (auto intro!: renders_sorts)

text \<open>A line, and the attributes on it.\<close>

lemma renders_line_then: "renders K ops ts P \<Longrightarrow> renders K (doc_line @ ops) ts stops"
  using renders_append [OF renders_line [of P], of K ops ts] by (simp add: doc_line_def)

lemma renders_end:
  "wf_attributes attrs \<Longrightarrow> renders whatever (doc_line @ attributes_doc attrs i) (attributes_terms attrs) stops"
  by (rule renders_line_then [OF renders_attributes])

text \<open>The texts that are not one token.\<close>

lemma leads_word_space: "is_word k \<Longrightarrow> spelling k = Some tx \<Longrightarrow> leads (tx @ lit '' '') [kw k] r"
  using leads_append [OF leads_keyword [of k tx "lit '' '' @ r"] leads_space_one [of r]] by simp

lemma leads_word_name:
  "is_word k \<Longrightarrow> spelling k = Some tx \<Longrightarrow> is_id_token n \<Longrightarrow> stops r \<Longrightarrow>
   leads (tx @ lit '' '' @ n) [kw k, (TId, n)] r"
  using leads_append [OF leads_word_space [of k tx "n @ r"] leads_name [of n r]] by simp

lemma leads_space_mark:
  assumes "\<And>r. leads tx ts r"
  shows "leads (lit '' '' @ tx) ts r"
  using leads_append [OF leads_space_one [of "tx @ r"] assms] by simp

lemma renders_word_name:
  "is_word k \<Longrightarrow> spelling k = Some tx \<Longrightarrow> is_id_token n \<Longrightarrow>
   renders stops (doc_text (tx @ lit '' '' @ n)) [kw k, (TId, n)] whatever"
  unfolding doc_text_def whatever_def by (intro renders_text conjI leads_word_name TrueI)

lemma renders_word_space:
  "is_word k \<Longrightarrow> spelling k = Some tx \<Longrightarrow> renders whatever (doc_text (tx @ lit '' '')) [kw k] whatever"
  unfolding doc_text_def whatever_def by (intro renders_text conjI leads_word_space TrueI)

lemma renders_word:
  "is_word k \<Longrightarrow> spelling k = Some tx \<Longrightarrow> renders stops (doc_text tx) [kw k] whatever"
  unfolding doc_text_def by (rule renders_text) (simp add: leads_keyword whatever_def)

lemma renders_colon: "renders whatever (doc_text (lit '' : '')) [kw TColon] stops"
proof -
  have "leads (lit '':'' @ lit '' '') [kw TColon] r" for r
    using leads_append [OF leads_punctuation [of TColon "lit '':''" "lit '' '' @ r"] leads_space_one [of r]]
    by (simp add: no_equals_def)
  then have "leads (lit '' '' @ lit '':'' @ lit '' '') [kw TColon] r" for r by (rule leads_space_mark)
  then show ?thesis unfolding doc_text_def by (intro renders_mark) simp_all
qed

lemma renders_where: "renders stops (doc_text (lit '' where'')) [kw TWhere] stops"
proof -
  have "leads (lit '' '' @ lit ''where'') [kw TWhere] r" if "stops r" for r
    using leads_append [OF leads_space_one leads_keyword [of TWhere "lit ''where''" r]] that
    by (simp add: is_word_def)
  then show ?thesis unfolding doc_text_def by (intro renders_text) simp
qed

lemma renders_walrus: "renders whatever (doc_text (lit '' :='')) [kw TWalrus] stops"
proof -
  have "leads (lit '':='') [kw TWalrus] r" for r by (rule leads_punctuation) simp_all
  then have "leads (lit '' '' @ lit '':='') [kw TWalrus] r" for r by (rule leads_space_mark)
  then show ?thesis unfolding doc_text_def by (intro renders_mark) simp_all
qed

lemma renders_sort_doc: "wf_sort s \<Longrightarrow> renders stops (sort_doc s i) (sort_terms s) whatever"
  unfolding sort_doc_def syntax_doc_def by (rule renders_whatever [OF renders_sort])

lemma renders_symbol_doc: "wf_symbol s \<Longrightarrow> renders whatever (symbol_doc s i) (symbol_terms s) whatever"
  unfolding symbol_doc_def syntax_doc_def by (rule renders_symbol)

lemma renders_pattern_doc: "wf_pattern p \<Longrightarrow> renders stops (pattern_doc p i) (pattern_terms p) whatever"
  unfolding pattern_doc_def syntax_doc_def by (rule renders_pattern)

section \<open>Sentences\<close>

lemma renders_import:
  assumes "is_id_token name" and "wf_attributes attrs"
  shows "renders whatever (sentence_doc (Import name attrs) i) (sentence_terms (Import name attrs)) whatever"
proof -
  have "renders stops (doc_text (lit ''import'' @ lit '' '' @ name)) [kw TImport, (TId, name)] whatever"
    using assms by (intro renders_word_name) (simp_all add: is_word_def)
  from renders_append [OF this renders_end [OF assms(2), of i]]
  show ?thesis by (simp add: doc_concat_concat) (intro renders_group; simp add: doc_text_def)
qed

lemma renders_sort_declaration:
  assumes "is_id_token name" and "\<forall>n \<in> set params. is_id_token n" and "wf_attributes attrs"
  shows "renders whatever (sentence_doc (SortDeclaration hooked name params attrs) i)
    (sentence_terms (SortDeclaration hooked name params attrs)) whatever"
proof -
  let ?k = "if hooked then THookedSort else TSort"
  have "renders stops (doc_text (the (spelling ?k) @ lit '' '' @ name)) [kw ?k, (TId, name)] whatever"
    using assms by (intro renders_word_name) (simp_all add: is_word_def)
  moreover have "the (spelling ?k) @ lit '' '' @ name = (if hooked then lit ''hooked-'' else []) @ lit ''sort '' @ name"
    by simp
  ultimately have "renders stops (doc_text ((if hooked then lit ''hooked-'' else []) @ lit ''sort '' @ name))
      [kw ?k, (TId, name)] whatever" by simp
  from renders_append [OF this renders_append [OF renders_parameters [OF assms(2)]
        renders_whatever [OF renders_end [OF assms(3), of i]], of i]]
  show ?thesis by (simp add: doc_concat_concat split del: if_split) (intro renders_group; simp add: doc_text_def)
qed

lemma renders_symbol_declaration:
  assumes "wf_symbol symb" and "\<forall>s \<in> set arg_sorts. wf_sort s" and "wf_sort result" and "wf_attributes attrs"
  shows "renders whatever (sentence_doc (SymbolDeclaration hooked symb arg_sorts result attrs) i)
    (sentence_terms (SymbolDeclaration hooked symb arg_sorts result attrs)) whatever"
proof -
  let ?k = "if hooked then THookedSymbol else TSymbol"
  have "renders whatever (doc_text (the (spelling ?k) @ lit '' '')) [kw ?k] whatever"
    by (intro renders_word_space) (simp_all add: is_word_def)
  moreover have "the (spelling ?k) @ lit '' '' = (if hooked then lit ''hooked-symbol '' else lit ''symbol '')"
    by simp
  ultimately have w: "renders whatever (doc_text (if hooked then lit ''hooked-symbol '' else lit ''symbol ''))
      [kw ?k] whatever" by simp
  have r: "renders whatever (sort_doc result i @ doc_line @ attributes_doc attrs i)
      (sort_terms result @ attributes_terms attrs) whatever"
    by (rule renders_append [OF renders_sort_doc [OF assms(3)] renders_end [OF assms(4)]])
  have c: "renders whatever (doc_text (lit '' : '') @ sort_doc result i @ doc_line @ attributes_doc attrs i)
      ([kw TColon] @ sort_terms result @ attributes_terms attrs) whatever"
    by (rule renders_whatever [OF renders_append [OF renders_colon r]])
  have "renders whatever (arguments_doc arg_sorts i @ doc_text (lit '' : '') @ sort_doc result i
      @ doc_line @ attributes_doc attrs i)
      (parens (map sort_terms arg_sorts) @ [kw TColon] @ sort_terms result @ attributes_terms attrs) whatever"
    by (rule renders_whatever [OF renders_append [OF renders_arguments [OF assms(2)] c]])
  from renders_append [OF w renders_append [OF renders_symbol_doc [OF assms(1), of i] this]]
  show ?thesis by (simp add: doc_concat_concat split del: if_split) (intro renders_group; simp add: doc_text_def)
qed

lemma renders_axiom:
  assumes "is_word k" and "spelling k = Some tx" and "\<forall>n \<in> set params. is_id_token n"
    and "wf_pattern p" and "wf_attributes attrs"
  shows "renders whatever (declaration_pattern_doc tx params p attrs i)
    (kw k # name_list_terms params @ pattern_terms p @ attributes_terms attrs) whatever"
proof -
  have "renders whatever (doc_line @ pattern_doc p i @ doc_line @ attributes_doc attrs i)
      (pattern_terms p @ attributes_terms attrs) stops"
    by (rule renders_line_then [OF renders_append [OF renders_pattern_doc [OF assms(4)] renders_end [OF assms(5)]]])
  then have "renders whatever (doc_nest i (doc_line @ pattern_doc p i @ doc_line @ attributes_doc attrs i))
      (pattern_terms p @ attributes_terms attrs) whatever"
    by (intro renders_whatever [OF renders_nest]) (simp_all add: doc_line_def)
  from renders_append [OF renders_word [OF assms(1,2)] renders_append [OF renders_parameters [OF assms(3), of i] this]]
  show ?thesis
    by (simp add: doc_concat_concat declaration_pattern_doc_def) (intro renders_group; simp add: doc_text_def)
qed

lemma renders_alias_declaration:
  assumes "wf_symbol symb" and "\<forall>s \<in> set arg_sorts. wf_sort s" and "wf_sort result" and "wf_attributes attrs"
    and "wf_pattern left" and "wf_pattern right"
  shows "renders whatever (sentence_doc (AliasDeclaration symb arg_sorts result left right attrs) i)
    (sentence_terms (AliasDeclaration symb arg_sorts result left right attrs)) whatever"
proof -
  let ?body = "doc_line @ pattern_doc left i @ doc_text (lit '' :='') @ doc_line @ pattern_doc right i
    @ doc_line @ attributes_doc attrs i"
  have "renders whatever (doc_line @ pattern_doc right i @ doc_line @ attributes_doc attrs i)
      (pattern_terms right @ attributes_terms attrs) stops"
    by (rule renders_line_then [OF renders_append [OF renders_pattern_doc [OF assms(6)] renders_end [OF assms(4)]]])
  from renders_append [OF renders_walrus renders_whatever [OF this]]
  have w: "renders whatever (doc_text (lit '' :='') @ doc_line @ pattern_doc right i @ doc_line @ attributes_doc attrs i)
      ([kw TWalrus] @ pattern_terms right @ attributes_terms attrs) stops" .
  have "renders whatever ?body (pattern_terms left @ [kw TWalrus] @ pattern_terms right @ attributes_terms attrs) stops"
    by (rule renders_line_then [OF renders_append [OF renders_pattern_doc [OF assms(5)] w]])
  then have b: "renders whatever (doc_nest i ?body)
      (pattern_terms left @ [kw TWalrus] @ pattern_terms right @ attributes_terms attrs) stops"
    by (rule renders_nest) (simp add: doc_line_def)
  have r: "renders whatever (sort_doc result i @ doc_text (lit '' where'') @ doc_nest i ?body)
      (sort_terms result @ [kw TWhere] @ pattern_terms left @ [kw TWalrus] @ pattern_terms right
        @ attributes_terms attrs) whatever"
    by (rule renders_append [OF renders_sort_doc [OF assms(3)] renders_append [OF renders_where b]])
  have c: "renders whatever (doc_text (lit '' : '') @ sort_doc result i @ doc_text (lit '' where'') @ doc_nest i ?body)
      ([kw TColon] @ sort_terms result @ [kw TWhere] @ pattern_terms left @ [kw TWalrus] @ pattern_terms right
        @ attributes_terms attrs) whatever"
    by (rule renders_whatever [OF renders_append [OF renders_colon r]])
  have "renders whatever (doc_text (lit ''alias'' @ lit '' '')) [kw TAlias] whatever"
    by (intro renders_word_space) (simp_all add: is_word_def)
  from renders_append [OF this renders_append [OF renders_symbol_doc [OF assms(1), of i]
        renders_whatever [OF renders_append [OF renders_arguments [OF assms(2)] c]]]]
  show ?thesis by (simp add: doc_concat_concat) (intro renders_group; simp add: doc_text_def)
qed

lemma renders_sentence:
  "wf_sentence s \<Longrightarrow> renders whatever (sentence_doc s i) (sentence_terms s) whatever"
proof (cases s)
  case (Axiom params p attrs)
  moreover assume "wf_sentence s"
  ultimately show ?thesis using renders_axiom [of TAxiom "lit ''axiom''"] by (simp add: is_word_def)
next
  case (Claim params p attrs)
  moreover assume "wf_sentence s"
  ultimately show ?thesis using renders_axiom [of TClaim "lit ''claim''"] by (simp add: is_word_def)
qed (auto simp del: sentence_doc.simps sentence_terms.simps intro: renders_import renders_sort_declaration
    renders_symbol_declaration renders_alias_declaration)

section \<open>Modules and definitions\<close>

lemma renders_Nil: "renders K [] [] whatever"
  by (simp add: renders_def whatever_def)

lemma renders_hard: "renders K ops ts P \<Longrightarrow> renders K (OHardLine # ops) ts stops"
  using renders_cons [OF renders_hard_line, of K ops ts P] by simp

lemma renders_concat:
  assumes "\<And>x. x \<in> set xs \<Longrightarrow> renders whatever (f x) (g x) whatever"
  shows "renders whatever (concat (map (\<lambda>x. OHardLine # f x) xs)) (concat (map g xs)) whatever"
  using assms
proof (induction xs)
  case Nil
  show ?case using renders_Nil by simp
next
  case (Cons x xs)
  have "renders whatever (OHardLine # f x) (g x) whatever"
    by (rule renders_whatever [OF renders_hard [OF Cons.prems]]) simp
  from renders_append [OF this Cons.IH] Cons.prems show ?case by simp
qed

lemma renders_concat_stops:
  assumes "\<And>x. x \<in> set xs \<Longrightarrow> renders whatever (f x) (g x) whatever" and "xs \<noteq> []"
  shows "renders whatever (concat (map (\<lambda>x. OHardLine # f x) xs)) (concat (map g xs)) stops"
proof (cases xs)
  case (Cons x ys)
  have "renders whatever (OHardLine # f x) (g x) stops"
    by (rule renders_hard [OF assms(1)]) (simp add: Cons)
  moreover have "renders whatever (concat (map (\<lambda>x. OHardLine # f x) ys)) (concat (map g ys)) whatever"
    by (rule renders_concat [OF assms(1)]) (simp add: Cons)
  ultimately have "renders whatever ((OHardLine # f x) @ concat (map (\<lambda>x. OHardLine # f x) ys))
      (g x @ concat (map g ys)) stops"
    by (rule renders_append)
  then show ?thesis by (simp add: Cons)
qed (use assms in simp)

text \<open>The nested lines of the sentences, which are absent when there is none.\<close>

lemma renders_nested_lines:
  assumes "b \<Longrightarrow> renders whatever ops ts stops"
  shows "renders stops (if b then ONestStart i # ops @ [ONestEnd i] else []) (if b then ts else []) stops"
proof (cases b)
  case True
  have "renders whatever (ops @ [ONestEnd i]) (ts @ []) stops"
    by (rule renders_append [OF assms [OF True] renders_silent(2)])
  then have "renders whatever (ONestStart i # ops @ [ONestEnd i]) ts stops"
    using renders_skip [of "ONestStart i" i] by simp
  then show ?thesis using True renders_any by simp
qed (simp add: renders_def)

lemma renders_module:
  assumes "wf_module m"
  shows "renders whatever (module_ops m i) (module_terms m) whatever"
proof -
  let ?ss = "concat (map (\<lambda>s. OHardLine # sentence_doc s i) (mod_sentences m))"
  let ?ts = "concat (map sentence_terms (mod_sentences m))"
  let ?b = "mod_sentences m \<noteq> []"
  have "?b \<Longrightarrow> renders whatever ?ss ?ts stops"
    using assms by (intro renders_concat_stops renders_sentence) (simp_all add: wf_module_def)
  then have s: "renders stops (if ?b then ONestStart i # ?ss @ [ONestEnd i] else []) (if ?b then ?ts else []) stops"
    by (rule renders_nested_lines)
  have "renders whatever (doc_text (lit ''endmodule'' @ lit '' '')) [kw TEndModule] whatever"
    by (rule renders_word_space) (simp_all add: is_word_def)
  from renders_append [OF this renders_whatever [OF renders_attributes]] assms
  have e: "renders whatever (OHardLine # doc_text (lit ''endmodule '') @ attributes_doc (mod_attributes m) i)
      (kw TEndModule # attributes_terms (mod_attributes m)) stops"
    by (intro renders_hard [where P = whatever]) (simp add: wf_module_def)
  have "renders stops (doc_text (lit ''module'' @ lit '' '' @ mod_name m)) [kw TModule, (TId, mod_name m)] whatever"
    using assms by (intro renders_word_name) (simp_all add: is_word_def wf_module_def)
  from renders_append [OF this renders_append [OF s e]]
  show ?thesis by (simp add: module_ops_def module_terms_def doc_text_def split: if_splits)
qed

lemma renders_definition:
  assumes "wf_definition d"
  shows "renders whatever (definition_ops (definition_attributes d) (definition_modules d) i)
    (definition_terms d) whatever"
proof -
  have "renders whatever (concat (map (\<lambda>m. OHardLine # module_ops m i) (definition_modules d)))
      (concat (map module_terms (definition_modules d))) whatever"
    using assms by (intro renders_concat renders_module) (simp add: wf_definition_def)
  then show ?thesis
    unfolding definition_ops_def definition_terms_def
    using assms by (intro renders_whatever [OF renders_append [OF renders_attributes]]) (simp_all add: wf_definition_def)
qed

section \<open>Balanced markers\<close>

lemma neutral_doc [simp]:
  "neutral (doc_text t)" "neutral doc_line" "neutral (doc_nest i d) \<longleftrightarrow> d = [] \<or> neutral (ONestStart i # d @ [ONestEnd i])"
  "neutral a \<Longrightarrow> neutral (doc_group a)" "neutral (pattern_doc p i)" "neutral (symbol_doc symb i)" "neutral (sort_doc s i)"
  using neutral_group [of a "[]"]
  by (simp_all add: doc_text_def doc_line_def doc_nest_def doc_group_def pattern_doc_def symbol_doc_def
      sort_doc_def syntax_doc_def neutral_pattern neutral_symbol neutral_sort)

lemma neutral_doc_nest: "neutral d \<Longrightarrow> neutral (doc_nest i d)"
  using neutral_nest [of d "[]" i] by simp

lemma neutral_lists [simp]:
  "neutral (attributes_doc attrs i)" "neutral (parameters_doc params i)" "neutral (arguments_doc ss i)"
  by (auto simp: attributes_doc_def parameters_doc_def arguments_doc_def delimited_delimited_ops
      intro!: neutral_delimited)

lemma neutral_sentence: "neutral (sentence_doc s i)"
  by (cases s)
    (simp_all add: doc_concat_concat declaration_pattern_doc_def neutral_append neutral_doc_nest
      del: neutral_doc(3))

lemma neutral_lines:
  "(\<And>x. x \<in> set xs \<Longrightarrow> neutral (f x)) \<Longrightarrow> neutral (concat (map (\<lambda>x. OHardLine # f x) xs))"
  by (induction xs) (simp_all add: neutral_append)

lemma neutral_module: "neutral (module_ops m i)"
proof -
  have "neutral (ONestStart i # concat (map (\<lambda>s. OHardLine # sentence_doc s i) (mod_sentences m)) @ ONestEnd i # [])"
    by (intro neutral_nest neutral_lines neutral_sentence) simp
  then show ?thesis by (simp add: module_ops_def neutral_append)
qed

lemma neutral_definition: "neutral (definition_ops attrs modules i)"
  by (simp add: definition_ops_def neutral_append neutral_lines neutral_module)

lemma neutral_well_nested: "neutral ops \<Longrightarrow> well_nested 0 0 ops"
  using neutral_def [of ops] well_nested.simps(1) by (metis append_Nil2)

section \<open>Round trips\<close>

text \<open>Every layout of neutral ops is a text, and it lexes to their terminals.\<close>

lemma render_ops_lexes:
  assumes "neutral ops" and "renders K ops ts P" and "K []"
  shows "\<exists>s. render_ops options ops = Some s \<and> lexes s ts"
proof -
  let ?s = "laid_out (po_width options) ops 0 0
    [case print_mode (po_style options) of Compact \<Rightarrow> Flat | Pretty \<Rightarrow> Break]"
  have "render_ops options ops = Some ?s"
    unfolding render_ops_def using render_laid_out [OF neutral_well_nested [OF assms(1)]] .
  moreover have "leads ?s ts []"
    using assms(2,3) spaced_laid_out by (simp add: renders_def)
  ultimately show ?thesis using leads_lexes by blast
qed

text \<open>C2: A pattern the syntax can express prints, in every style, width and indentation, to a
  text that parses back to exactly that pattern.\<close>

theorem print_parse_pattern:
  "wf_pattern p \<Longrightarrow> \<exists>s. print_pattern options p = Some s \<and> parse_pattern s = Inr p"
  using render_ops_lexes [OF neutral_pattern renders_pattern, of p options] pattern_terms_derive [of p]
  unfolding print_pattern_def parse_pattern_iff by (fastforce simp: stops_def)

definition sample_sort :: sort where
  "sample_sort = SortApplication (lit ''SortInt'') []"

definition sample_variable :: variable where
  "sample_variable = \<lparr>var_kind = Element, var_name = lit ''VarX'', var_sort = sample_sort\<rparr>"

definition sample_pattern :: pattern where
  "sample_pattern =
     PExists sample_sort sample_variable (PAnd sample_sort [PVariable sample_variable, PTop sample_sort])"

lemmas sample_defs = sample_pattern_def sample_variable_def sample_sort_def wf_variable_def is_id_token_def
  is_ascii_alphabetic_def is_id_char_def is_ascii_alphanumeric_def is_ascii_digit_def classify_id_def

lemma sample_wf: "wf_pattern sample_pattern"
  by (simp add: sample_defs)

theorem print_parse_pattern_witness:
  "\<exists>s. print_pattern (pretty_options 5) sample_pattern = Some s \<and> parse_pattern s = Inr sample_pattern"
  by (rule print_parse_pattern [OF sample_wf])

text \<open>C9: A sentence and a module the syntax can express print to texts that parse back to them, in
  every layout: declarations, aliases, axioms and claims with their attributes, the nested lines of a
  module, and a module without sentences.\<close>

theorem print_parse_sentence_module:
  "(wf_sentence s \<longrightarrow> (\<exists>t. print_sentence options s = Some t \<and> parse_sentence t = Inr s))
   \<and> (wf_module m \<longrightarrow> (\<exists>t. print_module options m = Some t \<and> parse_module t = Inr m))"
  using render_ops_lexes [OF neutral_sentence renders_sentence, of s options] sentence_terms_derive [of s]
    render_ops_lexes [OF neutral_module renders_module, of m options] module_terms_derive [of m]
  unfolding print_sentence_def parse_sentence_iff print_module_def parse_module_iff
  by (fastforce simp: whatever_def)

definition sample_module :: kore_module where
  "sample_module =
     \<lparr>mod_name = lit ''TEST'', mod_sentences = [Axiom [lit ''R''] sample_pattern []], mod_attributes = []\<rparr>"

lemma sample_sentence_wf: "wf_sentence (Axiom [lit ''R''] sample_pattern [])" "wf_module sample_module"
  using sample_wf by (simp_all add: wf_attributes_def wf_module_def sample_module_def sample_defs)

theorem print_parse_sentence_module_witness:
  "\<exists>t. print_module compact_options sample_module = Some t \<and> parse_module t = Inr sample_module"
  using print_parse_sentence_module [of "Axiom [lit ''R''] sample_pattern []" compact_options sample_module]
    sample_sentence_wf by blast

text \<open>C1: A definition the syntax can express prints, in every style, width and indentation, to a
  text that parses back to exactly that definition.\<close>

theorem print_parse_definition:
  "wf_definition d \<Longrightarrow> \<exists>t. print_definition options d = Some t \<and> parse_definition t = Inr d"
  using render_ops_lexes [OF neutral_definition renders_definition, of d options] definition_terms_derive [of d]
  unfolding print_definition_def parse_definition_iff by (fastforce simp: whatever_def)

definition sample_definition :: kore_definition where
  "sample_definition = \<lparr>definition_attributes = [sample_pattern], definition_modules = [sample_module, sample_module]\<rparr>"

lemma sample_definition_wf: "wf_definition sample_definition"
  using sample_wf sample_sentence_wf by (simp add: sample_definition_def wf_definition_def wf_attributes_def)

theorem print_parse_definition_witness:
  "\<exists>t. print_definition default_options sample_definition = Some t \<and> parse_definition t = Inr sample_definition"
  by (rule print_parse_definition [OF sample_definition_wf])

text \<open>C34: Printing returns a text for every pattern, sentence, module and definition, well-formed or
  not, and for all options, in a build without overflow checks: the look-ahead never runs past the
  ops. In a build with overflow checks it returns the same text as long as the texts and the
  indentation of the document add up to less than \<open>2 ^ 64\<close>.\<close>

theorem printing_never_panics:
  "(\<exists>t. print_pattern options p = Some t) \<and> (\<exists>t. print_sentence options s = Some t)
   \<and> (\<exists>t. print_module options m = Some t) \<and> (\<exists>t. print_definition options d = Some t)
   \<and> (let ops = syntax_ops (po_indent options) [KPattern p] in
        extent ops < 2 ^ 64 \<longrightarrow> checked_ops options ops = print_pattern options p)
   \<and> (let ops = sentence_doc s (po_indent options) in
        extent ops < 2 ^ 64 \<longrightarrow> checked_ops options ops = print_sentence options s)
   \<and> (let ops = module_ops m (po_indent options) in
        extent ops < 2 ^ 64 \<longrightarrow> checked_ops options ops = print_module options m)
   \<and> (let ops = definition_ops (definition_attributes d) (definition_modules d) (po_indent options) in
        extent ops < 2 ^ 64 \<longrightarrow> checked_ops options ops = print_definition options d)"
proof -
  have "\<exists>t. render_ops options ops = Some t" "extent ops < 2 ^ 64 \<longrightarrow> checked_ops options ops = render_ops options ops"
    if "neutral ops" for ops
    using render_checked [OF neutral_well_nested [OF that]] render_laid_out [OF neutral_well_nested [OF that]]
    by (simp_all add: render_ops_def checked_ops_def)
  then show ?thesis
    unfolding print_pattern_def print_sentence_def print_module_def print_definition_def Let_def
    using neutral_pattern neutral_sentence neutral_module neutral_definition by blast
qed

theorem printing_never_panics_witness:
  "\<exists>t. checked_ops default_options (syntax_ops 2 [KPattern (PTop (SortVariable (lit ''S'')))]) = Some t"
proof -
  have "extent (syntax_ops 2 [KPattern (PTop (SortVariable (lit ''S'')))]) < 2 ^ 64" by code_simp
  then show ?thesis
    using printing_never_panics [of default_options "PTop (SortVariable (lit ''S''))"]
    by (simp add: default_options_def pretty_options_def Let_def)
qed

text \<open>The bound is needed: the options admit an indentation that overflows at the second level.\<close>

lemma large_indentation_panics:
  "checked_ops (default_options\<lparr>po_indent := 2 ^ 63\<rparr>)
     (syntax_ops (2 ^ 63) [KPattern (PNot (SortVariable (lit ''S'')) (PNot (SortVariable (lit ''S'')) (PTop (SortVariable (lit ''S'')))))]) = None"
  by code_simp

end
