(* ===== verification/Kore_Reparse.thy ===== *)
theory Kore_Reparse
  imports Kore_Roundtrip
begin

text \<open>
  What a parser returns is well-formed, so a text that has been parsed can be printed in every
  layout and parsed again to the same syntax.
\<close>

section \<open>The terminals of a text\<close>

fun terminal_ok :: "terminal \<Rightarrow> bool" where
  "terminal_ok (TId, x) \<longleftrightarrow> is_id_token x"
| "terminal_ok (TSetVarId, x) \<longleftrightarrow> is_set_variable_token x"
| "terminal_ok (TString, x) \<longleftrightarrow> valid_str x"
| "terminal_ok _ \<longleftrightarrow> True"

definition terms_ok :: "terminal list \<Rightarrow> bool" where
  "terms_ok ts \<longleftrightarrow> list_all terminal_ok ts"

lemma terms_ok_simps [simp]:
  "terms_ok []" "terms_ok (t # ts) \<longleftrightarrow> terminal_ok t \<and> terms_ok ts"
  "terms_ok (ts @ us) \<longleftrightarrow> terms_ok ts \<and> terms_ok us"
  "terms_ok (concat tss) \<longleftrightarrow> (\<forall>ts \<in> set tss. terms_ok ts)"
  by (auto simp: terms_ok_def list_all_iff)

lemma terms_ok_commas: "terms_ok (commas tss) \<longleftrightarrow> (\<forall>ts \<in> set tss. terms_ok ts)"
  by (induction tss rule: commas.induct) auto

lemma terms_ok_list [simp]:
  "terms_ok (braces tss) \<longleftrightarrow> (\<forall>ts \<in> set tss. terms_ok ts)"
  "terms_ok (parens tss) \<longleftrightarrow> (\<forall>ts \<in> set tss. terms_ok ts)"
  "terms_ok (list_terms TLBracket TRBracket tss) \<longleftrightarrow> (\<forall>ts \<in> set tss. terms_ok ts)"
  by (simp_all add: list_terms_def terms_ok_commas)

lemma terms_ok_sort [simp]: "terms_ok (sort_terms s) \<longleftrightarrow> wf_sort s"
  by (induction s rule: sort_terms.induct) (auto simp: terms_ok_commas)

lemma terms_ok_symbol [simp]: "terms_ok (symbol_terms symb) \<longleftrightarrow> wf_symbol symb"
  by (simp add: symbol_terms_def wf_symbol_def)

lemma terms_ok_variable [simp]: "terms_ok (variable_terms v) \<longleftrightarrow> wf_variable v"
  by (cases "var_kind v") (simp_all add: variable_terms_def wf_variable_def)

lemma terms_ok_names [simp]: "terms_ok (name_list_terms ns) \<longleftrightarrow> (\<forall>n \<in> set ns. is_id_token n)"
  by (simp add: name_list_terms_def)

lemma covers_valid: "covers o' s ts \<Longrightarrow> valid_str s \<Longrightarrow> t \<in> set ts \<Longrightarrow> valid_str (tok_text t)"
  by (induction o' s ts rule: covers.induct) auto

lemma lexes_terms_ok:
  assumes "lexes input ts" and "valid_str input"
  shows "terms_ok ts"
proof -
  obtain toks where toks: "lex input = Inr toks" "ts = map terminal toks"
    using assms(1) by (auto simp: lexes_def)
  then have "covers 0 input toks" "\<forall>t \<in> set toks. token_text (tok_kind t) (tok_text t)"
    using lex_from_sound [of "lexer_at 0 input" toks] by (simp_all add: lex_def)
  then have "terminal_ok (terminal t)" if "t \<in> set toks" for t
    using that covers_valid [OF _ assms(2)] by (cases "tok_kind t") (auto simp: terminal_def)
  then show ?thesis by (auto simp: toks(2) terms_ok_def list_all_iff)
qed

section \<open>Well-formed results\<close>

lemma or_fold_wf:
  assumes "or_fold a s ps = Some p" and "wf_sort s" and "\<forall>q \<in> set ps. wf_pattern q"
  shows "wf_pattern p"
proof -
  have "wf_pattern q \<Longrightarrow> \<forall>q \<in> set qs. wf_pattern q \<Longrightarrow> wf_pattern (or_left s q qs)" for q qs
    using assms(2) by (induction s q qs rule: or_left.induct) auto
  moreover have "wf_pattern q \<Longrightarrow> \<forall>q \<in> set qs. wf_pattern q \<Longrightarrow> wf_pattern (or_right s q qs)" for q qs
    using assms(2) by (induction s q qs rule: or_right.induct) auto
  ultimately show ?thesis using assms(1,3) by (cases ps; cases a) auto
qed

lemma atom_wf: "atom_derives ts p \<Longrightarrow> terms_ok ts \<Longrightarrow> wf_pattern p"
  by (induction rule: atom_derives.induct) (auto simp: unquote_def dest: unquote_canonical)

lemma operands_wf:
  assumes "list_all2 (\<lambda>ts p. pattern_derives ts p \<and> (terms_ok ts \<longrightarrow> wf_pattern p)) tss ps"
    and "\<forall>ts \<in> set tss. terms_ok ts"
  shows "\<forall>p \<in> set ps. wf_pattern p"
  using assms by (induction rule: list_all2_induct) auto

lemma pattern_wf: "pattern_derives ts p \<Longrightarrow> terms_ok ts \<Longrightarrow> wf_pattern p"
proof (induction rule: pattern_derives.induct)
  case (atom ts p)
  then show ?case by (simp add: atom_wf)
next
  case (associative_or tss ps a s p)
  then show ?case using operands_wf [of tss ps] or_fold_wf [of a s ps p] by simp
qed (auto dest: operands_wf)

lemma items_wf:
  assumes "list_all2 derives tss xs" and "\<forall>ts \<in> set tss. terms_ok ts"
    and "\<And>ts x. derives ts x \<Longrightarrow> terms_ok ts \<Longrightarrow> good x"
  shows "\<forall>x \<in> set xs. good x"
  using assms(1,2) by (induction rule: list_all2_induct) (auto intro: assms(3))

lemma attributes_wf: "attributes_derives ts attrs \<Longrightarrow> terms_ok ts \<Longrightarrow> wf_attributes attrs"
  using items_wf [OF _ _ pattern_wf] by (force simp: attributes_derives_def wf_attributes_def)

lemma sentence_wf: "sentence_derives ts s \<Longrightarrow> terms_ok ts \<Longrightarrow> wf_sentence s"
  by (induction rule: sentence_derives.induct) (auto intro: pattern_wf attributes_wf)

lemma module_wf: "module_derives ts m \<Longrightarrow> terms_ok ts \<Longrightarrow> wf_module m"
proof (induction rule: module_derives.induct)
  case (1 tss ss us attrs name)
  then have "\<forall>s \<in> set ss. wf_sentence s" "wf_attributes attrs" "is_id_token name"
    using items_wf [OF 1(1) _ sentence_wf] attributes_wf by simp_all
  then show ?case by (simp add: wf_module_def)
qed

lemma definition_wf: "definition_derives ts d \<Longrightarrow> terms_ok ts \<Longrightarrow> wf_definition d"
proof (induction rule: definition_derives.induct)
  case (1 us attrs tss ms)
  then have "\<forall>m \<in> set ms. wf_module m" "wf_attributes attrs"
    using items_wf [OF 1(2) _ module_wf] attributes_wf by simp_all
  then show ?case using 1(3) by (simp add: wf_definition_def)
qed

lemma parsed_wf:
  assumes "valid_str input"
  shows "parse_pattern input = Inr p \<Longrightarrow> wf_pattern p"
    and "parse_sentence input = Inr s \<Longrightarrow> wf_sentence s"
    and "parse_module input = Inr m \<Longrightarrow> wf_module m"
    and "parse_definition input = Inr d \<Longrightarrow> wf_definition d"
  using lexes_terms_ok [OF _ assms] pattern_wf sentence_wf module_wf definition_wf
  unfolding parse_pattern_iff parse_sentence_iff parse_module_iff parse_definition_iff by blast+

text \<open>C11: What a parser returns for a text is well-formed: identifiers and set variables are tokens
  of their class, binders bind variables of their kind, literals are in canonical form, associative
  syntax has operands and a definition has a module.\<close>

theorem parser_results_well_formed:
  assumes "valid_str input"
  shows "(\<forall>p. parse_pattern input = Inr p \<longrightarrow> wf_pattern p)
    \<and> (\<forall>d. parse_definition input = Inr d \<longrightarrow> wf_definition d)"
  using parsed_wf [OF assms] by blast

definition sample_text :: str where
  "sample_text = ml ''top{S}()''"

lemma sample_text_parses: "parse_pattern sample_text = Inr (PTop (SortVariable (lit ''S'')))"
  by code_simp

theorem parser_results_well_formed_witness:
  "wf_pattern (PTop (SortVariable (lit ''S''))) \<and> valid_str sample_text"
proof -
  have "valid_str sample_text" by (simp add: sample_text_def is_scalar_def)
  then show ?thesis using parser_results_well_formed [of sample_text] sample_text_parses by blast
qed

text \<open>A text that parses can be printed, in every layout, and the printed text parses to the same syntax
  tree. The texts themselves may differ in more than comments and spacing: the parser expands an
  associative connective into binary ones, and those are what is printed.\<close>

theorem reparse_stable:
  assumes "valid_str input"
  shows "(parse_pattern input = Inr p \<longrightarrow>
      (\<exists>t. print_pattern options p = Some t \<and> parse_pattern t = parse_pattern input))
    \<and> (parse_definition input = Inr d \<longrightarrow>
      (\<exists>t. print_definition options d = Some t \<and> parse_definition t = parse_definition input))"
proof -
  have "\<exists>t. print_pattern options p = Some t \<and> parse_pattern t = Inr p" if "parse_pattern input = Inr p"
    using render_ops_lexes [OF neutral_pattern renders_pattern, of p options] pattern_terms_derive [of p]
      parsed_wf(1) [OF assms that]
    unfolding print_pattern_def parse_pattern_iff by (fastforce simp: stops_def)
  moreover have "\<exists>t. print_definition options d = Some t \<and> parse_definition t = Inr d"
    if "parse_definition input = Inr d"
    using render_ops_lexes [OF neutral_definition renders_definition, of d options] definition_terms_derive [of d]
      parsed_wf(4) [OF assms that]
    unfolding print_definition_def parse_definition_iff by (fastforce simp: whatever_def)
  ultimately show ?thesis by simp
qed

theorem reparse_stable_witness:
  "\<exists>t. print_pattern default_options (PTop (SortVariable (lit ''S''))) = Some t
     \<and> parse_pattern t = parse_pattern sample_text"
proof -
  have "valid_str sample_text" by (simp add: sample_text_def is_scalar_def)
  then show ?thesis using reparse_stable [of sample_text _ default_options] sample_text_parses by blast
qed

end
