(* ===== verification/Kore_Binary.thy ===== *)
theory Kore_Binary
  imports Kore_String
begin

text \<open>
  Binary KORE (\<open>kore/binary.rs\<close>): the header with its version, the decoder, a stack machine over
  tagged blocks, and the encoder, which walks a pattern with a stack of tasks. The decoder's state is
  a record; its stack has the top at the head of the list. A read or encode that the source reports
  is \<open>BinError\<close> with its byte offset and message; what would be a panic (an \<open>expect\<close>, an
  \<open>unreachable!\<close>, a slice out of range) is \<open>BinPanic\<close>. Lengths are natural numbers, with the
  checked operations on \<open>usize\<close> written out against \<open>2 ^ 64\<close>.
\<close>

unbundle bit_operations_syntax

section \<open>Messages\<close>

definition decimal_int :: "int \<Rightarrow> str" where
  "decimal_int i = (if i < 0 then 45 # decimal (nat (- i)) else decimal (nat i))"

datatype binary_fault = BinError nat str | BinPanic

abbreviation bin_error :: "nat \<Rightarrow> str \<Rightarrow> binary_fault + 'a" where
  "bin_error offset message \<equiv> Inl (BinError offset message)"

section \<open>The header\<close>

definition MAGIC :: "byte list" where
  "MAGIC = [0x7F, 0x4B, 0x4F, 0x52, 0x45]"

definition HEADER_SIZE_V1_0 :: nat where "HEADER_SIZE_V1_0 = 11"
definition HEADER_SIZE_V1_2 :: nat where "HEADER_SIZE_V1_2 = 19"

definition COMPOSITE_PATTERN :: byte where "COMPOSITE_PATTERN = 0x04"
definition STRING_PATTERN :: byte where "STRING_PATTERN = 0x05"
definition COMPOSITE_SORT :: byte where "COMPOSITE_SORT = 0x06"
definition SORT_VARIABLE :: byte where "SORT_VARIABLE = 0x07"
definition SYMBOL :: byte where "SYMBOL = 0x08"
definition VARIABLE_PATTERN :: byte where "VARIABLE_PATTERN = 0x09"
definition VARIABLE :: byte where "VARIABLE = 0x0D"

lemmas tag_defs = COMPOSITE_PATTERN_def STRING_PATTERN_def COMPOSITE_SORT_def SORT_VARIABLE_def SYMBOL_def
  VARIABLE_PATTERN_def VARIABLE_def

record version =
  ver_major :: "16 word"
  ver_minor :: "16 word"
  ver_patch :: "16 word"

definition V1_0_0 :: version where "V1_0_0 = \<lparr>ver_major = 1, ver_minor = 0, ver_patch = 0\<rparr>"
definition V1_1_0 :: version where "V1_1_0 = \<lparr>ver_major = 1, ver_minor = 1, ver_patch = 0\<rparr>"
definition V1_2_0 :: version where "V1_2_0 = \<lparr>ver_major = 1, ver_minor = 2, ver_patch = 0\<rparr>"
definition LATEST :: version where "LATEST = V1_2_0"

text \<open>The derived order: lexicographic on the signed fields.\<close>

definition version_cmp :: "version \<Rightarrow> version \<Rightarrow> ordering" where
  "version_cmp v w =
     then_with (ord_cmp (sint (ver_major v)) (sint (ver_major w)))
       (then_with (ord_cmp (sint (ver_minor v)) (sint (ver_minor w)))
         (ord_cmp (sint (ver_patch v)) (sint (ver_patch w))))"

definition is_supported :: "version \<Rightarrow> bool" where
  "is_supported v \<longleftrightarrow> ver_major v = 1 \<and> 0 \<le> sint (ver_minor v) \<and> sint (ver_minor v) \<le> 2"

definition uses_fixed_lengths :: "version \<Rightarrow> bool" where
  "uses_fixed_lengths v \<longleftrightarrow> ver_major v = 1 \<and> ver_minor v = 0"

definition has_payload_length :: "version \<Rightarrow> bool" where
  "has_payload_length v \<longleftrightarrow> version_cmp v V1_2_0 \<noteq> Less"

definition version_text :: "version \<Rightarrow> str" where
  "version_text v =
     decimal_int (sint (ver_major v)) @ lit ''.'' @ decimal_int (sint (ver_minor v)) @ lit ''.''
       @ decimal_int (sint (ver_patch v))"

definition unsupported :: "version \<Rightarrow> str" where
  "unsupported v = lit ''unsupported binary KORE version '' @ version_text v"

text \<open>Little-endian integers.\<close>

fun le_bytes :: "nat \<Rightarrow> nat \<Rightarrow> byte list" where
  "le_bytes 0 n = []"
| "le_bytes (Suc k) n = byte_of (n mod 256) # le_bytes k (n div 256)"

fun le_value :: "byte list \<Rightarrow> nat" where
  "le_value [] = 0"
| "le_value (b # bs) = unat b + 256 * le_value bs"

section \<open>Blocks\<close>

datatype block = BPattern pattern | BString kore_string | BSort sort | BSymbol symbol

fun block_kind :: "block \<Rightarrow> str" where
  "block_kind (BPattern _) = lit ''term''"
| "block_kind (BString _) = lit ''string''"
| "block_kind (BSort _) = lit ''sort''"
| "block_kind (BSymbol _) = lit ''symbol''"

section \<open>Reading\<close>

record decoder =
  de_input :: "byte list"
  de_cursor :: nat
  de_end :: nat
  de_version :: version
  de_strings :: "nat \<rightharpoonup> kore_string"
  de_stack :: "block list"

text \<open>Where the payload begins and ends.\<close>

definition declared_length :: "byte list \<Rightarrow> nat" where
  "declared_length input = le_value (take 8 (drop 11 input))"

definition payload_bounds :: "byte list \<Rightarrow> version \<Rightarrow> binary_fault + (nat \<times> nat)" where
  "payload_bounds input v =
     (if has_payload_length v then
        (if length input < HEADER_SIZE_V1_2 then bin_error (length input) (lit ''truncated version 1.2 header'')
         else
           (let payload_length = declared_length input in
            if payload_length = 0 then Inr (HEADER_SIZE_V1_2, length input)
            else
              (let end' = HEADER_SIZE_V1_2 + payload_length in
               if end' \<ge> 2 ^ 64 then bin_error 11 (lit ''payload length overflows usize'')
               else if end' > length input then
                 bin_error 11 (lit ''declared payload length '' @ decimal payload_length @ lit '' exceeds ''
                   @ decimal (length input - HEADER_SIZE_V1_2) @ lit '' available bytes'')
               else if end' < length input then
                 bin_error end' (lit ''trailing bytes after binary KORE payload'')
               else Inr (HEADER_SIZE_V1_2, end'))))
      else Inr (HEADER_SIZE_V1_0, length input))"

definition header_version :: "byte list \<Rightarrow> version" where
  "header_version input =
     (let i16 = (\<lambda>i. word_of_nat (le_value [input ! i, input ! (i + 1)]))
      in \<lparr>ver_major = i16 5, ver_minor = i16 7, ver_patch = i16 9\<rparr>)"

definition new_decoder :: "byte list \<Rightarrow> binary_fault + decoder" where
  "new_decoder input =
     (if length input < HEADER_SIZE_V1_0 \<or> take (length MAGIC) input \<noteq> MAGIC
      then bin_error 0 (lit ''invalid magic header'')
      else
        (let v = header_version input in
         if \<not> is_supported v then bin_error 5 (unsupported v)
         else
           and_then (payload_bounds input v) (\<lambda>(cursor, end').
             Inr \<lparr>de_input = input, de_cursor = cursor, de_end = end', de_version = v,
               de_strings = Map.empty, de_stack = []\<rparr>)))"

definition de_byte :: "decoder \<Rightarrow> binary_fault + (byte \<times> decoder)" where
  "de_byte st =
     (if de_cursor st \<ge> length (de_input st) then
        bin_error (de_cursor st) (lit ''unexpected end of binary KORE payload'')
      else if de_cursor st \<ge> de_end st then
        bin_error (de_cursor st) (lit ''read past declared binary KORE payload'')
      else Inr (de_input st ! de_cursor st, st\<lparr>de_cursor := de_cursor st + 1\<rparr>))"

definition de_bytes :: "nat \<Rightarrow> decoder \<Rightarrow> binary_fault + (byte list \<times> decoder)" where
  "de_bytes count st =
     (let start = de_cursor st; end' = start + count in
      if end' \<ge> 2 ^ 64 then bin_error start (lit ''byte count overflows usize'')
      else if end' > de_end st then
        (if de_end st < start then Inl BinPanic
         else bin_error start (lit ''expected '' @ decimal count @ lit '' bytes, only ''
           @ decimal (de_end st - start) @ lit '' remain''))
      else if end' > length (de_input st) then Inl BinPanic
      else Inr (take count (drop start (de_input st)), st\<lparr>de_cursor := end'\<rparr>))"

definition length_overflows :: "nat \<Rightarrow> binary_fault + 'a" where
  "length_overflows offset = bin_error offset (lit ''length overflows usize'')"

text \<open>A big-endian field of fixed width; \<open>checked_shl(8)\<close> drops what leaves the word.\<close>

fun fixed_value :: "nat \<Rightarrow> nat \<Rightarrow> byte list \<Rightarrow> binary_fault + nat" where
  "fixed_value offset val [] = Inr val"
| "fixed_value offset val (b # bs) =
     (let shifted = val * 256 mod 2 ^ 64 in
      if shifted + unat b \<ge> 2 ^ 64 then length_overflows offset
      else fixed_value offset (shifted + unat b) bs)"

text \<open>A variable-length field, seven bits a byte from the lowest, over the steps left.\<close>

fun varint_loop :: "nat \<Rightarrow> nat list \<Rightarrow> nat \<Rightarrow> decoder \<Rightarrow> binary_fault + (nat \<times> decoder)" where
  "varint_loop start [] val st = bin_error start (lit ''variable-length field has no terminating byte'')"
| "varint_loop start (step # steps) val st =
     and_then (de_byte st) (\<lambda>(b, st1).
       let chunk = unat (b AND 0x7F) in
       if 7 * step \<ge> 64 then length_overflows start
       else
         (let shifted = chunk * 2 ^ (7 * step) mod 2 ^ 64 in
          if val + shifted \<ge> 2 ^ 64 then length_overflows start
          else if b AND 0x80 = 0 then Inr (val + shifted, st1)
          else varint_loop start steps (val + shifted) st1))"

definition de_length :: "nat \<Rightarrow> decoder \<Rightarrow> binary_fault + (nat \<times> decoder)" where
  "de_length fixed_width st =
     (if uses_fixed_lengths (de_version st) then
        and_then (de_bytes fixed_width st) (\<lambda>(bs, st1).
        and_then (fixed_value (de_cursor st1) 0 bs) (\<lambda>val. Inr (val, st1)))
      else varint_loop (de_cursor st) [0..<9] 0 st)"

definition de_raw_string :: "decoder \<Rightarrow> binary_fault + (kore_string \<times> decoder)" where
  "de_raw_string st =
     and_then (de_byte st) (\<lambda>(tag, st1).
       if tag = 0x01 then
         and_then (de_length 4 st1) (\<lambda>(len, st2).
         and_then (de_bytes len st2) (\<lambda>(bs, st3).
           Inr (bs, st3\<lparr>de_strings := (de_strings st3)(de_cursor st1 \<mapsto> bs)\<rparr>)))
       else if tag = 0x02 then
         and_then (de_length 4 st1) (\<lambda>(distance, st2).
           if distance > de_cursor st2 then
             bin_error (de_cursor st) (lit ''string back-reference precedes the input'')
           else
             (case de_strings st2 (de_cursor st2 - distance) of
                None \<Rightarrow>
                  bin_error (de_cursor st) (lit ''string back-reference has unknown target ''
                    @ decimal (de_cursor st2 - distance))
              | Some bs \<Rightarrow> Inr (bs, st2)))
       else bin_error (de_cursor st) (lit ''invalid string tag 0x'' @ hex_pad 2 (unat tag)))"

definition de_identifier :: "decoder \<Rightarrow> binary_fault + (str \<times> decoder)" where
  "de_identifier st =
     and_then (de_raw_string st) (\<lambda>(bs, st1).
       case from_utf8 bs of
         Inr s \<Rightarrow> Inr (s, st1)
       | Inl valid_up_to \<Rightarrow> bin_error (de_cursor st + valid_up_to) (lit ''identifier is not valid UTF-8''))"

definition de_pop :: "nat \<Rightarrow> nat \<Rightarrow> decoder \<Rightarrow> binary_fault + (block list \<times> decoder)" where
  "de_pop count offset st =
     (if count > length (de_stack st) then
        bin_error offset (lit ''cannot pop '' @ decimal count @ lit '' values from a stack containing ''
          @ decimal (length (de_stack st)))
      else Inr (List.rev (take count (de_stack st)), st\<lparr>de_stack := drop count (de_stack st)\<rparr>))"

definition de_pop_sorts :: "nat \<Rightarrow> nat \<Rightarrow> decoder \<Rightarrow> binary_fault + (sort list \<times> decoder)" where
  "de_pop_sorts count offset st =
     and_then (de_pop count offset st) (\<lambda>(blocks, st1).
     and_then
       (collect_results
         (\<lambda>b. case b of BSort s \<Rightarrow> Inr s
              | _ \<Rightarrow> bin_error offset (lit ''expected sort, found '' @ block_kind b)) blocks)
       (\<lambda>ss. Inr (ss, st1)))"

definition de_push :: "block \<Rightarrow> decoder \<Rightarrow> decoder" where
  "de_push b st = st\<lparr>de_stack := b # de_stack st\<rparr>"

section \<open>Applications\<close>

definition malformed_application :: "nat \<Rightarrow> str \<Rightarrow> str \<Rightarrow> binary_fault + 'a" where
  "malformed_application offset name expected =
     bin_error offset (lit ''application '' @ name @ lit '' expected '' @ expected)"

fun one_sort :: "sort list \<Rightarrow> nat \<Rightarrow> str \<Rightarrow> binary_fault + sort" where
  "one_sort [s] offset name = Inr s"
| "one_sort _ offset name = malformed_application offset name (lit ''one sort parameter'')"

definition expect_sort_arity :: "sort list \<Rightarrow> nat \<Rightarrow> nat \<Rightarrow> str \<Rightarrow> binary_fault + unit" where
  "expect_sort_arity sorts expected offset name =
     (if length sorts = expected then Inr ()
      else malformed_application offset name (decimal expected @ lit '' sort parameters''))"

definition expect_arity :: "pattern list \<Rightarrow> nat \<Rightarrow> nat \<Rightarrow> str \<Rightarrow> binary_fault + unit" where
  "expect_arity arguments expected offset name =
     (if length arguments = expected then Inr ()
      else malformed_application offset name (decimal expected @ lit '' term arguments''))"

text \<open>The arguments taken from a vector whose length was checked.\<close>

fun one_argument_of :: "pattern list \<Rightarrow> binary_fault + pattern" where
  "one_argument_of (p # _) = Inr p"
| "one_argument_of [] = Inl BinPanic"

fun two_arguments_of :: "pattern list \<Rightarrow> binary_fault + (pattern \<times> pattern)" where
  "two_arguments_of (p # q # _) = Inr (p, q)"
| "two_arguments_of _ = Inl BinPanic"

definition term_argument :: "nat \<Rightarrow> str \<Rightarrow> block \<Rightarrow> binary_fault + pattern" where
  "term_argument offset name b =
     (case b of
        BPattern p \<Rightarrow> Inr p
      | BString v \<Rightarrow> Inr (PString v)
      | _ \<Rightarrow> bin_error offset (lit ''application '' @ name @ lit '' expected term argument, found '' @ block_kind b))"

definition domain_value_application :: "symbol \<Rightarrow> block list \<Rightarrow> nat \<Rightarrow> binary_fault + pattern" where
  "domain_value_application symb arguments offset =
     (case sort_parameters symb of
        [s] \<Rightarrow>
          (case arguments of
             [BString v] \<Rightarrow> Inr (PDomainValue s (canonical v (of_domain_value s)))
           | _ \<Rightarrow> malformed_application offset (symbol_name symb) (lit ''one string argument''))
      | _ \<Rightarrow> malformed_application offset (symbol_name symb) (lit ''one sort parameter''))"

definition constant_application ::
    "(sort \<Rightarrow> pattern) \<Rightarrow> symbol \<Rightarrow> pattern list \<Rightarrow> nat \<Rightarrow> binary_fault + pattern" where
  "constant_application build symb arguments offset =
     and_then (one_sort (sort_parameters symb) offset (symbol_name symb)) (\<lambda>s.
     and_then (expect_arity arguments 0 offset (symbol_name symb)) (\<lambda>_. Inr (build s)))"

definition unary_application ::
    "(sort \<Rightarrow> pattern \<Rightarrow> pattern) \<Rightarrow> symbol \<Rightarrow> pattern list \<Rightarrow> nat \<Rightarrow> binary_fault + pattern" where
  "unary_application build symb arguments offset =
     and_then (one_sort (sort_parameters symb) offset (symbol_name symb)) (\<lambda>s.
     and_then (expect_arity arguments 1 offset (symbol_name symb)) (\<lambda>_.
     and_then (one_argument_of arguments) (\<lambda>p. Inr (build s p))))"

definition binary_application ::
    "(sort \<Rightarrow> pattern \<Rightarrow> pattern \<Rightarrow> pattern) \<Rightarrow> symbol \<Rightarrow> pattern list \<Rightarrow> nat \<Rightarrow> binary_fault + pattern" where
  "binary_application build symb arguments offset =
     and_then (one_sort (sort_parameters symb) offset (symbol_name symb)) (\<lambda>s.
     and_then (expect_arity arguments 2 offset (symbol_name symb)) (\<lambda>_.
     and_then (two_arguments_of arguments) (\<lambda>(p, q). Inr (build s p q))))"

definition quantifier_application ::
    "(sort \<Rightarrow> variable \<Rightarrow> pattern \<Rightarrow> pattern) \<Rightarrow> symbol \<Rightarrow> pattern list \<Rightarrow> nat \<Rightarrow> binary_fault + pattern" where
  "quantifier_application build symb arguments offset =
     and_then (one_sort (sort_parameters symb) offset (symbol_name symb)) (\<lambda>s.
     and_then (expect_arity arguments 2 offset (symbol_name symb)) (\<lambda>_.
     and_then (two_arguments_of arguments) (\<lambda>(variable_pattern, body).
       case variable_pattern of
         PVariable v \<Rightarrow>
           if var_kind v \<noteq> Element
           then malformed_application offset (symbol_name symb) (lit ''an element variable and a body'')
           else Inr (build s v body)
       | _ \<Rightarrow> malformed_application offset (symbol_name symb) (lit ''a variable and a body''))))"

definition fixpoint_application ::
    "(variable \<Rightarrow> pattern \<Rightarrow> pattern) \<Rightarrow> symbol \<Rightarrow> pattern list \<Rightarrow> nat \<Rightarrow> binary_fault + pattern" where
  "fixpoint_application build symb arguments offset =
     and_then (expect_sort_arity (sort_parameters symb) 0 offset (symbol_name symb)) (\<lambda>_.
     and_then (expect_arity arguments 2 offset (symbol_name symb)) (\<lambda>_.
     and_then (two_arguments_of arguments) (\<lambda>(variable_pattern, body).
       case variable_pattern of
         PVariable v \<Rightarrow>
           if var_kind v \<noteq> SetVar
           then malformed_application offset (symbol_name symb) (lit ''a set variable and a body'')
           else Inr (build v body)
       | _ \<Rightarrow> malformed_application offset (symbol_name symb) (lit ''a set variable and a body''))))"

definition round_application ::
    "(sort \<Rightarrow> sort \<Rightarrow> pattern \<Rightarrow> pattern) \<Rightarrow> symbol \<Rightarrow> pattern list \<Rightarrow> nat \<Rightarrow> binary_fault + pattern" where
  "round_application build symb arguments offset =
     (case sort_parameters symb of
        [s, t] \<Rightarrow>
          and_then (expect_arity arguments 1 offset (symbol_name symb)) (\<lambda>_.
          and_then (one_argument_of arguments) (\<lambda>p. Inr (build s t p)))
      | _ \<Rightarrow> malformed_application offset (symbol_name symb) (lit ''two sort parameters''))"

definition predicate_application ::
    "(sort \<Rightarrow> sort \<Rightarrow> pattern \<Rightarrow> pattern \<Rightarrow> pattern) \<Rightarrow> symbol \<Rightarrow> pattern list \<Rightarrow> nat \<Rightarrow> binary_fault + pattern" where
  "predicate_application build symb arguments offset =
     (case sort_parameters symb of
        [s, t] \<Rightarrow>
          and_then (expect_arity arguments 2 offset (symbol_name symb)) (\<lambda>_.
          and_then (two_arguments_of arguments) (\<lambda>(p, q). Inr (build s t p q)))
      | _ \<Rightarrow> malformed_application offset (symbol_name symb) (lit ''two sort parameters''))"

definition associative_application ::
    "associativity \<Rightarrow> symbol \<Rightarrow> pattern list \<Rightarrow> nat \<Rightarrow> binary_fault + pattern" where
  "associative_application a symb arguments offset =
     and_then (expect_sort_arity (sort_parameters symb) 0 offset (symbol_name symb)) (\<lambda>_.
     and_then (expect_arity arguments 1 offset (symbol_name symb)) (\<lambda>_.
     and_then (one_argument_of arguments) (\<lambda>p.
       case p of
         PApplication inner operands \<Rightarrow> Inr (PAssociative a inner operands)
       | _ \<Rightarrow> malformed_application offset (symbol_name symb) (lit ''one symbol application''))))"

definition application :: "symbol \<Rightarrow> block list \<Rightarrow> nat \<Rightarrow> binary_fault + pattern" where
  "application symb blocks offset =
     (let name = symbol_name symb in
      if name = ml ''dv'' then domain_value_application symb blocks offset
      else
        and_then (collect_results (term_argument offset name) blocks) (\<lambda>arguments.
          if name = ml ''equals'' \<and> sort_parameters symb = [] then Inr (PApplication symb arguments)
          else if name = ml ''top'' then constant_application PTop symb arguments offset
          else if name = ml ''bottom'' then constant_application PBottom symb arguments offset
          else if name = ml ''and'' then
            and_then (one_sort (sort_parameters symb) offset name) (\<lambda>s. Inr (PAnd s arguments))
          else if name = ml ''or'' then
            and_then (one_sort (sort_parameters symb) offset name) (\<lambda>s. Inr (POr s arguments))
          else if name = ml ''not'' then unary_application PNot symb arguments offset
          else if name = ml ''next'' then unary_application PNext symb arguments offset
          else if name = ml ''implies'' then binary_application PImplies symb arguments offset
          else if name = ml ''iff'' then binary_application PIff symb arguments offset
          else if name = ml ''rewrites'' then binary_application PRewrites symb arguments offset
          else if name = ml ''exists'' then quantifier_application PExists symb arguments offset
          else if name = ml ''forall'' then quantifier_application PForall symb arguments offset
          else if name = ml ''mu'' then fixpoint_application PMu symb arguments offset
          else if name = ml ''nu'' then fixpoint_application PNu symb arguments offset
          else if name = ml ''ceil'' then round_application PCeil symb arguments offset
          else if name = ml ''floor'' then round_application PFloor symb arguments offset
          else if name = ml ''equals'' then predicate_application PEquals symb arguments offset
          else if name = ml ''in'' then predicate_application PIn symb arguments offset
          else if name = ml ''left-assoc'' then associative_application LeftAssoc symb arguments offset
          else if name = ml ''right-assoc'' then associative_application RightAssoc symb arguments offset
          else Inr (PApplication symb arguments)))"

section \<open>The machine\<close>

definition composite_pattern :: "nat \<Rightarrow> decoder \<Rightarrow> binary_fault + decoder" where
  "composite_pattern offset st =
     (case de_stack st of
        [] \<Rightarrow> bin_error offset (lit ''application has no symbol'')
      | BSymbol symb # rest \<Rightarrow>
          and_then (de_length 2 (st\<lparr>de_stack := rest\<rparr>)) (\<lambda>(arity, st1).
          and_then (de_pop arity offset st1) (\<lambda>(arguments, st2).
          and_then (application symb arguments offset) (\<lambda>p.
            Inr (de_push (BPattern p) st2))))
      | other # _ \<Rightarrow>
          bin_error offset (lit ''expected symbol before application, found '' @ block_kind other))"

text \<open>A sort or a symbol: an arity, a name and that many sorts from the stack.\<close>

definition named_with_sorts :: "(str \<Rightarrow> sort list \<Rightarrow> block) \<Rightarrow> nat \<Rightarrow> decoder \<Rightarrow> binary_fault + decoder" where
  "named_with_sorts build offset st =
     and_then (de_length 2 st) (\<lambda>(arity, st1).
     and_then (de_identifier st1) (\<lambda>(name, st2).
     and_then (de_pop_sorts arity offset st2) (\<lambda>(sorts, st3).
       Inr (de_push (build name sorts) st3))))"

definition kind_of_name :: "str \<Rightarrow> variable_kind" where
  "kind_of_name name = (case name of c # _ \<Rightarrow> if c = ch CHR ''@'' then SetVar else Element | [] \<Rightarrow> Element)"

definition de_variable :: "nat \<Rightarrow> decoder \<Rightarrow> binary_fault + decoder" where
  "de_variable offset st =
     and_then (de_identifier st) (\<lambda>(name, st1).
     and_then (de_pop_sorts 1 offset st1) (\<lambda>(sorts, st2).
       if sorts = [] then Inl BinPanic
       else Inr (de_push (BPattern (PVariable
         \<lparr>var_kind = kind_of_name name, var_name = name, var_sort = last sorts\<rparr>)) st2)))"

text \<open>One iteration of \<open>decode_block\<close>.\<close>

definition de_step :: "decoder \<Rightarrow> binary_fault + decoder" where
  "de_step st =
     (let offset = de_cursor st in
      and_then (de_byte st) (\<lambda>(tag, st1).
        if tag = COMPOSITE_PATTERN then composite_pattern offset st1
        else if tag = STRING_PATTERN then
          and_then (de_raw_string st1) (\<lambda>(v, st2). Inr (de_push (BString v) st2))
        else if tag = COMPOSITE_SORT then
          named_with_sorts (\<lambda>name sorts. BSort (SortApplication name sorts)) offset st1
        else if tag = SORT_VARIABLE then
          and_then (de_identifier st1) (\<lambda>(name, st2). Inr (de_push (BSort (SortVariable name)) st2))
        else if tag = SYMBOL then
          named_with_sorts (\<lambda>name sorts. BSymbol \<lparr>symbol_name = name, sort_parameters = sorts\<rparr>) offset st1
        else if tag = VARIABLE_PATTERN then Inr st1
        else if tag = VARIABLE then de_variable offset st1
        else bin_error offset (lit ''invalid block tag 0x'' @ hex_pad 2 (unat tag))))"

text \<open>Every operation only moves the cursor forward.\<close>

definition advances :: "decoder \<Rightarrow> decoder \<Rightarrow> bool" where
  "advances st st' \<longleftrightarrow>
     de_input st' = de_input st \<and> de_end st' = de_end st \<and> de_version st' = de_version st
     \<and> de_cursor st \<le> de_cursor st' \<and> (de_cursor st \<le> de_end st \<longrightarrow> de_cursor st' \<le> de_end st')"

lemma advances_refl [simp]: "advances st st"
  by (simp add: advances_def)

lemma advances_trans [trans]: "advances a b \<Longrightarrow> advances b c \<Longrightarrow> advances a c"
  by (auto simp: advances_def)

lemma advances_stack [simp]:
  "advances st (st'\<lparr>de_stack := s\<rparr>) = advances st st'" "advances (st\<lparr>de_stack := s\<rparr>) st' = advances st st'"
  "advances st (st'\<lparr>de_strings := m\<rparr>) = advances st st'" "advances st (de_push b st') = advances st st'"
  by (simp_all add: advances_def de_push_def)

lemma advances_byte: "de_byte st = Inr (b, st') \<Longrightarrow> advances st st' \<and> de_cursor st < de_cursor st'"
  by (auto simp: de_byte_def advances_def split: if_splits)

lemma advances_bytes: "de_bytes n st = Inr (bs, st') \<Longrightarrow> advances st st'"
  by (auto simp: de_bytes_def advances_def Let_def split: if_splits)

lemma advances_varint: "varint_loop start steps val st = Inr (n, st') \<Longrightarrow> advances st st'"
proof (induction start steps val st rule: varint_loop.induct)
  case (2 start step steps val st)
  then obtain b st1 where b: "de_byte st = Inr (b, st1)" by (auto elim: and_thenE)
  then have "advances st1 st'"
    using 2 by (auto simp: Let_def length_overflows_def split: if_splits)
  then show ?case using advances_byte [OF b] advances_trans by blast
qed simp

lemma advances_length: "de_length w st = Inr (n, st') \<Longrightarrow> advances st st'"
  by (auto simp: de_length_def elim!: and_thenE split: if_splits dest: advances_bytes advances_varint)

lemma advances_raw_string: "de_raw_string st = Inr (v, st') \<Longrightarrow> advances st st'"
  by (auto simp: de_raw_string_def elim!: and_thenE split: if_splits option.splits
      dest!: advances_byte advances_length advances_bytes) (auto simp: advances_def)

lemma advances_identifier: "de_identifier st = Inr (s, st') \<Longrightarrow> advances st st'"
  by (auto simp: de_identifier_def elim!: and_thenE split: sum.splits dest: advances_raw_string)

lemma advances_pop: "de_pop n offset st = Inr (bs, st') \<Longrightarrow> advances st st'"
  by (auto simp: de_pop_def split: if_splits)

lemma advances_pop_sorts: "de_pop_sorts n offset st = Inr (ss, st') \<Longrightarrow> advances st st'"
  by (auto simp: de_pop_sorts_def elim!: and_thenE dest: advances_pop)

lemma advances_composite: "composite_pattern offset st = Inr st' \<Longrightarrow> advances st st'"
  by (auto simp: composite_pattern_def elim!: and_thenE split: list.splits block.splits
      dest!: advances_length advances_pop intro: advances_trans)

lemma advances_named: "named_with_sorts build offset st = Inr st' \<Longrightarrow> advances st st'"
  by (auto simp: named_with_sorts_def elim!: and_thenE
      dest!: advances_length advances_identifier advances_pop_sorts intro: advances_trans)

lemma advances_variable: "de_variable offset st = Inr st' \<Longrightarrow> advances st st'"
  by (auto simp: de_variable_def elim!: and_thenE split: if_splits
      dest!: advances_identifier advances_pop_sorts) (auto intro: advances_trans)

lemma advances_step:
  assumes "de_step st = Inr st'"
  shows "advances st st' \<and> de_cursor st < de_cursor st'"
proof -
  obtain tag st1 where b: "de_byte st = Inr (tag, st1)"
    using assms by (auto simp: de_step_def Let_def elim: and_thenE)
  then have "advances st1 st'"
    using assms by (auto simp: de_step_def Let_def split: if_splits elim!: and_thenE
        dest: advances_composite advances_raw_string advances_named advances_identifier advances_variable)
  then show ?thesis using advances_byte [OF b] by (auto simp: advances_def)
qed

function de_loop :: "decoder \<Rightarrow> binary_fault + block list" where
  "de_loop st =
     (if de_cursor st < de_end st then and_then (de_step st) de_loop else Inr (List.rev (de_stack st)))"
  by pat_completeness auto
termination
  by (relation "measure (\<lambda>st. de_end st - de_cursor st)") (auto dest!: advances_step simp: advances_def)

declare de_loop.simps [simp del]

definition decode_block :: "byte list \<Rightarrow> binary_fault + block list" where
  "decode_block input = and_then (new_decoder input) de_loop"

definition expect_pattern :: "block option \<Rightarrow> nat \<Rightarrow> str \<Rightarrow> binary_fault + pattern" where
  "expect_pattern b offset expected =
     (case b of
        Some (BPattern p) \<Rightarrow> Inr p
      | Some other \<Rightarrow> bin_error offset (lit ''expected '' @ expected @ lit '', found '' @ block_kind other)
      | None \<Rightarrow> bin_error offset (lit ''expected '' @ expected))"

definition decode_term :: "byte list \<Rightarrow> binary_fault + pattern" where
  "decode_term input =
     and_then (decode_block input) (\<lambda>roots.
       if length roots \<noteq> 1 then
         bin_error (length input) (lit ''expected one term, found '' @ decimal (length roots) @ lit '' stack values'')
       else
         (case roots of
            [] \<Rightarrow> Inl BinPanic
          | b # _ \<Rightarrow>
              (case b of
                 BPattern p \<Rightarrow> Inr p
               | _ \<Rightarrow> bin_error (length input) (lit ''expected a term, found '' @ block_kind b))))"

record constrained_pattern =
  cp_term :: pattern
  cp_constraints :: "pattern list"

definition decode_pattern :: "byte list \<Rightarrow> binary_fault + constrained_pattern" where
  "decode_pattern input =
     and_then (decode_block input) (\<lambda>roots.
     and_then (expect_pattern (case roots of [] \<Rightarrow> None | b # _ \<Rightarrow> Some b) (length input) (lit ''a term'')) (\<lambda>t.
     and_then (collect_results (\<lambda>b. expect_pattern (Some b) (length input) (lit ''a constraint'')) (tl roots)) (\<lambda>cs.
       Inr \<lparr>cp_term = t, cp_constraints = cs\<rparr>)))"

section \<open>Writing\<close>

function enc_varint :: "nat \<Rightarrow> byte list \<Rightarrow> byte list" where
  "enc_varint val out =
     (let b = byte_of (val mod 128); rest = val div 128 in
      if rest = 0 then out @ [b] else enc_varint rest (out @ [b OR 0x80]))"
  by pat_completeness auto
termination
  by (relation "measure fst") (auto simp: div_eq_0_iff)

declare enc_varint.simps [simp del]

definition enc_length :: "version \<Rightarrow> nat \<Rightarrow> nat \<Rightarrow> byte list \<Rightarrow> binary_fault + byte list" where
  "enc_length v val fixed_width out =
     (if uses_fixed_lengths v then
        (if val > (if fixed_width \<ge> 8 then 2 ^ 64 - 1 else 2 ^ (fixed_width * 8) - 1) then
           bin_error (length out) (lit ''length '' @ decimal val @ lit '' does not fit ''
             @ decimal fixed_width @ lit '' bytes'')
         else Inr (out @ map (\<lambda>shift. byte_of (val div 2 ^ (shift * 8) mod 256)) (List.rev [0..<fixed_width])))
      else Inr (enc_varint val out))"

definition enc_raw_bytes :: "version \<Rightarrow> byte list \<Rightarrow> byte list \<Rightarrow> binary_fault + byte list" where
  "enc_raw_bytes v bs out =
     and_then (enc_length v (length bs) 4 (out @ [0x01])) (\<lambda>out. Inr (out @ bs))"

definition enc_identifier :: "version \<Rightarrow> str \<Rightarrow> byte list \<Rightarrow> binary_fault + byte list" where
  "enc_identifier v name out = enc_raw_bytes v (str_bytes name) out"

datatype enc_sort_task = ESort sort | ESortFinish str nat

fun enc_sort_weight :: "sort \<Rightarrow> nat" where
  "enc_sort_weight (SortVariable _) = 1"
| "enc_sort_weight (SortApplication _ ss) = 2 + sum_list (map enc_sort_weight ss)"

fun enc_sort_task_weight :: "enc_sort_task \<Rightarrow> nat" where
  "enc_sort_task_weight (ESort s) = enc_sort_weight s"
| "enc_sort_task_weight (ESortFinish _ _) = 1"

lemma enc_sort_weight_pos: "0 < enc_sort_weight s"
  by (cases s) auto

function enc_sort_loop :: "version \<Rightarrow> enc_sort_task list \<Rightarrow> byte list \<Rightarrow> binary_fault + byte list" where
  "enc_sort_loop v [] out = Inr out"
| "enc_sort_loop v (ESort (SortVariable name) # tasks) out =
     and_then (enc_identifier v name (out @ [SORT_VARIABLE])) (enc_sort_loop v tasks)"
| "enc_sort_loop v (ESort (SortApplication name arguments) # tasks) out =
     enc_sort_loop v (map ESort arguments @ ESortFinish name (length arguments) # tasks) out"
| "enc_sort_loop v (ESortFinish name count # tasks) out =
     and_then (enc_length v count 2 (out @ [COMPOSITE_SORT])) (\<lambda>out.
     and_then (enc_identifier v name out) (enc_sort_loop v tasks))"
  by pat_completeness auto
termination
  by (relation "measure (\<lambda>(_, tasks, _). sum_list (map enc_sort_task_weight tasks))")
    (auto simp: comp_def enc_sort_weight_pos)

definition enc_sort :: "version \<Rightarrow> sort \<Rightarrow> byte list \<Rightarrow> binary_fault + byte list" where
  "enc_sort v s out = enc_sort_loop v [ESort s] out"

text \<open>A loop over items that each write.\<close>

fun enc_each :: "('a \<Rightarrow> byte list \<Rightarrow> binary_fault + byte list) \<Rightarrow> 'a list \<Rightarrow> byte list \<Rightarrow> binary_fault + byte list" where
  "enc_each f [] out = Inr out"
| "enc_each f (x # xs) out = and_then (f x out) (enc_each f xs)"

definition enc_symbol :: "version \<Rightarrow> str \<Rightarrow> sort list \<Rightarrow> byte list \<Rightarrow> binary_fault + byte list" where
  "enc_symbol v name sorts out =
     and_then (enc_each (enc_sort v) sorts out) (\<lambda>out.
     and_then (enc_length v (length sorts) 2 (out @ [SYMBOL])) (enc_identifier v name))"

definition finish_application ::
    "version \<Rightarrow> str \<Rightarrow> sort list \<Rightarrow> nat \<Rightarrow> byte list \<Rightarrow> binary_fault + byte list" where
  "finish_application v name sorts arity out =
     and_then (enc_symbol v name sorts out) (\<lambda>out. enc_length v arity 2 (out @ [COMPOSITE_PATTERN]))"

definition enc_variable :: "version \<Rightarrow> variable \<Rightarrow> byte list \<Rightarrow> binary_fault + byte list" where
  "enc_variable v x out =
     and_then (enc_sort v (var_sort x) out) (\<lambda>out.
       enc_identifier v (var_name x) (out @ [VARIABLE_PATTERN] @ [VARIABLE]))"

definition enc_string :: "version \<Rightarrow> kore_string \<Rightarrow> byte list \<Rightarrow> binary_fault + byte list" where
  "enc_string v val out = enc_raw_bytes v val (out @ [STRING_PATTERN])"

datatype enc_task = EPattern pattern | EVariable variable | EFinish pattern

text \<open>The tasks of a node's children, in the order they are popped; none for the leaves.\<close>

fun enc_children :: "pattern \<Rightarrow> enc_task list" where
  "enc_children (PApplication _ args) = map EPattern args"
| "enc_children (PAnd _ args) = map EPattern args"
| "enc_children (POr _ args) = map EPattern args"
| "enc_children (PAssociative _ _ args) = map EPattern args"
| "enc_children (PNot _ p) = [EPattern p]"
| "enc_children (PNext _ p) = [EPattern p]"
| "enc_children (PCeil _ _ p) = [EPattern p]"
| "enc_children (PFloor _ _ p) = [EPattern p]"
| "enc_children (PImplies _ l r) = [EPattern l, EPattern r]"
| "enc_children (PIff _ l r) = [EPattern l, EPattern r]"
| "enc_children (PRewrites _ l r) = [EPattern l, EPattern r]"
| "enc_children (PEquals _ _ l r) = [EPattern l, EPattern r]"
| "enc_children (PIn _ _ l r) = [EPattern l, EPattern r]"
| "enc_children (PExists _ x p) = [EVariable x, EPattern p]"
| "enc_children (PForall _ x p) = [EVariable x, EPattern p]"
| "enc_children (PMu x p) = [EVariable x, EPattern p]"
| "enc_children (PNu x p) = [EVariable x, EPattern p]"
| "enc_children _ = []"

fun enc_finish :: "version \<Rightarrow> pattern \<Rightarrow> byte list \<Rightarrow> binary_fault + byte list" where
  "enc_finish v (PApplication symb args) out =
     finish_application v (symbol_name symb) (sort_parameters symb) (length args) out"
| "enc_finish v (PTop s) out = finish_application v (ml ''top'') [s] 0 out"
| "enc_finish v (PBottom s) out = finish_application v (ml ''bottom'') [s] 0 out"
| "enc_finish v (PAnd s args) out = finish_application v (ml ''and'') [s] (length args) out"
| "enc_finish v (POr s args) out = finish_application v (ml ''or'') [s] (length args) out"
| "enc_finish v (PNot s p) out = finish_application v (ml ''not'') [s] 1 out"
| "enc_finish v (PNext s p) out = finish_application v (ml ''next'') [s] 1 out"
| "enc_finish v (PImplies s l r) out = finish_application v (ml ''implies'') [s] 2 out"
| "enc_finish v (PIff s l r) out = finish_application v (ml ''iff'') [s] 2 out"
| "enc_finish v (PRewrites s l r) out = finish_application v (ml ''rewrites'') [s] 2 out"
| "enc_finish v (PExists s x p) out = finish_application v (ml ''exists'') [s] 2 out"
| "enc_finish v (PForall s x p) out = finish_application v (ml ''forall'') [s] 2 out"
| "enc_finish v (PMu x p) out = finish_application v (ml ''mu'') [] 2 out"
| "enc_finish v (PNu x p) out = finish_application v (ml ''nu'') [] 2 out"
| "enc_finish v (PCeil s t p) out = finish_application v (ml ''ceil'') [s, t] 1 out"
| "enc_finish v (PFloor s t p) out = finish_application v (ml ''floor'') [s, t] 1 out"
| "enc_finish v (PEquals s t l r) out = finish_application v (ml ''equals'') [s, t] 2 out"
| "enc_finish v (PIn s t l r) out = finish_application v (ml ''in'') [s, t] 2 out"
| "enc_finish v (PAssociative a symb args) out =
     and_then (finish_application v (symbol_name symb) (sort_parameters symb) (length args) out)
       (finish_application v (case a of LeftAssoc \<Rightarrow> ml ''left-assoc'' | RightAssoc \<Rightarrow> ml ''right-assoc'') [] 1)"
| "enc_finish v _ out = Inl BinPanic"

fun enc_weight :: "pattern \<Rightarrow> nat" where
  "enc_weight (PApplication _ args) = 2 + sum_list (map enc_weight args)"
| "enc_weight (PAnd _ args) = 2 + sum_list (map enc_weight args)"
| "enc_weight (POr _ args) = 2 + sum_list (map enc_weight args)"
| "enc_weight (PAssociative _ _ args) = 2 + sum_list (map enc_weight args)"
| "enc_weight (PNot _ p) = 2 + enc_weight p"
| "enc_weight (PNext _ p) = 2 + enc_weight p"
| "enc_weight (PCeil _ _ p) = 2 + enc_weight p"
| "enc_weight (PFloor _ _ p) = 2 + enc_weight p"
| "enc_weight (PImplies _ l r) = 2 + enc_weight l + enc_weight r"
| "enc_weight (PIff _ l r) = 2 + enc_weight l + enc_weight r"
| "enc_weight (PRewrites _ l r) = 2 + enc_weight l + enc_weight r"
| "enc_weight (PEquals _ _ l r) = 2 + enc_weight l + enc_weight r"
| "enc_weight (PIn _ _ l r) = 2 + enc_weight l + enc_weight r"
| "enc_weight (PExists _ x p) = 3 + enc_weight p"
| "enc_weight (PForall _ x p) = 3 + enc_weight p"
| "enc_weight (PMu x p) = 3 + enc_weight p"
| "enc_weight (PNu x p) = 3 + enc_weight p"
| "enc_weight _ = 2"

fun enc_task_weight :: "enc_task \<Rightarrow> nat" where
  "enc_task_weight (EPattern p) = enc_weight p"
| "enc_task_weight (EVariable x) = 1"
| "enc_task_weight (EFinish p) = 1"

text \<open>One task of the loop: what it writes, and the tasks it leaves on the stack.\<close>

fun enc_task_step ::
    "version \<Rightarrow> enc_task \<Rightarrow> byte list \<Rightarrow> enc_task list \<Rightarrow> binary_fault + (byte list \<times> enc_task list)" where
  "enc_task_step v (EVariable x) out tasks = and_then (enc_variable v x out) (\<lambda>out. Inr (out, tasks))"
| "enc_task_step v (EPattern (PString val)) out tasks = and_then (enc_string v val out) (\<lambda>out. Inr (out, tasks))"
| "enc_task_step v (EPattern (PVariable x)) out tasks = Inr (out, EVariable x # tasks)"
| "enc_task_step v (EPattern (PDomainValue s val)) out tasks =
     and_then (enc_string v val out) (\<lambda>out.
     and_then (finish_application v (ml ''dv'') [s] 1 out) (\<lambda>out. Inr (out, tasks)))"
| "enc_task_step v (EPattern node) out tasks = Inr (out, enc_children node @ EFinish node # tasks)"
| "enc_task_step v (EFinish node) out tasks = and_then (enc_finish v node out) (\<lambda>out. Inr (out, tasks))"

lemma enc_task_step_weight:
  "enc_task_step v t out tasks = Inr (out', tasks') \<Longrightarrow>
   sum_list (map enc_task_weight tasks') < sum_list (map enc_task_weight (t # tasks))"
proof (cases t)
  case (EPattern p)
  moreover assume "enc_task_step v t out tasks = Inr (out', tasks')"
  ultimately show ?thesis by (cases p) (auto simp: comp_def elim!: and_thenE)
qed (auto elim!: and_thenE)

function enc_loop :: "version \<Rightarrow> enc_task list \<Rightarrow> byte list \<Rightarrow> binary_fault + byte list" where
  "enc_loop v tasks out =
     (case tasks of
        [] \<Rightarrow> Inr out
      | t # rest \<Rightarrow> and_then (enc_task_step v t out rest) (\<lambda>(out', tasks'). enc_loop v tasks' out'))"
  by pat_completeness auto
termination
  by (relation "measure (\<lambda>(_, tasks, _). sum_list (map enc_task_weight tasks))")
    (auto dest: enc_task_step_weight)

declare enc_loop.simps [simp del]

definition enc_pattern :: "version \<Rightarrow> pattern \<Rightarrow> byte list \<Rightarrow> binary_fault + byte list" where
  "enc_pattern v p out = enc_loop v [EPattern p] out"

definition encode_roots :: "pattern list \<Rightarrow> version \<Rightarrow> binary_fault + byte list" where
  "encode_roots roots v =
     (if \<not> is_supported v then bin_error 0 (unsupported v)
      else
        and_then (enc_each (enc_pattern v) roots []) (\<lambda>payload.
          let header = MAGIC @ le_bytes 2 (unat (ver_major v)) @ le_bytes 2 (unat (ver_minor v))
            @ le_bytes 2 (unat (ver_patch v))
          in if has_payload_length v then
               (if length payload \<ge> 2 ^ 64 then bin_error 0 (lit ''binary KORE payload is too large'')
                else Inr (header @ le_bytes 8 (length payload) @ payload))
             else Inr (header @ payload)))"

definition encode_term_with_version :: "pattern \<Rightarrow> version \<Rightarrow> binary_fault + byte list" where
  "encode_term_with_version t v = encode_roots [t] v"

definition encode_term :: "pattern \<Rightarrow> binary_fault + byte list" where
  "encode_term t = encode_term_with_version t LATEST"

definition encode_pattern_with_version :: "constrained_pattern \<Rightarrow> version \<Rightarrow> binary_fault + byte list" where
  "encode_pattern_with_version p v = encode_roots (cp_term p # cp_constraints p) v"

definition encode_pattern :: "constrained_pattern \<Rightarrow> binary_fault + byte list" where
  "encode_pattern p = encode_pattern_with_version p LATEST"

end
