(* ===== verification/Kore_Binary_Roundtrip.thy ===== *)
theory Kore_Binary_Roundtrip
  imports Kore_Binary
begin

text \<open>
  What the encoder writes the decoder reads. \<open>runs v pre seg post\<close> says that the bytes \<open>seg\<close> take
  the decoder from a stack with the blocks \<open>pre\<close> on top to one with \<open>post\<close> in their place;
  \<open>writes\<close> says that an encoding function appends such bytes. Both compose, as the loops do.
\<close>

section \<open>Integers\<close>

lemma length_le_bytes [simp]: "length (le_bytes k n) = k"
  by (induction k n rule: le_bytes.induct) auto

lemma le_value_le_bytes: "le_value (le_bytes k n) = n mod 256 ^ k"
proof (induction k n rule: le_bytes.induct)
  case (2 k n)
  have "n mod (256 * 256 ^ k) = 256 * (n div 256 mod 256 ^ k) + n mod 256"
    by (rule mod_mult2_eq)
  then show ?case using 2 by simp
qed simp

lemma le_value_less: "le_value bs < 256 ^ length bs"
proof (induction bs)
  case (Cons b bs)
  have "unat b < 256" by simp
  then have "unat b + 256 * le_value bs < 256 * (le_value bs + 1)" by simp
  also have "\<dots> \<le> 256 * 256 ^ length bs" using Cons by (intro mult_le_mono2) simp
  finally show ?case by simp
qed simp

section \<open>Positions\<close>

definition good :: "decoder \<Rightarrow> bool" where
  "good st \<longleftrightarrow> de_end st = length (de_input st) \<and> de_cursor st \<le> de_end st \<and> de_end st < 2 ^ 63"

definition sees :: "decoder \<Rightarrow> byte list \<Rightarrow> bool" where
  "sees st seg \<longleftrightarrow> good st \<and> (\<exists>rest. drop (de_cursor st) (de_input st) = seg @ rest)"

definition skip :: "nat \<Rightarrow> decoder \<Rightarrow> decoder" where
  "skip n st = st\<lparr>de_cursor := de_cursor st + n\<rparr>"

lemma skip_simps [simp]:
  "de_cursor (skip n st) = de_cursor st + n" "de_input (skip n st) = de_input st"
  "de_end (skip n st) = de_end st" "de_version (skip n st) = de_version st"
  "de_strings (skip n st) = de_strings st" "de_stack (skip n st) = de_stack st"
  "skip n (skip m st) = skip (m + n) st" "skip 0 st = st"
  "skip n (st\<lparr>de_stack := s\<rparr>) = (skip n st)\<lparr>de_stack := s\<rparr>"
  "skip n (st\<lparr>de_strings := m'\<rparr>) = (skip n st)\<lparr>de_strings := m'\<rparr>"
  by (simp_all add: skip_def)

lemma sees_length: "sees st seg \<Longrightarrow> de_cursor st + length seg \<le> length (de_input st)"
  by (auto simp: sees_def good_def dest!: arg_cong [of _ _ length])

lemma sees_stack [simp]: "sees (st\<lparr>de_stack := s\<rparr>) = sees st" "sees (st\<lparr>de_strings := m\<rparr>) = sees st"
  by (simp_all add: sees_def good_def fun_eq_iff)

lemma sees_append: "sees st (a @ b) \<Longrightarrow> sees st a \<and> sees (skip (length a) st) b"
proof -
  assume s: "sees st (a @ b)"
  then obtain rest where r: "drop (de_cursor st) (de_input st) = a @ b @ rest" by (auto simp: sees_def)
  then have "drop (de_cursor st + length a) (de_input st) = b @ rest"
    by (metis add.commute append_eq_conv_conj drop_drop)
  then show ?thesis
    using s r sees_length [OF s] by (auto simp: sees_def good_def)
qed

lemma sees_Cons: "sees st (b # bs) \<Longrightarrow> sees st [b] \<and> sees (skip 1 st) bs"
  using sees_append [of st "[b]" bs] by simp

lemma sees_byte: "sees st [b] \<Longrightarrow> de_byte st = Inr (b, skip 1 st)"
proof -
  assume s: "sees st [b]"
  then obtain rest where "drop (de_cursor st) (de_input st) = b # rest" by (auto simp: sees_def)
  then have "de_input st ! de_cursor st = b" "de_cursor st < length (de_input st)"
    by (metis hd_drop_conv_nth drop_eq_Nil linorder_not_less list.distinct(1) list.sel(1),
        metis drop_eq_Nil linorder_not_less list.distinct(1))
  then show ?thesis using s by (simp add: de_byte_def sees_def good_def skip_def)
qed

lemma sees_bytes: "sees st bs \<Longrightarrow> de_bytes (length bs) st = Inr (bs, skip (length bs) st)"
  using sees_length [of st bs] by (auto simp: de_bytes_def sees_def good_def skip_def Let_def)

section \<open>Lengths\<close>

lemma fixed_value_digits:
  "n < 2 ^ 56 \<Longrightarrow> w \<le> 7 \<Longrightarrow>
   fixed_value offset (n div 2 ^ (w * 8)) (map (\<lambda>i. byte_of (n div 2 ^ (i * 8) mod 256)) (List.rev [0..<w])) = Inr n"
proof (induction w)
  case (Suc w)
  have e: "n div 2 ^ (Suc w * 8) = n div 2 ^ (w * 8) div 256"
  proof -
    have "(2::nat) ^ (Suc w * 8) = 2 ^ (w * 8) * 256" by (simp add: power_add)
    then show ?thesis by (simp only: div_mult2_eq)
  qed
  have "n div 2 ^ (w * 8) \<le> n" by (rule div_le_dividend)
  then have "n div 2 ^ (w * 8) < 2 ^ 56" using Suc.prems by linarith
  moreover have "n div 2 ^ (w * 8) div 256 * 256 + n div 2 ^ (w * 8) mod 256 = n div 2 ^ (w * 8)"
    by (rule div_mult_mod_eq)
  ultimately show ?case using Suc unfolding e by (simp add: Let_def)
qed simp

lemma low_bits:
  assumes "n < 128"
  shows "unat (byte_of n AND 0x7F) = n" "byte_of n AND 0x80 = 0"
    "unat ((byte_of n OR 0x80) AND 0x7F) = n" "(byte_of n OR 0x80) AND 0x80 \<noteq> 0"
proof -
  have m: "(0x7F :: byte) = mask 7" by (simp add: mask_eq_exp_minus_1)
  have u: "unat (byte_of n AND 0x7F) = n"
    using assms by (simp add: m take_bit_eq_mask [symmetric] unsigned_take_bit_eq take_bit_nat_eq_self)
  then have b: "byte_of n AND 0x7F = byte_of n" using assms by (simp add: byte_of_def word_unat_eq_iff unat_of_nat take_bit_nat_eq_self)
  have "byte_of n AND 0x80 = (byte_of n AND 0x7F) AND 0x80" by (simp only: b)
  also have "\<dots> = byte_of n AND (0x7F AND 0x80)" by (rule and.assoc)
  finally show z: "byte_of n AND 0x80 = 0" by simp
  show "unat (byte_of n AND 0x7F) = n" by (rule u)
  show "unat ((byte_of n OR 0x80) AND 0x7F) = n" using u by (simp add: word_ao_dist)
  show "(byte_of n OR 0x80) AND 0x80 \<noteq> 0" by (simp add: word_ao_dist z)
qed

lemma enc_varint_appends: "\<exists>seg. enc_varint n out = out @ seg \<and> seg \<noteq> []"
proof (induction n out rule: enc_varint.induct)
  case (1 n out)
  then show ?case by (subst enc_varint.simps) (fastforce simp: Let_def)
qed

text \<open>The value of a field whose bytes the encoder wrote, from a step on.\<close>

lemma varint_read:
  "enc_varint n out = out @ seg \<Longrightarrow> sees st seg \<Longrightarrow> n < 2 ^ (7 * (9 - k)) \<Longrightarrow> k < 9 \<Longrightarrow> acc < 2 ^ (7 * k) \<Longrightarrow>
   varint_loop start [k..<9] acc st = Inr (acc + n * 2 ^ (7 * k), skip (length seg) st)"
proof (induction n out arbitrary: seg st k acc rule: enc_varint.induct)
  case (1 n out)
  let ?c = "n mod 128"
  have k: "[k..<9] = k # [Suc k..<9]" using 1(5) by (simp add: upt_conv_Cons)
  have k8: "7 * k \<le> 56" using 1(5) by simp
  have p: "(2::nat) ^ (7 * k) \<le> 2 ^ 56" by (rule power_increasing [OF k8]) simp
  have c: "?c * 2 ^ (7 * k) < 2 ^ 63"
  proof -
    have "?c * 2 ^ (7 * k) < 128 * 2 ^ (7 * k)" by (rule mult_strict_right_mono) simp_all
    also have "\<dots> \<le> 128 * 2 ^ 56" using p by simp
    finally show ?thesis by simp
  qed
  have a: "acc < 2 ^ 56" using p 1(6) by linarith
  have s: "?c * 2 ^ (7 * k) mod 2 ^ 64 = ?c * 2 ^ (7 * k)" using c by simp
  have no: "\<not> acc + ?c * 2 ^ (7 * k) \<ge> 2 ^ 64" using c a by simp
  note low = low_bits [of ?c, simplified]
  show ?case
  proof (cases "n div 128 = 0")
    case True
    then have seg: "seg = [byte_of ?c]" and n: "?c = n"
      using 1(2) by (simp_all add: enc_varint.simps [of n] Let_def)
    then show ?thesis
      using sees_byte [of st "byte_of ?c"] 1(3) s no low k8 by (simp add: k Let_def)
  next
    case False
    obtain seg' where e: "enc_varint (n div 128) (out @ [byte_of ?c OR 0x80]) = (out @ [byte_of ?c OR 0x80]) @ seg'"
      using enc_varint_appends by blast
    then have seg: "seg = (byte_of ?c OR 0x80) # seg'"
      using 1(2) False by (simp add: enc_varint.simps [of n] Let_def)
    have sees: "sees st [byte_of ?c OR 0x80]" "sees (skip 1 st) seg'"
      using 1(3) sees_Cons by (auto simp: seg)
    have nd: "n div 128 < 2 ^ (7 * (9 - Suc k))"
    proof -
      have "7 * (9 - k) = 7 + 7 * (9 - Suc k)" using 1(5) by simp
      then have "n < 128 * 2 ^ (7 * (9 - Suc k))" using 1(4) by (simp add: power_add)
      then show ?thesis by (simp add: less_mult_imp_div_less mult.commute)
    qed
    then have "Suc k < 9" using False by (cases "Suc k < 9") auto
    moreover have "acc + ?c * 2 ^ (7 * k) < 2 ^ (7 * Suc k)"
    proof -
      have "acc + ?c * 2 ^ (7 * k) < 2 ^ (7 * k) + 127 * 2 ^ (7 * k)"
        using 1(6) by (intro add_less_le_mono mult_right_mono) simp_all
      also have "\<dots> = 2 ^ (7 * Suc k)" by (simp add: power_add)
      finally show ?thesis .
    qed
    ultimately have "varint_loop start [Suc k..<9] (acc + ?c * 2 ^ (7 * k)) (skip 1 st)
        = Inr (acc + ?c * 2 ^ (7 * k) + n div 128 * 2 ^ (7 * Suc k), skip (length seg') (skip 1 st))"
      using 1(1) [OF refl refl False e sees(2) nd] by simp
    moreover have "?c * 2 ^ (7 * k) + n div 128 * 2 ^ (7 * Suc k) = n * 2 ^ (7 * k)"
    proof -
      have "(2::nat) ^ (7 * Suc k) = 128 * 2 ^ (7 * k)" by (simp add: power_add)
      then have "?c * 2 ^ (7 * k) + n div 128 * 2 ^ (7 * Suc k) = (?c + n div 128 * 128) * 2 ^ (7 * k)"
        by (simp only: distrib_right mult.assoc)
      then show ?thesis by (simp only: mod_div_mult_eq)
    qed
    ultimately show ?thesis
      using sees_byte [OF sees(1)] s no low k8 by (simp add: k Let_def seg add.assoc)
  qed
qed

text \<open>A field of width two or four.\<close>

lemma length_read:
  assumes "enc_length v n w out = Inr out'" and "w \<le> 4"
  shows "\<exists>seg. out' = out @ seg \<and> (n < 2 ^ 63 \<longrightarrow>
    (\<forall>st. de_version st = v \<longrightarrow> sees st seg \<longrightarrow> de_length w st = Inr (n, skip (length seg) st)))"
proof (cases "uses_fixed_lengths v")
  case True
  let ?seg = "map (\<lambda>i. byte_of (n div 2 ^ (i * 8) mod 256)) (List.rev [0..<w])"
  have "n \<le> 2 ^ (w * 8) - 1" and o: "out' = out @ ?seg"
    using assms True by (auto simp: enc_length_def split: if_splits)
  moreover have "0 < (2::nat) ^ (w * 8)" by simp
  ultimately have n: "n < 2 ^ (w * 8)" by linarith
  also have "\<dots> \<le> (2::nat) ^ 56" using assms(2) by (intro power_increasing) simp_all
  finally have b: "n < 2 ^ 56" .
  have "de_length w st = Inr (n, skip (length ?seg) st)" if "de_version st = v" "sees st ?seg" for st
    using sees_bytes [OF that(2)] fixed_value_digits [of n w "de_cursor st + w"] b n assms(2) that(1) True
    by (simp add: de_length_def)
  then show ?thesis using o by blast
next
  case False
  then have o: "out' = enc_varint n out" using assms by (simp add: enc_length_def)
  obtain seg where s: "enc_varint n out = out @ seg" using enc_varint_appends by blast
  have "de_length w st = Inr (n, skip (length seg) st)" if "de_version st = v" "sees st seg" "n < 2 ^ 63" for st
    using varint_read [OF s that(2), of 0 0 "de_cursor st"] that False by (simp add: de_length_def)
  then show ?thesis using o s by blast
qed

section \<open>Bytes that change the stack\<close>

definition runs :: "version \<Rightarrow> block list \<Rightarrow> byte list \<Rightarrow> block list \<Rightarrow> bool" where
  "runs v pre seg post \<longleftrightarrow>
     (\<forall>st base. de_version st = v \<longrightarrow> sees st seg \<longrightarrow> de_stack st = List.rev pre @ base \<longrightarrow>
       (\<exists>strs. de_loop st = de_loop ((skip (length seg) st)\<lparr>de_strings := strs, de_stack := List.rev post @ base\<rparr>)))"

lemma runs_append:
  assumes "runs v a s b" and "runs v b t c"
  shows "runs v a (s @ t) c"
  unfolding runs_def
proof (intro allI impI)
  fix st :: decoder and base
  assume st: "de_version st = v" "sees st (s @ t)" "de_stack st = List.rev a @ base"
  then obtain strs where
    s: "de_loop st = de_loop ((skip (length s) st)\<lparr>de_strings := strs, de_stack := List.rev b @ base\<rparr>)"
    using assms(1) sees_append unfolding runs_def by blast
  let ?st = "(skip (length s) st)\<lparr>de_strings := strs, de_stack := List.rev b @ base\<rparr>"
  have "de_version ?st = v" "sees ?st t" "de_stack ?st = List.rev b @ base"
    using st sees_append [of st s t] by simp_all
  then obtain strs' where
    "de_loop ?st = de_loop ((skip (length t) ?st)\<lparr>de_strings := strs', de_stack := List.rev c @ base\<rparr>)"
    using assms(2) unfolding runs_def by blast
  then show "\<exists>strs. de_loop st
      = de_loop ((skip (length (s @ t)) st)\<lparr>de_strings := strs, de_stack := List.rev c @ base\<rparr>)"
    using s by auto
qed

lemma runs_frame: "runs v a s b \<Longrightarrow> runs v (x @ a) s (x @ b)"
  by (simp add: runs_def)

lemma runs_Nil: "runs v a [] a"
  unfolding runs_def
proof (intro allI impI)
  fix st :: decoder and base
  assume "de_stack st = List.rev a @ base"
  then have "(skip 0 st)\<lparr>de_strings := de_strings st, de_stack := List.rev a @ base\<rparr> = st" by simp
  then show "\<exists>strs. de_loop st
      = de_loop ((skip (length []) st)\<lparr>de_strings := strs, de_stack := List.rev a @ base\<rparr>)"
    by (metis list.size(3))
qed

lemma runs_step:
  assumes "\<And>st base. de_version st = v \<Longrightarrow> sees st seg \<Longrightarrow> de_stack st = List.rev pre @ base \<Longrightarrow>
      \<exists>strs. de_step st = Inr ((skip (length seg) st)\<lparr>de_strings := strs, de_stack := List.rev post @ base\<rparr>)"
    and "seg \<noteq> []"
  shows "runs v pre seg post"
  unfolding runs_def
proof (intro allI impI)
  fix st :: decoder and base
  assume st: "de_version st = v" "sees st seg" "de_stack st = List.rev pre @ base"
  then obtain strs where
    "de_step st = Inr ((skip (length seg) st)\<lparr>de_strings := strs, de_stack := List.rev post @ base\<rparr>)"
    using assms(1) by blast
  moreover have "de_cursor st < de_end st"
    using sees_length [OF st(2)] st(2) assms(2) by (cases seg) (auto simp: sees_def good_def)
  ultimately show "\<exists>strs. de_loop st
      = de_loop ((skip (length seg) st)\<lparr>de_strings := strs, de_stack := List.rev post @ base\<rparr>)"
    by (auto simp: de_loop.simps [of st])
qed

definition writes ::
    "version \<Rightarrow> (byte list \<Rightarrow> binary_fault + byte list) \<Rightarrow> block list \<Rightarrow> block list \<Rightarrow> bool" where
  "writes v f pre post \<longleftrightarrow>
     (\<forall>out out'. f out = Inr out' \<longrightarrow>
       (\<exists>seg. out' = out @ seg \<and> length out + length post \<le> length out' + length pre
         \<and> (length pre \<le> length out \<longrightarrow> length out' < 2 ^ 63 \<longrightarrow> runs v pre seg post)))"

lemma writes_seq:
  assumes "writes v f a b" and "writes v g b c"
  shows "writes v (\<lambda>out. and_then (f out) g) a c"
  unfolding writes_def
proof (intro allI impI)
  fix out out'
  assume "and_then (f out) g = Inr out'"
  then obtain out1 where e: "f out = Inr out1" "g out1 = Inr out'" by (rule and_thenE)
  then obtain s t where s: "out1 = out @ s" "length out + length b \<le> length out1 + length a"
      "length a \<le> length out \<longrightarrow> length out1 < 2 ^ 63 \<longrightarrow> runs v a s b"
    and t: "out' = out1 @ t" "length out1 + length c \<le> length out' + length b"
      "length b \<le> length out1 \<longrightarrow> length out' < 2 ^ 63 \<longrightarrow> runs v b t c"
    using assms unfolding writes_def by meson
  have "runs v a (s @ t) c" if "length a \<le> length out" "length out' < 2 ^ 63"
    using that s t by (intro runs_append [of v a s b]) auto
  then show "\<exists>seg. out' = out @ seg \<and> length out + length c \<le> length out' + length a
      \<and> (length a \<le> length out \<longrightarrow> length out' < 2 ^ 63 \<longrightarrow> runs v a seg c)"
    using s(1,2) t(1,2) by (intro exI [of _ "s @ t"]) auto
qed

lemma writes_frame: "writes v f a b \<Longrightarrow> writes v f (x @ a) (x @ b)"
  unfolding writes_def
proof (intro allI impI)
  fix out out'
  assume "\<forall>out out'. f out = Inr out' \<longrightarrow>
       (\<exists>seg. out' = out @ seg \<and> length out + length b \<le> length out' + length a
         \<and> (length a \<le> length out \<longrightarrow> length out' < 2 ^ 63 \<longrightarrow> runs v a seg b))"
    and "f out = Inr out'"
  then obtain seg where "out' = out @ seg" "length out + length b \<le> length out' + length a"
    "length a \<le> length out \<longrightarrow> length out' < 2 ^ 63 \<longrightarrow> runs v a seg b" by blast
  then show "\<exists>seg. out' = out @ seg \<and> length out + length (x @ b) \<le> length out' + length (x @ a)
      \<and> (length (x @ a) \<le> length out \<longrightarrow> length out' < 2 ^ 63 \<longrightarrow> runs v (x @ a) seg (x @ b))"
    by (intro exI [of _ seg]) (simp add: runs_frame)
qed

lemma writes_Nil: "writes v Inr a a"
  by (auto simp: writes_def runs_Nil)

lemma writes_each:
  assumes "\<And>x. x \<in> set xs \<Longrightarrow> writes v (f x) [] [g x]"
  shows "writes v (enc_each f xs) [] (map g xs)"
  using assms
proof (induction xs)
  case Nil
  then show ?case using writes_Nil by (simp add: writes_def)
next
  case (Cons x xs)
  have "writes v (enc_each f xs) ([g x] @ []) ([g x] @ map g xs)"
    using Cons by (intro writes_frame) simp
  then show ?case
    using writes_seq [OF Cons.prems [of x]] by simp
qed

section \<open>Strings and names\<close>

lemma raw_bytes_read:
  assumes "enc_raw_bytes v bs out = Inr out'"
  shows "\<exists>seg. out' = out @ seg \<and> seg \<noteq> [] \<and> length bs \<le> length seg \<and> (length bs < 2 ^ 63 \<longrightarrow>
    (\<forall>st. de_version st = v \<longrightarrow> sees st seg \<longrightarrow>
      (\<exists>strs. de_raw_string st = Inr (bs, (skip (length seg) st)\<lparr>de_strings := strs\<rparr>))))"
proof -
  obtain out1 where e: "enc_length v (length bs) 4 (out @ [0x01]) = Inr out1" "out' = out1 @ bs"
    using assms by (auto simp: enc_raw_bytes_def elim: and_thenE)
  obtain l where l: "out1 = (out @ [0x01]) @ l" "length bs < 2 ^ 63 \<longrightarrow>
      (\<forall>st. de_version st = v \<longrightarrow> sees st l \<longrightarrow> de_length 4 st = Inr (length bs, skip (length l) st))"
    using length_read [OF e(1)] by auto
  have "\<exists>strs. de_raw_string st = Inr (bs, (skip (length (1 # l @ bs)) st)\<lparr>de_strings := strs\<rparr>)"
    if "length bs < 2 ^ 63" "de_version st = v" "sees st (1 # l @ bs)" for st
  proof -
    have s: "sees st [1]" "sees (skip 1 st) l" "sees (skip (1 + length l) st) bs"
      using sees_Cons [OF that(3)] sees_append [of "skip 1 st" l bs] by auto
    show ?thesis
      using sees_byte [OF s(1)] l(2) that s(2) sees_bytes [OF s(3)]
      by (auto simp: de_raw_string_def add.assoc)
  qed
  then show ?thesis using e(2) l(1) by (intro exI [of _ "1 # l @ bs"]) auto
qed

lemma identifier_read:
  assumes "enc_identifier v name out = Inr out'" and "valid_str name"
  shows "\<exists>seg. out' = out @ seg \<and> seg \<noteq> [] \<and> (length out' < 2 ^ 63 \<longrightarrow>
    (\<forall>st. de_version st = v \<longrightarrow> sees st seg \<longrightarrow>
      (\<exists>strs. de_identifier st = Inr (name, (skip (length seg) st)\<lparr>de_strings := strs\<rparr>))))"
proof -
  obtain seg where "out' = out @ seg" "seg \<noteq> []" "length (str_bytes name) \<le> length seg"
    and r: "length (str_bytes name) < 2 ^ 63 \<longrightarrow> (\<forall>st. de_version st = v \<longrightarrow> sees st seg \<longrightarrow>
      (\<exists>strs. de_raw_string st = Inr (str_bytes name, (skip (length seg) st)\<lparr>de_strings := strs\<rparr>)))"
    using raw_bytes_read [of v "str_bytes name" out out'] assms(1) unfolding enc_identifier_def by blast
  moreover have "\<exists>strs. de_identifier st = Inr (name, (skip (length seg) st)\<lparr>de_strings := strs\<rparr>)"
    if s: "de_version st = v" "sees st seg" "length out' < 2 ^ 63" for st
  proof -
    have "length (str_bytes name) < 2 ^ 63" using s(3) calculation(1,3) by simp
    then obtain strs where "de_raw_string st = Inr (str_bytes name, (skip (length seg) st)\<lparr>de_strings := strs\<rparr>)"
      using r s by blast
    then show ?thesis using assms(2) by (auto simp: de_identifier_def)
  qed
  ultimately show ?thesis by blast
qed

lemma writes_string: "writes v (enc_string v val) [] [BString val]"
  unfolding writes_def
proof (intro allI impI)
  fix out out'
  assume "enc_string v val out = Inr out'"
  then obtain seg where s: "out' = (out @ [STRING_PATTERN]) @ seg" "length val \<le> length seg"
    and r: "length val < 2 ^ 63 \<longrightarrow> (\<forall>st. de_version st = v \<longrightarrow> sees st seg \<longrightarrow>
      (\<exists>strs. de_raw_string st = Inr (val, (skip (length seg) st)\<lparr>de_strings := strs\<rparr>)))"
    using raw_bytes_read [of v val "out @ [STRING_PATTERN]" out'] unfolding enc_string_def by blast
  have "runs v [] (STRING_PATTERN # seg) [BString val]" if "length out' < 2 ^ 63"
  proof (rule runs_step)
    fix st :: decoder and base
    assume st: "de_version st = v" "sees st (STRING_PATTERN # seg)" "de_stack st = List.rev [] @ base"
    have len: "length val < 2 ^ 63" using that s by simp
    have sees: "sees st [STRING_PATTERN]" "sees (skip 1 st) seg" using sees_Cons [OF st(2)] by auto
    obtain strs where "de_raw_string (skip 1 st) = Inr (val, (skip (length seg) (skip 1 st))\<lparr>de_strings := strs\<rparr>)"
      using r [rule_format, OF len, of "skip 1 st"] st(1) sees(2) by auto
    then show "\<exists>strs. de_step st = Inr ((skip (length (STRING_PATTERN # seg)) st)
        \<lparr>de_strings := strs, de_stack := List.rev [BString val] @ base\<rparr>)"
      using st(3) sees_byte [OF sees(1)] by (auto simp: de_step_def Let_def tag_defs de_push_def)
  qed simp
  then show "\<exists>seg. out' = out @ seg \<and> length out + length [BString val] \<le> length out' + length []
      \<and> (length [] \<le> length out \<longrightarrow> length out' < 2 ^ 63 \<longrightarrow> runs v [] seg [BString val])"
    using s by (intro exI [of _ "STRING_PATTERN # seg"]) simp
qed

section \<open>Sorts\<close>

lemma writes_sort_variable:
  assumes "valid_str name"
  shows "writes v (\<lambda>out. enc_identifier v name (out @ [SORT_VARIABLE])) [] [BSort (SortVariable name)]"
  unfolding writes_def
proof (intro allI impI)
  fix out out'
  assume "enc_identifier v name (out @ [SORT_VARIABLE]) = Inr out'"
  then obtain seg where s: "out' = (out @ [SORT_VARIABLE]) @ seg"
    and r: "length out' < 2 ^ 63 \<longrightarrow> (\<forall>st. de_version st = v \<longrightarrow> sees st seg \<longrightarrow>
      (\<exists>strs. de_identifier st = Inr (name, (skip (length seg) st)\<lparr>de_strings := strs\<rparr>)))"
    using identifier_read [OF _ assms] by blast
  have "runs v [] (SORT_VARIABLE # seg) [BSort (SortVariable name)]" if len: "length out' < 2 ^ 63"
  proof (rule runs_step)
    fix st :: decoder and base
    assume st: "de_version st = v" "sees st (SORT_VARIABLE # seg)" "de_stack st = List.rev [] @ base"
    have sees: "sees st [SORT_VARIABLE]" "sees (skip 1 st) seg" using sees_Cons [OF st(2)] by auto
    obtain strs where "de_identifier (skip 1 st) = Inr (name, (skip (length seg) (skip 1 st))\<lparr>de_strings := strs\<rparr>)"
      using r [rule_format, OF len, of "skip 1 st"] st(1) sees(2) by auto
    then show "\<exists>strs. de_step st = Inr ((skip (length (SORT_VARIABLE # seg)) st)
        \<lparr>de_strings := strs, de_stack := List.rev [BSort (SortVariable name)] @ base\<rparr>)"
      using st(3) sees_byte [OF sees(1)] by (auto simp: de_step_def Let_def tag_defs de_push_def)
  qed simp
  then show "\<exists>seg. out' = out @ seg
      \<and> length out + length [BSort (SortVariable name)] \<le> length out' + length []
      \<and> (length [] \<le> length out \<longrightarrow> length out' < 2 ^ 63 \<longrightarrow> runs v [] seg [BSort (SortVariable name)])"
    using s by (intro exI [of _ "SORT_VARIABLE # seg"]) simp
qed

lemma pop_sorts:
  "de_stack st = List.rev (map BSort ss) @ base \<Longrightarrow>
   de_pop_sorts (length ss) offset st = Inr (ss, st\<lparr>de_stack := base\<rparr>)"
proof -
  assume "de_stack st = List.rev (map BSort ss) @ base"
  moreover have "collect_results (\<lambda>b. case b of BSort s \<Rightarrow> Inr s
      | _ \<Rightarrow> bin_error offset (lit ''expected sort, found '' @ block_kind b)) (map BSort ss) = Inr ss"
    by (induction ss) auto
  ultimately show ?thesis by (simp add: de_pop_sorts_def de_pop_def)
qed

text \<open>The record of a name over the sorts before it, of a sort or of a symbol.\<close>

lemma writes_named:
  assumes "valid_str name"
    and "\<And>st offset b. de_byte st = Inr (tag, b) \<Longrightarrow> de_step st = named_with_sorts build (de_cursor st) b"
  shows "writes v (\<lambda>out. and_then (enc_length v (length ss) 2 (out @ [tag])) (enc_identifier v name))
    (map BSort ss) [build name ss]"
  unfolding writes_def
proof (intro allI impI)
  fix out out'
  assume "and_then (enc_length v (length ss) 2 (out @ [tag])) (enc_identifier v name) = Inr out'"
  then obtain out1 where e: "enc_length v (length ss) 2 (out @ [tag]) = Inr out1"
    "enc_identifier v name out1 = Inr out'" by (rule and_thenE)
  obtain l where l: "out1 = (out @ [tag]) @ l" "length ss < 2 ^ 63 \<longrightarrow>
      (\<forall>st. de_version st = v \<longrightarrow> sees st l \<longrightarrow> de_length 2 st = Inr (length ss, skip (length l) st))"
    using length_read [OF e(1)] by auto
  obtain seg where s: "out' = out1 @ seg"
    and r: "length out' < 2 ^ 63 \<longrightarrow> (\<forall>st. de_version st = v \<longrightarrow> sees st seg \<longrightarrow>
      (\<exists>strs. de_identifier st = Inr (name, (skip (length seg) st)\<lparr>de_strings := strs\<rparr>)))"
    using identifier_read [OF e(2) assms(1)] by blast
  have "runs v (map BSort ss) (tag # l @ seg) [build name ss]"
    if len: "length (map BSort ss) \<le> length out" "length out' < 2 ^ 63"
  proof (rule runs_step)
    fix st :: decoder and base
    assume st: "de_version st = v" "sees st (tag # l @ seg)" "de_stack st = List.rev (map BSort ss) @ base"
    have sees: "sees st [tag]" "sees (skip 1 st) l" "sees (skip (1 + length l) st) seg"
      using sees_Cons [OF st(2)] sees_append [of "skip 1 st" l seg] by auto
    have "length ss < 2 ^ 63" using len s l by simp
    then have dl: "de_length 2 (skip 1 st) = Inr (length ss, skip (1 + length l) st)"
      using l(2) sees(2) st(1) by simp
    obtain strs where di: "de_identifier (skip (1 + length l) st)
        = Inr (name, (skip (1 + length l + length seg) st)\<lparr>de_strings := strs\<rparr>)"
      using r [rule_format, OF len(2), of "skip (1 + length l) st"] sees(3) st(1) by auto
    show "\<exists>strs. de_step st = Inr ((skip (length (tag # l @ seg)) st)
        \<lparr>de_strings := strs, de_stack := List.rev [build name ss] @ base\<rparr>)"
      using assms(2) [OF sees_byte [OF sees(1)]] dl di st(3)
      by (auto simp: named_with_sorts_def pop_sorts de_push_def)
  qed simp
  then show "\<exists>seg. out' = out @ seg \<and> length out + length [build name ss] \<le> length out' + length (map BSort ss)
      \<and> (length (map BSort ss) \<le> length out \<longrightarrow> length out' < 2 ^ 63 \<longrightarrow> runs v (map BSort ss) seg [build name ss])"
    using s l(1) by (intro exI [of _ "tag # l @ seg"]) simp
qed

lemma enc_sort_loop_append:
  "enc_sort_loop v (ts @ us) out = and_then (enc_sort_loop v ts out) (enc_sort_loop v us)"
proof (induction v ts out arbitrary: us rule: enc_sort_loop.induct)
  case (2 v name tasks out)
  then show ?case by (cases "enc_identifier v name (out @ [SORT_VARIABLE])") auto
next
  case (4 v name count tasks out)
  show ?case
  proof (cases "enc_length v count 2 (out @ [COMPOSITE_SORT])")
    case (Inr out1)
    then show ?thesis using 4 by (cases "enc_identifier v name out1") auto
  qed simp
qed auto

lemma writes_cong: "writes v f a b \<Longrightarrow> (\<And>out. f out = g out) \<Longrightarrow> writes v g a b"
  by (simp add: writes_def)

lemma writes_sort: "valid_sort s \<Longrightarrow> writes v (enc_sort v s) [] [BSort s]"
proof (induction s rule: enc_sort_weight.induct)
  case (1 name)
  have e: "and_then (enc_identifier v name (out @ [SORT_VARIABLE])) (enc_sort_loop v [])
      = enc_identifier v name (out @ [SORT_VARIABLE])" for out
    by (cases "enc_identifier v name (out @ [SORT_VARIABLE])") auto
  show ?case
    using 1 by (intro writes_cong [OF writes_sort_variable]) (simp_all add: enc_sort_def e)
next
  case (2 name ss)
  have loop: "enc_sort_loop v (map ESort xs) out = enc_each (enc_sort v) xs out" for xs out
  proof (induction xs arbitrary: out)
    case (Cons x xs)
    then show ?case
      using enc_sort_loop_append [of v "[ESort x]" "map ESort xs" out]
      by (cases "enc_sort v x out") (auto simp: enc_sort_def)
  qed simp
  have n: "and_then (enc_identifier v name out) (enc_sort_loop v []) = enc_identifier v name out" for out
    by (cases "enc_identifier v name out") auto
  have f: "enc_sort_loop v [ESortFinish name (length ss)] out
      = and_then (enc_length v (length ss) 2 (out @ [COMPOSITE_SORT])) (enc_identifier v name)" for out
    by (cases "enc_length v (length ss) 2 (out @ [COMPOSITE_SORT])") (auto simp: n)
  have "writes v (enc_each (enc_sort v) ss) [] (map BSort ss)"
    using 2 by (intro writes_each) auto
  moreover have "writes v (\<lambda>out. and_then (enc_length v (length ss) 2 (out @ [COMPOSITE_SORT])) (enc_identifier v name))
      (map BSort ss) [BSort (SortApplication name ss)]"
    using 2(2) by (intro writes_named) (auto simp: de_step_def Let_def tag_defs)
  ultimately have "writes v (\<lambda>out. and_then (enc_each (enc_sort v) ss out)
      (\<lambda>out. and_then (enc_length v (length ss) 2 (out @ [COMPOSITE_SORT])) (enc_identifier v name)))
      [] [BSort (SortApplication name ss)]"
    by (rule writes_seq)
  then show ?case
    by (rule writes_cong)
      (simp add: enc_sort_def loop [symmetric] f [symmetric] enc_sort_loop_append del: enc_sort_loop.simps(4))
qed

section \<open>Symbols, applications and variables\<close>

definition valid_symbol :: "symbol \<Rightarrow> bool" where
  "valid_symbol symb \<longleftrightarrow> valid_str (symbol_name symb) \<and> (\<forall>s \<in> set (sort_parameters symb). valid_sort s)"

lemma writes_symbol:
  assumes "valid_str name" and "\<forall>s \<in> set ss. valid_sort s"
  shows "writes v (enc_symbol v name ss) [] [BSymbol \<lparr>symbol_name = name, sort_parameters = ss\<rparr>]"
proof -
  have "writes v (enc_each (enc_sort v) ss) [] (map BSort ss)"
    using assms(2) by (intro writes_each writes_sort) auto
  moreover have "writes v (\<lambda>out. and_then (enc_length v (length ss) 2 (out @ [SYMBOL])) (enc_identifier v name))
      (map BSort ss) [BSymbol \<lparr>symbol_name = name, sort_parameters = ss\<rparr>]"
    using assms(1)
    by (intro writes_named [where build = "\<lambda>name sorts. BSymbol \<lparr>symbol_name = name, sort_parameters = sorts\<rparr>"])
      (auto simp: de_step_def Let_def tag_defs)
  ultimately show ?thesis
    unfolding enc_symbol_def by (rule writes_seq)
qed

lemma writes_application:
  assumes "\<And>offset. application symb blocks offset = Inr p"
  shows "writes v (\<lambda>out. enc_length v (length blocks) 2 (out @ [COMPOSITE_PATTERN]))
    (blocks @ [BSymbol symb]) [BPattern p]"
  unfolding writes_def
proof (intro allI impI)
  fix out out'
  assume e: "enc_length v (length blocks) 2 (out @ [COMPOSITE_PATTERN]) = Inr out'"
  obtain l where l: "out' = (out @ [COMPOSITE_PATTERN]) @ l" "length blocks < 2 ^ 63 \<longrightarrow>
      (\<forall>st. de_version st = v \<longrightarrow> sees st l \<longrightarrow> de_length 2 st = Inr (length blocks, skip (length l) st))"
    using length_read [OF e] by auto
  have "runs v (blocks @ [BSymbol symb]) (COMPOSITE_PATTERN # l) [BPattern p]"
    if len: "length (blocks @ [BSymbol symb]) \<le> length out" "length out' < 2 ^ 63"
  proof (rule runs_step)
    fix st :: decoder and base
    assume st: "de_version st = v" "sees st (COMPOSITE_PATTERN # l)"
      "de_stack st = List.rev (blocks @ [BSymbol symb]) @ base"
    have sees: "sees st [COMPOSITE_PATTERN]" "sees (skip 1 st) l" using sees_Cons [OF st(2)] by auto
    have "length blocks < 2 ^ 63" using len l(1) by simp
    then have "de_length 2 ((skip 1 st)\<lparr>de_stack := List.rev blocks @ base\<rparr>)
        = Inr (length blocks, (skip (1 + length l) st)\<lparr>de_stack := List.rev blocks @ base\<rparr>)"
      using l(2) sees(2) st(1) by simp
    then have "de_step st = Inr ((skip (length (COMPOSITE_PATTERN # l)) st)\<lparr>de_stack := BPattern p # base\<rparr>)"
      using sees_byte [OF sees(1)] st(3) assms
      by (simp add: de_step_def Let_def composite_pattern_def de_pop_def de_push_def)
    then have "de_step st = Inr ((skip (length (COMPOSITE_PATTERN # l)) st)
        \<lparr>de_strings := de_strings st, de_stack := List.rev [BPattern p] @ base\<rparr>)"
      by (simp add: skip_def)
    then show "\<exists>strs. de_step st = Inr ((skip (length (COMPOSITE_PATTERN # l)) st)
        \<lparr>de_strings := strs, de_stack := List.rev [BPattern p] @ base\<rparr>)" by blast
  qed simp
  then show "\<exists>seg. out' = out @ seg
      \<and> length out + length [BPattern p] \<le> length out' + length (blocks @ [BSymbol symb])
      \<and> (length (blocks @ [BSymbol symb]) \<le> length out \<longrightarrow> length out' < 2 ^ 63 \<longrightarrow>
           runs v (blocks @ [BSymbol symb]) seg [BPattern p])"
    using l(1) by (intro exI [of _ "COMPOSITE_PATTERN # l"]) simp
qed

lemma writes_finish:
  assumes "\<And>offset. application \<lparr>symbol_name = name, sort_parameters = ss\<rparr> blocks offset = Inr p"
    and "valid_str name" and "\<forall>s \<in> set ss. valid_sort s"
  shows "writes v (finish_application v name ss (length blocks)) blocks [BPattern p]"
proof -
  have "writes v (enc_symbol v name ss) (blocks @ []) (blocks @ [BSymbol \<lparr>symbol_name = name, sort_parameters = ss\<rparr>])"
    by (rule writes_frame [OF writes_symbol [OF assms(2,3)]])
  then show ?thesis
    unfolding finish_application_def using writes_seq [OF _ writes_application [OF assms(1)]] by simp
qed

definition valid_variable :: "variable \<Rightarrow> bool" where
  "valid_variable x \<longleftrightarrow> valid_str (var_name x) \<and> valid_sort (var_sort x) \<and> var_kind x = kind_of_name (var_name x)"

lemma writes_variable_record:
  assumes "valid_str (var_name x)" and "var_kind x = kind_of_name (var_name x)"
  shows "writes v (\<lambda>out. enc_identifier v (var_name x) (out @ [VARIABLE_PATTERN] @ [VARIABLE]))
    [BSort (var_sort x)] [BPattern (PVariable x)]"
  unfolding writes_def
proof (intro allI impI)
  fix out out'
  assume "enc_identifier v (var_name x) (out @ [VARIABLE_PATTERN] @ [VARIABLE]) = Inr out'"
  then obtain seg where s: "out' = (out @ [VARIABLE_PATTERN] @ [VARIABLE]) @ seg"
    and r: "length out' < 2 ^ 63 \<longrightarrow> (\<forall>st. de_version st = v \<longrightarrow> sees st seg \<longrightarrow>
      (\<exists>strs. de_identifier st = Inr (var_name x, (skip (length seg) st)\<lparr>de_strings := strs\<rparr>)))"
    using identifier_read [OF _ assms(1)] by blast
  have m: "runs v [BSort (var_sort x)] [VARIABLE_PATTERN] [BSort (var_sort x)]"
  proof (rule runs_step)
    fix st :: decoder and base
    assume "de_version st = v" "sees st [VARIABLE_PATTERN]" and s: "de_stack st = List.rev [BSort (var_sort x)] @ base"
    then have "de_step st = Inr (skip 1 st)" using sees_byte by (simp add: de_step_def Let_def tag_defs)
    then have "de_step st = Inr ((skip (length [VARIABLE_PATTERN]) st)
        \<lparr>de_strings := de_strings st, de_stack := List.rev [BSort (var_sort x)] @ base\<rparr>)"
      using s by (simp add: skip_def)
    then show "\<exists>strs. de_step st = Inr ((skip (length [VARIABLE_PATTERN]) st)
        \<lparr>de_strings := strs, de_stack := List.rev [BSort (var_sort x)] @ base\<rparr>)" by blast
  qed simp
  have "runs v [BSort (var_sort x)] (VARIABLE # seg) [BPattern (PVariable x)]" if len: "length out' < 2 ^ 63"
  proof (rule runs_step)
    fix st :: decoder and base
    assume st: "de_version st = v" "sees st (VARIABLE # seg)" "de_stack st = List.rev [BSort (var_sort x)] @ base"
    have sees: "sees st [VARIABLE]" "sees (skip 1 st) seg" using sees_Cons [OF st(2)] by auto
    obtain strs where d: "de_identifier (skip 1 st)
        = Inr (var_name x, (skip (length seg) (skip 1 st))\<lparr>de_strings := strs\<rparr>)"
      using r [rule_format, OF len, of "skip 1 st"] st(1) sees(2) by auto
    then have "de_step st = Inr ((skip (length (VARIABLE # seg)) st)
        \<lparr>de_strings := strs, de_stack := List.rev [BPattern (PVariable x)] @ base\<rparr>)"
      using st(3) sees_byte [OF sees(1)] assms(2)
      by (simp add: de_step_def Let_def tag_defs de_variable_def de_push_def de_pop_sorts_def de_pop_def)
    then show "\<exists>strs. de_step st = Inr ((skip (length (VARIABLE # seg)) st)
        \<lparr>de_strings := strs, de_stack := List.rev [BPattern (PVariable x)] @ base\<rparr>)" by blast
  qed simp
  then show "\<exists>seg. out' = out @ seg
      \<and> length out + length [BPattern (PVariable x)] \<le> length out' + length [BSort (var_sort x)]
      \<and> (length [BSort (var_sort x)] \<le> length out \<longrightarrow> length out' < 2 ^ 63 \<longrightarrow>
           runs v [BSort (var_sort x)] seg [BPattern (PVariable x)])"
    using s runs_append [OF m] by (intro exI [of _ "VARIABLE_PATTERN # VARIABLE # seg"]) auto
qed

lemma writes_variable: "valid_variable x \<Longrightarrow> writes v (enc_variable v x) [] [BPattern (PVariable x)]"
  unfolding enc_variable_def valid_variable_def
  by (intro writes_seq [OF writes_sort writes_variable_record]) auto

section \<open>Patterns\<close>

text \<open>The names that the decoder reads as connectives.\<close>

definition connective_names :: "str list" where
  "connective_names =
     [ml ''dv'', ml ''top'', ml ''bottom'', ml ''and'', ml ''or'', ml ''not'', ml ''next'', ml ''implies'', ml ''iff'',
      ml ''rewrites'', ml ''exists'', ml ''forall'', ml ''mu'', ml ''nu'', ml ''ceil'', ml ''floor'', ml ''equals'',
      ml ''in'', ml ''left-assoc'', ml ''right-assoc'']"

definition plain_symbol :: "symbol \<Rightarrow> bool" where
  "plain_symbol symb \<longleftrightarrow> valid_symbol symb
     \<and> (symbol_name symb \<notin> set connective_names \<or> symb = \<lparr>symbol_name = ml ''equals'', sort_parameters = []\<rparr>)"

text \<open>The patterns that binary KORE represents.\<close>

fun bin_pattern :: "pattern \<Rightarrow> bool" where
  "bin_pattern (PString v) \<longleftrightarrow> True"
| "bin_pattern (PVariable x) \<longleftrightarrow> valid_variable x"
| "bin_pattern (PApplication symb args) \<longleftrightarrow> plain_symbol symb \<and> (\<forall>p \<in> set args. bin_pattern p)"
| "bin_pattern (PTop s) \<longleftrightarrow> valid_sort s"
| "bin_pattern (PBottom s) \<longleftrightarrow> valid_sort s"
| "bin_pattern (PAnd s args) \<longleftrightarrow> valid_sort s \<and> (\<forall>p \<in> set args. bin_pattern p)"
| "bin_pattern (POr s args) \<longleftrightarrow> valid_sort s \<and> (\<forall>p \<in> set args. bin_pattern p)"
| "bin_pattern (PNot s p) \<longleftrightarrow> valid_sort s \<and> bin_pattern p"
| "bin_pattern (PNext s p) \<longleftrightarrow> valid_sort s \<and> bin_pattern p"
| "bin_pattern (PImplies s l r) \<longleftrightarrow> valid_sort s \<and> bin_pattern l \<and> bin_pattern r"
| "bin_pattern (PIff s l r) \<longleftrightarrow> valid_sort s \<and> bin_pattern l \<and> bin_pattern r"
| "bin_pattern (PRewrites s l r) \<longleftrightarrow> valid_sort s \<and> bin_pattern l \<and> bin_pattern r"
| "bin_pattern (PExists s x p) \<longleftrightarrow> valid_sort s \<and> var_kind x = Element \<and> valid_variable x \<and> bin_pattern p"
| "bin_pattern (PForall s x p) \<longleftrightarrow> valid_sort s \<and> var_kind x = Element \<and> valid_variable x \<and> bin_pattern p"
| "bin_pattern (PMu x p) \<longleftrightarrow> var_kind x = SetVar \<and> valid_variable x \<and> bin_pattern p"
| "bin_pattern (PNu x p) \<longleftrightarrow> var_kind x = SetVar \<and> valid_variable x \<and> bin_pattern p"
| "bin_pattern (PCeil s t p) \<longleftrightarrow> valid_sort s \<and> valid_sort t \<and> bin_pattern p"
| "bin_pattern (PFloor s t p) \<longleftrightarrow> valid_sort s \<and> valid_sort t \<and> bin_pattern p"
| "bin_pattern (PEquals s t l r) \<longleftrightarrow> valid_sort s \<and> valid_sort t \<and> bin_pattern l \<and> bin_pattern r"
| "bin_pattern (PIn s t l r) \<longleftrightarrow> valid_sort s \<and> valid_sort t \<and> bin_pattern l \<and> bin_pattern r"
| "bin_pattern (PDomainValue s v) \<longleftrightarrow> valid_sort s \<and> canonical v (of_domain_value s) = v"
| "bin_pattern (PAssociative a symb args) \<longleftrightarrow> plain_symbol symb \<and> (\<forall>p \<in> set args. bin_pattern p)"

definition block_of :: "pattern \<Rightarrow> block" where
  "block_of p = (case p of PString v \<Rightarrow> BString v | _ \<Rightarrow> BPattern p)"

lemma term_argument_block_of: "term_argument offset name (block_of p) = Inr p"
  by (cases p) (simp_all add: term_argument_def block_of_def)

lemma term_arguments_block_of: "collect_results (term_argument offset name) (map block_of ps) = Inr ps"
  by (induction ps) (simp_all add: term_argument_block_of)

lemma application_plain:
  "plain_symbol symb \<Longrightarrow> application symb (map block_of ps) offset = Inr (PApplication symb ps)"
  unfolding plain_symbol_def connective_names_def application_def
  by (cases symb) (auto simp: Let_def term_arguments_block_of)

lemma application_lists:
  "application \<lparr>symbol_name = ml ''and'', sort_parameters = [s]\<rparr> (map block_of ps) offset = Inr (PAnd s ps)"
  "application \<lparr>symbol_name = ml ''or'', sort_parameters = [s]\<rparr> (map block_of ps) offset = Inr (POr s ps)"
  by (simp_all add: application_def Let_def term_arguments_block_of)

lemmas application_defs = application_def constant_application_def unary_application_def
  binary_application_def quantifier_application_def fixpoint_application_def round_application_def
  predicate_application_def associative_application_def domain_value_application_def
  expect_arity_def expect_sort_arity_def Let_def

lemma application_fixed:
  "application \<lparr>symbol_name = ml ''top'', sort_parameters = [s]\<rparr> [] offset = Inr (PTop s)"
  "application \<lparr>symbol_name = ml ''bottom'', sort_parameters = [s]\<rparr> [] offset = Inr (PBottom s)"
  "application \<lparr>symbol_name = ml ''not'', sort_parameters = [s]\<rparr> [block_of p] offset = Inr (PNot s p)"
  "application \<lparr>symbol_name = ml ''next'', sort_parameters = [s]\<rparr> [block_of p] offset = Inr (PNext s p)"
  "application \<lparr>symbol_name = ml ''implies'', sort_parameters = [s]\<rparr> [block_of l, block_of r] offset = Inr (PImplies s l r)"
  "application \<lparr>symbol_name = ml ''iff'', sort_parameters = [s]\<rparr> [block_of l, block_of r] offset = Inr (PIff s l r)"
  "application \<lparr>symbol_name = ml ''rewrites'', sort_parameters = [s]\<rparr> [block_of l, block_of r] offset = Inr (PRewrites s l r)"
  "var_kind x = Element \<Longrightarrow>
   application \<lparr>symbol_name = ml ''exists'', sort_parameters = [s]\<rparr> [BPattern (PVariable x), block_of p] offset = Inr (PExists s x p)"
  "var_kind x = Element \<Longrightarrow>
   application \<lparr>symbol_name = ml ''forall'', sort_parameters = [s]\<rparr> [BPattern (PVariable x), block_of p] offset = Inr (PForall s x p)"
  "var_kind x = SetVar \<Longrightarrow>
   application \<lparr>symbol_name = ml ''mu'', sort_parameters = []\<rparr> [BPattern (PVariable x), block_of p] offset = Inr (PMu x p)"
  "var_kind x = SetVar \<Longrightarrow>
   application \<lparr>symbol_name = ml ''nu'', sort_parameters = []\<rparr> [BPattern (PVariable x), block_of p] offset = Inr (PNu x p)"
  "application \<lparr>symbol_name = ml ''ceil'', sort_parameters = [s, t]\<rparr> [block_of p] offset = Inr (PCeil s t p)"
  "application \<lparr>symbol_name = ml ''floor'', sort_parameters = [s, t]\<rparr> [block_of p] offset = Inr (PFloor s t p)"
  "application \<lparr>symbol_name = ml ''equals'', sort_parameters = [s, t]\<rparr> [block_of l, block_of r] offset = Inr (PEquals s t l r)"
  "application \<lparr>symbol_name = ml ''in'', sort_parameters = [s, t]\<rparr> [block_of l, block_of r] offset = Inr (PIn s t l r)"
  "application \<lparr>symbol_name = ml ''left-assoc'', sort_parameters = []\<rparr> [BPattern (PApplication symb args)] offset
     = Inr (PAssociative LeftAssoc symb args)"
  "application \<lparr>symbol_name = ml ''right-assoc'', sort_parameters = []\<rparr> [BPattern (PApplication symb args)] offset
     = Inr (PAssociative RightAssoc symb args)"
  "application \<lparr>symbol_name = ml ''dv'', sort_parameters = [s]\<rparr> [BString w] offset
     = Inr (PDomainValue s (canonical w (of_domain_value s)))"
  by (simp_all add: application_defs term_argument_block_of) (simp_all add: term_argument_def)

lemma enc_task_step_append:
  "enc_task_step v t out (ts @ us) = and_then (enc_task_step v t out ts) (\<lambda>(out, ts). Inr (out, ts @ us))"
proof (cases t)
  case (EPattern p)
  have c: "and_then (and_then m f) g = and_then m (\<lambda>x. and_then (f x) g)" for m :: "'e + 'x" and f g
    by (cases m) auto
  show ?thesis by (cases p) (simp_all add: EPattern c)
next
  case (EVariable x)
  then show ?thesis by (cases "enc_variable v x out") auto
next
  case (EFinish p)
  then show ?thesis by (cases "enc_finish v p out") auto
qed

lemma enc_loop_append: "enc_loop v (ts @ us) out = and_then (enc_loop v ts out) (enc_loop v us)"
proof (induction v ts out rule: enc_loop.induct)
  case (1 v ts out)
  show ?case
  proof (cases ts)
    case Nil
    then show ?thesis by (simp add: enc_loop.simps [of v "[]"])
  next
    case (Cons t rest)
    show ?thesis
    proof (cases "enc_task_step v t out rest")
      case (Inr q)
      then obtain out' ts' where q: "enc_task_step v t out rest = Inr (out', ts')" by (cases q) auto
      have "enc_loop v (ts' @ us) out' = and_then (enc_loop v ts' out') (enc_loop v us)"
        using "1.IH" [OF Cons q refl] by simp
      then show ?thesis
        by (simp add: Cons q enc_task_step_append enc_loop.simps [of v "t # rest @ us"] enc_loop.simps [of v "t # rest"])
    qed (simp add: Cons enc_task_step_append enc_loop.simps [of v "t # rest @ us"] enc_loop.simps [of v "t # rest"])
  qed
qed

lemma writes_tasks:
  assumes "list_all2 (\<lambda>t b. writes v (enc_loop v [t]) [] [b]) ts bs"
  shows "writes v (enc_loop v ts) [] bs"
  using assms
proof (induction rule: list_all2_induct)
  case Nil
  then show ?case using writes_Nil by (simp add: writes_def enc_loop.simps [of v "[]"])
next
  case (Cons t ts b bs)
  have "writes v (enc_loop v ts) ([b] @ []) ([b] @ bs)" by (rule writes_frame [OF Cons.IH])
  then have "writes v (\<lambda>out. and_then (enc_loop v [t] out) (enc_loop v ts)) [] (b # bs)"
    using writes_seq [OF Cons.hyps(1)] by simp
  then show ?case by (rule writes_cong) (simp add: enc_loop_append [of v "[t]" ts, symmetric])
qed

lemma enc_loop_one:
  "enc_loop v [t] out = and_then (enc_task_step v t out []) (\<lambda>(out, ts). enc_loop v ts out)"
  by (simp add: enc_loop.simps [of v "[t]"])

lemma enc_loop_finish: "enc_loop v [EFinish p] out = enc_finish v p out"
  by (cases "enc_finish v p out") (simp_all add: enc_loop_one enc_loop.simps [of v "[]"])

lemma writes_task_variable: "valid_variable x \<Longrightarrow> writes v (enc_loop v [EVariable x]) [] [BPattern (PVariable x)]"
proof (rule writes_cong [OF writes_variable])
  fix out
  show "enc_variable v x out = enc_loop v [EVariable x] out"
    by (cases "enc_variable v x out") (simp_all add: enc_loop_one enc_loop.simps [of v "[]"])
qed

text \<open>A node that has a finish task: its children, then the finish.\<close>

lemma writes_node:
  assumes "list_all2 (\<lambda>t b. writes v (enc_loop v [t]) [] [b]) (enc_children p) bs"
    and "writes v (enc_finish v p) bs [BPattern p]"
    and "\<And>out. enc_task_step v (EPattern p) out [] = Inr (out, enc_children p @ [EFinish p])"
  shows "writes v (enc_loop v [EPattern p]) [] [BPattern p]"
proof -
  have "writes v (\<lambda>out. and_then (enc_loop v (enc_children p) out) (enc_loop v [EFinish p])) [] [BPattern p]"
    using writes_seq [OF writes_tasks [OF assms(1)] assms(2)] enc_loop_finish [of v p, abs_def] by simp
  then show ?thesis
    by (rule writes_cong) (simp add: enc_loop_one [of v "EPattern p"] assms(3) enc_loop_append)
qed

lemma writes_operands:
  "(\<And>p. p \<in> set ps \<Longrightarrow> writes v (enc_loop v [EPattern p]) [] [block_of p]) \<Longrightarrow>
   list_all2 (\<lambda>t b. writes v (enc_loop v [t]) [] [b]) (map EPattern ps) (map block_of ps)"
  by (simp add: list_all2_conv_all_nth)

lemma valid_connective: "name \<in> set connective_names \<Longrightarrow> valid_str name"
  by (auto simp: connective_names_def is_scalar_def)

lemma writes_connective:
  assumes "\<And>offset. application \<lparr>symbol_name = name, sort_parameters = ss\<rparr> blocks offset = Inr p"
    and "name \<in> set connective_names" and "\<forall>s \<in> set ss. valid_sort s" and "n = length blocks"
  shows "writes v (finish_application v name ss n) blocks [BPattern p]"
  unfolding assms(4) by (rule writes_finish [OF assms(1) valid_connective [OF assms(2)] assms(3)])

lemma writes_plain:
  assumes "plain_symbol symb" and "n = length ps"
  shows "writes v (finish_application v (symbol_name symb) (sort_parameters symb) n) (map block_of ps)
    [BPattern (PApplication symb ps)]"
proof -
  have "writes v (finish_application v (symbol_name symb) (sort_parameters symb) (length (map block_of ps)))
      (map block_of ps) [BPattern (PApplication symb ps)]"
  proof (rule writes_finish)
    show "application \<lparr>symbol_name = symbol_name symb, sort_parameters = sort_parameters symb\<rparr> (map block_of ps) offset
        = Inr (PApplication symb ps)" for offset
      using application_plain [OF assms(1), of ps offset] by (cases symb) simp
  qed (use assms(1) in \<open>auto simp: plain_symbol_def valid_symbol_def is_scalar_def\<close>)
  then show ?thesis using assms(2) by simp
qed

lemma writes_associative:
  assumes "plain_symbol symb"
  shows "writes v (enc_finish v (PAssociative a symb args)) (map block_of args) [BPattern (PAssociative a symb args)]"
proof -
  have "writes v (finish_application v (case a of LeftAssoc \<Rightarrow> ml ''left-assoc'' | RightAssoc \<Rightarrow> ml ''right-assoc'') [] 1)
      [BPattern (PApplication symb args)] [BPattern (PAssociative a symb args)]"
    by (cases a; rule writes_connective; simp add: application_fixed [simplified] connective_names_def)
  from writes_seq [OF writes_plain [OF assms refl, of v args] this]
  show ?thesis by (rule writes_cong) simp
qed

lemma writes_domain_value:
  assumes "valid_sort s" and "canonical w (of_domain_value s) = w"
  shows "writes v (enc_loop v [EPattern (PDomainValue s w)]) [] [BPattern (PDomainValue s w)]"
proof -
  have "writes v (finish_application v (ml ''dv'') [s] 1) [BString w] [BPattern (PDomainValue s w)]"
    using assms by (intro writes_connective) (simp_all add: application_fixed [simplified] connective_names_def)
  from writes_seq [OF writes_string this] show ?thesis
  proof (rule writes_cong)
    fix out
    show "and_then (enc_string v w out) (finish_application v (ml ''dv'') [s] 1)
        = enc_loop v [EPattern (PDomainValue s w)] out"
    proof (cases "enc_string v w out")
      case (Inr out1)
      then show ?thesis
        by (cases "finish_application v (ml ''dv'') [s] 1 out1") (simp_all add: enc_loop_one enc_loop.simps [of v "[]"])
    qed (simp add: enc_loop_one)
  qed
qed

lemma writes_leaf_string: "writes v (enc_loop v [EPattern (PString w)]) [] [BString w]"
proof (rule writes_cong [OF writes_string])
  fix out
  show "enc_string v w out = enc_loop v [EPattern (PString w)] out"
    by (cases "enc_string v w out") (simp_all add: enc_loop_one enc_loop.simps [of v "[]"])
qed

lemma writes_leaf_variable: "valid_variable x \<Longrightarrow> writes v (enc_loop v [EPattern (PVariable x)]) [] [BPattern (PVariable x)]"
  by (rule writes_cong [OF writes_task_variable]) (simp_all add: enc_loop_one [of v "EPattern (PVariable x)"])

lemma block_of_simps [simp]:
  "block_of (PString w) = BString w" "block_of (PVariable x) = BPattern (PVariable x)"
  "block_of (PApplication symb args) = BPattern (PApplication symb args)"
  "block_of (PTop s) = BPattern (PTop s)"
  "block_of (PBottom s) = BPattern (PBottom s)"
  "block_of (PAnd s args) = BPattern (PAnd s args)"
  "block_of (POr s args) = BPattern (POr s args)"
  "block_of (PNot s p) = BPattern (PNot s p)"
  "block_of (PNext s p) = BPattern (PNext s p)"
  "block_of (PImplies s l r) = BPattern (PImplies s l r)"
  "block_of (PIff s l r) = BPattern (PIff s l r)"
  "block_of (PRewrites s l r) = BPattern (PRewrites s l r)"
  "block_of (PExists s x p) = BPattern (PExists s x p)"
  "block_of (PForall s x p) = BPattern (PForall s x p)"
  "block_of (PMu x p) = BPattern (PMu x p)"
  "block_of (PNu x p) = BPattern (PNu x p)"
  "block_of (PCeil s t p) = BPattern (PCeil s t p)"
  "block_of (PFloor s t p) = BPattern (PFloor s t p)"
  "block_of (PEquals s t l r) = BPattern (PEquals s t l r)"
  "block_of (PIn s t l r) = BPattern (PIn s t l r)"
  "block_of (PDomainValue s w) = BPattern (PDomainValue s w)"
  "block_of (PAssociative a symb args) = BPattern (PAssociative a symb args)"
  by (simp_all add: block_of_def)

text \<open>A connective of fixed arity.\<close>

lemma writes_fixed:
  assumes "list_all2 (\<lambda>t b. writes v (enc_loop v [t]) [] [b]) (enc_children p) bs"
    and "\<And>offset. application \<lparr>symbol_name = name, sort_parameters = ss\<rparr> bs offset = Inr p"
    and "name \<in> set connective_names" and "\<forall>s \<in> set ss. valid_sort s"
    and "\<And>out. enc_finish v p out = finish_application v name ss n out"
    and "\<And>out. enc_task_step v (EPattern p) out [] = Inr (out, enc_children p @ [EFinish p])"
    and "block_of p = BPattern p" and "n = length bs"
  shows "writes v (enc_loop v [EPattern p]) [] [block_of p]"
  unfolding assms(7)
proof (rule writes_node [OF assms(1) _ assms(6)])
  show "writes v (enc_finish v p) bs [BPattern p]"
    by (rule writes_cong [OF writes_connective [OF assms(2-4,8)]]) (simp add: assms(5))
qed

lemmas fixed_simps = application_fixed [simplified] connective_names_def

lemma writes_pattern: "bin_pattern p \<Longrightarrow> writes v (enc_loop v [EPattern p]) [] [block_of p]"
proof (induction p rule: bin_pattern.induct)
  case (1 w)
  then show ?case by (simp add: writes_leaf_string)
next
  case (2 x)
  then show ?case by (simp add: writes_leaf_variable)
next
  case (3 symb args)
  have "writes v (enc_finish v (PApplication symb args)) (map block_of args) [BPattern (PApplication symb args)]"
    by (rule writes_cong [OF writes_plain [OF _ refl]]) (use 3 in simp_all)
  then have "writes v (enc_loop v [EPattern (PApplication symb args)]) [] [BPattern (PApplication symb args)]"
    using 3 by (intro writes_node [where bs = "map block_of args"]) (auto intro!: writes_operands)
  then show ?case by simp
next
  case (21 s w)
  then show ?case by (simp add: writes_domain_value)
next
  case (22 a symb args)
  then have "writes v (enc_loop v [EPattern (PAssociative a symb args)]) [] [BPattern (PAssociative a symb args)]"
    by (intro writes_node [where bs = "map block_of args"]) (auto intro!: writes_operands writes_associative simp del: enc_finish.simps)
  then show ?case by simp
next
  case (6 s args)
  then show ?case
    by (intro writes_fixed [where bs = "map block_of args" and name = "ml ''and''" and ss = "[s]"
        and n = "length args"])
      (auto intro!: writes_operands simp: application_lists [simplified] connective_names_def)
next
  case (7 s args)
  then show ?case
    by (intro writes_fixed [where bs = "map block_of args" and name = "ml ''or''" and ss = "[s]"
        and n = "length args"])
      (auto intro!: writes_operands simp: application_lists [simplified] connective_names_def)
next
  case (4 s)
  then show ?case
    by (intro writes_fixed [where bs = "[]" and name = "ml ''top''" and ss = "[s]"
        and n = 0])
      (simp_all add: fixed_simps writes_task_variable)
next
  case (5 s)
  then show ?case
    by (intro writes_fixed [where bs = "[]" and name = "ml ''bottom''" and ss = "[s]"
        and n = 0])
      (simp_all add: fixed_simps writes_task_variable)
next
  case (8 s p)
  then show ?case
    by (intro writes_fixed [where bs = "[block_of p]" and name = "ml ''not''" and ss = "[s]"
        and n = 1])
      (simp_all add: fixed_simps writes_task_variable)
next
  case (9 s p)
  then show ?case
    by (intro writes_fixed [where bs = "[block_of p]" and name = "ml ''next''" and ss = "[s]"
        and n = 1])
      (simp_all add: fixed_simps writes_task_variable)
next
  case (10 s l r)
  then show ?case
    by (intro writes_fixed [where bs = "[block_of l, block_of r]" and name = "ml ''implies''" and ss = "[s]"
        and n = 2])
      (simp_all add: fixed_simps writes_task_variable)
next
  case (11 s l r)
  then show ?case
    by (intro writes_fixed [where bs = "[block_of l, block_of r]" and name = "ml ''iff''" and ss = "[s]"
        and n = 2])
      (simp_all add: fixed_simps writes_task_variable)
next
  case (12 s l r)
  then show ?case
    by (intro writes_fixed [where bs = "[block_of l, block_of r]" and name = "ml ''rewrites''" and ss = "[s]"
        and n = 2])
      (simp_all add: fixed_simps writes_task_variable)
next
  case (13 s x p)
  then show ?case
    by (intro writes_fixed [where bs = "[BPattern (PVariable x), block_of p]" and name = "ml ''exists''" and ss = "[s]"
        and n = 2])
      (simp_all add: fixed_simps writes_task_variable)
next
  case (14 s x p)
  then show ?case
    by (intro writes_fixed [where bs = "[BPattern (PVariable x), block_of p]" and name = "ml ''forall''" and ss = "[s]"
        and n = 2])
      (simp_all add: fixed_simps writes_task_variable)
next
  case (15 x p)
  then show ?case
    by (intro writes_fixed [where bs = "[BPattern (PVariable x), block_of p]" and name = "ml ''mu''" and ss = "[]"
        and n = 2])
      (simp_all add: fixed_simps writes_task_variable)
next
  case (16 x p)
  then show ?case
    by (intro writes_fixed [where bs = "[BPattern (PVariable x), block_of p]" and name = "ml ''nu''" and ss = "[]"
        and n = 2])
      (simp_all add: fixed_simps writes_task_variable)
next
  case (17 s t p)
  then show ?case
    by (intro writes_fixed [where bs = "[block_of p]" and name = "ml ''ceil''" and ss = "[s, t]"
        and n = 1])
      (simp_all add: fixed_simps writes_task_variable)
next
  case (18 s t p)
  then show ?case
    by (intro writes_fixed [where bs = "[block_of p]" and name = "ml ''floor''" and ss = "[s, t]"
        and n = 1])
      (simp_all add: fixed_simps writes_task_variable)
next
  case (19 s t l r)
  then show ?case
    by (intro writes_fixed [where bs = "[block_of l, block_of r]" and name = "ml ''equals''" and ss = "[s, t]"
        and n = 2])
      (simp_all add: fixed_simps writes_task_variable)
next
  case (20 s t l r)
  then show ?case
    by (intro writes_fixed [where bs = "[block_of l, block_of r]" and name = "ml ''in''" and ss = "[s, t]"
        and n = 2])
      (simp_all add: fixed_simps writes_task_variable)
qed

section \<open>Files\<close>

definition header :: "version \<Rightarrow> nat \<Rightarrow> byte list" where
  "header v n = MAGIC @ le_bytes 2 (unat (ver_major v)) @ le_bytes 2 (unat (ver_minor v))
     @ le_bytes 2 (unat (ver_patch v)) @ (if has_payload_length v then le_bytes 8 n else [])"

lemma le_bytes_two: "le_bytes 2 n = [byte_of (n mod 256), byte_of (n div 256 mod 256)]"
  by (simp add: numeral_2_eq_2)

lemma i16_read: "(word_of_nat (le_value [byte_of (unat w mod 256), byte_of (unat w div 256 mod 256)]) :: 16 word) = w"
proof -
  have "unat w < 2 ^ 16" using unsigned_less [of w] by simp
  then have "le_value (le_bytes 2 (unat w)) = unat w" by (simp add: le_value_le_bytes)
  then show ?thesis by (simp add: le_bytes_two)
qed

lemma new_decoder_header:
  assumes "is_supported v" and "length (header v (length payload) @ payload) < 2 ^ 63"
  shows "new_decoder (header v (length payload) @ payload) =
    Inr \<lparr>de_input = header v (length payload) @ payload, de_cursor = length (header v (length payload)),
      de_end = length (header v (length payload) @ payload), de_version = v, de_strings = Map.empty, de_stack = []\<rparr>"
proof -
  let ?input = "header v (length payload) @ payload"
  have b: "?input = MAGIC @ [byte_of (unat (ver_major v) mod 256), byte_of (unat (ver_major v) div 256 mod 256),
      byte_of (unat (ver_minor v) mod 256), byte_of (unat (ver_minor v) div 256 mod 256),
      byte_of (unat (ver_patch v) mod 256), byte_of (unat (ver_patch v) div 256 mod 256)]
      @ (if has_payload_length v then le_bytes 8 (length payload) else []) @ payload"
    by (simp add: header_def le_bytes_two)
  have v: "header_version ?input = v"
    unfolding b header_version_def Let_def by (simp add: MAGIC_def i16_read del: le_value.simps)
  have m: "\<not> (length ?input < HEADER_SIZE_V1_0 \<or> take (length MAGIC) ?input \<noteq> MAGIC)"
    unfolding b by (simp add: MAGIC_def HEADER_SIZE_V1_0_def)
  show ?thesis
  proof (cases "has_payload_length v")
    case True
    have p: "take 8 (drop 11 ?input) = le_bytes 8 (length payload)"
      unfolding b by (simp add: True MAGIC_def)
    have len: "length (header v n) = HEADER_SIZE_V1_2" for n
      by (simp add: header_def True MAGIC_def HEADER_SIZE_V1_2_def)
    have "length payload < 256 ^ 8" using assms(2) by simp
    then have l: "declared_length ?input = length payload"
      unfolding declared_length_def p by (simp add: le_value_le_bytes)
    have "payload_bounds ?input v = Inr (HEADER_SIZE_V1_2, length ?input)"
      unfolding payload_bounds_def l using assms True len by (simp add: Let_def)
    then show ?thesis
      unfolding new_decoder_def Let_def v using m assms len by simp
  next
    case False
    have "length (header v (length payload)) = HEADER_SIZE_V1_0"
      by (simp add: header_def False MAGIC_def HEADER_SIZE_V1_0_def)
    moreover from this have "payload_bounds ?input v = Inr (HEADER_SIZE_V1_0, length ?input)"
      unfolding payload_bounds_def using False by simp
    ultimately show ?thesis
      unfolding new_decoder_def Let_def v using m assms by simp
  qed
qed

lemma decode_block_encoded:
  assumes "encode_roots ps v = Inr bs" and "\<forall>p \<in> set ps. bin_pattern p" and "length bs < 2 ^ 63"
  shows "decode_block bs = Inr (map block_of ps)"
proof -
  obtain payload where v: "is_supported v" and p: "enc_each (enc_pattern v) ps [] = Inr payload"
    and bs: "bs = header v (length payload) @ payload"
    using assms(1) by (auto simp: encode_roots_def header_def Let_def elim!: and_thenE split: if_splits)
  let ?st = "\<lparr>de_input = bs, de_cursor = length (header v (length payload)), de_end = length bs,
      de_version = v, de_strings = Map.empty, de_stack = []\<rparr>"
  have "writes v (enc_each (enc_pattern v) ps) [] (map block_of ps)"
  proof (rule writes_each)
    fix p assume "p \<in> set ps"
    then show "writes v (enc_pattern v p) [] [block_of p]"
      using assms(2) by (intro writes_cong [OF writes_pattern]) (auto simp: enc_pattern_def)
  qed
  then have "runs v [] payload (map block_of ps)"
    using p assms(3) bs unfolding writes_def by fastforce
  moreover have "sees ?st payload" using assms(3) by (auto simp: sees_def good_def bs)
  ultimately obtain strs where
    "de_loop ?st = de_loop ((skip (length payload) ?st)\<lparr>de_strings := strs, de_stack := List.rev (map block_of ps) @ []\<rparr>)"
    unfolding runs_def by (elim allE [of _ ?st] allE [of _ "[]"]) auto
  also have "\<dots> = Inr (map block_of ps)" by (subst de_loop.simps) (simp add: bs)
  finally show ?thesis
    using new_decoder_header [OF v, of payload] assms(3) by (simp add: decode_block_def bs)
qed

end
