(* ===== verification/Kore_Binary_Safety.thy ===== *)
theory Kore_Binary_Safety
  imports Kore_Binary_Roundtrip
begin

text \<open>
  The decoder on arbitrary bytes: it returns blocks or an error, it never reaches an \<open>expect\<close>, an
  underflow or a slice out of range, and an error's offset lies in the input. The one exception is
  the offset of an identifier that is not UTF-8.
\<close>

definition not_utf8 :: str where
  "not_utf8 = lit ''identifier is not valid UTF-8''"

text \<open>Errors at offsets up to \<open>n\<close> only.\<close>

definition reports :: "nat \<Rightarrow> binary_fault + 'a \<Rightarrow> bool" where
  "reports n r \<longleftrightarrow>
     (\<forall>f. r = Inl f \<longrightarrow> (\<exists>offset message. f = BinError offset message \<and> (offset \<le> n \<or> message = not_utf8)))"

lemma reports_simps [simp]:
  "reports n (Inr x)" "reports n (bin_error offset message) \<longleftrightarrow> offset \<le> n \<or> message = not_utf8"
  "\<not> reports n (Inl BinPanic)"
  by (auto simp: reports_def)

lemma reports_and_then [intro]:
  "reports n m \<Longrightarrow> (\<And>a. m = Inr a \<Longrightarrow> reports n (f a)) \<Longrightarrow> reports n (and_then m f)"
  by (cases m) (auto simp: reports_def)

lemma reports_collect: "(\<And>x. x \<in> set xs \<Longrightarrow> reports n (f x)) \<Longrightarrow> reports n (collect_results f xs)"
  by (induction xs) (auto intro!: reports_and_then)

section \<open>Reading\<close>

text \<open>A state whose cursor is in the input.\<close>

definition inside :: "nat \<Rightarrow> decoder \<Rightarrow> bool" where
  "inside n st \<longleftrightarrow> length (de_input st) = n \<and> de_end st = n \<and> de_cursor st \<le> n"

lemma inside_advances: "inside n st \<Longrightarrow> advances st st' \<Longrightarrow> inside n st'"
  by (simp add: inside_def advances_def)

lemma inside_simps [simp]:
  "inside n (st\<lparr>de_stack := s\<rparr>) = inside n st" "inside n (st\<lparr>de_strings := m\<rparr>) = inside n st"
  "inside n (de_push b st) = inside n st"
  by (simp_all add: inside_def de_push_def)

lemma inside_cursor: "inside n st \<Longrightarrow> de_cursor st \<le> n"
  by (simp add: inside_def)

lemma reports_byte: "inside n st \<Longrightarrow> reports n (de_byte st)"
  by (simp add: de_byte_def inside_def)

lemma reports_bytes: "inside n st \<Longrightarrow> reports n (de_bytes count st)"
  by (simp add: de_bytes_def inside_def Let_def)

lemma reports_fixed: "offset \<le> n \<Longrightarrow> reports n (fixed_value offset val bs)"
  by (induction offset val bs rule: fixed_value.induct) (auto simp: Let_def length_overflows_def)

lemma reports_varint: "start \<le> n \<Longrightarrow> inside n st \<Longrightarrow> reports n (varint_loop start steps val st)"
proof (induction start steps val st rule: varint_loop.induct)
  case (2 start step steps val st)
  show ?case
    unfolding varint_loop.simps
  proof (intro reports_and_then reports_byte)
    fix r assume r: "de_byte st = Inr r"
    obtain b st1 where [simp]: "r = (b, st1)" by (cases r)
    have "inside n st1" using advances_byte [of st b st1] r inside_advances 2 by simp
    then show "reports n (case r of (b, st1) \<Rightarrow>
        let chunk = unat (b AND 0x7F) in
        if 7 * step \<ge> 64 then length_overflows start
        else
          (let shifted = chunk * 2 ^ (7 * step) mod 2 ^ 64 in
           if val + shifted \<ge> 2 ^ 64 then length_overflows start
           else if b AND 0x80 = 0 then Inr (val + shifted, st1)
           else varint_loop start steps (val + shifted) st1))"
      using 2 r by (auto simp: Let_def length_overflows_def)
  qed (rule 2)
qed simp

lemma reports_length: "inside n st \<Longrightarrow> reports n (de_length w st)"
  unfolding de_length_def
  using inside_advances [of n st] advances_bytes [of w st] inside_cursor
  by (auto intro!: reports_and_then reports_bytes reports_varint reports_fixed split: prod.split)

lemma inside_length: "de_length w st = Inr (k, st') \<Longrightarrow> inside n st \<Longrightarrow> inside n st'"
  using inside_advances advances_length by blast

lemma inside_byte: "de_byte st = Inr (b, st') \<Longrightarrow> inside n st \<Longrightarrow> inside n st'"
  using inside_advances advances_byte by blast

lemma reports_raw_string: "inside n st \<Longrightarrow> reports n (de_raw_string st)"
  unfolding de_raw_string_def
  using inside_cursor [of n st]
  by (auto intro!: reports_and_then reports_byte reports_length reports_bytes split: prod.split option.split)
    (metis inside_byte inside_length)+

lemma reports_identifier: "inside n st \<Longrightarrow> reports n (de_identifier st)"
  unfolding de_identifier_def
  by (auto intro!: reports_and_then reports_raw_string simp: not_utf8_def split: prod.split sum.split)

lemma reports_pop: "offset \<le> n \<Longrightarrow> reports n (de_pop count offset st)"
  by (simp add: de_pop_def)

lemma reports_pop_sorts: "offset \<le> n \<Longrightarrow> reports n (de_pop_sorts count offset st)"
  unfolding de_pop_sorts_def
  by (auto intro!: reports_and_then reports_pop reports_collect split: prod.split block.split)

section \<open>Applications\<close>

lemma reports_malformed [simp]: "offset \<le> n \<Longrightarrow> reports n (malformed_application offset name expected)"
  by (simp add: malformed_application_def)

lemma reports_one_sort: "offset \<le> n \<Longrightarrow> reports n (one_sort sorts offset name)"
  by (cases "(sorts, offset, name)" rule: one_sort.cases) auto

lemma reports_arities:
  "offset \<le> n \<Longrightarrow> reports n (expect_sort_arity sorts k offset name)"
  "offset \<le> n \<Longrightarrow> reports n (expect_arity arguments k offset name)"
  by (simp_all add: expect_sort_arity_def expect_arity_def)

lemma arity_arguments:
  "expect_arity arguments 1 offset name = Inr u \<Longrightarrow> \<exists>p. arguments = [p]"
  "expect_arity arguments 2 offset name = Inr u \<Longrightarrow> \<exists>p q. arguments = [p, q]"
  by (auto simp: expect_arity_def malformed_application_def length_Suc_conv numeral_2_eq_2 split: if_splits)

lemma reports_arguments:
  "offset \<le> n \<Longrightarrow> (\<And>p. arguments = [p] \<Longrightarrow> reports n (f p)) \<Longrightarrow>
   reports n (and_then (expect_arity arguments 1 offset name) (\<lambda>_. and_then (one_argument_of arguments) f))"
  "offset \<le> n \<Longrightarrow> (\<And>p q. arguments = [p, q] \<Longrightarrow> reports n (g (p, q))) \<Longrightarrow>
   reports n (and_then (expect_arity arguments 2 offset name) (\<lambda>_. and_then (two_arguments_of arguments) g))"
  by (rule reports_and_then, erule reports_arities, frule arity_arguments, force)+

lemma reports_applications:
  assumes "offset \<le> n"
  shows "reports n (domain_value_application symb blocks offset)"
    and "reports n (constant_application c symb arguments offset)"
    and "reports n (unary_application c1 symb arguments offset)"
    and "reports n (binary_application c2 symb arguments offset)"
    and "reports n (quantifier_application c3 symb arguments offset)"
    and "reports n (fixpoint_application c4 symb arguments offset)"
    and "reports n (round_application c5 symb arguments offset)"
    and "reports n (predicate_application c6 symb arguments offset)"
    and "reports n (associative_application a symb arguments offset)"
  using assms unfolding domain_value_application_def constant_application_def unary_application_def
    binary_application_def quantifier_application_def fixpoint_application_def round_application_def
    predicate_application_def associative_application_def
  by (auto intro!: reports_and_then [OF reports_one_sort] reports_and_then [OF reports_arities(1)]
      reports_and_then [OF reports_arities(2)] reports_arguments
      split: list.split block.split pattern.split simp del: One_nat_def)

lemma reports_application:
  assumes "offset \<le> n"
  shows "reports n (application symb blocks offset)"
proof -
  have "reports n (term_argument offset name b)" for name b
    using assms by (auto simp: term_argument_def split: block.split)
  then have "reports n (collect_results (term_argument offset name) blocks)" for name
    by (intro reports_collect)
  then show ?thesis
    unfolding application_def Let_def using assms
    by (auto intro!: reports_and_then [of n "collect_results f xs" for f xs] reports_applications
        reports_and_then [OF reports_one_sort])
qed

section \<open>The machine\<close>

lemma reports_composite: "inside n st \<Longrightarrow> offset \<le> n \<Longrightarrow> reports n (composite_pattern offset st)"
  unfolding composite_pattern_def
  by (auto intro!: reports_and_then reports_length reports_pop reports_application
      split: prod.split list.split block.split)

lemma reports_named: "inside n st \<Longrightarrow> offset \<le> n \<Longrightarrow> reports n (named_with_sorts build offset st)"
  unfolding named_with_sorts_def
  by (auto intro!: reports_and_then reports_length reports_identifier reports_pop_sorts
      dest: inside_length [rotated] split: prod.split)

lemma pop_one_sort: "de_pop_sorts 1 offset st = Inr (sorts, st') \<Longrightarrow> sorts \<noteq> []"
  by (auto simp: de_pop_sorts_def de_pop_def elim!: and_thenE split: if_splits block.splits)
    (auto simp: Suc_le_eq take_Suc neq_Nil_conv elim!: and_thenE)

lemma reports_variable: "offset \<le> n \<Longrightarrow> inside n st \<Longrightarrow> reports n (de_variable offset st)"
  unfolding de_variable_def
  by (auto intro!: reports_and_then reports_identifier reports_pop_sorts dest: pop_one_sort
      split: prod.split simp del: One_nat_def)

lemma reports_step:
  assumes "inside n st"
  shows "reports n (de_step st)"
proof -
  have o: "de_cursor st \<le> n" by (rule inside_cursor [OF assms])
  show ?thesis
    unfolding de_step_def Let_def
  proof (intro reports_and_then reports_byte [OF assms])
    fix r assume r: "de_byte st = Inr r"
    obtain tag st1 where [simp]: "r = (tag, st1)" by (cases r)
    have "inside n st1" using inside_byte r assms by simp
    then show "reports n (case r of (tag, st1) \<Rightarrow>
        if tag = COMPOSITE_PATTERN then composite_pattern (de_cursor st) st1
        else if tag = STRING_PATTERN then
          and_then (de_raw_string st1) (\<lambda>(v, st2). Inr (de_push (BString v) st2))
        else if tag = COMPOSITE_SORT then
          named_with_sorts (\<lambda>name sorts. BSort (SortApplication name sorts)) (de_cursor st) st1
        else if tag = SORT_VARIABLE then
          and_then (de_identifier st1) (\<lambda>(name, st2). Inr (de_push (BSort (SortVariable name)) st2))
        else if tag = SYMBOL then
          named_with_sorts (\<lambda>name sorts. BSymbol \<lparr>symbol_name = name, sort_parameters = sorts\<rparr>) (de_cursor st) st1
        else if tag = VARIABLE_PATTERN then Inr st1
        else if tag = VARIABLE then de_variable (de_cursor st) st1
        else bin_error (de_cursor st) (lit ''invalid block tag 0x'' @ hex_pad 2 (unat tag)))"
      using o by (auto intro!: reports_composite reports_named reports_variable reports_raw_string
          reports_identifier reports_and_then)
  qed
qed

lemma reports_loop: "inside n st \<Longrightarrow> reports n (de_loop st)"
proof (induction st rule: de_loop.induct)
  case (1 st)
  have "reports n (de_loop st')" if "de_cursor st < de_end st" "de_step st = Inr st'" for st'
    using 1 that inside_advances advances_step by blast
  then show ?case
    using reports_step [OF 1(2)] by (auto simp: de_loop.simps [of st] intro!: reports_and_then)
qed

lemma payload_bounds_inside:
  "payload_bounds input v = Inr (cursor, end') \<Longrightarrow> HEADER_SIZE_V1_0 \<le> length input \<Longrightarrow>
   cursor \<le> length input \<and> end' = length input"
  by (auto simp: payload_bounds_def Let_def split: if_splits)

lemma new_decoder_inside:
  assumes "new_decoder input = Inr st"
  shows "inside (length input) st"
proof -
  obtain cursor end' where "payload_bounds input (header_version input) = Inr (cursor, end')"
    "HEADER_SIZE_V1_0 \<le> length input" "de_input st = input" "de_cursor st = cursor" "de_end st = end'"
    using assms by (auto simp: new_decoder_def Let_def split: if_splits elim!: and_thenE)
  then show ?thesis using payload_bounds_inside unfolding inside_def by blast
qed

lemma reports_payload_bounds: "HEADER_SIZE_V1_0 \<le> length input \<Longrightarrow> reports (length input) (payload_bounds input v)"
  by (auto simp: payload_bounds_def Let_def HEADER_SIZE_V1_0_def)

lemma reports_new_decoder: "reports (length input) (new_decoder input)"
proof (cases "length input < HEADER_SIZE_V1_0 \<or> take (length MAGIC) input \<noteq> MAGIC")
  case False
  moreover from this have "5 \<le> length input" by (simp add: HEADER_SIZE_V1_0_def)
  ultimately show ?thesis
    using reports_payload_bounds [of input "header_version input"]
    by (auto simp: new_decoder_def Let_def intro!: reports_and_then)
qed (simp add: new_decoder_def)

lemma reports_decode_block: "reports (length input) (decode_block input)"
  unfolding decode_block_def
  by (intro reports_and_then reports_new_decoder) (rule reports_loop [OF new_decoder_inside])

text \<open>C14: Decoding any bytes as a binary term or pattern returns: the syntax, or an error. No
  \<open>expect\<close>, underflow or slice out of range is reached, and the error's offset lies within the
  input, except for the error about an identifier that is not UTF-8.\<close>

theorem decoding_returns:
  "(\<forall>f. decode_term input = Inl f \<longrightarrow>
      (\<exists>offset message. f = BinError offset message \<and> (offset \<le> length input \<or> message = not_utf8)))
   \<and> (\<forall>f. decode_pattern input = Inl f \<longrightarrow>
      (\<exists>offset message. f = BinError offset message \<and> (offset \<le> length input \<or> message = not_utf8)))"
proof -
  have "reports (length input) (expect_pattern b (length input) expected)" for b expected
    by (auto simp: expect_pattern_def split: option.split block.split)
  then have "reports (length input) (decode_pattern input)"
    unfolding decode_pattern_def by (intro reports_and_then reports_decode_block reports_collect) auto
  moreover have "reports (length input) (decode_term input)"
    unfolding decode_term_def
    by (intro reports_and_then reports_decode_block) (auto split: list.split block.split)
  ultimately show ?thesis by (simp add: reports_def)
qed

text \<open>A header cut short.\<close>

theorem decoding_returns_witness:
  "decode_term [0x7F, 75] = Inl (BinError 0 (lit ''invalid magic header''))
   \<and> (\<exists>offset message. BinError 0 (lit ''invalid magic header'') = BinError offset message
        \<and> (offset \<le> length [0x7F :: byte, 75] \<or> message = not_utf8))"
proof -
  have "decode_term [0x7F, 75] = Inl (BinError 0 (lit ''invalid magic header''))" by code_simp
  then show ?thesis using decoding_returns [of "[0x7F, 75]"] by blast
qed

text \<open>A string back-reference makes the offset of an identifier's UTF-8 error lie past the input: a
  payload of forty bytes, the last of them not UTF-8, and a sort variable named by it.\<close>

definition misplaced_input :: "byte list" where
  "misplaced_input = header V1_1_0 0 @ [STRING_PATTERN, 0x01, 40] @ replicate 39 97 @ [0xFF]
     @ [SORT_VARIABLE, 0x02, 44]"

lemma identifier_offset_past_the_end:
  "decode_block misplaced_input = Inl (BinError (length misplaced_input + 37) not_utf8)"
  by code_simp

section \<open>What is decoded can be encoded\<close>

fun block_ok :: "block \<Rightarrow> bool" where
  "block_ok (BPattern p) \<longleftrightarrow> bin_pattern p \<and> block_of p = BPattern p"
| "block_ok (BString v) \<longleftrightarrow> True"
| "block_ok (BSort s) \<longleftrightarrow> valid_sort s"
| "block_ok (BSymbol symb) \<longleftrightarrow> valid_symbol symb"

definition stack_ok :: "decoder \<Rightarrow> bool" where
  "stack_ok st \<longleftrightarrow> (\<forall>b \<in> set (de_stack st). block_ok b)"

text \<open>Reading bytes leaves the stack alone.\<close>

lemma stack_byte: "de_byte st = Inr (b, st') \<Longrightarrow> de_stack st' = de_stack st"
  by (auto simp: de_byte_def split: if_splits)

lemma stack_bytes: "de_bytes n st = Inr (b, st') \<Longrightarrow> de_stack st' = de_stack st"
  by (auto simp: de_bytes_def Let_def split: if_splits)

lemma stack_varint: "varint_loop start steps val st = Inr (n, st') \<Longrightarrow> de_stack st' = de_stack st"
proof (induction start steps val st rule: varint_loop.induct)
  case (2 start step steps val st)
  then obtain b st1 where b: "de_byte st = Inr (b, st1)" by (auto elim: and_thenE)
  let ?shifted = "unat (b AND 0x7F) * 2 ^ (7 * step) mod 2 ^ 64"
  have "st' = st1 \<or> varint_loop start steps (val + ?shifted) st1 = Inr (n, st')"
    using "2.prems" b by (auto simp: Let_def length_overflows_def split: if_splits)
  moreover have "varint_loop start steps (val + ?shifted) st1 = Inr (n, st') \<Longrightarrow> de_stack st' = de_stack st1"
    if "\<not> 7 * step \<ge> 64" "\<not> val + ?shifted \<ge> 2 ^ 64" "\<not> b AND 0x80 = 0"
    using "2.IH" [OF b refl refl that(1) refl that(2,3)] .
  moreover have "\<not> 7 * step \<ge> 64" "\<not> val + ?shifted \<ge> 2 ^ 64"
    using "2.prems" b by (auto simp: Let_def length_overflows_def split: if_splits)
  moreover have "b AND 0x80 = 0 \<Longrightarrow> st' = st1"
    using "2.prems" b calculation(3,4) by (simp add: Let_def)
  ultimately show ?case using stack_byte [OF b] by metis
qed simp

lemma stack_length: "de_length w st = Inr (n, st') \<Longrightarrow> de_stack st' = de_stack st"
  by (auto simp: de_length_def elim!: and_thenE split: if_splits dest: stack_bytes stack_varint)

lemma stack_raw_string: "de_raw_string st = Inr (v, st') \<Longrightarrow> de_stack st' = de_stack st"
  by (auto simp: de_raw_string_def elim!: and_thenE split: if_splits option.splits
      dest!: stack_byte stack_length stack_bytes)

lemma identifier_valid: "de_identifier st = Inr (s, st') \<Longrightarrow> valid_str s \<and> de_stack st' = de_stack st"
  by (auto simp: de_identifier_def elim!: and_thenE split: sum.splits dest: stack_raw_string
      simp: from_utf8_Inr)

lemma pop_ok:
  "de_pop n offset st = Inr (bs, st') \<Longrightarrow> stack_ok st \<Longrightarrow> (\<forall>b \<in> set bs. block_ok b) \<and> stack_ok st'"
  by (auto simp: de_pop_def stack_ok_def split: if_splits) (meson in_set_takeD in_set_dropD)+

lemma pop_sorts_ok:
  assumes "de_pop_sorts n offset st = Inr (ss, st')" and "stack_ok st"
  shows "(\<forall>s \<in> set ss. valid_sort s) \<and> stack_ok st'"
proof -
  have c: "collect_results (\<lambda>b. case b of BSort s \<Rightarrow> Inr s
      | _ \<Rightarrow> bin_error offset (lit ''expected sort, found '' @ block_kind b)) bs = Inr ss \<Longrightarrow>
      \<forall>b \<in> set bs. block_ok b \<Longrightarrow> \<forall>s \<in> set ss. valid_sort s" for bs ss
    by (induction bs arbitrary: ss) (auto elim!: and_thenE split: block.splits)
  show ?thesis
    using assms c pop_ok by (fastforce simp: de_pop_sorts_def elim!: and_thenE)
qed

lemma term_arguments_ok:
  "collect_results (term_argument offset name) bs = Inr ps \<Longrightarrow> \<forall>b \<in> set bs. block_ok b \<Longrightarrow>
   \<forall>p \<in> set ps. bin_pattern p"
  by (induction bs arbitrary: ps) (auto simp: term_argument_def elim!: and_thenE split: block.splits)

lemma arity_results:
  "one_sort ss offset name = Inr s \<longleftrightarrow> ss = [s]"
  "expect_sort_arity ss n offset name = Inr u \<longleftrightarrow> length ss = n"
  "expect_arity ps n offset name = Inr u \<longleftrightarrow> length ps = n"
  "one_argument_of ps = Inr p \<longleftrightarrow> (\<exists>qs. ps = p # qs)"
  "two_arguments_of ps = Inr (p, q) \<longleftrightarrow> (\<exists>qs. ps = p # q # qs)"
  "malformed_application offset name expected = Inr x \<longleftrightarrow> False"
  by (cases "(ss, offset, name)" rule: one_sort.cases;
      auto simp: malformed_application_def expect_sort_arity_def expect_arity_def)
    (cases ps rule: two_arguments_of.cases; auto simp: expect_sort_arity_def expect_arity_def malformed_application_def)+

lemma applications_ok:
  assumes "\<forall>p \<in> set ps. bin_pattern p" and "valid_symbol symb"
  shows "constant_application PTop symb ps offset = Inr p \<Longrightarrow> block_ok (BPattern p)"
    and "constant_application PBottom symb ps offset = Inr p \<Longrightarrow> block_ok (BPattern p)"
    and "unary_application PNot symb ps offset = Inr p \<Longrightarrow> block_ok (BPattern p)"
    and "unary_application PNext symb ps offset = Inr p \<Longrightarrow> block_ok (BPattern p)"
    and "binary_application PImplies symb ps offset = Inr p \<Longrightarrow> block_ok (BPattern p)"
    and "binary_application PIff symb ps offset = Inr p \<Longrightarrow> block_ok (BPattern p)"
    and "binary_application PRewrites symb ps offset = Inr p \<Longrightarrow> block_ok (BPattern p)"
    and "quantifier_application PExists symb ps offset = Inr p \<Longrightarrow> block_ok (BPattern p)"
    and "quantifier_application PForall symb ps offset = Inr p \<Longrightarrow> block_ok (BPattern p)"
    and "fixpoint_application PMu symb ps offset = Inr p \<Longrightarrow> block_ok (BPattern p)"
    and "fixpoint_application PNu symb ps offset = Inr p \<Longrightarrow> block_ok (BPattern p)"
    and "round_application PCeil symb ps offset = Inr p \<Longrightarrow> block_ok (BPattern p)"
    and "round_application PFloor symb ps offset = Inr p \<Longrightarrow> block_ok (BPattern p)"
    and "predicate_application PEquals symb ps offset = Inr p \<Longrightarrow> block_ok (BPattern p)"
    and "predicate_application PIn symb ps offset = Inr p \<Longrightarrow> block_ok (BPattern p)"
    and "associative_application a symb ps offset = Inr p \<Longrightarrow> block_ok (BPattern p)"
    and "domain_value_application symb bs offset = Inr p \<Longrightarrow> block_ok (BPattern p)"
  using assms unfolding constant_application_def unary_application_def binary_application_def
    quantifier_application_def fixpoint_application_def round_application_def predicate_application_def
    associative_application_def domain_value_application_def valid_symbol_def
  by (auto simp: arity_results canonical_canonical elim!: and_thenE
      split: list.splits block.splits pattern.splits if_splits)

lemma application_ok:
  assumes "application symb bs offset = Inr p" and "\<forall>b \<in> set bs. block_ok b" and "valid_symbol symb"
  shows "block_ok (BPattern p)"
proof (cases "symbol_name symb = ml ''dv''")
  case True
  then show ?thesis using assms applications_ok(17) [of "[]"] by (simp add: application_def Let_def)
next
  case False
  then obtain ps where ps: "collect_results (term_argument offset (symbol_name symb)) bs = Inr ps"
    using assms(1) by (auto simp: application_def Let_def elim!: and_thenE)
  have b: "\<forall>p \<in> set ps. bin_pattern p" using term_arguments_ok [OF ps assms(2)] .
  have plain: "plain_symbol symb"
    if "symbol_name symb \<notin> set connective_names \<or> (symbol_name symb = ml ''equals'' \<and> sort_parameters symb = [])"
    using that assms(3) by (cases symb) (auto simp: plain_symbol_def)
  show ?thesis
    using assms(1) ps False plain assms(3) b
    by (auto simp: application_def Let_def arity_results connective_names_def valid_symbol_def
        elim!: and_thenE split: if_split_asm simp del: block_ok.simps
        dest: applications_ok [OF b assms(3)]) (simp_all add: block_ok.simps)
qed

lemma stack_ok_push: "stack_ok (de_push b st) \<longleftrightarrow> block_ok b \<and> stack_ok st"
  by (auto simp: stack_ok_def de_push_def)

lemma stack_ok_same: "de_stack st' = de_stack st \<Longrightarrow> stack_ok st \<Longrightarrow> stack_ok st'"
  by (simp add: stack_ok_def)

lemma composite_ok:
  assumes "composite_pattern offset st = Inr st'" and "stack_ok st"
  shows "stack_ok st'"
proof -
  obtain symb rest arity st1 args st2 p where s: "de_stack st = BSymbol symb # rest"
    "de_length 2 (st\<lparr>de_stack := rest\<rparr>) = Inr (arity, st1)" "de_pop arity offset st1 = Inr (args, st2)"
    "application symb args offset = Inr p" "st' = de_push (BPattern p) st2"
    using assms(1) by (auto simp: composite_pattern_def elim!: and_thenE split: list.splits block.splits)
  have "stack_ok st1" "valid_symbol symb"
    using assms(2) s(1) stack_length [OF s(2)] by (simp_all add: stack_ok_def)
  then show ?thesis using pop_ok [OF s(3)] application_ok [OF s(4)] by (simp add: s(5) stack_ok_push)
qed

lemma named_ok:
  assumes "named_with_sorts build offset st = Inr st'" and "stack_ok st"
    and "\<And>name ss. valid_str name \<Longrightarrow> \<forall>s \<in> set ss. valid_sort s \<Longrightarrow> block_ok (build name ss)"
  shows "stack_ok st'"
proof -
  obtain arity st1 name st2 ss st3 where s: "de_length 2 st = Inr (arity, st1)"
    "de_identifier st1 = Inr (name, st2)" "de_pop_sorts arity offset st2 = Inr (ss, st3)"
    "st' = de_push (build name ss) st3"
    using assms(1) by (auto simp: named_with_sorts_def elim!: and_thenE)
  have "stack_ok st2" "valid_str name"
    using assms(2) stack_length [OF s(1)] identifier_valid [OF s(2)] by (simp_all add: stack_ok_def)
  then show ?thesis using pop_sorts_ok [OF s(3)] assms(3) by (simp add: s(4) stack_ok_push)
qed

lemma variable_ok:
  assumes "de_variable offset st = Inr st'" and "stack_ok st"
  shows "stack_ok st'"
proof -
  obtain name st1 ss st2 where s: "de_identifier st = Inr (name, st1)"
    "de_pop_sorts 1 offset st1 = Inr (ss, st2)" "ss \<noteq> []"
    "st' = de_push (BPattern (PVariable \<lparr>var_kind = kind_of_name name, var_name = name, var_sort = last ss\<rparr>)) st2"
    using assms(1) by (auto simp: de_variable_def elim!: and_thenE split: if_splits simp del: One_nat_def)
  have "stack_ok st1" "valid_str name"
    using assms(2) identifier_valid [OF s(1)] by (simp_all add: stack_ok_def)
  then show ?thesis
    using pop_sorts_ok [OF s(2)] last_in_set [OF s(3)] by (simp add: s(4) stack_ok_push valid_variable_def)
qed

lemma step_ok:
  assumes "de_step st = Inr st'" and "stack_ok st"
  shows "stack_ok st'"
proof -
  obtain tag st1 where b: "de_byte st = Inr (tag, st1)"
    using assms(1) by (auto simp: de_step_def Let_def elim: and_thenE)
  then have "stack_ok st1" using assms(2) stack_byte stack_ok_same by blast
  then show ?thesis
    using assms(1) b
    by (auto simp: de_step_def Let_def stack_ok_push split: if_split_asm elim!: and_thenE
        intro: stack_ok_same [OF stack_raw_string] stack_ok_same [OF conjunct2 [OF identifier_valid]]
          composite_ok named_ok variable_ok
        dest: identifier_valid)
      (auto elim!: named_ok simp: valid_symbol_def)
qed

lemma loop_ok: "de_loop st = Inr bs \<Longrightarrow> stack_ok st \<Longrightarrow> \<forall>b \<in> set bs. block_ok b"
proof (induction st rule: de_loop.induct)
  case (1 st)
  then show ?case
    using step_ok by (auto simp: de_loop.simps [of st] stack_ok_def elim!: and_thenE split: if_splits)
qed

lemma decode_block_ok: "decode_block input = Inr bs \<Longrightarrow> \<forall>b \<in> set bs. block_ok b"
  by (auto simp: decode_block_def new_decoder_def Let_def stack_ok_def elim!: and_thenE split: if_splits
      intro: loop_ok dest!: loop_ok)

section \<open>The encoder is total\<close>

lemma enc_length_total: "\<not> uses_fixed_lengths v \<Longrightarrow> \<exists>out'. enc_length v n w out = Inr out'"
  by (simp add: enc_length_def)

lemma enc_identifier_total: "\<not> uses_fixed_lengths v \<Longrightarrow> \<exists>out'. enc_identifier v name out = Inr out'"
  by (simp add: enc_identifier_def enc_raw_bytes_def enc_length_def)

lemma enc_sort_total: "\<not> uses_fixed_lengths v \<Longrightarrow> \<exists>out'. enc_sort_loop v tasks out = Inr out'"
proof (induction v tasks out rule: enc_sort_loop.induct)
  case (2 v name tasks out)
  then show ?case using enc_identifier_total [of v name "out @ [SORT_VARIABLE]"] by auto
next
  case (4 v name count tasks out)
  obtain out1 where 1: "enc_length v count 2 (out @ [COMPOSITE_SORT]) = Inr out1"
    using enc_length_total [OF "4.prems"] by blast
  obtain out2 where "enc_identifier v name out1 = Inr out2" using enc_identifier_total [OF "4.prems"] by blast
  then show ?case using 1 4 by simp
qed auto

lemma enc_each_total: "(\<And>x out. \<exists>out'. f x out = Inr out') \<Longrightarrow> \<exists>out'. enc_each f xs out = Inr out'"
proof (induction xs arbitrary: out)
  case (Cons x xs)
  obtain out1 where "f x out = Inr out1" using Cons.prems by blast
  then show ?case using Cons by simp
qed simp

lemma finish_application_total:
  assumes "\<not> uses_fixed_lengths v"
  shows "\<exists>out'. finish_application v name ss n out = Inr out'"
proof -
  obtain out1 where "enc_each (enc_sort v) ss out = Inr out1"
    using enc_each_total [of "enc_sort v" ss out] enc_sort_total [OF assms] unfolding enc_sort_def by blast
  moreover obtain out2 where "enc_length v (length ss) 2 (out1 @ [SYMBOL]) = Inr out2"
    using enc_length_total [OF assms] by blast
  moreover obtain out3 where "enc_identifier v name out2 = Inr out3" using enc_identifier_total [OF assms] by blast
  moreover obtain out4 where "enc_length v n 2 (out3 @ [COMPOSITE_PATTERN]) = Inr out4"
    using enc_length_total [OF assms] by blast
  ultimately show ?thesis by (simp add: finish_application_def enc_symbol_def)
qed

text \<open>A finish task is left for a node that is not a leaf.\<close>

fun task_ok :: "enc_task \<Rightarrow> bool" where
  "task_ok (EFinish (PString _)) \<longleftrightarrow> False"
| "task_ok (EFinish (PVariable _)) \<longleftrightarrow> False"
| "task_ok (EFinish (PDomainValue _ _)) \<longleftrightarrow> False"
| "task_ok _ \<longleftrightarrow> True"

lemma enc_finish_total: "\<not> uses_fixed_lengths v \<Longrightarrow> task_ok (EFinish p) \<Longrightarrow> \<exists>out'. enc_finish v p out = Inr out'"
proof (cases p)
  case (PAssociative a symb args)
  assume v: "\<not> uses_fixed_lengths v"
  obtain out1 where "finish_application v (symbol_name symb) (sort_parameters symb) (length args) out = Inr out1"
    using finish_application_total [OF v] by blast
  then show ?thesis using finish_application_total [OF v, of _ "[]" 1 out1] by (simp add: PAssociative)
qed (use finish_application_total in \<open>auto\<close>)

lemma enc_children_ok: "\<forall>t \<in> set (enc_children p). task_ok t"
  by (cases p) auto

lemma enc_string_total: "\<not> uses_fixed_lengths v \<Longrightarrow> \<exists>out'. enc_string v val out = Inr out'"
  by (simp add: enc_string_def enc_raw_bytes_def enc_length_def)

lemma enc_variable_total:
  assumes "\<not> uses_fixed_lengths v"
  shows "\<exists>out'. enc_variable v x out = Inr out'"
proof -
  obtain out1 where "enc_sort v (var_sort x) out = Inr out1"
    using enc_sort_total [OF assms] unfolding enc_sort_def by blast
  moreover obtain out2 where "enc_identifier v (var_name x) (out1 @ [VARIABLE_PATTERN] @ [VARIABLE]) = Inr out2"
    using enc_identifier_total [OF assms] by blast
  ultimately show ?thesis by (simp add: enc_variable_def)
qed

lemma enc_step_total:
  assumes "\<not> uses_fixed_lengths v" and "task_ok t" and "\<forall>u \<in> set tasks. task_ok u"
  shows "\<exists>out' tasks'. enc_task_step v t out tasks = Inr (out', tasks') \<and> (\<forall>u \<in> set tasks'. task_ok u)"
proof (cases t)
  case (EVariable x)
  then show ?thesis using enc_variable_total [OF assms(1), of x out] assms(3) by auto
next
  case (EFinish p)
  then show ?thesis using enc_finish_total [OF assms(1), of p out] assms(2,3) by auto
next
  case (EPattern p)
  have d: "\<exists>out'. and_then (enc_string v w out) (finish_application v name [s] 1) = Inr out'" for w name s
  proof -
    obtain out1 where "enc_string v w out = Inr out1" using enc_string_total [OF assms(1)] by blast
    then show ?thesis using finish_application_total [OF assms(1), of name "[s]" 1 out1] by simp
  qed
  have c: "\<forall>u \<in> set (enc_children p @ tasks). task_ok u" using enc_children_ok [of p] assms(3) by auto
  show ?thesis
  proof (cases p)
    case (PString w)
    then show ?thesis using enc_string_total [OF assms(1), of w out] assms(3) by (auto simp: EPattern)
  next
    case (PDomainValue s w)
    then show ?thesis using d [of w "ml ''dv''" s] assms(3) by (fastforce simp: EPattern elim!: and_thenE)
  qed (use c in \<open>simp_all add: EPattern\<close>)
qed

lemma enc_loop_total:
  "\<not> uses_fixed_lengths v \<Longrightarrow> \<forall>t \<in> set tasks. task_ok t \<Longrightarrow> \<exists>out'. enc_loop v tasks out = Inr out'"
proof (induction v tasks out rule: enc_loop.induct)
  case (1 v tasks out)
  show ?case
  proof (cases tasks)
    case (Cons t rest)
    then obtain out' tasks' where s: "enc_task_step v t out rest = Inr (out', tasks')" "\<forall>u \<in> set tasks'. task_ok u"
      using enc_step_total [OF "1.prems"(1), of t rest out] "1.prems"(2) by auto
    then show ?thesis using "1.IH" [OF Cons s(1) refl "1.prems"(1) s(2)] s(1)
      by (auto simp: enc_loop.simps [of v "t # rest"] Cons)
  qed (simp add: enc_loop.simps)
qed

lemma enc_roots_total: "\<not> uses_fixed_lengths v \<Longrightarrow> \<exists>payload. enc_each (enc_pattern v) ps out = Inr payload"
  by (rule enc_each_total) (simp add: enc_pattern_def enc_loop_total)

lemma encode_roots_total:
  assumes "is_supported v" and "\<not> uses_fixed_lengths v"
  shows "(\<exists>bs. encode_roots ps v = Inr bs) \<or>
    encode_roots ps v = Inl (BinError 0 (lit ''binary KORE payload is too large''))"
proof -
  obtain payload where "enc_each (enc_pattern v) ps [] = Inr payload" using enc_roots_total [OF assms(2)] by blast
  then show ?thesis using assms(1) by (auto simp: encode_roots_def Let_def)
qed

section \<open>Round trips\<close>

lemma decode_roots:
  assumes "encode_roots (p # ps) v = Inr bs" and "\<forall>q \<in> set (p # ps). bin_pattern q \<and> block_of q = BPattern q"
    and "length bs < 2 ^ 63"
  shows "decode_pattern bs = Inr \<lparr>cp_term = p, cp_constraints = ps\<rparr>" and "ps = [] \<Longrightarrow> decode_term bs = Inr p"
proof -
  have d: "decode_block bs = Inr (map block_of (p # ps))"
    using decode_block_encoded [OF assms(1) _ assms(3)] assms(2) by simp
  have m: "map block_of ps = map BPattern ps" using assms(2) by simp
  have e: "expect_pattern (Some (BPattern p)) n e = Inr p" for n e by (simp add: expect_pattern_def)
  have c: "collect_results (\<lambda>b. expect_pattern (Some b) n e) (map BPattern qs) = Inr qs" for n e qs
    by (induction qs) (auto simp: expect_pattern_def)
  show "decode_pattern bs = Inr \<lparr>cp_term = p, cp_constraints = ps\<rparr>"
    using assms(2) by (simp only: decode_pattern_def d m c e and_then.simps list.case list.map list.sel list.set_intros option.case Let_def)
  show "ps = [] \<Longrightarrow> decode_term bs = Inr p"
    using assms(2) by (simp add: decode_term_def d)
qed

text \<open>C12: A constrained pattern that binary KORE represents, encoded in any supported version, decodes
  to exactly that term and those constraints; a term alone decodes with \<open>decode_term\<close>. The terms are
  those whose names are valid text, whose variables are of the kind their name says, whose symbols
  are not connectives and whose domain values are canonical; a literal is not a term.\<close>

theorem binary_round_trip:
  assumes "\<forall>q \<in> set (p # ps). bin_pattern q \<and> (\<nexists>w. q = PString w)"
    and "encode_pattern_with_version \<lparr>cp_term = p, cp_constraints = ps\<rparr> v = Inr bs" and "length bs < 2 ^ 63"
  shows "decode_pattern bs = Inr \<lparr>cp_term = p, cp_constraints = ps\<rparr> \<and> (ps = [] \<longrightarrow> decode_term bs = Inr p)"
proof -
  have "block_of q = BPattern q" if "\<nexists>w. q = PString w" for q using that by (cases q) auto
  then have b: "\<forall>q \<in> set (p # ps). bin_pattern q \<and> block_of q = BPattern q" using assms(1) by blast
  have e: "encode_roots (p # ps) v = Inr bs" using assms(2) by (simp add: encode_pattern_with_version_def)
  show ?thesis
    using decode_roots(1) [OF e b assms(3)] decode_roots(2) [OF e b assms(3)] by blast
qed

definition sample_term :: pattern where
  "sample_term = PNot (SortVariable (lit ''S''))
     (PApplication \<lparr>symbol_name = lit ''f'', sort_parameters = []\<rparr> [PString [0x61], PTop (SortVariable (lit ''S''))])"

theorem binary_round_trip_witness:
  "\<exists>bs. encode_pattern_with_version \<lparr>cp_term = sample_term, cp_constraints = []\<rparr> V1_0_0 = Inr bs
     \<and> decode_term bs = Inr sample_term"
proof -
  obtain bs where e: "encode_pattern_with_version \<lparr>cp_term = sample_term, cp_constraints = []\<rparr> V1_0_0 = Inr bs
      \<and> length bs < 1000"
  proof -
    have "case encode_pattern_with_version \<lparr>cp_term = sample_term, cp_constraints = []\<rparr> V1_0_0 of
        Inr bs \<Rightarrow> length bs < 1000 | Inl _ \<Rightarrow> False" by code_simp
    then show ?thesis using that by (auto split: sum.splits)
  qed
  have "\<forall>q \<in> set [sample_term]. bin_pattern q \<and> (\<nexists>w. q = PString w)"
    by (simp add: sample_term_def plain_symbol_def valid_symbol_def connective_names_def is_scalar_def)
  then show ?thesis using binary_round_trip [of sample_term "[]" V1_0_0 bs] e by simp
qed

text \<open>C13: Whatever decodes as a term is a term that binary KORE represents, so it can be encoded in the
  latest version, where only a payload too large for its length field is an error, and decodes to the
  same term again.\<close>

theorem decode_encode_stable:
  assumes "decode_term input = Inr p"
  shows "bin_pattern p \<and>
    (case encode_term p of
       Inr bs \<Rightarrow> length bs < 2 ^ 63 \<longrightarrow> decode_term bs = Inr p
     | Inl f \<Rightarrow> f = BinError 0 (lit ''binary KORE payload is too large''))"
proof -
  obtain bs where "decode_block input = Inr bs" "bs = [BPattern p]"
    using assms by (auto simp: decode_term_def length_Suc_conv elim!: and_thenE split: if_splits block.splits list.splits)
  then have ok: "bin_pattern p" "block_of p = BPattern p" using decode_block_ok by fastforce+
  have "is_supported LATEST" "\<not> uses_fixed_lengths LATEST" by code_simp+
  from encode_roots_total [OF this, of "[p]"] show ?thesis
    using ok decode_roots(2) [of p "[]" LATEST]
    by (auto simp: encode_term_def encode_term_with_version_def)
qed

theorem decode_encode_stable_witness: "bin_pattern (PTop (SortVariable (lit ''S'')))"
proof -
  have "decode_term (header V1_1_0 0 @ [SORT_VARIABLE, 0x01, 1, 0x53, SYMBOL, 1, 0x01, 4, 0x5C, 0x74, 0x6F, 0x70,
      COMPOSITE_PATTERN, 0]) = Inr (PTop (SortVariable (lit ''S'')))" by code_simp
  then show ?thesis using decode_encode_stable by blast
qed

section \<open>Where the format loses something\<close>

text \<open>A literal alone is encoded, but what is encoded does not decode as a term.\<close>

lemma literal_is_no_term:
  assumes "encode_term (PString w) = Inr bs" and "length bs < 2 ^ 63"
  shows "decode_term bs = Inl (BinError (length bs) (lit ''expected a term, found string''))"
proof -
  have "decode_block bs = Inr [BString w]"
    using decode_block_encoded [of "[PString w]" LATEST bs] assms
    by (simp add: encode_term_def encode_term_with_version_def)
  then show ?thesis by (simp add: decode_term_def)
qed

text \<open>A literal argument that is not UTF-8 is stored as it is, not in canonical form.\<close>

lemma literal_argument_not_canonical:
  "decode_term (header V1_1_0 0 @ [STRING_PATTERN, 0x01, 1, 0xFF, SYMBOL, 0, 0x01, 1, 0x66, COMPOSITE_PATTERN, 1])
     = Inr (PApplication \<lparr>symbol_name = lit ''f'', sort_parameters = []\<rparr> [PString [0xFF]])
   \<and> canonical [0xFF] Utf8 \<noteq> [0xFF]"
  by code_simp

text \<open>A set variable that the lexer reads with a backslash comes back as an element variable.\<close>

lemma backslash_set_variable:
  "case encode_term (PVariable \<lparr>var_kind = SetVar, var_name = 92 # lit ''@X'', var_sort = SortVariable (lit ''S'')\<rparr>) of
     Inr bs \<Rightarrow> decode_term bs
       = Inr (PVariable \<lparr>var_kind = Element, var_name = 92 # lit ''@X'', var_sort = SortVariable (lit ''S'')\<rparr>)
   | Inl _ \<Rightarrow> False"
  by code_simp

end
