(* ===== verification/Kore_Node.thy ===== *)
theory Kore_Node
  imports Kore_Flatten "HOL-Library.AList"
begin

text \<open>
  Reading patterns one node at a time (\<open>kore/node.rs\<close>). A source of patterns is any type with a
  function \<open>node\<close> that gives the root of what it stands for, with the subpatterns as further
  sources; it may share subterms or build nodes on demand. The readers \<open>compare\<close>, \<open>flatten_at\<close>,
  \<open>materialize\<close> and \<open>measure_nodes\<close> only call \<open>node\<close>, so they are parametric in it here.

  The locale \<open>pattern_source\<close> is the contract of the trait: the source stands for a finite pattern
  \<open>denote s\<close>, and its node is the node of that pattern. A reader on a source that stands for
  nothing may not return (\<open>None\<close>); under the contract each returns what the corresponding
  operation on the pattern returns. Owned patterns satisfy the contract by \<open>node_of\<close>.
\<close>

section \<open>Nodes\<close>

datatype 's pattern_node =
    NString kore_string
  | NVariable variable
  | NApplication symbol "'s list"
  | NTop sort
  | NBottom sort
  | NAnd sort "'s list"
  | NOr sort "'s list"
  | NNot sort 's
  | NNext sort 's
  | NImplies sort 's 's
  | NIff sort 's 's
  | NRewrites sort 's 's
  | NExists sort variable 's
  | NForall sort variable 's
  | NMu variable 's
  | NNu variable 's
  | NCeil sort sort 's
  | NFloor sort sort 's
  | NEquals sort sort 's 's
  | NIn sort sort 's 's
  | NDomainValue sort kore_string
  | NAssociative associativity symbol "'s list"

text \<open>\<open>PatternSource for &Pattern\<close>: the node of an owned pattern, with its subpatterns as sources.\<close>

fun node_of :: "pattern \<Rightarrow> pattern pattern_node" where
  "node_of (PString w) = NString w"
| "node_of (PVariable x) = NVariable x"
| "node_of (PApplication f args) = NApplication f args"
| "node_of (PTop s) = NTop s"
| "node_of (PBottom s) = NBottom s"
| "node_of (PAnd s args) = NAnd s args"
| "node_of (POr s args) = NOr s args"
| "node_of (PNot s p) = NNot s p"
| "node_of (PNext s p) = NNext s p"
| "node_of (PImplies s p q) = NImplies s p q"
| "node_of (PIff s p q) = NIff s p q"
| "node_of (PRewrites s p q) = NRewrites s p q"
| "node_of (PExists s x p) = NExists s x p"
| "node_of (PForall s x p) = NForall s x p"
| "node_of (PMu x p) = NMu x p"
| "node_of (PNu x p) = NNu x p"
| "node_of (PCeil s t p) = NCeil s t p"
| "node_of (PFloor s t p) = NFloor s t p"
| "node_of (PEquals s t p q) = NEquals s t p q"
| "node_of (PIn s t p q) = NIn s t p q"
| "node_of (PDomainValue s w) = NDomainValue s w"
| "node_of (PAssociative a f args) = NAssociative a f args"

fun node_discriminant :: "'s pattern_node \<Rightarrow> nat" where
  "node_discriminant (NString _) = 0"
| "node_discriminant (NVariable _) = 1"
| "node_discriminant (NApplication _ _) = 2"
| "node_discriminant (NTop _) = 3"
| "node_discriminant (NBottom _) = 4"
| "node_discriminant (NAnd _ _) = 5"
| "node_discriminant (NOr _ _) = 6"
| "node_discriminant (NNot _ _) = 7"
| "node_discriminant (NNext _ _) = 8"
| "node_discriminant (NImplies _ _ _) = 9"
| "node_discriminant (NIff _ _ _) = 10"
| "node_discriminant (NRewrites _ _ _) = 11"
| "node_discriminant (NExists _ _ _) = 12"
| "node_discriminant (NForall _ _ _) = 13"
| "node_discriminant (NMu _ _) = 14"
| "node_discriminant (NNu _ _) = 15"
| "node_discriminant (NCeil _ _ _) = 16"
| "node_discriminant (NFloor _ _ _) = 17"
| "node_discriminant (NEquals _ _ _ _) = 18"
| "node_discriminant (NIn _ _ _ _) = 19"
| "node_discriminant (NDomainValue _ _) = 20"
| "node_discriminant (NAssociative _ _ _) = 21"

text \<open>\<open>compare_scalars\<close>: the fields that are not patterns, of two nodes of one variant.\<close>

definition compare_scalars :: "'s pattern_node \<Rightarrow> 't pattern_node \<Rightarrow> ordering" where
  "compare_scalars left right = (case left of
     NString l \<Rightarrow> (case right of NString r \<Rightarrow> kore_string_cmp l r | _ \<Rightarrow> Equal)
   | NVariable l \<Rightarrow> (case right of NVariable r \<Rightarrow> variable_cmp l r | _ \<Rightarrow> Equal)
   | NApplication l _ \<Rightarrow> (case right of NApplication r _ \<Rightarrow> symbol_cmp l r | _ \<Rightarrow> Equal)
   | NTop l \<Rightarrow> (case right of NTop r \<Rightarrow> sort_cmp l r | _ \<Rightarrow> Equal)
   | NBottom l \<Rightarrow> (case right of NBottom r \<Rightarrow> sort_cmp l r | _ \<Rightarrow> Equal)
   | NAnd l _ \<Rightarrow> (case right of NAnd r _ \<Rightarrow> sort_cmp l r | _ \<Rightarrow> Equal)
   | NOr l _ \<Rightarrow> (case right of NOr r _ \<Rightarrow> sort_cmp l r | _ \<Rightarrow> Equal)
   | NNot l _ \<Rightarrow> (case right of NNot r _ \<Rightarrow> sort_cmp l r | _ \<Rightarrow> Equal)
   | NNext l _ \<Rightarrow> (case right of NNext r _ \<Rightarrow> sort_cmp l r | _ \<Rightarrow> Equal)
   | NImplies l _ _ \<Rightarrow> (case right of NImplies r _ _ \<Rightarrow> sort_cmp l r | _ \<Rightarrow> Equal)
   | NIff l _ _ \<Rightarrow> (case right of NIff r _ _ \<Rightarrow> sort_cmp l r | _ \<Rightarrow> Equal)
   | NRewrites l _ _ \<Rightarrow> (case right of NRewrites r _ _ \<Rightarrow> sort_cmp l r | _ \<Rightarrow> Equal)
   | NExists l l' _ \<Rightarrow> (case right of NExists r r' _ \<Rightarrow> then_with (sort_cmp l r) (variable_cmp l' r') | _ \<Rightarrow> Equal)
   | NForall l l' _ \<Rightarrow> (case right of NForall r r' _ \<Rightarrow> then_with (sort_cmp l r) (variable_cmp l' r') | _ \<Rightarrow> Equal)
   | NMu l _ \<Rightarrow> (case right of NMu r _ \<Rightarrow> variable_cmp l r | _ \<Rightarrow> Equal)
   | NNu l _ \<Rightarrow> (case right of NNu r _ \<Rightarrow> variable_cmp l r | _ \<Rightarrow> Equal)
   | NCeil l l' _ \<Rightarrow> (case right of NCeil r r' _ \<Rightarrow> then_with (sort_cmp l r) (sort_cmp l' r') | _ \<Rightarrow> Equal)
   | NFloor l l' _ \<Rightarrow> (case right of NFloor r r' _ \<Rightarrow> then_with (sort_cmp l r) (sort_cmp l' r') | _ \<Rightarrow> Equal)
   | NEquals l l' _ _ \<Rightarrow> (case right of NEquals r r' _ _ \<Rightarrow> then_with (sort_cmp l r) (sort_cmp l' r') | _ \<Rightarrow> Equal)
   | NIn l l' _ _ \<Rightarrow> (case right of NIn r r' _ _ \<Rightarrow> then_with (sort_cmp l r) (sort_cmp l' r') | _ \<Rightarrow> Equal)
   | NDomainValue l l' \<Rightarrow> (case right of NDomainValue r r' \<Rightarrow> then_with (sort_cmp l r) (kore_string_cmp l' r') | _ \<Rightarrow> Equal)
   | NAssociative l l' _ \<Rightarrow> (case right of NAssociative r r' _ \<Rightarrow> then_with (associativity_cmp l r) (symbol_cmp l' r') | _ \<Rightarrow> Equal))"

text \<open>\<open>split\<close>: the node without its subpatterns, and the subpatterns in field order.\<close>

fun split_node :: "'s pattern_node \<Rightarrow> unit pattern_node \<times> 's list" where
  "split_node (NString w) = (NString w, [])"
| "split_node (NVariable x) = (NVariable x, [])"
| "split_node (NApplication f args) = (NApplication f (map (\<lambda>_. ()) args), args)"
| "split_node (NTop s) = (NTop s, [])"
| "split_node (NBottom s) = (NBottom s, [])"
| "split_node (NAnd s args) = (NAnd s (map (\<lambda>_. ()) args), args)"
| "split_node (NOr s args) = (NOr s (map (\<lambda>_. ()) args), args)"
| "split_node (NNot s p) = (NNot s (), [p])"
| "split_node (NNext s p) = (NNext s (), [p])"
| "split_node (NImplies s p q) = (NImplies s () (), [p, q])"
| "split_node (NIff s p q) = (NIff s () (), [p, q])"
| "split_node (NRewrites s p q) = (NRewrites s () (), [p, q])"
| "split_node (NExists s x p) = (NExists s x (), [p])"
| "split_node (NForall s x p) = (NForall s x (), [p])"
| "split_node (NMu x p) = (NMu x (), [p])"
| "split_node (NNu x p) = (NNu x (), [p])"
| "split_node (NCeil s t p) = (NCeil s t (), [p])"
| "split_node (NFloor s t p) = (NFloor s t (), [p])"
| "split_node (NEquals s t p q) = (NEquals s t () (), [p, q])"
| "split_node (NIn s t p q) = (NIn s t () (), [p, q])"
| "split_node (NDomainValue s w) = (NDomainValue s w, [])"
| "split_node (NAssociative a f args) = (NAssociative a f (map (\<lambda>_. ()) args), args)"

text \<open>
  \<open>fill\<close>: the inverse. \<open>None\<close> is a panic: a list of the wrong length, a missing child, or (with debug
  assertions on) a child that is left over.
\<close>

fun filled_list :: "unit list \<Rightarrow> 't list \<Rightarrow> 't list option" where
  "filled_list shape built = (if length shape = length built then Some built else None)"

fun no_child :: "'t list \<Rightarrow> 'n \<Rightarrow> 'n option" where
  "no_child [] node = Some node"
| "no_child (_ # _) node = None"

fun one_child :: "'t list \<Rightarrow> ('t \<Rightarrow> 'n) \<Rightarrow> 'n option" where
  "one_child [p] node = Some (node p)"
| "one_child _ node = None"

fun two_children :: "'t list \<Rightarrow> ('t \<Rightarrow> 't \<Rightarrow> 'n) \<Rightarrow> 'n option" where
  "two_children [p, q] node = Some (node p q)"
| "two_children _ node = None"

fun fill_node :: "unit pattern_node \<Rightarrow> 't list \<Rightarrow> 't pattern_node option" where
  "fill_node (NString w) built = no_child built (NString w)"
| "fill_node (NVariable x) built = no_child built (NVariable x)"
| "fill_node (NApplication f shape) built = map_option (NApplication f) (filled_list shape built)"
| "fill_node (NTop s) built = no_child built (NTop s)"
| "fill_node (NBottom s) built = no_child built (NBottom s)"
| "fill_node (NAnd s shape) built = map_option (NAnd s) (filled_list shape built)"
| "fill_node (NOr s shape) built = map_option (NOr s) (filled_list shape built)"
| "fill_node (NNot s _) built = one_child built (NNot s)"
| "fill_node (NNext s _) built = one_child built (NNext s)"
| "fill_node (NImplies s _ _) built = two_children built (NImplies s)"
| "fill_node (NIff s _ _) built = two_children built (NIff s)"
| "fill_node (NRewrites s _ _) built = two_children built (NRewrites s)"
| "fill_node (NExists s x _) built = one_child built (NExists s x)"
| "fill_node (NForall s x _) built = one_child built (NForall s x)"
| "fill_node (NMu x _) built = one_child built (NMu x)"
| "fill_node (NNu x _) built = one_child built (NNu x)"
| "fill_node (NCeil s t _) built = one_child built (NCeil s t)"
| "fill_node (NFloor s t _) built = one_child built (NFloor s t)"
| "fill_node (NEquals s t _ _) built = two_children built (NEquals s t)"
| "fill_node (NIn s t _ _) built = two_children built (NIn s t)"
| "fill_node (NDomainValue s w) built = no_child built (NDomainValue s w)"
| "fill_node (NAssociative a f shape) built = map_option (NAssociative a f) (filled_list shape built)"

fun into_pattern :: "pattern pattern_node \<Rightarrow> pattern" where
  "into_pattern (NString w) = PString w"
| "into_pattern (NVariable x) = PVariable x"
| "into_pattern (NApplication f args) = PApplication f args"
| "into_pattern (NTop s) = PTop s"
| "into_pattern (NBottom s) = PBottom s"
| "into_pattern (NAnd s args) = PAnd s args"
| "into_pattern (NOr s args) = POr s args"
| "into_pattern (NNot s p) = PNot s p"
| "into_pattern (NNext s p) = PNext s p"
| "into_pattern (NImplies s p q) = PImplies s p q"
| "into_pattern (NIff s p q) = PIff s p q"
| "into_pattern (NRewrites s p q) = PRewrites s p q"
| "into_pattern (NExists s x p) = PExists s x p"
| "into_pattern (NForall s x p) = PForall s x p"
| "into_pattern (NMu x p) = PMu x p"
| "into_pattern (NNu x p) = PNu x p"
| "into_pattern (NCeil s t p) = PCeil s t p"
| "into_pattern (NFloor s t p) = PFloor s t p"
| "into_pattern (NEquals s t p q) = PEquals s t p q"
| "into_pattern (NIn s t p q) = PIn s t p q"
| "into_pattern (NDomainValue s w) = PDomainValue s w"
| "into_pattern (NAssociative a f args) = PAssociative a f args"

section \<open>Splitting and filling\<close>

lemma split_length: "length (snd (split_node (map_pattern_node f nd))) = length (snd (split_node nd))"
  by (cases nd) auto

lemma split_map:
  "split_node (map_pattern_node f nd) = (fst (split_node nd), map f (snd (split_node nd)))"
  by (cases nd) auto

lemma fill_split:
  assumes "split_node nd = (shape, cs)" and "length ds = length cs"
  shows "\<exists>nd'. fill_node shape ds = Some nd' \<and> split_node nd' = (shape, ds)"
  using assms
  by (cases nd) (auto simp: length_Suc_conv intro!: map_replicate_const simp: map_replicate_const)

text \<open>\<open>fill\<close> undoes \<open>split\<close>.\<close>

lemma fill_split_map:
  "fill_node (fst (split_node nd)) (map f (snd (split_node nd))) = Some (map_pattern_node f nd)"
  by (cases nd) auto

lemma fill_inverts_split:
  "split_node nd = (shape, cs) \<Longrightarrow> fill_node shape cs = Some nd"
  using fill_split_map [of nd id] by (simp add: pattern_node.map_id)

lemma into_pattern_node_of [simp]: "into_pattern (node_of p) = p"
  by (cases p) auto

lemma node_of_into_pattern [simp]: "node_of (into_pattern nd) = nd"
  by (cases nd) auto

lemma children_node_of: "children p = snd (split_node (node_of p))"
  by (cases p) auto

lemma discriminant_node_of: "discriminant p = node_discriminant (node_of p)"
  by (cases p) auto

lemma scalars_node_of: "pattern_scalars p q = compare_scalars (node_of p) (node_of q)"
  by (cases p; simp add: pattern_scalars_def compare_scalars_def; cases q; simp)

lemma compare_scalars_map:
  "compare_scalars (map_pattern_node f m) (map_pattern_node g n) = compare_scalars m n"
  by (cases m; simp add: compare_scalars_def; cases n; simp)

lemma node_discriminant_map [simp]: "node_discriminant (map_pattern_node f nd) = node_discriminant nd"
  by (cases nd) auto

section \<open>The contract of a source\<close>

locale pattern_source =
  fixes node :: "'s \<Rightarrow> 's pattern_node" and denote :: "'s \<Rightarrow> pattern"
  assumes denote_node: "denote s = into_pattern (map_pattern_node denote (node s))"
begin

lemma node_of_denote: "node_of (denote s) = map_pattern_node denote (node s)"
  by (simp add: denote_node [of s])

lemma children_denote: "children (denote s) = map denote (snd (split_node (node s)))"
  by (simp add: children_node_of node_of_denote split_map)

lemma discriminant_denote: "discriminant (denote s) = node_discriminant (node s)"
  by (simp add: discriminant_node_of node_of_denote)

lemma scalars_denote: "pattern_scalars (denote s) (denote t) = compare_scalars (node s) (node t)"
  by (simp add: scalars_node_of node_of_denote compare_scalars_map)

lemma head_denote:
  "pattern_head_cmp (denote s) (denote t)
     = then_with (ord_cmp (node_discriminant (node s)) (node_discriminant (node t)))
         (compare_scalars (node s) (node t))"
  by (simp add: pattern_head_cmp_def discriminant_denote scalars_denote)

lemma split_smaller:
  "c \<in> set (snd (split_node (node s))) \<Longrightarrow> pattern_nodes (denote c) < pattern_nodes (denote s)"
  using pattern_nodes_child [of "denote c" "denote s"] by (simp add: children_denote)

text \<open>Induction over a source, with a hypothesis for each subpattern.\<close>

lemma source_induct [case_names node]:
  assumes "\<And>s. (\<And>c. c \<in> set (snd (split_node (node s))) \<Longrightarrow> P c) \<Longrightarrow> P s"
  shows "P s"
  by (induction s rule: measure_induct_rule [of "\<lambda>s. pattern_nodes (denote s)"])
    (auto intro: assms dest: split_smaller)

end

interpretation owned: pattern_source node_of id
  by unfold_locales (simp add: pattern_node.map_id0)

section \<open>Comparison\<close>

text \<open>
  The loop of \<open>compare\<close>. \<open>same\<close> is \<open>same_pattern\<close>: a pair for which it holds is known to be equal and
  is not read.
\<close>

partial_function (option) compare_loop ::
    "('s \<Rightarrow> 's pattern_node) \<Rightarrow> ('s \<Rightarrow> 's \<Rightarrow> bool) \<Rightarrow> 's cmp_step list \<Rightarrow> ordering option" where
  "compare_loop node same work =
     (case work of
        [] \<Rightarrow> Some Equal
      | PrefixLength ord # work \<Rightarrow> if ord \<noteq> Equal then Some ord else compare_loop node same work
      | Compare left right # work \<Rightarrow>
          if same left right then compare_loop node same work
          else
            (let l = node left; r = node right;
                 ordering = then_with (ord_cmp (node_discriminant l) (node_discriminant r)) (compare_scalars l r)
             in if ordering \<noteq> Equal then Some ordering
                else
                  (let left_children = snd (split_node l); right_children = snd (split_node r)
                   in compare_loop node same (map2 Compare left_children right_children
                        @ PrefixLength (ord_cmp (length left_children) (length right_children)) # work))))"

definition compare_sources ::
    "('s \<Rightarrow> 's pattern_node) \<Rightarrow> ('s \<Rightarrow> 's \<Rightarrow> bool) \<Rightarrow> 's \<Rightarrow> 's \<Rightarrow> ordering option" where
  "compare_sources node same left right = compare_loop node same [Compare left right]"

lemma compare_loop_steps:
  "compare_loop node same [] = Some Equal"
  "compare_loop node same (PrefixLength ord # work)
     = (if ord \<noteq> Equal then Some ord else compare_loop node same work)"
  by (simp_all add: compare_loop.simps [of node same "_ # _"] compare_loop.simps [of node same "[]"])

text \<open>\<open>same_pattern\<close> claims equality and nothing when it does not hold.\<close>

locale shared_source = pattern_source +
  fixes same :: "'a \<Rightarrow> 'a \<Rightarrow> bool"
  assumes same_denote: "same s t \<Longrightarrow> denote s = denote t"
begin

lemma compare_loop_pairs:
  assumes "\<And>a b work. a \<in> set as \<Longrightarrow> compare_loop node same (Compare a b # work)
      = (case pattern_order (denote a) (denote b) of Equal \<Rightarrow> compare_loop node same work | ord \<Rightarrow> Some ord)"
  shows "compare_loop node same (map2 Compare as bs @ work)
      = (case foldr then_with (map2 pattern_order (map denote as) (map denote bs)) Equal of
           Equal \<Rightarrow> compare_loop node same work | ord \<Rightarrow> Some ord)"
  using assms
proof (induction as arbitrary: bs)
  case (Cons a as)
  then show ?case
    by (cases bs) (auto split: ordering.split)
qed simp

lemma compare_loop_denote:
  "compare_loop node same (Compare s t # work)
     = (case pattern_order (denote s) (denote t) of Equal \<Rightarrow> compare_loop node same work | ord \<Rightarrow> Some ord)"
proof (induction s arbitrary: t work rule: source_induct)
  case (node s)
  let ?as = "snd (split_node (node s))" and ?bs = "snd (split_node (node t))"
  let ?len = "ord_cmp (length ?as) (length ?bs)"
  have refl: "pattern_order p p = Equal" for p
    by (simp add: pattern_cmp_eq [symmetric])
  have "compare_loop node same (map2 Compare ?as ?bs @ PrefixLength ?len # work)
      = (case list_cmp pattern_order (map denote ?as) (map denote ?bs) of
           Equal \<Rightarrow> compare_loop node same work | ord \<Rightarrow> Some ord)"
    using compare_loop_pairs [OF node, of ?as ?bs "PrefixLength ?len # work"]
    by (simp add: list_cmp_zip compare_loop_steps split: ordering.split)
  moreover have "pattern_order (denote s) (denote t)
      = then_with (pattern_head_cmp (denote s) (denote t))
          (list_cmp pattern_order (map denote ?as) (map denote ?bs))"
    by (simp add: pattern_order.simps [of "denote s"] children_denote)
  moreover have "compare_loop node same (Compare s t # work)
      = (if same s t then compare_loop node same work
         else if pattern_head_cmp (denote s) (denote t) \<noteq> Equal then Some (pattern_head_cmp (denote s) (denote t))
         else compare_loop node same (map2 Compare ?as ?bs @ PrefixLength ?len # work))"
    by (subst compare_loop.simps) (simp add: head_denote Let_def)
  ultimately show ?case
    using same_denote [of s t] refl by (auto split: ordering.split)
qed

lemma compare_sources_denote: "compare_sources node same s t = Some (pattern_cmp (denote s) (denote t))"
  by (simp add: compare_sources_def compare_loop_denote compare_loop_steps pattern_cmp_eq split: ordering.split)

end

section \<open>Flattening\<close>

fun flat_source :: "bool \<Rightarrow> sort \<Rightarrow> 's pattern_node \<Rightarrow> 's list option option" where
  "flat_source conjunction s (NAnd node_sort arguments) =
     (if conjunction \<and> node_sort = s then Some (Some arguments) else None)"
| "flat_source conjunction s (NOr node_sort arguments) =
     (if \<not> conjunction \<and> node_sort = s then Some (Some arguments) else None)"
| "flat_source conjunction s (NTop node_sort) =
     (if conjunction \<and> node_sort = s then Some None else None)"
| "flat_source conjunction s (NBottom node_sort) =
     (if \<not> conjunction \<and> node_sort = s then Some None else None)"
| "flat_source conjunction s _ = None"

text \<open>The loop of \<open>flatten_at\<close>: arguments of the connective, its unit, or an operand kept as it is.\<close>

partial_function (option) source_flatten_loop ::
    "('s \<Rightarrow> 's pattern_node) \<Rightarrow> bool \<Rightarrow> sort \<Rightarrow> 's list \<Rightarrow> 's list \<Rightarrow> 's list option" where
  "source_flatten_loop node conjunction s work result =
     (case work of
        [] \<Rightarrow> Some result
      | source # work \<Rightarrow>
          (case flat_source conjunction s (node source) of
             Some (Some arguments) \<Rightarrow> source_flatten_loop node conjunction s (arguments @ work) result
           | Some None \<Rightarrow> source_flatten_loop node conjunction s work result
           | None \<Rightarrow> source_flatten_loop node conjunction s work (result @ [source])))"

definition source_flatten_at :: "('s \<Rightarrow> 's pattern_node) \<Rightarrow> 's \<Rightarrow> sort \<Rightarrow> bool \<Rightarrow> 's list option" where
  "source_flatten_at node root s conjunction = source_flatten_loop node conjunction s [root] []"

lemma flat_source_split:
  "flat_source cj s nd = Some (Some arguments) \<Longrightarrow> snd (split_node nd) = arguments"
  by (cases nd) (auto split: if_splits)

lemma flat_node_into_pattern:
  "flat_node cj s (into_pattern (map_pattern_node f nd))
     = (case flat_source cj s nd of Some (Some arguments) \<Rightarrow> Nested (map f arguments)
        | Some None \<Rightarrow> FlatUnit | None \<Rightarrow> Operand)"
  by (cases nd) auto

context pattern_source
begin

text \<open>The operands of a source: those of its pattern, as sources.\<close>

function source_operands :: "bool \<Rightarrow> sort \<Rightarrow> 's \<Rightarrow> 's list" where
  "source_operands cj s src =
     (case flat_source cj s (node src) of
        Some (Some arguments) \<Rightarrow> concat (map (source_operands cj s) arguments)
      | Some None \<Rightarrow> [] | None \<Rightarrow> [src])"
  by pat_completeness auto
termination
  by (relation "measure (\<lambda>(_, _, src). pattern_nodes (denote src))")
    (auto dest!: flat_source_split intro!: split_smaller)

declare source_operands.simps [simp del]

lemma flat_node_denote:
  "flat_node cj s (denote src)
     = (case flat_source cj s (node src) of Some (Some arguments) \<Rightarrow> Nested (map denote arguments)
        | Some None \<Rightarrow> FlatUnit | None \<Rightarrow> Operand)"
  by (subst denote_node) (rule flat_node_into_pattern)

lemma operands_denote: "map denote (source_operands cj s src) = operands cj s (denote src)"
proof (induction src rule: source_induct)
  case (node src)
  have "concat (map (map denote \<circ> source_operands cj s) arguments) = concat (map (operands cj s \<circ> denote) arguments)"
    if "flat_source cj s (node src) = Some (Some arguments)" for arguments
    by (rule arg_cong [where f = concat]) (use node flat_source_split [OF that] in simp)
  then show ?case
    by (auto simp: source_operands.simps [of cj s src] operands.simps [of cj s "denote src"] flat_node_denote
        map_concat simp del: map_eq_conv split: option.split)
qed

lemma source_flatten_one:
  "source_flatten_loop node cj s (src # work) result
     = source_flatten_loop node cj s work (result @ source_operands cj s src)"
proof (induction src arbitrary: work result rule: source_induct)
  case (node src)
  have all: "source_flatten_loop node cj s (args @ work) result
      = source_flatten_loop node cj s work (result @ concat (map (source_operands cj s) args))"
    if "set args \<subseteq> set (snd (split_node (node src)))" for args result
    using that by (induction args arbitrary: result) (auto simp: node)
  show ?case
    using all [of "the (the (flat_source cj s (node src)))"] flat_source_split [of cj s "node src"]
    by (subst source_flatten_loop.simps)
      (auto simp: source_operands.simps [of cj s src] split: option.split)
qed

lemma source_flatten_denote:
  "source_flatten_at node root s cj = Some (source_operands cj s root)"
  "map denote (source_operands cj s root) = flatten_at (denote root) s cj"
  by (simp_all add: source_flatten_at_def source_flatten_one source_flatten_loop.simps [of node cj s "[]"]
      operands_denote flatten_at_operands)

end

section \<open>Materialization\<close>

record 's source_frame =
  sf_shape :: "unit pattern_node"
  sf_children :: "'s list"
  sf_built :: "pattern list"

definition source_frame :: "('s \<Rightarrow> 's pattern_node) \<Rightarrow> 's \<Rightarrow> 's source_frame" where
  "source_frame node source =
     (let (shape, children) = split_node (node source)
      in \<lparr>sf_shape = shape, sf_children = children, sf_built = []\<rparr>)"

partial_function (option) materialize_loop :: "('s \<Rightarrow> 's pattern_node) \<Rightarrow> 's source_frame list \<Rightarrow> pattern option" where
  "materialize_loop node stack =
     (case stack of
        [] \<Rightarrow> None
      | frame # stack \<Rightarrow>
          (case sf_children frame of
             child # rest \<Rightarrow> materialize_loop node (source_frame node child # frame\<lparr>sf_children := rest\<rparr> # stack)
           | [] \<Rightarrow>
               (case fill_node (sf_shape frame) (sf_built frame) of
                  None \<Rightarrow> None
                | Some nd \<Rightarrow>
                    (case stack of
                       [] \<Rightarrow> Some (into_pattern nd)
                     | parent # stack \<Rightarrow>
                         materialize_loop node (parent\<lparr>sf_built := sf_built parent @ [into_pattern nd]\<rparr> # stack)))))"

definition materialize :: "('s \<Rightarrow> 's pattern_node) \<Rightarrow> 's \<Rightarrow> pattern option" where
  "materialize node root = materialize_loop node [source_frame node root]"

context pattern_source
begin

text \<open>A frame that has read a source hands its pattern to the frame below.\<close>

lemma materialize_frames:
  "materialize_loop node (source_frame node s # parent # stack)
     = materialize_loop node (parent\<lparr>sf_built := sf_built parent @ [denote s]\<rparr> # stack)"
  "materialize_loop node [source_frame node s] = Some (denote s)"
proof (induction s arbitrary: parent stack rule: source_induct)
  case (node s)
  let ?cs = "snd (split_node (node s))" and ?shape = "fst (split_node (node s))"
  have frame: "source_frame node s = \<lparr>sf_shape = ?shape, sf_children = ?cs, sf_built = []\<rparr>"
    by (simp add: source_frame_def split_beta)
  have all: "materialize_loop node (\<lparr>sf_shape = ?shape, sf_children = cs, sf_built = built\<rparr> # stack)
      = materialize_loop node (\<lparr>sf_shape = ?shape, sf_children = [], sf_built = built @ map denote cs\<rparr> # stack)"
    if "set cs \<subseteq> set ?cs" for cs built stack
    using that by (induction cs arbitrary: built) (auto simp: materialize_loop.simps [of node "\<lparr>sf_shape = _, sf_children = _ # _, sf_built = _\<rparr> # _"] node)
  have "fill_node ?shape (map denote ?cs) = Some (map_pattern_node denote (node s))"
    by (rule fill_split_map)
  then have done': "materialize_loop node (\<lparr>sf_shape = ?shape, sf_children = [], sf_built = map denote ?cs\<rparr> # stack)
      = (case stack of [] \<Rightarrow> Some (denote s)
         | parent # stack \<Rightarrow> materialize_loop node (parent\<lparr>sf_built := sf_built parent @ [denote s]\<rparr> # stack))" for stack
    by (subst materialize_loop.simps) (simp add: denote_node [of s, symmetric] split: list.split)
  {
    case 1
    show ?case using all [of ?cs "[]" "parent # stack"] done' [of "parent # stack"] by (simp add: frame)
  next
    case 2
    show ?case using all [of ?cs "[]" "[]"] done' [of "[]"] by (simp add: frame)
  }
qed

lemma materialize_denote: "materialize node s = Some (denote s)"
  by (simp add: materialize_def materialize_frames)

end

section \<open>Counting nodes\<close>

definition U64_MAX :: nat where "U64_MAX = 2 ^ 64 - 1"

text \<open>\<open>u64::saturating_add\<close>.\<close>

definition sat_add :: "nat \<Rightarrow> nat \<Rightarrow> nat" where
  "sat_add a b = min U64_MAX (a + b)"

datatype 's measure_task = MEnter 's | MFinish "nat option" nat

definition sum_counts :: "(nat \<times> nat) list \<Rightarrow> nat \<times> nat \<Rightarrow> nat \<times> nat" where
  "sum_counts counts start =
     fold (\<lambda>(child_size, child_anonymous) (size, anonymous).
       (sat_add size child_size, sat_add anonymous child_anonymous)) counts start"

text \<open>
  The loop of \<open>measure_nodes\<close>: \<open>memo\<close> holds the counts of the identities met so far, \<open>sizes\<close> those of
  the finished sources, the last one first. \<open>None\<close> is also the panic of popping too many sizes.
\<close>

partial_function (option) measure_loop ::
    "('s \<Rightarrow> 's pattern_node) \<Rightarrow> ('s \<Rightarrow> nat option) \<Rightarrow> 's measure_task list \<Rightarrow> (nat \<times> nat \<times> nat) list
     \<Rightarrow> (nat \<times> nat) list \<Rightarrow> (nat \<times> nat) option" where
  "measure_loop node identity tasks memo sizes =
     (case tasks of
        [] \<Rightarrow> (case sizes of
            [] \<Rightarrow> None
          | (written, anonymous) # _ \<Rightarrow> Some (written, sat_add anonymous (length memo)))
      | MEnter source # tasks \<Rightarrow>
          (case Option.bind (identity source) (map_of memo) of
             Some value \<Rightarrow> measure_loop node identity tasks memo (value # sizes)
           | None \<Rightarrow>
               (let children = snd (split_node (node source))
                in measure_loop node identity
                     (map MEnter children @ MFinish (identity source) (length children) # tasks) memo sizes))
      | MFinish key count # tasks \<Rightarrow>
          (if length sizes < count then None
           else
             (let counts = sum_counts (rev (take count sizes)) (1, if key = None then 1 else 0);
                  memo = (case key of Some k \<Rightarrow> AList.update k counts memo | None \<Rightarrow> memo)
              in measure_loop node identity tasks memo (counts # drop count sizes))))"

definition measure_nodes :: "('s \<Rightarrow> 's pattern_node) \<Rightarrow> ('s \<Rightarrow> nat option) \<Rightarrow> 's \<Rightarrow> (nat \<times> nat) option" where
  "measure_nodes node identity root = measure_loop node identity [MEnter root] [] []"

lemma measure_loop_steps:
  "measure_loop node identity (MEnter source # tasks) memo sizes =
     (case Option.bind (identity source) (map_of memo) of
        Some value \<Rightarrow> measure_loop node identity tasks memo (value # sizes)
      | None \<Rightarrow>
          (let children = snd (split_node (node source))
           in measure_loop node identity
                (map MEnter children @ MFinish (identity source) (length children) # tasks) memo sizes))"
  "measure_loop node identity (MFinish key count # tasks) memo sizes =
     (if length sizes < count then None
      else
        (let counts = sum_counts (rev (take count sizes)) (1, if key = None then 1 else 0);
             memo = (case key of Some k \<Rightarrow> AList.update k counts memo | None \<Rightarrow> memo)
         in measure_loop node identity tasks memo (counts # drop count sizes)))"
  by (subst measure_loop.simps, simp)+

lemma sat_add_min [simp]: "sat_add (min U64_MAX a) (min U64_MAX b) = min U64_MAX (a + b)"
  by (simp add: sat_add_def min_def)

lemma sum_counts_min:
  "sum_counts (map (\<lambda>c. (min U64_MAX (f c), min U64_MAX (g c))) cs) (min U64_MAX a, min U64_MAX b)
     = (min U64_MAX (a + sum_list (map f cs)), min U64_MAX (b + sum_list (map g cs)))"
  by (induction cs arbitrary: a b) (simp_all add: sum_counts_def add.assoc)

text \<open>An identity names one node: sources with one identity read the same node.\<close>

locale identified_source = pattern_source node denote
  for node :: "'s \<Rightarrow> 's pattern_node" and denote +
  fixes identity :: "'s \<Rightarrow> nat option"
  assumes one_node: "identity s = Some k \<Longrightarrow> identity t = Some k \<Longrightarrow> node s = node t"
begin

text \<open>The sources without identity in the expanded tree, and the identities in it.\<close>

function anonymous_nodes :: "'s \<Rightarrow> nat" where
  "anonymous_nodes s =
     (if identity s = None then 1 else 0) + sum_list (map anonymous_nodes (snd (split_node (node s))))"
  by pat_completeness auto
termination
  by (relation "measure (\<lambda>s. pattern_nodes (denote s))") (auto intro: split_smaller)

function identities :: "'s \<Rightarrow> nat set" where
  "identities s = set_option (identity s) \<union> \<Union> (identities ` set (snd (split_node (node s))))"
  by pat_completeness auto
termination
  by (relation "measure (\<lambda>s. pattern_nodes (denote s))") (auto intro: split_smaller)

declare anonymous_nodes.simps [simp del] identities.simps [simp del]

definition counts :: "'s \<Rightarrow> nat \<times> nat" where
  "counts s = (min U64_MAX (pattern_nodes (denote s)), min U64_MAX (anonymous_nodes s))"

lemma one_identity:
  assumes "identity s = Some k" and "identity t = Some k"
  shows "counts s = counts t" and "identities s = identities t"
proof -
  have n: "node s = node t" by (rule one_node [OF assms])
  then have "denote s = denote t" by (simp add: denote_node [of s] denote_node [of t])
  then show "counts s = counts t"
    using n assms by (simp add: counts_def anonymous_nodes.simps [of s] anonymous_nodes.simps [of t])
  show "identities s = identities t"
    using n assms by (simp add: identities.simps [of s] identities.simps [of t])
qed

definition memo_ok :: "(nat \<times> nat \<times> nat) list \<Rightarrow> bool" where
  "memo_ok memo \<longleftrightarrow> distinct (map fst memo)
     \<and> (\<forall>k v s. map_of memo k = Some v \<longrightarrow> identity s = Some k \<longrightarrow>
          v = counts s \<and> identities s \<subseteq> set (map fst memo))"

lemma memo_okD:
  assumes "memo_ok memo" and "map_of memo k = Some v" and "identity s = Some k"
  shows "v = counts s" and "identities s \<subseteq> set (map fst memo)"
proof -
  have "\<forall>k v s. map_of memo k = Some v \<longrightarrow> identity s = Some k \<longrightarrow> v = counts s \<and> identities s \<subseteq> set (map fst memo)"
    using assms(1) unfolding memo_ok_def by (rule conjunct2)
  from this [rule_format, OF assms(2,3)] show "v = counts s" "identities s \<subseteq> set (map fst memo)" by auto
qed

lemma memo_ok_update:
  assumes "memo_ok memo" and "identity s = Some k" and "identities s \<subseteq> insert k (set (map fst memo))"
  shows "memo_ok (AList.update k (counts s) memo)"
proof -
  let ?m = "AList.update k (counts s) memo"
  have keys: "set (map fst ?m) = insert k (set (map fst memo))" by (simp add: dom_update)
  have "v = counts t \<and> identities t \<subseteq> set (map fst ?m)"
    if "map_of ?m k' = Some v" and t: "identity t = Some k'" for k' v t
  proof (cases "k' = k")
    case True
    then show ?thesis
      using that assms(3) one_identity [OF assms(2), of t] unfolding keys by (simp add: update_conv')
  next
    case False
    then have "map_of memo k' = Some v" using that(1) unfolding update_conv' by simp
    then show ?thesis using memo_okD [OF assms(1) _ t] unfolding keys by blast
  qed
  moreover have "distinct (map fst ?m)"
    using assms(1) distinct_update [of memo k "counts s"] unfolding memo_ok_def by blast
  ultimately show ?thesis unfolding memo_ok_def by blast
qed

lemma measure_loop_source:
  assumes "memo_ok memo"
  shows "\<exists>memo'. measure_loop node identity (MEnter s # tasks) memo sizes
      = measure_loop node identity tasks memo' (counts s # sizes)
    \<and> memo_ok memo' \<and> set (map fst memo') = set (map fst memo) \<union> identities s"
  using assms
proof (induction s arbitrary: tasks memo sizes rule: source_induct)
  case (node s)
  let ?cs = "snd (split_node (node s))"
  show ?case
  proof (cases "Option.bind (identity s) (map_of memo)")
    case (Some v)
    then obtain k where k: "identity s = Some k" "map_of memo k = Some v"
      by (cases "identity s") auto
    then have "v = counts s" "identities s \<subseteq> set (map fst memo)"
      using memo_okD [OF node.prems k(2,1)] by auto
    then show ?thesis
      using Some node.prems by (intro exI [of _ memo]) (auto simp: measure_loop_steps)
  next
    case None
    have all: "\<exists>memo'. measure_loop node identity (map MEnter cs @ tasks) memo sizes
        = measure_loop node identity tasks memo' (rev (map counts cs) @ sizes)
      \<and> memo_ok memo' \<and> set (map fst memo') = set (map fst memo) \<union> \<Union> (identities ` set cs)"
      if "set cs \<subseteq> set ?cs" "memo_ok memo" for cs tasks memo sizes
      using that
    proof (induction cs arbitrary: memo sizes)
      case (Cons c cs)
      obtain m1 where m1: "measure_loop node identity (MEnter c # map MEnter cs @ tasks) memo sizes
          = measure_loop node identity (map MEnter cs @ tasks) m1 (counts c # sizes)"
        "memo_ok m1" "set (map fst m1) = set (map fst memo) \<union> identities c"
        using node.IH [of c memo "map MEnter cs @ tasks" sizes] Cons.prems by auto
      obtain m2 where "measure_loop node identity (map MEnter cs @ tasks) m1 (counts c # sizes)
          = measure_loop node identity tasks m2 (rev (map counts cs) @ counts c # sizes)"
        "memo_ok m2" "set (map fst m2) = set (map fst m1) \<union> \<Union> (identities ` set cs)"
        using Cons.IH [of m1 "counts c # sizes"] Cons.prems(1) m1(2) by auto
      then show ?case using m1 by (intro exI [of _ m2]) auto
    qed auto
    obtain m1 where m1: "measure_loop node identity (map MEnter ?cs @ MFinish (identity s) (length ?cs) # tasks) memo sizes
        = measure_loop node identity (MFinish (identity s) (length ?cs) # tasks) m1 (rev (map counts ?cs) @ sizes)"
      "memo_ok m1" "set (map fst m1) = set (map fst memo) \<union> \<Union> (identities ` set ?cs)"
      using all [OF order_refl node.prems] by blast
    have size: "pattern_nodes (denote s) = 1 + sum_list (map (\<lambda>c. pattern_nodes (denote c)) ?cs)"
      by (simp add: pattern_nodes.simps [of "denote s"] children_denote o_def)
    have sum: "sum_counts (map counts ?cs) (1, if identity s = None then 1 else 0) = counts s"
      using sum_counts_min [of "\<lambda>c. pattern_nodes (denote c)" anonymous_nodes ?cs 1 "if identity s = None then 1 else 0"]
      by (simp add: counts_def [abs_def] size anonymous_nodes.simps [of s] U64_MAX_def)
    define m2 where "m2 = (case identity s of Some k \<Rightarrow> AList.update k (counts s) m1 | None \<Rightarrow> m1)"
    have "memo_ok m2 \<and> set (map fst m2) = set (map fst memo) \<union> identities s"
    proof (cases "identity s")
      case (Some k)
      then have "memo_ok (AList.update k (counts s) m1)"
        using m1(2,3) by (intro memo_ok_update) (auto simp: identities.simps [of s])
      then show ?thesis
        using Some m1(3) by (auto simp: m2_def identities.simps [of s] dom_update)
    qed (use m1 in \<open>auto simp: m2_def identities.simps [of s]\<close>)
    moreover have "measure_loop node identity (MEnter s # tasks) memo sizes
        = measure_loop node identity tasks m2 (counts s # sizes)"
      using None m1(1) sum by (cases "identity s") (simp_all add: measure_loop_steps Let_def rev_map m2_def)
    ultimately show ?thesis by blast
  qed
qed

lemma measure_nodes_correct:
  "measure_nodes node identity s
     = Some (min U64_MAX (pattern_nodes (denote s)),
         sat_add (min U64_MAX (anonymous_nodes s)) (card (identities s)))"
proof -
  obtain memo where m: "measure_nodes node identity s = measure_loop node identity [] memo [counts s]"
    "memo_ok memo" "set (map fst memo) = identities s"
    using measure_loop_source [of "[]" s "[]" "[]"] by (auto simp: measure_nodes_def memo_ok_def)
  have "length memo = card (identities s)"
    using m(2,3) distinct_card [of "map fst memo"] by (simp add: memo_ok_def)
  then show ?thesis by (simp add: m(1) measure_loop.simps [of node identity "[]"] counts_def)
qed

end

section \<open>Readers of a source\<close>

text \<open>
  The claims take the contract as hypotheses: \<open>denote\<close> says what a source stands for. The instance
  is the owned pattern, where \<open>same_pattern\<close> is equality of references, which implies equality of
  patterns, and the identity of a node is its address.
\<close>

interpretation owned_shared: shared_source node_of id "\<lambda>_ _. False"
  by unfold_locales simp

interpretation owned_anonymous: identified_source node_of id "\<lambda>_. None"
  by unfold_locales simp

text \<open>C30: Comparing two sources answers as \<open>Ord\<close> on the patterns they stand for, without building
  them, whatever pairs \<open>same_pattern\<close> lets it skip, as long as it claims equality only of equal
  patterns.\<close>

theorem compare_sources_correct:
  assumes "\<And>s. denote s = into_pattern (map_pattern_node denote (node s))"
    and "\<And>s t. same s t \<Longrightarrow> denote s = denote t"
  shows "compare_sources node same left right = Some (pattern_cmp (denote left) (denote right))"
proof -
  have "shared_source node denote same" using assms by unfold_locales
  then show ?thesis by (rule shared_source.compare_sources_denote)
qed

theorem compare_sources_correct_witness:
  "compare_sources node_of (=) (PTop (SortVariable [65])) (PBottom (SortVariable [65])) = Some Less"
proof -
  have "pattern_cmp (PTop (SortVariable [65])) (PBottom (SortVariable [65])) = Less" by code_simp
  then show ?thesis
    using compare_sources_correct [of id node_of "(=)" "PTop (SortVariable [65])" "PBottom (SortVariable [65])"]
    by (simp add: pattern_node.map_id0)
qed

text \<open>C31: Reading a source to its end builds the pattern it stands for: no list of subpatterns is
  filled with the wrong number, and flattening returns, still as sources, the operands that
  flattening the pattern returns.\<close>

theorem source_readers_correct:
  assumes "\<And>s. denote s = into_pattern (map_pattern_node denote (node s))"
  shows "materialize node root = Some (denote root)
    \<and> (\<exists>ops. source_flatten_at node root s conjunction = Some ops
         \<and> map denote ops = flatten_at (denote root) s conjunction)"
proof -
  have src: "pattern_source node denote" using assms by unfold_locales
  show ?thesis
    using pattern_source.materialize_denote [OF src] pattern_source.source_flatten_denote [OF src] by blast
qed

text \<open>A source that shares subterms: numbers of a table, where a node has smaller numbers below it.\<close>

fun shared_node :: "nat \<Rightarrow> nat pattern_node" where
  "shared_node n =
     (if n = 0 then NString [1] else NAnd (SortVariable [65]) [n - 1, n - 1])"

fun shared_pattern :: "nat \<Rightarrow> pattern" where
  "shared_pattern 0 = PString [1]"
| "shared_pattern (Suc n) = PAnd (SortVariable [65]) [shared_pattern n, shared_pattern n]"

declare shared_node.simps [simp del]

lemma shared_pattern_node: "shared_pattern n = into_pattern (map_pattern_node shared_pattern (shared_node n))"
  by (cases n) (simp_all add: shared_node.simps)

theorem source_readers_correct_witness:
  "materialize shared_node 2 = Some (shared_pattern 2)
   \<and> (\<exists>ops. source_flatten_at shared_node 2 (SortVariable [65]) True = Some ops
        \<and> map shared_pattern ops = [PString [1], PString [1], PString [1], PString [1]])"
proof -
  have "flatten_at (shared_pattern 2) (SortVariable [65]) True = [PString [1], PString [1], PString [1], PString [1]]"
    by (simp add: numeral_2_eq_2 flatten_at_def)
  then show ?thesis
    using source_readers_correct [of shared_pattern shared_node 2 "SortVariable [65]" True]
    by (simp add: shared_pattern_node [symmetric])
qed

text \<open>The sources below a source.\<close>

inductive reaches :: "('s \<Rightarrow> 's pattern_node) \<Rightarrow> 's \<Rightarrow> 's \<Rightarrow> bool" for node where
  here: "reaches node s s"
| below: "c \<in> set (snd (split_node (node s))) \<Longrightarrow> reaches node c t \<Longrightarrow> reaches node s t"

inductive_cases reachesE: "reaches node s t"

context identified_source
begin

lemma identities_reaches: "identities s = {k. \<exists>t. reaches node s t \<and> identity t = Some k}"
proof (induction s rule: source_induct)
  case (node s)
  show ?case
  proof (intro set_eqI iffI)
    fix k assume "k \<in> identities s"
    then consider "identity s = Some k" | c where "c \<in> set (snd (split_node (node s)))" "k \<in> identities c"
      by (auto simp: identities.simps [of s])
    then show "k \<in> {k. \<exists>t. reaches node s t \<and> identity t = Some k}"
      using node by cases (auto intro: reaches.intros)
  next
    fix k assume "k \<in> {k. \<exists>t. reaches node s t \<and> identity t = Some k}"
    then obtain t where "reaches node s t" "identity t = Some k" by blast
    then show "k \<in> identities s"
      using node by (cases rule: reaches.cases) (auto simp: identities.simps [of s])
  qed
qed

lemma anonymous_nodes_none:
  assumes "\<And>t. reaches node s t \<Longrightarrow> identity t \<noteq> None"
  shows "anonymous_nodes s = 0"
  using assms
proof (induction s rule: source_induct)
  case (node s)
  then have "anonymous_nodes c = 0" if "c \<in> set (snd (split_node (node s)))" for c
    using that by (blast intro: reaches.intros)
  then show ?case
    using node.prems [OF reaches.here] by (simp add: anonymous_nodes.simps [of s])
qed

end

text \<open>C32: Counting the nodes a writer reaches returns the size of the expanded tree, saturated at the
  largest 64-bit number, although each identity is expanded once; when every source has an identity
  the second count is the number of identities.\<close>

theorem measure_nodes_returns:
  assumes "\<And>s. denote s = into_pattern (map_pattern_node denote (node s))"
    and "\<And>s t k. identity s = Some k \<Longrightarrow> identity t = Some k \<Longrightarrow> node s = node t"
  shows "\<exists>distinct'. measure_nodes node identity root
      = Some (min U64_MAX (pattern_nodes (denote root)), distinct')
    \<and> ((\<forall>t. reaches node root t \<longrightarrow> identity t \<noteq> None) \<longrightarrow>
        distinct' = min U64_MAX (card {k. \<exists>t. reaches node root t \<and> identity t = Some k}))"
proof -
  have i: "identified_source node denote identity" using assms by unfold_locales
  show ?thesis
    using identified_source.measure_nodes_correct [OF i, of root]
      identified_source.identities_reaches [OF i, of root]
      identified_source.anonymous_nodes_none [OF i, of root]
    by (simp add: sat_add_def)
qed

theorem measure_nodes_returns_witness:
  "\<exists>distinct'. measure_nodes shared_node Some 3 = Some (15, distinct')"
proof -
  have "pattern_nodes (shared_pattern 3) = 15"
    by (simp add: numeral_3_eq_3 pattern_nodes.simps)
  moreover have "min U64_MAX 15 = 15" by (simp add: U64_MAX_def)
  moreover obtain distinct' where
    "measure_nodes shared_node Some 3 = Some (min U64_MAX (pattern_nodes (shared_pattern 3)), distinct')"
    using measure_nodes_returns [of shared_pattern shared_node Some 3, OF shared_pattern_node] by force
  ultimately show ?thesis by simp
qed

end
