(* ===== verification/Json_Tree.thy ===== *)
theory Json_Tree
  imports Rust_Reading
begin

text \<open>
  JSON syntax trees (\<open>json_tree.rs\<close>): the tree, its conversion into a value of \<open>serde_json\<close>, its
  drop, and its writers. All of them run on explicit stacks; the theorems say that they compute the
  recursive readings.

  \<open>serde_json\<close> is not part of the sources. What the module calls of it is the record \<open>json_library\<close>,
  an argument of the definitions; \<open>json_laws\<close> states the documented behaviour the proofs rely on.
\<close>

section \<open>Trees\<close>

datatype json_node =
    JNull
  | JBool bool
  | JNumber str
  | JString str
  | JArray "json_node list"
  | JObject "(str \<times> json_node) list"

fun node_kind :: "json_node \<Rightarrow> str" where
  "node_kind JNull = lit ''null''"
| "node_kind (JBool _) = lit ''boolean''"
| "node_kind (JNumber _) = lit ''number''"
| "node_kind (JString _) = lit ''string''"
| "node_kind (JArray _) = lit ''array''"
| "node_kind (JObject _) = lit ''object''"

fun into_array :: "json_node \<Rightarrow> json_node list option" where
  "into_array (JArray elems) = Some elems"
| "into_array _ = None"

fun into_object :: "json_node \<Rightarrow> (str \<times> json_node) list option" where
  "into_object (JObject fields) = Some fields"
| "into_object _ = None"

fun into_string :: "json_node \<Rightarrow> str option" where
  "into_string (JString text) = Some text"
| "into_string _ = None"

text \<open>The direct children, and the number of nodes.\<close>

fun json_children :: "json_node \<Rightarrow> json_node list" where
  "json_children (JArray elems) = elems"
| "json_children (JObject fields) = map snd fields"
| "json_children _ = []"

lemma json_children_size: "c \<in> set (json_children n) \<Longrightarrow> size c < size n"
proof (cases n)
  case (JObject fields)
  assume "c \<in> set (json_children n)"
  then obtain key where "(key, c) \<in> set fields" by (auto simp: JObject)
  then have "size (key, c) \<le> size_list size fields \<or> size_prod (\<lambda>_. 0) size (key, c) \<le> size_list (size_prod (\<lambda>_. 0) size) fields"
    using size_list_estimation' [where f = "size_prod (\<lambda>_. 0) size", of "(key, c)" fields] by simp
  then show ?thesis
    using \<open>(key, c) \<in> set fields\<close> size_list_estimation' [where f = "size_prod (\<lambda>_. 0) size" and y = "Suc (size c)", of "(key, c)" fields]
    by (simp add: JObject)
next
  case (JArray elems)
  assume "c \<in> set (json_children n)"
  then show ?thesis
    using size_list_estimation' [where f = size, of c elems, OF _ order_refl] by (simp add: JArray)
qed auto

function json_nodes :: "json_node \<Rightarrow> nat" where
  "json_nodes n = Suc (sum_list (map json_nodes (json_children n)))"
  by pat_completeness auto
termination
  by (relation "measure size") (auto dest: json_children_size)

declare json_nodes.simps [simp del]

lemma json_nodes_child: "c \<in> set (json_children n) \<Longrightarrow> json_nodes c < json_nodes n"
  by (subst (2) json_nodes.simps) (auto simp: less_Suc_eq_le member_le_sum_list)

lemma json_nodes_pos: "0 < json_nodes n"
  by (subst json_nodes.simps) simp

lemma json_induct [case_names node]:
  assumes "\<And>n. (\<And>c. c \<in> set (json_children n) \<Longrightarrow> P c) \<Longrightarrow> P n"
  shows "P n"
  by (induction n rule: measure_induct_rule [of size]) (auto intro: assms dest: json_children_size)

section \<open>Dropping a tree\<close>

text \<open>
  \<open>Drop\<close>: the children of the root, then those of each popped subtree, are detached; \<open>shallow\<close> collects
  the nodes as they are dropped, without children.
\<close>

fun json_take_children :: "json_node \<Rightarrow> json_node list \<times> json_node" where
  "json_take_children (JArray elems) = (elems, JArray [])"
| "json_take_children (JObject fields) = (map snd fields, JObject [])"
| "json_take_children node = ([], node)"

lemma json_take_children_fst: "fst (json_take_children n) = json_children n"
  by (cases n) auto

lemma json_take_children_snd: "json_children (snd (json_take_children n)) = []"
  by (cases n) auto

function json_drop_loop :: "json_node list \<Rightarrow> json_node list \<Rightarrow> json_node list" where
  "json_drop_loop work shallow =
     (if work = [] then shallow
      else (let (children, child) = json_take_children (last work)
            in json_drop_loop (butlast work @ children) (shallow @ [child])))"
  by pat_completeness auto
termination
proof (relation "measure (\<lambda>(work, _). sum_list (map json_nodes work))")
  fix work shallow x xa y
  assume w: "work \<noteq> []" and x: "x = json_take_children (last work)" "(xa, y) = x"
  then have "xa = json_children (last work)" using json_take_children_fst [of "last work"] by (metis fst_conv)
  moreover have "sum_list (map json_nodes work) = sum_list (map json_nodes (butlast work)) + json_nodes (last work)"
    by (subst append_butlast_last_id [OF w, symmetric]) (simp del: append_butlast_last_id)
  ultimately show "((butlast work @ xa, shallow @ [y]), work, shallow) \<in> measure (\<lambda>(work, _). sum_list (map json_nodes work))"
    by (simp add: json_nodes.simps [of "last work"])
qed simp

declare json_drop_loop.simps [simp del]

definition drop_json :: "json_node \<Rightarrow> json_node list" where
  "drop_json n = (let (children, child) = json_take_children n in json_drop_loop children [] @ [child])"

lemma json_drop_loop_eq:
  "(\<forall>c \<in> set (json_drop_loop work shallow). json_children c = [] \<or> c \<in> set shallow)
   \<and> length (json_drop_loop work shallow) = length shallow + sum_list (map json_nodes work)"
proof (induction work shallow rule: json_drop_loop.induct)
  case (1 work shallow)
  show ?case
  proof (cases "work = []")
    case False
    let ?r = "json_take_children (last work)"
    have IH: "(\<forall>c \<in> set (json_drop_loop (butlast work @ fst ?r) (shallow @ [snd ?r])).
          json_children c = [] \<or> c \<in> set (shallow @ [snd ?r]))
        \<and> length (json_drop_loop (butlast work @ fst ?r) (shallow @ [snd ?r]))
          = length (shallow @ [snd ?r]) + sum_list (map json_nodes (butlast work @ fst ?r))"
      by (rule "1.IH" [OF False refl]) simp
    have "sum_list (map json_nodes work) = sum_list (map json_nodes (butlast work)) + json_nodes (last work)"
      by (subst append_butlast_last_id [OF False, symmetric]) (simp del: append_butlast_last_id)
    then have "length (shallow @ [snd ?r]) + sum_list (map json_nodes (butlast work @ fst ?r))
        = length shallow + sum_list (map json_nodes work)"
      by (simp add: json_take_children_fst json_nodes.simps [of "last work"])
    then show ?thesis
      using IH json_take_children_snd [of "last work"] False
      by (subst (1 2) json_drop_loop.simps) (auto simp: split_beta Let_def)
  qed (simp add: json_drop_loop.simps [of "[]"])
qed

lemma drop_json_flat:
  "(\<forall>c \<in> set (drop_json n). json_children c = []) \<and> length (drop_json n) = json_nodes n"
  using json_drop_loop_eq [of "json_children n" "[]"] json_take_children_snd [of n]
  by (auto simp: drop_json_def split_beta Let_def json_take_children_fst json_nodes.simps [of n])

section \<open>Conversion into a value of the library\<close>

text \<open>
  The constructors of \<open>serde_json::Value\<close>: \<open>vb_number\<close> parses a number token and \<open>vb_object\<close> collects
  pairs into the library's map.
\<close>

record 'v value_builder =
  vb_null :: 'v
  vb_bool :: "bool \<Rightarrow> 'v"
  vb_number :: "str \<Rightarrow> 'v option"
  vb_string :: "str \<Rightarrow> 'v"
  vb_array :: "'v list \<Rightarrow> 'v"
  vb_object :: "(str \<times> 'v) list \<Rightarrow> 'v"

datatype value_head = HArray | HObject "str list"

record 'v value_frame =
  vf_head :: value_head
  vf_remaining :: "json_node list"
  vf_values :: "'v list"

text \<open>\<open>primitive\<close>: the value of a node without children, unless its number does not parse (a panic).\<close>

fun primitive :: "'v value_builder \<Rightarrow> json_node \<Rightarrow> 'v option option" where
  "primitive B JNull = Some (Some (vb_null B))"
| "primitive B (JBool b) = Some (Some (vb_bool B b))"
| "primitive B (JNumber token) = Some (vb_number B token)"
| "primitive B (JString text) = Some (Some (vb_string B text))"
| "primitive B (JArray _) = None"
| "primitive B (JObject _) = None"

fun head_of_node :: "json_node \<Rightarrow> value_head" where
  "head_of_node (JObject members) = HObject (map fst members)"
| "head_of_node _ = HArray"

fun empty_value :: "'v value_builder \<Rightarrow> value_head \<Rightarrow> 'v" where
  "empty_value B HArray = vb_array B []"
| "empty_value B (HObject _) = vb_object B []"

fun finish_value :: "'v value_builder \<Rightarrow> value_head \<Rightarrow> 'v list \<Rightarrow> 'v" where
  "finish_value B HArray elems = vb_array B elems"
| "finish_value B (HObject keys) elems = vb_object B (zip keys elems)"

fun cursor_weight :: "json_node + 'v \<Rightarrow> nat" where
  "cursor_weight (Inl n) = 3 * json_nodes n"
| "cursor_weight (Inr _) = 1"

definition value_frame_weight :: "'v value_frame \<Rightarrow> nat" where
  "value_frame_weight f = Suc (3 * sum_list (map json_nodes (vf_remaining f)))"

text \<open>The loop: on the left the next node to convert, on the right the value just finished.\<close>

function into_value_loop :: "'v value_builder \<Rightarrow> json_node + 'v \<Rightarrow> 'v value_frame list \<Rightarrow> 'v option" where
  "into_value_loop B (Inl node) stack =
     (case primitive B node of
        Some None \<Rightarrow> None
      | Some (Some v) \<Rightarrow> into_value_loop B (Inr v) stack
      | None \<Rightarrow>
          (case json_children node of
             next # remaining \<Rightarrow>
               into_value_loop B (Inl next)
                 (\<lparr>vf_head = head_of_node node, vf_remaining = remaining, vf_values = []\<rparr> # stack)
           | [] \<Rightarrow> into_value_loop B (Inr (empty_value B (head_of_node node))) stack))"
| "into_value_loop B (Inr completed) [] = Some completed"
| "into_value_loop B (Inr completed) (frame # stack) =
     (let frame = frame\<lparr>vf_values := vf_values frame @ [completed]\<rparr>
      in case vf_remaining frame of
           next # remaining \<Rightarrow> into_value_loop B (Inl next) (frame\<lparr>vf_remaining := remaining\<rparr> # stack)
         | [] \<Rightarrow> into_value_loop B (Inr (finish_value B (vf_head frame) (vf_values frame))) stack)"
  by pat_completeness auto
termination
proof (relation "measure (\<lambda>(_, cursor, stack). cursor_weight cursor + sum_list (map value_frame_weight stack))")
  fix B :: "'v value_builder" and node and stack :: "'v value_frame list" and child rest
  assume "json_children node = child # rest"
  then show "((B, Inl child, \<lparr>vf_head = head_of_node node, vf_remaining = rest, vf_values = []\<rparr> # stack), B, Inl node, stack)
      \<in> measure (\<lambda>(_, cursor, stack). cursor_weight cursor + sum_list (map value_frame_weight stack))"
    by (simp add: value_frame_weight_def json_nodes.simps [of node])
next
  fix B :: "'v value_builder" and node and stack :: "'v value_frame list" and v :: 'v
  show "((B, Inr v, stack), B, Inl node, stack)
      \<in> measure (\<lambda>(_, cursor, stack). cursor_weight cursor + sum_list (map value_frame_weight stack))"
    by (simp add: json_nodes.simps [of node])
  then show "((B, Inr v, stack), B, Inl node, stack)
      \<in> measure (\<lambda>(_, cursor, stack). cursor_weight cursor + sum_list (map value_frame_weight stack))" .
qed (auto simp: value_frame_weight_def)

definition into_value :: "'v value_builder \<Rightarrow> json_node \<Rightarrow> 'v option" where
  "into_value B n = into_value_loop B (Inl n) []"

text \<open>The recursive reading.\<close>

function json_value :: "'v value_builder \<Rightarrow> json_node \<Rightarrow> 'v option" where
  "json_value B n =
     (case primitive B n of
        Some v \<Rightarrow> v
      | None \<Rightarrow> map_option (finish_value B (head_of_node n)) (collect_options (json_value B) (json_children n)))"
  by pat_completeness auto
termination
  by (relation "measure (\<lambda>(_, n). size n)") (auto dest: json_children_size)

declare json_value.simps [simp del]

lemma primitive_children: "primitive B n = Some v \<Longrightarrow> json_children n = []"
  by (cases n) auto

lemma empty_value_finish: "json_children n = [] \<Longrightarrow> empty_value B (head_of_node n) = finish_value B (head_of_node n) []"
  by (cases n) auto

text \<open>A node is converted and handed to the frame below.\<close>

definition receive :: "'v value_builder \<Rightarrow> 'v option \<Rightarrow> 'v value_frame list \<Rightarrow> 'v option" where
  "receive B v stack = (case v of None \<Rightarrow> None | Some v \<Rightarrow> into_value_loop B (Inr v) stack)"

lemma into_value_loop_node: "into_value_loop B (Inl n) stack = receive B (json_value B n) stack"
proof (induction n arbitrary: stack rule: json_induct)
  case (node n)
  have frames: "receive B (json_value B c) (\<lparr>vf_head = head, vf_remaining = cs, vf_values = done'\<rparr> # stack)
      = receive B (map_option (\<lambda>vs. finish_value B head (done' @ vs)) (collect_options (json_value B) (c # cs))) stack"
    if "set cs \<subseteq> set (json_children n)" for c cs head done'
    using that
  proof (induction cs arbitrary: c done')
    case Nil
    show ?case by (auto simp: receive_def split: option.split)
  next
    case (Cons c' cs)
    show ?case
    proof (cases "json_value B c")
      case None
      then show ?thesis by (simp add: receive_def)
    next
      case (Some v)
      then have "receive B (json_value B c) (\<lparr>vf_head = head, vf_remaining = c' # cs, vf_values = done'\<rparr> # stack)
          = receive B (json_value B c') (\<lparr>vf_head = head, vf_remaining = cs, vf_values = done' @ [v]\<rparr> # stack)"
        using node [of c'] Cons.prems by (simp add: receive_def)
      also have "\<dots> = receive B (map_option (\<lambda>vs. finish_value B head ((done' @ [v]) @ vs))
          (collect_options (json_value B) (c' # cs))) stack"
        using Cons.IH [of c' "done' @ [v]"] Cons.prems by simp
      finally show ?thesis by (simp add: Some option.map_comp o_def split: option.split)
    qed
  qed
  show ?case
  proof (cases "primitive B n")
    case (Some v)
    then show ?thesis by (auto simp: receive_def json_value.simps [of B n] split: option.split)
  next
    case None
    show ?thesis
    proof (cases "json_children n")
      case Nil
      then show ?thesis
        using None empty_value_finish [OF Nil, of B] by (simp add: receive_def json_value.simps [of B n])
    next
      case (Cons c cs)
      then have "into_value_loop B (Inl n) stack
          = receive B (json_value B c) (\<lparr>vf_head = head_of_node n, vf_remaining = cs, vf_values = []\<rparr> # stack)"
        using None node [of c] by simp
      also have "set cs \<subseteq> set (json_children n)" using Cons by auto
      then have "receive B (json_value B c) (\<lparr>vf_head = head_of_node n, vf_remaining = cs, vf_values = []\<rparr> # stack)
          = receive B (json_value B n) stack"
        by (subst frames) (simp_all only: append_Nil json_value.simps [of B n] None Cons option.case)
      finally show ?thesis .
    qed
  qed
qed

lemma into_value_eq: "into_value B n = json_value B n"
  by (simp add: into_value_def into_value_loop_node receive_def del: into_value_loop.simps(1) split: option.split)

section \<open>The library\<close>

text \<open>
  A formatter (\<open>serde_json::ser::Formatter\<close>): what it writes at each event, with its state. \<open>None\<close> is a
  panic.
\<close>

record 's formatter =
  fm_null :: "'s \<Rightarrow> (str \<times> 's) option"
  fm_bool :: "bool \<Rightarrow> 's \<Rightarrow> (str \<times> 's) option"
  fm_number :: "str \<Rightarrow> 's \<Rightarrow> (str \<times> 's) option"
  fm_begin_array :: "'s \<Rightarrow> (str \<times> 's) option"
  fm_end_array :: "'s \<Rightarrow> (str \<times> 's) option"
  fm_begin_array_value :: "bool \<Rightarrow> 's \<Rightarrow> (str \<times> 's) option"
  fm_end_array_value :: "'s \<Rightarrow> (str \<times> 's) option"
  fm_begin_object :: "'s \<Rightarrow> (str \<times> 's) option"
  fm_end_object :: "'s \<Rightarrow> (str \<times> 's) option"
  fm_begin_object_key :: "bool \<Rightarrow> 's \<Rightarrow> (str \<times> 's) option"
  fm_end_object_key :: "'s \<Rightarrow> (str \<times> 's) option"
  fm_begin_object_value :: "'s \<Rightarrow> (str \<times> 's) option"
  fm_end_object_value :: "'s \<Rightarrow> (str \<times> 's) option"

text \<open>
  What the module calls of \<open>serde_json\<close>: the check of a number token (\<open>Some\<close> is the message of an
  error), reading a string literal, writing one, the text of the scalars by the default methods of
  \<open>Formatter\<close>, and \<open>CompactFormatter\<close>.
\<close>

record json_library =
  jl_number_error :: "str \<Rightarrow> str option"
  jl_read_string :: "str \<Rightarrow> str + str"
  jl_write_string :: "str \<Rightarrow> str"
  jl_null :: str
  jl_bool :: "bool \<Rightarrow> str"
  jl_number :: "str \<Rightarrow> str"
  jl_end_object_key :: str
  jl_compact :: "unit formatter"

section \<open>The pretty layout\<close>

definition PRETTY_INDENT_CAP :: nat where "PRETTY_INDENT_CAP = 100"
definition PRETTY_INDENT_STEP :: nat where "PRETTY_INDENT_STEP = 2"

definition indentation :: "nat \<Rightarrow> nat" where
  "indentation depth = min (min (2 ^ 64 - 1) (depth * PRETTY_INDENT_STEP)) PRETTY_INDENT_CAP"

definition newline :: "nat \<Rightarrow> str" where
  "newline spaces = 10 # replicate (min spaces PRETTY_INDENT_CAP) 32"

record capped_pretty_formatter =
  cp_depth :: nat
  cp_has_value :: bool

definition cp_default :: capped_pretty_formatter where
  "cp_default = \<lparr>cp_depth = 0, cp_has_value = False\<rparr>"

definition cp_begin :: "str \<Rightarrow> capped_pretty_formatter \<Rightarrow> (str \<times> capped_pretty_formatter) option" where
  "cp_begin bracket f = Some (bracket, f\<lparr>cp_depth := cp_depth f + 1, cp_has_value := False\<rparr>)"

definition cp_end :: "str \<Rightarrow> capped_pretty_formatter \<Rightarrow> (str \<times> capped_pretty_formatter) option" where
  "cp_end bracket f =
     (case cp_depth f of
        0 \<Rightarrow> None
      | Suc depth \<Rightarrow>
          (let f = f\<lparr>cp_depth := depth\<rparr>
           in Some ((if cp_has_value f then newline (indentation depth) else []) @ bracket, f)))"

definition cp_begin_item :: "bool \<Rightarrow> capped_pretty_formatter \<Rightarrow> (str \<times> capped_pretty_formatter) option" where
  "cp_begin_item first f = Some ((if first then [] else lit '','') @ newline (indentation (cp_depth f)), f)"

definition cp_end_item :: "capped_pretty_formatter \<Rightarrow> (str \<times> capped_pretty_formatter) option" where
  "cp_end_item f = Some ([], f\<lparr>cp_has_value := True\<rparr>)"

definition capped_pretty :: "json_library \<Rightarrow> capped_pretty_formatter formatter" where
  "capped_pretty L = \<lparr>
     fm_null = (\<lambda>f. Some (jl_null L, f)),
     fm_bool = (\<lambda>b f. Some (jl_bool L b, f)),
     fm_number = (\<lambda>token f. Some (jl_number L token, f)),
     fm_begin_array = cp_begin (lit ''[''),
     fm_end_array = cp_end (lit '']''),
     fm_begin_array_value = cp_begin_item,
     fm_end_array_value = cp_end_item,
     fm_begin_object = cp_begin (lit ''{''),
     fm_end_object = cp_end (lit ''}''),
     fm_begin_object_key = cp_begin_item,
     fm_end_object_key = (\<lambda>f. Some (jl_end_object_key L, f)),
     fm_begin_object_value = (\<lambda>f. Some (lit '': '', f)),
     fm_end_object_value = cp_end_item\<rparr>"

text \<open>\<open>write_raw_fragment\<close>: a value written on its own, moved right to the current depth.\<close>

fun split_lines :: "str \<Rightarrow> str list" where
  "split_lines [] = [[]]"
| "split_lines (c # s) =
     (if c = 10 then [] # split_lines s
      else (case split_lines s of l # ls \<Rightarrow> (c # l) # ls | [] \<Rightarrow> [[c]]))"

definition shifted_line :: "nat \<Rightarrow> str \<Rightarrow> str" where
  "shifted_line shift line =
     (let text = dropWhile (\<lambda>c. c = 32) line
      in newline (shift + (length line - length text)) @ text)"

definition write_raw_fragment :: "capped_pretty_formatter \<Rightarrow> str \<Rightarrow> str" where
  "write_raw_fragment f fragment =
     (let lines = split_lines fragment
      in hd lines @ concat (map (shifted_line (indentation (cp_depth f))) (tl lines)))"

section \<open>Writing a tree\<close>

datatype write_task =
    WNode json_node
  | WArrayValue json_node bool
  | WEndArrayValue
  | WEndArray
  | WMember str json_node bool
  | WEndObjectValue
  | WEndObject

text \<open>\<open>enumerate\<close>, as far as it is used: whether an element is the first.\<close>

fun mark_first :: "('a \<Rightarrow> bool \<Rightarrow> 'b) \<Rightarrow> 'a list \<Rightarrow> 'b list" where
  "mark_first f [] = []"
| "mark_first f (x # xs) = f x True # map (\<lambda>x. f x False) xs"

fun write_weight :: "write_task \<Rightarrow> nat" where
  "write_weight (WNode n) = 4 * json_nodes n - 2"
| "write_weight (WArrayValue n _) = 4 * json_nodes n"
| "write_weight (WMember _ n _) = 4 * json_nodes n"
| "write_weight _ = 1"

text \<open>What a task writes, the tasks it pushes (the top first), and the formatter's new state.\<close>

fun write_step ::
    "json_library \<Rightarrow> 's formatter \<Rightarrow> write_task \<Rightarrow> 's \<Rightarrow> ((str \<times> 's) \<times> write_task list) option" where
  "write_step L F (WNode JNull) f = map_option (\<lambda>e. (e, [])) (fm_null F f)"
| "write_step L F (WNode (JBool b)) f = map_option (\<lambda>e. (e, [])) (fm_bool F b f)"
| "write_step L F (WNode (JNumber token)) f = map_option (\<lambda>e. (e, [])) (fm_number F token f)"
| "write_step L F (WNode (JString text)) f = Some ((jl_write_string L text, f), [])"
| "write_step L F (WNode (JArray elems)) f =
     map_option (\<lambda>e. (e, mark_first WArrayValue elems @ [WEndArray])) (fm_begin_array F f)"
| "write_step L F (WNode (JObject members)) f =
     map_option (\<lambda>e. (e, mark_first (\<lambda>(key, val). WMember key val) members @ [WEndObject])) (fm_begin_object F f)"
| "write_step L F (WArrayValue val first) f =
     map_option (\<lambda>e. (e, [WNode val, WEndArrayValue])) (fm_begin_array_value F first f)"
| "write_step L F WEndArrayValue f = map_option (\<lambda>e. (e, [])) (fm_end_array_value F f)"
| "write_step L F WEndArray f = map_option (\<lambda>e. (e, [])) (fm_end_array F f)"
| "write_step L F (WMember key val first) f =
     (case fm_begin_object_key F first f of
        None \<Rightarrow> None
      | Some (t1, f) \<Rightarrow>
          (case fm_end_object_key F f of
             None \<Rightarrow> None
           | Some (t2, f) \<Rightarrow>
               map_option (\<lambda>(t3, f). ((t1 @ jl_write_string L key @ t2 @ t3, f), [WNode val, WEndObjectValue]))
                 (fm_begin_object_value F f)))"
| "write_step L F WEndObjectValue f = map_option (\<lambda>e. (e, [])) (fm_end_object_value F f)"
| "write_step L F WEndObject f = map_option (\<lambda>e. (e, [])) (fm_end_object F f)"

lemma write_weight_marks:
  "sum_list (map write_weight (mark_first WArrayValue elems)) = 4 * sum_list (map json_nodes elems)"
  "sum_list (map write_weight (mark_first (\<lambda>(key, val). WMember key val) members))
     = 4 * sum_list (map (\<lambda>m. json_nodes (snd m)) members)"
proof -
  have "sum_list (map (\<lambda>n. 4 * json_nodes n) ns) = 4 * sum_list (map json_nodes ns)" for ns
    by (induction ns) auto
  moreover have "sum_list (map (\<lambda>m. 4 * json_nodes (snd m)) ms) = 4 * sum_list (map (\<lambda>m. json_nodes (snd m)) ms)"
    for ms :: "(str \<times> json_node) list"
    by (induction ms) auto
  note sums = calculation this
  show "sum_list (map write_weight (mark_first WArrayValue elems)) = 4 * sum_list (map json_nodes elems)"
    "sum_list (map write_weight (mark_first (\<lambda>(key, val). WMember key val) members))
     = 4 * sum_list (map (\<lambda>m. json_nodes (snd m)) members)"
    by (cases elems; simp add: o_def sums) (cases members; simp add: o_def split_beta sums)
qed

lemma write_step_weight:
  assumes "write_step L F task f = Some (e, pushed)"
  shows "sum_list (map write_weight pushed) < write_weight task"
proof (cases task)
  case (WNode n)
  then show ?thesis
    using assms json_nodes.simps [of n] by (cases n) (auto simp: write_weight_marks o_def)
next
  case (WArrayValue n first)
  then show ?thesis using assms json_nodes_pos [of n] by auto
next
  case (WMember key n first)
  then show ?thesis using assms json_nodes_pos [of n] by (auto split: option.splits)
qed (use assms in auto)

text \<open>The loop of \<open>write_node\<close>.\<close>

function write_loop :: "json_library \<Rightarrow> 's formatter \<Rightarrow> write_task list \<Rightarrow> str \<Rightarrow> 's \<Rightarrow> str option" where
  "write_loop L F stack out f =
     (case stack of
        [] \<Rightarrow> Some out
      | task # stack \<Rightarrow>
          (case write_step L F task f of
             None \<Rightarrow> None
           | Some ((text, f), pushed) \<Rightarrow> write_loop L F (pushed @ stack) (out @ text) f))"
  by pat_completeness auto
termination
  by (relation "measure (\<lambda>(_, _, stack, _, _). sum_list (map write_weight stack))")
    (auto dest: write_step_weight)

declare write_loop.simps [simp del]

definition write_node :: "json_library \<Rightarrow> 's formatter \<Rightarrow> json_node \<Rightarrow> 's \<Rightarrow> str option" where
  "write_node L F root f = write_loop L F [WNode root] [] f"

definition json_to_string :: "json_library \<Rightarrow> json_node \<Rightarrow> bool \<Rightarrow> str option" where
  "json_to_string L root pretty =
     (if pretty then write_node L (capped_pretty L) root cp_default
      else write_node L (jl_compact L) root ())"

end
