(* ===== verification/Json_Text.thy ===== *)
theory Json_Text
  imports Json_Tree
begin

text \<open>
  The text of a JSON tree. \<open>json_text\<close> is the layout by recursion: \<open>nl d\<close> is what goes between two
  tokens at depth \<open>d\<close> and \<open>colon\<close> what goes between a key and its value. The locale \<open>json_layout\<close> is
  the contract of a formatter: which punctuation it writes, and how its state follows the depth. The
  writer on any formatter that keeps the contract writes \<open>json_text\<close>; the capped pretty formatter
  of the module is an instance, the library's compact one is another by \<open>json_laws\<close>.
\<close>

section \<open>Documented behaviour of the library\<close>

text \<open>The text between the quotes of a literal: no control character, and an escape is ASCII.\<close>

fun string_body :: "str \<Rightarrow> bool" where
  "string_body [] \<longleftrightarrow> True"
| "string_body (c # s) \<longleftrightarrow>
     (if c = 92 then (case s of d # s \<Rightarrow> d < 128 \<and> string_body s | [] \<Rightarrow> False)
      else 32 \<le> c \<and> c \<noteq> 34 \<and> string_body s)"

definition writes_scalars :: "'s formatter \<Rightarrow> bool" where
  "writes_scalars F \<longleftrightarrow>
     (\<forall>s. fm_null F s = Some (lit ''null'', s))
   \<and> (\<forall>b s. fm_bool F b s = Some (if b then lit ''true'' else lit ''false'', s))
   \<and> (\<forall>token s. fm_number F token s = Some (token, s))
   \<and> (\<forall>s. fm_end_object_key F s = Some ([], s))"

text \<open>
  What \<open>serde_json\<close> documents: \<open>CompactFormatter\<close> and the default methods of \<open>Formatter\<close> write the
  JSON punctuation and no white space; a string is written as a JSON string literal, which reads
  back as the string, and without an escape is the string itself.
\<close>

definition json_laws :: "json_library \<Rightarrow> bool" where
  "json_laws L \<longleftrightarrow>
     jl_null L = lit ''null'' \<and> (\<forall>b. jl_bool L b = (if b then lit ''true'' else lit ''false''))
   \<and> (\<forall>token. jl_number L token = token) \<and> jl_end_object_key L = []
   \<and> writes_scalars (jl_compact L)
   \<and> fm_begin_array (jl_compact L) () = Some (lit ''['', ()) \<and> fm_end_array (jl_compact L) () = Some (lit '']'', ())
   \<and> (\<forall>first. fm_begin_array_value (jl_compact L) first () = Some (if first then [] else lit '','', ()))
   \<and> fm_end_array_value (jl_compact L) () = Some ([], ())
   \<and> fm_begin_object (jl_compact L) () = Some (lit ''{'', ()) \<and> fm_end_object (jl_compact L) () = Some (lit ''}'', ())
   \<and> (\<forall>first. fm_begin_object_key (jl_compact L) first () = Some (if first then [] else lit '','', ()))
   \<and> fm_begin_object_value (jl_compact L) () = Some (lit '':'', ()) \<and> fm_end_object_value (jl_compact L) () = Some ([], ())
   \<and> (\<forall>s. valid_str s \<longrightarrow> (\<exists>body. jl_write_string L s = 34 # body @ [34] \<and> valid_str body \<and> string_body body
         \<and> (92 \<notin> set body \<longrightarrow> body = s))
        \<and> jl_read_string L (jl_write_string L s) = Inr s)"

lemma law_scalars:
  "json_laws L \<Longrightarrow> writes_scalars (jl_compact L)" "json_laws L \<Longrightarrow> writes_scalars (capped_pretty L)"
  by (simp_all add: json_laws_def writes_scalars_def capped_pretty_def)

lemma law_string:
  assumes "json_laws L" and "valid_str s"
  obtains body where "jl_write_string L s = 34 # body @ [34]" "valid_str body" "string_body body"
    "92 \<notin> set body \<longrightarrow> body = s" "jl_read_string L (34 # body @ [34]) = Inr s"
proof -
  have "(\<exists>body. jl_write_string L s = 34 # body @ [34] \<and> valid_str body \<and> string_body body
         \<and> (92 \<notin> set body \<longrightarrow> body = s)) \<and> jl_read_string L (jl_write_string L s) = Inr s"
    using assms unfolding json_laws_def by blast
  then show ?thesis using that by auto
qed

section \<open>The layout\<close>

fun items_text :: "str \<Rightarrow> str list \<Rightarrow> str" where
  "items_text nl [] = []"
| "items_text nl (t # ts) = nl @ t @ concat (map (\<lambda>t. lit '','' @ nl @ t) ts)"

function json_text :: "json_library \<Rightarrow> (nat \<Rightarrow> str) \<Rightarrow> str \<Rightarrow> nat \<Rightarrow> json_node \<Rightarrow> str" where
  "json_text L nl colon d JNull = lit ''null''"
| "json_text L nl colon d (JBool b) = (if b then lit ''true'' else lit ''false'')"
| "json_text L nl colon d (JNumber token) = token"
| "json_text L nl colon d (JString text) = jl_write_string L text"
| "json_text L nl colon d (JArray elems) =
     lit ''['' @ items_text (nl (Suc d)) (map (json_text L nl colon (Suc d)) elems)
       @ (if elems = [] then [] else nl d) @ lit '']''"
| "json_text L nl colon d (JObject members) =
     lit ''{'' @ items_text (nl (Suc d))
         (map (\<lambda>m. jl_write_string L (fst m) @ colon @ json_text L nl colon (Suc d) (snd m)) members)
       @ (if members = [] then [] else nl d) @ lit ''}''"
  by pat_completeness auto
termination
proof (relation "measure (\<lambda>(_, _, _, _, n). size n)")
  fix L nl colon d members and m :: "str \<times> json_node"
  assume "m \<in> set members"
  then show "((L, nl, colon, Suc d, snd m), L, nl, colon, d, JObject members) \<in> measure (\<lambda>(_, _, _, _, n). size n)"
    using json_children_size [of "snd m" "JObject members"] by auto
next
  fix L nl colon d elems and n :: json_node
  assume "n \<in> set elems"
  then show "((L, nl, colon, Suc d, n), L, nl, colon, d, JArray elems) \<in> measure (\<lambda>(_, _, _, _, n). size n)"
    using json_children_size [of n "JArray elems"] by auto
qed auto

text \<open>
  The contract of a formatter: \<open>state d h s\<close> says that \<open>s\<close> is a state at depth \<open>d\<close>, where \<open>h\<close> tells
  whether the innermost open array or object has a value.
\<close>

locale json_layout =
  fixes F :: "'s formatter" and nl :: "nat \<Rightarrow> str" and colon :: str and state :: "nat \<Rightarrow> bool \<Rightarrow> 's \<Rightarrow> bool"
  assumes begin_array: "state d h s \<Longrightarrow> \<exists>s'. fm_begin_array F s = Some (lit ''['', s') \<and> state (Suc d) False s'"
    and end_array: "state (Suc d) h s \<Longrightarrow>
      \<exists>s' h'. fm_end_array F s = Some ((if h then nl d else []) @ lit '']'', s') \<and> state d h' s'"
    and begin_array_value: "state d h s \<Longrightarrow>
      \<exists>s'. fm_begin_array_value F first s = Some ((if first then [] else lit '','') @ nl d, s') \<and> state d h s'"
    and end_array_value: "state d h s \<Longrightarrow> \<exists>s'. fm_end_array_value F s = Some ([], s') \<and> state d True s'"
    and begin_object: "state d h s \<Longrightarrow> \<exists>s'. fm_begin_object F s = Some (lit ''{'', s') \<and> state (Suc d) False s'"
    and end_object: "state (Suc d) h s \<Longrightarrow>
      \<exists>s' h'. fm_end_object F s = Some ((if h then nl d else []) @ lit ''}'', s') \<and> state d h' s'"
    and begin_object_key: "state d h s \<Longrightarrow>
      \<exists>s'. fm_begin_object_key F first s = Some ((if first then [] else lit '','') @ nl d, s') \<and> state d h s'"
    and begin_object_value: "state d h s \<Longrightarrow> \<exists>s'. fm_begin_object_value F s = Some (colon, s') \<and> state d h s'"
    and end_object_value: "state d h s \<Longrightarrow> \<exists>s'. fm_end_object_value F s = Some ([], s') \<and> state d True s'"
begin

lemma write_loop_step:
  "write_step L F task s = Some ((text, s'), pushed) \<Longrightarrow>
   write_loop L F (task # stack) out s = write_loop L F (pushed @ stack) (out @ text) s'"
  by (simp add: write_loop.simps [of L F "task # stack"])

text \<open>One element, and one member, when the node in it is written.\<close>

lemma array_value_written:
  assumes "state d h s"
    and "\<And>h s stack out. state d h s \<Longrightarrow> \<exists>s' h'. write_loop L F (WNode n # stack) out s
      = write_loop L F stack (out @ text) s' \<and> state d h' s'"
  shows "\<exists>s'. write_loop L F (WArrayValue n first # stack) out s
      = write_loop L F stack (out @ (if first then [] else lit '','') @ nl d @ text) s' \<and> state d True s'"
proof -
  obtain s1 where s1: "fm_begin_array_value F first s = Some ((if first then [] else lit '','') @ nl d, s1)" "state d h s1"
    using begin_array_value [OF assms(1)] by blast
  let ?out = "out @ (if first then [] else lit '','') @ nl d"
  obtain s2 h2 where s2: "write_loop L F (WNode n # WEndArrayValue # stack) ?out s1
      = write_loop L F (WEndArrayValue # stack) (?out @ text) s2" "state d h2 s2"
    using assms(2) [OF s1(2)] by blast
  obtain s3 where s3: "fm_end_array_value F s2 = Some ([], s3)" "state d True s3"
    using end_array_value [OF s2(2)] by blast
  have "write_loop L F (WArrayValue n first # stack) out s = write_loop L F stack (?out @ text) s3"
    using s1(1) s2(1) s3(1) by (simp add: write_loop_step)
  then show ?thesis using s3(2) by auto
qed

lemma member_written:
  assumes "state d h s" and "writes_scalars F"
    and "\<And>h s stack out. state d h s \<Longrightarrow> \<exists>s' h'. write_loop L F (WNode n # stack) out s
      = write_loop L F stack (out @ text) s' \<and> state d h' s'"
  shows "\<exists>s'. write_loop L F (WMember key n first # stack) out s
      = write_loop L F stack (out @ (if first then [] else lit '','') @ nl d @ jl_write_string L key @ colon @ text) s'
    \<and> state d True s'"
proof -
  obtain s1 where s1: "fm_begin_object_key F first s = Some ((if first then [] else lit '','') @ nl d, s1)" "state d h s1"
    using begin_object_key [OF assms(1)] by blast
  have key: "fm_end_object_key F s1 = Some ([], s1)" using assms(2) by (simp add: writes_scalars_def)
  obtain s2 where s2: "fm_begin_object_value F s1 = Some (colon, s2)" "state d h s2"
    using begin_object_value [OF s1(2)] by blast
  let ?out = "out @ (if first then [] else lit '','') @ nl d @ jl_write_string L key @ colon"
  obtain s3 h3 where s3: "write_loop L F (WNode n # WEndObjectValue # stack) ?out s2
      = write_loop L F (WEndObjectValue # stack) (?out @ text) s3" "state d h3 s3"
    using assms(3) [OF s2(2)] by blast
  obtain s4 where s4: "fm_end_object_value F s3 = Some ([], s4)" "state d True s4"
    using end_object_value [OF s3(2)] by blast
  have "write_loop L F (WMember key n first # stack) out s = write_loop L F stack (?out @ text) s4"
    using s1(1) key s2(1) s3(1) s4(1) by (simp add: write_loop_step)
  then show ?thesis using s4(2) by auto
qed

text \<open>All elements of an open array or object, from what one of them writes.\<close>

lemma items_written:
  assumes "\<And>x first h s stack out. x \<in> set xs \<Longrightarrow> state d h s \<Longrightarrow>
      \<exists>s'. write_loop L F (task x first # stack) out s
         = write_loop L F stack (out @ (if first then [] else lit '','') @ nl d @ shown x) s' \<and> state d True s'"
    and "state d False s"
  shows "\<exists>s'. write_loop L F (mark_first task xs @ stack) out s
      = write_loop L F stack (out @ items_text (nl d) (map shown xs)) s' \<and> state d (xs \<noteq> []) s'"
proof (cases xs)
  case Nil
  then show ?thesis using assms(2) by auto
next
  case (Cons x ys)
  have rest: "\<exists>s'. write_loop L F (map (\<lambda>x. task x False) ys @ stack) out s
      = write_loop L F stack (out @ concat (map (\<lambda>t. lit '','' @ nl d @ t) (map shown ys))) s' \<and> state d True s'"
    if "set ys \<subseteq> set xs" "state d True s" for ys s out
    using that
  proof (induction ys arbitrary: s out)
    case (Cons y ys)
    obtain s1 where "write_loop L F (task y False # map (\<lambda>x. task x False) ys @ stack) out s
        = write_loop L F (map (\<lambda>x. task x False) ys @ stack) (out @ lit '','' @ nl d @ shown y) s1" "state d True s1"
      using assms(1) [of y True s False "map (\<lambda>x. task x False) ys @ stack" out] Cons.prems by auto
    then show ?case
      using Cons.IH [of s1 "out @ lit '','' @ nl d @ shown y"] Cons.prems(1) by auto
  qed auto
  obtain s1 where "write_loop L F (task x True # map (\<lambda>x. task x False) ys @ stack) out s
      = write_loop L F (map (\<lambda>x. task x False) ys @ stack) (out @ nl d @ shown x) s1" "state d True s1"
    using assms(1) [of x False s True "map (\<lambda>x. task x False) ys @ stack" out] assms(2) Cons by auto
  then show ?thesis using rest [of ys s1 "out @ nl d @ shown x"] Cons by auto
qed

text \<open>A node in front of other tasks writes its text and keeps the depth.\<close>

lemma node_written:
  assumes "writes_scalars F"
  shows "state d h s \<Longrightarrow> \<exists>s' h'. write_loop L F (WNode n # stack) out s
      = write_loop L F stack (out @ json_text L nl colon d n) s' \<and> state d h' s'"
proof (induction n arbitrary: d h s stack out rule: json_induct)
  case (node n)
  show ?case
  proof (cases n)
    case (JArray elems)
    obtain s1 where s1: "fm_begin_array F s = Some (lit ''['', s1)" "state (Suc d) False s1"
      using begin_array [OF node.prems] by blast
    have one: "\<exists>s'. write_loop L F (WArrayValue x first # stack) out s
         = write_loop L F stack (out @ (if first then [] else lit '','') @ nl (Suc d) @ json_text L nl colon (Suc d) x) s'
       \<and> state (Suc d) True s'" if "x \<in> set elems" "state (Suc d) h s" for x first h s stack out
      using node.IH [of x] that by (intro array_value_written) (auto simp: JArray)
    obtain s2 where s2: "write_loop L F (mark_first WArrayValue elems @ WEndArray # stack) (out @ lit ''['') s1
        = write_loop L F (WEndArray # stack) ((out @ lit ''['') @ items_text (nl (Suc d)) (map (json_text L nl colon (Suc d)) elems)) s2"
      "state (Suc d) (elems \<noteq> []) s2"
      using items_written [where task = WArrayValue and shown = "json_text L nl colon (Suc d)" and xs = elems
          and stack = "WEndArray # stack" and out = "out @ lit ''[''" and L = L, OF _ s1(2)] one by blast
    obtain s3 h3 where "fm_end_array F s2 = Some ((if elems \<noteq> [] then nl d else []) @ lit '']'', s3)" "state d h3 s3"
      using end_array [OF s2(2)] by blast
    then show ?thesis
      using s1(1) s2(1) by (intro exI [of _ s3] exI [of _ h3]) (auto simp: JArray write_loop_step)
  next
    case (JObject members)
    let ?text = "\<lambda>m. jl_write_string L (fst m) @ colon @ json_text L nl colon (Suc d) (snd m)"
    obtain s1 where s1: "fm_begin_object F s = Some (lit ''{'', s1)" "state (Suc d) False s1"
      using begin_object [OF node.prems] by blast
    have one: "\<exists>s'. write_loop L F ((\<lambda>(key, val). WMember key val) m first # stack) out s
         = write_loop L F stack (out @ (if first then [] else lit '','') @ nl (Suc d) @ ?text m) s'
       \<and> state (Suc d) True s'" if "m \<in> set members" "state (Suc d) h s" for m first h s stack out
      using member_written [OF that(2) assms, of L "snd m" "json_text L nl colon (Suc d) (snd m)"] node.IH [of "snd m"] that(1)
      by (auto simp: JObject split_beta)
    obtain s2 where s2: "write_loop L F (mark_first (\<lambda>(key, val). WMember key val) members @ WEndObject # stack) (out @ lit ''{'') s1
        = write_loop L F (WEndObject # stack) ((out @ lit ''{'') @ items_text (nl (Suc d)) (map ?text members)) s2"
      "state (Suc d) (members \<noteq> []) s2"
      using items_written [where task = "\<lambda>(key, val). WMember key val" and shown = ?text and xs = members
          and stack = "WEndObject # stack" and out = "out @ lit ''{''" and L = L, OF _ s1(2)] one by blast
    obtain s3 h3 where "fm_end_object F s2 = Some ((if members \<noteq> [] then nl d else []) @ lit ''}'', s3)" "state d h3 s3"
      using end_object [OF s2(2)] by blast
    then show ?thesis
      using s1(1) s2(1) by (intro exI [of _ s3] exI [of _ h3]) (auto simp: JObject write_loop_step)
  qed (use assms node.prems in \<open>auto simp: writes_scalars_def write_loop_step\<close>)
qed

lemma write_node_text:
  assumes "writes_scalars F" and "state 0 h s"
  shows "write_node L F n s = Some (json_text L nl colon 0 n)"
  using node_written [OF assms, of L n "[]" "[]"] by (auto simp: write_node_def write_loop.simps [of L F "[]"])

end

interpretation capped: json_layout "capped_pretty L" "\<lambda>d. newline (indentation d)" "lit '': ''"
    "\<lambda>d h f. cp_depth f = d \<and> cp_has_value f = h" for L
  by unfold_locales
    (auto simp: capped_pretty_def cp_begin_def cp_end_def cp_begin_item_def cp_end_item_def Let_def)

lemma compact_layout:
  assumes "json_laws L"
  shows "json_layout (jl_compact L) (\<lambda>_. []) (lit '':'') (\<lambda>_ _ _. True)"
  using assms by unfold_locales (auto simp: json_laws_def)

text \<open>The text of a tree under the laws, compact and pretty.\<close>

definition text_of_json :: "json_library \<Rightarrow> bool \<Rightarrow> json_node \<Rightarrow> str" where
  "text_of_json L pretty n =
     (if pretty then json_text L (\<lambda>d. newline (indentation d)) (lit '': '') 0 n
      else json_text L (\<lambda>_. []) (lit '':'') 0 n)"

lemma json_to_string_text:
  assumes "json_laws L"
  shows "json_to_string L n pretty = Some (text_of_json L pretty n)"
proof -
  have "write_node L (capped_pretty L) n cp_default
      = Some (json_text L (\<lambda>d. newline (indentation d)) (lit '': '') 0 n)"
    by (rule capped.write_node_text [OF law_scalars(2) [OF assms]]) (auto simp: cp_default_def)
  moreover have "write_node L (jl_compact L) n () = Some (json_text L (\<lambda>_. []) (lit '':'') 0 n)"
    by (rule json_layout.write_node_text [OF compact_layout law_scalars(1)]) (use assms in auto)
  ultimately show ?thesis
    by (simp add: json_to_string_def text_of_json_def)
qed

end
