(* ===== verification/Json_Parse.thy ===== *)
theory Json_Parse
  imports Json_Tree
begin

text \<open>
  The reader of \<open>json_tree.rs\<close>: a loop with an explicit stack of open arrays and objects and an action
  that says what the grammar admits next, over a cursor into the bytes of the text.

  A slice of the text whose ends are not character boundaries, or that runs backwards, is a panic
  (\<open>JsonPanic\<close>), and so is a state the source calls unreachable.
\<close>

section \<open>Faults and the cursor\<close>

datatype json_fault = JsonError nat nat str | JsonPanic

record json_parser =
  jp_input :: "byte list"
  jp_cursor :: nat

text \<open>\<open>str::is_char_boundary\<close>, and a slice of a text given by its bytes.\<close>

definition char_boundary :: "byte list \<Rightarrow> nat \<Rightarrow> bool" where
  "char_boundary bs i \<longleftrightarrow> i = 0 \<or> i = length bs \<or> (i < length bs \<and> \<not> is_cont (bs ! i))"

definition str_slice :: "byte list \<Rightarrow> nat \<Rightarrow> nat \<Rightarrow> str option" where
  "str_slice bs a b =
     (if a \<le> b \<and> b \<le> length bs \<and> char_boundary bs a \<and> char_boundary bs b
      then Some (fst (utf8_prefix (take (b - a) (drop a bs)))) else None)"

text \<open>\<open>Parser::error\<close>: the line and the column, in characters, of the cursor.\<close>

definition line_start :: "byte list \<Rightarrow> nat" where
  "line_start prefix = length prefix - length (takeWhile (\<lambda>b. b \<noteq> 10) (rev prefix))"

definition jp_error :: "json_parser \<Rightarrow> str \<Rightarrow> json_fault" where
  "jp_error p message =
     (let stop = min (jp_cursor p) (length (jp_input p))
      in if \<not> char_boundary (jp_input p) stop then JsonPanic
         else
           (let prefix = take stop (jp_input p); lines = length (filter (\<lambda>b. b = 10) prefix) + 1
            in case str_slice prefix (line_start prefix) (length prefix) of
                 None \<Rightarrow> JsonPanic
               | Some chars \<Rightarrow> JsonError lines (length chars + 1) message))"

definition jp_get :: "json_parser \<Rightarrow> byte option" where
  "jp_get p = (if jp_cursor p < length (jp_input p) then Some (jp_input p ! jp_cursor p) else None)"

abbreviation jp_advance :: "json_parser \<Rightarrow> nat \<Rightarrow> json_parser" where
  "jp_advance p n \<equiv> p\<lparr>jp_cursor := jp_cursor p + n\<rparr>"

definition is_json_space :: "byte \<Rightarrow> bool" where
  "is_json_space b \<longleftrightarrow> b = 32 \<or> b = 9 \<or> b = 13 \<or> b = 10"

definition ends_number :: "byte \<Rightarrow> bool" where
  "ends_number b \<longleftrightarrow> is_json_space b \<or> b = 44 \<or> b = 93 \<or> b = 125"

text \<open>The two loops that skip bytes: \<open>whitespace\<close>, and the token of \<open>number\<close>.\<close>

function jp_skip_while :: "(byte \<Rightarrow> bool) \<Rightarrow> json_parser \<Rightarrow> json_parser" where
  "jp_skip_while ok p =
     (case jp_get p of Some b \<Rightarrow> if ok b then jp_skip_while ok (jp_advance p 1) else p | None \<Rightarrow> p)"
  by pat_completeness auto
termination
  by (relation "measure (\<lambda>(_, p). length (jp_input p) - jp_cursor p)") (auto simp: jp_get_def split: if_splits)

declare jp_skip_while.simps [simp del]

definition jp_whitespace :: "json_parser \<Rightarrow> json_parser" where
  "jp_whitespace p = jp_skip_while is_json_space p"

definition jp_consume :: "byte \<Rightarrow> json_parser \<Rightarrow> bool \<times> json_parser" where
  "jp_consume b p = (if jp_get p = Some b then (True, jp_advance p 1) else (False, p))"

definition jp_expect :: "byte \<Rightarrow> str \<Rightarrow> json_parser \<Rightarrow> json_fault + json_parser" where
  "jp_expect b message p =
     (let (found, p) = jp_consume b p in if found then Inr p else Inl (jp_error p message))"

section \<open>Strings, numbers and literals\<close>

text \<open>
  The loop of \<open>string\<close>. Without an escape the string is the text between the quotes; otherwise the
  library reads the literal.
\<close>

function jp_string_loop :: "json_library \<Rightarrow> nat \<Rightarrow> bool \<Rightarrow> json_parser \<Rightarrow> json_fault + (str \<times> json_parser)" where
  "jp_string_loop L start escaped p =
     (case jp_get p of
        None \<Rightarrow> Inl (jp_error p (lit ''unterminated string''))
      | Some b \<Rightarrow>
          if b = 34 then
            (let p = jp_advance p 1
             in if \<not> escaped then
                  (case str_slice (jp_input p) (start + 1) (jp_cursor p - 1) of
                     None \<Rightarrow> Inl JsonPanic
                   | Some s \<Rightarrow> Inr (s, p))
                else
                  (case str_slice (jp_input p) start (jp_cursor p) of
                     None \<Rightarrow> Inl JsonPanic
                   | Some literal \<Rightarrow>
                       (case jl_read_string L literal of
                          Inl message \<Rightarrow> Inl (jp_error p message)
                        | Inr s \<Rightarrow> Inr (s, p))))
          else if b = 92 then
            (let p = jp_advance p 1
             in if jp_cursor p = length (jp_input p)
                then Inl (jp_error p (lit ''unterminated escape sequence''))
                else jp_string_loop L start True (jp_advance p 1))
          else if unat b \<le> 0x1F then Inl (jp_error p (lit ''control character in string''))
          else jp_string_loop L start escaped (jp_advance p 1))"
  by pat_completeness auto
termination
  by (relation "measure (\<lambda>(_, _, _, p). length (jp_input p) - jp_cursor p)") (auto simp: jp_get_def split: if_splits)

declare jp_string_loop.simps [simp del]

definition jp_string :: "json_library \<Rightarrow> json_parser \<Rightarrow> json_fault + (str \<times> json_parser)" where
  "jp_string L p =
     and_then (jp_expect 34 (lit ''expected a string'') p) (jp_string_loop L (jp_cursor p) False)"

definition jp_number :: "json_library \<Rightarrow> json_parser \<Rightarrow> json_fault + (str \<times> json_parser)" where
  "jp_number L p =
     (let q = jp_skip_while (\<lambda>b. \<not> ends_number b) p
      in case str_slice (jp_input p) (jp_cursor p) (jp_cursor q) of
           None \<Rightarrow> Inl JsonPanic
         | Some token \<Rightarrow>
             (case jl_number_error L token of
                Some message \<Rightarrow> Inl (jp_error q message)
              | None \<Rightarrow> Inr (token, q)))"

datatype value_start = VNode json_node | VArray | VObject

definition jp_literal :: "str \<Rightarrow> json_node \<Rightarrow> json_parser \<Rightarrow> json_fault + (value_start \<times> json_parser)" where
  "jp_literal token node p =
     (if \<not> (jp_cursor p \<le> length (jp_input p) \<and> char_boundary (jp_input p) (jp_cursor p)) then Inl JsonPanic
      else if take (str_len token) (drop (jp_cursor p) (jp_input p)) = str_bytes token
      then Inr (VNode node, jp_advance p (str_len token))
      else Inl (jp_error p (lit ''expected `'' @ token @ lit ''`'')))"

definition jp_value :: "json_library \<Rightarrow> json_parser \<Rightarrow> json_fault + (value_start \<times> json_parser)" where
  "jp_value L p =
     (case jp_get p of
        None \<Rightarrow> Inl (jp_error p (lit ''expected a JSON value''))
      | Some b \<Rightarrow>
          if b = 123 then Inr (VObject, jp_advance p 1)
          else if b = 91 then Inr (VArray, jp_advance p 1)
          else if b = 34 then and_then (jp_string L p) (\<lambda>(s, p). Inr (VNode (JString s), p))
          else if b = 116 then jp_literal (lit ''true'') (JBool True) p
          else if b = 102 then jp_literal (lit ''false'') (JBool False) p
          else if b = 110 then jp_literal (lit ''null'') JNull p
          else if b = 45 \<or> (48 \<le> unat b \<and> unat b \<le> 57)
          then and_then (jp_number L p) (\<lambda>(token, p). Inr (VNode (JNumber token), p))
          else Inl (jp_error p (lit ''expected a JSON value'')))"

section \<open>The loop\<close>

datatype json_frame = FArray "json_node list" | FObject "(str \<times> json_node) list" "str option"

datatype json_action =
    AValue
  | AArrayValueOrEnd
  | AArrayDelimiter
  | AObjectKeyOrEnd
  | AObjectKey
  | AObjectDelimiter
  | AFinished

record parse_state =
  ps_parser :: json_parser
  ps_stack :: "json_frame list"
  ps_root :: "json_node option"
  ps_action :: json_action

text \<open>\<open>attach\<close>: a finished value goes into the innermost open frame, or is the root.\<close>

definition attach :: "json_node \<Rightarrow> parse_state \<Rightarrow> json_fault + parse_state" where
  "attach val st =
     (case ps_stack st of
        FArray elems # stack \<Rightarrow>
          Inr (st\<lparr>ps_stack := FArray (elems @ [val]) # stack, ps_action := AArrayDelimiter\<rparr>)
      | FObject members key # stack \<Rightarrow>
          (case key of
             None \<Rightarrow> Inl (jp_error (ps_parser st) (lit ''object value has no key''))
           | Some key \<Rightarrow>
               Inr (st\<lparr>ps_stack := FObject (members @ [(key, val)]) None # stack, ps_action := AObjectDelimiter\<rparr>))
      | [] \<Rightarrow> Inr (st\<lparr>ps_root := Some val, ps_action := AFinished\<rparr>))"

definition close_array :: "parse_state \<Rightarrow> json_fault + parse_state" where
  "close_array st =
     (case ps_stack st of
        FArray elems # stack \<Rightarrow> attach (JArray elems) (st\<lparr>ps_stack := stack\<rparr>)
      | _ \<Rightarrow> Inl JsonPanic)"

definition close_object :: "parse_state \<Rightarrow> json_fault + parse_state" where
  "close_object st =
     (case ps_stack st of
        FObject members key # stack \<Rightarrow> attach (JObject members) (st\<lparr>ps_stack := stack\<rparr>)
      | _ \<Rightarrow> Inl JsonPanic)"

definition read_key :: "json_library \<Rightarrow> parse_state \<Rightarrow> json_fault + parse_state" where
  "read_key L st =
     and_then (jp_string L (ps_parser st)) (\<lambda>(key, p).
       (case ps_stack st of
          FObject members pending # stack \<Rightarrow>
            if \<exists>m \<in> set members. fst m = key
            then Inl (jp_error p (lit ''duplicate field `'' @ key @ lit ''`''))
            else
              and_then (jp_expect 58 (lit ''expected `:` after object key'') (jp_whitespace p)) (\<lambda>p.
                Inr (st\<lparr>ps_parser := p, ps_stack := FObject members (Some key) # stack, ps_action := AValue\<rparr>))
        | _ \<Rightarrow> Inl JsonPanic))"

definition read_value :: "json_library \<Rightarrow> parse_state \<Rightarrow> json_fault + parse_state" where
  "read_value L st =
     and_then (jp_value L (ps_parser st)) (\<lambda>(start, p).
       let st = st\<lparr>ps_parser := p\<rparr>
       in case start of
            VNode val \<Rightarrow> attach val st
          | VArray \<Rightarrow> Inr (st\<lparr>ps_stack := FArray [] # ps_stack st, ps_action := AArrayValueOrEnd\<rparr>)
          | VObject \<Rightarrow> Inr (st\<lparr>ps_stack := FObject [] None # ps_stack st, ps_action := AObjectKeyOrEnd\<rparr>))"

text \<open>One iteration for an action other than \<open>AFinished\<close>, after the white space.\<close>

definition parse_action :: "json_library \<Rightarrow> parse_state \<Rightarrow> json_fault + parse_state" where
  "parse_action L st =
     (let p = ps_parser st; consumed = (\<lambda>b. jp_get p = Some b); next = st\<lparr>ps_parser := jp_advance p 1\<rparr>
      in case ps_action st of
           AValue \<Rightarrow> read_value L st
         | AArrayValueOrEnd \<Rightarrow> if consumed 93 then close_array next else Inr (st\<lparr>ps_action := AValue\<rparr>)
         | AArrayDelimiter \<Rightarrow>
             if consumed 44 then Inr (next\<lparr>ps_action := AValue\<rparr>)
             else if consumed 93 then close_array next
             else Inl (jp_error p (lit ''expected `,` or `]`''))
         | AObjectKeyOrEnd \<Rightarrow> if consumed 125 then close_object next else read_key L st
         | AObjectKey \<Rightarrow> read_key L st
         | AObjectDelimiter \<Rightarrow>
             if consumed 44 then Inr (next\<lparr>ps_action := AObjectKey\<rparr>)
             else if consumed 125 then close_object next
             else Inl (jp_error p (lit ''expected `,` or `}`''))
         | AFinished \<Rightarrow> Inl JsonPanic)"

definition parse_finish :: "parse_state \<Rightarrow> json_fault + json_node" where
  "parse_finish st =
     (let p = ps_parser st
      in if jp_cursor p \<noteq> length (jp_input p) then Inl (jp_error p (lit ''trailing characters''))
         else (case ps_root st of
                 Some root \<Rightarrow> Inr root
               | None \<Rightarrow> Inl (jp_error p (lit ''expected a JSON value''))))"

text \<open>Reading moves the cursor forward and leaves the text.\<close>

definition jp_moves :: "nat \<Rightarrow> json_parser \<Rightarrow> json_parser \<Rightarrow> bool" where
  "jp_moves k p q \<longleftrightarrow> jp_input q = jp_input p \<and> jp_cursor p + k \<le> jp_cursor q
     \<and> (k = 0 \<or> jp_cursor p < length (jp_input p))"

lemma jp_moves_trans: "jp_moves j p q \<Longrightarrow> jp_moves k q r \<Longrightarrow> k = 0 \<or> j = 0 \<Longrightarrow> jp_moves (j + k) p r"
  by (auto simp: jp_moves_def)

lemma jp_moves_less: "jp_moves 1 p q \<Longrightarrow> length (jp_input q) - jp_cursor q < length (jp_input p) - jp_cursor p"
  by (auto simp: jp_moves_def)

lemma jp_get_length: "jp_get p = Some b \<Longrightarrow> jp_cursor p < length (jp_input p)"
  by (simp add: jp_get_def split: if_splits)

lemma skip_while_moves: "jp_moves 0 p (jp_skip_while ok p)"
proof (induction ok p rule: jp_skip_while.induct)
  case (1 ok p)
  then show ?case
    by (subst jp_skip_while.simps) (auto simp: jp_moves_def split: option.split)
qed

lemma skip_while_moves_one: "jp_get p = Some b \<Longrightarrow> ok b \<Longrightarrow> jp_moves 1 p (jp_skip_while ok p)"
  using skip_while_moves [of "jp_advance p 1" ok] jp_get_length [of p b]
  by (subst jp_skip_while.simps) (auto simp: jp_moves_def)

lemma whitespace_moves: "jp_moves 0 p (jp_whitespace p)"
  by (simp add: jp_whitespace_def skip_while_moves)

lemma expect_moves: "jp_expect b message p = Inr q \<Longrightarrow> jp_moves 1 p q"
  by (auto simp: jp_expect_def jp_consume_def jp_moves_def dest: jp_get_length split: if_splits)

lemma string_loop_moves: "jp_string_loop L start escaped p = Inr (s, q) \<Longrightarrow> jp_moves 0 p q"
proof (induction L start escaped p rule: jp_string_loop.induct)
  case (1 L start escaped p)
  obtain b where b: "jp_get p = Some b"
    using "1.prems" by (subst (asm) jp_string_loop.simps) (auto split: option.splits)
  consider "b = 34" | "b = 92" | "b \<noteq> 34" "b \<noteq> 92" by blast
  then show ?case
  proof cases
    case 1
    then show ?thesis
      using "1.prems" b by (subst (asm) jp_string_loop.simps)
        (auto simp: Let_def jp_moves_def split: if_splits option.splits sum.splits)
  next
    case 2
    then show ?thesis
      using "1.prems" b "1.IH"(1) [OF b _ 2 refl] by (subst (asm) jp_string_loop.simps)
        (auto simp: Let_def jp_moves_def split: if_splits)
  next
    case 3
    then show ?thesis
      using "1.prems" b "1.IH"(2) [OF b 3] by (subst (asm) jp_string_loop.simps)
        (auto simp: jp_moves_def split: if_splits)
  qed
qed

lemma string_moves: "jp_string L p = Inr (s, q) \<Longrightarrow> jp_moves 1 p q"
  using jp_moves_trans [OF expect_moves string_loop_moves, of 34 _ p]
  by (fastforce simp: jp_string_def elim: and_thenE)

lemma value_moves:
  assumes "jp_value L p = Inr (start, q)"
  shows "jp_moves 1 p q"
proof -
  obtain b where b: "jp_get p = Some b" "jp_cursor p < length (jp_input p)"
    using assms jp_get_length by (auto simp: jp_value_def split: option.splits)
  have number: "jp_moves 1 p q" if "jp_number L p = Inr (token, q)" "b = 45 \<or> (48 \<le> unat b \<and> unat b \<le> 57)" for token
  proof -
    have "\<not> ends_number b" using that(2) by (auto simp: ends_number_def is_json_space_def)
    then show ?thesis
      using that(1) skip_while_moves_one [OF b(1), of "\<lambda>b. \<not> ends_number b"]
      by (auto simp: jp_number_def Let_def split: option.splits)
  qed
  have literal: "jp_moves 1 p q" if "jp_literal token node p = Inr (start, q)" "0 < str_len token" for token node
    using that b(2) by (auto simp: jp_literal_def jp_moves_def split: if_splits)
  show ?thesis
    using assms b number string_moves [of L p]
      literal [of "lit ''true''" "JBool True"] literal [of "lit ''false''" "JBool False"] literal [of "lit ''null''" JNull]
    by (auto simp: jp_value_def jp_moves_def [of "Suc 0" p "p\<lparr>jp_cursor := Suc (jp_cursor p)\<rparr>"] elim!: and_thenE
        split: if_splits)
qed

definition action_weight :: "parse_state \<Rightarrow> nat" where
  "action_weight st = 2 * (length (jp_input (ps_parser st)) - jp_cursor (ps_parser st))
     + (if ps_action st = AArrayValueOrEnd then 1 else 0)"

lemma attach_parser: "attach val st = Inr st' \<Longrightarrow> ps_parser st' = ps_parser st"
  by (auto simp: attach_def split: list.splits json_frame.splits option.splits)

lemma close_array_parser: "close_array st = Inr st' \<Longrightarrow> ps_parser st' = ps_parser st"
  by (auto simp: close_array_def dest: attach_parser split: list.splits json_frame.splits)

lemma close_object_parser: "close_object st = Inr st' \<Longrightarrow> ps_parser st' = ps_parser st"
  by (auto simp: close_object_def dest: attach_parser split: list.splits json_frame.splits)

lemma read_key_moves:
  assumes "read_key L st = Inr st'"
  shows "jp_moves 1 (ps_parser st) (ps_parser st')"
proof -
  obtain key p p' where s: "jp_string L (ps_parser st) = Inr (key, p)"
    "jp_expect 58 (lit ''expected `:` after object key'') (jp_whitespace p) = Inr p'" "ps_parser st' = p'"
    using assms by (auto simp: read_key_def elim!: and_thenE split: list.splits json_frame.splits if_splits)
  have "jp_moves 1 (ps_parser st) (jp_whitespace p)"
    using jp_moves_trans [OF string_moves [OF s(1)] whitespace_moves] by simp
  then show ?thesis using expect_moves [OF s(2)] s(3) by (auto simp: jp_moves_def)
qed

lemma read_value_moves: "read_value L st = Inr st' \<Longrightarrow> jp_moves 1 (ps_parser st) (ps_parser st')"
  by (auto simp: read_value_def Let_def elim!: and_thenE dest!: value_moves attach_parser split: value_start.splits)

lemma parse_action_moves:
  assumes "parse_action L st = Inr st'"
  shows "jp_moves 1 (ps_parser st) (ps_parser st')
    \<or> (ps_action st = AArrayValueOrEnd \<and> ps_parser st' = ps_parser st \<and> ps_action st' = AValue)"
proof -
  have "jp_moves 1 (ps_parser st) (jp_advance (ps_parser st) 1)" if "jp_get (ps_parser st) = Some b" for b
    using jp_get_length [OF that] by (simp add: jp_moves_def)
  then show ?thesis
    using assms
    by (auto simp: parse_action_def Let_def dest: close_array_parser close_object_parser read_key_moves
        read_value_moves split: json_action.splits if_splits)
qed

lemma parse_action_weight: "parse_action L st = Inr st' \<Longrightarrow> action_weight st' < action_weight st"
  using parse_action_moves [of L st st'] jp_moves_less [of "ps_parser st" "ps_parser st'"]
  by (auto simp: action_weight_def)

function parse_loop :: "json_library \<Rightarrow> parse_state \<Rightarrow> json_fault + json_node" where
  "parse_loop L st =
     (let st = st\<lparr>ps_parser := jp_whitespace (ps_parser st)\<rparr>
      in if ps_action st = AFinished then parse_finish st
         else and_then (parse_action L st) (parse_loop L))"
  by pat_completeness auto
termination
proof (relation "measure (\<lambda>(_, st). action_weight st)")
  fix L st x st'
  assume x: "x = st\<lparr>ps_parser := jp_whitespace (ps_parser st)\<rparr>" and step: "parse_action L x = Inr st'"
  have "action_weight x \<le> action_weight st"
    using whitespace_moves [of "ps_parser st"] by (auto simp: x action_weight_def jp_moves_def)
  then show "((L, st'), L, st) \<in> measure (\<lambda>(_, st). action_weight st)"
    using parse_action_weight [OF step] by simp
qed simp

declare parse_loop.simps [simp del]

definition json_parse :: "json_library \<Rightarrow> str \<Rightarrow> json_fault + json_node" where
  "json_parse L input =
     parse_loop L \<lparr>ps_parser = \<lparr>jp_input = str_bytes input, jp_cursor = 0\<rparr>, ps_stack = [], ps_root = None,
       ps_action = AValue\<rparr>"

end
