(* ===== verification/Json_Roundtrip.thy ===== *)
theory Json_Roundtrip
  imports Json_Text Json_Parse
begin

text \<open>
  Reading back what is written. \<open>at p s r\<close> says that the reader has read the text \<open>s\<close> and has \<open>r\<close>
  before it; each operation of the reader is described by how it moves this position. The main lemma
  reads the text of a node in front of any rest and hands the node to the stack, whatever white
  space the layout puts between the tokens.
\<close>

section \<open>Positions\<close>

definition at :: "json_parser \<Rightarrow> str \<Rightarrow> str \<Rightarrow> bool" where
  "at p s r \<longleftrightarrow> jp_input p = str_bytes (s @ r) \<and> jp_cursor p = str_len s \<and> valid_str r"

lemma encode_ascii: "c < 128 \<Longrightarrow> encode_utf8 c = [byte_of c]"
  by (simp add: encode_utf8_def)

lemma first_byte_not_cont: "is_scalar c \<Longrightarrow> \<not> is_cont (hd (encode_utf8 c))"
  by (auto simp: encode_utf8_def is_cont_def is_scalar_def)

lemma str_len_append: "str_len (s @ r) = str_len s + str_len r"
  by simp

lemma nth_str_bytes: "str_bytes r \<noteq> [] \<Longrightarrow> str_bytes (s @ r) ! str_len s = hd (str_bytes r)"
  by (simp add: nth_append length_str_bytes [symmetric] hd_conv_nth del: length_str_bytes)

lemma str_bytes_Nil_iff: "str_bytes r = [] \<longleftrightarrow> r = []"
  by (cases r) auto

lemma boundary_str:
  assumes "valid_str r"
  shows "char_boundary (str_bytes (s @ r)) (str_len s)"
proof (cases r)
  case Nil
  then show ?thesis by (simp add: char_boundary_def length_str_bytes)
next
  case (Cons c t)
  have "str_bytes (s @ r) ! str_len s = hd (encode_utf8 c)"
    using nth_str_bytes [of r s] by (simp add: Cons)
  then show ?thesis
    using assms first_byte_not_cont [of c] by (simp add: Cons char_boundary_def length_str_bytes)
qed

lemma at_boundary: "at p s r \<Longrightarrow> char_boundary (jp_input p) (jp_cursor p)"
  using boundary_str by (simp add: at_def del: str_bytes_simps)

lemma slice_str:
  assumes "valid_str b" and "valid_str c"
  shows "str_slice (str_bytes (a @ b @ c)) (str_len a) (str_len (a @ b)) = Some b"
proof -
  have "char_boundary (str_bytes (a @ b @ c)) (str_len a)"
    by (rule boundary_str) (use assms in simp)
  moreover have "char_boundary (str_bytes (a @ b @ c)) (str_len (a @ b))"
    using boundary_str [OF assms(2), of "a @ b"] by simp
  moreover have "take (str_len (a @ b) - str_len a) (drop (str_len a) (str_bytes (a @ b @ c))) = str_bytes b"
    by (simp add: length_str_bytes [symmetric] del: length_str_bytes)
  ultimately show ?thesis
    using assms utf8_prefix_str_bytes [of b "[]"] by (simp add: str_slice_def length_str_bytes)
qed

lemma at_get: "at p s (c # r) \<Longrightarrow> c < 128 \<Longrightarrow> jp_get p = Some (byte_of c)"
  using nth_str_bytes [of "c # r" s]
  by (simp add: at_def jp_get_def length_str_bytes encode_ascii)

lemma at_end: "at p s [] \<Longrightarrow> jp_get p = None"
  by (simp add: at_def jp_get_def length_str_bytes)

lemma at_advance: "at p s (c # r) \<Longrightarrow> c < 128 \<Longrightarrow> at (jp_advance p 1) (s @ [c]) r"
  by (simp add: at_def len_utf8_def)

text \<open>Skipping the bytes of a text, and stopping at an ASCII character that ends it.\<close>

definition skips :: "(byte \<Rightarrow> bool) \<Rightarrow> str \<Rightarrow> bool" where
  "skips ok w \<longleftrightarrow> (\<forall>c \<in> set w. c < 128 \<and> ok (byte_of c))"

definition stops :: "(byte \<Rightarrow> bool) \<Rightarrow> str \<Rightarrow> bool" where
  "stops ok r \<longleftrightarrow> (case r of [] \<Rightarrow> True | c # _ \<Rightarrow> c < 128 \<and> \<not> ok (byte_of c))"

lemma skip_while_stop: "at p s r \<Longrightarrow> stops ok r \<Longrightarrow> jp_skip_while ok p = p"
  by (subst jp_skip_while.simps) (auto simp: stops_def at_get at_end split: list.splits)

lemma skip_while_text:
  "at p s (w @ r) \<Longrightarrow> skips ok w \<Longrightarrow> stops ok r \<Longrightarrow> at (jp_skip_while ok p) (s @ w) r"
proof (induction w arbitrary: p s)
  case Nil
  then show ?case using skip_while_stop [of p s r ok] by simp
next
  case (Cons c w)
  have "jp_get p = Some (byte_of c)" "ok (byte_of c)" "at (jp_advance p 1) (s @ [c]) (w @ r)"
    using Cons.prems at_get [of p s c "w @ r"] at_advance [of p s c "w @ r"] by (auto simp: skips_def)
  then show ?case
    using Cons.IH [of "jp_advance p 1" "s @ [c]"] Cons.prems(2,3)
    by (subst jp_skip_while.simps) (simp add: skips_def)
qed

text \<open>A text that does not begin with white space; any character above ASCII will do.\<close>

definition blank :: "str \<Rightarrow> bool" where
  "blank w \<longleftrightarrow> set w \<subseteq> {32, 9, 13, 10}"

definition solid :: "str \<Rightarrow> bool" where
  "solid r \<longleftrightarrow> (case r of [] \<Rightarrow> True | c # _ \<Rightarrow> c < 128 \<and> c \<notin> {32, 9, 13, 10})"

lemma byte_of_eq_iff: "a < 256 \<Longrightarrow> b < 256 \<Longrightarrow> byte_of a = byte_of b \<longleftrightarrow> a = b"
  by (metis unat_byte_of)

lemma byte_of_numeral_iff:
  assumes "numeral k < (256::nat)" and "c < 128"
  shows "byte_of c = numeral k \<longleftrightarrow> c = numeral k"
proof -
  have "byte_of (numeral k) = numeral k" by (simp add: byte_of_def)
  then show ?thesis using byte_of_eq_iff [of c "numeral k"] assms by simp
qed

lemma json_space_iff: "c < 128 \<Longrightarrow> is_json_space (byte_of c) \<longleftrightarrow> c \<in> {32, 9, 13, 10}"
  by (simp add: is_json_space_def byte_of_numeral_iff)

lemma ends_number_iff: "c < 128 \<Longrightarrow> ends_number (byte_of c) \<longleftrightarrow> c \<in> {32, 9, 13, 10, 44, 93, 125}"
  by (auto simp: ends_number_def json_space_iff byte_of_numeral_iff)

lemma whitespace_text: "at p s (w @ r) \<Longrightarrow> blank w \<Longrightarrow> solid r \<Longrightarrow> at (jp_whitespace p) (s @ w) r"
  unfolding jp_whitespace_def
  by (rule skip_while_text)
    (auto simp: skips_def stops_def blank_def solid_def json_space_iff split: list.splits)

lemma whitespace_solid: "at p s r \<Longrightarrow> solid r \<Longrightarrow> jp_whitespace p = p"
  unfolding jp_whitespace_def
  by (rule skip_while_stop) (auto simp: stops_def solid_def json_space_iff split: list.splits)

lemma expect_text: "at p s (c # r) \<Longrightarrow> c < 128 \<Longrightarrow> jp_expect (byte_of c) message p = Inr (jp_advance p 1)"
  by (simp add: jp_expect_def jp_consume_def at_get)

section \<open>Strings and numbers\<close>

lemma drop_ConsD: "drop n xs = x # ys \<Longrightarrow> n < length xs \<and> xs ! n = x \<and> drop (Suc n) xs = ys"
  by (metis Cons_nth_drop_Suc drop_all list.distinct(1) list.inject not_less)

text \<open>A byte above ASCII is an ordinary byte of a string.\<close>

lemma string_loop_bytes:
  "drop (jp_cursor p) (jp_input p) = bs @ rest \<Longrightarrow> \<forall>b \<in> set bs. 128 \<le> unat b \<Longrightarrow>
   jp_string_loop L start escaped p = jp_string_loop L start escaped (jp_advance p (length bs))"
proof (induction bs arbitrary: p)
  case (Cons b bs)
  have get: "jp_get p = Some b"
    using drop_ConsD [of "jp_cursor p" "jp_input p" b] Cons.prems(1) by (simp add: jp_get_def)
  have "drop (jp_cursor (jp_advance p 1)) (jp_input (jp_advance p 1)) = bs @ rest"
    using drop_ConsD [of "jp_cursor p" "jp_input p" b] Cons.prems(1) by simp
  then have "jp_string_loop L start escaped (jp_advance p 1)
      = jp_string_loop L start escaped (jp_advance (jp_advance p 1) (length bs))"
    using Cons.prems(2) by (intro Cons.IH) auto
  moreover have "b \<noteq> 34" "b \<noteq> 92" "\<not> unat b \<le> 31" using Cons.prems(2) by auto
  ultimately show ?case
    by (subst jp_string_loop.simps) (simp add: get)
qed simp

lemma encode_high: "128 \<le> c \<Longrightarrow> is_scalar c \<Longrightarrow> \<forall>b \<in> set (encode_utf8 c). 128 \<le> unat b"
  by (auto simp: encode_utf8_def is_scalar_def)

lemma string_loop_char:
  assumes "at p s (c # r)" and "128 \<le> c"
  shows "jp_string_loop L start escaped p = jp_string_loop L start escaped (jp_advance p (len_utf8 c))
    \<and> at (jp_advance p (len_utf8 c)) (s @ [c]) r"
proof
  have "drop (jp_cursor p) (jp_input p) = encode_utf8 c @ str_bytes r"
    using assms(1) by (simp add: at_def length_str_bytes [symmetric] del: length_str_bytes)
  then show "jp_string_loop L start escaped p = jp_string_loop L start escaped (jp_advance p (len_utf8 c))"
    using string_loop_bytes [of p "encode_utf8 c"] encode_high [OF assms(2)] assms(1)
    by (simp add: at_def length_encode_utf8)
qed (use assms in \<open>simp add: at_def\<close>)

lemma string_loop_escape:
  assumes "at p s (92 # c # r)" and "c < 128"
  shows "jp_string_loop L start escaped p = jp_string_loop L start True (jp_advance p 2)
    \<and> at (jp_advance p 2) (s @ [92, c]) r"
proof -
  have "jp_get p = Some 92" using at_get [OF assms(1)] by (simp add: byte_of_def)
  moreover have "jp_cursor p + 1 \<noteq> length (jp_input p)"
    using assms(1) by (simp add: at_def length_str_bytes length_encode_utf8 len_utf8_def)
  ultimately have "jp_string_loop L start escaped p = jp_string_loop L start True (jp_advance p 2)"
    by (subst jp_string_loop.simps) simp
  moreover have "at (jp_advance p 2) (s @ [92, c]) r"
    using assms by (simp add: at_def len_utf8_def)
  ultimately show ?thesis by blast
qed

lemma string_loop_plain:
  assumes "at p s (c # r)" and "32 \<le> c" "c \<noteq> 34" "c \<noteq> 92" "c < 128"
  shows "jp_string_loop L start escaped p = jp_string_loop L start escaped (jp_advance p 1)"
proof -
  have "jp_get p = Some (byte_of c)" using at_get [OF assms(1,5)] .
  moreover have "byte_of c \<noteq> 34" "byte_of c \<noteq> 92" "\<not> unat (byte_of c) \<le> 31"
    using assms by (simp_all add: byte_of_numeral_iff)
  ultimately show ?thesis by (subst jp_string_loop.simps) simp
qed

lemma string_loop_body:
  "at p s (body @ 34 # r) \<Longrightarrow> string_body body \<Longrightarrow>
   \<exists>q. jp_string_loop L start escaped p = jp_string_loop L start (escaped \<or> 92 \<in> set body) q
     \<and> at q (s @ body) (34 # r)"
proof (induction body arbitrary: p s escaped rule: string_body.induct)
  case 1
  then show ?case by auto
next
  case (2 c s')
  consider (escape) d t where "c = 92" "s' = d # t" "d < 128" "string_body t"
    | (plain) "c \<noteq> 92" "32 \<le> c" "c \<noteq> 34" "c < 128" "string_body s'"
    | (high) "c \<noteq> 92" "128 \<le> c" "string_body s'"
    using "2.prems"(2) by (fastforce split: list.splits if_splits)
  then show ?case
  proof cases
    case escape
    obtain q where "jp_string_loop L start True (jp_advance p 2) = jp_string_loop L start True q"
      "at q ((s @ [92, d]) @ t) (34 # r)"
      using "2.IH"(1) [OF escape(1,2), of "jp_advance p 2" "s @ [92, d]" True] escape "2.prems"(1)
        string_loop_escape [of p s d "t @ 34 # r"] by auto
    then show ?thesis
      using string_loop_escape [of p s d "t @ 34 # r" L start escaped] "2.prems"(1) escape by auto
  next
    case plain
    have "at (jp_advance p 1) (s @ [c]) (s' @ 34 # r)" using at_advance "2.prems"(1) plain(4) by simp
    then show ?thesis
      using "2.IH"(2) [OF plain(1), of "jp_advance p 1" "s @ [c]" escaped] plain
        string_loop_plain [of p s c "s' @ 34 # r" L start escaped] "2.prems"(1) by auto
  next
    case high
    then show ?thesis
      using "2.IH"(2) [OF high(1), of "jp_advance p (len_utf8 c)" "s @ [c]" escaped]
        string_loop_char [of p s c "s' @ 34 # r" L start escaped] "2.prems"(1) by auto
  qed
qed

text \<open>A string that the library writes is read back.\<close>

lemma string_text:
  assumes "json_laws L" and "valid_str v" and "at p s (jl_write_string L v @ r)"
  shows "\<exists>q. jp_string L p = Inr (v, q) \<and> at q (s @ jl_write_string L v) r"
proof -
  obtain body where w: "jl_write_string L v = 34 # body @ [34]" "valid_str body" "string_body body"
    "92 \<notin> set body \<longrightarrow> body = v" "jl_read_string L (34 # body @ [34]) = Inr v"
    using law_string [OF assms(1,2)] by blast
  have p: "at p s (34 # body @ 34 # r)" using assms(3) by (simp add: w(1))
  have open': "jp_expect 34 (lit ''expected a string'') p = Inr (jp_advance p 1)"
    using expect_text [OF p] by (simp add: byte_of_def)
  have "at (jp_advance p 1) (s @ [34]) (body @ 34 # r)" using at_advance [OF p] by simp
  then obtain q where q: "jp_string_loop L (jp_cursor p) False (jp_advance p 1)
      = jp_string_loop L (jp_cursor p) (92 \<in> set body) q" "at q (s @ 34 # body) (34 # r)"
    using string_loop_body [of "jp_advance p 1" "s @ [34]" body r L "jp_cursor p" False] w(3) by auto
  have q': "at (jp_advance q 1) (s @ jl_write_string L v) r" using at_advance [OF q(2)] by (simp add: w(1))
  have get: "jp_get q = Some 34" using at_get [OF q(2)] by (simp add: byte_of_def)
  have cursors: "jp_cursor p = str_len s" "jp_cursor q = str_len (s @ 34 # body)"
    "jp_input q = str_bytes (s @ 34 # body @ 34 # r)" "valid_str r"
    using p q(2) by (simp_all add: at_def)
  have "str_slice (jp_input q) (jp_cursor p + 1) (jp_cursor q) = Some body"
    using slice_str [of body "34 # r" "s @ [34]"] w(2) cursors by (simp add: len_utf8_def is_scalar_def)
  moreover have "str_slice (jp_input q) (jp_cursor p) (jp_cursor q + 1) = Some (34 # body @ [34])"
    using slice_str [of "34 # body @ [34]" r s] w(2) cursors by (simp add: len_utf8_def is_scalar_def)
  ultimately have "jp_string_loop L (jp_cursor p) (92 \<in> set body) q = Inr (v, jp_advance q 1)"
    using w(4,5) by (subst jp_string_loop.simps) (auto simp: get Let_def)
  then show ?thesis using q(1) q' open' by (simp add: jp_string_def)
qed

section \<open>Values\<close>

text \<open>A number token: what the reader takes up to the next delimiter, and the library accepts.\<close>

definition number_token :: "json_library \<Rightarrow> str \<Rightarrow> bool" where
  "number_token L token \<longleftrightarrow> jl_number_error L token = None
     \<and> (case token of [] \<Rightarrow> False | c # _ \<Rightarrow> c = 45 \<or> (48 \<le> c \<and> c \<le> 57))
     \<and> (\<forall>c \<in> set token. c < 128 \<and> c \<notin> {32, 9, 13, 10, 44, 93, 125})"

lemma ascii_valid: "\<forall>c \<in> set s. c < 128 \<Longrightarrow> valid_str s"
  by (auto simp: valid_str_def list_all_iff is_scalar_def)

definition ends :: "str \<Rightarrow> bool" where
  "ends r \<longleftrightarrow> (case r of [] \<Rightarrow> True | c # _ \<Rightarrow> c \<in> {32, 9, 13, 10, 44, 93, 125})"

lemma number_text:
  assumes "number_token L token" and "at p s (token @ r)" and "ends r"
  shows "\<exists>q. jp_number L p = Inr (token, q) \<and> at q (s @ token) r"
proof -
  let ?q = "jp_skip_while (\<lambda>b. \<not> ends_number b) p"
  have "\<forall>c \<in> set token. c < 128 \<and> c \<notin> {32, 9, 13, 10, 44, 93, 125}"
    using assms(1) by (simp add: number_token_def)
  then have "skips (\<lambda>b. \<not> ends_number b) token" by (simp add: skips_def ends_number_iff)
  moreover have "stops (\<lambda>b. \<not> ends_number b) r"
  proof (cases r)
    case (Cons c t)
    then have c: "c \<in> {32, 9, 13, 10, 44, 93, 125}" using assms(3) by (simp add: ends_def)
    then have "c < 128" by auto
    then show ?thesis using c by (simp add: Cons stops_def ends_number_iff)
  qed (simp add: stops_def)
  ultimately have q: "at ?q (s @ token) r"
    by (rule skip_while_text [OF assms(2)])
  have "str_slice (jp_input p) (jp_cursor p) (jp_cursor ?q) = Some token"
  proof -
    have "valid_str token" using assms(1) by (intro ascii_valid) (simp add: number_token_def)
    moreover have "jp_input p = str_bytes (s @ token @ r)" "jp_cursor p = str_len s" "valid_str r"
      using assms(2) by (simp_all add: at_def)
    moreover have "jp_cursor ?q = str_len (s @ token)" using q unfolding at_def by blast
    ultimately show ?thesis using slice_str [of token r s] by simp
  qed
  then show ?thesis
    using assms(1) q by (simp add: jp_number_def number_token_def)
qed

lemma literal_text:
  "at p s (token @ r) \<Longrightarrow> jp_literal token node p = Inr (VNode node, jp_advance p (str_len token))"
  using at_boundary [of p s "token @ r"]
  by (simp add: jp_literal_def at_def length_str_bytes [symmetric] del: length_str_bytes)

section \<open>The loop\<close>

abbreviation state_of :: "json_parser \<Rightarrow> json_frame list \<Rightarrow> json_node option \<Rightarrow> json_action \<Rightarrow> parse_state" where
  "state_of p stack root act \<equiv> \<lparr>ps_parser = p, ps_stack = stack, ps_root = root, ps_action = act\<rparr>"

text \<open>What the loop does when a value is complete.\<close>

definition hand_over :: "json_library \<Rightarrow> json_node \<Rightarrow> json_parser \<Rightarrow> json_frame list \<Rightarrow> json_node option \<Rightarrow> json_fault + json_node" where
  "hand_over L n p stack root = and_then (attach n (state_of p stack root AValue)) (parse_loop L)"

lemma attach_action: "attach n (state_of p stack root act) = attach n (state_of p stack root AValue)"
  by (simp add: attach_def split: list.split json_frame.split option.split)

lemma hand_over_array:
  "hand_over L n p (FArray elems # stack) root
     = parse_loop L (state_of p (FArray (elems @ [n]) # stack) root AArrayDelimiter)"
  by (simp add: hand_over_def attach_def)

lemma hand_over_object:
  "hand_over L n p (FObject members (Some key) # stack) root
     = parse_loop L (state_of p (FObject (members @ [(key, n)]) None # stack) root AObjectDelimiter)"
  by (simp add: hand_over_def attach_def)

lemma loop_blank:
  assumes "at p s (w @ r)" and "blank w" and "solid r"
  shows "\<exists>q. parse_loop L (state_of p stack root act) = parse_loop L (state_of q stack root act) \<and> at q (s @ w) r"
proof -
  have q: "at (jp_whitespace p) (s @ w) r" using whitespace_text [OF assms] .
  have "jp_whitespace (jp_whitespace p) = jp_whitespace p" by (rule whitespace_solid [OF q assms(3)])
  then have "parse_loop L (state_of p stack root act) = parse_loop L (state_of (jp_whitespace p) stack root act)"
    by (simp add: parse_loop.simps [of L "state_of _ stack root act"])
  then show ?thesis using q by blast
qed

lemma loop_action:
  assumes "at p s r" and "solid r" and "act \<noteq> AFinished"
  shows "parse_loop L (state_of p stack root act)
    = and_then (parse_action L (state_of p stack root act)) (parse_loop L)"
  using assms whitespace_solid [OF assms(1,2)] by (simp add: parse_loop.simps [of L "state_of _ stack root act"])

text \<open>The punctuation.\<close>

lemma solid_char: "c < 128 \<Longrightarrow> c \<notin> {32, 9, 13, 10} \<Longrightarrow> solid (c # r)"
  by (simp add: solid_def)

lemma close_array_text:
  assumes "at p s (93 # r)" and "act = AArrayValueOrEnd \<or> act = AArrayDelimiter"
  shows "parse_loop L (state_of p (FArray elems # stack) root act) = hand_over L (JArray elems) (jp_advance p 1) stack root
    \<and> at (jp_advance p 1) (s @ [93]) r"
proof -
  have get: "jp_get p = Some 93" using at_get [OF assms(1)] by (simp add: byte_of_def)
  have "parse_action L (state_of p (FArray elems # stack) root act) = attach (JArray elems) (state_of (jp_advance p 1) stack root act)"
    using assms(2) by (auto simp: parse_action_def close_array_def get)
  then show ?thesis
    using loop_action [OF assms(1), of act L "FArray elems # stack" root] at_advance [OF assms(1)] assms(2)
    by (auto simp: solid_char hand_over_def attach_action [of _ _ _ _ act])
qed

lemma close_object_text:
  assumes "at p s (125 # r)" and "act = AObjectKeyOrEnd \<or> act = AObjectDelimiter"
  shows "parse_loop L (state_of p (FObject members key # stack) root act)
      = hand_over L (JObject members) (jp_advance p 1) stack root
    \<and> at (jp_advance p 1) (s @ [125]) r"
proof -
  have get: "jp_get p = Some 125" using at_get [OF assms(1)] by (simp add: byte_of_def)
  have "parse_action L (state_of p (FObject members key # stack) root act) = attach (JObject members) (state_of (jp_advance p 1) stack root act)"
    using assms(2) by (auto simp: parse_action_def close_object_def get)
  then show ?thesis
    using loop_action [OF assms(1), of act L "FObject members key # stack" root] at_advance [OF assms(1)] assms(2)
    by (auto simp: solid_char hand_over_def attach_action [of _ _ _ _ act])
qed

lemma comma_text:
  assumes "at p s (44 # r)" and "(act, act') \<in> {(AArrayDelimiter, AValue), (AObjectDelimiter, AObjectKey)}"
  shows "parse_loop L (state_of p stack root act) = parse_loop L (state_of (jp_advance p 1) stack root act')
    \<and> at (jp_advance p 1) (s @ [44]) r"
proof -
  have "jp_get p = Some 44" using at_get [OF assms(1)] by (simp add: byte_of_def)
  then have "parse_action L (state_of p stack root act) = Inr (state_of (jp_advance p 1) stack root act')"
    using assms(2) by (auto simp: parse_action_def)
  moreover have "act \<noteq> AFinished" using assms(2) by auto
  ultimately show ?thesis
    using loop_action [OF assms(1), of act L stack root] at_advance [OF assms(1)] by (simp add: solid_char)
qed

lemma open_text:
  assumes "at p s (c # r)" and "(c, frame, act) \<in> {(91, FArray [], AArrayValueOrEnd), (123, FObject [] None, AObjectKeyOrEnd)}"
  shows "parse_loop L (state_of p stack root AValue) = parse_loop L (state_of (jp_advance p 1) (frame # stack) root act)
    \<and> at (jp_advance p 1) (s @ [c]) r"
proof -
  have c: "c < 128" "solid (c # r)" using assms(2) by (auto simp: solid_def)
  have "jp_get p = Some (byte_of c)" using at_get [OF assms(1) c(1)] .
  then have "parse_action L (state_of p stack root AValue) = Inr (state_of (jp_advance p 1) (frame # stack) root act)"
    using assms(2) by (auto simp: parse_action_def read_value_def jp_value_def byte_of_def)
  then show ?thesis
    using loop_action [OF assms(1) c(2), of AValue L stack root] at_advance [OF assms(1) c(1)] by simp
qed

text \<open>A value where the array may also end.\<close>

lemma first_element_text:
  assumes "at p s (c # r)" and "c < 128" "c \<notin> {32, 9, 13, 10, 93}"
  shows "parse_loop L (state_of p stack root AArrayValueOrEnd) = parse_loop L (state_of p stack root AValue)"
proof -
  have "solid (c # r)" using assms(2,3) by (intro solid_char) auto
  moreover have "jp_get p = Some (byte_of c)" "byte_of c \<noteq> 93"
    using at_get [OF assms(1,2)] assms(2,3) by (auto simp: byte_of_numeral_iff)
  then have "parse_action L (state_of p stack root AArrayValueOrEnd) = Inr (state_of p stack root AValue)"
    by (simp add: parse_action_def)
  ultimately show ?thesis
    using loop_action [OF assms(1), of AArrayValueOrEnd L stack root] by simp
qed

text \<open>A key, its colon and the white space after it.\<close>

lemma key_text:
  assumes "json_laws L" and "valid_str key" and "at p s (jl_write_string L key @ 58 # r)"
    and "act = AObjectKey \<or> act = AObjectKeyOrEnd" and "\<forall>m \<in> set members. fst m \<noteq> key"
  shows "\<exists>q. parse_loop L (state_of p (FObject members pending # stack) root act)
      = parse_loop L (state_of q (FObject members (Some key) # stack) root AValue)
    \<and> at q (s @ jl_write_string L key @ [58]) r"
proof -
  obtain q where q: "jp_string L p = Inr (key, q)" "at q (s @ jl_write_string L key) (58 # r)"
    using string_text [OF assms(1,2,3)] by blast
  obtain t where t: "jl_write_string L key @ 58 # r = 34 # t"
    using law_string [OF assms(1,2)] by (metis append_Cons)
  have loop: "parse_loop L (state_of p (FObject members pending # stack) root act)
      = and_then (parse_action L (state_of p (FObject members pending # stack) root act)) (parse_loop L)"
    using assms(3,4) by (intro loop_action [of p s "34 # t"]) (auto simp: t solid_char)
  have get: "jp_get p = Some 34" using at_get [of p s 34 t] assms(3) by (simp add: t byte_of_def)
  have "jp_whitespace q = q" by (rule whitespace_solid [OF q(2)]) (simp add: solid_char)
  moreover have "jp_expect 58 (lit ''expected `:` after object key'') q = Inr (jp_advance q 1)"
    using expect_text [OF q(2)] by (simp add: byte_of_def)
  ultimately have "parse_action L (state_of p (FObject members pending # stack) root act)
      = Inr (state_of (jp_advance q 1) (FObject members (Some key) # stack) root AValue)"
    using assms(4,5) q(1) get by (auto simp: parse_action_def read_key_def)
  then show ?thesis
    using loop at_advance [OF q(2)] by auto
qed

section \<open>Reading a node\<close>

text \<open>The trees that have a text: numbers are tokens, strings are text and keys are distinct.\<close>

fun json_head_ok :: "json_library \<Rightarrow> json_node \<Rightarrow> bool" where
  "json_head_ok L (JNumber token) \<longleftrightarrow> number_token L token"
| "json_head_ok L (JString v) \<longleftrightarrow> valid_str v"
| "json_head_ok L (JObject members) \<longleftrightarrow> distinct (map fst members) \<and> (\<forall>m \<in> set members. valid_str (fst m))"
| "json_head_ok L _ \<longleftrightarrow> True"

function json_ok :: "json_library \<Rightarrow> json_node \<Rightarrow> bool" where
  "json_ok L n \<longleftrightarrow> json_head_ok L n \<and> (\<forall>c \<in> set (json_children n). json_ok L c)"
  by pat_completeness auto
termination
  by (relation "measure (\<lambda>(_, n). size n)") (auto dest: json_children_size)

declare json_ok.simps [simp del]

lemma json_ok_iff [simp]:
  "json_ok L JNull" "json_ok L (JBool b)" "json_ok L (JNumber token) \<longleftrightarrow> number_token L token"
  "json_ok L (JString v) \<longleftrightarrow> valid_str v" "json_ok L (JArray elems) \<longleftrightarrow> (\<forall>c \<in> set elems. json_ok L c)"
  "json_ok L (JObject ms) \<longleftrightarrow> distinct (map fst ms) \<and> (\<forall>m \<in> set ms. valid_str (fst m) \<and> json_ok L (snd m))"
  by (subst json_ok.simps; auto)+

lemma json_ok_head: "json_ok L n \<Longrightarrow> json_head_ok L n"
  by (simp add: json_ok.simps [of L n])

lemma json_ok_child: "json_ok L n \<Longrightarrow> c \<in> set (json_children n) \<Longrightarrow> json_ok L c"
  by (simp add: json_ok.simps [of L n])

lemma write_first: "json_laws L \<Longrightarrow> valid_str v \<Longrightarrow> \<exists>t. jl_write_string L v = 34 # t"
  using law_string [of L v] by blast

lemma at_literal: "at p s (token @ r) \<Longrightarrow> at (jp_advance p (str_len token)) (s @ token) r"
  by (simp add: at_def)

lemma text_first:
  assumes "json_laws L" and "json_ok L n"
  shows "\<exists>c t. json_text L nl colon d n = c # t \<and> c < 128 \<and> c \<notin> {32, 9, 13, 10, 93}"
proof (cases n)
  case (JNumber token)
  then show ?thesis using json_ok_head [OF assms(2)] by (auto simp: number_token_def split: list.splits)
next
  case (JString v)
  then show ?thesis using json_ok_head [OF assms(2)] write_first [OF assms(1), of v] by auto
qed auto

lemma value_text:
  assumes "json_laws L" and "json_head_ok L n" and "json_children n = []" "\<forall>elems. n \<noteq> JArray elems" "\<forall>ms. n \<noteq> JObject ms"
    and "at p s (json_text L nl colon d n @ r)" and "ends r"
  shows "\<exists>q. jp_value L p = Inr (VNode n, q) \<and> at q (s @ json_text L nl colon d n) r"
proof (cases n)
  case JNull
  then show ?thesis
    using assms(6) at_get [of p s 110 "lit ''ull'' @ r"] literal_text [of p s "lit ''null''" r JNull]
      at_literal [of p s "lit ''null''" r]
    by (simp add: jp_value_def byte_of_def)
next
  case (JBool b)
  then show ?thesis
    using assms(6) at_get [of p s 116 "lit ''rue'' @ r"] at_get [of p s 102 "lit ''alse'' @ r"]
      literal_text [of p s "lit ''true''" r "JBool True"] at_literal [of p s "lit ''true''" r]
      literal_text [of p s "lit ''false''" r "JBool False"] at_literal [of p s "lit ''false''" r]
    by (cases b) (simp_all add: jp_value_def byte_of_def)
next
  case (JNumber token)
  have tok: "number_token L token" using assms(2) by (simp add: JNumber)
  then obtain c t where c: "token = c # t" "c = 45 \<or> (48 \<le> c \<and> c \<le> 57)" by (auto simp: number_token_def split: list.splits)
  obtain q where "jp_number L p = Inr (token, q)" "at q (s @ token) r"
    using number_text [OF tok _ assms(7)] assms(6) by (auto simp: JNumber)
  moreover have "jp_get p = Some (byte_of c)" using at_get [of p s c "t @ r"] assms(6) c by (auto simp: JNumber)
  moreover have "byte_of c \<noteq> 123" "byte_of c \<noteq> 91" "byte_of c \<noteq> 34" "byte_of c \<noteq> 116" "byte_of c \<noteq> 102"
    "byte_of c \<noteq> 110" "byte_of c = 45 \<or> (48 \<le> unat (byte_of c) \<and> unat (byte_of c) \<le> 57)"
    using c(2) by (auto simp: byte_of_numeral_iff)
  ultimately show ?thesis by (simp add: jp_value_def JNumber)
next
  case (JString v)
  obtain t where t: "jl_write_string L v @ r = 34 # t" using write_first [OF assms(1), of v] assms(2) by (auto simp: JString)
  obtain q where "jp_string L p = Inr (v, q)" "at q (s @ jl_write_string L v) r"
    using string_text [OF assms(1), of v p s r] assms(2,6) by (auto simp: JString)
  then show ?thesis
    using at_get [of p s 34 t] assms(6) t by (simp add: jp_value_def JString byte_of_def)
qed (use assms in auto)

text \<open>A layout with white space between the tokens.\<close>

locale blank_layout =
  fixes nl :: "nat \<Rightarrow> str" and colon sp :: str
  assumes blank_nl: "blank (nl d)" and colon: "colon = 58 # sp" and blank_sp: "blank sp"
begin

text \<open>\<open>reads n\<close>: the loop reads the text of \<open>n\<close> in front of any rest and hands \<open>n\<close> over.\<close>

definition reads :: "json_library \<Rightarrow> nat \<Rightarrow> json_node \<Rightarrow> bool" where
  "reads L d n \<longleftrightarrow> (\<forall>p s r stack root. at p s (json_text L nl colon d n @ r) \<longrightarrow> ends r \<longrightarrow>
     (\<exists>q. parse_loop L (state_of p stack root AValue) = hand_over L n q stack root
        \<and> at q (s @ json_text L nl colon d n) r))"

lemma readsD:
  assumes "reads L d n" and "at p s (json_text L nl colon d n @ r)" and "ends r"
  obtains q where "parse_loop L (state_of p stack root AValue) = hand_over L n q stack root"
    "at q (s @ json_text L nl colon d n) r"
  using assms unfolding reads_def by blast

text \<open>The same after white space.\<close>

lemma readsD_blank:
  assumes "reads L d n" and "json_laws L" "json_ok L n" and "at p s (w @ json_text L nl colon d n @ r)"
    and "blank w" and "ends r"
  obtains q where "parse_loop L (state_of p stack root AValue) = hand_over L n q stack root"
    "at q (s @ w @ json_text L nl colon d n) r"
proof -
  have "solid (json_text L nl colon d n @ r)"
    using text_first [OF assms(2,3), of nl colon d] by (auto simp: solid_def)
  from loop_blank [OF assms(4,5) this, of L stack root AValue]
  obtain p' where p': "parse_loop L (state_of p stack root AValue) = parse_loop L (state_of p' stack root AValue)"
    "at p' (s @ w) (json_text L nl colon d n @ r)" by blast
  from readsD [OF assms(1) p'(2) assms(6), of stack root] p'(1) show ?thesis using that by auto
qed

lemma ends_close: "blank w \<Longrightarrow> c = 93 \<or> c = 125 \<Longrightarrow> ends (w @ c # r)"
  by (cases w) (auto simp: ends_def blank_def)

lemma value_reads:
  assumes "json_laws L" and "json_head_ok L n" and "json_children n = []" "\<forall>elems. n \<noteq> JArray elems" "\<forall>ms. n \<noteq> JObject ms"
    and "json_ok L n"
  shows "reads L d n"
  unfolding reads_def
proof (intro allI impI)
  fix p s r stack root
  assume p: "at p s (json_text L nl colon d n @ r)" and e: "ends r"
  obtain q where q: "jp_value L p = Inr (VNode n, q)" "at q (s @ json_text L nl colon d n) r"
    using value_text [OF assms(1-5) p e] by blast
  have "solid (json_text L nl colon d n @ r)"
    using text_first [OF assms(1,6), of nl colon d] by (auto simp: solid_def)
  from loop_action [OF p this, of AValue L stack root]
  show "\<exists>q. parse_loop L (state_of p stack root AValue) = hand_over L n q stack root
      \<and> at q (s @ json_text L nl colon d n) r"
    using q by (auto simp: parse_action_def read_value_def hand_over_def)
qed

text \<open>The elements after the first, and the end of the array.\<close>

lemma elements_text:
  assumes "json_laws L" and "\<And>n. n \<in> set ns \<Longrightarrow> json_ok L n \<and> reads L (Suc d) n"
    and "at p s (concat (map (\<lambda>t. 44 # nl (Suc d) @ t) (map (json_text L nl colon (Suc d)) ns)) @ nl d @ 93 # r)"
  shows "\<exists>q. parse_loop L (state_of p (FArray elems # stack) root AArrayDelimiter)
      = hand_over L (JArray (elems @ ns)) q stack root
    \<and> at q (s @ concat (map (\<lambda>t. 44 # nl (Suc d) @ t) (map (json_text L nl colon (Suc d)) ns)) @ nl d @ [93]) r"
  using assms(2,3)
proof (induction ns arbitrary: p s elems)
  case Nil
  then have "at p s (nl d @ 93 # r)" by simp
  from loop_blank [OF this blank_nl, of L "FArray elems # stack" root AArrayDelimiter]
  obtain q where q: "parse_loop L (state_of p (FArray elems # stack) root AArrayDelimiter)
      = parse_loop L (state_of q (FArray elems # stack) root AArrayDelimiter)" "at q (s @ nl d) (93 # r)"
    by (auto simp: solid_char)
  then show ?case
    using close_array_text [OF q(2), of AArrayDelimiter L elems stack root]
    by (intro exI [of _ "jp_advance q 1"]) simp
next
  case (Cons n ns)
  let ?rest = "concat (map (\<lambda>t. 44 # nl (Suc d) @ t) (map (json_text L nl colon (Suc d)) ns)) @ nl d @ 93 # r"
  have p: "at p s (44 # nl (Suc d) @ json_text L nl colon (Suc d) n @ ?rest)" using Cons.prems(2) by simp
  have ends: "ends ?rest" using ends_close [OF blank_nl, of 93 d r] by (cases ns) (auto simp: ends_def)
  note comma = comma_text [OF p, of AArrayDelimiter AValue L "FArray elems # stack" root]
  have at1: "at (jp_advance p 1) (s @ [44]) (nl (Suc d) @ json_text L nl colon (Suc d) n @ ?rest)" using comma by simp
  have ok: "json_ok L n" "reads L (Suc d) n" using Cons.prems(1) [of n] by auto
  obtain q where q: "parse_loop L (state_of (jp_advance p 1) (FArray elems # stack) root AValue)
      = hand_over L n q (FArray elems # stack) root"
    "at q ((s @ [44]) @ nl (Suc d) @ json_text L nl colon (Suc d) n) ?rest"
    by (rule readsD_blank [OF ok(2) assms(1) ok(1) at1 blank_nl ends])
  from Cons.IH [OF Cons.prems(1) q(2), of "elems @ [n]"] show ?case
    using q(1) comma by (auto simp: hand_over_array)
qed

text \<open>A key and its value, from the state where a key is due.\<close>

lemma member_text:
  assumes "json_laws L" and "valid_str key" and "json_ok L n" "reads L d n" and "\<forall>m \<in> set members. fst m \<noteq> key"
    and "act = AObjectKey \<or> act = AObjectKeyOrEnd"
    and "at p s (w @ jl_write_string L key @ colon @ json_text L nl colon d n @ r)" and "blank w" and "ends r"
  shows "\<exists>q. parse_loop L (state_of p (FObject members pending # stack) root act)
      = parse_loop L (state_of q (FObject (members @ [(key, n)]) None # stack) root AObjectDelimiter)
    \<and> at q (s @ w @ jl_write_string L key @ colon @ json_text L nl colon d n) r"
proof -
  let ?rest = "sp @ json_text L nl colon d n @ r"
  have "solid (jl_write_string L key @ 58 # ?rest)"
    using law_string [OF assms(1,2)] by (metis append_Cons solid_char [of 34] rel_simps insertE emptyE numeral_eq_iff)
  from loop_blank [OF _ assms(8) this, of p s L "FObject members pending # stack" root act]
  obtain p1 where p1: "parse_loop L (state_of p (FObject members pending # stack) root act)
      = parse_loop L (state_of p1 (FObject members pending # stack) root act)"
    "at p1 (s @ w) (jl_write_string L key @ 58 # ?rest)"
    using assms(7) by (auto simp: colon)
  from key_text [OF assms(1,2) p1(2) assms(6,5), of pending stack root]
  obtain p2 where p2: "parse_loop L (state_of p1 (FObject members pending # stack) root act)
      = parse_loop L (state_of p2 (FObject members (Some key) # stack) root AValue)"
    "at p2 ((s @ w) @ jl_write_string L key @ [58]) ?rest" by blast
  from readsD_blank [OF assms(4,1,3) p2(2) blank_sp assms(9), of "FObject members (Some key) # stack" root]
  obtain q where "parse_loop L (state_of p2 (FObject members (Some key) # stack) root AValue)
      = hand_over L n q (FObject members (Some key) # stack) root"
    "at q (((s @ w) @ jl_write_string L key @ [58]) @ sp @ json_text L nl colon d n) r" by blast
  then show ?thesis using p1(1) p2(1) by (auto simp: hand_over_object colon)
qed

abbreviation member :: "json_library \<Rightarrow> nat \<Rightarrow> str \<times> json_node \<Rightarrow> str" where
  "member L d m \<equiv> jl_write_string L (fst m) @ colon @ json_text L nl colon d (snd m)"

lemma members_text:
  assumes "json_laws L" and "\<And>m. m \<in> set ms \<Longrightarrow> valid_str (fst m) \<and> json_ok L (snd m) \<and> reads L (Suc d) (snd m)"
    and "distinct (map fst (members @ ms))"
    and "at p s (concat (map (\<lambda>t. 44 # nl (Suc d) @ t) (map (member L (Suc d)) ms)) @ nl d @ 125 # r)"
  shows "\<exists>q. parse_loop L (state_of p (FObject members None # stack) root AObjectDelimiter)
      = hand_over L (JObject (members @ ms)) q stack root
    \<and> at q (s @ concat (map (\<lambda>t. 44 # nl (Suc d) @ t) (map (member L (Suc d)) ms)) @ nl d @ [125]) r"
  using assms(2-4)
proof (induction ms arbitrary: p s members)
  case Nil
  then have "at p s (nl d @ 125 # r)" by simp
  from loop_blank [OF this blank_nl, of L "FObject members None # stack" root AObjectDelimiter]
  obtain q where q: "parse_loop L (state_of p (FObject members None # stack) root AObjectDelimiter)
      = parse_loop L (state_of q (FObject members None # stack) root AObjectDelimiter)" "at q (s @ nl d) (125 # r)"
    by (auto simp: solid_char)
  then show ?case
    using close_object_text [OF q(2), of AObjectDelimiter L members None stack root]
    by (intro exI [of _ "jp_advance q 1"]) simp
next
  case (Cons m ms)
  let ?rest = "concat (map (\<lambda>t. 44 # nl (Suc d) @ t) (map (member L (Suc d)) ms)) @ nl d @ 125 # r"
  have p: "at p s (44 # nl (Suc d) @ member L (Suc d) m @ ?rest)" using Cons.prems(3) by simp
  have ends: "ends ?rest" using ends_close [OF blank_nl, of 125 d r] by (cases ms) (auto simp: ends_def)
  note comma = comma_text [OF p, of AObjectDelimiter AObjectKey L "FObject members None # stack" root]
  have at1: "at (jp_advance p 1) (s @ [44]) (nl (Suc d) @ jl_write_string L (fst m) @ colon @ json_text L nl colon (Suc d) (snd m) @ ?rest)"
    using comma by simp
  have "fst m \<notin> fst ` set members" using Cons.prems(2) by simp
  then have new: "\<forall>m' \<in> set members. fst m' \<noteq> fst m" by (metis image_eqI)
  have ok: "valid_str (fst m)" "json_ok L (snd m)" "reads L (Suc d) (snd m)"
    using Cons.prems(1) [of m] by auto
  obtain q where q: "parse_loop L (state_of (jp_advance p 1) (FObject members None # stack) root AObjectKey)
      = parse_loop L (state_of q (FObject (members @ [(fst m, snd m)]) None # stack) root AObjectDelimiter)"
    "at q ((s @ [44]) @ nl (Suc d) @ member L (Suc d) m) ?rest"
    using member_text [OF assms(1) ok new disjI1 [OF refl] at1 blank_nl ends, of None stack root] by auto
  have dist: "distinct (map fst ((members @ [m]) @ ms))" using Cons.prems(2) by auto
  from q have q': "parse_loop L (state_of p (FObject members None # stack) root AObjectDelimiter)
      = parse_loop L (state_of q (FObject (members @ [m]) None # stack) root AObjectDelimiter)"
    using comma by simp
  from Cons.IH [OF Cons.prems(1) dist q(2)] show ?case by (auto simp: q')
qed

lemma array_reads:
  assumes "json_laws L" and "\<And>c. c \<in> set elems \<Longrightarrow> json_ok L c \<and> reads L (Suc d) c"
  shows "reads L d (JArray elems)"
  unfolding reads_def
proof (intro allI impI)
  fix p s r stack root
  assume p: "at p s (json_text L nl colon d (JArray elems) @ r)"
  show "\<exists>q. parse_loop L (state_of p stack root AValue) = hand_over L (JArray elems) q stack root
      \<and> at q (s @ json_text L nl colon d (JArray elems)) r"
  proof (cases elems)
    case Nil
    then have p': "at p s (91 # 93 # r)" using p by simp
    note o = open_text [OF p', of "FArray []" AArrayValueOrEnd L stack root]
    then have "at (jp_advance p 1) (s @ [91]) (93 # r)" by simp
    from close_array_text [OF this, of AArrayValueOrEnd L "[]" stack root] show ?thesis
      using o Nil by (intro exI [of _ "jp_advance (jp_advance p 1) 1"]) simp
  next
    case (Cons c cs)
    let ?rest = "concat (map (\<lambda>t. 44 # nl (Suc d) @ t) (map (json_text L nl colon (Suc d)) cs)) @ nl d @ 93 # r"
    have p': "at p s (91 # nl (Suc d) @ json_text L nl colon (Suc d) c @ ?rest)" using p Cons by simp
    note o = open_text [OF p', of "FArray []" AArrayValueOrEnd L stack root]
    have c: "json_ok L c" "reads L (Suc d) c" using assms(2) [of c] Cons by auto
    obtain x t where x: "json_text L nl colon (Suc d) c = x # t" "x < 128" "x \<notin> {32, 9, 13, 10, 93}"
      using text_first [OF assms(1) c(1)] by blast
    have at1: "at (jp_advance p 1) (s @ [91]) (nl (Suc d) @ x # t @ ?rest)" using o x(1) by simp
    from loop_blank [OF at1 blank_nl, of L "FArray [] # stack" root AArrayValueOrEnd] x
    obtain p2 where p2: "parse_loop L (state_of (jp_advance p 1) (FArray [] # stack) root AArrayValueOrEnd)
        = parse_loop L (state_of p2 (FArray [] # stack) root AArrayValueOrEnd)"
      "at p2 ((s @ [91]) @ nl (Suc d)) (x # t @ ?rest)" by (auto simp: solid_char)
    have ends: "ends ?rest" using ends_close [OF blank_nl, of 93 d r] by (cases cs) (auto simp: ends_def)
    have "at p2 ((s @ [91]) @ nl (Suc d)) (json_text L nl colon (Suc d) c @ ?rest)" using p2(2) x(1) by simp
    from readsD [OF c(2) this ends, of "FArray [] # stack" root]
    obtain q where q: "parse_loop L (state_of p2 (FArray [] # stack) root AValue) = hand_over L c q (FArray [] # stack) root"
      "at q (((s @ [91]) @ nl (Suc d)) @ json_text L nl colon (Suc d) c) ?rest" by blast
    from elements_text [OF assms(1) _ q(2), of "[c]" stack root] assms(2) Cons
    show ?thesis
      using o p2(1) q(1) first_element_text [OF p2(2) x(2,3), of L "FArray [] # stack" root]
      by (simp add: hand_over_array)
  qed
qed

lemma object_reads:
  assumes "json_laws L" and "\<And>m. m \<in> set ms \<Longrightarrow> valid_str (fst m) \<and> json_ok L (snd m) \<and> reads L (Suc d) (snd m)"
    and "distinct (map fst ms)"
  shows "reads L d (JObject ms)"
  unfolding reads_def
proof (intro allI impI)
  fix p s r stack root
  assume p: "at p s (json_text L nl colon d (JObject ms) @ r)"
  show "\<exists>q. parse_loop L (state_of p stack root AValue) = hand_over L (JObject ms) q stack root
      \<and> at q (s @ json_text L nl colon d (JObject ms)) r"
  proof (cases ms)
    case Nil
    then have p': "at p s (123 # 125 # r)" using p by simp
    note o = open_text [OF p', of "FObject [] None" AObjectKeyOrEnd L stack root]
    then have "at (jp_advance p 1) (s @ [123]) (125 # r)" by simp
    from close_object_text [OF this, of AObjectKeyOrEnd L "[]" None stack root] show ?thesis
      using o Nil by (intro exI [of _ "jp_advance (jp_advance p 1) 1"]) simp
  next
    case (Cons m ms')
    let ?rest = "concat (map (\<lambda>t. 44 # nl (Suc d) @ t) (map (member L (Suc d)) ms')) @ nl d @ 125 # r"
    have p': "at p s (123 # nl (Suc d) @ member L (Suc d) m @ ?rest)" using p Cons by simp
    note o = open_text [OF p', of "FObject [] None" AObjectKeyOrEnd L stack root]
    have at1: "at (jp_advance p 1) (s @ [123]) (nl (Suc d) @ jl_write_string L (fst m) @ colon @ json_text L nl colon (Suc d) (snd m) @ ?rest)"
      using o by simp
    have ends: "ends ?rest" using ends_close [OF blank_nl, of 125 d r] by (cases ms') (auto simp: ends_def)
    have ok: "valid_str (fst m)" "json_ok L (snd m)" "reads L (Suc d) (snd m)" using assms(2) [of m] Cons by auto
    from member_text [OF assms(1) ok, of "[]" AObjectKeyOrEnd, OF _ _ at1 blank_nl ends, of None stack root]
    obtain q where q: "parse_loop L (state_of (jp_advance p 1) (FObject [] None # stack) root AObjectKeyOrEnd)
        = parse_loop L (state_of q (FObject [m] None # stack) root AObjectDelimiter)"
      "at q ((s @ [123]) @ nl (Suc d) @ member L (Suc d) m) ?rest" by auto
    from members_text [OF assms(1) _ _ q(2), of "[m]" stack root] assms(2,3) Cons
    show ?thesis using o q(1) by simp
  qed
qed

lemma node_reads:
  assumes "json_laws L" and "json_ok L n"
  shows "reads L d n"
  using assms(2)
proof (induction n arbitrary: d rule: json_induct)
  case (node n)
  have IH: "json_ok L c \<and> reads L (Suc d) c" if "c \<in> set (json_children n)" for c
    using node.IH [OF that] json_ok_child [OF node.prems that] by blast
  show ?case
  proof (cases n)
    case (JArray elems)
    then show ?thesis using array_reads [OF assms(1)] IH by simp
  next
    case (JObject ms)
    then show ?thesis using object_reads [OF assms(1), of ms d] IH json_ok_head [OF node.prems] by fastforce
  qed (use value_reads [OF assms(1) json_ok_head [OF node.prems] _ _ _ node.prems] in auto)
qed

text \<open>A whole text.\<close>

lemma parse_text:
  assumes "json_laws L" and "json_ok L n" and "valid_str (json_text L nl colon 0 n)"
  shows "json_parse L (json_text L nl colon 0 n) = Inr n"
proof -
  let ?p = "\<lparr>jp_input = str_bytes (json_text L nl colon 0 n), jp_cursor = 0\<rparr>"
  have "at ?p [] (json_text L nl colon 0 n @ [])" using assms(3) by (simp add: at_def)
  from readsD [OF node_reads [OF assms(1,2)] this, of "[]" None]
  obtain q where q: "parse_loop L (state_of ?p [] None AValue) = hand_over L n q [] None"
    "at q (json_text L nl colon 0 n) []" by (auto simp: ends_def)
  have "jp_whitespace q = q" by (rule whitespace_solid [OF q(2)]) (simp add: solid_def)
  moreover have "jp_cursor q = length (jp_input q)" using q(2) by (simp add: at_def length_str_bytes)
  ultimately have "hand_over L n q [] None = Inr n"
    by (simp add: hand_over_def attach_def parse_loop.simps [of L "state_of q [] (Some n) AFinished"] parse_finish_def)
  then show ?thesis using q(1) by (simp add: json_parse_def)
qed

end

section \<open>The text of a tree is text\<close>

lemma items_text_valid:
  "valid_str nl \<Longrightarrow> \<forall>t \<in> set ts. valid_str t \<Longrightarrow> valid_str (items_text nl ts)"
proof (cases ts)
  case (Cons t us)
  assume nl: "valid_str nl" and ts: "\<forall>t \<in> set ts. valid_str t"
  have "valid_str (concat (map (\<lambda>t. lit '','' @ nl @ t) us))" if "\<forall>t \<in> set us. valid_str t"
    using that nl by (induction us) (auto simp: is_scalar_def)
  then show ?thesis using nl ts by (simp add: Cons)
qed simp

lemma blank_valid: "blank w \<Longrightarrow> valid_str w"
  by (rule ascii_valid) (auto simp: blank_def)

lemma json_text_valid:
  assumes "json_laws L" and "\<And>d. blank (nl d)" and "valid_str colon"
  shows "json_ok L n \<Longrightarrow> valid_str (json_text L nl colon d n)"
proof (induction n arbitrary: d rule: json_induct)
  case (node n)
  have literal: "valid_str (jl_write_string L v)" if "valid_str v" for v
    by (rule law_string [OF assms(1) that]) (simp add: is_scalar_def)
  have IH: "valid_str (json_text L nl colon d c)" if "c \<in> set (json_children n)" for c d
    using node.IH [OF that] json_ok_child [OF node.prems that] by blast
  show ?case
  proof (cases n)
    case (JNumber token)
    then have "valid_str token"
      using json_ok_head [OF node.prems] by (intro ascii_valid) (simp add: number_token_def)
    then show ?thesis by (simp add: JNumber)
  next
    case (JArray elems)
    then have "valid_str (items_text (nl (Suc d)) (map (json_text L nl colon (Suc d)) elems))"
      using IH blank_valid [OF assms(2)] by (intro items_text_valid) auto
    then show ?thesis using blank_valid [OF assms(2)] by (simp add: JArray is_scalar_def)
  next
    case (JObject ms)
    then have "valid_str (items_text (nl (Suc d))
        (map (\<lambda>m. jl_write_string L (fst m) @ colon @ json_text L nl colon (Suc d) (snd m)) ms))"
      using IH blank_valid [OF assms(2)] json_ok_head [OF node.prems] literal assms(3) by (intro items_text_valid) auto
    then show ?thesis using blank_valid [OF assms(2)] by (simp add: JObject is_scalar_def)
  qed (use literal json_ok_head [OF node.prems] in \<open>auto simp: is_scalar_def\<close>)
qed

interpretation compact_blank: blank_layout "\<lambda>_. []" "lit '':''" "[]"
  by unfold_locales (auto simp: blank_def)

interpretation pretty_blank: blank_layout "\<lambda>d. newline (indentation d)" "lit '': ''" "[32]"
  by unfold_locales (auto simp: blank_def newline_def)

section \<open>A library\<close>

text \<open>A writer of string literals and its reader, as an instance of the laws.\<close>

definition sample_escape :: "uchar \<Rightarrow> str" where
  "sample_escape c =
     (if c = 34 \<or> c = 92 then [92, c] else if c < 32 then 92 # 117 # hex_pad 4 c else [c])"

fun sample_unescape :: "str \<Rightarrow> str" where
  "sample_unescape [] = []"
| "sample_unescape (c # s) =
     (if c \<noteq> 92 then c # sample_unescape s
      else (case s of
          [] \<Rightarrow> []
        | d # t \<Rightarrow>
            if d \<noteq> 117 then d # sample_unescape t
            else (case t of
                w # x # y # z # u \<Rightarrow>
                  (case hex_digits 0 [w, x, y, z] of None \<Rightarrow> [] | Some v \<Rightarrow> v # sample_unescape u)
              | _ \<Rightarrow> [])))"

definition sample_library :: json_library where
  "sample_library = \<lparr>
     jl_number_error = (\<lambda>token. if token \<noteq> [] \<and> list_all is_ascii_digit token then None else Some (lit ''invalid number'')),
     jl_read_string = (\<lambda>literal. let t = sample_unescape (butlast (tl literal))
       in if valid_str t then Inr t else Inl (lit ''invalid escape'')),
     jl_write_string = (\<lambda>s. 34 # concat (map sample_escape s) @ [34]),
     jl_null = lit ''null'', jl_bool = (\<lambda>b. if b then lit ''true'' else lit ''false''),
     jl_number = (\<lambda>token. token), jl_end_object_key = [],
     jl_compact = \<lparr>
       fm_null = (\<lambda>u. Some (lit ''null'', u)),
       fm_bool = (\<lambda>b u. Some (if b then lit ''true'' else lit ''false'', u)),
       fm_number = (\<lambda>token u. Some (token, u)),
       fm_begin_array = (\<lambda>u. Some (lit ''['', u)), fm_end_array = (\<lambda>u. Some (lit '']'', u)),
       fm_begin_array_value = (\<lambda>first u. Some (if first then [] else lit '','', u)),
       fm_end_array_value = (\<lambda>u. Some ([], u)),
       fm_begin_object = (\<lambda>u. Some (lit ''{'', u)), fm_end_object = (\<lambda>u. Some (lit ''}'', u)),
       fm_begin_object_key = (\<lambda>first u. Some (if first then [] else lit '','', u)),
       fm_end_object_key = (\<lambda>u. Some ([], u)), fm_begin_object_value = (\<lambda>u. Some (lit '':'', u)),
       fm_end_object_value = (\<lambda>u. Some ([], u))\<rparr>\<rparr>"

lemma set_hex_pad: "d \<in> set (hex_pad w n) \<Longrightarrow> 48 \<le> d \<and> d \<le> 102 \<and> d \<noteq> 92"
  by (induction w n rule: hex_pad.induct) (auto simp: hex_char_def split: if_splits)

lemma hex_pad_four:
  assumes "c < 32"
  obtains w x y z where "hex_pad 4 c = [w, x, y, z]" "hex_digits 0 [w, x, y, z] = Some c"
    "\<forall>d \<in> {w, x, y, z}. 48 \<le> d \<and> d \<le> 102 \<and> d \<noteq> 92"
proof -
  have "length (hex_pad 4 c) = Suc (Suc (Suc (Suc 0)))" by simp
  then obtain w x y z where h: "hex_pad 4 c = [w, x, y, z]" unfolding length_Suc_conv by blast
  have "hex_digits 0 (hex_pad 4 c) = Some c" using assms by (intro hex_digits_hex_pad) simp_all
  moreover have "\<forall>d \<in> set (hex_pad 4 c). 48 \<le> d \<and> d \<le> 102 \<and> d \<noteq> 92" using set_hex_pad by blast
  ultimately show ?thesis using that h by simp
qed

lemma sample_body:
  assumes "valid_str s"
  shows "valid_str (concat (map sample_escape s)) \<and> string_body (concat (map sample_escape s))
    \<and> sample_unescape (concat (map sample_escape s)) = s
    \<and> (92 \<notin> set (concat (map sample_escape s)) \<longrightarrow> concat (map sample_escape s) = s)"
  using assms
proof (induction s)
  case (Cons c s)
  define e where "e = concat (map sample_escape s)"
  have e: "valid_str e" "string_body e" "sample_unescape e = s" "92 \<notin> set e \<longrightarrow> e = s" "is_scalar c"
    using Cons by (simp_all add: e_def)
  have all: "concat (map sample_escape (c # s)) = sample_escape c @ e" by (simp add: e_def)
  consider "c = 34 \<or> c = 92" | "c < 32" | "32 \<le> c" "c \<noteq> 34" "c \<noteq> 92" by linarith
  then show ?case
  proof cases
    case 1
    then show ?thesis unfolding all using e by (auto simp: sample_escape_def is_scalar_def)
  next
    case 2
    obtain w x y z where h: "hex_pad 4 c = [w, x, y, z]" "hex_digits 0 [w, x, y, z] = Some c"
      "\<forall>d \<in> {w, x, y, z}. 48 \<le> d \<and> d \<le> 102 \<and> d \<noteq> 92" using hex_pad_four [OF 2] by blast
    have esc: "sample_escape c = [92, 117, w, x, y, z]" using 2 h(1) by (simp add: sample_escape_def)
    have "sample_unescape ([92, 117, w, x, y, z] @ e) = c # s"
      using h(2) e(3) by (simp del: hex_digits.simps)
    moreover have "string_body ([92, 117, w, x, y, z] @ e)" using h(3) e(2) by simp
    moreover have "valid_str ([92, 117, w, x, y, z] @ e)" using h(3) e(1) by (simp add: is_scalar_def)
    ultimately show ?thesis unfolding all esc by simp
  next
    case 3
    then show ?thesis unfolding all using e by (simp add: sample_escape_def)
  qed
qed simp

lemma sample_laws: "json_laws sample_library"
proof -
  have "(\<exists>body. jl_write_string sample_library s = 34 # body @ [34] \<and> valid_str body \<and> string_body body
         \<and> (92 \<notin> set body \<longrightarrow> body = s))
        \<and> jl_read_string sample_library (jl_write_string sample_library s) = Inr s" if "valid_str s" for s
    using sample_body [OF that] that by (simp add: sample_library_def)
  then show ?thesis
    unfolding json_laws_def by (simp add: writes_scalars_def) (simp add: sample_library_def)
qed

section \<open>The round trip\<close>

lemma json_parse_text:
  assumes "json_laws L" and "json_ok L n"
  shows "json_parse L (text_of_json L pretty n) = Inr n"
proof -
  have "valid_str (json_text L (\<lambda>_. []) (lit '':'') 0 n)"
    "valid_str (json_text L (\<lambda>d. newline (indentation d)) (lit '': '') 0 n)"
    using json_text_valid [OF assms(1) compact_blank.blank_nl _ assms(2)]
      json_text_valid [OF assms(1) pretty_blank.blank_nl _ assms(2)] by (simp_all add: is_scalar_def)
  then show ?thesis
    using compact_blank.parse_text [OF assms] pretty_blank.parse_text [OF assms] by (simp add: text_of_json_def)
qed

text \<open>C24: A JSON tree with number tokens, text and distinct keys is written, compact or pretty, as a text
  that the reader turns into the same tree, with its members in their order.\<close>

theorem json_tree_round_trip:
  assumes "json_laws L" and "json_ok L n"
  shows "\<exists>written. json_to_string L n pretty = Some written \<and> json_parse L written = Inr n"
  using json_parse_text [OF assms] json_to_string_text [OF assms(1)] by blast

definition sample_node :: json_node where
  "sample_node = JObject [(lit ''a'', JArray [JNull, JBool True, JNumber (lit ''12'')]), (lit ''b'', JString [34, 9, 955])]"

theorem json_tree_round_trip_witness:
  "\<exists>written. json_to_string sample_library sample_node True = Some written
     \<and> json_parse sample_library written = Inr sample_node"
proof (rule json_tree_round_trip [OF sample_laws])
  show "json_ok sample_library sample_node"
    by (simp add: sample_node_def number_token_def sample_library_def is_ascii_digit_def is_scalar_def)
qed

end
