(* ===== verification/Json_Safety.thy ===== *)
theory Json_Safety
  imports Json_Roundtrip
begin

text \<open>
  The JSON reader on any text: it returns a tree, or an error whose line and column are those of a
  position in the text. No slice cuts a character, and no state that the source calls unreachable is
  reached. The state of the loop satisfies \<open>loop_ok\<close>: the cursor is between two characters, and the
  innermost frame is the one the action is about.
\<close>

section \<open>Positions between characters\<close>

lemma cont_byte: "k < 64 \<Longrightarrow> is_cont (byte_of (128 + k))"
  by (simp add: is_cont_def)

lemma encode_inner: "0 < j \<Longrightarrow> j < len_utf8 c \<Longrightarrow> is_cont (encode_utf8 c ! j)"
  by (auto simp: encode_utf8_def len_utf8_def nth_Cons' cont_byte split: if_splits)

lemma boundary_split:
  assumes "valid_str x" and "char_boundary (str_bytes x) i" and "i \<le> str_len x"
  shows "\<exists>s r. x = s @ r \<and> str_len s = i"
  using assms
proof (induction x arbitrary: i)
  case (Cons c x)
  show ?case
  proof (cases "i = 0")
    case True
    then show ?thesis by (intro exI [of _ "[]"] exI [of _ "c # x"]) simp
  next
    case False
    have i: "len_utf8 c \<le> i"
    proof (rule ccontr)
      assume "\<not> len_utf8 c \<le> i"
      then have "i < len_utf8 c" by simp
      then have "is_cont (str_bytes (c # x) ! i)" "i < length (str_bytes (c # x))"
        using encode_inner [of i c] False by (simp_all add: nth_append length_encode_utf8 length_str_bytes)
      then show False using Cons.prems(2) False by (auto simp: char_boundary_def length_str_bytes)
    qed
    have "char_boundary (str_bytes x) (i - len_utf8 c)"
      using Cons.prems(2) i False by (auto simp: char_boundary_def nth_append length_encode_utf8 length_str_bytes)
    then obtain s r where "x = s @ r" "str_len s = i - len_utf8 c"
    proof -
      have "i - len_utf8 c \<le> str_len x" using Cons.prems(3) by simp
      then show ?thesis
        using Cons.IH [of "i - len_utf8 c"] Cons.prems(1) \<open>char_boundary (str_bytes x) (i - len_utf8 c)\<close> that by auto
    qed
    then show ?thesis using i by (intro exI [of _ "c # s"] exI [of _ r]) simp
  qed
qed simp

text \<open>An ASCII byte of a text is a character.\<close>

lemma ascii_byte:
  assumes "valid_str x" and "i < str_len x" and "unat (str_bytes x ! i) < 128"
  shows "\<exists>s c r. x = s @ c # r \<and> str_len s = i \<and> c < 128"
  using assms
proof (induction x arbitrary: i)
  case (Cons c x)
  show ?case
  proof (cases "i < len_utf8 c")
    case True
    have "c < 128"
    proof (rule ccontr)
      assume "\<not> c < 128"
      then have "\<forall>b \<in> set (encode_utf8 c). 128 \<le> unat b" using Cons.prems(1) by (intro encode_high) auto
      moreover have "encode_utf8 c ! i \<in> set (encode_utf8 c)" using True by (simp add: length_encode_utf8)
      ultimately have "128 \<le> unat (encode_utf8 c ! i)" by blast
      then show False using Cons.prems(3) True by (simp add: nth_append length_encode_utf8)
    qed
    then show ?thesis using True by (intro exI [of _ "[]"] exI [of _ c] exI [of _ x]) (simp add: len_utf8_def)
  next
    case False
    then obtain s d r where "x = s @ d # r" "str_len s = i - len_utf8 c" "d < 128"
    proof -
      have "i - len_utf8 c < str_len x" using False Cons.prems(2) by simp
      then show ?thesis
        using Cons.IH [of "i - len_utf8 c"] Cons.prems(1,3) False that by (auto simp: nth_append length_encode_utf8)
    qed
    then show ?thesis using False by (intro exI [of _ "c # s"] exI [of _ d] exI [of _ r]) simp
  qed
qed simp

definition in_text :: "str \<Rightarrow> json_parser \<Rightarrow> bool" where
  "in_text x p \<longleftrightarrow> jp_input p = str_bytes x \<and> jp_cursor p \<le> str_len x"

definition placed :: "str \<Rightarrow> json_parser \<Rightarrow> bool" where
  "placed x p \<longleftrightarrow> (\<exists>s r. x = s @ r \<and> jp_input p = str_bytes x \<and> jp_cursor p = str_len s)"

lemma placed_in_text: "placed x p \<Longrightarrow> in_text x p"
  by (auto simp: placed_def in_text_def)

lemma placed_iff: "valid_str x \<Longrightarrow> placed x p \<longleftrightarrow> in_text x p \<and> char_boundary (jp_input p) (jp_cursor p)"
proof
  assume x: "valid_str x" and "placed x p"
  then obtain s r where "x = s @ r" "jp_input p = str_bytes x" "jp_cursor p = str_len s" by (auto simp: placed_def)
  then show "in_text x p \<and> char_boundary (jp_input p) (jp_cursor p)"
    using boundary_str [of r s] x by (simp add: in_text_def)
next
  assume "valid_str x" and "in_text x p \<and> char_boundary (jp_input p) (jp_cursor p)"
  then obtain s r where "x = s @ r" "str_len s = jp_cursor p" "jp_input p = str_bytes x"
    using boundary_split [of x "jp_cursor p"] by (auto simp: in_text_def)
  then show "placed x p" unfolding placed_def by metis
qed

text \<open>Next to an ASCII byte the position is between two characters.\<close>

lemma placed_at_ascii:
  assumes "valid_str x" and "in_text x p" and "jp_get p = Some b" and "unat b < 128"
  shows "placed x p \<and> placed x (jp_advance p 1)"
proof -
  have "jp_cursor p < str_len x" "str_bytes x ! jp_cursor p = b"
    using assms(2,3) by (auto simp: in_text_def jp_get_def length_str_bytes split: if_splits)
  then obtain s c r where "x = s @ c # r" "str_len s = jp_cursor p" "c < 128"
    using ascii_byte [OF assms(1), of "jp_cursor p"] assms(4) by auto
  then show ?thesis
    using assms(2) unfolding placed_def in_text_def
    by (intro conjI exI [of _ s] exI [of _ "c # r"] exI [of _ "s @ [c]"] exI [of _ r]) (simp_all add: len_utf8_def)
qed

lemma placed_at_end: "valid_str x \<Longrightarrow> in_text x p \<Longrightarrow> jp_get p = None \<Longrightarrow> placed x p"
  by (intro iffD2 [OF placed_iff]) (auto simp: in_text_def jp_get_def char_boundary_def length_str_bytes split: if_splits)

section \<open>Errors\<close>

text \<open>The characters after the last newline.\<close>

definition last_line :: "str \<Rightarrow> str" where
  "last_line s = rev (takeWhile (\<lambda>c. c \<noteq> 10) (rev s))"

definition error_at :: "str \<Rightarrow> json_fault \<Rightarrow> bool" where
  "error_at x f \<longleftrightarrow> (\<exists>s r message. x = s @ r
     \<and> f = JsonError (length (filter (\<lambda>c. c = 10) s) + 1) (length (last_line s) + 1) message)"

lemma newline_bytes: "valid_str s \<Longrightarrow> length (filter (\<lambda>b. b = 10) (str_bytes s)) = length (filter (\<lambda>c. c = 10) s)"
proof (induction s)
  case (Cons c s)
  have "length (filter (\<lambda>b. b = 10) (encode_utf8 c)) = (if c = 10 then 1 else 0)"
  proof (cases "c < 128")
    case True
    then show ?thesis using byte_of_numeral_iff [of "num.Bit0 (num.Bit1 (num.Bit0 num.One))" c] by (simp add: encode_ascii)
  next
    case False
    then have "\<forall>b \<in> set (encode_utf8 c). 128 \<le> unat b" using Cons.prems by (intro encode_high) auto
    then have "filter (\<lambda>b. b = 10) (encode_utf8 c) = []" by (auto simp: filter_empty_conv)
    then show ?thesis using False by simp
  qed
  then show ?case using Cons by simp
qed simp

lemma last_line_split: "\<exists>t. s = t @ last_line s \<and> (t = [] \<or> last t = 10) \<and> 10 \<notin> set (last_line s)"
proof (intro exI conjI)
  let ?d = "dropWhile (\<lambda>c. c \<noteq> 10) (rev s)"
  show "s = rev ?d @ last_line s"
    by (simp add: last_line_def flip: rev_append)
  show "rev ?d = [] \<or> last (rev ?d) = 10"
    by (metis (mono_tags, lifting) hd_dropWhile last_rev rev_is_Nil_conv dropWhile_eq_Nil_conv)
  show "10 \<notin> set (last_line s)"
    by (auto simp: last_line_def dest: set_takeWhileD)
qed

lemma takeWhile_bytes:
  assumes "valid_str s"
  shows "length (takeWhile (\<lambda>b. b \<noteq> 10) (rev (str_bytes s))) = str_len (last_line s)"
proof -
  obtain t where t: "s = t @ last_line s" "t = [] \<or> last t = 10" "10 \<notin> set (last_line s)"
    using last_line_split by blast
  define l where "l = last_line s"
  have v: "valid_str t" "valid_str l" using assms by (metis l_def t(1) valid_str_simps(3))+
  have "10 \<notin> set (str_bytes l)"
  proof -
    have "length (filter (\<lambda>b. b = 10) (str_bytes l)) = 0"
      using newline_bytes [OF v(2)] t(3) by (auto simp: l_def filter_empty_conv)
    then show ?thesis by (auto simp: filter_empty_conv)
  qed
  then have "takeWhile (\<lambda>b. b \<noteq> 10) (rev (str_bytes l) @ rev (str_bytes t)) = rev (str_bytes l)"
  proof (cases "t = []")
    case False
    then have "str_bytes t = str_bytes (butlast t) @ [10]"
      using t(2) by (subst append_butlast_last_id [OF False, symmetric]) (simp add: encode_utf8_def byte_of_def del: append_butlast_last_id)
    then show ?thesis using \<open>10 \<notin> set (str_bytes l)\<close> by (simp, subst takeWhile_append2) auto
  qed (auto simp: takeWhile_eq_all_conv)
  then show ?thesis
    using t(1) by (metis l_def length_rev length_str_bytes rev_append str_bytes_simps(3))
qed

lemma error_placed:
  assumes "valid_str x" and "placed x p"
  shows "error_at x (jp_error p message)"
proof -
  obtain s r where s: "x = s @ r" "jp_input p = str_bytes x" "jp_cursor p = str_len s"
    using assms(2) by (auto simp: placed_def)
  have v: "valid_str s" "valid_str r" using assms(1) s(1) by auto
  obtain t where t: "s = t @ last_line s" using last_line_split by blast
  then have vt: "valid_str (last_line s)" "valid_str t" using v(1) by (metis valid_str_simps(3))+
  have prefix: "take (jp_cursor p) (jp_input p) = str_bytes s" "jp_cursor p \<le> length (jp_input p)"
    by (simp_all add: s length_str_bytes [symmetric] del: length_str_bytes)
  have "str_len s = str_len t + str_len (last_line s)" using t by (metis str_len_append)
  then have "line_start (str_bytes s) = str_len t"
    using takeWhile_bytes [OF v(1)] by (simp add: line_start_def length_str_bytes)
  then have "str_slice (str_bytes s) (line_start (str_bytes s)) (length (str_bytes s)) = Some (last_line s)"
    using slice_str [of "last_line s" "[]" t] vt t by (simp add: length_str_bytes)
  moreover have "char_boundary (jp_input p) (jp_cursor p)"
    using boundary_str [OF v(2), of s] s by simp
  ultimately have "jp_error p message = JsonError (length (filter (\<lambda>c. c = 10) s) + 1) (length (last_line s) + 1) message"
    using prefix newline_bytes [OF v(1)] by (simp add: jp_error_def min_absorb1 Let_def)
  then show ?thesis using s(1) by (auto simp: error_at_def)
qed

section \<open>The operations\<close>

lemma jp_get_in_text: "in_text x p \<Longrightarrow> jp_get p = Some b \<Longrightarrow> in_text x (jp_advance p 1)"
  by (auto simp: in_text_def jp_get_def length_str_bytes split: if_splits)

lemma skip_while_in_text: "in_text x p \<Longrightarrow> in_text x (jp_skip_while ok p)"
proof (induction ok p rule: jp_skip_while.induct)
  case (1 ok p)
  then show ?case
    using jp_get_in_text by (subst jp_skip_while.simps) (auto split: option.split)
qed

lemma skip_while_stopped: "jp_get (jp_skip_while ok p) = Some b \<Longrightarrow> \<not> ok b"
proof (induction ok p rule: jp_skip_while.induct)
  case (1 ok p)
  then show ?case
    by (subst (asm) (1) jp_skip_while.simps) (auto split: option.splits if_splits)
qed

lemma whitespace_placed: "valid_str x \<Longrightarrow> placed x p \<Longrightarrow> placed x (jp_whitespace p)"
  unfolding jp_whitespace_def
proof (induction is_json_space p rule: jp_skip_while.induct)
  case (1 p)
  show ?case
  proof (cases "jp_get p")
    case (Some b)
    show ?thesis
    proof (cases "is_json_space b")
      case True
      then have "unat b < 128" by (auto simp: is_json_space_def)
      then show ?thesis
        using "1.hyps" [OF Some True "1.prems"(1)] placed_at_ascii [OF "1.prems"(1) placed_in_text Some] "1.prems"(2) Some True
        by (subst jp_skip_while.simps) simp
    qed (use "1.prems" Some in \<open>subst jp_skip_while.simps, simp\<close>)
  qed (use "1.prems" in \<open>subst jp_skip_while.simps, simp\<close>)
qed

lemma expect_placed:
  assumes "valid_str x" and "placed x p" and "unat b < 128"
  shows "jp_expect b message p = Inl f \<Longrightarrow> error_at x f" and "jp_expect b message p = Inr q \<Longrightarrow> placed x q"
  using assms error_placed [OF assms(1,2)] placed_at_ascii [OF assms(1) placed_in_text [OF assms(2)] _ assms(3)]
  by (auto simp: jp_expect_def jp_consume_def split: if_splits)

text \<open>A slice between two such positions is text.\<close>

lemma slice_some:
  assumes "valid_str x" and "placed x p" "placed x q" and "jp_cursor p \<le> jp_cursor q"
  shows "str_slice (str_bytes x) (jp_cursor p) (jp_cursor q) \<noteq> None"
  using assms placed_iff [OF assms(1)]
  by (auto simp: str_slice_def in_text_def length_str_bytes)

lemma string_loop_placed:
  assumes "valid_str x" and "in_text x p" and "placed x p0" "placed x (jp_advance p0 1)" and "jp_cursor p0 + 1 \<le> jp_cursor p"
  shows "(\<forall>f. jp_string_loop L (jp_cursor p0) escaped p = Inl f \<longrightarrow> error_at x f)
    \<and> (\<forall>s q. jp_string_loop L (jp_cursor p0) escaped p = Inr (s, q) \<longrightarrow> placed x q)"
  using assms(2,5)
proof (induction L "jp_cursor p0" escaped p rule: jp_string_loop.induct)
  case (1 L escaped p)
  note error = error_placed [OF assms(1)]
  show ?case
  proof (cases "jp_get p")
    case None
    then show ?thesis
      using error placed_at_end [OF assms(1) "1.prems"(1) None] by (subst (1 2) jp_string_loop.simps) auto
  next
    case (Some b)
    note next' = jp_get_in_text [OF "1.prems"(1) Some]
    consider (quote) "b = 34" | (escape) "b = 92" | (control) "b \<noteq> 34" "b \<noteq> 92" "unat b \<le> 31"
      | (plain) "b \<noteq> 34" "b \<noteq> 92" "\<not> unat b \<le> 31" by blast
    then show ?thesis
    proof cases
      case quote
      then have q: "placed x p" "placed x (jp_advance p 1)"
        using placed_at_ascii [OF assms(1) "1.prems"(1) Some] by auto
      have "jp_input p = str_bytes x" using "1.prems"(1) by (simp add: in_text_def)
      then show ?thesis
        using slice_some [OF assms(1,4) q(1)] slice_some [OF assms(1,3) q(2)] "1.prems"(2) error [OF q(2)] q(2) Some quote
        by (subst (1 2) jp_string_loop.simps) (auto simp: Let_def split: if_splits option.splits sum.splits)
    next
      case escape
      then have q: "placed x (jp_advance p 1)" using placed_at_ascii [OF assms(1) "1.prems"(1) Some] by auto
      show ?thesis
      proof (cases "jp_cursor p + 1 = length (jp_input p)")
        case True
        then show ?thesis using error [OF q] Some escape by (subst (1 2) jp_string_loop.simps) (auto simp: Let_def)
      next
        case False
        then have "in_text x (jp_advance (jp_advance p 1) 1)"
          using next' by (auto simp: in_text_def length_str_bytes)
        then show ?thesis
          using "1.hyps"(1) [OF Some _ escape refl] False "1.prems"(2) Some escape
          by (subst (1 2) jp_string_loop.simps) (auto simp: Let_def)
      qed
    next
      case control
      then have "placed x p" using placed_at_ascii [OF assms(1) "1.prems"(1) Some] by auto
      then show ?thesis using error Some control by (subst (1 2) jp_string_loop.simps) auto
    next
      case plain
      then show ?thesis
        using "1.hyps"(2) [OF Some plain] next' "1.prems"(2) Some by (subst (1 2) jp_string_loop.simps) auto
    qed
  qed
qed

lemma string_placed:
  assumes "valid_str x" and "placed x p"
  shows "jp_string L p = Inl f \<Longrightarrow> error_at x f" and "jp_string L p = Inr (s, q) \<Longrightarrow> placed x q"
proof -
  have "error_at x f" if e: "jp_expect 34 (lit ''expected a string'') p = Inl f" for f
    by (rule expect_placed(1) [OF assms _ e]) simp
  moreover have "(\<forall>f. jp_string_loop L (jp_cursor p) False r = Inl f \<longrightarrow> error_at x f)
      \<and> (\<forall>s q. jp_string_loop L (jp_cursor p) False r = Inr (s, q) \<longrightarrow> placed x q)"
    if e: "jp_expect 34 (lit ''expected a string'') p = Inr r" for r
  proof (rule string_loop_placed [OF assms(1) _ assms(2)])
    have r: "r = jp_advance p 1" using e by (auto simp: jp_expect_def jp_consume_def split: if_splits)
    have "placed x r" by (rule expect_placed(2) [OF assms _ e]) simp
    then show "in_text x r" "placed x (jp_advance p 1)" "jp_cursor p + 1 \<le> jp_cursor r"
      using placed_in_text r by auto
  qed
  ultimately show "jp_string L p = Inl f \<Longrightarrow> error_at x f" "jp_string L p = Inr (s, q) \<Longrightarrow> placed x q"
    by (auto simp: jp_string_def and_then_Inl_iff and_then_Inr_iff)
qed

lemma number_placed:
  assumes "valid_str x" and "placed x p"
  shows "jp_number L p = Inl f \<Longrightarrow> error_at x f" and "jp_number L p = Inr (token, q) \<Longrightarrow> placed x q"
proof -
  let ?q = "jp_skip_while (\<lambda>b. \<not> ends_number b) p"
  have t: "in_text x ?q" by (rule skip_while_in_text [OF placed_in_text [OF assms(2)]])
  have q: "placed x ?q"
  proof (cases "jp_get ?q")
    case None
    then show ?thesis by (rule placed_at_end [OF assms(1) t])
  next
    case (Some b)
    then have "ends_number b" using skip_while_stopped [of "\<lambda>b. \<not> ends_number b" p b] by simp
    then have "unat b < 128" by (auto simp: ends_number_def is_json_space_def)
    then show ?thesis using placed_at_ascii [OF assms(1) t Some] by simp
  qed
  have i: "jp_input p = str_bytes x" using assms(2) by (auto simp: placed_def)
  have "str_slice (jp_input p) (jp_cursor p) (jp_cursor ?q) \<noteq> None"
    using slice_some [OF assms(1,2) q] skip_while_moves [of p "\<lambda>b. \<not> ends_number b"] by (simp add: i jp_moves_def)
  then show "jp_number L p = Inl f \<Longrightarrow> error_at x f" "jp_number L p = Inr (token, q) \<Longrightarrow> placed x q"
    using error_placed [OF assms(1) q] q by (auto simp: jp_number_def Let_def split: option.splits)
qed

lemma literal_placed:
  assumes "valid_str x" and "placed x p" and "token \<noteq> []" "\<forall>c \<in> set token. c < 128"
  shows "jp_literal token node p = Inl f \<Longrightarrow> error_at x f"
    and "jp_literal token node p = Inr (start, q) \<Longrightarrow> placed x q"
proof -
  have i: "jp_input p = str_bytes x" "jp_cursor p \<le> str_len x" "char_boundary (jp_input p) (jp_cursor p)"
    using assms(2) placed_iff [OF assms(1), of p] by (auto simp: in_text_def)
  show "jp_literal token node p = Inl f \<Longrightarrow> error_at x f"
    using error_placed [OF assms(1,2)] i by (auto simp: jp_literal_def length_str_bytes split: if_splits)
  assume r: "jp_literal token node p = Inr (start, q)"
  then have q: "q = jp_advance p (str_len token)"
    and t: "take (str_len token) (drop (jp_cursor p) (str_bytes x)) = str_bytes token"
    using i by (auto simp: jp_literal_def length_str_bytes split: if_splits)
  obtain us c where token: "token = us @ [c]" "c < 128" using assms(3,4) by (cases token rule: rev_cases) auto
  let ?p = "jp_advance p (str_len us)"
  have len: "jp_cursor p + str_len token \<le> str_len x"
    using arg_cong [OF t, of length] i(2) by (simp add: length_str_bytes min_def split: if_splits)
  have "str_bytes token ! str_len us = take (str_len token) (drop (jp_cursor p) (str_bytes x)) ! str_len us"
    by (simp only: t)
  also have "\<dots> = str_bytes x ! (jp_cursor p + str_len us)"
    using len token(1) by (simp add: length_str_bytes)
  finally have "str_bytes x ! (jp_cursor p + str_len us) = byte_of c"
    using token by (simp add: nth_append length_str_bytes encode_ascii)
  then have "jp_get ?p = Some (byte_of c)" "in_text x ?p"
    using len i(1) token by (simp_all add: jp_get_def in_text_def length_str_bytes len_utf8_def)
  then have "placed x (jp_advance ?p 1)"
    using placed_at_ascii [OF assms(1), of ?p "byte_of c"] token(2) by simp
  then show "placed x q" using token by (simp add: q len_utf8_def)
qed

lemma value_placed:
  assumes "valid_str x" and "placed x p"
  shows "jp_value L p = Inl f \<Longrightarrow> error_at x f" and "jp_value L p = Inr (start, q) \<Longrightarrow> placed x q"
proof -
  note error = error_placed [OF assms]
  have lits: "\<forall>c \<in> set (lit ''true''). c < 128" "\<forall>c \<in> set (lit ''false''). c < 128" "\<forall>c \<in> set (lit ''null''). c < 128"
    by simp_all
  note literal = literal_placed [OF assms _ lits(1)] literal_placed [OF assms _ lits(2)] literal_placed [OF assms _ lits(3)]
  show "jp_value L p = Inl f \<Longrightarrow> error_at x f"
    using error string_placed(1) [OF assms] number_placed(1) [OF assms] literal(1,3,5)
    by (auto simp: jp_value_def and_then_Inl_iff split: option.splits if_splits)
  have adv: "placed x (jp_advance p 1)" if "jp_get p = Some b" "unat b < 128" for b
    using placed_at_ascii [OF assms(1) placed_in_text [OF assms(2)] that] by simp
  show "jp_value L p = Inr (start, q) \<Longrightarrow> placed x q"
    using adv string_placed(2) [OF assms] number_placed(2) [OF assms] literal(2,4,6)
    by (auto simp: jp_value_def and_then_Inr_iff split: option.splits if_splits)
qed

section \<open>The loop\<close>

text \<open>A frame that waits for a value: an array, or an object whose key has been read.\<close>

fun waiting :: "json_frame \<Rightarrow> bool" where
  "waiting (FArray elems) \<longleftrightarrow> True"
| "waiting (FObject members key) \<longleftrightarrow> key \<noteq> None"

text \<open>The innermost frame is the one the action is about, and those below wait for it.\<close>

fun action_ok :: "json_action \<Rightarrow> json_frame list \<Rightarrow> json_node option \<Rightarrow> bool" where
  "action_ok AValue stack root \<longleftrightarrow> list_all waiting stack"
| "action_ok AFinished stack root \<longleftrightarrow> root \<noteq> None"
| "action_ok act (FArray elems # stack) root \<longleftrightarrow> act \<in> {AArrayValueOrEnd, AArrayDelimiter} \<and> list_all waiting stack"
| "action_ok act (FObject members key # stack) root \<longleftrightarrow>
     act \<in> {AObjectKeyOrEnd, AObjectKey, AObjectDelimiter} \<and> list_all waiting stack"
| "action_ok act [] root \<longleftrightarrow> False"

definition loop_ok :: "str \<Rightarrow> parse_state \<Rightarrow> bool" where
  "loop_ok x st \<longleftrightarrow> placed x (ps_parser st) \<and> action_ok (ps_action st) (ps_stack st) (ps_root st)"

definition step_safe :: "str \<Rightarrow> json_fault + parse_state \<Rightarrow> bool" where
  "step_safe x res \<longleftrightarrow> (case res of Inl f \<Rightarrow> error_at x f | Inr st \<Rightarrow> loop_ok x st)"

lemma attach_safe: "placed x (ps_parser st) \<Longrightarrow> list_all waiting (ps_stack st) \<Longrightarrow> step_safe x (attach val st)"
  by (auto simp: attach_def step_safe_def loop_ok_def split: list.split json_frame.split option.split)

lemma read_key_safe:
  assumes "valid_str x" and "placed x (ps_parser st)" and "ps_stack st = FObject members pending # stack" "list_all waiting stack"
  shows "step_safe x (read_key L st)"
proof (cases "jp_string L (ps_parser st)")
  case (Inl f)
  then show ?thesis using string_placed(1) [OF assms(1,2)] by (simp add: read_key_def step_safe_def)
next
  case (Inr r)
  obtain key q where r: "r = (key, q)" by fastforce
  have q: "placed x q" using string_placed(2) [OF assms(1,2)] Inr r by simp
  note e = expect_placed [OF assms(1) whitespace_placed [OF assms(1) q], of 58 "lit ''expected `:` after object key''"]
  show ?thesis
  proof (cases "jp_expect 58 (lit ''expected `:` after object key'') (jp_whitespace q)")
    case (Inl f)
    then show ?thesis
      using e(1) error_placed [OF assms(1) q] assms(3) Inr by (auto simp: read_key_def step_safe_def r)
  next
    case inr: (Inr p)
    then show ?thesis
      using e(2) error_placed [OF assms(1) q] assms(3,4) Inr
      by (auto simp: read_key_def step_safe_def r loop_ok_def)
  qed
qed

lemma read_value_safe:
  assumes "valid_str x" and "placed x (ps_parser st)" and "list_all waiting (ps_stack st)"
  shows "step_safe x (read_value L st)"
proof (cases "jp_value L (ps_parser st)")
  case (Inl f)
  then show ?thesis using value_placed(1) [OF assms(1,2)] by (simp add: read_value_def step_safe_def)
next
  case (Inr r)
  obtain start q where r: "r = (start, q)" by fastforce
  have "placed x q" using value_placed(2) [OF assms(1,2)] Inr r by simp
  then show ?thesis
    using assms(3) Inr attach_safe [of x "st\<lparr>ps_parser := q\<rparr>"]
    by (cases start) (auto simp: read_value_def r Let_def, auto simp: step_safe_def loop_ok_def)
qed

lemma action_frame:
  "action_ok act stack root \<Longrightarrow> act \<in> {AArrayValueOrEnd, AArrayDelimiter} \<Longrightarrow>
     \<exists>elems rest. stack = FArray elems # rest \<and> list_all waiting rest"
  "action_ok act stack root \<Longrightarrow> act \<in> {AObjectKeyOrEnd, AObjectKey, AObjectDelimiter} \<Longrightarrow>
     \<exists>members key rest. stack = FObject members key # rest \<and> list_all waiting rest"
  by (cases "(act, stack, root)" rule: action_ok.cases; auto)+

lemma parse_action_safe:
  assumes "valid_str x" and "loop_ok x st" and "ps_action st \<noteq> AFinished"
  shows "step_safe x (parse_action L st)"
proof -
  let ?p = "ps_parser st" and ?next = "st\<lparr>ps_parser := jp_advance (ps_parser st) 1\<rparr>"
  have p: "placed x ?p" and act: "action_ok (ps_action st) (ps_stack st) (ps_root st)"
    using assms(2) by (auto simp: loop_ok_def)
  note error = error_placed [OF assms(1) p]
  have adv: "placed x (jp_advance ?p 1)" if "jp_get ?p = Some b" "unat b < 128" for b
    using placed_at_ascii [OF assms(1) placed_in_text [OF p] that] by simp
  have array: "\<exists>elems rest. ps_stack st = FArray elems # rest \<and> list_all waiting rest"
    if "ps_action st \<in> {AArrayValueOrEnd, AArrayDelimiter}" using action_frame(1) [OF act that] .
  have object: "\<exists>members key rest. ps_stack st = FObject members key # rest \<and> list_all waiting rest"
    if "ps_action st \<in> {AObjectKeyOrEnd, AObjectKey, AObjectDelimiter}" using action_frame(2) [OF act that] .
  have close_a: "step_safe x (close_array ?next)"
    if "ps_action st \<in> {AArrayValueOrEnd, AArrayDelimiter}" "jp_get ?p = Some 93"
    using array [OF that(1)] adv [OF that(2)] by (auto simp: close_array_def intro!: attach_safe)
  have close_o: "step_safe x (close_object ?next)"
    if "ps_action st \<in> {AObjectKeyOrEnd, AObjectDelimiter}" "jp_get ?p = Some 125"
    using object adv [OF that(2)] that(1) by (auto simp: close_object_def intro!: attach_safe)
  have key: "step_safe x (read_key L st)" if "ps_action st \<in> {AObjectKeyOrEnd, AObjectKey}"
    using object that read_key_safe [OF assms(1) p] by auto
  show ?thesis
  proof (cases "ps_action st")
    case AValue
    then show ?thesis using read_value_safe [OF assms(1) p] act by (simp add: parse_action_def)
  next
    case AArrayValueOrEnd
    then show ?thesis
      using close_a p array by (auto simp: parse_action_def Let_def step_safe_def [of _ "Inr _"] loop_ok_def)
  next
    case AArrayDelimiter
    then show ?thesis
      using close_a p array error adv by (auto simp: parse_action_def Let_def step_safe_def [of _ "Inr _"] step_safe_def [of _ "Inl _"] loop_ok_def)
  next
    case AObjectDelimiter
    then show ?thesis
      using close_o p object error adv by (auto simp: parse_action_def Let_def step_safe_def [of _ "Inr _"] step_safe_def [of _ "Inl _"] loop_ok_def)
  qed (use close_o key assms(3) in \<open>auto simp: parse_action_def Let_def\<close>)
qed

lemma parse_loop_safe:
  assumes "valid_str x"
  shows "loop_ok x st \<Longrightarrow> parse_loop L st = Inl f \<Longrightarrow> error_at x f"
proof (induction L st rule: parse_loop.induct)
  case (1 L st)
  let ?st = "st\<lparr>ps_parser := jp_whitespace (ps_parser st)\<rparr>"
  have ok: "loop_ok x ?st"
    using "1.prems"(1) whitespace_placed [OF assms] by (simp add: loop_ok_def)
  show ?case
  proof (cases "ps_action ?st = AFinished")
    case True
    then have "ps_root ?st \<noteq> None" using ok by (simp add: loop_ok_def)
    then show ?thesis
      using "1.prems"(2) True ok error_placed [OF assms]
      by (subst (asm) parse_loop.simps) (auto simp: parse_finish_def Let_def loop_ok_def split: if_splits)
  next
    case False
    have safe: "step_safe x (parse_action L ?st)" by (rule parse_action_safe [OF assms ok False])
    have "and_then (parse_action L ?st) (parse_loop L) = Inl f"
      using "1.prems"(2) False by (subst (asm) parse_loop.simps) (simp add: Let_def)
    then consider "parse_action L ?st = Inl f" | st' where "parse_action L ?st = Inr st'" "parse_loop L st' = Inl f"
      by (auto simp: and_then_Inl_iff)
    then show ?thesis
    proof cases
      case 1
      then show ?thesis using safe by (simp add: step_safe_def)
    next
      case 2
      then show ?thesis using "1.IH" [OF refl False 2(1)] safe by (simp add: step_safe_def)
    qed
  qed
qed

lemma json_parse_error:
  assumes "valid_str x" and "json_parse L x = Inl f"
  shows "error_at x f"
proof -
  have "loop_ok x \<lparr>ps_parser = \<lparr>jp_input = str_bytes x, jp_cursor = 0\<rparr>, ps_stack = [], ps_root = None, ps_action = AValue\<rparr>"
    unfolding loop_ok_def placed_def by (intro conjI exI [of _ "[]"] exI [of _ x]) simp_all
  then show ?thesis
    using parse_loop_safe [OF assms(1)] assms(2) unfolding json_parse_def by blast
qed

text \<open>C25: Reading any text as JSON returns a tree or an error, whatever the library answers: no slice cuts a
  character and no unreachable state is met, and the line and column of an error are those of a
  position in the text, counted in characters from one.\<close>

theorem json_parse_safe:
  assumes "valid_str x" and "json_parse L x = Inl f"
  shows "\<exists>s r message. x = s @ r
    \<and> f = JsonError (length (filter (\<lambda>c. c = 10) s) + 1) (length (last_line s) + 1) message"
  using json_parse_error [OF assms] unfolding error_at_def by blast

theorem json_parse_safe_witness:
  "\<exists>s r message. [91, 10, 955, 93] = s @ r
    \<and> json_parse sample_library [91, 10, 955, 93]
      = Inl (JsonError (length (filter (\<lambda>c. c = 10) s) + 1) (length (last_line s) + 1) message)"
proof -
  have "json_parse sample_library [91, 10, 955, 93] = Inl (JsonError 2 1 (lit ''expected a JSON value''))"
    by code_simp
  then show ?thesis
    using json_parse_safe [of "[91, 10, 955, 93]" sample_library] by (simp add: is_scalar_def)
qed

end
