(* ===== verification/Kore_Json.thy ===== *)
theory Kore_Json
  imports Kore_Node Json_Roundtrip Kore_Lexical Kore_String "HOL-Library.Multiset"
begin

text \<open>
  Writing KORE JSON (\<open>kore/json.rs\<close>): the fields of each node, the writer that goes from a pattern
  source straight to compact text, and the builder of the JSON tree of a source, with its members in
  schema order or ordered by key. Both run on an explicit stack of tasks.

  The specification is \<open>pattern_json\<close>, the tree of a pattern by recursion. The theorems: for every
  source the builder returns the tree of its pattern, and the direct writer writes the compact text
  of the tree ordered by key.
\<close>

section \<open>Tasks and fields\<close>

definition FORMAT :: str where "FORMAT = lit ''KORE''"
definition VERSION :: nat where "VERSION = 1"

datatype 's encode_task =
    EncText str
  | EncNumber str
  | EncStatic str
  | EncString str
  | EncPattern 's
  | EncPatternArray "'s list"
  | EncSort sort
  | EncSortArray "sort list"

type_synonym 's encode_fields = "(str \<times> 's encode_task) list"

definition symbol_tasks :: "symbol \<Rightarrow> 's encode_task \<times> 's encode_task" where
  "symbol_tasks symb = (EncString (symbol_name symb), EncSortArray (sort_parameters symb))"

definition variable_tasks :: "variable \<Rightarrow> variable_kind \<times> 's encode_task \<times> 's encode_task" where
  "variable_tasks x = (var_kind x, EncString (var_name x), EncSort (var_sort x))"

definition envelope_fields :: "'s \<Rightarrow> 's encode_fields" where
  "envelope_fields source =
     [(lit ''format'', EncStatic FORMAT), (lit ''version'', EncNumber (decimal VERSION)),
      (lit ''term'', EncPattern source)]"

fun sort_fields :: "sort \<Rightarrow> 's encode_fields" where
  "sort_fields (SortVariable name) = [(lit ''tag'', EncStatic (lit ''SortVar'')), (lit ''name'', EncString name)]"
| "sort_fields (SortApplication name arguments) =
     [(lit ''tag'', EncStatic (lit ''SortApp'')), (lit ''name'', EncString name), (lit ''args'', EncSortArray arguments)]"

text \<open>The code points of a payload.\<close>

definition json_string_value :: "kore_string \<Rightarrow> literal_encoding \<Rightarrow> str" where
  "json_string_value v enc =
     (case enc of
        Bytes \<Rightarrow> map unat v
      | Utf8 \<Rightarrow> (case from_utf8 v of Inr text \<Rightarrow> text | Inl _ \<Rightarrow> text_from_bytes v))"

fun pattern_fields :: "'s pattern_node \<Rightarrow> 's encode_fields" where
  "pattern_fields (NString v) =
     [(lit ''tag'', EncStatic (lit ''String'')), (lit ''value'', EncString (json_string_value v Utf8))]"
| "pattern_fields (NVariable x) =
     (let (kind, name, var_sort) = variable_tasks x
      in [(lit ''tag'', EncStatic (if kind = Element then lit ''EVar'' else lit ''SVar'')),
          (lit ''name'', name), (lit ''sort'', var_sort)])"
| "pattern_fields (NApplication symb arguments) =
     (let (name, sorts) = symbol_tasks symb
      in [(lit ''tag'', EncStatic (lit ''App'')), (lit ''name'', name), (lit ''sorts'', sorts),
          (lit ''args'', EncPatternArray arguments)])"
| "pattern_fields (NTop s) = [(lit ''tag'', EncStatic (lit ''Top'')), (lit ''sort'', EncSort s)]"
| "pattern_fields (NBottom s) = [(lit ''tag'', EncStatic (lit ''Bottom'')), (lit ''sort'', EncSort s)]"
| "pattern_fields (NAnd s arguments) =
     [(lit ''tag'', EncStatic (lit ''And'')), (lit ''sort'', EncSort s), (lit ''patterns'', EncPatternArray arguments)]"
| "pattern_fields (NOr s arguments) =
     [(lit ''tag'', EncStatic (lit ''Or'')), (lit ''sort'', EncSort s), (lit ''patterns'', EncPatternArray arguments)]"
| "pattern_fields (NNot s p) =
     [(lit ''tag'', EncStatic (lit ''Not'')), (lit ''sort'', EncSort s), (lit ''arg'', EncPattern p)]"
| "pattern_fields (NNext s p) =
     [(lit ''tag'', EncStatic (lit ''Next'')), (lit ''sort'', EncSort s), (lit ''dest'', EncPattern p)]"
| "pattern_fields (NImplies s p q) =
     [(lit ''tag'', EncStatic (lit ''Implies'')), (lit ''sort'', EncSort s), (lit ''first'', EncPattern p),
      (lit ''second'', EncPattern q)]"
| "pattern_fields (NIff s p q) =
     [(lit ''tag'', EncStatic (lit ''Iff'')), (lit ''sort'', EncSort s), (lit ''first'', EncPattern p),
      (lit ''second'', EncPattern q)]"
| "pattern_fields (NRewrites s p q) =
     [(lit ''tag'', EncStatic (lit ''Rewrites'')), (lit ''sort'', EncSort s), (lit ''source'', EncPattern p),
      (lit ''dest'', EncPattern q)]"
| "pattern_fields (NExists s x p) =
     (let (_, name, var_sort) = variable_tasks x
      in [(lit ''tag'', EncStatic (lit ''Exists'')), (lit ''sort'', EncSort s), (lit ''var'', name),
          (lit ''varSort'', var_sort), (lit ''arg'', EncPattern p)])"
| "pattern_fields (NForall s x p) =
     (let (_, name, var_sort) = variable_tasks x
      in [(lit ''tag'', EncStatic (lit ''Forall'')), (lit ''sort'', EncSort s), (lit ''var'', name),
          (lit ''varSort'', var_sort), (lit ''arg'', EncPattern p)])"
| "pattern_fields (NMu x p) =
     (let (_, name, var_sort) = variable_tasks x
      in [(lit ''tag'', EncStatic (lit ''Mu'')), (lit ''var'', name), (lit ''varSort'', var_sort),
          (lit ''arg'', EncPattern p)])"
| "pattern_fields (NNu x p) =
     (let (_, name, var_sort) = variable_tasks x
      in [(lit ''tag'', EncStatic (lit ''Nu'')), (lit ''var'', name), (lit ''varSort'', var_sort),
          (lit ''arg'', EncPattern p)])"
| "pattern_fields (NCeil s t p) =
     [(lit ''tag'', EncStatic (lit ''Ceil'')), (lit ''argSort'', EncSort s), (lit ''sort'', EncSort t),
      (lit ''arg'', EncPattern p)]"
| "pattern_fields (NFloor s t p) =
     [(lit ''tag'', EncStatic (lit ''Floor'')), (lit ''argSort'', EncSort s), (lit ''sort'', EncSort t),
      (lit ''arg'', EncPattern p)]"
| "pattern_fields (NEquals s t p q) =
     [(lit ''tag'', EncStatic (lit ''Equals'')), (lit ''argSort'', EncSort s), (lit ''sort'', EncSort t),
      (lit ''first'', EncPattern p), (lit ''second'', EncPattern q)]"
| "pattern_fields (NIn s t p q) =
     [(lit ''tag'', EncStatic (lit ''In'')), (lit ''argSort'', EncSort s), (lit ''sort'', EncSort t),
      (lit ''first'', EncPattern p), (lit ''second'', EncPattern q)]"
| "pattern_fields (NDomainValue s v) =
     [(lit ''tag'', EncStatic (lit ''DV'')), (lit ''sort'', EncSort s),
      (lit ''value'', EncString (json_string_value v (of_domain_value s)))]"
| "pattern_fields (NAssociative associativity symb arguments) =
     (let (name, sorts) = symbol_tasks symb
      in [(lit ''tag'', EncStatic (if associativity = LeftAssoc then lit ''LeftAssoc'' else lit ''RightAssoc'')),
          (lit ''symbol'', name), (lit ''sorts'', sorts), (lit ''argss'', EncPatternArray arguments)])"

text \<open>\<open>sort_by\<close> of the fields by their keys: a stable sort.\<close>

fun insert_field :: "str \<times> 'a \<Rightarrow> (str \<times> 'a) list \<Rightarrow> (str \<times> 'a) list" where
  "insert_field f [] = [f]"
| "insert_field f (g # fields') =
     (if str_cmp (fst f) (fst g) = Greater then g # insert_field f fields' else f # g # fields')"

definition by_key :: "(str \<times> 'a) list \<Rightarrow> (str \<times> 'a) list" where
  "by_key fields' = foldr insert_field fields' []"

lemma insert_field_map:
  "insert_field (fst m, f (snd m)) (map (\<lambda>m. (fst m, f (snd m))) ms) = map (\<lambda>m. (fst m, f (snd m))) (insert_field m ms)"
  by (induction ms) auto

lemma by_key_map: "by_key (map (\<lambda>m. (fst m, f (snd m))) ms) = map (\<lambda>m. (fst m, f (snd m))) (by_key ms)"
  by (induction ms) (simp_all add: by_key_def insert_field_map)

lemma mset_insert_field: "mset (insert_field m ms) = add_mset m (mset ms)"
  by (induction ms) auto

lemma mset_by_key: "mset (by_key ms) = mset ms"
  by (induction ms) (auto simp: by_key_def mset_insert_field)

lemma set_by_key [simp]: "set (by_key ms) = set ms"
  by (metis mset_by_key set_mset_mset)

lemma length_by_key [simp]: "length (by_key ms) = length ms"
  by (metis mset_by_key size_mset)

lemma distinct_by_key [simp]: "distinct (map fst (by_key ms)) = distinct (map fst ms)"
  by (metis mset_by_key mset_map mset_eq_imp_distinct_iff)

section \<open>Writing text\<close>

text \<open>What goes on the stack for an object and for an array, the next task first.\<close>

definition comma :: "bool \<Rightarrow> 's encode_task list" where
  "comma first = (if first then [] else [EncText (lit '','')])"

definition object_tasks :: "'s encode_fields \<Rightarrow> 's encode_task list" where
  "object_tasks fields' =
     EncText (lit ''{'')
     # concat (mark_first (\<lambda>m first. comma first @ [EncStatic (fst m), EncText (lit '':''), snd m]) (by_key fields'))
     @ [EncText (lit ''}'')]"

definition array_tasks :: "('a \<Rightarrow> 's encode_task) \<Rightarrow> 'a list \<Rightarrow> 's encode_task list" where
  "array_tasks task items =
     EncText (lit ''['') # concat (mark_first (\<lambda>x first. comma first @ [task x]) items) @ [EncText (lit '']'')]"

text \<open>One round of the loop: what it writes and what it pushes.\<close>

fun string_step :: "json_library \<Rightarrow> ('s \<Rightarrow> 's pattern_node) \<Rightarrow> 's encode_task \<Rightarrow> str \<times> 's encode_task list" where
  "string_step L node (EncText val) = (val, [])"
| "string_step L node (EncNumber val) = (val, [])"
| "string_step L node (EncStatic val) = (34 # val @ [34], [])"
| "string_step L node (EncString val) = (jl_write_string L val, [])"
| "string_step L node (EncPatternArray patterns) = ([], array_tasks EncPattern patterns)"
| "string_step L node (EncSortArray sorts) = ([], array_tasks EncSort sorts)"
| "string_step L node (EncSort s) = ([], object_tasks (sort_fields s))"
| "string_step L node (EncPattern p) = ([], object_tasks (pattern_fields (node p)))"

partial_function (option) string_loop ::
    "json_library \<Rightarrow> ('s \<Rightarrow> 's pattern_node) \<Rightarrow> 's encode_task list \<Rightarrow> str \<Rightarrow> str option" where
  "string_loop L node stack out =
     (case stack of
        [] \<Rightarrow> Some out
      | task # stack \<Rightarrow>
          (let (piece, pushed) = string_step L node task
           in string_loop L node (pushed @ stack) (out @ piece)))"

definition source_to_string :: "json_library \<Rightarrow> ('s \<Rightarrow> 's pattern_node) \<Rightarrow> 's \<Rightarrow> str option" where
  "source_to_string L node source = string_loop L node (object_tasks (envelope_fields source)) []"

section \<open>Building the tree\<close>

datatype member_order = Schema | Key

definition ordered :: "member_order \<Rightarrow> (str \<times> 'a) list \<Rightarrow> (str \<times> 'a) list" where
  "ordered order fields' = (if order = Key then by_key fields' else fields')"

datatype 's build = BEnter "'s encode_task" | BArray nat | BObject "str list"

text \<open>\<open>push_node_object\<close>, the next task first.\<close>

definition node_object :: "member_order \<Rightarrow> 's encode_fields \<Rightarrow> 's build list" where
  "node_object order fields' =
     (let fields' = ordered order fields'
      in map (\<lambda>m. BEnter (snd m)) fields' @ [BObject (map fst fields')])"

text \<open>
  Entering a task gives a finished node or the tasks to push; punctuation is unreachable (\<open>None\<close>).
\<close>

fun enter_task :: "('s \<Rightarrow> 's pattern_node) \<Rightarrow> member_order \<Rightarrow> 's encode_task \<Rightarrow> (json_node + 's build list) option" where
  "enter_task node order (EncText _) = None"
| "enter_task node order (EncNumber val) = Some (Inl (JNumber val))"
| "enter_task node order (EncStatic val) = Some (Inl (JString val))"
| "enter_task node order (EncString val) = Some (Inl (JString val))"
| "enter_task node order (EncPattern source) = Some (Inr (node_object order (pattern_fields (node source))))"
| "enter_task node order (EncSort s) = Some (Inr (node_object order (sort_fields s)))"
| "enter_task node order (EncPatternArray patterns) =
     Some (Inr (map (\<lambda>p. BEnter (EncPattern p)) patterns @ [BArray (length patterns)]))"
| "enter_task node order (EncSortArray sorts) =
     Some (Inr (map (\<lambda>s. BEnter (EncSort s)) sorts @ [BArray (length sorts)]))"

text \<open>
  The loop; \<open>built\<close> holds the finished nodes, the last one first. Taking more nodes than there are
  is a panic (\<open>None\<close>).
\<close>

partial_function (option) build_loop ::
    "('s \<Rightarrow> 's pattern_node) \<Rightarrow> member_order \<Rightarrow> 's build list \<Rightarrow> json_node list \<Rightarrow> json_node option" where
  "build_loop node order tasks built =
     (case tasks of
        [] \<Rightarrow> (case built of [] \<Rightarrow> None | n # _ \<Rightarrow> Some n)
      | BEnter task # tasks \<Rightarrow>
          (case enter_task node order task of
             None \<Rightarrow> None
           | Some (Inl n) \<Rightarrow> build_loop node order tasks (n # built)
           | Some (Inr pushed) \<Rightarrow> build_loop node order (pushed @ tasks) built)
      | BArray len # tasks \<Rightarrow>
          (if length built < len then None
           else build_loop node order tasks (JArray (rev (take len built)) # drop len built))
      | BObject keys # tasks \<Rightarrow>
          (if length built < length keys then None
           else build_loop node order tasks
             (JObject (zip keys (rev (take (length keys) built))) # drop (length keys) built)))"

definition source_to_node :: "('s \<Rightarrow> 's pattern_node) \<Rightarrow> 's \<Rightarrow> member_order \<Rightarrow> json_node option" where
  "source_to_node node source order = build_loop node order (node_object order (envelope_fields source)) []"

definition to_node_source :: "('s \<Rightarrow> 's pattern_node) \<Rightarrow> 's \<Rightarrow> json_node option" where
  "to_node_source node source = source_to_node node source Key"

definition to_value_source :: "'v value_builder \<Rightarrow> ('s \<Rightarrow> 's pattern_node) \<Rightarrow> 's \<Rightarrow> 'v option" where
  "to_value_source B node source = Option.bind (source_to_node node source Schema) (into_value B)"

definition to_json_value :: "'v value_builder \<Rightarrow> pattern \<Rightarrow> 'v option" where
  "to_json_value B p = to_value_source B node_of p"

text \<open>\<open>to_string\<close> and \<open>to_string_pretty\<close>.\<close>

definition to_json_string :: "json_library \<Rightarrow> pattern \<Rightarrow> str option" where
  "to_json_string L p = Option.bind (source_to_node node_of p Schema) (\<lambda>n. json_to_string L n False)"

definition to_json_string_pretty :: "json_library \<Rightarrow> pattern \<Rightarrow> str option" where
  "to_json_string_pretty L p = Option.bind (source_to_node node_of p Schema) (\<lambda>n. json_to_string L n True)"

section \<open>The tree of a pattern\<close>

text \<open>The sorts and the sources of a task, and the tree it stands for.\<close>

fun task_sorts :: "'s encode_task \<Rightarrow> sort list" where
  "task_sorts (EncSort s) = [s]"
| "task_sorts (EncSortArray ss) = ss"
| "task_sorts _ = []"

fun task_sources :: "'s encode_task \<Rightarrow> 's list" where
  "task_sources (EncPattern p) = [p]"
| "task_sources (EncPatternArray ps) = ps"
| "task_sources _ = []"

fun task_json :: "(sort \<Rightarrow> json_node) \<Rightarrow> ('s \<Rightarrow> json_node) \<Rightarrow> 's encode_task \<Rightarrow> json_node" where
  "task_json sj pj (EncText val) = JNull"
| "task_json sj pj (EncNumber val) = JNumber val"
| "task_json sj pj (EncStatic val) = JString val"
| "task_json sj pj (EncString val) = JString val"
| "task_json sj pj (EncPattern p) = pj p"
| "task_json sj pj (EncPatternArray ps) = JArray (map pj ps)"
| "task_json sj pj (EncSort s) = sj s"
| "task_json sj pj (EncSortArray ss) = JArray (map sj ss)"

lemma task_json_cong [fundef_cong]:
  assumes "t = t'" and "\<And>s. s \<in> set (task_sorts t') \<Longrightarrow> sj s = sj' s"
    and "\<And>p. p \<in> set (task_sources t') \<Longrightarrow> pj p = pj' p"
  shows "task_json sj pj t = task_json sj' pj' t'"
  using assms by (cases t') auto

definition fields_json :: "member_order \<Rightarrow> ('s encode_task \<Rightarrow> json_node) \<Rightarrow> 's encode_fields \<Rightarrow> json_node" where
  "fields_json order tj fields' = JObject (ordered order (map (\<lambda>m. (fst m, tj (snd m))) fields'))"

lemma fields_json_cong [fundef_cong]:
  assumes "fields' = gs" and "\<And>m. m \<in> set gs \<Longrightarrow> tj (snd m) = tj' (snd m)"
  shows "fields_json order tj fields' = fields_json order tj' gs"
  using assms by (auto simp: fields_json_def intro!: arg_cong [where f = "ordered order"])

lemma sort_fields_smaller:
  "m \<in> set (sort_fields s) \<Longrightarrow> t \<in> set (task_sorts (snd m)) \<Longrightarrow> size t < size s"
  by (cases s) (auto simp: less_Suc_eq_le dest: size_list_estimation' [OF _ order_refl])

function sort_json :: "member_order \<Rightarrow> sort \<Rightarrow> json_node" where
  "sort_json order s = fields_json order (task_json (sort_json order) (\<lambda>_ :: unit. JNull)) (sort_fields s)"
  by pat_completeness auto
termination
  by (relation "measure (\<lambda>(_, s). size s)") (auto dest: sort_fields_smaller)

declare sort_json.simps [simp del]

lemma sort_json_fields: "sort_json order s = fields_json order (task_json (sort_json order) pj) (sort_fields s)"
  by (subst sort_json.simps) (cases s; simp add: fields_json_def)

lemma pattern_fields_sources: "concat (map (\<lambda>m. task_sources (snd m)) (pattern_fields nd)) = snd (split_node nd)"
  by (cases nd) (auto simp: variable_tasks_def symbol_tasks_def)

lemma field_source: "m \<in> set (pattern_fields nd) \<Longrightarrow> c \<in> set (task_sources (snd m)) \<Longrightarrow> c \<in> set (snd (split_node nd))"
  by (simp add: pattern_fields_sources [symmetric]) blast

function pattern_json :: "member_order \<Rightarrow> pattern \<Rightarrow> json_node" where
  "pattern_json order p = fields_json order (task_json (sort_json order) (pattern_json order)) (pattern_fields (node_of p))"
  by pat_completeness auto
termination
  by (relation "measure (\<lambda>(_, p). pattern_nodes p)")
    (auto intro!: pattern_nodes_child simp: children_node_of dest: field_source)

declare pattern_json.simps [simp del]

lemma pattern_fields_map:
  "pattern_fields (map_pattern_node f nd) = map (\<lambda>m. (fst m, map_encode_task f (snd m))) (pattern_fields nd)"
  by (cases nd) (auto simp: variable_tasks_def symbol_tasks_def)

lemma task_json_map: "task_json sj pj (map_encode_task f t) = task_json sj (\<lambda>s. pj (f s)) t"
  by (cases t) (auto simp: o_def)

definition envelope_json :: "member_order \<Rightarrow> pattern \<Rightarrow> json_node" where
  "envelope_json order p = fields_json order (task_json (sort_json order) (pattern_json order)) (envelope_fields p)"

text \<open>No field is punctuation.\<close>

fun node_task :: "'s encode_task \<Rightarrow> bool" where
  "node_task (EncText _) \<longleftrightarrow> False"
| "node_task _ \<longleftrightarrow> True"

lemma sort_fields_tasks: "m \<in> set (sort_fields s) \<Longrightarrow> node_task (snd m)"
  by (cases s) auto

lemma pattern_fields_tasks: "m \<in> set (pattern_fields nd) \<Longrightarrow> node_task (snd m)"
  by (cases nd) (auto simp: variable_tasks_def symbol_tasks_def)

lemma envelope_tasks: "m \<in> set (envelope_fields s) \<Longrightarrow> node_task (snd m)"
  by (auto simp: envelope_fields_def)

lemma ordered_map: "ordered order (map (\<lambda>m. (fst m, f (snd m))) ms) = map (\<lambda>m. (fst m, f (snd m))) (ordered order ms)"
  by (simp add: ordered_def by_key_map)

lemma set_ordered [simp]: "set (ordered order ms) = set ms"
  by (simp add: ordered_def)

section \<open>The builder\<close>

lemma build_steps:
  "build_loop node order [] (n # built) = Some n"
  "build_loop node order (BEnter task # tasks) built =
     (case enter_task node order task of
        None \<Rightarrow> None
      | Some (Inl n) \<Rightarrow> build_loop node order tasks (n # built)
      | Some (Inr pushed) \<Rightarrow> build_loop node order (pushed @ tasks) built)"
  "build_loop node order (BArray len # tasks) built =
     (if length built < len then None
      else build_loop node order tasks (JArray (rev (take len built)) # drop len built))"
  "build_loop node order (BObject keys # tasks) built =
     (if length built < length keys then None
      else build_loop node order tasks
        (JObject (zip keys (rev (take (length keys) built))) # drop (length keys) built))"
  by (subst build_loop.simps, simp)+

text \<open>Tasks that are entered one after the other leave their nodes in order.\<close>

lemma build_each:
  assumes "\<And>x tasks built. x \<in> set xs \<Longrightarrow>
    build_loop node order (f x # tasks) built = build_loop node order tasks (g x # built)"
  shows "build_loop node order (map f xs @ tasks) built = build_loop node order tasks (rev (map g xs) @ built)"
  using assms by (induction xs arbitrary: built) auto

lemma build_array:
  assumes "\<And>x tasks built. x \<in> set xs \<Longrightarrow>
    build_loop node order (f x # tasks) built = build_loop node order tasks (g x # built)"
  shows "build_loop node order (map f xs @ BArray (length xs) # tasks) built
     = build_loop node order tasks (JArray (map g xs) # built)"
  using build_each [of xs node order f g "BArray (length xs) # tasks" built, OF assms] by (simp add: build_steps)

lemma zip_fields: "zip (map fst ms) (map (\<lambda>m. f (snd m)) ms) = map (\<lambda>m. (fst m, f (snd m))) ms"
  by (induction ms) auto

lemma build_object:
  assumes "\<And>m tasks built. m \<in> set fields' \<Longrightarrow>
    build_loop node order (BEnter (snd m) # tasks) built = build_loop node order tasks (tj (snd m) # built)"
  shows "build_loop node order (node_object order fields' @ tasks) built
     = build_loop node order tasks (fields_json order tj fields' # built)"
proof -
  let ?ms = "ordered order fields'"
  show ?thesis
    using build_each [of ?ms node order "\<lambda>m. BEnter (snd m)" "\<lambda>m. tj (snd m)" "BObject (map fst ?ms) # tasks" built] assms
    by (simp add: node_object_def Let_def split_beta build_steps fields_json_def ordered_map zip_fields)
qed

lemma build_sort_task:
  fixes node :: "'s \<Rightarrow> 's pattern_node"
  shows "build_loop node order (BEnter (EncSort s) # tasks) built = build_loop node order tasks (sort_json order s # built)"
proof (induction "size s" arbitrary: s tasks built rule: less_induct)
  case (less s)
  have "build_loop node order (node_object order (sort_fields s) @ tasks) built
      = build_loop node order tasks (fields_json order (task_json (sort_json order) (\<lambda>_ :: 's. JNull)) (sort_fields s) # built)"
  proof (rule build_object)
    fix m :: "str \<times> 's encode_task" and tasks and built :: "json_node list"
    assume m: "m \<in> set (sort_fields s)"
    then have IH: "build_loop node order (BEnter (EncSort t) # tasks) built
        = build_loop node order tasks (sort_json order t # built)" if "t \<in> set (task_sorts (snd m))" for t tasks built
      using sort_fields_smaller less that by blast
    show "build_loop node order (BEnter (snd m) # tasks) built
        = build_loop node order tasks (task_json (sort_json order) (\<lambda>_. JNull) (snd m) # built)"
      using IH build_array [of "task_sorts (snd m)" node order "\<lambda>s. BEnter (EncSort s)" "sort_json order" tasks built]
        m by (cases s) (auto simp: build_steps(2))
  qed
  then show ?case by (simp add: build_steps(2) sort_json_fields [symmetric])
qed

text \<open>Any field of a node.\<close>

lemma build_task:
  assumes "node_task t"
    and "\<And>p tasks built. p \<in> set (task_sources t) \<Longrightarrow>
      build_loop node order (BEnter (EncPattern p) # tasks) built = build_loop node order tasks (pj p # built)"
  shows "build_loop node order (BEnter t # tasks) built
     = build_loop node order tasks (task_json (sort_json order) pj t # built)"
proof (cases t)
  case (EncPattern p)
  then show ?thesis using assms(2) [of p] by simp
next
  case (EncSort s)
  then show ?thesis by (simp add: build_sort_task)
next
  case (EncPatternArray ps)
  then show ?thesis
    using build_array [of ps node order "\<lambda>p. BEnter (EncPattern p)" pj tasks built] assms(2)
    by (simp add: build_steps(2) [of node order "EncPatternArray ps"])
next
  case (EncSortArray ss)
  then show ?thesis
    using build_array [of ss node order "\<lambda>s. BEnter (EncSort s)" "sort_json order" tasks built, OF build_sort_task]
    by (simp add: build_steps(2) [of node order "EncSortArray ss"])
qed (use assms(1) in \<open>auto simp: build_steps(2)\<close>)

context pattern_source
begin

lemma pattern_json_denote:
  "pattern_json order (denote s)
     = fields_json order (task_json (sort_json order) (\<lambda>s. pattern_json order (denote s))) (pattern_fields (node s))"
  by (simp add: pattern_json.simps [of order "denote s"] node_of_denote pattern_fields_map fields_json_def
      task_json_map o_def)

lemma build_pattern_task:
  "build_loop node order (BEnter (EncPattern s) # tasks) built
     = build_loop node order tasks (pattern_json order (denote s) # built)"
proof (induction s arbitrary: tasks built rule: source_induct)
  case (node s)
  let ?tj = "task_json (sort_json order) (\<lambda>s. pattern_json order (denote s))"
  have "build_loop node order (node_object order (pattern_fields (node s)) @ tasks) built
      = build_loop node order tasks (fields_json order ?tj (pattern_fields (node s)) # built)"
  proof (rule build_object)
    fix m tasks and built :: "json_node list"
    assume m: "m \<in> set (pattern_fields (node s))"
    show "build_loop node order (BEnter (snd m) # tasks) built = build_loop node order tasks (?tj (snd m) # built)"
      by (rule build_task [OF pattern_fields_tasks [OF m] node [OF field_source [OF m]]])
  qed
  then show ?case by (simp add: build_steps(2) pattern_json_denote [of order s])
qed

lemma source_to_node_denote: "source_to_node node s order = Some (envelope_json order (denote s))"
proof -
  let ?tj = "task_json (sort_json order) (\<lambda>s. pattern_json order (denote s))"
  have "build_loop node order (node_object order (envelope_fields s) @ []) []
      = build_loop node order [] (fields_json order ?tj (envelope_fields s) # [])"
  proof (rule build_object)
    fix m tasks and built :: "json_node list"
    assume m: "m \<in> set (envelope_fields s)"
    show "build_loop node order (BEnter (snd m) # tasks) built = build_loop node order tasks (?tj (snd m) # built)"
      by (rule build_task [OF envelope_tasks [OF m] build_pattern_task])
  qed
  moreover have "fields_json order ?tj (envelope_fields s) = envelope_json order (denote s)"
    by (simp add: fields_json_def envelope_json_def envelope_fields_def)
  ultimately show ?thesis by (simp add: source_to_node_def build_steps)
qed

end

end
