(* ===== verification/Kore_Json_Text.thy ===== *)
theory Kore_Json_Text
  imports Kore_Json
begin

text \<open>
  The direct writer of KORE JSON and the tree agree: \<open>source_to_string\<close> writes the compact text of the
  tree that \<open>to_node_source\<close> builds, and that tree is the one of \<open>to_string\<close> with the members of every
  object ordered by key.
\<close>

section \<open>Documented behaviour of the library\<close>

text \<open>
  Beside \<open>json_laws\<close>: a string of ASCII letters and digits is written without an escape; at most
  nineteen digits that do not start with a zero are a number, since \<open>u64\<close> holds it (longer ones may be
  out of range); and a literal is read as text.
\<close>

definition kore_json_laws :: "json_library \<Rightarrow> bool" where
  "kore_json_laws L \<longleftrightarrow> json_laws L
   \<and> (\<forall>s. list_all is_ascii_alphanumeric s \<longrightarrow> jl_write_string L s = 34 # s @ [34])
   \<and> (\<forall>token. token \<noteq> [] \<and> length token \<le> 19 \<and> list_all is_ascii_digit token \<and> hd token \<noteq> 48 \<longrightarrow>
        jl_number_error L token = None)
   \<and> (\<forall>s t. jl_read_string L s = Inr t \<longrightarrow> valid_str t)"

lemma kore_law:
  assumes "kore_json_laws L"
  shows "json_laws L" "list_all is_ascii_alphanumeric s \<Longrightarrow> jl_write_string L s = 34 # s @ [34]"
    "token \<noteq> [] \<Longrightarrow> length token \<le> 19 \<Longrightarrow> list_all is_ascii_digit token \<Longrightarrow> hd token \<noteq> 48 \<Longrightarrow> jl_number_error L token = None"
    "jl_read_string L s = Inr t \<Longrightarrow> valid_str t"
  using assms by (auto simp: kore_json_laws_def)

lemma sample_kore_laws: "kore_json_laws sample_library"
proof -
  have "concat (map sample_escape s) = s" if "list_all is_ascii_alphanumeric s" for s
    using that by (induction s) (auto simp: sample_escape_def char_class_defs)
  then show ?thesis
    unfolding kore_json_laws_def
    by (intro conjI sample_laws) (auto simp: sample_library_def Let_def split: if_splits)
qed

section \<open>Compact text\<close>

lemma items_text_cong: "(\<And>x. x \<in> set xs \<Longrightarrow> f x = g x) \<Longrightarrow> items_text nl (map f xs) = items_text nl (map g xs)"
  by (rule arg_cong [where f = "items_text nl"]) auto

lemma compact_depth: "json_text L (\<lambda>_. []) colon d n = json_text L (\<lambda>_. []) colon 0 n"
proof (induction n arbitrary: d rule: json_induct)
  case (node n)
  show ?case
  proof (cases n)
    case (JArray elems)
    have "json_text L (\<lambda>_. []) colon d' c = json_text L (\<lambda>_. []) colon 0 c" if "c \<in> set elems" for c d'
      using node [of c] that by (simp add: JArray)
    then have "items_text [] (map (json_text L (\<lambda>_. []) colon (Suc d)) elems)
        = items_text [] (map (json_text L (\<lambda>_. []) colon (Suc 0)) elems)"
      by (intro items_text_cong) metis
    then show ?thesis by (simp add: JArray)
  next
    case (JObject ms)
    have "json_text L (\<lambda>_. []) colon d' (snd m) = json_text L (\<lambda>_. []) colon 0 (snd m)" if "m \<in> set ms" for m d'
      using node [of "snd m"] that by (simp add: JObject)
    then have "items_text [] (map (\<lambda>m. jl_write_string L (fst m) @ colon @ json_text L (\<lambda>_. []) colon (Suc d) (snd m)) ms)
        = items_text [] (map (\<lambda>m. jl_write_string L (fst m) @ colon @ json_text L (\<lambda>_. []) colon (Suc 0) (snd m)) ms)"
      by (intro items_text_cong) metis
    then show ?thesis by (simp add: JObject)
  qed auto
qed

definition compact :: "json_library \<Rightarrow> json_node \<Rightarrow> str" where
  "compact L n = json_text L (\<lambda>_. []) (lit '':'') 0 n"

lemma compact_simps:
  "compact L (JNumber token) = token" "compact L (JString v) = jl_write_string L v"
  "compact L (JArray elems) = lit ''['' @ items_text [] (map (compact L) elems) @ lit '']''"
  "compact L (JObject ms)
     = lit ''{'' @ items_text [] (map (\<lambda>m. jl_write_string L (fst m) @ lit '':'' @ compact L (snd m)) ms) @ lit ''}''"
  by (simp_all add: compact_def compact_depth [of L _ "Suc 0"] cong: map_cong)

section \<open>The direct writer\<close>

lemma string_loop_steps:
  "string_loop L node [] out = Some out"
  "string_loop L node (task # stack) out
     = string_loop L node (snd (string_step L node task) @ stack) (out @ fst (string_step L node task))"
  by (subst string_loop.simps, simp add: split_beta)+

lemma string_loop_text: "string_loop L node (EncText val # stack) out = string_loop L node stack (out @ val)"
  by (simp add: string_loop_steps)

lemma string_static: "string_loop L node (EncStatic val # stack) out = string_loop L node stack (out @ 34 # val @ [34])"
  by (simp add: string_loop_steps)

text \<open>Items with commas between them.\<close>

lemma string_items:
  assumes "\<And>x stack out. x \<in> set xs \<Longrightarrow> string_loop L node (h x @ stack) out = string_loop L node stack (out @ g x)"
  shows "string_loop L node (concat (mark_first (\<lambda>x first. comma first @ h x) xs) @ stack) out
     = string_loop L node stack (out @ items_text [] (map g xs))"
proof (cases xs)
  case (Cons x xs')
  have more: "string_loop L node (concat (map (\<lambda>x. comma False @ h x) ys) @ stack) out
      = string_loop L node stack (out @ concat (map (\<lambda>t. lit '','' @ t) (map g ys)))" if "set ys \<subseteq> set xs" for ys out
    using that by (induction ys arbitrary: out) (auto simp: comma_def string_loop_text assms)
  show ?thesis
    using more [of xs' "out @ g x"] assms [of x] by (simp add: Cons comma_def o_def subset_insertI)
qed simp

lemma string_array:
  assumes "\<And>x stack out. x \<in> set xs \<Longrightarrow> string_loop L node (f x # stack) out = string_loop L node stack (out @ compact L (g x))"
  shows "string_loop L node (array_tasks f xs @ stack) out = string_loop L node stack (out @ compact L (JArray (map g xs)))"
  using string_items [of xs L node "\<lambda>x. [f x]" "\<lambda>x. compact L (g x)" "EncText (lit '']'') # stack" "out @ lit ''[''"] assms
  by (simp add: array_tasks_def string_loop_text compact_simps o_def)

lemma string_object:
  assumes "\<And>m. m \<in> set fields' \<Longrightarrow> jl_write_string L (fst m) = 34 # fst m @ [34]"
    and "\<And>m stack out. m \<in> set fields' \<Longrightarrow>
      string_loop L node (snd m # stack) out = string_loop L node stack (out @ compact L (tj (snd m)))"
  shows "string_loop L node (object_tasks fields' @ stack) out
     = string_loop L node stack (out @ compact L (fields_json Key tj fields'))"
proof -
  let ?h = "\<lambda>m. [EncStatic (fst m), EncText (lit '':''), snd m]"
  let ?g = "\<lambda>m. jl_write_string L (fst m) @ lit '':'' @ compact L (tj (snd m))"
  have "string_loop L node (concat (mark_first (\<lambda>m first. comma first @ ?h m) (by_key fields')) @ EncText (lit ''}'') # stack)
        (out @ lit ''{'')
      = string_loop L node (EncText (lit ''}'') # stack) ((out @ lit ''{'') @ items_text [] (map ?g (by_key fields')))"
    using assms by (intro string_items) (simp add: string_loop_text string_static)
  moreover have "fields_json Key tj fields' = JObject (map (\<lambda>m. (fst m, tj (snd m))) (by_key fields'))"
    by (simp add: fields_json_def ordered_map) (simp add: ordered_def)
  ultimately show ?thesis
    by (simp add: object_tasks_def string_loop_text compact_simps split_beta o_def)
qed

text \<open>The keys and the constants are letters.\<close>

fun plain_field :: "str \<times> 's encode_task \<Rightarrow> bool" where
  "plain_field (key, task) \<longleftrightarrow> list_all is_ascii_alphanumeric key \<and> node_task task
     \<and> (case task of EncStatic val \<Rightarrow> list_all is_ascii_alphanumeric val | _ \<Rightarrow> True)"

lemma plain_fields:
  fixes m :: "str \<times> 's encode_task"
  shows "m \<in> set (sort_fields srt) \<Longrightarrow> plain_field m" "m \<in> set (pattern_fields nd) \<Longrightarrow> plain_field m"
  "m \<in> set (envelope_fields s) \<Longrightarrow> plain_field m"
proof -
  show "m \<in> set (sort_fields srt) \<Longrightarrow> plain_field m"
    by (cases srt) (auto simp: char_class_defs)
  show "m \<in> set (pattern_fields nd) \<Longrightarrow> plain_field m"
    by (cases nd) (auto simp: variable_tasks_def symbol_tasks_def char_class_defs)
  show "m \<in> set (envelope_fields s) \<Longrightarrow> plain_field m"
    by (auto simp: envelope_fields_def FORMAT_def char_class_defs)
qed

lemma plain_key: "kore_json_laws L \<Longrightarrow> plain_field m \<Longrightarrow> jl_write_string L (fst m) = 34 # fst m @ [34]"
  by (cases m) (auto dest: kore_law)

lemma plain_node: "plain_field m \<Longrightarrow> node_task (snd m)"
  by (cases m) auto

lemma string_sort_task:
  fixes node :: "'s \<Rightarrow> 's pattern_node"
  assumes "kore_json_laws L"
  shows "string_loop L node (EncSort s # stack) out = string_loop L node stack (out @ compact L (sort_json Key s))"
proof (induction "size s" arbitrary: s stack out rule: less_induct)
  case (less s)
  have "string_loop L node (object_tasks (sort_fields s) @ stack) out
      = string_loop L node stack (out @ compact L
          (fields_json Key (task_json (sort_json Key) (\<lambda>_ :: 's. JNull)) (sort_fields s)))"
  proof (rule string_object)
    fix m :: "str \<times> 's encode_task" and stack out
    assume m: "m \<in> set (sort_fields s)"
    then show "jl_write_string L (fst m) = 34 # fst m @ [34]" by (intro plain_key [OF assms] plain_fields)
    have IH: "string_loop L node (EncSort t # stack) out = string_loop L node stack (out @ compact L (sort_json Key t))"
      if "t \<in> set (task_sorts (snd m))" for t stack out
      using m sort_fields_smaller less that by blast
    show "string_loop L node (snd m # stack) out
        = string_loop L node stack (out @ compact L (task_json (sort_json Key) (\<lambda>_. JNull) (snd m)))"
      using IH string_array [of "task_sorts (snd m)" L node EncSort "sort_json Key" stack out] m
        kore_law(2) [OF assms] plain_fields(1) [OF m]
      by (cases s) (auto simp: string_loop_steps(2) compact_simps)
  qed
  then show ?case by (simp add: string_loop_steps(2) sort_json_fields [symmetric])
qed

lemma string_task:
  assumes "kore_json_laws L" and "plain_field (key, t)"
    and "\<And>p stack out. p \<in> set (task_sources t) \<Longrightarrow>
      string_loop L node (EncPattern p # stack) out = string_loop L node stack (out @ compact L (pj p))"
  shows "string_loop L node (t # stack) out
     = string_loop L node stack (out @ compact L (task_json (sort_json Key) pj t))"
proof (cases t)
  case (EncStatic val)
  then show ?thesis using assms(2) kore_law(2) [OF assms(1)] by (simp add: string_static compact_simps)
next
  case (EncPattern p)
  then show ?thesis using assms(3) [of p] by simp
next
  case (EncSort s)
  then show ?thesis by (simp add: string_sort_task [OF assms(1)])
next
  case (EncPatternArray ps)
  then show ?thesis
    using string_array [of ps L node EncPattern pj stack out] assms(3)
    by (simp add: string_loop_steps(2) [of L node "EncPatternArray ps"])
next
  case (EncSortArray ss)
  then show ?thesis
    using string_array [of ss L node EncSort "sort_json Key" stack out, OF string_sort_task [OF assms(1)]]
    by (simp add: string_loop_steps(2) [of L node "EncSortArray ss"])
qed (use assms(2) in \<open>auto simp: string_loop_steps(2) compact_simps\<close>)

context pattern_source
begin

lemma string_pattern_task:
  assumes "kore_json_laws L"
  shows "string_loop L node (EncPattern s # stack) out
     = string_loop L node stack (out @ compact L (pattern_json Key (denote s)))"
proof (induction s arbitrary: stack out rule: source_induct)
  case (node s)
  let ?tj = "task_json (sort_json Key) (\<lambda>s. pattern_json Key (denote s))"
  have "string_loop L node (object_tasks (pattern_fields (node s)) @ stack) out
      = string_loop L node stack (out @ compact L (fields_json Key ?tj (pattern_fields (node s))))"
  proof (rule string_object)
    fix m stack out
    assume m: "m \<in> set (pattern_fields (node s))"
    then show "jl_write_string L (fst m) = 34 # fst m @ [34]" by (intro plain_key [OF assms] plain_fields)
    have "plain_field (fst m, snd m)" using plain_fields(2) [OF m] by simp
    then show "string_loop L node (snd m # stack) out = string_loop L node stack (out @ compact L (?tj (snd m)))"
      by (rule string_task [OF assms]) (rule node [OF field_source [OF m]])
  qed
  then show ?case by (simp add: string_loop_steps(2) pattern_json_denote [of Key s])
qed

lemma source_to_string_denote:
  assumes "kore_json_laws L"
  shows "source_to_string L node s = Some (compact L (envelope_json Key (denote s)))"
proof -
  let ?tj = "task_json (sort_json Key) (\<lambda>s. pattern_json Key (denote s))"
  have "string_loop L node (object_tasks (envelope_fields s) @ []) []
      = string_loop L node [] ([] @ compact L (fields_json Key ?tj (envelope_fields s)))"
  proof (rule string_object)
    fix m stack out
    assume m: "m \<in> set (envelope_fields s)"
    then show "jl_write_string L (fst m) = 34 # fst m @ [34]" by (intro plain_key [OF assms] plain_fields)
    have "plain_field (fst m, snd m)" using plain_fields(3) [OF m] by simp
    then show "string_loop L node (snd m # stack) out = string_loop L node stack (out @ compact L (?tj (snd m)))"
      by (rule string_task [OF assms]) (rule string_pattern_task [OF assms])
  qed
  moreover have "fields_json Key ?tj (envelope_fields s) = envelope_json Key (denote s)"
    by (simp add: fields_json_def envelope_json_def envelope_fields_def)
  ultimately show ?thesis by (simp add: source_to_string_def string_loop_steps)
qed

end

section \<open>Ordering the members\<close>

text \<open>A tree with the members of every object ordered by key.\<close>

function key_ordered :: "json_node \<Rightarrow> json_node" where
  "key_ordered n =
     (case n of
        JArray elems \<Rightarrow> JArray (map key_ordered elems)
      | JObject ms \<Rightarrow> JObject (by_key (map (\<lambda>m. (fst m, key_ordered (snd m))) ms))
      | _ \<Rightarrow> n)"
  by pat_completeness auto
termination
proof (relation "measure size")
  show "(snd m, n) \<in> measure size" if "n = JObject ms" "m \<in> set ms" for n ms and m :: "str \<times> json_node"
    using that json_children_size [of "snd m" n] by simp
qed (auto dest: json_children_size [of _ "JArray _", simplified])

declare key_ordered.simps [simp del]

lemma key_ordered_iff [simp]:
  "key_ordered JNull = JNull" "key_ordered (JBool b) = JBool b" "key_ordered (JNumber token) = JNumber token"
  "key_ordered (JString v) = JString v" "key_ordered (JArray elems) = JArray (map key_ordered elems)"
  "key_ordered (JObject ms) = JObject (by_key (map (\<lambda>m. (fst m, key_ordered (snd m))) ms))"
  by (subst key_ordered.simps; simp)+

lemma key_ordered_task:
  assumes "\<And>s. s \<in> set (task_sorts t) \<Longrightarrow> key_ordered (sj s) = sj' s"
    and "\<And>p. p \<in> set (task_sources t) \<Longrightarrow> key_ordered (pj p) = pj' p"
  shows "key_ordered (task_json sj pj t) = task_json sj' pj' t"
  using assms by (cases t) auto

lemma key_ordered_fields:
  assumes "\<And>m. m \<in> set fields' \<Longrightarrow> key_ordered (tj (snd m)) = tj' (snd m)"
  shows "key_ordered (fields_json Schema tj fields') = fields_json Key tj' fields'"
  using assms by (auto simp: fields_json_def ordered_def o_def intro!: arg_cong [where f = by_key])

lemma key_ordered_sort: "key_ordered (sort_json Schema s) = sort_json Key s"
proof (induction "size s" arbitrary: s rule: less_induct)
  case (less s)
  show ?case
    unfolding sort_json.simps [of _ s]
    by (intro key_ordered_fields key_ordered_task) (auto intro!: less dest: sort_fields_smaller)
qed

lemma key_ordered_pattern: "key_ordered (pattern_json Schema p) = pattern_json Key p"
proof (induction p rule: owned.source_induct)
  case (node p)
  show ?case
    unfolding pattern_json.simps [of _ p]
    by (intro key_ordered_fields key_ordered_task key_ordered_sort) (auto intro!: node dest: field_source)
qed

lemma key_ordered_envelope: "key_ordered (envelope_json Schema p) = envelope_json Key p"
  unfolding envelope_json_def
  by (intro key_ordered_fields key_ordered_task key_ordered_sort key_ordered_pattern)

text \<open>A library whose objects order their members by key makes the same value of both trees.\<close>

lemma collect_options_None_iff: "collect_options f xs = None \<longleftrightarrow> (\<exists>x \<in> set xs. f x = None)"
  by (induction xs) (auto split: option.splits)

lemma value_object:
  assumes "\<And>ms. vb_object B (by_key ms) = vb_object B ms"
  shows "json_value B (JObject (by_key ms)) = json_value B (JObject ms)"
proof (cases "\<exists>m \<in> set ms. json_value B (snd m) = None")
  case True
  then have "collect_options (json_value B) (map snd (by_key ms)) = None" "collect_options (json_value B) (map snd ms) = None"
    by (auto simp del: collect_options_map simp: collect_options_None_iff)
  then show ?thesis by (simp add: json_value.simps [of B "JObject _"])
next
  case False
  then have "collect_options (json_value B) (map snd ks) = Some (map (\<lambda>m. the (json_value B (snd m))) ks)"
    if "set ks = set ms" for ks
    using that False by (fastforce simp: collect_options_Some_iff)
  from this [of ms] this [of "by_key ms"] show ?thesis
    using assms [of "map (\<lambda>m. (fst m, the (json_value B (snd m)))) ms"]
      by_key_map [of "\<lambda>n. the (json_value B n)" ms]
    by (simp add: json_value.simps [of B "JObject _"] zip_fields [of _ "\<lambda>n. the (json_value B n)"])
qed

lemma value_key_ordered:
  assumes "\<And>ms. vb_object B (by_key ms) = vb_object B ms"
  shows "json_value B (key_ordered n) = json_value B n"
proof (induction n rule: json_induct)
  case (node n)
  show ?case
  proof (cases n)
    case (JArray elems)
    then have "collect_options (\<lambda>c. json_value B (key_ordered c)) elems = collect_options (json_value B) elems"
      using node by (intro collect_options_cong) auto
    then show ?thesis by (simp add: JArray json_value.simps [of B "JArray _"])
  next
    case (JObject ms)
    then have "collect_options (\<lambda>m. json_value B (key_ordered (snd m))) ms = collect_options (\<lambda>m. json_value B (snd m)) ms"
      using node by (intro collect_options_cong) auto
    then have "json_value B (JObject (map (\<lambda>m. (fst m, key_ordered (snd m))) ms)) = json_value B (JObject ms)"
      by (simp add: json_value.simps [of B "JObject _"] o_def)
    then show ?thesis using value_object [OF assms] by (simp add: JObject)
  qed auto
qed

text \<open>C28: For every pattern source, the tree that \<open>to_node_source\<close> builds is the tree of the envelope with the
  members of every object ordered by key, the direct writer writes its compact text, and
  \<open>to_value_source\<close> makes the same value of the tree in schema order, as a value's objects order
  their members. None of them meets an unreachable state.\<close>

theorem kore_json_writers_agree:
  assumes "\<And>s. denote s = into_pattern (map_pattern_node denote (node s))"
    and "kore_json_laws L" and "\<And>ms. vb_object B (by_key ms) = vb_object B ms"
  shows "\<exists>n text. source_to_node node s Schema = Some n
    \<and> to_node_source node s = Some (key_ordered n)
    \<and> source_to_string L node s = Some text \<and> json_to_string L (key_ordered n) False = Some text
    \<and> to_value_source B node s = into_value B (key_ordered n)"
proof -
  have src: "pattern_source node denote" using assms(1) by unfold_locales
  let ?n = "envelope_json Schema (denote s)"
  have "source_to_node node s Schema = Some ?n" "to_node_source node s = Some (key_ordered ?n)"
    "source_to_string L node s = Some (compact L (key_ordered ?n))"
    using pattern_source.source_to_node_denote [OF src] pattern_source.source_to_string_denote [OF src assms(2)]
    by (simp_all add: to_node_source_def key_ordered_envelope)
  moreover have "json_to_string L (key_ordered ?n) False = Some (compact L (key_ordered ?n))"
    using json_to_string_text [OF kore_law(1) [OF assms(2)]] by (simp add: text_of_json_def compact_def)
  moreover have "to_value_source B node s = into_value B (key_ordered ?n)"
    using calculation(1) value_key_ordered [OF assms(3)] by (simp add: to_value_source_def into_value_eq)
  ultimately show ?thesis by blast
qed

text \<open>A value that is its number of nodes.\<close>

definition counting_values :: "nat value_builder" where
  "counting_values = \<lparr>vb_null = 1, vb_bool = (\<lambda>_. 1), vb_number = (\<lambda>_. Some 1), vb_string = (\<lambda>_. 1),
     vb_array = (\<lambda>vs. Suc (sum_list vs)), vb_object = (\<lambda>ms. Suc (sum_list (map snd ms)))\<rparr>"

theorem kore_json_writers_agree_witness:
  "\<exists>n text. source_to_node shared_node 2 Schema = Some n
    \<and> to_node_source shared_node 2 = Some (key_ordered n)
    \<and> source_to_string sample_library shared_node 2 = Some text
    \<and> json_to_string sample_library (key_ordered n) False = Some text
    \<and> to_value_source counting_values shared_node 2 = into_value counting_values (key_ordered n)"
proof (rule kore_json_writers_agree [OF shared_pattern_node sample_kore_laws])
  show "vb_object counting_values (by_key ms) = vb_object counting_values ms" for ms
  proof -
    have "mset (map snd (by_key ms)) = mset (map snd ms)" by (simp add: mset_by_key)
    then have "sum_list (map snd (by_key ms)) = sum_list (map snd ms)" by (metis sum_mset_sum_list)
    then show ?thesis by (simp add: counting_values_def)
  qed
qed

end
