(* ===== verification/Kore_Json_Reader.thy ===== *)
theory Kore_Json_Reader
  imports Kore_Json_Text Json_Safety
begin

text \<open>
  Reading KORE JSON (\<open>kore/json.rs\<close>): the fields of an object and how they are taken, the heads of
  sorts and patterns with their errors, the two loops over explicit frames, and \<open>from_str\<close>. A failed
  \<open>expect\<close> is \<open>JPanicked\<close>.
\<close>

section \<open>Errors\<close>

datatype kore_json_error =
    JSyntax nat nat str
  | JShape str
  | JLexical str str "problem list"
  | JUnsupportedFormat str
  | JUnsupportedVersion nat
  | JEmptyAssociativeApplication
  | JEmptyMultiOr
  | JPanicked

text \<open>\<open>From<json_tree::Error>\<close>.\<close>

fun syntax_error :: "json_fault \<Rightarrow> kore_json_error" where
  "syntax_error (JsonError line column message) = JSyntax line column message"
| "syntax_error JsonPanic = JPanicked"

abbreviation shape_error :: "str \<Rightarrow> kore_json_error + 'a" where
  "shape_error message \<equiv> Inl (JShape message)"

section \<open>Fields\<close>

type_synonym json_fields = "(str \<times> json_node) list"

definition new_fields :: "json_node \<Rightarrow> kore_json_error + json_fields" where
  "new_fields n =
     (case into_object n of
        Some members \<Rightarrow> Inr members
      | None \<Rightarrow> shape_error (lit ''invalid type: '' @ node_kind n @ lit '', expected an object''))"

fun position :: "('a \<Rightarrow> bool) \<Rightarrow> 'a list \<Rightarrow> nat option" where
  "position P [] = None"
| "position P (x # xs) = (if P x then Some 0 else map_option Suc (position P xs))"

text \<open>\<open>Vec::swap_remove\<close>: the last element takes the place of the removed one.\<close>

definition swap_remove :: "nat \<Rightarrow> 'a list \<Rightarrow> 'a list" where
  "swap_remove i xs = butlast (xs[i := last xs])"

definition take_field :: "str \<Rightarrow> json_fields \<Rightarrow> json_node option \<times> json_fields" where
  "take_field name fs =
     (case position (\<lambda>m. fst m = name) fs of
        None \<Rightarrow> (None, fs)
      | Some i \<Rightarrow> (Some (snd (fs ! i)), swap_remove i fs))"

definition required :: "str \<Rightarrow> json_fields \<Rightarrow> kore_json_error + (json_node \<times> json_fields)" where
  "required name fs =
     (case take_field name fs of
        (Some n, fs) \<Rightarrow> Inr (n, fs)
      | (None, fs) \<Rightarrow> shape_error (lit ''missing field `'' @ name @ lit ''`''))"

definition expect_string :: "json_node \<Rightarrow> str \<Rightarrow> kore_json_error + str" where
  "expect_string n field =
     (case into_string n of
        Some s \<Rightarrow> Inr s
      | None \<Rightarrow> shape_error (lit ''invalid type: '' @ node_kind n @ lit '', expected a string for field `'' @ field @ lit ''`''))"

definition expect_array :: "json_node \<Rightarrow> str \<Rightarrow> kore_json_error + json_node list" where
  "expect_array n field =
     (case into_array n of
        Some elems \<Rightarrow> Inr elems
      | None \<Rightarrow> shape_error (lit ''invalid type: '' @ node_kind n @ lit '', expected an array for field `'' @ field @ lit ''`''))"

definition expect_u32 :: "json_node \<Rightarrow> str \<Rightarrow> kore_json_error + nat" where
  "expect_u32 n field =
     (case n of
        JNumber token \<Rightarrow>
          (case parse_u32 token of
             Some val \<Rightarrow> Inr val
           | None \<Rightarrow> shape_error (lit ''invalid value: '' @ token @ lit '', expected u32 for field `'' @ field @ lit ''`''))
      | _ \<Rightarrow> shape_error (lit ''invalid type: '' @ node_kind n @ lit '', expected u32 for field `'' @ field @ lit ''`''))"

definition string_field :: "str \<Rightarrow> json_fields \<Rightarrow> kore_json_error + (str \<times> json_fields)" where
  "string_field name fs =
     and_then (required name fs) (\<lambda>(n, fs). and_then (expect_string n name) (\<lambda>s. Inr (s, fs)))"

definition array_field :: "str \<Rightarrow> json_fields \<Rightarrow> kore_json_error + (json_node list \<times> json_fields)" where
  "array_field name fs =
     and_then (required name fs) (\<lambda>(n, fs). and_then (expect_array n name) (\<lambda>elems. Inr (elems, fs)))"

definition finish_fields :: "json_fields \<Rightarrow> kore_json_error + unit" where
  "finish_fields fs =
     (case fs of
        (name, _) # _ \<Rightarrow> shape_error (lit ''unknown field `'' @ name @ lit ''`'')
      | [] \<Rightarrow> Inr ())"

definition require_lexical :: "str \<Rightarrow> str \<Rightarrow> problem list \<Rightarrow> kore_json_error + unit" where
  "require_lexical kind text problems =
     (if problems = [] then Inr () else Inl (JLexical kind text problems))"

subsection \<open>What is taken leaves the object\<close>

definition fields_weight :: "json_fields \<Rightarrow> nat" where
  "fields_weight fs = sum_list (map (\<lambda>m. json_nodes (snd m)) fs)"

lemma position_Some: "position P xs = Some i \<Longrightarrow> i < length xs \<and> P (xs ! i) \<and> (\<forall>j < i. \<not> P (xs ! j))"
proof (induction xs arbitrary: i)
  case (Cons x xs)
  show ?case
  proof (cases "P x")
    case False
    then obtain k where "position P xs = Some k" "i = Suc k" using Cons.prems by auto
    then show ?thesis using Cons.IH [of k] False by (auto simp: less_Suc_eq_0_disj)
  qed (use Cons.prems in auto)
qed simp

lemma position_None: "position P xs = None \<longleftrightarrow> (\<forall>x \<in> set xs. \<not> P x)"
  by (induction xs) auto

lemma mset_swap_remove:
  assumes "i < length xs"
  shows "add_mset (xs ! i) (mset (swap_remove i xs)) = mset xs"
proof -
  let ?ys = "xs[i := last xs]"
  have "?ys \<noteq> []" using assms by auto
  then have "mset ?ys = add_mset (last ?ys) (mset (butlast ?ys))"
    by (cases ?ys rule: rev_cases) auto
  moreover have "last ?ys = last xs" using assms by (cases "xs = []") (auto simp: last_list_update)
  moreover have "mset ?ys = add_mset (last xs) (mset xs - {# xs ! i #})" using assms by (rule mset_update)
  ultimately have "mset (butlast ?ys) = mset xs - {# xs ! i #}" by simp
  then show ?thesis using assms by (simp add: swap_remove_def)
qed

lemma take_field_Some:
  assumes "take_field name fs = (Some n, fs')"
  shows "add_mset (name, n) (mset fs') = mset fs"
proof -
  obtain i where i: "position (\<lambda>m. fst m = name) fs = Some i" "n = snd (fs ! i)" "fs' = swap_remove i fs"
    using assms by (auto simp: take_field_def split: option.splits)
  then have "fs ! i = (name, n)" "i < length fs" using position_Some [OF i(1)] by (auto simp: prod_eq_iff)
  then show ?thesis using mset_swap_remove [of i fs] i(3) by simp
qed

lemma take_field_None: "take_field name fs = (None, fs') \<Longrightarrow> fs' = fs \<and> name \<notin> fst ` set fs"
  by (auto simp: take_field_def position_None split: option.splits)

lemma fields_weight_mset: "fields_weight fs = sum_mset (image_mset (\<lambda>m. json_nodes (snd m)) (mset fs))"
  by (simp add: fields_weight_def sum_mset_sum_list [symmetric])

lemma take_field_weight: "take_field name fs = (Some n, fs') \<Longrightarrow> json_nodes n + fields_weight fs' = fields_weight fs"
  unfolding fields_weight_mset take_field_Some [symmetric] by simp

lemma required_weight: "required name fs = Inr (n, fs') \<Longrightarrow> json_nodes n + fields_weight fs' = fields_weight fs"
  by (auto simp: required_def dest: take_field_weight split: prod.splits option.splits)

lemma string_field_weight:
  assumes "string_field name fs = Inr (s, fs')"
  shows "fields_weight fs' < fields_weight fs"
proof -
  obtain n where "required name fs = Inr (n, fs')"
    using assms by (auto simp: string_field_def elim!: and_thenE)
  then show ?thesis using required_weight [of name fs n fs'] json_nodes_pos [of n] by simp
qed

lemma array_field_weight:
  "array_field name fs = Inr (elems, fs') \<Longrightarrow> sum_list (map json_nodes elems) + fields_weight fs' < fields_weight fs"
  by (auto simp: array_field_def expect_array_def elim!: and_thenE into_array.elims dest!: required_weight
      split: option.splits simp: json_nodes.simps [of "JArray _"])

lemma new_fields_weight: "new_fields n = Inr fs \<Longrightarrow> fields_weight fs < json_nodes n"
  by (auto simp: new_fields_def fields_weight_def elim!: into_object.elims split: option.splits
      simp: json_nodes.simps [of "JObject _"] o_def)

section \<open>Sorts\<close>

datatype json_sort_head = SortVariableHead str | SortApplicationHead str

definition sort_head :: "json_node \<Rightarrow> kore_json_error + (json_sort_head \<times> json_node list)" where
  "sort_head n =
     and_then (new_fields n) (\<lambda>fs.
     and_then (string_field (lit ''tag'') fs) (\<lambda>(tag, fs).
     and_then
       (if tag = lit ''SortVar'' then
          and_then (string_field (lit ''name'') fs) (\<lambda>(name, fs). Inr ((SortVariableHead name, []), fs))
        else if tag = lit ''SortApp'' then
          and_then (string_field (lit ''name'') fs) (\<lambda>(name, fs).
          and_then (array_field (lit ''args'') fs) (\<lambda>(args, fs). Inr ((SortApplicationHead name, args), fs)))
        else shape_error (lit ''unknown variant `'' @ tag @ lit ''`, expected `SortVar` or `SortApp`''))
       (\<lambda>(result, fs).
     and_then (finish_fields fs) (\<lambda>_. Inr result))))"

record json_sort_frame =
  jsf_head :: json_sort_head
  jsf_remaining :: "json_node list"
  jsf_built :: "sort list"

definition new_sort_frame :: "json_node \<Rightarrow> kore_json_error + json_sort_frame" where
  "new_sort_frame n =
     and_then (sort_head n) (\<lambda>(head, children).
       Inr \<lparr>jsf_head = head, jsf_remaining = children, jsf_built = []\<rparr>)"

definition finish_sort_frame :: "json_sort_frame \<Rightarrow> sort" where
  "finish_sort_frame f =
     (case jsf_head f of
        SortVariableHead name \<Rightarrow> SortVariable name
      | SortApplicationHead name \<Rightarrow> SortApplication name (jsf_built f))"

definition sort_frame_weight :: "json_sort_frame \<Rightarrow> nat" where
  "sort_frame_weight f = Suc (sum_list (map json_nodes (jsf_remaining f)))"

lemma sort_head_weight: "sort_head n = Inr (head, cs) \<Longrightarrow> Suc (sum_list (map json_nodes cs)) < json_nodes n"
  unfolding sort_head_def
  by (auto elim!: and_thenE split: if_splits dest!: new_fields_weight string_field_weight array_field_weight)

lemma new_sort_frame_weight: "new_sort_frame n = Inr f \<Longrightarrow> sort_frame_weight f < json_nodes n"
  by (auto simp: new_sort_frame_def sort_frame_weight_def elim!: and_thenE dest: sort_head_weight)

function build_sort_loop :: "json_sort_frame list \<Rightarrow> kore_json_error + sort" where
  "build_sort_loop stack =
     (case stack of
        [] \<Rightarrow> Inl JPanicked
      | frame # stack \<Rightarrow>
          (case jsf_remaining frame of
             child # rest \<Rightarrow>
               and_then (new_sort_frame child) (\<lambda>f. build_sort_loop (f # frame\<lparr>jsf_remaining := rest\<rparr> # stack))
           | [] \<Rightarrow>
               (let s = finish_sort_frame frame
                in case stack of
                     [] \<Rightarrow> Inr s
                   | parent # stack \<Rightarrow> build_sort_loop (parent\<lparr>jsf_built := jsf_built parent @ [s]\<rparr> # stack))))"
  by pat_completeness auto
termination
  by (relation "measure (\<lambda>stack. sum_list (map sort_frame_weight stack))")
    (auto simp: sort_frame_weight_def dest: new_sort_frame_weight)

declare build_sort_loop.simps [simp del]

definition build_sort :: "json_node \<Rightarrow> kore_json_error + sort" where
  "build_sort root = and_then (new_sort_frame root) (\<lambda>f. build_sort_loop [f])"

definition sort_field :: "str \<Rightarrow> json_fields \<Rightarrow> kore_json_error + (sort \<times> json_fields)" where
  "sort_field name fs =
     and_then (required name fs) (\<lambda>(n, fs). and_then (build_sort n) (\<lambda>s. Inr (s, fs)))"

lemma sort_field_weight:
  assumes "sort_field name fs = Inr (s, fs')"
  shows "fields_weight fs' < fields_weight fs"
proof -
  obtain n where "required name fs = Inr (n, fs')"
    using assms by (auto simp: sort_field_def elim!: and_thenE)
  then show ?thesis using required_weight [of name fs n fs'] json_nodes_pos [of n] by simp
qed

section \<open>Pattern heads\<close>

datatype left_right = JLeft | JRight

datatype json_pattern_head =
    HeadString str
  | HeadVariable variable
  | HeadApplication symbol
  | HeadTop sort
  | HeadBottom sort
  | HeadAnd sort
  | HeadOr sort
  | HeadNot sort
  | HeadNext sort
  | HeadImplies sort
  | HeadIff sort
  | HeadRewrites sort
  | HeadExists sort variable
  | HeadForall sort variable
  | HeadMu variable
  | HeadNu variable
  | HeadCeil sort sort
  | HeadFloor sort sort
  | HeadEquals sort sort
  | HeadIn sort sort
  | HeadDomainValue sort str
  | HeadMultiOr left_right sort
  | HeadAssociative associativity symbol

text \<open>The payload of a JSON string; \<open>None\<close> is the failed \<open>expect\<close>.\<close>

definition json_string_bytes :: "str \<Rightarrow> literal_encoding \<Rightarrow> kore_string option" where
  "json_string_bytes val enc =
     (case enc of
        Utf8 \<Rightarrow> Some (str_bytes val)
      | Bytes \<Rightarrow> collect_options (\<lambda>c. if c < 256 then Some (byte_of c) else None) val)"

definition json_symbol :: "str \<Rightarrow> json_node list \<Rightarrow> kore_json_error + symbol" where
  "json_symbol name sorts =
     and_then (collect_results build_sort sorts) (\<lambda>ss. Inr \<lparr>symbol_name = name, sort_parameters = ss\<rparr>)"

type_synonym head_result = "kore_json_error + ((json_pattern_head \<times> json_node list) \<times> json_fields)"

definition variable_head :: "variable_kind \<Rightarrow> json_fields \<Rightarrow> head_result" where
  "variable_head kind fs =
     and_then (string_field (lit ''name'') fs) (\<lambda>(name, fs).
     and_then
       (require_lexical (if kind = Element then lit ''element variable'' else lit ''set variable'') name
         (if kind = Element then identifier_problems name else set_variable_problems name)) (\<lambda>_.
     and_then (sort_field (lit ''sort'') fs) (\<lambda>(s, fs).
       Inr ((HeadVariable \<lparr>var_kind = kind, var_name = name, var_sort = s\<rparr>, []), fs))))"

definition application_head :: "json_fields \<Rightarrow> head_result" where
  "application_head fs =
     and_then (string_field (lit ''name'') fs) (\<lambda>(name, fs).
     and_then (require_lexical (lit ''app symbol'') name (symbol_problems name)) (\<lambda>_.
     and_then (array_field (lit ''sorts'') fs) (\<lambda>(sorts, fs).
     and_then (json_symbol name sorts) (\<lambda>symb.
     and_then (array_field (lit ''args'') fs) (\<lambda>(args, fs). Inr ((HeadApplication symb, args), fs))))))"

definition constant_head :: "(sort \<Rightarrow> json_pattern_head) \<Rightarrow> json_fields \<Rightarrow> head_result" where
  "constant_head head fs = and_then (sort_field (lit ''sort'') fs) (\<lambda>(s, fs). Inr ((head s, []), fs))"

text \<open>Connectives of any number of arguments, or of a first and a second one.\<close>

definition connective_head :: "(sort \<Rightarrow> json_pattern_head) \<Rightarrow> json_fields \<Rightarrow> head_result" where
  "connective_head head fs =
     and_then (sort_field (lit ''sort'') fs) (\<lambda>(s, fs).
     and_then
       (case take_field (lit ''patterns'') fs of
          (Some patterns, fs) \<Rightarrow>
            (case take_field (lit ''first'') fs of
               (Some _, fs) \<Rightarrow> shape_error (lit ''unknown field `first`'')
             | (None, fs) \<Rightarrow>
                 (case take_field (lit ''second'') fs of
                    (Some _, fs) \<Rightarrow> shape_error (lit ''unknown field `second`'')
                  | (None, fs) \<Rightarrow> and_then (expect_array patterns (lit ''patterns'')) (\<lambda>ps. Inr (ps, fs))))
        | (None, fs) \<Rightarrow>
            and_then (required (lit ''first'') fs) (\<lambda>(p, fs).
            and_then (required (lit ''second'') fs) (\<lambda>(q, fs). Inr ([p, q], fs))))
       (\<lambda>(children, fs). Inr ((head s, children), fs)))"

definition unary_head :: "(sort \<Rightarrow> json_pattern_head) \<Rightarrow> str \<Rightarrow> json_fields \<Rightarrow> head_result" where
  "unary_head head argument fs =
     and_then (sort_field (lit ''sort'') fs) (\<lambda>(s, fs).
     and_then (required argument fs) (\<lambda>(p, fs). Inr ((head s, [p]), fs)))"

definition binary_head :: "(sort \<Rightarrow> json_pattern_head) \<Rightarrow> str \<Rightarrow> str \<Rightarrow> json_fields \<Rightarrow> head_result" where
  "binary_head head left right fs =
     and_then (sort_field (lit ''sort'') fs) (\<lambda>(s, fs).
     and_then (required left fs) (\<lambda>(p, fs).
     and_then (required right fs) (\<lambda>(q, fs). Inr ((head s, [p, q]), fs))))"

definition quantifier_head :: "(sort \<Rightarrow> variable \<Rightarrow> json_pattern_head) \<Rightarrow> json_fields \<Rightarrow> head_result" where
  "quantifier_head head fs =
     and_then (sort_field (lit ''sort'') fs) (\<lambda>(s, fs).
     and_then (string_field (lit ''var'') fs) (\<lambda>(name, fs).
     and_then (require_lexical (lit ''quantifier variable'') name (identifier_problems name)) (\<lambda>_.
     and_then (sort_field (lit ''varSort'') fs) (\<lambda>(var_sort, fs).
     and_then (required (lit ''arg'') fs) (\<lambda>(p, fs).
       Inr ((head s \<lparr>var_kind = Element, var_name = name, var_sort = var_sort\<rparr>, [p]), fs))))))"

definition fixpoint_head :: "(variable \<Rightarrow> json_pattern_head) \<Rightarrow> json_fields \<Rightarrow> head_result" where
  "fixpoint_head head fs =
     and_then (string_field (lit ''var'') fs) (\<lambda>(name, fs).
     and_then (require_lexical (lit ''fixpoint expression variable'') name (set_variable_problems name)) (\<lambda>_.
     and_then (sort_field (lit ''varSort'') fs) (\<lambda>(var_sort, fs).
     and_then (required (lit ''arg'') fs) (\<lambda>(p, fs).
       Inr ((head \<lparr>var_kind = SetVar, var_name = name, var_sort = var_sort\<rparr>, [p]), fs)))))"

definition round_head :: "(sort \<Rightarrow> sort \<Rightarrow> json_pattern_head) \<Rightarrow> json_fields \<Rightarrow> head_result" where
  "round_head head fs =
     and_then (sort_field (lit ''argSort'') fs) (\<lambda>(operand, fs).
     and_then (sort_field (lit ''sort'') fs) (\<lambda>(result, fs).
     and_then (required (lit ''arg'') fs) (\<lambda>(p, fs). Inr ((head operand result, [p]), fs))))"

definition predicate_head :: "(sort \<Rightarrow> sort \<Rightarrow> json_pattern_head) \<Rightarrow> json_fields \<Rightarrow> head_result" where
  "predicate_head head fs =
     and_then (sort_field (lit ''argSort'') fs) (\<lambda>(operand, fs).
     and_then (sort_field (lit ''sort'') fs) (\<lambda>(result, fs).
     and_then (required (lit ''first'') fs) (\<lambda>(p, fs).
     and_then (required (lit ''second'') fs) (\<lambda>(q, fs). Inr ((head operand result, [p, q]), fs)))))"

definition domain_value_head :: "json_fields \<Rightarrow> head_result" where
  "domain_value_head fs =
     and_then (sort_field (lit ''sort'') fs) (\<lambda>(s, fs).
     and_then (string_field (lit ''value'') fs) (\<lambda>(val, fs).
     and_then
       (if of_domain_value s = Bytes then require_lexical (lit ''domain value string'') val (latin1_problems val)
        else Inr ()) (\<lambda>_. Inr ((HeadDomainValue s val, []), fs))))"

definition multi_or_head :: "json_fields \<Rightarrow> head_result" where
  "multi_or_head fs =
     and_then (string_field (lit ''assoc'') fs) (\<lambda>(assoc, fs).
     and_then
       (if assoc = lit ''Left'' then Inr JLeft
        else if assoc = lit ''Right'' then Inr JRight
        else shape_error (lit ''unknown variant `'' @ assoc @ lit ''`, expected `Left` or `Right`'')) (\<lambda>side.
     and_then (sort_field (lit ''sort'') fs) (\<lambda>(s, fs).
     and_then (array_field (lit ''argss'') fs) (\<lambda>(args, fs). Inr ((HeadMultiOr side s, args), fs)))))"

definition associative_head :: "associativity \<Rightarrow> json_fields \<Rightarrow> head_result" where
  "associative_head associativity fs =
     and_then (string_field (lit ''symbol'') fs) (\<lambda>(name, fs).
     and_then (require_lexical (lit ''left-assoc symbol'') name (symbol_problems name)) (\<lambda>_.
     and_then (array_field (lit ''sorts'') fs) (\<lambda>(sorts, fs).
     and_then (json_symbol name sorts) (\<lambda>symb.
     and_then (array_field (lit ''argss'') fs) (\<lambda>(args, fs).
       Inr ((HeadAssociative associativity symb, args), fs))))))"

definition string_head :: "json_fields \<Rightarrow> head_result" where
  "string_head fs = and_then (string_field (lit ''value'') fs) (\<lambda>(val, fs). Inr ((HeadString val, []), fs))"

text \<open>The tags, in the order of the source.\<close>

definition tagged_heads :: "(str \<times> (json_fields \<Rightarrow> head_result)) list" where
  "tagged_heads =
     [(lit ''String'', string_head), (lit ''EVar'', variable_head Element), (lit ''SVar'', variable_head SetVar),
      (lit ''App'', application_head), (lit ''Top'', constant_head HeadTop), (lit ''Bottom'', constant_head HeadBottom),
      (lit ''And'', connective_head HeadAnd), (lit ''Or'', connective_head HeadOr),
      (lit ''Not'', unary_head HeadNot (lit ''arg'')), (lit ''Next'', unary_head HeadNext (lit ''dest'')),
      (lit ''Implies'', binary_head HeadImplies (lit ''first'') (lit ''second'')),
      (lit ''Iff'', binary_head HeadIff (lit ''first'') (lit ''second'')),
      (lit ''Rewrites'', binary_head HeadRewrites (lit ''source'') (lit ''dest'')),
      (lit ''Exists'', quantifier_head HeadExists), (lit ''Forall'', quantifier_head HeadForall),
      (lit ''Mu'', fixpoint_head HeadMu), (lit ''Nu'', fixpoint_head HeadNu),
      (lit ''Ceil'', round_head HeadCeil), (lit ''Floor'', round_head HeadFloor),
      (lit ''Equals'', predicate_head HeadEquals), (lit ''In'', predicate_head HeadIn),
      (lit ''DV'', domain_value_head), (lit ''MultiOr'', multi_or_head),
      (lit ''LeftAssoc'', associative_head LeftAssoc), (lit ''RightAssoc'', associative_head RightAssoc)]"

definition pattern_head :: "json_node \<Rightarrow> kore_json_error + (json_pattern_head \<times> json_node list)" where
  "pattern_head n =
     and_then (new_fields n) (\<lambda>fs.
     and_then (string_field (lit ''tag'') fs) (\<lambda>(tag, fs).
     and_then
       (case map_of tagged_heads tag of
          Some head \<Rightarrow> head fs
        | None \<Rightarrow> shape_error (lit ''unknown variant `'' @ tag @ lit ''`, expected a KORE pattern tag''))
       (\<lambda>(result, fs).
     and_then (finish_fields fs) (\<lambda>_. Inr result))))"

section \<open>Patterns\<close>

record json_pattern_frame =
  jpf_head :: json_pattern_head
  jpf_remaining :: "json_node list"
  jpf_built :: "pattern list"

definition new_pattern_frame :: "json_node \<Rightarrow> kore_json_error + json_pattern_frame" where
  "new_pattern_frame n =
     and_then (pattern_head n) (\<lambda>(head, children).
       Inr \<lparr>jpf_head = head, jpf_remaining = children, jpf_built = []\<rparr>)"

text \<open>The closure \<open>child\<close>: the next built child, or the failed \<open>expect\<close>. What is left over is dropped.\<close>

fun with_child :: "(pattern \<Rightarrow> pattern) \<Rightarrow> pattern list \<Rightarrow> kore_json_error + pattern" where
  "with_child build (p # _) = Inr (build p)"
| "with_child build [] = Inl JPanicked"

fun with_children :: "(pattern \<Rightarrow> pattern \<Rightarrow> pattern) \<Rightarrow> pattern list \<Rightarrow> kore_json_error + pattern" where
  "with_children build (p # q # _) = Inr (build p q)"
| "with_children build _ = Inl JPanicked"

text \<open>A disjunction of many operands, as nested disjunctions of two.\<close>

fun multi_or :: "left_right \<Rightarrow> sort \<Rightarrow> pattern list \<Rightarrow> kore_json_error + pattern" where
  "multi_or side s [] = Inl JEmptyMultiOr"
| "multi_or JLeft s (first # arguments) = Inr (fold (\<lambda>right left. POr s [left, right]) arguments first)"
| "multi_or JRight s (first # arguments) =
     (case rev (first # arguments) of
        [] \<Rightarrow> Inl JPanicked
      | final # arguments \<Rightarrow> Inr (fold (\<lambda>left right. POr s [left, right]) arguments final))"

definition finish_pattern_frame :: "json_pattern_frame \<Rightarrow> kore_json_error + pattern" where
  "finish_pattern_frame f =
     (let built = jpf_built f in
      case jpf_head f of
        HeadString val \<Rightarrow>
          (case json_string_bytes val Utf8 of Some v \<Rightarrow> Inr (PString v) | None \<Rightarrow> Inl JPanicked)
      | HeadVariable x \<Rightarrow> Inr (PVariable x)
      | HeadApplication symb \<Rightarrow> Inr (PApplication symb built)
      | HeadTop s \<Rightarrow> Inr (PTop s)
      | HeadBottom s \<Rightarrow> Inr (PBottom s)
      | HeadAnd s \<Rightarrow> Inr (PAnd s built)
      | HeadOr s \<Rightarrow> Inr (POr s built)
      | HeadNot s \<Rightarrow> with_child (PNot s) built
      | HeadNext s \<Rightarrow> with_child (PNext s) built
      | HeadImplies s \<Rightarrow> with_children (PImplies s) built
      | HeadIff s \<Rightarrow> with_children (PIff s) built
      | HeadRewrites s \<Rightarrow> with_children (PRewrites s) built
      | HeadExists s x \<Rightarrow> with_child (PExists s x) built
      | HeadForall s x \<Rightarrow> with_child (PForall s x) built
      | HeadMu x \<Rightarrow> with_child (PMu x) built
      | HeadNu x \<Rightarrow> with_child (PNu x) built
      | HeadCeil s t \<Rightarrow> with_child (PCeil s t) built
      | HeadFloor s t \<Rightarrow> with_child (PFloor s t) built
      | HeadEquals s t \<Rightarrow> with_children (PEquals s t) built
      | HeadIn s t \<Rightarrow> with_children (PIn s t) built
      | HeadDomainValue s val \<Rightarrow>
          (case json_string_bytes val (of_domain_value s) of Some v \<Rightarrow> Inr (PDomainValue s v) | None \<Rightarrow> Inl JPanicked)
      | HeadMultiOr side s \<Rightarrow> multi_or side s built
      | HeadAssociative associativity symb \<Rightarrow>
          (if built = [] then Inl JEmptyAssociativeApplication else Inr (PAssociative associativity symb built)))"

definition pattern_frame_weight :: "json_pattern_frame \<Rightarrow> nat" where
  "pattern_frame_weight f = Suc (sum_list (map json_nodes (jpf_remaining f)))"

text \<open>What a head leaves to read was in the object.\<close>

definition head_weighs :: "(json_fields \<Rightarrow> head_result) \<Rightarrow> bool" where
  "head_weighs h \<longleftrightarrow> (\<forall>fs head cs fs'. h fs = Inr ((head, cs), fs') \<longrightarrow>
     sum_list (map json_nodes cs) + fields_weight fs' \<le> fields_weight fs)"

lemmas taking_weighs = required_weight string_field_weight array_field_weight sort_field_weight take_field_weight

lemma heads_weigh:
  "head_weighs string_head" "head_weighs (variable_head kind)" "head_weighs application_head"
  "head_weighs (constant_head f)" "head_weighs (unary_head f arg)" "head_weighs (binary_head f l r)"
  "head_weighs (quantifier_head g)" "head_weighs (fixpoint_head h)" "head_weighs (round_head k)"
  "head_weighs (predicate_head k)" "head_weighs domain_value_head" "head_weighs multi_or_head"
  "head_weighs (associative_head a)"
  unfolding head_weighs_def string_head_def variable_head_def application_head_def constant_head_def
    unary_head_def binary_head_def quantifier_head_def fixpoint_head_def round_head_def predicate_head_def
    domain_value_head_def multi_or_head_def associative_head_def
  by (auto elim!: and_thenE dest!: taking_weighs)

lemma connective_weighs: "head_weighs (connective_head f)"
  unfolding head_weighs_def connective_head_def expect_array_def
  by (auto elim!: and_thenE into_array.elims dest!: taking_weighs take_field_None
      split: prod.splits option.splits simp: json_nodes.simps [of "JArray _"])

lemma tagged_heads_weigh: "map_of tagged_heads tag = Some h \<Longrightarrow> head_weighs h"
  by (auto simp: tagged_heads_def heads_weigh connective_weighs split: if_splits)

lemma pattern_head_weight: "pattern_head n = Inr (head, cs) \<Longrightarrow> Suc (sum_list (map json_nodes cs)) < json_nodes n"
  unfolding pattern_head_def
  by (fastforce elim!: and_thenE split: option.splits dest!: new_fields_weight string_field_weight tagged_heads_weigh
      simp: head_weighs_def)

lemma new_pattern_frame_weight: "new_pattern_frame n = Inr f \<Longrightarrow> pattern_frame_weight f < json_nodes n"
  by (auto simp: new_pattern_frame_def pattern_frame_weight_def elim!: and_thenE dest: pattern_head_weight)

function build_pattern_loop :: "json_pattern_frame list \<Rightarrow> kore_json_error + pattern" where
  "build_pattern_loop stack =
     (case stack of
        [] \<Rightarrow> Inl JPanicked
      | frame # stack \<Rightarrow>
          (case jpf_remaining frame of
             child # rest \<Rightarrow>
               and_then (new_pattern_frame child)
                 (\<lambda>f. build_pattern_loop (f # frame\<lparr>jpf_remaining := rest\<rparr> # stack))
           | [] \<Rightarrow>
               and_then (finish_pattern_frame frame) (\<lambda>p.
                 case stack of
                   [] \<Rightarrow> Inr p
                 | parent # stack \<Rightarrow> build_pattern_loop (parent\<lparr>jpf_built := jpf_built parent @ [p]\<rparr> # stack))))"
  by pat_completeness auto
termination
  by (relation "measure (\<lambda>stack. sum_list (map pattern_frame_weight stack))")
    (auto simp: pattern_frame_weight_def dest: new_pattern_frame_weight)

declare build_pattern_loop.simps [simp del]

definition build_pattern :: "json_node \<Rightarrow> kore_json_error + pattern" where
  "build_pattern root = and_then (new_pattern_frame root) (\<lambda>f. build_pattern_loop [f])"

definition kore_json_from_str :: "json_library \<Rightarrow> str \<Rightarrow> kore_json_error + pattern" where
  "kore_json_from_str L input =
     and_then (case json_parse L input of Inl e \<Rightarrow> Inl (syntax_error e) | Inr root \<Rightarrow> Inr root) (\<lambda>root.
     and_then (new_fields root) (\<lambda>envelope.
     and_then (string_field (lit ''format'') envelope) (\<lambda>(format, envelope).
     and_then (required (lit ''version'') envelope) (\<lambda>(version, envelope).
     and_then (expect_u32 version (lit ''version'')) (\<lambda>version.
     and_then (required (lit ''term'') envelope) (\<lambda>(n, _).
       if format \<noteq> FORMAT then Inl (JUnsupportedFormat format)
       else if version \<noteq> VERSION then Inl (JUnsupportedVersion version)
       else build_pattern n))))))"

end
