(* ===== verification/Kore_Json_Roundtrip.thy ===== *)
theory Kore_Json_Roundtrip
  imports Kore_Json_Reader
begin

text \<open>
  The reader of KORE JSON and the round trip. The loops over frames are recursive readings of the
  tree (\<open>read_sort\<close>, \<open>read_pattern\<close>), errors included; the fields of an object may come in any order;
  so whatever the writers write is read back. Conversely what is read can be written, and no
  \<open>expect\<close> of the reader fails.
\<close>

section \<open>The loops are recursive readings\<close>

definition finish_sort :: "json_sort_head \<Rightarrow> sort list \<Rightarrow> sort" where
  "finish_sort head ss = finish_sort_frame \<lparr>jsf_head = head, jsf_remaining = [], jsf_built = ss\<rparr>"

lemma children_weight: "sort_head n = Inr (head, cs) \<Longrightarrow> c \<in> set cs \<Longrightarrow> json_nodes c < json_nodes n"
  using sort_head_weight [of n head cs] member_le_sum_list [of "json_nodes c" "map json_nodes cs"] by simp

lemma collect_results_cong [fundef_cong]:
  assumes "xs = ys" and "\<And>x. x \<in> set ys \<Longrightarrow> f x = g x"
  shows "collect_results f xs = collect_results g ys"
proof -
  have "collect_results f ys = collect_results g ys"
    using assms(2) by (induction ys) auto
  then show ?thesis by (simp add: assms(1))
qed

function read_sort :: "json_node \<Rightarrow> kore_json_error + sort" where
  "read_sort n =
     and_then (sort_head n) (\<lambda>hc. and_then (collect_results read_sort (snd hc)) (\<lambda>ss. Inr (finish_sort (fst hc) ss)))"
  by pat_completeness auto
termination
  by (relation "measure json_nodes") (auto intro: children_weight)

declare read_sort.simps [simp del]

definition deliver_sort :: "json_sort_frame list \<Rightarrow> sort \<Rightarrow> kore_json_error + sort" where
  "deliver_sort stack s =
     (case stack of [] \<Rightarrow> Inr s
      | parent # stack \<Rightarrow> build_sort_loop (parent\<lparr>jsf_built := jsf_built parent @ [s]\<rparr> # stack))"

lemma deliver_sort_simps [simp]:
  "deliver_sort [] = Inr"
  "deliver_sort (\<lparr>jsf_head = head, jsf_remaining = cs, jsf_built = ss\<rparr> # stack) s
     = build_sort_loop (\<lparr>jsf_head = head, jsf_remaining = cs, jsf_built = ss @ [s]\<rparr> # stack)"
  by (simp_all add: deliver_sort_def fun_eq_iff)

lemma and_then_assoc: "and_then (and_then m f) g = and_then m (\<lambda>x. and_then (f x) g)"
  by (cases m) auto

lemma build_sort_loop_steps:
  "build_sort_loop (\<lparr>jsf_head = head, jsf_remaining = [], jsf_built = ss\<rparr> # stack) = deliver_sort stack (finish_sort head ss)"
  "build_sort_loop (\<lparr>jsf_head = head, jsf_remaining = c # cs, jsf_built = ss\<rparr> # stack)
     = and_then (new_sort_frame c) (\<lambda>f. build_sort_loop (f # \<lparr>jsf_head = head, jsf_remaining = cs, jsf_built = ss\<rparr> # stack))"
  by (subst build_sort_loop.simps, simp add: deliver_sort_def finish_sort_def Let_def split: list.split)+

lemma build_sort_loop_read:
  "and_then (new_sort_frame n) (\<lambda>f. build_sort_loop (f # stack)) = and_then (read_sort n) (deliver_sort stack)"
proof (induction n arbitrary: stack rule: measure_induct_rule [of json_nodes])
  case (less n)
  show ?case
  proof (cases "sort_head n")
    case (Inr hc)
    obtain head cs where hc: "hc = (head, cs)" by fastforce
    have loop: "build_sort_loop (\<lparr>jsf_head = head, jsf_remaining = ds, jsf_built = ss\<rparr> # stack)
        = and_then (collect_results read_sort ds) (\<lambda>ts. deliver_sort stack (finish_sort head (ss @ ts)))"
      if "set ds \<subseteq> set cs" for ds ss
      using that
    proof (induction ds arbitrary: ss)
      case (Cons d ds)
      have "json_nodes d < json_nodes n" using Cons.prems children_weight [of n head cs d] Inr hc by auto
      then show ?case
        using Cons less [of d] by (cases "read_sort d") (simp_all add: build_sort_loop_steps and_then_assoc)
    qed (simp add: build_sort_loop_steps)
    show ?thesis
      using loop [of cs "[]"] by (simp add: new_sort_frame_def Inr hc read_sort.simps [of n] and_then_assoc)
  qed (simp add: new_sort_frame_def read_sort.simps [of n])
qed

lemma build_sort_read: "build_sort n = read_sort n"
proof -
  have "and_then m Inr = m" for m :: "kore_json_error + sort" by (cases m) auto
  then show ?thesis
    using build_sort_loop_read [of n "[]"] by (simp add: build_sort_def)
qed

definition finish_pattern :: "json_pattern_head \<Rightarrow> pattern list \<Rightarrow> kore_json_error + pattern" where
  "finish_pattern head ps = finish_pattern_frame \<lparr>jpf_head = head, jpf_remaining = [], jpf_built = ps\<rparr>"

lemma pattern_children_weight: "pattern_head n = Inr (head, cs) \<Longrightarrow> c \<in> set cs \<Longrightarrow> json_nodes c < json_nodes n"
  using pattern_head_weight [of n head cs] member_le_sum_list [of "json_nodes c" "map json_nodes cs"] by simp

function read_pattern :: "json_node \<Rightarrow> kore_json_error + pattern" where
  "read_pattern n =
     and_then (pattern_head n) (\<lambda>hc. and_then (collect_results read_pattern (snd hc)) (finish_pattern (fst hc)))"
  by pat_completeness auto
termination
  by (relation "measure json_nodes") (auto intro: pattern_children_weight)

declare read_pattern.simps [simp del]

definition deliver_pattern :: "json_pattern_frame list \<Rightarrow> pattern \<Rightarrow> kore_json_error + pattern" where
  "deliver_pattern stack p =
     (case stack of [] \<Rightarrow> Inr p
      | parent # stack \<Rightarrow> build_pattern_loop (parent\<lparr>jpf_built := jpf_built parent @ [p]\<rparr> # stack))"

lemma deliver_pattern_simps [simp]:
  "deliver_pattern [] = Inr"
  "deliver_pattern (\<lparr>jpf_head = head, jpf_remaining = cs, jpf_built = ps\<rparr> # stack) p
     = build_pattern_loop (\<lparr>jpf_head = head, jpf_remaining = cs, jpf_built = ps @ [p]\<rparr> # stack)"
  by (simp_all add: deliver_pattern_def fun_eq_iff)

lemma build_pattern_loop_steps:
  "build_pattern_loop (\<lparr>jpf_head = head, jpf_remaining = [], jpf_built = ps\<rparr> # stack)
     = and_then (finish_pattern head ps) (deliver_pattern stack)"
  "build_pattern_loop (\<lparr>jpf_head = head, jpf_remaining = c # cs, jpf_built = ps\<rparr> # stack)
     = and_then (new_pattern_frame c) (\<lambda>f. build_pattern_loop (f # \<lparr>jpf_head = head, jpf_remaining = cs, jpf_built = ps\<rparr> # stack))"
proof -
  have finish: "finish_pattern_frame \<lparr>jpf_head = head, jpf_remaining = rest, jpf_built = ps\<rparr> = finish_pattern head ps"
    for rest by (simp add: finish_pattern_def finish_pattern_frame_def)
  show "build_pattern_loop (\<lparr>jpf_head = head, jpf_remaining = [], jpf_built = ps\<rparr> # stack)
     = and_then (finish_pattern head ps) (deliver_pattern stack)"
    by (subst build_pattern_loop.simps) (simp add: finish deliver_pattern_def [abs_def])
  show "build_pattern_loop (\<lparr>jpf_head = head, jpf_remaining = c # cs, jpf_built = ps\<rparr> # stack)
     = and_then (new_pattern_frame c) (\<lambda>f. build_pattern_loop (f # \<lparr>jpf_head = head, jpf_remaining = cs, jpf_built = ps\<rparr> # stack))"
    by (subst build_pattern_loop.simps) simp
qed

lemma build_pattern_loop_read:
  "and_then (new_pattern_frame n) (\<lambda>f. build_pattern_loop (f # stack)) = and_then (read_pattern n) (deliver_pattern stack)"
proof (induction n arbitrary: stack rule: measure_induct_rule [of json_nodes])
  case (less n)
  show ?case
  proof (cases "pattern_head n")
    case (Inr hc)
    obtain head cs where hc: "hc = (head, cs)" by fastforce
    have loop: "build_pattern_loop (\<lparr>jpf_head = head, jpf_remaining = ds, jpf_built = ps\<rparr> # stack)
        = and_then (collect_results read_pattern ds) (\<lambda>qs. and_then (finish_pattern head (ps @ qs)) (deliver_pattern stack))"
      if "set ds \<subseteq> set cs" for ds ps
      using that
    proof (induction ds arbitrary: ps)
      case (Cons d ds)
      have "json_nodes d < json_nodes n" using Cons.prems pattern_children_weight [of n head cs d] Inr hc by auto
      then show ?case
        using Cons less [of d] by (cases "read_pattern d") (simp_all add: build_pattern_loop_steps and_then_assoc)
    qed (simp add: build_pattern_loop_steps)
    show ?thesis
      using loop [of cs "[]"] by (simp add: new_pattern_frame_def Inr hc read_pattern.simps [of n] and_then_assoc)
  qed (simp add: new_pattern_frame_def read_pattern.simps [of n])
qed

lemma build_pattern_read: "build_pattern n = read_pattern n"
proof -
  have "and_then m Inr = m" for m :: "kore_json_error + pattern" by (cases m) auto
  then show ?thesis
    using build_pattern_loop_read [of n "[]"] by (simp add: build_pattern_def)
qed

section \<open>Fields in any order\<close>

lemma map_of_mset_eq:
  assumes "distinct (map fst xs)" and "mset xs = mset ys"
  shows "map_of xs = map_of ys"
proof -
  have "distinct (map fst ys)" using assms by (metis mset_map mset_eq_imp_distinct_iff)
  moreover have "set xs = set ys" using assms(2) by (rule mset_eq_setD)
  ultimately show ?thesis using assms(1) by (metis map_of_inject_set)
qed

definition drop_field :: "str \<Rightarrow> json_fields \<Rightarrow> json_fields" where
  "drop_field name fs = snd (take_field name fs)"

lemma take_field_at:
  assumes "distinct (map fst fs)"
  shows "map_of fs name \<noteq> None \<Longrightarrow> take_field name fs = (Some (the (map_of fs name)), drop_field name fs)"
    and "map_of fs name = None \<Longrightarrow> take_field name fs = (None, fs)"
    and "distinct (map fst (drop_field name fs))" and "map_of (drop_field name fs) = (map_of fs)(name := None)"
proof -
  have none: "take_field name fs = (None, fs)" if "map_of fs name = None"
    using that by (auto simp: take_field_def position_None map_of_eq_None_iff split: option.splits dest!: position_Some)
  have some: "\<exists>fs'. take_field name fs = (map_of fs name, fs') \<and> distinct (map fst fs') \<and> map_of fs' = (map_of fs)(name := None)"
    if n: "map_of fs name \<noteq> None"
  proof -
    obtain n' fs' where t: "take_field name fs = (Some n', fs')"
    proof (cases "fst (take_field name fs)")
      case None
      then have "take_field name fs = (None, snd (take_field name fs))" by (metis prod.collapse)
      then show ?thesis using n take_field_None [of name fs] by (metis map_of_eq_None_iff)
    next
      case (Some n')
      then show ?thesis using that by (metis prod.collapse)
    qed
    have ms: "mset ((name, n') # fs') = mset fs" using take_field_Some [OF t] by simp
    then have d: "distinct (map fst ((name, n') # fs'))" "map_of fs = map_of ((name, n') # fs')"
      using assms map_of_mset_eq [OF assms ms [symmetric]] by (metis mset_map mset_eq_imp_distinct_iff)+
    then show ?thesis using t by (auto simp: fun_upd_idem map_of_eq_None_iff)
  qed
  show "map_of fs name \<noteq> None \<Longrightarrow> take_field name fs = (Some (the (map_of fs name)), drop_field name fs)"
    using some by (auto simp: drop_field_def)
  show "map_of fs name = None \<Longrightarrow> take_field name fs = (None, fs)" by (rule none)
  show "distinct (map fst (drop_field name fs))" "map_of (drop_field name fs) = (map_of fs)(name := None)"
    using some none assms by (cases "map_of fs name"; force simp: drop_field_def fun_upd_idem)+
qed

lemma required_at:
  "distinct (map fst fs) \<Longrightarrow> map_of fs name \<noteq> None \<Longrightarrow> required name fs = Inr (the (map_of fs name), drop_field name fs)"
  using take_field_at(1) [of fs name] by (auto simp: required_def)

lemma finish_fields_at: "map_of fs = Map.empty \<Longrightarrow> finish_fields fs = Inr ()"
  by (auto simp: finish_fields_def split: list.split)

lemmas field_simps' = take_field_at required_at finish_fields_at string_field_def array_field_def sort_field_def
  expect_string_def expect_array_def

lemma ordered_fields:
  assumes "distinct (map fst fs)"
  shows "distinct (map fst (ordered order fs))" "map_of (ordered order fs) = map_of fs"
proof -
  have "mset (ordered order fs) = mset fs" by (simp add: ordered_def mset_by_key)
  then show "distinct (map fst (ordered order fs))" "map_of (ordered order fs) = map_of fs"
    using assms map_of_mset_eq [OF assms] by (metis mset_map mset_eq_imp_distinct_iff)+
qed

section \<open>Sorts are read back\<close>

lemma sort_fields_read:
  assumes "distinct (map fst fs)" and "map_of fs = map_of (map (\<lambda>m. (fst m, task_json sj pj (snd m))) (sort_fields s))"
  shows "sort_head (JObject fs) = Inr (case s of SortVariable name \<Rightarrow> (SortVariableHead name, [])
      | SortApplication name args \<Rightarrow> (SortApplicationHead name, map sj args))"
  using assms by (cases s) (simp_all add: sort_head_def new_fields_def field_simps')

lemma sort_fields_distinct: "distinct (map fst (sort_fields s))"
  by (cases s) simp_all

lemma pattern_fields_distinct: "distinct (map fst (pattern_fields nd))"
  by (cases nd) (simp_all add: variable_tasks_def symbol_tasks_def)

lemma envelope_fields_distinct: "distinct (map fst (envelope_fields p))"
  by (simp add: envelope_fields_def)

text \<open>The members of a written object, as the reader sees them.\<close>

lemma fields_json_members:
  assumes "distinct (map fst fields')"
  obtains fs where "fields_json order tj fields' = JObject fs" "distinct (map fst fs)"
    "map_of fs = map_of (map (\<lambda>m. (fst m, tj (snd m))) fields')"
  using that assms ordered_fields [of "map (\<lambda>m. (fst m, tj (snd m))) fields'" order]
  by (simp add: fields_json_def o_def)

lemma read_sort_json: "read_sort (sort_json order s) = Inr s"
proof (induction "size s" arbitrary: s rule: less_induct)
  case (less s)
  obtain fs where fs: "sort_json order s = JObject fs" "distinct (map fst fs)"
    "map_of fs = map_of (map (\<lambda>m. (fst m, task_json (sort_json order) (\<lambda>_ :: unit. JNull) (snd m))) (sort_fields s))"
    unfolding sort_json.simps [of order s] using fields_json_members [OF sort_fields_distinct] by blast
  have IH: "collect_results read_sort (map (sort_json order) ts) = Inr ts" if "s = SortApplication name ts" for name ts
  proof -
    have "read_sort (sort_json order t) = Inr t" if "t \<in> set ts" for t
      using less [of t] that \<open>s = SortApplication name ts\<close> size_list_estimation' [of t ts "size t" size] by simp
    then show ?thesis using collect_results_map [of ts read_sort "sort_json order" id] by simp
  qed
  show ?case
    unfolding fs(1) using sort_fields_read [OF fs(2,3)] IH
    by (cases s) (simp_all add: read_sort.simps [of "JObject fs"] finish_sort_def finish_sort_frame_def)
qed

lemma build_sort_json [simp]: "build_sort (sort_json order s) = Inr s"
  by (simp add: build_sort_read read_sort_json)

lemma json_symbol_json [simp]:
  "json_symbol name (map (sort_json order) ss) = Inr \<lparr>symbol_name = name, sort_parameters = ss\<rparr>"
  using collect_results_map [of ss build_sort "sort_json order" id] by (simp add: json_symbol_def)

section \<open>Patterns are read back\<close>

text \<open>What KORE JSON can represent: names are lexically right, payloads are canonical, the variable of a
  binder is of the binder's kind, and an associative application has an argument.\<close>

definition json_variable :: "variable \<Rightarrow> bool" where
  "json_variable x \<longleftrightarrow> valid_sort (var_sort x)
     \<and> (var_kind x = Element \<longrightarrow> identifier_problems (var_name x) = [])
     \<and> (var_kind x = SetVar \<longrightarrow> set_variable_problems (var_name x) = [])"

definition json_symbol_ok :: "symbol \<Rightarrow> bool" where
  "json_symbol_ok symb \<longleftrightarrow> symbol_problems (symbol_name symb) = [] \<and> (\<forall>s \<in> set (sort_parameters symb). valid_sort s)"

fun json_pattern :: "pattern \<Rightarrow> bool" where
  "json_pattern (PString v) \<longleftrightarrow> canonical v Utf8 = v"
| "json_pattern (PVariable x) \<longleftrightarrow> json_variable x"
| "json_pattern (PApplication symb args) \<longleftrightarrow> json_symbol_ok symb \<and> (\<forall>p \<in> set args. json_pattern p)"
| "json_pattern (PTop s) \<longleftrightarrow> valid_sort s"
| "json_pattern (PBottom s) \<longleftrightarrow> valid_sort s"
| "json_pattern (PAnd s args) \<longleftrightarrow> valid_sort s \<and> (\<forall>p \<in> set args. json_pattern p)"
| "json_pattern (POr s args) \<longleftrightarrow> valid_sort s \<and> (\<forall>p \<in> set args. json_pattern p)"
| "json_pattern (PNot s p) \<longleftrightarrow> valid_sort s \<and> json_pattern p"
| "json_pattern (PNext s p) \<longleftrightarrow> valid_sort s \<and> json_pattern p"
| "json_pattern (PImplies s p q) \<longleftrightarrow> valid_sort s \<and> json_pattern p \<and> json_pattern q"
| "json_pattern (PIff s p q) \<longleftrightarrow> valid_sort s \<and> json_pattern p \<and> json_pattern q"
| "json_pattern (PRewrites s p q) \<longleftrightarrow> valid_sort s \<and> json_pattern p \<and> json_pattern q"
| "json_pattern (PExists s x p) \<longleftrightarrow> valid_sort s \<and> var_kind x = Element \<and> json_variable x \<and> json_pattern p"
| "json_pattern (PForall s x p) \<longleftrightarrow> valid_sort s \<and> var_kind x = Element \<and> json_variable x \<and> json_pattern p"
| "json_pattern (PMu x p) \<longleftrightarrow> var_kind x = SetVar \<and> json_variable x \<and> json_pattern p"
| "json_pattern (PNu x p) \<longleftrightarrow> var_kind x = SetVar \<and> json_variable x \<and> json_pattern p"
| "json_pattern (PCeil s t p) \<longleftrightarrow> valid_sort s \<and> valid_sort t \<and> json_pattern p"
| "json_pattern (PFloor s t p) \<longleftrightarrow> valid_sort s \<and> valid_sort t \<and> json_pattern p"
| "json_pattern (PEquals s t p q) \<longleftrightarrow> valid_sort s \<and> valid_sort t \<and> json_pattern p \<and> json_pattern q"
| "json_pattern (PIn s t p q) \<longleftrightarrow> valid_sort s \<and> valid_sort t \<and> json_pattern p \<and> json_pattern q"
| "json_pattern (PDomainValue s v) \<longleftrightarrow> valid_sort s \<and> canonical v (of_domain_value s) = v"
| "json_pattern (PAssociative a symb args) \<longleftrightarrow> json_symbol_ok symb \<and> args \<noteq> [] \<and> (\<forall>p \<in> set args. json_pattern p)"

text \<open>The head that the reader finds for a pattern.\<close>

fun head_of :: "pattern \<Rightarrow> json_pattern_head" where
  "head_of (PString v) = HeadString (code_points Utf8 v)"
| "head_of (PVariable x) = HeadVariable x"
| "head_of (PApplication symb _) = HeadApplication symb"
| "head_of (PTop s) = HeadTop s"
| "head_of (PBottom s) = HeadBottom s"
| "head_of (PAnd s _) = HeadAnd s"
| "head_of (POr s _) = HeadOr s"
| "head_of (PNot s _) = HeadNot s"
| "head_of (PNext s _) = HeadNext s"
| "head_of (PImplies s _ _) = HeadImplies s"
| "head_of (PIff s _ _) = HeadIff s"
| "head_of (PRewrites s _ _) = HeadRewrites s"
| "head_of (PExists s x _) = HeadExists s x"
| "head_of (PForall s x _) = HeadForall s x"
| "head_of (PMu x _) = HeadMu x"
| "head_of (PNu x _) = HeadNu x"
| "head_of (PCeil s t _) = HeadCeil s t"
| "head_of (PFloor s t _) = HeadFloor s t"
| "head_of (PEquals s t _ _) = HeadEquals s t"
| "head_of (PIn s t _ _) = HeadIn s t"
| "head_of (PDomainValue s v) = HeadDomainValue s (code_points (of_domain_value s) v)"
| "head_of (PAssociative a symb _) = HeadAssociative a symb"

lemma json_string_value_code_points: "json_string_value v enc = code_points enc v"
  by (cases enc) (simp_all add: json_string_value_def)

lemma json_string_bytes_store: "json_string_bytes v enc = store enc v"
  by (cases enc) (simp_all add: json_string_bytes_def)

lemma finish_head_of: "json_pattern p \<Longrightarrow> finish_pattern (head_of p) (children p) = Inr p"
  using store_code_points [of Utf8]
  by (cases p) (auto simp: finish_pattern_def finish_pattern_frame_def json_string_bytes_store store_code_points
      simp del: store.simps code_points.simps)

lemmas head_defs = string_head_def variable_head_def application_head_def constant_head_def connective_head_def
  unary_head_def binary_head_def quantifier_head_def fixpoint_head_def round_head_def predicate_head_def
  domain_value_head_def multi_or_head_def associative_head_def require_lexical_def

lemma tagged_head:
  assumes "distinct (map fst fs)" and "map_of fs (lit ''tag'') = Some (JString tag)"
    and "map_of tagged_heads tag = Some h" and "h (drop_field (lit ''tag'') fs) = Inr (hc, fs')"
    and "map_of fs' = Map.empty"
  shows "pattern_head (JObject fs) = Inr hc"
  using assms by (simp add: pattern_head_def new_fields_def field_simps')

lemma variable_eq: "\<lparr>var_kind = k, var_name = var_name x, var_sort = var_sort x\<rparr> = x \<longleftrightarrow> var_kind x = k"
  by (cases x) auto

lemma latin1_code_points [simp]: "latin1_problems (map unat (v :: byte list)) = []"
  by (auto simp: latin1_problems_Nil less_Suc_eq_le [symmetric])

lemma pattern_head_json:
  assumes "json_pattern p" and "distinct (map fst fs)"
    and "map_of fs = map_of (map (\<lambda>m. (fst m, task_json (sort_json order) pj (snd m))) (pattern_fields (node_of p)))"
  shows "pattern_head (JObject fs) = Inr (head_of p, map pj (children p))"
proof -
  note rules = pattern_head_def new_fields_def field_simps' tagged_heads_def head_defs variable_tasks_def symbol_tasks_def
    json_variable_def json_symbol_ok_def variable_eq json_string_value_def
  show ?thesis
  proof (cases p)
    case (PVariable x)
    then show ?thesis using assms by (cases "var_kind x") (simp_all add: rules)
  next
    case (PDomainValue s v)
    then show ?thesis using assms by (cases "of_domain_value s") (simp_all add: rules)
  next
    case (PAssociative a symb args)
    then show ?thesis using assms by (cases a) (simp_all add: rules)
  qed (use assms in \<open>simp_all add: rules\<close>)
qed

lemma children_ok: "json_pattern p \<Longrightarrow> c \<in> set (children p) \<Longrightarrow> json_pattern c"
  by (cases p) auto

lemma read_pattern_json: "json_pattern p \<Longrightarrow> read_pattern (pattern_json order p) = Inr p"
proof (induction p rule: pattern_children_induct)
  case (node p)
  obtain fs where fs: "pattern_json order p = JObject fs" "distinct (map fst fs)"
    "map_of fs = map_of (map (\<lambda>m. (fst m, task_json (sort_json order) (pattern_json order) (snd m))) (pattern_fields (node_of p)))"
    unfolding pattern_json.simps [of order p] using fields_json_members [OF pattern_fields_distinct] by blast
  have "collect_results read_pattern (map (pattern_json order) (children p)) = Inr (children p)"
    using collect_results_map [of "children p" read_pattern "pattern_json order" id] node children_ok by simp
  then show ?case
    unfolding fs(1) using pattern_head_json [OF node.prems fs(2,3)] finish_head_of [OF node.prems]
    by (simp add: read_pattern.simps [of "JObject fs"])
qed

section \<open>The envelope\<close>

lemma expect_version: "expect_u32 (JNumber (decimal VERSION)) field = Inr VERSION"
proof -
  have "decimal VERSION = [49]" by (simp add: VERSION_def decimal.simps [of "Suc 0"])
  moreover have "parse_u32 [49] = Some 1" by (simp add: parse_u32_def is_ascii_digit_def)
  ultimately show ?thesis by (simp add: expect_u32_def VERSION_def)
qed

text \<open>What \<open>from_str\<close> does with a document.\<close>

definition read_document :: "json_node \<Rightarrow> kore_json_error + pattern" where
  "read_document root =
     and_then (new_fields root) (\<lambda>envelope.
     and_then (string_field (lit ''format'') envelope) (\<lambda>(format, envelope).
     and_then (required (lit ''version'') envelope) (\<lambda>(version, envelope).
     and_then (expect_u32 version (lit ''version'')) (\<lambda>version.
     and_then (required (lit ''term'') envelope) (\<lambda>(n, _).
       if format \<noteq> FORMAT then Inl (JUnsupportedFormat format)
       else if version \<noteq> VERSION then Inl (JUnsupportedVersion version)
       else read_pattern n)))))"

lemma from_str_document:
  "kore_json_from_str L input =
     and_then (case json_parse L input of Inl e \<Rightarrow> Inl (syntax_error e) | Inr root \<Rightarrow> Inr root) read_document"
  unfolding kore_json_from_str_def read_document_def [abs_def] build_pattern_read [abs_def] by (rule refl)

lemma read_envelope:
  assumes "json_pattern p"
  shows "read_document (envelope_json order p) = Inr p"
proof -
  obtain fs where fs: "envelope_json order p = JObject fs" "distinct (map fst fs)"
    "map_of fs = map_of (map (\<lambda>m. (fst m, task_json (sort_json order) (pattern_json order) (snd m))) (envelope_fields p))"
    unfolding envelope_json_def
    by (rule fields_json_members [OF envelope_fields_distinct [of p], of order "task_json (sort_json order) (pattern_json order)"])
  let ?version = "drop_field (lit ''format'') fs" and ?rest = "drop_field (lit ''version'') (drop_field (lit ''format'') fs)"
  have m: "map_of fs = [lit ''term'' \<mapsto> pattern_json order p, lit ''version'' \<mapsto> JNumber (decimal VERSION),
      lit ''format'' \<mapsto> JString FORMAT]"
    using fs(3) by (simp add: envelope_fields_def)
  have "string_field (lit ''format'') fs = Inr (FORMAT, ?version)"
    using fs(2) m by (simp add: field_simps')
  moreover have "required (lit ''version'') ?version = Inr (JNumber (decimal VERSION), ?rest)"
    using fs(2) m by (simp add: field_simps')
  moreover have "required (lit ''term'') ?rest = Inr (pattern_json order p, drop_field (lit ''term'') ?rest)"
    using fs(2) m by (simp add: field_simps')
  ultimately show ?thesis
    using read_pattern_json [OF assms]
    by (simp add: read_document_def new_fields_def fs(1) expect_version del: list.map)
qed

section \<open>What is written is a JSON tree\<close>

lemma ident_valid:
  assumes "ident s"
  shows "valid_str s"
proof (rule ascii_valid)
  show "\<forall>c \<in> set s. c < 128"
    using assms id_char_props alphabetic_id_char by (cases s) (auto simp: list_all_iff)
qed

lemma names_valid:
  "identifier_problems s = [] \<Longrightarrow> valid_str s" "set_variable_problems s = [] \<Longrightarrow> valid_str s"
  "symbol_problems s = [] \<Longrightarrow> valid_str s"
  by (auto simp: identifier_problems_Nil set_variable_problems_Nil symbol_problems_Nil is_scalar_def dest: ident_valid)

lemma json_names_valid:
  "json_variable x \<Longrightarrow> valid_str (var_name x) \<and> valid_sort (var_sort x)"
  "json_symbol_ok symb \<Longrightarrow> valid_str (symbol_name symb) \<and> (\<forall>s \<in> set (sort_parameters symb). valid_sort s)"
  by (cases "var_kind x") (auto simp: json_variable_def json_symbol_ok_def dest: names_valid)

fun task_ok :: "json_library \<Rightarrow> 's encode_task \<Rightarrow> bool" where
  "task_ok L (EncNumber token) \<longleftrightarrow> number_token L token"
| "task_ok L (EncStatic v) \<longleftrightarrow> valid_str v"
| "task_ok L (EncString v) \<longleftrightarrow> valid_str v"
| "task_ok L (EncSort s) \<longleftrightarrow> valid_sort s"
| "task_ok L (EncSortArray ss) \<longleftrightarrow> (\<forall>s \<in> set ss. valid_sort s)"
| "task_ok L _ \<longleftrightarrow> True"

lemma fields_json_ok:
  assumes "distinct (map fst fields')"
    and "\<And>m. m \<in> set fields' \<Longrightarrow> plain_field m \<and> json_ok L (tj (snd m))"
  shows "json_ok L (fields_json order tj fields')"
proof -
  have "valid_str (fst m)" if "m \<in> set fields'" for m
    using assms(2) [OF that] by (cases m) (auto simp: valid_str_def list_all_iff is_scalar_def char_class_defs)
  moreover have "distinct (map fst (ordered order (map (\<lambda>m. (fst m, tj (snd m))) fields')))"
    using assms(1) by (intro ordered_fields) (simp add: o_def)
  ultimately show ?thesis
    using assms(2) by (auto simp: fields_json_def)
qed

lemma sort_json_ok: "valid_sort s \<Longrightarrow> json_ok L (sort_json order s)"
proof (induction "size s" arbitrary: s rule: less_induct)
  case (less s)
  show ?case
    unfolding sort_json.simps [of order s]
  proof (rule fields_json_ok [OF sort_fields_distinct])
    fix m :: "str \<times> unit encode_task"
    assume m: "m \<in> set (sort_fields s)"
    have "json_ok L (sort_json order t)" if "t \<in> set (task_sorts (snd m))" for t
      using less sort_fields_smaller [OF m that] m that by (cases s) auto
    then show "plain_field m \<and> json_ok L (task_json (sort_json order) (\<lambda>_. JNull) (snd m))"
      using plain_fields(1) [OF m] m less.prems by (cases s) (auto simp: is_scalar_def)
  qed
qed

lemma task_json_ok:
  assumes "task_ok L t" and "\<And>p. p \<in> set (task_sources t) \<Longrightarrow> json_ok L (pj p)"
  shows "json_ok L (task_json (sort_json order) pj t)"
  using assms by (cases t) (auto intro: sort_json_ok)

lemma pattern_fields_ok: "json_pattern p \<Longrightarrow> m \<in> set (pattern_fields (node_of p)) \<Longrightarrow> task_ok L (snd m)"
  using valid_code_points
  by (cases p) (auto simp: variable_tasks_def symbol_tasks_def is_scalar_def json_string_value_code_points
      dest: json_names_valid simp del: code_points.simps)

lemma pattern_json_ok: "json_pattern p \<Longrightarrow> json_ok L (pattern_json order p)"
proof (induction p rule: pattern_children_induct)
  case (node p)
  show ?case
    unfolding pattern_json.simps [of order p]
  proof (rule fields_json_ok [OF pattern_fields_distinct])
    fix m assume m: "m \<in> set (pattern_fields (node_of p))"
    have "json_ok L (pattern_json order c)" if "c \<in> set (task_sources (snd m))" for c
      using node.IH children_ok [OF node.prems] field_source [OF m that] by (simp add: children_node_of)
    then show "plain_field m \<and> json_ok L (task_json (sort_json order) (pattern_json order) (snd m))"
      using plain_fields(2) [OF m] pattern_fields_ok [OF node.prems m] by (intro conjI task_json_ok) auto
  qed
qed

lemma envelope_ok:
  assumes "kore_json_laws L" and "json_pattern p"
  shows "json_ok L (envelope_json order p)"
  unfolding envelope_json_def
proof (rule fields_json_ok [OF envelope_fields_distinct])
  fix m assume m: "m \<in> set (envelope_fields p)"
  have "decimal VERSION = [49]" by (simp add: VERSION_def decimal.simps [of "Suc 0"])
  then have "number_token L (decimal VERSION)"
    using kore_law(3) [OF assms(1), of "[49]"] by (simp add: number_token_def is_ascii_digit_def)
  then have "task_ok L (snd m)" using m by (auto simp: envelope_fields_def FORMAT_def is_scalar_def)
  then show "plain_field m \<and> json_ok L (task_json (sort_json order) (pattern_json order) (snd m))"
    using plain_fields(3) [OF m] m pattern_json_ok [OF assms(2)]
    by (intro conjI task_json_ok) (auto simp: envelope_fields_def)
qed

lemma document_read:
  assumes "kore_json_laws L" and "json_pattern p"
  shows "kore_json_from_str L (text_of_json L pretty (envelope_json order p)) = Inr p"
  using json_parse_text [OF kore_law(1) [OF assms(1)] envelope_ok [OF assms]] read_envelope [OF assms(2)]
  by (simp add: from_str_document)

lemma written_texts:
  assumes "kore_json_laws L"
  shows "to_json_string L p = Some (text_of_json L False (envelope_json Schema p))"
    "to_json_string_pretty L p = Some (text_of_json L True (envelope_json Schema p))"
    "source_to_string L node_of p = Some (text_of_json L False (envelope_json Key p))"
proof -
  have "source_to_node node_of p Schema = Some (envelope_json Schema p)"
    using owned.source_to_node_denote [of p Schema] by simp
  then show "to_json_string L p = Some (text_of_json L False (envelope_json Schema p))"
    "to_json_string_pretty L p = Some (text_of_json L True (envelope_json Schema p))"
    using json_to_string_text [OF kore_law(1) [OF assms]]
    by (simp_all add: to_json_string_def to_json_string_pretty_def)
  show "source_to_string L node_of p = Some (text_of_json L False (envelope_json Key p))"
    using owned.source_to_string_denote [OF assms, of p] by (simp add: text_of_json_def compact_def)
qed

text \<open>C26: A pattern that KORE JSON represents is read back exactly from each of its texts: the compact
  and the pretty one, with members in schema order, and the one written directly, with members
  ordered by key.\<close>

theorem kore_json_round_trip:
  assumes "kore_json_laws L" and "json_pattern p"
  shows "(\<exists>t. to_json_string L p = Some t \<and> kore_json_from_str L t = Inr p)
    \<and> (\<exists>t. to_json_string_pretty L p = Some t \<and> kore_json_from_str L t = Inr p)
    \<and> (\<exists>t. source_to_string L node_of p = Some t \<and> kore_json_from_str L t = Inr p)"
  using written_texts [OF assms(1)] document_read [OF assms] by blast

definition sample_json_pattern :: pattern where
  "sample_json_pattern =
     PExists (SortVariable (lit ''S'')) \<lparr>var_kind = Element, var_name = lit ''X'', var_sort = SortApplication (lit ''SortInt'') []\<rparr>
       (PAnd (SortVariable (lit ''S''))
         [PApplication \<lparr>symbol_name = lit ''f'', sort_parameters = []\<rparr> [PString [0x61]],
          PDomainValue (SortApplication (lit ''SortBytes'') []) [0xFF, 0]])"

theorem kore_json_round_trip_witness:
  "\<exists>t. to_json_string_pretty sample_library sample_json_pattern = Some t
     \<and> kore_json_from_str sample_library t = Inr sample_json_pattern"
proof -
  have "json_pattern sample_json_pattern"
  proof -
    have "canonical [0x61] Utf8 = [0x61]" "canonical [0xFF, 0] Bytes = [0xFF, 0]" by code_simp+
    then show ?thesis
      by (simp add: sample_json_pattern_def json_variable_def json_symbol_ok_def identifier_problems_Nil
          symbol_problems_Nil char_class_defs is_scalar_def bytes_sort_name_def)
  qed
  then show ?thesis using kore_json_round_trip [OF sample_kore_laws] by blast
qed

end
