(* ===== verification/Kore_Json_Safety.thy ===== *)
theory Kore_Json_Safety
  imports Kore_Json_Roundtrip
begin

text \<open>
  What \<open>from_str\<close> returns: an error, or a pattern that KORE JSON represents. No \<open>expect\<close> fails: a head
  is finished with as many children as it needs, and a value of the sort of bytes has passed the
  check that its characters are bytes.
\<close>

section \<open>The strings of a tree\<close>

function json_strings :: "json_node \<Rightarrow> bool" where
  "json_strings n \<longleftrightarrow> (\<forall>v. into_string n = Some v \<longrightarrow> valid_str v) \<and> (\<forall>c \<in> set (json_children n). json_strings c)"
  by pat_completeness auto
termination
  by (relation "measure size") (auto dest: json_children_size)

declare json_strings.simps [simp del]

lemma json_strings_iff [simp]:
  "json_strings JNull" "json_strings (JBool b)" "json_strings (JNumber token)" "json_strings (JString v) \<longleftrightarrow> valid_str v"
  "json_strings (JArray elems) \<longleftrightarrow> (\<forall>c \<in> set elems. json_strings c)"
  "json_strings (JObject ms) \<longleftrightarrow> (\<forall>m \<in> set ms. json_strings (snd m))"
  by (subst json_strings.simps; auto)+

fun frame_strings :: "json_frame \<Rightarrow> bool" where
  "frame_strings (FArray elems) \<longleftrightarrow> (\<forall>c \<in> set elems. json_strings c)"
| "frame_strings (FObject members _) \<longleftrightarrow> (\<forall>m \<in> set members. json_strings (snd m))"

definition state_strings :: "parse_state \<Rightarrow> bool" where
  "state_strings st \<longleftrightarrow> (\<forall>f \<in> set (ps_stack st). frame_strings f) \<and> (\<forall>n. ps_root st = Some n \<longrightarrow> json_strings n)"

lemma slice_valid: "str_slice bs i j = Some s \<Longrightarrow> valid_str s"
  using utf8_prefix_decodes [of "take (j - i) (drop i bs)"]
  by (auto simp: str_slice_def split: if_splits) (metis prod.collapse)

lemma string_loop_valid:
  "jp_string_loop L start escaped p = Inr (s, q) \<Longrightarrow> (\<And>x t. jl_read_string L x = Inr t \<Longrightarrow> valid_str t) \<Longrightarrow> valid_str s"
proof (induction L start escaped p rule: jp_string_loop.induct)
  case (1 L start escaped p)
  obtain b where b: "jp_get p = Some b"
    using "1.prems"(1) by (subst (asm) jp_string_loop.simps) (auto split: option.splits)
  consider "b = 34" | "b = 92" | "b \<noteq> 34" "b \<noteq> 92" by blast
  then show ?case
  proof cases
    case 1
    then show ?thesis
      using "1.prems"(1) b slice_valid "1.prems"(2) by (subst (asm) jp_string_loop.simps)
        (auto simp: Let_def split: if_splits option.splits sum.splits)
  next
    case 2
    then show ?thesis
      using "1.prems"(1) b "1.IH"(1) [OF b _ 2 refl _ _ "1.prems"(2)] by (subst (asm) jp_string_loop.simps)
        (auto simp: Let_def split: if_splits)
  next
    case 3
    then show ?thesis
      using "1.prems"(1) b "1.IH"(2) [OF b 3 _ _ "1.prems"(2)] by (subst (asm) jp_string_loop.simps)
        (auto split: if_splits)
  qed
qed

lemma string_valid: "kore_json_laws L \<Longrightarrow> jp_string L p = Inr (s, q) \<Longrightarrow> valid_str s"
  using string_loop_valid [of L _ False _ s q] kore_law(4) [of L] by (auto simp: jp_string_def elim!: and_thenE)

lemma value_strings:
  assumes "kore_json_laws L" and "jp_value L p = Inr (VNode n, q)"
  shows "json_strings n"
proof -
  have "jp_literal token n' p = Inr (VNode n, q) \<Longrightarrow> n = n'" for token n'
    by (auto simp: jp_literal_def split: if_splits)
  then show ?thesis
    using assms(2) string_valid [OF assms(1)]
    by (auto simp: jp_value_def elim!: and_thenE split: option.splits if_splits) force+
qed

text \<open>The state of the parser keeps trees of valid strings only.\<close>

lemma attach_strings: "attach n st = Inr st' \<Longrightarrow> json_strings n \<Longrightarrow> state_strings st \<Longrightarrow> state_strings st'"
  by (auto simp: attach_def state_strings_def split: list.splits json_frame.splits option.splits)

lemma pop_strings: "state_strings st \<Longrightarrow> ps_stack st = f # stack \<Longrightarrow> frame_strings f \<and> state_strings (st\<lparr>ps_stack := stack\<rparr>)"
  by (auto simp: state_strings_def)

lemma close_array_strings:
  assumes "close_array st = Inr st'" and "state_strings st"
  shows "state_strings st'"
proof -
  obtain elems stack where "ps_stack st = FArray elems # stack" "attach (JArray elems) (st\<lparr>ps_stack := stack\<rparr>) = Inr st'"
    using assms(1) by (auto simp: close_array_def split: list.splits json_frame.splits)
  then show ?thesis using attach_strings pop_strings [OF assms(2)] by fastforce
qed

lemma close_object_strings:
  assumes "close_object st = Inr st'" and "state_strings st"
  shows "state_strings st'"
proof -
  obtain members key stack where "ps_stack st = FObject members key # stack"
    "attach (JObject members) (st\<lparr>ps_stack := stack\<rparr>) = Inr st'"
    using assms(1) by (auto simp: close_object_def split: list.splits json_frame.splits)
  then show ?thesis using attach_strings pop_strings [OF assms(2)] by fastforce
qed

lemma read_key_strings: "read_key L st = Inr st' \<Longrightarrow> state_strings st \<Longrightarrow> state_strings st'"
  by (auto simp: read_key_def state_strings_def elim!: and_thenE split: list.splits json_frame.splits if_splits)

lemma read_value_strings:
  assumes "kore_json_laws L" and "read_value L st = Inr st'" and "state_strings st"
  shows "state_strings st'"
proof -
  obtain start p where v: "jp_value L (ps_parser st) = Inr (start, p)" using assms(2) by (auto simp: read_value_def elim!: and_thenE)
  show ?thesis
  proof (cases start)
    case (VNode n)
    then have "attach n (st\<lparr>ps_parser := p\<rparr>) = Inr st'" using assms(2) v by (simp add: read_value_def Let_def)
    moreover have "json_strings n" using value_strings [OF assms(1)] v VNode by blast
    moreover have "state_strings (st\<lparr>ps_parser := p\<rparr>)" using assms(3) by (simp add: state_strings_def)
    ultimately show ?thesis by (rule attach_strings)
  qed (use assms v in \<open>auto simp: read_value_def Let_def state_strings_def\<close>)
qed

lemma action_strings:
  assumes "kore_json_laws L" and "parse_action L st = Inr st'" and "state_strings st"
  shows "state_strings st'"
proof -
  have "state_strings (st\<lparr>ps_parser := p, ps_action := a\<rparr>)" "state_strings (st\<lparr>ps_parser := p\<rparr>)"
    "state_strings (st\<lparr>ps_action := a\<rparr>)" for p a
    using assms(3) by (simp_all add: state_strings_def)
  note kept = this
  show ?thesis
    using assms(2) read_value_strings [OF assms(1) _ assms(3)] read_key_strings [OF _ assms(3)]
      close_array_strings [OF _ kept(2)] close_object_strings [OF _ kept(2)] kept
    by (simp add: parse_action_def Let_def split: json_action.splits if_splits) metis+
qed

lemma parse_loop_strings: "parse_loop L st = Inr n \<Longrightarrow> kore_json_laws L \<Longrightarrow> state_strings st \<Longrightarrow> json_strings n"
proof (induction L st rule: parse_loop.induct)
  case (1 L st)
  let ?st = "st\<lparr>ps_parser := jp_whitespace (ps_parser st)\<rparr>"
  have st: "state_strings ?st" using "1.prems"(3) by (simp add: state_strings_def)
  show ?case
  proof (cases "ps_action st = AFinished")
    case True
    then have "parse_finish ?st = Inr n" using "1.prems"(1) by (simp add: parse_loop.simps [of L st])
    then show ?thesis using st by (auto simp: parse_finish_def state_strings_def Let_def split: if_splits option.splits)
  next
    case False
    then obtain st' where "parse_action L ?st = Inr st'" "parse_loop L st' = Inr n"
      using "1.prems"(1) by (auto simp: parse_loop.simps [of L st] elim!: and_thenE)
    then show ?thesis using "1.IH" [OF refl] False "1.prems"(2) action_strings [OF "1.prems"(2) _ st] by simp
  qed
qed

lemma parse_strings: "kore_json_laws L \<Longrightarrow> json_parse L x = Inr n \<Longrightarrow> json_strings n"
  using parse_loop_strings [of L _ n] unfolding json_parse_def by (force simp: state_strings_def)

section \<open>No panic, and a property of the result\<close>

definition yields :: "('a \<Rightarrow> bool) \<Rightarrow> kore_json_error + 'a \<Rightarrow> bool" where
  "yields P r \<longleftrightarrow> (case r of Inl e \<Rightarrow> e \<noteq> JPanicked | Inr a \<Rightarrow> P a)"

lemma yields_simps [simp]: "yields P (Inr a) \<longleftrightarrow> P a" "yields P (Inl e) \<longleftrightarrow> e \<noteq> JPanicked"
  by (simp_all add: yields_def)

lemma yields_bind: "yields Q m \<Longrightarrow> (\<And>a. Q a \<Longrightarrow> yields P (f a)) \<Longrightarrow> yields P (and_then m f)"
  by (cases m) auto

lemma yields_bind2: "yields (\<lambda>(a, b). Q a b) m \<Longrightarrow> (\<And>a b. Q a b \<Longrightarrow> yields P (f a b)) \<Longrightarrow> yields P (and_then m (\<lambda>(a, b). f a b))"
  by (cases m) auto

lemma yields_collect: "(\<And>x. x \<in> set xs \<Longrightarrow> yields P (f x)) \<Longrightarrow>
    yields (\<lambda>ys. length ys = length xs \<and> (\<forall>y \<in> set ys. P y)) (collect_results f xs)"
proof (induction xs)
  case (Cons x xs)
  then have "yields P (f x)" "yields (\<lambda>ys. length ys = length xs \<and> (\<forall>y \<in> set ys. P y)) (collect_results f xs)" by simp_all
  then show ?case by (cases "f x"; cases "collect_results f xs") simp_all
qed simp

definition fields_ok :: "json_fields \<Rightarrow> bool" where
  "fields_ok fs \<longleftrightarrow> (\<forall>m \<in> set fs. json_strings (snd m))"

lemma new_fields_yields: "json_strings n \<Longrightarrow> yields fields_ok (new_fields n)"
  by (cases n) (auto simp: new_fields_def fields_ok_def)

lemma take_field_ok:
  assumes "fields_ok fs" and "take_field name fs = (r, fs')"
  shows "fields_ok fs' \<and> (\<forall>n. r = Some n \<longrightarrow> json_strings n)"
proof (cases r)
  case (Some n)
  have "set_mset (add_mset (name, n) (mset fs')) = set_mset (mset fs)"
    using take_field_Some assms(2) by (metis Some)
  then show ?thesis using assms(1) Some unfolding fields_ok_def set_mset_add_mset_insert set_mset_mset by force
qed (use assms take_field_None in auto)

lemma required_yields: "fields_ok fs \<Longrightarrow> yields (\<lambda>(n, fs). json_strings n \<and> fields_ok fs) (required name fs)"
  using take_field_ok [of fs name] by (auto simp: required_def split: prod.split option.split)

lemma expect_string_yields: "json_strings n \<Longrightarrow> yields valid_str (expect_string n field)"
  by (cases n) (simp_all add: expect_string_def)

lemma expect_array_yields: "json_strings n \<Longrightarrow> yields (\<lambda>ns. \<forall>n \<in> set ns. json_strings n) (expect_array n field)"
  by (cases n) (simp_all add: expect_array_def)

lemma expect_u32_yields: "yields (\<lambda>_. True) (expect_u32 n field)"
  by (cases n) (simp_all add: expect_u32_def split: option.split)

lemma string_field_yields: "fields_ok fs \<Longrightarrow> yields (\<lambda>(s, fs). valid_str s \<and> fields_ok fs) (string_field name fs)"
  unfolding string_field_def
  by (rule yields_bind2 [OF required_yields]) (auto intro: yields_bind [OF expect_string_yields])

lemma array_field_yields:
  "fields_ok fs \<Longrightarrow> yields (\<lambda>(ns, fs). (\<forall>n \<in> set ns. json_strings n) \<and> fields_ok fs) (array_field name fs)"
  unfolding array_field_def
  by (rule yields_bind2 [OF required_yields]) (auto intro: yields_bind [OF expect_array_yields])

lemma finish_yields: "yields (\<lambda>_. True) (finish_fields fs)"
  by (auto simp: finish_fields_def split: list.split)

lemma lexical_yields: "yields (\<lambda>_. problems = []) (require_lexical kind name problems)"
  by (simp add: require_lexical_def)

lemmas field_binds = yields_bind2 [OF string_field_yields] yields_bind2 [OF array_field_yields]
  yields_bind2 [OF required_yields] yields_bind [OF lexical_yields]

definition sort_head_ok :: "json_sort_head \<times> json_node list \<Rightarrow> bool" where
  "sort_head_ok hc \<longleftrightarrow> (case fst hc of SortVariableHead s \<Rightarrow> valid_str s | SortApplicationHead s \<Rightarrow> valid_str s)
     \<and> (\<forall>c \<in> set (snd hc). json_strings c)"

lemma sort_head_yields:
  assumes "json_strings n"
  shows "yields sort_head_ok (sort_head n)"
  unfolding sort_head_def
proof (rule yields_bind [OF new_fields_yields [OF assms]], rule yields_bind2 [OF string_field_yields], assumption)
  fix tag fs assume "valid_str tag \<and> fields_ok fs"
  then have ok: "fields_ok fs" ..
  show "yields sort_head_ok
     (and_then
       (if tag = lit ''SortVar'' then
          and_then (string_field (lit ''name'') fs) (\<lambda>(name, fs). Inr ((SortVariableHead name, []), fs))
        else if tag = lit ''SortApp'' then
          and_then (string_field (lit ''name'') fs) (\<lambda>(name, fs).
          and_then (array_field (lit ''args'') fs) (\<lambda>(args, fs). Inr ((SortApplicationHead name, args), fs)))
        else shape_error (lit ''unknown variant `'' @ tag @ lit ''`, expected `SortVar` or `SortApp`''))
       (\<lambda>(result, fs). and_then (finish_fields fs) (\<lambda>_. Inr result)))"
  proof (rule yields_bind2 [where Q = "\<lambda>hc _. sort_head_ok hc"])
    show "yields sort_head_ok (and_then (finish_fields fs) (\<lambda>_. Inr hc))" if "sort_head_ok hc" for hc fs
      using that by (intro yields_bind [OF finish_yields]) simp
  qed (use ok in \<open>auto simp: sort_head_ok_def intro!: field_binds simp del: list.map\<close>)
qed

lemma read_sort_yields: "json_strings n \<Longrightarrow> yields valid_sort (read_sort n)"
proof (induction n rule: measure_induct_rule [of json_nodes])
  case (less n)
  show ?case
  proof (cases "sort_head n")
    case (Inl e)
    then show ?thesis using sort_head_yields [OF less.prems] by (simp add: read_sort.simps [of n])
  next
    case (Inr hc)
    then have hc: "sort_head_ok hc" using sort_head_yields [OF less.prems] by simp
    have "yields valid_sort (read_sort c)" if "c \<in> set (snd hc)" for c
      using less.IH [of c] children_weight [of n "fst hc" "snd hc" c] Inr hc that by (simp add: sort_head_ok_def)
    then have "yields (\<lambda>ss. length ss = length (snd hc) \<and> (\<forall>s \<in> set ss. valid_sort s)) (collect_results read_sort (snd hc))"
      by (rule yields_collect)
    then have "yields valid_sort (and_then (collect_results read_sort (snd hc)) (\<lambda>ss. Inr (finish_sort (fst hc) ss)))"
      by (rule yields_bind)
        (use hc in \<open>auto simp: finish_sort_def finish_sort_frame_def sort_head_ok_def split: json_sort_head.splits\<close>)
    then show ?thesis by (simp add: read_sort.simps [of n] Inr)
  qed
qed

lemma sort_field_yields: "fields_ok fs \<Longrightarrow> yields (\<lambda>(s, fs). valid_sort s \<and> fields_ok fs) (sort_field name fs)"
  unfolding sort_field_def build_sort_read
  by (rule yields_bind2 [OF required_yields]) (auto intro: yields_bind [OF read_sort_yields])

lemma json_symbol_yields:
  assumes "symbol_problems name = []" and "\<forall>n \<in> set sorts. json_strings n"
  shows "yields json_symbol_ok (json_symbol name sorts)"
proof -
  have "yields (\<lambda>ss. length ss = length sorts \<and> (\<forall>s \<in> set ss. valid_sort s)) (collect_results build_sort sorts)"
    using assms(2) by (intro yields_collect) (simp add: build_sort_read read_sort_yields)
  then show ?thesis
    unfolding json_symbol_def by (rule yields_bind) (simp add: json_symbol_ok_def assms(1))
qed

section \<open>Pattern heads\<close>

text \<open>The names and values of a head, and the number of its children.\<close>

fun head_ok :: "json_pattern_head \<Rightarrow> nat \<Rightarrow> bool" where
  "head_ok (HeadString v) k \<longleftrightarrow> valid_str v"
| "head_ok (HeadVariable x) k \<longleftrightarrow> json_variable x"
| "head_ok (HeadApplication symb) k \<longleftrightarrow> json_symbol_ok symb"
| "head_ok (HeadTop s) k \<longleftrightarrow> valid_sort s"
| "head_ok (HeadBottom s) k \<longleftrightarrow> valid_sort s"
| "head_ok (HeadAnd s) k \<longleftrightarrow> valid_sort s"
| "head_ok (HeadOr s) k \<longleftrightarrow> valid_sort s"
| "head_ok (HeadNot s) k \<longleftrightarrow> valid_sort s \<and> k = 1"
| "head_ok (HeadNext s) k \<longleftrightarrow> valid_sort s \<and> k = 1"
| "head_ok (HeadImplies s) k \<longleftrightarrow> valid_sort s \<and> k = 2"
| "head_ok (HeadIff s) k \<longleftrightarrow> valid_sort s \<and> k = 2"
| "head_ok (HeadRewrites s) k \<longleftrightarrow> valid_sort s \<and> k = 2"
| "head_ok (HeadExists s x) k \<longleftrightarrow> valid_sort s \<and> var_kind x = Element \<and> json_variable x \<and> k = 1"
| "head_ok (HeadForall s x) k \<longleftrightarrow> valid_sort s \<and> var_kind x = Element \<and> json_variable x \<and> k = 1"
| "head_ok (HeadMu x) k \<longleftrightarrow> var_kind x = SetVar \<and> json_variable x \<and> k = 1"
| "head_ok (HeadNu x) k \<longleftrightarrow> var_kind x = SetVar \<and> json_variable x \<and> k = 1"
| "head_ok (HeadCeil s t) k \<longleftrightarrow> valid_sort s \<and> valid_sort t \<and> k = 1"
| "head_ok (HeadFloor s t) k \<longleftrightarrow> valid_sort s \<and> valid_sort t \<and> k = 1"
| "head_ok (HeadEquals s t) k \<longleftrightarrow> valid_sort s \<and> valid_sort t \<and> k = 2"
| "head_ok (HeadIn s t) k \<longleftrightarrow> valid_sort s \<and> valid_sort t \<and> k = 2"
| "head_ok (HeadDomainValue s v) k \<longleftrightarrow> valid_sort s \<and> valid_str v
     \<and> (of_domain_value s = Bytes \<longrightarrow> (\<forall>c \<in> set v. c \<le> 0xFF))"
| "head_ok (HeadMultiOr side s) k \<longleftrightarrow> valid_sort s"
| "head_ok (HeadAssociative a symb) k \<longleftrightarrow> json_symbol_ok symb"

definition head_yields :: "(json_fields \<Rightarrow> head_result) \<Rightarrow> bool" where
  "head_yields h \<longleftrightarrow> (\<forall>fs. fields_ok fs \<longrightarrow>
     yields (\<lambda>(hc, _). head_ok (fst hc) (length (snd hc)) \<and> (\<forall>c \<in> set (snd hc). json_strings c)) (h fs))"

lemmas head_binds = field_binds yields_bind2 [OF sort_field_yields] yields_bind [OF json_symbol_yields]

lemma heads_yield:
  "head_yields string_head" "head_yields (variable_head kind)" "head_yields application_head"
  "head_yields (constant_head HeadTop)" "head_yields (constant_head HeadBottom)"
  "head_yields (unary_head HeadNot arg)" "head_yields (unary_head HeadNext arg)"
  "head_yields (binary_head HeadImplies l r)" "head_yields (binary_head HeadIff l r)" "head_yields (binary_head HeadRewrites l r)"
  "head_yields (quantifier_head HeadExists)" "head_yields (quantifier_head HeadForall)"
  "head_yields (fixpoint_head HeadMu)" "head_yields (fixpoint_head HeadNu)"
  "head_yields (round_head HeadCeil)" "head_yields (round_head HeadFloor)"
  "head_yields (predicate_head HeadEquals)" "head_yields (predicate_head HeadIn)"
  "head_yields (associative_head a)"
  unfolding head_yields_def string_head_def variable_head_def application_head_def constant_head_def
    unary_head_def binary_head_def quantifier_head_def fixpoint_head_def round_head_def predicate_head_def
    associative_head_def
  by (auto intro!: head_binds simp: json_variable_def simp del: list.map)

lemma connective_yields:
  assumes "\<And>s k. head_ok (f s) k \<longleftrightarrow> valid_sort s"
  shows "head_yields (connective_head f)"
  unfolding head_yields_def connective_head_def
proof (intro allI impI, rule yields_bind2 [OF sort_field_yields], assumption)
  fix fs s fs' assume "valid_sort s \<and> fields_ok fs'"
  then have s: "valid_sort s" and fs': "fields_ok fs'" by simp_all
  have pair: "yields (\<lambda>(cs, _). \<forall>c \<in> set cs. json_strings c)
      (and_then (required (lit ''first'') fs) (\<lambda>(p, fs).
       and_then (required (lit ''second'') fs) (\<lambda>(q, fs). Inr ([p, q], fs))))" if "fields_ok fs" for fs
    using that by (auto intro!: field_binds simp del: list.map)
  have patterns: "yields (\<lambda>(cs, _). \<forall>c \<in> set cs. json_strings c)
      (and_then (expect_array n (lit ''patterns'')) (\<lambda>ps. Inr (ps, fs)))" if "json_strings n" for n fs
    using that by (auto intro!: yields_bind [OF expect_array_yields] simp del: list.map)
  have "yields (\<lambda>(cs, _). \<forall>c \<in> set cs. json_strings c)
     (case take_field (lit ''patterns'') fs' of
          (Some patterns, fs) \<Rightarrow>
            (case take_field (lit ''first'') fs of
               (Some _, fs) \<Rightarrow> shape_error (lit ''unknown field `first`'')
             | (None, fs) \<Rightarrow>
                 (case take_field (lit ''second'') fs of
                    (Some _, fs) \<Rightarrow> shape_error (lit ''unknown field `second`'')
                  | (None, fs) \<Rightarrow> and_then (expect_array patterns (lit ''patterns'')) (\<lambda>ps. Inr (ps, fs))))
        | (None, fs) \<Rightarrow>
            and_then (required (lit ''first'') fs) (\<lambda>(p, fs).
            and_then (required (lit ''second'') fs) (\<lambda>(q, fs). Inr ([p, q], fs))))"
    by (auto intro!: pair patterns dest!: take_field_ok [OF fs'] simp del: list.map split: prod.split option.split)
  then show "yields (\<lambda>(hc, _). head_ok (fst hc) (length (snd hc)) \<and> (\<forall>c \<in> set (snd hc). json_strings c))
     (and_then
       (case take_field (lit ''patterns'') fs' of
          (Some patterns, fs) \<Rightarrow>
            (case take_field (lit ''first'') fs of
               (Some _, fs) \<Rightarrow> shape_error (lit ''unknown field `first`'')
             | (None, fs) \<Rightarrow>
                 (case take_field (lit ''second'') fs of
                    (Some _, fs) \<Rightarrow> shape_error (lit ''unknown field `second`'')
                  | (None, fs) \<Rightarrow> and_then (expect_array patterns (lit ''patterns'')) (\<lambda>ps. Inr (ps, fs))))
        | (None, fs) \<Rightarrow>
            and_then (required (lit ''first'') fs) (\<lambda>(p, fs).
            and_then (required (lit ''second'') fs) (\<lambda>(q, fs). Inr ([p, q], fs))))
       (\<lambda>(children, fs). Inr ((f s, children), fs)))"
    by (rule yields_bind2) (simp add: assms s)
qed

lemma domain_value_yields: "head_yields domain_value_head"
  unfolding head_yields_def domain_value_head_def
  by (auto intro!: head_binds simp: latin1_problems_Nil simp del: list.map)

lemma multi_or_yields: "head_yields multi_or_head"
proof -
  have side: "yields (\<lambda>_. True)
       (if assoc = lit ''Left'' then Inr JLeft
        else if assoc = lit ''Right'' then Inr JRight
        else shape_error (lit ''unknown variant `'' @ assoc @ lit ''`, expected `Left` or `Right`''))" for assoc
    by (simp del: list.map)
  show ?thesis
    unfolding head_yields_def multi_or_head_def
    by (auto intro!: head_binds yields_bind [OF side] simp del: list.map)
qed

lemma tagged_heads_yield: "map_of tagged_heads tag = Some h \<Longrightarrow> head_yields h"
  by (auto simp: tagged_heads_def heads_yield connective_yields domain_value_yields multi_or_yields split: if_splits)

lemma pattern_head_yields:
  assumes "json_strings n"
  shows "yields (\<lambda>hc. head_ok (fst hc) (length (snd hc)) \<and> (\<forall>c \<in> set (snd hc). json_strings c)) (pattern_head n)"
  unfolding pattern_head_def
proof (rule yields_bind [OF new_fields_yields [OF assms]], rule yields_bind2 [OF string_field_yields], assumption)
  fix tag fs assume "valid_str tag \<and> fields_ok fs"
  then have "yields (\<lambda>(hc, _). head_ok (fst hc) (length (snd hc)) \<and> (\<forall>c \<in> set (snd hc). json_strings c)) (h fs)"
    if "map_of tagged_heads tag = Some h" for h
    using tagged_heads_yield [OF that] by (simp add: head_yields_def)
  then have "yields (\<lambda>(hc, _). head_ok (fst hc) (length (snd hc)) \<and> (\<forall>c \<in> set (snd hc). json_strings c))
     (case map_of tagged_heads tag of
          Some head \<Rightarrow> head fs
        | None \<Rightarrow> shape_error (lit ''unknown variant `'' @ tag @ lit ''`, expected a KORE pattern tag''))"
    by (simp split: option.split)
  then show "yields (\<lambda>hc. head_ok (fst hc) (length (snd hc)) \<and> (\<forall>c \<in> set (snd hc). json_strings c))
     (and_then
       (case map_of tagged_heads tag of
          Some head \<Rightarrow> head fs
        | None \<Rightarrow> shape_error (lit ''unknown variant `'' @ tag @ lit ''`, expected a KORE pattern tag''))
       (\<lambda>(result, fs). and_then (finish_fields fs) (\<lambda>_. Inr result)))"
    by (rule yields_bind2) (auto intro: yields_bind [OF finish_yields])
qed

section \<open>Patterns\<close>

lemma multi_or_ok: "valid_sort s \<Longrightarrow> \<forall>p \<in> set ps. json_pattern p \<Longrightarrow> yields json_pattern (multi_or side s ps)"
proof -
  assume s: "valid_sort s" and ps: "\<forall>p \<in> set ps. json_pattern p"
  have left: "json_pattern (fold (\<lambda>right left. POr s [left, right]) qs p)" if "json_pattern p" "\<forall>q \<in> set qs. json_pattern q" for p qs
    using that s by (induction qs arbitrary: p) auto
  have right: "json_pattern (fold (\<lambda>left right. POr s [left, right]) qs p)" if "json_pattern p" "\<forall>q \<in> set qs. json_pattern q" for p qs
    using that s by (induction qs arbitrary: p) auto
  show ?thesis
  proof (cases ps)
    case (Cons p qs)
    then have pqs: "json_pattern p" "\<forall>q \<in> set qs. json_pattern q" using ps by simp_all
    obtain final rest where r: "rev (p # qs) = final # rest" by (cases "rev (p # qs)") simp_all
    then have "set (final # rest) = set (p # qs)" by (metis set_rev)
    then have "json_pattern final" "\<forall>q \<in> set rest. json_pattern q" using pqs by auto
    then have "yields json_pattern (multi_or JRight s (p # qs))"
      unfolding multi_or.simps r by (simp add: right)
    then show ?thesis using left [OF pqs] by (cases side) (simp_all add: Cons)
  qed simp
qed

lemma stored_canonical:
  assumes "valid_str v" and "enc = Bytes \<longrightarrow> (\<forall>c \<in> set v. c \<le> 0xFF)"
  shows "\<exists>w. json_string_bytes v enc = Some w \<and> canonical w enc = w"
proof -
  have "collect_options (\<lambda>c. if c < 256 then Some (byte_of c) else None) v = Some (map byte_of v)" if "\<forall>c \<in> set v. c \<le> 0xFF"
    using that by (intro collect_options_all) (auto simp: less_Suc_eq_le)
  then have "\<exists>w. store enc v = Some w" using assms(2) by (cases enc) auto
  then show ?thesis using canonical_store [OF assms(1)] by (auto simp: json_string_bytes_store)
qed

lemma finish_pattern_yields:
  assumes "head_ok h (length ps)" and "\<forall>p \<in> set ps. json_pattern p"
  shows "yields json_pattern (finish_pattern h ps)"
proof -
  have one: "yields json_pattern (with_child build ps)" if "length ps = 1" "\<And>p. json_pattern p \<Longrightarrow> json_pattern (build p)" for build
    using that assms(2) by (auto simp: length_Suc_conv)
  have two: "yields json_pattern (with_children build ps)"
    if "length ps = 2" "\<And>p q. json_pattern p \<Longrightarrow> json_pattern q \<Longrightarrow> json_pattern (build p q)" for build
    using that assms(2) by (auto simp: numeral_2_eq_2 length_Suc_conv)
  show ?thesis
  proof (cases h)
    case (HeadString v)
    then show ?thesis
      using assms(1) stored_canonical [of v Utf8] by (auto simp: finish_pattern_def finish_pattern_frame_def)
  next
    case (HeadDomainValue s v)
    then show ?thesis
      using assms(1) stored_canonical [of v "of_domain_value s"] by (auto simp: finish_pattern_def finish_pattern_frame_def)
  next
    case (HeadMultiOr side s)
    then show ?thesis
      using assms multi_or_ok [of s ps side] by (simp add: finish_pattern_def finish_pattern_frame_def)
  qed (use assms in \<open>auto simp: finish_pattern_def finish_pattern_frame_def intro!: one two\<close>)
qed

lemma read_pattern_yields: "json_strings n \<Longrightarrow> yields json_pattern (read_pattern n)"
proof (induction n rule: measure_induct_rule [of json_nodes])
  case (less n)
  show ?case
  proof (cases "pattern_head n")
    case (Inl e)
    then show ?thesis using pattern_head_yields [OF less.prems] by (simp add: read_pattern.simps [of n])
  next
    case (Inr hc)
    then have hc: "head_ok (fst hc) (length (snd hc))" "\<forall>c \<in> set (snd hc). json_strings c"
      using pattern_head_yields [OF less.prems] by simp_all
    have "yields json_pattern (read_pattern c)" if "c \<in> set (snd hc)" for c
      using less.IH [of c] pattern_children_weight [of n "fst hc" "snd hc" c] Inr hc(2) that by simp
    then have "yields (\<lambda>ps. length ps = length (snd hc) \<and> (\<forall>p \<in> set ps. json_pattern p)) (collect_results read_pattern (snd hc))"
      by (rule yields_collect)
    then have "yields json_pattern (and_then (collect_results read_pattern (snd hc)) (finish_pattern (fst hc)))"
      by (rule yields_bind) (use hc(1) finish_pattern_yields in auto)
    then show ?thesis by (simp add: read_pattern.simps [of n] Inr)
  qed
qed

lemma read_document_yields:
  assumes "json_strings n"
  shows "yields json_pattern (read_document n)"
  unfolding read_document_def
  by (rule yields_bind [OF new_fields_yields [OF assms]])
    (auto intro!: field_binds yields_bind [OF expect_u32_yields] read_pattern_yields simp del: list.map)

lemma from_str_yields:
  assumes "kore_json_laws L" and "valid_str x"
  shows "yields json_pattern (kore_json_from_str L x)"
proof (cases "json_parse L x")
  case (Inl e)
  then have "error_at x e" using json_parse_error [OF assms(2)] by simp
  then show ?thesis by (auto simp: from_str_document Inl error_at_def)
next
  case (Inr n)
  then show ?thesis using read_document_yields parse_strings [OF assms(1)] by (simp add: from_str_document)
qed

text \<open>C27: Reading any text as KORE JSON returns an error or a pattern that KORE JSON represents, never a
  panic; and what is read, written again in any of the three ways, reads as the same pattern.\<close>

theorem kore_json_from_str_safe:
  assumes "kore_json_laws L" and "valid_str x"
  shows "case kore_json_from_str L x of
      Inl e \<Rightarrow> e \<noteq> JPanicked
    | Inr p \<Rightarrow> json_pattern p
        \<and> (\<exists>t. to_json_string L p = Some t \<and> kore_json_from_str L t = Inr p)
        \<and> (\<exists>t. to_json_string_pretty L p = Some t \<and> kore_json_from_str L t = Inr p)
        \<and> (\<exists>t. source_to_string L node_of p = Some t \<and> kore_json_from_str L t = Inr p)"
proof (cases "kore_json_from_str L x")
  case (Inr p)
  then have "json_pattern p" using from_str_yields [OF assms] by simp
  then show ?thesis using written_texts [OF assms(1)] document_read [OF assms(1)] by (simp add: Inr)
qed (use from_str_yields [OF assms] in simp)

text \<open>A text that reads as a pattern, and one that is no document.\<close>

theorem kore_json_from_str_safe_witness:
  "(\<exists>x. kore_json_from_str sample_library x = Inr (PTop (SortVariable (lit ''S'')))
      \<and> json_pattern (PTop (SortVariable (lit ''S''))))
   \<and> kore_json_from_str sample_library (lit ''{}'') = Inl (JShape (lit ''missing field `format`''))
   \<and> JShape (lit ''missing field `format`'') \<noteq> JPanicked"
proof -
  let ?p = "PTop (SortVariable (lit ''S''))"
  let ?x = "text_of_json sample_library False (envelope_json Schema ?p)"
  have p: "json_pattern ?p" by (simp add: is_scalar_def)
  have "valid_str ?x"
    using json_text_valid [OF kore_law(1) [OF sample_kore_laws] compact_blank.blank_nl _ envelope_ok [OF sample_kore_laws p]]
    by (simp add: text_of_json_def is_scalar_def)
  moreover have "kore_json_from_str sample_library ?x = Inr ?p" by (rule document_read [OF sample_kore_laws p])
  moreover have "kore_json_from_str sample_library (lit ''{}'') = Inl (JShape (lit ''missing field `format`''))"
    "valid_str (lit ''{}'')" by code_simp+
  ultimately show ?thesis
    using kore_json_from_str_safe [OF sample_kore_laws, of ?x] kore_json_from_str_safe [OF sample_kore_laws, of "lit ''{}''"]
    by auto
qed

end
