(* ===== verification/Kore_Codec.thy ===== *)
theory Kore_Codec
  imports Kore_Token_Stream Kore_Binary_Safety Kore_Json_Safety
begin

text \<open>
  Detection and decoding of the three encodings of a pattern (\<open>kore/codec.rs\<close>): \<open>sniff\<close> looks at the
  first bytes, \<open>decode_bytes\<close> calls the reader of the encoding found. The theorem: an input that one of
  the three readers accepts is sent to that reader, so \<open>decode_bytes\<close> reads it as the same pattern.
\<close>

section \<open>Detection\<close>

datatype kore_encoding = BinaryEncoding | JsonEncoding | TextEncoding

text \<open>\<open>Display for Encoding\<close>.\<close>

fun encoding_name :: "kore_encoding \<Rightarrow> str" where
  "encoding_name BinaryEncoding = lit ''binary''"
| "encoding_name JsonEncoding = lit ''JSON''"
| "encoding_name TextEncoding = lit ''text''"

text \<open>\<open>char::is_whitespace\<close>: the characters of the Unicode property \<open>White_Space\<close>.\<close>

definition is_unicode_space :: "uchar \<Rightarrow> bool" where
  "is_unicode_space c \<longleftrightarrow> (9 \<le> c \<and> c \<le> 13) \<or> c = 32 \<or> c = 0x85 \<or> c = 0xA0 \<or> c = 0x1680
     \<or> (0x2000 \<le> c \<and> c \<le> 0x200A) \<or> c = 0x2028 \<or> c = 0x2029 \<or> c = 0x202F \<or> c = 0x205F \<or> c = 0x3000"

definition trim_start :: "str \<Rightarrow> str" where
  "trim_start s = dropWhile is_unicode_space s"

definition sniff :: "byte list \<Rightarrow> nat + kore_encoding" where
  "sniff input =
     (if take (length MAGIC) input = MAGIC then Inr BinaryEncoding
      else and_then (from_utf8 input) (\<lambda>text.
        Inr (if trim_start text \<noteq> [] \<and> hd (trim_start text) = ch CHR ''{'' then JsonEncoding else TextEncoding)))"

section \<open>Decoding\<close>

datatype decode_cause =
    Utf8Cause nat
  | BinaryCause binary_fault
  | JsonCause kore_json_error
  | TextCause fault

datatype codec_fault = DecodeError kore_encoding decode_cause | CodecPanic

definition map_error :: "('e \<Rightarrow> 'f) \<Rightarrow> 'e + 'a \<Rightarrow> 'f + 'a" where
  "map_error f r = (case r of Inl e \<Rightarrow> Inl (f e) | Inr a \<Rightarrow> Inr a)"

lemma map_error_simps [simp]: "map_error f (Inl e) = Inl (f e)" "map_error f (Inr a) = Inr a"
  by (simp_all add: map_error_def)

text \<open>\<open>expect("sniff checked UTF-8")\<close>.\<close>

definition checked_text :: "byte list \<Rightarrow> codec_fault + str" where
  "checked_text input = map_error (\<lambda>_. CodecPanic) (from_utf8 input)"

definition decode_bytes :: "json_library \<Rightarrow> byte list \<Rightarrow> codec_fault + pattern" where
  "decode_bytes L input =
     and_then (map_error (\<lambda>e. DecodeError TextEncoding (Utf8Cause e)) (sniff input)) (\<lambda>encoding.
       case encoding of
         BinaryEncoding \<Rightarrow> map_error (\<lambda>e. DecodeError encoding (BinaryCause e)) (decode_term input)
       | JsonEncoding \<Rightarrow>
           and_then (checked_text input) (\<lambda>text.
             map_error (\<lambda>e. DecodeError encoding (JsonCause e)) (kore_json_from_str L text))
       | TextEncoding \<Rightarrow>
           and_then (checked_text input) (\<lambda>text.
             map_error (\<lambda>e. DecodeError encoding (TextCause e)) (parse_pattern text)))"

text \<open>\<open>from_value\<close>; \<open>show\<close> stands for the \<open>to_string\<close> of the JSON library's values.\<close>

definition from_value :: "json_library \<Rightarrow> ('v \<Rightarrow> str) \<Rightarrow> 'v \<Rightarrow> kore_json_error + pattern" where
  "from_value L show v = kore_json_from_str L (show v)"

lemma sniff_text_valid: "sniff bs = Inr e \<Longrightarrow> e \<noteq> BinaryEncoding \<Longrightarrow> \<exists>t. from_utf8 bs = Inr t"
  by (auto simp: sniff_def elim!: and_thenE split: if_splits)

lemma decode_bytes_expect: "decode_bytes L bs \<noteq> Inl CodecPanic"
proof (cases "sniff bs")
  case (Inr e)
  then show ?thesis
    using sniff_text_valid [OF Inr]
    by (cases e) (auto simp: decode_bytes_def map_error_def checked_text_def split: sum.splits)
qed (simp add: decode_bytes_def)

section \<open>Binary input\<close>

lemma binary_magic: "decode_term bs = Inr p \<Longrightarrow> take (length MAGIC) bs = MAGIC"
  by (auto simp: decode_term_def decode_block_def new_decoder_def elim!: and_thenE split: if_splits)

text \<open>A text that begins with the magic bytes begins with the character DEL.\<close>

lemma magic_text:
  assumes "take (length MAGIC) (str_bytes t) = MAGIC" and "valid_str t"
  shows "\<exists>r. t = 127 # r"
proof (cases t)
  case Nil
  then show ?thesis using assms(1) by (simp add: MAGIC_def)
next
  case (Cons c r)
  have "hd (str_bytes t) = hd MAGIC"
    using assms(1) hd_take [of "length MAGIC" "str_bytes t"] by (simp add: MAGIC_def)
  moreover have "hd (str_bytes t) = hd (encode_utf8 c)"
    using utf8.enc_nonempty [of c] assms(2) by (cases "encode_utf8 c") (simp_all add: Cons)
  ultimately have first: "hd (encode_utf8 c) = 0x7F" by (simp add: MAGIC_def)
  have "c = 127"
  proof (cases "c < 128")
    case True
    then have "byte_of c = 127" using first by (simp add: encode_ascii)
    then show ?thesis using byte_of_numeral_iff [OF _ True] by simp
  next
    case False
    have c: "c < 0x110000" using assms(2) Cons by (auto simp: is_scalar_def)
    obtain n where n: "hd (encode_utf8 c) = byte_of n" "128 \<le> n" "n < 256"
    proof -
      consider "c < 0x800" | "0x800 \<le> c" "c < 0x10000" | "0x10000 \<le> c" by linarith
      then show ?thesis
      proof cases
        case 1
        then show ?thesis using that [of "0xC0 + c div 0x40"] False by (simp add: encode_utf8_def)
      next
        case 2
        then show ?thesis using that [of "0xE0 + c div 0x1000"] False by (simp add: encode_utf8_def)
      next
        case 3
        then show ?thesis using that [of "0xF0 + c div 0x40000"] c by (simp add: encode_utf8_def)
      qed
    qed
    then have "unat (byte_of n) = 127" using first by simp
    then show ?thesis using n by simp
  qed
  then show ?thesis using Cons by simp
qed

section \<open>Text input\<close>

lemma associative_kind_no_brace [simp]: "associative_kind a \<noteq> TLBrace"
  by (cases a) simp_all

lemma pattern_first: "pattern_derives ts p \<Longrightarrow> \<exists>k x ts'. ts = (k, x) # ts' \<and> k \<noteq> TLBrace"
  by (cases rule: pattern_derives.cases)
    (auto simp: symbol_terms_def variable_terms_def elim!: atom_derives.cases split: variable_kind.split
      associativity.split)

lemma lex_first:
  assumes "list_all is_whitespace w" and "\<not> is_whitespace c" and "c \<noteq> 47" and "lex (w @ c # r) = Inr toks"
  shows "\<exists>start st kind st' tok rest. scan_token start c st = Inr (kind, st') \<and> toks = tok # rest \<and> tok_kind tok = kind"
proof -
  have "skip_trivia (lexer_at n (c # r)) = Inr (lexer_at n (c # r))" for n
    using assms(2,3) by (subst skip_trivia.simps) (auto simp: lx_skip_while_at Let_def split: list.split)
  then have "skip_trivia (lexer_at 0 (w @ c # r)) = Inr (lexer_at (str_len w) (c # r))"
    using skip_trivia_space [OF assms(1), of 0 "c # r"] by simp
  then have "lex_from (lexer_at 0 (w @ c # r))
      = and_then (scan_token (lexer_at (str_len w) (c # r)) c (lexer_at (str_len w + len_utf8 c) r)) (\<lambda>(kind, st').
          and_then (lex_from st') (\<lambda>ts.
            Inr (\<lparr>tok_kind = kind, tok_text = text_between (lexer_at (str_len w) (c # r)) st', tok_offset = str_len w\<rparr> # ts)))"
    by (subst lex_from.simps, cases "scan_token (lexer_at (str_len w) (c # r)) c (lexer_at (str_len w + len_utf8 c) r)")
      (auto simp: next_token_def)
  note eq = this
  obtain kind st' ts where "scan_token (lexer_at (str_len w) (c # r)) c (lexer_at (str_len w + len_utf8 c) r) = Inr (kind, st')"
    "toks = \<lparr>tok_kind = kind, tok_text = text_between (lexer_at (str_len w) (c # r)) st', tok_offset = str_len w\<rparr> # ts"
    using assms(4) unfolding lex_def eq by (auto simp: and_then_Inr_iff)
  then show ?thesis by fastforce
qed

lemma scan_brace: "scan_token start 123 st = Inr (kind, st') \<Longrightarrow> kind = TLBrace"
  by (simp add: scan_token_def)

lemma scan_none: "127 \<le> c \<Longrightarrow> scan_token start c st = Inl (lex_error (lx_offset start) ''unexpected character'')"
  by (simp add: scan_token_def is_ascii_alphabetic_def)

lemma text_start:
  assumes "parse_pattern t = Inr p"
  shows "\<not> (trim_start t \<noteq> [] \<and> hd (trim_start t) = 123)" and "\<nexists>r. t = 127 # r"
proof -
  obtain toks where toks: "lex t = Inr toks" "pattern_derives (map terminal toks) p"
    using assms by (auto simp: parse_pattern_iff lexes_def)
  then have no_brace: "\<nexists>tok rest. toks = tok # rest \<and> tok_kind tok = TLBrace"
    using pattern_first by (fastforce simp: terminal_def)
  show "\<nexists>r. t = 127 # r"
  proof
    assume "\<exists>r. t = 127 # r"
    then obtain r where "t = [] @ 127 # r" by auto
    then show False using lex_first [of "[]" 127 r toks] toks(1) by (auto simp: is_whitespace_def scan_none)
  qed
  show "\<not> (trim_start t \<noteq> [] \<and> hd (trim_start t) = 123)"
  proof
    assume "trim_start t \<noteq> [] \<and> hd (trim_start t) = 123"
    then obtain w r where t: "t = w @ 123 # r" "\<forall>c \<in> set w. is_unicode_space c"
      unfolding trim_start_def by (metis list.collapse set_takeWhileD takeWhile_dropWhile_id)
    show False
    proof (cases "list_all is_whitespace w")
      case True
      have "\<not> is_whitespace 123" by (simp add: is_whitespace_def)
      then obtain start st kind st' tok rest where "scan_token start 123 st = Inr (kind, st')" "toks = tok # rest" "tok_kind tok = kind"
        using lex_first [OF True, of 123 r toks] toks(1) t(1) by auto
      then show ?thesis using scan_brace no_brace by blast
    next
      case False
      define a where "a = takeWhile is_whitespace w"
      have "dropWhile is_whitespace w \<noteq> []" using False by (auto simp: list_all_iff)
      then obtain c b where "dropWhile is_whitespace w = c # b" by (cases "dropWhile is_whitespace w") auto
      moreover from this have "\<not> is_whitespace c" by (metis hd_dropWhile list.distinct(1) list.sel(1))
      ultimately have c: "w = a @ c # b" "\<not> is_whitespace c"
        unfolding a_def using takeWhile_dropWhile_id [of is_whitespace w] by simp_all
      then have "is_unicode_space c" using t(2) by simp
      then have "127 \<le> c" using c(2) by (auto simp: is_unicode_space_def is_whitespace_def)
      moreover have "list_all is_whitespace a" by (auto simp: a_def list_all_iff dest: set_takeWhileD)
      ultimately show ?thesis
        using lex_first [of a c "b @ 123 # r" toks] toks(1) c t(1) by (auto simp: scan_none)
    qed
  qed
qed

lemma sniff_text:
  assumes "valid_str t" and "parse_pattern t = Inr p"
  shows "sniff (str_bytes t) = Inr TextEncoding"
  using text_start [OF assms(2)] magic_text [OF _ assms(1)] assms(1) by (auto simp: sniff_def)

section \<open>JSON input\<close>

text \<open>A text whose first character is a bracket is an array.\<close>

definition array_root :: "parse_state \<Rightarrow> bool" where
  "array_root st \<longleftrightarrow>
     (if ps_stack st = [] then ps_action st = AFinished \<and> (\<exists>es. ps_root st = Some (JArray es))
      else ps_action st \<noteq> AFinished \<and> (\<exists>es. last (ps_stack st) = FArray es))"

lemma attach_array_root:
  assumes "attach n st = Inr st'"
  shows "ps_stack st \<noteq> [] \<Longrightarrow> array_root st \<Longrightarrow> array_root st'" and "ps_stack st = [] \<Longrightarrow> n = JArray es \<Longrightarrow> array_root st'"
  using assms by (auto simp: attach_def array_root_def split: list.splits json_frame.splits option.splits if_splits)

lemma close_array_root:
  "close_array st = Inr st' \<Longrightarrow> array_root st \<Longrightarrow> array_root st'"
  "close_object st = Inr st' \<Longrightarrow> array_root st \<Longrightarrow> array_root st'"
proof -
  assume c: "close_array st = Inr st'" and a: "array_root st"
  then obtain es stack where s: "ps_stack st = FArray es # stack" "attach (JArray es) (st\<lparr>ps_stack := stack\<rparr>) = Inr st'"
    by (auto simp: close_array_def split: list.splits json_frame.splits)
  show "array_root st'"
  proof (cases "stack = []")
    case True
    then show ?thesis using attach_array_root(2) [OF s(2)] by simp
  next
    case False
    then show ?thesis using attach_array_root(1) [OF s(2)] a s(1) by (simp add: array_root_def)
  qed
next
  assume c: "close_object st = Inr st'" and a: "array_root st"
  then obtain ms key stack where s: "ps_stack st = FObject ms key # stack" "attach (JObject ms) (st\<lparr>ps_stack := stack\<rparr>) = Inr st'"
    by (auto simp: close_object_def split: list.splits json_frame.splits)
  have "stack \<noteq> []" using a s(1) by (auto simp: array_root_def)
  then show "array_root st'" using attach_array_root(1) [OF s(2)] a s(1) by (simp add: array_root_def)
qed

lemma read_array_root:
  assumes "ps_stack st \<noteq> []" and "array_root st"
  shows "read_value L st = Inr st' \<Longrightarrow> array_root st'" and "read_key L st = Inr st' \<Longrightarrow> array_root st'"
proof -
  assume v: "read_value L st = Inr st'"
  then obtain start p where s: "jp_value L (ps_parser st) = Inr (start, p)" by (auto simp: read_value_def elim!: and_thenE)
  show "array_root st'"
  proof (cases start)
    case (VNode n)
    then have "attach n (st\<lparr>ps_parser := p\<rparr>) = Inr st'" using v s by (simp add: read_value_def Let_def)
    then show ?thesis using attach_array_root(1) [of n "st\<lparr>ps_parser := p\<rparr>" st'] assms by (simp add: array_root_def)
  qed (use v s assms in \<open>auto simp: read_value_def Let_def array_root_def\<close>)
next
  assume "read_key L st = Inr st'"
  then show "array_root st'"
    using assms by (auto simp: read_key_def array_root_def elim!: and_thenE split: list.splits json_frame.splits if_splits)
qed

lemma action_array_root:
  assumes "ps_action st \<noteq> AFinished" and "array_root st" and "parse_action L st = Inr st'"
  shows "array_root st'"
proof -
  have stack: "ps_stack st \<noteq> []" using assms(1,2) by (auto simp: array_root_def)
  then have kept: "array_root (st\<lparr>ps_parser := p\<rparr>)" "array_root (st\<lparr>ps_parser := p, ps_action := AValue\<rparr>)"
      "array_root (st\<lparr>ps_parser := p, ps_action := AObjectKey\<rparr>)" "array_root (st\<lparr>ps_action := AValue\<rparr>)" for p
    using assms(2) by (simp_all add: array_root_def)
  show ?thesis
    using assms(3) read_array_root [OF stack assms(2)] close_array_root [OF _ kept(1)] kept
    by (simp add: parse_action_def Let_def split: json_action.splits if_splits) metis+
qed

lemma parse_loop_array: "parse_loop L st = Inr n \<Longrightarrow> array_root st \<Longrightarrow> \<exists>es. n = JArray es"
proof (induction L st rule: parse_loop.induct)
  case (1 L st)
  let ?st = "st\<lparr>ps_parser := jp_whitespace (ps_parser st)\<rparr>"
  have st: "array_root ?st" using "1.prems"(2) by (simp add: array_root_def)
  show ?case
  proof (cases "ps_action st = AFinished")
    case True
    then have f: "parse_finish ?st = Inr n" using "1.prems"(1) by (simp add: parse_loop.simps [of L st])
    then show ?thesis
      using st True by (auto simp: parse_finish_def array_root_def Let_def split: if_splits)
  next
    case False
    then obtain st' where "parse_action L ?st = Inr st'" "parse_loop L st' = Inr n"
      using "1.prems"(1) by (auto simp: parse_loop.simps [of L st] elim!: and_thenE)
    then show ?thesis using "1.IH" [OF refl] False action_array_root [OF _ st] by simp
  qed
qed

lemma value_kinds: "jp_value L p = Inr (VNode n, q) \<Longrightarrow> into_object n = None"
  by (auto simp: jp_value_def jp_literal_def elim!: and_thenE split: option.splits if_splits)

text \<open>Only a text whose first character is a brace reads as an object.\<close>

lemma object_start:
  assumes "json_parse L t = Inr n" and "into_object n = Some ms"
  shows "jp_get (jp_whitespace \<lparr>jp_input = str_bytes t, jp_cursor = 0\<rparr>) = Some 123"
proof -
  let ?q = "jp_whitespace \<lparr>jp_input = str_bytes t, jp_cursor = 0\<rparr>"
  let ?st = "\<lparr>ps_parser = ?q, ps_stack = [], ps_root = None, ps_action = AValue\<rparr>"
  obtain st' where st': "read_value L ?st = Inr st'" "parse_loop L st' = Inr n"
    using assms(1) unfolding json_parse_def
    by (subst (asm) parse_loop.simps) (auto simp: parse_action_def Let_def elim!: and_thenE)
  then obtain start p where v: "jp_value L ?q = Inr (start, p)" by (auto simp: read_value_def elim!: and_thenE)
  show ?thesis
  proof (cases start)
    case (VNode m)
    then have "st' = \<lparr>ps_parser = p, ps_stack = [], ps_root = Some m, ps_action = AFinished\<rparr>"
      using st'(1) v by (simp add: read_value_def Let_def attach_def)
    then have "n = m"
      using st'(2) by (subst (asm) parse_loop.simps) (auto simp: parse_finish_def Let_def split: if_splits)
    then show ?thesis using value_kinds v VNode assms(2) by simp
  next
    case VArray
    then have "array_root st'" using st'(1) v by (auto simp: read_value_def Let_def array_root_def)
    then show ?thesis using parse_loop_array [OF st'(2)] assms(2) by auto
  next
    case VObject
    then show ?thesis
      using v by (auto simp: jp_value_def jp_literal_def elim!: and_thenE split: option.splits if_splits)
  qed
qed

lemma skip_while_prefix:
  "at p s (w @ r) \<Longrightarrow> skips ok w \<Longrightarrow> \<exists>q. at q (s @ w) r \<and> jp_skip_while ok p = jp_skip_while ok q"
proof (induction w arbitrary: p s)
  case (Cons c w)
  have c: "jp_get p = Some (byte_of c)" "ok (byte_of c)" "at (jp_advance p 1) (s @ [c]) (w @ r)"
    using Cons.prems at_get [of p s c "w @ r"] at_advance [of p s c "w @ r"] by (auto simp: skips_def)
  then have "jp_skip_while ok p = jp_skip_while ok (jp_advance p 1)"
    by (subst jp_skip_while.simps) simp
  then show ?case using Cons.IH [OF c(3)] Cons.prems(2) by (auto simp: skips_def)
qed auto

lemma at_byte: "at p s (c # r) \<Longrightarrow> jp_get p = Some (hd (encode_utf8 c))"
  using nth_str_bytes [of "c # r" s] utf8.enc_nonempty [of c]
  by (auto simp: at_def jp_get_def length_str_bytes)

lemma high_byte: "is_scalar c \<Longrightarrow> 128 \<le> c \<Longrightarrow> 128 \<le> unat (hd (encode_utf8 c))"
proof -
  assume s: "is_scalar c" and c: "128 \<le> c"
  then have bound: "c < 0x110000" by (auto simp: is_scalar_def)
  consider "c < 0x800" | "0x800 \<le> c" "c < 0x10000" | "0x10000 \<le> c" by linarith
  then show ?thesis
  proof cases
    case 1
    then show ?thesis using unat_byte_of [of "0xC0 + c div 0x40"] c by (simp add: encode_utf8_def)
  next
    case 2
    then show ?thesis using unat_byte_of [of "0xE0 + c div 0x1000"] by (simp add: encode_utf8_def)
  next
    case 3
    then show ?thesis using unat_byte_of [of "0xF0 + c div 0x40000"] bound by (simp add: encode_utf8_def)
  qed
qed

lemma first_byte_brace:
  assumes "jp_get (jp_whitespace \<lparr>jp_input = str_bytes t, jp_cursor = 0\<rparr>) = Some 123" and "valid_str t"
  shows "\<exists>w r. t = w @ 123 # r \<and> blank w"
proof -
  define w where "w = takeWhile (\<lambda>c. c \<in> {32, 9, 13, 10}) t"
  define r where "r = dropWhile (\<lambda>c. c \<in> {32, 9, 13, 10}) t"
  have t: "t = w @ r" by (simp add: w_def r_def)
  have w: "blank w" by (auto simp: w_def blank_def dest: set_takeWhileD)
  have "at \<lparr>jp_input = str_bytes t, jp_cursor = 0\<rparr> [] (w @ r)" using assms(2) t by (simp add: at_def)
  moreover have "skips is_json_space w" using w by (auto simp: skips_def blank_def json_space_iff)
  ultimately obtain q where q: "at q w r" "jp_get (jp_skip_while is_json_space q) = Some 123"
    using skip_while_prefix [of _ "[]" w r is_json_space] assms(1) unfolding jp_whitespace_def by fastforce
  show ?thesis
  proof (cases r)
    case Nil
    then have "jp_get q = None" using q(1) at_end by simp
    then show ?thesis using q(2) by (subst (asm) jp_skip_while.simps) simp
  next
    case (Cons c r')
    have "\<not> hd r \<in> {32, 9, 13, 10}"
      unfolding r_def by (rule hd_dropWhile) (use Cons in \<open>simp add: r_def\<close>)
    moreover have "c \<in> set t" using t Cons by simp
    ultimately have c: "c \<notin> {32, 9, 13, 10}" "is_scalar c" using Cons assms(2) by (auto simp: valid_str_def list_all_iff)
    have byte: "jp_get q = Some (hd (encode_utf8 c))" using at_byte q(1) Cons by simp
    have space: "\<not> is_json_space (hd (encode_utf8 c))"
    proof (cases "c < 128")
      case True
      then show ?thesis using c(1) json_space_iff [OF True] by (simp add: encode_ascii)
    next
      case False
      then show ?thesis using high_byte [OF c(2)] by (auto simp: is_json_space_def)
    qed
    then have hd: "hd (encode_utf8 c) = 123" using q(2) byte by (subst (asm) jp_skip_while.simps) simp
    have "c < 128" using high_byte [OF c(2)] hd by fastforce
    then have "c = 123" using hd byte_of_numeral_iff [of _ c] by (simp add: encode_ascii)
    then show ?thesis using t Cons w by blast
  qed
qed

lemma sniff_json:
  assumes "valid_str t" and "kore_json_from_str L t = Inr p"
  shows "sniff (str_bytes t) = Inr JsonEncoding"
proof -
  obtain n ms where "json_parse L t = Inr n" "into_object n = Some ms"
    using assms(2) by (auto simp: kore_json_from_str_def new_fields_def elim!: and_thenE split: sum.splits option.splits)
  then obtain w r where t: "t = w @ 123 # r" "blank w"
    using first_byte_brace [OF object_start assms(1)] by blast
  have "\<forall>c \<in> set w. is_unicode_space c" using t(2) by (auto simp: blank_def is_unicode_space_def)
  then have "dropWhile is_unicode_space w = []" by simp
  then have "trim_start t = 123 # r"
    by (simp add: t(1) trim_start_def dropWhile_append is_unicode_space_def)
  moreover have "\<nexists>r. t = 127 # r" using t by (cases w) (auto simp: blank_def)
  ultimately show ?thesis using magic_text [OF _ assms(1)] assms(1) by (auto simp: sniff_def)
qed

text \<open>C29: Detection agrees with the readers: bytes that decode as a binary term, a text that parses as a
  pattern and a text that reads as KORE JSON are each found to be in that encoding, so
  \<open>decode_bytes\<close> returns the pattern that its reader returns; and on no bytes at all does the
  \<open>expect\<close> on the checked text panic.\<close>

theorem decode_bytes_reads:
  assumes "valid_str t"
  shows "(decode_term input = Inr p \<longrightarrow> sniff input = Inr BinaryEncoding \<and> decode_bytes L input = Inr p)
    \<and> (parse_pattern t = Inr p \<longrightarrow> sniff (str_bytes t) = Inr TextEncoding \<and> decode_bytes L (str_bytes t) = Inr p)
    \<and> (kore_json_from_str L t = Inr p \<longrightarrow> sniff (str_bytes t) = Inr JsonEncoding \<and> decode_bytes L (str_bytes t) = Inr p)
    \<and> decode_bytes L input \<noteq> Inl CodecPanic"
  using decode_bytes_expect [of L input] binary_magic [of input p] sniff_text [OF assms] sniff_json [OF assms] assms
  by (auto simp: decode_bytes_def sniff_def checked_text_def)

theorem decode_bytes_reads_witness:
  "decode_bytes sample_library (str_bytes (32 # ml ''top{S}()'')) = Inr (PTop (SortVariable (lit ''S'')))"
proof -
  have "parse_pattern (32 # ml ''top{S}()'') = Inr (PTop (SortVariable (lit ''S'')))" by code_simp
  moreover have "valid_str (32 # ml ''top{S}()'')" by (simp add: is_scalar_def)
  ultimately show ?thesis using decode_bytes_reads by blast
qed

end
