(* ===== verification/Regex_Syntax.thy ===== *)
theory Regex_Syntax
  imports Rust_Reading
begin

text \<open>
  Token regular expressions (\<open>k-rust-regex/src/lib.rs\<close>): their syntax tree, its preorder visit, the
  names it refers to, the checks that need no definition, and the printer of the canonical form.

  The printers of the source are five functions per syntax, one per level of precedence, that hand
  a body on until the level that prints it; \<open>distance\<close> counts the hand-overs that remain, which is
  the measure under which the cycle of calls ends.
\<close>

section \<open>Syntax\<close>

datatype char_class = ClassChar uchar | ClassRange uchar uchar

datatype regex_body =
    RChar uchar
  | RAnyChar
  | RNamed str
  | RClass bool "char_class list"
  | RUnion regex_body regex_body
  | RConcat "regex_body list"
  | RZeroOrMore regex_body
  | RZeroOrOne regex_body
  | ROneOrMore regex_body
  | RExactly regex_body nat
  | RAtLeast regex_body nat
  | RRange regex_body nat nat

record regex =
  rx_start_line :: bool
  rx_body :: regex_body
  rx_end_line :: bool

definition new_regex :: "regex_body \<Rightarrow> regex" where
  "new_regex body = \<lparr>rx_start_line = False, rx_body = body, rx_end_line = False\<rparr>"

fun subexpressions :: "regex_body \<Rightarrow> regex_body list" where
  "subexpressions (RUnion l r) = [l, r]"
| "subexpressions (RConcat members) = members"
| "subexpressions (RZeroOrMore b) = [b]"
| "subexpressions (RZeroOrOne b) = [b]"
| "subexpressions (ROneOrMore b) = [b]"
| "subexpressions (RExactly b _) = [b]"
| "subexpressions (RAtLeast b _) = [b]"
| "subexpressions (RRange b _ _) = [b]"
| "subexpressions _ = []"

lemma subexpression_size: "m \<in> set members \<Longrightarrow> size m < Suc (size_list size members)"
  by (induction members) auto

text \<open>The characters of a class member are Rust's \<open>char\<close>s.\<close>

fun valid_member :: "char_class \<Rightarrow> bool" where
  "valid_member (ClassChar c) \<longleftrightarrow> is_scalar c"
| "valid_member (ClassRange lo hi) \<longleftrightarrow> is_scalar lo \<and> is_scalar hi"

section \<open>Preorder\<close>

text \<open>The visitor, a closure over mutable state in the source, is a function of that state.\<close>

fun visit_preorder :: "(regex_body \<Rightarrow> 's \<Rightarrow> 's) \<Rightarrow> regex_body \<Rightarrow> 's \<Rightarrow> 's" where
  "visit_preorder f (RUnion l r) s = visit_preorder f r (visit_preorder f l (f (RUnion l r) s))"
| "visit_preorder f (RConcat members) s = fold (\<lambda>m. visit_preorder f m) members (f (RConcat members) s)"
| "visit_preorder f (RZeroOrMore b) s = visit_preorder f b (f (RZeroOrMore b) s)"
| "visit_preorder f (RZeroOrOne b) s = visit_preorder f b (f (RZeroOrOne b) s)"
| "visit_preorder f (ROneOrMore b) s = visit_preorder f b (f (ROneOrMore b) s)"
| "visit_preorder f (RExactly b n) s = visit_preorder f b (f (RExactly b n) s)"
| "visit_preorder f (RAtLeast b n) s = visit_preorder f b (f (RAtLeast b n) s)"
| "visit_preorder f (RRange b n k) s = visit_preorder f b (f (RRange b n k) s)"
| "visit_preorder f (RChar c) s = f (RChar c) s"
| "visit_preorder f RAnyChar s = f RAnyChar s"
| "visit_preorder f (RNamed name) s = f (RNamed name) s"
| "visit_preorder f (RClass negated members) s = f (RClass negated members) s"

definition named_references :: "regex_body \<Rightarrow> str list" where
  "named_references body =
     visit_preorder (\<lambda>b names. case b of RNamed name \<Rightarrow> if name \<in> set names then names else names @ [name] | _ \<Rightarrow> names)
       body []"

datatype regex_issue =
    DescendingCharRange uchar uchar
  | DescendingRepeat regex_body nat nat

definition class_issue :: "char_class \<Rightarrow> regex_issue list" where
  "class_issue member = (case member of ClassRange lo hi \<Rightarrow> if lo > hi then [DescendingCharRange lo hi] else [] | _ \<Rightarrow> [])"

definition body_issues :: "regex_body \<Rightarrow> regex_issue list" where
  "body_issues b = (case b of
     RClass _ members \<Rightarrow> concat (map class_issue members)
   | RRange b at_least at_most \<Rightarrow> if at_least > at_most then [DescendingRepeat b at_least at_most] else []
   | _ \<Rightarrow> [])"

definition check_regex :: "regex \<Rightarrow> regex_issue list" where
  "check_regex r = visit_preorder (\<lambda>b issues. issues @ body_issues b) (rx_body r) []"

text \<open>The expressions of a body, outermost first.\<close>

fun preorder :: "regex_body \<Rightarrow> regex_body list" where
  "preorder (RUnion l r) = RUnion l r # preorder l @ preorder r"
| "preorder (RConcat members) = RConcat members # concat (map preorder members)"
| "preorder (RZeroOrMore b) = RZeroOrMore b # preorder b"
| "preorder (RZeroOrOne b) = RZeroOrOne b # preorder b"
| "preorder (ROneOrMore b) = ROneOrMore b # preorder b"
| "preorder (RExactly b n) = RExactly b n # preorder b"
| "preorder (RAtLeast b n) = RAtLeast b n # preorder b"
| "preorder (RRange b n k) = RRange b n k # preorder b"
| "preorder b = [b]"

lemma fold_concat_map: "(\<And>m s. m \<in> set ms \<Longrightarrow> g m s = fold f (h m) s) \<Longrightarrow> fold g ms s = fold f (concat (map h ms)) s"
  by (induction ms arbitrary: s) auto

lemma visit_preorder_fold: "visit_preorder f b s = fold f (preorder b) s"
proof (induction f b s rule: visit_preorder.induct)
  case (2 f members s)
  show ?case
    by (simp add: fold_concat_map [OF "2.IH"])
qed auto

section \<open>Printing\<close>

definition is_reserved :: "uchar \<Rightarrow> bool" where
  "is_reserved c \<longleftrightarrow> c \<in> set (lit ''^$|?*+(){}[].'' @ [92, 34])"

definition is_reserved_class :: "uchar \<Rightarrow> bool" where
  "is_reserved_class c \<longleftrightarrow> c \<in> set (lit ''^-[]'' @ [92])"

definition print_character :: "uchar \<Rightarrow> bool \<Rightarrow> str" where
  "print_character c in_class =
     (if c = 10 then [92, ch CHR ''n'']
      else if c = 13 then [92, ch CHR ''r'']
      else if c = 9 then [92, ch CHR ''t'']
      else (if (if in_class then is_reserved_class c else is_reserved c) then [92] else []) @ [c])"

fun print_class_member :: "char_class \<Rightarrow> str" where
  "print_class_member (ClassChar c) = print_character c True"
| "print_class_member (ClassRange lo hi) = print_character lo True @ lit ''-'' @ print_character hi True"

text \<open>
  The level of the precedence at which a body is printed, and the number of levels between a
  function's own level and that one; the parentheses of \<open>print_simple\<close> start again at the first.
\<close>

fun body_level :: "regex_body \<Rightarrow> nat" where
  "body_level (RUnion _ _) = 0"
| "body_level (RConcat _) = 1"
| "body_level (RClass _ _) = 3"
| "body_level (RChar _) = 4"
| "body_level RAnyChar = 4"
| "body_level (RNamed _) = 4"
| "body_level _ = 2"

definition distance :: "nat \<Rightarrow> regex_body \<Rightarrow> nat" where
  "distance level b = 5 * size b + (5 + body_level b - level) mod 5"

function (sequential)
      print_union :: "regex_body \<Rightarrow> str"
  and print_concat :: "regex_body \<Rightarrow> str"
  and print_repeat :: "regex_body \<Rightarrow> str"
  and print_class :: "regex_body \<Rightarrow> str"
  and print_simple :: "regex_body \<Rightarrow> str" where
  "print_union (RUnion l r) = print_concat l @ lit ''|'' @ print_concat r"
| "print_union b = print_concat b"
| "print_concat (RConcat members) = concat (map print_repeat members)"
| "print_concat b = print_repeat b"
| "print_repeat (RZeroOrOne b) = print_class b @ lit ''?''"
| "print_repeat (RZeroOrMore b) = print_class b @ lit ''*''"
| "print_repeat (ROneOrMore b) = print_class b @ lit ''+''"
| "print_repeat (RExactly b n) = print_class b @ lit ''{'' @ decimal n @ lit ''}''"
| "print_repeat (RAtLeast b n) = print_class b @ lit ''{'' @ decimal n @ lit '',}''"
| "print_repeat (RRange b n k) = print_class b @ lit ''{'' @ decimal n @ lit '','' @ decimal k @ lit ''}''"
| "print_repeat b = print_class b"
| "print_class (RClass negated members) =
     lit ''['' @ (if negated then lit ''^'' else []) @ concat (map print_class_member members) @ lit '']''"
| "print_class b = print_simple b"
| "print_simple (RChar c) = print_character c False"
| "print_simple RAnyChar = lit ''.''"
| "print_simple (RNamed name) = lit ''{'' @ name @ lit ''}''"
| "print_simple b = lit ''('' @ print_union b @ lit '')''"
  by pat_completeness auto
termination
  by (relation "measure (case_sum (case_sum (distance 0) (distance 1)) (case_sum (distance 2) (case_sum (distance 3) (distance 4))))")
    (auto simp: distance_def dest!: subexpression_size)

text \<open>\<open>to_k_string\<close> of a body and of a class member, and \<open>to_canonical_string\<close>.\<close>

definition to_k_string :: "regex_body \<Rightarrow> str" where
  "to_k_string b = print_union b"

definition member_to_k_string :: "char_class \<Rightarrow> str" where
  "member_to_k_string member = print_class_member member"

definition to_canonical_string :: "regex \<Rightarrow> str" where
  "to_canonical_string r =
     (if rx_start_line r then lit ''^'' else []) @ print_union (rx_body r) @ (if rx_end_line r then lit ''$'' else [])"

section \<open>Identifiers and messages\<close>

definition is_decimal_digit :: "uchar \<Rightarrow> bool" where
  "is_decimal_digit c = is_ascii_digit c"

definition valid_identifier :: "str \<Rightarrow> bool" where
  "valid_identifier name =
     (case (case name of [] \<Rightarrow> name | c # rest \<Rightarrow> if c = ch CHR ''#'' then rest else name) of
        [] \<Rightarrow> False
      | first # rest \<Rightarrow> (65 \<le> first \<and> first \<le> 90) \<and> list_all is_ascii_alphanumeric rest)"

text \<open>Upper-case hexadecimal, \<open>{:X}\<close>, and with a minimal width, \<open>{:0wX}\<close>.\<close>

definition upper_digit :: "nat \<Rightarrow> uchar" where
  "upper_digit d = (if d < 10 then 48 + d else 55 + d)"

fun hex_upper :: "nat \<Rightarrow> str" where
  "hex_upper n = (if n < 16 then [upper_digit n] else hex_upper (n div 16) @ [upper_digit (n mod 16)])"

declare hex_upper.simps [simp del]

definition hex_upper_pad :: "nat \<Rightarrow> nat \<Rightarrow> str" where
  "hex_upper_pad width n = replicate (width - length (hex_upper n)) 48 @ hex_upper n"

text \<open>\<open>Display for Issue\<close>.\<close>

fun issue_text :: "regex_issue \<Rightarrow> str" where
  "issue_text (DescendingCharRange lo hi) =
     lit ''Invalid character range '' @ [39] @ member_to_k_string (ClassRange lo hi) @ [39]
     @ lit ''. Start of range U+'' @ hex_upper_pad 4 lo @ lit '' is greater than end of range U+''
     @ hex_upper_pad 4 hi @ lit ''.''"
| "issue_text (DescendingRepeat b at_least at_most) =
     lit ''Invalid numeric range '' @ [39] @ to_k_string (RRange b at_least at_most) @ [39]
     @ lit ''. Start of range '' @ decimal at_least @ lit '' is greater than end of range ''
     @ decimal at_most @ lit ''.''"

end
