(* ===== verification/Rust_Number.thy ===== *)
theory Rust_Number
  imports Rust_Reading
begin

text \<open>
  Decimal numbers without a bound, and \<open>u64\<close>: what a list of digits denotes, what
  \<open>str::parse::<u64>\<close> reads, and the digits that \<open>to_string\<close> writes, which have no leading zero and are
  determined by the number.
\<close>

definition digits_number :: "str \<Rightarrow> nat" where
  "digits_number s = foldl (\<lambda>n c. n * 10 + (c - 48)) 0 s"

text \<open>\<open>str::parse::<u64>\<close>: an optional plus sign, then digits, at least one, with no overflow of 64 bits.\<close>

definition parse_u64 :: "str \<Rightarrow> nat option" where
  "parse_u64 s =
     (let digits = (case s of [] \<Rightarrow> s | c # t \<Rightarrow> if c = ch CHR ''+'' then t else s) in
      if digits \<noteq> [] \<and> list_all is_ascii_digit digits \<and> digits_number digits < 2 ^ 64
      then Some (digits_number digits) else None)"

lemma digits_number_Nil [simp]: "digits_number [] = 0"
  by (simp add: digits_number_def)

lemma digits_number_append: "digits_number (s @ [c]) = digits_number s * 10 + (c - 48)"
  by (simp add: digits_number_def)

lemma digits_number_Cons: "digits_number (c # s) = (c - 48) * 10 ^ length s + digits_number s"
proof (induction s rule: rev_induct)
  case (snoc d s)
  then show ?case using digits_number_append [of "c # s" d] digits_number_append [of s d] by simp
qed (simp add: digits_number_def)

lemma decimal_digits: "list_all is_ascii_digit (decimal n)"
  by (induction n rule: decimal.induct) (subst decimal.simps, auto simp: is_ascii_digit_def [abs_def])

lemma decimal_nonempty: "decimal n \<noteq> []"
  by (subst decimal.simps) simp

lemma digits_number_decimal: "digits_number (decimal n) = n"
proof (induction n rule: decimal.induct)
  case (1 n)
  show ?case
  proof (cases "n < 10")
    case True
    then show ?thesis by (subst decimal.simps) (simp add: digits_number_def)
  next
    case False
    then show ?thesis using "1.IH" by (subst decimal.simps) (simp add: digits_number_append)
  qed
qed

lemma parse_u64_decimal: "n < 2 ^ 64 \<Longrightarrow> parse_u64 (decimal n) = Some n"
  using decimal_digits [of n] decimal_nonempty [of n] digits_number_decimal [of n]
  by (cases "decimal n") (auto simp: parse_u64_def is_ascii_digit_def)

text \<open>Digits without their leading zeros: the number as \<open>decimal\<close> writes it, but for zero.\<close>

abbreviation without_zeros :: "str \<Rightarrow> str" where
  "without_zeros \<equiv> dropWhile (\<lambda>c. c = 48)"

lemma digits_number_without_zeros: "digits_number (without_zeros s) = digits_number s"
  by (induction s) (simp_all add: digits_number_Cons)

lemma digits_number_bounds:
  assumes "list_all is_ascii_digit s"
  shows "digits_number s < 10 ^ length s"
    and "s \<noteq> [] \<Longrightarrow> hd s \<noteq> 48 \<Longrightarrow> 10 ^ (length s - 1) \<le> digits_number s"
proof -
  show "digits_number s < 10 ^ length s"
    using assms
  proof (induction s)
    case (Cons c s)
    then have d: "digits_number s < 10 ^ length s" "c - 48 \<le> 9" by (auto simp: is_ascii_digit_def)
    have "(c - 48) * 10 ^ length s + digits_number s < 9 * 10 ^ length s + 10 ^ length s"
      by (rule add_le_less_mono [OF mult_right_mono d(1)]) (use d(2) in simp_all)
    then show ?case by (simp add: digits_number_Cons)
  qed simp
  show "10 ^ (length s - 1) \<le> digits_number s" if nonempty: "s \<noteq> []" and leading: "hd s \<noteq> 48"
  proof -
    obtain c t where s: "s = c # t" using nonempty by (cases s) auto
    then have le: "1 * 10 ^ length t \<le> (c - 48) * 10 ^ length t"
      using leading assms by (intro mult_right_mono) (auto simp: is_ascii_digit_def)
    then have "10 ^ length t \<le> (c - 48) * 10 ^ length t + digits_number t" by linarith
    then show ?thesis by (simp only: s digits_number_Cons length_Cons diff_Suc_1)
  qed
qed

lemma decimal_number:
  assumes "list_all is_ascii_digit s" and "s \<noteq> []" and "length s = 1 \<or> hd s \<noteq> 48"
  shows "decimal (digits_number s) = s"
  using assms
proof (induction s rule: rev_induct)
  case (snoc c s)
  have c: "48 \<le> c" "c \<le> 57" using snoc.prems(1) by (auto simp: is_ascii_digit_def)
  show ?case
  proof (cases "s = []")
    case True
    then have "digits_number (s @ [c]) < 10" using c by (simp add: digits_number_def)
    then show ?thesis using True c by (subst decimal.simps) (simp add: digits_number_def)
  next
    case False
    then have s: "list_all is_ascii_digit s" "hd s \<noteq> 48" using snoc.prems by simp_all
    then have "0 < digits_number s" by (intro less_le_trans [OF _ digits_number_bounds(2) [OF s(1) False]]) simp_all
    then have "\<not> digits_number (s @ [c]) < 10" by (simp add: digits_number_append)
    moreover obtain d where d: "c = 48 + d" "d < 10" using c by (intro that [of "c - 48"]) auto
    then have "digits_number (s @ [c]) div 10 = digits_number s" "digits_number (s @ [c]) mod 10 = c - 48"
      by (simp_all add: digits_number_append)
    ultimately show ?thesis using snoc.IH [OF s(1) False] s(2) c by (subst decimal.simps) simp
  qed
qed simp

lemma decimal_leading: "hd (decimal n) \<noteq> 48 \<or> decimal n = [48]"
proof (induction n rule: decimal.induct)
  case (1 n)
  show ?case
  proof (cases "n < 10")
    case True
    then show ?thesis by (subst decimal.simps, subst (2) decimal.simps) auto
  next
    case False
    then have "decimal (n div 10) \<noteq> [48]"
      using digits_number_decimal [of "n div 10"] by (auto simp: digits_number_def)
    then show ?thesis
      using "1.IH" [OF False] False decimal_nonempty [of "n div 10"] by (simp add: decimal.simps [of n])
  qed
qed

lemma decimal_inject [simp]: "decimal m = decimal n \<longleftrightarrow> m = n"
  using digits_number_decimal by metis

end
