(* ===== verification/Regex_Parser.thy ===== *)
theory Regex_Parser
  imports Regex_Syntax Rust_Number
begin

text \<open>
  The parser of token regular expressions (\<open>Parser\<close> of \<open>k-rust-regex/src/lib.rs\<close>): a cursor into
  the characters of the input, one function per level of precedence, every error with its position
  and message.

  The functions call each other through the parentheses of the input. That the calls end needs what
  a call returns, a parser further on in the same input: \<open>shrinks\<close>, proved before the termination
  from the functions' own equations on the arguments where they are defined.
\<close>

section \<open>The cursor\<close>

record regex_parser =
  rp_input :: str
  rp_cursor :: nat

text \<open>\<open>ParseError\<close>: index in characters, message, input.\<close>

datatype regex_fault = RegexError (error_index: nat) (error_message: str) (error_input: str)

definition new_regex_parser :: "str \<Rightarrow> regex_parser" where
  "new_regex_parser input = \<lparr>rp_input = input, rp_cursor = 0\<rparr>"

definition rp_has_remaining :: "regex_parser \<Rightarrow> bool" where
  "rp_has_remaining p \<longleftrightarrow> rp_cursor p < length (rp_input p)"

definition rp_peek_at :: "regex_parser \<Rightarrow> nat \<Rightarrow> uchar option" where
  "rp_peek_at p offset =
     (if rp_cursor p + offset < length (rp_input p) then Some (rp_input p ! (rp_cursor p + offset)) else None)"

definition rp_peek :: "regex_parser \<Rightarrow> uchar option" where
  "rp_peek p = rp_peek_at p 0"

definition rp_advance :: "regex_parser \<Rightarrow> regex_parser" where
  "rp_advance p = p\<lparr>rp_cursor := rp_cursor p + 1\<rparr>"

definition rp_back :: "regex_parser \<Rightarrow> regex_parser" where
  "rp_back p = p\<lparr>rp_cursor := rp_cursor p - 1\<rparr>"

definition rp_next :: "regex_parser \<Rightarrow> (uchar \<times> regex_parser) option" where
  "rp_next p = (case rp_peek p of None \<Rightarrow> None | Some c \<Rightarrow> Some (c, rp_advance p))"

text \<open>\<open>consume\<close>: the parser after the expected character, if it is the next one.\<close>

definition rp_consume :: "uchar \<Rightarrow> regex_parser \<Rightarrow> regex_parser option" where
  "rp_consume expected p = (if rp_peek p = Some expected then Some (rp_advance p) else None)"

definition rp_error_at :: "nat \<Rightarrow> str \<Rightarrow> regex_parser \<Rightarrow> regex_fault" where
  "rp_error_at index message p = RegexError index message (rp_input p)"

definition rp_error :: "str \<Rightarrow> regex_parser \<Rightarrow> regex_fault" where
  "rp_error message p = rp_error_at (rp_cursor p) message p"

definition rp_unescaped :: "uchar \<Rightarrow> regex_parser \<Rightarrow> regex_fault" where
  "rp_unescaped c p =
     rp_error (lit ''Unexpected token '' @ [39, c, 39] @ lit ''. Did you mean '' @ [39, 92, c, 39] @ lit ''?'') p"

definition rp_expect :: "uchar \<Rightarrow> regex_parser \<Rightarrow> regex_fault + regex_parser" where
  "rp_expect expected p =
     (case rp_next p of
        Some (actual, q) \<Rightarrow>
          if actual = expected then Inr q
          else Inl (rp_error_at (rp_cursor q - 1)
            (lit ''Expected '' @ [39, expected, 39] @ lit '', but found '' @ [39, actual, 39]) q)
      | None \<Rightarrow> Inl (rp_error (lit ''Unexpected end of string. Expected '' @ [39, expected, 39]) p))"

text \<open>\<open>byte_index\<close> of an error: the byte offset of the character at its index.\<close>

definition byte_index :: "regex_fault \<Rightarrow> nat" where
  "byte_index e = str_len (take (error_index e) (error_input e))"

section \<open>Progress\<close>

definition remaining :: "regex_parser \<Rightarrow> nat" where
  "remaining p = length (rp_input p) - rp_cursor p"

definition shrinks :: "regex_parser \<Rightarrow> regex_parser \<Rightarrow> bool" where
  "shrinks p q \<longleftrightarrow> rp_input q = rp_input p \<and> rp_cursor p < rp_cursor q \<and> rp_cursor q \<le> length (rp_input p)"

definition kept :: "regex_parser \<Rightarrow> regex_parser \<Rightarrow> bool" where
  "kept p q \<longleftrightarrow> q = p \<or> shrinks p q"

lemma shrinks_trans: "shrinks p q \<Longrightarrow> shrinks q r \<Longrightarrow> shrinks p r"
  by (simp add: shrinks_def)

lemma kept_refl [simp]: "kept p p"
  by (simp add: kept_def)

lemma shrinks_kept: "shrinks p q \<Longrightarrow> kept q r \<Longrightarrow> shrinks p r" "shrinks p q \<Longrightarrow> kept p q"
  "kept p q \<Longrightarrow> shrinks q r \<Longrightarrow> shrinks p r" "kept p q \<Longrightarrow> kept q r \<Longrightarrow> kept p r"
  by (auto simp: kept_def shrinks_def)

lemma shrinks_remaining: "shrinks p q \<Longrightarrow> remaining q < remaining p"
  by (auto simp: shrinks_def remaining_def)

lemma peek_shrinks: "rp_peek p = Some c \<Longrightarrow> shrinks p (rp_advance p)"
  by (auto simp: rp_peek_def rp_peek_at_def rp_advance_def shrinks_def split: if_splits)

lemma consume_shrinks: "rp_consume c p = Some q \<Longrightarrow> shrinks p q"
  by (auto simp: rp_consume_def peek_shrinks split: if_splits)

lemma next_shrinks: "rp_next p = Some (c, q) \<Longrightarrow> shrinks p q"
  by (auto simp: rp_next_def peek_shrinks split: option.splits)

lemma expect_shrinks: "rp_expect c p = Inr q \<Longrightarrow> shrinks p q"
  by (auto simp: rp_expect_def next_shrinks split: option.splits if_splits)

text \<open>What the proofs of progress unfold, into arithmetic on cursors.\<close>

lemmas progress_defs = shrinks_def kept_def remaining_def

section \<open>Characters, classes and counts\<close>

definition parse_character :: "bool \<Rightarrow> regex_parser \<Rightarrow> regex_fault + (uchar \<times> regex_parser)" where
  "parse_character in_class p =
     (case rp_consume 92 p of
        Some q \<Rightarrow>
          (case rp_next q of
             None \<Rightarrow> Inl (rp_error (lit ''Unexpected end of string after '' @ [39, 92, 39] @ lit ''.'') q)
           | Some (escaped, q) \<Rightarrow>
               Inr (if escaped = ch CHR ''n'' then 10
                    else if escaped = ch CHR ''r'' then 13
                    else if escaped = ch CHR ''t'' then 9
                    else escaped, q))
      | None \<Rightarrow>
          (case rp_peek p of
             None \<Rightarrow> Inl (rp_error (lit ''Unexpected end of string.'') p)
           | Some c \<Rightarrow>
               if (if in_class then is_reserved_class c else is_reserved c) then Inl (rp_unescaped c p)
               else Inr (c, rp_advance p)))"

definition parse_class_member :: "regex_parser \<Rightarrow> regex_fault + (char_class \<times> regex_parser)" where
  "parse_class_member p =
     and_then (parse_character True p) (\<lambda>(lo, q).
       case rp_consume (ch CHR ''-'') q of
         Some r \<Rightarrow>
           if rp_peek r = Some (ch CHR '']'') then Inl (rp_unescaped (ch CHR ''-'') (rp_back r))
           else and_then (parse_character True r) (\<lambda>(hi, r). Inr (ClassRange lo hi, r))
       | None \<Rightarrow> Inr (ClassChar lo, q))"

lemma parse_character_shrinks: "parse_character in_class p = Inr (c, q) \<Longrightarrow> shrinks p q"
  by (auto simp: parse_character_def peek_shrinks dest!: consume_shrinks next_shrinks
      intro: shrinks_trans split: option.splits if_splits)

lemma parse_class_member_shrinks: "parse_class_member p = Inr (m, q) \<Longrightarrow> shrinks p q"
  by (auto simp: parse_class_member_def dest!: consume_shrinks parse_character_shrinks
      elim!: and_thenE split: option.splits if_splits) (blast intro: shrinks_trans)

function class_members_loop ::
    "char_class list \<Rightarrow> regex_parser \<Rightarrow> regex_fault + (char_class list \<times> regex_parser)" where
  "class_members_loop members p =
     (case rp_consume (ch CHR '']'') p of
        Some q \<Rightarrow> Inr (members, q)
      | None \<Rightarrow>
          if \<not> rp_has_remaining p
          then Inl (rp_error (lit ''Unexpected end of string. Expected '' @ [39] @ lit '']'' @ [39]) p)
          else and_then (parse_class_member p) (\<lambda>(m, q). class_members_loop (members @ [m]) q))"
  by pat_completeness auto
termination
  by (relation "measure (remaining \<circ> snd)") (auto dest: parse_class_member_shrinks shrinks_remaining)

declare class_members_loop.simps [simp del]

function rp_skip_while :: "(uchar \<Rightarrow> bool) \<Rightarrow> regex_parser \<Rightarrow> regex_parser" where
  "rp_skip_while ok p =
     (case rp_peek p of
        Some c \<Rightarrow> if ok c then rp_skip_while ok (rp_advance p) else p
      | None \<Rightarrow> p)"
  by pat_completeness auto
termination
  by (relation "measure (remaining \<circ> snd)") (auto dest: peek_shrinks shrinks_remaining)

declare rp_skip_while.simps [simp del]

definition rp_slice :: "nat \<Rightarrow> nat \<Rightarrow> regex_parser \<Rightarrow> str" where
  "rp_slice from until p = take (until - from) (drop from (rp_input p))"

text \<open>The count of a repetition: digits, refused above \<open>i32::MAX\<close>.\<close>

definition parse_integer :: "regex_parser \<Rightarrow> regex_fault + (nat \<times> regex_parser)" where
  "parse_integer p =
     (let q = rp_skip_while is_decimal_digit p in
      if rp_cursor q = rp_cursor p then Inl (rp_error (lit ''Expected a digit 0-9.'') q)
      else
        (case parse_u64 (rp_slice (rp_cursor p) (rp_cursor q) q) of
           None \<Rightarrow> Inl (rp_error_at (rp_cursor p) (lit ''Repetition count is too large.'') q)
         | Some n \<Rightarrow>
             if n > 2 ^ 31 - 1 then Inl (rp_error_at (rp_cursor p) (lit ''Repetition count is too large.'') q)
             else Inr (n, q)))"

definition parse_repetition :: "regex_body \<Rightarrow> regex_parser \<Rightarrow> regex_fault + (regex_body \<times> regex_parser)" where
  "parse_repetition b p =
     and_then (parse_integer p) (\<lambda>(lower, p).
       case rp_consume (ch CHR ''}'') p of
         Some p \<Rightarrow> Inr (RExactly b lower, p)
       | None \<Rightarrow>
           and_then (rp_expect (ch CHR '','') p) (\<lambda>p.
             case rp_consume (ch CHR ''}'') p of
               Some p \<Rightarrow> Inr (RAtLeast b lower, p)
             | None \<Rightarrow>
                 and_then (parse_integer p) (\<lambda>(upper, p).
                 and_then (rp_expect (ch CHR ''}'') p) (\<lambda>p. Inr (RRange b lower upper, p)))))"

lemma skip_while_kept: "kept p (rp_skip_while ok p)"
proof (induction ok p rule: rp_skip_while.induct)
  case (1 ok p)
  show ?case
  proof (cases "\<exists>c. rp_peek p = Some c \<and> ok c")
    case True
    then obtain c where c: "rp_peek p = Some c" "ok c" by blast
    show ?thesis
      using shrinks_kept(1) [OF peek_shrinks [OF c(1)] "1.IH" [OF c]] c
      by (simp add: rp_skip_while.simps [of ok p] shrinks_kept(2))
  qed (auto simp: rp_skip_while.simps [of ok p] split: option.split)
qed

lemma kept_strict: "kept p q \<Longrightarrow> rp_cursor q \<noteq> rp_cursor p \<Longrightarrow> shrinks p q"
  by (auto simp: kept_def)

lemma parse_integer_shrinks: "parse_integer p = Inr (n, q) \<Longrightarrow> shrinks p q"
  using kept_strict [OF skip_while_kept]
  by (auto simp: parse_integer_def Let_def split: if_splits option.splits)

lemma parse_repetition_shrinks: "parse_repetition b p = Inr (c, q) \<Longrightarrow> shrinks p q"
  by (auto simp: parse_repetition_def dest!: consume_shrinks expect_shrinks parse_integer_shrinks
      elim!: and_thenE split: option.splits) (meson shrinks_trans)+

lemma class_members_loop_shrinks: "class_members_loop ms p = Inr (ms', q) \<Longrightarrow> shrinks p q"
proof (induction ms p rule: class_members_loop.induct)
  case (1 ms p)
  show ?case
  proof (cases "rp_consume (ch CHR '']'') p")
    case None
    then obtain m r where m: "rp_has_remaining p" "parse_class_member p = Inr (m, r)"
        "class_members_loop (ms @ [m]) r = Inr (ms', q)"
      using "1.prems" by (auto simp: class_members_loop.simps [of ms p] elim!: and_thenE split: if_splits)
    then show ?thesis
      using "1.IH" [OF None _ m(2) refl m(3)] parse_class_member_shrinks [OF m(2)] shrinks_trans by simp
  qed (use "1.prems" in \<open>auto simp: class_members_loop.simps [of ms p] dest: consume_shrinks\<close>)
qed

section \<open>Levels of precedence\<close>

text \<open>The loop of \<open>parse_repeat\<close>: the postfix operators after an operand.\<close>

function postfix_loop :: "regex_body \<Rightarrow> regex_parser \<Rightarrow> regex_fault + (regex_body \<times> regex_parser)" where
  "postfix_loop b p =
     (if rp_peek p = Some (ch CHR ''?'') then postfix_loop (RZeroOrOne b) (rp_advance p)
      else if rp_peek p = Some (ch CHR ''*'') then postfix_loop (RZeroOrMore b) (rp_advance p)
      else if rp_peek p = Some (ch CHR ''+'') then postfix_loop (ROneOrMore b) (rp_advance p)
      else if rp_peek p = Some (ch CHR ''{'') \<and> (case rp_peek_at p 1 of None \<Rightarrow> False | Some c \<Rightarrow> is_decimal_digit c)
      then and_then (parse_repetition b (rp_advance p)) (\<lambda>(b, q). postfix_loop b q)
      else Inr (b, p))"
  by pat_completeness auto
termination
  by (relation "measure (remaining \<circ> snd)")
    (auto dest!: peek_shrinks parse_repetition_shrinks simp: progress_defs)

declare postfix_loop.simps [simp del]

lemma postfix_loop_kept: "postfix_loop b p = Inr (c, q) \<Longrightarrow> kept p q"
proof (induction b p rule: postfix_loop.induct)
  case (1 b p)
  note step = postfix_loop.simps [of b p]
  consider (op) f where "f \<in> {RZeroOrOne, RZeroOrMore, ROneOrMore}" "rp_peek p \<noteq> None"
      "postfix_loop (f b) (rp_advance p) = Inr (c, q)" "kept (rp_advance p) q"
    | (count) d r where "parse_repetition b (rp_advance p) = Inr (d, r)" "rp_peek p \<noteq> None" "kept r q"
    | (stop) "q = p"
    using "1.prems" "1.IH" by (fastforce simp: step elim!: and_thenE split: if_splits)
  then show ?case
  proof cases
    case op
    then have "shrinks p (rp_advance p)" using peek_shrinks [of p] by blast
    then show ?thesis using op(4) by (blast intro: shrinks_kept)
  next
    case count
    then have "shrinks p (rp_advance p)" using peek_shrinks [of p] by blast
    then have "shrinks p r" using parse_repetition_shrinks [OF count(1)] by (rule shrinks_trans)
    then show ?thesis using count(3) by (blast intro: shrinks_kept)
  qed simp
qed

definition name_message :: "str \<Rightarrow> str" where
  "name_message name =
     lit ''Lexical identifier {'' @ name @ lit ''} is invalid. Identifiers should match the regular expression ''
     @ [34] @ lit ''#?[A-Z][a-zA-Z0-9]*'' @ [34] @ lit ''.''"

text \<open>\<open>{Name}\<close>, after the brace.\<close>

definition parse_named :: "regex_parser \<Rightarrow> regex_fault + (regex_body \<times> regex_parser)" where
  "parse_named p =
     (let q = rp_skip_while (\<lambda>c. c \<noteq> ch CHR ''}'') p in
      case rp_consume (ch CHR ''}'') q of
        None \<Rightarrow> Inl (rp_error (lit ''Unexpected end of string. Expected '' @ [39] @ lit ''}'' @ [39]) q)
      | Some r \<Rightarrow>
          (let name = rp_slice (rp_cursor p) (rp_cursor r - 1) r in
           if \<not> valid_identifier name then Inl (rp_error_at (rp_cursor r - 1) (name_message name) r)
           else Inr (RNamed name, r)))"

text \<open>\<open>[...]\<close>, after the bracket.\<close>

definition parse_class_body :: "regex_parser \<Rightarrow> regex_fault + (regex_body \<times> regex_parser)" where
  "parse_class_body p =
     (let (negated, q) = (case rp_consume (ch CHR ''^'') p of Some q \<Rightarrow> (True, q) | None \<Rightarrow> (False, p)) in
      and_then (class_members_loop [] q) (\<lambda>(members, q).
        if members = [] then Inl (rp_error (lit ''Character class cannot be empty.'') q)
        else Inr (RClass negated members, q)))"

lemma parse_named_shrinks: "parse_named p = Inr (b, q) \<Longrightarrow> shrinks p q"
  using shrinks_kept(3) [OF skip_while_kept consume_shrinks]
  by (fastforce simp: parse_named_def Let_def split: option.splits if_splits)

lemma parse_class_body_shrinks: "parse_class_body p = Inr (b, q) \<Longrightarrow> shrinks p q"
  by (auto simp: parse_class_body_def elim!: and_thenE dest!: class_members_loop_shrinks consume_shrinks
      intro: shrinks_trans split: option.splits if_splits)

function
      parse_union :: "regex_parser \<Rightarrow> regex_fault + (regex_body \<times> regex_parser)"
  and parse_concat :: "regex_parser \<Rightarrow> regex_fault + (regex_body \<times> regex_parser)"
  and concat_loop :: "regex_body list \<Rightarrow> regex_parser \<Rightarrow> regex_fault + (regex_body list \<times> regex_parser)"
  and parse_repeat :: "regex_parser \<Rightarrow> regex_fault + (regex_body \<times> regex_parser)"
  and parse_char_class :: "regex_parser \<Rightarrow> regex_fault + (regex_body \<times> regex_parser)"
  and parse_simple :: "regex_parser \<Rightarrow> regex_fault + (regex_body \<times> regex_parser)" where
  "parse_union p =
     and_then (parse_concat p) (\<lambda>(left, q).
       case rp_consume (ch CHR ''|'') q of
         Some r \<Rightarrow>
           if \<not> rp_has_remaining r then Inl (rp_unescaped (ch CHR ''|'') (rp_back r))
           else and_then (parse_union r) (\<lambda>(right, r). Inr (RUnion left right, r))
       | None \<Rightarrow> Inr (left, q))"
| "parse_concat p =
     and_then (parse_repeat p) (\<lambda>(m, q).
     and_then (concat_loop [m] q) (\<lambda>(members, q).
       case members of
         [] \<Rightarrow> Inr (RConcat members, q)
       | b # rest \<Rightarrow> Inr (if rest = [] then b else RConcat members, q)))"
| "concat_loop members p =
     (if (case rp_peek p of None \<Rightarrow> False | Some c \<Rightarrow> c \<notin> set (lit '')|$''))
      then and_then (parse_repeat p) (\<lambda>(m, q). concat_loop (members @ [m]) q)
      else Inr (members, p))"
| "parse_repeat p = and_then (parse_char_class p) (\<lambda>(b, q). postfix_loop b q)"
| "parse_char_class p =
     (case rp_consume (ch CHR ''['') p of
        None \<Rightarrow> parse_simple p
      | Some q \<Rightarrow> parse_class_body q)"
| "parse_simple p =
     (case rp_consume (ch CHR ''.'') p of
        Some q \<Rightarrow> Inr (RAnyChar, q)
      | None \<Rightarrow>
          (case rp_consume (ch CHR ''('') p of
             Some q \<Rightarrow>
               and_then (parse_union q) (\<lambda>(b, q). and_then (rp_expect (ch CHR '')'') q) (\<lambda>q. Inr (b, q)))
           | None \<Rightarrow>
               (case rp_consume (ch CHR ''{'') p of
                  Some q \<Rightarrow> parse_named q
                | None \<Rightarrow> and_then (parse_character False p) (\<lambda>(c, q). Inr (RChar c, q)))))"
  by pat_completeness auto

text \<open>What the functions return on arguments where their recursion ends.\<close>

abbreviation parsers_defined where
  "parsers_defined \<equiv> parse_union_parse_concat_concat_loop_parse_repeat_parse_char_class_parse_simple_dom"

lemma parsers_shrink:
  "parsers_defined (Inl (Inl p)) \<Longrightarrow> \<forall>b q. parse_union p = Inr (b, q) \<longrightarrow> shrinks p q"
  "parsers_defined (Inl (Inr (Inl p))) \<Longrightarrow> \<forall>b q. parse_concat p = Inr (b, q) \<longrightarrow> shrinks p q"
  "parsers_defined (Inl (Inr (Inr (ms, p)))) \<Longrightarrow> \<forall>b q. concat_loop ms p = Inr (b, q) \<longrightarrow> kept p q"
  "parsers_defined (Inr (Inl p)) \<Longrightarrow> \<forall>b q. parse_repeat p = Inr (b, q) \<longrightarrow> shrinks p q"
  "parsers_defined (Inr (Inr (Inl p))) \<Longrightarrow> \<forall>b q. parse_char_class p = Inr (b, q) \<longrightarrow> shrinks p q"
  "parsers_defined (Inr (Inr (Inr p))) \<Longrightarrow> \<forall>b q. parse_simple p = Inr (b, q) \<longrightarrow> shrinks p q"
proof (induction rule: parse_union_parse_concat_concat_loop_parse_repeat_parse_char_class_parse_simple.pinduct)
  case (1 p)
  show ?case
  proof (intro allI impI)
    fix b q
    assume "parse_union p = Inr (b, q)"
    then obtain left r where c: "parse_concat p = Inr (left, r)"
      and "(case rp_consume (ch CHR ''|'') r of
         Some r \<Rightarrow>
           if \<not> rp_has_remaining r then Inl (rp_unescaped (ch CHR ''|'') (rp_back r))
           else and_then (parse_union r) (\<lambda>(right, r). Inr (RUnion left right, r))
       | None \<Rightarrow> Inr (left, r)) = Inr (b, q)"
      by (auto simp: parse_union.psimps [OF "1.hyps"] elim!: and_thenE)
    then consider "q = r" | r' right where "rp_consume (ch CHR ''|'') r = Some r'" "rp_has_remaining r'"
        "parse_union r' = Inr (right, q)"
      by (auto elim!: and_thenE split: option.splits if_splits)
    then show "shrinks p q"
    proof cases
      case 2
      then have "shrinks r' q" using "1.IH"(2) [OF c refl] by blast
      then show ?thesis using "1.IH"(1) c consume_shrinks [OF 2(1)] by (blast intro: shrinks_trans)
    qed (use "1.IH"(1) c in blast)
  qed
next
  case (2 p)
  show ?case
  proof (intro allI impI)
    fix b q
    assume "parse_concat p = Inr (b, q)"
    then obtain m r members where m: "parse_repeat p = Inr (m, r)" "concat_loop [m] r = Inr (members, q)"
      by (auto simp: parse_concat.psimps [OF "2.hyps"] elim!: and_thenE split: list.splits)
    then show "shrinks p q" using "2.IH"(1) "2.IH"(2) [OF m(1) refl] by (blast intro: shrinks_kept)
  qed
next
  case (3 ms p)
  show ?case
  proof (intro allI impI)
    fix b q
    assume "concat_loop ms p = Inr (b, q)"
    then consider "q = p"
      | m r where "case rp_peek p of None \<Rightarrow> False | Some c \<Rightarrow> c \<notin> set (lit '')|$'')" "parse_repeat p = Inr (m, r)"
          "concat_loop (ms @ [m]) r = Inr (b, q)"
      by (auto simp: concat_loop.psimps [OF "3.hyps"] elim!: and_thenE split: if_splits)
    then show "kept p q"
    proof cases
      case 2
      then show ?thesis using "3.IH"(1) [OF 2(1)] "3.IH"(2) [OF 2(1,2) refl] by (blast intro: shrinks_kept)
    qed simp
  qed
next
  case (4 p)
  show ?case
    using "4.IH" by (auto simp: parse_repeat.psimps [OF "4.hyps"] elim!: and_thenE dest!: postfix_loop_kept
        intro: shrinks_kept)
next
  case (5 p)
  show ?case
    using "5.IH" by (auto simp: parse_char_class.psimps [OF "5.hyps"] split: option.splits
        dest!: consume_shrinks parse_class_body_shrinks intro: shrinks_trans)
next
  case (6 p)
  show ?case
    using "6.IH" consume_shrinks expect_shrinks parse_named_shrinks parse_character_shrinks
    by (fastforce simp: parse_simple.psimps [OF "6.hyps"] elim!: and_thenE split: option.splits
        intro: shrinks_trans)
qed

termination parse_union
  by (relation "measures [case_sum (case_sum remaining (case_sum remaining (\<lambda>(_, p). remaining p)))
        (case_sum remaining (case_sum remaining remaining)),
      case_sum (case_sum (\<lambda>_. 5) (case_sum (\<lambda>_. 4) (\<lambda>_. 4))) (case_sum (\<lambda>_. 3) (case_sum (\<lambda>_. 2) (\<lambda>_. 1)))]")
    (auto simp: progress_defs dest!: consume_shrinks parsers_shrink)

declare parse_union.simps [simp del] parse_concat.simps [simp del] concat_loop.simps [simp del]
  parse_repeat.simps [simp del] parse_char_class.simps [simp del] parse_simple.simps [simp del]

definition parse_regex :: "str \<Rightarrow> regex_fault + regex" where
  "parse_regex input =
     (let p = new_regex_parser input in
      if input = [] then Inl (rp_error_at 0 (lit ''Cannot be empty.'') p)
      else if input = lit ''^'' \<or> input = lit ''$'' then
        Inl (rp_error_at 0 (lit ''Cannot consist of only line anchors. Did you mean '' @ [39, 92] @ input @ [39] @ lit ''?'') p)
      else if input = lit ''^$'' then
        Inl (rp_error_at 0 (lit ''Cannot consist of only line anchors. Did you mean '' @ [39, 92] @ lit ''^'' @ [39]
          @ lit '' or '' @ [39, 92] @ lit ''$'' @ [39] @ lit ''?'') p)
      else
        (let (start_line, p) = (case rp_consume (ch CHR ''^'') p of Some q \<Rightarrow> (True, q) | None \<Rightarrow> (False, p)) in
         and_then (parse_union p) (\<lambda>(body, p).
           (let (end_line, p) = (case rp_consume (ch CHR ''$'') p of Some q \<Rightarrow> (True, q) | None \<Rightarrow> (False, p)) in
            if rp_has_remaining p then
              if end_line then Inl (rp_unescaped (ch CHR ''$'') (rp_back p))
              else Inl (rp_unescaped (rp_input p ! rp_cursor p) p)
            else Inr \<lparr>rx_start_line = start_line, rx_body = body, rx_end_line = end_line\<rparr>))))"

section \<open>What a parse yields\<close>

text \<open>The bodies that the parser builds: classes and references as the syntax asks, no concatenation
  of fewer than two members, counts below the bound.\<close>

fun wf_body :: "regex_body \<Rightarrow> bool" where
  "wf_body (RChar c) \<longleftrightarrow> is_scalar c"
| "wf_body (RNamed name) \<longleftrightarrow> valid_identifier name"
| "wf_body (RClass _ members) \<longleftrightarrow> members \<noteq> [] \<and> list_all valid_member members"
| "wf_body (RUnion l r) \<longleftrightarrow> wf_body l \<and> wf_body r"
| "wf_body (RConcat members) \<longleftrightarrow> 2 \<le> length members \<and> (\<forall>m \<in> set members. wf_body m)"
| "wf_body (RZeroOrMore b) \<longleftrightarrow> wf_body b"
| "wf_body (RZeroOrOne b) \<longleftrightarrow> wf_body b"
| "wf_body (ROneOrMore b) \<longleftrightarrow> wf_body b"
| "wf_body (RExactly b n) \<longleftrightarrow> wf_body b \<and> n < 2 ^ 31"
| "wf_body (RAtLeast b n) \<longleftrightarrow> wf_body b \<and> n < 2 ^ 31"
| "wf_body (RRange b n k) \<longleftrightarrow> wf_body b \<and> n < 2 ^ 31 \<and> k < 2 ^ 31"
| "wf_body RAnyChar \<longleftrightarrow> True"

definition in_input :: "regex_parser \<Rightarrow> bool" where
  "in_input p \<longleftrightarrow> rp_cursor p \<le> length (rp_input p) \<and> valid_str (rp_input p)"

text \<open>An error lies in the input; a result satisfies \<open>P\<close> and leaves the parser in the same input.\<close>

definition outcome :: "('a \<Rightarrow> bool) \<Rightarrow> regex_parser \<Rightarrow> regex_fault + ('a \<times> regex_parser) \<Rightarrow> bool" where
  "outcome P p r \<longleftrightarrow> (case r of
     Inl e \<Rightarrow> error_input e = rp_input p \<and> error_index e \<le> length (rp_input p)
   | Inr (v, q) \<Rightarrow> P v \<and> rp_input q = rp_input p \<and> in_input q)"

lemma outcome_Inr [simp]: "outcome P p (Inr (v, q)) \<longleftrightarrow> P v \<and> rp_input q = rp_input p \<and> in_input q"
  by (simp add: outcome_def)

lemma outcome_bind:
  assumes "outcome P p m" and "\<And>v q. m = Inr (v, q) \<Longrightarrow> P v \<Longrightarrow> rp_input q = rp_input p \<Longrightarrow> in_input q \<Longrightarrow> outcome Q q (f (v, q))"
  shows "outcome Q p (and_then m f)"
proof (cases m)
  case (Inr vq)
  then obtain v q where m: "m = Inr (v, q)" "P v" "rp_input q = rp_input p" "in_input q"
    using assms(1) by (cases vq) auto
  then show ?thesis using assms(2) [OF m] by (auto simp: outcome_def split: sum.splits)
qed (use assms(1) in \<open>simp add: outcome_def\<close>)

lemma outcome_weaken: "outcome P p r \<Longrightarrow> (\<And>v. P v \<Longrightarrow> Q v) \<Longrightarrow> outcome Q p r"
  by (auto simp: outcome_def split: sum.splits)

lemma outcome_shift: "outcome P q r \<Longrightarrow> rp_input q = rp_input p \<Longrightarrow> outcome P p r"
  by (auto simp: outcome_def split: sum.splits)

lemma in_input_consume: "rp_consume c p = Some q \<Longrightarrow> in_input p \<Longrightarrow> rp_input q = rp_input p \<and> in_input q \<and> 0 < rp_cursor q"
  using consume_shrinks [of c p q] by (auto simp: shrinks_def in_input_def)

lemma outcome_error:
  "in_input p \<Longrightarrow> outcome P p (Inl (rp_error message p))"
  "in_input p \<Longrightarrow> outcome P p (Inl (rp_unescaped c p))"
  "i \<le> length (rp_input p) \<Longrightarrow> outcome P p (Inl (rp_error_at i message p))"
  by (auto simp: outcome_def rp_error_def rp_unescaped_def rp_error_at_def in_input_def)

lemma shrinks_in_input: "shrinks p q \<Longrightarrow> in_input p \<Longrightarrow> rp_input q = rp_input p \<and> in_input q"
  by (simp add: shrinks_def in_input_def)

lemma peek_scalar: "rp_peek p = Some c \<Longrightarrow> in_input p \<Longrightarrow> is_scalar c"
  by (auto simp: rp_peek_def rp_peek_at_def in_input_def valid_str_def list_all_length split: if_splits)

lemma next_scalar: "rp_next p = Some (c, q) \<Longrightarrow> in_input p \<Longrightarrow> is_scalar c"
  by (auto simp: rp_next_def dest: peek_scalar split: option.splits)

lemma kept_in_input: "kept p q \<Longrightarrow> in_input p \<Longrightarrow> rp_input q = rp_input p \<and> in_input q"
  by (auto simp: kept_def dest: shrinks_in_input)

lemma expect_error:
  assumes "in_input p" and "rp_expect c p = Inl e"
  shows "outcome P p (Inl e)"
proof (cases "rp_next p")
  case None
  then show ?thesis using assms outcome_error(1) by (auto simp: rp_expect_def)
next
  case (Some aq)
  obtain a q where q: "rp_next p = Some (a, q)" using Some by (cases aq) auto
  then have "rp_cursor q - 1 \<le> length (rp_input p)" "rp_input q = rp_input p"
    using next_shrinks [OF q] by (auto simp: shrinks_def)
  then show ?thesis using assms q by (auto simp: rp_expect_def outcome_def rp_error_at_def split: if_splits)
qed

lemma expect_outcome:
  assumes "in_input p" and "\<And>q. rp_input q = rp_input p \<Longrightarrow> in_input q \<Longrightarrow> outcome P q (f q)"
  shows "outcome P p (and_then (rp_expect c p) f)"
proof (cases "rp_expect c p")
  case (Inl e)
  then show ?thesis using expect_error [OF assms(1)] by simp
next
  case (Inr q)
  have q: "rp_input q = rp_input p" "in_input q"
    using shrinks_in_input [OF expect_shrinks [OF Inr] assms(1)] by simp_all
  show ?thesis using outcome_shift [OF assms(2) [OF q] q(1)] Inr by simp
qed

lemma parse_character_outcome:
  assumes "in_input p"
  shows "outcome is_scalar p (parse_character in_class p)"
proof (cases "rp_consume 92 p")
  case None
  then show ?thesis
    using assms outcome_error peek_shrinks [of p] shrinks_in_input [of p] peek_scalar [of p]
    by (cases "rp_peek p") (auto simp: parse_character_def)
next
  case (Some q)
  then have q: "rp_input q = rp_input p" "in_input q" using in_input_consume assms by auto
  have "outcome is_scalar q (parse_character in_class p)"
  proof (cases "rp_next q")
    case None
    then show ?thesis using Some outcome_error(1) [OF q(2)] by (simp add: parse_character_def)
  next
    case (Some cr)
    then obtain c r where r: "rp_next q = Some (c, r)" by (cases cr) auto
    then show ?thesis
      using \<open>rp_consume 92 p = Some q\<close> shrinks_in_input [OF next_shrinks [OF r] q(2)] next_scalar [OF r q(2)]
      by (auto simp: parse_character_def is_scalar_def)
  qed
  then show ?thesis using q(1) by (rule outcome_shift)
qed

lemma back_in_input: "in_input p \<Longrightarrow> in_input (rp_back p)" "rp_input (rp_back p) = rp_input p"
  by (auto simp: rp_back_def in_input_def)

lemma parse_class_member_outcome: "in_input p \<Longrightarrow> outcome valid_member p (parse_class_member p)"
  unfolding parse_class_member_def
proof (rule outcome_bind [OF parse_character_outcome], assumption, simp only: prod.case)
  fix lo q
  assume q: "is_scalar lo" "rp_input q = rp_input p" "in_input q"
  show "outcome valid_member q
        (case rp_consume (ch CHR ''-'') q of
          Some r \<Rightarrow>
            if rp_peek r = Some (ch CHR '']'') then Inl (rp_unescaped (ch CHR ''-'') (rp_back r))
            else and_then (parse_character True r) (\<lambda>(hi, r). Inr (ClassRange lo hi, r))
        | None \<Rightarrow> Inr (ClassChar lo, q))"
  proof (cases "rp_consume (ch CHR ''-'') q")
    case (Some r)
    then have r: "rp_input r = rp_input q" "in_input r" using in_input_consume q(3) by auto
    have "outcome valid_member r (and_then (parse_character True r) (\<lambda>(hi, r). Inr (ClassRange lo hi, r)))"
      by (rule outcome_bind [OF parse_character_outcome [OF r(2)]]) (simp add: q(1))
    then show ?thesis
      using Some r outcome_shift [OF outcome_error(2) [OF back_in_input(1) [OF r(2)]], of q] back_in_input(2) [of r]
      by (auto intro: outcome_shift)
  qed (use q in simp)
qed

lemma class_members_outcome:
  "in_input p \<Longrightarrow> list_all valid_member ms \<Longrightarrow> outcome (list_all valid_member) p (class_members_loop ms p)"
proof (induction ms p rule: class_members_loop.induct)
  case (1 ms p)
  show ?case
  proof (cases "rp_consume (ch CHR '']'') p")
    case None
    show ?thesis
    proof (cases "rp_has_remaining p")
      case True
      have "outcome (list_all valid_member) p (and_then (parse_class_member p) (\<lambda>(m, q). class_members_loop (ms @ [m]) q))"
        using "1.IH" [OF None] True "1.prems"(2)
        by (intro outcome_bind [OF parse_class_member_outcome [OF "1.prems"(1)]]) auto
      then show ?thesis using None True by (simp add: class_members_loop.simps [of ms p])
    qed (use None "1.prems" in \<open>simp add: class_members_loop.simps [of ms p] outcome_error\<close>)
  qed (use in_input_consume "1.prems" in \<open>auto simp: class_members_loop.simps [of ms p]\<close>)
qed

lemma skip_while_in_input: "in_input p \<Longrightarrow> rp_input (rp_skip_while ok p) = rp_input p \<and> in_input (rp_skip_while ok p)"
  by (rule kept_in_input [OF skip_while_kept])

lemma parse_integer_outcome:
  assumes "in_input p"
  shows "outcome (\<lambda>n. n < 2 ^ 31) p (parse_integer p)"
proof -
  let ?q = "rp_skip_while is_decimal_digit p"
  have q: "rp_input ?q = rp_input p" "in_input ?q" using skip_while_in_input [OF assms] by auto
  have "outcome (\<lambda>n. n < 2 ^ 31) ?q (parse_integer p)"
    using q assms outcome_error(1) [OF q(2)] outcome_error(3) [of "rp_cursor p" ?q]
    by (auto simp: parse_integer_def Let_def in_input_def split: option.splits)
  then show ?thesis using q(1) by (rule outcome_shift)
qed

lemma outcome_consume:
  assumes "in_input p" and "\<And>q. rp_consume c p = Some q \<Longrightarrow> in_input q \<Longrightarrow> rp_input q = rp_input p \<Longrightarrow> outcome P q (f q)"
    and "rp_consume c p = None \<Longrightarrow> outcome P p g"
  shows "outcome P p (case rp_consume c p of None \<Rightarrow> g | Some q \<Rightarrow> f q)"
proof (cases "rp_consume c p")
  case (Some q)
  then have q: "rp_input q = rp_input p" "in_input q" using in_input_consume assms(1) by auto
  show ?thesis using outcome_shift [OF assms(2) [OF Some q(2,1)] q(1)] Some by simp
qed (use assms(3) in simp)

lemma parse_repetition_outcome:
  assumes "in_input p" and "wf_body b"
  shows "outcome wf_body p (parse_repetition b p)"
  unfolding parse_repetition_def
  by (rule outcome_bind [OF parse_integer_outcome [OF assms(1)]], simp only: prod.case,
      rule outcome_consume, assumption, simp add: assms(2),
      rule expect_outcome, assumption,
      rule outcome_consume, assumption, simp add: assms(2),
      rule outcome_bind [OF parse_integer_outcome], assumption, simp only: prod.case,
      rule expect_outcome, assumption, simp add: assms(2))

lemma postfix_loop_outcome: "in_input p \<Longrightarrow> wf_body b \<Longrightarrow> outcome wf_body p (postfix_loop b p)"
proof (induction b p rule: postfix_loop.induct)
  case (1 b p)
  note step = postfix_loop.simps [of b p]
  have adv: "outcome wf_body p r"
    if "rp_peek p = Some c" "in_input (rp_advance p) \<Longrightarrow> outcome wf_body (rp_advance p) r" for c r
    using that outcome_shift shrinks_in_input [OF peek_shrinks [OF that(1)] "1.prems"(1)] by metis
  show ?case
  proof (cases "rp_peek p \<in> {Some (ch CHR ''?''), Some (ch CHR ''*''), Some (ch CHR ''+'')}")
    case True
    then consider "rp_peek p = Some (ch CHR ''?'')" | "rp_peek p = Some (ch CHR ''*'')" | "rp_peek p = Some (ch CHR ''+'')"
      by blast
    then show ?thesis
    proof cases
      case 1
      then show ?thesis using "1.IH"(1) "1.prems"(2) by (auto simp: step intro!: adv)
    next
      case 2
      then show ?thesis using "1.IH"(2) "1.prems"(2) by (auto simp: step intro!: adv)
    next
      case 3
      then show ?thesis using "1.IH"(3) "1.prems"(2) by (auto simp: step intro!: adv)
    qed
  next
    case no_op: False
    show ?thesis
    proof (cases "rp_peek p = Some (ch CHR ''{'') \<and> (case rp_peek_at p 1 of None \<Rightarrow> False | Some c \<Rightarrow> is_decimal_digit c)")
      case True
      have "outcome wf_body (rp_advance p) (and_then (parse_repetition b (rp_advance p)) (\<lambda>(b, q). postfix_loop b q))"
        if "in_input (rp_advance p)"
        by (rule outcome_bind [OF parse_repetition_outcome [OF that "1.prems"(2)]])
          (use "1.IH"(4) no_op True in simp)
      then show ?thesis using True by (auto simp: step intro!: adv)
    next
      case False
      then have "postfix_loop b p = Inr (b, p)" using no_op by (auto simp: step)
      then show ?thesis using "1.prems" by simp
    qed
  qed
qed

lemma in_input_before: "in_input p \<Longrightarrow> rp_cursor p - Suc 0 \<le> length (rp_input p)"
  by (auto simp: in_input_def)

lemma parse_named_outcome:
  assumes "in_input p"
  shows "outcome wf_body p (parse_named p)"
proof -
  let ?q = "rp_skip_while (\<lambda>c. c \<noteq> ch CHR ''}'') p"
  have q: "rp_input ?q = rp_input p" "in_input ?q" using skip_while_in_input [OF assms] by auto
  have "outcome wf_body ?q (parse_named p)"
    unfolding parse_named_def Let_def
    by (rule outcome_consume [OF q(2)]) (use q(2) in \<open>auto intro!: outcome_error dest: in_input_before\<close>)
  then show ?thesis using q(1) by (rule outcome_shift)
qed

lemma parse_class_body_outcome:
  assumes "in_input p"
  shows "outcome wf_body p (parse_class_body p)"
proof -
  obtain negated q where q: "(case rp_consume (ch CHR ''^'') p of Some q \<Rightarrow> (True, q) | None \<Rightarrow> (False, p)) = (negated, q)"
    by fastforce
  then have i: "rp_input q = rp_input p" "in_input q"
    using in_input_consume assms by (auto split: option.splits)
  have "outcome wf_body q (parse_class_body p)"
    unfolding parse_class_body_def q Let_def prod.case
    by (rule outcome_bind [OF class_members_outcome [OF i(2)]]) (auto intro: outcome_error)
  then show ?thesis using i(1) by (rule outcome_shift)
qed

lemma parsers_outcome:
  "in_input p \<Longrightarrow> outcome wf_body p (parse_union p)"
  "in_input p \<Longrightarrow> outcome wf_body p (parse_concat p)"
  "in_input p \<Longrightarrow> list_all wf_body ms \<Longrightarrow> outcome (\<lambda>bs. list_all wf_body bs \<and> length ms \<le> length bs) p (concat_loop ms p)"
  "in_input p \<Longrightarrow> outcome wf_body p (parse_repeat p)"
  "in_input p \<Longrightarrow> outcome wf_body p (parse_char_class p)"
  "in_input p \<Longrightarrow> outcome wf_body p (parse_simple p)"
proof (induction p and p and ms p and p and p and p
    rule: parse_union_parse_concat_concat_loop_parse_repeat_parse_char_class_parse_simple.induct)
  case (1 p)
  show ?case
    unfolding parse_union.simps [of p]
  proof (rule outcome_bind [OF "1.IH"(1) [OF "1.prems"]], simp only: prod.case, rule outcome_consume, assumption)
    fix left q r
    assume c: "parse_concat p = Inr (left, q)" "wf_body left"
      and r: "rp_consume (ch CHR ''|'') q = Some r" "in_input r" "rp_input r = rp_input q"
    have "outcome wf_body r (and_then (parse_union r) (\<lambda>(right, r). Inr (RUnion left right, r)))" if "rp_has_remaining r"
      by (rule outcome_bind [OF "1.IH"(2) [OF c(1) refl r(1) _ r(2)]]) (use that c(2) in auto)
    then show "outcome wf_body r
        (if \<not> rp_has_remaining r then Inl (rp_unescaped (ch CHR ''|'') (rp_back r))
         else and_then (parse_union r) (\<lambda>(right, r). Inr (RUnion left right, r)))"
      by (auto intro: outcome_shift [OF outcome_error(2) [OF back_in_input(1) [OF r(2)]] back_in_input(2)])
  qed simp
next
  case (2 p)
  show ?case
    unfolding parse_concat.simps [of p]
  proof (rule outcome_bind [OF "2.IH"(1) [OF "2.prems"]], simp only: prod.case)
    fix m q
    assume m: "parse_repeat p = Inr (m, q)" "wf_body m" "in_input q"
    show "outcome wf_body q (and_then (concat_loop [m] q) (\<lambda>(members, q).
        case members of [] \<Rightarrow> Inr (RConcat members, q)
        | b # rest \<Rightarrow> Inr (if rest = [] then b else RConcat members, q)))"
      by (rule outcome_bind [OF "2.IH"(2) [OF m(1) refl m(3)]])
        (use m(2) in \<open>auto simp: list_all_iff Suc_le_eq split: list.split\<close>)
  qed
next
  case (3 ms p)
  show ?case
  proof (cases "case rp_peek p of None \<Rightarrow> False | Some c \<Rightarrow> c \<notin> set (lit '')|$'')")
    case True
    have "outcome (\<lambda>bs. list_all wf_body bs \<and> length ms \<le> length bs) p
        (and_then (parse_repeat p) (\<lambda>(m, q). concat_loop (ms @ [m]) q))"
      by (rule outcome_bind [OF "3.IH"(1) [OF True "3.prems"(1)]], simp only: prod.case, rule outcome_weaken, rule "3.IH"(2) [OF True])
        (use "3.prems"(2) in auto)
    then show ?thesis using True by (simp add: concat_loop.simps [of ms p])
  next
    case False
    then show ?thesis using "3.prems" by (simp add: concat_loop.simps [of ms p])
  qed
next
  case (4 p)
  show ?case
    unfolding parse_repeat.simps [of p]
    by (rule outcome_bind [OF "4.IH" [OF "4.prems"]]) (auto intro: postfix_loop_outcome)
next
  case (5 p)
  show ?case
    unfolding parse_char_class.simps [of p]
    by (rule outcome_consume [OF "5.prems"]) (use "5.IH" "5.prems" parse_class_body_outcome in auto)
next
  case (6 p)
  show ?case
    unfolding parse_simple.simps [of p]
  proof (rule outcome_consume [OF "6.prems"], simp, rule outcome_consume [OF "6.prems"])
    fix q
    assume q: "rp_consume (ch CHR ''.'') p = None" "rp_consume (ch CHR ''('') p = Some q" "in_input q"
    show "outcome wf_body q (and_then (parse_union q) (\<lambda>(b, q). and_then (rp_expect (ch CHR '')'') q) (\<lambda>q. Inr (b, q))))"
      by (rule outcome_bind [OF "6.IH" [OF q]], simp only: prod.case, rule expect_outcome) auto
  next
    show "outcome wf_body p
        (case rp_consume (ch CHR ''{'') p of
          None \<Rightarrow> and_then (parse_character False p) (\<lambda>(c, q). Inr (RChar c, q))
        | Some q \<Rightarrow> parse_named q)"
      by (rule outcome_consume [OF "6.prems"], rule parse_named_outcome, assumption,
          rule outcome_bind [OF parse_character_outcome [OF "6.prems"]], simp)
  qed
qed

lemma parse_regex_run:
  assumes "s \<notin> {[], lit ''^'', lit ''$'', lit ''^$''}"
    and "(case rp_consume (ch CHR ''^'') (new_regex_parser s) of Some q \<Rightarrow> (True, q) | None \<Rightarrow> (False, new_regex_parser s))
      = (start, p1)"
  shows "parse_regex s = and_then (parse_union p1) (\<lambda>(body, p).
           (let (end_line, p) = (case rp_consume (ch CHR ''$'') p of Some q \<Rightarrow> (True, q) | None \<Rightarrow> (False, p)) in
            if rp_has_remaining p then
              if end_line then Inl (rp_unescaped (ch CHR ''$'') (rp_back p))
              else Inl (rp_unescaped (rp_input p ! rp_cursor p) p)
            else Inr \<lparr>rx_start_line = start, rx_body = body, rx_end_line = end_line\<rparr>))"
  using assms by (simp add: parse_regex_def Let_def)

text \<open>An error of \<open>parse\<close> names the input and a position in it or at its end.\<close>

lemma parse_regex_outcome:
  assumes "valid_str s"
  shows "case parse_regex s of
     Inl e \<Rightarrow> error_input e = s \<and> error_index e \<le> length s
   | Inr r \<Rightarrow> wf_body (rx_body r)"
proof -
  let ?p = "new_regex_parser s"
  have p: "in_input ?p" "rp_input ?p = s" using assms by (simp_all add: new_regex_parser_def in_input_def)
  obtain start p1 where p1: "(case rp_consume (ch CHR ''^'') ?p of Some q \<Rightarrow> (True, q) | None \<Rightarrow> (False, ?p)) = (start, p1)"
    by fastforce
  then have i: "rp_input p1 = s" "in_input p1"
    using in_input_consume p by (auto split: option.splits)
  have union: "outcome wf_body p1 (parse_union p1)" by (rule parsers_outcome(1) [OF i(2)])
  show ?thesis
  proof (cases "s \<in> {[], lit ''^'', lit ''$'', lit ''^$''}")
    case True
    then show ?thesis using p(2) by (auto simp: parse_regex_def rp_error_at_def Let_def)
  next
    case False
    note run = parse_regex_run [OF False p1]
    show ?thesis
    proof (cases "parse_union p1")
      case (Inl e)
      then show ?thesis using union i by (simp add: run outcome_def)
    next
      case (Inr bq)
      then obtain b q where b: "parse_union p1 = Inr (b, q)" "wf_body b" "rp_input q = s" "in_input q"
        using union i by (cases bq) auto
      show ?thesis
      proof (cases "rp_consume (ch CHR ''$'') q")
        case None
        then show ?thesis
          using b by (simp add: run rp_unescaped_def rp_error_def rp_error_at_def in_input_def)
      next
        case (Some r)
        then have "in_input (rp_back r)" "rp_input (rp_back r) = s"
          using in_input_consume [OF Some b(4)] b(3) back_in_input by auto
        then show ?thesis
          using b Some by (simp add: run rp_unescaped_def rp_error_def rp_error_at_def in_input_def)
      qed
    qed
  qed
qed

end
