(* ===== verification/Regex_Roundtrip.thy ===== *)
theory Regex_Roundtrip
  imports Regex_Parser
begin

text \<open>
  Printing and parsing of token regular expressions: the canonical form of a body that a parse can
  yield parses to the body again, so that two regular expressions with the same canonical form are
  equal, and an error of the parser lies in the input.

  A parser that has read \<open>s\<close> and has \<open>r\<close> before it is \<open>here s r\<close>; the lemmas of each level read the
  text that the printer's function of the same level writes.
\<close>

section \<open>A parser within a text\<close>

definition here :: "str \<Rightarrow> str \<Rightarrow> regex_parser" where
  "here s r = \<lparr>rp_input = s @ r, rp_cursor = length s\<rparr>"

lemma here_simps [simp]:
  "rp_peek (here s (c # r)) = Some c" "rp_peek (here s []) = None"
  "rp_peek_at (here s (c # d # r)) (Suc 0) = Some d" "rp_peek_at (here s [c]) (Suc 0) = None"
  "rp_peek_at (here s []) (Suc 0) = None"
  "rp_advance (here s (c # r)) = here (s @ [c]) r"
  "rp_has_remaining (here s r) \<longleftrightarrow> r \<noteq> []"
  "rp_consume c (here s []) = None"
  "rp_consume c (here s (d # r)) = (if c = d then Some (here (s @ [d]) r) else None)"
  "rp_next (here s []) = None" "rp_next (here s (c # r)) = Some (c, here (s @ [c]) r)"
  "rp_expect c (here s (c # r)) = Inr (here (s @ [c]) r)"
  "rp_input (here s r) = s @ r" "rp_cursor (here s r) = length s"
  by (auto simp: here_def rp_peek_def rp_peek_at_def rp_advance_def rp_has_remaining_def rp_consume_def
      rp_next_def rp_expect_def nth_append)

lemma skip_here:
  assumes "list_all ok w" and "r = [] \<or> \<not> ok (hd r)"
  shows "rp_skip_while ok (here s (w @ r)) = here (s @ w) r"
  using assms(1)
proof (induction w arbitrary: s)
  case Nil
  then show ?case using assms(2) by (cases r) (auto simp: rp_skip_while.simps [of ok])
next
  case (Cons c w)
  have "rp_skip_while ok (here s ((c # w) @ r)) = rp_skip_while ok (here (s @ [c]) (w @ r))"
    using Cons.prems by (simp add: rp_skip_while.simps [of ok "here s (c # w @ r)"])
  then show ?case using Cons.IH [of "s @ [c]"] Cons.prems by simp
qed

lemma slice_here: "rp_slice (length s) (length s + length w) (here (s @ w) r) = w"
  by (simp add: rp_slice_def)

section \<open>Characters and classes\<close>

lemma reserved_chars:
  "is_reserved c \<longleftrightarrow> c \<in> {94, 36, 124, 63, 42, 43, 40, 41, 123, 125, 91, 93, 46, 92, 34}"
  "is_reserved_class c \<longleftrightarrow> c \<in> {94, 45, 91, 93, 92}"
  by (auto simp: is_reserved_def is_reserved_class_def)

lemma read_character:
  "parse_character in_class (here s (print_character c in_class @ r)) = Inr (c, here (s @ print_character c in_class) r)"
  by (auto simp: parse_character_def print_character_def reserved_chars)

lemma character_first:
  "\<exists>d t. print_character c True = d # t \<and> d \<noteq> 93 \<and> d \<noteq> 94 \<and> d \<noteq> 45"
  "\<exists>d t. print_character c False = d # t \<and> (is_reserved d \<longrightarrow> d = 92)"
  by (auto simp: print_character_def reserved_chars)

lemma class_member_first: "\<exists>d t. print_class_member m = d # t \<and> d \<noteq> 93 \<and> d \<noteq> 94 \<and> d \<noteq> 45"
proof (cases m)
  case (ClassChar c)
  then show ?thesis using character_first(1) [of c] by simp
next
  case (ClassRange lo hi)
  then show ?thesis using character_first(1) [of lo] by auto
qed

lemma read_class_member:
  assumes "r \<noteq> []" and "hd r \<noteq> 45"
  shows "parse_class_member (here s (print_class_member m @ r)) = Inr (m, here (s @ print_class_member m) r)"
proof (cases m)
  case (ClassChar c)
  obtain d r' where "r = d # r'" "d \<noteq> 45" using assms by (cases r) auto
  then show ?thesis using ClassChar read_character [of True s c r] by (simp add: parse_class_member_def)
next
  case (ClassRange lo hi)
  obtain d t where d: "print_character hi True = d # t" "d \<noteq> 93"
    using character_first(1) [of hi] by auto
  have "parse_class_member (here s (print_class_member m @ r))
      = and_then (parse_character True (here (s @ print_character lo True @ [45]) (print_character hi True @ r)))
          (\<lambda>(hi, r). Inr (ClassRange lo hi, r))"
    using ClassRange read_character [of True s lo] d by (simp add: parse_class_member_def)
  then show ?thesis using read_character [of True _ hi r] ClassRange by simp
qed

lemma members_first: "r \<noteq> [] \<Longrightarrow> hd r = 93 \<Longrightarrow> concat (map print_class_member ms) @ r \<noteq> []
    \<and> hd (concat (map print_class_member ms) @ r) \<noteq> 45"
proof (cases ms)
  case (Cons m ms')
  then show ?thesis using class_member_first [of m] by auto
qed simp

lemma read_class_members:
  "class_members_loop acc (here s (concat (map print_class_member ms) @ 93 # r))
     = Inr (acc @ ms, here (s @ concat (map print_class_member ms) @ [93]) r)"
proof (induction ms arbitrary: acc s)
  case Nil
  then show ?case by (simp add: class_members_loop.simps [of acc])
next
  case (Cons m ms)
  obtain d t where d: "print_class_member m = d # t" "d \<noteq> 93" using class_member_first by blast
  let ?rest = "concat (map print_class_member ms) @ 93 # r"
  have "parse_class_member (here s (print_class_member m @ ?rest)) = Inr (m, here (s @ print_class_member m) ?rest)"
    using members_first [of "93 # r" ms] by (intro read_class_member) auto
  then show ?case
    using Cons.IH [of "acc @ [m]" "s @ print_class_member m"] d
    by (simp add: class_members_loop.simps [of acc])
qed

lemma read_class_body:
  assumes "ms \<noteq> []"
  shows "parse_class_body (here s ((if negated then lit ''^'' else []) @ concat (map print_class_member ms) @ 93 # r))
     = Inr (RClass negated ms, here (s @ (if negated then lit ''^'' else []) @ concat (map print_class_member ms) @ [93]) r)"
proof -
  obtain d t where d: "concat (map print_class_member ms) = d # t" "d \<noteq> 94"
    using assms class_member_first [of "hd ms"] by (cases ms) fastforce+
  show ?thesis
    using read_class_members [of "[]" "s @ [94]" ms r] read_class_members [of "[]" s ms r] assms d
    by (auto simp: parse_class_body_def)
qed

section \<open>Counts and names\<close>

lemma read_count:
  assumes "n < 2 ^ 31" and "r \<noteq> []" and "\<not> is_ascii_digit (hd r)"
  shows "parse_integer (here s (decimal n @ r)) = Inr (n, here (s @ decimal n) r)"
proof -
  have "list_all is_decimal_digit (decimal n)" using decimal_digits [of n] by (simp add: list_all_iff is_decimal_digit_def)
  then have "rp_skip_while is_decimal_digit (here s (decimal n @ r)) = here (s @ decimal n) r"
    using assms by (intro skip_here) (auto simp: is_decimal_digit_def)
  moreover have "parse_u64 (decimal n) = Some n" using assms(1) by (intro parse_u64_decimal) simp
  ultimately show ?thesis
    using assms(1) slice_here [of s "decimal n" r] decimal_nonempty [of n] by (simp add: parse_integer_def Let_def)
qed

lemma identifier_chars: "valid_identifier name \<Longrightarrow> c \<in> set name \<Longrightarrow> c \<noteq> 125"
  by (auto simp: valid_identifier_def char_class_defs list_all_iff split: list.splits if_splits)

lemma read_named:
  assumes "valid_identifier name"
  shows "parse_named (here s (name @ 125 # r)) = Inr (RNamed name, here (s @ name @ [125]) r)"
proof -
  have "rp_skip_while (\<lambda>c. c \<noteq> ch CHR ''}'') (here s (name @ 125 # r)) = here (s @ name) (125 # r)"
    using identifier_chars [OF assms] by (intro skip_here) (auto simp: list_all_iff)
  then show ?thesis
    using slice_here [of s name "125 # r"] assms by (simp add: parse_named_def Let_def rp_slice_def)
qed

section \<open>Postfix operators\<close>

text \<open>Texts before which \<open>parse_repeat\<close> stops, and the texts that begin an operand.\<close>

definition no_postfix :: "str \<Rightarrow> bool" where
  "no_postfix r \<longleftrightarrow> (case r of [] \<Rightarrow> True
     | c # t \<Rightarrow> c \<notin> {63, 42, 43} \<and> (c = 123 \<longrightarrow> (case t of [] \<Rightarrow> True | d # _ \<Rightarrow> \<not> is_decimal_digit d)))"

definition operand_start :: "str \<Rightarrow> bool" where
  "operand_start t \<longleftrightarrow> (\<exists>c u. t = c # u \<and> (is_reserved c \<longrightarrow> c \<in> {92, 40, 91, 46, 123})
     \<and> (c = 123 \<longrightarrow> (\<exists>d v. u = d # v \<and> \<not> is_decimal_digit d)))"

lemma operand_start_append: "operand_start t \<Longrightarrow> operand_start (t @ r)"
  by (auto simp: operand_start_def)

lemma operand_start_no_postfix: "operand_start t \<Longrightarrow> no_postfix (t @ r)"
  by (auto simp: operand_start_def no_postfix_def reserved_chars)

lemma postfix_stop: "no_postfix r \<Longrightarrow> postfix_loop b (here s r) = Inr (b, here s r)"
  by (cases r; cases "tl r") (auto simp: postfix_loop.simps [of b] no_postfix_def split: list.splits)

lemma read_operator:
  assumes "no_postfix r"
  shows "postfix_loop b (here s (63 # r)) = Inr (RZeroOrOne b, here (s @ [63]) r)"
    and "postfix_loop b (here s (42 # r)) = Inr (RZeroOrMore b, here (s @ [42]) r)"
    and "postfix_loop b (here s (43 # r)) = Inr (ROneOrMore b, here (s @ [43]) r)"
  using postfix_stop [OF assms] by (simp_all add: postfix_loop.simps [of b])

lemma read_repetition:
  assumes "n < 2 ^ 31" and "k < 2 ^ 31"
  shows "parse_repetition b (here s (decimal n @ 125 # r)) = Inr (RExactly b n, here (s @ decimal n @ [125]) r)"
    and "parse_repetition b (here s (decimal n @ 44 # 125 # r)) = Inr (RAtLeast b n, here (s @ decimal n @ [44, 125]) r)"
    and "parse_repetition b (here s (decimal n @ 44 # decimal k @ 125 # r))
      = Inr (RRange b n k, here (s @ decimal n @ [44] @ decimal k @ [125]) r)"
proof -
  have no_digit: "\<not> is_ascii_digit 125" "\<not> is_ascii_digit 44" by (simp_all add: is_ascii_digit_def)
  obtain d t where k: "decimal k = d # t" "d \<noteq> 125"
    using decimal_nonempty [of k] decimal_digits [of k] by (cases "decimal k") (auto simp: is_ascii_digit_def)
  show "parse_repetition b (here s (decimal n @ 125 # r)) = Inr (RExactly b n, here (s @ decimal n @ [125]) r)"
    using read_count [OF assms(1), of "125 # r" s] no_digit by (simp add: parse_repetition_def)
  show "parse_repetition b (here s (decimal n @ 44 # 125 # r)) = Inr (RAtLeast b n, here (s @ decimal n @ [44, 125]) r)"
    using read_count [OF assms(1), of "44 # 125 # r" s] no_digit by (simp add: parse_repetition_def)
  show "parse_repetition b (here s (decimal n @ 44 # decimal k @ 125 # r))
      = Inr (RRange b n k, here (s @ decimal n @ [44] @ decimal k @ [125]) r)"
    using read_count [OF assms(1), of "44 # decimal k @ 125 # r" s] no_digit k
      read_count [OF assms(2), of "125 # r" "s @ decimal n @ [44]"]
    by (simp add: parse_repetition_def)
qed

lemma read_braces:
  assumes "no_postfix r" and "\<And>s. parse_repetition b (here s (t @ r)) = Inr (c, here (s @ t) r)"
    and "t \<noteq> []" and "is_decimal_digit (hd t)"
  shows "postfix_loop b (here s (123 # t @ r)) = Inr (c, here (s @ 123 # t) r)"
proof -
  obtain d u where "t = d # u" "is_decimal_digit d" using assms(3,4) by (cases t) auto
  then show ?thesis
    using assms(2) [of "s @ [123]"] postfix_stop [OF assms(1), of c "s @ 123 # t"]
    by (simp add: postfix_loop.simps [of b])
qed

section \<open>Levels\<close>

text \<open>A body of another level is handed on.\<close>

lemma print_hands_on:
  "body_level b \<noteq> 0 \<Longrightarrow> print_union b = print_concat b" "body_level b \<noteq> 1 \<Longrightarrow> print_concat b = print_repeat b"
  "body_level b \<noteq> 2 \<Longrightarrow> print_repeat b = print_class b" "body_level b \<noteq> 3 \<Longrightarrow> print_class b = print_simple b"
  "body_level b \<noteq> 4 \<Longrightarrow> print_simple b = 40 # print_union b @ [41]"
  by (cases b; simp)+

lemma class_starts:
  assumes "wf_body b"
  shows "\<exists>c u. print_simple b = c # u \<and> c \<noteq> 91 \<and> operand_start (c # u)" and "operand_start (print_class b)"
proof -
  show s: "\<exists>c u. print_simple b = c # u \<and> c \<noteq> 91 \<and> operand_start (c # u)"
  proof (cases b)
    case (RChar c)
    then show ?thesis using character_first(2) [of c] by (auto simp: operand_start_def reserved_chars)
  next
    case (RNamed name)
    then show ?thesis
      using assms by (auto simp: operand_start_def reserved_chars valid_identifier_def is_decimal_digit_def is_ascii_digit_def
        split: list.splits if_splits)
  qed (simp_all add: operand_start_def reserved_chars)
  show "operand_start (print_class b)"
    using s print_hands_on(4) [of b] by (cases b) (auto simp: operand_start_def reserved_chars)
qed

lemma repeat_starts: "wf_body b \<Longrightarrow> operand_start (print_repeat b)"
proof (cases "body_level b = 2")
  case True
  assume "wf_body b"
  then show ?thesis using True class_starts(2) by (cases b) (auto intro: operand_start_append)
qed (simp add: print_hands_on(3) class_starts(2))

lemma concat_starts: "wf_body b \<Longrightarrow> operand_start (print_concat b)"
proof (cases "body_level b = 1")
  case True
  assume "wf_body b"
  then obtain m ms' where "b = RConcat (m # ms')" "wf_body m"
    using True by (cases b) (auto simp: Suc_le_length_iff numeral_2_eq_2)
  then show ?thesis using repeat_starts by (auto intro: operand_start_append)
qed (simp add: print_hands_on(2) repeat_starts)

lemma union_starts: "wf_body b \<Longrightarrow> operand_start (print_union b)"
proof (cases "body_level b = 0")
  case True
  assume "wf_body b"
  then show ?thesis using True concat_starts by (cases b) (auto intro: operand_start_append)
qed (simp add: print_hands_on(1) concat_starts)

definition reads_simple :: "regex_body \<Rightarrow> bool" where
  "reads_simple b \<longleftrightarrow> (\<forall>s r. parse_simple (here s (print_simple b @ r)) = Inr (b, here (s @ print_simple b) r))"

definition reads_class :: "regex_body \<Rightarrow> bool" where
  "reads_class b \<longleftrightarrow> (\<forall>s r. parse_char_class (here s (print_class b @ r)) = Inr (b, here (s @ print_class b) r))"

definition reads_repeat :: "regex_body \<Rightarrow> bool" where
  "reads_repeat b \<longleftrightarrow> (\<forall>s r. no_postfix r \<longrightarrow>
     parse_repeat (here s (print_repeat b @ r)) = Inr (b, here (s @ print_repeat b) r))"

definition reads_concat :: "regex_body \<Rightarrow> bool" where
  "reads_concat b \<longleftrightarrow> (\<forall>s r. (r = [] \<or> hd r \<in> {41, 124, 36}) \<longrightarrow>
     parse_concat (here s (print_concat b @ r)) = Inr (b, here (s @ print_concat b) r))"

definition reads_union :: "regex_body \<Rightarrow> bool" where
  "reads_union b \<longleftrightarrow> (\<forall>s r. (r = [] \<or> hd r \<in> {41, 36}) \<longrightarrow>
     parse_union (here s (print_union b @ r)) = Inr (b, here (s @ print_union b) r))"

lemma closing_no_postfix: "r = [] \<or> hd r \<in> {41, 124, 36} \<Longrightarrow> no_postfix r"
  by (cases r) (auto simp: no_postfix_def)

lemma union_of_concat:
  assumes "reads_concat b" and "r = [] \<or> hd r \<in> {41, 36}"
  shows "parse_union (here s (print_concat b @ r)) = Inr (b, here (s @ print_concat b) r)"
proof -
  have "rp_consume (ch CHR ''|'') (here (s @ print_concat b) r) = None" using assms(2) by (cases r) auto
  then show ?thesis using assms by (auto simp: parse_union.simps [of "here s _"] reads_concat_def)
qed

lemma reads_union_on: "reads_concat b \<Longrightarrow> body_level b \<noteq> 0 \<Longrightarrow> reads_union b"
  using union_of_concat by (simp add: reads_union_def print_hands_on(1))

lemma concat_loop_stop: "r = [] \<or> hd r \<in> {41, 124, 36} \<Longrightarrow> concat_loop ms (here s r) = Inr (ms, here s r)"
  by (cases r) (auto simp: concat_loop.simps [of ms])

lemma reads_concat_on:
  assumes "reads_repeat b" and "body_level b \<noteq> 1"
  shows "reads_concat b"
  using assms closing_no_postfix
  by (auto simp: reads_concat_def reads_repeat_def parse_concat.simps [of "here _ _"] print_hands_on(2) concat_loop_stop)

lemma reads_repeat_on:
  assumes "reads_class b" and "body_level b \<noteq> 2"
  shows "reads_repeat b"
  using assms
  by (auto simp: reads_repeat_def reads_class_def parse_repeat.simps [of "here _ _"] print_hands_on(3) postfix_stop)

lemma reads_class_on:
  assumes "reads_simple b" and "body_level b \<noteq> 3" and "wf_body b"
  shows "reads_class b"
  unfolding reads_class_def
proof (intro allI)
  fix s r
  obtain c u where c: "print_simple b = c # u" "c \<noteq> 91" using class_starts(1) [OF assms(3)] by blast
  then have "rp_consume (ch CHR ''['') (here s (print_simple b @ r)) = None" by simp
  then show "parse_char_class (here s (print_class b @ r)) = Inr (b, here (s @ print_class b) r)"
    using assms(1,2) by (simp add: parse_char_class.simps [of "here s _"] print_hands_on(4) reads_simple_def)
qed

lemma reads_simple_on:
  assumes "reads_union b" and "body_level b \<noteq> 4"
  shows "reads_simple b"
  unfolding reads_simple_def
proof (intro allI)
  fix s r
  have "parse_union (here (s @ [40]) (print_union b @ 41 # r)) = Inr (b, here (s @ 40 # print_union b) (41 # r))"
    using assms(1) unfolding reads_union_def by simp
  then show "parse_simple (here s (print_simple b @ r)) = Inr (b, here (s @ print_simple b) r)"
    using assms(2) by (simp add: parse_simple.simps [of "here s _"] print_hands_on(5))
qed

text \<open>Each level of a body whose own level is read.\<close>

lemma reads_all:
  assumes "wf_body b"
    and "body_level b = 0 \<Longrightarrow> reads_union b" and "body_level b = 1 \<Longrightarrow> reads_concat b"
    and "body_level b = 2 \<Longrightarrow> reads_repeat b" and "body_level b = 3 \<Longrightarrow> reads_class b"
    and "body_level b = 4 \<Longrightarrow> reads_simple b"
  shows "reads_union b \<and> reads_concat b \<and> reads_repeat b \<and> reads_class b \<and> reads_simple b"
proof -
  have u: "reads_concat b \<Longrightarrow> reads_union b" and c: "reads_repeat b \<Longrightarrow> reads_concat b"
    and r: "reads_class b \<Longrightarrow> reads_repeat b" and k: "reads_simple b \<Longrightarrow> reads_class b"
    and m: "reads_union b \<Longrightarrow> reads_simple b"
    using assms reads_union_on reads_concat_on reads_repeat_on reads_class_on reads_simple_on by blast+
  have "body_level b \<le> 4" by (cases b) simp_all
  then consider "body_level b = 0" | "body_level b = 1" | "body_level b = 2" | "body_level b = 3" | "body_level b = 4"
    by linarith
  then show ?thesis using assms(2-) u c r k m by cases blast+
qed

lemma reads_union_parts:
  assumes "reads_concat left" and "reads_concat right" and "wf_body right"
  shows "reads_union (RUnion left right)"
  unfolding reads_union_def
proof (intro allI impI)
  fix s r :: str
  assume r: "r = [] \<or> hd r \<in> {41, 36}"
  have right: "print_concat right \<noteq> []" using concat_starts [OF assms(3)] by (auto simp: operand_start_def)
  have "parse_concat (here s (print_concat left @ 124 # print_concat right @ r))
      = Inr (left, here (s @ print_concat left) (124 # print_concat right @ r))"
    using assms(1) unfolding reads_concat_def by simp
  then show "parse_union (here s (print_union (RUnion left right) @ r))
      = Inr (RUnion left right, here (s @ print_union (RUnion left right)) r)"
    using union_of_concat [OF assms(2) r] right by (simp add: parse_union.simps [of "here s _"])
qed

lemma read_members:
  assumes "list_all reads_repeat ms" and "list_all wf_body ms" and "r = [] \<or> hd r \<in> {41, 124, 36}"
  shows "concat_loop acc (here s (concat (map print_repeat ms) @ r))
     = Inr (acc @ ms, here (s @ concat (map print_repeat ms)) r)"
    and "no_postfix (concat (map print_repeat ms) @ r)"
  using assms
proof (induction ms arbitrary: acc s)
  case Nil
  { case 1 then show ?case by (simp add: concat_loop_stop) }
  { case 2 then show ?case by (simp add: closing_no_postfix) }
next
  case (Cons m ms)
  { case 1
    let ?rest = "concat (map print_repeat ms) @ r"
    obtain c u where c: "print_repeat m = c # u" "c \<notin> {41, 124, 36}"
      using repeat_starts [of m] 1 by (auto simp: operand_start_def reserved_chars)
    have "parse_repeat (here s (print_repeat m @ ?rest)) = Inr (m, here (s @ print_repeat m) ?rest)"
      using 1 Cons.IH(2) by (simp add: reads_repeat_def)
    then show ?case
      using Cons.IH(1) [of "acc @ [m]" "s @ print_repeat m"] 1 c by (auto simp: concat_loop.simps [of acc]) }
  { case 2 then show ?case using operand_start_no_postfix [OF repeat_starts, of m] by simp }
qed

lemma reads_concat_members:
  assumes "list_all reads_repeat ms" and "wf_body (RConcat ms)"
  shows "reads_concat (RConcat ms)"
  unfolding reads_concat_def
proof (intro allI impI)
  fix s r :: str
  assume r: "r = [] \<or> hd r \<in> {41, 124, 36}"
  obtain m ms' where ms: "ms = m # ms'" "ms' \<noteq> []" "list_all wf_body ms'" "list_all reads_repeat ms'" "reads_repeat m"
    using assms by (cases ms; cases "tl ms") (auto simp: list_all_iff)
  let ?rest = "concat (map print_repeat ms') @ r"
  have "parse_repeat (here s (print_repeat m @ ?rest)) = Inr (m, here (s @ print_repeat m) ?rest)"
    using read_members(2) [OF ms(4,3) r] ms(5) by (simp add: reads_repeat_def)
  then show "parse_concat (here s (print_concat (RConcat ms) @ r)) = Inr (RConcat ms, here (s @ print_concat (RConcat ms)) r)"
    using read_members(1) [OF ms(4,3) r, of "[m]"] ms(1,2) by (simp add: parse_concat.simps [of "here s _"])
qed

lemma reads_repeat_postfix:
  assumes "reads_class b" and "\<And>s r. no_postfix r \<Longrightarrow> postfix_loop b (here s (t @ r)) = Inr (c, here (s @ t) r)"
    and "print_repeat c = print_class b @ t"
  shows "reads_repeat c"
  using assms by (simp add: reads_repeat_def reads_class_def parse_repeat.simps [of "here _ _"])

lemma reads_repeat_operators:
  assumes "reads_class b"
  shows "reads_repeat (RZeroOrOne b)" and "reads_repeat (RZeroOrMore b)" and "reads_repeat (ROneOrMore b)"
  by (rule reads_repeat_postfix [OF assms, of "[63]"], simp_all add: read_operator)
    (rule reads_repeat_postfix [OF assms, of "[42]"], simp_all add: read_operator,
      rule reads_repeat_postfix [OF assms, of "[43]"], simp_all add: read_operator)

lemma decimal_start: "is_decimal_digit (hd (decimal n @ t))"
  using decimal_digits [of n] decimal_nonempty [of n] by (cases "decimal n") (auto simp: is_decimal_digit_def)

lemma reads_repeat_counts:
  assumes "reads_class b" and "n < 2 ^ 31" and "k < 2 ^ 31"
  shows "reads_repeat (RExactly b n)" and "reads_repeat (RAtLeast b n)" and "reads_repeat (RRange b n k)"
proof -
  note braces = read_braces [OF _ _ _ decimal_start]
  note rep = read_repetition [OF assms(2,3), of b]
  show "reads_repeat (RExactly b n)"
    by (rule reads_repeat_postfix [OF assms(1), of "123 # decimal n @ [125]"])
      (use braces [of _ b n "[125]"] rep(1) in \<open>auto simp: decimal_nonempty\<close>)
  show "reads_repeat (RAtLeast b n)"
    by (rule reads_repeat_postfix [OF assms(1), of "123 # decimal n @ [44, 125]"])
      (use braces [of _ b n "[44, 125]"] rep(2) in \<open>auto simp: decimal_nonempty\<close>)
  show "reads_repeat (RRange b n k)"
    by (rule reads_repeat_postfix [OF assms(1), of "123 # decimal n @ 44 # decimal k @ [125]"])
      (use braces [of _ b n "44 # decimal k @ [125]"] rep(3) in \<open>auto simp: decimal_nonempty\<close>)
qed

lemma reads_atoms:
  "reads_simple (RChar c)" "reads_simple RAnyChar" "valid_identifier name \<Longrightarrow> reads_simple (RNamed name)"
  "ms \<noteq> [] \<Longrightarrow> reads_class (RClass negated ms)"
proof -
  obtain d t where d: "print_character c False = d # t" "d \<notin> {46, 40, 123}"
    using character_first(2) [of c] by (auto simp: reserved_chars)
  show "reads_simple (RChar c)"
    using read_character [of False _ c] d by (auto simp: reads_simple_def parse_simple.simps [of "here _ _"])
  show "reads_simple RAnyChar" by (simp add: reads_simple_def parse_simple.simps [of "here _ _"])
  show "valid_identifier name \<Longrightarrow> reads_simple (RNamed name)"
    using read_named [of name] by (simp add: reads_simple_def parse_simple.simps [of "here _ _"])
  show "ms \<noteq> [] \<Longrightarrow> reads_class (RClass negated ms)"
    using read_class_body [of ms _ negated] by (simp add: reads_class_def parse_char_class.simps [of "here _ _"])
qed

lemma body_reads:
  "wf_body b \<Longrightarrow> reads_union b \<and> reads_concat b \<and> reads_repeat b \<and> reads_class b \<and> reads_simple b"
proof (induction b)
  case (RUnion left right)
  then show ?case by (intro reads_all) (auto intro: reads_union_parts)
next
  case (RConcat ms)
  then show ?case by (intro reads_all) (auto intro!: reads_concat_members simp: list_all_iff)
next
  case (RZeroOrMore b)
  then show ?case by (intro reads_all) (auto intro: reads_repeat_operators)
next
  case (RZeroOrOne b)
  then show ?case by (intro reads_all) (auto intro: reads_repeat_operators)
next
  case (ROneOrMore b)
  then show ?case by (intro reads_all) (auto intro: reads_repeat_operators)
next
  case (RRange b n k)
  then show ?case by (intro reads_all) (auto intro: reads_repeat_counts)
next
  case (RExactly b n)
  then show ?case by (intro reads_all) (auto intro: reads_repeat_counts)
next
  case (RAtLeast b n)
  then show ?case by (intro reads_all) (auto intro: reads_repeat_counts)
next
  case (RChar c)
  then show ?case by (intro reads_all) (auto intro: reads_atoms)
next
  case RAnyChar
  show ?case by (intro reads_all) (auto intro: reads_atoms)
next
  case (RNamed name)
  then show ?case by (intro reads_all) (auto intro: reads_atoms)
next
  case (RClass negated ms)
  then show ?case by (intro reads_all) (auto intro: reads_atoms)
qed

section \<open>The canonical form\<close>

lemma here_new: "new_regex_parser s = here [] s"
  by (simp add: new_regex_parser_def here_def)

lemma parse_canonical:
  assumes "wf_body (rx_body r)"
  shows "parse_regex (to_canonical_string r) = Inr r"
proof -
  let ?start = "if rx_start_line r then lit ''^'' else []" and ?stop = "if rx_end_line r then lit ''$'' else []"
  obtain c u where c: "print_union (rx_body r) = c # u" "c \<noteq> 94" "c \<noteq> 36"
    using union_starts [OF assms] by (auto simp: operand_start_def reserved_chars)
  have canon: "to_canonical_string r = ?start @ print_union (rx_body r) @ ?stop"
    by (simp add: to_canonical_string_def)
  have p: "(case rp_consume (ch CHR ''^'') (here [] (to_canonical_string r)) of
      Some q \<Rightarrow> (True, q) | None \<Rightarrow> (False, here [] (to_canonical_string r)))
      = (rx_start_line r, here ?start (print_union (rx_body r) @ ?stop))"
    using c by (simp add: canon)
  have u: "parse_union (here ?start (print_union (rx_body r) @ ?stop))
      = Inr (rx_body r, here (?start @ print_union (rx_body r)) ?stop)"
    using body_reads [OF assms] unfolding reads_union_def by auto
  have "to_canonical_string r \<notin> {[], lit ''^'', lit ''$'', lit ''^$''}"
    using c by (auto simp: canon)
  note run = parse_regex_run [OF this p [folded here_new]]
  show ?thesis unfolding run u by simp
qed

text \<open>C17: Token regular expressions: whatever the parser returns prints to a canonical form that
  parses to it again; the canonical form of any well-formed expression parses to that expression, so
  two of them with the same canonical form are equal; and an error of the parser repeats the input
  and lies in it or at its end.\<close>

theorem regex_round_trip:
  assumes "valid_str s"
  shows "(case parse_regex s of
      Inr r \<Rightarrow> wf_body (rx_body r) \<and> parse_regex (to_canonical_string r) = Inr r
    | Inl e \<Rightarrow> error_input e = s \<and> error_index e \<le> length s \<and> byte_index e \<le> str_len s)
   \<and> (wf_body (rx_body r1) \<longrightarrow> parse_regex (to_canonical_string r1) = Inr r1
        \<and> (wf_body (rx_body r2) \<longrightarrow> to_canonical_string r1 = to_canonical_string r2 \<longrightarrow> r1 = r2))"
proof -
  have "str_len (take n s) \<le> str_len s" for n
    using str_len_simps(3) [of "take n s" "drop n s"] by simp
  then have "case parse_regex s of
      Inr r \<Rightarrow> wf_body (rx_body r) \<and> parse_regex (to_canonical_string r) = Inr r
    | Inl e \<Rightarrow> error_input e = s \<and> error_index e \<le> length s \<and> byte_index e \<le> str_len s"
    using parse_regex_outcome [OF assms] parse_canonical by (auto simp: byte_index_def split: sum.splits)
  moreover have "r1 = r2" if "wf_body (rx_body r1)" "wf_body (rx_body r2)" "to_canonical_string r1 = to_canonical_string r2"
    using parse_canonical [OF that(1)] parse_canonical [OF that(2)] unfolding that(3) by (metis sum.inject(2))
  ultimately show ?thesis using parse_canonical by blast
qed

theorem regex_round_trip_witness:
  "parse_regex (to_canonical_string \<lparr>rx_start_line = True,
       rx_body = RUnion (RConcat [RChar 97, RExactly (RClass True [ClassRange 48 57]) 3]) (RNamed (lit ''Id'')),
       rx_end_line = False\<rparr>)
     = Inr \<lparr>rx_start_line = True,
       rx_body = RUnion (RConcat [RChar 97, RExactly (RClass True [ClassRange 48 57]) 3]) (RNamed (lit ''Id'')),
       rx_end_line = False\<rparr>"
proof -
  have "wf_body (RUnion (RConcat [RChar 97, RExactly (RClass True [ClassRange 48 57]) 3]) (RNamed (lit ''Id'')))"
    by code_simp
  then show ?thesis using regex_round_trip [of "[]"] by simp
qed

end
