(* ===== verification/Regex_Scalars.thy ===== *)
theory Regex_Scalars
  imports Regex_Syntax "HOL-Library.Product_Lexorder"
begin

text \<open>
  Sets of characters as lists of ranges, and ranges of characters as sequences of ranges of bytes
  (\<open>merge_scalar_ranges\<close>, \<open>complement_scalar_ranges\<close>, \<open>class_scalar_ranges\<close> and \<open>utf8_sequences\<close> of
  \<open>k-rust-regex/src/lib.rs\<close>).

  A list of ranges denotes \<open>ranges_set\<close>, a sequence of byte ranges the byte strings
  \<open>sequence_bytes\<close>. The lemmas: a class's ranges denote its characters; the sequences of a range
  denote exactly the UTF-8 encodings of the characters in it, in increasing order.
\<close>

section \<open>Ranges\<close>

definition MAX_SCALAR :: nat where "MAX_SCALAR = 0x10FFFF"
definition SURROGATES :: "nat \<times> nat" where "SURROGATES = (0xD800, 0xDFFF)"

type_synonym ranges = "(nat \<times> nat) list"

definition ranges_set :: "ranges \<Rightarrow> nat set" where
  "ranges_set rs = (\<Union>(lo, hi) \<in> set rs. {lo..hi})"

lemma ranges_set_simps [simp]:
  "ranges_set [] = {}" "ranges_set ((lo, hi) # rs) = {lo..hi} \<union> ranges_set rs"
  "ranges_set (rs @ qs) = ranges_set rs \<union> ranges_set qs"
  by (auto simp: ranges_set_def)

text \<open>\<open>u32::saturating_add\<close> of one.\<close>

definition saturating_next :: "nat \<Rightarrow> nat" where
  "saturating_next n = min (n + 1) (2 ^ 32 - 1)"

text \<open>The loop of \<open>merge_scalar_ranges\<close> over the sorted ranges.\<close>

fun merge_loop :: "ranges \<Rightarrow> ranges \<Rightarrow> ranges" where
  "merge_loop merged [] = merged"
| "merge_loop merged ((lo, hi) # rs) =
     (if merged \<noteq> [] \<and> lo \<le> saturating_next (snd (last merged))
      then merge_loop (butlast merged @ [(fst (last merged), max (snd (last merged)) hi)]) rs
      else merge_loop (merged @ [(lo, hi)]) rs)"

definition merge_scalar_ranges :: "ranges \<Rightarrow> ranges" where
  "merge_scalar_ranges rs = merge_loop [] (sort rs)"

fun complement_loop :: "ranges \<Rightarrow> nat \<Rightarrow> ranges \<Rightarrow> ranges \<times> nat" where
  "complement_loop complement following [] = (complement, following)"
| "complement_loop complement following ((lo, hi) # rs) =
     complement_loop (if following < lo then complement @ [(following, lo - 1)] else complement) (hi + 1) rs"

definition complement_scalar_ranges :: "ranges \<Rightarrow> ranges" where
  "complement_scalar_ranges rs =
     (let (complement, following) = complement_loop [] 0 rs in
      if following \<le> MAX_SCALAR then complement @ [(following, MAX_SCALAR)] else complement)"

fun member_range :: "char_class \<Rightarrow> (nat \<times> nat) option" where
  "member_range (ClassChar c) = Some (c, c)"
| "member_range (ClassRange lo hi) = (if lo \<le> hi then Some (lo, hi) else None)"

definition class_scalar_ranges :: "bool \<Rightarrow> char_class list \<Rightarrow> ranges" where
  "class_scalar_ranges negated members =
     (let rs = merge_scalar_ranges (List.map_filter member_range members) in
      if negated then complement_scalar_ranges rs else rs)"

text \<open>What a class denotes.\<close>

fun in_member :: "uchar \<Rightarrow> char_class \<Rightarrow> bool" where
  "in_member c (ClassChar d) \<longleftrightarrow> c = d"
| "in_member c (ClassRange lo hi) \<longleftrightarrow> lo \<le> c \<and> c \<le> hi"

definition class_chars :: "bool \<Rightarrow> char_class list \<Rightarrow> uchar set" where
  "class_chars negated members = {c. is_scalar c \<and> ((\<exists>m \<in> set members. in_member c m) \<noteq> negated)}"

text \<open>Nonempty ranges in increasing order, neither overlapping nor adjacent.\<close>

definition apart :: "ranges \<Rightarrow> bool" where
  "apart rs \<longleftrightarrow> (\<forall>(lo, hi) \<in> set rs. lo \<le> hi) \<and> sorted_wrt (\<lambda>r q. snd r + 1 < fst q) rs"

lemma apart_snoc: "apart (rs @ [(lo, hi)]) \<longleftrightarrow> apart rs \<and> lo \<le> hi \<and> (\<forall>r \<in> set rs. snd r + 1 < lo)"
  by (auto simp: apart_def sorted_wrt_append)

lemma merge_loop_correct:
  assumes "apart merged" and "sorted_wrt (\<lambda>r q. fst r \<le> fst q) rs" and "\<forall>(lo, hi) \<in> set rs. lo \<le> hi \<and> hi < 2 ^ 32 - 1"
    and "\<forall>(lo, hi) \<in> set merged. hi < 2 ^ 32 - 1"
    and "merged \<noteq> [] \<Longrightarrow> \<forall>r \<in> set rs. fst (last merged) \<le> fst r"
  shows "apart (merge_loop merged rs) \<and> ranges_set (merge_loop merged rs) = ranges_set merged \<union> ranges_set rs"
  using assms
proof (induction merged rs rule: merge_loop.induct)
  case (2 merged lo hi rs)
  have range: "lo \<le> hi" "hi < 2 ^ 32 - 1" and sorted: "sorted_wrt (\<lambda>r q. fst r \<le> fst q) rs"
      "\<forall>r \<in> set rs. lo \<le> fst r"
    using "2.prems"(2,3) by auto
  show ?case
  proof (cases "merged \<noteq> [] \<and> lo \<le> saturating_next (snd (last merged))")
    case True
    obtain init a b where m: "merged = init @ [(a, b)]"
      using True by (metis append_butlast_last_id surj_pair)
    have ab: "a \<le> b" "apart init" "\<forall>r \<in> set init. snd r + 1 < a" "b < 2 ^ 32 - 1" "a \<le> lo" "lo \<le> b + 1"
      using "2.prems"(1,4,5) True by (auto simp: m apart_snoc saturating_next_def)
    have "apart (merge_loop (init @ [(a, max b hi)]) rs)
        \<and> ranges_set (merge_loop (init @ [(a, max b hi)]) rs) = ranges_set (init @ [(a, max b hi)]) \<union> ranges_set rs"
      using "2.IH"(1) [OF True] ab range sorted "2.prems"(3,4,5) by (auto simp: m apart_snoc)
    moreover have "{a..max b hi} = {a..b} \<union> {lo..hi}" using ab range by auto
    ultimately show ?thesis using True by (auto simp: m)
  next
    case False
    have "apart (merged @ [(lo, hi)])"
    proof (cases merged rule: rev_cases)
      case Nil
      then show ?thesis using range by (simp add: apart_def)
    next
      case (snoc init ab)
      obtain a b where ab: "ab = (a, b)" by fastforce
      have "b + 1 < lo" "apart init" "\<forall>r \<in> set init. snd r + 1 < a" "a \<le> b"
        using False "2.prems"(1,4) by (auto simp: snoc ab apart_snoc saturating_next_def split: if_splits)
      then show ?thesis using range "2.prems"(1) unfolding apart_snoc by (auto simp: snoc ab)
    qed
    then show ?thesis using "2.IH"(2) [OF False] False range sorted "2.prems"(3,4) by auto
  qed
qed simp

lemma complement_loop_correct:
  assumes "apart rs" and "\<forall>(lo, hi) \<in> set rs. following \<le> lo \<and> hi \<le> MAX_SCALAR" and "following \<le> MAX_SCALAR + 1"
    and "complement_loop complement following rs = (complement', following')"
  shows "following \<le> following' \<and> following' \<le> MAX_SCALAR + 1 \<and> (\<forall>(lo, hi) \<in> set rs. hi < following')
     \<and> (\<forall>x. x \<in> ranges_set complement' \<longleftrightarrow>
            x \<in> ranges_set complement \<or> (following \<le> x \<and> x < following' \<and> x \<notin> ranges_set rs))"
  using assms
proof (induction complement following rs rule: complement_loop.induct)
  case (2 complement following lo hi rs)
  let ?c = "if following < lo then complement @ [(following, lo - 1)] else complement"
  have r: "following \<le> lo" "lo \<le> hi" "hi \<le> MAX_SCALAR" "apart rs" "\<forall>r \<in> set rs. hi + 1 < fst r"
    using "2.prems"(1,2) by (auto simp: apart_def)
  have IH: "hi + 1 \<le> following' \<and> following' \<le> MAX_SCALAR + 1 \<and> (\<forall>(lo, hi) \<in> set rs. hi < following')
     \<and> (\<forall>x. x \<in> ranges_set complement' \<longleftrightarrow>
            x \<in> ranges_set ?c \<or> (hi + 1 \<le> x \<and> x < following' \<and> x \<notin> ranges_set rs))"
    using r "2.prems"(2,4) by (intro "2.IH") fastforce+
  have c: "x \<in> ranges_set ?c \<longleftrightarrow> x \<in> ranges_set complement \<or> (following \<le> x \<and> x < lo)" for x
    using r(1) by auto
  have out: "x \<in> ranges_set rs \<Longrightarrow> hi + 1 < x" for x using r(5) by (fastforce simp: ranges_set_def)
  have "x \<in> ranges_set complement' \<longleftrightarrow>
      x \<in> ranges_set complement \<or> (following \<le> x \<and> x < following' \<and> x \<notin> ranges_set ((lo, hi) # rs))" for x
  proof (cases "x \<in> ranges_set rs")
    case True
    then show ?thesis using IH c [of x] out [of x] r(1,2) by auto
  next
    case False
    then show ?thesis using IH c [of x] r(1,2) by (cases "x < lo"; cases "x \<le> hi") auto
  qed
  then show ?case using IH r(1,2) by simp
qed auto

lemma merge_ranges:
  assumes "\<forall>(lo, hi) \<in> set rs. lo \<le> hi \<and> hi < 2 ^ 32 - 1"
  shows "apart (merge_scalar_ranges rs) \<and> ranges_set (merge_scalar_ranges rs) = ranges_set rs"
proof -
  have "sorted_wrt (\<lambda>r q. fst r \<le> fst q) (sort rs)"
    by (rule sorted_wrt_mono_rel [OF _ sorted_sort]) (auto simp: less_eq_prod_def)
  moreover have "ranges_set (sort rs) = ranges_set rs" by (simp add: ranges_set_def)
  ultimately show ?thesis
    using merge_loop_correct [of "[]" "sort rs"] assms by (simp add: merge_scalar_ranges_def apart_def)
qed

lemma complement_ranges:
  assumes "apart rs" and "\<forall>(lo, hi) \<in> set rs. hi \<le> MAX_SCALAR"
  shows "ranges_set (complement_scalar_ranges rs) = {..MAX_SCALAR} - ranges_set rs"
proof -
  obtain c f where c: "complement_loop [] 0 rs = (c, f)" by fastforce
  then have l: "f \<le> MAX_SCALAR + 1" "\<forall>(lo, hi) \<in> set rs. hi < f"
      "\<forall>x. x \<in> ranges_set c \<longleftrightarrow> x < f \<and> x \<notin> ranges_set rs"
    using complement_loop_correct [OF assms(1) _ _ c] assms(2) by auto
  have "f \<le> x \<Longrightarrow> x \<notin> ranges_set rs" for x using l(2) by (fastforce simp: ranges_set_def)
  then show ?thesis using l(1,3) by (auto simp: complement_scalar_ranges_def c)
qed

lemma member_ranges:
  assumes "list_all valid_member members"
  shows "\<forall>(lo, hi) \<in> set (List.map_filter member_range members). lo \<le> hi \<and> hi \<le> MAX_SCALAR"
    and "ranges_set (List.map_filter member_range members) = {c. \<exists>m \<in> set members. in_member c m}"
  using assms
proof (induction members)
  case (Cons m members)
  { case 1
    then show ?case using Cons.IH(1)
      by (cases m) (auto simp: map_filter_simps is_scalar_def MAX_SCALAR_def) }
  { case 2
    then show ?case using Cons.IH(2) by (cases m) (auto simp: map_filter_simps) }
qed (simp_all add: map_filter_simps)

text \<open>The ranges of a class denote the characters of the class; a negated class's may cover surrogates.\<close>

lemma class_ranges:
  assumes "list_all valid_member members"
  shows "{c \<in> ranges_set (class_scalar_ranges negated members). is_scalar c} = class_chars negated members"
    and "ranges_set (class_scalar_ranges negated members) \<subseteq> {..MAX_SCALAR}"
proof -
  let ?rs = "List.map_filter member_range members"
  note m = member_ranges [OF assms]
  have small: "\<forall>(lo, hi) \<in> set ?rs. lo \<le> hi \<and> hi < 2 ^ 32 - 1" using m(1) by (auto simp: MAX_SCALAR_def)
  have merged: "apart (merge_scalar_ranges ?rs)" "ranges_set (merge_scalar_ranges ?rs) = {c. \<exists>m \<in> set members. in_member c m}"
    using merge_ranges [of ?rs] m(2) small by simp_all
  have bound: "ranges_set ?rs \<subseteq> {..MAX_SCALAR}" using m(1) by (fastforce simp: ranges_set_def)
  have "hi \<le> MAX_SCALAR" if "(lo, hi) \<in> set (merge_scalar_ranges ?rs)" for lo hi
  proof -
    have "lo \<le> hi" using that merged(1) by (auto simp: apart_def)
    then have "hi \<in> ranges_set (merge_scalar_ranges ?rs)" using that by (force simp: ranges_set_def)
    then show ?thesis using bound merged(2) m(2) by auto
  qed
  then have comp: "ranges_set (complement_scalar_ranges (merge_scalar_ranges ?rs))
      = {..MAX_SCALAR} - {c. \<exists>m \<in> set members. in_member c m}"
    using complement_ranges [OF merged(1)] merged(2) by blast
  show "{c \<in> ranges_set (class_scalar_ranges negated members). is_scalar c} = class_chars negated members"
    using merged(2) comp by (auto simp: class_scalar_ranges_def class_chars_def is_scalar_def MAX_SCALAR_def)
  show "ranges_set (class_scalar_ranges negated members) \<subseteq> {..MAX_SCALAR}"
    using merged(2) comp bound m(2) by (auto simp: class_scalar_ranges_def Let_def split: if_splits)
qed

section \<open>Sequences of byte ranges\<close>

definition UTF8_LENGTHS :: ranges where
  "UTF8_LENGTHS = [(0, 0x7F), (0x80, 0x7FF), (0x800, 0xFFFF), (0x10000, MAX_SCALAR)]"

type_synonym byte_sequence = "(byte \<times> byte) list"

text \<open>
  The bits of a value below and above \<open>k\<close> trailing continuation bytes: \<open>value & mask\<close>,
  \<open>value & !mask\<close> and \<open>value | mask\<close>, for the mask of the low \<open>6 * k\<close> bits.
\<close>

definition low_bits :: "nat \<Rightarrow> nat \<Rightarrow> nat" where
  "low_bits k n = take_bit (6 * k) n"

definition high_bits :: "nat \<Rightarrow> nat \<Rightarrow> nat" where
  "high_bits k n = n - low_bits k n"

definition fill_bits :: "nat \<Rightarrow> nat \<Rightarrow> nat" where
  "fill_bits k n = high_bits k n + mask (6 * k)"

datatype utf8_split = CompleteStart nat | BeginEnd nat

text \<open>The first count of trailing bytes at which the range is no product, and the part to split off.\<close>

fun find_split :: "nat list \<Rightarrow> nat \<Rightarrow> nat \<Rightarrow> utf8_split option" where
  "find_split [] lo hi = None"
| "find_split (k # ks) lo hi =
     (if high_bits k lo \<noteq> high_bits k hi then
        if low_bits k lo \<noteq> 0 then Some (CompleteStart k)
        else if low_bits k hi \<noteq> mask (6 * k) then Some (BeginEnd k)
        else find_split ks lo hi
      else find_split ks lo hi)"

text \<open>\<open>char::from_u32(value).expect(...)\<close>, then its encoding.\<close>

definition scalar_bytes :: "nat \<Rightarrow> byte list option" where
  "scalar_bytes n = (if is_scalar n then Some (encode_utf8 n) else None)"

definition scalar_length :: "nat \<Rightarrow> nat" where
  "scalar_length n = (if is_scalar n then len_utf8 n else 1)"

text \<open>None: a panic, or a recursion that does not end.\<close>

partial_function (option) sequences_of_one_length ::
    "nat \<Rightarrow> nat \<Rightarrow> byte_sequence list \<Rightarrow> byte_sequence list option" where
  "sequences_of_one_length lo hi seqs =
     (case find_split [1..<scalar_length lo] lo hi of
        Some (CompleteStart k) \<Rightarrow>
          Option.bind (sequences_of_one_length lo (fill_bits k lo) seqs) (\<lambda>seqs.
            sequences_of_one_length (fill_bits k lo + 1) hi seqs)
      | Some (BeginEnd k) \<Rightarrow>
          Option.bind (sequences_of_one_length lo (high_bits k hi - 1) seqs) (\<lambda>seqs.
            sequences_of_one_length (high_bits k hi) hi seqs)
      | None \<Rightarrow>
          Option.bind (scalar_bytes lo) (\<lambda>first. Option.bind (scalar_bytes hi) (\<lambda>final.
            Some (seqs @ [zip (take (scalar_length lo) first) (take (scalar_length lo) final)]))))"

text \<open>The parts of a range with one encoded length and no surrogate, in order.\<close>

definition length_parts :: "nat \<Rightarrow> nat \<Rightarrow> ranges" where
  "length_parts lo hi =
     concat (map (\<lambda>(length_start, length_end).
       [(max lo length_start, min (min hi length_end) (fst SURROGATES - 1)),
        (max (max lo length_start) (snd SURROGATES + 1), min hi length_end)]) UTF8_LENGTHS)"

fun sequences_loop :: "ranges \<Rightarrow> byte_sequence list \<Rightarrow> byte_sequence list option" where
  "sequences_loop [] seqs = Some seqs"
| "sequences_loop ((lo, hi) # parts) seqs =
     (if lo \<le> hi
      then Option.bind (sequences_of_one_length lo hi seqs) (\<lambda>seqs. sequences_loop parts seqs)
      else sequences_loop parts seqs)"

definition utf8_sequences :: "nat \<Rightarrow> nat \<Rightarrow> byte_sequence list \<Rightarrow> byte_sequence list option" where
  "utf8_sequences lo hi seqs = sequences_loop (length_parts lo hi) seqs"

text \<open>The byte strings that a sequence stands for.\<close>

definition sequence_bytes :: "byte_sequence \<Rightarrow> byte list set" where
  "sequence_bytes s = {bs. list_all2 (\<lambda>b r. fst r \<le> b \<and> b \<le> snd r) bs s}"

subsection \<open>A product of byte ranges\<close>

text \<open>The encoding of a value by a lead byte over \<open>base\<close> and \<open>k\<close> continuation bytes.\<close>

fun encode_with :: "nat \<Rightarrow> nat \<Rightarrow> nat \<Rightarrow> byte list" where
  "encode_with base 0 n = [byte_of (base + n)]"
| "encode_with base (Suc k) n = encode_with base k (n div 64) @ [byte_of (0x80 + n mod 64)]"

lemma length_encode_with [simp]: "length (encode_with base k n) = Suc k"
  by (induction k arbitrary: n) auto

definition encode_base :: "nat \<Rightarrow> nat" where
  "encode_base k = (if k = 0 then 0 else if k = 1 then 0xC0 else if k = 2 then 0xE0 else 0xF0)"

lemma encode_utf8_with:
  assumes "n < 0x110000" and "len_utf8 n = Suc k"
  shows "encode_utf8 n = encode_with (encode_base k) k n" and "encode_base k + n div 64 ^ k < 256"
proof -
  consider "k = 0" "n < 0x80" | "k = 1" "0x80 \<le> n" "n < 0x800" | "k = 2" "0x800 \<le> n" "n < 0x10000" | "k = 3" "0x10000 \<le> n"
    using assms(2) by (auto simp: len_utf8_def split: if_splits)
  then have "encode_utf8 n = encode_with (encode_base k) k n \<and> encode_base k + n div 64 ^ k < 256"
    using assms(1)
    by cases (auto simp: encode_utf8_def encode_base_def div_mult2_eq [symmetric] numeral_2_eq_2 numeral_3_eq_3)
  then show "encode_utf8 n = encode_with (encode_base k) k n" and "encode_base k + n div 64 ^ k < 256" by auto
qed

text \<open>A range is a product when each count of trailing bytes leaves its bounds equal above, or its
  start minimal and its end maximal below.\<close>

definition aligned :: "nat \<Rightarrow> nat \<Rightarrow> nat \<Rightarrow> bool" where
  "aligned k lo hi \<longleftrightarrow> (\<forall>t \<in> {1..k}. lo div 64 ^ t = hi div 64 ^ t \<or> (lo mod 64 ^ t = 0 \<and> hi mod 64 ^ t = 64 ^ t - 1))"

lemma aligned_Suc:
  assumes "aligned (Suc k) lo hi"
  shows "aligned k (lo div 64) (hi div 64)"
    and "lo div 64 = hi div 64 \<or> (lo mod 64 = 0 \<and> hi mod 64 = 63)"
proof -
  show "lo div 64 = hi div 64 \<or> (lo mod 64 = 0 \<and> hi mod 64 = 63)"
    using assms by (force simp: aligned_def)
  have "lo div 64 div 64 ^ t = hi div 64 div 64 ^ t
      \<or> (lo div 64 mod 64 ^ t = 0 \<and> hi div 64 mod 64 ^ t = 64 ^ t - 1)" if "t \<in> {1..k}" for t
  proof -
    have "lo div 64 ^ Suc t = hi div 64 ^ Suc t \<or> (lo mod 64 ^ Suc t = 0 \<and> hi mod 64 ^ Suc t = 64 ^ Suc t - 1)"
      using assms [unfolded aligned_def, rule_format, of "Suc t"] that by simp
    moreover have "x mod 64 ^ Suc t = 64 * (x div 64 mod 64 ^ t) + x mod 64" for x :: nat
      by (simp add: mod_mult2_eq)
    moreover have "64 * a + r = 64 ^ Suc t - 1 \<Longrightarrow> r < 64 \<Longrightarrow> a = 64 ^ t - 1" for a r :: nat
    proof -
      assume a: "64 * a + r = 64 ^ Suc t - 1" "r < 64"
      have "(64 * a + r) div 64 = a" using a(2) by simp
      moreover have "(64 ^ Suc t - 1) div 64 = (64 ^ t - 1 :: nat)" by (induction t) auto
      ultimately show ?thesis using a(1) by simp
    qed
    ultimately show ?thesis by (auto simp: div_mult2_eq)
  qed
  then show "aligned k (lo div 64) (hi div 64)" unfolding aligned_def by blast
qed

lemma sequence_bytes_snoc:
  "sequence_bytes (s @ [(a, c)]) = {bs @ [b] | bs b. bs \<in> sequence_bytes s \<and> a \<le> b \<and> b \<le> c}"
proof (intro set_eqI iffI)
  fix bs
  assume "bs \<in> {bs @ [b] | bs b. bs \<in> sequence_bytes s \<and> a \<le> b \<and> b \<le> c}"
  then show "bs \<in> sequence_bytes (s @ [(a, c)])" by (auto simp: sequence_bytes_def intro: list_all2_appendI)
qed (auto simp: sequence_bytes_def list_all2_append2 list_all2_Cons2)

lemma byte_between: "a < 256 \<Longrightarrow> c < 256 \<Longrightarrow> {b. byte_of a \<le> b \<and> b \<le> byte_of c} = byte_of ` {a..c}"
proof (intro set_eqI iffI)
  fix b :: byte
  assume bounds: "a < 256" "c < 256" and "b \<in> {b. byte_of a \<le> b \<and> b \<le> byte_of c}"
  then have "unat b \<in> {a..c}" by (auto simp: word_le_nat_alt)
  then show "b \<in> byte_of ` {a..c}" by (metis byte_of_unat image_eqI)
qed (auto simp: word_le_nat_alt)

lemma snoc_images: "{bs @ [b] | bs b. bs \<in> F ` A \<and> b \<in> G ` B} = {F q @ [G d] | q d. q \<in> A \<and> d \<in> B}"
  by blast

lemma range_digits:
  fixes lo hi n :: nat
  assumes "lo div 64 = hi div 64 \<or> (lo mod 64 = 0 \<and> hi mod 64 = 63)"
  shows "(\<exists>q d. q \<in> {lo div 64..hi div 64} \<and> d \<in> {lo mod 64..hi mod 64} \<and> n = 64 * q + d \<and> d < 64) \<longleftrightarrow> n \<in> {lo..hi}"
proof
  assume "\<exists>q d. q \<in> {lo div 64..hi div 64} \<and> d \<in> {lo mod 64..hi mod 64} \<and> n = 64 * q + d \<and> d < 64"
  then obtain q d where q: "q \<in> {lo div 64..hi div 64}" "d \<in> {lo mod 64..hi mod 64}" "n = 64 * q + d" by blast
  have "lo = 64 * (lo div 64) + lo mod 64" "hi = 64 * (hi div 64) + hi mod 64" by simp_all
  moreover have "64 * (lo div 64) \<le> 64 * q" "64 * q \<le> 64 * (hi div 64)" using q(1) by auto
  ultimately have "lo \<le> n" "n \<le> hi" using q(2,3) unfolding atLeastAtMost_iff by linarith+
  then show "n \<in> {lo..hi}" by simp
next
  assume n: "n \<in> {lo..hi}"
  have "n mod 64 \<in> {lo mod 64..hi mod 64}"
  proof (cases "lo div 64 = hi div 64")
    case True
    then have "n div 64 = lo div 64" "n div 64 = hi div 64"
      using n div_le_mono [of lo n 64] div_le_mono [of n hi 64] by auto
    then show ?thesis using n div_mult_mod_eq [of n 64] div_mult_mod_eq [of lo 64] div_mult_mod_eq [of hi 64]
      unfolding atLeastAtMost_iff by linarith
  next
    case False
    then show ?thesis using assms mod_less_divisor [of 64 n] by auto
  qed
  then show "\<exists>q d. q \<in> {lo div 64..hi div 64} \<and> d \<in> {lo mod 64..hi mod 64} \<and> n = 64 * q + d \<and> d < 64"
    using n by (intro exI [of _ "n div 64"] exI [of _ "n mod 64"]) (auto simp: div_le_mono)
qed

lemma product_encodings:
  assumes "aligned k lo hi" and "lo \<le> hi" and "base + hi div 64 ^ k < 256"
  shows "sequence_bytes (zip (encode_with base k lo) (encode_with base k hi)) = encode_with base k ` {lo..hi}"
  using assms
proof (induction k arbitrary: lo hi)
  case 0
  have "sequence_bytes [(byte_of (base + lo), byte_of (base + hi))] = (\<lambda>b. [b]) ` {b. byte_of (base + lo) \<le> b \<and> b \<le> byte_of (base + hi)}"
    by (auto simp: sequence_bytes_def list_all2_Cons2)
  also have "\<dots> = (\<lambda>b. [b]) ` byte_of ` {base + lo..base + hi}" using 0 by (simp add: byte_between)
  also have "\<dots> = encode_with base 0 ` {lo..hi}"
  proof -
    have "{base + lo..base + hi} = (+) base ` {lo..hi}" by simp
    moreover have "encode_with base 0 = (\<lambda>n. [byte_of (base + n)])" by (simp add: fun_eq_iff)
    ultimately show ?thesis by (simp only: image_image)
  qed
  finally show ?case by simp
next
  case (Suc k)
  note al = aligned_Suc [OF Suc.prems(1)]
  have IH: "sequence_bytes (zip (encode_with base k (lo div 64)) (encode_with base k (hi div 64)))
      = encode_with base k ` {lo div 64..hi div 64}"
    using Suc.prems by (intro Suc.IH al(1)) (auto simp: div_le_mono div_mult2_eq)
  have cont: "{b. byte_of (0x80 + lo mod 64) \<le> b \<and> b \<le> byte_of (0x80 + hi mod 64)} = byte_of ` {0x80 + lo mod 64..0x80 + hi mod 64}"
  proof (rule byte_between)
    show "0x80 + lo mod 64 < 256" "0x80 + hi mod 64 < 256"
      using mod_less_divisor [of 64 lo] mod_less_divisor [of 64 hi] by linarith+
  qed
  have "sequence_bytes (zip (encode_with base (Suc k) lo) (encode_with base (Suc k) hi))
      = {encode_with base k q @ [byte_of (0x80 + d)] | q d. q \<in> {lo div 64..hi div 64} \<and> d \<in> {lo mod 64..hi mod 64}}"
  proof -
    have "sequence_bytes (zip (encode_with base (Suc k) lo) (encode_with base (Suc k) hi))
        = {bs @ [b] | bs b. bs \<in> encode_with base k ` {lo div 64..hi div 64}
            \<and> b \<in> {b. byte_of (0x80 + lo mod 64) \<le> b \<and> b \<le> byte_of (0x80 + hi mod 64)}}"
      unfolding IH [symmetric] by (simp add: sequence_bytes_snoc zip_append)
    also have "\<dots> = {bs @ [b] | bs b. bs \<in> encode_with base k ` {lo div 64..hi div 64}
            \<and> b \<in> byte_of ` {0x80 + lo mod 64..0x80 + hi mod 64}}"
      unfolding cont ..
    also have "byte_of ` {0x80 + lo mod 64..0x80 + hi mod 64} = (\<lambda>d. byte_of (0x80 + d)) ` {lo mod 64..hi mod 64}"
    proof -
      have "{0x80 + lo mod 64..0x80 + hi mod 64} = (+) 0x80 ` {lo mod 64..hi mod 64}" by simp
      then show ?thesis by (simp only: image_image)
    qed
    finally show ?thesis by (simp only: snoc_images)
  qed
  also have "\<dots> = encode_with base (Suc k) ` {lo..hi}"
  proof -
    note digits = range_digits [OF al(2)]
    have enc: "encode_with base (Suc k) (64 * q + d) = encode_with base k q @ [byte_of (0x80 + d)]" if "d < 64" for q d
      using that by simp
    show ?thesis
    proof (intro set_eqI iffI)
      fix bs
      assume "bs \<in> {encode_with base k q @ [byte_of (0x80 + d)] | q d. q \<in> {lo div 64..hi div 64} \<and> d \<in> {lo mod 64..hi mod 64}}"
      then obtain q d where q: "bs = encode_with base k q @ [byte_of (0x80 + d)]" "q \<in> {lo div 64..hi div 64}"
          "d \<in> {lo mod 64..hi mod 64}" by blast
      have d: "d < 64" using q(3) mod_less_divisor [of 64 hi] unfolding atLeastAtMost_iff by linarith
      then have "64 * q + d \<in> {lo..hi}" using digits [of "64 * q + d"] q(2,3) by blast
      then show "bs \<in> encode_with base (Suc k) ` {lo..hi}" using q(1) enc [OF d] by (metis image_eqI)
    next
      fix bs
      assume "bs \<in> encode_with base (Suc k) ` {lo..hi}"
      then obtain n where n: "n \<in> {lo..hi}" "bs = encode_with base (Suc k) n" by blast
      then obtain q d where q: "q \<in> {lo div 64..hi div 64}" "d \<in> {lo mod 64..hi mod 64}" "n = 64 * q + d" "d < 64"
        using digits [of n] by blast
      then show "bs \<in> {encode_with base k q @ [byte_of (0x80 + d)] | q d. q \<in> {lo div 64..hi div 64} \<and> d \<in> {lo mod 64..hi mod 64}}"
        using n(2) enc [OF q(4)] by blast
    qed
  qed
  finally show ?case .
qed

subsection \<open>Splitting a range\<close>

lemma power_64: "(2::nat) ^ (6 * k) = 64 ^ k"
  by (simp add: power_mult)

lemma bits_div_mod:
  "low_bits k n = n mod 64 ^ k" "high_bits k n = 64 ^ k * (n div 64 ^ k)"
  "fill_bits k n = 64 ^ k * (n div 64 ^ k) + (64 ^ k - 1)" "(mask (6 * k) :: nat) = 64 ^ k - 1"
proof -
  show low: "low_bits k n = n mod 64 ^ k" by (simp add: low_bits_def take_bit_eq_mod power_64)
  show high: "high_bits k n = 64 ^ k * (n div 64 ^ k)"
    using minus_mod_eq_mult_div [of n "64 ^ k"] by (simp add: high_bits_def low)
  show m: "(mask (6 * k) :: nat) = 64 ^ k - 1" by (simp add: mask_eq_exp_minus_1 power_64)
  show "fill_bits k n = 64 ^ k * (n div 64 ^ k) + (64 ^ k - 1)" by (simp add: fill_bits_def high m)
qed

lemma find_split_None:
  "find_split ks lo hi = None \<longleftrightarrow>
     (\<forall>k \<in> set ks. lo div 64 ^ k = hi div 64 ^ k \<or> (lo mod 64 ^ k = 0 \<and> hi mod 64 ^ k = 64 ^ k - 1))"
  by (induction ks) (auto simp: bits_div_mod)

lemma find_split_Some:
  "find_split ks lo hi = Some (CompleteStart k) \<Longrightarrow> lo div 64 ^ k \<noteq> hi div 64 ^ k"
  "find_split ks lo hi = Some (BeginEnd k) \<Longrightarrow> lo div 64 ^ k \<noteq> hi div 64 ^ k"
  by (induction ks) (auto simp: bits_div_mod split: if_splits)

text \<open>Consecutive ranges from \<open>a\<close> to below \<open>b\<close>.\<close>

fun tiles :: "nat \<Rightarrow> nat \<Rightarrow> ranges \<Rightarrow> bool" where
  "tiles a b [] \<longleftrightarrow> a = b"
| "tiles a b ((lo, hi) # parts) \<longleftrightarrow> lo = a \<and> lo \<le> hi \<and> tiles (hi + 1) b parts"

lemma tiles_append: "tiles a m parts \<Longrightarrow> tiles m b parts' \<Longrightarrow> tiles a b (parts @ parts')"
  by (induction parts arbitrary: a) auto

lemma tiles_set: "tiles a b parts \<Longrightarrow> a \<le> b \<and> ranges_set parts = {a..<b}"
  by (induction parts arbitrary: a) fastforce+

definition range_sequence :: "nat \<times> nat \<Rightarrow> byte_sequence" where
  "range_sequence r = zip (encode_utf8 (fst r)) (encode_utf8 (snd r))"

definition exact :: "nat \<times> nat \<Rightarrow> bool" where
  "exact r \<longleftrightarrow> fst r \<le> snd r \<and> sequence_bytes (range_sequence r) = encode_utf8 ` {fst r..snd r}"

lemma aligned_exact:
  assumes "lo \<le> hi" and "\<And>c. c \<in> {lo..hi} \<Longrightarrow> is_scalar c \<and> len_utf8 c = Suc n"
    and "aligned n lo hi"
  shows "exact (lo, hi)"
proof -
  have bound: "c < 0x110000" if "c \<in> {lo..hi}" for c using assms(2) [OF that] by (auto simp: is_scalar_def)
  have enc: "encode_utf8 c = encode_with (encode_base n) n c" if "c \<in> {lo..hi}" for c
    using encode_utf8_with(1) [OF bound [OF that]] assms(2) [OF that] by simp
  have top: "encode_base n + hi div 64 ^ n < 256"
    using encode_utf8_with(2) [OF bound] assms(1,2) by simp
  have ends: "encode_utf8 lo = encode_with (encode_base n) n lo" "encode_utf8 hi = encode_with (encode_base n) n hi"
    using assms(1) enc by simp_all
  have "sequence_bytes (range_sequence (lo, hi)) = encode_with (encode_base n) n ` {lo..hi}"
    using product_encodings [OF assms(3,1) top] by (simp add: range_sequence_def ends)
  also have "\<dots> = encode_utf8 ` {lo..hi}" using enc by (intro image_cong) simp_all
  finally show ?thesis using assms(1) by (simp add: exact_def)
qed

lemma split_bounds:
  assumes "lo \<le> hi" and "lo div 64 ^ k \<noteq> hi div 64 ^ k"
  shows "lo \<le> fill_bits k lo" "fill_bits k lo < hi" "lo < high_bits k hi" "high_bits k hi \<le> hi"
proof -
  have "lo div 64 ^ k < hi div 64 ^ k" using assms div_le_mono [of lo hi "64 ^ k"] by linarith
  then have s: "Suc (lo div 64 ^ k) \<le> hi div 64 ^ k" by simp
  have m: "64 ^ k * Suc (lo div 64 ^ k) \<le> 64 ^ k * (hi div 64 ^ k)" by (rule mult_le_mono2 [OF s])
  have lo: "lo < 64 ^ k * Suc (lo div 64 ^ k)"
    using dividend_less_times_div [of "64 ^ k" lo] by simp
  have hi: "64 ^ k * (hi div 64 ^ k) \<le> hi" by simp
  have fill: "Suc (fill_bits k lo) = 64 ^ k * Suc (lo div 64 ^ k)"
    by (simp add: bits_div_mod)
  show "lo \<le> fill_bits k lo" "fill_bits k lo < hi" "lo < high_bits k hi" "high_bits k hi \<le> hi"
    using fill lo m hi unfolding bits_div_mod(2) by linarith+
qed

lemma sequences_of_one_length_correct:
  assumes "lo \<le> hi" and "\<And>c. c \<in> {lo..hi} \<Longrightarrow> is_scalar c \<and> len_utf8 c = Suc n"
  shows "\<exists>parts. sequences_of_one_length lo hi seqs = Some (seqs @ map range_sequence parts)
     \<and> tiles lo (hi + 1) parts \<and> list_all exact parts"
  using assms
proof (induction "hi - lo" arbitrary: lo hi seqs rule: less_induct)
  case less
  have ends: "is_scalar lo" "is_scalar hi" "len_utf8 lo = Suc n" "len_utf8 hi = Suc n"
    using less.prems by auto
  have len: "scalar_length lo = Suc n" using ends by (simp add: scalar_length_def)
  have glue: ?case
    if split: "lo \<le> a" "a < hi"
      and run: "sequences_of_one_length lo hi seqs =
        Option.bind (sequences_of_one_length lo a seqs) (\<lambda>seqs. sequences_of_one_length (a + 1) hi seqs)" for a
  proof -
    have less: "a - lo < hi - lo" "hi - (a + 1) < hi - lo" using split by linarith+
    obtain p where p: "sequences_of_one_length lo a seqs = Some (seqs @ map range_sequence p)"
        "tiles lo (a + 1) p" "list_all exact p"
      using less.hyps [OF less(1), of seqs] less.prems(2) split by auto
    obtain q where q: "sequences_of_one_length (a + 1) hi (seqs @ map range_sequence p)
          = Some ((seqs @ map range_sequence p) @ map range_sequence q)"
        "tiles (a + 1) (hi + 1) q" "list_all exact q"
      using less.hyps [OF less(2), of "seqs @ map range_sequence p"] less.prems(2) split by auto
    show ?thesis
      using p q tiles_append [OF p(2) q(2)] by (intro exI [of _ "p @ q"]) (simp add: run)
  qed
  show ?case
  proof (cases "find_split [1..<scalar_length lo] lo hi")
    case None
    then have "aligned n lo hi" unfolding find_split_None aligned_def len by auto
    then have "exact (lo, hi)" using aligned_exact [OF less.prems] by blast
    moreover have "sequences_of_one_length lo hi seqs = Some (seqs @ [range_sequence (lo, hi)])"
      using None ends len length_encode_utf8 [of lo] length_encode_utf8 [of hi]
      by (simp add: sequences_of_one_length.simps [of lo hi] scalar_bytes_def range_sequence_def)
    ultimately show ?thesis using less.prems(1) by (intro exI [of _ "[(lo, hi)]"]) simp
  next
    case (Some split)
    show ?thesis
    proof (cases split)
      case (CompleteStart k)
      then show ?thesis
        using split_bounds [OF less.prems(1) find_split_Some(1)] Some
        by (intro glue [of "fill_bits k lo"]) (auto simp: sequences_of_one_length.simps [of lo hi])
    next
      case (BeginEnd k)
      then have "lo < high_bits k hi" "high_bits k hi \<le> hi"
        using split_bounds [OF less.prems(1) find_split_Some(2)] Some by auto
      then show ?thesis
        using Some BeginEnd
        by (intro glue [of "high_bits k hi - 1"]) (auto simp: sequences_of_one_length.simps [of lo hi])
    qed
  qed
qed

subsection \<open>Any range\<close>

text \<open>Ranges in increasing order.\<close>

definition ascending :: "ranges \<Rightarrow> bool" where
  "ascending rs \<longleftrightarrow> sorted_wrt (\<lambda>r q. snd r < fst q) rs"

lemma tiles_first: "tiles a b parts \<Longrightarrow> q \<in> set parts \<Longrightarrow> a \<le> fst q"
  by (induction parts arbitrary: a) (auto, force)

lemma tiles_ascending: "tiles a b parts \<Longrightarrow> ascending parts"
proof (induction parts arbitrary: a)
  case (Cons r parts)
  obtain lo hi where r: "r = (lo, hi)" by fastforce
  then have t: "tiles (hi + 1) b parts" using Cons.prems by simp
  then have "\<forall>q \<in> set parts. hi < fst q" using tiles_first [OF t] by fastforce
  then show ?case using Cons.IH [OF t] r by (simp add: ascending_def)
qed (simp add: ascending_def)

definition one_length :: "nat \<times> nat \<Rightarrow> bool" where
  "one_length r \<longleftrightarrow> (\<exists>n. \<forall>c \<in> {fst r..snd r}. is_scalar c \<and> len_utf8 c = Suc n)"

lemma sequences_loop_correct:
  assumes "\<forall>r \<in> set rs. one_length r"
    and "sorted_wrt (\<lambda>r q. fst r \<le> snd r \<longrightarrow> fst q \<le> snd q \<longrightarrow> snd r < fst q) rs"
  shows "\<exists>parts. sequences_loop rs seqs = Some (seqs @ map range_sequence parts)
     \<and> ascending parts \<and> list_all exact parts \<and> ranges_set parts = ranges_set rs"
  using assms
proof (induction rs arbitrary: seqs)
  case (Cons r rs)
  obtain lo hi where r: "r = (lo, hi)" by fastforce
  show ?case
  proof (cases "lo \<le> hi")
    case True
    obtain n where n: "\<And>c. c \<in> {lo..hi} \<Longrightarrow> is_scalar c \<and> len_utf8 c = Suc n"
      using Cons.prems(1) by (auto simp: r one_length_def)
    obtain p where p: "sequences_of_one_length lo hi seqs = Some (seqs @ map range_sequence p)"
        "tiles lo (hi + 1) p" "list_all exact p"
      using sequences_of_one_length_correct [OF True n] by blast
    obtain q where q: "sequences_loop rs (seqs @ map range_sequence p)
          = Some ((seqs @ map range_sequence p) @ map range_sequence q)"
        "ascending q" "list_all exact q" "ranges_set q = ranges_set rs"
      using Cons.IH [of "seqs @ map range_sequence p"] Cons.prems by auto
    have below: "x \<in> ranges_set p \<Longrightarrow> x \<le> hi" for x using tiles_set [OF p(2)] by auto
    have "hi < c" if "(c, d) \<in> set rs" "c \<le> d" for c d using Cons.prems(2) True that by (auto simp: r)
    then have above: "x \<in> ranges_set q \<Longrightarrow> hi < x" for x
      unfolding q(4) by (fastforce simp: ranges_set_def)
    have "snd a \<in> ranges_set p" if "a \<in> set p" for a
      using that p(3) by (force simp: ranges_set_def list_all_iff exact_def)
    moreover have "fst b \<in> ranges_set q" if "b \<in> set q" for b
      using that q(3) by (force simp: ranges_set_def list_all_iff exact_def)
    ultimately have "ascending (p @ q)"
      using tiles_ascending [OF p(2)] q(2) below above unfolding ascending_def sorted_wrt_append
      by (meson le_less_trans)
    then show ?thesis
      using p q True tiles_set [OF p(2)] by (intro exI [of _ "p @ q"]) (auto simp: r)
  next
    case False
    then show ?thesis using Cons.IH [of seqs] Cons.prems by (auto simp: r)
  qed
qed (simp add: ascending_def)

lemma length_parts_simps:
  "length_parts lo hi =
     [(max lo 0, min (min hi 0x7F) 0xD7FF), (max (max lo 0) 0xE000, min hi 0x7F),
      (max lo 0x80, min (min hi 0x7FF) 0xD7FF), (max (max lo 0x80) 0xE000, min hi 0x7FF),
      (max lo 0x800, min (min hi 0xFFFF) 0xD7FF), (max (max lo 0x800) 0xE000, min hi 0xFFFF),
      (max lo 0x10000, min (min hi 0x10FFFF) 0xD7FF), (max (max lo 0x10000) 0xE000, min hi 0x10FFFF)]"
  by (simp add: length_parts_def UTF8_LENGTHS_def SURROGATES_def MAX_SCALAR_def)

lemma length_parts_one: "\<forall>r \<in> set (length_parts lo hi). one_length r"
proof -
  have "one_length (a, b)" if "\<And>c. a \<le> c \<Longrightarrow> c \<le> b \<Longrightarrow> is_scalar c \<and> len_utf8 c = Suc n" for a b n
    using that by (auto simp: one_length_def)
  note one = this
  have "one_length (max lo 0, min (min hi 0x7F) 0xD7FF)" "one_length (max (max lo 0) 0xE000, min hi 0x7F)"
    by (rule one [of _ _ 0], auto simp: is_scalar_def len_utf8_def)+
  moreover have "one_length (max lo 0x80, min (min hi 0x7FF) 0xD7FF)" "one_length (max (max lo 0x80) 0xE000, min hi 0x7FF)"
    by (rule one [of _ _ 1], auto simp: is_scalar_def len_utf8_def)+
  moreover have "one_length (max lo 0x800, min (min hi 0xFFFF) 0xD7FF)" "one_length (max (max lo 0x800) 0xE000, min hi 0xFFFF)"
    by (rule one [of _ _ 2], auto simp: is_scalar_def len_utf8_def)+
  moreover have "one_length (max lo 0x10000, min (min hi 0x10FFFF) 0xD7FF)"
      "one_length (max (max lo 0x10000) 0xE000, min hi 0x10FFFF)"
    by (rule one [of _ _ 3], auto simp: is_scalar_def len_utf8_def)+
  ultimately show ?thesis by (simp add: length_parts_simps)
qed

lemma utf8_sequences_correct:
  "\<exists>parts. utf8_sequences lo hi seqs = Some (seqs @ map range_sequence parts)
     \<and> ascending parts \<and> list_all exact parts \<and> ranges_set parts = {c \<in> {lo..hi}. is_scalar c}"
proof -
  have "sorted_wrt (\<lambda>r q. fst r \<le> snd r \<longrightarrow> fst q \<le> snd q \<longrightarrow> snd r < fst q) (length_parts lo hi)"
    unfolding length_parts_simps by simp
  then obtain parts where p: "utf8_sequences lo hi seqs = Some (seqs @ map range_sequence parts)"
      "ascending parts" "list_all exact parts" "ranges_set parts = ranges_set (length_parts lo hi)"
    using sequences_loop_correct [OF length_parts_one] unfolding utf8_sequences_def by blast
  have "ranges_set (length_parts lo hi) = {c \<in> {lo..hi}. is_scalar c}"
    unfolding length_parts_simps by (auto simp: is_scalar_def)
  then show ?thesis using p by auto
qed

end
