(* ===== verification/Regex_Language.thy ===== *)
theory Regex_Language
  imports Regex_Scalars Regex_Parser
begin

text \<open>
  What a token regular expression denotes, and what the text of a pattern denotes in the syntax that
  scanner generators and regular expression engines share.

  \<open>body_lang\<close> gives the texts of a body, over the texts of the names it refers to. \<open>pattern_reads\<close>
  is the grammar of patterns, alternation over juxtaposition over repetition over atoms, with
  the set of lists that each text stands for. It takes what the target's documentation adds as
  arguments: the text that opens a group, the numbers accepted as the count of a repetition (as the
  greater one of a range), and the tokens (characters, classes, names) of each level. Each target (\<open>Regex_Flex\<close>, \<open>Regex_Rust\<close>) supplies its own tokens.
\<close>

section \<open>Languages\<close>

type_synonym 'a lang = "'a list set"

definition conc :: "'a lang \<Rightarrow> 'a lang \<Rightarrow> 'a lang" where
  "conc A B = (\<Union>u \<in> A. (@) u ` B)"

primrec lang_power :: "nat \<Rightarrow> 'a lang \<Rightarrow> 'a lang" where
  "lang_power 0 A = {[]}"
| "lang_power (Suc n) A = conc A (lang_power n A)"

text \<open>As many repetitions as a set of numbers admits.\<close>

definition repeats :: "nat set \<Rightarrow> 'a lang \<Rightarrow> 'a lang" where
  "repeats counts A = (\<Union>n \<in> counts. lang_power n A)"

definition conc_all :: "'a lang list \<Rightarrow> 'a lang" where
  "conc_all As = foldr conc As {[]}"

lemma conc_all_simps [simp]: "conc_all [] = {[]}" "conc_all (A # As) = conc A (conc_all As)"
  by (simp_all add: conc_all_def)

lemma conc_unit [simp]: "conc {[]} A = A" "conc A {[]} = A"
  by (auto simp: conc_def)

lemma conc_singletons [simp]: "conc {u} {v} = {u @ v}"
  by (auto simp: conc_def)

lemma image_conc:
  assumes "\<And>u v. h (u @ v) = h u @ h v"
  shows "h ` conc A B = conc (h ` A) (h ` B)"
  by (simp add: conc_def image_UN image_image assms)

lemma image_lang_power:
  assumes "\<And>u v. h (u @ v) = h u @ h v" and "h [] = []"
  shows "h ` lang_power n A = lang_power n (h ` A)"
  by (induction n) (simp_all add: image_conc assms)

lemma image_repeats:
  assumes "\<And>u v. h (u @ v) = h u @ h v" and "h [] = []"
  shows "h ` repeats counts A = repeats counts (h ` A)"
  by (simp add: repeats_def image_UN image_lang_power [OF assms])

lemma image_conc_all:
  assumes "\<And>u v. h (u @ v) = h u @ h v" and "h [] = []"
  shows "h ` conc_all As = conc_all (map ((`) h) As)"
  by (induction As) (simp_all add: image_conc assms)

lemmas str_bytes_images =
  image_conc [of str_bytes, OF str_bytes_simps(3)]
  image_repeats [of str_bytes, OF str_bytes_simps(3) str_bytes_simps(1)]
  image_conc_all [of str_bytes, OF str_bytes_simps(3) str_bytes_simps(1)]

section \<open>The texts of a body\<close>

text \<open>The characters of \<open>.\<close>: all but the newline.\<close>

definition dot_chars :: "uchar set" where
  "dot_chars = {c. is_scalar c \<and> c \<noteq> 10}"

definition singletons :: "uchar set \<Rightarrow> str set" where
  "singletons cs = (\<lambda>c. [c]) ` cs"

lemma str_bytes_singletons: "str_bytes ` singletons cs = encode_utf8 ` cs"
  by (simp add: singletons_def image_image)

fun body_lang :: "(str \<Rightarrow> str set) \<Rightarrow> regex_body \<Rightarrow> str set" where
  "body_lang \<sigma> (RChar c) = {[c]}"
| "body_lang \<sigma> RAnyChar = singletons dot_chars"
| "body_lang \<sigma> (RNamed name) = \<sigma> name"
| "body_lang \<sigma> (RClass negated members) = singletons (class_chars negated members)"
| "body_lang \<sigma> (RUnion l r) = body_lang \<sigma> l \<union> body_lang \<sigma> r"
| "body_lang \<sigma> (RConcat members) = conc_all (map (body_lang \<sigma>) members)"
| "body_lang \<sigma> (RZeroOrMore b) = repeats UNIV (body_lang \<sigma> b)"
| "body_lang \<sigma> (RZeroOrOne b) = repeats {0, 1} (body_lang \<sigma> b)"
| "body_lang \<sigma> (ROneOrMore b) = repeats {1..} (body_lang \<sigma> b)"
| "body_lang \<sigma> (RExactly b n) = repeats {n} (body_lang \<sigma> b)"
| "body_lang \<sigma> (RAtLeast b n) = repeats {n..} (body_lang \<sigma> b)"
| "body_lang \<sigma> (RRange b n k) = repeats {n..k} (body_lang \<sigma> b)"

lemma check_regex_preorder: "check_regex r = concat (map body_issues (preorder (rx_body r)))"
proof -
  have "fold (\<lambda>b issues. issues @ body_issues b) bs issues = issues @ concat (map body_issues bs)" for bs issues
    by (induction bs arbitrary: issues) auto
  then show ?thesis by (simp add: check_regex_def visit_preorder_fold)
qed

section \<open>The texts of a pattern\<close>

datatype pattern_level = Alternation | Juxtaposition | Repetition | Atom

inductive pattern_reads ::
    "str \<Rightarrow> nat set \<Rightarrow> (pattern_level \<Rightarrow> str \<Rightarrow> 'a lang \<Rightarrow> bool) \<Rightarrow> pattern_level \<Rightarrow> str \<Rightarrow> 'a lang \<Rightarrow> bool"
  for brk :: str and counts :: "nat set" and tokens :: "pattern_level \<Rightarrow> str \<Rightarrow> 'a lang \<Rightarrow> bool" where
  reads_token: "tokens level s A \<Longrightarrow> pattern_reads brk counts tokens level s A"
| reads_group: "pattern_reads brk counts tokens Alternation s A \<Longrightarrow>
    pattern_reads brk counts tokens Atom (brk @ s @ lit '')'') A"
| reads_atom: "pattern_reads brk counts tokens Atom s A \<Longrightarrow> pattern_reads brk counts tokens Repetition s A"
| reads_star: "pattern_reads brk counts tokens Atom s A \<Longrightarrow>
    pattern_reads brk counts tokens Repetition (s @ lit ''*'') (repeats UNIV A)"
| reads_plus: "pattern_reads brk counts tokens Atom s A \<Longrightarrow>
    pattern_reads brk counts tokens Repetition (s @ lit ''+'') (repeats {1..} A)"
| reads_option: "pattern_reads brk counts tokens Atom s A \<Longrightarrow>
    pattern_reads brk counts tokens Repetition (s @ lit ''?'') (repeats {0, 1} A)"
| reads_exactly: "pattern_reads brk counts tokens Atom s A \<Longrightarrow> n \<in> counts \<Longrightarrow>
    pattern_reads brk counts tokens Repetition (s @ lit ''{'' @ decimal n @ lit ''}'') (repeats {n} A)"
| reads_at_least: "pattern_reads brk counts tokens Atom s A \<Longrightarrow> n \<in> counts \<Longrightarrow>
    pattern_reads brk counts tokens Repetition (s @ lit ''{'' @ decimal n @ lit '',}'') (repeats {n..} A)"
| reads_range: "pattern_reads brk counts tokens Atom s A \<Longrightarrow> n \<le> k \<Longrightarrow> k \<in> counts \<Longrightarrow>
    pattern_reads brk counts tokens Repetition (s @ lit ''{'' @ decimal n @ lit '','' @ decimal k @ lit ''}'') (repeats {n..k} A)"
| reads_single: "pattern_reads brk counts tokens Repetition s A \<Longrightarrow> pattern_reads brk counts tokens Juxtaposition s A"
| reads_juxtaposed: "pattern_reads brk counts tokens Juxtaposition s A \<Longrightarrow> pattern_reads brk counts tokens Juxtaposition t B \<Longrightarrow>
    pattern_reads brk counts tokens Juxtaposition (s @ t) (conc A B)"
| reads_branch: "pattern_reads brk counts tokens Juxtaposition s A \<Longrightarrow> pattern_reads brk counts tokens Alternation s A"
| reads_alternatives: "pattern_reads brk counts tokens Alternation s A \<Longrightarrow> pattern_reads brk counts tokens Alternation t B \<Longrightarrow>
    pattern_reads brk counts tokens Alternation (s @ lit ''|'' @ t) (A \<union> B)"

text \<open>A text read at one level is read at every looser one.\<close>

lemma reads_juxtaposition_of_atom:
  "pattern_reads brk counts tokens Atom s A \<Longrightarrow> pattern_reads brk counts tokens Juxtaposition s A"
  by (intro reads_single reads_atom)

lemma reads_alternation_of_atom:
  "pattern_reads brk counts tokens Atom s A \<Longrightarrow> pattern_reads brk counts tokens Alternation s A"
  by (intro reads_branch reads_juxtaposition_of_atom)

text \<open>Several texts side by side, and several alternatives.\<close>

lemma reads_concat:
  assumes "list_all2 (pattern_reads brk counts tokens Juxtaposition) ss As" and "ss \<noteq> []"
  shows "pattern_reads brk counts tokens Juxtaposition (concat ss) (conc_all As)"
  using assms
proof (induction ss As rule: list_all2_induct)
  case (Cons s ss A As)
  then show ?case by (cases "ss = []") (auto intro: reads_juxtaposed)
qed simp

lemma reads_concat_map:
  assumes "\<And>m. m \<in> set ms \<Longrightarrow> pattern_reads brk counts tokens Juxtaposition (f m) (g m)" and "ms \<noteq> []"
  shows "pattern_reads brk counts tokens Juxtaposition (concat (map f ms)) (conc_all (map g ms))"
  using assms by (intro reads_concat) (auto simp: list_all2_map1 list_all2_map2 list_all2_same)

fun joined :: "str \<Rightarrow> str list \<Rightarrow> str" where
  "joined separator [] = []"
| "joined separator [s] = s"
| "joined separator (s # t # ts) = s @ separator @ joined separator (t # ts)"

lemma reads_joined:
  assumes "list_all2 (pattern_reads brk counts tokens Alternation) ss As" and "ss \<noteq> []"
  shows "pattern_reads brk counts tokens Alternation (joined (lit ''|'') ss) (\<Union> (set As))"
  using assms
proof (induction ss As rule: list_all2_induct)
  case (Cons s ss A As)
  show ?case
  proof (cases ss)
    case Nil
    then show ?thesis using Cons.hyps by auto
  next
    case ss: (Cons t ts)
    then show ?thesis using reads_alternatives [OF Cons.hyps(1) Cons.IH] by simp
  qed
qed simp

end
