(* ===== verification/Regex_Flex.thy ===== *)
theory Regex_Flex
  imports Regex_Language
begin

text \<open>
  The Flex printers (\<open>to_flex_string\<close>, \<open>to_flex_name\<close> and \<open>mangle_flex_identifier\<close> of
  \<open>k-rust-regex/src/lib.rs\<close>). Flex reads bytes: a class of characters is printed as the alternatives
  of byte sequences that \<open>utf8_sequences\<close> gives for it. A result None is a panic.

  \<open>flex_tokens\<close> states how Flex documents the tokens the printer writes in a pattern, over the bytes of
  a scanner's input; that Flex takes the text for a pattern at all is up to the place where it stands
  (a line that begins with two percent signs is the end of the rules). The lemmas: what is printed for a set of characters denotes exactly their
  encodings, and what is printed for a body denotes the encodings of the texts of the body.
\<close>

section \<open>Printing\<close>

datatype flex_classes = AsWritten | Utf8Classes

definition mangle_flex_identifier :: "str \<Rightarrow> str" where
  "mangle_flex_identifier name =
     (case name of c # rest \<Rightarrow> if c = ch CHR ''#'' then lit ''_Hash_'' @ rest else name | [] \<Rightarrow> name)"

definition print_flex_byte :: "byte \<Rightarrow> str" where
  "print_flex_byte b = [92, ch CHR ''x''] @ hex_upper_pad 2 (unat b)"

definition flex_reserved :: "bool \<Rightarrow> uchar set" where
  "flex_reserved in_class =
     (if in_class then set (lit ''^-[] '' @ [92]) else set (lit ''^$|?*+(){}[]./<> '' @ [92, 34]))"

definition print_flex_character :: "uchar \<Rightarrow> bool \<Rightarrow> str" where
  "print_flex_character c in_class =
     (let grouped = \<not> in_class \<and> \<not> c < 128 in
      (if grouped then lit ''('' else [])
      @ (if c = 10 then [92, ch CHR ''n'']
         else if c = 13 then [92, ch CHR ''r'']
         else if c = 9 then [92, ch CHR ''t'']
         else (if c \<in> flex_reserved in_class then [92] else []) @ [c])
      @ (if grouped then lit '')'' else []))"

fun print_flex_class_member :: "char_class \<Rightarrow> str" where
  "print_flex_class_member (ClassChar c) = print_flex_character c True"
| "print_flex_class_member (ClassRange lo hi) = print_flex_character lo True @ lit ''-'' @ print_flex_character hi True"

definition print_flex_class_as_written :: "bool \<Rightarrow> char_class list \<Rightarrow> str" where
  "print_flex_class_as_written negated members =
     lit ''['' @ (if negated then lit ''^'' else []) @ concat (map print_flex_class_member members) @ lit '']''"

subsection \<open>Sets of characters\<close>

text \<open>The one-byte part of a set, cast to bytes, and its class.\<close>

definition ascii_ranges :: "ranges \<Rightarrow> byte_sequence" where
  "ascii_ranges rs = map (\<lambda>(lo, hi). (byte_of lo, byte_of (min hi 0x7F))) (filter (\<lambda>(lo, hi). lo \<le> 0x7F) rs)"

fun print_ascii_range :: "byte \<times> byte \<Rightarrow> str" where
  "print_ascii_range (lo, hi) = print_flex_byte lo @ (if hi > lo then lit ''-'' @ print_flex_byte hi else [])"

definition print_ascii_class :: "byte_sequence \<Rightarrow> str" where
  "print_ascii_class ascii = lit ''['' @ concat (map print_ascii_range ascii) @ lit '']''"

fun wide_sequences :: "ranges \<Rightarrow> byte_sequence list \<Rightarrow> byte_sequence list option" where
  "wide_sequences [] seqs = Some seqs"
| "wide_sequences ((lo, hi) # rs) seqs =
     (if max lo 0x80 \<le> hi
      then Option.bind (utf8_sequences (max lo 0x80) hi seqs) (wide_sequences rs)
      else wide_sequences rs seqs)"

fun print_byte_range :: "byte \<times> byte \<Rightarrow> str" where
  "print_byte_range (lo, hi) =
     (if lo = hi then print_flex_byte lo
      else lit ''['' @ print_flex_byte lo @ lit ''-'' @ print_flex_byte hi @ lit '']'')"

definition print_sequence :: "byte_sequence \<Rightarrow> str" where
  "print_sequence s = concat (map print_byte_range s)"

definition flex_alternatives :: "byte_sequence \<Rightarrow> byte_sequence list \<Rightarrow> str list" where
  "flex_alternatives ascii seqs =
     (if ascii \<noteq> [] then [print_ascii_class ascii] else []) @ map print_sequence seqs"

definition empty_byte_class :: str where
  "empty_byte_class = lit ''[^'' @ [92] @ lit ''x00-'' @ [92] @ lit ''xFF]''"

definition print_flex_utf8_set :: "ranges \<Rightarrow> str option" where
  "print_flex_utf8_set rs =
     map_option (\<lambda>seqs.
       let alternatives = flex_alternatives (ascii_ranges rs) seqs in
       if alternatives = [] then empty_byte_class
       else lit ''('' @ joined (lit ''|'') alternatives @ lit '')'')
     (wide_sequences rs [])"

fun ascii_member :: "char_class \<Rightarrow> bool" where
  "ascii_member (ClassChar c) \<longleftrightarrow> c < 128"
| "ascii_member (ClassRange lo hi) \<longleftrightarrow> lo < 128 \<and> hi < 128"

definition print_flex_class_utf8 :: "bool \<Rightarrow> char_class list \<Rightarrow> str option" where
  "print_flex_class_utf8 negated members =
     (if \<not> negated \<and> list_all ascii_member members
      then Some (print_flex_class_as_written False members)
      else print_flex_utf8_set (class_scalar_ranges negated members))"

subsection \<open>Bodies\<close>

text \<open>As in \<open>Regex_Syntax\<close>, one function for each level of precedence.\<close>

function (sequential)
      print_flex_union :: "flex_classes \<Rightarrow> regex_body \<Rightarrow> str option"
  and print_flex_concat :: "flex_classes \<Rightarrow> regex_body \<Rightarrow> str option"
  and print_flex_repeat :: "flex_classes \<Rightarrow> regex_body \<Rightarrow> str option"
  and print_flex_class :: "flex_classes \<Rightarrow> regex_body \<Rightarrow> str option"
  and print_flex_simple :: "flex_classes \<Rightarrow> regex_body \<Rightarrow> str option" where
  "print_flex_union k (RUnion l r) =
     Option.bind (print_flex_concat k l) (\<lambda>s. map_option (\<lambda>t. s @ lit ''|'' @ t) (print_flex_concat k r))"
| "print_flex_union k b = print_flex_concat k b"
| "print_flex_concat k (RConcat members) = map_option concat (those (map (print_flex_repeat k) members))"
| "print_flex_concat k b = print_flex_repeat k b"
| "print_flex_repeat k (RZeroOrOne b) = map_option (\<lambda>s. s @ lit ''?'') (print_flex_class k b)"
| "print_flex_repeat k (RZeroOrMore b) = map_option (\<lambda>s. s @ lit ''*'') (print_flex_class k b)"
| "print_flex_repeat k (ROneOrMore b) = map_option (\<lambda>s. s @ lit ''+'') (print_flex_class k b)"
| "print_flex_repeat k (RExactly b n) =
     map_option (\<lambda>s. s @ lit ''{'' @ decimal n @ lit ''}'') (print_flex_class k b)"
| "print_flex_repeat k (RAtLeast b n) =
     map_option (\<lambda>s. s @ lit ''{'' @ decimal n @ lit '',}'') (print_flex_class k b)"
| "print_flex_repeat k (RRange b n m) =
     map_option (\<lambda>s. s @ lit ''{'' @ decimal n @ lit '','' @ decimal m @ lit ''}'') (print_flex_class k b)"
| "print_flex_repeat k b = print_flex_class k b"
| "print_flex_class AsWritten (RClass negated members) = Some (print_flex_class_as_written negated members)"
| "print_flex_class Utf8Classes (RClass negated members) = print_flex_class_utf8 negated members"
| "print_flex_class Utf8Classes RAnyChar = print_flex_utf8_set (complement_scalar_ranges [(10, 10)])"
| "print_flex_class k b = print_flex_simple k b"
| "print_flex_simple k (RChar c) = Some (print_flex_character c False)"
| "print_flex_simple k RAnyChar = Some (lit ''.'')"
| "print_flex_simple k (RNamed name) = Some (lit ''{'' @ mangle_flex_identifier name @ lit ''}'')"
| "print_flex_simple k b = map_option (\<lambda>s. lit ''('' @ s @ lit '')'') (print_flex_union k b)"
  by pat_completeness auto
termination
  by (relation "measure (case_sum (case_sum (\<lambda>(_, b). distance 0 b) (\<lambda>(_, b). distance 1 b))
        (case_sum (\<lambda>(_, b). distance 2 b) (case_sum (\<lambda>(_, b). distance 3 b) (\<lambda>(_, b). distance 4 b))))")
    (auto simp: distance_def dest!: subexpression_size)

definition print_flex_regex :: "regex \<Rightarrow> flex_classes \<Rightarrow> str option" where
  "print_flex_regex r k =
     map_option (\<lambda>s. (if rx_start_line r then lit ''^'' else []) @ s @ (if rx_end_line r then lit ''$'' else []))
       (print_flex_union k (rx_body r))"

definition to_flex_string :: "regex \<Rightarrow> str option" where
  "to_flex_string r = print_flex_regex r Utf8Classes"

definition to_flex_name :: "regex \<Rightarrow> str option" where
  "to_flex_name r = print_flex_regex r AsWritten"

definition body_to_flex_string :: "regex_body \<Rightarrow> str option" where
  "body_to_flex_string b = print_flex_union Utf8Classes b"

definition member_to_flex_string :: "char_class \<Rightarrow> str" where
  "member_to_flex_string member = print_flex_class_member member"

section \<open>How Flex reads the tokens\<close>

text \<open>
  One byte of a pattern: an ASCII character that is no operator where it stands, a backslash before
  a character that is no letter and no digit, the escapes of C, and two hexadecimal digits.
\<close>

inductive flex_char :: "bool \<Rightarrow> str \<Rightarrow> byte \<Rightarrow> bool" where
  "c < 128 \<Longrightarrow> c \<notin> {9, 10, 32} \<Longrightarrow> c \<notin> set (lit ''^-[]'' @ [92]) \<Longrightarrow> flex_char True [c] (byte_of c)"
| "c < 128 \<Longrightarrow> c \<notin> {9, 10, 32} \<Longrightarrow> c \<notin> set (lit ''^$|?*+(){}[]./<>'' @ [92, 34]) \<Longrightarrow>
    flex_char False [c] (byte_of c)"
| "c < 128 \<Longrightarrow> \<not> is_ascii_alphanumeric c \<Longrightarrow> c \<noteq> 10 \<Longrightarrow> flex_char in_class [92, c] (byte_of c)"
| "flex_char in_class [92, ch CHR ''n''] 10"
| "flex_char in_class [92, ch CHR ''r''] 13"
| "flex_char in_class [92, ch CHR ''t''] 9"
| "a < 16 \<Longrightarrow> b < 16 \<Longrightarrow> flex_char in_class [92, ch CHR ''x'', upper_digit a, upper_digit b] (byte_of (16 * a + b))"

text \<open>The members of a class of bytes.\<close>

inductive flex_members :: "str \<Rightarrow> byte set \<Rightarrow> bool" where
  members_nil: "flex_members [] {}"
| members_char: "flex_char True s b \<Longrightarrow> flex_members t B \<Longrightarrow> flex_members (s @ t) ({b} \<union> B)"
| members_range: "flex_char True s a \<Longrightarrow> flex_char True t b \<Longrightarrow> a \<le> b \<Longrightarrow> flex_members u B \<Longrightarrow>
    flex_members (s @ lit ''-'' @ t @ u) ({a..b} \<union> B)"

text \<open>
  The tokens: a character, the bytes of a wider one side by side, classes, and a name, whose
  definition \<open>\<delta>\<close> gives. A name begins with a letter or an underscore. The count of a repetition is
  positive (the greater one of a range; Flex refuses \<open>r{0}\<close>, \<open>r{0,}\<close> and \<open>r{0,0}\<close>), and fits an \<open>int\<close>.
\<close>

definition flex_counts :: "nat set" where
  "flex_counts = {0<..<2 ^ 31}"

definition flex_identifier :: "str \<Rightarrow> bool" where
  "flex_identifier name =
     (case name of
        [] \<Rightarrow> False
      | c # rest \<Rightarrow> (is_ascii_alphabetic c \<or> c = 95) \<and> list_all (\<lambda>c. is_ascii_alphanumeric c \<or> c \<in> {95, 45}) rest)"

inductive flex_tokens :: "(str \<Rightarrow> byte lang) \<Rightarrow> pattern_level \<Rightarrow> str \<Rightarrow> byte lang \<Rightarrow> bool" for \<delta> where
  flex_single: "flex_char False s b \<Longrightarrow> flex_tokens \<delta> Atom s {[b]}"
| flex_wide: "is_scalar c \<Longrightarrow> 128 \<le> c \<Longrightarrow> flex_tokens \<delta> Juxtaposition [c] {encode_utf8 c}"
| flex_set: "flex_members s B \<Longrightarrow> s \<noteq> [] \<Longrightarrow> flex_tokens \<delta> Atom (lit ''['' @ s @ lit '']'') ((\<lambda>b. [b]) ` B)"
| flex_negated: "flex_members s B \<Longrightarrow> s \<noteq> [] \<Longrightarrow> flex_tokens \<delta> Atom (lit ''[^'' @ s @ lit '']'') ((\<lambda>b. [b]) ` (- B))"
| flex_dot: "flex_tokens \<delta> Atom (lit ''.'') ((\<lambda>b. [b]) ` (- {10}))"
| flex_name: "flex_identifier name \<Longrightarrow> flex_tokens \<delta> Atom (lit ''{'' @ name @ lit ''}'') (\<delta> name)"

abbreviation flex_reads :: "(str \<Rightarrow> byte lang) \<Rightarrow> pattern_level \<Rightarrow> str \<Rightarrow> byte lang \<Rightarrow> bool" where
  "flex_reads \<delta> \<equiv> pattern_reads (lit ''('') flex_counts (flex_tokens \<delta>)"

section \<open>Characters and bytes\<close>

lemma flex_token: "flex_tokens \<delta> level s A \<Longrightarrow> pattern_reads brk counts (flex_tokens \<delta>) level s A"
  by (rule reads_token)

lemma flex_group: "flex_reads \<delta> Juxtaposition s A \<Longrightarrow> flex_reads \<delta> Atom (lit ''('' @ s @ lit '')'') A"
  by (intro reads_group reads_branch)

lemma hex_upper_pad_byte: "n < 256 \<Longrightarrow> hex_upper_pad 2 n = [upper_digit (n div 16), upper_digit (n mod 16)]"
proof -
  assume n: "n < 256"
  show ?thesis
  proof (cases "n < 16")
    case True
    then show ?thesis by (simp add: hex_upper_pad_def hex_upper.simps [of n] upper_digit_def)
  next
    case False
    moreover have "n div 16 < 16" using n by simp
    ultimately have "hex_upper n = [upper_digit (n div 16), upper_digit (n mod 16)]"
      using n by (simp add: hex_upper.simps [of n] hex_upper.simps [of "n div 16"])
    then show ?thesis by (simp add: hex_upper_pad_def)
  qed
qed

lemma flex_byte_bound: "unat (b :: byte) < 256"
  by (rule less_le_trans [OF unsigned_less]) simp

lemma flex_char_byte: "flex_char in_class (print_flex_byte b) b"
proof -
  have "unat b div 16 < 16" using flex_byte_bound [of b] by simp
  then have "flex_char in_class [92, ch CHR ''x'', upper_digit (unat b div 16), upper_digit (unat b mod 16)]
      (byte_of (16 * (unat b div 16) + unat b mod 16))"
    by (intro flex_char.intros(7)) simp_all
  then show ?thesis
    by (simp add: print_flex_byte_def hex_upper_pad_byte [OF flex_byte_bound] del: One_nat_def)
qed

lemma print_flex_byte_nonempty [simp]: "print_flex_byte b \<noteq> []"
  by (simp add: print_flex_byte_def)

lemma flex_char_ascii:
  assumes "c < 128"
  shows "flex_char in_class (print_flex_character c in_class) (byte_of c)"
proof -
  consider "c = 10" | "c = 13" | "c = 9" | "c \<notin> {9, 10, 13}" "c \<in> flex_reserved in_class"
    | "c \<notin> {9, 10, 13}" "c \<notin> flex_reserved in_class" by blast
  then show ?thesis
  proof cases
    case 4
    then have "\<not> is_ascii_alphanumeric c"
      by (auto simp: flex_reserved_def char_class_defs split: if_splits)
    then show ?thesis
      using 4 assms by (auto simp: print_flex_character_def Let_def intro: flex_char.intros)
  next
    case 5
    then show ?thesis
      using assms
      by (cases in_class) (auto simp: print_flex_character_def Let_def flex_reserved_def intro!: flex_char.intros)
  qed (use flex_char.intros(4-6) [of in_class] in \<open>simp_all add: print_flex_character_def Let_def byte_of_def\<close>)
qed

lemma flex_reads_character:
  assumes "is_scalar c"
  shows "flex_reads \<delta> Atom (print_flex_character c False) {encode_utf8 c}"
proof (cases "c < 128")
  case True
  then show ?thesis
    using flex_char_ascii [OF True, of False]
    by (auto simp: encode_utf8_def intro!: flex_token flex_single)
next
  case False
  then have "print_flex_character c False = lit ''('' @ [c] @ lit '')''"
    by (auto simp: print_flex_character_def Let_def flex_reserved_def)
  then show ?thesis
    using flex_group [OF flex_token [OF flex_wide [OF assms]], of \<delta>] False by simp
qed

section \<open>Classes of bytes\<close>

lemma flex_members_printed:
  assumes "list_all ascii_member members" and "concat (map class_issue members) = []"
  shows "flex_members (concat (map print_flex_class_member members)) (byte_of ` {c. \<exists>m \<in> set members. in_member c m})"
  using assms
proof (induction members)
  case (Cons m members)
  then have IH: "flex_members (concat (map print_flex_class_member members)) (byte_of ` {c. \<exists>m \<in> set members. in_member c m})"
    by simp
  have split: "byte_of ` {c. \<exists>m \<in> set (m # members). in_member c m}
      = byte_of ` {c. in_member c m} \<union> byte_of ` {c. \<exists>m \<in> set members. in_member c m}" by auto
  show ?case
  proof (cases m)
    case (ClassChar c)
    then show ?thesis
      using members_char [OF flex_char_ascii IH, of c] Cons.prems(1) unfolding split by simp
  next
    case (ClassRange lo hi)
    then have r: "lo < 128" "hi < 128" "lo \<le> hi"
      using Cons.prems by (auto simp: class_issue_def split: if_splits)
    then have bytes: "byte_of ` {c. in_member c m} = {byte_of lo..byte_of hi}" "byte_of lo \<le> byte_of hi"
      using byte_between [of lo hi] by (auto simp: ClassRange atLeastAtMost_def atLeast_def atMost_def word_le_nat_alt)
    show ?thesis
      using members_range [OF flex_char_ascii flex_char_ascii bytes(2) IH] r unfolding split bytes(1)
      by (simp add: ClassRange)
  qed
qed (simp add: members_nil)

lemma flex_members_ranges:
  assumes "\<forall>(lo, hi) \<in> set rs. lo \<le> hi"
  shows "flex_members (concat (map print_ascii_range rs)) (\<Union>(lo, hi) \<in> set rs. {lo..hi})"
  using assms
proof (induction rs)
  case (Cons r rs)
  obtain lo hi where r: "r = (lo, hi)" by fastforce
  then have IH: "flex_members (concat (map print_ascii_range rs)) (\<Union>(lo, hi) \<in> set rs. {lo..hi})"
    and le: "lo \<le> hi" using Cons by auto
  show ?case
    using members_char [OF flex_char_byte IH, of lo] members_range [OF flex_char_byte flex_char_byte le IH] le
    by (cases "lo < hi") (simp_all add: r)
qed (simp add: members_nil)

lemma flex_reads_byte_range:
  assumes "lo \<le> hi"
  shows "flex_reads \<delta> Atom (print_byte_range (lo, hi)) ((\<lambda>b. [b]) ` {lo..hi})"
proof (cases "lo = hi")
  case True
  then show ?thesis using flex_char_byte [of False lo] by (auto intro!: flex_token flex_single)
next
  case False
  have "flex_members (concat (map print_ascii_range [(lo, hi)])) (\<Union>(lo, hi) \<in> set [(lo, hi)]. {lo..hi})"
    by (rule flex_members_ranges) (simp add: assms)
  then show ?thesis
    using False assms flex_token [OF flex_set [of "print_flex_byte lo @ lit ''-'' @ print_flex_byte hi"]]
    by (simp add: order_less_le)
qed

section \<open>Sets of characters\<close>

lemma sequence_bytes_Cons: "sequence_bytes (r # s) = conc ((\<lambda>b. [b]) ` {fst r..snd r}) (sequence_bytes s)"
proof (intro set_eqI)
  show "bs \<in> sequence_bytes (r # s) \<longleftrightarrow> bs \<in> conc ((\<lambda>b. [b]) ` {fst r..snd r}) (sequence_bytes s)" for bs
    by (cases bs) (auto simp: sequence_bytes_def conc_def)
qed

lemma flex_reads_sequence:
  assumes "\<forall>(lo, hi) \<in> set s. lo \<le> hi" and "s \<noteq> []"
  shows "flex_reads \<delta> Juxtaposition (print_sequence s) (sequence_bytes s)"
proof -
  have "conc_all (map (\<lambda>r. (\<lambda>b. [b]) ` {fst r..snd r}) s) = sequence_bytes s"
    by (induction s) (simp_all add: sequence_bytes_Cons, simp add: sequence_bytes_def)
  moreover have "flex_reads \<delta> Juxtaposition (concat (map print_byte_range s)) (conc_all (map (\<lambda>r. (\<lambda>b. [b]) ` {fst r..snd r}) s))"
  proof (rule reads_concat_map [OF _ assms(2)])
    fix r
    assume "r \<in> set s"
    then show "flex_reads \<delta> Juxtaposition (print_byte_range r) ((\<lambda>b. [b]) ` {fst r..snd r})"
      using assms(1) flex_reads_byte_range [of "fst r" "snd r" \<delta>]
      by (intro reads_juxtaposition_of_atom) (auto simp: case_prod_unfold)
  qed
  ultimately show ?thesis by (simp add: print_sequence_def)
qed

lemma exact_sequence:
  assumes "exact r"
  shows "range_sequence r \<noteq> []" and "\<forall>(lo, hi) \<in> set (range_sequence r). lo \<le> hi"
    and "sequence_bytes (range_sequence r) = encode_utf8 ` {fst r..snd r}"
proof -
  show "range_sequence r \<noteq> []" by (simp add: range_sequence_def)
  show eq: "sequence_bytes (range_sequence r) = encode_utf8 ` {fst r..snd r}"
    using assms by (simp add: exact_def)
  have "fst r \<in> {fst r..snd r}" using assms by (simp add: exact_def)
  then have "encode_utf8 (fst r) \<in> sequence_bytes (range_sequence r)" unfolding eq by blast
  then show "\<forall>(lo, hi) \<in> set (range_sequence r). lo \<le> hi"
    unfolding sequence_bytes_def by (auto simp: list_all2_conv_all_nth in_set_conv_nth) (metis fst_conv order_trans snd_conv)
qed

lemma wide_sequences_correct:
  "\<exists>parts. wide_sequences rs seqs = Some (seqs @ map range_sequence parts) \<and> list_all exact parts
     \<and> ranges_set parts = {c \<in> ranges_set rs. 128 \<le> c \<and> is_scalar c}"
proof (induction rs seqs rule: wide_sequences.induct)
  case (2 lo hi rs seqs)
  show ?case
  proof (cases "max lo 0x80 \<le> hi")
    case True
    obtain p where p: "utf8_sequences (max lo 0x80) hi seqs = Some (seqs @ map range_sequence p)" "list_all exact p"
        "ranges_set p = {c \<in> {max lo 0x80..hi}. is_scalar c}"
      using utf8_sequences_correct [of "max lo 0x80" hi seqs] by blast
    obtain q where q: "wide_sequences rs (seqs @ map range_sequence p) = Some ((seqs @ map range_sequence p) @ map range_sequence q)"
        "list_all exact q" "ranges_set q = {c \<in> ranges_set rs. 128 \<le> c \<and> is_scalar c}"
      using "2.IH"(1) [OF True p(1)] by blast
    show ?thesis using p q True by (intro exI [of _ "p @ q"]) auto
  next
    case False
    then show ?thesis using "2.IH"(2) [OF False] by auto
  qed
qed auto

lemma ascii_ranges_bytes:
  assumes "\<forall>(lo, hi) \<in> set rs. lo \<le> hi"
  shows "\<forall>(lo, hi) \<in> set (ascii_ranges rs). lo \<le> hi"
    and "(\<Union>(lo, hi) \<in> set (ascii_ranges rs). {lo..hi}) = byte_of ` {c \<in> ranges_set rs. c < 128}"
proof -
  show "\<forall>(lo, hi) \<in> set (ascii_ranges rs). lo \<le> hi"
    using assms by (fastforce simp: ascii_ranges_def word_le_nat_alt)
  have "{byte_of lo..byte_of (min hi 0x7F)} = byte_of ` {c \<in> {lo..hi}. c < 128}" if "lo \<le> 0x7F" "lo \<le> hi" for lo hi
  proof -
    have "{c \<in> {lo..hi}. c < 128} = {lo..min hi 0x7F}" by auto
    moreover have "{byte_of lo..byte_of (min hi 0x7F)} = {b. byte_of lo \<le> b \<and> b \<le> byte_of (min hi 0x7F)}" by auto
    ultimately show ?thesis using byte_between [of lo "min hi 0x7F"] that by simp
  qed
  then show "(\<Union>(lo, hi) \<in> set (ascii_ranges rs). {lo..hi}) = byte_of ` {c \<in> ranges_set rs. c < 128}"
    using assms
  proof (induction rs)
    case (Cons r rs)
    obtain lo hi where r: "r = (lo, hi)" by fastforce
    have "byte_of ` {c \<in> ranges_set (r # rs). c < 128}
        = byte_of ` {c \<in> {lo..hi}. c < 128} \<union> byte_of ` {c \<in> ranges_set rs. c < 128}"
      by (auto simp: r)
    moreover have "\<not> lo \<le> 0x7F \<Longrightarrow> {c. lo \<le> c \<and> c \<le> hi \<and> c < 128} = {}" by auto
    ultimately show ?case using Cons.IH Cons.prems by (cases "lo \<le> 0x7F") (simp_all add: r ascii_ranges_def)
  qed (simp add: ascii_ranges_def)
qed

lemma flex_reads_empty_class: "flex_reads \<delta> Atom empty_byte_class {}"
proof -
  have "upper_digit 0 = ch CHR ''0''" "upper_digit 15 = ch CHR ''F''" by (simp_all add: upper_digit_def)
  then have "flex_char True [92, ch CHR ''x'', ch CHR ''0'', ch CHR ''0''] (byte_of 0)"
      "flex_char True [92, ch CHR ''x'', ch CHR ''F'', ch CHR ''F''] (byte_of 255)"
    using flex_char.intros(7) [of 0 0 True] flex_char.intros(7) [of 15 15 True] by simp_all
  then have "flex_members ([92, ch CHR ''x'', ch CHR ''0'', ch CHR ''0''] @ lit ''-'' @ [92, ch CHR ''x'', ch CHR ''F'', ch CHR ''F''] @ [])
      ({byte_of 0..byte_of 255} \<union> {})"
    by (intro members_range members_nil) (simp_all add: word_le_nat_alt byte_of_def)
  then have "flex_tokens \<delta> Atom empty_byte_class ((\<lambda>b. [b]) ` (- {byte_of 0..byte_of 255}))"
    using flex_negated [of "[92, ch CHR ''x'', ch CHR ''0'', ch CHR ''0''] @ lit ''-'' @ [92, ch CHR ''x'', ch CHR ''F'', ch CHR ''F'']"]
    by (simp add: empty_byte_class_def)
  moreover have none: "- {byte_of 0..byte_of 255} = {}"
    using flex_byte_bound by (auto simp: word_le_nat_alt less_Suc_eq_le [symmetric])
  ultimately show ?thesis using flex_token unfolding none image_empty by blast
qed

lemma flex_reads_ascii_class:
  assumes "\<forall>(lo, hi) \<in> set rs. lo \<le> hi" and "ascii_ranges rs \<noteq> []"
  shows "flex_reads \<delta> Alternation (print_ascii_class (ascii_ranges rs)) (encode_utf8 ` {c \<in> ranges_set rs. c < 128})"
proof -
  have "concat (map print_ascii_range (ascii_ranges rs)) \<noteq> []" using assms(2) by (cases "ascii_ranges rs") auto
  then have "flex_tokens \<delta> Atom (print_ascii_class (ascii_ranges rs)) ((\<lambda>b. [b]) ` byte_of ` {c \<in> ranges_set rs. c < 128})"
    unfolding print_ascii_class_def ascii_ranges_bytes(2) [OF assms(1), symmetric]
    by (intro flex_set flex_members_ranges ascii_ranges_bytes(1) [OF assms(1)])
  moreover have "(\<lambda>b. [b]) ` byte_of ` {c \<in> ranges_set rs. c < 128} = encode_utf8 ` {c \<in> ranges_set rs. c < 128}"
    by (auto simp: encode_utf8_def image_image)
  ultimately show ?thesis using reads_alternation_of_atom [OF flex_token] by simp
qed

lemma flex_reads_alternatives:
  assumes "\<forall>(lo, hi) \<in> set rs. lo \<le> hi" and "list_all exact parts"
    and "ranges_set parts = {c \<in> ranges_set rs. 128 \<le> c \<and> is_scalar c}"
  shows "\<exists>As. list_all2 (flex_reads \<delta> Alternation) (flex_alternatives (ascii_ranges rs) (map range_sequence parts)) As
     \<and> \<Union> (set As) = encode_utf8 ` {c \<in> ranges_set rs. is_scalar c}"
proof -
  let ?narrow = "encode_utf8 ` {c \<in> ranges_set rs. c < 128}" and ?wide = "map (\<lambda>r. encode_utf8 ` {fst r..snd r}) parts"
  have "\<Union> (set ?wide) = encode_utf8 ` ranges_set parts"
    by (simp add: ranges_set_def image_UN case_prod_unfold)
  then have union: "encode_utf8 ` {c \<in> ranges_set rs. is_scalar c} = ?narrow \<union> \<Union> (set ?wide)"
    unfolding assms(3) by (simp only: image_Un [symmetric]) (rule arg_cong [of _ _ "image encode_utf8"], auto simp: is_scalar_def)
  have wide: "list_all2 (flex_reads \<delta> Alternation) (map print_sequence (map range_sequence parts)) ?wide"
    using assms(2) exact_sequence flex_reads_sequence
    by (fastforce simp: list_all2_map1 list_all2_map2 list_all2_same list_all_iff intro: reads_branch)
  show ?thesis
  proof (cases "ascii_ranges rs = []")
    case True
    then have "{c \<in> ranges_set rs. c < 128} = {}" using ascii_ranges_bytes(2) [OF assms(1)] by simp
    then have "\<Union> (set ?wide) = encode_utf8 ` {c \<in> ranges_set rs. is_scalar c}"
      unfolding union by (simp only: image_empty Un_empty_left)
    then show ?thesis using True wide by (intro exI [of _ ?wide]) (simp add: flex_alternatives_def)
  next
    case False
    then show ?thesis using flex_reads_ascii_class [OF assms(1) False, of \<delta>] wide union
      by (intro exI [of _ "?narrow # ?wide"]) (simp add: flex_alternatives_def)
  qed
qed

lemma flex_reads_utf8_set:
  assumes "\<forall>(lo, hi) \<in> set rs. lo \<le> hi"
  shows "\<exists>s. print_flex_utf8_set rs = Some s \<and> flex_reads \<delta> Atom s (encode_utf8 ` {c \<in> ranges_set rs. is_scalar c})"
proof -
  obtain parts where p: "wide_sequences rs [] = Some (map range_sequence parts)" "list_all exact parts"
      "ranges_set parts = {c \<in> ranges_set rs. 128 \<le> c \<and> is_scalar c}"
    using wide_sequences_correct [of rs "[]"] by auto
  let ?alts = "flex_alternatives (ascii_ranges rs) (map range_sequence parts)"
  obtain As where As: "list_all2 (flex_reads \<delta> Alternation) ?alts As"
      "\<Union> (set As) = encode_utf8 ` {c \<in> ranges_set rs. is_scalar c}"
    using flex_reads_alternatives [OF assms p(2,3), of \<delta>] by blast
  show ?thesis
  proof (cases "?alts = []")
    case True
    then have none: "encode_utf8 ` {c \<in> ranges_set rs. is_scalar c} = {}"
      using As(1) unfolding As(2) [symmetric] by simp
    show ?thesis
      unfolding none using flex_reads_empty_class [of \<delta>] True by (simp add: print_flex_utf8_set_def p(1))
  next
    case False
    then show ?thesis
      using reads_group [OF reads_joined [OF As(1) False]] As(2) by (simp add: print_flex_utf8_set_def p(1) Let_def)
  qed
qed

section \<open>Classes\<close>

lemma complement_loop_ordered:
  assumes "\<forall>(lo, hi) \<in> set complement. lo \<le> hi"
  shows "\<forall>(lo, hi) \<in> set (fst (complement_loop complement following rs)). lo \<le> hi"
  using assms
proof (induction complement following rs rule: complement_loop.induct)
  case (2 complement following lo hi rs)
  then show ?case by (cases "following < lo") auto
qed simp

lemma complement_ordered: "\<forall>(lo, hi) \<in> set (complement_scalar_ranges rs). lo \<le> hi"
proof -
  obtain c n where "complement_loop [] 0 rs = (c, n)" by fastforce
  then show ?thesis using complement_loop_ordered [of "[]" 0 rs] by (auto simp: complement_scalar_ranges_def)
qed

lemma class_ordered:
  assumes "list_all valid_member members"
  shows "\<forall>(lo, hi) \<in> set (class_scalar_ranges negated members). lo \<le> hi"
proof -
  have "\<forall>(lo, hi) \<in> set (List.map_filter member_range members). lo \<le> hi \<and> hi < 2 ^ 32 - 1"
    using member_ranges(1) [OF assms] by (auto simp: MAX_SCALAR_def)
  then have "apart (merge_scalar_ranges (List.map_filter member_range members))"
    using merge_ranges by blast
  then show ?thesis
    using complement_ordered by (auto simp: class_scalar_ranges_def apart_def Let_def)
qed

lemma flex_reads_class:
  assumes "list_all valid_member members" and "members \<noteq> []" and "concat (map class_issue members) = []"
  shows "\<exists>s. print_flex_class_utf8 negated members = Some s
    \<and> flex_reads \<delta> Atom s (encode_utf8 ` class_chars negated members)"
proof (cases "\<not> negated \<and> list_all ascii_member members")
  case True
  let ?cs = "{c. \<exists>m \<in> set members. in_member c m}"
  have small: "c < 128" if c: "c \<in> ?cs" for c
  proof -
    obtain m where "m \<in> set members" "in_member c m" using c by blast
    then show ?thesis using True by (cases m rule: char_class.exhaust) (auto simp: list_all_iff)
  qed
  then have "?cs = class_chars False members" by (force simp: class_chars_def is_scalar_def)
  then have "(\<lambda>b. [b]) ` byte_of ` ?cs = encode_utf8 ` class_chars False members"
    unfolding image_image using small by (intro image_cong) (simp_all add: encode_utf8_def)
  moreover have "concat (map print_flex_class_member members) \<noteq> []"
    using assms(2) by (cases members; cases "hd members") (auto simp: print_flex_character_def Let_def)
  ultimately have "flex_reads \<delta> Atom (print_flex_class_as_written False members) (encode_utf8 ` class_chars False members)"
    using flex_token [OF flex_set [OF flex_members_printed [OF _ assms(3)]]] True
    by (simp add: print_flex_class_as_written_def)
  then show ?thesis using True by (simp add: print_flex_class_utf8_def)
next
  case False
  then show ?thesis
    using flex_reads_utf8_set [OF class_ordered [OF assms(1)], of negated \<delta>] class_ranges(1) [OF assms(1), of negated]
    by (auto simp: print_flex_class_utf8_def)
qed

lemma scalar_le_max: "is_scalar c \<Longrightarrow> c \<le> MAX_SCALAR"
  by (auto simp: is_scalar_def MAX_SCALAR_def)

lemma flex_reads_dot:
  "\<exists>s. print_flex_utf8_set (complement_scalar_ranges [(10, 10)]) = Some s \<and> flex_reads \<delta> Atom s (encode_utf8 ` dot_chars)"
proof -
  have "10 \<le> MAX_SCALAR" by (simp add: MAX_SCALAR_def)
  then have set: "ranges_set (complement_scalar_ranges [(10, 10)]) = {..MAX_SCALAR} - {10}"
    by (subst complement_ranges) (simp_all add: apart_def)
  have "{c \<in> ranges_set (complement_scalar_ranges [(10, 10)]). is_scalar c} = dot_chars"
    unfolding set dot_chars_def using scalar_le_max by blast
  then show ?thesis using flex_reads_utf8_set [OF complement_ordered, of "[(10, 10)]" \<delta>] by (simp only:)
qed

section \<open>Bodies\<close>

lemma mangled_identifier: "valid_identifier name \<Longrightarrow> flex_identifier (mangle_flex_identifier name)"
  by (auto simp: valid_identifier_def flex_identifier_def mangle_flex_identifier_def char_class_defs list_all_iff
      split: list.splits if_splits)

text \<open>A repetition whose count Flex accepts.\<close>

fun flex_repetition :: "regex_body \<Rightarrow> bool" where
  "flex_repetition (RExactly _ n) \<longleftrightarrow> n \<in> flex_counts"
| "flex_repetition (RAtLeast _ n) \<longleftrightarrow> n \<in> flex_counts"
| "flex_repetition (RRange _ _ k) \<longleftrightarrow> k \<in> flex_counts"
| "flex_repetition _ \<longleftrightarrow> True"

text \<open>A printing function prints a body, at its level, as a pattern of the body's encoded texts.\<close>

definition prints_at ::
    "(str \<Rightarrow> byte lang) \<Rightarrow> (str \<Rightarrow> str set) \<Rightarrow> pattern_level \<Rightarrow> str option \<Rightarrow> regex_body \<Rightarrow> bool" where
  "prints_at \<delta> \<sigma> level r b \<longleftrightarrow>
     (\<exists>s. r = Some s \<and> flex_reads \<delta> level s (str_bytes ` body_lang \<sigma> b))"

definition prints_levels :: "(str \<Rightarrow> byte lang) \<Rightarrow> (str \<Rightarrow> str set) \<Rightarrow> regex_body \<Rightarrow> bool" where
  "prints_levels \<delta> \<sigma> b \<longleftrightarrow> prints_at \<delta> \<sigma> Alternation (print_flex_union Utf8Classes b) b \<and> prints_at \<delta> \<sigma> Juxtaposition (print_flex_concat Utf8Classes b) b
     \<and> prints_at \<delta> \<sigma> Repetition (print_flex_repeat Utf8Classes b) b \<and> prints_at \<delta> \<sigma> Atom (print_flex_class Utf8Classes b) b"

lemma prints_looser:
  "prints_at \<delta> \<sigma> Atom r b \<Longrightarrow> prints_at \<delta> \<sigma> Repetition r b"
  "prints_at \<delta> \<sigma> Repetition r b \<Longrightarrow> prints_at \<delta> \<sigma> Juxtaposition r b"
  "prints_at \<delta> \<sigma> Juxtaposition r b \<Longrightarrow> prints_at \<delta> \<sigma> Alternation r b"
  by (auto simp: prints_at_def intro: reads_atom, auto simp: prints_at_def intro: reads_single,
      auto simp: prints_at_def intro: reads_branch)

lemma prints_group:
  assumes "prints_at \<delta> \<sigma> Alternation (print_flex_union Utf8Classes b) b"
    and "print_flex_class Utf8Classes b = map_option (\<lambda>s. lit ''('' @ s @ lit '')'') (print_flex_union Utf8Classes b)"
  shows "prints_at \<delta> \<sigma> Atom (print_flex_class Utf8Classes b) b"
proof -
  obtain s where "print_flex_union Utf8Classes b = Some s" "flex_reads \<delta> Alternation s (str_bytes ` body_lang \<sigma> b)"
    using assms(1) unfolding prints_at_def by blast
  then show ?thesis
    unfolding prints_at_def assms(2)
    by (intro exI [of _ "lit ''('' @ s @ lit '')''"]) (simp only: option.map reads_group simp_thms)
qed

text \<open>The level at which a body is printed gives the others: looser ones by handing it on, tighter ones by a group.\<close>

lemma levels_of_atom:
  assumes "prints_at \<delta> \<sigma> Atom (print_flex_class Utf8Classes b) b"
    and "print_flex_repeat Utf8Classes b = print_flex_class Utf8Classes b"
    and "print_flex_concat Utf8Classes b = print_flex_class Utf8Classes b"
    and "print_flex_union Utf8Classes b = print_flex_class Utf8Classes b"
  shows "prints_levels \<delta> \<sigma> b"
  unfolding prints_levels_def assms(2-4)
  using assms(1) prints_looser by blast

lemma levels_of_repetition:
  assumes "prints_at \<delta> \<sigma> Repetition (print_flex_repeat Utf8Classes b) b"
    and "print_flex_concat Utf8Classes b = print_flex_repeat Utf8Classes b"
    and "print_flex_union Utf8Classes b = print_flex_repeat Utf8Classes b"
    and "print_flex_class Utf8Classes b = map_option (\<lambda>s. lit ''('' @ s @ lit '')'') (print_flex_union Utf8Classes b)"
  shows "prints_levels \<delta> \<sigma> b"
proof -
  have "prints_at \<delta> \<sigma> Alternation (print_flex_union Utf8Classes b) b" "prints_at \<delta> \<sigma> Juxtaposition (print_flex_concat Utf8Classes b) b"
    unfolding assms(2,3) using assms(1) prints_looser by blast+
  then show ?thesis using assms(1) prints_group [OF _ assms(4)] by (simp add: prints_levels_def)
qed

lemma levels_of_group:
  assumes "prints_at \<delta> \<sigma> Alternation (print_flex_union Utf8Classes b) b"
    and "prints_at \<delta> \<sigma> Juxtaposition (print_flex_concat Utf8Classes b) b \<or> print_flex_concat Utf8Classes b = print_flex_class Utf8Classes b"
    and "print_flex_repeat Utf8Classes b = print_flex_class Utf8Classes b"
    and "print_flex_class Utf8Classes b = map_option (\<lambda>s. lit ''('' @ s @ lit '')'') (print_flex_union Utf8Classes b)"
  shows "prints_levels \<delta> \<sigma> b"
proof -
  have atom: "prints_at \<delta> \<sigma> Atom (print_flex_class Utf8Classes b) b" by (rule prints_group [OF assms(1,4)])
  then have "prints_at \<delta> \<sigma> Repetition (print_flex_repeat Utf8Classes b) b"
    unfolding assms(3) by (rule prints_looser(1))
  moreover have "prints_at \<delta> \<sigma> Juxtaposition (print_flex_concat Utf8Classes b) b"
    using assms(2) atom prints_looser by metis
  ultimately show ?thesis using assms(1) atom by (simp add: prints_levels_def)
qed

lemma those_prints:
  assumes "\<And>m. m \<in> set ms \<Longrightarrow> prints_at \<delta> \<sigma> level (f m) m"
  shows "\<exists>ss. those (map f ms) = Some ss
     \<and> list_all2 (flex_reads \<delta> level) ss (map (\<lambda>m. str_bytes ` body_lang \<sigma> m) ms)"
  using assms
proof (induction ms)
  case (Cons m ms)
  have m: "prints_at \<delta> \<sigma> level (f m) m" using Cons.prems by simp
  then obtain s where s: "f m = Some s" "flex_reads \<delta> level s (str_bytes ` body_lang \<sigma> m)"
    unfolding prints_at_def by blast
  obtain ss where ss: "those (map f ms) = Some ss"
      "list_all2 (flex_reads \<delta> level) ss (map (\<lambda>m. str_bytes ` body_lang \<sigma> m) ms)"
    using Cons by auto
  show ?case by (rule exI [of _ "s # ss"]) (use s ss in simp)
qed simp

lemma prints_concat:
  assumes "\<And>m. m \<in> set ms \<Longrightarrow> prints_at \<delta> \<sigma> Repetition (print_flex_repeat Utf8Classes m) m" and "ms \<noteq> []"
  shows "prints_at \<delta> \<sigma> Juxtaposition (print_flex_concat Utf8Classes (RConcat ms)) (RConcat ms)"
proof -
  obtain ss where ss: "those (map (print_flex_repeat Utf8Classes) ms) = Some ss"
      "list_all2 (flex_reads \<delta> Repetition) ss (map (\<lambda>m. str_bytes ` body_lang \<sigma> m) ms)"
    using those_prints [OF assms(1)] by blast
  have "list_all2 (flex_reads \<delta> Juxtaposition) ss (map (\<lambda>m. str_bytes ` body_lang \<sigma> m) ms)"
    by (rule list_all2_mono [OF ss(2)]) (rule reads_single)
  moreover have "ss \<noteq> []" using ss(2) assms(2) by auto
  ultimately have "flex_reads \<delta> Juxtaposition (concat ss) (conc_all (map (\<lambda>m. str_bytes ` body_lang \<sigma> m) ms))"
    by (rule reads_concat)
  moreover have "str_bytes ` body_lang \<sigma> (RConcat ms) = conc_all (map (\<lambda>m. str_bytes ` body_lang \<sigma> m) ms)"
    by (simp add: str_bytes_images comp_def)
  ultimately show ?thesis using ss(1) by (simp add: prints_at_def)
qed

lemma prints_repetition:
  assumes "prints_at \<delta> \<sigma> Atom (print_flex_class Utf8Classes b) b"
    and "print_flex_repeat Utf8Classes c = map_option f (print_flex_class Utf8Classes b)"
    and "\<And>s A. flex_reads \<delta> Atom s A \<Longrightarrow> flex_reads \<delta> Repetition (f s) (repeats counts A)"
    and "body_lang \<sigma> c = repeats counts (body_lang \<sigma> b)"
  shows "prints_at \<delta> \<sigma> Repetition (print_flex_repeat Utf8Classes c) c"
  using assms(1,3) unfolding prints_at_def assms(2,4) str_bytes_images by fastforce


lemma body_prints:
  assumes "wf_body b" and "concat (map body_issues (preorder b)) = []" and "\<forall>c \<in> set (preorder b). flex_repetition c"
    and names: "\<forall>name. valid_identifier name \<longrightarrow> \<delta> (mangle_flex_identifier name) = str_bytes ` \<sigma> name"
  shows "prints_levels \<delta> \<sigma> b"
  using assms(1-3)
proof (induction b)
  case (RChar c)
  then show ?case
    using flex_reads_character [of c \<delta>] by (intro levels_of_atom) (simp_all add: prints_at_def)
next
  case RAnyChar
  show ?case
    using flex_reads_dot [of \<delta>] by (intro levels_of_atom) (simp_all add: prints_at_def str_bytes_singletons)
next
  case (RNamed name)
  then show ?case
    using flex_token [OF flex_name [OF mangled_identifier, of name \<delta>]] names
    by (intro levels_of_atom) (simp_all add: prints_at_def)
next
  case (RClass negated members)
  then have "concat (map class_issue members) = []" by (simp add: body_issues_def)
  then show ?case
    using flex_reads_class [of members negated \<delta>] RClass
    by (intro levels_of_atom) (simp_all add: prints_at_def str_bytes_singletons)
next
  case (RUnion l r)
  then have "prints_levels \<delta> \<sigma> l" "prints_levels \<delta> \<sigma> r" by simp_all
  then have "prints_at \<delta> \<sigma> Alternation (print_flex_concat Utf8Classes l) l" "prints_at \<delta> \<sigma> Alternation (print_flex_concat Utf8Classes r) r"
    unfolding prints_levels_def using prints_looser by blast+
  then have "prints_at \<delta> \<sigma> Alternation (print_flex_union Utf8Classes (RUnion l r)) (RUnion l r)"
    using reads_alternatives unfolding prints_at_def by (fastforce simp: image_Un)
  then show ?case by (intro levels_of_group) simp_all
next
  case (RConcat ms)
  then have "prints_levels \<delta> \<sigma> m" if "m \<in> set ms" for m using that by auto
  then have "prints_at \<delta> \<sigma> Juxtaposition (print_flex_concat Utf8Classes (RConcat ms)) (RConcat ms)"
    using RConcat.prems(1) by (intro prints_concat) (auto simp: prints_levels_def)
  then show ?case by (intro levels_of_group) (simp_all add: prints_looser(3))
next
  case (RZeroOrMore b)
  then show ?case by (intro levels_of_repetition prints_repetition [OF _ _ reads_star]) (simp_all add: prints_levels_def)
next
  case (RZeroOrOne b)
  then show ?case by (intro levels_of_repetition prints_repetition [OF _ _ reads_option]) (simp_all add: prints_levels_def)
next
  case (ROneOrMore b)
  then show ?case by (intro levels_of_repetition prints_repetition [OF _ _ reads_plus]) (simp_all add: prints_levels_def)
next
  case (RExactly b n)
  then have n: "n \<in> flex_counts" by simp
  show ?case using RExactly by (intro levels_of_repetition prints_repetition [OF _ _ reads_exactly [OF _ n]]) (simp_all add: prints_levels_def)
next
  case (RAtLeast b n)
  then have n: "n \<in> flex_counts" by simp
  show ?case using RAtLeast by (intro levels_of_repetition prints_repetition [OF _ _ reads_at_least [OF _ n]]) (simp_all add: prints_levels_def)
next
  case (RRange b n k)
  then have k: "n \<le> k" "k \<in> flex_counts" by (simp_all add: body_issues_def split: if_splits)
  note range = reads_range [OF _ k]
  show ?case using RRange
    by (intro levels_of_repetition prints_repetition [OF _ _ range]) (simp_all add: prints_levels_def)
qed

text \<open>
  What the condition on counts leaves out: \<open>check\<close> accepts \<open>x{0}\<close> and the printer writes it as it is, but
  Flex reads no pattern from that text. The parts of the text are listed, and only its two characters
  are patterns.
\<close>

definition zero_parts :: "str set" where
  "zero_parts = {[], [120], [123], [48], [125], [120, 123], [123, 48], [48, 125], [120, 123, 48], [123, 48, 125], [120, 123, 48, 125]}"

lemma zero_parts_split: "s @ t \<in> zero_parts \<Longrightarrow> s \<in> zero_parts \<and> t \<in> zero_parts"
  by (auto simp: zero_parts_def append_eq_Cons_conv)

lemma flex_char_start: "flex_char in_class s b \<Longrightarrow> hd s = 92 \<or> (\<exists>c. s = [c] \<and> (in_class \<or> c \<notin> {123, 125}))"
  by (induction rule: flex_char.induct) auto

lemma zero_parts_hd: "s \<in> zero_parts \<Longrightarrow> s \<noteq> [] \<Longrightarrow> hd s \<in> {120, 123, 48, 125}"
  by (auto simp: zero_parts_def)

lemma zero_parts_token:
  assumes "flex_tokens \<delta> level s A" and "s \<in> zero_parts"
  shows "s \<in> {[120], [48]}"
  using assms(1)
proof cases
  case (flex_single b)
  then have nonempty: "s \<noteq> []" by (auto elim: flex_char.cases)
  then have "hd s \<noteq> 92" using zero_parts_hd [OF assms(2)] by auto
  then obtain c where "s = [c]" "c \<notin> {123, 125}" using flex_char_start flex_single by blast
  then show ?thesis using assms(2) by (auto simp: zero_parts_def)
next
  case (flex_name name)
  then have "name = [48]" using assms(2) by (auto simp: zero_parts_def append_eq_Cons_conv)
  then show ?thesis using flex_name by (simp add: flex_identifier_def char_class_defs)
qed (use zero_parts_hd [OF assms(2)] in auto)

lemma zero_parts_read: "flex_reads \<delta> level s A \<Longrightarrow> s \<in> zero_parts \<Longrightarrow> s \<in> {[120], [48]}"
proof (induction rule: pattern_reads.induct)
  case (reads_token level s A)
  then show ?case by (rule zero_parts_token)
next
  case (reads_exactly s A n)
  then have "s \<in> zero_parts" using zero_parts_split by blast
  then have "s \<in> {[120], [48]}" by (rule reads_exactly.IH)
  moreover have "decimal n \<noteq> [48]"
    using reads_exactly.hyps(2) digits_number_decimal [of n] by (auto simp: flex_counts_def digits_number_def)
  ultimately show ?case using reads_exactly.prems by (auto simp: zero_parts_def append_eq_Cons_conv)
next
  case (reads_at_least s A n)
  then have "s \<in> zero_parts" using zero_parts_split by blast
  then have "s \<in> {[120], [48]}" by (rule reads_at_least.IH)
  then show ?case using reads_at_least by (auto simp: zero_parts_def append_eq_Cons_conv)
next
  case (reads_range s A n k)
  then have "s \<in> zero_parts" using zero_parts_split by blast
  then have "s \<in> {[120], [48]}" by (rule reads_range.IH)
  then show ?case using reads_range by (auto simp: zero_parts_def append_eq_Cons_conv)
next
  case (reads_juxtaposed s A t B)
  then have "s \<in> {[120], [48]}" "t \<in> {[120], [48]}" using zero_parts_split by blast+
  then show ?case using reads_juxtaposed.prems by (auto simp: zero_parts_def)
qed (auto simp: zero_parts_def append_eq_Cons_conv)

lemma zero_count_printed:
  "check_regex (new_regex (RExactly (RChar 120) 0)) = [] \<and> body_to_flex_string (RExactly (RChar 120) 0) = Some (lit ''x{0}'')
   \<and> \<not> flex_reads \<delta> level (lit ''x{0}'') A"
proof -
  have "check_regex (new_regex (RExactly (RChar 120) 0)) = []"
    by (simp add: check_regex_preorder new_regex_def body_issues_def)
  moreover have "body_to_flex_string (RExactly (RChar 120) 0) = Some (lit ''x{0}'')" by code_simp
  moreover have "\<not> flex_reads \<delta> level (lit ''x{0}'') A"
    using zero_parts_read [of \<delta> level "lit ''x{0}''" A] by (auto simp: zero_parts_def)
  ultimately show ?thesis by blast
qed

text \<open>No printer panics, whatever the body.\<close>

lemma those_eq_None_iff: "those (map f xs) = None \<longleftrightarrow> (\<exists>x \<in> set xs. f x = None)"
  by (induction xs) (auto split: option.splits)

lemma print_flex_utf8_set_defined: "print_flex_utf8_set rs \<noteq> None"
  using wide_sequences_correct [of rs "[]"] by (auto simp: print_flex_utf8_set_def)

lemma print_flex_defined:
  "print_flex_union k b \<noteq> None" "print_flex_concat k b \<noteq> None" "print_flex_repeat k b \<noteq> None"
  "print_flex_class k b \<noteq> None" "print_flex_simple k b \<noteq> None"
  by (induction k b and k b and k b and k b and k b
      rule: print_flex_union_print_flex_concat_print_flex_repeat_print_flex_class_print_flex_simple.induct)
    (simp_all add: bind_eq_None_conv those_eq_None_iff print_flex_class_utf8_def print_flex_utf8_set_defined
      del: not_None_eq, blast)

section \<open>What the printers promise\<close>

text \<open>C15: The printer of a body for Flex (\<open>RegexBody::to_flex_string\<close>) gives a pattern of the texts
  of the body: for a body of the form that the parser returns (\<open>wf_body\<close>) in which
  \<open>check\<close> finds no issue and whose repetitions have counts that Flex accepts (positive: \<open>check\<close>
  lets \<open>x{0}\<close> pass, which Flex refuses), it returns a text that Flex, by its documented syntax over
  bytes, reads as exactly the UTF-8 encodings of the texts the body denotes, when each mangled name is defined as
  the encodings of the texts of the name. So a class or \<open>.\<close> matches whole characters, and no byte
  string that encodes none.\<close>

theorem flex_prints_the_texts_of_a_body:
  assumes "wf_body b" and "check_regex (new_regex b) = []" and "\<forall>c \<in> set (preorder b). flex_repetition c"
    and "\<forall>name. valid_identifier name \<longrightarrow> \<delta> (mangle_flex_identifier name) = str_bytes ` \<sigma> name"
  shows "\<exists>s. body_to_flex_string b = Some s
    \<and> pattern_reads (lit ''('') flex_counts (flex_tokens \<delta>) Alternation s (str_bytes ` body_lang \<sigma> b)"
proof -
  have "concat (map body_issues (preorder b)) = []"
    using assms(2) by (simp add: check_regex_preorder new_regex_def)
  then show ?thesis
    using body_prints [OF assms(1) _ assms(3,4)]
    unfolding prints_levels_def prints_at_def body_to_flex_string_def by blast
qed

lemma flex_prints_the_texts_of_a_body_witness:
  "\<exists>s. body_to_flex_string (RConcat [RClass True [ClassChar 97, ClassRange 0x400 0x4FF], RRange (RNamed (lit ''#Id'')) 1 2]) = Some s
    \<and> pattern_reads (lit ''('') flex_counts (flex_tokens (\<lambda>_. {str_bytes (lit ''x'')})) Alternation s
        (str_bytes ` body_lang (\<lambda>_. {lit ''x''}) (RConcat [RClass True [ClassChar 97, ClassRange 0x400 0x4FF], RRange (RNamed (lit ''#Id'')) 1 2]))"
  by (rule flex_prints_the_texts_of_a_body)
    (simp_all add: is_scalar_def check_regex_def new_regex_def body_issues_def class_issue_def valid_identifier_def flex_counts_def char_class_defs)

text \<open>C18: The byte sequences that \<open>utf8_sequences\<close> appends for a range of scalar values end their
  recursion, cause no panic, and are exact: they come from ranges in increasing order, which
  together are the scalar values of the range without the surrogates, and each sequence stands for
  exactly the UTF-8 encodings of the values of its range.\<close>

theorem utf8_sequences_are_exact:
  "\<exists>parts. utf8_sequences lo hi seqs = Some (seqs @ map range_sequence parts)
     \<and> sorted_wrt (\<lambda>r q. snd r < fst q) parts
     \<and> (\<Union>r \<in> set parts. {fst r..snd r}) = {c \<in> {lo..hi}. is_scalar c}
     \<and> list_all (\<lambda>r. sequence_bytes (range_sequence r) = encode_utf8 ` {fst r..snd r}) parts"
proof -
  obtain parts where "utf8_sequences lo hi seqs = Some (seqs @ map range_sequence parts)"
      "ascending parts" "list_all exact parts" "ranges_set parts = {c \<in> {lo..hi}. is_scalar c}"
    using utf8_sequences_correct by metis
  then show ?thesis
    by (intro exI [of _ parts]) (auto simp: ascending_def exact_def list_all_iff ranges_set_def case_prod_unfold)
qed

text \<open>The Flex printers return a text for every regular expression and body: none of the
  \<open>expect\<close>s and none of the recursions they rely on fails.\<close>

theorem flex_printers_return:
  "to_flex_string r \<noteq> None \<and> to_flex_name r \<noteq> None \<and> body_to_flex_string b \<noteq> None"
  using print_flex_defined(1)
  by (auto simp: to_flex_string_def to_flex_name_def print_flex_regex_def body_to_flex_string_def)

end
