(* ===== verification/Regex_Rust.thy ===== *)
theory Regex_Rust
  imports Regex_Language
begin

text \<open>
  The printer for Rust's \<open>regex\<close> crate (\<open>to_rust_string\<close> and \<open>to_flex_pattern\<close> of
  \<open>k-rust-regex/src/lib.rs\<close>). It fails on a name, which only a definition can expand; a result None
  is a panic.

  \<open>rust_tokens\<close> states how the crate documents the tokens the printer writes. The lemmas: what is
  printed for a body denotes the texts of the body, over characters.
\<close>

section \<open>Printing\<close>

datatype unexpanded_lexical = UnexpandedLexical str

type_synonym rust_text = "(unexpanded_lexical + str) option"

text \<open>\<open>?\<close> on a printed part, then a function of it.\<close>

definition printed_then :: "rust_text \<Rightarrow> (str \<Rightarrow> rust_text) \<Rightarrow> rust_text" where
  "printed_then r f = (case r of None \<Rightarrow> None | Some (Inl e) \<Rightarrow> Some (Inl e) | Some (Inr s) \<Rightarrow> f s)"

lemma printed_then_simps [simp]:
  "printed_then None f = None" "printed_then (Some (Inl e)) f = Some (Inl e)" "printed_then (Some (Inr s)) f = f s"
  by (simp_all add: printed_then_def)

lemma printed_then_cong [fundef_cong]:
  "r = r' \<Longrightarrow> (\<And>s. r' = Some (Inr s) \<Longrightarrow> f s = g s) \<Longrightarrow> printed_then r f = printed_then r' g"
  by (auto simp: printed_then_def split: option.splits sum.splits)

definition rust_reserved :: "bool \<Rightarrow> uchar set" where
  "rust_reserved in_class =
     (if in_class then set (lit ''[]^-&~'' @ [92]) else set (lit ''.+*?()|[]{}^$#&-~'' @ [92]))"

definition print_rust_character :: "uchar \<Rightarrow> bool \<Rightarrow> str" where
  "print_rust_character c in_class =
     (if c = 10 then [92, ch CHR ''n'']
      else if c = 13 then [92, ch CHR ''r'']
      else if c = 9 then [92, ch CHR ''t'']
      else if is_control c then [92] @ lit ''x{'' @ hex_upper c @ lit ''}''
      else (if c \<in> rust_reserved in_class then [92] else []) @ [c])"

fun print_rust_class_member :: "char_class \<Rightarrow> str" where
  "print_rust_class_member (ClassChar c) = print_rust_character c True"
| "print_rust_class_member (ClassRange lo hi) = print_rust_character lo True @ lit ''-'' @ print_rust_character hi True"

text \<open>The ranges of a negated class without the surrogates; their bounds become characters.\<close>

definition without_surrogates :: "ranges \<Rightarrow> ranges" where
  "without_surrogates rs =
     concat (map (\<lambda>(lo, hi). filter (\<lambda>(lo, hi). lo \<le> hi)
       [(lo, min hi (fst SURROGATES - 1)), (max lo (snd SURROGATES + 1), hi)]) rs)"

definition rust_class_ranges :: "char_class list \<Rightarrow> ranges" where
  "rust_class_ranges members = without_surrogates (class_scalar_ranges True members)"

definition scalar_ends :: "nat \<times> nat \<Rightarrow> bool" where
  "scalar_ends r \<longleftrightarrow> is_scalar (fst r) \<and> is_scalar (snd r)"

fun print_rust_range :: "nat \<times> nat \<Rightarrow> str" where
  "print_rust_range (lo, hi) =
     print_rust_character lo True @ (if hi > lo then lit ''-'' @ print_rust_character hi True else [])"

definition no_character :: str where
  "no_character = lit ''[^'' @ [92] @ lit ''x{0}-'' @ [92] @ lit ''x{10FFFF}]''"

definition print_rust_negated_class :: "char_class list \<Rightarrow> str option" where
  "print_rust_negated_class members =
     (let characters = rust_class_ranges members in
      if \<not> list_all scalar_ends characters then None
      else if characters = [] then Some no_character
      else Some (lit ''['' @ concat (map print_rust_range characters) @ lit '']''))"

function print_rust_regex :: "regex_body \<Rightarrow> rust_text"
  and print_rust_members :: "regex_body list \<Rightarrow> rust_text"
  and print_rust_repeated :: "regex_body \<Rightarrow> str \<Rightarrow> rust_text" where
  "print_rust_regex (RChar c) = Some (Inr (print_rust_character c False))"
| "print_rust_regex RAnyChar = Some (Inr (lit ''.''))"
| "print_rust_regex (RNamed name) = Some (Inl (UnexpandedLexical name))"
| "print_rust_regex (RClass negated members) =
     (if negated then map_option Inr (print_rust_negated_class members)
      else Some (Inr (lit ''['' @ concat (map print_rust_class_member members) @ lit '']'')))"
| "print_rust_regex (RUnion l r) =
     printed_then (print_rust_regex l) (\<lambda>s.
     printed_then (print_rust_regex r) (\<lambda>t. Some (Inr (lit ''(?:'' @ s @ lit ''|'' @ t @ lit '')''))))"
| "print_rust_regex (RConcat members) = print_rust_members members"
| "print_rust_regex (RZeroOrMore b) = print_rust_repeated b (lit ''*'')"
| "print_rust_regex (RZeroOrOne b) = print_rust_repeated b (lit ''?'')"
| "print_rust_regex (ROneOrMore b) = print_rust_repeated b (lit ''+'')"
| "print_rust_regex (RExactly b n) = print_rust_repeated b (lit ''{'' @ decimal n @ lit ''}'')"
| "print_rust_regex (RAtLeast b n) = print_rust_repeated b (lit ''{'' @ decimal n @ lit '',}'')"
| "print_rust_regex (RRange b n k) = print_rust_repeated b (lit ''{'' @ decimal n @ lit '','' @ decimal k @ lit ''}'')"
| "print_rust_members [] = Some (Inr [])"
| "print_rust_members (m # ms) =
     printed_then (print_rust_regex m) (\<lambda>s. printed_then (print_rust_members ms) (\<lambda>t. Some (Inr (s @ t))))"
| "print_rust_repeated b suffix =
     printed_then (print_rust_regex b) (\<lambda>s. Some (Inr (lit ''(?:'' @ s @ lit '')'' @ suffix)))"
  by pat_completeness auto
termination
  by (relation "measure (case_sum (\<lambda>b. 2 * size b) (case_sum (\<lambda>ms. 2 * size_list size ms + 1) (\<lambda>(b, _). 2 * size b + 1)))") auto

definition to_rust_string :: "regex_body \<Rightarrow> rust_text" where
  "to_rust_string b = print_rust_regex b"

record flex_pattern =
  fp_body :: str
  fp_start_line :: bool
  fp_end_line :: bool

definition to_flex_pattern :: "regex \<Rightarrow> (unexpanded_lexical + flex_pattern) option" where
  "to_flex_pattern r = map_option (map_sum id (\<lambda>s.
     \<lparr>fp_body = s, fp_start_line = rx_start_line r, fp_end_line = rx_end_line r\<rparr>)) (to_rust_string (rx_body r))"

section \<open>How the engine reads the tokens\<close>

text \<open>
  One character of a pattern: itself where it is no operator, a backslash before a punctuation
  character that may be escaped, the escapes of C, and a hexadecimal number in braces.
\<close>

inductive rust_char :: "bool \<Rightarrow> str \<Rightarrow> uchar \<Rightarrow> bool" where
  "c \<notin> set (lit ''[]^-&~'' @ [92]) \<Longrightarrow> rust_char True [c] c"
| "c \<notin> set (lit ''.+*?()|[]{}^$'' @ [92]) \<Longrightarrow> rust_char False [c] c"
| "c \<in> set (lit ''.+*?()|[]{}^$#&-~'' @ [92]) \<Longrightarrow> rust_char in_class [92, c] c"
| "rust_char in_class [92, ch CHR ''n''] 10"
| "rust_char in_class [92, ch CHR ''r''] 13"
| "rust_char in_class [92, ch CHR ''t''] 9"
| "is_scalar c \<Longrightarrow> rust_char in_class ([92] @ lit ''x{'' @ hex_upper c @ lit ''}'') c"

text \<open>The members of a class; a range must not descend, and covers no surrogate.\<close>

inductive rust_members :: "str \<Rightarrow> uchar set \<Rightarrow> bool" where
  rust_members_nil: "rust_members [] {}"
| rust_members_char: "rust_char True s c \<Longrightarrow> rust_members t C \<Longrightarrow> rust_members (s @ t) ({c} \<union> C)"
| rust_members_range: "rust_char True s lo \<Longrightarrow> rust_char True t hi \<Longrightarrow> lo \<le> hi \<Longrightarrow> rust_members u C \<Longrightarrow>
    rust_members (s @ lit ''-'' @ t @ u) ({c \<in> {lo..hi}. is_scalar c} \<union> C)"

text \<open>
  The tokens. Of negation only the class that names every character is documented well enough to
  rely on: the printer's comment says that the engine's own negation is not exact.
\<close>

inductive rust_tokens :: "pattern_level \<Rightarrow> str \<Rightarrow> uchar lang \<Rightarrow> bool" where
  rust_single: "rust_char False s c \<Longrightarrow> rust_tokens Atom s {[c]}"
| rust_set: "rust_members s C \<Longrightarrow> s \<noteq> [] \<Longrightarrow> rust_tokens Atom (lit ''['' @ s @ lit '']'') (singletons C)"
| rust_none: "rust_members s C \<Longrightarrow> {c. is_scalar c} \<subseteq> C \<Longrightarrow> rust_tokens Atom (lit ''[^'' @ s @ lit '']'') {}"
| rust_dot: "rust_tokens Atom (lit ''.'') (singletons dot_chars)"

abbreviation rust_reads :: "pattern_level \<Rightarrow> str \<Rightarrow> uchar lang \<Rightarrow> bool" where
  "rust_reads \<equiv> pattern_reads (lit ''(?:'') UNIV rust_tokens"

section \<open>Characters and classes\<close>

lemma rust_token: "rust_tokens level s A \<Longrightarrow> pattern_reads brk counts rust_tokens level s A"
  by (rule reads_token)

lemma rust_char_printed:
  assumes "is_scalar c"
  shows "rust_char in_class (print_rust_character c in_class) c"
proof -
  consider "c = 10" | "c = 13" | "c = 9" | "c \<notin> {9, 10, 13}" "is_control c"
    | "c \<notin> {9, 10, 13}" "\<not> is_control c" "c \<in> rust_reserved in_class"
    | "c \<notin> {9, 10, 13}" "\<not> is_control c" "c \<notin> rust_reserved in_class" by blast
  then show ?thesis
  proof cases
    case 5
    then have "c \<in> set (lit ''.+*?()|[]{}^$#&-~'' @ [92])" by (auto simp: rust_reserved_def split: if_splits)
    then have "rust_char in_class [92, c] c" by (rule rust_char.intros)
    then show ?thesis using 5 by (simp add: print_rust_character_def)
  next
    case 6
    then show ?thesis
      by (cases in_class) (auto simp: print_rust_character_def rust_reserved_def intro!: rust_char.intros)
  next
    case 4
    then show ?thesis using rust_char.intros(7) [OF assms, of in_class] by (simp add: print_rust_character_def)
  qed (use rust_char.intros(4-6) [of in_class] in \<open>simp_all add: print_rust_character_def\<close>)
qed

lemma print_rust_character_nonempty [simp]: "print_rust_character c in_class \<noteq> []"
  by (simp add: print_rust_character_def)

lemma rust_members_printed:
  assumes "list_all valid_member members" and "concat (map class_issue members) = []"
  shows "rust_members (concat (map print_rust_class_member members)) (class_chars False members)"
  using assms
proof (induction members)
  case (Cons m members)
  then have IH: "rust_members (concat (map print_rust_class_member members)) (class_chars False members)" by simp
  have split: "class_chars False (m # members) = {c. is_scalar c \<and> in_member c m} \<union> class_chars False members"
    by (auto simp: class_chars_def)
  show ?case
  proof (cases m)
    case (ClassChar c)
    then have "{c. is_scalar c \<and> in_member c m} = {c}" using Cons.prems(1) by auto
    then show ?thesis
      using rust_members_char [OF rust_char_printed IH, of c] Cons.prems(1) unfolding split by (simp add: ClassChar)
  next
    case (ClassRange lo hi)
    then have r: "is_scalar lo" "is_scalar hi" "lo \<le> hi"
      using Cons.prems by (auto simp: class_issue_def split: if_splits)
    have "{c. is_scalar c \<and> in_member c m} = {c \<in> {lo..hi}. is_scalar c}" by (auto simp: ClassRange)
    then show ?thesis
      using rust_members_range [OF rust_char_printed rust_char_printed r(3) IH] r unfolding split
      by (simp add: ClassRange)
  qed
qed (simp add: class_chars_def rust_members_nil)

lemma rust_members_ranges:
  assumes "list_all scalar_ends rs" and "\<forall>(lo, hi) \<in> set rs. lo \<le> hi"
  shows "rust_members (concat (map print_rust_range rs)) {c \<in> ranges_set rs. is_scalar c}"
  using assms
proof (induction rs)
  case (Cons r rs)
  obtain lo hi where r: "r = (lo, hi)" by fastforce
  have IH: "rust_members (concat (map print_rust_range rs)) {c \<in> ranges_set rs. is_scalar c}"
    and ends: "is_scalar lo" "is_scalar hi" "lo \<le> hi"
    using Cons by (simp_all add: r scalar_ends_def)
  have split: "{c \<in> ranges_set (r # rs). is_scalar c} = {c \<in> {lo..hi}. is_scalar c} \<union> {c \<in> ranges_set rs. is_scalar c}"
    by (auto simp: r)
  show ?case
  proof (cases "lo < hi")
    case True
    then show ?thesis
      using rust_members_range [OF rust_char_printed [OF ends(1)] rust_char_printed [OF ends(2)] ends(3) IH]
      unfolding split by (simp add: r)
  next
    case False
    then have "{c \<in> {lo..hi}. is_scalar c} = {lo}" using ends by auto
    then show ?thesis
      using rust_members_char [OF rust_char_printed [OF ends(1)] IH] False unfolding split by (simp add: r)
  qed
qed (simp add: rust_members_nil)

text \<open>The ranges of a negated class: bounds that are characters, and the characters of the class.\<close>

lemma without_surrogates_scalars:
  "{c \<in> ranges_set (without_surrogates rs). is_scalar c} = {c \<in> ranges_set rs. is_scalar c}"
proof (induction rs)
  case (Cons r rs)
  obtain lo hi where r: "r = (lo, hi)" by fastforce
  have "{c \<in> ranges_set (without_surrogates [(lo, hi)]). is_scalar c} = {c \<in> {lo..hi}. is_scalar c}"
    by (auto simp: without_surrogates_def SURROGATES_def is_scalar_def)
  moreover have "without_surrogates ((lo, hi) # rs) = without_surrogates [(lo, hi)] @ without_surrogates rs"
    by (simp add: without_surrogates_def)
  ultimately show ?case using Cons.IH by (auto simp: r)
qed (simp add: without_surrogates_def)

lemma rust_class_ranges_facts:
  assumes "list_all valid_member members"
  shows "\<forall>(lo, hi) \<in> set (rust_class_ranges members). lo \<le> hi" and "list_all scalar_ends (rust_class_ranges members)"
    and "{c \<in> ranges_set (rust_class_ranges members). is_scalar c} = class_chars True members"
proof -
  let ?rs = "class_scalar_ranges True members"
  show ordered: "\<forall>(lo, hi) \<in> set (rust_class_ranges members). lo \<le> hi"
    by (auto simp: rust_class_ranges_def without_surrogates_def)
  have "hi \<le> MAX_SCALAR" if "(lo, hi) \<in> set ?rs" "lo \<le> hi" for lo hi
  proof -
    have "hi \<in> ranges_set ?rs" using that by (force simp: ranges_set_def)
    then show ?thesis using class_ranges(2) [OF assms] by auto
  qed
  then show "list_all scalar_ends (rust_class_ranges members)"
    by (fastforce simp: rust_class_ranges_def without_surrogates_def list_all_iff scalar_ends_def SURROGATES_def is_scalar_def MAX_SCALAR_def
        split: if_splits)
  show "{c \<in> ranges_set (rust_class_ranges members). is_scalar c} = class_chars True members"
    using class_ranges(1) [OF assms] by (simp add: rust_class_ranges_def without_surrogates_scalars)
qed


section \<open>Bodies\<close>

text \<open>The names of a body in preorder; the printer fails on the first.\<close>

definition names_of :: "regex_body \<Rightarrow> str list" where
  "names_of b = List.map_filter (\<lambda>b. case b of RNamed name \<Rightarrow> Some name | _ \<Rightarrow> None) (preorder b)"

lemma map_filter_append: "List.map_filter f (xs @ ys) = List.map_filter f xs @ List.map_filter f ys"
  by (simp add: List.map_filter_def)

lemma map_filter_concat: "List.map_filter f (concat xss) = concat (map (List.map_filter f) xss)"
  by (induction xss) (simp_all add: map_filter_append map_filter_simps)

lemma names_of_simps [simp]:
  "names_of (RChar c) = []" "names_of RAnyChar = []" "names_of (RNamed name) = [name]"
  "names_of (RClass negated members) = []" "names_of (RUnion l r) = names_of l @ names_of r"
  "names_of (RConcat ms) = concat (map names_of ms)"
  "names_of (RZeroOrMore b) = names_of b" "names_of (RZeroOrOne b) = names_of b" "names_of (ROneOrMore b) = names_of b"
  "names_of (RExactly b n) = names_of b" "names_of (RAtLeast b n) = names_of b" "names_of (RRange b n k) = names_of b"
  by (simp_all add: names_of_def [abs_def] map_filter_simps map_filter_append map_filter_concat comp_def)

text \<open>What a printed part is, given the names in it and the texts it denotes.\<close>

definition prints_rust :: "rust_text \<Rightarrow> str list \<Rightarrow> str set \<Rightarrow> bool" where
  "prints_rust r names A \<longleftrightarrow> (case names of
     [] \<Rightarrow> \<exists>s. r = Some (Inr s) \<and> rust_reads Juxtaposition s A
   | name # _ \<Rightarrow> r = Some (Inl (UnexpandedLexical name)))"

lemma prints_rust_then:
  assumes "prints_rust r names A" and "\<And>s. rust_reads Juxtaposition s A \<Longrightarrow> prints_rust (f s) names' B"
  shows "prints_rust (printed_then r f) (names @ names') B"
proof (cases names)
  case Nil
  then obtain s where "r = Some (Inr s)" "rust_reads Juxtaposition s A" using assms(1) by (auto simp: prints_rust_def)
  then show ?thesis using assms(2) by (simp add: Nil)
next
  case (Cons name rest)
  then show ?thesis using assms(1) by (simp add: prints_rust_def)
qed

lemma prints_rust_text: "rust_reads Juxtaposition s A \<Longrightarrow> prints_rust (Some (Inr s)) [] A"
  by (simp add: prints_rust_def)

lemma prints_rust_atom: "rust_tokens Atom s A \<Longrightarrow> prints_rust (Some (Inr s)) [] A"
  by (intro prints_rust_text reads_juxtaposition_of_atom rust_token)

lemma prints_rust_repetition:
  assumes "prints_rust (print_rust_regex b) names A"
    and "\<And>s. rust_reads Atom s A \<Longrightarrow> rust_reads Repetition (s @ suffix) (repeats counts A)"
  shows "prints_rust (print_rust_repeated b suffix) names (repeats counts A)"
proof -
  have "prints_rust (Some (Inr (lit ''(?:'' @ s @ lit '')'' @ suffix))) [] (repeats counts A)"
    if "rust_reads Juxtaposition s A" for s
    using assms(2) [OF reads_group [OF reads_branch [OF that]]] by (intro prints_rust_text reads_single) simp
  then show ?thesis using prints_rust_then [OF assms(1), where names' = "[]"] by simp
qed

lemma prints_rust_members:
  assumes "\<And>m. m \<in> set ms \<Longrightarrow> prints_rust (print_rust_regex m) (names_of m) (A m)" and "ms \<noteq> []"
  shows "prints_rust (print_rust_members ms) (concat (map names_of ms)) (conc_all (map A ms))"
  using assms
proof (induction ms)
  case (Cons m ms)
  have m: "prints_rust (print_rust_regex m) (names_of m) (A m)" using Cons.prems(1) by simp
  show ?case
  proof (cases "ms = []")
    case True
    have "prints_rust (printed_then (print_rust_regex m) (\<lambda>s. Some (Inr s))) (names_of m @ []) (A m)"
      by (rule prints_rust_then [OF m prints_rust_text])
    then show ?thesis by (simp add: True)
  next
    case False
    have ms: "prints_rust (print_rust_members ms) (concat (map names_of ms)) (conc_all (map A ms))"
      using Cons False by simp
    have "prints_rust (printed_then (print_rust_members ms) (\<lambda>t. Some (Inr (s @ t)))) (concat (map names_of ms) @ []) (conc (A m) (conc_all (map A ms)))"
      if "rust_reads Juxtaposition s (A m)" for s
      by (rule prints_rust_then [OF ms]) (intro prints_rust_text reads_juxtaposed that)
    then show ?thesis using prints_rust_then [OF m] by simp
  qed
qed simp


lemma rust_reads_no_character: "rust_tokens Atom no_character {}"
proof -
  have "hex_upper 0 = lit ''0''" "hex_upper 0x10FFFF = lit ''10FFFF''"
    by (simp_all add: hex_upper.simps upper_digit_def)
  then have "rust_char True ([92] @ lit ''x{0}'') 0" "rust_char True ([92] @ lit ''x{10FFFF}'') 0x10FFFF"
    using rust_char.intros(7) [where c = 0 and in_class = True] rust_char.intros(7) [where c = "0x10FFFF" and in_class = True] by (simp_all add: is_scalar_def)
  then have "rust_members (([92] @ lit ''x{0}'') @ lit ''-'' @ ([92] @ lit ''x{10FFFF}'') @ []) ({c \<in> {0..0x10FFFF}. is_scalar c} \<union> {})"
    by (intro rust_members_range rust_members_nil) simp_all
  moreover have "{c. is_scalar c} \<subseteq> {c \<in> {0..0x10FFFF}. is_scalar c} \<union> {}" by (auto simp: is_scalar_def)
  ultimately have "rust_tokens Atom (lit ''[^'' @ (([92] @ lit ''x{0}'') @ lit ''-'' @ ([92] @ lit ''x{10FFFF}'') @ []) @ lit '']'') {}"
    by (rule rust_none)
  then show ?thesis by (simp add: no_character_def)
qed

lemma prints_rust_negated:
  assumes "list_all valid_member members"
  shows "prints_rust (map_option Inr (print_rust_negated_class members)) [] (singletons (class_chars True members))"
proof -
  note facts = rust_class_ranges_facts [OF assms]
  show ?thesis
  proof (cases "rust_class_ranges members = []")
    case True
    then have "singletons (class_chars True members) = {}" using facts(3) by (simp add: singletons_def)
    then show ?thesis
      using True prints_rust_atom [OF rust_reads_no_character] by (simp add: print_rust_negated_class_def)
  next
    case False
    then have "concat (map print_rust_range (rust_class_ranges members)) \<noteq> []"
      by (cases "rust_class_ranges members") auto
    then show ?thesis
      using prints_rust_atom [OF rust_set [OF rust_members_ranges [OF facts(2,1)]]] False facts(2,3)
      by (simp add: print_rust_negated_class_def)
  qed
qed

lemma body_prints_rust:
  assumes "wf_body b" and "concat (map body_issues (preorder b)) = []"
  shows "prints_rust (print_rust_regex b) (names_of b) (body_lang \<sigma> b)"
  using assms(1,2)
proof (induction b)
  case (RChar c)
  then show ?case using rust_single [OF rust_char_printed, of c] by (simp add: prints_rust_atom)
next
  case RAnyChar
  show ?case using rust_dot by (simp add: prints_rust_atom)
next
  case (RNamed name)
  show ?case by (simp add: prints_rust_def)
next
  case (RClass negated members)
  then have m: "list_all valid_member members" "concat (map class_issue members) = []" "members \<noteq> []"
    by (simp_all add: body_issues_def)
  then have "concat (map print_rust_class_member members) \<noteq> []"
    by (cases members; cases "hd members") auto
  then show ?case
    using prints_rust_negated [OF m(1)] prints_rust_atom [OF rust_set [OF rust_members_printed [OF m(1,2)]]]
    by (cases negated) simp_all
next
  case (RUnion l r)
  then have parts: "prints_rust (print_rust_regex l) (names_of l) (body_lang \<sigma> l)"
      "prints_rust (print_rust_regex r) (names_of r) (body_lang \<sigma> r)" by simp_all
  have "prints_rust (Some (Inr (lit ''(?:'' @ (s @ lit ''|'' @ t) @ lit '')''))) [] (body_lang \<sigma> l \<union> body_lang \<sigma> r)"
    if "rust_reads Juxtaposition s (body_lang \<sigma> l)" "rust_reads Juxtaposition t (body_lang \<sigma> r)" for s t
    by (intro prints_rust_text reads_juxtaposition_of_atom reads_group reads_alternatives reads_branch that)
  then have "prints_rust (printed_then (print_rust_regex r) (\<lambda>t. Some (Inr (lit ''(?:'' @ s @ lit ''|'' @ t @ lit '')''))))
      (names_of r @ []) (body_lang \<sigma> l \<union> body_lang \<sigma> r)" if "rust_reads Juxtaposition s (body_lang \<sigma> l)" for s
    using that by (intro prints_rust_then [OF parts(2)]) simp
  then show ?case using prints_rust_then [OF parts(1)] by simp
next
  case (RConcat ms)
  then show ?case
    using prints_rust_members [of ms "body_lang \<sigma>"] by fastforce
next
  case (RZeroOrMore b)
  then show ?case 
    unfolding print_rust_regex.simps body_lang.simps names_of_simps
    by (intro prints_rust_repetition [OF _ reads_star]) simp_all
next
  case (RZeroOrOne b)
  then show ?case 
    unfolding print_rust_regex.simps body_lang.simps names_of_simps
    by (intro prints_rust_repetition [OF _ reads_option]) simp_all
next
  case (ROneOrMore b)
  then show ?case 
    unfolding print_rust_regex.simps body_lang.simps names_of_simps
    by (intro prints_rust_repetition [OF _ reads_plus]) simp_all
next
  case (RExactly b n)
  then show ?case 
    unfolding print_rust_regex.simps body_lang.simps names_of_simps
    by (intro prints_rust_repetition [OF _ reads_exactly [OF _ UNIV_I]]) simp_all
next
  case (RAtLeast b n)
  then show ?case 
    unfolding print_rust_regex.simps body_lang.simps names_of_simps
    by (intro prints_rust_repetition [OF _ reads_at_least [OF _ UNIV_I]]) simp_all
next
  case (RRange b n k)
  then have "n \<le> k" by (simp add: body_issues_def split: if_splits)
  then show ?case
    using RRange unfolding print_rust_regex.simps body_lang.simps names_of_simps
    by (intro prints_rust_repetition [OF _ reads_range [OF _ _ UNIV_I]]) simp_all
qed


section \<open>What the printer promises\<close>

text \<open>The names that \<open>named_references\<close> reports begin with the first in preorder.\<close>

lemma named_references_first:
  "(case named_references b of [] \<Rightarrow> None | name # _ \<Rightarrow> Some name) = (case names_of b of [] \<Rightarrow> None | name # _ \<Rightarrow> Some name)"
proof -
  let ?f = "\<lambda>b names. case b of RNamed name \<Rightarrow> if name \<in> set names then names else names @ [name] | _ \<Rightarrow> names"
  let ?n = "List.map_filter (\<lambda>b. case b of RNamed name \<Rightarrow> Some name | _ \<Rightarrow> None)"
  have started: "\<exists>rest. fold ?f bs (name # names) = name # rest" for bs name names
    by (induction bs arbitrary: names) (auto split: regex_body.split)
  have "(case fold ?f bs [] of [] \<Rightarrow> None | name # _ \<Rightarrow> Some name) = (case ?n bs of [] \<Rightarrow> None | name # _ \<Rightarrow> Some name)" for bs
  proof (induction bs)
    case (Cons b bs)
    show ?case
    proof (cases "\<exists>name. b = RNamed name")
      case True
      then obtain name where "b = RNamed name" by blast
      then show ?thesis using started [of bs name "[]"] by (auto simp: map_filter_simps)
    next
      case False
      then show ?thesis using Cons by (cases b) (simp_all add: map_filter_simps)
    qed
  qed (simp add: map_filter_simps)
  then show ?thesis by (simp add: named_references_def names_of_def visit_preorder_fold)
qed

text \<open>C16: On a body of the form that the parser returns (\<open>wf_body\<close>) in which \<open>check\<close> finds no issue,
  the printer for Rust's \<open>regex\<close> crate (\<open>RegexBody::to_rust_string\<close>) fails exactly when the body has a
  name, with the first one in preorder as its error. For any other such body it returns a text, without
  a panic, that the crate by its documented syntax reads as exactly the texts the body
  denotes. In particular a negated class, printed as the class of its complement, denotes the
  characters that its members leave.\<close>

theorem rust_prints_the_texts_of_a_body:
  assumes "wf_body b" and "check_regex (new_regex b) = []"
  shows "case named_references b of
      [] \<Rightarrow> \<exists>s. to_rust_string b = Some (Inr s) \<and> pattern_reads (lit ''(?:'') UNIV rust_tokens Juxtaposition s (body_lang \<sigma> b)
    | name # _ \<Rightarrow> to_rust_string b = Some (Inl (UnexpandedLexical name))"
proof -
  have "concat (map body_issues (preorder b)) = []"
    using assms(2) by (simp add: check_regex_preorder new_regex_def)
  then have "prints_rust (to_rust_string b) (names_of b) (body_lang \<sigma> b)"
    unfolding to_rust_string_def by (rule body_prints_rust [OF assms(1)])
  then show ?thesis
    using named_references_first [of b] by (simp add: prints_rust_def split: list.splits)
qed

lemma rust_prints_the_texts_of_a_body_witness:
  "case named_references (RConcat [RClass True [ClassChar 0xD7FF, ClassChar 0xE000], ROneOrMore (RChar 10)]) of
      [] \<Rightarrow> \<exists>s. to_rust_string (RConcat [RClass True [ClassChar 0xD7FF, ClassChar 0xE000], ROneOrMore (RChar 10)]) = Some (Inr s)
        \<and> pattern_reads (lit ''(?:'') UNIV rust_tokens Juxtaposition s
            (body_lang (\<lambda>_. {}) (RConcat [RClass True [ClassChar 0xD7FF, ClassChar 0xE000], ROneOrMore (RChar 10)]))
    | name # _ \<Rightarrow> to_rust_string (RConcat [RClass True [ClassChar 0xD7FF, ClassChar 0xE000], ROneOrMore (RChar 10)])
        = Some (Inl (UnexpandedLexical name))"
  by (rule rust_prints_the_texts_of_a_body)
    (simp_all add: is_scalar_def check_regex_def new_regex_def body_issues_def class_issue_def)

end
