(* ===== verification/Domain_Kind.thy ===== *)
theory Domain_Kind
  imports Kore_Ast Rust_Number
begin

text \<open>
  The kinds of domain values (\<open>k-rust-domain/src/kind.rs\<close>). A sort is seen through the trait
  \<open>DomainSort\<close>: a variable, or an application of a name to sorts; the model takes KORE's sorts for it.
\<close>

definition INT_SORT :: str where "INT_SORT = lit ''SortInt''"
definition BOOL_SORT :: str where "BOOL_SORT = lit ''SortBool''"
definition STRING_SORT :: str where "STRING_SORT = lit ''SortString''"
definition BYTES_SORT :: str where "BYTES_SORT = lit ''SortBytes''"
definition FLOAT_SORT :: str where "FLOAT_SORT = lit ''SortFloat''"
definition MINT_SORT :: str where "MINT_SORT = lit ''SortMInt''"

fun as_application :: "sort \<Rightarrow> (str \<times> sort list) option" where
  "as_application (SortApplication name arguments) = Some (name, arguments)"
| "as_application (SortVariable _) = None"

fun has_variable :: "sort \<Rightarrow> bool" where
  "has_variable (SortApplication _ arguments) = (\<exists>s \<in> set arguments. has_variable s)"
| "has_variable (SortVariable _) = True"

definition is_nullary :: "sort \<Rightarrow> str \<Rightarrow> bool" where
  "is_nullary s name = (as_application s = Some (name, []))"

text \<open>\<open>Bits\<close> holds a \<open>u64\<close>.\<close>

datatype mint_width = Bits nat | Unrepresentable | NoWidth

datatype domain_kind = KInt | KMInt mint_width | KBool | KString | KBytes | KFloat | KToken

definition strip_prefix :: "str \<Rightarrow> str \<Rightarrow> str option" where
  "strip_prefix p s = (if take (length p) s = p then Some (drop (length p) s) else None)"

definition numeral_sort_digits :: "sort \<Rightarrow> str option" where
  "numeral_sort_digits s =
     (case as_application s of
        None \<Rightarrow> None
      | Some (name, arguments) \<Rightarrow>
          (case strip_prefix (lit ''Sort'') name of
             None \<Rightarrow> None
           | Some digits \<Rightarrow>
               if arguments = [] \<and> digits \<noteq> [] \<and> list_all is_ascii_digit digits then Some digits else None))"

definition mint_width_digits :: "sort \<Rightarrow> str option" where
  "mint_width_digits s =
     (case as_application s of
        Some (name, [argument]) \<Rightarrow> if name = MINT_SORT then numeral_sort_digits argument else None
      | _ \<Rightarrow> None)"

definition mint_width_of :: "sort \<Rightarrow> mint_width option" where
  "mint_width_of s =
     (case as_application s of
        Some (name, [argument]) \<Rightarrow>
          if name \<noteq> MINT_SORT \<or> has_variable argument then None
          else
            Some (case numeral_sort_digits argument of
              None \<Rightarrow> NoWidth
            | Some digits \<Rightarrow> (case parse_u64 digits of None \<Rightarrow> Unrepresentable | Some bits \<Rightarrow> Bits bits))
      | _ \<Rightarrow> None)"

definition of_declared_sort :: "sort \<Rightarrow> bool \<Rightarrow> str option \<Rightarrow> domain_kind option" where
  "of_declared_sort s has_domain_values hook =
     (if \<not> has_domain_values then None
      else if is_nullary s INT_SORT then Some KInt
      else if is_nullary s BOOL_SORT then Some KBool
      else if hook = Some (lit ''INT.Int'') then Some KInt
      else if hook = Some (lit ''BOOL.Bool'') then Some KBool
      else if hook = Some (lit ''STRING.String'') then Some KString
      else if hook = Some (lit ''BYTES.Bytes'') then Some KBytes
      else if hook = Some (lit ''FLOAT.Float'') then Some KFloat
      else if hook = Some (lit ''MINT.MInt'') then
        (case mint_width_of s of None \<Rightarrow> None | Some NoWidth \<Rightarrow> None | Some width \<Rightarrow> Some (KMInt width))
      else Some KToken)"

fun identifies_texts :: "domain_kind \<Rightarrow> bool" where
  "identifies_texts KInt = True"
| "identifies_texts (KMInt _) = True"
| "identifies_texts KFloat = True"
| "identifies_texts KBool = False"
| "identifies_texts KString = False"
| "identifies_texts KBytes = False"
| "identifies_texts KToken = False"

definition named_kind :: "sort \<Rightarrow> domain_kind option" where
  "named_kind s =
     (case as_application s of
        None \<Rightarrow> None
      | Some (name, arguments) \<Rightarrow>
          if arguments \<noteq> [] then
            (case mint_width_of s of None \<Rightarrow> None | Some NoWidth \<Rightarrow> None | Some width \<Rightarrow> Some (KMInt width))
          else
            map_option snd (find (\<lambda>(builtin, _). name = builtin)
              [(INT_SORT, KInt), (BOOL_SORT, KBool), (STRING_SORT, KString), (BYTES_SORT, KBytes), (FLOAT_SORT, KFloat)]))"

section \<open>Facts\<close>

text \<open>The digits of a machine integer sort denote its width, if a \<open>u64\<close> holds it.\<close>

lemma numeral_sort_digits_ascii: "numeral_sort_digits s = Some digits \<Longrightarrow> digits \<noteq> [] \<and> list_all is_ascii_digit digits"
  by (auto simp: numeral_sort_digits_def split: option.splits if_splits)

lemma mint_width_digits_ascii: "mint_width_digits s = Some digits \<Longrightarrow> digits \<noteq> [] \<and> list_all is_ascii_digit digits"
  by (auto simp: mint_width_digits_def split: option.splits list.splits if_splits dest: numeral_sort_digits_ascii)

lemma digits_no_plus: "list_all is_ascii_digit (c # s) \<Longrightarrow> c \<noteq> 43"
  by (auto simp: is_ascii_digit_def)

lemma parse_u64_digits:
  assumes "digits \<noteq> []" and "list_all is_ascii_digit digits"
  shows "parse_u64 digits = (if digits_number digits < 2 ^ 64 then Some (digits_number digits) else None)"
proof -
  obtain c t where d: "digits = c # t" using assms(1) by (cases digits) auto
  then have "c \<noteq> 43" using assms(2) digits_no_plus by blast
  then show ?thesis using assms by (simp add: parse_u64_def d)
qed

lemma numeral_sort_no_variable: "numeral_sort_digits s = Some digits \<Longrightarrow> \<not> has_variable s"
  by (cases s) (auto simp: numeral_sort_digits_def split: option.splits if_splits)

lemma mint_width_cases:
  "mint_width_of s = Some w \<Longrightarrow>
     (case w of
        Bits n \<Rightarrow> n < 2 ^ 64 \<and> (\<exists>digits. mint_width_digits s = Some digits \<and> n = digits_number digits)
      | Unrepresentable \<Rightarrow> \<exists>digits. mint_width_digits s = Some digits \<and> 2 ^ 64 \<le> digits_number digits
      | NoWidth \<Rightarrow> mint_width_digits s = None)"
  by (auto simp: mint_width_of_def mint_width_digits_def parse_u64_digits [OF conjunct1 conjunct2, OF numeral_sort_digits_ascii numeral_sort_digits_ascii]
      split: option.splits list.splits if_splits)

end
