(* ===== verification/Domain_Text.thy ===== *)
theory Domain_Text
  imports Domain_Kind "HOL-Library.Word"
begin

text \<open>
  The texts of domain values (\<open>k-rust-domain/src/text.rs\<close>): which texts name an element of a kind, the
  canonical text of an element, and which machine-integer literals lie outside the values that their
  width holds.

  The crate \<open>num_bigint\<close> is not part of the sources: what the code calls of it is the record
  \<open>num_bigint\<close>, an argument of the definitions, over the types of its unsigned and signed integers;
  the locale \<open>big_integers\<close> states its documented behaviour through the numbers that these stand for;
  \<open>plain_bigint\<close>, on the numbers themselves, is an interpretation of it. The two functions on \<open>Float\<close> literals are
  arguments too (\<open>float_texts\<close>); nothing is assumed of them.
\<close>

section \<open>Big integers\<close>

record ('n, 'i) num_bigint =
  parse_natural :: "str \<Rightarrow> 'n option"
  natural_text :: "'n \<Rightarrow> str"
  natural_bits :: "'n \<Rightarrow> nat"
  count_ones :: "'n \<Rightarrow> nat"
  one_shifted :: "nat \<Rightarrow> 'n"
  natural_rem :: "'n \<Rightarrow> 'n \<Rightarrow> 'n"
  natural_sub :: "'n \<Rightarrow> 'n \<Rightarrow> 'n"
  natural_zero :: 'n
  parse_int :: "str \<Rightarrow> 'i option"
  int_text :: "'i \<Rightarrow> str"

text \<open>A decimal integer with an optional sign, what it denotes, and how an integer is written.\<close>

definition strip_sign :: "str \<Rightarrow> str" where
  "strip_sign s = (case s of c # t \<Rightarrow> if c = 43 \<or> c = 45 then t else s | [] \<Rightarrow> s)"

definition is_decimal_integer :: "str \<Rightarrow> bool" where
  "is_decimal_integer s \<longleftrightarrow> strip_sign s \<noteq> [] \<and> list_all is_ascii_digit (strip_sign s)"

definition decimal_integer :: "str \<Rightarrow> int" where
  "decimal_integer s =
     (if s \<noteq> [] \<and> hd s = 45 then - int (digits_number (strip_sign s)) else int (digits_number (strip_sign s)))"

definition signed_decimal :: "int \<Rightarrow> str" where
  "signed_decimal i = (if i < 0 then 45 # decimal (nat (- i)) else decimal (nat i))"

locale big_integers =
  fixes B :: "('n, 'i) num_bigint" and natural :: "'n \<Rightarrow> nat" and integer :: "'i \<Rightarrow> int"
  assumes parses_natural: "s \<noteq> [] \<Longrightarrow> list_all is_ascii_digit s \<Longrightarrow> \<exists>n. parse_natural B s = Some n \<and> natural n = digits_number s"
    and writes_natural: "natural_text B n = decimal (natural n)"
    and bits_of_natural: "natural_bits B n \<le> k \<longleftrightarrow> natural n < 2 ^ k"
    and ones_of_natural: "count_ones B n = card {i. bit (natural n) i}"
    and power_of_two: "natural (one_shifted B k) = 2 ^ k"
    and remainder: "0 < natural n \<Longrightarrow> natural (natural_rem B m n) = natural m mod natural n"
    and difference: "natural n \<le> natural m \<Longrightarrow> natural (natural_sub B m n) = natural m - natural n"
    and zero: "n = natural_zero B \<longleftrightarrow> natural n = 0"
    and parses_integer: "is_decimal_integer s \<Longrightarrow> \<exists>i. parse_int B s = Some i \<and> integer i = decimal_integer s"
    and writes_integer: "int_text B i = signed_decimal (integer i)"

definition plain_bigint :: "(nat, int) num_bigint" where
  "plain_bigint = \<lparr>
     parse_natural = (\<lambda>s. if s \<noteq> [] \<and> list_all is_ascii_digit s then Some (digits_number s) else None),
     natural_text = decimal,
     natural_bits = (\<lambda>n. LEAST k. n < 2 ^ k),
     count_ones = (\<lambda>n. card {i. bit n i}),
     one_shifted = (\<lambda>k. 2 ^ k),
     natural_rem = (mod),
     natural_sub = (-),
     natural_zero = 0,
     parse_int = (\<lambda>s. if is_decimal_integer s then Some (decimal_integer s) else None),
     int_text = signed_decimal\<rparr>"

lemma least_bits:
  fixes n k :: nat
  shows "(LEAST k. n < 2 ^ k) \<le> k \<longleftrightarrow> n < 2 ^ k"
proof
  have "n < 2 ^ (LEAST k. n < 2 ^ k)" using less_exp [of n] by (rule LeastI)
  moreover assume "(LEAST k. n < 2 ^ k) \<le> k"
  then have "(2::nat) ^ (LEAST k. n < 2 ^ k) \<le> 2 ^ k" by (rule power_increasing) simp
  ultimately show "n < 2 ^ k" by (rule less_le_trans)
qed (rule Least_le)

interpretation plain: big_integers plain_bigint id id
  by unfold_locales (simp_all add: plain_bigint_def least_bits)

section \<open>Bounds and refusals\<close>

definition MAX_INT_RESULT_BITS :: nat where "MAX_INT_RESULT_BITS = 2 ^ 24"
definition MAX_FLOAT_CANONICAL_BITS :: nat where "MAX_FLOAT_CANONICAL_BITS = 2 ^ 20"

datatype invalid_reason = NotALiteral | OtherWidth | NoWidthGiven | NoFloatFormat

datatype value_bound = MIntResidue nat | FloatCanonicalText nat nat | FloatFormat

datatype text_rejection = NamesNoElement invalid_reason | BeyondBound value_bound

datatype float_text_refusal = FloatNotALiteral | ZeroFormatField | UncomputedFormat | FloatBeyondBound nat

record float_texts =
  float_canonical_bits_estimate :: "str \<Rightarrow> float_text_refusal + nat"
  canonical_float_text :: "str \<Rightarrow> float_text_refusal + str"

section \<open>Machine-integer literals\<close>

record mint_literal =
  ml_sign :: "uchar option"
  ml_magnitude :: str
  ml_separator :: uchar
  ml_width :: str

definition all_digits :: "str \<Rightarrow> bool" where
  "all_digits s \<longleftrightarrow> s \<noteq> [] \<and> list_all is_ascii_digit s"

definition parse_mint_literal :: "str \<Rightarrow> mint_literal option" where
  "parse_mint_literal s =
     (let (sign, rest) = (case s of c # t \<Rightarrow> if c = 43 \<or> c = 45 then (Some c, t) else (None, s) | [] \<Rightarrow> (None, s));
          magnitude = takeWhile (\<lambda>c. c \<notin> set (lit ''pP'')) rest in
      case dropWhile (\<lambda>c. c \<notin> set (lit ''pP'')) rest of
        [] \<Rightarrow> None
      | separator # width \<Rightarrow>
          if all_digits magnitude \<and> all_digits width
          then Some \<lparr>ml_sign = sign, ml_magnitude = magnitude, ml_separator = separator, ml_width = width\<rparr>
          else None)"

definition names_width :: "mint_literal \<Rightarrow> str \<Rightarrow> bool" where
  "names_width l digits \<longleftrightarrow> without_zeros (ml_width l) = without_zeros digits"

definition mint_is_negative :: "mint_literal \<Rightarrow> bool" where
  "mint_is_negative l \<longleftrightarrow> ml_sign l = Some 45 \<and> (\<exists>c \<in> set (ml_magnitude l). c \<noteq> 48)"

definition mint_width_beyond_bound :: "mint_width \<Rightarrow> bool" where
  "mint_width_beyond_bound w = (case w of Bits bits \<Rightarrow> bits > MAX_INT_RESULT_BITS | Unrepresentable \<Rightarrow> True | NoWidth \<Rightarrow> False)"

text \<open>\<open>mint_literal_open\<close>; None: a panic. The products are of \<open>u128\<close>s and do not overflow.\<close>

definition mint_literal_open :: "('n, 'i) num_bigint \<Rightarrow> str \<Rightarrow> mint_width \<Rightarrow> bool option" where
  "mint_literal_open B s width =
     (case width of
        Bits bits \<Rightarrow>
          (case parse_mint_literal s of
             None \<Rightarrow> Some False
           | Some l \<Rightarrow>
               (let magnitude = without_zeros (ml_magnitude l); len = length magnitude in
                if magnitude = [] then Some False
                else if 1 \<le> bits \<and> len * 3322 \<le> (bits - 1) * 1000 then Some False
                else if (bits + 1) * 10000 \<le> (len - 1) * 33219 then Some True
                else
                  (case parse_natural B magnitude of
                     None \<Rightarrow> None
                   | Some m \<Rightarrow>
                       Some (if mint_is_negative l
                             then natural_bits B m > bits \<or> (natural_bits B m = bits \<and> count_ones B m > 1)
                             else natural_bits B m > bits))))
      | _ \<Rightarrow> Some False)"

section \<open>Validation\<close>

definition validate_text ::
    "float_texts \<Rightarrow> domain_kind \<Rightarrow> sort \<Rightarrow> byte list \<Rightarrow> text_rejection + unit" where
  "validate_text F kind s payload =
     (let txt = (case from_utf8 payload of Inr t \<Rightarrow> Some t | Inl _ \<Rightarrow> None) in
      case kind of
        KInt \<Rightarrow>
          if \<not> (case txt of Some t \<Rightarrow> is_decimal_integer t | None \<Rightarrow> False) then Inl (NamesNoElement NotALiteral) else Inr ()
      | KBool \<Rightarrow>
          if txt \<notin> {Some (lit ''true''), Some (lit ''false'')} then Inl (NamesNoElement NotALiteral) else Inr ()
      | KMInt width \<Rightarrow>
          (case (width, mint_width_digits s) of
             (NoWidth, _) \<Rightarrow> Inl (NamesNoElement NoWidthGiven)
           | (_, None) \<Rightarrow> Inl (NamesNoElement NoWidthGiven)
           | (_, Some digits) \<Rightarrow>
               (case Option.bind txt parse_mint_literal of
                  None \<Rightarrow> Inl (NamesNoElement NotALiteral)
                | Some l \<Rightarrow>
                    if \<not> names_width l digits then Inl (NamesNoElement OtherWidth)
                    else if mint_is_negative l \<and> mint_width_beyond_bound width
                      then Inl (BeyondBound (MIntResidue MAX_INT_RESULT_BITS))
                    else Inr ()))
      | KFloat \<Rightarrow>
          (case map_option (float_canonical_bits_estimate F) txt of
             None \<Rightarrow> Inl (NamesNoElement NotALiteral)
           | Some (Inr _) \<Rightarrow> Inr ()
           | Some (Inl FloatNotALiteral) \<Rightarrow> Inl (NamesNoElement NotALiteral)
           | Some (Inl ZeroFormatField) \<Rightarrow> Inl (NamesNoElement NoFloatFormat)
           | Some (Inl UncomputedFormat) \<Rightarrow> Inl (BeyondBound FloatFormat)
           | Some (Inl (FloatBeyondBound estimate)) \<Rightarrow>
               Inl (BeyondBound (FloatCanonicalText MAX_FLOAT_CANONICAL_BITS estimate)))
      | KBytes \<Rightarrow>
          if \<not> is_nullary s BYTES_SORT \<and> \<not> (case txt of Some t \<Rightarrow> list_all (\<lambda>c. c \<le> 0xFF) t | None \<Rightarrow> False)
          then Inl (NamesNoElement NotALiteral) else Inr ()
      | KString \<Rightarrow> Inr ()
      | KToken \<Rightarrow> Inr ())"

section \<open>Canonical texts\<close>

text \<open>None: the text is kept as it is. An outer None is a panic.\<close>

definition canonical_int_text :: "('n, 'i) num_bigint \<Rightarrow> str \<Rightarrow> str option" where
  "canonical_int_text B s =
     (let canonical =
        (case s of
           [] \<Rightarrow> False
         | [c] \<Rightarrow> is_ascii_digit c
         | c # d # t \<Rightarrow>
             if c = 45 then (49 \<le> d \<and> d \<le> 57) \<and> list_all is_ascii_digit t
             else (49 \<le> c \<and> c \<le> 57) \<and> list_all is_ascii_digit (d # t)) in
      if canonical then None else map_option (int_text B) (parse_int B s))"

definition mint_residue :: "('n, 'i) num_bigint \<Rightarrow> nat option \<Rightarrow> bool \<Rightarrow> bool \<Rightarrow> 'n \<Rightarrow> 'n option" where
  "mint_residue B bits negative canonical magnitude =
     (case bits of
        Some bits \<Rightarrow>
          if negative then
            (let modulus = one_shifted B bits; reduced = natural_rem B magnitude modulus in
             Some (if reduced = natural_zero B then reduced else natural_sub B modulus reduced))
          else if natural_bits B magnitude > bits then Some (natural_rem B magnitude (one_shifted B bits))
          else if canonical then None else Some magnitude
      | None \<Rightarrow> if canonical then None else Some magnitude)"

definition canonical_mint_text ::
    "('n, 'i) num_bigint \<Rightarrow> mint_width \<Rightarrow> sort \<Rightarrow> str \<Rightarrow> str option option" where
  "canonical_mint_text B width s t =
     (case width of
        NoWidth \<Rightarrow> Some None
      | _ \<Rightarrow>
          (case mint_width_digits s of
             None \<Rightarrow> Some None
           | Some sort_digits \<Rightarrow>
               (case parse_mint_literal t of
                  None \<Rightarrow> Some None
                | Some l \<Rightarrow>
                    if \<not> names_width l sort_digits then Some None
                    else if mint_is_negative l \<and> mint_width_beyond_bound width then Some None
                    else
                      (case parse_natural B (ml_magnitude l) of
                         None \<Rightarrow> None
                       | Some magnitude \<Rightarrow>
                           (let bits = (case width of Bits bits \<Rightarrow> Some bits | _ \<Rightarrow> None);
                                canonical = (ml_sign l = None \<and> ml_separator l = 112 \<and> ml_width l = sort_digits
                                  \<and> (length (ml_magnitude l) = 1 \<or> hd (ml_magnitude l) \<noteq> 48)) in
                            Some (map_option (\<lambda>residue. natural_text B residue @ lit ''p'' @ sort_digits)
                              (mint_residue B bits (mint_is_negative l) canonical magnitude)))))))"

definition canonical_float_value :: "float_texts \<Rightarrow> str \<Rightarrow> str option" where
  "canonical_float_value F t =
     (case canonical_float_text F t of Inr canonical \<Rightarrow> if canonical \<noteq> t then Some canonical else None | Inl _ \<Rightarrow> None)"

definition canonical_text ::
    "('n, 'i) num_bigint \<Rightarrow> float_texts \<Rightarrow> domain_kind \<Rightarrow> sort \<Rightarrow> byte list \<Rightarrow> str option option" where
  "canonical_text B F kind s payload =
     (case kind of
        KInt \<Rightarrow> Some (case from_utf8 payload of Inr t \<Rightarrow> canonical_int_text B t | Inl _ \<Rightarrow> None)
      | KMInt width \<Rightarrow> (case from_utf8 payload of Inr t \<Rightarrow> canonical_mint_text B width s t | Inl _ \<Rightarrow> Some None)
      | KFloat \<Rightarrow> Some (case from_utf8 payload of Inr t \<Rightarrow> canonical_float_value F t | Inl _ \<Rightarrow> None)
      | KBool \<Rightarrow> Some None
      | KString \<Rightarrow> Some None
      | KBytes \<Rightarrow> Some None
      | KToken \<Rightarrow> Some None)"

end
