(* ===== verification/Domain_Canonical.thy ===== *)
theory Domain_Canonical
  imports Domain_Text
begin

text \<open>
  What the machine-integer literals and the canonical texts of \<open>k-rust-domain/src/text.rs\<close> denote.
  The lemmas are proved in the locale \<open>big_integers\<close>, that is from the documented behaviour of
  \<open>num_bigint\<close>: the test \<open>mint_literal_open\<close>, with its two estimates by the number of digits, decides
  whether a literal lies outside the values of its width; the canonical text of a machine integer is
  its residue; the canonical text of an integer is its decimal text.
\<close>

section \<open>Integers outside a width\<close>

definition mint_value :: "mint_literal \<Rightarrow> int" where
  "mint_value l = (if ml_sign l = Some 45 then - int (digits_number (ml_magnitude l)) else int (digits_number (ml_magnitude l)))"

text \<open>The two estimates by the number of digits: \<open>3.3219 < log2(10) < 3.3220\<close>.\<close>

lemma digits_below:
  assumes "len * 3322 \<le> k * 1000"
  shows "(10::nat) ^ len \<le> 2 ^ k"
proof -
  have "(10 ^ len) ^ 205 = ((10::nat) ^ 205) ^ len" by (simp only: power_mult [symmetric] mult.commute)
  also have "\<dots> \<le> (2 ^ 681) ^ len" by (rule power_mono) simp_all
  also have "\<dots> = 2 ^ (681 * len)" by (simp only: power_mult)
  also have "\<dots> \<le> 2 ^ (k * 205)" using assms by (intro power_increasing) simp_all
  also have "\<dots> = (2 ^ k) ^ 205" by (simp only: power_mult)
  finally show ?thesis by (meson power_mono_iff zero_le zero_less_numeral)
qed

lemma digits_above:
  assumes "k * 10000 \<le> len * 33219"
  shows "(2::nat) ^ k \<le> 10 ^ len"
proof -
  have "(2 ^ k) ^ 485 = ((2::nat) ^ 485) ^ k" by (simp only: power_mult [symmetric] mult.commute)
  also have "\<dots> \<le> (10 ^ 146) ^ k" by (rule power_mono) simp_all
  also have "\<dots> = 10 ^ (146 * k)" by (simp only: power_mult)
  also have "\<dots> \<le> 10 ^ (len * 485)" using assms by (intro power_increasing) simp_all
  also have "\<dots> = (10 ^ len) ^ 485" by (simp only: power_mult)
  finally show ?thesis by (meson power_mono_iff zero_le zero_less_numeral)
qed

lemma several_bits:
  fixes m :: nat
  assumes "2 ^ k \<le> m" and "m < 2 ^ Suc k"
  shows "1 < card {i. bit m i} \<longleftrightarrow> 2 ^ k < m"
proof -
  have sub: "{i. bit m i} \<subseteq> {..k}"
  proof (rule subsetI, rule ccontr)
    fix i
    assume "i \<in> {i. bit m i}" "i \<notin> {..k}"
    moreover from this have "(2::nat) ^ Suc k \<le> 2 ^ i" by (intro power_increasing) auto
    ultimately show False using assms(2) by (auto simp: bit_iff_odd)
  qed
  then have fin: "finite {i. bit m i}" by (rule finite_subset) simp
  have div: "m div 2 ^ k = 1" using assms by (intro div_nat_eqI) simp_all
  then have top: "bit m k" by (simp add: bit_iff_odd)
  show ?thesis
  proof
    assume "2 ^ k < m"
    then have "m mod 2 ^ k \<noteq> 0" using div div_mult_mod_eq [of m "2 ^ k"] by simp
    then have "take_bit k m \<noteq> 0" unfolding take_bit_eq_mod .
    then obtain j where "bit (take_bit k m) j" unfolding bit_eq_iff by (auto simp del: take_bit_eq_0_iff)
    then have "j < k" "bit m j" by (auto simp: bit_take_bit_iff)
    then have two: "{j, k} \<subseteq> {i. bit m i}" "card {j, k} = 2" using top by simp_all
    show "1 < card {i. bit m i}" using card_mono [OF fin two(1)] two(2) by simp
  next
    assume "1 < card {i. bit m i}"
    moreover have "card {i. bit ((2::nat) ^ k) i} = 1" by (simp add: bit_exp_iff)
    ultimately have "m \<noteq> 2 ^ k" by auto
    then show "2 ^ k < m" using assms(1) by simp
  qed
qed


text \<open>The digits of a literal without its leading zeros.\<close>

lemma mint_digits:
  assumes "parse_mint_literal s = Some l"
  shows "ml_magnitude l \<noteq> []" "list_all is_ascii_digit (ml_magnitude l)" "ml_width l \<noteq> []" "list_all is_ascii_digit (ml_width l)"
  using assms by (auto simp: parse_mint_literal_def all_digits_def Let_def split: prod.splits list.splits if_splits)

lemma significant_digits:
  assumes "list_all is_ascii_digit s"
  shows "list_all is_ascii_digit (without_zeros s)"
    and "without_zeros s = [] \<longleftrightarrow> digits_number s = 0"
    and "digits_number s < 10 ^ length (without_zeros s)"
    and "without_zeros s \<noteq> [] \<Longrightarrow> 10 ^ (length (without_zeros s) - 1) \<le> digits_number s"
proof -
  show d: "list_all is_ascii_digit (without_zeros s)"
    using assms set_dropWhileD [of _ "\<lambda>c. c = 48" s] by (auto simp: list_all_iff)
  have lead: "without_zeros s \<noteq> [] \<Longrightarrow> hd (without_zeros s) \<noteq> 48" by (rule hd_dropWhile)
  note bounds = digits_number_bounds [OF d, unfolded digits_number_without_zeros]
  show "digits_number s < 10 ^ length (without_zeros s)" by (rule bounds(1))
  show low: "10 ^ (length (without_zeros s) - 1) \<le> digits_number s" if "without_zeros s \<noteq> []"
    using bounds(2) that lead by blast
  have "0 < digits_number s" if "without_zeros s \<noteq> []"
    by (rule less_le_trans [OF _ low [OF that]]) simp
  note pos = this
  have "digits_number (without_zeros s) = 0" if "without_zeros s = []" unfolding that by (simp add: digits_number_def)
  then show "without_zeros s = [] \<longleftrightarrow> digits_number s = 0"
    using pos digits_number_without_zeros [of s] by (metis less_irrefl)
qed

lemma without_zeros_empty: "without_zeros s = [] \<longleftrightarrow> (\<forall>c \<in> set s. c = 48)"
  by (simp add: dropWhile_eq_Nil_conv)

text \<open>The parts of a literal, and when a text is already the canonical one.\<close>

lemma parsed_text:
  assumes "parse_mint_literal t = Some l"
  shows "t = (case ml_sign l of Some c \<Rightarrow> [c] | None \<Rightarrow> []) @ ml_magnitude l @ ml_separator l # ml_width l"
proof -
  have "rest = takeWhile P rest @ c # w" if "dropWhile P rest = c # w" for P :: "uchar \<Rightarrow> bool" and rest c w
    using takeWhile_dropWhile_id [of P rest] that by simp
  then show ?thesis
    using assms by (auto simp: parse_mint_literal_def Let_def split: list.splits if_splits)
qed

lemma canonical_int_kept:
  assumes "is_decimal_integer s"
    and "case s of [] \<Rightarrow> False | [c] \<Rightarrow> is_ascii_digit c
       | c # d # t \<Rightarrow> if c = 45 then (49 \<le> d \<and> d \<le> 57) \<and> list_all is_ascii_digit t
                   else (49 \<le> c \<and> c \<le> 57) \<and> list_all is_ascii_digit (d # t)"
  shows "signed_decimal (decimal_integer s) = s"
proof -
  have digits: "decimal (digits_number u) = u" if "list_all is_ascii_digit u" "u \<noteq> []" "length u = 1 \<or> hd u \<noteq> 48" for u
    using decimal_number that by blast
  have positive: "0 < digits_number (d # u)" if "49 \<le> d" "d \<le> 57" for d u
    using that by (simp add: digits_number_Cons)
  consider c where "s = [c]" "is_ascii_digit c"
    | d t where "s = 45 # d # t" "49 \<le> d" "d \<le> 57" "list_all is_ascii_digit t"
    | c d t where "s = c # d # t" "49 \<le> c" "c \<le> 57" "list_all is_ascii_digit (d # t)"
    using assms(2) by (auto split: list.splits if_splits)
  then show ?thesis
  proof cases
    case 1
    then show ?thesis using digits [of s]
      by (auto simp: signed_decimal_def decimal_integer_def strip_sign_def is_ascii_digit_def)
  next
    case 2
    then show ?thesis using digits [of "d # t"] positive [of d t]
      by (simp add: signed_decimal_def decimal_integer_def strip_sign_def is_ascii_digit_def)
  next
    case 3
    then show ?thesis using digits [of s]
      by (simp add: signed_decimal_def decimal_integer_def strip_sign_def is_ascii_digit_def)
  qed
qed

lemma signed_decimal_inject [simp]: "signed_decimal i = signed_decimal j \<longleftrightarrow> i = j"
proof -
  have "decimal n \<noteq> 45 # t" for n t using decimal_digits [of n] by (auto simp: is_ascii_digit_def)
  then show ?thesis unfolding signed_decimal_def by (auto dest: sym)
qed

declare dropWhile_eq_Nil_conv [simp del]

context big_integers
begin

lemma width_decides:
  assumes "natural m = n" and "0 < n"
  shows "(if negative then natural_bits B m > bits \<or> (natural_bits B m = bits \<and> count_ones B m > 1) else natural_bits B m > bits)
     \<longleftrightarrow> (if negative then 2 ^ bits < 2 * n else 2 ^ bits \<le> n)"
proof -
  have above: "natural_bits B m > bits \<longleftrightarrow> 2 ^ bits \<le> n"
    using bits_of_natural [of m bits] assms(1) by (simp add: not_le [symmetric] del: not_le) 
  have "natural_bits B m = bits \<and> count_ones B m > 1 \<longleftrightarrow> 2 ^ bits < 2 * n" if "\<not> 2 ^ bits \<le> n"
  proof (cases bits)
    case 0
    then show ?thesis using that assms(2) by simp
  next
    case (Suc k)
    have "natural_bits B m = bits \<longleftrightarrow> 2 ^ k \<le> n"
      using bits_of_natural [of m bits] bits_of_natural [of m k] assms(1) that Suc by (simp add: le_Suc_eq) linarith
    moreover have "1 < card {i. bit n i} \<longleftrightarrow> 2 ^ k < n" if "2 ^ k \<le> n"
      using several_bits [OF that] \<open>\<not> 2 ^ bits \<le> n\<close> Suc by simp
    ultimately show ?thesis using Suc assms(1) by (auto simp: ones_of_natural)
  qed
  then show ?thesis using above assms(2) by auto
qed

lemma open_correct:
  assumes "parse_mint_literal s = Some l"
  shows "mint_literal_open B s (Bits bits) = Some (2 * mint_value l < - (2 ^ bits) \<or> 2 ^ bits \<le> mint_value l)"
proof -
  let ?n = "digits_number (ml_magnitude l)" and ?m = "without_zeros (ml_magnitude l)"
  note d = significant_digits [OF mint_digits(2) [OF assms]]
  have int: "(2::int) ^ bits \<le> int ?n \<longleftrightarrow> 2 ^ bits \<le> ?n" "(2::int) ^ bits < 2 * int ?n \<longleftrightarrow> 2 ^ bits < 2 * ?n"
    by (metis of_nat_le_iff of_nat_numeral of_nat_power, metis of_nat_less_iff of_nat_mult of_nat_numeral of_nat_power)
  have answer: "(2 * mint_value l < - (2 ^ bits) \<or> 2 ^ bits \<le> mint_value l)
      \<longleftrightarrow> (if mint_is_negative l then 2 ^ bits < 2 * ?n else ?n \<noteq> 0 \<and> 2 ^ bits \<le> ?n)"
  proof -
    have negative: "mint_is_negative l \<longleftrightarrow> ml_sign l = Some 45 \<and> ?n \<noteq> 0"
      using d(2) without_zeros_empty [of "ml_magnitude l"] unfolding mint_is_negative_def by metis
    have pos: "(0::int) < 2 ^ bits" by simp
    show ?thesis
    proof (cases "mint_is_negative l")
      case True
      then have "mint_value l = - int ?n" using negative by (simp add: mint_value_def)
      moreover have "\<not> (2::int) ^ bits \<le> - int ?n" using pos by linarith
      ultimately show ?thesis using True int(2) by simp
    next
      case False
      then have v: "mint_value l = int ?n" using negative by (auto simp: mint_value_def)
      have "\<not> 2 * mint_value l < - (2 ^ bits)" using pos v by linarith
      then have excluded: "(2 * mint_value l < - (2 ^ bits)) = False" by blast
      show ?thesis unfolding excluded unfolding v int(1) using False by (cases "?n = 0") simp_all
    qed
  qed
  show ?thesis
  proof (cases "?m = []")
    case True
    then show ?thesis
      using d(2) assms unfolding answer by (simp add: mint_literal_open_def mint_is_negative_def)
  next
    case nonzero: False
    then have pos: "0 < ?n" using d(2) by simp
    consider (low) "1 \<le> bits" "length ?m * 3322 \<le> (bits - 1) * 1000"
      | (high) "\<not> (1 \<le> bits \<and> length ?m * 3322 \<le> (bits - 1) * 1000)" "(bits + 1) * 10000 \<le> (length ?m - 1) * 33219"
      | (exact) "\<not> (1 \<le> bits \<and> length ?m * 3322 \<le> (bits - 1) * 1000)" "\<not> (bits + 1) * 10000 \<le> (length ?m - 1) * 33219"
      by blast
    then show ?thesis
    proof cases
      case low
      have "?n < 2 ^ (bits - 1)" by (rule less_le_trans [OF d(3) digits_below [OF low(2)]])
      moreover have "(2::nat) ^ bits = 2 * 2 ^ (bits - 1)" using low(1) by (simp add: power_eq_if)
      ultimately have "\<not> 2 ^ bits < 2 * ?n" "\<not> 2 ^ bits \<le> ?n" by linarith+
      then show ?thesis using nonzero low assms unfolding answer by (simp add: mint_literal_open_def Let_def)
    next
      case high
      have "2 ^ (bits + 1) \<le> ?n" by (rule order_trans [OF digits_above [OF high(2)] d(4) [OF nonzero]])
      then have "2 ^ bits < 2 * ?n" "2 ^ bits \<le> ?n" using pos by simp_all
      then show ?thesis using nonzero high assms pos unfolding answer by (simp add: mint_literal_open_def Let_def)
    next
      case exact
      obtain m where m: "parse_natural B ?m = Some m" "natural m = ?n"
        using parses_natural [OF nonzero d(1)] by (auto simp: digits_number_without_zeros)
      have "mint_literal_open B s (Bits bits) =
          Some (if mint_is_negative l
                then natural_bits B m > bits \<or> (natural_bits B m = bits \<and> count_ones B m > 1)
                else natural_bits B m > bits)"
        using nonzero exact by (simp only: mint_literal_open_def Let_def mint_width.case assms option.case m(1) if_False)
      then show ?thesis unfolding answer width_decides [OF m(2) pos] using pos by simp
    qed
  qed
qed

text \<open>Machine integers.\<close>

lemma mint_residue_value:
  assumes "parse_mint_literal t = Some l" and "natural magnitude = digits_number (ml_magnitude l)"
  shows "case mint_residue B (Some bits) (mint_is_negative l) canonical magnitude of
           Some residue \<Rightarrow> natural residue = nat (mint_value l mod 2 ^ bits)
         | None \<Rightarrow> canonical \<and> \<not> mint_is_negative l \<and> digits_number (ml_magnitude l) = nat (mint_value l mod 2 ^ bits)"
proof (cases "mint_is_negative l")
  case True
  let ?n = "digits_number (ml_magnitude l)" and ?m = "natural_rem B magnitude (one_shifted B bits)"
  have m: "natural ?m = ?n mod 2 ^ bits" using assms(2) by (simp add: remainder power_of_two)
  have v: "nat (mint_value l mod 2 ^ bits) = (if ?n mod 2 ^ bits = 0 then 0 else 2 ^ bits - ?n mod 2 ^ bits)"
  proof -
    have "mint_value l = - int ?n" using True by (simp add: mint_value_def mint_is_negative_def)
    moreover have "int ?n mod 2 ^ bits = int (?n mod 2 ^ bits)" by (simp add: zmod_int)
    moreover have "(2::int) ^ bits - int (?n mod 2 ^ bits) = int (2 ^ bits - ?n mod 2 ^ bits)"
      by (simp add: of_nat_diff less_imp_le)
    ultimately show ?thesis by (simp only: zmod_zminus1_eq_if of_nat_eq_0_iff nat_int nat_0 split: if_split) simp
  qed
  have "natural (natural_sub B (one_shifted B bits) ?m) = 2 ^ bits - ?n mod 2 ^ bits"
    using m by (subst difference) (simp_all add: power_of_two less_imp_le)
  then show ?thesis using True m v zero [of ?m] by (simp add: mint_residue_def Let_def)
next
  case False
  have "ml_sign l = Some 45 \<Longrightarrow> digits_number (ml_magnitude l) = 0"
    using False significant_digits(2) [OF mint_digits(2) [OF assms(1)]] without_zeros_empty [of "ml_magnitude l"]
    unfolding mint_is_negative_def by metis
  then have v: "mint_value l = int (digits_number (ml_magnitude l))" by (auto simp: mint_value_def)
  have r: "nat (mint_value l mod 2 ^ bits) = digits_number (ml_magnitude l) mod 2 ^ bits"
    unfolding v by (simp add: nat_mod_distrib nat_power_eq)
  show ?thesis
    using False assms(2) bits_of_natural [of magnitude bits] unfolding r
    by (auto simp: mint_residue_def remainder power_of_two not_less)
qed

lemma canonical_mint:
  assumes s: "mint_width_digits s = Some digits" and l: "parse_mint_literal t = Some l" "names_width l digits"
    and bound: "\<not> (mint_is_negative l \<and> mint_width_beyond_bound (Bits bits))"
  shows "\<exists>kept. canonical_mint_text B (Bits bits) s t = Some kept
    \<and> (case kept of None \<Rightarrow> t | Some t' \<Rightarrow> t') = decimal (nat (mint_value l mod 2 ^ bits)) @ lit ''p'' @ digits"
proof -
  obtain magnitude where m: "parse_natural B (ml_magnitude l) = Some magnitude" "natural magnitude = digits_number (ml_magnitude l)"
    using parses_natural [OF mint_digits(1,2) [OF l(1)]] by blast
  define canonical where "canonical = (ml_sign l = None \<and> ml_separator l = 112 \<and> ml_width l = digits
      \<and> (length (ml_magnitude l) = 1 \<or> hd (ml_magnitude l) \<noteq> 48))"
  let ?residue = "mint_residue B (Some bits) (mint_is_negative l) canonical magnitude"
  have written: "canonical_mint_text B (Bits bits) s t = Some (map_option (\<lambda>r. natural_text B r @ lit ''p'' @ digits) ?residue)"
    using bound by (auto simp: canonical_mint_text_def s l m(1) Let_def canonical_def)
  have same: "t = decimal (digits_number (ml_magnitude l)) @ lit ''p'' @ digits" if canonical
    using that parsed_text [OF l(1)] decimal_number [OF mint_digits(2,1) [OF l(1)]] by (auto simp: canonical_def)
  show ?thesis
    unfolding written
    using mint_residue_value [OF l(1) m(2), where bits = bits and canonical = canonical] same
    by (cases ?residue) (simp_all add: writes_natural)
qed

text \<open>Integers.\<close>

lemma canonical_int:
  assumes "is_decimal_integer t"
  shows "(case canonical_int_text B t of None \<Rightarrow> t | Some t' \<Rightarrow> t') = signed_decimal (decimal_integer t)"
proof (cases "canonical_int_text B t")
  case None
  then show ?thesis using assms parses_integer [OF assms] canonical_int_kept [OF assms]
    by (auto simp: canonical_int_text_def Let_def split: if_splits)
next
  case (Some t')
  then show ?thesis using parses_integer [OF assms]
    by (auto simp: canonical_int_text_def Let_def writes_integer split: if_splits)
qed

end

section \<open>Literals outside a width\<close>

text \<open>C20: whether a machine-integer literal is outside the values of its width. Under the documented
behaviour of \<open>num_bigint\<close>, for every literal that parses and every width, \<open>mint_literal_open\<close> does not panic and
answers exactly whether the literal's value is below \<open>-2^(bits-1)\<close> or at least \<open>2^bits\<close> (stated doubled, so
that the width zero is included): the two estimates by the number of decimal digits never answer
differently from the exact comparison.\<close>

theorem mint_literal_open_decides:
  assumes "big_integers B natural integer" and "parse_mint_literal s = Some l"
  shows "mint_literal_open B s (Bits bits) = Some (2 * mint_value l < - (2 ^ bits) \<or> 2 ^ bits \<le> mint_value l)"
  by (rule big_integers.open_correct [OF assms])

lemma mint_literal_open_decides_witness:
  "mint_literal_open plain_bigint (lit ''-128p8'') (Bits 8) = Some False
     \<and> mint_literal_open plain_bigint (lit ''-129p8'') (Bits 8) = Some True
     \<and> mint_literal_open plain_bigint (lit ''255p8'') (Bits 8) = Some False
     \<and> mint_literal_open plain_bigint (lit ''256p8'') (Bits 8) = Some True"
proof -
  have parsed: "parse_mint_literal (lit ''-128p8'') = Some \<lparr>ml_sign = Some 45, ml_magnitude = lit ''128'', ml_separator = 112, ml_width = lit ''8''\<rparr>"
    "parse_mint_literal (lit ''-129p8'') = Some \<lparr>ml_sign = Some 45, ml_magnitude = lit ''129'', ml_separator = 112, ml_width = lit ''8''\<rparr>"
    "parse_mint_literal (lit ''255p8'') = Some \<lparr>ml_sign = None, ml_magnitude = lit ''255'', ml_separator = 112, ml_width = lit ''8''\<rparr>"
    "parse_mint_literal (lit ''256p8'') = Some \<lparr>ml_sign = None, ml_magnitude = lit ''256'', ml_separator = 112, ml_width = lit ''8''\<rparr>"
    by code_simp+
  note decides = mint_literal_open_decides [OF plain.big_integers_axioms]
  show ?thesis
    unfolding decides [OF parsed(1)] decides [OF parsed(2)] decides [OF parsed(3)] decides [OF parsed(4)]
    by (simp add: mint_value_def digits_number_def)
qed

end
