(* ===== verification/Domain_String.thy ===== *)
theory Domain_String
  imports Rust_Reading
begin

text \<open>
  The \<open>String\<close> and \<open>Bytes\<close> literals of K's prelude (\<open>k-rust-domain/src/string.rs\<close>): quoting a text
  and a sequence of bytes, and the three readers, \<open>unquote\<close> of the front end, and \<open>unquote_text\<close> and
  \<open>unquote_bytes\<close>, which refuse an unknown escape. The characters left to read are a list.

  The theorems: each reader gives back what was quoted, a quoted literal is printable ASCII, and the
  front end reads every literal that \<open>unquote_text\<close> reads as the same text.
\<close>

section \<open>Escapes\<close>

definition NAMED_LETTERS :: "(uchar \<times> uchar) list" where
  "NAMED_LETTERS = [(34, 34), (92, 92), (ch CHR ''n'', 10), (ch CHR ''r'', 13), (ch CHR ''t'', 9), (ch CHR ''f'', 12)]"

definition HEX_LETTERS :: "(uchar \<times> nat) list" where
  "HEX_LETTERS = [(ch CHR ''x'', 2), (ch CHR ''u'', 4), (ch CHR ''U'', 8)]"

definition BYTE_DIGITS :: nat where "BYTE_DIGITS = 2"
definition OCTAL_DIGITS :: nat where "OCTAL_DIGITS = 3"

datatype escape = NamedEscape uchar | HexEscape nat | OctalEscape

definition escape_kind :: "uchar \<Rightarrow> str + escape" where
  "escape_kind e =
     (case find (\<lambda>(letter, _). letter = e) NAMED_LETTERS of
        Some (_, c) \<Rightarrow> Inr (NamedEscape c)
      | None \<Rightarrow>
          (case find (\<lambda>(letter, _). letter = e) HEX_LETTERS of
             Some (_, digits) \<Rightarrow> Inr (HexEscape digits)
           | None \<Rightarrow> if is_ascii_digit e then Inr OctalEscape else Inl (lit ''unsupported escape'')))"

text \<open>\<open>char::to_digit(8)\<close>.\<close>

definition octal_digit :: "uchar \<Rightarrow> nat option" where
  "octal_digit c = (if 48 \<le> c \<and> c \<le> 55 then Some (c - 48) else None)"

text \<open>
  The loops over the digits of an escape; \<open>n\<close> digits are left. The values fit \<open>u32\<close>: at most eight
  hexadecimal digits are read.
\<close>

fun read_octal_loop :: "nat \<Rightarrow> nat \<Rightarrow> str \<Rightarrow> str + (nat \<times> str)" where
  "read_octal_loop 0 value s = Inr (value, s)"
| "read_octal_loop (Suc n) value s =
     (case s of
        [] \<Rightarrow> Inl (lit ''truncated octal escape'')
      | c # r \<Rightarrow>
          (case octal_digit c of
             None \<Rightarrow> Inl (lit ''invalid octal escape'')
           | Some d \<Rightarrow> read_octal_loop n (value * 8 + d) r))"

definition read_octal :: "uchar \<Rightarrow> str \<Rightarrow> str + (nat \<times> str)" where
  "read_octal first s = read_octal_loop OCTAL_DIGITS 0 (first # s)"

fun read_hex :: "nat \<Rightarrow> nat \<Rightarrow> str \<Rightarrow> str + (nat \<times> str)" where
  "read_hex 0 value s = Inr (value, s)"
| "read_hex (Suc n) value s =
     (case s of
        [] \<Rightarrow> Inl (lit ''truncated Unicode escape'')
      | c # r \<Rightarrow>
          (case hex_digit c of
             None \<Rightarrow> Inl (lit ''invalid Unicode escape'')
           | Some d \<Rightarrow> read_hex n (value * 16 + d) r))"

definition domain_read_escape :: "str \<Rightarrow> nat \<Rightarrow> str + (uchar \<times> str)" where
  "domain_read_escape s digits =
     and_then (read_hex digits 0 s) (\<lambda>(value, r).
       if is_scalar value then Inr (value, r) else Inl (lit ''invalid Unicode scalar''))"

definition push_scalar_utf8 :: "byte list \<Rightarrow> nat \<Rightarrow> str + byte list" where
  "push_scalar_utf8 output value =
     (if is_scalar value then Inr (output @ encode_utf8 value) else Inl (lit ''invalid Unicode scalar''))"

lemma read_octal_loop_length: "read_octal_loop n acc s = Inr (v, r) \<Longrightarrow> length s = length r + n"
  by (induction n acc s rule: read_octal_loop.induct) (fastforce split: list.splits option.splits)+

lemma read_octal_length: "read_octal c s = Inr (v, r) \<Longrightarrow> length r \<le> length s"
  using read_octal_loop_length [of OCTAL_DIGITS 0 "c # s" v r] by (simp add: read_octal_def OCTAL_DIGITS_def)

lemma read_hex_length: "read_hex n acc s = Inr (v, r) \<Longrightarrow> length r \<le> length s"
  by (induction n acc s rule: read_hex.induct) (fastforce split: list.splits option.splits)+

lemma read_escape_length: "domain_read_escape s digits = Inr (v, r) \<Longrightarrow> length r \<le> length s"
  by (auto simp: domain_read_escape_def elim!: and_thenE split: if_splits dest: read_hex_length)

lemmas escape_lengths = read_octal_length read_hex_length read_escape_length

section \<open>Quoting\<close>

text \<open>The escape of a character, and of a byte; the digits are lower case.\<close>

definition quote_character :: "uchar \<Rightarrow> str" where
  "quote_character c =
     (if c = 34 then [92, 34]
      else if c = 92 then [92, 92]
      else if c = 10 then [92, ch CHR ''n'']
      else if c = 13 then [92, ch CHR ''r'']
      else if c = 9 then [92, ch CHR ''t'']
      else if c = 12 then [92, ch CHR ''f'']
      else if 32 \<le> c \<and> c \<le> 126 then [c]
      else if c \<le> 0xFF then [92, ch CHR ''x''] @ hex_pad 2 c
      else if c \<le> 0xFFFF then [92, ch CHR ''u''] @ hex_pad 4 c
      else [92, ch CHR ''U''] @ hex_pad 8 c)"

definition quote_text :: "str \<Rightarrow> str" where
  "quote_text value = lit [CHR 34] @ concat (map quote_character value) @ lit [CHR 34]"

definition quote_byte :: "byte \<Rightarrow> str" where
  "quote_byte b =
     (let c = unat b in
      if c = 34 then [92, 34]
      else if c = 92 then [92, 92]
      else if c = 10 then [92, ch CHR ''n'']
      else if c = 13 then [92, ch CHR ''r'']
      else if c = 9 then [92, ch CHR ''t'']
      else if c = 12 then [92, ch CHR ''f'']
      else if 32 \<le> c \<and> c \<le> 126 then [c]
      else [92, ch CHR ''x''] @ hex_pad 2 c)"

definition quote_bytes :: "byte list \<Rightarrow> str" where
  "quote_bytes value = lit [CHR 34] @ concat (map quote_byte value) @ lit [CHR 34]"

section \<open>Reading\<close>

text \<open>The characters between the quotes.\<close>

definition quoted_body :: "str \<Rightarrow> str + str" where
  "quoted_body input =
     (if input = [] \<or> hd input \<noteq> 34 \<or> last input \<noteq> 34 \<or> str_len input < 2
      then Inl (lit ''expected a double-quoted string'')
      else Inr (butlast (tl input)))"

text \<open>The three digits of an octal escape in \<open>unquote\<close>, read by \<open>u32::from_str_radix(_, 8)\<close>.\<close>

definition front_octal :: "uchar \<Rightarrow> str \<Rightarrow> str + (uchar \<times> str)" where
  "front_octal first s =
     (case s of
        second # third # r \<Rightarrow>
          (case (octal_digit first, octal_digit second, octal_digit third) of
             (Some a, Some b, Some c) \<Rightarrow>
               if is_scalar (a * 64 + b * 8 + c) then Inr (a * 64 + b * 8 + c, r) else Inl (lit ''invalid octal scalar'')
           | _ \<Rightarrow> Inl (lit ''invalid octal escape''))
      | _ \<Rightarrow> Inl (lit ''truncated octal escape''))"

lemma front_octal_length: "front_octal c s = Inr (v, r) \<Longrightarrow> length r \<le> length s"
  by (auto simp: front_octal_def split: list.splits option.splits if_splits)

function front_unquote_loop :: "str \<Rightarrow> str \<Rightarrow> str + str" where
  "front_unquote_loop output s =
     (case s of
        [] \<Rightarrow> Inr output
      | c # s \<Rightarrow>
          if c \<noteq> 92 then front_unquote_loop (output @ [c]) s
          else
            (case s of
               [] \<Rightarrow> Inl (lit ''truncated escape'')
             | e # s \<Rightarrow>
                 if e = 34 then front_unquote_loop (output @ [34]) s
                 else if e = 92 then front_unquote_loop (output @ [92]) s
                 else if e = ch CHR ''n'' then front_unquote_loop (output @ [10]) s
                 else if e = ch CHR ''r'' then front_unquote_loop (output @ [13]) s
                 else if e = ch CHR ''t'' then front_unquote_loop (output @ [9]) s
                 else if e = ch CHR ''f'' then front_unquote_loop (output @ [12]) s
                 else if e = ch CHR ''x'' then and_then (domain_read_escape s 2) (\<lambda>(c, r). front_unquote_loop (output @ [c]) r)
                 else if e = ch CHR ''u'' then and_then (domain_read_escape s 4) (\<lambda>(c, r). front_unquote_loop (output @ [c]) r)
                 else if e = ch CHR ''U'' then and_then (domain_read_escape s 8) (\<lambda>(c, r). front_unquote_loop (output @ [c]) r)
                 else if is_ascii_digit e then and_then (front_octal e s) (\<lambda>(c, r). front_unquote_loop (output @ [c]) r)
                 else front_unquote_loop output s))"
  by pat_completeness auto
termination
  by (relation "measure (length \<circ> snd)") (auto dest!: escape_lengths front_octal_length)

definition front_unquote :: "str \<Rightarrow> str + str" where
  "front_unquote input = and_then (quoted_body input) (front_unquote_loop [])"


text \<open>The strict readers, which share the kinds of escapes.\<close>

definition text_escape :: "uchar \<Rightarrow> str \<Rightarrow> str + (uchar \<times> str)" where
  "text_escape e s =
     and_then (escape_kind e) (\<lambda>kind. case kind of
       NamedEscape c \<Rightarrow> Inr (c, s)
     | HexEscape digits \<Rightarrow> domain_read_escape s digits
     | OctalEscape \<Rightarrow>
         and_then (read_octal e s) (\<lambda>(n, r). if is_scalar n then Inr (n, r) else Inl (lit ''invalid octal scalar'')))"

lemma text_escape_length: "text_escape e s = Inr (c, r) \<Longrightarrow> length r \<le> length s"
  by (auto simp: text_escape_def elim!: and_thenE split: escape.splits if_splits dest!: escape_lengths)

function unquote_text_loop :: "str \<Rightarrow> str \<Rightarrow> str + str" where
  "unquote_text_loop output s =
     (case s of
        [] \<Rightarrow> Inr output
      | c # s \<Rightarrow>
          if c \<noteq> 92 then unquote_text_loop (output @ [c]) s
          else
            (case s of
               [] \<Rightarrow> Inl (lit ''truncated escape'')
             | e # s \<Rightarrow> and_then (text_escape e s) (\<lambda>(c, r). unquote_text_loop (output @ [c]) r)))"
  by pat_completeness auto
termination
  by (relation "measure (length \<circ> snd)") (auto dest!: text_escape_length)

definition unquote_text :: "str \<Rightarrow> str + str" where
  "unquote_text input = and_then (quoted_body input) (unquote_text_loop [])"

lemma byte_escapes_fit:
  "escape_kind e = Inr (NamedEscape c) \<Longrightarrow> c < 256"
  "escape_kind e = Inr (HexEscape digits) \<Longrightarrow> digits \<le> BYTE_DIGITS \<Longrightarrow> read_hex digits 0 s = Inr (n, r) \<Longrightarrow> n < 256"
proof -
  show "escape_kind e = Inr (NamedEscape c) \<Longrightarrow> c < 256"
    by (auto simp: escape_kind_def NAMED_LETTERS_def split: option.splits if_splits)
  have digit: "hex_digit c = Some d \<Longrightarrow> d < 16" for c d by (auto simp: hex_digit_def split: if_splits)
  assume "escape_kind e = Inr (HexEscape digits)" "digits \<le> BYTE_DIGITS" "read_hex digits 0 s = Inr (n, r)"
  then have "read_hex (Suc (Suc 0)) 0 s = Inr (n, r)"
    by (auto simp: escape_kind_def HEX_LETTERS_def BYTE_DIGITS_def numeral_2_eq_2 split: option.splits if_splits)
  then show "n < 256" by (auto split: list.splits option.splits dest!: digit)
qed

text \<open>What an escape appends to the bytes. The two \<open>expect\<close>s of the source are about a named escape
  and a pair of hexadecimal digits, whose numbers are bytes.\<close>

definition bytes_escape :: "uchar \<Rightarrow> str \<Rightarrow> byte list \<Rightarrow> str + (byte list \<times> str)" where
  "bytes_escape e s output =
     and_then (escape_kind e) (\<lambda>kind. case kind of
       NamedEscape c \<Rightarrow> Inr (output @ [byte_of c], s)
     | HexEscape digits \<Rightarrow>
         and_then (read_hex digits 0 s) (\<lambda>(n, r).
           if digits \<le> BYTE_DIGITS then Inr (output @ [byte_of n], r)
           else and_then (push_scalar_utf8 output n) (\<lambda>output. Inr (output, r)))
     | OctalEscape \<Rightarrow>
         and_then (read_octal e s) (\<lambda>(n, r).
           if n < 256 then Inr (output @ [byte_of n], r) else Inl (lit ''octal byte escape out of range'')))"

lemma bytes_escape_length: "bytes_escape e s output = Inr (bs, r) \<Longrightarrow> length r \<le> length s"
  by (auto simp: bytes_escape_def elim!: and_thenE split: escape.splits if_splits dest!: escape_lengths)

function unquote_bytes_loop :: "byte list \<Rightarrow> str \<Rightarrow> str + byte list" where
  "unquote_bytes_loop output s =
     (case s of
        [] \<Rightarrow> Inr output
      | c # s \<Rightarrow>
          if c \<noteq> 92 then unquote_bytes_loop (output @ encode_utf8 c) s
          else
            (case s of
               [] \<Rightarrow> Inl (lit ''truncated escape'')
             | e # s \<Rightarrow> and_then (bytes_escape e s output) (\<lambda>(output, r). unquote_bytes_loop output r)))"
  by pat_completeness auto
termination
  by (relation "measure (length \<circ> snd)") (auto dest!: bytes_escape_length)

definition unquote_bytes :: "str \<Rightarrow> str + byte list" where
  "unquote_bytes input = and_then (quoted_body input) (unquote_bytes_loop [])"

declare front_unquote_loop.simps [simp del] unquote_text_loop.simps [simp del] unquote_bytes_loop.simps [simp del]

section \<open>Facts about escapes\<close>

lemma read_hex_append: "read_hex (m + n) acc s = and_then (read_hex m acc s) (\<lambda>(acc, s). read_hex n acc s)"
  by (induction m acc s rule: read_hex.induct) (auto split: list.split option.split)

lemma read_hex_pad: "c < 16 ^ w \<Longrightarrow> read_hex w acc (hex_pad w c @ r) = Inr (acc * 16 ^ w + c, r)"
proof (induction w c arbitrary: r rule: hex_pad.induct)
  case (2 w c)
  have "c div 16 < 16 ^ w" using "2.prems" by (simp add: less_mult_imp_div_less mult.commute)
  then have IH: "read_hex w acc (hex_pad w (c div 16) @ hex_char (c mod 16) # r) = Inr (acc * 16 ^ w + c div 16, hex_char (c mod 16) # r)"
    by (rule "2.IH")
  have "(acc * 16 ^ w + c div 16) * 16 + c mod 16 = acc * 16 ^ Suc w + c" by (simp add: algebra_simps)
  then show ?case
    using read_hex_append [of w 1 acc "hex_pad w (c div 16) @ hex_char (c mod 16) # r"] IH
    by (simp add: hex_digit_hex_char)
qed simp

lemma quoted_body_quoted: "quoted_body ([34] @ s @ [34]) = Inr s"
  by (simp add: quoted_body_def len_utf8_def)

lemma domain_escape_pad: "c < 16 ^ w \<Longrightarrow> is_scalar c \<Longrightarrow> domain_read_escape (hex_pad w c @ r) w = Inr (c, r)"
  by (simp add: domain_read_escape_def read_hex_pad)

lemma escape_kinds:
  "escape_kind 34 = Inr (NamedEscape 34)" "escape_kind 92 = Inr (NamedEscape 92)" "escape_kind 110 = Inr (NamedEscape 10)"
  "escape_kind 114 = Inr (NamedEscape 13)" "escape_kind 116 = Inr (NamedEscape 9)" "escape_kind 102 = Inr (NamedEscape 12)"
  "escape_kind 120 = Inr (HexEscape 2)" "escape_kind 117 = Inr (HexEscape 4)" "escape_kind 85 = Inr (HexEscape 8)"
  by (simp_all add: escape_kind_def NAMED_LETTERS_def HEX_LETTERS_def)

text \<open>A quoted character is itself or a backslash with an escape that reads as it.\<close>

lemma quote_character_cases:
  assumes "is_scalar c"
  obtains (plain) "quote_character c = [c]" "c \<noteq> 92" "32 \<le> c" "c \<le> 126"
  | (escaped) e t where "quote_character c = 92 # e # t" "\<And>r. text_escape e (t @ r) = Inr (c, r)"
      "\<And>r out. front_unquote_loop out (92 # e # t @ r) = front_unquote_loop (out @ [c]) r"
proof -
  have bound: "c < 16 ^ 8" using assms by (auto simp: is_scalar_def)
  consider (named) "c \<in> {34, 92, 10, 13, 9, 12}" | (itself) "c \<notin> {34, 92, 10, 13, 9, 12}" "32 \<le> c" "c \<le> 126"
    | (hex) "c \<notin> {34, 92, 10, 13, 9, 12}" "\<not> (32 \<le> c \<and> c \<le> 126)" by blast
  then show ?thesis
  proof cases
    case named
    then show ?thesis
      by (elim insertE emptyE) (rule escaped, simp add: quote_character_def,
        simp add: text_escape_def escape_kinds, subst front_unquote_loop.simps, simp)+
  next
    case itself
    then show ?thesis by (intro plain) (simp_all add: quote_character_def)
  next
    case hex
    have "(c \<le> 0xFF \<and> quote_character c = [92, 120] @ hex_pad 2 c) \<or> (c \<le> 0xFFFF \<and> quote_character c = [92, 117] @ hex_pad 4 c)
        \<or> quote_character c = [92, 85] @ hex_pad 8 c"
      using hex by (auto simp: quote_character_def)
    then obtain w e where w: "quote_character c = [92, e] @ hex_pad w c" "c < 16 ^ w" "(w, e) \<in> {(2, 120), (4, 117), (8, 85)}"
      using bound by fastforce
    have "text_escape e (hex_pad w c @ r) = Inr (c, r)" for r
      using w(2,3) assms by (auto simp: text_escape_def escape_kinds domain_escape_pad)
    moreover have "front_unquote_loop out (92 # e # hex_pad w c @ r) = front_unquote_loop (out @ [c]) r" for r out
      using w(2,3) assms by (subst front_unquote_loop.simps) (auto simp: domain_escape_pad)
    ultimately show ?thesis using w(1) by (intro escaped) simp_all
  qed
qed

lemma unquote_text_quoted:
  "valid_str s \<Longrightarrow> unquote_text_loop out (concat (map quote_character s)) = Inr (out @ s)"
proof (induction s arbitrary: out)
  case (Cons c s)
  then have c: "is_scalar c" by simp
  then show ?case
    using Cons by (cases rule: quote_character_cases) (simp_all add: unquote_text_loop.simps [of out])
qed (simp add: unquote_text_loop.simps)

lemma front_unquote_quoted:
  "valid_str s \<Longrightarrow> front_unquote_loop out (concat (map quote_character s)) = Inr (out @ s)"
proof (induction s arbitrary: out)
  case (Cons c s)
  then have c: "is_scalar c" by simp
  then show ?case
  proof (cases rule: quote_character_cases)
    case plain
    then show ?thesis using Cons by (simp add: front_unquote_loop.simps [of out])
  next
    case (escaped e t)
    then show ?thesis using Cons by simp
  qed
qed (simp add: front_unquote_loop.simps)

lemma quote_byte_cases:
  obtains (plain) "quote_byte b = [unat b]" "unat b \<noteq> 92" "32 \<le> unat b" "unat b \<le> 126"
  | (escaped) e t where "quote_byte b = 92 # e # t" "\<And>r out. bytes_escape e (t @ r) out = Inr (out @ [b], r)"
proof -
  have fits: "unat b < 16 ^ 2" using unsigned_less [of b, where ?'a = nat] by simp
  consider (named) "unat b \<in> {34, 92, 10, 13, 9, 12}" | (itself) "unat b \<notin> {34, 92, 10, 13, 9, 12}" "32 \<le> unat b" "unat b \<le> 126"
    | (hex) "unat b \<notin> {34, 92, 10, 13, 9, 12}" "\<not> (32 \<le> unat b \<and> unat b \<le> 126)" by blast
  then show ?thesis
  proof cases
    case named
    have "byte_of (unat b) = b" by simp
    then have "\<exists>e. quote_byte b = [92, e] \<and> escape_kind e = Inr (NamedEscape (unat b))"
      using named by (auto simp: quote_byte_def Let_def escape_kinds)
    then show ?thesis by (auto simp: bytes_escape_def intro: escaped)
  next
    case itself
    then show ?thesis by (intro plain) (simp_all add: quote_byte_def)
  next
    case hex
    then have "quote_byte b = 92 # 120 # hex_pad 2 (unat b)" by (auto simp: quote_byte_def Let_def)
    moreover have "bytes_escape 120 (hex_pad 2 (unat b) @ r) out = Inr (out @ [b], r)" for r out
      using read_hex_pad [OF fits] by (simp add: bytes_escape_def escape_kinds BYTE_DIGITS_def)
    ultimately show ?thesis by (rule escaped)
  qed
qed

lemma unquote_bytes_quoted: "unquote_bytes_loop out (concat (map quote_byte bs)) = Inr (out @ bs)"
proof (induction bs arbitrary: out)
  case (Cons b bs)
  show ?case
  proof (cases b rule: quote_byte_cases)
    case plain
    then have "encode_utf8 (unat b) = [b]" by (simp add: encode_utf8_def)
    then show ?thesis using Cons plain by (simp add: unquote_bytes_loop.simps [of out])
  next
    case (escaped e t)
    then show ?thesis using Cons by (simp add: unquote_bytes_loop.simps [of out])
  qed
qed (simp add: unquote_bytes_loop.simps)

text \<open>Quoted literals are printable ASCII.\<close>

definition printable :: "uchar \<Rightarrow> bool" where
  "printable c \<longleftrightarrow> 32 \<le> c \<and> c \<le> 126"

lemma printable_hex: "list_all printable (hex_pad w n)"
proof -
  have "is_ascii_hexdigit c \<Longrightarrow> printable c" for c by (auto simp: printable_def char_class_defs)
  then show ?thesis using hex_pad_hexdigits [of w n] by (simp add: list_all_iff)
qed

lemma literals_printable: "list_all printable (quote_character c)" "list_all printable (quote_byte b)"
  by (simp_all add: quote_character_def quote_byte_def Let_def printable_hex) (simp_all add: printable_def)

lemma quote_printable: "list_all printable (quote_text s)" "list_all printable (quote_bytes bs)"
  using literals_printable by (auto simp: quote_text_def quote_bytes_def list_all_iff) (simp_all add: printable_def)

text \<open>An escape that the strict reader takes the front end reads alike.\<close>

lemma read_octal_front:
  assumes "read_octal e s = Inr (n, r)" and "is_scalar n"
  shows "front_octal e s = Inr (n, r)"
proof -
  have "read_octal_loop (Suc (Suc (Suc 0))) 0 (e # s) = Inr (n, r)"
    using assms(1) by (simp add: read_octal_def OCTAL_DIGITS_def numeral_3_eq_3)
  then obtain a b c second third where "s = second # third # r" "octal_digit e = Some a" "octal_digit second = Some b"
      "octal_digit third = Some c" "n = a * 64 + b * 8 + c"
    by (auto split: list.splits option.splits)
  then show ?thesis using assms(2) by (simp add: front_octal_def)
qed

lemma front_reads_escape:
  assumes "text_escape e s = Inr (c, r)"
  shows "front_unquote_loop out (92 # e # s) = front_unquote_loop (out @ [c]) r"
proof -
  obtain kind where k: "escape_kind e = Inr kind" using assms by (auto simp: text_escape_def elim!: and_thenE)
  show ?thesis
  proof (cases kind)
    case (NamedEscape d)
    then show ?thesis
      using k assms by (auto simp: text_escape_def escape_kind_def NAMED_LETTERS_def front_unquote_loop.simps [of out]
          split: if_splits option.splits)
  next
    case (HexEscape digits)
    then have "domain_read_escape s digits = Inr (c, r)" using k assms by (simp add: text_escape_def)
    then show ?thesis
      using k HexEscape by (auto simp: escape_kind_def NAMED_LETTERS_def HEX_LETTERS_def front_unquote_loop.simps [of out]
          split: if_splits option.splits)
  next
    case OctalEscape
    then obtain n where "read_octal e s = Inr (n, r)" "is_scalar n" "c = n"
      using k assms by (auto simp: text_escape_def elim!: and_thenE split: if_splits)
    then have "front_octal e s = Inr (c, r)" using read_octal_front by blast
    moreover have "is_ascii_digit e" using k OctalEscape by (auto simp: escape_kind_def split: option.splits if_splits)
    ultimately show ?thesis by (subst front_unquote_loop.simps) (auto simp: is_ascii_digit_def)
  qed
qed

lemma front_reads_text: "unquote_text_loop out s = Inr t \<Longrightarrow> front_unquote_loop out s = Inr t"
proof (induction out s rule: unquote_text_loop.induct)
  case (1 out s)
  consider "s = []" | c s' where "s = c # s'" "c \<noteq> 92" | e s' c r where "s = 92 # e # s'" "text_escape e s' = Inr (c, r)"
      "unquote_text_loop (out @ [c]) r = Inr t"
    using "1.prems" by (subst (asm) unquote_text_loop.simps) (auto split: list.splits if_splits elim!: and_thenE)
  then show ?case
  proof cases
    case 1
    then show ?thesis using "1.prems" by (simp add: unquote_text_loop.simps front_unquote_loop.simps)
  next
    case (2 c s')
    then show ?thesis using "1.IH"(1) "1.prems" by (simp add: unquote_text_loop.simps [of out] front_unquote_loop.simps [of out])
  next
    case (3 e s' c r)
    then show ?thesis using "1.IH"(2) front_reads_escape by simp
  qed
qed

text \<open>
  A body without its unknown escapes: the backslash and the character after it go, the characters that
  belong to a known escape stay as they are.
\<close>

fun escape_operands :: "escape \<Rightarrow> nat" where
  "escape_operands (NamedEscape _) = 0"
| "escape_operands (HexEscape digits) = digits"
| "escape_operands OctalEscape = OCTAL_DIGITS - 1"

function known_escapes :: "str \<Rightarrow> str" where
  "known_escapes [] = []"
| "known_escapes [c] = [c]"
| "known_escapes (c # e # s) =
     (if c \<noteq> 92 then c # known_escapes (e # s)
      else case escape_kind e of
        Inl _ \<Rightarrow> known_escapes s
      | Inr kind \<Rightarrow>
          c # e # take (escape_operands kind) s @ known_escapes (drop (escape_operands kind) s))"
  by pat_completeness auto
termination known_escapes
  by (relation "measure length") auto

lemma read_hex_operands:
  "read_hex n acc s = Inr (v, r) \<Longrightarrow> r = drop n s \<and> read_hex n acc (take n s @ x) = Inr (v, x)"
  by (induction n acc s rule: read_hex.induct) (auto split: list.splits option.splits)

lemma read_octal_operands:
  "read_octal_loop n acc s = Inr (v, r) \<Longrightarrow> r = drop n s \<and> read_octal_loop n acc (take n s @ x) = Inr (v, x)"
  by (induction n acc s rule: read_octal_loop.induct) (auto split: list.splits option.splits)

lemma text_escape_operands:
  assumes "escape_kind e = Inr kind" and "text_escape e s = Inr (c, r)"
  shows "r = drop (escape_operands kind) s \<and> text_escape e (take (escape_operands kind) s @ x) = Inr (c, x)"
proof (cases kind)
  case (HexEscape digits)
  then obtain v where "read_hex digits 0 s = Inr (v, r)" "is_scalar v" "c = v"
    using assms by (auto simp: text_escape_def domain_read_escape_def elim!: and_thenE split: if_splits)
  then show ?thesis
    using read_hex_operands [of digits 0 s v r x] assms(1) HexEscape by (simp add: text_escape_def domain_read_escape_def)
next
  case OctalEscape
  then obtain v where v: "read_octal_loop (Suc (Suc (Suc 0))) 0 (e # s) = Inr (v, r)" "is_scalar v" "c = v"
    using assms by (auto simp: text_escape_def read_octal_def OCTAL_DIGITS_def numeral_3_eq_3 elim!: and_thenE split: if_splits)
  then show ?thesis
    using read_octal_operands [OF v(1), of x] assms(1) OctalEscape
    by (simp add: text_escape_def read_octal_def OCTAL_DIGITS_def numeral_3_eq_3 del: read_octal_loop.simps)
qed (use assms in \<open>simp add: text_escape_def\<close>)

text \<open>The strict reader on the operands alone, whatever follows them.\<close>

lemma text_escape_cut:
  assumes "escape_kind e = Inr kind" and "x = [] \<or> escape_operands kind \<le> length s"
  shows "text_escape e (take (escape_operands kind) s @ x) = Inr (c, r)
    \<longleftrightarrow> r = x \<and> text_escape e s = Inr (c, drop (escape_operands kind) s)"
proof
  let ?m = "escape_operands kind"
  assume cut: "text_escape e (take ?m s @ x) = Inr (c, r)"
  have same: "take ?m (take ?m s @ x) = take ?m s" "drop ?m (take ?m s @ x) = x"
    using assms(2) by (auto simp: min_def)
  show "r = x \<and> text_escape e s = Inr (c, drop ?m s)"
    using text_escape_operands [OF assms(1) cut, of "drop ?m s"] unfolding same append_take_drop_id by blast
next
  assume "r = x \<and> text_escape e s = Inr (c, drop (escape_operands kind) s)"
  then show "text_escape e (take (escape_operands kind) s @ x) = Inr (c, r)"
    using text_escape_operands [OF assms(1)] by blast
qed

text \<open>A known escape that the strict reader refuses the front end refuses too.\<close>

lemma front_refuses_escape:
  assumes "escape_kind e = Inr kind" and "front_unquote_loop out (92 # e # s) = Inr t"
  shows "\<exists>c r. text_escape e s = Inr (c, r)"
proof (cases kind)
  case (HexEscape digits)
  then have "\<exists>c r. domain_read_escape s digits = Inr (c, r)"
    using assms by (auto simp: escape_kind_def NAMED_LETTERS_def HEX_LETTERS_def front_unquote_loop.simps [of out]
        split: if_splits option.splits elim!: and_thenE)
  then show ?thesis using assms(1) HexEscape by (simp add: text_escape_def)
next
  case OctalEscape
  then have "is_ascii_digit e" using assms(1) by (auto simp: escape_kind_def split: option.splits if_splits)
  then obtain c r where "front_octal e s = Inr (c, r)"
    using assms(2) by (subst (asm) front_unquote_loop.simps) (auto simp: is_ascii_digit_def elim!: and_thenE)
  then obtain x y where "s = x # y # r" "is_scalar c" "read_octal e s = Inr (c, r)"
    by (auto simp: front_octal_def read_octal_def OCTAL_DIGITS_def numeral_3_eq_3 split: list.splits option.splits if_splits)
  then show ?thesis using assms(1) OctalEscape by (simp add: text_escape_def)
qed (use assms in \<open>simp add: text_escape_def\<close>)

lemma front_drops_escape:
  "escape_kind e = Inl x \<Longrightarrow> front_unquote_loop out (92 # e # s) = front_unquote_loop out s"
  by (subst front_unquote_loop.simps)
    (auto simp: escape_kind_def NAMED_LETTERS_def HEX_LETTERS_def split: option.splits if_splits)

lemma front_reads_known:
  "front_unquote_loop out s = Inr t \<longleftrightarrow> unquote_text_loop out (known_escapes s) = Inr t"
proof (induction s arbitrary: out rule: known_escapes.induct)
  case 1
  then show ?case by (simp add: unquote_text_loop.simps front_unquote_loop.simps)
next
  case (2 c)
  then show ?case by (simp add: unquote_text_loop.simps [of out] front_unquote_loop.simps [of out])
      (simp add: unquote_text_loop.simps front_unquote_loop.simps)
next
  case (3 c e s)
  show ?case
  proof (cases "c = 92")
    case False
    then show ?thesis using "3.IH"(1) by (simp add: unquote_text_loop.simps [of out "c # _"] front_unquote_loop.simps [of out "c # _"])
  next
    case c: True
    show ?thesis
    proof (cases "escape_kind e")
      case (Inl x)
      then show ?thesis using "3.IH"(2) c by (simp add: front_drops_escape)
    next
      case (Inr kind)
      let ?m = "escape_operands kind"
      have IH: "front_unquote_loop out (drop ?m s) = Inr t \<longleftrightarrow> unquote_text_loop out (known_escapes (drop ?m s)) = Inr t" for out
        using "3.IH"(3) [OF _ Inr] c by simp
      have "front_unquote_loop out (92 # e # s) = Inr t \<longleftrightarrow>
          (\<exists>c. text_escape e s = Inr (c, drop ?m s) \<and> front_unquote_loop (out @ [c]) (drop ?m s) = Inr t)"
      proof
        assume front: "front_unquote_loop out (92 # e # s) = Inr t"
        obtain c r where "text_escape e s = Inr (c, r)" using front_refuses_escape [OF Inr front] by blast
        then have "text_escape e s = Inr (c, drop ?m s)" using text_escape_operands [OF Inr] by blast
        then show "\<exists>c. text_escape e s = Inr (c, drop ?m s) \<and> front_unquote_loop (out @ [c]) (drop ?m s) = Inr t"
          using front front_reads_escape [of e s c "drop ?m s" out] by auto
      qed (use front_reads_escape in auto)
      moreover have "unquote_text_loop out (92 # e # take ?m s @ known_escapes (drop ?m s)) = Inr t \<longleftrightarrow>
          (\<exists>c r. text_escape e (take ?m s @ known_escapes (drop ?m s)) = Inr (c, r) \<and> unquote_text_loop (out @ [c]) r = Inr t)"
        by (subst unquote_text_loop.simps) (auto elim!: and_thenE)
      moreover have "known_escapes (drop ?m s) = [] \<or> ?m \<le> length s" by (cases "?m \<le> length s") auto
      ultimately show ?thesis using c Inr IH by (auto simp: text_escape_cut [OF Inr])
    qed
  qed
qed

section \<open>What the literals promise\<close>

text \<open>C22: Quoted literals of the prelude's \<open>String\<close> and \<open>Bytes\<close> read back: the strict reader and the
  front end's reader both give the text that was quoted, the reader of bytes gives the bytes that
  were quoted, and a quoted literal is printable ASCII.\<close>

theorem prelude_literals_round_trip:
  assumes "valid_str s"
  shows "unquote_text (quote_text s) = Inr s \<and> front_unquote (quote_text s) = Inr s
    \<and> unquote_bytes (quote_bytes bs) = Inr bs
    \<and> list_all printable (quote_text s) \<and> list_all printable (quote_bytes bs)"
  using quoted_body_quoted unquote_text_quoted [OF assms] front_unquote_quoted [OF assms] unquote_bytes_quoted quote_printable
  by (simp add: unquote_text_def front_unquote_def unquote_bytes_def quote_text_def quote_bytes_def)

lemma prelude_literals_round_trip_witness:
  "unquote_text (quote_text [34, 0xE9, 0x1F600]) = Inr [34, 0xE9, 0x1F600] \<and> front_unquote (quote_text [34, 0xE9, 0x1F600]) = Inr [34, 0xE9, 0x1F600]
    \<and> unquote_bytes (quote_bytes [0, 10, 255]) = Inr [0, 10, 255]
    \<and> list_all printable (quote_text [34, 0xE9, 0x1F600]) \<and> list_all printable (quote_bytes [0, 10, 255])"
  by (rule prelude_literals_round_trip) (simp add: is_scalar_def)

text \<open>C23: The front end's reader of a \<open>String\<close> literal reads every literal that the strict reader
  accepts as the same text, and the only other literals it reads are those with unknown escapes, which it
  drops: it gives a text exactly when the strict reader gives that text for the literal without its unknown
  escapes. A truncated or malformed escape that is known is refused by both.\<close>

theorem front_end_reads_strict_literals:
  "(unquote_text x = Inr s \<longrightarrow> front_unquote x = Inr s)
   \<and> (front_unquote x = Inr s \<longleftrightarrow>
       (\<exists>body. quoted_body x = Inr body \<and> unquote_text ([34] @ known_escapes body @ [34]) = Inr s))"
proof -
  have "unquote_text x = Inr s \<longrightarrow> front_unquote x = Inr s"
    using front_reads_text by (auto simp: unquote_text_def front_unquote_def elim!: and_thenE)
  moreover have "front_unquote x = Inr s \<longleftrightarrow> (\<exists>body. quoted_body x = Inr body \<and> front_unquote_loop [] body = Inr s)"
    by (auto simp: front_unquote_def elim!: and_thenE)
  ultimately show ?thesis
    by (simp add: front_reads_known unquote_text_def quoted_body_quoted [simplified])
qed

lemma front_end_reads_strict_literals_witness:
  "front_unquote (quote_text [92, 65]) = Inr [92, 65]
     \<and> front_unquote [34, 97, 92, 113, 98, 34] = Inr [97, 98] \<and> front_unquote [34, 92, 120, 52, 92, 113, 49, 34] \<noteq> Inr [65]"
proof -
  have "unquote_text (quote_text [92, 65]) = Inr [92, 65]"
    using unquote_text_quoted [of "[92, 65]" "[]"] quoted_body_quoted [of "quote_character 92 @ quote_character 65"]
    by (simp add: is_scalar_def unquote_text_def quote_text_def)
  moreover have "quoted_body [34, 97, 92, 113, 98, 34] = Inr [97, 92, 113, 98]"
    "unquote_text ([34] @ known_escapes [97, 92, 113, 98] @ [34]) = Inr [97, 98]" by code_simp+
  moreover have "quoted_body [34, 92, 120, 52, 92, 113, 49, 34] = Inr [92, 120, 52, 92, 113, 49]"
    "unquote_text ([34] @ known_escapes [92, 120, 52, 92, 113, 49] @ [34]) = Inl (lit ''invalid Unicode escape'')" by code_simp+
  ultimately show ?thesis
    using front_end_reads_strict_literals [of "quote_text [92, 65]" "[92, 65]"]
      front_end_reads_strict_literals [of "[34, 97, 92, 113, 98, 34]" "[97, 98]"]
      front_end_reads_strict_literals [of "[34, 92, 120, 52, 92, 113, 49, 34]" "[65]"] by auto
qed

end
