(* ===== verification/Domain_Token.thy ===== *)
theory Domain_Token
  imports Domain_Canonical Domain_String
begin

text \<open>
  The value that a token denotes (\<open>k-rust-domain/src/token.rs\<close>): the payload of a token, its value
  under a declaration of its sort, and the comparison of the tokens of K's prelude. A value is the
  byte list of its payload. In the results an outer None is a panic.

  The theorems: no token panics; two integer tokens are one value exactly when they are one integer,
  two machine-integer tokens exactly when they are congruent modulo their width; two byte-string
  tokens exactly when they write the same bytes; the key of a value names no other.
\<close>

section \<open>Tokens\<close>

definition token_payload :: "str \<Rightarrow> str option \<Rightarrow> bool \<Rightarrow> str + byte list" where
  "token_payload token hook bytes =
     (let encode = (\<lambda>txt.
            if \<not> bytes then Inr (str_bytes txt)
            else if list_all (\<lambda>c. c \<le> 0xFF) txt then Inr (map of_nat txt)
            else Inl (lit ''a code point above U+00FF in a value of '' @ BYTES_SORT @ lit '', whose values are bytes'')) in
      if hook = Some (lit ''STRING.String'') then and_then (unquote_text token) encode
      else if hook = Some (lit ''BYTES.Bytes'') then
        and_then
          (case strip_prefix (lit ''b'') token of
             None \<Rightarrow> Inl (lit ''expected a leading `b`'')
           | Some literal \<Rightarrow> unquote_bytes literal)
          (\<lambda>v. if bytes then Inr v else encode (map unat v))
      else encode token)"

definition token_value ::
    "('n, 'i) num_bigint \<Rightarrow> float_texts \<Rightarrow> sort \<Rightarrow> str option \<Rightarrow> bool \<Rightarrow> str \<Rightarrow> byte list option option" where
  "token_value B F s hook has_domain_values token =
     (case of_declared_sort s has_domain_values hook of
        None \<Rightarrow> Some None
      | Some kind \<Rightarrow>
          (case token_payload token hook (is_nullary s BYTES_SORT) of
             Inl _ \<Rightarrow> Some None
           | Inr payload \<Rightarrow>
               (case validate_text F kind s payload of
                  Inl _ \<Rightarrow> Some None
                | Inr _ \<Rightarrow>
                    map_option (\<lambda>canonical. Some (case canonical of Some t \<Rightarrow> str_bytes t | None \<Rightarrow> payload))
                      (canonical_text B F kind s payload))))"

definition token_key :: "byte list \<Rightarrow> str" where
  "token_key v = concat (map (\<lambda>b. hex_pad 2 (unat b)) v)"

definition prelude_hook :: "str \<Rightarrow> nat \<Rightarrow> str option" where
  "prelude_hook name arity =
     map_option snd (find (\<lambda>((n, a), _). name = n \<and> arity = a)
       [((lit ''Int'', 0), lit ''INT.Int''), ((lit ''Bool'', 0), lit ''BOOL.Bool''),
        ((lit ''Float'', 0), lit ''FLOAT.Float''), ((lit ''String'', 0), lit ''STRING.String''),
        ((lit ''Bytes'', 0), lit ''BYTES.Bytes''), ((lit ''MInt'', 1), lit ''MINT.MInt'')])"

definition prelude_token_value ::
    "('n, 'i) num_bigint \<Rightarrow> float_texts \<Rightarrow> str \<Rightarrow> str \<Rightarrow> byte list option option" where
  "prelude_token_value B F name token =
     (case prelude_hook name 0 of
        None \<Rightarrow> Some None
      | Some hook \<Rightarrow> token_value B F (SortApplication (lit ''Sort'' @ name) []) (Some hook) True token)"

definition same_prelude_token ::
    "('n, 'i) num_bigint \<Rightarrow> float_texts \<Rightarrow> str \<Rightarrow> str \<Rightarrow> str \<Rightarrow> bool option" where
  "same_prelude_token B F name l r =
     (if l = r then Some True
      else
        (case prelude_token_value B F name l of
           None \<Rightarrow> None
         | Some left \<Rightarrow>
             map_option (\<lambda>right. left \<noteq> None \<and> left = right) (prelude_token_value B F name r)))"

section \<open>Facts\<close>

lemma digits_valid: "list_all is_ascii_digit s \<Longrightarrow> valid_str s"
  by (auto simp: valid_str_def is_ascii_digit_def is_scalar_def list_all_iff)

lemma decimal_integer_valid: "is_decimal_integer s \<Longrightarrow> valid_str s"
  by (auto simp: is_decimal_integer_def strip_sign_def is_scalar_def digits_valid is_ascii_digit_def split: list.splits if_splits)

lemma signed_decimal_valid: "valid_str (signed_decimal i)"
  by (simp add: signed_decimal_def decimal_digits digits_valid is_scalar_def)

lemma str_bytes_inject: "valid_str s \<Longrightarrow> valid_str t \<Longrightarrow> str_bytes s = str_bytes t \<longleftrightarrow> s = t"
  by (metis from_utf8_str_bytes sum.inject(2))

lemma token_key_inject: "token_key v = token_key w \<longleftrightarrow> v = w"
proof
  have bounded: "unat (a :: byte) < 256" for a using unsigned_less [of a, where ?'a = nat] by simp
  have hex: "a = b" if "hex_pad 2 (unat a) = hex_pad 2 (unat b)" for a b :: byte
    using that read_hex_pad [of "unat a" 2 0 "[]"] read_hex_pad [of "unat b" 2 0 "[]"] bounded [of a] bounded [of b] by (simp add: word_unat_eq_iff)
  assume "token_key v = token_key w"
  then show "v = w"
  proof (induction v arbitrary: w)
    case Nil
    then show ?case by (cases w) (auto simp: token_key_def numeral_2_eq_2)
  next
    case (Cons b v)
    then obtain c u where w: "w = c # u" by (cases w) (auto simp: token_key_def numeral_2_eq_2)
    then have "hex_pad 2 (unat b) @ token_key v = hex_pad 2 (unat c) @ token_key u"
      using Cons.prems by (simp add: token_key_def)
    then show ?case using Cons.IH [of u] hex [of b c] w by simp
  qed
qed simp

context big_integers
begin

text \<open>Reading a number never fails, so no token panics.\<close>

lemma canonical_mint_answers: "canonical_mint_text B width s t \<noteq> None"
proof -
  have "parse_mint_literal t = Some l \<Longrightarrow> parse_natural B (ml_magnitude l) \<noteq> None" for l
    using parses_natural [OF mint_digits(1,2)] by fastforce
  then show ?thesis by (auto simp: canonical_mint_text_def Let_def split: mint_width.split option.split)
qed

lemma canonical_answers: "canonical_text B F kind s payload \<noteq> None"
  using canonical_mint_answers by (auto simp: canonical_text_def split: domain_kind.split sum.split)

lemma token_answers: "token_value B F s hook has_domain_values token \<noteq> None"
  using canonical_answers by (auto simp: token_value_def split: option.split sum.split)

lemma prelude_answers: "prelude_token_value B F name token \<noteq> None"
  unfolding prelude_token_value_def using token_answers by (cases "prelude_hook name 0") (simp_all del: not_None_eq)

lemma comparison_answers: "same_prelude_token B F name l r \<noteq> None"
  using prelude_answers [of F name l] prelude_answers [of F name r] by (auto simp: same_prelude_token_def)

lemma int_token:
  assumes "is_decimal_integer t"
  shows "prelude_token_value B F (lit ''Int'') t = Some (Some (str_bytes (signed_decimal (decimal_integer t))))"
  using canonical_int [OF assms] decimal_integer_valid [OF assms] assms
  by (auto simp: prelude_token_value_def prelude_hook_def token_value_def of_declared_sort_def is_nullary_def
      INT_SORT_def BYTES_SORT_def token_payload_def validate_text_def canonical_text_def split: option.splits)

lemma mint_token:
  assumes s: "mint_width_of s = Some (Bits bits)" "bits \<le> MAX_INT_RESULT_BITS" "mint_width_digits s = Some digits"
    and t: "valid_str t" "parse_mint_literal t = Some l" "names_width l digits"
  shows "token_value B F s (Some (lit ''MINT.MInt'')) True t
    = Some (Some (str_bytes (decimal (nat (mint_value l mod 2 ^ bits)) @ lit ''p'' @ digits)))"
proof -
  obtain a where a: "s = SortApplication MINT_SORT [a]"
    using s(1) by (cases s rule: as_application.cases) (auto simp: mint_width_of_def split: list.splits if_splits)
  have bound: "\<not> mint_width_beyond_bound (Bits bits)" using s(2) by (simp add: mint_width_beyond_bound_def)
  then obtain kept where kept: "canonical_mint_text B (Bits bits) s t = Some kept"
      "(case kept of None \<Rightarrow> t | Some t' \<Rightarrow> t') = decimal (nat (mint_value l mod 2 ^ bits)) @ lit ''p'' @ digits"
    using canonical_mint [OF s(3) t(2,3), of bits] by blast
  have kind: "of_declared_sort s True (Some (lit ''MINT.MInt'')) = Some (KMInt (Bits bits))" "is_nullary s BYTES_SORT = False"
    using s(1) by (simp_all add: of_declared_sort_def is_nullary_def a)
  have payload: "token_payload t (Some (lit ''MINT.MInt'')) False = Inr (str_bytes t)" by (simp add: token_payload_def)
  have valid: "validate_text F (KMInt (Bits bits)) s (str_bytes t) = Inr ()"
    using t s(3) bound by (simp add: validate_text_def)
  have canonical: "canonical_text B F (KMInt (Bits bits)) s (str_bytes t) = Some kept"
    using kept(1) t(1) by (simp add: canonical_text_def)
  show ?thesis
    unfolding token_value_def kind payload option.case sum.case valid canonical kept(2) [symmetric] by (cases kept) simp_all
qed

end

lemma byte_token:
  "prelude_token_value B F (lit ''Bytes'') t =
     Some (case strip_prefix (lit ''b'') t of
             None \<Rightarrow> None
           | Some literal \<Rightarrow> (case unquote_bytes literal of Inl _ \<Rightarrow> None | Inr v \<Rightarrow> Some v))"
  by (simp add: prelude_token_value_def prelude_hook_def token_value_def of_declared_sort_def is_nullary_def
      INT_SORT_def BOOL_SORT_def BYTES_SORT_def token_payload_def validate_text_def canonical_text_def split: option.split sum.split)

section \<open>The values of tokens\<close>

text \<open>No token panics. Under the documented behaviour of \<open>num_bigint\<close>, reading the value of any token of
any sort under any declaration, and comparing any two tokens of any name of the prelude, returns: the
\<open>expect\<close> on the digits of a machine-integer literal cannot fail.\<close>

theorem tokens_never_panic:
  assumes "big_integers B natural integer"
  shows "token_value B F s hook has_domain_values token \<noteq> None \<and> same_prelude_token B F name l r \<noteq> None"
  using big_integers.token_answers [OF assms] big_integers.comparison_answers [OF assms] by blast

definition no_floats :: float_texts where
  "no_floats = \<lparr>float_canonical_bits_estimate = (\<lambda>_. Inl FloatNotALiteral), canonical_float_text = (\<lambda>_. Inl FloatNotALiteral)\<rparr>"

lemma tokens_never_panic_witness:
  "same_prelude_token plain_bigint no_floats (lit ''Float'') (lit ''1.5'') (lit ''1.50'') \<noteq> None"
  using tokens_never_panic [OF plain.big_integers_axioms] by blast

text \<open>C21: two integer tokens denote one value exactly when they denote one integer: \<open>1\<close>, \<open>+1\<close> and \<open>01\<close> are one
term, \<open>0\<close> and \<open>-0\<close> are, and no two different integers are.\<close>

theorem integer_tokens_are_integers:
  assumes "big_integers B natural integer" and "is_decimal_integer x" and "is_decimal_integer y"
  shows "same_prelude_token B F (lit ''Int'') x y = Some (decimal_integer x = decimal_integer y)"
proof -
  note token = big_integers.int_token [OF assms(1)]
  show ?thesis
    using token [OF assms(2), of F] token [OF assms(3), of F]
    by (simp add: same_prelude_token_def str_bytes_inject signed_decimal_valid)
qed

lemma integer_tokens_are_integers_witness:
  "same_prelude_token plain_bigint no_floats (lit ''Int'') (lit ''-00'') (lit ''+0'') = Some True
     \<and> same_prelude_token plain_bigint no_floats (lit ''Int'') (lit ''1'') (lit ''-1'') = Some False"
proof -
  have decimals: "is_decimal_integer (lit ''-00'')" "is_decimal_integer (lit ''+0'')" "is_decimal_integer (lit ''1'')" "is_decimal_integer (lit ''-1'')"
    by code_simp+
  have numbers: "(decimal_integer (lit ''-00'') = decimal_integer (lit ''+0'')) = True"
    "(decimal_integer (lit ''1'') = decimal_integer (lit ''-1'')) = False"
    by code_simp+
  note equal = integer_tokens_are_integers [OF plain.big_integers_axioms]
  show ?thesis
    unfolding equal [OF decimals(1,2)] equal [OF decimals(3,4)] numbers by simp
qed

text \<open>C19: two machine-integer tokens of a sort whose width a result may have denote one value exactly when
their integers are congruent modulo two to the width, whatever their signs, leading zeros and separators.\<close>

theorem machine_integer_tokens_are_residues:
  assumes "big_integers B natural integer"
    and "mint_width_of s = Some (Bits bits)" and "bits \<le> MAX_INT_RESULT_BITS" and "mint_width_digits s = Some digits"
    and "valid_str x" and "parse_mint_literal x = Some l" and "names_width l digits"
    and "valid_str y" and "parse_mint_literal y = Some r" and "names_width r digits"
  shows "token_value B F s (Some (lit ''MINT.MInt'')) True x = token_value B F s (Some (lit ''MINT.MInt'')) True y
    \<longleftrightarrow> mint_value l mod 2 ^ bits = mint_value r mod 2 ^ bits"
proof -
  note token = big_integers.mint_token [OF assms(1-4)]
  have "valid_str digits" using mint_width_digits_ascii [OF assms(4)] digits_valid by blast
  then have valid: "valid_str (decimal n @ lit ''p'' @ digits)" for n
    by (simp add: decimal_digits digits_valid is_scalar_def)
  have "nat (mint_value l mod 2 ^ bits) = nat (mint_value r mod 2 ^ bits) \<longleftrightarrow> mint_value l mod 2 ^ bits = mint_value r mod 2 ^ bits"
    by (rule eq_nat_nat_iff) simp_all
  then show ?thesis
    unfolding token [OF assms(5-7)] token [OF assms(8-10)] option.inject str_bytes_inject [OF valid valid] append_same_eq decimal_inject .
qed

lemma machine_integer_tokens_are_residues_witness:
  "(let s = SortApplication MINT_SORT [SortApplication (lit ''Sort8'') []];
        v = token_value plain_bigint no_floats s (Some (lit ''MINT.MInt'')) True in
    v (lit ''-1p8'') = v (lit ''0255P08'') \<and> v (lit ''-1p8'') \<noteq> v (lit ''1p8''))"
proof -
  let ?s = "SortApplication MINT_SORT [SortApplication (lit ''Sort8'') []]"
  have s: "mint_width_of ?s = Some (Bits 8)" "8 \<le> MAX_INT_RESULT_BITS" "mint_width_digits ?s = Some (lit ''8'')"
    by code_simp+
  have literal: "valid_str (lit ''-1p8'')" "parse_mint_literal (lit ''-1p8'') = Some \<lparr>ml_sign = Some 45, ml_magnitude = lit ''1'', ml_separator = 112, ml_width = lit ''8''\<rparr>"
    "valid_str (lit ''0255P08'')" "parse_mint_literal (lit ''0255P08'') = Some \<lparr>ml_sign = None, ml_magnitude = lit ''0255'', ml_separator = 80, ml_width = lit ''08''\<rparr>"
    "valid_str (lit ''1p8'')" "parse_mint_literal (lit ''1p8'') = Some \<lparr>ml_sign = None, ml_magnitude = lit ''1'', ml_separator = 112, ml_width = lit ''8''\<rparr>"
    by code_simp+
  note equal = machine_integer_tokens_are_residues [OF plain.big_integers_axioms s, of "lit ''-1p8''", OF literal(1,2)]
  show ?thesis
    unfolding Let_def
    by (subst equal [OF _ literal(3,4)], simp add: names_width_def, simp add: names_width_def,
        subst equal [OF _ literal(5,6)], simp add: names_width_def, simp add: names_width_def,
        simp add: mint_value_def digits_number_def)
qed

text \<open>Two byte-string tokens denote one value exactly when they are one text or both are literals of the
same bytes; and the key of a value names no other value.\<close>

theorem byte_tokens_are_bytes:
  "same_prelude_token B F (lit ''Bytes'') x y =
     Some (x = y \<or> (\<exists>v t u. x = lit ''b'' @ t \<and> y = lit ''b'' @ u \<and> unquote_bytes t = Inr v \<and> unquote_bytes u = Inr v))
   \<and> (token_key v = token_key w \<longleftrightarrow> v = w)"
proof -
  have prefix: "strip_prefix (lit ''b'') x = Some t \<longleftrightarrow> x = lit ''b'' @ t" for x t
    by (cases x) (auto simp: strip_prefix_def)
  have read: "prelude_token_value B F (lit ''Bytes'') x = Some (Some v) \<longleftrightarrow> (\<exists>t. x = lit ''b'' @ t \<and> unquote_bytes t = Inr v)" for x v
    unfolding byte_token prefix [symmetric] by (auto split: option.split sum.split)
  obtain l r where lr: "prelude_token_value B F (lit ''Bytes'') x = Some l" "prelude_token_value B F (lit ''Bytes'') y = Some r"
    unfolding byte_token by blast
  have same: "same_prelude_token B F (lit ''Bytes'') x y = Some (x = y \<or> (\<exists>v. l = Some v \<and> r = Some v))"
    unfolding same_prelude_token_def lr by (cases l) auto
  have both: "(\<exists>v. l = Some v \<and> r = Some v)
      \<longleftrightarrow> (\<exists>v t u. x = lit ''b'' @ t \<and> y = lit ''b'' @ u \<and> unquote_bytes t = Inr v \<and> unquote_bytes u = Inr v)"
    using read [of x] read [of y] unfolding lr by auto
  show ?thesis unfolding same both token_key_inject by (rule conjI refl)+
qed

end
