(* ===== verification/Spec2Isabelle.thy ===== *)
theory Spec2Isabelle
  imports Kore_Sort_Walk Kore_Variables Kore_Flatten Kore_Associate Kore_Lexical Kore_Reparse Kore_Binary_Safety Kore_Node Json_Safety Kore_Codec Regex_Roundtrip Regex_Flex Regex_Rust Domain_Token
begin

text \<open>
  A verification development for the KORE core of k-rust, an implementation of the K framework in Rust.

  The crate \<open>k-rust-kore\<close> (\<open>src/crates/k-rust-kore/src\<close>) holds the syntax trees of KORE, the language
  that the K front end compiles to and that the backends read, and everything that reads, writes and
  transforms them: the lexer, the parser and the printer of the textual form, the codecs of the
  binary form and of the JSON form, the walkers that the rest of the program traverses patterns with.
  The crate \<open>k-rust-regex\<close> (\<open>src/crates/k-rust-regex/src/lib.rs\<close>) holds the token regular expressions
  from which the scanners are made. The crate \<open>k-rust-domain\<close> (\<open>src/crates/k-rust-domain/src\<close>) says what
  the builtin tokens of K denote: integers, machine integers, strings, byte strings, Booleans and
  floats. This development models the first two, and the third but for its floats. Everything else
  in the repository is a client of the three.

  \<^bold>\<open>How the parts interact.\<close> A text is cut into tokens (\<open>Kore_Lexer\<close>); the parser
  (\<open>Kore_Parser\<close>, \<open>Kore_Pattern_Parser\<close>, \<open>Kore_Definition_Parser\<close>) turns the tokens into the trees of
  \<open>Kore_Ast\<close>, decoding literals with \<open>Kore_String\<close>; the printer (\<open>Kore_Printer\<close>) turns trees into
  documents, which the renderer (\<open>Kore_Document\<close>) lays out as text. \<open>Kore_Binary\<close>, and \<open>Kore_Json\<close> with
  \<open>Kore_Json_Reader\<close> over the JSON trees of \<open>Json_Tree\<close>, are the two other forms of a pattern;
  \<open>Kore_Codec\<close> looks at the first bytes of an input and calls the reader of its form. \<open>Kore_Node\<close> reads
  patterns one node at a time from any source, owned trees among them, and the JSON writers are
  written against that interface. The walkers (\<open>Kore_Walk\<close>, \<open>Kore_Variables\<close>, \<open>Kore_Flatten\<close>,
  \<open>Kore_Normalize\<close>, \<open>Kore_Associate\<close>) transform trees in place or rebuild them. \<open>Domain_Token\<close> reads the
  value of a token: it finds the kind of the token's sort (\<open>Domain_Kind\<close>), unquotes the token
  (\<open>Domain_String\<close>), and validates and canonicalizes the text (\<open>Domain_Text\<close>).

  \<^bold>\<open>The theories, and the sources they model.\<close>

  \<^item> \<open>Kore_Prelude\<close>, \<open>Rust_Text\<close>, \<open>Rust_Reading\<close>: bytes, characters and strings, results and their
    propagation, the orders of \<open>Ord::cmp\<close>; of Rust's library, what the sources use: UTF-8 encoding and
    decoding, character classes, reading of numbers, byte chunks. Strings are lists of Unicode scalar
    values (\<open>valid_str\<close> says so); byte offsets are sums of \<open>len_utf8\<close>.
  \<^item> \<open>Kore_Ast\<close>, \<open>Kore_Sort_Walk\<close>, \<open>Kore_Pattern_Order\<close>: \<open>kore/ast.rs\<close>. The enums are datatypes with one
    constructor for each variant, the structs are records. Comparison, copy and drop run on explicit
    stacks, with the recursion limit of the sorts; the lemmas say that they compute the derived orders,
    copies, and that no \<open>expect\<close> fails. The derived order of patterns is stated on its own, as the
    comparison of the sequences \<open>pattern_key\<close> of ranks and fields.
  \<^item> \<open>Kore_Walk\<close>, \<open>Kore_Variables\<close>, \<open>Kore_Flatten\<close>: \<open>kore/walk.rs\<close>, each traversal as its loop over a work
    list, beside the recursion it computes. Substitution avoids capture, and means what a
    reference definition says.
  \<^item> \<open>Kore_Normalize\<close>, \<open>Kore_Associate\<close>: \<open>kore/normalize.rs\<close> and \<open>kore/associate.rs\<close>. Normalization
    keeps the meaning of a pattern in every model of matching logic (\<open>kore_model\<close>, \<open>meaning\<close>), and
    association its expansion into binary applications. The work list of mutable
    references of \<open>associate\<close> is a list of paths into the tree that the loop carries.
  \<^item> \<open>Kore_Lexical\<close>, \<open>Kore_Lexer\<close>, \<open>Kore_Tokens\<close>, \<open>Kore_Lexer_Facts\<close>: \<open>kore/lexical.rs\<close> and
    \<open>kore/lexer.rs\<close>, with every error offset; the lemmas say when a text is one token, and that tokens
    with spaces between them lex to themselves.
  \<^item> \<open>Kore_String\<close>: \<open>kore/string.rs\<close>, the escapes of literals and their payloads.
  \<^item> \<open>Kore_Parser\<close>, \<open>Kore_Pattern_Parser\<close>, \<open>Kore_Definition_Parser\<close>: \<open>kore/parser\<close>, a record for the state
    and the frames of the stacks, a function for each method. \<open>Kore_Grammar\<close>, \<open>Kore_Pattern_Grammar\<close>,
    \<open>Kore_Pattern_Machine\<close> and \<open>Kore_Sentence_Grammar\<close> state the grammar of KORE as derivations, and
    show that a text is accepted exactly when it lexes to tokens the grammar derives, with the tree
    of the derivation.
  \<^item> \<open>Kore_Document\<close>, \<open>Kore_Printer\<close>: \<open>kore/printer/document.rs\<close> and \<open>kore/printer.rs\<close>.
    \<open>Kore_Token_Stream\<close>, \<open>Kore_Print_Parse\<close>, \<open>Kore_Roundtrip\<close> and \<open>Kore_Reparse\<close> show that every layout
    of what is printed parses back, and that what is parsed prints as a text that parses to the same tree.
  \<^item> \<open>Kore_Binary\<close>, \<open>Kore_Binary_Roundtrip\<close>, \<open>Kore_Binary_Safety\<close>: \<open>kore/binary.rs\<close>, the decoder as a
    stack machine over tagged blocks, the encoder as a stack of tasks.
  \<^item> \<open>Kore_Node\<close>: \<open>kore/node.rs\<close>, parametric in the source of the patterns.
  \<^item> \<open>Json_Tree\<close>, \<open>Json_Text\<close>, \<open>Json_Parse\<close>, \<open>Json_Roundtrip\<close>, \<open>Json_Safety\<close>: \<open>json_tree.rs\<close>.
  \<^item> \<open>Kore_Json\<close>, \<open>Kore_Json_Text\<close>, \<open>Kore_Json_Reader\<close>, \<open>Kore_Json_Roundtrip\<close>, \<open>Kore_Json_Safety\<close>:
    \<open>kore/json.rs\<close>, the direct writer and the one over JSON trees, and the reader.
  \<^item> \<open>Kore_Codec\<close>: \<open>kore/codec.rs\<close>.
  \<^item> \<open>Regex_Syntax\<close>, \<open>Regex_Parser\<close>, \<open>Regex_Roundtrip\<close>, \<open>Regex_Scalars\<close>, \<open>Regex_Language\<close>, \<open>Regex_Flex\<close>,
    \<open>Regex_Rust\<close>: \<open>k-rust-regex\<close>: the tree, the parser with its errors, the canonical printer, sets of
    characters as ranges and as ranges of UTF-8 bytes, and the printers for Flex and for Rust's \<open>regex\<close>
    crate against the languages that these are documented to read. Flex has no repetition of zero
    times, so the theorem on its printer takes the bodies whose counts it reads (\<open>flex_repetition\<close>).
  \<^item> \<open>Rust_Number\<close>, \<open>Domain_String\<close>, \<open>Domain_Kind\<close>, \<open>Domain_Text\<close>, \<open>Domain_Canonical\<close>, \<open>Domain_Token\<close>:
    decimal numbers, and \<open>string.rs\<close>, \<open>kind.rs\<close>, \<open>text.rs\<close> and \<open>token.rs\<close> of \<open>k-rust-domain\<close>. The lemmas
    say that literals round trip, that the front end's reader is the strict one after unknown escapes
    are dropped (\<open>known_escapes\<close>), that the test for a literal outside its
    width decides by the number it denotes, and that two tokens are one value exactly when they
    denote one integer, one residue, or one sequence of bytes.

  \<^bold>\<open>Failure.\<close> A function that returns \<open>Result\<close> in the source returns a sum here: \<open>Inl\<close> of the error,
  with its offset and its message, or \<open>Inr\<close> of the value. What would be a panic in the source (an
  \<open>expect\<close>, an \<open>unreachable!\<close>, an index or a slice out of range, an underflow) is a value of its own,
  so that a theorem can exclude it: \<open>Panic\<close> among the faults of the parser (and \<open>Diverges\<close> for a list
  whose element parser takes no token), \<open>BinPanic\<close> for the binary codec, \<open>JsonPanic\<close> for the JSON trees,
  \<open>JPanicked\<close> for KORE JSON, \<open>CodecPanic\<close> for the choice of the encoding, and the value None of an
  option elsewhere. A loop that is not structural has a termination proof, or is a partial function in
  the option monad that is shown to return; there is no fuel.

  \<^bold>\<open>Numbers.\<close> Bytes are 8-bit words, and the versions of binary KORE signed 16-bit words. Lengths and
  offsets, \<open>usize\<close> in the source, are natural numbers: they count bytes or elements of values in
  memory, so they do not overflow. The exceptions are the column and the indentation of the
  printer: the indentation per level is an option, so they are reduced modulo \<open>2 ^ 64\<close> as in a release build, and
  \<open>render_with True\<close> is the build with overflow checks, where an overflow is a panic; the two agree while
  the text and its indentation stay below \<open>2 ^ 64\<close> (\<open>extent\<close>). Where
  the source checks an operation, or reads a length from an input, the bound \<open>2 ^ 64\<close> is written out. The round trip of binary KORE assumes that lengths are
  below \<open>2 ^ 63\<close>, which is as long as a Rust allocation can be. The indentation of the pretty JSON
  formatter stops at the cap of the source.

  \<^bold>\<open>Parameters.\<close> \<open>serde_json\<close> is not part of the sources: what the code calls of it is the record
  \<open>json_library\<close>, and \<open>json_laws\<close> and \<open>kore_json_laws\<close> state the documented behaviour that the proofs
  rely on; \<open>sample_library\<close> is a concrete library that satisfies both. A source of patterns is a
  function \<open>node\<close>, under the contract of the locale \<open>pattern_source\<close>. How Flex and the \<open>regex\<close> crate read
  the tokens of a pattern is stated by \<open>flex_tokens\<close> and \<open>rust_tokens\<close>. Of \<open>num_bigint\<close>, the record
  \<open>num_bigint\<close> holds what the code calls, under the laws of the locale \<open>big_integers\<close>, which
  \<open>plain_bigint\<close> satisfies. The two functions on float texts are the record \<open>float_texts\<close>, of which
  nothing is assumed.

  \<^bold>\<open>Interfaces.\<close> A locale states each contract between components, and is interpreted on the model's
  definitions: \<open>weak_cmp\<close> and \<open>total_cmp\<close> for comparisons; \<open>tree_order\<close> and \<open>cmp_machine\<close> for an order of
  trees and the work list that computes it (sorts, patterns); \<open>prefix_codec\<close> and \<open>exact_codec\<close> for
  UTF-8; \<open>element_parser\<close> for what a delimited list asks of its elements (names, sorts, alias variables,
  patterns); \<open>item_loop\<close> for the loops over sentences and modules; \<open>pattern_source\<close>, \<open>shared_source\<close> and
  \<open>identified_source\<close> for the readers of nodes; \<open>json_layout\<close> and \<open>blank_layout\<close> for the formatters of
  JSON; \<open>big_integers\<close> for the arithmetic of the domain values.

  \<^bold>\<open>Not modelled.\<close> In \<open>k-rust-kore\<close>: the tables of well-known names (\<open>names.rs\<close>: constants), the work
  counters and the aggregation of traces (\<open>measure.rs\<close>, \<open>trace_aggregate.rs\<close>: measurement only), the
  \<open>Debug\<close> and \<open>Display\<close> output of error types that print characters in Rust's debug format, the calls
  that hand an arbitrary value to serde, writers that fail, and the modules compiled for tests. In
  \<open>k-rust-domain\<close>: the texts of floats (\<open>float.rs\<close>, \<open>float/canonical.rs\<close>), which rest on the native parsing
  and formatting of floating-point numbers and on estimates over big integers. Outside the three crates:
  the K front end (outer and inner parsing, compilation, JSON-RPC and the command line), the symbolic
  execution backend, the fuzzer and benchmarks, and the bindings. They are programs of their own above
  the three crates, and the first two are each larger than this development.
\<close>

end
